(* ===== verification/Prelude.thy ===== *)
theory Prelude
  imports Main "HOL-Library.Word"
begin

text \<open>
  Shared vocabulary of the development: bytes and byte strings, \<open>size_t\<close> arithmetic, big-endian
  and little-endian byte strings of words with their round trips, and the interfaces (locales) that
  the byte-level components of the program implement:
  \<^item> \<open>reader\<close>: an operation that consumes a prefix of the bytes it is given, whether or not it
    succeeds;
  \<^item> \<open>codec\<close>: a parser that inverts an encoder on the encoder's output followed by anything;
  \<^item> \<open>canonical_codec\<close>: a codec whose parser accepts nothing but encodings.
\<close>

unbundle bit_operations_syntax

type_synonym byte = "8 word"
type_synonym bytes = "byte list"

text \<open>The code runs with a 64-bit \<open>size_t\<close>: lengths are natural numbers, and the additions that the
  code itself checks for overflow are written with their wrap-around.\<close>

abbreviation SIZE_MOD :: nat where
  "SIZE_MOD \<equiv> 18446744073709551616"

definition szadd :: "nat \<Rightarrow> nat \<Rightarrow> nat" where
  "szadd a b = (a + b) mod SIZE_MOD"

definition szmul :: "nat \<Rightarrow> nat \<Rightarrow> nat" where
  "szmul a b = (a * b) mod SIZE_MOD"

lemma szadd_small [simp]: "a + b < SIZE_MOD \<Longrightarrow> szadd a b = a + b"
  by (simp add: szadd_def)

lemma szmul_small [simp]: "a * b < SIZE_MOD \<Longrightarrow> szmul a b = a * b"
  by (simp add: szmul_def)

lemma szadd_lt [simp]: "szadd a b < SIZE_MOD"
  by (simp add: szadd_def)

text \<open>The overflow check \<open>a + b < a\<close> of the code detects exactly the additions that wrap.\<close>

lemma szadd_overflow:
  assumes "a < SIZE_MOD" "b < SIZE_MOD"
  shows "szadd a b < a \<longleftrightarrow> SIZE_MOD \<le> a + b"
proof
  assume "szadd a b < a" then show "SIZE_MOD \<le> a + b"
    using assms by (auto simp: szadd_def not_le intro: ccontr)
next
  assume "SIZE_MOD \<le> a + b"
  then have "(a + b) mod SIZE_MOD = a + b - SIZE_MOD"
    using assms by (simp add: le_mod_geq)
  then show "szadd a b < a"
    using \<open>SIZE_MOD \<le> a + b\<close> assms by (simp add: szadd_def)
qed

named_theorems consumes_intros \<open>facts that an operation leaves a suffix of its input\<close>
named_theorems be_simps \<open>byte strings of words\<close>

section \<open>Big-endian and little-endian byte strings\<close>

text \<open>\<open>be_bytes n v\<close> is the reference for the \<open>n\<close>-byte big-endian encoding of \<open>v\<close>; \<open>be_val\<close> reads
  bytes back the way the code's loops do.\<close>

fun be_bytes :: "nat \<Rightarrow> 64 word \<Rightarrow> bytes" where
  "be_bytes 0 v = []"
| "be_bytes (Suc n) v = be_bytes n (drop_bit 8 v) @ [ucast v]"

definition be_val :: "bytes \<Rightarrow> 64 word" where
  "be_val bs = foldl (\<lambda>r b. push_bit 8 r OR ucast b) 0 bs"

lemma length_be_bytes [simp]: "length (be_bytes n v) = n"
  by (induction n arbitrary: v) auto

lemma be_val_Nil [simp]: "be_val [] = 0"
  by (simp add: be_val_def)

lemma be_val_snoc [simp]: "be_val (bs @ [b]) = push_bit 8 (be_val bs) OR ucast b"
  by (simp add: be_val_def)

lemma join_low_byte:
  "push_bit 8 (take_bit m (drop_bit 8 v)) OR ucast (ucast v :: byte) = (take_bit (m + 8) v :: 64 word)"
proof (rule bit_eqI)
  fix n
  assume "possible_bit TYPE(64 word) n"
  then show "bit (push_bit 8 (take_bit m (drop_bit 8 v)) OR ucast (ucast v :: byte)) n
      = bit (take_bit (m + 8) v) n"
    by (cases "n < 8") (auto simp: bit_simps)
qed

lemma be_val_be_bytes [be_simps]: "be_val (be_bytes n v) = take_bit (8 * n) v"
proof (induction n arbitrary: v)
  case 0
  then show ?case by simp
next
  case (Suc n)
  then show ?case using join_low_byte [of "8 * n" v] by (simp add: algebra_simps)
qed

lemma bit_byte_ge [simp]: "8 \<le> n \<Longrightarrow> \<not> bit (b :: byte) n"
  using bit_imp_le_length [of b n] by auto

lemma take_bit_64 [simp]: "take_bit 64 v = (v :: 64 word)"
  by (rule bit_eqI) (auto simp: bit_simps)

lemma drop_bit_join_byte:
  "drop_bit 8 (push_bit 8 v OR ucast (b :: byte)) = (take_bit 56 v :: 64 word)"
  by (rule bit_eqI) (auto simp: bit_simps)

lemma ucast_join_byte: "ucast (push_bit 8 (v :: 64 word) OR ucast (b :: byte)) = b"
  by (rule bit_eqI) (auto simp: bit_simps)

lemma be_val_bound: "take_bit (8 * length bs) (be_val bs) = be_val bs"
proof (induction bs rule: rev_induct)
  case Nil
  then show ?case by simp
next
  case (snoc b bs)
  show ?case
  proof (rule bit_eqI)
    fix n
    assume n: "possible_bit TYPE(64 word) n"
    have IH: "bit (be_val bs) k \<longleftrightarrow> k < 8 * length bs \<and> bit (be_val bs) k" for k
      by (metis snoc bit_take_bit_iff)
    have byte: "bit b k \<Longrightarrow> k < 8" for k
      using bit_imp_le_length [of b k] by simp
    show "bit (take_bit (8 * length (bs @ [b])) (be_val (bs @ [b]))) n
        = bit (be_val (bs @ [b])) n"
      using IH [of "n - 8"] byte [of n] by (auto simp: bit_simps)
  qed
qed

lemma be_bytes_take_bit: "8 * n \<le> m \<Longrightarrow> be_bytes n (take_bit m v) = be_bytes n v"
proof (induction n arbitrary: v m)
  case 0
  then show ?case by simp
next
  case (Suc n)
  have "drop_bit 8 (take_bit m v) = take_bit (m - 8) (drop_bit 8 v)"
    by (rule bit_eqI) (auto simp: bit_simps)
  moreover have "ucast (take_bit m v) = (ucast v :: byte)"
    using Suc.prems by (intro bit_eqI) (auto simp: bit_simps)
  ultimately show ?case using Suc.prems Suc.IH [of "m - 8" "drop_bit 8 v"] by simp
qed

lemma be_bytes_be_val [be_simps]: "length bs \<le> 8 \<Longrightarrow> be_bytes (length bs) (be_val bs) = bs"
proof (induction bs rule: rev_induct)
  case Nil
  then show ?case by simp
next
  case (snoc b bs)
  then have "be_bytes (length bs) (take_bit 56 (be_val bs)) = bs"
    by (subst be_bytes_take_bit) auto
  then show ?case by (simp add: drop_bit_join_byte ucast_join_byte del: drop_bit_or)
qed

lemma be_bytes_be_val': "length bs = n \<Longrightarrow> n \<le> 8 \<Longrightarrow> be_bytes n (be_val bs) = bs"
  using be_bytes_be_val by blast

lemma be_bytes_inj:
  "be_bytes n v = be_bytes n w \<Longrightarrow> take_bit (8 * n) v = take_bit (8 * n) w"
  by (metis be_val_be_bytes)

section \<open>Words as numbers\<close>

lemma byte_lt: "unat (b :: byte) < 256"
  using unsigned_less [of b] by simp

lemma nat_and_mask: "(n::nat) AND (2 ^ k - 1) = n mod 2 ^ k"
  by (metis take_bit_eq_mask take_bit_eq_mod mask_eq_exp_minus_1)

lemma unat_and_7f [simp]: "unat (b AND 0x7f :: byte) = unat b mod 128"
  using nat_and_mask [of "unat b" 7] by (simp add: unsigned_and_eq)

lemma nat_push_or: "b < 2 ^ n \<Longrightarrow> push_bit n a OR b = a * 2 ^ n + (b::nat)"
proof -
  assume b: "b < 2 ^ n"
  have bb: "\<And>k. bit b k \<Longrightarrow> k < n" using b 
    by (metis bit_take_bit_iff take_bit_nat_eq_self)
  have "push_bit n a AND b = 0"
    by (rule bit_eqI) (auto simp: bit_simps dest: bb)
  then have "push_bit n a + b = push_bit n a OR b" by (rule disjunctive_add_eq_or)
  then show ?thesis by (simp add: push_bit_eq_mult)
qed

lemma unat_push_or:
  fixes v w :: "'a::len word"
  assumes "unat w < 2 ^ n" "unat v * 2 ^ n < 2 ^ LENGTH('a)"
  shows "unat (push_bit n v OR w) = unat v * 2 ^ n + unat w"
proof -
  have "unat (push_bit n v) = push_bit n (unat v)"
    unfolding unsigned_push_bit_eq
    by (rule take_bit_nat_eq_self) (use assms(2) in \<open>simp add: push_bit_eq_mult\<close>)
  then show ?thesis using assms(1) by (simp only: unsigned_or_eq nat_push_or)
qed

lemma high_bit_clear_iff: "(b AND 0x80 = (0::byte)) \<longleftrightarrow> unat b < 128"
proof -
  have "b AND 0x80 = 0 \<longleftrightarrow> unat b AND 2 ^ 7 = 0" 
    by (simp add: unat_eq_zero [symmetric] unsigned_and_eq del: unat_eq_zero)
  also have "\<dots> \<longleftrightarrow> even (unat b div 128)"
    by (simp only: and_exp_eq_0_iff_not_bit bit_iff_odd) simp
  also have "\<dots> \<longleftrightarrow> unat b < 128"
  proof -
    have "unat b < 2 * 128" using byte_lt [of b] by simp
    then have "unat b div 128 < 2" by (rule less_mult_imp_div_less)
    then show ?thesis by (auto simp: less_2_cases_iff div_eq_0_iff)
  qed
  finally show ?thesis .
qed

lemma drop_bit_zero_iff: "(drop_bit n (v::'a::len word) = 0) \<longleftrightarrow> unat v < 2 ^ n"
proof -
  have "drop_bit n v = 0 \<longleftrightarrow> drop_bit n (unat v) = 0" by (metis unat_drop_bit_eq unat_eq_zero)
  then show ?thesis by (simp add: drop_bit_eq_div div_eq_0_iff)
qed

lemma unat_of_nat_mod_128: "unat (of_nat (n mod 128 + 128) :: byte) = n mod 128 + 128"
proof -
  have "n mod 128 + 128 < 256" using mod_less_divisor[of 128 n] by linarith
  then show ?thesis by (simp add: unsigned_of_nat take_bit_nat_eq_self del: of_nat_add)
qed

lemma unat_of_nat_byte: "n < 256 \<Longrightarrow> unat (of_nat n :: byte) = n" by (simp add: unsigned_of_nat take_bit_nat_eq_self)

lemma unat_ucast_up: "LENGTH('a) \<le> LENGTH('b) \<Longrightarrow> unat (ucast (v::'a::len word) :: 'b::len word) = unat v"
  by (simp add: unsigned_ucast_eq take_bit_nat_eq_self order_less_le_trans[OF unsigned_less])

lemma unat_ucast_down: "unat (ucast (v::'a::len word) :: 'b::len word) = unat v mod 2 ^ LENGTH('b)"
  by (simp add: unsigned_ucast_eq take_bit_eq_mod)

lemma ucast_and_7f: "unat (ucast (b::byte) AND 0x7f :: 64 word) = unat b mod 128"
  using nat_and_mask [of "unat b" 7] by (simp add: unsigned_and_eq unat_ucast_up)

lemma length_byte_long: "k < 128 \<Longrightarrow> unat (0x80 OR of_nat k :: byte) = 128 + k"
proof -
  assume k: "k < 128"
  then have "unat (of_nat k :: byte) = k" by (simp add: unat_of_nat_byte)
  then show ?thesis using k nat_push_or [of k 7 1] by (simp add: unsigned_or_eq push_bit_eq_mult)
qed

lemma or_high_bit: "n < 128 \<Longrightarrow> of_nat n OR 0x80 = (of_nat (n + 128) :: byte)"
  using length_byte_long [of n] unat_of_nat_byte [of "n + 128"]
  by (simp add: word_unat_eq_iff or.commute del: of_nat_add)

section \<open>Decimal text\<close>

text \<open>The decimal digits of a number, as \<open>printf\<close> writes them, and the dot between the parts of a dotted text.\<close>

fun decimal :: "nat \<Rightarrow> bytes" where
  "decimal n = (if n < 10 then [of_nat (48 + n)] else decimal (n div 10) @ [of_nat (48 + n mod 10)])"

declare decimal.simps [simp del]

abbreviation dot :: byte where
  "dot \<equiv> 46"

lemma decimal_nonempty [simp]: "decimal n \<noteq> []"
  by (subst decimal.simps) simp

lemma decimal_small: "n < 10 \<Longrightarrow> decimal n = [of_nat (48 + n)]"
  by (subst decimal.simps) simp

lemma decimal_step: "0 < n \<Longrightarrow> m < 10 \<Longrightarrow> decimal (n * 10 + m) = decimal n @ [of_nat (48 + m)]"
  by (subst decimal.simps) simp

section \<open>Interfaces of byte-level components\<close>

text \<open>An operation on a byte string returns \<open>None\<close> where the C function returns 0 and \<open>Some\<close> of its
  out-parameters where it returns 1, with the bytes that are left in either case.\<close>

locale reader =
  fixes rd :: "bytes \<Rightarrow> 'a option \<times> bytes"
  assumes consumes: "rd s = (r, s') \<Longrightarrow> \<exists>p. s = p @ s'"
begin

lemma length_le: "rd s = (r, s') \<Longrightarrow> length s' \<le> length s"
  by (drule consumes) auto

lemma rest_eq_drop: "rd s = (r, s') \<Longrightarrow> s' = drop (length s - length s') s"
  by (drule consumes) auto

lemma rest_subset: "rd s = (r, s') \<Longrightarrow> set s' \<subseteq> set s"
  by (drule consumes) auto

lemma consumes_trans: "s = p @ t \<Longrightarrow> rd t = (r, t') \<Longrightarrow> \<exists>q. s = q @ t'"
  using consumes [of t r t'] by auto

end

text \<open>The shape in which the code chains its calls, \<open>if (!f(cbs, \<dots>)) return 0\<close>, keeps the law.\<close>

lemma reader_return [consumes_intros]: "reader (\<lambda>s. (x, s))"
  by unfold_locales simp

lemma reader_chain [consumes_intros]:
  assumes "reader f" "\<And>x. reader (g x)"
  shows "reader (\<lambda>s. case f s of (None, t) \<Rightarrow> (None, t) | (Some x, t) \<Rightarrow> g x t)"
proof
  fix s r s'
  assume eq: "(case f s of (None, t) \<Rightarrow> (None, t) | (Some x, t) \<Rightarrow> g x t) = (r, s')"
  obtain y t where f: "f s = (y, t)" by (cases "f s")
  from reader.consumes [OF assms(1) f] obtain p where p: "s = p @ t" by blast
  show "\<exists>p. s = p @ s'"
  proof (cases y)
    case None
    then show ?thesis using eq f p by auto
  next
    case (Some x)
    then show ?thesis using eq f p reader.consumes [OF assms(2), of x t r s'] by auto
  qed
qed

lemma reader_if [consumes_intros]:
  "reader f \<Longrightarrow> reader g \<Longrightarrow> reader (\<lambda>s. if b then f s else g s)"
  by (cases b) auto

text \<open>A reader that succeeds takes at least one byte: the law that makes the loops
  \<open>while (CBS_len(cbs) != 0)\<close> of the code stop.\<close>

locale strict_reader = reader +
  assumes progress: "rd s = (Some x, s') \<Longrightarrow> s' \<noteq> s"
begin

lemma length_less: "rd s = (Some x, s') \<Longrightarrow> length s' < length s"
  using consumes [of s "Some x" s'] progress [of s x s'] by auto

lemma empty_fails: "fst (rd []) = None"
proof (cases "rd []")
  case (Pair r s')
  then show ?thesis using length_less [of "[]" _ s'] by (cases r) auto
qed

end

locale codec =
  fixes enc :: "'a \<Rightarrow> bytes"
    and dec :: "bytes \<Rightarrow> 'a option \<times> bytes"
    and valid :: "'a \<Rightarrow> bool"
  assumes dec_enc: "valid x \<Longrightarrow> dec (enc x @ rest) = (Some x, rest)"
begin

lemma dec_enc_exact: "valid x \<Longrightarrow> dec (enc x) = (Some x, [])"
  using dec_enc [of x "[]"] by simp

lemma enc_split:
  assumes "valid x" "valid y" "enc x @ r = enc y @ r'"
  shows "x = y \<and> r = r'"
proof -
  have "(Some x, r) = (Some y, r')"
    unfolding dec_enc [OF assms(1), of r, symmetric] dec_enc [OF assms(2), of r', symmetric]
    by (rule arg_cong [OF assms(3)])
  then show ?thesis by simp
qed

lemma enc_inj: "valid x \<Longrightarrow> valid y \<Longrightarrow> enc x = enc y \<Longrightarrow> x = y"
  using enc_split [of x y "[]" "[]"] by simp

lemma enc_prefix_free: "valid x \<Longrightarrow> valid y \<Longrightarrow> enc y = enc x @ r \<Longrightarrow> r = []"
  using enc_split [of x y r "[]"] by simp

lemma concat_enc_inj:
  assumes "\<forall>x\<in>set xs. valid x" "\<forall>y\<in>set ys. valid y" "length xs = length ys"
    and "concat (map enc xs) @ r = concat (map enc ys) @ r'"
  shows "xs = ys \<and> r = r'"
  using assms(3,1,2,4)
proof (induction xs ys rule: list_induct2)
  case Nil
  then show ?case by simp
next
  case (Cons x xs y ys)
  then have "x = y" "concat (map enc xs) @ r = concat (map enc ys) @ r'"
    using enc_split [of x y "concat (map enc xs) @ r" "concat (map enc ys) @ r'"] by auto
  then show ?case using Cons by auto
qed

end

locale canonical_codec = codec +
  assumes enc_dec: "dec s = (Some x, r) \<Longrightarrow> valid x \<and> s = enc x @ r"
begin

lemma dec_iff: "dec s = (Some x, r) \<longleftrightarrow> valid x \<and> s = enc x @ r"
  using enc_dec dec_enc by blast

lemma dec_unique: "dec s = (Some x, r) \<Longrightarrow> dec (take (length s - length r) s) = (Some x, [])"
  using enc_dec [of s x r] dec_enc_exact by auto

end

end
