(* ===== verification/Stack.thy ===== *)
theory Stack
  imports Prelude
begin

text \<open>
  \<open>crypto/stack/stack.c\<close>: growable arrays of pointers that know whether they are sorted. Pointers are numbers, 0 is
  NULL; a pointer to a stack is \<open>None\<close> for NULL. The comparison is called through \<open>call_cmp_func\<close>, which the model
  takes as \<open>cmp\<close>: for a comparison function, by its address, and two elements. \<open>OPENSSL_malloc\<close> is a
  parameter that gives the pointers in the fresh memory.
\<close>

type_synonym ptr = nat
type_synonym ptr_malloc = "nat \<Rightarrow> ptr list option"
type_synonym call_cmp = "ptr \<Rightarrow> ptr \<Rightarrow> ptr \<Rightarrow> int"

record stack =
  stack_num :: nat
  stack_data :: "ptr list"
  stack_sorted :: bool
  num_alloc :: nat
  stack_comp :: ptr

abbreviation (input) kMinSize :: nat where "kMinSize \<equiv> 4"
abbreviation (input) ptr_size :: nat where "ptr_size \<equiv> 8"
abbreviation (input) stack_size :: nat where "stack_size \<equiv> 40"

text \<open>\<open>OPENSSL_memmove\<close> of \<open>n\<close> pointers inside an array, and \<open>OPENSSL_realloc\<close> of an array.\<close>

definition move_within :: "'a list \<Rightarrow> nat \<Rightarrow> nat \<Rightarrow> nat \<Rightarrow> 'a list" where
  "move_within d dst src n = take dst d @ take n (drop src d) @ drop (dst + n) d"

definition realloc_ptrs :: "ptr_malloc \<Rightarrow> ptr list \<Rightarrow> nat \<Rightarrow> ptr list option" where
  "realloc_ptrs mal d sz =
     (case mal sz of
        None \<Rightarrow> None
      | Some r \<Rightarrow> (let to_copy = (if length d * ptr_size < sz then length d else sz div ptr_size)
                   in Some (take to_copy d @ drop to_copy r)))"

section \<open>Making and reading\<close>

definition sk_new :: "ptr_malloc \<Rightarrow> ptr \<Rightarrow> stack option" where
  "sk_new mal cmp_fn =
     (case mal stack_size of
        None \<Rightarrow> None
      | Some _ \<Rightarrow>
          (case mal (ptr_size * kMinSize) of
             None \<Rightarrow> None
           | Some d \<Rightarrow>
               Some \<lparr>stack_num = 0, stack_data = replicate kMinSize 0 @ drop kMinSize d, stack_sorted = False,
                     num_alloc = kMinSize, stack_comp = cmp_fn\<rparr>))"

definition sk_new_null :: "ptr_malloc \<Rightarrow> stack option" where
  "sk_new_null mal = sk_new mal 0"

definition sk_num :: "stack option \<Rightarrow> nat" where
  "sk_num sk = (case sk of None \<Rightarrow> 0 | Some sk \<Rightarrow> stack_num sk)"

definition sk_zero :: "stack option \<Rightarrow> stack option" where
  "sk_zero sk =
     (case sk of
        None \<Rightarrow> None
      | Some s \<Rightarrow>
          (if stack_num s = 0 then Some s
           else Some (s\<lparr>stack_num := 0, stack_data := replicate (stack_num s) 0 @ drop (stack_num s) (stack_data s), stack_sorted := False\<rparr>)))"

definition sk_value :: "stack option \<Rightarrow> nat \<Rightarrow> ptr" where
  "sk_value sk i = (case sk of None \<Rightarrow> 0 | Some s \<Rightarrow> if stack_num s \<le> i then 0 else stack_data s ! i)"

definition sk_set :: "stack option \<Rightarrow> nat \<Rightarrow> ptr \<Rightarrow> ptr \<times> stack option" where
  "sk_set sk i v =
     (case sk of
        None \<Rightarrow> (0, None)
      | Some s \<Rightarrow> if stack_num s \<le> i then (0, Some s) else (v, Some (s\<lparr>stack_data := (stack_data s)[i := v]\<rparr>)))"

text \<open>What freeing an element does to the rest of the program is a parameter on its state.\<close>

definition sk_pop_free_ex :: "(ptr \<Rightarrow> 'w \<Rightarrow> 'w) \<Rightarrow> stack option \<Rightarrow> 'w \<Rightarrow> 'w" where
  "sk_pop_free_ex free_elem sk w =
     (case sk of
        None \<Rightarrow> w
      | Some s \<Rightarrow> foldl (\<lambda>w i. if stack_data s ! i \<noteq> 0 then free_elem (stack_data s ! i) w else w) w [0..<stack_num s])"

definition sk_pop_free :: "(ptr \<Rightarrow> 'w \<Rightarrow> 'w) \<Rightarrow> stack option \<Rightarrow> 'w \<Rightarrow> 'w" where
  "sk_pop_free free_elem sk w = sk_pop_free_ex free_elem sk w"

section \<open>Adding and removing\<close>

definition sk_grow :: "ptr_malloc \<Rightarrow> stack \<Rightarrow> stack option" where
  "sk_grow mal s =
     (if num_alloc s \<le> szadd (stack_num s) 1
      then
        (let new_alloc = szmul (num_alloc s) 2;
             alloc_size = szmul new_alloc ptr_size;
             (new_alloc, alloc_size) =
               (if new_alloc < num_alloc s \<or> alloc_size div ptr_size \<noteq> new_alloc
                then (szadd (num_alloc s) 1, szmul (szadd (num_alloc s) 1) ptr_size)
                else (new_alloc, alloc_size))
         in if new_alloc < num_alloc s \<or> alloc_size div ptr_size \<noteq> new_alloc then None
            else (case realloc_ptrs mal (stack_data s) alloc_size of
                    None \<Rightarrow> None
                  | Some d \<Rightarrow> Some (s\<lparr>stack_data := d, num_alloc := new_alloc\<rparr>)))
      else Some s)"

definition sk_insert :: "ptr_malloc \<Rightarrow> stack option \<Rightarrow> ptr \<Rightarrow> nat \<Rightarrow> nat \<times> stack option" where
  "sk_insert mal sk p where' =
     (case sk of
        None \<Rightarrow> (0, None)
      | Some s0 \<Rightarrow>
          (case sk_grow mal s0 of
             None \<Rightarrow> (0, Some s0)
           | Some s \<Rightarrow>
               (let d = (if stack_num s \<le> where' then (stack_data s)[stack_num s := p]
                         else (move_within (stack_data s) (where' + 1) where' (stack_num s - where'))[where' := p]);
                    n = szadd (stack_num s) 1
                in (n, Some (s\<lparr>stack_num := n, stack_data := d, stack_sorted := False\<rparr>)))))"

definition sk_delete :: "stack option \<Rightarrow> nat \<Rightarrow> ptr \<times> stack option" where
  "sk_delete sk where' =
     (case sk of
        None \<Rightarrow> (0, None)
      | Some s \<Rightarrow>
          (if stack_num s \<le> where' then (0, Some s)
           else
             (let ret = stack_data s ! where';
                  d = (if where' \<noteq> stack_num s - 1
                       then move_within (stack_data s) where' (where' + 1) (stack_num s - where' - 1) else stack_data s)
              in (ret, Some (s\<lparr>stack_num := stack_num s - 1, stack_data := d\<rparr>)))))"

text \<open>The loops over the elements that stop at the first one.\<close>

function first_from :: "(ptr \<Rightarrow> bool) \<Rightarrow> stack \<Rightarrow> nat \<Rightarrow> nat option" where
  "first_from P s i = (if i < stack_num s then (if P (stack_data s ! i) then Some i else first_from P s (i + 1)) else None)"
  by pat_completeness auto
termination
  by (relation "measure (\<lambda>(P, s, i). stack_num s - i)") auto

declare first_from.simps [simp del]

definition sk_delete_ptr :: "stack option \<Rightarrow> ptr \<Rightarrow> ptr \<times> stack option" where
  "sk_delete_ptr sk p =
     (case sk of
        None \<Rightarrow> (0, None)
      | Some s \<Rightarrow> (case first_from (\<lambda>x. x = p) s 0 of Some i \<Rightarrow> sk_delete sk i | None \<Rightarrow> (0, sk)))"

definition sk_shift :: "stack option \<Rightarrow> ptr \<times> stack option" where
  "sk_shift sk = (case sk of None \<Rightarrow> (0, None) | Some s \<Rightarrow> if stack_num s = 0 then (0, sk) else sk_delete sk 0)"

definition sk_push :: "ptr_malloc \<Rightarrow> stack option \<Rightarrow> ptr \<Rightarrow> nat \<times> stack option" where
  "sk_push mal sk p = sk_insert mal sk p (sk_num sk)"

definition sk_pop :: "stack option \<Rightarrow> ptr \<times> stack option" where
  "sk_pop sk = (case sk of None \<Rightarrow> (0, None) | Some s \<Rightarrow> if stack_num s = 0 then (0, sk) else sk_delete sk (stack_num s - 1))"

section \<open>Sorting and searching\<close>

definition sk_is_sorted :: "stack option \<Rightarrow> bool" where
  "sk_is_sorted sk = (case sk of None \<Rightarrow> True | Some s \<Rightarrow> stack_sorted s)"

text \<open>The binary search; \<open>None\<close> when there is no match.\<close>

function bsearch :: "(ptr \<Rightarrow> int) \<Rightarrow> ptr list \<Rightarrow> nat \<Rightarrow> nat \<Rightarrow> nat option" where
  "bsearch f d lo hi =
     (if lo < hi
      then
        (let mid = lo + (hi - lo - 1) div 2; r = f (d ! mid)
         in if 0 < r then bsearch f d (mid + 1) hi
            else if r < 0 then bsearch f d lo mid
            else if hi - lo = 1 then Some mid
            else bsearch f d lo (mid + 1))
      else None)"
  by pat_completeness auto
termination
  by (relation "measure (\<lambda>(f, d, lo, hi). hi - lo)") auto

declare bsearch.simps [simp del]

text \<open>The result is the index that is written to \<open>out_index\<close>, if 1 is returned.\<close>

definition sk_find :: "call_cmp \<Rightarrow> stack option \<Rightarrow> ptr \<Rightarrow> nat option" where
  "sk_find cmp sk p =
     (case sk of
        None \<Rightarrow> None
      | Some s \<Rightarrow>
          (if stack_comp s = 0 then first_from (\<lambda>x. x = p) s 0
           else if p = 0 then None
           else if \<not> sk_is_sorted sk then first_from (\<lambda>x. cmp (stack_comp s) p x = 0) s 0
           else bsearch (cmp (stack_comp s) p) (stack_data s) 0 (stack_num s)))"

text \<open>\<open>qsort\<close> of the C library is a parameter: for a comparison, a rearrangement of the elements.\<close>

definition sk_sort :: "((ptr \<Rightarrow> ptr \<Rightarrow> int) \<Rightarrow> ptr list \<Rightarrow> ptr list) \<Rightarrow> call_cmp \<Rightarrow> stack option \<Rightarrow> stack option" where
  "sk_sort qs cmp sk =
     (case sk of
        None \<Rightarrow> None
      | Some s \<Rightarrow>
          (if stack_comp s = 0 \<or> stack_sorted s then sk
           else
             (let d = (if 2 \<le> stack_num s
                       then qs (cmp (stack_comp s)) (take (stack_num s) (stack_data s)) @ drop (stack_num s) (stack_data s)
                       else stack_data s)
              in Some (s\<lparr>stack_data := d, stack_sorted := True\<rparr>))))"

definition sk_set_cmp_func :: "stack \<Rightarrow> ptr \<Rightarrow> ptr \<times> stack" where
  "sk_set_cmp_func s cmp_fn =
     (let old = stack_comp s; s = (if stack_comp s \<noteq> cmp_fn then s\<lparr>stack_sorted := False\<rparr> else s)
      in (old, s\<lparr>stack_comp := cmp_fn\<rparr>))"

section \<open>Copies\<close>

definition sk_dup :: "ptr_malloc \<Rightarrow> stack option \<Rightarrow> stack option" where
  "sk_dup mal sk =
     (case sk of
        None \<Rightarrow> None
      | Some s \<Rightarrow>
          (case mal stack_size of
             None \<Rightarrow> None
           | Some _ \<Rightarrow>
               (case mal (szmul ptr_size (num_alloc s)) of
                  None \<Rightarrow> None
                | Some d \<Rightarrow>
                    Some \<lparr>stack_num = stack_num s, stack_data = take (stack_num s) (stack_data s) @ drop (stack_num s) d,
                          stack_sorted = stack_sorted s, num_alloc = num_alloc s, stack_comp = stack_comp s\<rparr>)))"

text \<open>Copying and freeing elements act on the state of the rest of the program. The loop returns the array, or \<open>None\<close>.\<close>

function copy_loop :: "(ptr \<Rightarrow> 'w \<Rightarrow> ptr \<times> 'w) \<Rightarrow> (ptr \<Rightarrow> 'w \<Rightarrow> 'w) \<Rightarrow> ptr list \<Rightarrow> nat \<Rightarrow> nat \<Rightarrow> 'w \<Rightarrow> ptr list option \<times> 'w" where
  "copy_loop copy_elem free_elem d i n w =
     (if i < n
      then
        (if d ! i = 0 then copy_loop copy_elem free_elem d (i + 1) n w
         else
           (let (q, w) = copy_elem (d ! i) w; d = d[i := q]
            in if d ! i = 0 then (None, foldl (\<lambda>w j. if d ! j \<noteq> 0 then free_elem (d ! j) w else w) w [0..<i])
               else copy_loop copy_elem free_elem d (i + 1) n w))
      else (Some d, w))"
  by pat_completeness auto
termination
  by (relation "measure (\<lambda>(c, f, d, i, n, w). n - i)") auto

declare copy_loop.simps [simp del]

definition sk_deep_copy ::
    "ptr_malloc \<Rightarrow> (ptr \<Rightarrow> 'w \<Rightarrow> ptr \<times> 'w) \<Rightarrow> (ptr \<Rightarrow> 'w \<Rightarrow> 'w) \<Rightarrow> stack option \<Rightarrow> 'w \<Rightarrow> stack option \<times> 'w" where
  "sk_deep_copy mal copy_elem free_elem sk w =
     (case sk_dup mal sk of
        None \<Rightarrow> (None, w)
      | Some r \<Rightarrow>
          (case copy_loop copy_elem free_elem (stack_data r) 0 (stack_num r) w of
             (None, w) \<Rightarrow> (None, w)
           | (Some d, w) \<Rightarrow> (Some (r\<lparr>stack_data := d\<rparr>), w)))"

end
