(* ===== verification/StackSpec.thy ===== *)
theory StackSpec
  imports Stack
begin

text \<open>
  A stack is the list of its elements: every operation acts on the list as its name says, or fails and leaves it
  alone. The flag \<open>sorted\<close> tells the truth as long as no element is replaced in place, and then the binary search
  finds what a linear search would.
\<close>

section \<open>The elements\<close>

definition elems :: "stack \<Rightarrow> ptr list" where
  "elems s = take (stack_num s) (stack_data s)"

definition stack_ok :: "stack \<Rightarrow> bool" where
  "stack_ok s \<longleftrightarrow> stack_num s < num_alloc s \<and> length (stack_data s) = num_alloc s \<and> num_alloc s * ptr_size < SIZE_MOD"

text \<open>What the code relies on: \<open>malloc\<close> gives as much memory as it was asked for.\<close>

definition ptr_malloc_sound :: "ptr_malloc \<Rightarrow> bool" where
  "ptr_malloc_sound mal \<longleftrightarrow> (\<forall>n d. mal n = Some d \<longrightarrow> length d = n div ptr_size)"

lemma stack_okD:
  assumes "stack_ok s"
  shows "length (elems s) = stack_num s" "stack_num s < length (stack_data s)" "szadd (stack_num s) 1 = stack_num s + 1"
    "szadd (stack_num s) (Suc 0) = stack_num s + 1"
    "i < stack_num s \<Longrightarrow> elems s ! i = stack_data s ! i"
  using assms by (auto simp: stack_ok_def elems_def szadd_def)

lemma mal_length: "ptr_malloc_sound mal \<Longrightarrow> mal n = Some d \<Longrightarrow> length d = n div ptr_size"
  by (simp add: ptr_malloc_sound_def)

lemma length_move [simp]: "dst + n \<le> length d \<Longrightarrow> src + n \<le> length d \<Longrightarrow> length (move_within d dst src n) = length d"
  by (simp add: move_within_def)

section \<open>The operations on the list\<close>

lemma new_ok:
  assumes "ptr_malloc_sound mal" "sk_new mal c = Some s"
  shows "stack_ok s \<and> elems s = [] \<and> stack_comp s = c \<and> \<not> stack_sorted s"
  using assms mal_length [OF assms(1)] by (auto simp: sk_new_def stack_ok_def elems_def split: option.splits)

lemma zero_ok:
  assumes "stack_ok s"
  shows "\<exists>s'. sk_zero (Some s) = Some s' \<and> stack_ok s' \<and> elems s' = [] \<and> stack_comp s' = stack_comp s \<and> (stack_sorted s' \<longrightarrow> stack_sorted s)"
  using assms by (auto simp: sk_zero_def stack_ok_def elems_def)

lemma value_ok: "stack_ok s \<Longrightarrow> sk_value (Some s) i = (if i < length (elems s) then elems s ! i else 0)"
  using stack_okD by (auto simp: sk_value_def)

lemma set_ok:
  assumes "stack_ok s" "i < length (elems s)"
  shows "\<exists>s'. sk_set (Some s) i p = (p, Some s') \<and> stack_ok s' \<and> elems s' = (elems s)[i := p] \<and>
    stack_comp s' = stack_comp s \<and> stack_sorted s' = stack_sorted s"
  using assms stack_okD(1) [OF assms(1)] by (auto simp: sk_set_def stack_ok_def elems_def take_update_swap)

lemma grow_ok:
  assumes "ptr_malloc_sound mal" "stack_ok s" "sk_grow mal s = Some s'"
  shows "stack_ok s' \<and> elems s' = elems s \<and> stack_num s' = stack_num s \<and> stack_num s + 1 < num_alloc s' \<and> stack_comp s' = stack_comp s"
proof (cases "num_alloc s \<le> szadd (stack_num s) 1")
  case True
  have inv: "stack_num s < num_alloc s" "length (stack_data s) = num_alloc s" "num_alloc s * ptr_size < SIZE_MOD"
    using assms(2) by (simp_all add: stack_ok_def)
  then have na: "num_alloc s = stack_num s + 1" using True by simp
  have d: "szmul (num_alloc s) 2 = num_alloc s * 2" using inv(3) by simp
  let ?fits = "\<lambda>n. \<not> (n < num_alloc s \<or> szmul n ptr_size div ptr_size \<noteq> n)"
  obtain new where new: "new = (if ?fits (num_alloc s * 2) then num_alloc s * 2 else num_alloc s + 1)" by simp
  have ge: "num_alloc s + 1 \<le> new" using new na by auto
  have "?fits new \<and> (\<exists>r. realloc_ptrs mal (stack_data s) (szmul new ptr_size) = Some r \<and> s' = s\<lparr>stack_data := r, num_alloc := new\<rparr>)"
    using assms(3) True d new inv(3) unfolding sk_grow_def Let_def d by (auto split: if_splits option.splits)
  then obtain r where r: "?fits new" "realloc_ptrs mal (stack_data s) (szmul new ptr_size) = Some r" "s' = s\<lparr>stack_data := r, num_alloc := new\<rparr>"
    by blast
  have "szmul new ptr_size div ptr_size = new" using r(1) by simp
  then have fit: "new * ptr_size < SIZE_MOD" "szmul new ptr_size = new * ptr_size" by (auto simp: szmul_def)
  obtain m where m: "mal (new * ptr_size) = Some m" "r = take (num_alloc s) (stack_data s) @ drop (num_alloc s) m"
    using r(2) ge inv(2) unfolding fit(2) realloc_ptrs_def Let_def by (auto split: option.splits if_splits)
  have "length m = new" using mal_length [OF assms(1) m(1)] by simp
  then show ?thesis using r(3) m(2) fit(1) ge inv(1,2) na by (simp add: stack_ok_def elems_def)
next
  case False
  have sz: "szadd (stack_num s) 1 = stack_num s + 1" using stack_okD [OF assms(2)] by simp
  have "s' = s" using False assms(3) unfolding sk_grow_def by simp
  then show ?thesis using assms(2) False unfolding sz by simp
qed

lemma sk_insert_ok:
  assumes "ptr_malloc_sound mal" "stack_ok s" "sk_insert mal (Some s) p k = (n, r)"
  shows "(n = 0 \<and> r = Some s) \<or> (\<exists>s'. r = Some s' \<and> stack_ok s' \<and> n = length (elems s') \<and>
    elems s' = take k (elems s) @ p # drop k (elems s) \<and> stack_comp s' = stack_comp s \<and> \<not> stack_sorted s')"
proof (cases "sk_grow mal s")
  case None
  then show ?thesis using assms(3) by (simp add: sk_insert_def)
next
  case (Some s1)
  let ?n = "stack_num s" and ?d = "stack_data s1"
  have g: "stack_ok s1" "elems s1 = elems s" "stack_num s1 = ?n" "?n + 1 < num_alloc s1" "stack_comp s1 = stack_comp s"
    using grow_ok [OF assms(1,2) Some] by simp_all
  have l: "length ?d = num_alloc s1" using g(1) by (simp add: stack_ok_def)
  let ?d' = "if ?n \<le> k then ?d[?n := p] else (move_within ?d (k + 1) k (?n - k))[k := p]"
  have "n = ?n + 1" "r = Some (s1\<lparr>stack_num := ?n + 1, stack_data := ?d', stack_sorted := False\<rparr>)"
    using assms(3) Some g(3) stack_okD(3,4) [OF g(1)] by (auto simp: sk_insert_def Let_def)
  moreover have "take (?n + 1) ?d' = take k (take ?n ?d) @ p # drop k (take ?n ?d) \<and> length ?d' = length ?d"
  proof (cases "?n \<le> k")
    case True
    then show ?thesis using g(4) l by (simp add: take_Suc_conv_app_nth)
  next
    case False
    have "(move_within ?d (k + 1) k (?n - k))[k := p] = take k ?d @ p # take (?n - k) (drop k ?d) @ drop (?n + 1) ?d"
      using False g(4) l by (simp add: move_within_def list_update_append take_Suc_conv_app_nth)
    then show ?thesis using False g(4) l by (simp add: drop_take Suc_diff_le)
  qed
  moreover have "take ?n ?d = elems s" using g(2,3) by (simp add: elems_def)
  ultimately show ?thesis using g l stack_okD(1) [OF assms(2)] by (simp add: elems_def stack_ok_def)
qed

lemma delete_ok:
  assumes "stack_ok s" "k < length (elems s)"
  shows "\<exists>s'. sk_delete (Some s) k = (elems s ! k, Some s') \<and> stack_ok s' \<and> elems s' = take k (elems s) @ drop (k + 1) (elems s) \<and>
    stack_comp s' = stack_comp s \<and> stack_sorted s' = stack_sorted s"
proof -
  let ?n = "stack_num s" and ?d = "stack_data s"
  have k: "k < ?n" using assms stack_okD(1) by simp
  have n: "?n < length ?d" using stack_okD(2) [OF assms(1)] .
  let ?d' = "if k \<noteq> ?n - 1 then move_within ?d k (k + 1) (?n - k - 1) else ?d"
  have "take (?n - 1) ?d' = take k (take ?n ?d) @ drop (k + 1) (take ?n ?d)" "length ?d' = length ?d"
    using k n by (auto simp: move_within_def drop_take min_def)
  moreover have "elems s ! k = ?d ! k" using k by (simp add: elems_def)
  ultimately show ?thesis using k assms(1) by (simp add: sk_delete_def Let_def elems_def stack_ok_def less_imp_diff_less)
qed

lemma delete_out_of_range: "stack_ok s \<Longrightarrow> length (elems s) \<le> k \<Longrightarrow> sk_delete (Some s) k = (0, Some s)"
  using stack_okD(1) by (simp add: sk_delete_def)

lemma first_from_find: "first_from P s i = find (\<lambda>j. P (stack_data s ! j)) [i..<stack_num s]"
proof (induction P s i rule: first_from.induct)
  case (1 P s i)
  then show ?case by (subst first_from.simps) (simp add: upt_conv_Cons)
qed

lemma find_cong_upt: "(\<And>j. i \<le> j \<Longrightarrow> j < n \<Longrightarrow> P j = Q j) \<Longrightarrow> find P [i..<n] = find Q [i..<n]"
  by (rule find_cong) auto

lemma find_upt_Some: "find P [0..<n] = Some i \<longleftrightarrow> i < n \<and> P i \<and> (\<forall>j<i. \<not> P j)"
  by (auto simp: find_Some_iff)

lemma first_from_elems:
  assumes "stack_ok s"
  shows "first_from P s 0 = find (\<lambda>j. P (elems s ! j)) [0..<length (elems s)]"
  unfolding first_from_find stack_okD(1) [OF assms] using stack_okD(5) [OF assms] by (intro find_cong_upt) simp

section \<open>Searching a sorted array\<close>

text \<open>\<open>f\<close> compares what is searched with an element: it only goes down along the array.\<close>

definition descending :: "(ptr \<Rightarrow> int) \<Rightarrow> ptr list \<Rightarrow> nat \<Rightarrow> bool" where
  "descending f d n \<longleftrightarrow> (\<forall>i j. i \<le> j \<and> j < n \<longrightarrow> sgn (f (d ! j)) \<le> sgn (f (d ! i)))"

lemma descendingD:
  assumes "descending f d n" "i \<le> j" "j < n"
  shows "f (d ! i) < 0 \<Longrightarrow> f (d ! j) < 0" "0 < f (d ! j) \<Longrightarrow> 0 < f (d ! i)"
proof -
  have "sgn (f (d ! j)) \<le> sgn (f (d ! i))" using assms by (simp add: descending_def)
  then show "f (d ! i) < 0 \<Longrightarrow> f (d ! j) < 0" "0 < f (d ! j) \<Longrightarrow> 0 < f (d ! i)" by (auto simp: sgn_if split: if_splits)
qed

lemma find_split: "lo \<le> m \<Longrightarrow> m \<le> hi \<Longrightarrow> find P [lo..<hi] = (case find P [lo..<m] of Some i \<Rightarrow> Some i | None \<Rightarrow> find P [m..<hi])"
proof -
  assume "lo \<le> m" "m \<le> hi"
  then have "[lo..<hi] = [lo..<m] @ [m..<hi]" by (metis le_add_diff_inverse upt_add_eq_append)
  moreover have "find P (xs @ ys) = (case find P xs of Some i \<Rightarrow> Some i | None \<Rightarrow> find P ys)" for xs ys :: "nat list"
    by (induction xs) auto
  ultimately show ?thesis by simp
qed

lemma find_upt_None: "(\<And>j. i \<le> j \<Longrightarrow> j < n \<Longrightarrow> \<not> P j) \<Longrightarrow> find P [i..<n] = None"
  by (auto simp: find_None_iff)

lemma bsearch_first:
  "descending f d n \<Longrightarrow> lo \<le> hi \<Longrightarrow> hi \<le> n \<Longrightarrow> bsearch f d lo hi = find (\<lambda>i. f (d ! i) = 0) [lo..<hi]"
proof (induction f d lo hi rule: bsearch.induct)
  case (1 f d lo hi)
  let ?P = "\<lambda>i. f (d ! i) = 0" and ?mid = "lo + (hi - lo - 1) div 2"
  show ?case
  proof (cases "lo < hi")
    case False
    then show ?thesis by (subst bsearch.simps) simp
  next
    case True
    have mid: "lo \<le> ?mid" "?mid < hi" using True by auto
    note mono = descendingD [OF 1(4)]
    consider "0 < f (d ! ?mid)" | "f (d ! ?mid) < 0" | "f (d ! ?mid) = 0" by linarith
    then show ?thesis
    proof cases
      case up: 1
      have "f (d ! j) \<noteq> 0" if "j < ?mid + 1" for j using mono(2) [of j ?mid] that up mid 1(6) by simp
      then have "find ?P [lo..<?mid + 1] = None" by (intro find_upt_None) simp
      then have "find ?P [lo..<hi] = find ?P [?mid + 1..<hi]" using find_split [of lo "?mid + 1" hi ?P] mid by simp
      then show ?thesis using 1(1) [OF True refl refl up 1(4)] mid 1(6) True up by (subst bsearch.simps) (simp add: Let_def)
    next
      case down: 2
      then have nu: "\<not> 0 < f (d ! ?mid)" by simp
      have "f (d ! j) \<noteq> 0" if "?mid \<le> j" "j < hi" for j using mono(1) [of ?mid j] that down 1(6) by simp
      then have "find ?P [?mid..<hi] = None" by (intro find_upt_None) simp
      then have "find ?P [lo..<hi] = find ?P [lo..<?mid]" using find_split [of lo ?mid hi ?P] mid by (simp split: option.splits)
      then show ?thesis using 1(2) [OF True refl refl nu down 1(4)] mid 1(6) True down by (subst bsearch.simps) (simp add: Let_def)
    next
      case match: 3
      show ?thesis
      proof (cases "hi - lo = 1")
        case one: True
        then have "[lo..<hi] = [lo]" "?mid = lo" by (auto simp: upt_rec)
        then show ?thesis using match True one by (subst bsearch.simps) (simp add: Let_def)
      next
        case False
        have "?mid + 1 \<le> hi" "lo \<le> ?mid + 1" using mid by simp_all
        moreover have "find ?P [lo..<?mid + 1] \<noteq> None" using match mid by (auto simp: find_None_iff)
        ultimately have "find ?P [lo..<hi] = find ?P [lo..<?mid + 1]" using find_split [of lo "?mid + 1" hi ?P] by (auto split: option.splits)
        then show ?thesis using 1(3) [OF True refl refl _ _ False 1(4)] mid 1(6) True match False by (subst bsearch.simps) (simp add: Let_def)
      qed
    qed
  qed
qed

end
