(* ===== verification/Mem.thy ===== *)
theory Mem
  imports Prelude
begin

text \<open>
  BoringSSL's memory and C-string helpers (\<open>crypto/mem.c\<close>). The platform's \<open>malloc\<close> is a
  parameter: for a size it gives the contents of a fresh region, or \<open>None\<close>. A pointer to a region is
  the bytes of the region, the NULL pointer is \<open>None\<close>; freeing and cleansing leave no trace in the
  model. C strings are the bytes from the pointer on, with a NUL among them.
\<close>

type_synonym platform_malloc = "nat \<Rightarrow> bytes option"

text \<open>What the code relies on: \<open>malloc(n)\<close> gives a region of \<open>n\<close> bytes.\<close>

definition malloc_sound :: "platform_malloc \<Rightarrow> bool" where
  "malloc_sound mal \<longleftrightarrow> (\<forall>n p. mal n = Some p \<longrightarrow> length p = n)"

lemma malloc_soundD: "malloc_sound mal \<Longrightarrow> mal n = Some p \<Longrightarrow> length p = n"
  by (simp add: malloc_sound_def)

text \<open>Overwriting \<open>length xs\<close> bytes at offset \<open>off\<close> (\<open>memcpy\<close>, \<open>memset\<close>, \<open>memmove\<close>).\<close>

definition buf_write :: "bytes \<Rightarrow> nat \<Rightarrow> bytes \<Rightarrow> bytes" where
  "buf_write buf off xs = take off buf @ xs @ drop (off + length xs) buf"

section \<open>Allocation\<close>

text \<open>The size is stored in an 8-byte prefix in front of the region that is handed out.\<close>

definition OPENSSL_malloc :: "platform_malloc \<Rightarrow> nat \<Rightarrow> bytes option" where
  "OPENSSL_malloc mal sz =
     (if szadd sz 8 < sz then None
      else (case mal (szadd sz 8) of None \<Rightarrow> None | Some p \<Rightarrow> Some (drop 8 p)))"

definition OPENSSL_realloc :: "platform_malloc \<Rightarrow> bytes option \<Rightarrow> nat \<Rightarrow> bytes option" where
  "OPENSSL_realloc mal orig new_size =
     (case orig of
        None \<Rightarrow> OPENSSL_malloc mal new_size
      | Some p \<Rightarrow>
          (case OPENSSL_malloc mal new_size of
             None \<Rightarrow> None
           | Some r \<Rightarrow>
               (let to_copy = (if length p < new_size then length p else new_size)
                in Some (take to_copy p @ drop to_copy r))))"

definition OPENSSL_memdup :: "platform_malloc \<Rightarrow> bytes \<Rightarrow> bytes option" where
  "OPENSSL_memdup mal data =
     (if length data = 0 then None
      else (case OPENSSL_malloc mal (length data) of
              None \<Rightarrow> None
            | Some r \<Rightarrow> Some (data @ drop (length data) r)))"

lemma OPENSSL_malloc_length:
  assumes "malloc_sound mal" "OPENSSL_malloc mal n = Some p" "n < SIZE_MOD"
  shows "length p = n"
proof -
  from assms(2) have nof: "\<not> szadd n 8 < n" and "mal (szadd n 8) \<noteq> None"
    and p: "p = drop 8 (the (mal (szadd n 8)))"
    by (auto simp: OPENSSL_malloc_def split: if_splits option.splits)
  then obtain q where q: "mal (szadd n 8) = Some q" by auto
  have "szadd n 8 = n + 8" using nof szadd_overflow [of n 8] assms(3) by simp
  then show ?thesis using malloc_soundD [OF assms(1) q] p q by simp
qed

lemma OPENSSL_realloc_length:
  assumes "malloc_sound mal" "OPENSSL_realloc mal orig n = Some p" "n < SIZE_MOD"
  shows "length p = n"
  using assms OPENSSL_malloc_length [OF assms(1) _ assms(3)]
  by (auto simp: OPENSSL_realloc_def Let_def split: option.splits if_splits)

lemma OPENSSL_realloc_prefix:
  assumes "malloc_sound mal" "OPENSSL_realloc mal (Some q) n = Some p" "n < SIZE_MOD" "k \<le> n" "k \<le> length q"
  shows "take k p = take k q"
  using assms OPENSSL_malloc_length [OF assms(1) _ assms(3)]
  by (auto simp: OPENSSL_realloc_def Let_def min_def split: option.splits if_splits)

lemma OPENSSL_memdup_eq:
  assumes "malloc_sound mal" "OPENSSL_memdup mal d = Some p" "length d < SIZE_MOD"
  shows "p = d"
  using assms OPENSSL_malloc_length [OF assms(1) _ assms(3)]
  by (auto simp: OPENSSL_memdup_def split: option.splits if_splits)

section \<open>Comparison in constant time\<close>

definition CRYPTO_memcmp :: "bytes \<Rightarrow> bytes \<Rightarrow> nat \<Rightarrow> byte" where
  "CRYPTO_memcmp a b len = foldl (\<lambda>x i. x OR (a ! i XOR b ! i)) 0 [0..<len]"

lemma or_eq_zero: "(x OR y = (0 :: byte)) \<longleftrightarrow> x = 0 \<and> y = 0"
  by (auto simp: bit_eq_iff bit_simps)

lemma xor_eq_zero: "(x XOR y = (0 :: 'a :: len word)) \<longleftrightarrow> x = y"
  by (auto simp: bit_eq_iff bit_simps)

lemma foldl_or_zero: "foldl (\<lambda>x i. x OR f i) z is = (0 :: byte) \<longleftrightarrow> z = 0 \<and> (\<forall>i\<in>set is. f i = 0)"
  by (induction "is" arbitrary: z) (auto simp: or_eq_zero)

lemma CRYPTO_memcmp_zero_iff:
  "len \<le> length a \<Longrightarrow> len \<le> length b \<Longrightarrow> CRYPTO_memcmp a b len = 0 \<longleftrightarrow> take len a = take len b"
  by (auto simp: CRYPTO_memcmp_def foldl_or_zero xor_eq_zero list_eq_iff_nth_eq)

section \<open>Hashing\<close>

definition OPENSSL_hash32 :: "bytes \<Rightarrow> nat \<Rightarrow> 32 word" where
  "OPENSSL_hash32 ptr len = foldl (\<lambda>h b. (h XOR ucast b) * 16777619) 2166136261 (take len ptr)"

section \<open>C strings\<close>

definition strlen :: "bytes \<Rightarrow> nat" where
  "strlen s = length (takeWhile (\<lambda>b. b \<noteq> 0) s)"

definition cstring :: "bytes \<Rightarrow> bytes" where
  "cstring s = takeWhile (\<lambda>b. b \<noteq> 0) s"

function strnlen_loop :: "bytes \<Rightarrow> nat \<Rightarrow> nat \<Rightarrow> nat" where
  "strnlen_loop s len i = (if i < len then if s ! i = 0 then i else strnlen_loop s len (Suc i) else len)"
  by pat_completeness auto
termination
  by (relation "measure (\<lambda>(s, len, i). len - i)") auto

declare strnlen_loop.simps [simp del]

definition OPENSSL_strnlen :: "bytes \<Rightarrow> nat \<Rightarrow> nat" where
  "OPENSSL_strnlen s len = strnlen_loop s len 0"

definition OPENSSL_strndup :: "platform_malloc \<Rightarrow> bytes \<Rightarrow> nat \<Rightarrow> bytes option" where
  "OPENSSL_strndup mal str size0 =
     (let sz = OPENSSL_strnlen str size0; alloc_size = szadd sz 1
      in if alloc_size < sz then None
         else (case OPENSSL_malloc mal alloc_size of
                 None \<Rightarrow> None
               | Some r \<Rightarrow> Some ((take sz str @ drop sz r)[sz := 0])))"

definition OPENSSL_strdup :: "platform_malloc \<Rightarrow> bytes option \<Rightarrow> bytes option" where
  "OPENSSL_strdup mal str =
     (case str of
        None \<Rightarrow> None
      | Some s \<Rightarrow>
          (let len = strlen s + 1
           in case OPENSSL_malloc mal len of
                None \<Rightarrow> None
              | Some ret \<Rightarrow> Some (buf_write ret 0 (take len s))))"

definition OPENSSL_strhash :: "bytes \<Rightarrow> 32 word" where
  "OPENSSL_strhash s = OPENSSL_hash32 s (strlen s)"

text \<open>\<open>strlcpy\<close> and \<open>strlcat\<close> return the new contents of the destination and the length they tried
  to create.\<close>

function strlcpy_loop :: "bytes \<Rightarrow> bytes \<Rightarrow> nat \<Rightarrow> nat \<Rightarrow> bytes \<times> nat" where
  "strlcpy_loop dst src dst_size l =
     (if 1 < dst_size \<and> hd src \<noteq> 0
      then (let (d, r) = strlcpy_loop (tl dst) (tl src) (dst_size - 1) (Suc l) in (hd src # d, r))
      else (if dst_size \<noteq> 0 then 0 # tl dst else dst, l + strlen src))"
  by pat_completeness auto
termination
  by (relation "measure (\<lambda>(d, s, n, l). n)") auto

declare strlcpy_loop.simps [simp del]

definition OPENSSL_strlcpy :: "bytes \<Rightarrow> bytes \<Rightarrow> nat \<Rightarrow> bytes \<times> nat" where
  "OPENSSL_strlcpy dst src dst_size = strlcpy_loop dst src dst_size 0"

function strlcat_loop :: "bytes \<Rightarrow> bytes \<Rightarrow> nat \<Rightarrow> nat \<Rightarrow> bytes \<times> nat" where
  "strlcat_loop dst src dst_size l =
     (if 0 < dst_size \<and> hd dst \<noteq> 0
      then (let (d, r) = strlcat_loop (tl dst) src (dst_size - 1) (Suc l) in (hd dst # d, r))
      else (let (d, r) = OPENSSL_strlcpy dst src dst_size in (d, l + r)))"
  by pat_completeness auto
termination
  by (relation "measure (\<lambda>(d, s, n, l). n)") auto

declare strlcat_loop.simps [simp del]

definition OPENSSL_strlcat :: "bytes \<Rightarrow> bytes \<Rightarrow> nat \<Rightarrow> bytes \<times> nat" where
  "OPENSSL_strlcat dst src dst_size = strlcat_loop dst src dst_size 0"

definition OPENSSL_tolower :: "int \<Rightarrow> int" where
  "OPENSSL_tolower c = (if 65 \<le> c \<and> c \<le> 90 then c + (97 - 65) else c)"

text \<open>The comparison walks two NUL-terminated strings; \<open>char\<close> is signed on the app's targets.\<close>

fun OPENSSL_strcasecmp :: "bytes \<Rightarrow> bytes \<Rightarrow> int" where
  "OPENSSL_strcasecmp (a # as) (b # bs) =
     (let aa = OPENSSL_tolower (sint a); bb = OPENSSL_tolower (sint b)
      in if aa < bb then -1 else if bb < aa then 1 else if aa = 0 then 0
         else OPENSSL_strcasecmp as bs)"
| "OPENSSL_strcasecmp as bs = 0"

fun OPENSSL_strncasecmp :: "bytes \<Rightarrow> bytes \<Rightarrow> nat \<Rightarrow> int" where
  "OPENSSL_strncasecmp as bs 0 = 0"
| "OPENSSL_strncasecmp (a # as) (b # bs) (Suc n) =
     (let aa = OPENSSL_tolower (sint a); bb = OPENSSL_tolower (sint b)
      in if aa < bb then -1 else if bb < aa then 1 else if aa = 0 then 0
         else OPENSSL_strncasecmp as bs n)"
| "OPENSSL_strncasecmp as bs (Suc n) = 0"

section \<open>What the string helpers compute\<close>

lemma strlen_eq: "strlen s = length (cstring s)"
  by (simp add: strlen_def cstring_def)

lemma cstring_Cons: "cstring (b # s) = (if b = 0 then [] else b # cstring s)"
  by (simp add: cstring_def)

lemma cstring_append_NUL: "0 \<notin> set xs \<Longrightarrow> cstring (xs @ 0 # ys) = xs"
  by (induction xs) (auto simp: cstring_def)

lemma cstring_no_NUL: "0 \<notin> set (cstring s)"
  by (auto simp: cstring_def dest: set_takeWhileD)

lemma set_take_cstring: "0 \<notin> set (take n (cstring s))"
  using cstring_no_NUL [of s] set_take_subset [of n "cstring s"] by blast

lemma strnlen_loop_eq:
  "i \<le> len \<Longrightarrow> len \<le> length s \<Longrightarrow>
   strnlen_loop s len i = i + length (takeWhile (\<lambda>b. b \<noteq> 0) (take (len - i) (drop i s)))"
proof (induction s len i rule: strnlen_loop.induct)
  case (1 s len i)
  show ?case
  proof (cases "i < len")
    case True
    then have "take (len - i) (drop i s) = s ! i # take (len - Suc i) (drop (Suc i) s)"
      using 1(3) by (simp add: Cons_nth_drop_Suc [symmetric] take_Cons')
    then show ?thesis using 1 True by (subst strnlen_loop.simps) auto
  next
    case False
    then show ?thesis using 1 by (subst strnlen_loop.simps) auto
  qed
qed

lemma OPENSSL_strnlen_eq:
  "len \<le> length s \<Longrightarrow> OPENSSL_strnlen s len = strlen (take len s)"
  by (simp add: OPENSSL_strnlen_def strnlen_loop_eq strlen_def)

lemma OPENSSL_strndup_cstring:
  assumes "malloc_sound mal" "OPENSSL_strndup mal str n = Some p" "n \<le> length str" "n < SIZE_MOD - 1"
  shows "cstring p = cstring (take n str) \<and> length p = Suc (strlen (take n str))"
proof -
  let ?k = "strlen (take n str)"
  have k: "OPENSSL_strnlen str n = ?k" using assms(3) by (rule OPENSSL_strnlen_eq)
  have le: "?k \<le> n"
    using length_takeWhile_le [of "\<lambda>b. b \<noteq> 0" "take n str"] assms(3) by (simp add: strlen_def)
  then have sz: "szadd ?k (Suc 0) = Suc ?k" using assms(4) by simp
  obtain r where r: "OPENSSL_malloc mal (Suc ?k) = Some r" "p = (take ?k str @ drop ?k r)[?k := 0]"
    using assms(2) by (auto simp: OPENSSL_strndup_def Let_def k sz split: option.splits if_splits)
  then have lr: "length r = Suc ?k" using OPENSSL_malloc_length [OF assms(1) r(1)] le assms(4) by simp
  have tk: "take ?k str = cstring (take n str)"
    using takeWhile_eq_take [of "\<lambda>b. b \<noteq> 0" "take n str"] le by (simp add: strlen_def cstring_def min_def)
  have "p = cstring (take n str) @ 0 # []"
  proof -
    have "length (drop ?k r) = Suc 0" using lr by simp
    then obtain x where "drop ?k r = [x]" by (metis length_0_conv length_Suc_conv)
    moreover have "length (take ?k str) = ?k" using le assms(3) by simp
    ultimately have "(take ?k str @ drop ?k r)[?k := 0] = take ?k str @ [0]"
      by (simp only: list_update_append) simp
    then show ?thesis using r(2) tk by simp
  qed
  then show ?thesis by (simp add: cstring_append_NUL cstring_no_NUL strlen_eq)
qed

lemma strlcpy_loop_eq:
  assumes "0 \<in> set src" "length dst = n"
  shows "strlcpy_loop dst src n l =
    ((if n = 0 then dst
      else take (n - 1) (cstring src) @ 0 # drop (Suc (min (n - 1) (strlen src))) dst), l + strlen src)"
  using assms
proof (induction dst src n l rule: strlcpy_loop.induct)
  case (1 dst src n l)
  obtain c src' where src: "src = c # src'" using 1(2) by (cases src) auto
  show ?case
  proof (cases "1 < n \<and> hd src \<noteq> 0")
    case True
    then obtain x dst' where dst: "dst = x # dst'" using 1(3) by (cases dst) auto
    have "strlcpy_loop dst' src' (n - 1) (Suc l) =
       (take (n - 2) (cstring src') @ 0 # drop (Suc (min (n - 2) (strlen src'))) dst', Suc l + strlen src')"
      using 1(1) [OF True] 1(2,3) True src dst by (auto simp: numeral_2_eq_2)
    moreover have "n - 1 = Suc (n - 2)" using conjunct1 [OF True] by linarith
    moreover have "strlen (c # src') = Suc (strlen src')" using True src by (simp add: strlen_def)
    ultimately show ?thesis using True src dst
      by (subst strlcpy_loop.simps) (simp add: cstring_Cons)
  next
    case False
    then show ?thesis
      using 1(3) src by (subst strlcpy_loop.simps) (cases dst; cases n; auto simp: cstring_Cons strlen_eq)
  qed
qed

lemma OPENSSL_strlcpy_eq:
  assumes "0 \<in> set src" "length dst = n" "0 < n"
  shows "cstring (fst (OPENSSL_strlcpy dst src n)) = take (n - 1) (cstring src)"
    and "snd (OPENSSL_strlcpy dst src n) = strlen src"
    and "length (fst (OPENSSL_strlcpy dst src n)) = n"
  using strlcpy_loop_eq [OF assms(1,2), of 0] assms(3)
  by (auto simp: OPENSSL_strlcpy_def cstring_append_NUL set_take_cstring strlen_eq assms(2))

lemma OPENSSL_strcasecmp_antisym: "OPENSSL_strcasecmp b a = - OPENSSL_strcasecmp a b"
  by (induction a b rule: OPENSSL_strcasecmp.induct) (auto simp: Let_def)

lemma OPENSSL_tolower_zero: "OPENSSL_tolower c = 0 \<longleftrightarrow> c = 0"
  by (auto simp: OPENSSL_tolower_def)

lemma sint_byte_eq_0: "sint (b :: byte) = 0 \<longleftrightarrow> b = 0"
  by (metis signed_0 signed_word_eqI)

lemma OPENSSL_strcasecmp_zero_iff:
  assumes "0 \<in> set a" "0 \<in> set b"
  shows "OPENSSL_strcasecmp a b = 0 \<longleftrightarrow>
    map (OPENSSL_tolower \<circ> sint) (cstring a) = map (OPENSSL_tolower \<circ> sint) (cstring b)"
  using assms
proof (induction a b rule: OPENSSL_strcasecmp.induct)
  case (1 a as b bs)
  let ?A = "OPENSSL_tolower (sint a)" and ?B = "OPENSSL_tolower (sint b)"
  have z: "?A = 0 \<longleftrightarrow> a = 0" "?B = 0 \<longleftrightarrow> b = 0"
    by (simp_all only: OPENSSL_tolower_zero sint_byte_eq_0)
  consider "?A \<noteq> ?B" | "?A = ?B" "a = 0" "b = 0" | "?A = ?B" "a \<noteq> 0" "b \<noteq> 0"
    using z by metis
  then show ?case
  proof cases
    case 1
    then have "OPENSSL_strcasecmp (a # as) (b # bs) \<noteq> 0" by (simp add: Let_def)
    moreover have "a \<noteq> 0 \<or> b \<noteq> 0" using 1 z by metis
    ultimately show ?thesis using 1 by (simp add: cstring_Cons)
  next
    case 2
    then show ?thesis using z by (simp add: Let_def cstring_Cons)
  next
    case 3
    then have "?A \<noteq> 0" "0 \<in> set as" "0 \<in> set bs" using z "1.prems" by auto
    then show ?thesis using 3 "1.IH" [OF refl refl] by (simp add: Let_def cstring_Cons)
  qed
qed auto

end
