(* ===== verification/CBS.thy ===== *)
theory CBS
  imports Mem
begin

text \<open>
  \<open>crypto/bytestring/cbs.c\<close>: reading bytes, integers, length-prefixed strings and BER/DER elements
  from a byte string. A \<open>CBS\<close> is a pointer and a length into memory that is only read, so it is
  modelled by the bytes it spans; advancing the pointer drops bytes from the front. A function that
  advances its \<open>CBS *\<close> returns the bytes left, on failure too, since several of them consume input
  before they fail. A NULL out-parameter only discards the value, so every value is returned.
\<close>

type_synonym cbs = bytes
type_synonym tag = "32 word"

definition CBS_init :: "bytes \<Rightarrow> nat \<Rightarrow> cbs" where
  "CBS_init data len = take len data"

definition cbs_get :: "cbs \<Rightarrow> nat \<Rightarrow> bytes option \<times> cbs" where
  "cbs_get cbs n = (if length cbs < n then (None, cbs) else (Some (take n cbs), drop n cbs))"

definition CBS_skip :: "cbs \<Rightarrow> nat \<Rightarrow> unit option \<times> cbs" where
  "CBS_skip cbs len = (case cbs_get cbs len of (None, cbs) \<Rightarrow> (None, cbs) | (Some _, cbs) \<Rightarrow> (Some (), cbs))"

definition CBS_data :: "cbs \<Rightarrow> bytes" where
  "CBS_data cbs = cbs"

definition CBS_len :: "cbs \<Rightarrow> nat" where
  "CBS_len cbs = length cbs"

text \<open>\<open>CBS_stow\<close> gives the copy (\<open>None\<close> for NULL) and its length, or fails.\<close>

definition CBS_stow :: "platform_malloc \<Rightarrow> cbs \<Rightarrow> (bytes option \<times> nat) option" where
  "CBS_stow mal cbs =
     (if length cbs = 0 then Some (None, 0)
      else (case OPENSSL_memdup mal cbs of None \<Rightarrow> None | Some p \<Rightarrow> Some (Some p, length cbs)))"

definition CBS_strdup :: "platform_malloc \<Rightarrow> cbs \<Rightarrow> bytes option" where
  "CBS_strdup mal cbs = OPENSSL_strndup mal cbs (length cbs)"

definition OPENSSL_memchr :: "bytes \<Rightarrow> byte \<Rightarrow> nat \<Rightarrow> nat option" where
  "OPENSSL_memchr s c n =
     (let i = length (takeWhile (\<lambda>b. b \<noteq> c) (take n s)) in if i < length (take n s) then Some i else None)"

definition CBS_contains_zero_byte :: "cbs \<Rightarrow> bool" where
  "CBS_contains_zero_byte cbs = (OPENSSL_memchr cbs 0 (length cbs) \<noteq> None)"

definition CBS_mem_equal :: "cbs \<Rightarrow> bytes \<Rightarrow> nat \<Rightarrow> bool" where
  "CBS_mem_equal cbs data len = (if len \<noteq> length cbs then False else CRYPTO_memcmp cbs data len = 0)"

section \<open>Fixed-width integers\<close>

definition cbs_get_u :: "cbs \<Rightarrow> nat \<Rightarrow> 64 word option \<times> cbs" where
  "cbs_get_u cbs len =
     (case cbs_get cbs len of
        (None, cbs) \<Rightarrow> (None, cbs)
      | (Some data, cbs) \<Rightarrow> (Some (foldl (\<lambda>result b. push_bit 8 result OR ucast b) 0 data), cbs))"

definition CBS_get_u8 :: "cbs \<Rightarrow> byte option \<times> cbs" where
  "CBS_get_u8 cbs = (case cbs_get cbs 1 of (None, cbs) \<Rightarrow> (None, cbs) | (Some v, cbs) \<Rightarrow> (Some (hd v), cbs))"

definition CBS_get_u16 :: "cbs \<Rightarrow> 16 word option \<times> cbs" where
  "CBS_get_u16 cbs = (case cbs_get_u cbs 2 of (None, cbs) \<Rightarrow> (None, cbs) | (Some v, cbs) \<Rightarrow> (Some (ucast v), cbs))"

text \<open>Byte swaps (\<open>crypto/internal.h\<close>), in their portable form.\<close>

definition CRYPTO_bswap2 :: "16 word \<Rightarrow> 16 word" where
  "CRYPTO_bswap2 x = drop_bit 8 x OR push_bit 8 x"

definition CRYPTO_bswap4 :: "32 word \<Rightarrow> 32 word" where
  "CRYPTO_bswap4 x0 =
     (let x = drop_bit 16 x0 OR push_bit 16 x0
      in drop_bit 8 (x AND 0xff00ff00) OR push_bit 8 (x AND 0x00ff00ff))"

definition CRYPTO_bswap8 :: "64 word \<Rightarrow> 64 word" where
  "CRYPTO_bswap8 x =
     ucast (CRYPTO_bswap4 (ucast (drop_bit 32 x))) OR push_bit 32 (ucast (CRYPTO_bswap4 (ucast x)))"

definition CBS_get_u16le :: "cbs \<Rightarrow> 16 word option \<times> cbs" where
  "CBS_get_u16le cbs = (case CBS_get_u16 cbs of (None, cbs) \<Rightarrow> (None, cbs) | (Some v, cbs) \<Rightarrow> (Some (CRYPTO_bswap2 v), cbs))"

definition CBS_get_u24 :: "cbs \<Rightarrow> 32 word option \<times> cbs" where
  "CBS_get_u24 cbs = (case cbs_get_u cbs 3 of (None, cbs) \<Rightarrow> (None, cbs) | (Some v, cbs) \<Rightarrow> (Some (ucast v), cbs))"

definition CBS_get_u32 :: "cbs \<Rightarrow> 32 word option \<times> cbs" where
  "CBS_get_u32 cbs = (case cbs_get_u cbs 4 of (None, cbs) \<Rightarrow> (None, cbs) | (Some v, cbs) \<Rightarrow> (Some (ucast v), cbs))"

definition CBS_get_u32le :: "cbs \<Rightarrow> 32 word option \<times> cbs" where
  "CBS_get_u32le cbs = (case CBS_get_u32 cbs of (None, cbs) \<Rightarrow> (None, cbs) | (Some v, cbs) \<Rightarrow> (Some (CRYPTO_bswap4 v), cbs))"

definition CBS_get_u64 :: "cbs \<Rightarrow> 64 word option \<times> cbs" where
  "CBS_get_u64 cbs = cbs_get_u cbs 8"

definition CBS_get_u64le :: "cbs \<Rightarrow> 64 word option \<times> cbs" where
  "CBS_get_u64le cbs = (case cbs_get_u cbs 8 of (None, cbs) \<Rightarrow> (None, cbs) | (Some v, cbs) \<Rightarrow> (Some (CRYPTO_bswap8 v), cbs))"

definition CBS_get_last_u8 :: "cbs \<Rightarrow> byte option \<times> cbs" where
  "CBS_get_last_u8 cbs =
     (if length cbs = 0 then (None, cbs)
      else (Some (cbs ! (length cbs - 1)), take (length cbs - 1) cbs))"

section \<open>Byte strings and length prefixes\<close>

definition CBS_get_bytes :: "cbs \<Rightarrow> nat \<Rightarrow> cbs option \<times> cbs" where
  "CBS_get_bytes cbs len =
     (case cbs_get cbs len of (None, cbs) \<Rightarrow> (None, cbs) | (Some v, cbs) \<Rightarrow> (Some (CBS_init v len), cbs))"

definition CBS_copy_bytes :: "cbs \<Rightarrow> nat \<Rightarrow> bytes option \<times> cbs" where
  "CBS_copy_bytes cbs len = cbs_get cbs len"

definition cbs_get_length_prefixed :: "cbs \<Rightarrow> nat \<Rightarrow> cbs option \<times> cbs" where
  "cbs_get_length_prefixed cbs len_len =
     (case cbs_get_u cbs len_len of
        (None, cbs) \<Rightarrow> (None, cbs)
      | (Some len, cbs) \<Rightarrow> CBS_get_bytes cbs (unat len))"

definition CBS_get_u8_length_prefixed :: "cbs \<Rightarrow> cbs option \<times> cbs" where
  "CBS_get_u8_length_prefixed cbs = cbs_get_length_prefixed cbs 1"

definition CBS_get_u16_length_prefixed :: "cbs \<Rightarrow> cbs option \<times> cbs" where
  "CBS_get_u16_length_prefixed cbs = cbs_get_length_prefixed cbs 2"

definition CBS_get_u24_length_prefixed :: "cbs \<Rightarrow> cbs option \<times> cbs" where
  "CBS_get_u24_length_prefixed cbs = cbs_get_length_prefixed cbs 3"

definition CBS_get_until_first :: "cbs \<Rightarrow> byte \<Rightarrow> cbs option \<times> cbs" where
  "CBS_get_until_first cbs c =
     (case OPENSSL_memchr cbs c (length cbs) of
        None \<Rightarrow> (None, cbs)
      | Some split \<Rightarrow> CBS_get_bytes cbs split)"

section \<open>ASN.1 tags, lengths and elements\<close>

abbreviation (input) CBS_ASN1_CONSTRUCTED :: tag where "CBS_ASN1_CONSTRUCTED \<equiv> 0x20000000"
abbreviation (input) CBS_ASN1_TAG_NUMBER_MASK :: tag where "CBS_ASN1_TAG_NUMBER_MASK \<equiv> 0x1fffffff"
abbreviation (input) CBS_ASN1_BOOLEAN :: tag where "CBS_ASN1_BOOLEAN \<equiv> 1"
abbreviation (input) CBS_ASN1_INTEGER :: tag where "CBS_ASN1_INTEGER \<equiv> 2"
abbreviation (input) CBS_ASN1_OCTETSTRING :: tag where "CBS_ASN1_OCTETSTRING \<equiv> 4"

text \<open>The loop of \<open>parse_base128_integer\<close>, one byte per call; \<open>CBS_get_u8\<close> fails on the empty
  string and takes the first byte otherwise.\<close>

fun parse_base128_loop :: "64 word \<Rightarrow> cbs \<Rightarrow> 64 word option \<times> cbs" where
  "parse_base128_loop v [] = (None, [])"
| "parse_base128_loop v (b # cbs) =
     (if drop_bit (64 - 7) v \<noteq> 0 then (None, cbs)
      else if v = 0 \<and> b = 0x80 then (None, cbs)
      else (let v = push_bit 7 v OR (ucast b AND 0x7f)
            in if b AND 0x80 \<noteq> 0 then parse_base128_loop v cbs else (Some v, cbs)))"

definition parse_base128_integer :: "cbs \<Rightarrow> 64 word option \<times> cbs" where
  "parse_base128_integer cbs = parse_base128_loop 0 cbs"

definition parse_asn1_tag :: "cbs \<Rightarrow> tag option \<times> cbs" where
  "parse_asn1_tag cbs =
     (case CBS_get_u8 cbs of
        (None, cbs) \<Rightarrow> (None, cbs)
      | (Some tag_byte, cbs) \<Rightarrow>
          (let tag = push_bit 24 (ucast tag_byte AND 0xe0); tag_number = ucast (tag_byte AND 0x1f)
           in if tag_number = 0x1f
              then (case parse_base128_integer cbs of
                      (None, cbs) \<Rightarrow> (None, cbs)
                    | (Some v, cbs) \<Rightarrow>
                        (if ucast CBS_ASN1_TAG_NUMBER_MASK < v \<or> v < 0x1f then (None, cbs)
                         else (Some (tag OR ucast v), cbs)))
              else (Some (tag OR tag_number), cbs)))"

record asn1_element =
  elem :: cbs
  elem_tag :: tag
  header_len :: nat
  ber_found :: bool

definition asn1_get_element :: "cbs \<Rightarrow> nat \<Rightarrow> tag \<Rightarrow> nat \<Rightarrow> bool \<Rightarrow> asn1_element option \<times> cbs" where
  "asn1_get_element cbs len tag hlen ber =
     (case CBS_get_bytes cbs len of
        (None, cbs) \<Rightarrow> (None, cbs)
      | (Some out, cbs) \<Rightarrow> (Some \<lparr>elem = out, elem_tag = tag, header_len = hlen, ber_found = ber\<rparr>, cbs))"

text \<open>The element is parsed on a copy of \<open>cbs\<close>, so a failure leaves \<open>cbs\<close> where it was. Length
  arithmetic is that of \<open>size_t\<close>.\<close>

definition cbs_get_any_asn1_element :: "cbs \<Rightarrow> bool \<Rightarrow> asn1_element option \<times> cbs" where
  "cbs_get_any_asn1_element cbs ber_ok =
     (case parse_asn1_tag cbs of
        (None, _) \<Rightarrow> (None, cbs)
      | (Some tag, header) \<Rightarrow>
     (case CBS_get_u8 header of
        (None, _) \<Rightarrow> (None, cbs)
      | (Some length_byte, header) \<Rightarrow>
          (let hlen = CBS_len cbs - CBS_len header
           in if length_byte AND 0x80 = 0
              then asn1_get_element cbs (szadd (unat length_byte) hlen) tag hlen False
              else
                (let num_bytes = unat (length_byte AND 0x7f)
                 in if ber_ok \<and> tag AND CBS_ASN1_CONSTRUCTED \<noteq> 0 \<and> num_bytes = 0
                    then asn1_get_element cbs hlen tag hlen True
                    else if num_bytes = 0 \<or> 4 < num_bytes then (None, cbs)
                    else
                      (case cbs_get_u header num_bytes of
                         (None, _) \<Rightarrow> (None, cbs)
                       | (Some len64, _) \<Rightarrow>
                           (let short = len64 < 128; longer = drop_bit ((num_bytes - 1) * 8) len64 = 0;
                                len = unat len64
                            in if (short \<or> longer) \<and> \<not> ber_ok then (None, cbs)
                               else if szadd (szadd len hlen) num_bytes < len then (None, cbs)
                               else asn1_get_element cbs (szadd len (szadd hlen num_bytes)) tag
                                      (szadd hlen num_bytes) (short \<or> longer)))))))"

definition CBS_get_any_asn1_element :: "cbs \<Rightarrow> asn1_element option \<times> cbs" where
  "CBS_get_any_asn1_element cbs = cbs_get_any_asn1_element cbs False"

definition CBS_get_any_ber_asn1_element :: "cbs \<Rightarrow> asn1_element option \<times> cbs" where
  "CBS_get_any_ber_asn1_element cbs = cbs_get_any_asn1_element cbs True"

definition CBS_get_any_asn1 :: "cbs \<Rightarrow> (cbs \<times> tag) option \<times> cbs" where
  "CBS_get_any_asn1 cbs =
     (case CBS_get_any_asn1_element cbs of
        (None, cbs) \<Rightarrow> (None, cbs)
      | (Some e, cbs) \<Rightarrow>
          (case CBS_skip (elem e) (header_len e) of
             (None, _) \<Rightarrow> (None, cbs)
           | (Some _, out) \<Rightarrow> (Some (out, elem_tag e), cbs)))"

definition cbs_get_asn1 :: "cbs \<Rightarrow> tag \<Rightarrow> bool \<Rightarrow> cbs option \<times> cbs" where
  "cbs_get_asn1 cbs tag_value skip_header =
     (case CBS_get_any_asn1_element cbs of
        (None, cbs) \<Rightarrow> (None, cbs)
      | (Some e, cbs) \<Rightarrow>
          (if elem_tag e \<noteq> tag_value then (None, cbs)
           else if skip_header
           then (case CBS_skip (elem e) (header_len e) of
                   (None, _) \<Rightarrow> (None, cbs)
                 | (Some _, out) \<Rightarrow> (Some out, cbs))
           else (Some (elem e), cbs)))"

definition CBS_get_asn1 :: "cbs \<Rightarrow> tag \<Rightarrow> cbs option \<times> cbs" where
  "CBS_get_asn1 cbs tag_value = cbs_get_asn1 cbs tag_value True"

definition CBS_get_asn1_element :: "cbs \<Rightarrow> tag \<Rightarrow> cbs option \<times> cbs" where
  "CBS_get_asn1_element cbs tag_value = cbs_get_asn1 cbs tag_value False"

definition CBS_peek_asn1_tag :: "cbs \<Rightarrow> tag \<Rightarrow> bool" where
  "CBS_peek_asn1_tag cbs tag_value =
     (if CBS_len cbs < 1 then False
      else (case parse_asn1_tag cbs of (None, _) \<Rightarrow> False | (Some actual_tag, _) \<Rightarrow> tag_value = actual_tag))"

section \<open>Integers, booleans and bit strings\<close>

text \<open>The result is \<open>None\<close> for an invalid INTEGER and whether it is negative otherwise.\<close>

definition CBS_is_valid_asn1_integer :: "cbs \<Rightarrow> bool option" where
  "CBS_is_valid_asn1_integer cbs =
     (case CBS_get_u8 cbs of
        (None, _) \<Rightarrow> None
      | (Some first_byte, copy) \<Rightarrow>
          (let is_negative = (first_byte AND 0x80 \<noteq> 0)
           in case CBS_get_u8 copy of
                (None, _) \<Rightarrow> Some is_negative
              | (Some second_byte, _) \<Rightarrow>
                  (if first_byte = 0 \<and> second_byte AND 0x80 = 0
                      \<or> first_byte = 0xff \<and> second_byte AND 0x80 \<noteq> 0
                   then None else Some is_negative)))"

definition CBS_is_unsigned_asn1_integer :: "cbs \<Rightarrow> bool" where
  "CBS_is_unsigned_asn1_integer cbs = (CBS_is_valid_asn1_integer cbs = Some False)"

fun asn1_uint64_loop :: "64 word \<Rightarrow> bytes \<Rightarrow> 64 word option" where
  "asn1_uint64_loop out [] = Some out"
| "asn1_uint64_loop out (b # data) =
     (if drop_bit 56 out \<noteq> 0 then None else asn1_uint64_loop (push_bit 8 out OR ucast b) data)"

definition CBS_get_asn1_uint64 :: "cbs \<Rightarrow> 64 word option \<times> cbs" where
  "CBS_get_asn1_uint64 cbs =
     (case CBS_get_asn1 cbs CBS_ASN1_INTEGER of
        (None, cbs) \<Rightarrow> (None, cbs)
      | (Some data, cbs) \<Rightarrow>
          (if \<not> CBS_is_unsigned_asn1_integer data then (None, cbs)
           else (asn1_uint64_loop 0 data, cbs)))"

text \<open>The eight bytes of the \<open>int64_t\<close>, least significant first (the app's targets are
  little-endian): sign-extended, then overwritten with the contents in reverse.\<close>

definition int64_bytes :: "bool \<Rightarrow> bytes \<Rightarrow> bytes" where
  "int64_bytes is_negative data =
     map (\<lambda>i. if i < length data then data ! (length data - i - 1)
              else if is_negative then 0xff else 0) [0..<8]"

definition CBS_get_asn1_int64 :: "cbs \<Rightarrow> 64 word option \<times> cbs" where
  "CBS_get_asn1_int64 cbs =
     (case CBS_get_asn1 cbs CBS_ASN1_INTEGER of
        (None, cbs) \<Rightarrow> (None, cbs)
      | (Some data, cbs) \<Rightarrow>
          (case CBS_is_valid_asn1_integer data of
             None \<Rightarrow> (None, cbs)
           | Some is_negative \<Rightarrow>
               (if 8 < length data then (None, cbs)
                else (Some (be_val (rev (int64_bytes is_negative data))), cbs))))"

definition CBS_get_asn1_bool :: "cbs \<Rightarrow> bool option \<times> cbs" where
  "CBS_get_asn1_bool cbs =
     (case CBS_get_asn1 cbs CBS_ASN1_BOOLEAN of
        (None, cbs) \<Rightarrow> (None, cbs)
      | (Some data, cbs) \<Rightarrow>
          (if CBS_len data \<noteq> 1 then (None, cbs)
           else (let val = hd data
                 in if val \<noteq> 0 \<and> val \<noteq> 0xff then (None, cbs) else (Some (val \<noteq> 0), cbs))))"

text \<open>Optional elements: \<open>Some None\<close> when the element is absent, which is a success.\<close>

definition CBS_get_optional_asn1 :: "cbs \<Rightarrow> tag \<Rightarrow> cbs option option \<times> cbs" where
  "CBS_get_optional_asn1 cbs tag =
     (if CBS_peek_asn1_tag cbs tag
      then (case CBS_get_asn1 cbs tag of
              (None, cbs) \<Rightarrow> (None, cbs)
            | (Some out, cbs) \<Rightarrow> (Some (Some out), cbs))
      else (Some None, cbs))"

text \<open>The octet string and whether it was present; the empty string when it was not.\<close>

definition CBS_get_optional_asn1_octet_string :: "cbs \<Rightarrow> tag \<Rightarrow> (cbs \<times> bool) option \<times> cbs" where
  "CBS_get_optional_asn1_octet_string cbs tag =
     (case CBS_get_optional_asn1 cbs tag of
        (None, cbs) \<Rightarrow> (None, cbs)
      | (Some None, cbs) \<Rightarrow> (Some ([], False), cbs)
      | (Some (Some child), cbs) \<Rightarrow>
          (case CBS_get_asn1 child CBS_ASN1_OCTETSTRING of
             (None, _) \<Rightarrow> (None, cbs)
           | (Some out, child) \<Rightarrow>
               (if CBS_len child \<noteq> 0 then (None, cbs) else (Some (out, True), cbs))))"

definition CBS_get_optional_asn1_uint64 :: "cbs \<Rightarrow> tag \<Rightarrow> 64 word \<Rightarrow> 64 word option \<times> cbs" where
  "CBS_get_optional_asn1_uint64 cbs tag default_value =
     (case CBS_get_optional_asn1 cbs tag of
        (None, cbs) \<Rightarrow> (None, cbs)
      | (Some None, cbs) \<Rightarrow> (Some default_value, cbs)
      | (Some (Some child), cbs) \<Rightarrow>
          (case CBS_get_asn1_uint64 child of
             (None, _) \<Rightarrow> (None, cbs)
           | (Some out, child) \<Rightarrow>
               (if CBS_len child \<noteq> 0 then (None, cbs) else (Some out, cbs))))"

definition CBS_get_optional_asn1_bool :: "cbs \<Rightarrow> tag \<Rightarrow> bool \<Rightarrow> bool option \<times> cbs" where
  "CBS_get_optional_asn1_bool cbs tag default_value =
     (case CBS_get_optional_asn1 cbs tag of
        (None, cbs) \<Rightarrow> (None, cbs)
      | (Some None, cbs) \<Rightarrow> (Some default_value, cbs)
      | (Some (Some child), cbs) \<Rightarrow>
          (case CBS_get_asn1 child CBS_ASN1_BOOLEAN of
             (None, _) \<Rightarrow> (None, cbs)
           | (Some child2, child) \<Rightarrow>
               (if CBS_len child2 \<noteq> 1 \<or> CBS_len child \<noteq> 0 then (None, cbs)
                else (let boolean = hd (CBS_data child2)
                      in if boolean = 0 then (Some False, cbs)
                         else if boolean = 0xff then (Some True, cbs)
                         else (None, cbs)))))"

definition CBS_is_valid_asn1_bitstring :: "cbs \<Rightarrow> bool" where
  "CBS_is_valid_asn1_bitstring cbs =
     (case CBS_get_u8 cbs of
        (None, _) \<Rightarrow> False
      | (Some num_unused_bits, in') \<Rightarrow>
          (if 7 < num_unused_bits then False
           else if num_unused_bits = 0 then True
           else (case CBS_get_last_u8 in' of
                   (None, _) \<Rightarrow> False
                 | (Some last_byte, _) \<Rightarrow> last_byte AND (push_bit (unat num_unused_bits) 1 - 1) = 0)))"

definition CBS_asn1_bitstring_has_bit :: "cbs \<Rightarrow> 32 word \<Rightarrow> bool" where
  "CBS_asn1_bitstring_has_bit cbs n =
     (if \<not> CBS_is_valid_asn1_bitstring cbs then False
      else (let byte_num = unat (drop_bit 3 n) + 1; bit_num = 7 - unat (n AND 7)
            in byte_num < CBS_len cbs \<and> CBS_data cbs ! byte_num AND push_bit bit_num 1 \<noteq> 0))"

section \<open>Every operation consumes a prefix of its input\<close>

lemma CBS_init_take [simp]: "CBS_init (take n s) n = take n s"
  by (simp add: CBS_init_def)

lemma cbs_get_eq: "cbs_get s n = (if length s < n then None else Some (take n s), if length s < n then s else drop n s)"
  by (simp add: cbs_get_def)

lemma cbs_get_append [simp]: "length p = n \<Longrightarrow> cbs_get (p @ s) n = (Some p, s)"
  by (simp add: cbs_get_def)

lemma cbs_get_Some: "cbs_get s n = (Some p, r) \<longleftrightarrow> length p = n \<and> s = p @ r"
  by (auto simp: cbs_get_def)

lemma CBS_get_u8_Nil [simp]: "CBS_get_u8 [] = (None, [])"
  by (simp add: CBS_get_u8_def cbs_get_def)

lemma CBS_get_u8_Cons [simp]: "CBS_get_u8 (b # s) = (Some b, s)"
  by (simp add: CBS_get_u8_def cbs_get_def)

lemma CBS_get_u8_Some: "CBS_get_u8 s = (Some b, r) \<longleftrightarrow> s = b # r"
  by (cases s) auto

lemma CBS_get_u8_None: "CBS_get_u8 s = (None, r) \<longleftrightarrow> s = [] \<and> r = []"
  by (cases s) auto

lemma CBS_get_bytes_eq: "CBS_get_bytes s n = cbs_get s n"
  by (simp add: CBS_get_bytes_def cbs_get_def)

lemma CBS_get_bytes_Some: "CBS_get_bytes s n = (Some p, r) \<longleftrightarrow> length p = n \<and> s = p @ r"
  by (simp add: CBS_get_bytes_eq cbs_get_Some)

lemma CBS_get_bytes_None: "CBS_get_bytes s n = (None, r) \<longleftrightarrow> length s < n \<and> r = s"
  by (auto simp: CBS_get_bytes_eq cbs_get_def)

lemma CBS_skip_eq: "CBS_skip s n = (if length s < n then (None, s) else (Some (), drop n s))"
  by (simp add: CBS_skip_def cbs_get_def)

lemma cbs_get_u_eq: "cbs_get_u s n = (if length s < n then (None, s) else (Some (be_val (take n s)), drop n s))"
  by (simp add: cbs_get_u_def cbs_get_def be_val_def)

lemma cbs_get_u_Some: "cbs_get_u s n = (Some v, r) \<longleftrightarrow> (\<exists>p. length p = n \<and> s = p @ r \<and> v = be_val p)"
  by (auto simp: cbs_get_u_eq) (metis append_take_drop_id length_take min.absorb2 not_le)

lemma reader_cbs_get [consumes_intros]: "reader (\<lambda>s. cbs_get s n)"
  by unfold_locales (auto simp: cbs_get_def intro: append_take_drop_id [symmetric] split: if_splits)

lemma reader_CBS_get_u8 [consumes_intros]: "reader CBS_get_u8"
  unfolding CBS_get_u8_def by (intro consumes_intros)

lemma reader_CBS_get_bytes [consumes_intros]: "reader (\<lambda>s. CBS_get_bytes s n)"
  unfolding CBS_get_bytes_def by (intro consumes_intros)

lemma reader_cbs_get_u [consumes_intros]: "reader (\<lambda>s. cbs_get_u s n)"
  unfolding cbs_get_u_def by (intro consumes_intros)

lemma reader_cbs_get_length_prefixed: "reader (\<lambda>s. cbs_get_length_prefixed s n)"
  unfolding cbs_get_length_prefixed_def by (intro consumes_intros)

lemma parse_base128_loop_consumes: "parse_base128_loop v s = (r, s') \<Longrightarrow> \<exists>p. s = p @ s'"
proof (induction v s rule: parse_base128_loop.induct)
  case (1 v)
  then show ?case by simp
next
  case (2 v b s)
  show ?case
  proof (cases "s' = s")
    case True
    then show ?thesis by (intro exI [of _ "[b]"]) simp
  next
    case False
    then have "\<exists>p. s = p @ s'" using 2 by (auto simp: Let_def split: if_splits)
    then show ?thesis by (metis append_Cons)
  qed
qed

lemma reader_parse_base128_integer [consumes_intros]: "reader parse_base128_integer"
  by unfold_locales (simp add: parse_base128_integer_def parse_base128_loop_consumes)

lemma reader_parse_asn1_tag [consumes_intros]: "reader parse_asn1_tag"
  unfolding parse_asn1_tag_def Let_def by (intro consumes_intros)

interpretation base128: strict_reader parse_base128_integer
proof (unfold_locales)
  fix s r s' assume "parse_base128_integer s = (r, s')"
  then show "\<exists>p. s = p @ s'" by (rule reader.consumes [OF reader_parse_base128_integer])
next
  fix s x s' assume a: "parse_base128_integer s = (Some x, s')"
  then obtain b t where s: "s = b # t" by (cases s) (auto simp: parse_base128_integer_def)
  have "\<exists>p. t = p @ s'"
    using a parse_base128_loop_consumes unfolding s parse_base128_integer_def
    by (fastforce simp: Let_def split: if_splits)
  then show "s' \<noteq> s" using s by auto
qed

interpretation asn1_tag: strict_reader parse_asn1_tag
proof (unfold_locales)
  fix s r s' assume "parse_asn1_tag s = (r, s')"
  then show "\<exists>p. s = p @ s'" by (rule reader.consumes [OF reader_parse_asn1_tag])
next
  fix s x s' assume a: "parse_asn1_tag s = (Some x, s')"
  then obtain b t where s: "s = b # t" by (cases s) (auto simp: parse_asn1_tag_def)
  have "length s' \<le> length t"
    using a base128.length_le [of t] unfolding s parse_asn1_tag_def
    by (auto simp: Let_def split: if_splits option.splits prod.splits)
  then show "s' \<noteq> s" using s by auto
qed

text \<open>An element is taken off the front of the input, header and contents; on failure the input is
  left alone.\<close>

lemma asn1_get_element_Some:
  "asn1_get_element s n t h b = (Some e, r) \<longleftrightarrow>
     s = elem e @ r \<and> length (elem e) = n \<and> e = \<lparr>elem = elem e, elem_tag = t, header_len = h, ber_found = b\<rparr>"
  by (auto simp: asn1_get_element_def CBS_get_bytes_Some CBS_get_bytes_None split: prod.splits option.splits)

lemma asn1_get_element_None: "asn1_get_element s n t h b = (None, r) \<Longrightarrow> r = s"
  by (auto simp: asn1_get_element_def CBS_get_bytes_None split: prod.splits option.splits)

lemma element_consumes:
  assumes "cbs_get_any_asn1_element s b = (Some e, r)"
  shows "s = elem e @ r"
  using assms
  by (auto simp: cbs_get_any_asn1_element_def Let_def asn1_get_element_Some
      split: prod.splits option.splits if_splits)

lemma element_failure_keeps:
  assumes "cbs_get_any_asn1_element s b = (None, r)"
  shows "r = s"
  using assms
  by (auto simp: cbs_get_any_asn1_element_def Let_def dest: asn1_get_element_None
      split: prod.splits option.splits if_splits)

lemma reader_element: "reader (\<lambda>s. cbs_get_any_asn1_element s b)"
proof
  fix s r s' assume "cbs_get_any_asn1_element s b = (r, s')"
  then show "\<exists>p. s = p @ s'"
    by (cases r) (auto dest: element_consumes element_failure_keeps)
qed

end
