(* ===== verification/DER.thy ===== *)
theory DER
  imports CBS
begin

text \<open>
  The encoding that the byte-string readers and writers implement, as X.690 gives it and
  independently of the code: base-128 integers, identifier octets, length octets, elements. This is
  the abstract specification of the BoringSSL byte-string component; here \<open>crypto/bytestring/cbs.c\<close>
  is shown to accept exactly these encodings in DER mode.
\<close>

section \<open>Specification\<close>

text \<open>Base-128 digits, most significant first, with the continuation bit in all but the last.\<close>

fun b128_hi :: "nat \<Rightarrow> bytes" where
  "b128_hi n = (if n = 0 then [] else b128_hi (n div 128) @ [of_nat (n mod 128 + 128)])"

declare b128_hi.simps [simp del]

definition base128_bytes :: "nat \<Rightarrow> bytes" where
  "base128_bytes n = b128_hi (n div 128) @ [of_nat (n mod 128)]"

definition der_tag_bytes :: "tag \<Rightarrow> bytes" where
  "der_tag_bytes t =
     (let bits = (ucast (drop_bit 24 t) AND 0xe0 :: byte); num = t AND CBS_ASN1_TAG_NUMBER_MASK
      in if 0x1f \<le> num then (bits OR 0x1f) # base128_bytes (unat num) else [bits OR ucast num])"

definition der_len_len :: "nat \<Rightarrow> nat" where
  "der_len_len n = (if n \<le> 0xff then 1 else if n \<le> 0xffff then 2 else if n \<le> 0xffffff then 3 else 4)"

definition der_length_bytes :: "nat \<Rightarrow> bytes" where
  "der_length_bytes n =
     (if n < 128 then [of_nat n]
      else (0x80 OR of_nat (der_len_len n)) # be_bytes (der_len_len n) (of_nat n))"

definition der_header :: "tag \<Rightarrow> nat \<Rightarrow> bytes" where
  "der_header t n = der_tag_bytes t @ der_length_bytes n"

definition der_element :: "tag \<times> bytes \<Rightarrow> bytes" where
  "der_element tc = der_header (fst tc) (length (snd tc)) @ snd tc"

section \<open>Base-128 integers\<close>

lemma b128_hi_0 [simp]: "b128_hi 0 = []"
  by (simp add: b128_hi.simps)

lemma b128_hi_pos: "0 < n \<Longrightarrow> b128_hi n = b128_hi (n div 128) @ [of_nat (n mod 128 + 128)]"
  by (subst b128_hi.simps) simp

lemma b128_step:
  assumes "unat v < 2 ^ 57"
  shows "unat (push_bit 7 v OR (ucast (b :: byte) AND 0x7f) :: 64 word) = unat v * 128 + unat b mod 128"
proof -
  have "unat (ucast b AND 0x7f :: 64 word) < 2 ^ 7"
    by (simp add: ucast_and_7f)
  then show ?thesis
    using assms unat_push_or [of "ucast b AND 0x7f :: 64 word" 7 v] by (simp add: ucast_and_7f)
qed

lemma byte_of_high: "128 \<le> unat b \<Longrightarrow> of_nat (unat b mod 128 + 128) = (b :: byte)"
proof -
  assume "128 \<le> unat b"
  then have "unat b mod 128 = unat b - 128" using byte_lt [of b] by (simp add: le_mod_geq)
  then show ?thesis using \<open>128 \<le> unat b\<close> by (simp del: of_nat_add)
qed

lemma parse_base128_step:
  "parse_base128_loop v (b # s) =
     (if 2 ^ 57 \<le> unat v then (None, s)
      else if unat v = 0 \<and> unat b = 128 then (None, s)
      else if 128 \<le> unat b then parse_base128_loop (of_nat (unat v * 128 + unat b mod 128)) s
      else (Some (of_nat (unat v * 128 + unat b)), s))"
proof (cases "unat v < 2 ^ 57")
  case True
  have v0: "v = 0 \<longleftrightarrow> unat v = 0" and b80: "b = 0x80 \<longleftrightarrow> unat b = 128"
    by (simp_all add: word_unat_eq_iff)
  have v': "push_bit 7 v OR (ucast b AND 0x7f) = of_nat (unat v * 128 + unat b mod 128)"
    by (simp only: b128_step [OF True, of b, symmetric] of_nat_unat ucast_id)
  show ?thesis using True
    by (simp only: parse_base128_loop.simps Let_def drop_bit_zero_iff high_bit_clear_iff v' v0 b80)
      (auto simp: not_le)
next
  case False
  then show ?thesis by (simp add: drop_bit_zero_iff not_less)
qed

lemma parse_base128_b128_hi:
  "n < 2 ^ 57 \<Longrightarrow> parse_base128_loop 0 (b128_hi n @ s) = parse_base128_loop (of_nat n) s"
proof (induction n arbitrary: s rule: b128_hi.induct)
  case (1 n)
  show ?case
  proof (cases "n = 0")
    case False
    let ?c = "of_nat (n mod 128 + 128) :: byte" and ?v = "of_nat (n div 128) :: 64 word"
    have c: "unat ?c = n mod 128 + 128" by (rule unat_of_nat_mod_128)
    have v: "unat ?v = n div 128"
      using 1(2) by (simp add: unsigned_of_nat take_bit_nat_eq_self)
    have "parse_base128_loop 0 (b128_hi n @ s) = parse_base128_loop ?v (?c # s)"
      using 1 False by (simp add: b128_hi_pos)
    also have "\<dots> = parse_base128_loop (of_nat n) s"
      using 1(2) False by (subst parse_base128_step) (simp only: c v, auto)
    finally show ?thesis .
  qed simp
qed

lemma parse_base128_base128_bytes:
  assumes "n < 2 ^ 64"
  shows "parse_base128_integer (base128_bytes n @ s) = (Some (of_nat n), s)"
proof -
  let ?c = "of_nat (n mod 128) :: byte" and ?v = "of_nat (n div 128) :: 64 word"
  have "n mod 128 < 256" using mod_less_divisor [of 128 n] by linarith
  then have c: "unat ?c = n mod 128" by (rule unat_of_nat_byte)
  have nle: "(128 \<le> n mod 128) = False" by (simp add: not_le)
  have "n div 128 < 2 ^ 57" using assms by simp
  then have v: "unat ?v = n div 128" by (simp add: unsigned_of_nat take_bit_nat_eq_self)
  have "parse_base128_integer (base128_bytes n @ s) = parse_base128_loop ?v (?c # s)"
    using \<open>n div 128 < 2 ^ 57\<close> by (simp add: parse_base128_integer_def base128_bytes_def parse_base128_b128_hi)
  also have "\<dots> = (Some (of_nat n), s)"
    using \<open>n div 128 < 2 ^ 57\<close> nle by (subst parse_base128_step) (simp only: c v, simp)
  finally show ?thesis .
qed

lemma parse_base128_loop_canonical:
  "parse_base128_loop v s = (Some w, r) \<Longrightarrow> \<exists>p. s = p @ r \<and> b128_hi (unat v) @ p = base128_bytes (unat w)"
proof (induction s arbitrary: v)
  case Nil
  then show ?case by simp
next
  case (Cons b s)
  let ?n = "unat v * 128 + unat b mod 128"
  have small: "unat v < 2 ^ 57" and lead: "\<not> (unat v = 0 \<and> unat b = 128)"
    using Cons.prems unfolding parse_base128_step by (auto split: if_splits)
  then have n: "unat (of_nat ?n :: 64 word) = ?n"
    using mod_less_divisor [of 128 "unat b"] by (simp add: unsigned_of_nat take_bit_nat_eq_self del: of_nat_add)
  have dm: "?n div 128 = unat v" "?n mod 128 = unat b mod 128" by auto
  show ?case
  proof (cases "128 \<le> unat b")
    case True
    then have "parse_base128_loop (of_nat ?n) s = (Some w, r)"
      using Cons.prems small lead unfolding parse_base128_step by auto
    then obtain p where p: "s = p @ r" "b128_hi ?n @ p = base128_bytes (unat w)"
      using Cons.IH n by metis
    have "0 < ?n" using lead True byte_lt [of b] by (cases "unat v = 0") (auto simp: le_mod_geq)
    then have "b128_hi ?n = b128_hi (unat v) @ [b]"
      by (subst b128_hi_pos) (simp_all only: dm byte_of_high [OF True])
    then show ?thesis using p by (intro exI [of _ "b # p"]) simp
  next
    case False
    then have r: "r = s" "w = of_nat ?n"
      using Cons.prems small lead unfolding parse_base128_step by auto
    then have "unat w = ?n" using n by simp
    then have "base128_bytes (unat w) = b128_hi (unat v) @ [b]"
      using False by (simp add: base128_bytes_def dm)
    then show ?thesis using r by (intro exI [of _ "[b]"]) simp
  qed
qed

lemma parse_base128_integer_iff:
  "parse_base128_integer s = (Some w, r) \<longleftrightarrow> s = base128_bytes (unat w) @ r"
proof
  assume "parse_base128_integer s = (Some w, r)"
  from parse_base128_loop_canonical [OF this [unfolded parse_base128_integer_def]]
  show "s = base128_bytes (unat w) @ r" by auto
next
  assume "s = base128_bytes (unat w) @ r"
  then show "parse_base128_integer s = (Some w, r)"
    using parse_base128_base128_bytes [of "unat w" r] unsigned_less [of w] by simp
qed

interpretation base128_codec: canonical_codec "\<lambda>w. base128_bytes (unat w)" parse_base128_integer "\<lambda>_. True"
  by unfold_locales (auto simp: parse_base128_integer_iff)

section \<open>Identifier octets\<close>

lemma der_masks: "(0xe0 :: byte) = push_bit 5 (mask 3)" "(0x1f :: byte) = mask 5" "(0xe0 :: 32 word) = push_bit 5 (mask 3)" "(0x1fffffff :: 32 word) = mask 29" "(0x1fffffff :: 64 word) = mask 29"
  by (simp_all add: mask_eq_exp_minus_1 push_bit_eq_mult)

lemma tag_w1: "(x AND 0xe0 OR (m AND 0x1f)) AND 0x1f = (m AND 0x1f :: byte)" "(x AND 0xe0 OR (m AND 0x1f)) AND 0xe0 = (x AND 0xe0 :: byte)"
  unfolding der_masks by (rule bit_eqI; auto simp: bit_simps)+

lemma tag_w2: "push_bit 24 (ucast (ucast (drop_bit 24 t) AND 0xe0 :: byte) AND 0xe0) OR (t AND 0x1fffffff) = (t :: 32 word)"
  unfolding der_masks by (rule bit_eqI) (auto simp: bit_simps)

lemma tag_w3: 
  "ucast (drop_bit 24 (push_bit 24 (ucast x AND 0xe0) OR (n AND 0x1fffffff) :: 32 word)) AND 0xe0 = (x AND 0xe0 :: byte)"
  unfolding der_masks by (rule bit_eqI) (auto simp: bit_simps)

lemma tag_w4: "(push_bit 24 (ucast (x::byte) AND 0xe0) OR (n AND 0x1fffffff)) AND 0x1fffffff = (n AND 0x1fffffff :: 32 word)"
  unfolding der_masks by (rule bit_eqI) (auto simp: bit_simps)

lemma tag_w5: "(x AND 0xe0) OR (x AND 0x1f) = (x :: byte)"
  unfolding der_masks by (rule bit_eqI) (auto simp: bit_simps)

lemma tag_number_small: "(ucast (x AND 0x1f :: byte) :: 32 word) AND 0x1fffffff = ucast (x AND 0x1f)"
  unfolding der_masks by (rule bit_eqI) (auto simp: bit_simps)

lemma tag_number_long: "(ucast (x AND 0x1f :: byte) :: 32 word) = 0x1f \<longleftrightarrow> x AND 0x1f = 0x1f"
  by (simp add: word_unat_eq_iff unat_ucast_up)

lemma unat_and_1f: "unat (x AND 0x1f :: byte) = unat x mod 32"
  using nat_and_mask [of "unat x" 5] by (simp add: unsigned_and_eq)

lemma unat_and_tag_mask: "unat (n AND 0x1fffffff :: 32 word) = unat n mod 2 ^ 29"
  using nat_and_mask [of "unat n" 29] by (simp add: unsigned_and_eq)

lemma and_tag_mask_id: "unat n < 2 ^ 29 \<Longrightarrow> n AND 0x1fffffff = (n :: 32 word)"
  by (simp add: word_unat_eq_iff unat_and_tag_mask)

lemma der_tag_bytes_long:
  assumes "x AND 0x1f = 0x1f" "0x1f \<le> n" "unat n < 2 ^ 29"
  shows "der_tag_bytes (push_bit 24 (ucast x AND 0xe0) OR n) = x # base128_bytes (unat n)"
proof -
  have n: "n AND 0x1fffffff = n" using assms(3) by (rule and_tag_mask_id)
  have x: "x AND 0xe0 OR 0x1f = x" using tag_w5 [of x] assms(1) by simp
  show ?thesis
    using tag_w3 [of x n] tag_w4 [of x n] assms(2) x n by (simp add: der_tag_bytes_def Let_def)
qed

lemma der_tag_bytes_short:
  assumes "x AND 0x1f \<noteq> 0x1f"
  shows "der_tag_bytes (push_bit 24 (ucast x AND 0xe0) OR ucast (x AND 0x1f)) = [x]"
proof -
  let ?n = "ucast (x AND 0x1f) :: 32 word"
  have n: "?n AND 0x1fffffff = ?n" by (rule tag_number_small)
  have "unat x mod 32 \<noteq> 31" using assms by (simp add: word_unat_eq_iff unat_and_1f)
  moreover have "unat x mod 32 < 32" by simp
  ultimately have "\<not> 0x1f \<le> ?n"
    by (simp add: word_le_nat_alt unat_ucast_up unat_and_1f)
  moreover have "ucast ?n = x AND 0x1f" by (simp add: word_unat_eq_iff unat_ucast_down unat_ucast_up unat_and_1f)
  ultimately show ?thesis
    using tag_w3 [of x ?n] tag_w4 [of x ?n] n tag_w5 [of x] by (simp add: der_tag_bytes_def Let_def)
qed

lemma parse_asn1_tag_sound:
  assumes "parse_asn1_tag s = (Some t, r)"
  shows "s = der_tag_bytes t @ r"
proof -
  from assms obtain x s1 where s: "s = x # s1" by (cases s) (auto simp: parse_asn1_tag_def)
  show ?thesis
  proof (cases "x AND 0x1f = 0x1f")
    case True
    then have "(ucast (x AND 0x1f) :: 32 word) = 0x1f" by (rule iffD2 [OF tag_number_long])
    then obtain v where v: "parse_base128_integer s1 = (Some v, r)" "v \<le> ucast CBS_ASN1_TAG_NUMBER_MASK" "0x1f \<le> v"
      and t: "t = push_bit 24 (ucast x AND 0xe0) OR ucast v"
      using assms unfolding s parse_asn1_tag_def
      by (auto simp: Let_def not_less split: prod.splits option.splits if_splits)
    from v(2,3) have "unat v < 2 ^ 29" "31 \<le> unat v"
      by (simp_all add: word_le_nat_alt)
    then have u: "unat (ucast v :: 32 word) = unat v" by (simp add: unat_ucast_down)
    then have "der_tag_bytes t = x # base128_bytes (unat v)"
      unfolding t using \<open>unat v < 2 ^ 29\<close> \<open>31 \<le> unat v\<close>
      by (subst der_tag_bytes_long [OF True]) (simp_all add: word_le_nat_alt)
    then show ?thesis using v(1) s by (simp add: parse_base128_integer_iff)
  next
    case False
    then have "(ucast (x AND 0x1f) :: 32 word) \<noteq> 0x1f" by (simp only: tag_number_long) simp
    then have "r = s1" "t = push_bit 24 (ucast x AND 0xe0) OR ucast (x AND 0x1f)"
      using assms unfolding s parse_asn1_tag_def by (auto simp: Let_def)
    then show ?thesis using der_tag_bytes_short [OF False] s by simp
  qed
qed

lemma ucast_and_e0: "(ucast (y :: byte) :: 32 word) AND 0xe0 = ucast (y AND 0xe0)"
  unfolding der_masks by (rule bit_eqI) (auto simp: bit_simps)

lemma and_e0_idem: "(x AND 0xe0) AND 0xe0 = (x AND 0xe0 :: byte)"
  unfolding der_masks by (rule bit_eqI) (auto simp: bit_simps)

lemma parse_asn1_tag_complete: "parse_asn1_tag (der_tag_bytes t @ r) = (Some t, r)"
proof -
  let ?b = "ucast (drop_bit 24 t) AND 0xe0 :: byte" and ?n = "t AND 0x1fffffff"
  have t: "push_bit 24 (ucast ?b) OR ?n = t"
    using tag_w2 [of t] by (simp only: ucast_and_e0 and_e0_idem)
  have bound: "unat ?n < 2 ^ 29" by (simp add: unat_and_tag_mask)
  show ?thesis
  proof (cases "0x1f \<le> ?n")
    case True
    let ?x = "?b OR 0x1f" and ?v = "of_nat (unat ?n) :: 64 word"
    have x: "?x AND 0x1f = 0x1f" "?x AND 0xe0 = ?b"
      using tag_w1 [of "ucast (drop_bit 24 t)" "0x1f"] by simp_all
    have x32: "(ucast (?x AND 0x1f) :: 32 word) = 0x1f" by (rule iffD2 [OF tag_number_long x(1)])
    have p: "parse_base128_integer (base128_bytes (unat ?n) @ r) = (Some ?v, r)"
      using bound by (intro parse_base128_base128_bytes) simp
    have v: "unat ?v = unat ?n"
      using bound by (simp only: unsigned_of_nat) (simp add: take_bit_nat_eq_self)
    have "31 \<le> unat ?n" using True by (simp add: word_le_nat_alt)
    then have range: "\<not> (ucast CBS_ASN1_TAG_NUMBER_MASK < ?v \<or> ?v < 0x1f)"
      using bound by (simp add: word_less_nat_alt unat_ucast_up)
    have cast: "ucast ?v = ?n"
      using bound v by (simp only: word_unat_eq_iff unat_ucast_down) simp
    have "der_tag_bytes t = ?x # base128_bytes (unat ?n)"
      using True by (simp add: der_tag_bytes_def Let_def)
    then show ?thesis
      using p x32 range cast t
      by (simp only: parse_asn1_tag_def Let_def append_Cons CBS_get_u8_Cons prod.case option.case
          ucast_and_e0 x if_True if_False refl)
  next
    case False
    let ?m = "ucast ?n :: byte"
    have "unat ?n < 31" using False by (simp add: word_le_nat_alt not_le)
    then have m: "unat ?m = unat ?n" by (simp only: unat_ucast_down) simp
    then have m1: "?m AND 0x1f = ?m" "?m \<noteq> 0x1f"
      using \<open>unat ?n < 31\<close> by (simp_all add: word_unat_eq_iff unat_and_1f)
    let ?x = "?b OR ?m"
    have x: "?x AND 0x1f = ?m" "?x AND 0xe0 = ?b"
      using tag_w1 [of "ucast (drop_bit 24 t)" ?m] by (simp_all only: m1)
    have x32: "(ucast ?m :: 32 word) \<noteq> 0x1f"
      using m \<open>unat ?n < 31\<close> by (simp add: word_unat_eq_iff unat_ucast_up del: unsigned_ucast_eq)
    have cast: "ucast ?m = ?n"
      by (subst word_unat_eq_iff, subst unat_ucast_up) (simp, rule m)
    have "der_tag_bytes t = [?x]" using False by (simp add: der_tag_bytes_def Let_def)
    then show ?thesis
      using x32 cast t
      by (simp only: parse_asn1_tag_def Let_def append_Cons append_Nil CBS_get_u8_Cons prod.case option.case
          ucast_and_e0 x if_False)
  qed
qed

lemma parse_asn1_tag_iff: "parse_asn1_tag s = (Some t, r) \<longleftrightarrow> s = der_tag_bytes t @ r"
  using parse_asn1_tag_sound parse_asn1_tag_complete by metis

interpretation tag_codec: canonical_codec der_tag_bytes parse_asn1_tag "\<lambda>_. True"
  by unfold_locales (auto simp: parse_asn1_tag_iff)

section \<open>Length octets\<close>

lemma length_b128_hi: "n < 128 ^ k \<Longrightarrow> length (b128_hi n) \<le> k"
proof (induction k arbitrary: n)
  case 0
  then show ?case by simp
next
  case (Suc k)
  then have "n div 128 < 128 ^ k" by (auto simp: less_mult_imp_div_less mult.commute)
  then show ?case using Suc.IH by (cases "n = 0") (auto simp: b128_hi_pos)
qed

lemma length_base128_bytes: "n < 128 ^ Suc k \<Longrightarrow> length (base128_bytes n) \<le> Suc k"
  using length_b128_hi [of "n div 128" k]
  by (auto simp: base128_bytes_def less_mult_imp_div_less mult.commute)

lemma length_der_tag_bytes: "0 < length (der_tag_bytes t) \<and> length (der_tag_bytes t) \<le> 6"
proof -
  have "unat (t AND 0x1fffffff) < 128 ^ Suc 4"
  proof -
    have "unat t mod 2 ^ 29 < 2 ^ 29" by (rule mod_less_divisor) simp
    then show ?thesis by (simp add: unat_and_tag_mask)
  qed
  then show ?thesis
    using length_base128_bytes [of _ 4] by (auto simp: der_tag_bytes_def Let_def)
qed

lemma der_len_len_cases: "der_len_len n \<in> {1, 2, 3, 4}"
  by (simp add: der_len_len_def)

lemma length_der_length_bytes: "0 < length (der_length_bytes n) \<and> length (der_length_bytes n) \<le> 5"
  using der_len_len_cases [of n] by (auto simp: der_length_bytes_def)

lemma unat_be_val_bound: "length p \<le> 8 \<Longrightarrow> unat (be_val p) < 2 ^ (8 * length p)"
proof -
  have "take_bit (8 * length p) (unat (be_val p)) = unat (be_val p)"
    by (metis be_val_bound unsigned_take_bit_eq)
  then show ?thesis by (metis take_bit_nat_less_exp)
qed

lemma der_len_len_canonical:
  assumes "length p = k" "k \<in> {1, 2, 3, 4}" "128 \<le> unat (be_val p)" "drop_bit ((k - 1) * 8) (be_val p) \<noteq> 0"
  shows "der_len_len (unat (be_val p)) = k" "be_bytes k (of_nat (unat (be_val p))) = p"
    "unat (be_val p) < 2 ^ 32"
proof -
  have hi: "unat (be_val p) < 2 ^ (8 * k)" using unat_be_val_bound [of p] assms by auto
  have lo: "2 ^ ((k - 1) * 8) \<le> unat (be_val p)" using assms(4) by (simp add: drop_bit_zero_iff)
  show "der_len_len (unat (be_val p)) = k" "unat (be_val p) < 2 ^ 32"
    using hi lo assms(2) by (auto simp: der_len_len_def)
  have "length p \<le> 8" using assms(1,2) by auto
  then show "be_bytes k (of_nat (unat (be_val p))) = p"
    using be_bytes_be_val [of p] assms(1) by simp
qed

lemma be_val_length_octets:
  assumes "128 \<le> n" "n < 2 ^ 32"
  shows "unat (be_val (be_bytes (der_len_len n) (of_nat n))) = n"
    "drop_bit ((der_len_len n - 1) * 8) (be_val (be_bytes (der_len_len n) (of_nat n))) \<noteq> 0"
proof -
  let ?k = "der_len_len n"
  have b: "n < 2 ^ (8 * ?k)" "2 ^ ((?k - 1) * 8) \<le> n" using assms by (simp_all add: der_len_len_def)
  have "n < 2 ^ 64" using assms(2) by simp
  then have "unat (of_nat n :: 64 word) = n" by (simp add: unsigned_of_nat take_bit_nat_eq_self)
  then show *: "unat (be_val (be_bytes ?k (of_nat n))) = n"
    using b(1) by (simp add: be_val_be_bytes unsigned_take_bit_eq take_bit_nat_eq_self)
  show "drop_bit ((?k - 1) * 8) (be_val (be_bytes ?k (of_nat n))) \<noteq> 0"
    unfolding drop_bit_zero_iff * using b(2) by simp
qed

section \<open>Elements\<close>

lemma length_der_header: "2 \<le> length (der_header t n)" "length (der_header t n) \<le> 11"
  using length_der_tag_bytes [of t] length_der_length_bytes [of n]
  unfolding der_header_def length_append by linarith+

text \<open>What the element parser returns on the encoding of an element, in DER and in BER mode.\<close>

lemma element_complete:
  assumes "length c < 2 ^ 32"
  shows "cbs_get_any_asn1_element (der_element (t, c) @ r) ber_ok =
    (Some \<lparr>elem = der_element (t, c), elem_tag = t, header_len = length (der_header t (length c)),
           ber_found = False\<rparr>, r)"
proof -
  let ?n = "length c" and ?s = "der_element (t, c) @ r"
  have tag: "parse_asn1_tag ?s = (Some t, der_length_bytes ?n @ c @ r)"
    by (simp add: der_element_def der_header_def parse_asn1_tag_complete)
  have lt: "length (der_tag_bytes t) \<le> 6" using length_der_tag_bytes by blast
  have out: "asn1_get_element ?s (length (der_element (t, c))) t h False =
      (Some \<lparr>elem = der_element (t, c), elem_tag = t, header_len = h, ber_found = False\<rparr>, r)" for h
    by (simp add: asn1_get_element_Some)
  show ?thesis
  proof (cases "?n < 128")
    case True
    have lb: "der_length_bytes ?n = [of_nat ?n]" using True by (simp add: der_length_bytes_def)
    have u: "unat (of_nat ?n :: byte) = ?n" using True by (simp add: unat_of_nat_byte)
    then have hb: "(of_nat ?n :: byte) AND 0x80 = 0" using True by (simp only: high_bit_clear_iff)
    have hl: "CBS_len ?s - CBS_len (c @ r) = length (der_header t ?n)"
      by (simp add: CBS_len_def der_element_def der_header_def lb)
    have "szadd ?n (length (der_header t ?n)) = length (der_element (t, c))"
      using lt True by (subst szadd_small) (auto simp: der_element_def der_header_def lb)
    then show ?thesis
      unfolding cbs_get_any_asn1_element_def tag lb append_Cons append_Nil
      by (simp only: prod.case option.case CBS_get_u8_Cons Let_def hl hb u refl if_True out)
  next
    case False
    let ?k = "der_len_len ?n" and ?lb = "0x80 OR of_nat (der_len_len ?n) :: byte"
    let ?p = "be_bytes ?k (of_nat ?n)"
    have k: "?k \<in> {1, 2, 3, 4}" by (rule der_len_len_cases)
    have lb: "der_length_bytes ?n = ?lb # ?p" using False by (simp add: der_length_bytes_def)
    have ulb: "unat ?lb = 128 + ?k" using k by (intro length_byte_long) auto
    then have hb: "(?lb AND 0x80 = 0) = False" by (simp add: high_bit_clear_iff)
    have nb: "unat (?lb AND 0x7f) = ?k" using ulb k by auto
    have kc: "(?k = 0 \<or> 4 < ?k) = False" "(ber_ok \<and> t AND CBS_ASN1_CONSTRUCTED \<noteq> 0 \<and> ?k = 0) = False"
      using k by auto
    have get: "cbs_get_u (?p @ c @ r) ?k = (Some (be_val ?p), c @ r)"
      by (simp add: cbs_get_u_eq)
    have v: "unat (be_val ?p) = ?n" and v2: "(drop_bit ((?k - 1) * 8) (be_val ?p) = 0) = False"
      using be_val_length_octets [of ?n] False assms by (simp_all add: not_less)
    have v1: "(be_val ?p < 128) = False" using v False by (simp add: word_less_nat_alt)
    have hl: "CBS_len ?s - CBS_len (?p @ c @ r) + ?k = length (der_header t ?n)"
      "CBS_len ?s - CBS_len (?p @ c @ r) \<le> 7"
      using lt by (simp_all add: CBS_len_def der_element_def der_header_def lb)
    let ?h = "CBS_len ?s - CBS_len (?p @ c @ r)"
    have "?k \<le> 4" using k by auto
    then have sz: "szadd (szadd ?n ?h) ?k = ?n + ?h + ?k" "szadd ?h ?k = length (der_header t ?n)"
      "szadd ?n (length (der_header t ?n)) = length (der_element (t, c))"
      using hl assms length_der_header [of t ?n] by (auto simp: der_element_def)
    have nof: "(?n + ?h + ?k < ?n) = False" by simp
    show ?thesis
      unfolding cbs_get_any_asn1_element_def tag lb append_Cons
      by (simp only: prod.case option.case CBS_get_u8_Cons Let_def hb nb kc get v v1 v2 sz nof refl if_False
          simp_thms out)
  qed
qed

text \<open>The shapes an accepted element can have: short form, indefinite length (BER only), long form.\<close>

lemma prefix_split:
  assumes "h @ u = x @ r" "length x = length h + n"
  shows "\<exists>c. x = h @ c \<and> length c = n \<and> u = c @ r"
  using assms by (auto simp: append_eq_append_conv2)

lemma element_short:
  assumes "asn1_get_element s (szadd (unat lb) (length s - length u)) t (length s - length u) False = (Some e, r)"
    and "s = der_tag_bytes t @ lb # u" "unat lb < 128"
  shows "\<exists>c. length c = unat lb \<and> elem e = der_tag_bytes t @ lb # c \<and> elem_tag e = t
    \<and> header_len e = length (der_tag_bytes t) + 1 \<and> \<not> ber_found e"
proof -
  have h: "length s - length u = length (der_tag_bytes t @ [lb])" using assms(2) by simp
  have "szadd (unat lb) (length (der_tag_bytes t @ [lb])) = length (der_tag_bytes t @ [lb]) + unat lb"
    using length_der_tag_bytes [of t] assms(3) by (subst szadd_small) auto
  then have e: "s = elem e @ r" "length (elem e) = length (der_tag_bytes t @ [lb]) + unat lb"
    "e = \<lparr>elem = elem e, elem_tag = t, header_len = length (der_tag_bytes t @ [lb]), ber_found = False\<rparr>"
    using assms(1) unfolding h by (simp_all only: asn1_get_element_Some)
  have "(der_tag_bytes t @ [lb]) @ u = elem e @ r" using e(1) assms(2) by simp
  then obtain c where "elem e = (der_tag_bytes t @ [lb]) @ c" "length c = unat lb"
    using prefix_split e(2) by blast
  moreover have "elem_tag e = t" "header_len e = length (der_tag_bytes t @ [lb])" "\<not> ber_found e"
    by (subst e(3), simp)+
  ultimately show ?thesis by auto
qed

lemma element_long:
  assumes "asn1_get_element s (szadd (unat (be_val p)) (szadd (length s - length u) k)) t
      (szadd (length s - length u) k) f = (Some e, r)"
    and "s = der_tag_bytes t @ lb # u" "u = p @ w" "length p = k" "k \<le> 4"
  shows "\<exists>c. length c = unat (be_val p) \<and> elem e = der_tag_bytes t @ lb # p @ c \<and> elem_tag e = t
    \<and> header_len e = length (der_tag_bytes t) + 1 + k \<and> ber_found e = f"
proof -
  let ?h = "der_tag_bytes t @ lb # p"
  have lt: "length (der_tag_bytes t) \<le> 6" using length_der_tag_bytes by blast
  have h: "szadd (length s - length u) k = length ?h"
    using assms(2-5) lt by (subst szadd_small) auto
  have "unat (be_val p) < 2 ^ 32"
    using unat_be_val_bound [of p] assms(4,5)
      order_less_le_trans [OF _ power_increasing [of "8 * length p" 32 "2 :: nat"]] by auto
  then have "szadd (unat (be_val p)) (length ?h) = length ?h + unat (be_val p)"
    using lt assms(4,5) by (subst szadd_small) auto
  then have e: "s = elem e @ r" "length (elem e) = length ?h + unat (be_val p)"
    "e = \<lparr>elem = elem e, elem_tag = t, header_len = length ?h, ber_found = f\<rparr>"
    using assms(1) unfolding h by (simp_all only: asn1_get_element_Some)
  have "?h @ w = elem e @ r" using e(1) assms(2,3) by simp
  then obtain c where "elem e = ?h @ c" "length c = unat (be_val p)"
    using prefix_split e(2) by blast
  moreover have "elem_tag e = t" "header_len e = length ?h" "ber_found e = f"
    by (subst e(3), simp)+
  ultimately show ?thesis using assms(4) by auto
qed

lemma length_byte_short_id: "unat (lb :: byte) < 128 \<Longrightarrow> [of_nat (unat lb)] = [lb]"
  by simp

lemma element_cases:
  assumes "cbs_get_any_asn1_element s b = (Some e, r)"
  obtains
    (Short) lb c where "unat lb < 128" "length c = unat lb"
      "elem e = der_tag_bytes (elem_tag e) @ lb # c"
      "header_len e = length (der_tag_bytes (elem_tag e)) + 1" "\<not> ber_found e"
  | (Indefinite) "b" "ber_found e" "elem_tag e AND CBS_ASN1_CONSTRUCTED \<noteq> 0"
      "elem e = der_tag_bytes (elem_tag e) @ [0x80]"
      "header_len e = length (der_tag_bytes (elem_tag e)) + 1"
  | (Long) lb p c where "unat lb = 128 + length p" "0 < length p" "length p \<le> 4"
      "length c = unat (be_val p)" "elem e = der_tag_bytes (elem_tag e) @ lb # p @ c"
      "header_len e = length (der_tag_bytes (elem_tag e)) + 1 + length p"
      "ber_found e \<longleftrightarrow> be_val p < 128 \<or> drop_bit ((length p - 1) * 8) (be_val p) = 0"
      "ber_found e \<Longrightarrow> b"
proof -
  obtain t h1 where t: "parse_asn1_tag s = (Some t, h1)"
    using assms by (auto simp: cbs_get_any_asn1_element_def split: prod.splits option.splits)
  then obtain lb u where u: "h1 = lb # u"
    using assms by (cases h1) (auto simp: cbs_get_any_asn1_element_def)
  have s: "s = der_tag_bytes t @ lb # u" using t u by (simp add: parse_asn1_tag_iff)
  note eqs = assms [unfolded cbs_get_any_asn1_element_def t u, simplified prod.case option.case
      CBS_get_u8_Cons Let_def CBS_len_def high_bit_clear_iff unat_and_7f]
  show thesis
  proof (cases "unat lb < 128")
    case True
    then have "asn1_get_element s (szadd (unat lb) (length s - length u)) t (length s - length u) False = (Some e, r)"
      using eqs by simp
    from element_short [OF this s True] show thesis using True Short by blast
  next
    case False
    let ?k = "unat lb mod 128"
    have lbk: "unat lb = 128 + ?k" using False byte_lt [of lb] by (simp add: le_mod_geq)
    show thesis
    proof (cases "b \<and> t AND CBS_ASN1_CONSTRUCTED \<noteq> 0 \<and> ?k = 0")
      case True
      then have g: "asn1_get_element s (length s - length u) t (length s - length u) True = (Some e, r)"
        using eqs False by simp
      have "unat lb = 128" using lbk True by simp
      then have lb: "lb = 0x80" by (simp add: word_unat_eq_iff)
      have h: "length s - length u = length (der_tag_bytes t @ [lb])" using s by simp
      have e: "s = elem e @ r" "length (elem e) = length (der_tag_bytes t @ [lb]) + 0"
        "e = \<lparr>elem = elem e, elem_tag = t, header_len = length (der_tag_bytes t @ [lb]), ber_found = True\<rparr>"
        using g unfolding h by (simp_all only: asn1_get_element_Some add_0_right)
      have "(der_tag_bytes t @ [lb]) @ u = elem e @ r" using e(1) s by simp
      from prefix_split [OF this e(2)] have "elem e = der_tag_bytes t @ [lb]" by auto
      moreover have "elem_tag e = t" "header_len e = length (der_tag_bytes t @ [lb])" "ber_found e"
        by (subst e(3), simp)+
      ultimately show thesis using True lb by (intro Indefinite) auto
    next
      case ind: False
      then have k: "?k \<noteq> 0" "?k \<le> 4" using eqs False by (auto split: if_splits)
      obtain v w where g: "cbs_get_u u ?k = (Some v, w)"
        using eqs False ind k by (auto split: prod.splits option.splits)
      then obtain p where p: "length p = ?k" "u = p @ w" "v = be_val p"
        by (auto simp: cbs_get_u_Some)
      let ?f = "be_val p < 128 \<or> drop_bit ((?k - 1) * 8) (be_val p) = 0"
      have nk: "(?k = 0 \<or> 4 < ?k) = False" using k by auto
      have long: "(if ?f \<and> \<not> b then (None, s)
          else if szadd (szadd (unat (be_val p)) (length s - length u)) ?k < unat (be_val p) then (None, s)
          else asn1_get_element s (szadd (unat (be_val p)) (szadd (length s - length u) ?k)) t
            (szadd (length s - length u) ?k) ?f) = (Some e, r)"
        using eqs False ind by (simp only: nk g p(3) prod.case option.case if_False simp_thms)
      then have f: "?f \<longrightarrow> b" by (cases ?f; cases b) (simp_all only: simp_thms if_True if_False prod.inject option.distinct)
      then have "(?f \<and> \<not> b) = False" by blast
      with long have "asn1_get_element s (szadd (unat (be_val p)) (szadd (length s - length u) ?k)) t
          (szadd (length s - length u) ?k) ?f = (Some e, r)"
        by (simp only: if_False prod.inject option.distinct simp_thms split: if_split_asm)
      from element_long [OF this s p(2,1) k(2)] obtain c where
        "length c = unat (be_val p)" "elem e = der_tag_bytes t @ lb # p @ c" "elem_tag e = t"
        "header_len e = length (der_tag_bytes t) + 1 + ?k" "ber_found e = ?f" by blast
      then show thesis using k p(1) lbk f by (intro Long [of lb p c]) auto
    qed
  qed
qed

lemma element_header_bounds:
  assumes "cbs_get_any_asn1_element s b = (Some e, r)"
  shows "2 \<le> header_len e" "header_len e \<le> length (elem e)"
proof -
  have "0 < length (der_tag_bytes (elem_tag e))" using length_der_tag_bytes by blast
  with assms show "2 \<le> header_len e" by (cases rule: element_cases) linarith+
  from assms show "header_len e \<le> length (elem e)" by (cases rule: element_cases) auto
qed

interpretation asn1_element: strict_reader "\<lambda>s. cbs_get_any_asn1_element s b" for b
proof (intro strict_reader.intro strict_reader_axioms.intro)
  show "reader (\<lambda>s. cbs_get_any_asn1_element s b)" by (rule reader_element)
  fix s e r assume a: "cbs_get_any_asn1_element s b = (Some e, r)"
  then show "r \<noteq> s" using element_consumes [OF a] element_header_bounds [OF a] by auto
qed

text \<open>In DER mode the accepted elements are exactly the encodings.\<close>

lemma element_sound:
  assumes "cbs_get_any_asn1_element s b = (Some e, r)" "\<not> ber_found e"
  shows "\<exists>c. length c < 2 ^ 32 \<and> elem e = der_element (elem_tag e, c) \<and>
    header_len e = length (der_header (elem_tag e) (length c))"
  using assms(1)
proof (cases rule: element_cases)
  case (Short lb c)
  have "der_length_bytes (length c) = [lb]" using Short(1,2) by (simp add: der_length_bytes_def)
  then show ?thesis
    using Short by (intro exI [of _ c]) (simp add: der_element_def der_header_def)
next
  case Indefinite
  then show ?thesis using assms(2) by simp
next
  case (Long lb p c)
  have k: "length p \<in> {1, 2, 3, 4}" using Long(2,3) by (cases "length p") auto
  have v: "128 \<le> unat (be_val p)" "drop_bit ((length p - 1) * 8) (be_val p) \<noteq> 0"
    using Long(7) assms(2) by (auto simp: word_less_nat_alt)
  note canon = der_len_len_canonical [OF refl k v]
  have "0x80 OR of_nat (length p) = lb"
    using Long(1,3) length_byte_long [of "length p"] by (simp add: word_unat_eq_iff)
  then have "der_length_bytes (length c) = lb # p"
    using canon v(1) Long(4) by (simp add: der_length_bytes_def)
  then show ?thesis
    using Long canon(3) by (intro exI [of _ c]) (simp add: der_element_def der_header_def)
qed

lemma der_element_nonempty [simp]: "der_element tc \<noteq> []"
  using length_der_tag_bytes [of "fst tc"] by (auto simp: der_element_def der_header_def)

lemma CBS_skip_header: "CBS_skip (der_element (t, c)) (length (der_header t (length c))) = (Some (), c)"
  by (simp add: CBS_skip_eq der_element_def)

lemma get_any_asn1_iff:
  "CBS_get_any_asn1 s = (Some (c, t), r) \<longleftrightarrow> length c < 2 ^ 32 \<and> s = der_element (t, c) @ r"
proof
  assume a: "CBS_get_any_asn1 s = (Some (c, t), r)"
  then obtain e where e: "cbs_get_any_asn1_element s False = (Some e, r)" "elem_tag e = t"
    and sk: "CBS_skip (elem e) (header_len e) = (Some (), c)"
    by (auto simp: CBS_get_any_asn1_def CBS_get_any_asn1_element_def split: prod.splits option.splits)
  have nb: "\<not> ber_found e" using e(1) by (cases rule: element_cases) auto
  from element_sound [OF e(1) nb] obtain c' where c': "length c' < 2 ^ 32" "elem e = der_element (t, c')"
    "header_len e = length (der_header t (length c'))" using e(2) by auto
  then have "c' = c" using sk CBS_skip_header [of t c'] by simp
  then show "length c < 2 ^ 32 \<and> s = der_element (t, c) @ r"
    using c' element_consumes [OF e(1)] by simp
next
  assume "length c < 2 ^ 32 \<and> s = der_element (t, c) @ r"
  then show "CBS_get_any_asn1 s = (Some (c, t), r)"
    by (simp add: CBS_get_any_asn1_def CBS_get_any_asn1_element_def element_complete CBS_skip_header)
qed

interpretation any_asn1: canonical_codec "\<lambda>ct. der_element (snd ct, fst ct)" CBS_get_any_asn1
  "\<lambda>ct. length (fst ct) < 2 ^ 32"
  by unfold_locales (auto simp: get_any_asn1_iff)

lemma get_any_asn1_None:
  "CBS_get_any_asn1_element s = (None, r) \<Longrightarrow> CBS_get_any_asn1 s = (None, r)"
  by (simp add: CBS_get_any_asn1_def)

lemma get_asn1_via_any:
  "CBS_get_asn1 s t =
     (case CBS_get_any_asn1 s of (None, r) \<Rightarrow> (None, r)
      | (Some (c, t'), r) \<Rightarrow> (if t' = t then Some c else None, r))"
proof (cases "CBS_get_any_asn1_element s")
  case (Pair x r)
  then show ?thesis
    using element_header_bounds [of s False _ r]
    by (cases x) (auto simp: CBS_get_asn1_def cbs_get_asn1_def CBS_get_any_asn1_def
        CBS_get_any_asn1_element_def CBS_skip_eq)
qed

lemma get_asn1_iff: "CBS_get_asn1 s t = (Some c, r) \<longleftrightarrow> length c < 2 ^ 32 \<and> s = der_element (t, c) @ r"
  using get_any_asn1_iff [of s c t r]
  by (auto simp: get_asn1_via_any split: prod.splits option.splits if_splits)

interpretation asn1: canonical_codec "\<lambda>c. der_element (t, c)" "\<lambda>s. CBS_get_asn1 s t" "\<lambda>c. length c < 2 ^ 32" for t
  by unfold_locales (auto simp: get_asn1_iff)

text \<open>A BER element without BER features is a DER element, and conversely.\<close>

lemma element_ber_der:
  "cbs_get_any_asn1_element s True = (Some e, r) \<and> \<not> ber_found e \<longleftrightarrow>
   cbs_get_any_asn1_element s False = (Some e, r)"
proof
  assume a: "cbs_get_any_asn1_element s True = (Some e, r) \<and> \<not> ber_found e"
  then obtain c where c: "length c < 2 ^ 32" "elem e = der_element (elem_tag e, c)"
    using element_sound by blast
  with a element_consumes [of s True e r] have s: "s = der_element (elem_tag e, c) @ r" by simp
  then show "cbs_get_any_asn1_element s False = (Some e, r)"
    using a element_complete [OF c(1), of "elem_tag e" r] by simp
next
  assume a: "cbs_get_any_asn1_element s False = (Some e, r)"
  then have nb: "\<not> ber_found e" by (cases rule: element_cases) auto
  with a obtain c where c: "length c < 2 ^ 32" "elem e = der_element (elem_tag e, c)"
    using element_sound by blast
  with a element_consumes [of s False e r] have s: "s = der_element (elem_tag e, c) @ r" by simp
  then show "cbs_get_any_asn1_element s True = (Some e, r) \<and> \<not> ber_found e"
    using a nb element_complete [OF c(1), of "elem_tag e" r] by simp
qed

end
