(* ===== verification/Asn1Int.thy ===== *)
theory Asn1Int
  imports DER
begin

text \<open>
  INTEGER and BOOLEAN contents. The specification is the two's-complement big-endian byte string
  without redundant leading bytes (X.690 8.3.2); the readers of \<open>crypto/bytestring/cbs.c\<close> for
  \<open>uint64_t\<close> and \<open>int64_t\<close> are shown to accept exactly the encodings of the values of their types.
\<close>

section \<open>Specification\<close>

definition sign_bit :: "byte \<Rightarrow> bool" where
  "sign_bit b = (b AND 0x80 \<noteq> 0)"

definition redundant :: "byte \<Rightarrow> byte \<Rightarrow> bool" where
  "redundant b1 b2 \<longleftrightarrow> b1 = 0 \<and> \<not> sign_bit b2 \<or> b1 = 0xff \<and> sign_bit b2"

fun strip_sign :: "bytes \<Rightarrow> bytes" where
  "strip_sign (b1 # b2 # bs) = (if redundant b1 b2 then strip_sign (b2 # bs) else b1 # b2 # bs)"
| "strip_sign bs = bs"

definition asn1_int64_bytes :: "64 word \<Rightarrow> bytes" where
  "asn1_int64_bytes v = strip_sign (be_bytes 8 v)"

definition asn1_uint64_bytes :: "64 word \<Rightarrow> bytes" where
  "asn1_uint64_bytes v = strip_sign (0 # be_bytes 8 v)"

definition asn1_bool_bytes :: "bool \<Rightarrow> bytes" where
  "asn1_bool_bytes b = [if b then 0xff else 0]"

section \<open>Minimal byte strings\<close>

definition fill_byte :: "bytes \<Rightarrow> byte" where
  "fill_byte bs = (if sign_bit (hd bs) then 0xff else 0)"

lemma sign_bit_simps [simp]: "\<not> sign_bit 0" "sign_bit 0xff"
  by (simp_all add: sign_bit_def)

lemma strip_sign_eq_Nil [simp]: "strip_sign bs = [] \<longleftrightarrow> bs = []"
  by (induction bs rule: strip_sign.induct) auto

lemma length_strip_sign: "length (strip_sign bs) \<le> length bs"
  by (induction bs rule: strip_sign.induct) auto

lemma strip_sign_idem: "strip_sign (strip_sign bs) = strip_sign bs"
  by (induction bs rule: strip_sign.induct) auto

lemma sign_strip_sign: "bs \<noteq> [] \<Longrightarrow> sign_bit (hd (strip_sign bs)) = sign_bit (hd bs)"
  by (induction bs rule: strip_sign.induct) (auto simp: redundant_def)

lemma valid_integer_iff:
  "CBS_is_valid_asn1_integer d = (if d \<noteq> [] \<and> strip_sign d = d then Some (sign_bit (hd d)) else None)"
proof (cases d rule: strip_sign.cases)
  case (1 b1 b2 bs)
  have "strip_sign (b2 # bs) \<noteq> b1 # b2 # bs"
    using length_strip_sign [of "b2 # bs"] by (metis impossible_Cons)
  then show ?thesis
    using 1 by (auto simp: CBS_is_valid_asn1_integer_def Let_def redundant_def sign_bit_def)
qed (auto simp: CBS_is_valid_asn1_integer_def Let_def sign_bit_def)

lemma unsigned_integer_iff:
  "CBS_is_unsigned_asn1_integer d \<longleftrightarrow> d \<noteq> [] \<and> strip_sign d = d \<and> \<not> sign_bit (hd d)"
  by (simp add: CBS_is_unsigned_asn1_integer_def valid_integer_iff)

lemma strip_sign_fill:
  "d \<noteq> [] \<Longrightarrow> strip_sign (replicate n (fill_byte d) @ d) = strip_sign d"
proof (induction n)
  case (Suc n)
  obtain y ys where y: "replicate n (fill_byte d) @ d = y # ys"
    using Suc.prems by (cases "replicate n (fill_byte d) @ d") auto
  have "sign_bit y = sign_bit (hd d)"
    using y Suc.prems by (cases n) (auto simp: fill_byte_def neq_Nil_conv split: if_splits)
  then have "redundant (fill_byte d) y" by (simp add: redundant_def fill_byte_def)
  then show ?case using Suc y by simp
qed simp

lemma strip_sign_restore:
  "bs \<noteq> [] \<Longrightarrow> replicate (length bs - length (strip_sign bs)) (fill_byte (strip_sign bs)) @ strip_sign bs = bs"
proof (induction bs rule: strip_sign.induct)
  case (1 b1 b2 bs)
  show ?case
  proof (cases "redundant b1 b2")
    case True
    let ?s = "strip_sign (b2 # bs)"
    have "length ?s \<le> length (b2 # bs)" by (rule length_strip_sign)
    then have "length (b1 # b2 # bs) - length ?s = Suc (length (b2 # bs) - length ?s)" by simp
    moreover have "fill_byte ?s = b1"
      using True sign_strip_sign [of "b2 # bs"] by (auto simp: fill_byte_def redundant_def)
    ultimately show ?thesis using 1 True by simp
  qed simp
qed auto

section \<open>Signed integers\<close>

lemma rev_int64_bytes:
  assumes "length d \<le> 8"
  shows "rev (int64_bytes neg d) = replicate (8 - length d) (if neg then 0xff else 0) @ d"
proof (rule nth_equalityI)
  show "length (rev (int64_bytes neg d)) = length (replicate (8 - length d) (if neg then 0xff else 0) @ d)"
    using assms by (simp add: int64_bytes_def)
  fix i assume "i < length (rev (int64_bytes neg d))"
  then have "i < 8" by (simp add: int64_bytes_def)
  then show "rev (int64_bytes neg d) ! i = (replicate (8 - length d) (if neg then 0xff else 0) @ d) ! i"
    using assms by (auto simp: int64_bytes_def rev_nth nth_append intro!: arg_cong [of _ _ "(!) d"])
qed

lemma get_int64_iff:
  "CBS_get_asn1_int64 s = (Some v, r) \<longleftrightarrow> s = der_element (CBS_ASN1_INTEGER, asn1_int64_bytes v) @ r"
proof
  assume "CBS_get_asn1_int64 s = (Some v, r)"
  then obtain d neg where g: "CBS_get_asn1 s CBS_ASN1_INTEGER = (Some d, r)"
    and val: "CBS_is_valid_asn1_integer d = Some neg" and len: "length d \<le> 8"
    and v: "v = be_val (rev (int64_bytes neg d))"
    by (auto simp: CBS_get_asn1_int64_def split: prod.splits option.splits if_splits)
  from val have m: "d \<noteq> []" "strip_sign d = d" "neg = sign_bit (hd d)"
    by (auto simp: valid_integer_iff split: if_splits)
  have "v = be_val (replicate (8 - length d) (fill_byte d) @ d)"
    unfolding v rev_int64_bytes [OF len] m(3) fill_byte_def by simp
  then have "be_bytes 8 v = replicate (8 - length d) (fill_byte d) @ d"
    using len by (simp add: be_bytes_be_val')
  then have "asn1_int64_bytes v = d"
    using m strip_sign_fill by (simp add: asn1_int64_bytes_def)
  then show "s = der_element (CBS_ASN1_INTEGER, asn1_int64_bytes v) @ r"
    using g by (simp add: get_asn1_iff)
next
  let ?d = "asn1_int64_bytes v"
  assume s: "s = der_element (CBS_ASN1_INTEGER, ?d) @ r"
  have ne: "be_bytes 8 v \<noteq> []" by (metis length_be_bytes list.size(3) zero_neq_numeral)
  then have m: "?d \<noteq> []" "strip_sign ?d = ?d" by (simp_all add: asn1_int64_bytes_def strip_sign_idem)
  have len: "length ?d \<le> 8" using length_strip_sign [of "be_bytes 8 v"] by (simp add: asn1_int64_bytes_def)
  have "rev (int64_bytes (sign_bit (hd ?d)) ?d) = be_bytes 8 v"
    using strip_sign_restore [OF ne] unfolding rev_int64_bytes [OF len]
    by (simp add: asn1_int64_bytes_def fill_byte_def)
  then have "be_val (rev (int64_bytes (sign_bit (hd ?d)) ?d)) = v" by (simp add: be_val_be_bytes)
  moreover have "CBS_get_asn1 s CBS_ASN1_INTEGER = (Some ?d, r)" using s len by (simp add: get_asn1_iff)
  ultimately show "CBS_get_asn1_int64 s = (Some v, r)"
    using m len by (simp add: CBS_get_asn1_int64_def valid_integer_iff)
qed

interpretation int64_codec: canonical_codec "\<lambda>v. der_element (CBS_ASN1_INTEGER, asn1_int64_bytes v)"
  CBS_get_asn1_int64 "\<lambda>_. True"
  by unfold_locales (auto simp: get_int64_iff)

section \<open>Unsigned integers\<close>

lemma be_val_Cons_0: "be_val (0 # bs) = be_val bs"
  by (simp add: be_val_def)

lemma be_val_replicate_0: "be_val (replicate n 0 @ bs) = be_val bs"
  by (induction n) (simp_all add: be_val_Cons_0)

lemma hd_be_bytes: "hd (be_bytes (Suc n) v) = ucast (drop_bit (8 * n) v)"
proof (induction n arbitrary: v)
  case (Suc n)
  have "hd (be_bytes (Suc (Suc n)) v) = hd (be_bytes (Suc n) (drop_bit 8 v))"
    unfolding be_bytes.simps(2) [of "Suc n"] by (rule hd_append2) simp
  then show ?case using Suc [of "drop_bit 8 v"] by (simp add: drop_bit_drop_bit add.commute)
qed simp

lemma top_byte_be_val:
  assumes "p \<noteq> []" "hd p \<noteq> 0" "length p \<le> 8"
  shows "drop_bit 56 (be_val p) = 0 \<longleftrightarrow> length p < 8"
proof
  assume z: "drop_bit 56 (be_val p) = 0"
  show "length p < 8"
  proof (rule ccontr)
    assume "\<not> length p < 8"
    then have "be_bytes (Suc 7) (be_val p) = p" using assms(3) be_bytes_be_val' [of p 8] by simp
    then have "hd p = 0" using hd_be_bytes [of 7 "be_val p"] z by simp
    then show False using assms(2) by simp
  qed
next
  assume "length p < 8"
  then have "8 * length p \<le> 56" by simp
  then have "unat (be_val p) < 2 ^ 56"
    using unat_be_val_bound [OF assms(3)] order_less_le_trans power_increasing
    by (metis one_le_numeral)
  then show "drop_bit 56 (be_val p) = 0" by (simp add: drop_bit_zero_iff)
qed

lemma uint64_loop_small:
  "length p + length q \<le> 8 \<Longrightarrow> asn1_uint64_loop (be_val p) q = Some (be_val (p @ q))"
proof (induction q arbitrary: p)
  case (Cons b q)
  have "8 * length p \<le> 56" "length p \<le> 8" using Cons.prems by simp_all
  then have "unat (be_val p) < 2 ^ 56"
    using unat_be_val_bound [of p] order_less_le_trans power_increasing by (metis one_le_numeral)
  then have "drop_bit 56 (be_val p) = 0" by (simp add: drop_bit_zero_iff)
  then show ?case using Cons.IH [of "p @ [b]"] Cons.prems by simp
qed simp

lemma uint64_loop_bound:
  "asn1_uint64_loop (be_val p) q = Some v \<Longrightarrow> p \<noteq> [] \<Longrightarrow> hd p \<noteq> 0 \<Longrightarrow> length p \<le> 8 \<Longrightarrow>
   length p + length q \<le> 8"
proof (induction q arbitrary: p)
  case (Cons b q)
  then have "length p < 8" using top_byte_be_val by (auto split: if_splits)
  then show ?case using Cons.IH [of "p @ [b]"] Cons.prems by (auto split: if_splits)
qed simp

lemma uint64_loop_0: "asn1_uint64_loop 0 (replicate n 0 @ d) = asn1_uint64_loop 0 d"
  by (induction n) auto

lemma uint64_loop_sound:
  assumes "asn1_uint64_loop 0 d = Some v" "d \<noteq> []" "strip_sign d = d" "\<not> sign_bit (hd d)"
  shows "length d \<le> 9 \<and> asn1_uint64_bytes v = d"
proof -
  obtain z e where d: "d = z @ e" "z = [] \<and> hd e \<noteq> 0 \<and> e \<noteq> [] \<or> z = [0] \<and> (e = [] \<or> hd e \<noteq> 0)"
  proof (cases "hd d = 0")
    case True
    then have "d = [0] @ tl d" using assms(2) by (cases d) auto
    moreover have "tl d = [] \<or> hd (tl d) \<noteq> 0"
    proof (rule ccontr)
      assume "\<not> (tl d = [] \<or> hd (tl d) \<noteq> 0)"
      then obtain b bs where "d = 0 # 0 # bs" using \<open>d = [0] @ tl d\<close> by (cases "tl d") auto
      then show False using assms(3) length_strip_sign [of "0 # bs"]
        by (simp add: redundant_def)
    qed
    ultimately show thesis using that [of "[0]" "tl d"] by auto
  next
    case False
    then show thesis using that [of "[]" d] assms(2) by auto
  qed
  have l: "asn1_uint64_loop 0 e = Some v"
    using assms(1) d uint64_loop_0 [of 1 e] by auto
  have le: "length e \<le> 8 \<and> v = be_val e"
  proof (cases e)
    case (Cons b e')
    then have b: "b \<noteq> 0" using d(2) by auto
    have "asn1_uint64_loop (be_val [b]) e' = Some v"
      using l Cons by (simp add: be_val_def)
    then have "length e \<le> 8" using uint64_loop_bound [of "[b]" e' v] b Cons by simp
    moreover from this have "v = be_val e"
      using l uint64_loop_small [of "[]" e] by simp
    ultimately show ?thesis by simp
  qed (use l in auto)
  then have be: "be_bytes 8 v = replicate (8 - length e) 0 @ e"
    using be_bytes_be_val' [of "replicate (8 - length e) 0 @ e" 8] by (simp add: be_val_replicate_0)
  have "strip_sign (0 # be_bytes 8 v) = d"
  proof -
    have f: "fill_byte d = 0" using assms(4) by (simp add: fill_byte_def)
    obtain n where "0 # be_bytes 8 v = replicate n 0 @ d"
    proof (cases "z = []")
      case True
      then have "0 # be_bytes 8 v = replicate (Suc (8 - length e)) 0 @ d" using be d by simp
      then show thesis by (rule that)
    next
      case False
      then have "0 # be_bytes 8 v = replicate (8 - length e) 0 @ d"
        using be d by (simp add: replicate_app_Cons_same)
      then show thesis by (rule that)
    qed
    then show ?thesis using strip_sign_fill [OF assms(2)] f assms(3) by simp
  qed
  moreover have "length d \<le> 9" using le d by auto
  ultimately show ?thesis by (simp add: asn1_uint64_bytes_def)
qed

lemma uint64_loop_complete:
  "asn1_uint64_loop 0 (asn1_uint64_bytes v) = Some v"
proof -
  let ?x = "0 # be_bytes 8 v" and ?d = "asn1_uint64_bytes v"
  have "fill_byte ?d = 0" using sign_strip_sign [of ?x] by (simp add: fill_byte_def asn1_uint64_bytes_def)
  then have "replicate (length ?x - length ?d) 0 @ ?d = ?x"
    using strip_sign_restore [of ?x] unfolding asn1_uint64_bytes_def by simp
  then have "asn1_uint64_loop 0 ?d = asn1_uint64_loop 0 ?x" by (metis uint64_loop_0)
  also have "\<dots> = asn1_uint64_loop 0 (be_bytes 8 v)" by simp
  also have "\<dots> = Some v" using uint64_loop_small [of "[]" "be_bytes 8 v"] by (simp add: be_val_be_bytes)
  finally show ?thesis .
qed

lemma get_uint64_iff:
  "CBS_get_asn1_uint64 s = (Some v, r) \<longleftrightarrow> s = der_element (CBS_ASN1_INTEGER, asn1_uint64_bytes v) @ r"
proof
  assume "CBS_get_asn1_uint64 s = (Some v, r)"
  then obtain d where g: "CBS_get_asn1 s CBS_ASN1_INTEGER = (Some d, r)"
    and u: "CBS_is_unsigned_asn1_integer d" "asn1_uint64_loop 0 d = Some v"
    by (auto simp: CBS_get_asn1_uint64_def split: prod.splits option.splits if_splits)
  then have "asn1_uint64_bytes v = d" using uint64_loop_sound by (auto simp: unsigned_integer_iff)
  then show "s = der_element (CBS_ASN1_INTEGER, asn1_uint64_bytes v) @ r"
    using g by (simp add: get_asn1_iff)
next
  let ?d = "asn1_uint64_bytes v"
  assume s: "s = der_element (CBS_ASN1_INTEGER, ?d) @ r"
  have "length ?d \<le> 9" using length_strip_sign [of "0 # be_bytes 8 v"] by (simp add: asn1_uint64_bytes_def)
  then have "CBS_get_asn1 s CBS_ASN1_INTEGER = (Some ?d, r)" using s by (simp add: get_asn1_iff)
  moreover have "CBS_is_unsigned_asn1_integer ?d"
    using sign_strip_sign [of "0 # be_bytes 8 v"]
    by (simp add: unsigned_integer_iff asn1_uint64_bytes_def strip_sign_idem)
  ultimately show "CBS_get_asn1_uint64 s = (Some v, r)"
    by (simp add: CBS_get_asn1_uint64_def uint64_loop_complete)
qed

interpretation uint64_codec: canonical_codec "\<lambda>v. der_element (CBS_ASN1_INTEGER, asn1_uint64_bytes v)"
  CBS_get_asn1_uint64 "\<lambda>_. True"
  by unfold_locales (auto simp: get_uint64_iff)

section \<open>Booleans\<close>

lemma get_bool_iff:
  "CBS_get_asn1_bool s = (Some b, r) \<longleftrightarrow> s = der_element (CBS_ASN1_BOOLEAN, asn1_bool_bytes b) @ r"
proof
  assume a: "CBS_get_asn1_bool s = (Some b, r)"
  then obtain d where g: "CBS_get_asn1 s CBS_ASN1_BOOLEAN = (Some d, r)" and "length d = 1"
    "hd d = 0 \<or> hd d = 0xff" "b = (hd d \<noteq> 0)"
    by (auto simp: CBS_get_asn1_bool_def CBS_len_def Let_def split: prod.splits option.splits if_splits)
  moreover from this have "d = [hd d]" by (cases d) auto
  ultimately have "d = asn1_bool_bytes b" by (auto simp: asn1_bool_bytes_def)
  then show "s = der_element (CBS_ASN1_BOOLEAN, asn1_bool_bytes b) @ r" using g by (simp add: get_asn1_iff)
next
  assume "s = der_element (CBS_ASN1_BOOLEAN, asn1_bool_bytes b) @ r"
  then have "CBS_get_asn1 s CBS_ASN1_BOOLEAN = (Some (asn1_bool_bytes b), r)"
    by (simp add: get_asn1_iff asn1_bool_bytes_def)
  then show "CBS_get_asn1_bool s = (Some b, r)"
    by (cases b) (simp_all add: CBS_get_asn1_bool_def CBS_len_def asn1_bool_bytes_def)
qed

interpretation bool_codec: canonical_codec "\<lambda>b. der_element (CBS_ASN1_BOOLEAN, asn1_bool_bytes b)"
  CBS_get_asn1_bool "\<lambda>_. True"
  by unfold_locales (auto simp: get_bool_iff)

end
