(* ===== verification/CBB.thy ===== *)
theory CBB
  imports Asn1Int
begin

text \<open>
  \<open>crypto/bytestring/cbb.c\<close>: building byte strings with pending length prefixes. A top-level \<open>CBB\<close>
  owns a buffer; each \<open>CBB\<close> has at most one open child, so the open builders form a chain, here a list
  whose head is the top-level one. A builder is named by its depth in the chain: an operation on depth
  \<open>d\<close> is the C call on that \<open>CBB *\<close>, and a child that was closed or discarded (\<open>base == NULL\<close>) is a
  depth beyond the end of the chain. Every operation returns the C result and the new state.
\<close>

section \<open>State\<close>

record cbb_buffer =
  b_buf :: bytes
  b_len :: nat
  b_cap :: nat
  b_can_resize :: bool
  b_error :: bool

record cbb =
  offset :: nat
  pending_len_len :: nat
  pending_is_asn1 :: bool
  is_child :: bool

record cbb_state =
  base :: "cbb_buffer option"
  chain :: "cbb list"

definition zero_cbb :: cbb where
  "zero_cbb = \<lparr>offset = 0, pending_len_len = 0, pending_is_asn1 = False, is_child = False\<rparr>"

definition CBB_zero :: cbb_state where
  "CBB_zero = \<lparr>base = None, chain = [zero_cbb]\<rparr>"

text \<open>\<open>sizeof(struct cbb_buffer_st)\<close> on the app's 64-bit targets.\<close>

definition cbb_init :: "platform_malloc \<Rightarrow> bytes \<Rightarrow> nat \<Rightarrow> bool \<times> cbb_state" where
  "cbb_init mal buf cap =
     (case OPENSSL_malloc mal 32 of
        None \<Rightarrow> (False, CBB_zero)
      | Some _ \<Rightarrow>
          (True, CBB_zero\<lparr>base := Some \<lparr>b_buf = buf, b_len = 0, b_cap = cap, b_can_resize = True, b_error = False\<rparr>\<rparr>))"

text \<open>A NULL buffer of capacity 0 is the empty buffer.\<close>

definition CBB_init :: "platform_malloc \<Rightarrow> nat \<Rightarrow> bool \<times> cbb_state" where
  "CBB_init mal initial_capacity =
     (case OPENSSL_malloc mal initial_capacity of
        None \<Rightarrow> if 0 < initial_capacity then (False, CBB_zero) else cbb_init mal [] initial_capacity
      | Some buf \<Rightarrow> cbb_init mal buf initial_capacity)"

definition CBB_init_fixed :: "platform_malloc \<Rightarrow> bytes \<Rightarrow> nat \<Rightarrow> bool \<times> cbb_state" where
  "CBB_init_fixed mal buf len =
     (case cbb_init mal buf len of
        (False, st) \<Rightarrow> (False, st)
      | (True, st) \<Rightarrow> (True, st\<lparr>base := map_option (\<lambda>b. b\<lparr>b_can_resize := False\<rparr>) (base st)\<rparr>))"

definition CBB_cleanup :: "nat \<Rightarrow> cbb_state \<Rightarrow> cbb_state" where
  "CBB_cleanup d st = (if is_child (chain st ! d) then st else st\<lparr>base := None\<rparr>)"

section \<open>The buffer\<close>

text \<open>The result of reserving is success and the buffer; the out-pointer is always
  \<open>base->buf + base->len\<close>.\<close>

definition cbb_buffer_reserve :: "platform_malloc \<Rightarrow> cbb_buffer \<Rightarrow> nat \<Rightarrow> bool \<times> cbb_buffer" where
  "cbb_buffer_reserve mal b len =
     (let newlen = szadd (b_len b) len
      in if newlen < b_len b then (False, b\<lparr>b_error := True\<rparr>)
         else if b_cap b < newlen
         then (let newcap = szmul (b_cap b) 2
               in if \<not> b_can_resize b then (False, b\<lparr>b_error := True\<rparr>)
                  else (let newcap = (if newcap < b_cap b \<or> newcap < newlen then newlen else newcap)
                        in case OPENSSL_realloc mal (Some (b_buf b)) newcap of
                             None \<Rightarrow> (False, b\<lparr>b_error := True\<rparr>)
                           | Some newbuf \<Rightarrow> (True, b\<lparr>b_buf := newbuf, b_cap := newcap\<rparr>)))
         else (True, b))"

definition cbb_buffer_add :: "platform_malloc \<Rightarrow> cbb_buffer \<Rightarrow> nat \<Rightarrow> bool \<times> cbb_buffer" where
  "cbb_buffer_add mal b len =
     (case cbb_buffer_reserve mal b len of
        (False, b) \<Rightarrow> (False, b)
      | (True, b) \<Rightarrow> (True, b\<lparr>b_len := b_len b + len\<rparr>))"

text \<open>The loop that stores \<open>n\<close> bytes of \<open>v\<close> at offset \<open>off\<close>, last byte first; what is left of \<open>v\<close> is
  returned.\<close>

fun store_be :: "bytes \<Rightarrow> nat \<Rightarrow> nat \<Rightarrow> 64 word \<Rightarrow> bytes \<times> 64 word" where
  "store_be buf off 0 v = (buf, v)"
| "store_be buf off (Suc i) v = store_be (buf[off + i := ucast v]) off i (drop_bit 8 v)"

definition cbb_buffer_add_u :: "platform_malloc \<Rightarrow> cbb_buffer \<Rightarrow> 64 word \<Rightarrow> nat \<Rightarrow> bool \<times> cbb_buffer" where
  "cbb_buffer_add_u mal b v len_len =
     (if len_len = 0 then (True, b)
      else (case cbb_buffer_add mal b len_len of
              (False, b) \<Rightarrow> (False, b)
            | (True, b) \<Rightarrow>
                (let (buf, v) = store_be (b_buf b) (b_len b - len_len) len_len v; b = b\<lparr>b_buf := buf\<rparr>
                 in if v \<noteq> 0 then (False, b\<lparr>b_error := True\<rparr>) else (True, b))))"

section \<open>Flushing\<close>

text \<open>Closing the child at depth \<open>Suc d\<close>: its length prefix is written into the buffer, after making
  room for it when an ASN.1 length needs more than one byte.\<close>

definition asn1_len_len :: "nat \<Rightarrow> nat" where
  "asn1_len_len len =
     (if 0xffffff < len then 5 else if 0xffff < len then 4 else if 0xff < len then 3
      else if 0x7f < len then 2 else 1)"

definition flush_child :: "platform_malloc \<Rightarrow> cbb_buffer \<Rightarrow> cbb \<Rightarrow> bool \<times> cbb_buffer" where
  "flush_child mal b child =
     (let child_start = szadd (offset child) (pending_len_len child); len = b_len b - child_start
      in if pending_is_asn1 child
         then (if 0xfffffffe < len then (False, b\<lparr>b_error := True\<rparr>)
               else
                 (let len_len = asn1_len_len len;
                      initial_length_byte =
                        (if len_len = 1 then of_nat len else 0x80 OR of_nat (len_len - 1) :: byte);
                      extra_bytes = len_len - 1
                  in case (if len_len \<noteq> 1 then cbb_buffer_add mal b extra_bytes else (True, b)) of
                       (False, b) \<Rightarrow> (False, b\<lparr>b_error := True\<rparr>)
                     | (True, b) \<Rightarrow>
                         (let moved = (if len_len \<noteq> 1
                                       then buf_write (b_buf b) (child_start + extra_bytes)
                                              (take len (drop child_start (b_buf b)))
                                       else b_buf b);
                              len = (if len_len = 1 then 0 else len);
                              buf = moved[offset child := initial_length_byte];
                              (buf, rest) = store_be buf (offset child + 1) (len_len - 1) (of_nat len);
                              b = b\<lparr>b_buf := buf\<rparr>
                          in if rest \<noteq> 0 then (False, b\<lparr>b_error := True\<rparr>) else (True, b))))
         else
           (let (buf, rest) = store_be (b_buf b) (offset child) (pending_len_len child) (of_nat len);
                b = b\<lparr>b_buf := buf\<rparr>
            in if rest \<noteq> 0 then (False, b\<lparr>b_error := True\<rparr>) else (True, b)))"

definition set_error :: "cbb_state \<Rightarrow> cbb_state" where
  "set_error st = st\<lparr>base := map_option (\<lambda>b. b\<lparr>b_error := True\<rparr>) (base st)\<rparr>"

text \<open>\<open>CBB_flush\<close> recurses down the chain, then closes the child of depth \<open>d\<close>.\<close>

function CBB_flush :: "platform_malloc \<Rightarrow> nat \<Rightarrow> cbb_state \<Rightarrow> bool \<times> cbb_state" where
  "CBB_flush mal d st =
     (case base st of
        None \<Rightarrow> (False, st)
      | Some b0 \<Rightarrow>
          (if length (chain st) \<le> d \<or> b_error b0 then (False, st)
           else if length (chain st) \<le> Suc d \<or> pending_len_len (chain st ! Suc d) = 0 then (True, st)
           else
             (let child = chain st ! Suc d; child_start = szadd (offset child) (pending_len_len child)
              in case CBB_flush mal (Suc d) st of
                   (False, st) \<Rightarrow> (False, set_error st)
                 | (True, st) \<Rightarrow>
                     (case base st of
                        None \<Rightarrow> (False, st)
                      | Some b \<Rightarrow>
                          (if child_start < offset child \<or> b_len b < child_start then (False, set_error st)
                           else (case flush_child mal b child of
                                   (False, b) \<Rightarrow> (False, st\<lparr>base := Some b\<rparr>)
                                 | (True, b) \<Rightarrow> (True, st\<lparr>base := Some b, chain := take (Suc d) (chain st)\<rparr>)))))))"
  by pat_completeness auto
termination
  by (relation "measure (\<lambda>(mal, d, st). length (chain st) - d)") auto

declare CBB_flush.simps [simp del]

section \<open>Writing\<close>

text \<open>Most operations flush and then work on the buffer; \<open>with_base\<close> is that step.\<close>

definition with_base :: "platform_malloc \<Rightarrow> nat \<Rightarrow> cbb_state \<Rightarrow> (cbb_buffer \<Rightarrow> bool \<times> cbb_buffer) \<Rightarrow> bool \<times> cbb_state" where
  "with_base mal d st f =
     (case CBB_flush mal d st of
        (False, st) \<Rightarrow> (False, st)
      | (True, st) \<Rightarrow>
          (case base st of
             None \<Rightarrow> (False, st)
           | Some b \<Rightarrow> (let (ok, b) = f b in (ok, st\<lparr>base := Some b\<rparr>))))"

definition CBB_data :: "nat \<Rightarrow> cbb_state \<Rightarrow> bytes" where
  "CBB_data d st =
     (case base st of None \<Rightarrow> []
      | Some b \<Rightarrow> drop (offset (chain st ! d) + pending_len_len (chain st ! d)) (take (b_len b) (b_buf b)))"

definition CBB_len :: "nat \<Rightarrow> cbb_state \<Rightarrow> nat" where
  "CBB_len d st =
     (case base st of None \<Rightarrow> 0
      | Some b \<Rightarrow> b_len b - offset (chain st ! d) - pending_len_len (chain st ! d))"

definition CBB_finish :: "platform_malloc \<Rightarrow> nat \<Rightarrow> bool \<Rightarrow> cbb_state \<Rightarrow> (bytes \<times> nat) option \<times> cbb_state" where
  "CBB_finish mal d have_out st =
     (if is_child (chain st ! d) then (None, st)
      else (case CBB_flush mal d st of
              (False, st) \<Rightarrow> (None, st)
            | (True, st) \<Rightarrow>
                (case base st of
                   None \<Rightarrow> (None, st)
                 | Some b \<Rightarrow>
                     (if b_can_resize b \<and> \<not> have_out then (None, st)
                      else (Some (b_buf b, b_len b), CBB_cleanup d st)))))"

definition cbb_add_length_prefixed :: "platform_malloc \<Rightarrow> nat \<Rightarrow> nat \<Rightarrow> cbb_state \<Rightarrow> bool \<times> cbb_state" where
  "cbb_add_length_prefixed mal d len_len st =
     (case CBB_flush mal d st of
        (False, st) \<Rightarrow> (False, st)
      | (True, st) \<Rightarrow>
          (case base st of
             None \<Rightarrow> (False, st)
           | Some b \<Rightarrow>
               (let off = b_len b
                in case cbb_buffer_add mal b len_len of
                     (False, b) \<Rightarrow> (False, st\<lparr>base := Some b\<rparr>)
                   | (True, b) \<Rightarrow>
                       (True, st\<lparr>base := Some (b\<lparr>b_buf := buf_write (b_buf b) off (replicate len_len 0)\<rparr>),
                          chain := take (Suc d) (chain st) @
                            [\<lparr>offset = off, pending_len_len = len_len, pending_is_asn1 = False, is_child = True\<rparr>]\<rparr>))))"

definition CBB_add_u8_length_prefixed :: "platform_malloc \<Rightarrow> nat \<Rightarrow> cbb_state \<Rightarrow> bool \<times> cbb_state" where
  "CBB_add_u8_length_prefixed mal d st = cbb_add_length_prefixed mal d 1 st"

definition CBB_add_u16_length_prefixed :: "platform_malloc \<Rightarrow> nat \<Rightarrow> cbb_state \<Rightarrow> bool \<times> cbb_state" where
  "CBB_add_u16_length_prefixed mal d st = cbb_add_length_prefixed mal d 2 st"

definition CBB_add_u24_length_prefixed :: "platform_malloc \<Rightarrow> nat \<Rightarrow> cbb_state \<Rightarrow> bool \<times> cbb_state" where
  "CBB_add_u24_length_prefixed mal d st = cbb_add_length_prefixed mal d 3 st"

definition CBB_add_bytes :: "platform_malloc \<Rightarrow> nat \<Rightarrow> bytes \<Rightarrow> cbb_state \<Rightarrow> bool \<times> cbb_state" where
  "CBB_add_bytes mal d data st =
     with_base mal d st (\<lambda>b.
       case cbb_buffer_add mal b (length data) of
         (False, b) \<Rightarrow> (False, b)
       | (True, b) \<Rightarrow> (True, b\<lparr>b_buf := buf_write (b_buf b) (b_len b - length data) data\<rparr>))"

text \<open>The space that \<open>CBB_add_space\<close> gives out is the last \<open>len\<close> bytes of the buffer; the caller writes it.\<close>

definition CBB_add_space :: "platform_malloc \<Rightarrow> nat \<Rightarrow> nat \<Rightarrow> cbb_state \<Rightarrow> bool \<times> cbb_state" where
  "CBB_add_space mal d len st = with_base mal d st (\<lambda>b. cbb_buffer_add mal b len)"

definition CBB_add_zeros :: "platform_malloc \<Rightarrow> nat \<Rightarrow> nat \<Rightarrow> cbb_state \<Rightarrow> bool \<times> cbb_state" where
  "CBB_add_zeros mal d len st =
     (case CBB_add_space mal d len st of
        (False, st) \<Rightarrow> (False, st)
      | (True, st) \<Rightarrow>
          (True, st\<lparr>base := map_option (\<lambda>b. b\<lparr>b_buf := buf_write (b_buf b) (b_len b - len) (replicate len 0)\<rparr>) (base st)\<rparr>))"

definition CBB_reserve :: "platform_malloc \<Rightarrow> nat \<Rightarrow> nat \<Rightarrow> cbb_state \<Rightarrow> bool \<times> cbb_state" where
  "CBB_reserve mal d len st = with_base mal d st (\<lambda>b. cbb_buffer_reserve mal b len)"

text \<open>The caller has written \<open>len\<close> bytes after the current end of the buffer.\<close>

definition CBB_did_write :: "nat \<Rightarrow> nat \<Rightarrow> cbb_state \<Rightarrow> bool \<times> cbb_state" where
  "CBB_did_write d len st =
     (case base st of
        None \<Rightarrow> (False, st)
      | Some b \<Rightarrow>
          (let newlen = szadd (b_len b) len
           in if Suc d < length (chain st) \<or> newlen < b_len b \<or> b_cap b < newlen then (False, st)
              else (True, st\<lparr>base := Some (b\<lparr>b_len := newlen\<rparr>)\<rparr>)))"

definition CBB_add_u8 :: "platform_malloc \<Rightarrow> nat \<Rightarrow> byte \<Rightarrow> cbb_state \<Rightarrow> bool \<times> cbb_state" where
  "CBB_add_u8 mal d val st = with_base mal d st (\<lambda>b. cbb_buffer_add_u mal b (ucast val) 1)"

definition CBB_add_u16 :: "platform_malloc \<Rightarrow> nat \<Rightarrow> 16 word \<Rightarrow> cbb_state \<Rightarrow> bool \<times> cbb_state" where
  "CBB_add_u16 mal d val st = with_base mal d st (\<lambda>b. cbb_buffer_add_u mal b (ucast val) 2)"

definition CBB_add_u16le :: "platform_malloc \<Rightarrow> nat \<Rightarrow> 16 word \<Rightarrow> cbb_state \<Rightarrow> bool \<times> cbb_state" where
  "CBB_add_u16le mal d val st = CBB_add_u16 mal d (CRYPTO_bswap2 val) st"

definition CBB_add_u24 :: "platform_malloc \<Rightarrow> nat \<Rightarrow> 32 word \<Rightarrow> cbb_state \<Rightarrow> bool \<times> cbb_state" where
  "CBB_add_u24 mal d val st = with_base mal d st (\<lambda>b. cbb_buffer_add_u mal b (ucast val) 3)"

definition CBB_add_u32 :: "platform_malloc \<Rightarrow> nat \<Rightarrow> 32 word \<Rightarrow> cbb_state \<Rightarrow> bool \<times> cbb_state" where
  "CBB_add_u32 mal d val st = with_base mal d st (\<lambda>b. cbb_buffer_add_u mal b (ucast val) 4)"

definition CBB_add_u32le :: "platform_malloc \<Rightarrow> nat \<Rightarrow> 32 word \<Rightarrow> cbb_state \<Rightarrow> bool \<times> cbb_state" where
  "CBB_add_u32le mal d val st = CBB_add_u32 mal d (CRYPTO_bswap4 val) st"

definition CBB_add_u64 :: "platform_malloc \<Rightarrow> nat \<Rightarrow> 64 word \<Rightarrow> cbb_state \<Rightarrow> bool \<times> cbb_state" where
  "CBB_add_u64 mal d val st = with_base mal d st (\<lambda>b. cbb_buffer_add_u mal b val 8)"

definition CBB_add_u64le :: "platform_malloc \<Rightarrow> nat \<Rightarrow> 64 word \<Rightarrow> cbb_state \<Rightarrow> bool \<times> cbb_state" where
  "CBB_add_u64le mal d val st = CBB_add_u64 mal d (CRYPTO_bswap8 val) st"

definition CBB_discard_child :: "nat \<Rightarrow> cbb_state \<Rightarrow> cbb_state" where
  "CBB_discard_child d st =
     (if length (chain st) \<le> Suc d then st
      else st\<lparr>base := map_option (\<lambda>b. b\<lparr>b_len := offset (chain st ! Suc d)\<rparr>) (base st),
              chain := take (Suc d) (chain st)\<rparr>)"

section \<open>ASN.1 elements\<close>

text \<open>\<open>&&\<close>-chaining of calls on a builder.\<close>

definition and_then :: "bool \<times> cbb_state \<Rightarrow> (cbb_state \<Rightarrow> bool \<times> cbb_state) \<Rightarrow> bool \<times> cbb_state" where
  "and_then r f = (case r of (False, st) \<Rightarrow> (False, st) | (True, st) \<Rightarrow> f st)"

function base128_len_len :: "64 word \<Rightarrow> nat" where
  "base128_len_len copy = (if 0 < copy then Suc (base128_len_len (drop_bit 7 copy)) else 0)"
  by pat_completeness auto
termination
proof (relation "measure unat")
  fix copy :: "64 word" assume "0 < copy"
  then have "0 < unat copy" by (simp add: unat_gt_0 word_neq_0_conv)
  then have "unat copy div 128 < unat copy" by simp
  then show "(drop_bit 7 copy, copy) \<in> measure unat" by (simp only: in_measure, subst unat_drop_bit_eq, simp add: drop_bit_eq_div)
qed simp

declare base128_len_len.simps [simp del]

fun add_base128_loop :: "platform_malloc \<Rightarrow> nat \<Rightarrow> 64 word \<Rightarrow> nat \<Rightarrow> cbb_state \<Rightarrow> bool \<times> cbb_state" where
  "add_base128_loop mal d v 0 st = (True, st)"
| "add_base128_loop mal d v (Suc i) st =
     (let byte = ucast (drop_bit (7 * i) v) AND 0x7f;
          byte = (if i \<noteq> 0 then byte OR 0x80 else byte)
      in and_then (CBB_add_u8 mal d byte st) (add_base128_loop mal d v i))"

definition add_base128_integer :: "platform_malloc \<Rightarrow> nat \<Rightarrow> 64 word \<Rightarrow> cbb_state \<Rightarrow> bool \<times> cbb_state" where
  "add_base128_integer mal d v st =
     (let len_len = base128_len_len v; len_len = (if len_len = 0 then 1 else len_len)
      in add_base128_loop mal d v len_len st)"

definition CBB_add_asn1 :: "platform_malloc \<Rightarrow> nat \<Rightarrow> tag \<Rightarrow> cbb_state \<Rightarrow> bool \<times> cbb_state" where
  "CBB_add_asn1 mal d tag st =
     and_then (CBB_flush mal d st) (\<lambda>st.
       let tag_bits = ucast (drop_bit 24 tag) AND 0xe0; tag_number = tag AND CBS_ASN1_TAG_NUMBER_MASK
       in and_then
            (if 0x1f \<le> tag_number
             then and_then (CBB_add_u8 mal d (tag_bits OR 0x1f) st) (add_base128_integer mal d (ucast tag_number))
             else CBB_add_u8 mal d (tag_bits OR ucast tag_number) st)
            (\<lambda>st. case base st of
               None \<Rightarrow> (False, st)
             | Some b \<Rightarrow>
                 (let off = b_len b
                  in and_then (CBB_add_u8 mal d 0 st) (\<lambda>st.
                       (True, st\<lparr>chain := take (Suc d) (chain st) @
                          [\<lparr>offset = off, pending_len_len = 1, pending_is_asn1 = True, is_child = True\<rparr>]\<rparr>)))))"

fun add_uint64_loop :: "platform_malloc \<Rightarrow> nat \<Rightarrow> 64 word \<Rightarrow> nat list \<Rightarrow> bool \<Rightarrow> cbb_state \<Rightarrow> bool \<times> bool \<times> cbb_state" where
  "add_uint64_loop mal d val [] started st = (True, started, st)"
| "add_uint64_loop mal d val (i # is) started st =
     (let byte = ucast (drop_bit (8 * (7 - i)) val) AND 0xff
      in if \<not> started \<and> byte = 0 then add_uint64_loop mal d val is started st
         else (case (if \<not> started \<and> byte AND 0x80 \<noteq> 0 then CBB_add_u8 mal d 0 st else (True, st)) of
                 (False, st) \<Rightarrow> (False, started, st)
               | (True, st) \<Rightarrow>
                   (case CBB_add_u8 mal d byte st of
                      (False, st) \<Rightarrow> (False, True, st)
                    | (True, st) \<Rightarrow> add_uint64_loop mal d val is True st)))"

definition CBB_add_asn1_uint64 :: "platform_malloc \<Rightarrow> nat \<Rightarrow> 64 word \<Rightarrow> cbb_state \<Rightarrow> bool \<times> cbb_state" where
  "CBB_add_asn1_uint64 mal d val st =
     and_then (CBB_add_asn1 mal d CBS_ASN1_INTEGER st) (\<lambda>st.
       case add_uint64_loop mal (Suc d) val [0..<8] False st of
         (False, _, st) \<Rightarrow> (False, st)
       | (True, started, st) \<Rightarrow>
           and_then (if \<not> started then CBB_add_u8 mal (Suc d) 0 st else (True, st)) (CBB_flush mal d))"

text \<open>Byte \<open>i\<close> of the \<open>int64_t\<close> in memory, least significant first.\<close>

definition int64_byte :: "64 word \<Rightarrow> nat \<Rightarrow> byte" where
  "int64_byte val i = ucast (drop_bit (8 * i) val)"

fun int64_start :: "64 word \<Rightarrow> nat \<Rightarrow> nat" where
  "int64_start val 0 = 0"
| "int64_start val (Suc start) =
     (if int64_byte val (Suc start) = 0xff \<and> int64_byte val start AND 0x80 \<noteq> 0
      then int64_start val start else Suc start)"

fun add_int64_loop :: "platform_malloc \<Rightarrow> nat \<Rightarrow> 64 word \<Rightarrow> nat \<Rightarrow> cbb_state \<Rightarrow> bool \<times> cbb_state" where
  "add_int64_loop mal d val 0 st = CBB_add_u8 mal d (int64_byte val 0) st"
| "add_int64_loop mal d val (Suc i) st =
     and_then (CBB_add_u8 mal d (int64_byte val (Suc i)) st) (add_int64_loop mal d val i)"

definition CBB_add_asn1_int64 :: "platform_malloc \<Rightarrow> nat \<Rightarrow> 64 word \<Rightarrow> cbb_state \<Rightarrow> bool \<times> cbb_state" where
  "CBB_add_asn1_int64 mal d val st =
     (if 0 \<le> sint val then CBB_add_asn1_uint64 mal d val st
      else and_then (CBB_add_asn1 mal d CBS_ASN1_INTEGER st) (\<lambda>st.
             and_then (add_int64_loop mal (Suc d) val (int64_start val 7) st) (CBB_flush mal d)))"

definition CBB_add_asn1_octet_string :: "platform_malloc \<Rightarrow> nat \<Rightarrow> bytes \<Rightarrow> cbb_state \<Rightarrow> bool \<times> cbb_state" where
  "CBB_add_asn1_octet_string mal d data st =
     and_then (CBB_add_asn1 mal d CBS_ASN1_OCTETSTRING st) (\<lambda>st.
       and_then (CBB_add_bytes mal (Suc d) data st) (CBB_flush mal d))"

definition CBB_add_asn1_bool :: "platform_malloc \<Rightarrow> nat \<Rightarrow> bool \<Rightarrow> cbb_state \<Rightarrow> bool \<times> cbb_state" where
  "CBB_add_asn1_bool mal d val st =
     and_then (CBB_add_asn1 mal d CBS_ASN1_BOOLEAN st) (\<lambda>st.
       and_then (CBB_add_u8 mal (Suc d) (if val then 0xff else 0) st) (CBB_flush mal d))"

end
