(* ===== verification/CBBRefine.thy ===== *)
theory CBBRefine
  imports CBB
begin

text \<open>
  What a chain of builders means: a list of frames, the top-level contents first, each with the kind
  of length prefix it waits for. \<open>builds st fs\<close> relates the C state (buffer, offsets, pending
  prefixes) to the frames; the operations of \<open>crypto/bytestring/cbb.c\<close> are shown to append to the
  frame they are called on, and \<open>CBB_flush\<close> to close the frames above it by the encoding of the
  specification, moving the contents when an ASN.1 length outgrows its single reserved byte.
\<close>

section \<open>Buffers\<close>

definition ok_buf :: "cbb_buffer \<Rightarrow> bool" where
  "ok_buf b \<longleftrightarrow> length (b_buf b) = b_cap b \<and> b_len b \<le> b_cap b \<and> b_cap b < SIZE_MOD \<and> \<not> b_error b"

definition content :: "cbb_buffer \<Rightarrow> bytes" where
  "content b = take (b_len b) (b_buf b)"

lemma length_content: "ok_buf b \<Longrightarrow> length (content b) = b_len b"
  by (simp add: ok_buf_def content_def)

lemma reserve_ok:
  assumes "malloc_sound mal" "ok_buf b" "n < SIZE_MOD" "cbb_buffer_reserve mal b n = (True, b')"
  shows "ok_buf b'" "content b' = content b" "b_len b' = b_len b" "b_len b + n \<le> b_cap b'"
proof -
  have nl: "\<not> szadd (b_len b) n < b_len b"
    using assms(4) by (auto simp: cbb_buffer_reserve_def Let_def split: if_splits)
  then have sz: "szadd (b_len b) n = b_len b + n" "b_len b + n < SIZE_MOD"
    using szadd_overflow [of "b_len b" n] assms(2,3) by (auto simp: ok_buf_def not_le)
  have *: "ok_buf b' \<and> content b' = content b \<and> b_len b' = b_len b \<and> b_len b + n \<le> b_cap b'"
  proof (cases "b_cap b < b_len b + n")
    case False
    then show ?thesis
      using assms(2,4) nl sz by (auto simp: cbb_buffer_reserve_def)
  next
    case True
    let ?c = "szmul (b_cap b) 2"
    let ?newcap = "if ?c < b_cap b \<or> ?c < b_len b + n then b_len b + n else ?c"
    have nc: "b_len b + n \<le> ?newcap" "?newcap < SIZE_MOD"
      using sz by (auto simp: szmul_def)
    obtain r where r: "OPENSSL_realloc mal (Some (b_buf b)) ?newcap = Some r"
      "b' = b\<lparr>b_buf := r, b_cap := ?newcap\<rparr>"
      using assms(4) True nl sz(1)
      by (auto simp: cbb_buffer_reserve_def Let_def split: option.splits if_split_asm)
    have "length r = ?newcap" using OPENSSL_realloc_length [OF assms(1) r(1) nc(2)] .
    moreover have "take (b_len b) r = take (b_len b) (b_buf b)"
      using OPENSSL_realloc_prefix [OF assms(1) r(1) nc(2)] nc(1) assms(2) by (simp add: ok_buf_def)
    ultimately show ?thesis using r(2) nc assms(2) by (simp add: ok_buf_def content_def)
  qed
  then show "ok_buf b'" "content b' = content b" "b_len b' = b_len b" "b_len b + n \<le> b_cap b'"
    by blast+
qed

lemma add_ok:
  assumes "malloc_sound mal" "ok_buf b" "n < SIZE_MOD" "cbb_buffer_add mal b n = (True, b')"
  shows "ok_buf b'" "take (b_len b) (b_buf b') = content b" "b_len b' = b_len b + n"
proof -
  obtain b1 where b1: "cbb_buffer_reserve mal b n = (True, b1)" "b' = b1\<lparr>b_len := b_len b1 + n\<rparr>"
    using assms(4) by (auto simp: cbb_buffer_add_def split: prod.splits bool.splits)
  note r = reserve_ok [OF assms(1-3) b1(1)]
  show "ok_buf b'" "b_len b' = b_len b + n" using r b1(2) by (auto simp: ok_buf_def)
  show "take (b_len b) (b_buf b') = content b" using r b1(2) by (simp add: content_def)
qed

lemma store_be_eq:
  "off + n \<le> length buf \<Longrightarrow>
   store_be buf off n v = (take off buf @ be_bytes n v @ drop (off + n) buf, drop_bit (8 * n) v)"
proof (induction n arbitrary: buf v)
  case (Suc n)
  let ?buf = "buf[off + n := ucast v]"
  have "drop (off + n) ?buf = ucast v # drop (Suc (off + n)) buf"
    using Suc.prems by (simp add: drop_update_swap Cons_nth_drop_Suc [symmetric])
  moreover have "take off ?buf = take off buf" by (simp add: take_update_swap list_update_beyond)
  ultimately show ?case
    using Suc.IH [of ?buf "drop_bit 8 v"] Suc.prems
    by (simp add: drop_bit_drop_bit take_update_swap add.commute)
qed simp

lemma store_be_at_end:
  assumes "ok_buf b" "b_len b = m + n" "take m (b_buf b) = c"
  shows "store_be (b_buf b) m n v = (c @ be_bytes n v @ drop (m + n) (b_buf b), drop_bit (8 * n) v)"
  using assms by (simp add: store_be_eq ok_buf_def)

lemma add_u_ok:
  assumes "malloc_sound mal" "ok_buf b" "n < SIZE_MOD" "cbb_buffer_add_u mal b v n = (True, b')"
  shows "ok_buf b'" "content b' = content b @ be_bytes n v"
proof -
  have "ok_buf b' \<and> content b' = content b @ be_bytes n v"
  proof (cases "n = 0")
    case True
    then show ?thesis using assms by (simp add: cbb_buffer_add_u_def)
  next
    case False
    then obtain b1 where b1: "cbb_buffer_add mal b n = (True, b1)"
      using assms(4) by (auto simp: cbb_buffer_add_u_def split: prod.splits bool.splits)
    note a = add_ok [OF assms(1-3) b1]
    have st: "store_be (b_buf b1) (b_len b1 - n) n v =
        (content b @ be_bytes n v @ drop (b_len b + n) (b_buf b1), drop_bit (8 * n) v)"
      using store_be_at_end [OF a(1) a(3,2)] a(3) by simp
    then have "b' = b1\<lparr>b_buf := content b @ be_bytes n v @ drop (b_len b + n) (b_buf b1)\<rparr>"
      using assms(4) False b1 by (auto simp: cbb_buffer_add_u_def Let_def split: if_splits)
    then show ?thesis
      using a length_content [OF assms(2)] by (auto simp: ok_buf_def content_def)
  qed
  then show "ok_buf b'" "content b' = content b @ be_bytes n v" by blast+
qed

lemma add_bytes_ok:
  assumes "malloc_sound mal" "ok_buf b" "length xs < SIZE_MOD" "cbb_buffer_add mal b (length xs) = (True, b1)"
    and "b' = b1\<lparr>b_buf := buf_write (b_buf b1) (b_len b1 - length xs) xs\<rparr>"
  shows "ok_buf b'" "content b' = content b @ xs"
  using add_ok [OF assms(1-4)] length_content [OF assms(2)] assms(5)
  by (auto simp: ok_buf_def content_def buf_write_def)

section \<open>Frames\<close>

datatype pending = Root | Fixed nat | Asn1

type_synonym frame = "pending \<times> bytes"

fun klen :: "pending \<Rightarrow> nat" where
  "klen Root = 0"
| "klen (Fixed n) = n"
| "klen Asn1 = 1"

fun prefix :: "pending \<Rightarrow> nat \<Rightarrow> bytes" where
  "prefix Root n = []"
| "prefix (Fixed k) n = be_bytes k (of_nat n)"
| "prefix Asn1 n = der_length_bytes n"

text \<open>The lengths a prefix can express; \<open>CBB_flush\<close> refuses the others.\<close>

fun closeable :: "pending \<Rightarrow> nat \<Rightarrow> bool" where
  "closeable Root n = True"
| "closeable (Fixed k) n = (drop_bit (8 * k) (of_nat n :: 64 word) = 0)"
| "closeable Asn1 n = (n \<le> 0xfffffffe)"

fun close_frame :: "frame \<Rightarrow> bytes" where
  "close_frame (k, c) = prefix k (length c) @ c"

fun collapse :: "frame list \<Rightarrow> bytes" where
  "collapse [] = []"
| "collapse ((k, c) # fs) = close_frame (k, c @ collapse fs)"

definition frame_bytes :: "frame \<Rightarrow> bytes" where
  "frame_bytes f = replicate (klen (fst f)) 0 @ snd f"

definition body :: "frame list \<Rightarrow> bytes" where
  "body fs = concat (map frame_bytes fs)"

definition append_top :: "frame list \<Rightarrow> bytes \<Rightarrow> frame list" where
  "append_top fs x = butlast fs @ [(fst (last fs), snd (last fs) @ x)]"

definition flush_frames :: "nat \<Rightarrow> frame list \<Rightarrow> frame list" where
  "flush_frames d fs = append_top (take (Suc d) fs) (collapse (drop (Suc d) fs))"

fun chain_of :: "nat \<Rightarrow> frame list \<Rightarrow> cbb list" where
  "chain_of off [] = []"
| "chain_of off ((k, c) # fs) =
     \<lparr>offset = off, pending_len_len = klen k, pending_is_asn1 = (k = Asn1), is_child = (k \<noteq> Root)\<rparr>
       # chain_of (off + klen k + length c) fs"

definition wf_frames :: "frame list \<Rightarrow> bool" where
  "wf_frames fs \<longleftrightarrow> fs \<noteq> [] \<and> fst (hd fs) = Root \<and> (\<forall>f\<in>set (tl fs). 0 < klen (fst f))"

definition builds :: "cbb_state \<Rightarrow> frame list \<Rightarrow> bool" where
  "builds st fs \<longleftrightarrow> wf_frames fs \<and> chain st = chain_of 0 fs \<and>
     (\<exists>b. base st = Some b \<and> ok_buf b \<and> content b = body fs)"

lemma length_chain_of [simp]: "length (chain_of off fs) = length fs"
  by (induction off fs rule: chain_of.induct) auto

lemma body_simps [simp]:
  "body [] = []" "body (f # fs) = frame_bytes f @ body fs" "body (fs @ gs) = body fs @ body gs"
  by (simp_all add: body_def)

lemma chain_of_append: "chain_of off (fs @ gs) = chain_of off fs @ chain_of (off + length (body fs)) gs"
  by (induction off fs rule: chain_of.induct) (simp_all add: frame_bytes_def add.assoc)

lemma chain_of_take: "take n (chain_of off fs) = chain_of off (take n fs)"
proof (induction off fs arbitrary: n rule: chain_of.induct)
  case (2 off k c fs)
  then show ?case by (cases n) auto
qed simp

lemma chain_of_nth:
  assumes "i < length fs"
  shows "chain_of off fs ! i = \<lparr>offset = off + length (body (take i fs)), pending_len_len = klen (fst (fs ! i)),
    pending_is_asn1 = (fst (fs ! i) = Asn1), is_child = (fst (fs ! i) \<noteq> Root)\<rparr>"
proof -
  have "fs = take i fs @ fs ! i # drop (Suc i) fs" using assms by (rule id_take_nth_drop)
  then have "chain_of off fs = chain_of off (take i fs) @
      chain_of (off + length (body (take i fs))) (fs ! i # drop (Suc i) fs)"
    by (metis chain_of_append)
  then show ?thesis using assms by (cases "fs ! i") (simp add: nth_append)
qed

section \<open>Closing one frame\<close>

lemma asn1_len_len_eq: "asn1_len_len n = (if n < 128 then 1 else Suc (der_len_len n))"
  by (simp add: asn1_len_len_def der_len_len_def)

lemma patch_content:
  assumes "ok_buf b" "content b = P @ h @ c" "length h = n"
  shows "store_be (b_buf b) (length P) n v =
    (P @ be_bytes n v @ c @ drop (b_len b) (b_buf b), drop_bit (8 * n) v)"
proof -
  let ?D = "drop (b_len b) (b_buf b)"
  have buf: "b_buf b = P @ h @ c @ ?D"
    using assms(2) by (metis append_take_drop_id append_assoc content_def)
  have len: "length P + n \<le> length (b_buf b)"
    using assms(1,3) arg_cong [OF assms(2), of length] by (simp add: ok_buf_def content_def)
  have "take (length P) (b_buf b) = P" "drop (length P + n) (b_buf b) = c @ ?D"
    using assms(3) by (subst buf, simp)+
  then show ?thesis using store_be_eq [OF len, of v] by simp
qed

lemma ok_buf_update:
  assumes "ok_buf b" "length x = b_len b"
  shows "ok_buf (b\<lparr>b_buf := x @ drop (b_len b) (b_buf b)\<rparr>)"
    "content (b\<lparr>b_buf := x @ drop (b_len b) (b_buf b)\<rparr>) = x"
  using assms by (auto simp: ok_buf_def content_def)

lemma flush_fixed_ok:
  assumes "ok_buf b" "content b = P @ replicate n 0 @ c"
    and "flush_child mal b \<lparr>offset = length P, pending_len_len = n, pending_is_asn1 = False, is_child = ch\<rparr> = (True, b')"
  shows "ok_buf b'" "content b' = P @ close_frame (Fixed n, c)" "closeable (Fixed n) (length c)"
proof -
  have bl: "b_len b = length P + n + length c"
    using arg_cong [OF assms(2), of length] length_content [OF assms(1)] by simp
  then have sz: "szadd (length P) n = length P + n" using assms(1) by (simp add: ok_buf_def)
  note st = patch_content [OF assms(1,2) length_replicate]
  have r: "closeable (Fixed n) (length c)"
    "b' = b\<lparr>b_buf := (P @ be_bytes n (of_nat (length c)) @ c) @ drop (b_len b) (b_buf b)\<rparr>"
    using assms(3) bl by (auto simp: flush_child_def Let_def sz st split: if_splits)
  note u = ok_buf_update [OF assms(1), of "P @ be_bytes n (of_nat (length c)) @ c"]
  show "ok_buf b'" "content b' = P @ close_frame (Fixed n, c)" "closeable (Fixed n) (length c)"
    using r u bl by auto
qed

lemma flush_asn1_short_ok:
  assumes "ok_buf b" "content b = P @ 0 # c" "length c < 128"
    and "flush_child mal b \<lparr>offset = length P, pending_len_len = 1, pending_is_asn1 = True, is_child = ch\<rparr> = (True, b')"
  shows "ok_buf b'" "content b' = P @ close_frame (Asn1, c)"
proof -
  let ?D = "drop (b_len b) (b_buf b)"
  have bl: "b_len b = length P + 1 + length c"
    using arg_cong [OF assms(2), of length] length_content [OF assms(1)] by simp
  then have sz: "szadd (length P) 1 = length P + 1" "szadd (length P) (Suc 0) = length P + 1"
    using assms(1) by (simp_all add: ok_buf_def)
  have buf: "b_buf b = P @ 0 # c @ ?D"
    using assms(2) by (metis append_take_drop_id append_assoc append_Cons content_def)
  have upd: "(b_buf b)[length P := x] = (P @ x # c) @ ?D" for x
    by (subst (1) buf) (simp add: list_update_append)
  have "b' = b\<lparr>b_buf := (P @ of_nat (length c) # c) @ ?D\<rparr>"
    using assms(3,4) bl by (simp add: flush_child_def Let_def sz asn1_len_len_eq upd)
  moreover note ok_buf_update [OF assms(1), of "P @ of_nat (length c) # c"]
  ultimately show "ok_buf b'" "content b' = P @ close_frame (Asn1, c)"
    using bl assms(3) by (auto simp: der_length_bytes_def)
qed

lemma flush_asn1_long_ok:
  assumes "malloc_sound mal" "ok_buf b" "content b = P @ 0 # c" "128 \<le> length c"
    and "flush_child mal b \<lparr>offset = length P, pending_len_len = 1, pending_is_asn1 = True, is_child = ch\<rparr> = (True, b')"
  shows "ok_buf b'" "content b' = P @ close_frame (Asn1, c)" "length c \<le> 0xfffffffe"
proof -
  let ?m = "der_len_len (length c)" and ?n = "length c"
  let ?init = "0x80 OR of_nat ?m :: byte"
  have m: "?m \<in> {1, 2, 3, 4}" by (rule der_len_len_cases)
  have bl: "b_len b = length P + 1 + ?n"
    using arg_cong [OF assms(3), of length] length_content [OF assms(2)] by simp
  then have sz: "szadd (length P) 1 = length P + 1" "szadd (length P) (Suc 0) = length P + 1"
    using assms(2) by (simp_all add: ok_buf_def)
  have ll: "asn1_len_len ?n = Suc ?m" using assms(4) by (simp add: asn1_len_len_eq)
  have lim: "?n \<le> 0xfffffffe"
    using assms(5) bl by (auto simp: flush_child_def Let_def sz split: if_splits)
  then obtain b1 where b1: "cbb_buffer_add mal b ?m = (True, b1)"
    using assms(5) bl m by (auto simp: flush_child_def Let_def sz ll split: prod.splits bool.splits if_splits)
  have "?m < SIZE_MOD" using m by auto
  note a = add_ok [OF assms(1,2) this b1]
  let ?D = "drop (b_len b1) (b_buf b1)"
  obtain g where g: "b_buf b1 = P @ 0 # c @ g" "length g = ?m + length ?D"
  proof -
    have "take (b_len b) (b_buf b1) = P @ 0 # c" using a(2) assms(3) by simp
    then have "b_buf b1 = P @ 0 # c @ drop (b_len b) (b_buf b1)"
      by (metis append_take_drop_id append_assoc append_Cons)
    moreover have "length (drop (b_len b) (b_buf b1)) = ?m + length ?D"
      using a(1,3) by (auto simp: ok_buf_def)
    ultimately show thesis by (rule that)
  qed
  obtain h where h: "take (length P + 1 + ?m) (b_buf b1) = P @ 0 # h" "length h = ?m"
  proof (rule that)
    show "take (length P + 1 + ?m) (b_buf b1) = P @ 0 # take ?m (c @ g)" unfolding g(1) by simp
    show "length (take ?m (c @ g)) = ?m" using g(2) by simp
  qed
  have moved: "buf_write (b_buf b1) (length P + 1 + ?m) (take ?n (drop (length P + 1) (b_buf b1))) = P @ 0 # h @ c @ ?D"
  proof -
    have tc: "take ?n (drop (length P + 1) (b_buf b1)) = c" unfolding g(1) by simp
    have "length P + 1 + ?m + ?n = b_len b1" using a(3) bl by simp
    then show ?thesis unfolding buf_write_def tc h(1) by simp
  qed
  have upd: "(P @ 0 # h @ c @ ?D)[length P := ?init] = (P @ [?init]) @ h @ c @ ?D"
    by (simp add: list_update_append)
  let ?v = "of_nat ?n :: 64 word"
  have st: "store_be ((P @ [?init]) @ h @ c @ ?D) (length P + 1) ?m ?v
      = ((P @ [?init]) @ be_bytes ?m ?v @ c @ ?D, drop_bit (8 * ?m) ?v)"
    using store_be_eq [of "length P + 1" ?m "(P @ [?init]) @ h @ c @ ?D" ?v] h(2) by simp
  have ex: "Suc ?m - 1 = ?m" "Suc ?m \<noteq> 1" "?m \<noteq> 0" using m by auto
  have "b' = b1\<lparr>b_buf := (P @ ?init # be_bytes ?m ?v @ c) @ ?D\<rparr>"
    using assms(5) bl lim ex
    by (simp add: flush_child_def Let_def sz ll b1 moved [simplified] upd [simplified] st [simplified] split: if_splits)
  moreover have lx: "length (P @ ?init # be_bytes ?m ?v @ c) = b_len b1" using a(3) bl by simp
  ultimately have "ok_buf b'" "content b' = P @ ?init # be_bytes ?m ?v @ c"
    using ok_buf_update [OF a(1) lx] by simp_all
  then show "ok_buf b'" "content b' = P @ close_frame (Asn1, c)" "?n \<le> 0xfffffffe"
    using assms(4) lim by (simp_all add: der_length_bytes_def)
qed

lemma flush_child_ok:
  assumes "malloc_sound mal" "ok_buf b" "content b = P @ frame_bytes (k, c)" "k \<noteq> Root"
    and "flush_child mal b \<lparr>offset = length P, pending_len_len = klen k, pending_is_asn1 = (k = Asn1), is_child = ch\<rparr> = (True, b')"
  shows "ok_buf b' \<and> content b' = P @ close_frame (k, c) \<and> closeable k (length c)"
proof (cases k)
  case (Fixed n)
  then show ?thesis using flush_fixed_ok [OF assms(2), of P n c mal ch b'] assms by (simp add: frame_bytes_def)
next
  case Asn1
  then have c: "content b = P @ 0 # c"
    and f: "flush_child mal b \<lparr>offset = length P, pending_len_len = 1, pending_is_asn1 = True, is_child = ch\<rparr> = (True, b')"
    using assms by (simp_all add: frame_bytes_def)
  show ?thesis
  proof (cases "length c < 128")
    case True
    then show ?thesis using flush_asn1_short_ok [OF assms(2) c True f] Asn1 by simp
  next
    case False
    then show ?thesis using flush_asn1_long_ok [OF assms(1,2) c _ f] Asn1 by simp
  qed
qed (use assms in simp)

section \<open>Flushing\<close>

lemma append_top_simps [simp]:
  assumes "fs \<noteq> []"
  shows "body (append_top fs x) = body fs @ x" "chain_of off (append_top fs x) = chain_of off fs"
    "length (append_top fs x) = length fs" "append_top fs [] = fs" "append_top fs x \<noteq> []"
    "append_top (append_top fs x) y = append_top fs (x @ y)"
    "wf_frames (append_top fs x) \<longleftrightarrow> wf_frames fs"
proof -
  obtain gs k c where fs: "fs = gs @ [(k, c)]" using assms by (metis rev_exhaust surj_pair)
  then have a: "append_top fs y = gs @ [(k, c @ y)]" for y by (simp add: append_top_def)
  show "body (append_top fs x) = body fs @ x" "chain_of off (append_top fs x) = chain_of off fs"
    "length (append_top fs x) = length fs" "append_top fs [] = fs" "append_top fs x \<noteq> []"
    unfolding a by (simp_all add: fs chain_of_append frame_bytes_def)
  show "append_top (append_top fs x) y = append_top fs (x @ y)" unfolding a by (simp add: append_top_def)
  have "wf_frames (gs @ [(k, c @ x)]) \<longleftrightarrow> wf_frames (gs @ [(k, c)])"
    by (cases gs) (auto simp: wf_frames_def)
  then show "wf_frames (append_top fs x) \<longleftrightarrow> wf_frames fs" by (simp only: a [of x]) (simp only: fs)
qed

lemma wf_frames_take: "wf_frames fs \<Longrightarrow> wf_frames (take (Suc d) fs)"
  by (cases fs) (auto simp: wf_frames_def dest: in_set_takeD)

lemma wf_frames_klen: "wf_frames fs \<Longrightarrow> Suc d < length fs \<Longrightarrow> 0 < klen (fst (fs ! Suc d))"
  by (cases fs) (auto simp: wf_frames_def)

lemma flush_frames_top: "fs \<noteq> [] \<Longrightarrow> length fs \<le> Suc d \<Longrightarrow> flush_frames d fs = fs"
  by (simp add: flush_frames_def)

lemma flush_frames_nonempty [simp]: "fs \<noteq> [] \<Longrightarrow> flush_frames d fs \<noteq> []"
  by (simp add: flush_frames_def)

lemma length_flush_frames: "d < length fs \<Longrightarrow> length (flush_frames d fs) = Suc d"
  by (subst flush_frames_def, subst append_top_simps) auto

lemma flush_frames_snoc:
  assumes "Suc d < length fs"
  shows "flush_frames (Suc d) fs =
    take (Suc d) fs @ [(fst (fs ! Suc d), snd (fs ! Suc d) @ collapse (drop (Suc (Suc d)) fs))]"
  unfolding flush_frames_def append_top_def take_Suc_conv_app_nth [OF assms] butlast_snoc last_snoc ..

lemma collapse_drop:
  assumes "Suc d < length fs"
  shows "collapse (drop (Suc d) fs) =
    close_frame (fst (fs ! Suc d), snd (fs ! Suc d) @ collapse (drop (Suc (Suc d)) fs))"
  using assms by (cases "fs ! Suc d") (simp add: Cons_nth_drop_Suc [symmetric])

lemma buildsD:
  assumes "builds st fs"
  shows "wf_frames fs" "fs \<noteq> []" "chain st = chain_of 0 fs" "length (chain st) = length fs"
  using assms by (auto simp: builds_def wf_frames_def)

lemma builds_base:
  assumes "builds st fs"
  obtains b where "base st = Some b" "ok_buf b" "content b = body fs" "\<not> b_error b"
  using assms by (auto simp: builds_def ok_buf_def)

lemma CBB_flush_cases:
  assumes "CBB_flush mal d st = (True, st')"
  obtains (Done) "st' = st" "d < length (chain st)"
      "length (chain st) \<le> Suc d \<or> pending_len_len (chain st ! Suc d) = 0"
  | (Child) st1 b b' where "Suc d < length (chain st)" "CBB_flush mal (Suc d) st = (True, st1)"
      "base st1 = Some b" "flush_child mal b (chain st ! Suc d) = (True, b')"
      "st' = st1\<lparr>base := Some b', chain := take (Suc d) (chain st1)\<rparr>"
  using assms
  by (subst (asm) CBB_flush.simps)
    (auto simp: Let_def not_le split: option.splits if_splits prod.splits bool.splits)

text \<open>Every frame of the list can be closed, from the innermost on.\<close>

fun collapsible :: "frame list \<Rightarrow> bool" where
  "collapsible [] = True"
| "collapsible ((k, c) # fs) = (collapsible fs \<and> closeable k (length (c @ collapse fs)))"

lemma collapsible_drop:
  assumes "Suc d < length fs"
  shows "collapsible (drop (Suc d) fs) \<longleftrightarrow> collapsible (drop (Suc (Suc d)) fs) \<and>
    closeable (fst (fs ! Suc d)) (length (snd (fs ! Suc d) @ collapse (drop (Suc (Suc d)) fs)))"
  using assms by (cases "fs ! Suc d") (simp add: Cons_nth_drop_Suc [symmetric])

lemma flush_builds_collapsible:
  assumes "malloc_sound mal"
  shows "builds st fs \<Longrightarrow> CBB_flush mal d st = (True, st') \<Longrightarrow>
    builds st' (flush_frames d fs) \<and> collapsible (drop (Suc d) fs)"
proof (induction "length fs - d" arbitrary: d st' rule: less_induct)
  case less
  note B = buildsD [OF less.prems(1)]
  from less.prems(2) show ?case
  proof (cases rule: CBB_flush_cases)
    case Done
    have "\<not> Suc d < length fs"
    proof
      assume "Suc d < length fs"
      then show False using Done(3) wf_frames_klen [OF B(1), of d] B(3,4) by (simp add: chain_of_nth)
    qed
    then show ?thesis using less.prems(1) Done B(2) by (simp add: flush_frames_top)
  next
    case (Child st1 b b')
    then have d: "Suc d < length fs" using B(4) by simp
    let ?k = "fst (fs ! Suc d)" and ?c = "snd (fs ! Suc d) @ collapse (drop (Suc (Suc d)) fs)"
    let ?P = "body (take (Suc d) fs)"
    have "length fs - Suc d < length fs - d" using d by simp
    then have IH: "builds st1 (flush_frames (Suc d) fs)" "collapsible (drop (Suc (Suc d)) fs)"
      using less.hyps less.prems(1) Child(2) by blast+
    from IH(1) have b1: "builds st1 (take (Suc d) fs @ [(?k, ?c)])" by (simp only: flush_frames_snoc [OF d])
    then have b: "ok_buf b" "content b = ?P @ frame_bytes (?k, ?c)"
      using Child(3) by (auto simp: builds_def)
    have kR: "?k \<noteq> Root" using wf_frames_klen [OF B(1) d] by auto
    have "chain st ! Suc d = \<lparr>offset = length ?P, pending_len_len = klen ?k, pending_is_asn1 = (?k = Asn1), is_child = True\<rparr>"
      using B(3) chain_of_nth [OF d, of 0] kR by simp
    with Child(4) have "ok_buf b' \<and> content b' = ?P @ close_frame (?k, ?c) \<and> closeable ?k (length ?c)"
      by (intro flush_child_ok [OF assms b kR]) simp
    moreover have "take (Suc d) (chain st1) = chain_of 0 (take (Suc d) fs)"
      using buildsD(3) [OF b1] d by (simp add: chain_of_take)
    moreover have "take (Suc d) fs \<noteq> []" using d by auto
    ultimately show ?thesis
      using Child(5) wf_frames_take [OF B(1), of d] IH(2)
      by (simp add: builds_def flush_frames_def collapse_drop [OF d] collapsible_drop [OF d])
  qed
qed

lemmas flush_builds = flush_builds_collapsible [THEN conjunct1]

end
