(* ===== verification/CBBOps.thy ===== *)
theory CBBOps
  imports CBBRefine
begin

text \<open>
  What the operations of \<open>crypto/bytestring/cbb.c\<close> do to the frames. The interface \<open>writer\<close> is the
  contract of every operation that appends bytes: on success it appends its bytes to the frame it is
  called on, after closing the frames above; it succeeds when memory and sizes allow; a failed \<open>CBB\<close>
  stays failed; and a failure poisons the \<open>CBB\<close>. Contracts compose along \<open>&&\<close>, and a writer inside an
  ASN.1 child is a writer of the element.
\<close>

section \<open>Conditions for success\<close>

definition malloc_total :: "platform_malloc \<Rightarrow> bool" where
  "malloc_total mal \<longleftrightarrow> malloc_sound mal \<and> (\<forall>n. mal n \<noteq> None)"

lemma malloc_total_sound [intro]: "malloc_total mal \<Longrightarrow> malloc_sound mal"
  by (simp add: malloc_total_def)

definition growable :: "cbb_buffer \<Rightarrow> bool" where
  "growable b \<longleftrightarrow> b_can_resize b \<and> b_cap b \<le> 2 ^ 62"

definition growable_state :: "cbb_state \<Rightarrow> bool" where
  "growable_state st \<longleftrightarrow> (\<forall>b. base st = Some b \<longrightarrow> growable b)"

definition failed :: "cbb_state \<Rightarrow> bool" where
  "failed st \<longleftrightarrow> (\<forall>b. base st = Some b \<longrightarrow> b_error b)"

lemma OPENSSL_malloc_total: "malloc_total mal \<Longrightarrow> n \<le> 2 ^ 62 \<Longrightarrow> \<exists>p. OPENSSL_malloc mal n = Some p"
  by (auto simp: OPENSSL_malloc_def malloc_total_def split: option.splits)

lemma reserve_total:
  assumes "malloc_total mal" "ok_buf b" "growable b" "b_len b + n \<le> 2 ^ 61"
  obtains b' where "cbb_buffer_reserve mal b n = (True, b')" "growable b'"
proof (cases "b_cap b < b_len b + n")
  case False
  then have "cbb_buffer_reserve mal b n = (True, b)"
    using assms(4) by (simp add: cbb_buffer_reserve_def)
  then show thesis using assms(3) that by blast
next
  case True
  let ?c = "szmul (b_cap b) 2"
  let ?newcap = "if ?c < b_cap b \<or> ?c < b_len b + n then b_len b + n else ?c"
  have c: "?newcap \<le> 2 ^ 62" using True assms(4) by (simp add: szmul_small)
  obtain p where p: "OPENSSL_realloc mal (Some (b_buf b)) ?newcap = Some p"
    using OPENSSL_malloc_total [OF assms(1) c] by (auto simp: OPENSSL_realloc_def Let_def)
  have "szadd (b_len b) n = b_len b + n" using assms(4) by simp
  then have "cbb_buffer_reserve mal b n = (True, b\<lparr>b_buf := p, b_cap := ?newcap\<rparr>)"
    using True assms(3) by (simp only: cbb_buffer_reserve_def Let_def p) (simp add: growable_def)
  then show thesis using assms(3) c that by (simp add: growable_def)
qed

lemma add_total:
  assumes "malloc_total mal" "ok_buf b" "growable b" "b_len b + n \<le> 2 ^ 61"
  obtains b' where "cbb_buffer_add mal b n = (True, b')" "growable b'"
proof -
  obtain b' where b': "cbb_buffer_reserve mal b n = (True, b')" "growable b'"
    using reserve_total [OF assms] by blast
  then have "cbb_buffer_add mal b n = (True, b'\<lparr>b_len := b_len b' + n\<rparr>)"
    by (simp add: cbb_buffer_add_def)
  then show thesis using b'(2) that by (simp add: growable_def)
qed

lemma add_fails: "cbb_buffer_add mal b n = (False, b') \<Longrightarrow> b_error b'"
  by (auto simp: cbb_buffer_add_def cbb_buffer_reserve_def Let_def split: prod.splits bool.splits if_splits option.splits)

section \<open>Writing to the buffer\<close>

locale buf_writer =
  fixes f :: "platform_malloc \<Rightarrow> cbb_buffer \<Rightarrow> bool \<times> cbb_buffer"
    and out :: bytes
  assumes ok: "malloc_sound mal \<Longrightarrow> ok_buf b \<Longrightarrow> f mal b = (True, b') \<Longrightarrow> ok_buf b' \<and> content b' = content b @ out"
    and total: "malloc_total mal \<Longrightarrow> ok_buf b \<Longrightarrow> growable b \<Longrightarrow> b_len b + length out \<le> 2 ^ 61 \<Longrightarrow>
      \<exists>b'. f mal b = (True, b') \<and> growable b'"
    and poisons: "f mal b = (False, b') \<Longrightarrow> b_error b'"

lemma buf_writer_u:
  assumes "n < 9" "drop_bit (8 * n) v = 0"
  shows "buf_writer (\<lambda>mal b. cbb_buffer_add_u mal b v n) (be_bytes n v)"
proof
  fix mal b b'
  show "ok_buf b' \<and> content b' = content b @ be_bytes n v"
    if "malloc_sound mal" "ok_buf b" "cbb_buffer_add_u mal b v n = (True, b')"
    using add_u_ok [OF that(1) that(2) _ that(3)] assms(1) by simp
  show "b_error b'" if "cbb_buffer_add_u mal b v n = (False, b')"
    using that by (auto simp: cbb_buffer_add_u_def Let_def dest: add_fails split: if_splits prod.splits bool.splits)
  show "\<exists>b'. cbb_buffer_add_u mal b v n = (True, b') \<and> growable b'"
    if a: "malloc_total mal" "ok_buf b" "growable b" "b_len b + length (be_bytes n v) \<le> 2 ^ 61"
  proof (cases "n = 0")
    case False
    obtain b1 where b1: "cbb_buffer_add mal b n = (True, b1)" "growable b1"
      using add_total [OF a(1-3), of n] a(4) by auto
    note r = add_ok [OF malloc_total_sound [OF a(1)] a(2) _ b1(1)]
    have "store_be (b_buf b1) (b_len b1 - n) n v = (content b @ be_bytes n v @ drop (b_len b + n) (b_buf b1), 0)"
      using store_be_at_end [OF r(1) r(3,2)] r(3) assms by simp
    then show ?thesis using False b1 by (simp add: cbb_buffer_add_u_def growable_def)
  qed (use a in \<open>simp add: cbb_buffer_add_u_def\<close>)
qed

lemma buf_writer_bytes:
  assumes "length xs < SIZE_MOD"
  shows "buf_writer (\<lambda>mal b. case cbb_buffer_add mal b (length xs) of (False, b) \<Rightarrow> (False, b)
     | (True, b) \<Rightarrow> (True, b\<lparr>b_buf := buf_write (b_buf b) (b_len b - length xs) xs\<rparr>)) xs"
proof
  fix mal b b'
  let ?r = "case cbb_buffer_add mal b (length xs) of (False, b) \<Rightarrow> (False, b)
     | (True, b) \<Rightarrow> (True, b\<lparr>b_buf := buf_write (b_buf b) (b_len b - length xs) xs\<rparr>)"
  show "ok_buf b' \<and> content b' = content b @ xs" if a: "malloc_sound mal" "ok_buf b" "?r = (True, b')"
  proof -
    obtain b1 where b1: "cbb_buffer_add mal b (length xs) = (True, b1)"
      "b' = b1\<lparr>b_buf := buf_write (b_buf b1) (b_len b1 - length xs) xs\<rparr>"
      using a(3) by (auto split: prod.splits bool.splits)
    show ?thesis using add_bytes_ok [OF a(1,2) assms b1] by blast
  qed
  show "b_error b'" if "?r = (False, b')"
    using that by (auto dest: add_fails split: prod.splits bool.splits)
  show "\<exists>b'. ?r = (True, b') \<and> growable b'"
    if a: "malloc_total mal" "ok_buf b" "growable b" "b_len b + length xs \<le> 2 ^ 61"
    by (rule add_total [OF a]) (auto simp: growable_def)
qed

section \<open>Flushing succeeds\<close>

lemma flush_keeps: "CBB_flush mal d st = (True, st') \<Longrightarrow> d < length (chain st') \<and> length (chain st') \<le> max (Suc d) (length (chain st))"
proof (induction "length (chain st) - d" arbitrary: d st' rule: less_induct)
  case less
  from less.prems show ?case
  proof (cases rule: CBB_flush_cases)
    case (Child st1 b b')
    then show ?thesis using less.hyps [of "Suc d" st1] by auto
  qed auto
qed

lemma flush_sticky: "failed st \<Longrightarrow> CBB_flush mal d st = (False, st)"
  by (subst CBB_flush.simps) (auto simp: failed_def split: option.splits)

lemma failed_set_error [simp]: "failed (set_error st)"
  by (auto simp: failed_def set_error_def)

lemma flush_child_fails: "flush_child mal b ch = (False, b') \<Longrightarrow> b_error b'"
  by (auto simp: flush_child_def Let_def split: prod.splits bool.splits if_splits)

lemma flush_fails: "CBB_flush mal d st = (False, st') \<Longrightarrow> length (chain st) \<le> d \<or> failed st'"
  by (subst (asm) CBB_flush.simps)
    (auto simp: Let_def failed_def set_error_def dest: flush_child_fails
      split: option.splits if_splits prod.splits bool.splits)

lemma length_close_frame: "klen k + length c \<le> length (close_frame (k, c))"
  using length_der_length_bytes [of "length c"] by (cases k) (auto simp: Suc_le_eq)

lemma flush_child_total:
  assumes "malloc_total mal" "ok_buf b" "growable b" "content b = P @ frame_bytes (k, c)" "k \<noteq> Root"
    and "closeable k (length c)" "length (P @ close_frame (k, c)) \<le> 2 ^ 61"
  shows "\<exists>b'. flush_child mal b \<lparr>offset = length P, pending_len_len = klen k, pending_is_asn1 = (k = Asn1), is_child = ch\<rparr> = (True, b') \<and> growable b'"
proof (cases k)
  case Root
  then show ?thesis using assms(5) by simp
next
  case (Fixed n)
  have bl: "b_len b = length P + n + length c"
    using arg_cong [OF assms(4), of length] length_content [OF assms(2)] Fixed by (simp add: frame_bytes_def)
  then have sz: "szadd (length P) n = length P + n" using assms(2) by (simp add: ok_buf_def)
  have "content b = P @ replicate n 0 @ c" using assms(4) Fixed by (simp add: frame_bytes_def)
  note st = patch_content [OF assms(2) this length_replicate]
  show ?thesis using Fixed assms(3,6) bl by (simp add: flush_child_def Let_def sz st growable_def)
next
  case Asn1
  let ?n = "length c" and ?m = "der_len_len (length c)"
  have m: "?m \<in> {1, 2, 3, 4}" by (rule der_len_len_cases)
  have bl: "b_len b = length P + 1 + ?n"
    using arg_cong [OF assms(4), of length] length_content [OF assms(2)] Asn1 by (simp add: frame_bytes_def)
  then have sz: "szadd (length P) 1 = length P + 1" "szadd (length P) (Suc 0) = length P + 1"
    using assms(2) by (simp_all add: ok_buf_def)
  have lim: "(0xfffffffe < ?n) = False" using assms(6) Asn1 by simp
  show ?thesis
  proof (cases "?n < 128")
    case True
    then show ?thesis using Asn1 assms(3) bl lim
      by (simp add: flush_child_def Let_def sz asn1_len_len_eq growable_def)
  next
    case False
    have ll: "asn1_len_len ?n = Suc ?m" using False by (simp add: asn1_len_len_eq)
    have "b_len b + ?m \<le> 2 ^ 61"
      using assms(7) Asn1 bl False by (simp add: der_length_bytes_def)
    then obtain b1 where b1: "cbb_buffer_add mal b ?m = (True, b1)" "growable b1"
      using add_total [OF assms(1-3)] by blast
    have "?m < SIZE_MOD" using m by auto
    note a = add_ok [OF malloc_total_sound [OF assms(1)] assms(2) this b1(1)]
    have len: "length (b_buf b1) = b_cap b1" "b_len b1 \<le> b_cap b1" using a(1) by (simp_all add: ok_buf_def)
    let ?v = "of_nat ?n :: 64 word"
    have "128 \<le> ?n" "?n < 2 ^ 32" using False lim by simp_all
    then have "drop_bit (8 * ?m) ?v = 0"
      by (simp add: drop_bit_zero_iff der_len_len_def unsigned_of_nat take_bit_nat_eq_self)
    then have rest: "length P + 1 + ?m \<le> length buf \<Longrightarrow> snd (store_be buf (length P + 1) ?m ?v) = 0" for buf
      by (simp add: store_be_eq)
    have lw: "length ((buf_write (b_buf b1) (length P + 1 + ?m) (take ?n (drop (length P + 1) (b_buf b1))))[length P := x]) = b_cap b1" for x
      using len a(3) bl by (simp add: buf_write_def)
    have "length P + 1 + ?m \<le> b_cap b1" using len a(3) bl by simp
    let ?init = "0x80 OR of_nat ?m :: byte"
    obtain buf' where st: "store_be ((buf_write (b_buf b1) (length P + 1 + ?m) (take ?n (drop (length P + 1) (b_buf b1))))[length P := ?init]) (length P + 1) ?m ?v = (buf', 0)"
      by (metis prod.collapse rest lw \<open>length P + 1 + ?m \<le> b_cap b1\<close>)
    have ex: "Suc ?m - 1 = ?m" "Suc ?m \<noteq> 1" "?m \<noteq> 0" using m by auto
    show ?thesis using Asn1 b1(2) bl lim ex
      by (simp add: flush_child_def Let_def sz ll b1(1) st [simplified] growable_def)
  qed
qed

lemma collapse_le_body: "length (body fs) \<le> length (collapse fs)"
proof (induction fs rule: collapse.induct)
  case (2 k c fs)
  then show ?case
    using length_close_frame [of k "c @ collapse fs"] by (simp add: frame_bytes_def)
qed simp

lemma body_flush_frames:
  assumes "d < length fs"
  shows "body (flush_frames d fs) = body (take (Suc d) fs) @ collapse (drop (Suc d) fs)"
  unfolding flush_frames_def by (rule append_top_simps(1)) (use assms in auto)

lemma length_body_flush_mono:
  assumes "Suc d < length fs"
  shows "length (body (flush_frames (Suc d) fs)) \<le> length (body (flush_frames d fs))"
  using assms length_close_frame [of "fst (fs ! Suc d)" "snd (fs ! Suc d) @ collapse (drop (Suc (Suc d)) fs)"]
  by (simp add: body_flush_frames collapse_drop take_Suc_conv_app_nth [of "Suc d"] frame_bytes_def)

lemma flush_child_step:
  assumes "base st = Some b0" "\<not> b_error b0" "Suc d < length (chain st)" "0 < pending_len_len (chain st ! Suc d)"
    and "CBB_flush mal (Suc d) st = (True, st1)" "base st1 = Some b"
    and "let child = chain st ! Suc d; s = szadd (offset child) (pending_len_len child)
         in offset child \<le> s \<and> s \<le> b_len b"
    and "flush_child mal b (chain st ! Suc d) = (True, b')"
  shows "CBB_flush mal d st = (True, st1\<lparr>base := Some b', chain := take (Suc d) (chain st1)\<rparr>)"
  using assms by (subst CBB_flush.simps) (auto simp: Let_def)

lemma flush_total:
  assumes "malloc_total mal" "builds st fs" "growable_state st"
  shows "d < length fs \<Longrightarrow> collapsible (drop (Suc d) fs) \<Longrightarrow> length (body (flush_frames d fs)) \<le> 2 ^ 61 \<Longrightarrow>
    \<exists>st'. CBB_flush mal d st = (True, st') \<and> growable_state st'"
proof (induction "length fs - d" arbitrary: d rule: less_induct)
  case less
  note B = buildsD [OF assms(2)]
  obtain b0 where b0: "base st = Some b0" "\<not> b_error b0" using builds_base [OF assms(2)] by metis
  show ?case
  proof (cases "Suc d < length fs")
    case False
    then have "CBB_flush mal d st = (True, st)"
      using b0 B less.prems(1) by (subst CBB_flush.simps) simp
    then show ?thesis using assms(3) by blast
  next
    case True
    let ?k = "fst (fs ! Suc d)" and ?c = "snd (fs ! Suc d) @ collapse (drop (Suc (Suc d)) fs)"
    let ?P = "body (take (Suc d) fs)"
    have cd: "collapsible (drop (Suc (Suc d)) fs)" "closeable ?k (length ?c)"
      using less.prems(2) collapsible_drop [OF True] by blast+
    have "length fs - Suc d < length fs - d" using True by simp
    from less.hyps [OF this True cd(1) order.trans [OF length_body_flush_mono [OF True] less.prems(3)]]
    obtain st1 where st1: "CBB_flush mal (Suc d) st = (True, st1)" "growable_state st1" by blast
    have b1: "builds st1 (take (Suc d) fs @ [(?k, ?c)])"
      using flush_builds [OF malloc_total_sound [OF assms(1)] assms(2) st1(1)]
      by (simp only: flush_frames_snoc [OF True])
    then obtain b where b: "base st1 = Some b" "ok_buf b" "content b = ?P @ frame_bytes (?k, ?c)"
      using builds_base [OF b1] by auto
    have kp: "0 < klen ?k" "?k \<noteq> Root" using wf_frames_klen [OF B(1) True] by auto
    have ch: "chain st ! Suc d = \<lparr>offset = length ?P, pending_len_len = klen ?k, pending_is_asn1 = (?k = Asn1), is_child = True\<rparr>"
      using B(3) chain_of_nth [OF True, of 0] kp by simp
    have bl: "b_len b = length ?P + klen ?k + length ?c" "b_len b < SIZE_MOD"
      using arg_cong [OF b(3), of length] length_content [OF b(2)] b(2) by (simp_all add: frame_bytes_def ok_buf_def)
    have cl: "closeable ?k (length ?c)" using cd(2) .
    have "length (?P @ close_frame (?k, ?c)) \<le> 2 ^ 61"
      using less.prems(3) by (simp only: body_flush_frames [OF less.prems(1)] collapse_drop [OF True])
    then obtain b' where b': "flush_child mal b (chain st ! Suc d) = (True, b')" "growable b'"
      using flush_child_total [OF assms(1) b(2) _ b(3) kp(2) cl] st1(2) b(1) unfolding ch growable_state_def by blast
    have "CBB_flush mal d st = (True, st1\<lparr>base := Some b', chain := take (Suc d) (chain st1)\<rparr>)"
    proof (rule flush_child_step [OF b0 _ _ st1(1) b(1) _ b'(1)])
      show "Suc d < length (chain st)" using True B(4) by simp
      show "0 < pending_len_len (chain st ! Suc d)" using kp by (simp add: ch)
      show "let child = chain st ! Suc d; s = szadd (offset child) (pending_len_len child)
        in offset child \<le> s \<and> s \<le> b_len b" using bl by (simp add: ch Let_def)
    qed
    then show ?thesis using b'(2) by (auto simp: growable_state_def)
  qed
qed

end
