(* ===== verification/CBBWrite.thy ===== *)
theory CBBWrite
  imports CBBOps
begin

text \<open>
  The contract \<open>writer\<close> of the operations of \<open>crypto/bytestring/cbb.c\<close> that append bytes, its
  composition, and the operations that meet it: the fixed-width integers, byte strings, elements with
  their contents, and the DER encodings of integers, booleans and octet strings.
\<close>

section \<open>The contract\<close>

locale writer =
  fixes wr :: "platform_malloc \<Rightarrow> nat \<Rightarrow> cbb_state \<Rightarrow> bool \<times> cbb_state"
    and out :: bytes
  assumes writes: "malloc_sound mal \<Longrightarrow> builds st fs \<Longrightarrow> d < length fs \<Longrightarrow> wr mal d st = (True, st') \<Longrightarrow>
      builds st' (append_top (flush_frames d fs) out)"
    and total: "malloc_total mal \<Longrightarrow> builds st fs \<Longrightarrow> growable_state st \<Longrightarrow> d < length fs \<Longrightarrow>
      collapsible (drop (Suc d) fs) \<Longrightarrow> length (body (flush_frames d fs)) + length out \<le> 2 ^ 61 \<Longrightarrow>
      \<exists>st'. wr mal d st = (True, st') \<and> growable_state st'"
    and keeps: "wr mal d st = (True, st') \<Longrightarrow> d < length (chain st) \<Longrightarrow> d < length (chain st')"
    and sticky: "failed st \<Longrightarrow> \<exists>st'. wr mal d st = (False, st') \<and> failed st'"
    and poisons: "wr mal d st = (False, st') \<Longrightarrow> d < length (chain st) \<Longrightarrow> failed st'"

text \<open>The weaker contract of an operation that does not flush on every path, such as a loop that may
  not be entered: it is only promised on the innermost open builder.\<close>

locale appender =
  fixes wr :: "platform_malloc \<Rightarrow> nat \<Rightarrow> cbb_state \<Rightarrow> bool \<times> cbb_state"
    and out :: bytes
  assumes appends: "malloc_sound mal \<Longrightarrow> builds st fs \<Longrightarrow> length fs = Suc d \<Longrightarrow> wr mal d st = (True, st') \<Longrightarrow>
      builds st' (append_top fs out)"
    and append_total: "malloc_total mal \<Longrightarrow> builds st fs \<Longrightarrow> growable_state st \<Longrightarrow> length fs = Suc d \<Longrightarrow>
      length (body fs) + length out \<le> 2 ^ 61 \<Longrightarrow> \<exists>st'. wr mal d st = (True, st') \<and> growable_state st'"
    and append_keeps: "wr mal d st = (True, st') \<Longrightarrow> d < length (chain st) \<Longrightarrow> d < length (chain st')"
    and append_poisons: "wr mal d st = (False, st') \<Longrightarrow> d < length (chain st) \<Longrightarrow> failed st'"

lemma flush_frames_at_top: "length fs = Suc d \<Longrightarrow> flush_frames d fs = fs"
  by (rule flush_frames_top) auto

lemma appender_writer:
  assumes "writer f x"
  shows "appender f x"
proof
  fix mal st fs d st'
  show "builds st' (append_top fs x)"
    if "malloc_sound mal" "builds st fs" "length fs = Suc d" "f mal d st = (True, st')"
    using writer.writes [OF assms that(1) that(2) _ that(4)] that(3) by (simp add: flush_frames_at_top)
  show "\<exists>st'. f mal d st = (True, st') \<and> growable_state st'"
    if "malloc_total mal" "builds st fs" "growable_state st" "length fs = Suc d" "length (body fs) + length x \<le> 2 ^ 61"
    using writer.total [OF assms that(1) that(2) that(3), of d] that(4,5) by (simp add: flush_frames_at_top)
  show "d < length (chain st')" if "f mal d st = (True, st')" "d < length (chain st)"
    using writer.keeps [OF assms that] .
  show "failed st'" if "f mal d st = (False, st')" "d < length (chain st)"
    using writer.poisons [OF assms that] .
qed

sublocale writer \<subseteq> appender
  using appender_writer writer_axioms by blast

lemma flush_frames_append [simp]:
  assumes "d < length fs"
  shows "flush_frames d (append_top (flush_frames d fs) x) = append_top (flush_frames d fs) x"
proof -
  have ne: "fs \<noteq> []" using assms by auto
  show ?thesis
  proof (rule flush_frames_top)
    show "append_top (flush_frames d fs) x \<noteq> []" using ne by simp
    show "length (append_top (flush_frames d fs) x) \<le> Suc d" using ne assms by (simp add: length_flush_frames)
  qed
qed

lemma append_flush_facts:
  assumes "d < length fs"
  shows "length (append_top (flush_frames d fs) x) = Suc d" "append_top (flush_frames d fs) [] = flush_frames d fs"
    "append_top (append_top (flush_frames d fs) x) y = append_top (flush_frames d fs) (x @ y)"
    "body (append_top (flush_frames d fs) x) = body (flush_frames d fs) @ x"
    "d < length (append_top (flush_frames d fs) x)" "drop (Suc d) (append_top (flush_frames d fs) x) = []"
    "wf_frames (append_top (flush_frames d fs) x) \<longleftrightarrow> wf_frames (flush_frames d fs)"
    "chain_of 0 (append_top (flush_frames d fs) x) = chain_of 0 (flush_frames d fs)"
proof -
  have "flush_frames d fs \<noteq> []" using assms by (intro flush_frames_nonempty) auto
  note s = append_top_simps [OF this]
  show "length (append_top (flush_frames d fs) x) = Suc d" "append_top (flush_frames d fs) [] = flush_frames d fs"
    "append_top (append_top (flush_frames d fs) x) y = append_top (flush_frames d fs) (x @ y)"
    "body (append_top (flush_frames d fs) x) = body (flush_frames d fs) @ x"
    "d < length (append_top (flush_frames d fs) x)" "drop (Suc d) (append_top (flush_frames d fs) x) = []"
    "wf_frames (append_top (flush_frames d fs) x) \<longleftrightarrow> wf_frames (flush_frames d fs)"
    "chain_of 0 (append_top (flush_frames d fs) x) = chain_of 0 (flush_frames d fs)"
    using s length_flush_frames [OF assms] by simp_all
qed

lemma failed_iff: "failed st \<longleftrightarrow> base st = None \<or> (\<exists>b. base st = Some b \<and> b_error b)"
  by (auto simp: failed_def)

lemma writer_flush: "writer CBB_flush []"
proof
  fix mal st fs d st'
  show "builds st' (append_top (flush_frames d fs) [])"
    if "malloc_sound mal" "builds st fs" "d < length fs" "CBB_flush mal d st = (True, st')"
    using flush_builds [OF that(1) that(2) that(4)] by (simp add: append_flush_facts that(3))
  show "\<exists>st'. CBB_flush mal d st = (True, st') \<and> growable_state st'"
    if "malloc_total mal" "builds st fs" "growable_state st" "d < length fs" "collapsible (drop (Suc d) fs)"
      "length (body (flush_frames d fs)) + length ([] :: bytes) \<le> 2 ^ 61"
    using flush_total [OF that(1) that(2) that(3) that(4) that(5)] that(6) by simp
  show "d < length (chain st')" if "CBB_flush mal d st = (True, st')"
    using flush_keeps [OF that] by blast
  show "\<exists>st'. CBB_flush mal d st = (False, st') \<and> failed st'" if "failed st"
    using flush_sticky [OF that] that by blast
  show "failed st'" if "CBB_flush mal d st = (False, st')" "d < length (chain st)"
    using flush_fails [OF that(1)] that(2) by simp
qed

lemma with_base_True:
  assumes "with_base mal d st f = (True, st')"
  obtains st1 b b' where "CBB_flush mal d st = (True, st1)" "base st1 = Some b" "f b = (True, b')"
    "st' = st1\<lparr>base := Some b'\<rparr>"
  using assms by (auto simp: with_base_def split: prod.splits bool.splits option.splits)

lemma writer_with_base:
  assumes "buf_writer f out"
  shows "writer (\<lambda>mal d st. with_base mal d st (f mal)) out"
proof
  fix mal st fs d st'
  show "builds st' (append_top (flush_frames d fs) out)"
    if a: "malloc_sound mal" "builds st fs" "d < length fs" "with_base mal d st (f mal) = (True, st')"
  proof -
    obtain st1 b b' where w: "CBB_flush mal d st = (True, st1)" "base st1 = Some b" "f mal b = (True, b')"
      "st' = st1\<lparr>base := Some b'\<rparr>" using with_base_True [OF a(4)] by metis
    have "builds st1 (flush_frames d fs)" using flush_builds [OF a(1,2) w(1)] .
    then show ?thesis
      using w(2,4) buf_writer.ok [OF assms a(1) _ w(3)]
      by (auto simp: builds_def append_flush_facts [OF a(3)])
  qed
  show "\<exists>st'. with_base mal d st (f mal) = (True, st') \<and> growable_state st'"
    if a: "malloc_total mal" "builds st fs" "growable_state st" "d < length fs" "collapsible (drop (Suc d) fs)"
      "length (body (flush_frames d fs)) + length out \<le> 2 ^ 61"
  proof -
    obtain st1 where st1: "CBB_flush mal d st = (True, st1)" "growable_state st1"
      using flush_total [OF a(1-5)] a(6) by auto
    have "builds st1 (flush_frames d fs)" using flush_builds [OF _ a(2) st1(1)] a(1) by blast
    then obtain b where b: "base st1 = Some b" "ok_buf b" "content b = body (flush_frames d fs)"
      using builds_base by metis
    then have "b_len b + length out \<le> 2 ^ 61" using a(6) length_content [OF b(2)] by simp
    then obtain b' where "f mal b = (True, b')" "growable b'"
      using buf_writer.total [OF assms a(1) b(2)] b(1) st1(2) by (auto simp: growable_state_def)
    then show ?thesis using st1 b by (simp add: with_base_def growable_state_def)
  qed
  show "d < length (chain st')" if "with_base mal d st (f mal) = (True, st')"
    using with_base_True [OF that] flush_keeps by (metis cbb_state.select_convs(2) cbb_state.surjective cbb_state.update_convs(1))
  show "\<exists>st'. with_base mal d st (f mal) = (False, st') \<and> failed st'" if "failed st"
    using flush_sticky [OF that] that by (simp add: with_base_def)
  show "failed st'" if a: "with_base mal d st (f mal) = (False, st')" "d < length (chain st)"
    using a flush_fails [of mal d st] buf_writer.poisons [OF assms, of mal]
    by (fastforce simp: with_base_def failed_iff split: prod.splits bool.splits option.splits)
qed

section \<open>Composition\<close>

lemma and_then_simps [simp]:
  "and_then (True, st) f = f st" "and_then (False, st) f = (False, st)"
  by (simp_all add: and_then_def)

lemma and_then_True: "and_then r f = (True, st') \<longleftrightarrow> (\<exists>st1. r = (True, st1) \<and> f st1 = (True, st'))"
  by (cases r) (auto simp: and_then_def split: bool.splits)

lemma and_then_False:
  "and_then r f = (False, st') \<longleftrightarrow> r = (False, st') \<or> (\<exists>st1. r = (True, st1) \<and> f st1 = (False, st'))"
  by (cases r) (auto simp: and_then_def split: bool.splits)

lemma writer_then:
  assumes "writer f x" "writer g y"
  shows "writer (\<lambda>mal d st. and_then (f mal d st) (g mal d)) (x @ y)"
proof
  fix mal st fs d st'
  show "builds st' (append_top (flush_frames d fs) (x @ y))"
    if a: "malloc_sound mal" "builds st fs" "d < length fs" "and_then (f mal d st) (g mal d) = (True, st')"
  proof -
    obtain st1 where s: "f mal d st = (True, st1)" "g mal d st1 = (True, st')" using a(4) by (auto simp: and_then_True)
    note f = writer.writes [OF assms(1) a(1-3) s(1)]
    show ?thesis using writer.writes [OF assms(2) a(1) f _ s(2)] a(3) by (simp add: append_flush_facts)
  qed
  show "\<exists>st'. and_then (f mal d st) (g mal d) = (True, st') \<and> growable_state st'"
    if a: "malloc_total mal" "builds st fs" "growable_state st" "d < length fs" "collapsible (drop (Suc d) fs)"
      "length (body (flush_frames d fs)) + length (x @ y) \<le> 2 ^ 61"
  proof -
    obtain st1 where st1: "f mal d st = (True, st1)" "growable_state st1"
      using writer.total [OF assms(1) a(1-5)] a(6) by auto
    have "builds st1 (append_top (flush_frames d fs) x)"
      using writer.writes [OF assms(1) _ a(2,4) st1(1)] a(1) by blast
    from writer.total [OF assms(2) a(1) this st1(2), of d] show ?thesis
      using st1(1) a(4,6) by (simp add: append_flush_facts)
  qed
  show "d < length (chain st')" if "and_then (f mal d st) (g mal d) = (True, st')" "d < length (chain st)"
    using that writer.keeps [OF assms(1)] writer.keeps [OF assms(2)] by (auto simp: and_then_True)
  show "\<exists>st'. and_then (f mal d st) (g mal d) = (False, st') \<and> failed st'" if "failed st"
    using writer.sticky [OF assms(1) that, of mal d] by auto
  show "failed st'" if "and_then (f mal d st) (g mal d) = (False, st')" "d < length (chain st)"
    using that writer.poisons [OF assms(1)] writer.poisons [OF assms(2)] writer.keeps [OF assms(1)]
    by (auto simp: and_then_False)
qed

lemma writer_cong: "writer f x \<Longrightarrow> (\<And>mal d st. f mal d st = g mal d st) \<Longrightarrow> x = y \<Longrightarrow> writer g y"
proof -
  assume a: "writer f x" "\<And>mal d st. f mal d st = g mal d st" "x = y"
  from a(2) have "f = g" by (intro ext)
  with a show "writer g y" by simp
qed

lemma appender_unit: "appender (\<lambda>mal d st. (True, st)) []"
proof
  fix mal :: platform_malloc and st fs d st'
  show "builds st' (append_top fs [])" if "builds st fs" "(True, st) = (True, st')"
    using that buildsD(2) [OF that(1)] by simp
qed auto

lemma appender_then:
  assumes "appender f x" "appender g y"
  shows "appender (\<lambda>mal d st. and_then (f mal d st) (g mal d)) (x @ y)"
proof
  fix mal st fs d st'
  show "builds st' (append_top fs (x @ y))"
    if a: "malloc_sound mal" "builds st fs" "length fs = Suc d" "and_then (f mal d st) (g mal d) = (True, st')"
  proof -
    obtain st1 where s: "f mal d st = (True, st1)" "g mal d st1 = (True, st')" using a(4) by (auto simp: and_then_True)
    have ne: "fs \<noteq> []" using a(3) by auto
    note f = appender.appends [OF assms(1) a(1-3) s(1)]
    show ?thesis using appender.appends [OF assms(2) a(1) f _ s(2)] a(3) ne by simp
  qed
  show "\<exists>st'. and_then (f mal d st) (g mal d) = (True, st') \<and> growable_state st'"
    if a: "malloc_total mal" "builds st fs" "growable_state st" "length fs = Suc d" "length (body fs) + length (x @ y) \<le> 2 ^ 61"
  proof -
    have ne: "fs \<noteq> []" using a(4) by auto
    obtain st1 where st1: "f mal d st = (True, st1)" "growable_state st1"
      using appender.append_total [OF assms(1) a(1-4)] a(5) by auto
    have "builds st1 (append_top fs x)" using appender.appends [OF assms(1) _ a(2,4) st1(1)] a(1) by blast
    from appender.append_total [OF assms(2) a(1) this st1(2), of d] show ?thesis using st1(1) a(4,5) ne by simp
  qed
  show "d < length (chain st')" if "and_then (f mal d st) (g mal d) = (True, st')" "d < length (chain st)"
    using that appender.append_keeps [OF assms(1)] appender.append_keeps [OF assms(2)] by (auto simp: and_then_True)
  show "failed st'" if "and_then (f mal d st) (g mal d) = (False, st')" "d < length (chain st)"
    using that appender.append_poisons [OF assms(1)] appender.append_poisons [OF assms(2)] appender.append_keeps [OF assms(1)]
    by (auto simp: and_then_False)
qed

section \<open>Fixed-width integers and byte strings\<close>

lemma writer_u8: "writer (\<lambda>mal d. CBB_add_u8 mal d v) [v]"
proof (rule writer_cong [OF writer_with_base [OF buf_writer_u [of 1 "ucast v"]]])
  show "drop_bit (8 * 1) (ucast v :: 64 word) = 0" by (simp add: drop_bit_zero_iff unat_ucast_up byte_lt)
  have "ucast (ucast v :: 64 word) = v" by (rule bit_eqI) (auto simp: bit_simps)
  then show "be_bytes 1 (ucast v) = [v]" by simp
qed (simp_all add: CBB_add_u8_def)

lemma drop_ucast_zero: "LENGTH('a) \<le> n \<Longrightarrow> LENGTH('a) \<le> 64 \<Longrightarrow> drop_bit n (ucast (v :: 'a :: len word) :: 64 word) = 0"
  using unsigned_less [of v] order_less_le_trans [OF _ power_increasing [of "LENGTH('a)" n "2 :: nat"]]
  by (auto simp: drop_bit_zero_iff unat_ucast_up)

lemma writer_u16: "writer (\<lambda>mal d. CBB_add_u16 mal d v) (be_bytes 2 (ucast v))"
  by (rule writer_cong [OF writer_with_base [OF buf_writer_u [of 2 "ucast v"]]])
    (simp_all add: CBB_add_u16_def drop_ucast_zero)

lemma writer_u24: "drop_bit 24 v = 0 \<Longrightarrow> writer (\<lambda>mal d. CBB_add_u24 mal d v) (be_bytes 3 (ucast v))"
  by (rule writer_cong [OF writer_with_base [OF buf_writer_u [of 3 "ucast v"]]])
    (simp_all add: CBB_add_u24_def drop_bit_zero_iff unat_ucast_up)

lemma writer_u32: "writer (\<lambda>mal d. CBB_add_u32 mal d v) (be_bytes 4 (ucast v))"
  by (rule writer_cong [OF writer_with_base [OF buf_writer_u [of 4 "ucast v"]]])
    (simp_all add: CBB_add_u32_def drop_ucast_zero)

lemma writer_u64: "writer (\<lambda>mal d. CBB_add_u64 mal d v) (be_bytes 8 v)"
proof -
  have "drop_bit (8 * 8) v = 0" using drop_ucast_zero [of 64 v] by simp
  then show ?thesis
    by (intro writer_cong [OF writer_with_base [OF buf_writer_u [of 8 v]]]) (simp_all add: CBB_add_u64_def)
qed

lemma writer_bytes: "length xs < SIZE_MOD \<Longrightarrow> writer (\<lambda>mal d. CBB_add_bytes mal d xs) xs"
  by (rule writer_cong [OF writer_with_base [OF buf_writer_bytes [of xs]]]) (simp_all add: CBB_add_bytes_def)

text \<open>A sequence of single bytes: what the loops of the file amount to.\<close>

fun emit :: "platform_malloc \<Rightarrow> nat \<Rightarrow> bytes \<Rightarrow> cbb_state \<Rightarrow> bool \<times> cbb_state" where
  "emit mal d [] st = (True, st)"
| "emit mal d (b # bs) st = and_then (CBB_add_u8 mal d b st) (emit mal d bs)"

lemma and_then_unit [simp]: "and_then r (\<lambda>st. (True, st)) = r"
  by (cases r) (auto simp: and_then_def split: bool.splits)

lemma and_then_assoc: "and_then (and_then r f) g = and_then r (\<lambda>st. and_then (f st) g)"
  by (auto simp: and_then_def split: prod.splits bool.splits)

lemma and_then_cong: "r = r' \<Longrightarrow> (\<And>st. f st = g st) \<Longrightarrow> and_then r f = and_then r' g"
  by (auto simp: and_then_def split: prod.splits bool.splits)

lemma emit_Nil [simp]: "emit mal d [] = (\<lambda>st. (True, st))"
  by (rule ext) simp

lemma emit_append: "emit mal d (xs @ ys) st = and_then (emit mal d xs st) (emit mal d ys)"
  by (induction xs arbitrary: st) (simp_all add: and_then_assoc cong: and_then_cong)

lemma writer_emit: "bs \<noteq> [] \<Longrightarrow> writer (\<lambda>mal d. emit mal d bs) bs"
proof (induction bs)
  case (Cons b bs)
  show ?case
  proof (cases "bs = []")
    case True
    then show ?thesis by (intro writer_cong [OF writer_u8 [of b]]) simp_all
  next
    case False
    then show ?thesis using writer_then [OF writer_u8 [of b] Cons.IH] by simp
  qed
qed simp

text \<open>A flush in front of an operation that flushes anyway changes nothing.\<close>

lemma writer_flush_first: "writer f x \<Longrightarrow> writer (\<lambda>mal d st. and_then (CBB_flush mal d st) (f mal d)) x"
  using writer_then [OF writer_flush, of f x] by simp

section \<open>Base-128 integers\<close>

fun b128_out :: "nat \<Rightarrow> nat \<Rightarrow> bytes" where
  "b128_out n 0 = []"
| "b128_out n (Suc i) =
     (if i \<noteq> 0 then of_nat (n div 128 ^ i mod 128 + 128) else of_nat (n mod 128)) # b128_out n i"

lemma b128_out_hi:
  "b128_out n (Suc k) = map (\<lambda>j. of_nat (n div 128 ^ Suc j mod 128 + 128)) (rev [0..<k]) @ [of_nat (n mod 128)]"
  by (induction k) (simp_all add: of_nat_add)

lemma b128_hi_digits:
  "n < 128 ^ k \<Longrightarrow> (0 < k \<Longrightarrow> 128 ^ (k - 1) \<le> n) \<Longrightarrow>
   b128_hi n = map (\<lambda>j. of_nat (n div 128 ^ j mod 128 + 128)) (rev [0..<k])"
proof (induction k arbitrary: n)
  case (Suc k)
  have "0 < (128 :: nat) ^ k" by simp
  then have n: "0 < n" using Suc.prems(2) by (metis diff_Suc_1 gr0I not_less zero_less_Suc)
  have lo: "0 < k \<Longrightarrow> 128 ^ (k - 1) \<le> n div 128"
  proof -
    assume "0 < k"
    then have "128 ^ (k - 1) * 128 \<le> n" using Suc.prems(2) by (cases k) (simp_all add: mult.commute)
    then show "128 ^ (k - 1) \<le> n div 128" by (simp add: less_eq_div_iff_mult_less_eq)
  qed
  have IH: "b128_hi (n div 128) = map (\<lambda>j. of_nat (n div 128 div 128 ^ j mod 128 + 128)) (rev [0..<k])"
    using Suc.prems(1) by (intro Suc.IH lo) (simp add: less_mult_imp_div_less mult.commute)
  have sh: "rev [0..<Suc k] = map Suc (rev [0..<k]) @ [0]"
    by (simp add: upt_conv_Cons map_Suc_upt rev_map [symmetric] del: upt_Suc)
  show ?case unfolding sh using n IH
    by (simp add: b128_hi_pos div_mult2_eq [symmetric] del: of_nat_add)
qed simp

lemma base128_len_len_bounds:
  "unat v < 128 ^ base128_len_len v \<and> (0 < base128_len_len v \<longrightarrow> 128 ^ (base128_len_len v - 1) \<le> unat v)"
proof (induction v rule: base128_len_len.induct)
  case (1 v)
  show ?case
  proof (cases "0 < v")
    case False
    then have "v = 0" by (simp add: word_greater_zero_iff)
    then show ?thesis by (simp add: base128_len_len.simps)
  next
    case True
    let ?w = "drop_bit 7 v"
    have w: "unat ?w = unat v div 128" by (subst unat_drop_bit_eq) (simp add: drop_bit_eq_div)
    have l: "base128_len_len v = Suc (base128_len_len ?w)" using True by (subst base128_len_len.simps) simp
    note IH = 1 [OF True, unfolded w]
    have "unat v < 128 ^ Suc (base128_len_len ?w)" using IH by (simp add: div_less_iff_less_mult mult.commute)
    moreover have "128 ^ base128_len_len ?w \<le> unat v"
    proof (cases "base128_len_len ?w")
      case 0
      then show ?thesis using True by (simp add: Suc_le_eq unat_gt_0 word_neq_0_conv)
    next
      case (Suc m)
      then show ?thesis using IH by (simp add: less_eq_div_iff_mult_less_eq mult.commute)
    qed
    ultimately show ?thesis by (simp add: l)
  qed
qed

lemma b128_digit: "ucast (drop_bit (7 * i) v) AND 0x7f = (of_nat (unat v div 128 ^ i mod 128) :: byte)"
proof (rule word_unat_eq_iff [THEN iffD2])
  have "unat (ucast (drop_bit (7 * i) v) AND 0x7f :: byte) = unat v div 128 ^ i mod 256 mod 128"
    by (simp only: unat_and_7f unat_ucast_down, subst unat_drop_bit_eq)
      (simp add: drop_bit_eq_div power_mult)
  also have "\<dots> = unat v div 128 ^ i mod 128" by (simp add: mod_mod_cancel)
  finally show "unat (ucast (drop_bit (7 * i) v) AND 0x7f :: byte) = unat (of_nat (unat v div 128 ^ i mod 128) :: byte)"
    using unat_of_nat_byte [of "unat v div 128 ^ i mod 128"] mod_less_divisor [of 128 "unat v div 128 ^ i"] by simp
qed

lemma add_base128_loop_emit: "add_base128_loop mal d v k st = emit mal d (b128_out (unat v) k) st"
proof (induction k arbitrary: st)
  case (Suc k)
  have "n mod 128 < 128" for n :: nat by simp
  note o = or_high_bit [OF this]
  have b: "(if k \<noteq> 0 then (ucast (drop_bit (7 * k) v) AND 0x7f) OR 0x80 else ucast (drop_bit (7 * k) v) AND 0x7f) =
      (if k \<noteq> 0 then of_nat (unat v div 128 ^ k mod 128 + 128) else of_nat (unat v mod 128) :: byte)"
    unfolding b128_digit o by (cases k) (simp_all only: power_0 div_by_1 simp_thms if_True if_False nat.simps)
  show ?case
    unfolding add_base128_loop.simps b128_out.simps emit.simps Let_def b by (rule and_then_cong [OF refl Suc])
qed simp

lemma b128_out_len: "b128_out (unat v) (if base128_len_len v = 0 then 1 else base128_len_len v) = base128_bytes (unat v)"
proof (cases "base128_len_len v")
  case 0
  then have "unat v = 0" using base128_len_len_bounds [of v] by simp
  then show ?thesis using 0 by (simp add: base128_bytes_def)
next
  case (Suc k)
  have b: "unat v < 128 ^ Suc k" "128 ^ k \<le> unat v" using base128_len_len_bounds [of v] Suc by auto
  have "b128_hi (unat v div 128) = map (\<lambda>j. of_nat (unat v div 128 div 128 ^ j mod 128 + 128)) (rev [0..<k])"
  proof (rule b128_hi_digits)
    show "unat v div 128 < 128 ^ k" using b(1) by (simp add: less_mult_imp_div_less mult.commute)
    show "128 ^ (k - 1) \<le> unat v div 128" if "0 < k"
      using b(2) that by (cases k) (simp_all add: less_eq_div_iff_mult_less_eq mult.commute)
  qed
  then show ?thesis by (simp add: Suc b128_out_hi base128_bytes_def div_mult2_eq del: b128_out.simps)
qed

lemma add_base128_integer_emit: "add_base128_integer mal d v st = emit mal d (base128_bytes (unat v)) st"
  using b128_out_len [of v] by (simp add: add_base128_integer_def Let_def add_base128_loop_emit)

lemma writer_base128: "writer (\<lambda>mal d. add_base128_integer mal d v) (base128_bytes (unat v))"
  by (rule writer_cong [OF writer_emit]) (simp_all add: add_base128_integer_emit base128_bytes_def)

end
