(* ===== verification/CBBElements.thy ===== *)
theory CBBElements
  imports CBBWrite
begin

text \<open>
  Operations of \<open>crypto/bytestring/cbb.c\<close> that open a child, under the interface \<open>opener\<close>, and what they
  produce together with a writer of the contents: length-prefixed strings, DER elements, and the DER
  encodings of integers, booleans and octet strings.
\<close>

section \<open>Opening a child\<close>

locale opener =
  fixes op :: "platform_malloc \<Rightarrow> nat \<Rightarrow> cbb_state \<Rightarrow> bool \<times> cbb_state"
    and pre :: bytes and k :: pending
  assumes klen_pos: "0 < klen k"
    and opens: "malloc_sound mal \<Longrightarrow> builds st fs \<Longrightarrow> d < length fs \<Longrightarrow> op mal d st = (True, st') \<Longrightarrow>
      builds st' (append_top (flush_frames d fs) pre @ [(k, [])])"
    and opens_total: "malloc_total mal \<Longrightarrow> builds st fs \<Longrightarrow> growable_state st \<Longrightarrow> d < length fs \<Longrightarrow>
      collapsible (drop (Suc d) fs) \<Longrightarrow> length (body (flush_frames d fs)) + length pre + klen k \<le> 2 ^ 61 \<Longrightarrow>
      \<exists>st'. op mal d st = (True, st') \<and> growable_state st'"
    and opens_keeps: "op mal d st = (True, st') \<Longrightarrow> d < length (chain st) \<Longrightarrow> Suc d < length (chain st')"
    and opens_sticky: "failed st \<Longrightarrow> \<exists>st'. op mal d st = (False, st') \<and> failed st'"
    and opens_poisons: "op mal d st = (False, st') \<Longrightarrow> d < length (chain st) \<Longrightarrow> failed st'"

text \<open>A child starts where its \<open>klen k\<close> placeholder bytes were written.\<close>

lemma builds_open:
  assumes "builds st fs" "base st = Some b" "ok_buf b'" "content b' = body fs @ replicate (klen k) 0" "0 < klen k"
  shows "builds (st\<lparr>base := Some b', chain := chain st @
      [\<lparr>offset = b_len b, pending_len_len = klen k, pending_is_asn1 = (k = Asn1), is_child = True\<rparr>]\<rparr>) (fs @ [(k, [])])"
proof -
  have "ok_buf b" "content b = body fs" using assms(1,2) by (auto simp: builds_def)
  then have "b_len b = length (body fs)" using length_content by metis
  moreover have "wf_frames (fs @ [(k, [])])"
    using buildsD(1,2) [OF assms(1)] assms(5) by (cases fs) (auto simp: wf_frames_def)
  moreover have "k \<noteq> Root" using assms(5) by auto
  ultimately show ?thesis
    using assms(3,4) buildsD(3) [OF assms(1)]
    by (auto simp: builds_def chain_of_append frame_bytes_def)
qed

lemma opened_facts:
  assumes "d < length fs"
  shows "length (append_top (flush_frames d fs) x @ [f]) = Suc (Suc d)"
    "flush_frames (Suc d) (append_top (flush_frames d fs) x @ [f]) = append_top (flush_frames d fs) x @ [f]"
    "append_top (append_top (flush_frames d fs) x @ [(k, c)]) y = append_top (flush_frames d fs) x @ [(k, c @ y)]"
    "flush_frames d (append_top (flush_frames d fs) x @ [(k, c)]) = append_top (flush_frames d fs) (x @ close_frame (k, c))"
    "collapsible (drop (Suc d) (append_top (flush_frames d fs) x @ [(k, c)])) \<longleftrightarrow> closeable k (length c)"
    "drop (Suc (Suc d)) (append_top (flush_frames d fs) x @ [f]) = []"
proof -
  note a = append_flush_facts [OF assms]
  show "length (append_top (flush_frames d fs) x @ [f]) = Suc (Suc d)"
    "drop (Suc (Suc d)) (append_top (flush_frames d fs) x @ [f]) = []"
    "flush_frames (Suc d) (append_top (flush_frames d fs) x @ [f]) = append_top (flush_frames d fs) x @ [f]"
    using a(1) [of x] by (auto simp: flush_frames_top)
  show "append_top (append_top (flush_frames d fs) x @ [(k, c)]) y = append_top (flush_frames d fs) x @ [(k, c @ y)]"
    by (simp add: append_top_def [of "_ @ _"])
  have t: "take (Suc d) (append_top (flush_frames d fs) x @ [(k, c)]) = append_top (flush_frames d fs) x"
    "drop (Suc d) (append_top (flush_frames d fs) x @ [(k, c)]) = [(k, c)]"
    using a(1) [of x] by simp_all
  show "flush_frames d (append_top (flush_frames d fs) x @ [(k, c)]) = append_top (flush_frames d fs) (x @ close_frame (k, c))"
    unfolding flush_frames_def [of d "_ @ _"] t by (simp add: a)
  show "collapsible (drop (Suc d) (append_top (flush_frames d fs) x @ [(k, c)])) \<longleftrightarrow> closeable k (length c)"
    unfolding t by simp
qed

text \<open>Contents written into a fresh child and closed again.\<close>

definition enclose where
  "enclose op wr = (\<lambda>mal d st. and_then (op mal d st) (\<lambda>st. and_then (wr mal (Suc d) st) (CBB_flush mal d)))"

lemma writer_enclose:
  assumes "opener op pre k" "appender wr out" "closeable k (length out)"
  shows "writer (enclose op wr) (pre @ close_frame (k, out))"
proof
  fix mal st fs d st'
  show "builds st' (append_top (flush_frames d fs) (pre @ close_frame (k, out)))"
    if a: "malloc_sound mal" "builds st fs" "d < length fs" "enclose op wr mal d st = (True, st')"
  proof -
    obtain st1 st2 where s: "op mal d st = (True, st1)" "wr mal (Suc d) st1 = (True, st2)" "CBB_flush mal d st2 = (True, st')"
      using a(4) by (auto simp: enclose_def and_then_True)
    note o = opener.opens [OF assms(1) a(1-3) s(1)]
    from appender.appends [OF assms(2) a(1) o opened_facts(1) [OF a(3)] s(2)]
    have "builds st2 (append_top (flush_frames d fs) pre @ [(k, out)])" by (simp add: opened_facts [OF a(3)])
    from flush_builds [OF a(1) this s(3)] show ?thesis by (simp add: opened_facts [OF a(3)])
  qed
  show "\<exists>st'. enclose op wr mal d st = (True, st') \<and> growable_state st'"
    if a: "malloc_total mal" "builds st fs" "growable_state st" "d < length fs" "collapsible (drop (Suc d) fs)"
      "length (body (flush_frames d fs)) + length (pre @ close_frame (k, out)) \<le> 2 ^ 61"
  proof -
    note F = opened_facts [OF a(4)] and ms = malloc_total_sound [OF a(1)]
    let ?B = "append_top (flush_frames d fs) pre"
    have cf: "klen k + length out \<le> length (close_frame (k, out))" by (rule length_close_frame)
    obtain st1 where s1: "op mal d st = (True, st1)" "growable_state st1"
      using opener.opens_total [OF assms(1) a(1-5)] a(6) cf by auto
    note o = opener.opens [OF assms(1) ms a(2,4) s1(1)]
    have "length (body (?B @ [(k, [])])) + length out \<le> 2 ^ 61"
      using a(6) cf by (simp add: F append_flush_facts(4) [OF a(4)] frame_bytes_def)
    then obtain st2 where s2: "wr mal (Suc d) st1 = (True, st2)" "growable_state st2"
      using appender.append_total [OF assms(2) a(1) o s1(2) F(1)] by auto
    from appender.appends [OF assms(2) ms o F(1) s2(1)] have b2: "builds st2 (?B @ [(k, out)])" by (simp add: F)
    have "d < length (?B @ [(k, out)])" by (simp add: F(1) del: length_append)
    moreover have "collapsible (drop (Suc d) (?B @ [(k, out)]))" using F(5) assms(3) by blast
    ultimately have "\<exists>st'. CBB_flush mal d st2 = (True, st') \<and> growable_state st'"
      using flush_total [OF a(1) b2 s2(2)] a(6) by (simp add: F append_flush_facts(4) [OF a(4)])
    then show ?thesis using s1 s2 by (simp add: enclose_def)
  qed
  show "d < length (chain st')" if "enclose op wr mal d st = (True, st')"
    using that flush_keeps by (auto simp: enclose_def and_then_True)
  show "\<exists>st'. enclose op wr mal d st = (False, st') \<and> failed st'" if "failed st"
    using opener.opens_sticky [OF assms(1) that, of mal d] by (auto simp: enclose_def)
  show "failed st'" if e: "enclose op wr mal d st = (False, st')" "d < length (chain st)"
  proof -
    have keeps: "op mal d st = (True, st1) \<Longrightarrow> Suc d < length (chain st1)" for st1
      using opener.opens_keeps [OF assms(1)] e(2) by blast
    have keeps2: "op mal d st = (True, st1) \<Longrightarrow> wr mal (Suc d) st1 = (True, st2) \<Longrightarrow> Suc d < length (chain st2)" for st1 st2
      using keeps appender.append_keeps [OF assms(2)] by blast
    show ?thesis
      using e opener.opens_poisons [OF assms(1)] appender.append_poisons [OF assms(2)] keeps keeps2
      by (fastforce simp: enclose_def and_then_False dest: flush_fails)
  qed
qed

section \<open>Length-prefixed strings\<close>

lemma length_prefixed_True:
  assumes "cbb_add_length_prefixed mal d n st = (True, st')"
  obtains st1 b b1 where "CBB_flush mal d st = (True, st1)" "base st1 = Some b" "cbb_buffer_add mal b n = (True, b1)"
    "st' = st1\<lparr>base := Some (b1\<lparr>b_buf := buf_write (b_buf b1) (b_len b) (replicate n 0)\<rparr>),
       chain := take (Suc d) (chain st1) @ [\<lparr>offset = b_len b, pending_len_len = n, pending_is_asn1 = False, is_child = True\<rparr>]\<rparr>"
  using assms by (auto simp: cbb_add_length_prefixed_def Let_def split: prod.splits bool.splits option.splits)

lemma opener_length_prefixed:
  assumes "0 < n" "n < 9"
  shows "opener (\<lambda>mal d. cbb_add_length_prefixed mal d n) [] (Fixed n)"
proof
  fix mal st fs d st'
  show "builds st' (append_top (flush_frames d fs) [] @ [(Fixed n, [])])"
    if a: "malloc_sound mal" "builds st fs" "d < length fs" "cbb_add_length_prefixed mal d n st = (True, st')"
  proof -
    obtain st1 b b1 where w: "CBB_flush mal d st = (True, st1)" "base st1 = Some b" "cbb_buffer_add mal b n = (True, b1)"
      "st' = st1\<lparr>base := Some (b1\<lparr>b_buf := buf_write (b_buf b1) (b_len b) (replicate n 0)\<rparr>),
       chain := take (Suc d) (chain st1) @ [\<lparr>offset = b_len b, pending_len_len = n, pending_is_asn1 = False, is_child = True\<rparr>]\<rparr>"
      by (rule length_prefixed_True [OF a(4)])
    have b: "builds st1 (flush_frames d fs)" using flush_builds [OF a(1,2) w(1)] .
    then have ob: "ok_buf b" "content b = body (flush_frames d fs)" using w(2) by (auto simp: builds_def)
    have sz: "length (replicate n (0 :: byte)) < SIZE_MOD" using assms by simp
    have bl: "b_len b1 - length (replicate n (0 :: byte)) = b_len b"
      using add_ok [OF a(1) ob(1) _ w(3)] assms by simp
    note r = add_bytes_ok [OF a(1) ob(1) sz _ refl, unfolded length_replicate, OF w(3)]
    have "take (Suc d) (chain st1) = chain st1"
      using buildsD(4) [OF b] length_flush_frames [OF a(3)] by simp
    with builds_open [OF b w(2) r(1), of "Fixed n"] r(2) ob(2) assms(1) show ?thesis
      using bl by (simp add: w(4) append_flush_facts(2) [OF a(3)])
  qed
  show "\<exists>st'. cbb_add_length_prefixed mal d n st = (True, st') \<and> growable_state st'"
    if a: "malloc_total mal" "builds st fs" "growable_state st" "d < length fs" "collapsible (drop (Suc d) fs)"
      "length (body (flush_frames d fs)) + length ([] :: bytes) + klen (Fixed n) \<le> 2 ^ 61"
  proof -
    obtain st1 where st1: "CBB_flush mal d st = (True, st1)" "growable_state st1"
      using flush_total [OF a(1-5)] a(6) by auto
    have "builds st1 (flush_frames d fs)" using flush_builds [OF _ a(2) st1(1)] a(1) by blast
    then obtain b where b: "base st1 = Some b" "ok_buf b" "content b = body (flush_frames d fs)"
      using builds_base by metis
    then have "b_len b + n \<le> 2 ^ 61" using a(6) length_content [OF b(2)] by simp
    then obtain b' where "cbb_buffer_add mal b n = (True, b')" "growable b'"
      using add_total [OF a(1) b(2)] b(1) st1(2) by (auto simp: growable_state_def)
    then show ?thesis using st1 b by (simp add: cbb_add_length_prefixed_def growable_state_def growable_def Let_def)
  qed
  show "Suc d < length (chain st')" if "cbb_add_length_prefixed mal d n st = (True, st')"
    using length_prefixed_True [OF that] flush_keeps by fastforce
  show "\<exists>st'. cbb_add_length_prefixed mal d n st = (False, st') \<and> failed st'" if "failed st"
    using flush_sticky [OF that] that by (simp add: cbb_add_length_prefixed_def)
  show "failed st'" if a: "cbb_add_length_prefixed mal d n st = (False, st')" "d < length (chain st)"
    using a flush_fails [of mal d st] add_fails [of mal]
    by (fastforce simp: cbb_add_length_prefixed_def Let_def failed_iff split: prod.splits bool.splits option.splits)
qed (use assms in auto)

section \<open>DER elements\<close>

text \<open>The identifier octets that \<open>CBB_add_asn1\<close> writes before it opens the child.\<close>

definition add_tag :: "platform_malloc \<Rightarrow> nat \<Rightarrow> tag \<Rightarrow> cbb_state \<Rightarrow> bool \<times> cbb_state" where
  "add_tag mal d t st =
     and_then (CBB_flush mal d st) (\<lambda>st.
       if 0x1f \<le> t AND CBS_ASN1_TAG_NUMBER_MASK
       then and_then (CBB_add_u8 mal d ((ucast (drop_bit 24 t) AND 0xe0) OR 0x1f) st)
              (add_base128_integer mal d (ucast (t AND CBS_ASN1_TAG_NUMBER_MASK)))
       else CBB_add_u8 mal d ((ucast (drop_bit 24 t) AND 0xe0) OR ucast (t AND CBS_ASN1_TAG_NUMBER_MASK)) st)"

lemma add_asn1_via_tag:
  "CBB_add_asn1 mal d t st = and_then (add_tag mal d t st) (\<lambda>st. case base st of
     None \<Rightarrow> (False, st)
   | Some b \<Rightarrow> and_then (CBB_add_u8 mal d 0 st) (\<lambda>st.
       (True, st\<lparr>chain := take (Suc d) (chain st) @
          [\<lparr>offset = b_len b, pending_len_len = 1, pending_is_asn1 = True, is_child = True\<rparr>]\<rparr>)))"
  by (simp only: CBB_add_asn1_def add_tag_def Let_def and_then_assoc)

lemma writer_tag: "writer (\<lambda>mal d. add_tag mal d t) (der_tag_bytes t)"
proof (cases "0x1f \<le> t AND CBS_ASN1_TAG_NUMBER_MASK")
  case True
  let ?w = "ucast (t AND CBS_ASN1_TAG_NUMBER_MASK) :: 64 word" and ?b = "(ucast (drop_bit 24 t) AND 0xe0) OR 0x1f :: byte"
  have "unat ?w = unat (t AND CBS_ASN1_TAG_NUMBER_MASK)" by (rule unat_ucast_up) simp
  then have "der_tag_bytes t = [?b] @ base128_bytes (unat ?w)"
    using True by (simp only: der_tag_bytes_def Let_def if_True append_Cons append_Nil)
  then show ?thesis
    using True by (intro writer_cong [OF writer_flush_first [OF writer_then [OF writer_u8 [of ?b] writer_base128 [of ?w]]]])
      (simp_all only: add_tag_def if_True)
next
  case False
  then show ?thesis
    by (intro writer_cong [OF writer_flush_first [OF writer_u8]]) (simp_all add: add_tag_def der_tag_bytes_def Let_def)
qed

lemma writer_u8_base: "CBB_add_u8 mal d v st = (True, st') \<Longrightarrow> d < length (chain st')"
  using flush_keeps by (fastforce simp: CBB_add_u8_def elim!: with_base_True)

lemma opener_asn1: "opener (\<lambda>mal d. CBB_add_asn1 mal d t) (der_tag_bytes t) Asn1"
proof
  fix mal st fs d st'
  let ?child = "\<lambda>b. \<lparr>offset = b_len b, pending_len_len = 1, pending_is_asn1 = True, is_child = True\<rparr>"
  have cases: thesis if "CBB_add_asn1 mal d t st = (True, st')"
    and "\<And>st1 b st2. add_tag mal d t st = (True, st1) \<Longrightarrow> base st1 = Some b \<Longrightarrow> CBB_add_u8 mal d 0 st1 = (True, st2) \<Longrightarrow>
      st' = st2\<lparr>chain := take (Suc d) (chain st2) @ [?child b]\<rparr> \<Longrightarrow> thesis" for thesis
    using that by (auto simp: add_asn1_via_tag and_then_True split: option.splits)
  show "builds st' (append_top (flush_frames d fs) (der_tag_bytes t) @ [(Asn1, [])])"
    if a: "malloc_sound mal" "builds st fs" "d < length fs" "CBB_add_asn1 mal d t st = (True, st')"
  proof (rule cases [OF a(4)])
    fix st1 b st2
    assume w: "add_tag mal d t st = (True, st1)" "base st1 = Some b" "CBB_add_u8 mal d 0 st1 = (True, st2)"
      "st' = st2\<lparr>chain := take (Suc d) (chain st2) @ [?child b]\<rparr>"
    let ?fs = "append_top (flush_frames d fs) (der_tag_bytes t)"
    have b1: "builds st1 ?fs" using writer.writes [OF writer_tag a(1-3) w(1)] .
    from writer.writes [OF writer_u8 a(1) b1 _ w(3)] have b2: "builds st2 (append_top ?fs [0])"
      using a(3) by (simp add: append_flush_facts)
    then obtain b' where b': "base st2 = Some b'" "ok_buf b'" "content b' = body ?fs @ [0]"
      using builds_base [OF b2] a(3) by (simp add: append_flush_facts) metis
    have "chain st2 = chain st1"
      using buildsD(3) [OF b1] buildsD(3) [OF b2] a(3) by (simp add: append_flush_facts)
    moreover have "take (Suc d) (chain st2) = chain st2"
      using buildsD(4) [OF b2] a(3) by (simp add: append_flush_facts)
    ultimately have "st' = st1\<lparr>base := Some b', chain := chain st1 @
      [\<lparr>offset = b_len b, pending_len_len = klen Asn1, pending_is_asn1 = (Asn1 = Asn1), is_child = True\<rparr>]\<rparr>"
      using w(4) b'(1) by simp
    then show ?thesis using builds_open [OF b1 w(2) b'(2), of Asn1] b'(3) by simp
  qed
  show "\<exists>st'. CBB_add_asn1 mal d t st = (True, st') \<and> growable_state st'"
    if a: "malloc_total mal" "builds st fs" "growable_state st" "d < length fs" "collapsible (drop (Suc d) fs)"
      "length (body (flush_frames d fs)) + length (der_tag_bytes t) + klen Asn1 \<le> 2 ^ 61"
  proof -
    have ms: "malloc_sound mal" using a(1) by blast
    have "length (body (flush_frames d fs)) + length (der_tag_bytes t) \<le> 2 ^ 61" using a(6) by simp
    from writer.total [OF writer_tag a(1-5) this]
    obtain st1 where s1: "add_tag mal d t st = (True, st1)" "growable_state st1" by blast
    have b1: "builds st1 (append_top (flush_frames d fs) (der_tag_bytes t))"
      using writer.writes [OF writer_tag ms a(2,4) s1(1)] .
    then obtain b where b: "base st1 = Some b" by (auto simp: builds_def)
    have "\<exists>st2. CBB_add_u8 mal d 0 st1 = (True, st2) \<and> growable_state st2"
      using writer.total [OF writer_u8 a(1) b1 s1(2), of d] a(4,6) by (simp add: append_flush_facts)
    then show ?thesis using s1 b by (auto simp: add_asn1_via_tag growable_state_def)
  qed
  show "Suc d < length (chain st')" if "CBB_add_asn1 mal d t st = (True, st')"
  proof (rule cases [OF that])
    fix st1 b st2
    assume "CBB_add_u8 mal d 0 st1 = (True, st2)" "st' = st2\<lparr>chain := take (Suc d) (chain st2) @ [?child b]\<rparr>"
    then show ?thesis using writer_u8_base [of mal d 0 st1 st2] by simp
  qed
  show "\<exists>st'. CBB_add_asn1 mal d t st = (False, st') \<and> failed st'" if "failed st"
    using writer.sticky [OF writer_tag that, of mal d t] by (auto simp: add_asn1_via_tag)
  show "failed st'" if a: "CBB_add_asn1 mal d t st = (False, st')" "d < length (chain st)"
    using a writer.poisons [OF writer_tag] writer.keeps [OF writer_tag, of mal d t st] writer.poisons [OF writer_u8]
    by (fastforce simp: add_asn1_via_tag and_then_False failed_iff split: option.splits)
qed simp

lemma der_element_close: "der_tag_bytes t @ close_frame (Asn1, c) = der_element (t, c)"
  by (simp add: der_element_def der_header_def)

lemma writer_element:
  "appender wr c \<Longrightarrow> length c \<le> 0xfffffffe \<Longrightarrow> writer (enclose (\<lambda>mal d. CBB_add_asn1 mal d t) wr) (der_element (t, c))"
  using writer_enclose [OF opener_asn1, of wr c t] by (simp only: der_element_close closeable.simps)

text \<open>Contents written by a sequence of bytes, as all the integer encoders do.\<close>

lemma writer_octet_string:
  "length c \<le> 0xfffffffe \<Longrightarrow> writer (\<lambda>mal d. CBB_add_asn1_octet_string mal d c) (der_element (CBS_ASN1_OCTETSTRING, c))"
  by (rule writer_cong [OF writer_element [OF appender_writer [OF writer_bytes]]])
    (simp_all add: CBB_add_asn1_octet_string_def enclose_def)

lemma writer_bool: "writer (\<lambda>mal d. CBB_add_asn1_bool mal d v) (der_element (CBS_ASN1_BOOLEAN, asn1_bool_bytes v))"
  by (rule writer_cong [OF writer_element [OF appender_writer [OF writer_u8]]])
    (simp_all add: CBB_add_asn1_bool_def enclose_def asn1_bool_bytes_def)

section \<open>Integers\<close>

lemma be_bytes_8: "be_bytes 8 v = map (\<lambda>i. ucast (drop_bit (8 * (7 - i)) v)) [0..<8]"
  by (simp add: eval_nat_numeral upt_rec drop_bit_drop_bit)

lemma and_ff [simp]: "b AND 0xff = (b :: byte)"
proof -
  have "(0xff :: byte) = mask 8" by (simp add: mask_eq_exp_minus_1)
  then have "b AND 0xff = take_bit 8 b" by (simp only: take_bit_eq_mask)
  also have "\<dots> = b" by (rule bit_eqI) (auto simp: bit_simps)
  finally show ?thesis .
qed

lemma uint64_loop_started:
  "add_uint64_loop mal d v is True st =
     (case emit mal d (map (\<lambda>i. ucast (drop_bit (8 * (7 - i)) v)) is) st of (ok, st) \<Rightarrow> (ok, True, st))"
  by (induction "is" arbitrary: st) (auto simp: Let_def and_then_def split: prod.splits bool.splits)

text \<open>Until the first non-zero byte nothing is written; an all-zero value leaves \<open>started\<close> unset.\<close>

lemma strip_zero_Cons:
  assumes "bs \<noteq> [] \<or> b \<noteq> 0"
  shows "strip_sign (0 # b # bs) = (if b = 0 then strip_sign (0 # bs) else if sign_bit b then 0 # b # bs else b # bs)"
proof (cases "b = 0")
  case True
  then obtain c cs where "bs = c # cs" using assms by (cases bs) auto
  then show ?thesis using True by (simp add: redundant_def)
next
  case False
  then show ?thesis by (cases bs) (auto simp: redundant_def)
qed

lemma uint64_loop_unstarted:
  "is \<noteq> [] \<Longrightarrow>
   (case add_uint64_loop mal d v is False st of (False, _, st) \<Rightarrow> (False, st)
    | (True, started, st) \<Rightarrow> if \<not> started then CBB_add_u8 mal d 0 st else (True, st))
   = emit mal d (strip_sign (0 # map (\<lambda>i. ucast (drop_bit (8 * (7 - i)) v)) is)) st"
proof (induction "is" arbitrary: st)
  case (Cons i "is")
  let ?b = "ucast (drop_bit (8 * (7 - i)) v) :: byte"
  let ?bs = "map (\<lambda>i. ucast (drop_bit (8 * (7 - i)) v)) is :: bytes"
  show ?case
  proof (cases "?b = 0")
    case True
    then show ?thesis
    proof (cases "is = []")
      case False
      then have "strip_sign (0 # ?b # ?bs) = strip_sign (0 # ?bs)" using strip_zero_Cons [of ?bs ?b] True by simp
      then show ?thesis using Cons.IH [OF False] True by (simp add: Let_def)
    qed (use True in \<open>simp add: redundant_def\<close>)
  next
    case False
    then have "strip_sign (0 # ?b # ?bs) = (if sign_bit ?b then 0 # ?b # ?bs else ?b # ?bs)"
      using strip_zero_Cons [of ?bs ?b] by simp
    then show ?thesis using False
      by (auto simp: Let_def uint64_loop_started sign_bit_def and_then_def split: prod.splits bool.splits)
  qed
qed simp

lemma uint64_emit:
  "CBB_add_asn1_uint64 mal d v st =
     enclose (\<lambda>mal d. CBB_add_asn1 mal d CBS_ASN1_INTEGER) (\<lambda>mal d. emit mal d (asn1_uint64_bytes v)) mal d st"
proof -
  have "(case add_uint64_loop mal (Suc d) v [0..<8] False s of (False, _, st) \<Rightarrow> (False, st)
      | (True, started, st) \<Rightarrow> and_then (if \<not> started then CBB_add_u8 mal (Suc d) 0 st else (True, st)) f)
    = and_then (emit mal (Suc d) (asn1_uint64_bytes v) s) f" for s f
    unfolding asn1_uint64_bytes_def be_bytes_8 uint64_loop_unstarted [symmetric, of "[0..<8]", simplified]
    by (auto split: prod.splits bool.splits)
  then show ?thesis by (simp only: CBB_add_asn1_uint64_def enclose_def)
qed

lemma length_asn1_int_bytes: "length (asn1_uint64_bytes v) \<le> 9" "length (asn1_int64_bytes v) \<le> 8"
  using length_strip_sign [of "0 # be_bytes 8 v"] length_strip_sign [of "be_bytes 8 v"]
  by (simp_all add: asn1_uint64_bytes_def asn1_int64_bytes_def)

lemma asn1_int_bytes_nonempty: "asn1_uint64_bytes v \<noteq> []" "asn1_int64_bytes v \<noteq> []"
  using length_be_bytes [of 8 v] by (auto simp: asn1_uint64_bytes_def asn1_int64_bytes_def simp del: length_be_bytes)

lemma writer_uint64: "writer (\<lambda>mal d. CBB_add_asn1_uint64 mal d v) (der_element (CBS_ASN1_INTEGER, asn1_uint64_bytes v))"
  using length_asn1_int_bytes [of v]
  by (intro writer_cong [OF writer_element [OF appender_writer [OF writer_emit [OF asn1_int_bytes_nonempty(1) [of v]]]]])
    (simp_all add: uint64_emit)

lemma int64_loop_emit: "add_int64_loop mal d v i st = emit mal d (map (int64_byte v) (rev [0..<Suc i])) st"
  by (induction i arbitrary: st) (auto cong: and_then_cong)

lemma int64_start_strip:
  "sign_bit (int64_byte v i) \<Longrightarrow>
   strip_sign (map (int64_byte v) (rev [0..<Suc i])) = map (int64_byte v) (rev [0..<Suc (int64_start v i)])"
proof (induction i)
  case (Suc i)
  have "redundant (int64_byte v (Suc i)) (int64_byte v i) \<longleftrightarrow>
      int64_byte v (Suc i) = 0xff \<and> int64_byte v i AND 0x80 \<noteq> 0"
    using Suc.prems by (auto simp: redundant_def sign_bit_def)
  then show ?case using Suc by (auto simp: sign_bit_def)
qed simp

lemma be_bytes_8_int64: "be_bytes 8 v = map (int64_byte v) (rev [0..<Suc 7])"
  by (simp add: int64_byte_def eval_nat_numeral upt_rec drop_bit_drop_bit)

lemma sign_int64: "sign_bit (int64_byte v 7) \<longleftrightarrow> sint v < 0"
proof -
  have "sign_bit (int64_byte v 7) \<longleftrightarrow> bit v 63"
    using and_exp_eq_0_iff_not_bit [of "int64_byte v 7" 7] by (simp add: sign_bit_def int64_byte_def bit_simps)
  then show ?thesis using bit_last_iff [of v] by simp
qed

lemma int64_nonneg: "0 \<le> sint v \<Longrightarrow> asn1_uint64_bytes v = asn1_int64_bytes v"
proof -
  assume "0 \<le> sint v"
  then have "redundant 0 (int64_byte v 7)" using sign_int64 [of v] by (simp add: redundant_def)
  moreover have "be_bytes 8 v = int64_byte v 7 # map (int64_byte v) (rev [0..<7])"
    unfolding be_bytes_8_int64 by (simp only: upt_Suc le0 if_True rev_append rev.simps append_Nil append_Cons list.map)
  ultimately show ?thesis by (simp add: asn1_uint64_bytes_def asn1_int64_bytes_def)
qed

lemma writer_int64: "writer (\<lambda>mal d. CBB_add_asn1_int64 mal d v) (der_element (CBS_ASN1_INTEGER, asn1_int64_bytes v))"
proof (cases "0 \<le> sint v")
  case True
  then show ?thesis
    by (intro writer_cong [OF writer_uint64 [of v]]) (simp_all add: CBB_add_asn1_int64_def int64_nonneg)
next
  case False
  then have "asn1_int64_bytes v = map (int64_byte v) (rev [0..<Suc (int64_start v 7)])"
    using sign_int64 [of v] int64_start_strip [of v 7] unfolding asn1_int64_bytes_def be_bytes_8_int64 by simp
  then have "CBB_add_asn1_int64 mal d v st = enclose (\<lambda>mal d. CBB_add_asn1 mal d CBS_ASN1_INTEGER)
      (\<lambda>mal d. emit mal d (asn1_int64_bytes v)) mal d st" for mal d st
    using False by (simp only: CBB_add_asn1_int64_def enclose_def int64_loop_emit if_False)
  then show ?thesis
    using length_asn1_int_bytes [of v]
    by (intro writer_cong [OF writer_element [OF appender_writer [OF writer_emit [OF asn1_int_bytes_nonempty(2) [of v]]]]]) simp_all
qed

section \<open>A whole session\<close>

lemma init_builds:
  assumes "malloc_total mal" "cap \<le> 2 ^ 62"
  obtains st where "CBB_init mal cap = (True, st)" "builds st [(Root, [])]" "growable_state st"
proof -
  obtain p q where m: "OPENSSL_malloc mal cap = Some p" "OPENSSL_malloc mal 32 = Some q"
    using OPENSSL_malloc_total [OF assms] OPENSSL_malloc_total [OF assms(1), of 32] by auto
  have "length p = cap" using OPENSSL_malloc_length [OF malloc_total_sound [OF assms(1)] m(1)] assms(2) by simp
  then show thesis
    using assms(2) m
    by (intro that [OF _ _ ])
      (auto simp: CBB_init_def cbb_init_def CBB_zero_def zero_cbb_def builds_def wf_frames_def frame_bytes_def
        ok_buf_def content_def growable_state_def growable_def)
qed

lemma finish_builds:
  assumes "builds st [(Root, c)]"
  obtains b :: cbb_buffer where "CBB_finish mal 0 True st = (Some (b_buf b, b_len b), CBB_cleanup 0 st)" "take (b_len b) (b_buf b) = c"
proof -
  obtain b where b: "base st = Some b" "content b = c" "\<not> b_error b"
    using builds_base [OF assms] by (auto simp: frame_bytes_def)
  have ch: "chain st = [zero_cbb]" using buildsD(3) [OF assms] by (simp add: zero_cbb_def)
  then have "CBB_flush mal 0 st = (True, st)" using b by (subst CBB_flush.simps) simp
  then show thesis using that [of b] b ch by (simp add: CBB_finish_def zero_cbb_def content_def)
qed

definition build :: "(platform_malloc \<Rightarrow> nat \<Rightarrow> cbb_state \<Rightarrow> bool \<times> cbb_state) \<Rightarrow> platform_malloc \<Rightarrow> nat \<Rightarrow> bytes option" where
  "build wr mal cap =
     (case CBB_init mal cap of
        (False, st) \<Rightarrow> None
      | (True, st) \<Rightarrow>
          (case wr mal 0 st of
             (False, st) \<Rightarrow> None
           | (True, st) \<Rightarrow>
               (case CBB_finish mal 0 True st of
                  (None, st) \<Rightarrow> None
                | (Some (buf, len), st) \<Rightarrow> Some (take len buf))))"

lemma build_writer:
  assumes "writer wr out" "malloc_total mal" "cap \<le> 2 ^ 62" "length out \<le> 2 ^ 61"
  shows "build wr mal cap = Some out"
proof -
  obtain st where st: "CBB_init mal cap = (True, st)" "builds st [(Root, [])]" "growable_state st"
    using init_builds [OF assms(2,3)] .
  have f: "flush_frames 0 [(Root, [])] = [(Root, [])]" "append_top [(Root, [])] out = [(Root, out)]"
    by (simp_all add: flush_frames_def append_top_def)
  obtain st1 where st1: "wr mal 0 st = (True, st1)"
    using writer.total [OF assms(1,2) st(2,3), of 0] assms(4) f by (auto simp: frame_bytes_def)
  have "builds st1 [(Root, out)]"
    using writer.writes [OF assms(1) malloc_total_sound [OF assms(2)] st(2) _ st1] f by simp
  then obtain b :: cbb_buffer where "CBB_finish mal 0 True st1 = (Some (b_buf b, b_len b), CBB_cleanup 0 st1)" "take (b_len b) (b_buf b) = out"
    by (rule finish_builds [where mal = mal])
  then show ?thesis using st(1) st1 by (simp add: build_def)
qed

lemma malloc_total_zeros: "malloc_total (\<lambda>n. Some (replicate n 0))"
  by (simp add: malloc_total_def malloc_sound_def)

section \<open>The interfaces on the code's operations\<close>

interpretation write_bytes: buf_writer
  "\<lambda>mal b. cbb_buffer_add_u mal b (ucast v) 1" "be_bytes 1 (ucast (v :: byte))" for v
  by (rule buf_writer_u) (simp_all add: drop_ucast_zero)

interpretation put_u8: writer "\<lambda>mal d. CBB_add_u8 mal d v" "[v]" for v
  by (rule writer_u8)

interpretation put_tag: writer "\<lambda>mal d. add_tag mal d t" "der_tag_bytes t" for t
  by (rule writer_tag)

interpretation put_int64: writer "\<lambda>mal d. CBB_add_asn1_int64 mal d v"
  "der_element (CBS_ASN1_INTEGER, asn1_int64_bytes v)" for v
  by (rule writer_int64)

interpretation put_uint64: writer "\<lambda>mal d. CBB_add_asn1_uint64 mal d v"
  "der_element (CBS_ASN1_INTEGER, asn1_uint64_bytes v)" for v
  by (rule writer_uint64)

interpretation put_nothing: appender "\<lambda>mal d st. (True, st)" "[]"
  by (rule appender_unit)

interpretation open_asn1: opener "\<lambda>mal d. CBB_add_asn1 mal d t" "der_tag_bytes t" Asn1 for t
  by (rule opener_asn1)

interpretation open_u16: opener CBB_add_u16_length_prefixed "[]" "Fixed 2"
proof -
  have "CBB_add_u16_length_prefixed = (\<lambda>mal d. cbb_add_length_prefixed mal d 2)"
    by (simp add: fun_eq_iff CBB_add_u16_length_prefixed_def)
  then show "opener CBB_add_u16_length_prefixed [] (Fixed 2)" using opener_length_prefixed [of 2] by simp
qed

end
