(* ===== verification/SetOf.thy ===== *)
theory SetOf
  imports CBBElements "HOL-Library.List_Lexorder" "HOL-Library.Multiset"
begin

text \<open>
  \<open>CBB_flush_asn1_set_of\<close> of \<open>crypto/bytestring/cbb.c\<close>, which sorts the elements that were written as
  DER asks of a SET OF, and \<open>CBB_finish_i2d\<close> of \<open>crypto/bytestring/asn1_compat.c\<close>, the bridge to the
  \<open>i2d_*\<close> calling convention.
\<close>

section \<open>The code\<close>

text \<open>\<open>memcmp\<close> as far as it is specified: the sign of its result.\<close>

fun OPENSSL_memcmp :: "bytes \<Rightarrow> bytes \<Rightarrow> nat \<Rightarrow> int" where
  "OPENSSL_memcmp s1 s2 0 = 0"
| "OPENSSL_memcmp s1 s2 (Suc n) =
     (if hd s1 \<noteq> hd s2 then (if hd s1 < hd s2 then - 1 else 1) else OPENSSL_memcmp (tl s1) (tl s2) n)"

definition compare_set_of_element :: "cbs \<Rightarrow> cbs \<Rightarrow> int" where
  "compare_set_of_element a b =
     (let a_len = CBS_len a; b_len = CBS_len b;
          min_len = (if a_len < b_len then a_len else b_len);
          ret = OPENSSL_memcmp (CBS_data a) (CBS_data b) min_len
      in if ret \<noteq> 0 then ret else if a_len = b_len then 0 else if a_len < b_len then - 1 else 1)"

text \<open>\<open>qsort\<close>: a rearrangement that is sorted for the comparison; which one does not matter, as the
  comparison tells different byte strings apart (\<open>compare_eq_iff\<close> below).\<close>

fun insert_by :: "('a \<Rightarrow> 'a \<Rightarrow> int) \<Rightarrow> 'a \<Rightarrow> 'a list \<Rightarrow> 'a list" where
  "insert_by cmp x [] = [x]"
| "insert_by cmp x (y # ys) = (if cmp x y \<le> 0 then x # y # ys else y # insert_by cmp x ys)"

definition qsort :: "('a \<Rightarrow> 'a \<Rightarrow> int) \<Rightarrow> 'a list \<Rightarrow> 'a list" where
  "qsort cmp xs = foldr (insert_by cmp) xs []"

function count_children :: "cbs \<Rightarrow> nat \<Rightarrow> nat option" where
  "count_children cbs n =
     (if CBS_len cbs \<noteq> 0
      then (case CBS_get_any_asn1_element cbs of
              (None, cbs) \<Rightarrow> None
            | (Some _, cbs) \<Rightarrow> count_children cbs (n + 1))
      else Some n)"
  by pat_completeness auto
termination
  by (relation "measure (\<lambda>(cbs, n). length cbs)")
    (auto simp: CBS_get_any_asn1_element_def dest: asn1_element.length_less [OF sym])

declare count_children.simps [simp del]

fun get_children :: "nat \<Rightarrow> cbs \<Rightarrow> cbs list option" where
  "get_children 0 cbs = Some []"
| "get_children (Suc n) cbs =
     (case CBS_get_any_asn1_element cbs of
        (None, cbs) \<Rightarrow> None
      | (Some e, cbs) \<Rightarrow> map_option ((#) (elem e)) (get_children n cbs))"

fun add_children :: "platform_malloc \<Rightarrow> nat \<Rightarrow> cbs list \<Rightarrow> cbb_state \<Rightarrow> bool \<times> cbb_state" where
  "add_children mal d [] st = (True, st)"
| "add_children mal d (c # cs) st = and_then (CBB_add_bytes mal d c st) (add_children mal d cs)"

text \<open>Rewinding a builder to the start of its contents.\<close>

definition rewind :: "nat \<Rightarrow> cbb_state \<Rightarrow> cbb_state" where
  "rewind d st =
     st\<lparr>base := map_option (\<lambda>b. b\<lparr>b_len := offset (chain st ! d) + pending_len_len (chain st ! d)\<rparr>) (base st)\<rparr>"

text \<open>\<open>sizeof(CBS)\<close> is 16 on the app's 64-bit targets.\<close>

definition CBB_flush_asn1_set_of :: "platform_malloc \<Rightarrow> nat \<Rightarrow> cbb_state \<Rightarrow> bool \<times> cbb_state" where
  "CBB_flush_asn1_set_of mal d st =
     and_then (CBB_flush mal d st) (\<lambda>st.
       let cbs = CBS_init (CBB_data d st) (CBB_len d st)
       in case count_children cbs 0 of
            None \<Rightarrow> (False, st)
          | Some num_children \<Rightarrow>
              (if num_children < 2 then (True, st)
               else if (SIZE_MOD - 1) div 16 < num_children then (False, st)
               else (case (OPENSSL_memdup mal cbs, OPENSSL_malloc mal (num_children * 16)) of
                       (Some buf, Some _) \<Rightarrow>
                         (case get_children num_children (CBS_init buf (length cbs)) of
                            None \<Rightarrow> (False, st)
                          | Some children \<Rightarrow>
                              add_children mal d (qsort compare_set_of_element children) (rewind d st))
                     | _ \<Rightarrow> (False, st))))"

text \<open>\<open>outp\<close> is NULL (\<open>None\<close>), or \<open>*outp\<close> is NULL (\<open>Some None\<close>) and receives the buffer, or \<open>*outp\<close>
  points to memory that is overwritten and is left behind the bytes written: the result is the memory
  and how far the pointer moved.\<close>

definition CBB_finish_i2d :: "platform_malloc \<Rightarrow> cbb_state \<Rightarrow> bytes option option \<Rightarrow>
    int \<times> (bytes \<times> nat) option \<times> cbb_state" where
  "CBB_finish_i2d mal st outp =
     (case CBB_finish mal 0 True st of
        (None, st) \<Rightarrow> (- 1, None, CBB_cleanup 0 st)
      | (Some (der, der_len), st) \<Rightarrow>
          (if 2147483647 < der_len then (- 1, None, st)
           else (int der_len,
                 (case outp of
                    None \<Rightarrow> None
                  | Some None \<Rightarrow> Some (der, 0)
                  | Some (Some dst) \<Rightarrow> Some (buf_write dst 0 (take der_len der), der_len)),
                 st)))"

section \<open>The comparison is the lexicographic order\<close>

lemma compare_Cons:
  "compare_set_of_element (x # xs) (y # ys) =
     (if x = y then compare_set_of_element xs ys else if x < y then - 1 else 1)"
  by (auto simp: compare_set_of_element_def CBS_len_def CBS_data_def Let_def)

lemma compare_Nil:
  "compare_set_of_element [] [] = 0" "compare_set_of_element [] (y # ys) = - 1" "compare_set_of_element (x # xs) [] = 1"
  by (auto simp: compare_set_of_element_def CBS_len_def CBS_data_def Let_def)

lemma compare_lex:
  "compare_set_of_element xs ys = (if xs = ys then 0 else if xs < ys then - 1 else 1)"
  by (induction xs ys rule: list_induct2') (auto simp: compare_Cons compare_Nil)

lemma compare_eq_iff: "compare_set_of_element xs ys = 0 \<longleftrightarrow> xs = ys"
  by (simp add: compare_lex)

lemma compare_le_iff: "compare_set_of_element xs ys \<le> 0 \<longleftrightarrow> xs \<le> ys"
  by (auto simp: compare_lex less_le)

lemma qsort_compare: "qsort compare_set_of_element xs = sort xs"
proof -
  have "insert_by compare_set_of_element x ys = insort x ys" for x ys
    by (induction ys) (auto simp: compare_le_iff)
  then have "insert_by compare_set_of_element = insort" by (intro ext)
  then show ?thesis by (simp add: qsort_def sort_key_def)
qed

section \<open>Splitting the contents\<close>

definition encodings :: "(tag \<times> bytes) list \<Rightarrow> bytes list" where
  "encodings tcs = map der_element tcs"

lemma get_element_der:
  assumes "length c < 2 ^ 32"
  shows "CBS_get_any_asn1_element (der_element (t, c) @ r) =
    (Some \<lparr>elem = der_element (t, c), elem_tag = t, header_len = length (der_header t (length c)), ber_found = False\<rparr>, r)"
  using element_complete [OF assms] by (simp add: CBS_get_any_asn1_element_def)

lemma get_element_sound:
  assumes "CBS_get_any_asn1_element s = (Some e, r)"
  shows "\<exists>tc. length (snd tc) < 2 ^ 32 \<and> elem e = der_element tc \<and> s = der_element tc @ r"
proof -
  have a: "cbs_get_any_asn1_element s False = (Some e, r)" using assms by (simp add: CBS_get_any_asn1_element_def)
  then have nb: "\<not> ber_found e" by (cases rule: element_cases) auto
  obtain c where c: "length c < 2 ^ 32" "elem e = der_element (elem_tag e, c)" using element_sound [OF a nb] by blast
  with element_consumes [OF a] have "s = der_element (elem_tag e, c) @ r" by simp
  with c show ?thesis by (intro exI [of _ "(elem_tag e, c)"]) simp
qed

lemma count_children_encodings:
  "\<forall>tc\<in>set tcs. length (snd tc) < 2 ^ 32 \<Longrightarrow> count_children (concat (encodings tcs)) n = Some (n + length tcs)"
proof (induction tcs arbitrary: n)
  case Nil
  then show ?case by (subst count_children.simps) (simp add: encodings_def CBS_len_def)
next
  case (Cons tc tcs)
  obtain t c where tc: "tc = (t, c)" by fastforce
  then have "length c < 2 ^ 32" using Cons.prems by simp
  then show ?case using Cons
    by (subst count_children.simps) (simp add: encodings_def CBS_len_def tc get_element_der)
qed

lemma count_children_sound:
  "count_children cbs n = Some m \<Longrightarrow> \<exists>tcs. (\<forall>tc\<in>set tcs. length (snd tc) < 2 ^ 32) \<and> cbs = concat (encodings tcs) \<and> m = n + length tcs"
proof (induction cbs n rule: count_children.induct)
  case (1 cbs n)
  show ?case
  proof (cases "cbs = []")
    case True
    then show ?thesis using "1.prems" by (subst (asm) count_children.simps) (auto simp: CBS_len_def encodings_def intro!: exI [of _ "[]"])
  next
    case False
    then have l: "CBS_len cbs \<noteq> 0" by (simp add: CBS_len_def)
    with "1.prems" obtain e r where g: "CBS_get_any_asn1_element cbs = (Some e, r)" "count_children r (n + 1) = Some m"
      by (subst (asm) count_children.simps) (auto split: prod.splits option.splits)
    from "1.IH" [OF l g(1) [symmetric] refl g(2)] obtain tcs where
      t: "\<forall>tc\<in>set tcs. length (snd tc) < 2 ^ 32" "r = concat (encodings tcs)" "m = n + 1 + length tcs" by blast
    from get_element_sound [OF g(1)] obtain tc where "length (snd tc) < 2 ^ 32" "cbs = der_element tc @ r" by blast
    with t show ?thesis by (intro exI [of _ "tc # tcs"]) (simp add: encodings_def)
  qed
qed

lemma get_children_encodings:
  "\<forall>tc\<in>set tcs. length (snd tc) < 2 ^ 32 \<Longrightarrow> get_children (length tcs) (concat (encodings tcs)) = Some (encodings tcs)"
  by (induction tcs) (auto simp: encodings_def get_element_der)

section \<open>The frame that is sorted\<close>

lemma rewind_builds:
  assumes "builds st (fs @ [(k, c)])"
  shows "builds (rewind (length fs) st) (fs @ [(k, [])])"
proof -
  obtain b where b: "base st = Some b" "ok_buf b" "content b = body fs @ frame_bytes (k, c)"
    using builds_base [OF assms] by auto
  have ch: "chain st = chain_of 0 (fs @ [(k, c)])" using buildsD(3) [OF assms] .
  have nth: "chain st ! length fs = \<lparr>offset = length (body fs), pending_len_len = klen k, pending_is_asn1 = (k = Asn1), is_child = (k \<noteq> Root)\<rparr>"
    unfolding ch using chain_of_nth [of "length fs" "fs @ [(k, c)]" 0] by simp
  have l: "length (body fs) + klen k \<le> b_len b"
    using arg_cong [OF b(3), of length] length_content [OF b(2)] by (simp add: frame_bytes_def)
  have "take (length (body fs) + klen k) (content b) = body fs @ replicate (klen k) 0"
    by (simp add: b(3) frame_bytes_def)
  then have "content (b\<lparr>b_len := length (body fs) + klen k\<rparr>) = body fs @ replicate (klen k) 0"
    using l by (simp add: content_def min_def)
  moreover have "ok_buf (b\<lparr>b_len := length (body fs) + klen k\<rparr>)" using b(2) l by (auto simp: ok_buf_def)
  moreover have "wf_frames (fs @ [(k, [])])" using buildsD(1) [OF assms] by (cases fs) (auto simp: wf_frames_def)
  moreover have "rewind (length fs) st = st\<lparr>base := Some (b\<lparr>b_len := length (body fs) + klen k\<rparr>)\<rparr>"
    by (simp add: rewind_def nth b(1))
  ultimately show ?thesis
    using ch by (auto simp: builds_def chain_of_append frame_bytes_def)
qed

lemma data_builds:
  assumes "builds st (fs @ [(k, c)])"
  shows "CBS_init (CBB_data (length fs) st) (CBB_len (length fs) st) = c"
proof -
  obtain b where b: "base st = Some b" "ok_buf b" "content b = body fs @ frame_bytes (k, c)"
    using builds_base [OF assms] by auto
  have nth: "chain st ! length fs = \<lparr>offset = length (body fs), pending_len_len = klen k, pending_is_asn1 = (k = Asn1), is_child = (k \<noteq> Root)\<rparr>"
    unfolding buildsD(3) [OF assms] using chain_of_nth [of "length fs" "fs @ [(k, c)]" 0] by simp
  have l: "b_len b = length (body fs) + klen k + length c"
    using arg_cong [OF b(3), of length] length_content [OF b(2)] by (simp add: frame_bytes_def)
  have "drop (length (body fs) + klen k) (content b) = c" by (simp add: b(3) frame_bytes_def)
  then show ?thesis using b(1) l by (simp add: CBS_init_def CBB_data_def CBB_len_def nth content_def)
qed

lemma add_children_writer: "cs \<noteq> [] \<Longrightarrow> \<forall>c\<in>set cs. length c < SIZE_MOD \<Longrightarrow> writer (\<lambda>mal d. add_children mal d cs) (concat cs)"
proof (induction cs)
  case (Cons c cs)
  have nil: "add_children mal d [] = (\<lambda>st. (True, st))" for mal d by (rule ext) simp
  have w: "writer (\<lambda>mal d. CBB_add_bytes mal d c) c" using Cons.prems by (intro writer_bytes) simp
  show ?case
  proof (cases "cs = []")
    case True
    then show ?thesis by (intro writer_cong [OF w]) (simp_all add: nil)
  next
    case False
    with writer_then [OF w Cons.IH] Cons.prems show ?thesis by simp
  qed
qed simp

lemma length_concat_mem: "x \<in> set xs \<Longrightarrow> length x \<le> length (concat xs)"
  by (induction xs) auto

lemma length_concat_sort: "length (concat (sort xs)) = length (concat (xs :: bytes list))"
proof -
  have "sum_list (map length (sort xs)) = sum_list (map length xs)"
    by (metis mset_map mset_sort sum_mset_sum_list)
  then show ?thesis by (simp add: length_concat)
qed

lemma short_sorted: "length xs < 2 \<Longrightarrow> sort xs = (xs :: bytes list)"
  by (cases xs) (auto simp: Suc_less_eq2 numeral_2_eq_2)

text \<open>Success means that the contents were elements, and leaves them sorted.\<close>

lemma top_frame: "d < length fs \<Longrightarrow> \<exists>gs k c. flush_frames d fs = gs @ [(k, c)] \<and> length gs = d"
proof -
  assume "d < length fs"
  then have l: "length (flush_frames d fs) = Suc d" by (rule length_flush_frames)
  then obtain gs x where "flush_frames d fs = gs @ [x]" by (metis length_0_conv nat.simps(3) rev_exhaust)
  then show ?thesis using l by (cases x) auto
qed

lemma set_of_sound:
  assumes "malloc_sound mal" "builds st fs" "d < length fs" "CBB_flush_asn1_set_of mal d st = (True, st')"
    and "flush_frames d fs = gs @ [(k, c)]"
  obtains tcs where "\<forall>tc\<in>set tcs. length (snd tc) < 2 ^ 32" "c = concat (encodings tcs)"
    "builds st' (gs @ [(k, concat (sort (encodings tcs)))])"
proof -
  obtain st1 where f: "CBB_flush mal d st = (True, st1)"
    and rest: "(let cbs = CBS_init (CBB_data d st1) (CBB_len d st1)
       in case count_children cbs 0 of
            None \<Rightarrow> (False, st1)
          | Some num_children \<Rightarrow>
              (if num_children < 2 then (True, st1)
               else if (SIZE_MOD - 1) div 16 < num_children then (False, st1)
               else (case (OPENSSL_memdup mal cbs, OPENSSL_malloc mal (num_children * 16)) of
                       (Some buf, Some _) \<Rightarrow>
                         (case get_children num_children (CBS_init buf (length cbs)) of
                            None \<Rightarrow> (False, st1)
                          | Some children \<Rightarrow>
                              add_children mal d (qsort compare_set_of_element children) (rewind d st1))
                     | _ \<Rightarrow> (False, st1)))) = (True, st')"
    using assms(4) unfolding CBB_flush_asn1_set_of_def and_then_True by blast
  have b1: "builds st1 (gs @ [(k, c)])" using flush_builds [OF assms(1,2) f] assms(5) by simp
  have d: "length gs = d" using length_flush_frames [OF assms(3)] assms(5) by simp
  have data: "CBS_init (CBB_data d st1) (CBB_len d st1) = c" using data_builds [OF b1] d by simp
  obtain m where m: "count_children c 0 = Some m" using rest unfolding data Let_def by (auto split: option.splits)
  then obtain tcs where t: "\<forall>tc\<in>set tcs. length (snd tc) < 2 ^ 32" "c = concat (encodings tcs)" "m = length tcs"
    using count_children_sound by force
  have clen: "length c < SIZE_MOD"
  proof -
    obtain b where "ok_buf b" "content b = body (gs @ [(k, c)])" using builds_base [OF b1] by metis
    then show ?thesis using length_content [of b] by (auto simp: ok_buf_def frame_bytes_def)
  qed
  show thesis
  proof (cases "m < 2")
    case True
    then have "st' = st1" using rest unfolding data Let_def m by simp
    moreover have "sort (encodings tcs) = encodings tcs" using True t(3) by (intro short_sorted) (simp add: encodings_def)
    ultimately show thesis using that [OF t(1,2)] b1 t(2) by simp
  next
    case False
    from rest False obtain buf chs where "OPENSSL_memdup mal c = Some buf" "get_children m (CBS_init buf (length c)) = Some chs"
      and a: "add_children mal d (qsort compare_set_of_element chs) (rewind d st1) = (True, st')"
      unfolding data Let_def m by (auto split: option.splits if_splits)
    moreover from this(1) have "buf = c" using OPENSSL_memdup_eq [OF assms(1)] clen by blast
    ultimately have "chs = encodings tcs"
      using get_children_encodings [OF t(1)] t(2,3) by (simp add: CBS_init_def)
    then have a: "add_children mal d (sort (encodings tcs)) (rewind d st1) = (True, st')"
      using a by (simp add: qsort_compare)
    have "length (sort (encodings tcs)) = m" using t(3) by (simp add: encodings_def)
    then have ne: "sort (encodings tcs) \<noteq> []" using False by (metis list.size(3) zero_less_numeral)
    have "\<forall>x\<in>set (sort (encodings tcs)). length x < SIZE_MOD"
      using length_concat_mem [of _ "encodings tcs"] clen t(2) by fastforce
    note w = add_children_writer [OF ne this]
    have r: "builds (rewind d st1) (gs @ [(k, [])])" using rewind_builds [OF b1] d by simp
    have "flush_frames d (gs @ [(k, [])]) = gs @ [(k, [])]" using d by (intro flush_frames_top) auto
    then have "builds st' (append_top (gs @ [(k, [])]) (concat (sort (encodings tcs))))"
      using writer.writes [OF w assms(1) r _ a] d by simp
    then show thesis using that [OF t(1,2)] by (simp add: append_top_def)
  qed
qed

lemma set_of_total:
  assumes "malloc_total mal" "builds st fs" "growable_state st" "d < length fs" "collapsible (drop (Suc d) fs)"
    and "flush_frames d fs = gs @ [(k, concat (encodings tcs))]" "length (body (flush_frames d fs)) \<le> 2 ^ 58"
    and "\<forall>tc\<in>set tcs. length (snd tc) < 2 ^ 32"
  shows "\<exists>st'. CBB_flush_asn1_set_of mal d st = (True, st')"
proof -
  let ?c = "concat (encodings tcs)"
  obtain st1 where f: "CBB_flush mal d st = (True, st1)" "growable_state st1"
    using flush_total [OF assms(1-5)] assms(7) by auto
  have ms: "malloc_sound mal" using assms(1) by blast
  have b1: "builds st1 (gs @ [(k, ?c)])" using flush_builds [OF ms assms(2) f(1)] assms(6) by simp
  have d: "length gs = d" using length_flush_frames [OF assms(4)] assms(6) by simp
  have data: "CBS_init (CBB_data d st1) (CBB_len d st1) = ?c" using data_builds [OF b1] d by simp
  have m: "count_children ?c 0 = Some (length tcs)" using count_children_encodings [OF assms(8), of 0] by simp
  have cl: "length ?c \<le> 2 ^ 58" using assms(6,7) by (simp add: frame_bytes_def)
  have "length xs \<le> length (concat xs)" if "[] \<notin> set xs" for xs :: "bytes list"
    using that
  proof (induction xs)
    case (Cons x xs)
    then show ?case by (cases x) auto
  qed simp
  moreover have "[] \<notin> set (encodings tcs)" by (auto simp: encodings_def dest: sym)
  ultimately have "length (encodings tcs) \<le> length ?c" by blast
  then have lt: "length tcs \<le> 2 ^ 58" using cl by (simp add: encodings_def)
  show ?thesis
  proof (cases "length tcs < 2")
    case True
    then show ?thesis by (simp add: CBB_flush_asn1_set_of_def f(1) Let_def data m)
  next
    case False
    then have cne: "length ?c \<noteq> 0" by (cases tcs) (auto simp: encodings_def)
    obtain p where p: "OPENSSL_malloc mal (length ?c) = Some p" using OPENSSL_malloc_total [OF assms(1)] cl by fastforce
    then have "OPENSSL_memdup mal ?c = Some (?c @ drop (length ?c) p)" using cne by (simp add: OPENSSL_memdup_def)
    moreover from this have "?c @ drop (length ?c) p = ?c" using OPENSSL_memdup_eq [OF ms] cl by fastforce
    ultimately have buf: "OPENSSL_memdup mal ?c = Some ?c" by simp
    obtain q where q: "OPENSSL_malloc mal (length tcs * 16) = Some q" using OPENSSL_malloc_total [OF assms(1), of "length tcs * 16"] lt by auto
    have "length (sort (encodings tcs)) = length tcs" by (simp add: encodings_def)
    then have ne: "sort (encodings tcs) \<noteq> []" using False by (metis list.size(3) zero_less_numeral)
    have "\<forall>x\<in>set (sort (encodings tcs)). length x < SIZE_MOD"
      using length_concat_mem [of _ "encodings tcs"] cl by fastforce
    note w = add_children_writer [OF ne this]
    have r: "builds (rewind d st1) (gs @ [(k, [])])" using rewind_builds [OF b1] d by simp
    have g: "growable_state (rewind d st1)" using f(2) by (auto simp: growable_state_def rewind_def growable_def)
    have ff: "flush_frames d (gs @ [(k, [])]) = gs @ [(k, [])]" using d by (intro flush_frames_top) auto
    have "length (body (gs @ [(k, [])])) + length (concat (sort (encodings tcs))) \<le> 2 ^ 61"
      using assms(6,7) by (simp add: frame_bytes_def length_concat_sort)
    then obtain st' where "add_children mal d (sort (encodings tcs)) (rewind d st1) = (True, st')"
      using writer.total [OF w assms(1) r g, of d] d ff by auto
    then show ?thesis
      using False lt by (simp add: CBB_flush_asn1_set_of_def f(1) Let_def data [unfolded CBS_init_def] m buf q CBS_init_def
          get_children_encodings [OF assms(8)] qsort_compare)
  qed
qed

end
