(* ===== verification/StackProps.thy ===== *)
theory StackProps
  imports StackSpec SetOf
begin

text \<open>
  The properties of stacks: the operations on the list of elements, the flag \<open>sorted\<close> and searching, and copies.
\<close>

section \<open>Removing by index\<close>

text \<open>The interface that the operations which remove an element rest on.\<close>

locale indexed_list =
  fixes ok :: "'s \<Rightarrow> bool" and els :: "'s \<Rightarrow> 'a list" and del :: "'s \<Rightarrow> nat \<Rightarrow> 'a \<times> 's"
  assumes del_law: "ok s \<Longrightarrow> k < length (els s) \<Longrightarrow> fst (del s k) = els s ! k \<and> ok (snd (del s k)) \<and> els (snd (del s k)) = take k (els s) @ drop (k + 1) (els s)"
begin

lemma del_first: "ok s \<Longrightarrow> els s = x # xs \<Longrightarrow> fst (del s 0) = x \<and> ok (snd (del s 0)) \<and> els (snd (del s 0)) = xs"
  using del_law [of s 0] by simp

lemma del_last: "ok s \<Longrightarrow> els s = xs @ [x] \<Longrightarrow> fst (del s (length xs)) = x \<and> ok (snd (del s (length xs))) \<and> els (snd (del s (length xs))) = xs"
  using del_law [of s "length xs"] by simp

lemma del_found:
  assumes "ok s" "find (\<lambda>j. els s ! j = x) [0..<length (els s)] = Some k"
  shows "fst (del s k) = x \<and> ok (snd (del s k)) \<and> els (snd (del s k)) = remove1 x (els s)"
proof -
  have k: "k < length (els s)" "els s ! k = x" "\<forall>j<k. els s ! j \<noteq> x" using assms(2) unfolding find_upt_Some by simp_all
  then have s: "els s = take k (els s) @ x # drop (k + 1) (els s)" using id_take_nth_drop [OF k(1)] by simp
  have "x \<notin> set (take k (els s))" using k by (auto simp: in_set_conv_nth)
  then have "remove1 x (take k (els s) @ x # drop (k + 1) (els s)) = take k (els s) @ drop (k + 1) (els s)" by (simp add: remove1_append)
  then have "remove1 x (els s) = take k (els s) @ drop (k + 1) (els s)" using s by metis
  then show ?thesis using del_law [OF assms(1) k(1)] k(2) by simp
qed

end

definition stack_delete :: "stack \<Rightarrow> nat \<Rightarrow> ptr \<times> stack" where
  "stack_delete s k = map_prod id the (sk_delete (Some s) k)"

interpretation stk: indexed_list stack_ok elems stack_delete
proof
  fix s k
  assume "stack_ok s" "k < length (elems s)"
  from delete_ok [OF this] show "fst (stack_delete s k) = elems s ! k \<and> stack_ok (snd (stack_delete s k)) \<and>
      elems (snd (stack_delete s k)) = take k (elems s) @ drop (k + 1) (elems s)"
    by (auto simp: stack_delete_def)
qed

lemma delete_Some: "sk_delete (Some s) k = (fst (stack_delete s k), Some (snd (stack_delete s k)))"
  by (simp add: stack_delete_def sk_delete_def Let_def)

text \<open>When an element cannot be added: the array is full up to one place, and an array of twice the length, or if that cannot be addressed
  one of one place more, is too large or \<open>OPENSSL_malloc\<close> does not have it.\<close>

definition grown_alloc :: "stack \<Rightarrow> nat" where
  "grown_alloc s = (if num_alloc s * 2 * ptr_size < SIZE_MOD then num_alloc s * 2 else num_alloc s + 1)"

definition out_of_memory :: "ptr_malloc \<Rightarrow> stack \<Rightarrow> bool" where
  "out_of_memory mal s \<longleftrightarrow> num_alloc s \<le> length (elems s) + 1 \<and>
     (SIZE_MOD \<le> grown_alloc s * ptr_size \<or> mal (grown_alloc s * ptr_size) = None)"

lemma szmul_fits: "szmul n ptr_size div ptr_size = n \<longleftrightarrow> n * ptr_size < SIZE_MOD"
  by (auto simp: szmul_def)

lemma realloc_None: "realloc_ptrs mal d n = None \<longleftrightarrow> mal n = None"
  by (cases "mal n") (simp_all add: realloc_ptrs_def Let_def)

lemma grow_fails:
  assumes "stack_ok s"
  shows "sk_grow mal s = None \<longleftrightarrow> out_of_memory mal s"
proof -
  have n: "szadd (stack_num s) 1 = length (elems s) + 1" using stack_okD(1,3) [OF assms] by simp
  have inv: "stack_num s < num_alloc s" "num_alloc s * ptr_size < SIZE_MOD" using assms by (simp_all add: stack_ok_def)
  have two: "szmul (num_alloc s) 2 = num_alloc s * 2" "szadd (num_alloc s) 1 = num_alloc s + 1" using inv(2) by simp_all
  have fits: "szmul m ptr_size = m * ptr_size" if "m * ptr_size < SIZE_MOD" for m using that by simp
  show ?thesis
    unfolding sk_grow_def Let_def n two out_of_memory_def grown_alloc_def using inv fits
    by (cases "num_alloc s * 2 * ptr_size < SIZE_MOD") (simp_all add: szmul_fits realloc_None option.case_eq_if)
qed

lemma insert_cases:
  assumes "ptr_malloc_sound mal" "stack_ok s"
  shows "if out_of_memory mal s then sk_insert mal (Some s) p k = (0, Some s)
    else \<exists>s'. sk_insert mal (Some s) p k = (length (elems s) + 1, Some s') \<and> stack_ok s' \<and> elems s' = take k (elems s) @ p # drop k (elems s)"
proof (cases "sk_grow mal s")
  case None
  then show ?thesis using grow_fails [OF assms(2), of mal] by (simp add: sk_insert_def)
next
  case (Some s1)
  obtain m r where i: "sk_insert mal (Some s) p k = (m, r)" by fastforce
  have "stack_num s1 = stack_num s" using grow_ok [OF assms Some] by simp
  then have "m \<noteq> 0" using i Some stack_okD(3) [OF assms(2)] by (auto simp: sk_insert_def Let_def)
  then show ?thesis using sk_insert_ok [OF assms i] i Some grow_fails [OF assms(2), of mal] by auto
qed

lemma pop_ok:
  assumes "stack_ok s"
  shows "\<exists>s'. sk_pop (Some s) = (if elems s = [] then 0 else last (elems s), Some s') \<and> stack_ok s' \<and> elems s' = butlast (elems s)"
proof (cases "elems s" rule: rev_cases)
  case (snoc xs x)
  then have "stack_num s - 1 = length xs" "stack_num s \<noteq> 0" using stack_okD(1) [OF assms] by simp_all
  then show ?thesis using stk.del_last [OF assms snoc] snoc delete_Some [of s "length xs"] by (simp add: sk_pop_def)
qed (use assms stack_okD(1) [OF assms] in \<open>simp add: sk_pop_def\<close>)

lemma shift_ok:
  assumes "stack_ok s"
  shows "\<exists>s'. sk_shift (Some s) = (if elems s = [] then 0 else hd (elems s), Some s') \<and> stack_ok s' \<and> elems s' = tl (elems s)"
proof (cases "elems s")
  case (Cons x xs)
  then show ?thesis using stk.del_first [OF assms Cons] stack_okD(1) [OF assms] delete_Some by (simp add: sk_shift_def)
qed (use assms stack_okD(1) [OF assms] in \<open>simp add: sk_shift_def\<close>)

lemma delete_ptr_ok:
  assumes "stack_ok s"
  shows "\<exists>s'. sk_delete_ptr (Some s) p = (if p \<in> set (elems s) then p else 0, Some s') \<and> stack_ok s' \<and> elems s' = remove1 p (elems s)"
proof (cases "first_from (\<lambda>x. x = p) s 0")
  case None
  then have "p \<notin> set (elems s)" unfolding first_from_elems [OF assms] by (auto simp: find_None_iff in_set_conv_nth)
  then show ?thesis using None assms by (simp add: sk_delete_ptr_def remove1_idem)
next
  case (Some i)
  then have f: "find (\<lambda>j. elems s ! j = p) [0..<length (elems s)] = Some i" unfolding first_from_elems [OF assms] .
  then have "p \<in> set (elems s)" by (auto simp: find_upt_Some)
  then show ?thesis using stk.del_found [OF assms f] Some delete_Some by (simp add: sk_delete_ptr_def)
qed

text \<open>C20. Refinement: a stack is the list of its elements. A push appends the element and returns the new length, an insertion puts it at its
  index, or at the end. Both fail, with 0 and the stack as it was, exactly if the array is full up to one place and there is no memory
  for the larger one: twice as many places, or one more if twice as many cannot be addressed. Pop and
  shift take the last and the first element and return NULL from an empty stack; \<open>sk_delete_ptr\<close> removes the
  first instance of a pointer, and \<open>sk_value\<close> reads an element or NULL.\<close>

theorem stack_refines_list:
  assumes "ptr_malloc_sound mal" "stack_ok s"
  shows "(if out_of_memory mal s then sk_push mal (Some s) p = (0, Some s)
      else \<exists>s'. sk_push mal (Some s) p = (length (elems s) + 1, Some s') \<and> stack_ok s' \<and> elems s' = elems s @ [p]) \<and>
    (if out_of_memory mal s then sk_insert mal (Some s) p k = (0, Some s)
      else \<exists>s'. sk_insert mal (Some s) p k = (length (elems s) + 1, Some s') \<and> stack_ok s' \<and> elems s' = take k (elems s) @ p # drop k (elems s)) \<and>
    (\<exists>s'. sk_pop (Some s) = (if elems s = [] then 0 else last (elems s), Some s') \<and> stack_ok s' \<and> elems s' = butlast (elems s)) \<and>
    (\<exists>s'. sk_shift (Some s) = (if elems s = [] then 0 else hd (elems s), Some s') \<and> stack_ok s' \<and> elems s' = tl (elems s)) \<and>
    (\<exists>s'. sk_delete_ptr (Some s) p = (if p \<in> set (elems s) then p else 0, Some s') \<and> stack_ok s' \<and> elems s' = remove1 p (elems s)) \<and>
    sk_num (Some s) = length (elems s) \<and> sk_value (Some s) k = (if k < length (elems s) then elems s ! k else 0)"
proof -
  have n: "stack_num s = length (elems s)" using stack_okD(1) [OF assms(2)] by simp
  have "sk_push mal (Some s) p = sk_insert mal (Some s) p (length (elems s))" using n by (simp add: sk_push_def sk_num_def)
  then have "if out_of_memory mal s then sk_push mal (Some s) p = (0, Some s)
      else \<exists>s'. sk_push mal (Some s) p = (length (elems s) + 1, Some s') \<and> stack_ok s' \<and> elems s' = elems s @ [p]"
    using insert_cases [OF assms, of p "length (elems s)"] by (cases "out_of_memory mal s") simp_all
  then show ?thesis
    using insert_cases [OF assms, of p k] pop_ok [OF assms(2)] shift_ok [OF assms(2)] delete_ptr_ok [OF assms(2)] value_ok [OF assms(2)] n
    by (intro conjI) (simp_all add: sk_num_def)
qed

text \<open>A small stack, made with memory that never runs out.\<close>

definition zero_mal :: ptr_malloc where
  "zero_mal n = Some (replicate (n div ptr_size) 0)"

lemma zero_mal_sound: "ptr_malloc_sound zero_mal"
  by (auto simp: ptr_malloc_sound_def zero_mal_def)

definition small_stack :: stack where
  "small_stack = \<lparr>stack_num = 2, stack_data = [5, 3, 0, 0], stack_sorted = False, num_alloc = 4, stack_comp = 1\<rparr>"

lemma small_stack_ok: "stack_ok small_stack" "elems small_stack = [5, 3]"
  by (simp_all add: stack_ok_def elems_def small_stack_def)

lemma stack_refines_list_witness:
  "(\<exists>s'. sk_push zero_mal (Some small_stack) 7 = (3, Some s') \<and> elems s' = [5, 3, 7]) \<and>
   (\<exists>s'. sk_delete_ptr (Some small_stack) 5 = (5, Some s') \<and> elems s' = [3])"
proof -
  have "\<not> out_of_memory zero_mal small_stack" by (simp add: out_of_memory_def grown_alloc_def small_stack_def elems_def zero_mal_def)
  then show ?thesis
    using stack_refines_list [OF zero_mal_sound small_stack_ok(1), of 7 0] stack_refines_list [OF zero_mal_sound small_stack_ok(1), of 5 0]
    unfolding small_stack_ok(2) by auto
qed

section \<open>The flag and the search\<close>







lemma dup_ok:
  assumes "ptr_malloc_sound mal" "stack_ok s" "sk_dup mal (Some s) = Some s'"
  shows "stack_ok s' \<and> elems s' = elems s \<and> stack_comp s' = stack_comp s \<and> stack_sorted s' = stack_sorted s"
  using assms mal_length [OF assms(1)] by (auto simp: sk_dup_def stack_ok_def elems_def split: option.splits)








definition by_value :: call_cmp where
  "by_value c x y = int x - int y"


definition pushed_stack :: stack where
  "pushed_stack = the (snd (sk_push zero_mal (snd (sk_push zero_mal (sk_new zero_mal 1) 5)) 3))"

definition sorted_stack :: stack where
  "sorted_stack = the (sk_sort qsort by_value (Some pushed_stack))"

lemma four_zeros: "replicate 4 (0 :: nat) = [0, 0, 0, 0]"
  by (simp add: eval_nat_numeral)

lemma pushed_stack: "pushed_stack = \<lparr>stack_num = 2, stack_data = [5, 3, 0, 0], stack_sorted = False, num_alloc = 4, stack_comp = 1\<rparr>"
  by (simp add: pushed_stack_def sk_push_def sk_insert_def sk_grow_def sk_new_def zero_mal_def sk_num_def four_zeros szadd_def)

lemma sorted_stack: "sorted_stack = \<lparr>stack_num = 2, stack_data = [3, 5, 0, 0], stack_sorted = True, num_alloc = 4, stack_comp = 1\<rparr>"
  by (simp add: sorted_stack_def pushed_stack sk_sort_def qsort_def by_value_def)



text \<open>Replacing an element leaves the flag alone, and then the binary search misses an element that is there.\<close>

lemma set_breaks_search:
  "\<exists>s'. sk_set (Some sorted_stack) 0 9 = (9, Some s') \<and> elems s' = [9, 5] \<and> sk_is_sorted (Some s') \<and> sk_find by_value (Some s') 5 = None"
  by (simp add: sorted_stack sk_set_def elems_def sk_is_sorted_def sk_find_def by_value_def bsearch.simps Let_def)

section \<open>Deep copies\<close>

text \<open>What the code relies on: a copy is a new element or NULL, and freeing an element frees it only. \<open>live\<close> is what is
  allocated.\<close>

definition copies_ok :: "('w \<Rightarrow> ptr multiset) \<Rightarrow> (ptr \<Rightarrow> 'w \<Rightarrow> ptr \<times> 'w) \<Rightarrow> (ptr \<Rightarrow> 'w \<Rightarrow> 'w) \<Rightarrow> bool" where
  "copies_ok live copy_elem free_elem \<longleftrightarrow>
     (\<forall>p w. live (snd (copy_elem p w)) = (if fst (copy_elem p w) = 0 then live w else add_mset (fst (copy_elem p w)) (live w))) \<and>
     (\<forall>q w. live (free_elem q w) = live w - {#q#})"

definition non_null :: "ptr list \<Rightarrow> ptr multiset" where
  "non_null xs = mset (filter (\<lambda>x. x \<noteq> 0) xs)"

lemma non_null_simps [simp]: "non_null [] = {#}" "non_null (x # xs) = (if x = 0 then non_null xs else add_mset x (non_null xs))"
    "non_null (xs @ ys) = non_null xs + non_null ys"
  by (simp_all add: non_null_def)

lemma free_all:
  assumes "copies_ok live copy_elem free_elem" "i \<le> length d" "live w = M + non_null (take i d)"
  shows "live (foldl (\<lambda>w j. if d ! j \<noteq> 0 then free_elem (d ! j) w else w) w [0..<i]) = M"
proof -
  have "live (foldl (\<lambda>w j. if d ! j \<noteq> 0 then free_elem (d ! j) w else w) w [0..<k]) = M + (non_null (take i d) - non_null (take k d))"
    if "k \<le> i" for k
    using that
  proof (induction k)
    case (Suc k)
    have t: "take (Suc k) d = take k d @ [d ! k]" using Suc.prems assms(2) by (simp add: take_Suc_conv_app_nth)
    have "take i d = take k d @ d ! k # drop (Suc k) (take i d)" using Suc.prems assms(2) id_take_nth_drop [of k "take i d"] by (simp add: min_def)
    then have "non_null (take i d) = non_null (take k d) + (non_null [d ! k] + non_null (drop (Suc k) (take i d)))"
      by (metis append_Cons append_Nil non_null_simps(3))
    then show ?case using Suc t assms(1) by (simp add: copies_ok_def)
  qed (simp add: assms(3))
  from this [of i] show ?thesis by simp
qed

lemma copy_loop_ok:
  assumes "copies_ok live copy_elem free_elem"
  shows "n \<le> length d \<Longrightarrow> i \<le> n \<Longrightarrow> live w = M + non_null (take i d) \<Longrightarrow>
    (case copy_loop copy_elem free_elem d i n w of
       (None, w') \<Rightarrow> live w' = M
     | (Some d', w') \<Rightarrow> length d' = length d \<and> live w' = M + non_null (take n d') \<and> (\<forall>j<n. d' ! j = 0 \<longleftrightarrow> d ! j = 0))"
proof (induction "n - i" arbitrary: i d w)
  case 0
  then show ?case by (subst copy_loop.simps) simp
next
  case (Suc m)
  then have i: "i < n" "i < length d" by simp_all
  have m: "m = n - (i + 1)" using Suc.hyps(2) by simp
  show ?case
  proof (cases "d ! i = 0")
    case True
    then have "live w = M + non_null (take (i + 1) d)" using Suc.prems(3) i by (simp add: take_Suc_conv_app_nth)
    from Suc.hyps(1) [OF m Suc.prems(1) _ this] show ?thesis using True i by (subst copy_loop.simps) simp
  next
    case False
    obtain q w1 where q: "copy_elem (d ! i) w = (q, w1)" by fastforce
    have lw: "live w1 = (if q = 0 then live w else add_mset q (live w))" using assms q unfolding copies_ok_def by (metis fst_conv snd_conv)
    have step: "copy_loop copy_elem free_elem d i n w =
      (if q = 0 then (None, foldl (\<lambda>w j. if d[i := q] ! j \<noteq> 0 then free_elem (d[i := q] ! j) w else w) w1 [0..<i])
       else copy_loop copy_elem free_elem (d[i := q]) (i + 1) n w1)"
      using False i q by (subst copy_loop.simps) (simp add: Let_def)
    show ?thesis
    proof (cases "q = 0")
      case True
      then have "live w1 = M + non_null (take i (d[i := q]))" using lw Suc.prems(3) by simp
      from free_all [OF assms _ this] True i show ?thesis unfolding step by simp
    next
      case nz: False
      have "take (i + 1) (d[i := q]) = take i d @ [q]" using i by (simp add: take_Suc_conv_app_nth)
      then have "live w1 = M + non_null (take (i + 1) (d[i := q]))" using nz lw Suc.prems(3) by simp
      from Suc.hyps(1) [OF m _ _ this] Suc.prems(1) i have
        IH: "case copy_loop copy_elem free_elem (d[i := q]) (i + 1) n w1 of (None, w') \<Rightarrow> live w' = M
          | (Some d', w') \<Rightarrow> length d' = length (d[i := q]) \<and> live w' = M + non_null (take n d') \<and> (\<forall>j<n. d' ! j = 0 \<longleftrightarrow> d[i := q] ! j = 0)"
        by simp
      have "d[i := q] ! j = 0 \<longleftrightarrow> d ! j = 0" for j using nz False by (cases "j = i") (simp_all add: nth_list_update i)
      then show ?thesis using IH nz unfolding step by (auto split: prod.splits option.splits)
    qed
  qed
qed

text \<open>C21. A deep copy is all or nothing: if it fails, every copy that was made has been freed and nothing else; if it
  succeeds, the new stack has as many elements, NULL where the old one has NULL, and what has been allocated is
  exactly its other elements.\<close>

theorem deep_copy_all_or_nothing:
  assumes "ptr_malloc_sound mal" "stack_ok s" "copies_ok live copy_elem free_elem"
    and "sk_deep_copy mal copy_elem free_elem (Some s) w = (r, w')"
  shows "case r of
      None \<Rightarrow> live w' = live w
    | Some s' \<Rightarrow> stack_ok s' \<and> live w' = live w + non_null (elems s') \<and> length (elems s') = length (elems s) \<and>
        (\<forall>i<length (elems s). elems s' ! i = 0 \<longleftrightarrow> elems s ! i = 0)"
proof (cases "sk_dup mal (Some s)")
  case None
  then show ?thesis using assms(4) by (simp add: sk_deep_copy_def split: option.splits)
next
  case (Some t)
  have t: "stack_ok t" "elems t = elems s" using dup_ok [OF assms(1,2) Some] by simp_all
  note len = stack_okD [OF t(1)]
  have "case copy_loop copy_elem free_elem (stack_data t) 0 (stack_num t) w of
       (None, w') \<Rightarrow> live w' = live w
     | (Some d', w') \<Rightarrow> length d' = length (stack_data t) \<and> live w' = live w + non_null (take (stack_num t) d') \<and>
         (\<forall>j < stack_num t. d' ! j = 0 \<longleftrightarrow> stack_data t ! j = 0)"
    by (rule copy_loop_ok [OF assms(3)]) (use len in simp_all)
  moreover have "length (elems s) = stack_num t" "\<And>i. i < stack_num t \<Longrightarrow> elems s ! i = stack_data t ! i" using len t(2) by simp_all
  ultimately show ?thesis
    using assms(4) Some t(1) by (auto simp: sk_deep_copy_def stack_ok_def elems_def split: prod.splits option.splits)
qed

lemma deep_copy_all_or_nothing_witness:
  "fst (sk_deep_copy zero_mal (\<lambda>p w. if p = 3 then (0, w) else (p + 10, add_mset (p + 10) w)) (\<lambda>q w. w - {#q#}) (Some small_stack) {#8#}) = None \<and>
   snd (sk_deep_copy zero_mal (\<lambda>p w. if p = 3 then (0, w) else (p + 10, add_mset (p + 10) w)) (\<lambda>q w. w - {#q#}) (Some small_stack) {#8#}) = {#8#}"
proof -
  let ?c = "\<lambda>p w. if p = 3 then (0, w) else (p + 10, add_mset (p + 10 :: ptr) w)" and ?f = "\<lambda>q w. w - {#q :: ptr#}"
  let ?r = "sk_deep_copy zero_mal ?c ?f (Some small_stack) {#8#}"
  have c: "copies_ok (\<lambda>w. w) ?c ?f" by (simp add: copies_ok_def)
  have "sk_dup zero_mal (Some small_stack) = Some small_stack"
    by (simp add: sk_dup_def zero_mal_def small_stack_def four_zeros)
  then have n: "fst ?r = None"
    by (simp add: sk_deep_copy_def small_stack_def copy_loop.simps)
  have "?r = (None, snd ?r)" using n by (simp add: prod_eq_iff)
  from deep_copy_all_or_nothing [OF zero_mal_sound small_stack_ok(1) c this] n show ?thesis by simp
qed

end
