(* ===== verification/Lhash.thy ===== *)
theory Lhash
  imports Prelude
begin

text \<open>
  \<open>crypto/lhash/lhash.c\<close>: hash tables of pointers with chains of linked items. Addresses are numbers, 0 is NULL; the items
  are a memory from addresses, in the state with the table. \<open>call_hash_func\<close> and \<open>call_cmp_func\<close> are parameters, \<open>hashf\<close>
  and \<open>cmp\<close>, on the address of the function and the arguments. What \<open>OPENSSL_malloc\<close> returns for an item is an
  argument, and \<open>mal\<close> says for which sizes it gives an array. A loop over a chain that does not end is
  \<open>None\<close>.
\<close>

type_synonym addr = nat
type_synonym call_hash = "addr \<Rightarrow> addr \<Rightarrow> 32 word"
type_synonym call_compare = "addr \<Rightarrow> addr \<Rightarrow> addr \<Rightarrow> int"

record lhash_item =
  item_data :: addr
  item_next :: addr
  item_hash :: "32 word"

type_synonym item_mem = "addr \<Rightarrow> lhash_item"

record lhash =
  num_items :: nat
  buckets :: "addr list"
  num_buckets :: nat
  callback_depth :: nat
  lh_comp :: addr
  lh_hash :: addr
  lh_mem :: item_mem

abbreviation (input) kMinNumBuckets :: nat where "kMinNumBuckets \<equiv> 16"
abbreviation (input) kMaxAverageChainLength :: nat where "kMaxAverageChainLength \<equiv> 2"
abbreviation (input) kMinAverageChainLength :: nat where "kMinAverageChainLength \<equiv> 1"
abbreviation (input) UINT_MAX32 :: nat where "UINT_MAX32 \<equiv> 4294967295"
abbreviation (input) item_ptr_size :: nat where "item_ptr_size \<equiv> 8"
abbreviation (input) lhash_size :: nat where "lhash_size \<equiv> 48"

definition OPENSSL_lh_new :: "(nat \<Rightarrow> bool) \<Rightarrow> addr \<Rightarrow> addr \<Rightarrow> item_mem \<Rightarrow> lhash option" where
  "OPENSSL_lh_new mal hash_fn cmp_fn m =
     (if \<not> mal lhash_size then None
      else if \<not> mal (item_ptr_size * kMinNumBuckets) then None
      else Some \<lparr>num_items = 0, buckets = replicate kMinNumBuckets 0, num_buckets = kMinNumBuckets, callback_depth = 0,
                 lh_comp = cmp_fn, lh_hash = hash_fn, lh_mem = m\<rparr>)"

definition OPENSSL_lh_num_items :: "lhash \<Rightarrow> nat" where
  "OPENSSL_lh_num_items lh = num_items lh"

section \<open>Finding\<close>

text \<open>A pointer to a pointer to an item: an element of \<open>buckets\<close>, or the \<open>next\<close> of an item.\<close>

datatype link_slot = Bucket nat | Next addr

fun read_slot :: "lhash \<Rightarrow> link_slot \<Rightarrow> addr" where
  "read_slot lh (Bucket i) = buckets lh ! i"
| "read_slot lh (Next x) = item_next (lh_mem lh x)"

fun write_slot :: "link_slot \<Rightarrow> addr \<Rightarrow> lhash \<Rightarrow> lhash" where
  "write_slot (Bucket i) v lh = lh\<lparr>buckets := (buckets lh)[i := v]\<rparr>"
| "write_slot (Next x) v lh = lh\<lparr>lh_mem := (lh_mem lh)(x := (lh_mem lh x)\<lparr>item_next := v\<rparr>)\<rparr>"

partial_function (option) find_loop :: "(addr \<Rightarrow> bool) \<Rightarrow> lhash \<Rightarrow> link_slot \<Rightarrow> link_slot option" where
  "find_loop equals lh ret =
     (let cur = read_slot lh ret
      in if cur = 0 then Some ret
         else if equals (item_data (lh_mem lh cur)) then Some ret
         else find_loop equals lh (Next cur))"

definition get_next_ptr_and_hash :: "call_hash \<Rightarrow> call_compare \<Rightarrow> lhash \<Rightarrow> addr \<Rightarrow> (32 word \<times> link_slot) option" where
  "get_next_ptr_and_hash hashf cmp lh data =
     (let h = hashf (lh_hash lh) data
      in case find_loop (\<lambda>d. cmp (lh_comp lh) d data = 0) lh (Bucket (unat h mod num_buckets lh)) of
           None \<Rightarrow> None | Some ret \<Rightarrow> Some (h, ret))"

definition get_next_ptr_by_key :: "lhash \<Rightarrow> 'k \<Rightarrow> 32 word \<Rightarrow> ('k \<Rightarrow> addr \<Rightarrow> int) \<Rightarrow> link_slot option" where
  "get_next_ptr_by_key lh key key_hash cmp_key =
     find_loop (\<lambda>d. cmp_key key d = 0) lh (Bucket (unat key_hash mod num_buckets lh))"

definition data_at :: "lhash \<Rightarrow> link_slot \<Rightarrow> addr" where
  "data_at lh p = (if read_slot lh p = 0 then 0 else item_data (lh_mem lh (read_slot lh p)))"

definition OPENSSL_lh_retrieve :: "call_hash \<Rightarrow> call_compare \<Rightarrow> lhash \<Rightarrow> addr \<Rightarrow> addr option" where
  "OPENSSL_lh_retrieve hashf cmp lh data =
     (case get_next_ptr_and_hash hashf cmp lh data of None \<Rightarrow> None | Some (h, p) \<Rightarrow> Some (data_at lh p))"

definition OPENSSL_lh_retrieve_key :: "lhash \<Rightarrow> 'k \<Rightarrow> 32 word \<Rightarrow> ('k \<Rightarrow> addr \<Rightarrow> int) \<Rightarrow> addr option" where
  "OPENSSL_lh_retrieve_key lh key key_hash cmp_key =
     (case get_next_ptr_by_key lh key key_hash cmp_key of None \<Rightarrow> None | Some p \<Rightarrow> Some (data_at lh p))"

section \<open>Resizing\<close>

text \<open>The items of one chain go to the front of their new chains.\<close>

partial_function (option) rebucket_chain :: "nat \<Rightarrow> addr \<Rightarrow> item_mem \<times> addr list \<Rightarrow> (item_mem \<times> addr list) option" where
  "rebucket_chain n cur st =
     (if cur = 0 then Some st
      else
        (let (m, nb) = st; new_bucket = unat (item_hash (m cur)) mod n; next = item_next (m cur);
             m = m(cur := (m cur)\<lparr>item_next := nb ! new_bucket\<rparr>)
         in rebucket_chain n next (m, nb[new_bucket := cur])))"

fun rebucket_all :: "nat \<Rightarrow> addr list \<Rightarrow> item_mem \<times> addr list \<Rightarrow> (item_mem \<times> addr list) option" where
  "rebucket_all n [] st = Some st"
| "rebucket_all n (b # bs) st = (case rebucket_chain n b st of None \<Rightarrow> None | Some st \<Rightarrow> rebucket_all n bs st)"

definition lh_rebucket :: "(nat \<Rightarrow> bool) \<Rightarrow> lhash \<Rightarrow> nat \<Rightarrow> lhash option" where
  "lh_rebucket mal lh new_num_buckets =
     (let alloc_size = szmul item_ptr_size new_num_buckets
      in if alloc_size div item_ptr_size \<noteq> new_num_buckets then Some lh
         else if \<not> mal alloc_size then Some lh
         else (case rebucket_all new_num_buckets (take (num_buckets lh) (buckets lh)) (lh_mem lh, replicate new_num_buckets 0) of
                 None \<Rightarrow> None
               | Some (m, nb) \<Rightarrow> Some (lh\<lparr>buckets := nb, num_buckets := new_num_buckets, lh_mem := m\<rparr>)))"

definition lh_maybe_resize :: "(nat \<Rightarrow> bool) \<Rightarrow> lhash \<Rightarrow> lhash option" where
  "lh_maybe_resize mal lh =
     (if 0 < callback_depth lh then Some lh
      else
        (let avg_chain_length = num_items lh div num_buckets lh
         in if kMaxAverageChainLength < avg_chain_length
            then
              (let new_num_buckets = szmul (num_buckets lh) 2
               in if num_buckets lh < new_num_buckets then lh_rebucket mal lh new_num_buckets else Some lh)
            else if avg_chain_length < kMinAverageChainLength \<and> kMinNumBuckets < num_buckets lh
            then
              (let new_num_buckets = num_buckets lh div 2;
                   new_num_buckets = (if new_num_buckets < kMinNumBuckets then kMinNumBuckets else new_num_buckets)
               in lh_rebucket mal lh new_num_buckets)
            else Some lh))"

section \<open>Inserting and deleting\<close>

text \<open>The results: whether the call succeeded, \<open>*old_data\<close>, and the table.\<close>

definition OPENSSL_lh_insert ::
    "call_hash \<Rightarrow> call_compare \<Rightarrow> (nat \<Rightarrow> bool) \<Rightarrow> addr option \<Rightarrow> lhash \<Rightarrow> addr \<Rightarrow> (bool \<times> addr \<times> lhash) option" where
  "OPENSSL_lh_insert hashf cmp mal item lh data =
     (case get_next_ptr_and_hash hashf cmp lh data of
        None \<Rightarrow> None
      | Some (h, next_ptr) \<Rightarrow>
          (let cur = read_slot lh next_ptr
           in if cur \<noteq> 0
              then Some (True, item_data (lh_mem lh cur), lh\<lparr>lh_mem := (lh_mem lh)(cur := (lh_mem lh cur)\<lparr>item_data := data\<rparr>)\<rparr>)
              else
                (case item of
                   None \<Rightarrow> Some (False, 0, lh)
                 | Some x \<Rightarrow>
                     (let lh = lh\<lparr>lh_mem := (lh_mem lh)(x := \<lparr>item_data = data, item_next = 0, item_hash = h\<rparr>)\<rparr>;
                          lh = write_slot next_ptr x lh;
                          lh = lh\<lparr>num_items := szadd (num_items lh) 1\<rparr>
                      in case lh_maybe_resize mal lh of None \<Rightarrow> None | Some lh \<Rightarrow> Some (True, 0, lh)))))"

definition OPENSSL_lh_delete :: "call_hash \<Rightarrow> call_compare \<Rightarrow> (nat \<Rightarrow> bool) \<Rightarrow> lhash \<Rightarrow> addr \<Rightarrow> (addr \<times> lhash) option" where
  "OPENSSL_lh_delete hashf cmp mal lh data =
     (case get_next_ptr_and_hash hashf cmp lh data of
        None \<Rightarrow> None
      | Some (h, next_ptr) \<Rightarrow>
          (let item = read_slot lh next_ptr
           in if item = 0 then Some (0, lh)
              else
                (let lh = write_slot next_ptr (item_next (lh_mem lh item)) lh;
                     ret = item_data (lh_mem lh item);
                     lh = lh\<lparr>num_items := num_items lh - 1\<rparr>
                 in case lh_maybe_resize mal lh of None \<Rightarrow> None | Some lh \<Rightarrow> Some (ret, lh))))"

section \<open>Visiting all\<close>

text \<open>The callback acts on the table and on the rest of the state.\<close>

partial_function (option) doall_chain :: "(addr \<Rightarrow> lhash \<times> 'w \<Rightarrow> (lhash \<times> 'w) option) \<Rightarrow> addr \<Rightarrow> lhash \<times> 'w \<Rightarrow> (lhash \<times> 'w) option" where
  "doall_chain func cur st =
     (if cur = 0 then Some st
      else
        (let next = item_next (lh_mem (fst st) cur)
         in case func (item_data (lh_mem (fst st) cur)) st of None \<Rightarrow> None | Some st \<Rightarrow> doall_chain func next st))"

partial_function (option) doall_buckets :: "(addr \<Rightarrow> lhash \<times> 'w \<Rightarrow> (lhash \<times> 'w) option) \<Rightarrow> nat \<Rightarrow> lhash \<times> 'w \<Rightarrow> (lhash \<times> 'w) option" where
  "doall_buckets func i st =
     (if i < num_buckets (fst st)
      then (case doall_chain func (buckets (fst st) ! i) st of None \<Rightarrow> None | Some st \<Rightarrow> doall_buckets func (i + 1) st)
      else Some st)"

definition OPENSSL_lh_doall_arg ::
    "(nat \<Rightarrow> bool) \<Rightarrow> (addr \<Rightarrow> lhash \<times> 'w \<Rightarrow> (lhash \<times> 'w) option) \<Rightarrow> lhash \<Rightarrow> 'w \<Rightarrow> (lhash \<times> 'w) option" where
  "OPENSSL_lh_doall_arg mal func lh w =
     (let lh = (if callback_depth lh < UINT_MAX32 then lh\<lparr>callback_depth := callback_depth lh + 1\<rparr> else lh)
      in case doall_buckets func 0 (lh, w) of
           None \<Rightarrow> None
         | Some (lh, w) \<Rightarrow>
             (let lh = (if callback_depth lh < UINT_MAX32 then lh\<lparr>callback_depth := callback_depth lh - 1\<rparr> else lh)
              in case lh_maybe_resize mal lh of None \<Rightarrow> None | Some lh \<Rightarrow> Some (lh, w)))"

end
