(* ===== verification/LhashSpec.thy ===== *)
theory LhashSpec
  imports Lhash "HOL-Library.Multiset"
begin

text \<open>
  The chains of a hash table as the lists of the addresses of their items, what the loops over a chain do, and that resizing
  keeps the items.
\<close>

section \<open>Chains\<close>

fun item_chain :: "item_mem \<Rightarrow> addr \<Rightarrow> addr list \<Rightarrow> bool" where
  "item_chain m p [] \<longleftrightarrow> p = 0"
| "item_chain m p (x # xs) \<longleftrightarrow> p = x \<and> x \<noteq> 0 \<and> item_chain m (item_next (m x)) xs"

lemma chain_cong: "\<forall>x\<in>set xs. item_next (m' x) = item_next (m x) \<Longrightarrow> item_chain m' p xs \<longleftrightarrow> item_chain m p xs"
  by (induction xs arbitrary: p) auto

lemma chain_upd [simp]: "x \<notin> set xs \<Longrightarrow> item_chain (m(x := it)) p xs \<longleftrightarrow> item_chain m p xs"
  by (rule chain_cong) auto

lemma chain_nonzero: "item_chain m p xs \<Longrightarrow> 0 \<notin> set xs"
  by (induction xs arbitrary: p) auto

text \<open>The address that a chain has at an index, and the slot that it is read from.\<close>

definition addr_at :: "addr list \<Rightarrow> nat \<Rightarrow> addr" where
  "addr_at xs k = (if k < length xs then xs ! k else 0)"

definition slot_at :: "link_slot \<Rightarrow> addr list \<Rightarrow> nat \<Rightarrow> link_slot" where
  "slot_at sl xs k = (if k = 0 then sl else Next (xs ! (k - 1)))"

lemma chain_head: "item_chain m p xs \<Longrightarrow> p = addr_at xs 0"
  by (cases xs) (auto simp: addr_at_def)

lemma chain_next:
  "item_chain m p xs \<Longrightarrow> k < length xs \<Longrightarrow> item_next (m (xs ! k)) = addr_at xs (k + 1)"
proof (induction xs arbitrary: p k)
  case (Cons x xs)
  then show ?case using chain_head [of m "item_next (m x)" xs] by (cases k) (auto simp: addr_at_def)
qed simp

lemma read_slot_at:
  assumes "item_chain (lh_mem lh) (read_slot lh sl) xs" "k \<le> length xs"
  shows "read_slot lh (slot_at sl xs k) = addr_at xs k"
  using assms chain_head [OF assms(1)] chain_next [OF assms(1), of "k - 1"] by (cases k) (simp_all add: slot_at_def)

text \<open>The search stops at the first item that is equal, or at the end.\<close>

definition first_match :: "(addr \<Rightarrow> bool) \<Rightarrow> item_mem \<Rightarrow> addr list \<Rightarrow> nat" where
  "first_match equals m xs = length (takeWhile (\<lambda>x. \<not> equals (item_data (m x))) xs)"

lemma find_loop_stops:
  "item_chain (lh_mem lh) (read_slot lh sl) xs \<Longrightarrow> find_loop equals lh sl = Some (slot_at sl xs (first_match equals (lh_mem lh) xs))"
proof (induction xs arbitrary: sl)
  case Nil
  then show ?case by (subst find_loop.simps) (simp add: first_match_def slot_at_def)
next
  case (Cons x xs)
  then have x: "read_slot lh sl = x" "x \<noteq> 0" "item_chain (lh_mem lh) (read_slot lh (Next x)) xs" by simp_all
  show ?case
  proof (cases "equals (item_data (lh_mem lh x))")
    case True
    then show ?thesis using x by (subst find_loop.simps) (simp add: first_match_def slot_at_def)
  next
    case False
    have s: "slot_at (Next x) xs k = slot_at sl (x # xs) (Suc k)" for k by (cases k) (simp_all add: slot_at_def)
    show ?thesis using x(1,2) False Cons.IH [OF x(3)] by (subst find_loop.simps) (simp add: first_match_def s Let_def)
  qed
qed

lemma first_match_props:
  "first_match equals m xs \<le> length xs"
  "first_match equals m xs < length xs \<Longrightarrow> equals (item_data (m (xs ! first_match equals m xs)))"
  "first_match equals m xs < length xs \<longleftrightarrow> (\<exists>x\<in>set xs. equals (item_data (m x)))"
proof -
  show "first_match equals m xs \<le> length xs" by (simp add: first_match_def length_takeWhile_le)
  show "first_match equals m xs < length xs \<Longrightarrow> equals (item_data (m (xs ! first_match equals m xs)))"
    using nth_length_takeWhile [of "\<lambda>x. \<not> equals (item_data (m x))" xs] by (simp add: first_match_def)
  show "first_match equals m xs < length xs \<longleftrightarrow> (\<exists>x\<in>set xs. equals (item_data (m x)))"
  proof
    assume "first_match equals m xs < length xs"
    then show "\<exists>x\<in>set xs. equals (item_data (m x))"
      using nth_length_takeWhile [of "\<lambda>x. \<not> equals (item_data (m x))" xs] by (auto simp: first_match_def)
  next
    assume "\<exists>x\<in>set xs. equals (item_data (m x))"
    then show "first_match equals m xs < length xs"
      unfolding first_match_def by (induction xs) auto
  qed
qed

text \<open>Writing to a slot redirects the chain from there on.\<close>

lemma chain_redirect:
  "item_chain m p xs \<Longrightarrow> distinct xs \<Longrightarrow> 0 < k \<Longrightarrow> k \<le> length xs \<Longrightarrow> xs ! (k - 1) \<notin> set ys \<Longrightarrow> item_chain m q ys \<Longrightarrow>
     item_chain (m(xs ! (k - 1) := (m (xs ! (k - 1)))\<lparr>item_next := q\<rparr>)) p (take k xs @ ys)"
proof (induction xs arbitrary: p k)
  case (Cons x xs)
  show ?case
  proof (cases "k = 1")
    case True
    then show ?thesis using Cons.prems chain_cong [of ys "m(x := (m x)\<lparr>item_next := q\<rparr>)" m q] by (simp add: fun_upd_def)
  next
    case False
    then obtain j where j: "k = Suc (Suc j)" using Cons.prems(3) by (metis One_nat_def gr0_implies_Suc not0_implies_Suc)
    then have "xs ! j \<in> set xs" using Cons.prems(4) by simp
    then show ?thesis using Cons.IH [of "item_next (m x)" "Suc j"] Cons.prems j by auto
  qed
qed simp

section \<open>Arrays of chains\<close>

definition shaped :: "item_mem \<Rightarrow> addr list \<Rightarrow> addr list list \<Rightarrow> bool" where
  "shaped m bs css \<longleftrightarrow> length bs = length css \<and> (\<forall>i<length css. item_chain m (bs ! i) (css ! i)) \<and> distinct (concat css)"

lemma mset_concat_update: "j < length xss \<Longrightarrow> mset (concat (xss[j := ys])) + mset (xss ! j) = mset (concat xss) + mset ys"
proof (induction xss arbitrary: j)
  case (Cons xs xss)
  then show ?case by (cases j) (simp_all add: ac_simps)
qed simp

lemma distinct_concat_update:
  assumes "j < length xss" "mset ys + mset zs = mset (xss ! j) + mset ws" "distinct (concat xss @ ws)"
  shows "distinct (concat (xss[j := ys]))"
proof -
  let ?A = "mset (concat (xss[j := ys]))" and ?B = "mset (xss ! j)"
  have "(?A + mset zs) + ?B = (?A + ?B) + mset zs" by (simp only: ac_simps)
  also have "\<dots> = mset (concat xss) + (mset ys + mset zs)" unfolding mset_concat_update [OF assms(1)] by (simp only: ac_simps)
  also have "\<dots> = (mset (concat xss) + mset ws) + ?B" unfolding assms(2) by (simp only: ac_simps)
  finally have "?A + mset zs = mset (concat xss @ ws)" by simp
  then have "mset (concat (xss[j := ys]) @ zs) = mset (concat xss @ ws)" by simp
  then have "distinct (concat (xss[j := ys]) @ zs)" using assms(3) mset_eq_imp_distinct_iff by blast
  then show ?thesis by simp
qed

lemma distinct_concat_nth:
  assumes "distinct (concat xss)" "i < length xss" "j < length xss" "x \<in> set (xss ! i)" "x \<in> set (xss ! j)"
  shows "i = j"
proof -
  have False if kl: "k < l" "l < length xss" "x \<in> set (xss ! k)" "x \<in> set (xss ! l)" for k l
  proof -
    have "concat xss = concat (take l xss) @ xss ! l @ concat (drop (Suc l) xss)"
      using arg_cong [OF id_take_nth_drop [OF kl(2)], of concat] by simp
    then have "set (concat (take l xss)) \<inter> set (xss ! l) = {}" using assms(1) by auto
    moreover have "take l xss ! k \<in> set (take l xss)" using kl(1,2) by (intro nth_mem) simp
    then have "x \<in> set (concat (take l xss))" using kl by auto
    ultimately show False using kl(4) by blast
  qed
  then show ?thesis using assms(2-5) by (metis nat_neq_iff)
qed

lemma shapedD:
  assumes "shaped m bs css"
  shows "length bs = length css" "i < length css \<Longrightarrow> item_chain m (bs ! i) (css ! i)" "distinct (concat css)"
    "i < length css \<Longrightarrow> distinct (css ! i)"
  using assms by (auto simp: shaped_def distinct_concat_iff)

text \<open>One chain of an array is replaced and nothing else is touched.\<close>

lemma shaped_update:
  assumes "shaped m bs css" "i < length css" "item_chain m' b ys" "distinct (concat (css[i := ys]))"
    and "\<And>j x. j < length css \<Longrightarrow> j \<noteq> i \<Longrightarrow> x \<in> set (css ! j) \<Longrightarrow> item_next (m' x) = item_next (m x)"
  shows "shaped m' (bs[i := b]) (css[i := ys])"
proof -
  have "item_chain m' ((bs[i := b]) ! j) ((css[i := ys]) ! j)" if "j < length css" for j
  proof (cases "j = i")
    case True
    then show ?thesis using assms(2,3) shapedD(1) [OF assms(1)] by simp
  next
    case False
    then show ?thesis using shapedD(2) [OF assms(1) that] chain_cong [of "css ! j" m' m] assms(5) [OF that] by simp
  qed
  then show ?thesis using assms(1,4) by (simp add: shaped_def)
qed

text \<open>What an item holds besides its link.\<close>

definition same_items :: "item_mem \<Rightarrow> item_mem \<Rightarrow> bool" where
  "same_items m m' \<longleftrightarrow> (\<forall>x. item_data (m' x) = item_data (m x) \<and> item_hash (m' x) = item_hash (m x))"

lemma same_itemsI: "same_items m (m(x := (m x)\<lparr>item_next := q\<rparr>))"
  by (simp add: same_items_def)

lemma same_items_trans: "same_items m m' \<Longrightarrow> same_items m' m'' \<Longrightarrow> same_items m m''"
  by (simp add: same_items_def)

lemma same_items_refl [simp]: "same_items m m"
  by (simp add: same_items_def)

section \<open>Resizing\<close>

definition push_item :: "(addr \<Rightarrow> nat) \<Rightarrow> addr list list \<Rightarrow> addr \<Rightarrow> addr list list" where
  "push_item g nss x = nss[g x := x # nss ! g x]"

definition bucketed :: "(addr \<Rightarrow> nat) \<Rightarrow> addr list list \<Rightarrow> bool" where
  "bucketed g nss \<longleftrightarrow> (\<forall>j<length nss. \<forall>x\<in>set (nss ! j). g x = j)"

lemma push_item_simps [simp]: "length (push_item g nss x) = length nss" "length (foldl (push_item g) nss xs) = length nss"
proof -
  show "length (push_item g nss x) = length nss" for nss x by (simp add: push_item_def)
  then show "length (foldl (push_item g) nss xs) = length nss" by (induction xs arbitrary: nss) simp_all
qed

lemma mset_push: "g x < length nss \<Longrightarrow> mset (concat (push_item g nss x)) = add_mset x (mset (concat nss))"
  using mset_concat_update [of "g x" nss "x # nss ! g x"] by (simp add: push_item_def)

lemma mset_pushes:
  "\<forall>x. g x < length nss \<Longrightarrow> mset (concat (foldl (push_item g) nss xs)) = mset (concat nss) + mset xs"
  by (induction xs arbitrary: nss) (simp_all add: mset_push)

lemma bucketed_pushes:
  "\<forall>x. g x < length nss \<Longrightarrow> bucketed g nss \<Longrightarrow> bucketed g (foldl (push_item g) nss xs)"
proof (induction xs arbitrary: nss)
  case (Cons x xs)
  have "bucketed g (push_item g nss x)"
    using Cons.prems unfolding bucketed_def push_item_def by (auto simp: nth_list_update)
  then show ?case using Cons by simp
qed simp

lemma shaped_push:
  assumes "shaped m nb nss" "x \<notin> set (concat nss)" "x \<noteq> 0" "g x < length nss"
  shows "shaped (m(x := (m x)\<lparr>item_next := nb ! g x\<rparr>)) (nb[g x := x]) (push_item g nss x)"
  unfolding push_item_def
proof (rule shaped_update [OF assms(1,4)])
  have "x \<notin> set (nss ! g x)" using assms(2) nth_mem [OF assms(4)] by auto
  then show "item_chain (m(x := (m x)\<lparr>item_next := nb ! g x\<rparr>)) x (x # nss ! g x)"
    using assms(3) shapedD(2) [OF assms(1,4)] by simp
  show "distinct (concat (nss[g x := x # nss ! g x]))"
    by (rule distinct_concat_update [OF assms(4), where zs = "[]" and ws = "[x]"]) (use assms(2) shapedD(3) [OF assms(1)] in auto)
  fix j y
  assume "j < length nss" "y \<in> set (nss ! j)"
  then have "y \<noteq> x" using assms(2) by auto
  then show "item_next ((m(x := (m x)\<lparr>item_next := nb ! g x\<rparr>)) y) = item_next (m y)" by simp
qed

lemma rebucket_chain_moves:
  assumes "length nss = n" "0 < n" "g = (\<lambda>x. unat (h x) mod n)"
  shows "item_chain m cur xs \<Longrightarrow> shaped m nb nss \<Longrightarrow> distinct xs \<Longrightarrow> set xs \<inter> set (concat nss) = {} \<Longrightarrow> \<forall>x. item_hash (m x) = h x \<Longrightarrow> length nss = n \<Longrightarrow>
    \<exists>m' nb'. rebucket_chain n cur (m, nb) = Some (m', nb') \<and> shaped m' nb' (foldl (push_item g) nss xs) \<and> same_items m m' \<and>
      (\<forall>x. x \<notin> set xs \<longrightarrow> m' x = m x)"
proof (induction xs arbitrary: m nb nss cur)
  case Nil
  then show ?case by (subst rebucket_chain.simps) simp
next
  case (Cons x xs)
  let ?m = "m(x := (m x)\<lparr>item_next := nb ! g x\<rparr>)"
  have x: "cur = x" "x \<noteq> 0" "item_chain m (item_next (m x)) xs" "x \<notin> set xs" using Cons.prems(1,3) by simp_all
  have gx: "g x = unat (item_hash (m x)) mod n" "g x < length nss" using assms(2,3) Cons.prems(5,6) by simp_all
  have s: "shaped ?m (nb[g x := x]) (push_item g nss x)" by (rule shaped_push) (use Cons.prems x gx in auto)
  have "set (concat (push_item g nss x)) = insert x (set (concat nss))"
    using arg_cong [OF mset_push [of g x nss, OF gx(2)], of set_mset] by simp
  then have dj: "set xs \<inter> set (concat (push_item g nss x)) = {}" using Cons.prems(4) x(4) by auto
  have c: "item_chain ?m (item_next (m x)) xs" using x by simp
  have hh: "\<forall>y. item_hash (?m y) = h y" using Cons.prems(5) by simp
  have ln: "length (push_item g nss x) = n" "distinct xs" using Cons.prems(3,6) by simp_all
  obtain m' nb' where r: "rebucket_chain n (item_next (m x)) (?m, nb[g x := x]) = Some (m', nb')"
    "shaped m' nb' (foldl (push_item g) (push_item g nss x) xs)" "same_items ?m m'" "\<forall>y. y \<notin> set xs \<longrightarrow> m' y = ?m y"
    using Cons.IH [OF c s ln(2) dj hh ln(1)] by blast
  have "rebucket_chain n cur (m, nb) = rebucket_chain n (item_next (m x)) (?m, nb[g x := x])"
    using x(1,2) gx(1) by (subst rebucket_chain.simps) (simp add: Let_def)
  then show ?case using r same_items_trans [OF same_itemsI r(3)] by auto
qed

lemma rebucket_all_moves:
  assumes "0 < n" "g = (\<lambda>x. unat (h x) mod n)"
  shows "length bs = length css \<Longrightarrow> \<forall>i<length css. item_chain m (bs ! i) (css ! i) \<Longrightarrow> shaped m nb nss \<Longrightarrow> distinct (concat css @ concat nss) \<Longrightarrow>
    \<forall>x. item_hash (m x) = h x \<Longrightarrow> length nss = n \<Longrightarrow>
    \<exists>m' nb'. rebucket_all n bs (m, nb) = Some (m', nb') \<and> shaped m' nb' (foldl (push_item g) nss (concat css)) \<and> same_items m m'"
proof (induction css arbitrary: bs m nb nss)
  case (Cons cs css)
  obtain b bs' where bs: "bs = b # bs'" "length bs' = length css" using Cons.prems(1) by (cases bs) auto
  have c: "item_chain m b cs" "\<forall>i<length css. item_chain m (bs' ! i) (css ! i)" using Cons.prems(2) bs(1) by (auto dest: spec [of _ 0] spec [of _ "Suc _"])
  have d: "distinct cs" "set cs \<inter> set (concat nss) = {}" "set cs \<inter> set (concat css) = {}" "distinct (concat css @ concat nss)"
    using Cons.prems(4) by auto
  obtain m1 nb1 where r: "rebucket_chain n b (m, nb) = Some (m1, nb1)" "shaped m1 nb1 (foldl (push_item g) nss cs)" "same_items m m1"
    "\<forall>x. x \<notin> set cs \<longrightarrow> m1 x = m x"
    using rebucket_chain_moves [OF Cons.prems(6) assms c(1) Cons.prems(3) d(1,2) Cons.prems(5,6)] by blast
  have lt: "\<forall>x. g x < length nss" using assms Cons.prems(6) by simp
  have "item_chain m1 (bs' ! i) (css ! i)" if "i < length css" for i
  proof -
    have "\<forall>x\<in>set (css ! i). m1 x = m x" using r(4) d(3) that by fastforce
    then show ?thesis using c(2) that chain_cong [of "css ! i" m1 m] by simp
  qed
  moreover have "distinct (concat css @ concat (foldl (push_item g) nss cs))"
  proof -
    have "mset (concat css @ concat (foldl (push_item g) nss cs)) = mset (concat (cs # css) @ concat nss)"
      by (simp add: mset_pushes [OF lt])
    then show ?thesis using Cons.prems(4) mset_eq_imp_distinct_iff by blast
  qed
  moreover have "\<forall>x. item_hash (m1 x) = h x" using r(3) Cons.prems(5) by (simp add: same_items_def)
  ultimately obtain m' nb' where "rebucket_all n bs' (m1, nb1) = Some (m', nb')" "shaped m' nb' (foldl (push_item g) (foldl (push_item g) nss cs) (concat css))"
    "same_items m1 m'"
    using Cons.IH [OF bs(2) _ r(2)] Cons.prems(6) by auto
  then show ?case using r(1) bs(1) same_items_trans [OF r(3)] by auto
qed simp

end
