(* ===== verification/LhashInv.thy ===== *)
theory LhashInv
  imports LhashSpec
begin

text \<open>
  The invariant of a hash table, and that every operation keeps it and acts on the set of the pointers in the table.
\<close>

section \<open>The invariant\<close>

definition item_bucket :: "item_mem \<Rightarrow> nat \<Rightarrow> addr \<Rightarrow> nat" where
  "item_bucket m n x = unat (item_hash (m x)) mod n"

text \<open>\<open>css\<close> has the items of each bucket.\<close>

definition lh_ok :: "call_hash \<Rightarrow> call_compare \<Rightarrow> lhash \<Rightarrow> addr list list \<Rightarrow> bool" where
  "lh_ok hashf cmp lh css \<longleftrightarrow>
     shaped (lh_mem lh) (buckets lh) css \<and> length css = num_buckets lh \<and>
     kMinNumBuckets \<le> num_buckets lh \<and> item_ptr_size * num_buckets lh < SIZE_MOD \<and> num_items lh = length (concat css) \<and>
     bucketed (item_bucket (lh_mem lh) (num_buckets lh)) css \<and>
     (\<forall>x\<in>set (concat css). item_hash (lh_mem lh x) = hashf (lh_hash lh) (item_data (lh_mem lh x))) \<and>
     (\<forall>x\<in>set (concat css). \<forall>y\<in>set (concat css). cmp (lh_comp lh) (item_data (lh_mem lh x)) (item_data (lh_mem lh y)) = 0 \<longrightarrow> x = y)"

lemma lh_okD:
  assumes "lh_ok hashf cmp lh css"
  shows "shaped (lh_mem lh) (buckets lh) css" "length css = num_buckets lh" "kMinNumBuckets \<le> num_buckets lh"
    "item_ptr_size * num_buckets lh < SIZE_MOD" "num_items lh = length (concat css)"
    "bucketed (item_bucket (lh_mem lh) (num_buckets lh)) css"
    "\<And>x. x \<in> set (concat css) \<Longrightarrow> item_hash (lh_mem lh x) = hashf (lh_hash lh) (item_data (lh_mem lh x))"
    "\<And>x y. x \<in> set (concat css) \<Longrightarrow> y \<in> set (concat css) \<Longrightarrow>
      cmp (lh_comp lh) (item_data (lh_mem lh x)) (item_data (lh_mem lh y)) = 0 \<Longrightarrow> x = y"
  using assms unfolding lh_ok_def by blast+

definition contents :: "lhash \<Rightarrow> addr list list \<Rightarrow> addr set" where
  "contents lh css = (\<lambda>x. item_data (lh_mem lh x)) ` set (concat css)"

text \<open>What the code relies on: the comparison is an equivalence that the hash respects.\<close>

definition hash_respects :: "(addr \<Rightarrow> 32 word) \<Rightarrow> (addr \<Rightarrow> addr \<Rightarrow> int) \<Rightarrow> bool" where
  "hash_respects h c \<longleftrightarrow> (\<forall>x. c x x = 0) \<and> (\<forall>x y. c x y = 0 \<longrightarrow> c y x = 0) \<and> (\<forall>x y z. c x y = 0 \<longrightarrow> c y z = 0 \<longrightarrow> c x z = 0) \<and>
     (\<forall>x y. c x y = 0 \<longrightarrow> h x = h y)"

lemma hash_respectsD:
  assumes "hash_respects h c"
  shows "c x x = 0" "c x y = 0 \<Longrightarrow> c y x = 0" "c x y = 0 \<Longrightarrow> c y z = 0 \<Longrightarrow> c x z = 0" "c x y = 0 \<Longrightarrow> h x = h y"
  using assms unfolding hash_respects_def by blast+

text \<open>The two are kept when the items move.\<close>

lemma contents_moved: "set (concat css') = set (concat css) \<Longrightarrow> same_items (lh_mem lh) (lh_mem lh') \<Longrightarrow> contents lh' css' = contents lh css"
  by (simp add: contents_def same_items_def)

lemma new_table:
  assumes "OPENSSL_lh_new mal hash_fn cmp_fn m = Some lh"
  shows "lh_ok hashf cmp lh (replicate 16 []) \<and> contents lh (replicate 16 []) = {} \<and> callback_depth lh = 0 \<and> lh_hash lh = hash_fn \<and> lh_comp lh = cmp_fn"
  using assms by (auto simp: OPENSSL_lh_new_def lh_ok_def shaped_def bucketed_def contents_def split: if_splits)

section \<open>Resizing\<close>

lemma rebucket_ok:
  assumes "lh_ok hashf cmp lh css" "kMinNumBuckets \<le> n"
  shows "\<exists>lh' css'. lh_rebucket mal lh n = Some lh' \<and> lh_ok hashf cmp lh' css' \<and> contents lh' css' = contents lh css \<and>
    set (concat css') = set (concat css) \<and> num_items lh' = num_items lh \<and>
    callback_depth lh' = callback_depth lh \<and> lh_hash lh' = lh_hash lh \<and> lh_comp lh' = lh_comp lh \<and>
    (num_buckets lh' = num_buckets lh \<or> num_buckets lh' = n) \<and> (mal (item_ptr_size * n) \<and> item_ptr_size * n < SIZE_MOD \<longrightarrow> num_buckets lh' = n)"
proof (cases "szmul item_ptr_size n div item_ptr_size \<noteq> n \<or> \<not> mal (szmul item_ptr_size n)")
  case True
  then show ?thesis using assms(1) by (intro exI [of _ lh] exI [of _ css]) (auto simp: lh_rebucket_def Let_def)
next
  case False
  note ok = lh_okD [OF assms(1)]
  have "item_ptr_size * n < SIZE_MOD" using False by (auto simp: szmul_def)
  let ?h = "\<lambda>x. item_hash (lh_mem lh x)" and ?g = "\<lambda>x. unat (item_hash (lh_mem lh x)) mod n"
  have "length (take (num_buckets lh) (buckets lh)) = length css" "\<forall>i<length css. item_chain (lh_mem lh) (take (num_buckets lh) (buckets lh) ! i) (css ! i)"
    using shapedD(1,2) [OF ok(1)] ok(2) by simp_all
  moreover have "shaped (lh_mem lh) (replicate n 0) (replicate n [])" by (simp add: shaped_def)
  moreover have "distinct (concat css @ concat (replicate n []))" using shapedD(3) [OF ok(1)] by simp
  ultimately obtain m nb where r: "rebucket_all n (take (num_buckets lh) (buckets lh)) (lh_mem lh, replicate n 0) = Some (m, nb)"
    "shaped m nb (foldl (push_item ?g) (replicate n []) (concat css))" "same_items (lh_mem lh) m"
    using rebucket_all_moves [of n ?g ?h "take (num_buckets lh) (buckets lh)" css "lh_mem lh" "replicate n 0" "replicate n []"] assms(2) by auto
  let ?css = "foldl (push_item ?g) (replicate n []) (concat css)" and ?lh = "lh\<lparr>buckets := nb, num_buckets := n, lh_mem := m\<rparr>"
  have lt: "\<forall>x. ?g x < length (replicate n ([] :: addr list))" using assms(2) by simp
  have ms: "mset (concat ?css) = mset (concat css)" using mset_pushes [OF lt, of "concat css"] by simp
  then have s: "set (concat ?css) = set (concat css)" "length (concat ?css) = length (concat css)"
    using mset_eq_setD mset_eq_length by blast+
  have "item_bucket m n = ?g" using r(3) by (simp add: item_bucket_def same_items_def fun_eq_iff)
  then have b: "bucketed (item_bucket m n) ?css" using bucketed_pushes [OF lt] by (simp add: bucketed_def)
  have "lh_ok hashf cmp ?lh ?css"
    unfolding lh_ok_def using r(2,3) ok(5) s b assms(2) \<open>item_ptr_size * n < SIZE_MOD\<close> ok(7,8) by (simp add: same_items_def)
  moreover have "lh_rebucket mal lh n = Some ?lh" using False r(1) by (simp add: lh_rebucket_def Let_def)
  moreover have "contents ?lh ?css = contents lh css" by (rule contents_moved) (use s r(3) in simp_all)
  ultimately show ?thesis using s(1) by (intro exI [of _ ?lh] exI [of _ ?css]) simp
qed

text \<open>After a resize chains are short again, unless the memory is short or callbacks are running.\<close>

lemma resize_ok:
  assumes "lh_ok hashf cmp lh css"
  shows "\<exists>lh' css'. lh_maybe_resize mal lh = Some lh' \<and> lh_ok hashf cmp lh' css' \<and> contents lh' css' = contents lh css \<and>
    set (concat css') = set (concat css) \<and> num_items lh' = num_items lh \<and>
    callback_depth lh' = callback_depth lh \<and> lh_hash lh' = lh_hash lh \<and> lh_comp lh' = lh_comp lh"
proof -
  have stay: ?thesis if "lh_maybe_resize mal lh = Some lh"
    using that assms by blast
  have move: ?thesis if "lh_maybe_resize mal lh = lh_rebucket mal lh n" "kMinNumBuckets \<le> n" for n
    using rebucket_ok [OF assms that(2), of mal] that(1) by auto
  have nb: "kMinNumBuckets \<le> num_buckets lh" using lh_okD(3) [OF assms] .
  let ?avg = "num_items lh div num_buckets lh" and ?up = "szmul (num_buckets lh) 2" and ?down = "num_buckets lh div 2"
  let ?d = "if ?down < kMinNumBuckets then kMinNumBuckets else ?down"
  consider "0 < callback_depth lh \<or> (kMaxAverageChainLength < ?avg \<and> \<not> num_buckets lh < ?up)
      \<or> (\<not> kMaxAverageChainLength < ?avg \<and> \<not> (?avg < kMinAverageChainLength \<and> kMinNumBuckets < num_buckets lh))"
    | "callback_depth lh = 0" "kMaxAverageChainLength < ?avg" "num_buckets lh < ?up"
    | "callback_depth lh = 0" "\<not> kMaxAverageChainLength < ?avg" "?avg < kMinAverageChainLength" "kMinNumBuckets < num_buckets lh"
    by auto
  then show ?thesis
  proof cases
    case 1
    then show ?thesis by (intro stay) (auto simp: lh_maybe_resize_def Let_def)
  next
    case 2
    then show ?thesis using nb by (intro move [of ?up]) (simp_all add: lh_maybe_resize_def Let_def)
  next
    case 3
    then show ?thesis by (intro move [of ?d]) (simp_all add: lh_maybe_resize_def Let_def)
  qed
qed

section \<open>Finding\<close>

definition bucket_of :: "call_hash \<Rightarrow> lhash \<Rightarrow> addr \<Rightarrow> nat" where
  "bucket_of hashf lh d = unat (hashf (lh_hash lh) d) mod num_buckets lh"

definition place_of :: "call_compare \<Rightarrow> lhash \<Rightarrow> addr list \<Rightarrow> addr \<Rightarrow> nat" where
  "place_of cmp lh xs d = first_match (\<lambda>e. cmp (lh_comp lh) e d = 0) (lh_mem lh) xs"

lemma table_addr:
  assumes "lh_ok hashf cmp lh css" "i < length css" "k < length (css ! i)"
  shows "css ! i ! k \<in> set (concat css)" "css ! i ! k \<noteq> 0"
proof -
  show "css ! i ! k \<in> set (concat css)" using assms(2,3) by (auto intro: bexI [of _ "css ! i"])
  have "0 \<notin> set (css ! i)" using chain_nonzero shapedD(2) [OF lh_okD(1) [OF assms(1)] assms(2)] by blast
  then show "css ! i ! k \<noteq> 0" using assms(3) by (metis nth_mem)
qed

lemma find_ok:
  assumes "lh_ok hashf cmp lh css" "hash_respects (hashf (lh_hash lh)) (cmp (lh_comp lh))"
    and "i = bucket_of hashf lh d" "k = place_of cmp lh (css ! i) d"
  shows "get_next_ptr_and_hash hashf cmp lh d = Some (hashf (lh_hash lh) d, slot_at (Bucket i) (css ! i) k)"
    and "i < length css" "k \<le> length (css ! i)" "read_slot lh (slot_at (Bucket i) (css ! i) k) = addr_at (css ! i) k"
    and "k < length (css ! i) \<Longrightarrow> cmp (lh_comp lh) (item_data (lh_mem lh (css ! i ! k))) d = 0"
    and "k < length (css ! i) \<longleftrightarrow> (\<exists>e\<in>contents lh css. cmp (lh_comp lh) e d = 0)"
proof -
  note ok = lh_okD [OF assms(1)]
  let ?eq = "\<lambda>e. cmp (lh_comp lh) e d = 0"
  have k: "k = first_match ?eq (lh_mem lh) (css ! i)" using assms(4) by (simp add: place_of_def)
  show i: "i < length css" using ok(2,3) by (simp add: assms(3) bucket_of_def)
  have c: "item_chain (lh_mem lh) (read_slot lh (Bucket i)) (css ! i)" using shapedD(2) [OF ok(1) i] by simp
  show "get_next_ptr_and_hash hashf cmp lh d = Some (hashf (lh_hash lh) d, slot_at (Bucket i) (css ! i) k)"
    using find_loop_stops [OF c, of ?eq] unfolding get_next_ptr_and_hash_def Let_def k bucket_of_def [symmetric] assms(3) [symmetric] by simp
  show kl: "k \<le> length (css ! i)" unfolding k by (rule first_match_props)
  show "read_slot lh (slot_at (Bucket i) (css ! i) k) = addr_at (css ! i) k" by (rule read_slot_at [OF c kl])
  show "k < length (css ! i) \<Longrightarrow> ?eq (item_data (lh_mem lh (css ! i ! k)))" unfolding k by (rule first_match_props)
  have "(\<exists>x\<in>set (css ! i). ?eq (item_data (lh_mem lh x))) \<longleftrightarrow> (\<exists>e\<in>contents lh css. ?eq e)"
  proof
    assume "\<exists>x\<in>set (css ! i). ?eq (item_data (lh_mem lh x))"
    then show "\<exists>e\<in>contents lh css. ?eq e" using nth_mem [OF i] by (auto simp: contents_def)
  next
    assume "\<exists>e\<in>contents lh css. ?eq e"
    then obtain x cs where cs: "?eq (item_data (lh_mem lh x))" "cs \<in> set css" "x \<in> set cs" by (auto simp: contents_def)
    then obtain j where "j < length css" "css ! j = cs" unfolding in_set_conv_nth by blast
    then have x: "?eq (item_data (lh_mem lh x))" "j < length css" "x \<in> set (css ! j)" using cs by simp_all
    then have xs: "x \<in> set (concat css)" using nth_mem [of j css] by auto
    have "item_hash (lh_mem lh x) = hashf (lh_hash lh) d"
      using ok(7) [OF xs] hash_respectsD(4) [OF assms(2) x(1)] by simp
    moreover have "item_bucket (lh_mem lh) (num_buckets lh) x = j" using ok(6) x(2,3) by (simp add: bucketed_def)
    ultimately have "j = i" using assms(3) by (simp add: item_bucket_def bucket_of_def)
    then show "\<exists>x\<in>set (css ! i). ?eq (item_data (lh_mem lh x))" using x by blast
  qed
  then show "k < length (css ! i) \<longleftrightarrow> (\<exists>e\<in>contents lh css. ?eq e)" unfolding k first_match_props(3) .
qed

lemma retrieve_ok:
  assumes "lh_ok hashf cmp lh css" "hash_respects (hashf (lh_hash lh)) (cmp (lh_comp lh))"
  shows "\<exists>r. OPENSSL_lh_retrieve hashf cmp lh d = Some r \<and>
    (if \<exists>e\<in>contents lh css. cmp (lh_comp lh) e d = 0 then r \<in> contents lh css \<and> cmp (lh_comp lh) r d = 0 else r = 0)"
proof -
  note f = find_ok [OF assms refl refl, of d]
  let ?i = "bucket_of hashf lh d" let ?k = "place_of cmp lh (css ! ?i) d"
  show ?thesis
  proof (cases "?k < length (css ! ?i)")
    case True
    note a = table_addr [OF assms(1) f(2) True]
    have "item_data (lh_mem lh (css ! ?i ! ?k)) \<in> contents lh css" using a(1) by (simp only: contents_def image_eqI)
    then show ?thesis using f True a(2) by (simp add: OPENSSL_lh_retrieve_def data_at_def addr_at_def)
  next
    case False
    then show ?thesis using f by (simp add: OPENSSL_lh_retrieve_def data_at_def addr_at_def)
  qed
qed

section \<open>Writing to a chain\<close>

text \<open>What the write of a slot leaves alone.\<close>

definition same_table :: "lhash \<Rightarrow> lhash \<Rightarrow> bool" where
  "same_table lh lh' \<longleftrightarrow> num_items lh' = num_items lh \<and> num_buckets lh' = num_buckets lh \<and> callback_depth lh' = callback_depth lh \<and>
     lh_comp lh' = lh_comp lh \<and> lh_hash lh' = lh_hash lh \<and> same_items (lh_mem lh) (lh_mem lh')"

lemma shaped_write:
  assumes "shaped (lh_mem lh) (buckets lh) css" "i < length css" "k \<le> length (css ! i)" "item_chain (lh_mem lh) v ys"
    and "0 < k \<Longrightarrow> css ! i ! (k - 1) \<notin> set ys" "distinct (concat (css[i := take k (css ! i) @ ys]))"
  shows "\<exists>lh'. write_slot (slot_at (Bucket i) (css ! i) k) v lh = lh' \<and>
    shaped (lh_mem lh') (buckets lh') (css[i := take k (css ! i) @ ys]) \<and> same_table lh lh'"
proof (cases "k = 0")
  case True
  have "shaped (lh_mem lh) ((buckets lh)[i := v]) (css[i := take k (css ! i) @ ys])"
    by (rule shaped_update [OF assms(1,2) _ assms(6)]) (use True assms(4) in simp_all)
  then show ?thesis using True by (simp add: slot_at_def same_table_def)
next
  case False
  let ?x = "css ! i ! (k - 1)" let ?m = "(lh_mem lh)(?x := (lh_mem lh ?x)\<lparr>item_next := v\<rparr>)"
  have x: "?x \<in> set (css ! i)" using False assms(3) by simp
  have "shaped ?m ((buckets lh)[i := buckets lh ! i]) (css[i := take k (css ! i) @ ys])"
  proof (rule shaped_update [OF assms(1,2) _ assms(6)])
    show "item_chain ?m (buckets lh ! i) (take k (css ! i) @ ys)"
      by (rule chain_redirect) (use assms shapedD [OF assms(1)] False in simp_all)
    fix j y
    assume "j < length css" "j \<noteq> i" "y \<in> set (css ! j)"
    then have "y \<noteq> ?x" using distinct_concat_nth [OF shapedD(3) [OF assms(1)] _ assms(2), of j y] x by metis
    then show "item_next (?m y) = item_next (lh_mem lh y)" by simp
  qed
  then show ?thesis using False same_itemsI by (simp add: slot_at_def same_table_def)
qed

text \<open>The table after a write, with items in other chains. An item that is not in the table has any data.\<close>

lemma table_written:
  assumes "lh_ok hashf cmp lh css" "same_table lh lh'" "shaped (lh_mem lh') (buckets lh') (css[i := ys])" "i < length css"
    and "\<And>x. x \<in> set ys \<Longrightarrow> x \<in> set (css ! i)"
  shows "lh_ok hashf cmp (lh'\<lparr>num_items := length (concat (css[i := ys]))\<rparr>) (css[i := ys])"
proof -
  note ok = lh_okD [OF assms(1)]
  note st = assms(2) [unfolded same_table_def same_items_def]
  have sub: "x \<in> set (concat css)" if "x \<in> set (concat (css[i := ys]))" for x
    using that assms(4,5) set_update_subset_insert [of css i ys] nth_mem [OF assms(4)] by fastforce
  have "bucketed (item_bucket (lh_mem lh') (num_buckets lh')) (css[i := ys])"
    using ok(6) st assms(4,5) unfolding bucketed_def item_bucket_def by (auto simp: nth_list_update)
  then show ?thesis
    unfolding lh_ok_def using ok assms(3) st sub by simp
qed

section \<open>Deleting\<close>

lemma chain_drop: "item_chain m p xs \<Longrightarrow> k \<le> length xs \<Longrightarrow> item_chain m (addr_at xs k) (drop k xs)"
proof (induction xs arbitrary: p k)
  case (Cons x xs)
  show ?case
  proof (cases k)
    case (Suc j)
    then have "item_chain m (addr_at xs j) (drop j xs)" using Cons.IH [of "item_next (m x)" j] Cons.prems by simp
    moreover have "addr_at (x # xs) k = addr_at xs j" using Suc by (simp add: addr_at_def)
    ultimately show ?thesis using Suc by simp
  qed (use Cons.prems in \<open>simp add: addr_at_def\<close>)
qed (simp add: addr_at_def)

lemma delete_item_ok:
  assumes "lh_ok hashf cmp lh css" "hash_respects (hashf (lh_hash lh)) (cmp (lh_comp lh))"
  shows "\<exists>r lh' css'. OPENSSL_lh_delete hashf cmp mal lh d = Some (r, lh') \<and> lh_ok hashf cmp lh' css' \<and>
    callback_depth lh' = callback_depth lh \<and> lh_hash lh' = lh_hash lh \<and> lh_comp lh' = lh_comp lh \<and> set (concat css') \<subseteq> set (concat css) \<and>
    (if \<exists>e\<in>contents lh css. cmp (lh_comp lh) e d = 0
     then r \<in> contents lh css \<and> cmp (lh_comp lh) r d = 0 \<and> contents lh' css' = contents lh css - {r} \<and> num_items lh = num_items lh' + 1
     else r = 0 \<and> lh' = lh \<and> css' = css)"
proof -
  obtain i k where ik: "i = bucket_of hashf lh d" "k = place_of cmp lh (css ! i) d" by simp
  note f = find_ok [OF assms ik] and ok = lh_okD [OF assms(1)]
  show ?thesis
  proof (cases "k < length (css ! i)")
    case False
    then have "OPENSSL_lh_delete hashf cmp mal lh d = Some (0, lh)" using f by (simp add: OPENSSL_lh_delete_def addr_at_def Let_def)
    then show ?thesis using False f(6) assms(1) by auto
  next
    case True
    let ?xs = "css ! i" let ?x = "?xs ! k" let ?ys = "drop (k + 1) ?xs" let ?zs = "take k ?xs @ ?ys"
    note a = table_addr [OF assms(1) f(2) True]
    note sh = shapedD [OF ok(1)]
    have xs: "?xs = take k ?xs @ ?x # ?ys" using id_take_nth_drop [OF True] by simp
    have dx: "distinct ?xs" using sh(4) [OF f(2)] .
    have v: "item_next (lh_mem lh ?x) = addr_at ?xs (k + 1)" by (rule chain_next [OF sh(2) [OF f(2)] True])
    have zs: "mset ?zs + mset [?x] = mset ?xs + mset []" by (subst (3) xs) simp
    have dc: "distinct (concat (css[i := ?zs]))" by (rule distinct_concat_update [OF f(2) zs]) (use sh(3) in simp)
    have c1: "item_chain (lh_mem lh) (addr_at ?xs (k + 1)) ?ys" by (rule chain_drop [OF sh(2) [OF f(2)]]) (use True in simp)
    have c2: "?xs ! (k - 1) \<notin> set ?ys" if "0 < k"
    proof -
      have "take (k + 1) ?xs ! (k - 1) \<in> set (take (k + 1) ?xs)" using that True by (intro nth_mem) simp
      then show ?thesis using dx set_take_disj_set_drop_if_distinct [of ?xs "k + 1" "k + 1"] that by auto
    qed
    obtain lh1 where w: "write_slot (slot_at (Bucket i) ?xs k) (addr_at ?xs (k + 1)) lh = lh1"
      "shaped (lh_mem lh1) (buckets lh1) (css[i := ?zs])" "same_table lh lh1"
      using shaped_write [OF ok(1) f(2,3) c1 c2 dc] by metis
    have "mset (concat (css[i := ?zs])) + mset [?x] = mset (concat css)"
    proof -
      have "(mset (concat (css[i := ?zs])) + mset [?x]) + mset ?xs = (mset (concat (css[i := ?zs])) + mset ?xs) + mset [?x]"
        by (simp only: ac_simps)
      also have "\<dots> = mset (concat css) + (mset ?zs + mset [?x])" unfolding mset_concat_update [OF f(2)] by (simp only: ac_simps)
      finally show ?thesis unfolding zs by simp
    qed
    then have ms: "mset (concat css) = add_mset ?x (mset (concat (css[i := ?zs])))" by simp
    have st: "num_items lh1 - 1 = length (concat (css[i := ?zs]))"
      using w(3) ok(5) arg_cong [OF ms, of size] by (simp add: same_table_def)
    let ?lh = "lh1\<lparr>num_items := num_items lh1 - 1\<rparr>"
    have "lh_ok hashf cmp ?lh (css[i := ?zs])"
      unfolding st by (rule table_written [OF assms(1) w(3,2) f(2)]) (metis xs Un_iff insert_iff list.set(2) set_append)
    from resize_ok [OF this, of mal] obtain lh' css' where r: "lh_maybe_resize mal ?lh = Some lh'" "lh_ok hashf cmp lh' css'"
      "contents lh' css' = contents ?lh (css[i := ?zs])" "set (concat css') = set (concat (css[i := ?zs]))" "num_items lh' = num_items ?lh"
      "callback_depth lh' = callback_depth ?lh" "lh_hash lh' = lh_hash ?lh" "lh_comp lh' = lh_comp ?lh" by blast
    have same: "item_data (lh_mem lh1 x) = item_data (lh_mem lh x)" for x using w(3) by (simp add: same_table_def same_items_def)
    have sx: "set (concat css) = insert ?x (set (concat (css[i := ?zs])))" using arg_cong [OF ms, of set_mset] by simp
    have nx: "?x \<notin> set (concat (css[i := ?zs]))" using sh(3) ms by (metis distinct.simps(2) mset.simps(2) mset_eq_imp_distinct_iff)
    let ?d = "item_data (lh_mem lh ?x)"
    have "item_data (lh_mem lh y) \<noteq> ?d" if "y \<in> set (concat (css[i := ?zs]))" for y
    proof
      assume "item_data (lh_mem lh y) = ?d"
      then have "cmp (lh_comp lh) (item_data (lh_mem lh y)) ?d = 0" using hash_respectsD(1) [OF assms(2)] by simp
      then have "y = ?x" by (rule ok(8) [rotated 2]) (use that sx in blast)+
      then show False using that nx by simp
    qed
    then have c: "contents ?lh (css[i := ?zs]) = contents lh css - {?d}" unfolding contents_def sx by (auto simp: same)
    have del: "OPENSSL_lh_delete hashf cmp mal lh d = Some (?d, lh')"
      using f(1,4) a(2) True v w(1) r(1) same by (simp add: OPENSSL_lh_delete_def addr_at_def Let_def)
    have "concat css \<noteq> []" using a(1) by (metis empty_iff empty_set)
    then have "0 < num_items lh" unfolding ok(5) by (rule length_greater_0_conv [THEN iffD2])
    moreover have "num_items lh1 = num_items lh" "callback_depth lh1 = callback_depth lh" "lh_hash lh1 = lh_hash lh" "lh_comp lh1 = lh_comp lh"
      using w(3) by (simp_all add: same_table_def)
    moreover have "?d \<in> contents lh css" using a(1) by (simp add: contents_def)
    ultimately show ?thesis
      using del r c sx f(5) [OF True] f(6) True by (intro exI [of _ ?d] exI [of _ lh'] exI [of _ css']) auto
  qed
qed

section \<open>Inserting\<close>

lemma shaped_cong:
  assumes "shaped m bs css" "\<And>x. x \<in> set (concat css) \<Longrightarrow> item_next (m' x) = item_next (m x)"
  shows "shaped m' bs css"
proof -
  have "item_chain m' (bs ! i) (css ! i)" if "i < length css" for i
  proof -
    have "\<forall>x\<in>set (css ! i). item_next (m' x) = item_next (m x)" using assms(2) nth_mem [OF that] by auto
    then show ?thesis using chain_cong shapedD(2) [OF assms(1) that] by blast
  qed
  then show ?thesis using assms(1) by (simp add: shaped_def)
qed

lemma image_upd: "x \<in> S \<Longrightarrow> (\<forall>y\<in>S. y \<noteq> x \<longrightarrow> f y \<noteq> f x) \<Longrightarrow> (f(x := d)) ` S = insert d (f ` S - {f x})"
  by auto

text \<open>The data of an item is replaced by data that is equal.\<close>

lemma replace_ok:
  assumes "lh_ok hashf cmp lh css" "hash_respects (hashf (lh_hash lh)) (cmp (lh_comp lh))" "x \<in> set (concat css)"
    and "cmp (lh_comp lh) (item_data (lh_mem lh x)) d = 0"
  shows "lh_ok hashf cmp (lh\<lparr>lh_mem := (lh_mem lh)(x := (lh_mem lh x)\<lparr>item_data := d\<rparr>)\<rparr>) css" (is "lh_ok hashf cmp ?lh css")
    and "contents (lh\<lparr>lh_mem := (lh_mem lh)(x := (lh_mem lh x)\<lparr>item_data := d\<rparr>)\<rparr>) css = insert d (contents lh css - {item_data (lh_mem lh x)})"
proof -
  note ok = lh_okD [OF assms(1)] and eq = hash_respectsD [OF assms(2)]
  let ?data = "\<lambda>y. item_data (lh_mem lh y)" and ?c = "cmp (lh_comp lh)"
  have "shaped (lh_mem ?lh) (buckets ?lh) css" using shaped_cong [OF ok(1), of "lh_mem ?lh"] by simp
  moreover have "bucketed (item_bucket (lh_mem ?lh) (num_buckets ?lh)) css" using ok(6) by (simp add: bucketed_def item_bucket_def)
  moreover have "item_hash (lh_mem ?lh y) = hashf (lh_hash ?lh) (item_data (lh_mem ?lh y))" if "y \<in> set (concat css)" for y
    using ok(7) [OF that] eq(4) [OF assms(4)] by (cases "y = x") simp_all
  moreover have "y = z" if "y \<in> set (concat css)" "z \<in> set (concat css)" "?c (item_data (lh_mem ?lh y)) (item_data (lh_mem ?lh z)) = 0" for y z
  proof -
    have new: "?c (?data u) (item_data (lh_mem ?lh u)) = 0" for u using eq(1) assms(4) by simp
    have "?c (item_data (lh_mem ?lh y)) (item_data (lh_mem ?lh z)) = 0" using that(3) by simp
    from eq(3) [OF eq(3) [OF new this] eq(2) [OF new]] have "?c (?data y) (?data z) = 0" .
    then show ?thesis by (rule ok(8) [OF that(1,2)])
  qed
  ultimately show "lh_ok hashf cmp ?lh css" unfolding lh_ok_def using ok(2-5) by (intro conjI ballI impI) simp_all
  have "?data y \<noteq> ?data x" if "y \<in> set (concat css)" "y \<noteq> x" for y
    using ok(8) [OF that(1) assms(3)] that(2) eq(1) [of "?data x"] by metis
  then have "(?data(x := d)) ` set (concat css) = insert d (?data ` set (concat css) - {?data x})"
    by (intro image_upd [OF assms(3)]) blast
  moreover have "(\<lambda>y. item_data (lh_mem ?lh y)) = ?data(x := d)" by (rule ext) simp
  ultimately show "contents ?lh css = insert d (contents lh css - {?data x})" unfolding contents_def by metis
qed

text \<open>A fresh item at the end of a chain.\<close>

lemma append_ok:
  assumes "lh_ok hashf cmp lh css" "hash_respects (hashf (lh_hash lh)) (cmp (lh_comp lh))" "x \<noteq> 0" "x \<notin> set (concat css)"
    and "\<forall>e\<in>contents lh css. cmp (lh_comp lh) e d \<noteq> 0" "i = bucket_of hashf lh d"
    and "lh0 = lh\<lparr>lh_mem := (lh_mem lh)(x := \<lparr>item_data = d, item_next = 0, item_hash = hashf (lh_hash lh) d\<rparr>)\<rparr>"
    and "lh1 = (write_slot (slot_at (Bucket i) (css ! i) (length (css ! i))) x lh0)\<lparr>num_items := num_items lh + 1\<rparr>"
  shows "\<exists>css'. lh_ok hashf cmp lh1 css' \<and> contents lh1 css' = insert d (contents lh css) \<and> set (concat css') = insert x (set (concat css)) \<and>
    callback_depth lh1 = callback_depth lh \<and> lh_hash lh1 = lh_hash lh \<and> lh_comp lh1 = lh_comp lh"
proof -
  note ok = lh_okD [OF assms(1)] and eq = hash_respectsD [OF assms(2)]
  let ?xs = "css ! i" and ?css = "css[i := css ! i @ [x]]"
  have i: "i < length css" using ok(2,3) by (simp add: assms(6) bucket_of_def)
  have s0: "shaped (lh_mem lh0) (buckets lh0) css"
    using shaped_cong [OF ok(1), of "lh_mem lh0"] assms(4,7) by (metis (no_types, lifting) fun_upd_other lhash.select_convs(2,7) lhash.simps(16) lhash.surjective lhash.update_convs(7))
  have c1: "item_chain (lh_mem lh0) x [x]" using assms(3,7) by simp
  have c2: "?xs ! (length ?xs - 1) \<notin> set [x]" if "0 < length ?xs"
    using assms(4) table_addr(1) [OF assms(1) i, of "length ?xs - 1"] that by auto
  have dc: "distinct (concat (css[i := take (length ?xs) ?xs @ [x]]))"
    by (rule distinct_concat_update [OF i, where zs = "[]" and ws = "[x]"]) (use assms(4) shapedD(3) [OF ok(1)] in auto)
  obtain lh2 where w: "write_slot (slot_at (Bucket i) ?xs (length ?xs)) x lh0 = lh2" "shaped (lh_mem lh2) (buckets lh2) ?css" "same_table lh0 lh2"
    using shaped_write [OF s0 i order_refl c1 c2 dc] by (metis take_all_iff order_refl)
  note st = w(3) [unfolded same_table_def same_items_def]
  have l1: "lh1 = lh2\<lparr>num_items := num_items lh + 1\<rparr>" using assms(8) w(1) by simp
  have data: "item_data (lh_mem lh1 y) = (if y = x then d else item_data (lh_mem lh y))"
    "item_hash (lh_mem lh1 y) = (if y = x then hashf (lh_hash lh) d else item_hash (lh_mem lh y))" for y
    using st l1 assms(7) by simp_all
  have same: "num_buckets lh1 = num_buckets lh" "callback_depth lh1 = callback_depth lh" "lh_hash lh1 = lh_hash lh" "lh_comp lh1 = lh_comp lh"
    using st l1 assms(7) by simp_all
  have ms: "mset (concat ?css) = add_mset x (mset (concat css))"
    using mset_concat_update [OF i, of "?xs @ [x]"] by simp
  then have sx: "set (concat ?css) = insert x (set (concat css))" "length (concat ?css) = length (concat css) + 1"
    using arg_cong [OF ms, of set_mset] arg_cong [OF ms, of size] unfolding set_mset_mset size_mset by simp_all
  have new: "cmp (lh_comp lh) (item_data (lh_mem lh y)) d \<noteq> 0" "cmp (lh_comp lh) d (item_data (lh_mem lh y)) \<noteq> 0" if "y \<in> set (concat css)" for y
    using assms(5) that eq(2) unfolding contents_def by blast+
  have "lh_ok hashf cmp lh1 ?css"
    unfolding lh_ok_def
  proof (intro conjI ballI impI)
    show "shaped (lh_mem lh1) (buckets lh1) ?css" using w(2) l1 by simp
    show "bucketed (item_bucket (lh_mem lh1) (num_buckets lh1)) ?css"
      unfolding bucketed_def
    proof (intro allI impI ballI)
      fix j y
      assume j: "j < length ?css" "y \<in> set (?css ! j)"
      show "item_bucket (lh_mem lh1) (num_buckets lh1) y = j"
      proof (cases "y = x")
        case True
        have "x \<notin> set (css ! j)" using assms(4) j(1) nth_mem [of j css] by auto
        then have "j = i" using j True by (cases "j = i") simp_all
        then show ?thesis using True data(2) same by (simp add: item_bucket_def assms(6) bucket_of_def)
      next
        case False
        then have "y \<in> set (css ! j)" using j by (cases "j = i") simp_all
        then show ?thesis using ok(6) j(1) False data(2) same by (simp add: bucketed_def item_bucket_def)
      qed
    qed
    show "item_hash (lh_mem lh1 y) = hashf (lh_hash lh1) (item_data (lh_mem lh1 y))" if "y \<in> set (concat ?css)" for y
      using that ok(7) unfolding sx(1) data same by auto
    show "y = z" if "y \<in> set (concat ?css)" "z \<in> set (concat ?css)"
        "cmp (lh_comp lh1) (item_data (lh_mem lh1 y)) (item_data (lh_mem lh1 z)) = 0" for y z
      using that ok(8) [of y z] new [of y] new [of z] unfolding sx(1) data same by (auto split: if_splits)
  qed (use ok sx same l1 in simp_all)
  moreover have "contents lh1 ?css = insert d (contents lh css)"
    using assms(4) unfolding contents_def sx(1) data by auto
  ultimately show ?thesis using sx(1) same by blast
qed

lemma insert_item_ok:
  assumes "lh_ok hashf cmp lh css" "hash_respects (hashf (lh_hash lh)) (cmp (lh_comp lh))" "num_items lh + 1 < SIZE_MOD"
    and "\<And>x. item = Some x \<Longrightarrow> x \<noteq> 0 \<and> x \<notin> set (concat css)"
  shows "\<exists>r old lh' css'. OPENSSL_lh_insert hashf cmp mal item lh d = Some (r, old, lh') \<and> lh_ok hashf cmp lh' css' \<and>
    callback_depth lh' = callback_depth lh \<and> lh_hash lh' = lh_hash lh \<and> lh_comp lh' = lh_comp lh \<and>
    set (concat css') \<subseteq> set (concat css) \<union> set_option item \<and>
    (if \<exists>e\<in>contents lh css. cmp (lh_comp lh) e d = 0
     then r \<and> old \<in> contents lh css \<and> cmp (lh_comp lh) old d = 0 \<and> contents lh' css' = insert d (contents lh css - {old})
     else if item = None then \<not> r \<and> old = 0 \<and> lh' = lh \<and> css' = css
     else r \<and> old = 0 \<and> contents lh' css' = insert d (contents lh css))"
proof -
  obtain i k where ik: "i = bucket_of hashf lh d" "k = place_of cmp lh (css ! i) d" by simp
  note f = find_ok [OF assms(1,2) ik] and ok = lh_okD [OF assms(1)]
  let ?cur = "read_slot lh (slot_at (Bucket i) (css ! i) k)"
  show ?thesis
  proof (cases "k < length (css ! i)")
    case True
    let ?x = "css ! i ! k"
    let ?lh = "lh\<lparr>lh_mem := (lh_mem lh)(?x := (lh_mem lh ?x)\<lparr>item_data := d\<rparr>)\<rparr>"
    note a = table_addr [OF assms(1) f(2) True]
    have "?cur = ?x" using f(4) True by (simp add: addr_at_def)
    then have "OPENSSL_lh_insert hashf cmp mal item lh d = Some (True, item_data (lh_mem lh ?x), ?lh)"
      using f(1) a(2) by (simp add: OPENSSL_lh_insert_def Let_def)
    moreover have "item_data (lh_mem lh ?x) \<in> contents lh css" using a(1) by (simp only: contents_def image_eqI)
    moreover note replace_ok [OF assms(1,2) a(1) f(5) [OF True]]
    ultimately show ?thesis using f(5,6) True by (intro exI [of _ ?lh] exI) auto
  next
    case False
    then have k: "k = length (css ! i)" "?cur = 0" using f(3,4) by (simp_all add: addr_at_def)
    have none: "\<forall>e\<in>contents lh css. cmp (lh_comp lh) e d \<noteq> 0" using f(6) False by blast
    show ?thesis
    proof (cases item)
      case None
      then have "OPENSSL_lh_insert hashf cmp mal item lh d = Some (False, 0, lh)" using f(1) k(2) by (simp add: OPENSSL_lh_insert_def Let_def)
      then show ?thesis using None none assms(1) by (intro exI [of _ lh] exI) auto
    next
      case (Some x)
      obtain lh0 lh1 where lh: "lh0 = lh\<lparr>lh_mem := (lh_mem lh)(x := \<lparr>item_data = d, item_next = 0, item_hash = hashf (lh_hash lh) d\<rparr>)\<rparr>"
        "lh1 = (write_slot (slot_at (Bucket i) (css ! i) (length (css ! i))) x lh0)\<lparr>num_items := num_items lh + 1\<rparr>" by simp
      have "x \<noteq> 0" "x \<notin> set (concat css)" using assms(4) [OF Some] by simp_all
      from append_ok [OF assms(1,2) this none ik(1) lh] obtain css1 where c1: "lh_ok hashf cmp lh1 css1" "contents lh1 css1 = insert d (contents lh css)"
        "set (concat css1) = insert x (set (concat css))" "callback_depth lh1 = callback_depth lh" "lh_hash lh1 = lh_hash lh" "lh_comp lh1 = lh_comp lh"
        by blast
      from resize_ok [OF c1(1), of mal] obtain lh' css' where r: "lh_maybe_resize mal lh1 = Some lh'" "lh_ok hashf cmp lh' css'"
        "contents lh' css' = contents lh1 css1" "set (concat css') = set (concat css1)" "callback_depth lh' = callback_depth lh1"
        "lh_hash lh' = lh_hash lh1" "lh_comp lh' = lh_comp lh1" by blast
      have n: "num_items (write_slot sl v lh0) = num_items lh" for sl v using lh(1) by (cases sl) simp_all
      have "OPENSSL_lh_insert hashf cmp mal item lh d = Some (True, 0, lh')"
        using f(1) k Some r(1) n assms(3) lh by (simp add: OPENSSL_lh_insert_def Let_def)
      then show ?thesis using Some none r c1 by (intro exI [of _ lh'] exI [of _ css'] exI) auto
    qed
  qed
qed

section \<open>Visiting all\<close>

lemma doall_chain_visits:
  assumes "\<And>d lh w. func d (lh, w) = Some (lh, f d w)"
  shows "item_chain (lh_mem lh) cur xs \<Longrightarrow> doall_chain func cur (lh, w) = Some (lh, fold (\<lambda>x. f (item_data (lh_mem lh x))) xs w)"
proof (induction xs arbitrary: cur w)
  case Nil
  then show ?case by (subst doall_chain.simps) simp
next
  case (Cons x xs)
  then show ?case using assms by (subst doall_chain.simps) (simp add: Let_def)
qed

lemma doall_buckets_visits:
  assumes "\<And>d lh w. func d (lh, w) = Some (lh, f d w)" "shaped (lh_mem lh) (buckets lh) css" "length css = num_buckets lh"
  shows "i \<le> length css \<Longrightarrow> doall_buckets func i (lh, w) = Some (lh, fold (\<lambda>x. f (item_data (lh_mem lh x))) (concat (drop i css)) w)"
proof (induction "length css - i" arbitrary: i w)
  case 0
  then show ?case using assms(3) by (subst doall_buckets.simps) simp
next
  case (Suc n)
  then have i: "i < length css" "n = length css - (i + 1)" "i + 1 \<le> length css" by simp_all
  have "doall_chain func (buckets lh ! i) (lh, w) = Some (lh, fold (\<lambda>x. f (item_data (lh_mem lh x))) (css ! i) w)"
    by (rule doall_chain_visits [OF assms(1) shapedD(2) [OF assms(2) i(1)]])
  moreover have "drop i css = css ! i # drop (i + 1) css" using Cons_nth_drop_Suc [OF i(1)] by simp
  ultimately show ?case
    using i assms(3) Suc.hyps(1) [OF i(2,3)] by (subst doall_buckets.simps) simp
qed

end
