(* ===== verification/LhashProps.thy ===== *)
theory LhashProps
  imports LhashInv
begin

text \<open>
  The properties of hash tables: a table is a set of pointers of which no two are equal, searching and visiting see all of
  it, and the chains stay short.
\<close>

section \<open>The set that a table represents\<close>

definition represents :: "call_hash \<Rightarrow> call_compare \<Rightarrow> lhash \<Rightarrow> addr set \<Rightarrow> bool" where
  "represents hashf cmp lh D \<longleftrightarrow> (\<exists>css. lh_ok hashf cmp lh css \<and> contents lh css = D)"

text \<open>The items that can be reached from the table.\<close>

inductive linked :: "lhash \<Rightarrow> addr \<Rightarrow> bool" for lh where
  head: "i < num_buckets lh \<Longrightarrow> buckets lh ! i \<noteq> 0 \<Longrightarrow> linked lh (buckets lh ! i)"
| rest: "linked lh x \<Longrightarrow> item_next (lh_mem lh x) \<noteq> 0 \<Longrightarrow> linked lh (item_next (lh_mem lh x))"

lemma chain_linked: "item_chain (lh_mem lh) p xs \<Longrightarrow> p \<noteq> 0 \<longrightarrow> linked lh p \<Longrightarrow> x \<in> set xs \<Longrightarrow> linked lh x"
proof (induction xs arbitrary: p)
  case (Cons y ys)
  then have y: "linked lh y" "item_chain (lh_mem lh) (item_next (lh_mem lh y)) ys" by simp_all
  show ?case
  proof (cases "x = y")
    case False
    then show ?thesis using Cons.IH [OF y(2)] linked.rest [OF y(1)] Cons.prems(3) by simp
  qed (use y in simp)
qed simp

lemma in_table_linked:
  assumes "lh_ok hashf cmp lh css" "x \<in> set (concat css)"
  shows "linked lh x"
proof -
  obtain cs where "cs \<in> set css" "x \<in> set cs" using assms(2) by auto
  then obtain i where i: "i < length css" "x \<in> set (css ! i)" unfolding in_set_conv_nth by metis
  have "buckets lh ! i \<noteq> 0 \<longrightarrow> linked lh (buckets lh ! i)" using linked.head [of i lh] i(1) lh_okD(2) [OF assms(1)] by simp
  then show ?thesis using chain_linked [OF shapedD(2) [OF lh_okD(1) [OF assms(1)] i(1)]] i(2) by blast
qed

text \<open>What the code relies on: \<open>malloc\<close> returns NULL or an item that is not in use, and a table has less items than
  there are addresses.\<close>

definition fresh_item :: "lhash \<Rightarrow> addr option \<Rightarrow> bool" where
  "fresh_item lh item \<longleftrightarrow> (\<forall>x. item = Some x \<longrightarrow> x \<noteq> 0 \<and> \<not> linked lh x) \<and> num_items lh + 1 < SIZE_MOD"

text \<open>C12. Refinement: a hash table is a set of pointers of which no two are equal. A retrieval returns the element that is equal,
  or NULL; an insertion replaces the element that is equal and returns it, or adds the new one, and fails only if it needs
  memory and there is none, with the table as it was; a deletion removes the element that is equal and returns it, or NULL.
  All of them return, and resizing, whether it finds memory or not, does not show.\<close>

theorem lhash_refines_set:
  assumes "represents hashf cmp lh D" "hash_respects (hashf (lh_hash lh)) (cmp (lh_comp lh))" "fresh_item lh item"
  shows "(\<exists>r. OPENSSL_lh_retrieve hashf cmp lh d = Some r \<and>
      (if \<exists>e\<in>D. cmp (lh_comp lh) e d = 0 then r \<in> D \<and> cmp (lh_comp lh) r d = 0 else r = 0)) \<and>
    (\<exists>r old lh' D'. OPENSSL_lh_insert hashf cmp mal item lh d = Some (r, old, lh') \<and> represents hashf cmp lh' D' \<and>
      (if \<exists>e\<in>D. cmp (lh_comp lh) e d = 0 then r \<and> old \<in> D \<and> cmp (lh_comp lh) old d = 0 \<and> D' = insert d (D - {old})
       else if item = None then \<not> r \<and> old = 0 \<and> lh' = lh
       else r \<and> old = 0 \<and> D' = insert d D)) \<and>
    (\<exists>r lh' D'. OPENSSL_lh_delete hashf cmp mal lh d = Some (r, lh') \<and> represents hashf cmp lh' D' \<and>
      (if \<exists>e\<in>D. cmp (lh_comp lh) e d = 0 then r \<in> D \<and> cmp (lh_comp lh) r d = 0 \<and> D' = D - {r}
       else r = 0 \<and> lh' = lh))"
proof -
  obtain css where c: "lh_ok hashf cmp lh css" "contents lh css = D" using assms(1) by (auto simp: represents_def)
  have fr: "x \<noteq> 0 \<and> x \<notin> set (concat css)" if "item = Some x" for x
    using assms(3) in_table_linked [OF c(1), of x] that unfolding fresh_item_def by blast
  have sz: "num_items lh + 1 < SIZE_MOD" using assms(3) by (simp add: fresh_item_def)
  obtain r1 where 1: "OPENSSL_lh_retrieve hashf cmp lh d = Some r1"
    "if \<exists>e\<in>D. cmp (lh_comp lh) e d = 0 then r1 \<in> D \<and> cmp (lh_comp lh) r1 d = 0 else r1 = 0"
    using retrieve_ok [OF c(1) assms(2), of d] unfolding c(2) by blast
  obtain r2 old lh2 css2 where 2: "OPENSSL_lh_insert hashf cmp mal item lh d = Some (r2, old, lh2)" "lh_ok hashf cmp lh2 css2"
    "if \<exists>e\<in>D. cmp (lh_comp lh) e d = 0 then r2 \<and> old \<in> D \<and> cmp (lh_comp lh) old d = 0 \<and> contents lh2 css2 = insert d (D - {old})
     else if item = None then \<not> r2 \<and> old = 0 \<and> lh2 = lh \<and> css2 = css else r2 \<and> old = 0 \<and> contents lh2 css2 = insert d D"
    using insert_item_ok [of hashf cmp lh css item mal d, OF c(1) assms(2) sz fr] unfolding c(2) by blast
  obtain r3 lh3 css3 where 3: "OPENSSL_lh_delete hashf cmp mal lh d = Some (r3, lh3)" "lh_ok hashf cmp lh3 css3"
    "if \<exists>e\<in>D. cmp (lh_comp lh) e d = 0 then r3 \<in> D \<and> cmp (lh_comp lh) r3 d = 0 \<and> contents lh3 css3 = D - {r3} \<and> num_items lh = num_items lh3 + 1
     else r3 = 0 \<and> lh3 = lh \<and> css3 = css"
    using delete_item_ok [OF c(1) assms(2), where mal = mal and d = d] unfolding c(2) by blast
  have "represents hashf cmp lh2 (contents lh2 css2)" "represents hashf cmp lh3 (contents lh3 css3)" using 2(2) 3(2) by (auto simp: represents_def)
  then show ?thesis
    using 1 2(1,3) 3(1,3) by (intro conjI) (blast, (intro exI conjI, assumption, assumption, metis)+)
qed

section \<open>Reachable tables\<close>

text \<open>Callbacks of \<open>OPENSSL_lh_doall_arg\<close> that leave the table alone.\<close>

definition reads_only :: "(addr \<Rightarrow> 'w \<Rightarrow> 'w) \<Rightarrow> addr \<Rightarrow> lhash \<times> 'w \<Rightarrow> (lhash \<times> 'w) option" where
  "reads_only f d st = Some (fst st, f d (snd st))"

text \<open>What the operations make of a table: insertions, deletions and iterations, one after the other. The callback of an iteration
  may itself be any such operations on the table.\<close>

inductive table_ops :: "call_hash \<Rightarrow> call_compare \<Rightarrow> lhash \<Rightarrow> lhash \<Rightarrow> bool" for hashf cmp where
  none: "table_ops hashf cmp lh lh"
| insert: "table_ops hashf cmp lh lh1 \<Longrightarrow> fresh_item lh1 item \<Longrightarrow>
    OPENSSL_lh_insert hashf cmp mal item lh1 d = Some (r, old, lh2) \<Longrightarrow> table_ops hashf cmp lh lh2"
| delete: "table_ops hashf cmp lh lh1 \<Longrightarrow> OPENSSL_lh_delete hashf cmp mal lh1 d = Some (p, lh2) \<Longrightarrow> table_ops hashf cmp lh lh2"
| doall: "table_ops hashf cmp lh lh1 \<Longrightarrow> \<forall>d st st'. func d st = Some st' \<longrightarrow> table_ops hashf cmp (fst st) (fst st') \<Longrightarrow>
    OPENSSL_lh_doall_arg mal func lh1 (w :: nat list) = Some (lh2, w') \<Longrightarrow> table_ops hashf cmp lh lh2"

text \<open>The tables that a program can see: new ones, what the operations make of them, and the table as the callbacks of an
  iteration find it, with \<open>callback_depth\<close> incremented.\<close>

inductive lh_reachable :: "call_hash \<Rightarrow> call_compare \<Rightarrow> addr \<Rightarrow> addr \<Rightarrow> lhash \<Rightarrow> bool" for hashf cmp hash_fn cmp_fn where
  new: "OPENSSL_lh_new mal hash_fn cmp_fn m = Some lh \<Longrightarrow> lh_reachable hashf cmp hash_fn cmp_fn lh"
| ops: "lh_reachable hashf cmp hash_fn cmp_fn lh \<Longrightarrow> table_ops hashf cmp lh lh' \<Longrightarrow> lh_reachable hashf cmp hash_fn cmp_fn lh'"
| iterating: "lh_reachable hashf cmp hash_fn cmp_fn lh \<Longrightarrow> callback_depth lh < UINT_MAX32 \<Longrightarrow>
    lh_reachable hashf cmp hash_fn cmp_fn (lh\<lparr>callback_depth := callback_depth lh + 1\<rparr>)"

lemma depth_ok: "lh_ok hashf cmp (lh\<lparr>callback_depth := n\<rparr>) css \<longleftrightarrow> lh_ok hashf cmp lh css" "contents (lh\<lparr>callback_depth := n\<rparr>) css = contents lh css"
  by (simp_all add: lh_ok_def contents_def)

lemma doall_ok:
  assumes "lh_ok hashf cmp lh css" "callback_depth lh < UINT_MAX32"
  shows "\<exists>lh' css'. OPENSSL_lh_doall_arg mal (reads_only f) lh w = Some (lh', fold (\<lambda>x. f (item_data (lh_mem lh x))) (concat css) w) \<and>
    lh_ok hashf cmp lh' css' \<and> contents lh' css' = contents lh css \<and>
    callback_depth lh' = (if callback_depth lh + 1 < UINT_MAX32 then callback_depth lh else UINT_MAX32) \<and>
    lh_hash lh' = lh_hash lh \<and> lh_comp lh' = lh_comp lh \<and> num_items lh' = num_items lh"
proof -
  let ?lh = "lh\<lparr>callback_depth := callback_depth lh + 1\<rparr>"
  let ?lh2 = "if callback_depth ?lh < UINT_MAX32 then ?lh\<lparr>callback_depth := callback_depth ?lh - 1\<rparr> else ?lh"
  have ok: "lh_ok hashf cmp ?lh css" using assms(1) by (simp add: depth_ok)
  have "doall_buckets (reads_only f) 0 (?lh, w) = Some (?lh, fold (\<lambda>x. f (item_data (lh_mem ?lh x))) (concat (drop 0 css)) w)"
    by (rule doall_buckets_visits [OF _ lh_okD(1,2) [OF ok]]) (simp_all add: reads_only_def)
  then have d: "doall_buckets (reads_only f) 0 (?lh, w) = Some (?lh, fold (\<lambda>x. f (item_data (lh_mem lh x))) (concat css) w)" by simp
  have "lh_ok hashf cmp ?lh2 css" using assms(1) by (simp add: depth_ok)
  from resize_ok [OF this, of mal] obtain lh' css' where r: "lh_maybe_resize mal ?lh2 = Some lh'" "lh_ok hashf cmp lh' css'"
    "contents lh' css' = contents ?lh2 css" "num_items lh' = num_items ?lh2" "callback_depth lh' = callback_depth ?lh2"
    "lh_hash lh' = lh_hash ?lh2" "lh_comp lh' = lh_comp ?lh2" by blast
  have "OPENSSL_lh_doall_arg mal (reads_only f) lh w = Some (lh', fold (\<lambda>x. f (item_data (lh_mem lh x))) (concat css) w)"
    using assms(2) d r(1) by (cases "callback_depth lh + 1 < UINT_MAX32") (simp_all add: OPENSSL_lh_doall_arg_def Let_def)
  then show ?thesis using r assms(2) by (intro exI [of _ lh'] exI [of _ css']) (auto simp: depth_ok)
qed

text \<open>What an operation keeps of a table that is well formed: that it is, and, while callbacks run, the array.\<close>

definition lh_keeps :: "call_hash \<Rightarrow> call_compare \<Rightarrow> lhash \<Rightarrow> lhash \<Rightarrow> bool" where
  "lh_keeps hashf cmp lh lh' \<longleftrightarrow>
     ((\<exists>css. lh_ok hashf cmp lh css) \<and> hash_respects (hashf (lh_hash lh)) (cmp (lh_comp lh)) \<longrightarrow>
      (\<exists>css. lh_ok hashf cmp lh' css) \<and> lh_hash lh' = lh_hash lh \<and> lh_comp lh' = lh_comp lh \<and> callback_depth lh \<le> callback_depth lh' \<and>
      (0 < callback_depth lh \<longrightarrow> num_buckets lh' = num_buckets lh))"

lemma lh_keeps_refl: "lh_keeps hashf cmp lh lh"
  by (simp add: lh_keeps_def)

lemma lh_keeps_trans: "lh_keeps hashf cmp lh lh1 \<Longrightarrow> lh_keeps hashf cmp lh1 lh2 \<Longrightarrow> lh_keeps hashf cmp lh lh2"
  unfolding lh_keeps_def by (metis le_trans less_le_trans)

lemma write_slot_same:
  "num_items (write_slot sl v lh) = num_items lh" "num_buckets (write_slot sl v lh) = num_buckets lh" "callback_depth (write_slot sl v lh) = callback_depth lh"
  by (cases sl; simp)+

text \<open>While callbacks run nothing is resized.\<close>

lemma resize_iterating: "0 < callback_depth lh \<Longrightarrow> lh_maybe_resize mal lh = Some lh"
  by (simp add: lh_maybe_resize_def)

lemma insert_iterating:
  assumes "OPENSSL_lh_insert hashf cmp mal item lh d = Some (r, old, lh')" "0 < callback_depth lh"
  shows "num_buckets lh' = num_buckets lh"
  using assms by (auto simp: OPENSSL_lh_insert_def Let_def resize_iterating write_slot_same split: option.splits if_splits)

lemma delete_iterating:
  assumes "OPENSSL_lh_delete hashf cmp mal lh d = Some (p, lh')" "0 < callback_depth lh"
  shows "num_buckets lh' = num_buckets lh"
  using assms by (auto simp: OPENSSL_lh_delete_def Let_def resize_iterating write_slot_same split: option.splits if_splits)

lemma insert_keeps:
  assumes "fresh_item lh item" "OPENSSL_lh_insert hashf cmp mal item lh d = Some (r, old, lh')"
  shows "lh_keeps hashf cmp lh lh'"
  unfolding lh_keeps_def
proof (intro impI)
  assume "(\<exists>css. lh_ok hashf cmp lh css) \<and> hash_respects (hashf (lh_hash lh)) (cmp (lh_comp lh))"
  then obtain css where c: "lh_ok hashf cmp lh css" "hash_respects (hashf (lh_hash lh)) (cmp (lh_comp lh))" by blast
  have fr: "x \<noteq> 0 \<and> x \<notin> set (concat css)" if "item = Some x" for x
    using assms(1) in_table_linked [OF c(1), of x] that unfolding fresh_item_def by blast
  have sz: "num_items lh + 1 < SIZE_MOD" using assms(1) by (simp add: fresh_item_def)
  show "(\<exists>css. lh_ok hashf cmp lh' css) \<and> lh_hash lh' = lh_hash lh \<and> lh_comp lh' = lh_comp lh \<and> callback_depth lh \<le> callback_depth lh' \<and>
    (0 < callback_depth lh \<longrightarrow> num_buckets lh' = num_buckets lh)"
    using insert_item_ok [of hashf cmp lh css item mal d, OF c sz fr] insert_iterating [OF assms(2)] assms(2) by auto
qed

lemma delete_keeps:
  assumes "OPENSSL_lh_delete hashf cmp mal lh d = Some (p, lh')"
  shows "lh_keeps hashf cmp lh lh'"
  unfolding lh_keeps_def
proof (intro impI)
  assume "(\<exists>css. lh_ok hashf cmp lh css) \<and> hash_respects (hashf (lh_hash lh)) (cmp (lh_comp lh))"
  then obtain css where c: "lh_ok hashf cmp lh css" "hash_respects (hashf (lh_hash lh)) (cmp (lh_comp lh))" by blast
  show "(\<exists>css. lh_ok hashf cmp lh' css) \<and> lh_hash lh' = lh_hash lh \<and> lh_comp lh' = lh_comp lh \<and> callback_depth lh \<le> callback_depth lh' \<and>
    (0 < callback_depth lh \<longrightarrow> num_buckets lh' = num_buckets lh)"
    using delete_item_ok [OF c, where mal = mal and d = d] delete_iterating [OF assms] assms by auto
qed

lemma chain_keeps:
  assumes "\<forall>d st st'. func d st = Some st' \<longrightarrow> lh_keeps hashf cmp (fst st) (fst st')" "doall_chain func cur st = Some st'"
  shows "lh_keeps hashf cmp (fst st) (fst st')"
  using assms(2,1)
proof (induction func cur st st' rule: doall_chain.raw_induct [rotated, consumes 1, case_names step])
  case (step loop func cur st st')
  show ?case
  proof (cases "cur = 0")
    case True
    then show ?thesis using step(2) by (simp add: lh_keeps_refl)
  next
    case False
    then obtain st1 where st1: "func (item_data (lh_mem (fst st) cur)) st = Some st1" "loop func (item_next (lh_mem (fst st) cur)) st1 = Some st'"
      using step(2) by (auto simp: Let_def split: option.splits)
    have "lh_keeps hashf cmp (fst st) (fst st1)" using step(3) st1(1) by blast
    from lh_keeps_trans [OF this step(1) [OF st1(2) step(3)]] show ?thesis .
  qed
qed

lemma buckets_keep:
  assumes "\<forall>d st st'. func d st = Some st' \<longrightarrow> lh_keeps hashf cmp (fst st) (fst st')" "doall_buckets func i st = Some st'"
  shows "lh_keeps hashf cmp (fst st) (fst st')"
  using assms(2,1)
proof (induction func i st st' rule: doall_buckets.raw_induct [rotated, consumes 1, case_names step])
  case (step loop func i st st')
  show ?case
  proof (cases "i < num_buckets (fst st)")
    case False
    then show ?thesis using step(2) by (simp add: lh_keeps_refl)
  next
    case True
    then obtain st1 where st1: "doall_chain func (buckets (fst st) ! i) st = Some st1" "loop func (i + 1) st1 = Some st'"
      using step(2) by (auto split: option.splits)
    from lh_keeps_trans [OF chain_keeps [OF step(3) st1(1)] step(1) [OF st1(2) step(3)]] show ?thesis .
  qed
qed

lemma doall_keeps:
  assumes "\<forall>d st st'. func d st = Some st' \<longrightarrow> lh_keeps hashf cmp (fst st) (fst st')"
    and "OPENSSL_lh_doall_arg mal func lh w = Some (lh', w')"
  shows "lh_keeps hashf cmp lh lh'"
  unfolding lh_keeps_def
proof (intro impI)
  assume pre: "(\<exists>css. lh_ok hashf cmp lh css) \<and> hash_respects (hashf (lh_hash lh)) (cmp (lh_comp lh))"
  obtain lh0 where lh0: "lh0 = (if callback_depth lh < UINT_MAX32 then lh\<lparr>callback_depth := callback_depth lh + 1\<rparr> else lh)" by simp
  obtain lh1 w1 where d: "doall_buckets func 0 (lh0, w) = Some (lh1, w1)"
    using assms(2) unfolding OPENSSL_lh_doall_arg_def Let_def lh0 by (auto split: option.splits)
  obtain lh2 where lh2: "lh2 = (if callback_depth lh1 < UINT_MAX32 then lh1\<lparr>callback_depth := callback_depth lh1 - 1\<rparr> else lh1)" by simp
  have m: "lh_maybe_resize mal lh2 = Some lh'"
    using assms(2) d unfolding OPENSSL_lh_doall_arg_def Let_def lh0 [symmetric] lh2 by (auto split: option.splits)
  have "(\<exists>css. lh_ok hashf cmp lh0 css) \<and> hash_respects (hashf (lh_hash lh0)) (cmp (lh_comp lh0))" using pre by (auto simp: lh0 depth_ok)
  with buckets_keep [OF assms(1) d] obtain css where 1: "lh_ok hashf cmp lh1 css" "lh_hash lh1 = lh_hash lh0" "lh_comp lh1 = lh_comp lh0"
    "callback_depth lh0 \<le> callback_depth lh1" "0 < callback_depth lh0 \<longrightarrow> num_buckets lh1 = num_buckets lh0"
    unfolding lh_keeps_def by auto
  have 2: "lh_ok hashf cmp lh2 css" "callback_depth lh \<le> callback_depth lh2" "num_buckets lh2 = num_buckets lh"
    "lh_hash lh2 = lh_hash lh" "lh_comp lh2 = lh_comp lh"
    using 1 by (auto simp: lh2 lh0 depth_ok split: if_splits)
  have "num_buckets lh' = num_buckets lh" if "0 < callback_depth lh"
    using resize_iterating [of lh2 mal] that m 2(2,3) by simp
  then show "(\<exists>css. lh_ok hashf cmp lh' css) \<and> lh_hash lh' = lh_hash lh \<and> lh_comp lh' = lh_comp lh \<and> callback_depth lh \<le> callback_depth lh' \<and>
    (0 < callback_depth lh \<longrightarrow> num_buckets lh' = num_buckets lh)"
    using resize_ok [OF 2(1), of mal] m 2 by auto
qed

lemma table_ops_keep: "table_ops hashf cmp lh lh' \<Longrightarrow> lh_keeps hashf cmp lh lh'"
proof (induction rule: table_ops.induct)
  case (none lh)
  then show ?case by (rule lh_keeps_refl)
next
  case (insert lh lh1 item mal d r old lh2)
  from lh_keeps_trans [OF insert.IH insert_keeps [OF insert.hyps(2,3)]] show ?case .
next
  case (delete lh lh1 mal d p lh2)
  from lh_keeps_trans [OF delete.IH delete_keeps [OF delete.hyps(2)]] show ?case .
next
  case (doall lh lh1 func mal w lh2 w')
  have "\<forall>d st st'. func d st = Some st' \<longrightarrow> lh_keeps hashf cmp (fst st) (fst st')" using doall.IH(2) by blast
  from lh_keeps_trans [OF doall.IH(1) doall_keeps [OF this doall.hyps(2)]] show ?case .
qed

lemma reachable_table:
  assumes "hash_respects (hashf hash_fn) (cmp cmp_fn)" "lh_reachable hashf cmp hash_fn cmp_fn lh"
  shows "(\<exists>css. lh_ok hashf cmp lh css) \<and> lh_hash lh = hash_fn \<and> lh_comp lh = cmp_fn"
  using assms(2)
proof (induction rule: lh_reachable.induct)
  case (new mal m lh)
  then show ?case using new_table [OF new, of hashf cmp] by blast
next
  case (ops lh lh')
  then show ?case using table_ops_keep [OF ops.hyps(2)] assms(1) unfolding lh_keeps_def by simp
next
  case (iterating lh)
  then show ?case by (simp add: depth_ok)
qed

lemma contents_card:
  assumes "lh_ok hashf cmp lh css" "hash_respects (hashf (lh_hash lh)) (cmp (lh_comp lh))"
  shows "distinct (map (\<lambda>x. item_data (lh_mem lh x)) (concat css))" "card (contents lh css) = num_items lh"
proof -
  note ok = lh_okD [OF assms(1)]
  have "inj_on (\<lambda>x. item_data (lh_mem lh x)) (set (concat css))"
    by (rule inj_onI) (use ok(8) hash_respectsD(1) [OF assms(2)] in metis)
  then show d: "distinct (map (\<lambda>x. item_data (lh_mem lh x)) (concat css))" using shapedD(3) [OF ok(1)] by (simp only: distinct_map)
  have "contents lh css = set (map (\<lambda>x. item_data (lh_mem lh x)) (concat css))" by (simp add: contents_def)
  then show "card (contents lh css) = num_items lh" using distinct_card [OF d] ok(5) by simp
qed

definition well_formed_table :: "call_hash \<Rightarrow> call_compare \<Rightarrow> lhash \<Rightarrow> bool" where
  "well_formed_table hashf cmp lh \<longleftrightarrow>
     (\<exists>D. represents hashf cmp lh D \<and> card D = OPENSSL_lh_num_items lh \<and> (\<forall>d\<in>D. \<forall>e\<in>D. cmp (lh_comp lh) d e = 0 \<longrightarrow> d = e)) \<and>
     kMinNumBuckets \<le> num_buckets lh \<and> length (buckets lh) = num_buckets lh"

lemma lh_ok_well_formed:
  assumes "lh_ok hashf cmp lh css" "hash_respects (hashf (lh_hash lh)) (cmp (lh_comp lh))"
  shows "well_formed_table hashf cmp lh"
proof -
  note ok = lh_okD [OF assms(1)]
  have "card (contents lh css) = num_items lh" by (rule contents_card(2) [OF assms])
  moreover have "d = e" if "d \<in> contents lh css" "e \<in> contents lh css" "cmp (lh_comp lh) d e = 0" for d e
    using that ok(8) unfolding contents_def by (smt (verit) imageE)
  ultimately show ?thesis
    unfolding well_formed_table_def using assms(1) ok(2,3) shapedD(1) [OF ok(1)]
    by (intro conjI exI [of _ "contents lh css"]) (auto simp: represents_def OPENSSL_lh_num_items_def)
qed

text \<open>C13. Every table that a program can see is well formed: each item is in the bucket of its cached hash, which is the hash of
  its data, no two elements are equal, \<open>num_items\<close> is the number of elements, and there are at least sixteen buckets. The
  tables are all those that insertions, deletions and iterations make, where the callbacks of an iteration may insert, delete and iterate on the
  table themselves, and also the tables in the middle of an iteration. While an iteration runs, at any depth, no operation
  of a callback changes the number of buckets, so that the iteration can go on. The comparison is an equivalence that the hash respects,
  and the allocator gives items that are not in the table. (A callback that deletes the item after its own makes the iteration
  read a freed item; which items are visited is not stated here.)\<close>

theorem lhash_well_formed:
  assumes "hash_respects (hashf hash_fn) (cmp cmp_fn)" "lh_reachable hashf cmp hash_fn cmp_fn lh"
  shows "well_formed_table hashf cmp lh \<and>
    (\<forall>lh'. table_ops hashf cmp lh lh' \<longrightarrow> well_formed_table hashf cmp lh' \<and> (0 < callback_depth lh \<longrightarrow> num_buckets lh' = num_buckets lh))"
proof (intro conjI allI impI)
  have wf: "well_formed_table hashf cmp lh" if "lh_reachable hashf cmp hash_fn cmp_fn lh" for lh
    using reachable_table [OF assms(1) that] assms(1) lh_ok_well_formed by metis
  show "well_formed_table hashf cmp lh" by (rule wf [OF assms(2)])
  fix lh'
  assume o: "table_ops hashf cmp lh lh'"
  show "well_formed_table hashf cmp lh'" by (rule wf [OF lh_reachable.ops [OF assms(2) o]])
  show "num_buckets lh' = num_buckets lh" if "0 < callback_depth lh"
    using table_ops_keep [OF o] reachable_table [OF assms] assms(1) that unfolding lh_keeps_def by auto
qed

text \<open>C23. \<open>OPENSSL_lh_doall_arg\<close> returns, and calls a function that leaves the table alone exactly once on each element; the
  resize that it may do afterwards keeps the elements.\<close>

theorem doall_visits_once:
  assumes "represents hashf cmp lh D" "hash_respects (hashf (lh_hash lh)) (cmp (lh_comp lh))" "callback_depth lh < UINT_MAX32"
  shows "\<exists>ds lh'. OPENSSL_lh_doall_arg mal (reads_only f) lh w = Some (lh', fold f ds w) \<and> distinct ds \<and> set ds = D \<and>
    length ds = OPENSSL_lh_num_items lh \<and> represents hashf cmp lh' D"
proof -
  obtain css where c: "lh_ok hashf cmp lh css" "contents lh css = D" using assms(1) by (auto simp: represents_def)
  let ?ds = "map (\<lambda>x. item_data (lh_mem lh x)) (concat css)"
  obtain lh' css' where d: "OPENSSL_lh_doall_arg mal (reads_only f) lh w = Some (lh', fold (\<lambda>x. f (item_data (lh_mem lh x))) (concat css) w)"
    "lh_ok hashf cmp lh' css'" "contents lh' css' = D" using doall_ok [OF c(1) assms(3), of mal f w] unfolding c(2) by (elim exE conjE)
  have "fold (\<lambda>x. f (item_data (lh_mem lh x))) (concat css) w = fold f ?ds w" by (simp add: fold_map o_def)
  moreover have "set ?ds = D" using c(2) by (simp add: contents_def)
  moreover have "length ?ds = num_items lh" using lh_okD(5) [OF c(1)] by simp
  ultimately show ?thesis
    using d contents_card(1) [OF c(1) assms(2)] unfolding represents_def OPENSSL_lh_num_items_def
    by (intro exI [of _ ?ds] exI [of _ lh'] conjI) (simp, assumption, assumption, assumption, blast)
qed

section \<open>The load\<close>

lemma rebucket_size:
  assumes "lh_rebucket mal lh n = Some lh'" "mal (item_ptr_size * n)" "item_ptr_size * n < SIZE_MOD"
  shows "num_buckets lh' = n \<and> num_items lh' = num_items lh"
  using assms by (auto simp: lh_rebucket_def Let_def split: option.splits)

definition load_ok :: "lhash \<Rightarrow> bool" where
  "load_ok lh \<longleftrightarrow> num_items lh < 3 * num_buckets lh \<and> kMinNumBuckets \<le> num_buckets lh"

text \<open>An array of twice as many buckets can be addressed.\<close>

definition has_room :: "lhash \<Rightarrow> bool" where
  "has_room lh \<longleftrightarrow> item_ptr_size * (num_buckets lh * 2) < SIZE_MOD"

lemma resize_load:
  assumes "lh_maybe_resize mal lh = Some lh'" "callback_depth lh = 0" "\<forall>n. mal n" "kMinNumBuckets \<le> num_buckets lh"
    and "item_ptr_size * num_buckets lh < SIZE_MOD" "num_items lh < 3 * num_buckets lh \<or> num_items lh \<le> 3 * num_buckets lh \<and> has_room lh"
  shows "load_ok lh'"
proof -
  let ?n = "num_buckets lh"
  let ?avg = "num_items lh div ?n" and ?d = "if ?n div 2 < kMinNumBuckets then kMinNumBuckets else ?n div 2"
  have lt: "num_items lh < (q + 1) * ?n" if "?avg \<le> q" for q
    using that assms(4) div_less_iff_less_mult [of ?n "num_items lh" "q + 1"] by simp
  consider "2 < ?avg" | "?avg < 1" "16 < ?n" | "\<not> 2 < ?avg" "\<not> (?avg < 1 \<and> 16 < ?n)" by linarith
  then show ?thesis
  proof cases
    case 1
    have "\<not> num_items lh < 3 * ?n" using 1 assms(4) div_less_iff_less_mult [of ?n "num_items lh" 3] by simp
    then have full: "num_items lh \<le> 3 * ?n" "item_ptr_size * (?n * 2) < SIZE_MOD" using assms(6) by (auto simp: has_room_def)
    have "szmul ?n 2 = ?n * 2" using full(2) by simp
    then have "lh_rebucket mal lh (?n * 2) = Some lh'" using 1 assms(1,2,4) by (simp add: lh_maybe_resize_def Let_def)
    from rebucket_size [OF this] show ?thesis using assms(3,4) full by (simp add: load_ok_def)
  next
    case 2
    obtain d where d: "d = ?d" by simp
    have m: "lh_rebucket mal lh d = Some lh'" using 2 assms(1,2) unfolding d by (simp add: lh_maybe_resize_def Let_def)
    have k: "kMinNumBuckets \<le> d" "item_ptr_size * d < SIZE_MOD" "num_items lh < 3 * d" using assms(5) lt [of 0] 2 d by (auto split: if_splits)
    from rebucket_size [OF m] show ?thesis using k assms(3) by (simp add: load_ok_def)
  next
    case 3
    then have "lh' = lh" using assms(1) by (auto simp: lh_maybe_resize_def Let_def split: if_splits)
    then show ?thesis using lt [of 2] 3(1) assms(4) by (simp add: load_ok_def)
  qed
qed

lemma insert_load:
  assumes "OPENSSL_lh_insert hashf cmp mal item lh d = Some (r, old, lh')" "load_ok lh" "item_ptr_size * num_buckets lh < SIZE_MOD"
    and "callback_depth lh = 0" "\<forall>n. mal n" "fresh_item lh item" "has_room lh"
  shows "load_ok lh'"
proof -
  obtain h sl where f: "get_next_ptr_and_hash hashf cmp lh d = Some (h, sl)" using assms(1) by (auto simp: OPENSSL_lh_insert_def split: option.splits)
  show ?thesis
  proof (cases "read_slot lh sl = 0 \<and> item \<noteq> None")
    case False
    then have "num_items lh' = num_items lh" "num_buckets lh' = num_buckets lh"
      using assms(1) f by (auto simp: OPENSSL_lh_insert_def Let_def split: if_splits option.splits)
    then show ?thesis using assms(2) by (simp add: load_ok_def)
  next
    case True
    then obtain x where x: "item = Some x" by blast
    let ?lh0 = "write_slot sl x (lh\<lparr>lh_mem := (lh_mem lh)(x := \<lparr>item_data = d, item_next = 0, item_hash = h\<rparr>)\<rparr>)"
    have n: "szadd (num_items lh) 1 = num_items lh + 1" using assms(6) by (simp add: fresh_item_def)
    have m: "lh_maybe_resize mal (?lh0\<lparr>num_items := szadd (num_items ?lh0) 1\<rparr>) = Some lh'"
      using assms(1) f True x by (auto simp: OPENSSL_lh_insert_def Let_def split: option.splits)
    show ?thesis by (rule resize_load [OF m]) (use assms n in \<open>simp_all add: write_slot_same load_ok_def has_room_def\<close>)
  qed
qed

lemma delete_load:
  assumes "OPENSSL_lh_delete hashf cmp mal lh d = Some (p, lh')" "load_ok lh" "item_ptr_size * num_buckets lh < SIZE_MOD"
    and "callback_depth lh = 0" "\<forall>n. mal n"
  shows "load_ok lh'"
proof -
  obtain h sl where f: "get_next_ptr_and_hash hashf cmp lh d = Some (h, sl)" using assms(1) by (auto simp: OPENSSL_lh_delete_def split: option.splits)
  show ?thesis
  proof (cases "read_slot lh sl = 0")
    case True
    then have "lh' = lh" using assms(1) f by (auto simp: OPENSSL_lh_delete_def Let_def)
    then show ?thesis using assms(2) by simp
  next
    case False
    let ?lh0 = "write_slot sl (item_next (lh_mem lh (read_slot lh sl))) lh"
    have m: "lh_maybe_resize mal (?lh0\<lparr>num_items := num_items ?lh0 - 1\<rparr>) = Some lh'"
      using assms(1) f False by (auto simp: OPENSSL_lh_delete_def Let_def split: option.splits)
    show ?thesis by (rule resize_load [OF m]) (use assms in \<open>auto simp: write_slot_same load_ok_def\<close>)
  qed
qed

lemma doall_load:
  assumes "OPENSSL_lh_doall_arg mal (reads_only f) lh w = Some (lh', w')" "lh_ok hashf cmp lh css" "load_ok lh"
    and "callback_depth lh = 0" "\<forall>n. mal n"
  shows "load_ok lh'"
proof -
  let ?lh = "lh\<lparr>callback_depth := callback_depth lh + 1\<rparr>"
  have ok: "lh_ok hashf cmp ?lh css" using assms(2) by (simp add: depth_ok)
  have "doall_buckets (reads_only f) 0 (?lh, w) = Some (?lh, fold (\<lambda>x. f (item_data (lh_mem ?lh x))) (concat (drop 0 css)) w)"
    by (rule doall_buckets_visits [OF _ lh_okD(1,2) [OF ok]]) (simp_all add: reads_only_def)
  then have m: "lh_maybe_resize mal (?lh\<lparr>callback_depth := 0\<rparr>) = Some lh'"
    using assms(1,4) by (auto simp: OPENSSL_lh_doall_arg_def Let_def split: option.splits)
  show ?thesis by (rule resize_load [OF m]) (use assms lh_okD(4) [OF assms(2)] in \<open>simp_all add: load_ok_def\<close>)
qed

text \<open>A table that is used while memory is found, with iterations that leave it alone.\<close>

inductive lh_served :: "call_hash \<Rightarrow> call_compare \<Rightarrow> addr \<Rightarrow> addr \<Rightarrow> lhash \<Rightarrow> bool" for hashf cmp hash_fn cmp_fn where
  new: "OPENSSL_lh_new mal hash_fn cmp_fn m = Some lh \<Longrightarrow> lh_served hashf cmp hash_fn cmp_fn lh"
| insert: "lh_served hashf cmp hash_fn cmp_fn lh \<Longrightarrow> \<forall>n. mal n \<Longrightarrow> fresh_item lh item \<Longrightarrow> has_room lh \<Longrightarrow>
    OPENSSL_lh_insert hashf cmp mal item lh d = Some (r, old, lh') \<Longrightarrow> lh_served hashf cmp hash_fn cmp_fn lh'"
| delete: "lh_served hashf cmp hash_fn cmp_fn lh \<Longrightarrow> \<forall>n. mal n \<Longrightarrow> OPENSSL_lh_delete hashf cmp mal lh d = Some (p, lh') \<Longrightarrow>
    lh_served hashf cmp hash_fn cmp_fn lh'"
| doall: "lh_served hashf cmp hash_fn cmp_fn lh \<Longrightarrow> \<forall>n. mal n \<Longrightarrow>
    OPENSSL_lh_doall_arg mal (reads_only f) lh (w :: nat list) = Some (lh', w') \<Longrightarrow> lh_served hashf cmp hash_fn cmp_fn lh'"

lemma served_table:
  assumes "hash_respects (hashf hash_fn) (cmp cmp_fn)" "lh_served hashf cmp hash_fn cmp_fn lh"
  shows "(\<exists>css. lh_ok hashf cmp lh css) \<and> lh_hash lh = hash_fn \<and> lh_comp lh = cmp_fn \<and> callback_depth lh = 0 \<and> load_ok lh"
  using assms(2)
proof (induction rule: lh_served.induct)
  case (new mal m lh)
  then have "load_ok lh" by (auto simp: OPENSSL_lh_new_def load_ok_def split: if_splits)
  then show ?case using new_table [OF new, of hashf cmp] by blast
next
  case (insert lh mal item d r old lh')
  then obtain css where c: "lh_ok hashf cmp lh css" by blast
  have h: "hash_respects (hashf (lh_hash lh)) (cmp (lh_comp lh))" using assms(1) insert.IH by simp
  have fr: "x \<noteq> 0 \<and> x \<notin> set (concat css)" if "item = Some x" for x
    using insert.hyps(3) in_table_linked [OF c, of x] that unfolding fresh_item_def by blast
  have sz: "num_items lh + 1 < SIZE_MOD" using insert.hyps(3) by (simp add: fresh_item_def)
  have "load_ok lh'" by (rule insert_load [OF insert.hyps(5)]) (use lh_okD(4) [OF c] insert.IH insert.hyps(2-4) in simp_all)
  then show ?case using insert_item_ok [of hashf cmp lh css item mal d, OF c h sz fr] insert.hyps(5) insert.IH by auto
next
  case (delete lh mal d p lh')
  then obtain css where c: "lh_ok hashf cmp lh css" by blast
  have h: "hash_respects (hashf (lh_hash lh)) (cmp (lh_comp lh))" using assms(1) delete.IH by simp
  have "load_ok lh'" by (rule delete_load [OF delete.hyps(3)]) (use lh_okD(4) [OF c] delete.IH delete.hyps(2) in simp_all)
  then show ?case using delete_item_ok [OF c h, where mal = mal and d = d] delete.hyps(3) delete.IH by auto
next
  case (doall lh mal f w lh' w')
  then obtain css where c: "lh_ok hashf cmp lh css" by blast
  have "load_ok lh'" by (rule doall_load [OF doall.hyps(3) c]) (use doall.IH doall.hyps(2) in simp_all)
  then show ?case using doall_ok [OF c, where mal = mal and f = f and w = w] doall.hyps(3) doall.IH by auto
qed

text \<open>C24. The chains stay short: in every table made by insertions, deletions and iterations that leave the table alone, as long as memory
  was found, there are fewer than three items for each bucket and never fewer than sixteen buckets. The next insertion and the next
  deletion return and keep this. An insertion assumes an item from the allocator that is not in use, fewer items than there are
  addresses, and that an array of twice as many buckets can be addressed; the comparison is an equivalence that the hash respects.\<close>

theorem lhash_load_bounded:
  assumes "hash_respects (hashf hash_fn) (cmp cmp_fn)" "lh_served hashf cmp hash_fn cmp_fn lh" "\<forall>n. mal n"
  shows "load_ok lh \<and>
    (fresh_item lh (Some x) \<and> has_room lh \<longrightarrow>
      (\<exists>old lh'. OPENSSL_lh_insert hashf cmp mal (Some x) lh d = Some (True, old, lh') \<and> load_ok lh')) \<and>
    (\<exists>p lh'. OPENSSL_lh_delete hashf cmp mal lh d = Some (p, lh') \<and> load_ok lh')"
proof -
  note t = served_table [OF assms(1,2)]
  obtain css where c: "lh_ok hashf cmp lh css" using t by blast
  have h: "hash_respects (hashf (lh_hash lh)) (cmp (lh_comp lh))" using assms(1) t by simp
  have load: "load_ok lh'" if "lh_served hashf cmp hash_fn cmp_fn lh'" for lh' using served_table [OF assms(1) that] by blast
  have i: "\<exists>old lh'. OPENSSL_lh_insert hashf cmp mal (Some x) lh d = Some (True, old, lh') \<and> load_ok lh'"
    if fr: "fresh_item lh (Some x)" "has_room lh"
  proof -
    have x: "y \<noteq> 0 \<and> y \<notin> set (concat css)" if "Some x = Some y" for y
      using fr(1) in_table_linked [OF c, of y] that unfolding fresh_item_def by blast
    have sz: "num_items lh + 1 < SIZE_MOD" using fr(1) by (simp add: fresh_item_def)
    obtain r old lh' where r: "OPENSSL_lh_insert hashf cmp mal (Some x) lh d = Some (r, old, lh')" "r"
      using insert_item_ok [of hashf cmp lh css "Some x" mal d, OF c h sz x] by (metis option.distinct(1))
    then show ?thesis using load [OF lh_served.insert [OF assms(2,3) fr r(1)]] by auto
  qed
  obtain p lh' where p: "OPENSSL_lh_delete hashf cmp mal lh d = Some (p, lh')" using delete_item_ok [OF c h, where mal = mal and d = d] by blast
  have "load_ok lh'" by (rule load [OF lh_served.delete [OF assms(2,3) p]])
  then show ?thesis using t i p by blast
qed

section \<open>Witnesses\<close>

text \<open>A table of numbers that are equal if they are equal modulo 100, after one insertion.\<close>

definition mod_hash :: call_hash where
  "mod_hash fn d = of_nat (d mod 100)"

definition mod_cmp :: call_compare where
  "mod_cmp fn d e = int (d mod 100) - int (e mod 100)"

lemma mod_respects: "hash_respects (mod_hash h) (mod_cmp c)"
  by (auto simp: hash_respects_def mod_hash_def mod_cmp_def)

definition empty_table :: lhash where
  "empty_table = the (OPENSSL_lh_new (\<lambda>n. True) 1 1 (\<lambda>x. \<lparr>item_data = 0, item_next = 0, item_hash = 0\<rparr>))"

lemma empty_table:
  "OPENSSL_lh_new (\<lambda>n. True) 1 1 (\<lambda>x. \<lparr>item_data = 0, item_next = 0, item_hash = 0\<rparr>) = Some empty_table"
  "represents mod_hash mod_cmp empty_table {}" "callback_depth empty_table = 0" "num_items empty_table = 0" "num_buckets empty_table = 16"
  "lh_hash empty_table = 1" "lh_comp empty_table = 1" "fresh_item empty_table (Some 8)"
proof -
  show n: "OPENSSL_lh_new (\<lambda>n. True) 1 1 (\<lambda>x. \<lparr>item_data = 0, item_next = 0, item_hash = 0\<rparr>) = Some empty_table"
    by (simp add: empty_table_def OPENSSL_lh_new_def)
  show f: "callback_depth empty_table = 0" "num_items empty_table = 0" "num_buckets empty_table = 16" "lh_hash empty_table = 1" "lh_comp empty_table = 1"
    by (simp_all add: empty_table_def OPENSSL_lh_new_def)
  show "represents mod_hash mod_cmp empty_table {}" using new_table [OF n, of mod_hash mod_cmp] unfolding represents_def by blast
  have "\<not> linked empty_table x" for x
  proof
    assume "linked empty_table x"
    then show False by (induction rule: linked.induct) (auto simp: empty_table_def OPENSSL_lh_new_def)
  qed
  then show "fresh_item empty_table (Some 8)" using f(2) by (simp add: fresh_item_def)
qed

lemma lhash_refines_set_witness:
  "\<exists>lh'. OPENSSL_lh_insert mod_hash mod_cmp (\<lambda>n. True) (Some 8) empty_table 305 = Some (True, 0, lh') \<and> represents mod_hash mod_cmp lh' {305}"
  using lhash_refines_set [OF empty_table(2) mod_respects empty_table(8), where mal = "\<lambda>n. True" and d = 305] by auto

definition small_table :: lhash where
  "small_table = snd (snd (the (OPENSSL_lh_insert mod_hash mod_cmp (\<lambda>n. True) (Some 8) empty_table 305)))"

lemma small_table:
  "OPENSSL_lh_insert mod_hash mod_cmp (\<lambda>n. True) (Some 8) empty_table 305 = Some (True, 0, small_table)"
  "\<exists>css. lh_ok mod_hash mod_cmp small_table css \<and> contents small_table css = {305}"
  "callback_depth small_table = 0" "lh_hash small_table = 1" "lh_comp small_table = 1"
proof -
  obtain css where c: "lh_ok mod_hash mod_cmp empty_table css" "contents empty_table css = {}" using empty_table(2) by (auto simp: represents_def)
  have fr: "\<And>x. Some 8 = Some x \<Longrightarrow> x \<noteq> 0 \<and> x \<notin> set (concat css)"
    using empty_table(8) in_table_linked [OF c(1)] unfolding fresh_item_def by blast
  obtain r old lh' css' where i: "OPENSSL_lh_insert mod_hash mod_cmp (\<lambda>n. True) (Some 8) empty_table 305 = Some (r, old, lh')"
    "lh_ok mod_hash mod_cmp lh' css'" "callback_depth lh' = callback_depth empty_table" "lh_hash lh' = lh_hash empty_table" "lh_comp lh' = lh_comp empty_table"
    "r \<and> old = 0 \<and> contents lh' css' = {305}"
    using insert_item_ok [of mod_hash mod_cmp empty_table css "Some 8" "\<lambda>n. True" 305, OF c(1) mod_respects _ fr] empty_table(4) c(2) by auto
  then have "small_table = lh'" by (simp add: small_table_def)
  then show "OPENSSL_lh_insert mod_hash mod_cmp (\<lambda>n. True) (Some 8) empty_table 305 = Some (True, 0, small_table)"
    "\<exists>css. lh_ok mod_hash mod_cmp small_table css \<and> contents small_table css = {305}"
    "callback_depth small_table = 0" "lh_hash small_table = 1" "lh_comp small_table = 1"
    using i empty_table by auto
qed

text \<open>A table of one element, and what a callback makes of it that deletes the element.\<close>

lemma lhash_well_formed_witness:
  "well_formed_table mod_hash mod_cmp small_table \<and>
   (\<exists>p lh'. OPENSSL_lh_delete mod_hash mod_cmp (\<lambda>n. True) (small_table\<lparr>callback_depth := 1\<rparr>) 305 = Some (p, lh') \<and>
     well_formed_table mod_hash mod_cmp lh' \<and> num_buckets lh' = num_buckets small_table)"
proof -
  let ?lh = "small_table\<lparr>callback_depth := 1\<rparr>"
  have s: "lh_reachable mod_hash mod_cmp 1 1 small_table"
    by (rule lh_reachable.ops [OF lh_reachable.new [OF empty_table(1)] table_ops.insert [OF table_ops.none empty_table(8) small_table(1)]])
  have i: "lh_reachable mod_hash mod_cmp 1 1 ?lh" using lh_reachable.iterating [OF s] small_table(3) by simp
  obtain css where c: "lh_ok mod_hash mod_cmp ?lh css" using small_table(2) by (auto simp: depth_ok)
  obtain p lh' where d: "OPENSSL_lh_delete mod_hash mod_cmp (\<lambda>n. True) ?lh 305 = Some (p, lh')"
    using delete_item_ok [OF c mod_respects, where mal = "\<lambda>n. True" and d = 305] by blast
  have "table_ops mod_hash mod_cmp ?lh lh'" by (rule table_ops.delete [OF table_ops.none d])
  then show ?thesis using lhash_well_formed [OF mod_respects s] lhash_well_formed [OF mod_respects i] d by auto
qed

lemma doall_visits_once_witness: "\<exists>lh'. OPENSSL_lh_doall_arg (\<lambda>n. True) (reads_only (\<lambda>d w. d # w)) small_table [] = Some (lh', [305])"
proof -
  have r: "represents mod_hash mod_cmp small_table {305}" using small_table(2) by (simp add: represents_def)
  have d: "callback_depth small_table < UINT_MAX32" using small_table(3) by simp
  obtain ds lh' where v: "OPENSSL_lh_doall_arg (\<lambda>n. True) (reads_only (\<lambda>d w. d # w)) small_table [] = Some (lh', fold (\<lambda>d w. d # w) ds [])"
    "distinct ds" "set ds = {305}"
    using doall_visits_once [OF r mod_respects d, where mal = "\<lambda>n. True" and f = "\<lambda>d w. d # w" and w = "[]"] by blast
  have "ds = [305]"
  proof (cases ds)
    case (Cons e es)
    then show ?thesis using v(2,3) by (cases es) auto
  qed (use v(3) in simp)
  then show ?thesis using v(1) by simp
qed

lemma lhash_load_bounded_witness:
  "load_ok small_table \<and> (\<exists>p lh'. OPENSSL_lh_delete mod_hash mod_cmp (\<lambda>n. True) small_table 5 = Some (p, lh') \<and> load_ok lh') \<and>
   (\<exists>old lh'. OPENSSL_lh_insert mod_hash mod_cmp (\<lambda>n. True) (Some 8) empty_table 7 = Some (True, old, lh') \<and> load_ok lh')"
proof -
  have e: "lh_served mod_hash mod_cmp 1 1 empty_table" by (rule lh_served.new [OF empty_table(1)])
  have room: "has_room empty_table" using empty_table(5) by (simp add: has_room_def)
  have m: "\<forall>n :: nat. (\<lambda>n. True) n" by simp
  have "lh_served mod_hash mod_cmp 1 1 small_table" by (rule lh_served.insert [OF e m empty_table(8) room small_table(1)])
  from lhash_load_bounded [OF mod_respects this m] lhash_load_bounded [OF mod_respects e m] show ?thesis using empty_table(8) room by blast
qed

end
