(* ===== verification/Unicode.thy ===== *)
theory Unicode
  imports CBBElements
begin

text \<open>
  \<open>crypto/bytestring/unicode.c\<close>: reading and writing code points as UTF-8, Latin-1, UCS-2 and UTF-32.
  The specification of UTF-8 is arithmetic on the code point; each pair of functions is shown to be a
  canonical codec on the code points it supports, so overlong forms, surrogates and noncharacters are
  rejected.
\<close>

section \<open>The code\<close>

definition is_valid_code_point :: "32 word \<Rightarrow> bool" where
  "is_valid_code_point v =
     (if 0x10ffff < v \<or> v AND 0xfffe = 0xfffe \<or> 0xfdd0 \<le> v \<and> v \<le> 0xfdef \<or> 0xd800 \<le> v \<and> v \<le> 0xdfff
      then False else True)"

text \<open>\<open>BOTTOM_BITS(n)\<close> and \<open>TOP_BITS(n)\<close>.\<close>

definition BOTTOM_BITS :: "nat \<Rightarrow> byte" where
  "BOTTOM_BITS n = mask n"

definition TOP_BITS :: "nat \<Rightarrow> byte" where
  "TOP_BITS n = NOT (BOTTOM_BITS (8 - n))"

fun utf8_continue :: "nat \<Rightarrow> 32 word \<Rightarrow> cbs \<Rightarrow> 32 word option \<times> cbs" where
  "utf8_continue 0 v cbs = (Some v, cbs)"
| "utf8_continue (Suc len) v cbs =
     (case CBS_get_u8 cbs of
        (None, cbs) \<Rightarrow> (None, cbs)
      | (Some c, cbs) \<Rightarrow>
          (if c AND TOP_BITS 2 \<noteq> TOP_BITS 1 then (None, cbs)
           else utf8_continue len (push_bit 6 v OR ucast (c AND BOTTOM_BITS 6)) cbs))"

definition utf8_lead :: "byte \<Rightarrow> (32 word \<times> nat \<times> 32 word) option" where
  "utf8_lead c =
     (if c AND TOP_BITS 3 = TOP_BITS 2 then Some (ucast (c AND BOTTOM_BITS 5), 1, 0x80)
      else if c AND TOP_BITS 4 = TOP_BITS 3 then Some (ucast (c AND BOTTOM_BITS 4), 2, 0x800)
      else if c AND TOP_BITS 5 = TOP_BITS 4 then Some (ucast (c AND BOTTOM_BITS 3), 3, 0x10000)
      else None)"

definition cbs_get_utf8 :: "cbs \<Rightarrow> 32 word option \<times> cbs" where
  "cbs_get_utf8 cbs =
     (case CBS_get_u8 cbs of
        (None, cbs) \<Rightarrow> (None, cbs)
      | (Some c, cbs) \<Rightarrow>
          (if c \<le> 0x7f then (Some (ucast c), cbs)
           else (case utf8_lead c of
                   None \<Rightarrow> (None, cbs)
                 | Some (v, len, lower_bound) \<Rightarrow>
                     (case utf8_continue len v cbs of
                        (None, cbs) \<Rightarrow> (None, cbs)
                      | (Some v, cbs) \<Rightarrow>
                          (if \<not> is_valid_code_point v \<or> v < lower_bound then (None, cbs) else (Some v, cbs))))))"

definition cbs_get_latin1 :: "cbs \<Rightarrow> 32 word option \<times> cbs" where
  "cbs_get_latin1 cbs =
     (case CBS_get_u8 cbs of (None, cbs) \<Rightarrow> (None, cbs) | (Some c, cbs) \<Rightarrow> (Some (ucast c), cbs))"

definition cbs_get_ucs2_be :: "cbs \<Rightarrow> 32 word option \<times> cbs" where
  "cbs_get_ucs2_be cbs =
     (case CBS_get_u16 cbs of
        (None, cbs) \<Rightarrow> (None, cbs)
      | (Some c, cbs) \<Rightarrow> (if \<not> is_valid_code_point (ucast c) then (None, cbs) else (Some (ucast c), cbs)))"

definition cbs_get_utf32_be :: "cbs \<Rightarrow> 32 word option \<times> cbs" where
  "cbs_get_utf32_be cbs =
     (case CBS_get_u32 cbs of
        (None, cbs) \<Rightarrow> (None, cbs)
      | (Some out, cbs) \<Rightarrow> (if is_valid_code_point out then Some out else None, cbs))"

definition cbb_get_utf8_len :: "32 word \<Rightarrow> nat" where
  "cbb_get_utf8_len u = (if u \<le> 0x7f then 1 else if u \<le> 0x7ff then 2 else if u \<le> 0xffff then 3 else 4)"

text \<open>The arguments of \<open>CBB_add_u8\<close> are computed as \<open>uint32_t\<close> and truncated.\<close>

definition utf8_tail :: "32 word \<Rightarrow> nat \<Rightarrow> byte" where
  "utf8_tail u n = ucast (ucast (TOP_BITS 1) OR (drop_bit n u AND ucast (BOTTOM_BITS 6)))"

definition cbb_add_utf8 :: "platform_malloc \<Rightarrow> nat \<Rightarrow> 32 word \<Rightarrow> cbb_state \<Rightarrow> bool \<times> cbb_state" where
  "cbb_add_utf8 mal d u st =
     (if \<not> is_valid_code_point u then (False, st)
      else if u \<le> 0x7f then CBB_add_u8 mal d (ucast u) st
      else if u \<le> 0x7ff then
        and_then (CBB_add_u8 mal d (ucast (ucast (TOP_BITS 2) OR drop_bit 6 u)) st)
          (CBB_add_u8 mal d (utf8_tail u 0))
      else if u \<le> 0xffff then
        and_then (CBB_add_u8 mal d (ucast (ucast (TOP_BITS 3) OR drop_bit 12 u)) st) (\<lambda>st.
          and_then (CBB_add_u8 mal d (utf8_tail u 6) st) (CBB_add_u8 mal d (utf8_tail u 0)))
      else if u \<le> 0x10ffff then
        and_then (CBB_add_u8 mal d (ucast (ucast (TOP_BITS 4) OR drop_bit 18 u)) st) (\<lambda>st.
          and_then (CBB_add_u8 mal d (utf8_tail u 12) st) (\<lambda>st.
            and_then (CBB_add_u8 mal d (utf8_tail u 6) st) (CBB_add_u8 mal d (utf8_tail u 0))))
      else (False, st))"

definition cbb_add_latin1 :: "platform_malloc \<Rightarrow> nat \<Rightarrow> 32 word \<Rightarrow> cbb_state \<Rightarrow> bool \<times> cbb_state" where
  "cbb_add_latin1 mal d u st = (if u \<le> 0xff then CBB_add_u8 mal d (ucast u) st else (False, st))"

definition cbb_add_ucs2_be :: "platform_malloc \<Rightarrow> nat \<Rightarrow> 32 word \<Rightarrow> cbb_state \<Rightarrow> bool \<times> cbb_state" where
  "cbb_add_ucs2_be mal d u st =
     (if u \<le> 0xffff \<and> is_valid_code_point u then CBB_add_u16 mal d (ucast u) st else (False, st))"

definition cbb_add_utf32_be :: "platform_malloc \<Rightarrow> nat \<Rightarrow> 32 word \<Rightarrow> cbb_state \<Rightarrow> bool \<times> cbb_state" where
  "cbb_add_utf32_be mal d u st = (if is_valid_code_point u then CBB_add_u32 mal d u st else (False, st))"

section \<open>Specification\<close>

definition utf8_bytes :: "nat \<Rightarrow> bytes" where
  "utf8_bytes n =
     (if n < 0x80 then [of_nat n]
      else if n < 0x800 then map of_nat [192 + n div 64, 128 + n mod 64]
      else if n < 0x10000 then map of_nat [224 + n div 4096, 128 + n div 64 mod 64, 128 + n mod 64]
      else map of_nat [240 + n div 262144, 128 + n div 4096 mod 64, 128 + n div 64 mod 64, 128 + n mod 64])"

section \<open>Bit patterns as ranges\<close>

lemma unat_and_mask: "unat (c AND mask n :: 'a :: len word) = unat c mod 2 ^ n"
  by (metis take_bit_eq_mask unsigned_take_bit_eq take_bit_eq_mod)

lemma and_not_mask_eq:
  fixes c d :: byte
  shows "c AND NOT (mask k) = d AND NOT (mask k) \<longleftrightarrow> unat c div 2 ^ k = unat d div 2 ^ k"
proof -
  have p: "x AND NOT (mask k) = push_bit k (drop_bit k x)" "drop_bit k (x AND NOT (mask k)) = drop_bit k x" for x :: byte
    by (rule bit_eqI, auto simp: bit_simps dest: bit_imp_le_length)+
  have "c AND NOT (mask k) = d AND NOT (mask k) \<longleftrightarrow> drop_bit k c = drop_bit k d"
    using p by metis
  also have "\<dots> \<longleftrightarrow> drop_bit k (unat c) = drop_bit k (unat d)" by (metis unat_drop_bit_eq unsigned_word_eqI)
  finally show ?thesis by (simp add: drop_bit_eq_div)
qed

lemma div_range: "0 < m \<Longrightarrow> n div m = q \<longleftrightarrow> q * m \<le> n \<and> n < Suc q * m" for m n q :: nat
proof -
  assume "0 < m"
  then have "q \<le> n div m \<longleftrightarrow> q * m \<le> n" "n div m < Suc q \<longleftrightarrow> n < Suc q * m"
    by (simp_all only: less_eq_div_iff_mult_less_eq div_less_iff_less_mult)
  then show ?thesis by linarith
qed

lemma top_bits_ranges:
  "c AND TOP_BITS 2 = TOP_BITS 1 \<longleftrightarrow> 128 \<le> unat c \<and> unat c < 192"
  "c AND TOP_BITS 3 = TOP_BITS 2 \<longleftrightarrow> 192 \<le> unat c \<and> unat c < 224"
  "c AND TOP_BITS 4 = TOP_BITS 3 \<longleftrightarrow> 224 \<le> unat c \<and> unat c < 240"
  "c AND TOP_BITS 5 = TOP_BITS 4 \<longleftrightarrow> 240 \<le> unat c \<and> unat c < 248"
proof -
  have t: "TOP_BITS 1 = 128 AND NOT (mask 6)" "TOP_BITS 2 = 192 AND NOT (mask 5)" "TOP_BITS 3 = 224 AND NOT (mask 4)"
    "TOP_BITS 4 = 240 AND NOT (mask 3)"
    by (simp_all add: TOP_BITS_def BOTTOM_BITS_def mask_eq_exp_minus_1)
  have r: "c AND TOP_BITS 2 = c AND NOT (mask 6)" "c AND TOP_BITS 3 = c AND NOT (mask 5)"
    "c AND TOP_BITS 4 = c AND NOT (mask 4)" "c AND TOP_BITS 5 = c AND NOT (mask 3)"
    by (simp_all add: TOP_BITS_def BOTTOM_BITS_def)
  have d: "n div 2 ^ 6 = 128 div 2 ^ 6 \<longleftrightarrow> 128 \<le> n \<and> n < 192" "n div 2 ^ 5 = 192 div 2 ^ 5 \<longleftrightarrow> 192 \<le> n \<and> n < 224"
    "n div 2 ^ 4 = 224 div 2 ^ 4 \<longleftrightarrow> 224 \<le> n \<and> n < 240" "n div 2 ^ 3 = 240 div 2 ^ 3 \<longleftrightarrow> 240 \<le> n \<and> n < 248" for n :: nat
    by (simp_all add: div_range)
  have u: "unat (128 :: byte) = 128" "unat (192 :: byte) = 192" "unat (224 :: byte) = 224" "unat (240 :: byte) = 240"
    by simp_all
  show "c AND TOP_BITS 2 = TOP_BITS 1 \<longleftrightarrow> 128 \<le> unat c \<and> unat c < 192"
    "c AND TOP_BITS 3 = TOP_BITS 2 \<longleftrightarrow> 192 \<le> unat c \<and> unat c < 224"
    "c AND TOP_BITS 4 = TOP_BITS 3 \<longleftrightarrow> 224 \<le> unat c \<and> unat c < 240"
    "c AND TOP_BITS 5 = TOP_BITS 4 \<longleftrightarrow> 240 \<le> unat c \<and> unat c < 248"
    unfolding r unfolding t and_not_mask_eq u d by (rule refl)+
qed

lemma mark_mods:
  "(128 + m) mod 64 = m mod 64" "(192 + m) mod 32 = m mod 32" "(224 + m) mod 16 = m mod 16" "(240 + m) mod 8 = m mod 8" for m :: nat
  using mod_mult_self3 [of 2 64 m] mod_mult_self3 [of 6 32 m] mod_mult_self3 [of 14 16 m] mod_mult_self3 [of 30 8 m]
  by simp_all

lemma utf8_cont:
  assumes "unat v < 2 ^ 26"
  shows "utf8_continue (Suc n) v (c # s) =
     (if 128 \<le> unat c \<and> unat c < 192 then utf8_continue n (of_nat (unat v * 64 + unat c mod 64)) s else (None, s))"
proof -
  have b: "unat (c AND BOTTOM_BITS 6) = unat c mod 64" by (simp add: BOTTOM_BITS_def unat_and_mask)
  have "unat (push_bit 6 v OR ucast (c AND BOTTOM_BITS 6)) = unat v * 64 + unat c mod 64"
    using unat_push_or [of "ucast (c AND BOTTOM_BITS 6) :: 32 word" 6 v] assms by (simp add: unat_ucast_up b)
  then have "push_bit 6 v OR ucast (c AND BOTTOM_BITS 6) = of_nat (unat v * 64 + unat c mod 64)"
    by (metis of_nat_unat ucast_id)
  then show ?thesis by (simp only: utf8_continue.simps CBS_get_u8_Cons prod.case option.case top_bits_ranges) simp
qed

lemma utf8_continue_Nil [simp]: "utf8_continue (Suc n) v [] = (None, [])"
  by (simp add: CBS_get_u8_def cbs_get_def)

lemma lead_eq:
  "utf8_lead c =
     (if 192 \<le> unat c \<and> unat c < 224 then Some (of_nat (unat c mod 32), 1, 0x80)
      else if 224 \<le> unat c \<and> unat c < 240 then Some (of_nat (unat c mod 16), 2, 0x800)
      else if 240 \<le> unat c \<and> unat c < 248 then Some (of_nat (unat c mod 8), 3, 0x10000)
      else None)"
proof -
  have b: "ucast (c AND BOTTOM_BITS n) = (of_nat (unat c mod 2 ^ n) :: 32 word)" for n
    using unat_and_mask [of c n] by (simp add: BOTTOM_BITS_def) (metis of_nat_unat)
  show ?thesis unfolding utf8_lead_def top_bits_ranges b by simp
qed

lemma valid_bound: "is_valid_code_point v \<Longrightarrow> unat v \<le> 0x10ffff"
  by (auto simp: is_valid_code_point_def word_less_nat_alt split: if_splits)

lemma unat_of_nat_32: "n < 2 ^ 32 \<Longrightarrow> unat (of_nat n :: 32 word) = n"
  by (simp add: unsigned_of_nat take_bit_nat_eq_self)

text \<open>Continuation bytes of a number, and their reading as a number.\<close>

fun utf8_conts :: "nat \<Rightarrow> nat \<Rightarrow> bytes" where
  "utf8_conts 0 n = []"
| "utf8_conts (Suc k) n = of_nat (128 + n div 64 ^ k mod 64) # utf8_conts k n"

lemma utf8_continue_complete:
  "k \<le> 3 \<Longrightarrow> n < 2 ^ 26 \<Longrightarrow> utf8_continue k (of_nat (n div 64 ^ k)) (utf8_conts k n @ s) = (Some (of_nat n), s)"
proof (induction k)
  case (Suc k)
  have c: "unat (of_nat (128 + n div 64 ^ k mod 64) :: byte) = 128 + n div 64 ^ k mod 64"
    by (rule unat_of_nat_byte) (simp add: mod_less_divisor [THEN less_trans])
  have lt: "n div 64 ^ Suc k < 2 ^ 26" by (rule le_less_trans [OF div_le_dividend Suc.prems(2)])
  have v: "unat (of_nat (n div 64 ^ Suc k) :: 32 word) = n div 64 ^ Suc k" by (rule unat_of_nat_32 [OF order.strict_trans [OF lt]]) simp
  have s: "n div 64 ^ Suc k * 64 + (128 + n div 64 ^ k mod 64) mod 64 = n div 64 ^ k"
    by (simp add: div_mult2_eq [of n "64 ^ k" 64] mult.commute [of 64] mark_mods)
  have r: "128 + n div 64 ^ k mod 64 < 192" by simp
  have "utf8_continue (Suc k) (of_nat (n div 64 ^ Suc k)) (utf8_conts (Suc k) n @ s) =
      utf8_continue k (of_nat (n div 64 ^ k)) (utf8_conts k n @ s)"
    unfolding utf8_conts.simps append_Cons
    by (subst utf8_cont) (use lt r in \<open>simp_all only: v c s le_add1 simp_thms if_True\<close>)
  then show ?case using Suc by simp
qed simp

lemma cont_value: "128 \<le> x \<Longrightarrow> x < 192 \<Longrightarrow> 128 + x mod 64 = x" for x :: nat
  by (simp add: le_mod_geq)

lemma utf8_continue_sound:
  "utf8_continue k (of_nat m) s = (Some v, r) \<Longrightarrow> m < 8 * 64 ^ (3 - k) \<Longrightarrow> k \<le> 3 \<Longrightarrow>
   \<exists>n. v = of_nat n \<and> n div 64 ^ k = m \<and> s = utf8_conts k n @ r"
proof (induction k arbitrary: m s)
  case 0
  then show ?case by auto
next
  case (Suc k)
  have m: "m < 2 ^ 26"
    using Suc.prems(2,3) power_increasing [of "3 - Suc k" 2 "64 :: nat"] by simp
  then have um: "unat (of_nat m :: 32 word) = m" by (simp add: unat_of_nat_32)
  obtain c s' where s: "s = c # s'" using Suc.prems(1) by (cases s) (auto simp del: utf8_continue.simps)
  have c: "128 \<le> unat c" "unat c < 192" and k: "utf8_continue k (of_nat (m * 64 + unat c mod 64)) s' = (Some v, r)"
    using Suc.prems(1) utf8_cont [of "of_nat m" k c s'] m unfolding s um by (simp_all split: if_split_asm)
  have "3 - k = Suc (3 - Suc k)" using Suc.prems(3) by simp
  then have "m * 64 + unat c mod 64 < 8 * 64 ^ (3 - k)"
    using Suc.prems(2) mod_less_divisor [of 64 "unat c"] by simp
  then obtain n where n: "v = of_nat n" "n div 64 ^ k = m * 64 + unat c mod 64" "s' = utf8_conts k n @ r"
    using Suc.IH [OF k] Suc.prems(3) by auto
  have "128 + n div 64 ^ k mod 64 = unat c" using cont_value [OF c] by (simp add: n(2))
  then have "of_nat (128 + n div 64 ^ k mod 64) = c" by (simp only: of_nat_unat ucast_id)
  moreover have "n div 64 ^ Suc k = m" by (simp add: div_mult2_eq [of n "64 ^ k" 64] mult.commute [of 64] n(2))
  ultimately show ?case using n s by (intro exI [of _ n]) simp
qed

lemma ucast_byte_of_nat: "n < 128 \<Longrightarrow> ucast (of_nat n :: byte) = (of_nat n :: 32 word)"
proof -
  assume "n < 128"
  then have "unat (of_nat n :: byte) = n" "unat (of_nat n :: 32 word) = n"
    by (simp_all add: unat_of_nat_byte unat_of_nat_32)
  moreover have "unat (ucast (of_nat n :: byte) :: 32 word) = unat (of_nat n :: byte)" by (rule unat_ucast_up) simp
  ultimately show ?thesis by (simp only: word_unat_eq_iff)
qed

text \<open>A lead byte announces \<open>k\<close> continuation bytes for code points from \<open>utf8_low k\<close> up to the next bound.\<close>

definition utf8_low :: "nat \<Rightarrow> nat" where
  "utf8_low k = [0, 0x80, 0x800, 0x10000, 0x200000] ! k"

definition utf8_mark :: "nat \<Rightarrow> nat" where
  "utf8_mark k = [0, 192, 224, 240] ! k"

lemma utf8_bytes_split:
  assumes "utf8_low k \<le> n" "n < utf8_low (Suc k)" "k \<in> {1, 2, 3}"
  shows "utf8_bytes n = of_nat (utf8_mark k + n div 64 ^ k) # utf8_conts k n"
proof -
  have c: "utf8_conts 1 n = map of_nat [128 + n mod 64]" "utf8_conts 2 n = map of_nat [128 + n div 64 mod 64, 128 + n mod 64]"
    "utf8_conts 3 n = map of_nat [128 + n div 4096 mod 64, 128 + n div 64 mod 64, 128 + n mod 64]"
    by (simp_all add: numeral_2_eq_2 numeral_3_eq_3)
  consider "k = 1" | "k = 2" | "k = 3" using assms(3) by auto
  then show ?thesis
    using assms(1,2) by cases (simp_all add: utf8_bytes_def utf8_low_def utf8_mark_def c [simplified])
qed

lemma utf8_lead_mark:
  assumes "k \<in> {1, 2, 3}" "m < 2 ^ (6 - k)"
  shows "utf8_lead (of_nat (utf8_mark k + m)) = Some (of_nat m, k, of_nat (utf8_low k))"
    "128 \<le> utf8_mark k + m" "utf8_mark k + m < 256"
proof -
  show l: "128 \<le> utf8_mark k + m" "utf8_mark k + m < 256" using assms by (auto simp: utf8_mark_def)
  have "unat (of_nat (utf8_mark k + m) :: byte) = utf8_mark k + m" by (rule unat_of_nat_byte [OF l(2)])
  then show "utf8_lead (of_nat (utf8_mark k + m)) = Some (of_nat m, k, of_nat (utf8_low k))"
    using assms unfolding lead_eq by (auto simp: utf8_mark_def utf8_low_def mark_mods simp del: of_nat_add)
qed

lemma lead_cases:
  assumes "utf8_lead c = Some (v, k, low)"
  obtains m where "k \<in> {1, 2, 3}" "m < 2 ^ (6 - k)" "c = of_nat (utf8_mark k + m)" "v = of_nat m" "low = of_nat (utf8_low k)"
proof -
  have "c = of_nat (unat c)" by simp
  consider (1) "192 \<le> unat c" "unat c < 224" | (2) "224 \<le> unat c" "unat c < 240" | (3) "240 \<le> unat c" "unat c < 248"
    using assms unfolding lead_eq by (auto split: if_splits)
  then show thesis
  proof cases
    case 1
    then show thesis using assms \<open>c = _\<close> unfolding lead_eq
      by (intro that [of "unat c mod 32"]) (auto simp: utf8_mark_def utf8_low_def le_mod_geq simp del: of_nat_add)
  next
    case 2
    then show thesis using assms \<open>c = _\<close> unfolding lead_eq
      by (intro that [of "unat c mod 16"]) (auto simp: utf8_mark_def utf8_low_def le_mod_geq simp del: of_nat_add)
  next
    case 3
    then show thesis using assms \<open>c = _\<close> unfolding lead_eq
      by (intro that [of "unat c mod 8"]) (auto simp: utf8_mark_def utf8_low_def le_mod_geq simp del: of_nat_add)
  qed
qed

lemma byte_le_7f: "c \<le> (0x7f :: byte) \<longleftrightarrow> unat c < 128"
  by (simp add: word_le_nat_alt less_Suc_eq_le [symmetric])

lemma small_valid: "unat v < 128 \<Longrightarrow> is_valid_code_point v"
proof -
  assume v: "unat v < 128"
  then have t: "take_bit 7 v = v" by (simp add: word_unat_eq_iff unsigned_take_bit_eq take_bit_nat_eq_self)
  have "take_bit 7 v AND m = take_bit 7 (v AND m)" for m by (rule bit_eqI) (auto simp: bit_simps)
  then have "v AND 0xfffe = take_bit 7 (v AND 0xfffe)" by (metis t)
  moreover have "take_bit 7 0xfffe \<noteq> (0xfffe :: 32 word)" by simp
  ultimately have "v AND 0xfffe \<noteq> 0xfffe" by metis
  then show ?thesis using v by (auto simp: is_valid_code_point_def word_less_nat_alt word_le_nat_alt)
qed

section \<open>The codecs\<close>

lemma get_utf8_complete:
  assumes "is_valid_code_point v"
  shows "cbs_get_utf8 (utf8_bytes (unat v) @ s) = (Some v, s)"
proof -
  let ?n = "unat v"
  have n: "?n \<le> 0x10ffff" using valid_bound [OF assms] .
  have vn: "of_nat ?n = v" by simp
  show ?thesis
  proof (cases "?n < 128")
    case True
    have "unat (of_nat ?n :: byte) = ?n" by (rule unat_of_nat_byte) (use True in linarith)
    then have c: "(of_nat ?n \<le> (0x7f :: byte)) = True" using True by (simp only: byte_le_7f)
    have u: "ucast (of_nat ?n :: byte) = v" by (simp only: ucast_byte_of_nat [OF True] vn)
    have "utf8_bytes ?n = [of_nat ?n]" using True by (simp only: utf8_bytes_def) simp
    then show ?thesis
      by (simp only: cbs_get_utf8_def append_Cons append_Nil CBS_get_u8_Cons prod.case option.case c u if_True)
  next
    case False
    then obtain k where k: "k \<in> {1, 2, 3}" "utf8_low k \<le> ?n" "?n < utf8_low (Suc k)"
    proof -
      consider "0x80 \<le> ?n" "?n < 0x800" | "0x800 \<le> ?n" "?n < 0x10000" | "0x10000 \<le> ?n" using False by linarith
      then show thesis using that [of 1] that [of 2] that [of 3] n by cases (simp_all add: utf8_low_def)
    qed
    let ?m = "?n div 64 ^ k"
    have "?m < 2 ^ (6 - k)" using k n by (auto simp: utf8_low_def div_less_iff_less_mult)
    note l = utf8_lead_mark [OF k(1) this]
    have c: "(of_nat (utf8_mark k + ?m) \<le> (0x7f :: byte)) = False"
      using l(2,3) by (simp add: byte_le_7f unat_of_nat_byte del: of_nat_add)
    have "?n < 2 ^ 26" "k \<le> 3" using n k(1) by auto
    note u = utf8_continue_complete [OF this(2,1), of s, unfolded vn]
    have low: "\<not> v < of_nat (utf8_low k)"
      using k by (auto simp: utf8_low_def word_less_nat_alt)
    show ?thesis
      unfolding cbs_get_utf8_def utf8_bytes_split [OF k(2,3,1)] append_Cons CBS_get_u8_Cons prod.case option.case c l(1) u
      using assms low by simp
  qed
qed

lemma get_utf8_sound:
  assumes "cbs_get_utf8 s = (Some v, r)"
  shows "is_valid_code_point v \<and> s = utf8_bytes (unat v) @ r"
proof -
  obtain c s' where s: "s = c # s'"
    using assms by (cases s) (auto simp: cbs_get_utf8_def CBS_get_u8_def cbs_get_def)
  show ?thesis
  proof (cases "c \<le> 0x7f")
    case True
    then have v: "v = ucast c" "r = s'" using assms by (auto simp: cbs_get_utf8_def s CBS_get_u8_Cons)
    have u: "unat v = unat c" unfolding v(1) by (rule unat_ucast_up) simp
    then have "utf8_bytes (unat v) = [c]" using True unfolding u utf8_bytes_def by (simp add: byte_le_7f)
    then show ?thesis using True s v(2) u small_valid [of v] by (simp add: byte_le_7f)
  next
    case False
    then obtain v0 k low s1 where l: "utf8_lead c = Some (v0, k, low)" and u: "utf8_continue k v0 s' = (Some v, r)"
      and ok: "is_valid_code_point v" "\<not> v < low"
      using assms by (auto simp: cbs_get_utf8_def s CBS_get_u8_Cons split: option.splits prod.splits if_splits)
    from lead_cases [OF l] obtain m where m: "k \<in> {1, 2, 3}" "m < 2 ^ (6 - k)" "c = of_nat (utf8_mark k + m)"
      "v0 = of_nat m" "low = of_nat (utf8_low k)" .
    have "m < 8 * 64 ^ (3 - k)" "k \<le> 3" using m(1,2) by auto
    from utf8_continue_sound [OF u [unfolded m(4)] this] obtain n where
      n: "v = of_nat n" "n div 64 ^ k = m" "s' = utf8_conts k n @ r" by blast
    have "n < Suc m * 64 ^ k" using n(2) by (metis div_range zero_less_power zero_less_numeral)
    also have "\<dots> \<le> 2 ^ (6 - k) * 64 ^ k" by (rule mult_le_mono1) (use m(2) in simp)
    also have "2 ^ (6 - k) * 64 ^ k = utf8_low (Suc k)" using m(1) by (auto simp: utf8_low_def)
    finally have hi: "n < utf8_low (Suc k)" .
    then have "n < 2 ^ 32" using m(1) by (auto simp: utf8_low_def)
    then have un: "unat v = n" by (simp add: n(1) unat_of_nat_32)
    have "utf8_low k \<le> n"
      using ok(2) m(1,5) un by (auto simp: utf8_low_def word_less_nat_alt)
    from utf8_bytes_split [OF this hi m(1)] show ?thesis using ok(1) s m(3) n un by simp
  qed
qed

lemma get_utf8_iff: "cbs_get_utf8 s = (Some v, r) \<longleftrightarrow> is_valid_code_point v \<and> s = utf8_bytes (unat v) @ r"
  using get_utf8_complete get_utf8_sound by blast

interpretation utf8_codec: canonical_codec "\<lambda>v. utf8_bytes (unat v)" cbs_get_utf8 is_valid_code_point
  by unfold_locales (auto simp: get_utf8_iff)

section \<open>The other encodings\<close>

lemma get_latin1_iff: "cbs_get_latin1 s = (Some v, r) \<longleftrightarrow> v \<le> 0xff \<and> s = ucast v # r"
proof -
  have "v \<le> 0xff \<Longrightarrow> ucast (ucast v :: byte) = v"
    by (simp add: word_unat_eq_iff word_le_nat_alt unat_ucast_up unat_ucast_down)
  moreover have "ucast (b :: byte) \<le> (0xff :: 32 word)" for b
    using byte_lt [of b] by (simp add: word_le_nat_alt unat_ucast_up)
  moreover have "ucast (ucast (b :: byte) :: 32 word) = b" for b
    by (rule bit_eqI) (auto simp: bit_simps)
  ultimately show ?thesis
    by (cases s) (auto simp: cbs_get_latin1_def CBS_get_u8_Cons CBS_get_u8_def cbs_get_def)
qed

interpretation latin1_codec: canonical_codec "\<lambda>v. [ucast v]" cbs_get_latin1 "\<lambda>v. v \<le> 0xff"
  by unfold_locales (auto simp: get_latin1_iff)

section \<open>Writing\<close>

lemma mark_or:
  assumes "unat x < 2 ^ j" "m * 2 ^ j + unat x < 256"
  shows "ucast (push_bit j (of_nat m) OR (x :: 32 word)) = (of_nat (m * 2 ^ j + unat x) :: byte)"
proof -
  have "m * 1 \<le> m * 2 ^ j" by (rule mult_le_mono2) simp
  then have m: "m < 256" using assms(2) by linarith
  then have u: "unat (of_nat m :: 32 word) = m" by (simp add: unat_of_nat_32)
  have "m * 2 ^ j < 2 ^ 32" using assms(2) by simp
  then have "unat (push_bit j (of_nat m) OR x) = m * 2 ^ j + unat x"
    using unat_push_or [OF assms(1), of "of_nat m"] by (simp add: u)
  then have "unat (ucast (push_bit j (of_nat m) OR x) :: byte) = m * 2 ^ j + unat x"
    using assms(2) by (simp only: unat_ucast_down) simp
  then show ?thesis by (metis of_nat_unat ucast_id)
qed

lemma top_bits_values:
  "ucast (TOP_BITS 1) = (push_bit 6 (of_nat 2) :: 32 word)" "ucast (TOP_BITS 2) = (push_bit 5 (of_nat 6) :: 32 word)"
  "ucast (TOP_BITS 3) = (push_bit 4 (of_nat 14) :: 32 word)" "ucast (TOP_BITS 4) = (push_bit 3 (of_nat 30) :: 32 word)"
  by (simp_all add: TOP_BITS_def BOTTOM_BITS_def mask_eq_exp_minus_1 push_bit_eq_mult)

lemma unat_drop_div: "unat (drop_bit n v) = unat v div 2 ^ n"
  by (subst unat_drop_bit_eq) (simp add: drop_bit_eq_div)

lemma utf8_tail_eq: "utf8_tail v (6 * k) = of_nat (128 + unat v div 64 ^ k mod 64)"
proof -
  let ?x = "drop_bit (6 * k) v AND ucast (BOTTOM_BITS 6)"
  have "ucast (BOTTOM_BITS 6) = (mask 6 :: 32 word)" by (rule bit_eqI) (auto simp: BOTTOM_BITS_def bit_simps)
  then have x: "unat ?x = unat v div 64 ^ k mod 64"
    by (simp only: unat_and_mask unat_drop_div) (simp add: power_mult)
  then have "ucast (push_bit 6 (of_nat 2) OR ?x) = (of_nat (2 * 2 ^ 6 + unat ?x) :: byte)"
    using mod_less_divisor [of 64 "unat v div 64 ^ k"] by (intro mark_or) simp_all
  then show ?thesis unfolding utf8_tail_def top_bits_values x by simp
qed

lemma writer_utf8:
  assumes "is_valid_code_point v"
  shows "writer (\<lambda>mal d. cbb_add_utf8 mal d v) (utf8_bytes (unat v))"
proof -
  let ?n = "unat v"
  have n: "?n \<le> 0x10ffff" using valid_bound [OF assms] .
  have le: "v \<le> 0x7f \<longleftrightarrow> ?n < 0x80" "v \<le> 0x7ff \<longleftrightarrow> ?n < 0x800" "v \<le> 0xffff \<longleftrightarrow> ?n < 0x10000" "v \<le> 0x10ffff"
    using n by (auto simp: word_le_nat_alt)
  have t: "utf8_tail v 0 = of_nat (128 + ?n mod 64)" "utf8_tail v 6 = of_nat (128 + ?n div 64 mod 64)"
    "utf8_tail v 12 = of_nat (128 + ?n div 4096 mod 64)"
    using utf8_tail_eq [of v 0] utf8_tail_eq [of v 1] utf8_tail_eq [of v 2] by simp_all
  note u8 = writer_u8 and u16 = writer_then [OF writer_u8 writer_u8]
  note u24 = writer_then [OF writer_u8 u16]
  note u32 = writer_then [OF writer_u8 u24]
  consider "?n < 0x80" | "0x80 \<le> ?n" "?n < 0x800" | "0x800 \<le> ?n" "?n < 0x10000" | "0x10000 \<le> ?n" by linarith
  then show ?thesis
  proof cases
    case 1
    then have b: "[ucast v] = utf8_bytes ?n" by (simp add: utf8_bytes_def)
    from writer_cong [OF u8 _ b] show ?thesis using 1 assms by (simp add: cbb_add_utf8_def le)
  next
    case 2
    have "ucast (push_bit 5 (of_nat 6) OR drop_bit 6 v) = (of_nat (6 * 2 ^ 5 + unat (drop_bit 6 v)) :: byte)"
      by (rule mark_or; simp only: unat_drop_div) (use 2 in \<open>simp_all add: div_less_iff_less_mult\<close>)
    then have l: "ucast (ucast (TOP_BITS 2) OR drop_bit 6 v) = (of_nat (192 + ?n div 64) :: byte)"
      unfolding top_bits_values unat_drop_div by simp
    have b: "[of_nat (192 + ?n div 64)] @ [of_nat (128 + ?n mod 64)] = utf8_bytes ?n"
      using 2 by (simp add: utf8_bytes_def)
    show ?thesis
      by (rule writer_cong [OF u16 _ b]) (use 2 assms le in \<open>simp add: cbb_add_utf8_def l t del: of_nat_add\<close>)
  next
    case 3
    have "ucast (push_bit 4 (of_nat 14) OR drop_bit 12 v) = (of_nat (14 * 2 ^ 4 + unat (drop_bit 12 v)) :: byte)"
      by (rule mark_or; simp only: unat_drop_div) (use 3 in \<open>simp_all add: div_less_iff_less_mult\<close>)
    then have l: "ucast (ucast (TOP_BITS 3) OR drop_bit 12 v) = (of_nat (224 + ?n div 4096) :: byte)"
      unfolding top_bits_values unat_drop_div by simp
    have b: "[of_nat (224 + ?n div 4096)] @ [of_nat (128 + ?n div 64 mod 64)] @ [of_nat (128 + ?n mod 64)] = utf8_bytes ?n"
      using 3 by (simp add: utf8_bytes_def)
    show ?thesis
      by (rule writer_cong [OF u24 _ b]) (use 3 assms le in \<open>simp add: cbb_add_utf8_def l t del: of_nat_add\<close>)
  next
    case 4
    have "ucast (push_bit 3 (of_nat 30) OR drop_bit 18 v) = (of_nat (30 * 2 ^ 3 + unat (drop_bit 18 v)) :: byte)"
      by (rule mark_or; simp only: unat_drop_div) (use n in \<open>simp_all add: div_less_iff_less_mult\<close>)
    then have l: "ucast (ucast (TOP_BITS 4) OR drop_bit 18 v) = (of_nat (240 + ?n div 262144) :: byte)"
      unfolding top_bits_values unat_drop_div by simp
    have b: "[of_nat (240 + ?n div 262144)] @ [of_nat (128 + ?n div 4096 mod 64)] @ [of_nat (128 + ?n div 64 mod 64)] @ [of_nat (128 + ?n mod 64)] = utf8_bytes ?n"
      using 4 by (simp add: utf8_bytes_def)
    show ?thesis
      by (rule writer_cong [OF u32 _ b]) (use 4 assms le in \<open>simp add: cbb_add_utf8_def l t del: of_nat_add\<close>)
  qed
qed

lemma utf8_len: "length (utf8_bytes (unat u)) = cbb_get_utf8_len u"
  by (auto simp: utf8_bytes_def cbb_get_utf8_len_def word_le_nat_alt)

end
