(* ===== verification/BER.thy ===== *)
theory BER
  imports CBBElements
begin

text \<open>
  \<open>crypto/bytestring/ber.c\<close>: finding BER features in a structure and converting BER to DER.
  \<open>cbs_find_ber\<close> and \<open>cbs_convert_ber\<close> are loops over the elements of a byte string that call
  themselves on the contents; a call of the model is one pass through the loop head. Both count their
  depth and give up beyond \<open>kMaxDepth\<close>; they terminate since every element takes at least two bytes.
\<close>

section \<open>The code\<close>

abbreviation kMaxDepth :: nat where
  "kMaxDepth \<equiv> 2048"

text \<open>\<open>tag & ~CBS_ASN1_CONSTRUCTED\<close>, and the universal tag numbers of the string types.\<close>

definition primitive_tag :: "tag \<Rightarrow> tag" where
  "primitive_tag t = t AND NOT CBS_ASN1_CONSTRUCTED"

definition is_string_type :: "tag \<Rightarrow> bool" where
  "is_string_type t =
     (primitive_tag t \<in> {CBS_ASN1_OCTETSTRING, 12, 18, 19, 20, 21, 22, 25, 26, 27, 28, 30})"

function cbs_find_ber :: "cbs \<Rightarrow> bool \<Rightarrow> nat \<Rightarrow> bool option" where
  "cbs_find_ber inp found0 depth =
     (if kMaxDepth < depth then None
      else if CBS_len inp = 0 then Some found0
      else (case CBS_get_any_ber_asn1_element inp of
              (None, _) \<Rightarrow> None
            | (Some e, rest) \<Rightarrow>
                (if ber_found e then Some True
                 else if elem_tag e AND CBS_ASN1_CONSTRUCTED \<noteq> 0
                 then (if is_string_type (elem_tag e) then Some True
                       else (case CBS_skip (elem e) (header_len e) of
                               (None, _) \<Rightarrow> None
                             | (Some _, contents) \<Rightarrow>
                                 (case cbs_find_ber contents False (depth + 1) of
                                    None \<Rightarrow> None
                                  | Some found \<Rightarrow> cbs_find_ber rest found depth)))
                 else cbs_find_ber rest False depth)))"
  by pat_completeness auto

lemma ber_element_shrinks:
  assumes "CBS_get_any_ber_asn1_element s = (Some e, r)"
  shows "length r < length s" "length (elem e) \<le> length s" "s = elem e @ r" "2 \<le> header_len e"
    "header_len e \<le> length (elem e)"
proof -
  have a: "cbs_get_any_asn1_element s True = (Some e, r)"
    using assms by (simp add: CBS_get_any_ber_asn1_element_def)
  show "length r < length s" by (rule asn1_element.length_less [OF a])
  show e: "s = elem e @ r" using element_consumes [OF a] .
  then show "length (elem e) \<le> length s" by simp
  show "2 \<le> header_len e" "header_len e \<le> length (elem e)" using element_header_bounds [OF a] .
qed

lemma skip_shrinks: "CBS_skip s n = (Some x, r) \<Longrightarrow> r = drop n s"
  by (auto simp: CBS_skip_eq split: if_splits)

lemma ber_contents_shrink:
  assumes "CBS_get_any_ber_asn1_element s = (Some e, r)" "CBS_skip (elem e) (header_len e) = (Some x, c)"
  shows "length c < length s"
  using ber_element_shrinks [OF assms(1)] skip_shrinks [OF assms(2)] by auto

termination cbs_find_ber
  by (relation "measure (\<lambda>(inp, _, _). length inp)")
    (auto dest: ber_element_shrinks(1) [OF sym] ber_contents_shrink [OF sym sym])

declare cbs_find_ber.simps [simp del]

definition is_eoc :: "nat \<Rightarrow> cbs \<Rightarrow> bool" where
  "is_eoc hlen contents = (hlen = 2 \<and> CBS_len contents = 2 \<and> take 2 contents = [0, 0])"

text \<open>Where the contents of an element go: the builder that is written to and the string tag that is
  passed down. Inside a constructed string the fragments go to the enclosing builder.\<close>

definition convert_target ::
  "platform_malloc \<Rightarrow> nat \<Rightarrow> cbb_state \<Rightarrow> tag \<Rightarrow> tag \<Rightarrow> (nat \<times> tag) option \<times> cbb_state" where
  "convert_target mal d st string_tag t =
     (if string_tag \<noteq> 0
      then (if primitive_tag t \<noteq> string_tag then (None, st) else (Some (d, string_tag), st))
      else
        (let string = (t AND CBS_ASN1_CONSTRUCTED \<noteq> 0 \<and> is_string_type t);
             out_tag = (if string then primitive_tag t else t);
             child_string_tag = (if string then out_tag else string_tag)
         in case CBB_add_asn1 mal d out_tag st of
              (False, st) \<Rightarrow> (None, st)
            | (True, st) \<Rightarrow> (Some (Suc d, child_string_tag), st)))"

function cbs_convert_ber :: "platform_malloc \<Rightarrow> cbs \<Rightarrow> nat \<Rightarrow> cbb_state \<Rightarrow> tag \<Rightarrow> bool \<Rightarrow> nat \<Rightarrow>
    bool \<times> cbs \<times> cbb_state" where
  "cbs_convert_ber mal inp d st string_tag looking_for_eoc depth =
     (if kMaxDepth < depth then (False, inp, st)
      else if CBS_len inp = 0 then (\<not> looking_for_eoc, inp, st)
      else (case CBS_get_any_ber_asn1_element inp of
              (None, inp) \<Rightarrow> (False, inp, st)
            | (Some e, inp) \<Rightarrow>
                (if is_eoc (header_len e) (elem e) then (looking_for_eoc, inp, st)
                 else (case convert_target mal d st string_tag (elem_tag e) of
                         (None, st) \<Rightarrow> (False, inp, st)
                       | (Some (out_contents, child_string_tag), st) \<Rightarrow>
                           (if CBS_len (elem e) = header_len e \<and> 0 < header_len e \<and> elem e ! (header_len e - 1) = 0x80
                            then (case cbs_convert_ber mal inp out_contents st child_string_tag True (depth + 1) of
                                    (False, inp, st) \<Rightarrow> (False, inp, st)
                                  | (True, inp, st) \<Rightarrow>
                                      (case CBB_flush mal d st of
                                         (False, st) \<Rightarrow> (False, inp, st)
                                       | (True, st) \<Rightarrow> cbs_convert_ber mal inp d st string_tag looking_for_eoc depth))
                            else (case CBS_skip (elem e) (header_len e) of
                                    (None, _) \<Rightarrow> (False, inp, st)
                                  | (Some _, contents) \<Rightarrow>
                                      (case (if elem_tag e AND CBS_ASN1_CONSTRUCTED \<noteq> 0
                                             then (case cbs_convert_ber mal contents out_contents st child_string_tag False (depth + 1) of
                                                     (ok, _, st) \<Rightarrow> (ok, st))
                                             else CBB_add_bytes mal out_contents contents st) of
                                         (False, st) \<Rightarrow> (False, inp, st)
                                       | (True, st) \<Rightarrow>
                                           (case CBB_flush mal d st of
                                              (False, st) \<Rightarrow> (False, inp, st)
                                            | (True, st) \<Rightarrow>
                                                cbs_convert_ber mal inp d st string_tag looking_for_eoc depth))))))))"
  by pat_completeness auto

text \<open>The bytes that a call leaves are no more than it was given, so the loop makes progress.\<close>

lemma convert_ber_leaves:
  assumes "cbs_convert_ber_dom (mal, inp, d, st, string_tag, look, depth)"
    and "cbs_convert_ber mal inp d st string_tag look depth = (ok, in', st')"
  shows "length in' \<le> length inp"
  using assms
proof (induction arbitrary: ok in' st' rule: cbs_convert_ber.pinduct)
  case (1 mal inp d st string_tag look depth)
  note IH = "1.IH" and dom = "1.hyps" and res = "1.prems"
  show ?case
  proof (cases "kMaxDepth < depth \<or> CBS_len inp = 0")
    case True
    then have "inp = in'" using res unfolding cbs_convert_ber.psimps [OF dom] by (cases "kMaxDepth < depth") simp_all
    then show ?thesis by simp
  next
    case False
    then have c: "\<not> kMaxDepth < depth" "CBS_len inp \<noteq> 0" by auto
    note res1 = res [unfolded cbs_convert_ber.psimps [OF dom] if_not_P [OF c(1)] if_not_P [OF c(2)]]
    obtain x y where g: "CBS_get_any_ber_asn1_element inp = (x, y)" by fastforce
    show ?thesis
    proof (cases x)
      case None
      then show ?thesis
        using res1 g asn1_element.length_le [of inp True x y]
        by (simp add: CBS_get_any_ber_asn1_element_def)
    next
      case (Some e)
      then have ge: "CBS_get_any_ber_asn1_element inp = (Some e, y)" using g by simp
      note sh = ber_element_shrinks(1) [OF ge]
      note res2 = res1 [unfolded ge prod.case option.case]
      show ?thesis
      proof (cases "is_eoc (header_len e) (elem e)")
        case True
        then show ?thesis using res2 sh by auto
      next
        case ne: False
        note res3 = res2 [unfolded if_not_P [OF ne]]
        obtain t st1 where t: "convert_target mal d st string_tag (elem_tag e) = (t, st1)" by fastforce
        show ?thesis
        proof (cases t)
          case None
          then show ?thesis using res3 t sh by auto
        next
          case (Some oc)
          obtain dout ct where oc: "oc = (dout, ct)" by fastforce
          note t1 = t [unfolded Some oc]
          note res4 = res3 [unfolded t1 prod.case option.case]
          let ?ind = "CBS_len (elem e) = header_len e \<and> 0 < header_len e \<and> elem e ! (header_len e - 1) = 0x80"
          show ?thesis
          proof (cases ?ind)
            case ind: True
            note res5 = res4 [unfolded if_P [OF ind]]
            obtain ok1 in1 st2 where n: "cbs_convert_ber mal y dout st1 ct True (depth + 1) = (ok1, in1, st2)"
              by (metis prod_cases3)
            have l1: "length in1 \<le> length y"
              by (rule IH(1) [OF c ge [symmetric] refl ne t1 [symmetric] refl refl ind n])
            show ?thesis
            proof (cases ok1)
              case False
              then show ?thesis using res5 n l1 sh by simp
            next
              case True
              obtain ok2 st3 where f: "CBB_flush mal d st2 = (ok2, st3)" by fastforce
              have n1: "cbs_convert_ber mal y dout st1 ct True (depth + 1) = (True, in1, st2)" using n True by simp
              show ?thesis
              proof (cases ok2)
                case False
                then show ?thesis using res5 n1 f l1 sh by simp
              next
                case True
                then have f1: "CBB_flush mal d st2 = (True, st3)" using f by simp
                then have r: "cbs_convert_ber mal in1 d st3 string_tag look depth = (ok, in', st')"
                  using res5 n1 by simp
                have "length in' \<le> length in1"
                  by (rule IH(2) [OF c ge [symmetric] refl ne t1 [symmetric] refl refl ind n1 [symmetric] refl refl f1 [symmetric] refl r])
                then show ?thesis using l1 sh by simp
              qed
            qed
          next
            case nind: False
            note res5 = res4 [unfolded if_not_P [OF nind]]
            obtain sk contents where k: "CBS_skip (elem e) (header_len e) = (sk, contents)" by fastforce
            show ?thesis
            proof (cases sk)
              case None
              then show ?thesis using res5 k sh by auto
            next
              case (Some u)
              note k1 = k [unfolded Some]
              let ?b = "if elem_tag e AND CBS_ASN1_CONSTRUCTED \<noteq> 0
                then (case cbs_convert_ber mal contents dout st1 ct False (depth + 1) of (ok, _, st) \<Rightarrow> (ok, st))
                else CBB_add_bytes mal dout contents st1"
              obtain ok2 st2 where b: "?b = (ok2, st2)" by fastforce
              note res6 = res5 [unfolded k1 prod.case option.case b]
              obtain ok3 st3 where f: "CBB_flush mal d st2 = (ok3, st3)" by fastforce
              show ?thesis
              proof (cases "ok2 \<and> ok3")
                case False
                then show ?thesis using res6 f sh by (auto split: bool.splits)
              next
                case True
                then have b1: "?b = (True, st2)" and f1: "CBB_flush mal d st2 = (True, st3)" using b f by auto
                then have r: "cbs_convert_ber mal y d st3 string_tag look depth = (ok, in', st')"
                  using res6 True by simp
                have "length in' \<le> length y"
                  by (rule IH(4) [OF c ge [symmetric] refl ne t1 [symmetric] refl refl nind k1 [symmetric] refl b1 [symmetric] refl f1 [symmetric] refl r])
                then show ?thesis using sh by simp
              qed
            qed
          qed
        qed
      qed
    qed
  qed
qed

termination cbs_convert_ber
proof (relation "measures [\<lambda>(mal, inp, d, st, tg, look, depth). 2049 - depth, \<lambda>(mal, inp, d, st, tg, look, depth). length inp]", goal_cases)
  case 3
  then show ?case by (auto dest!: ber_element_shrinks(1) [OF sym] convert_ber_leaves [OF _ sym])
qed (auto dest: ber_element_shrinks(1) [OF sym])

declare cbs_convert_ber.simps [simp del]

text \<open>The result is the converted element and the storage that holds it, \<open>None\<close> when the input itself is
  used, with the bytes left of the input.\<close>

definition CBS_asn1_ber_to_der :: "platform_malloc \<Rightarrow> cbs \<Rightarrow> (cbs \<times> bytes option) option \<times> cbs" where
  "CBS_asn1_ber_to_der mal inp =
     (case cbs_find_ber inp False 0 of
        None \<Rightarrow> (None, inp)
      | Some conversion_needed \<Rightarrow>
          (if \<not> conversion_needed
           then (case CBS_get_any_asn1_element inp of
                   (None, inp) \<Rightarrow> (None, inp)
                 | (Some e, inp) \<Rightarrow> (Some (elem e, None), inp))
           else (case CBB_init mal (CBS_len inp) of
                   (False, _) \<Rightarrow> (None, inp)
                 | (True, cbb) \<Rightarrow>
                     (case cbs_convert_ber mal inp 0 cbb 0 False 0 of
                        (False, inp, _) \<Rightarrow> (None, inp)
                      | (True, inp, cbb) \<Rightarrow>
                          (case CBB_finish mal 0 True cbb of
                             (None, _) \<Rightarrow> (None, inp)
                           | (Some (buf, len), _) \<Rightarrow> (Some (CBS_init buf len, Some buf), inp))))))"

lemma get_asn1_shrinks: "CBS_get_asn1 s t = (Some c, r) \<Longrightarrow> length r < length s"
  using length_der_header(1) [of t "length c"] by (auto simp: get_asn1_iff der_element_def)

function implicit_string_loop :: "platform_malloc \<Rightarrow> cbs \<Rightarrow> tag \<Rightarrow> cbb_state \<Rightarrow> bool \<times> cbb_state" where
  "implicit_string_loop mal child inner_tag result =
     (if 0 < CBS_len child
      then (case CBS_get_asn1 child inner_tag of
              (None, child) \<Rightarrow> (False, result)
            | (Some chunk, child) \<Rightarrow>
                and_then (CBB_add_bytes mal 0 chunk result) (\<lambda>result. implicit_string_loop mal child inner_tag result))
      else (True, result))"
  by pat_completeness auto
termination
  by (relation "measure (\<lambda>(mal, child, tg, st). length child)") (auto dest: get_asn1_shrinks [OF sym])

declare implicit_string_loop.simps [simp del]

definition CBS_get_asn1_implicit_string ::
  "platform_malloc \<Rightarrow> cbs \<Rightarrow> tag \<Rightarrow> tag \<Rightarrow> (cbs \<times> bytes option) option \<times> cbs" where
  "CBS_get_asn1_implicit_string mal inp outer_tag inner_tag =
     (if CBS_peek_asn1_tag inp outer_tag
      then (case CBS_get_asn1 inp outer_tag of
              (None, inp) \<Rightarrow> (None, inp)
            | (Some out, inp) \<Rightarrow> (Some (out, None), inp))
      else (case CBB_init mal (CBS_len inp) of
              (False, _) \<Rightarrow> (None, inp)
            | (True, result) \<Rightarrow>
                (case CBS_get_asn1 inp (outer_tag OR CBS_ASN1_CONSTRUCTED) of
                   (None, inp) \<Rightarrow> (None, inp)
                 | (Some child, inp) \<Rightarrow>
                     (case implicit_string_loop mal child inner_tag result of
                        (False, _) \<Rightarrow> (None, inp)
                      | (True, result) \<Rightarrow>
                          (case CBB_finish mal 0 True result of
                             (None, _) \<Rightarrow> (None, inp)
                           | (Some (data, len), _) \<Rightarrow> (Some (CBS_init data len, Some data), inp))))))"

end
