(* ===== verification/BERSpec.thy ===== *)
theory BERSpec
  imports BER
begin

text \<open>
  BER values, all the ways in which they may be encoded, and their DER form: the abstract
  specification of \<open>crypto/bytestring/ber.c\<close>. \<open>cbs_convert_ber\<close> is shown to write the DER form of
  every BER value within the depth limit, with the fragments of constructed strings joined, definite
  lengths for indefinite ones and minimal length octets.
\<close>

section \<open>Values\<close>

text \<open>A primitive element and a constructed one of definite length come with the length octets
  that were chosen; an element of indefinite length ends with the end-of-contents octets.\<close>

datatype ber =
    BPrim tag bytes bytes
  | BDef tag bytes "ber list"
  | BIndef tag "ber list"

fun ber_encode :: "ber \<Rightarrow> bytes" where
  "ber_encode (BPrim t l c) = der_tag_bytes t @ l @ c"
| "ber_encode (BDef t l xs) = der_tag_bytes t @ l @ concat (map ber_encode xs)"
| "ber_encode (BIndef t xs) = der_tag_bytes t @ [0x80] @ concat (map ber_encode xs) @ [0, 0]"

definition ber_length :: "bytes \<Rightarrow> nat \<Rightarrow> bool" where
  "ber_length l n =
     (case l of
        [] \<Rightarrow> False
      | lb # p \<Rightarrow>
          (if unat lb < 128 then p = [] \<and> n = unat lb
           else unat lb = 128 + length p \<and> 0 < length p \<and> length p \<le> 4 \<and> n = unat (be_val p)))"

definition constructed :: "tag \<Rightarrow> bool" where
  "constructed t \<longleftrightarrow> t AND CBS_ASN1_CONSTRUCTED \<noteq> 0"

text \<open>Encodings that are what they stand for; the end-of-contents octets are not a value.\<close>

fun ber_ok :: "ber \<Rightarrow> bool" where
  "ber_ok (BPrim t l c) \<longleftrightarrow> \<not> constructed t \<and> ber_length l (length c) \<and> \<not> (t = 0 \<and> l = [0])"
| "ber_ok (BDef t l xs) \<longleftrightarrow>
     constructed t \<and> ber_length l (length (concat (map ber_encode xs))) \<and> (\<forall>x\<in>set xs. ber_ok x)"
| "ber_ok (BIndef t xs) \<longleftrightarrow> constructed t \<and> (\<forall>x\<in>set xs. ber_ok x)"

fun ber_height :: "ber \<Rightarrow> nat" where
  "ber_height (BPrim t l c) = 0"
| "ber_height (BDef t l xs) = Suc (foldr (\<lambda>x n. max (ber_height x) n) xs 0)"
| "ber_height (BIndef t xs) = Suc (foldr (\<lambda>x n. max (ber_height x) n) xs 0)"

definition heights :: "ber list \<Rightarrow> nat" where
  "heights xs = foldr (\<lambda>x n. max (ber_height x) n) xs 0"

section \<open>The DER form\<close>

text \<open>The joined contents of a constructed string, and the condition that its fragments, at any
  depth, are of its own type.\<close>

fun string_contents :: "ber \<Rightarrow> bytes" where
  "string_contents (BPrim t l c) = c"
| "string_contents (BDef t l xs) = concat (map string_contents xs)"
| "string_contents (BIndef t xs) = concat (map string_contents xs)"

fun string_ok :: "tag \<Rightarrow> ber \<Rightarrow> bool" where
  "string_ok s (BPrim t l c) \<longleftrightarrow> primitive_tag t = s"
| "string_ok s (BDef t l xs) \<longleftrightarrow> primitive_tag t = s \<and> (\<forall>x\<in>set xs. string_ok s x)"
| "string_ok s (BIndef t xs) \<longleftrightarrow> primitive_tag t = s \<and> (\<forall>x\<in>set xs. string_ok s x)"

definition der_constructed :: "tag \<Rightarrow> bytes \<Rightarrow> bytes \<Rightarrow> bytes" where
  "der_constructed t str children =
     (if is_string_type t then der_element (primitive_tag t, str) else der_element (t, children))"

fun der_form :: "ber \<Rightarrow> bytes" where
  "der_form (BPrim t l c) = der_element (t, c)"
| "der_form (BDef t l xs) = der_constructed t (concat (map string_contents xs)) (concat (map der_form xs))"
| "der_form (BIndef t xs) = der_constructed t (concat (map string_contents xs)) (concat (map der_form xs))"

text \<open>Values that have a DER form: fragments of strings match, and lengths fit.\<close>

definition der_limit :: nat where
  "der_limit = 0xfffffffe"

fun der_able :: "ber \<Rightarrow> bool" where
  "der_able (BPrim t l c) \<longleftrightarrow> length c \<le> der_limit"
| "der_able (BDef t l xs) \<longleftrightarrow>
     (if is_string_type t
      then (\<forall>x\<in>set xs. string_ok (primitive_tag t) x) \<and> length (concat (map string_contents xs)) \<le> der_limit
      else (\<forall>x\<in>set xs. der_able x) \<and> length (concat (map der_form xs)) \<le> der_limit)"
| "der_able (BIndef t xs) \<longleftrightarrow>
     (if is_string_type t
      then (\<forall>x\<in>set xs. string_ok (primitive_tag t) x) \<and> length (concat (map string_contents xs)) \<le> der_limit
      else (\<forall>x\<in>set xs. der_able x) \<and> length (concat (map der_form xs)) \<le> der_limit)"

text \<open>What is written for a value: its DER form, or inside a constructed string its contents.\<close>

definition converted :: "tag \<Rightarrow> ber \<Rightarrow> bytes" where
  "converted s x = (if s = 0 then der_form x else string_contents x)"

definition convertible :: "tag \<Rightarrow> ber \<Rightarrow> bool" where
  "convertible s x \<longleftrightarrow> (if s = 0 then der_able x else string_ok s x \<and> length (string_contents x) \<le> der_limit)"

section \<open>Parsing one header\<close>

lemma ber_element_complete:
  assumes "ber_length l (length c)"
  obtains f where "cbs_get_any_asn1_element (der_tag_bytes t @ l @ c @ r) True =
    (Some \<lparr>elem = der_tag_bytes t @ l @ c, elem_tag = t, header_len = length (der_tag_bytes t @ l), ber_found = f\<rparr>, r)"
proof -
  let ?s = "der_tag_bytes t @ l @ c @ r"
  have lt: "length (der_tag_bytes t) \<le> 6" using length_der_tag_bytes by blast
  have tag: "parse_asn1_tag ?s = (Some t, l @ c @ r)" by (simp add: parse_asn1_tag_complete)
  have out: "asn1_get_element ?s (length (der_tag_bytes t @ l @ c)) t h f =
      (Some \<lparr>elem = der_tag_bytes t @ l @ c, elem_tag = t, header_len = h, ber_found = f\<rparr>, r)" for h f
    by (simp add: asn1_get_element_Some)
  obtain lb p where l: "l = lb # p" using assms by (cases l) (auto simp: ber_length_def)
  show thesis
  proof (cases "unat lb < 128")
    case True
    then have p: "p = []" "length c = unat lb" using assms by (simp_all add: l ber_length_def)
    have hb: "lb AND 0x80 = 0" using True by (simp add: high_bit_clear_iff)
    have hl: "CBS_len ?s - CBS_len (c @ r) = length (der_tag_bytes t @ l)" by (simp add: CBS_len_def l p)
    have "szadd (unat lb) (length (der_tag_bytes t @ l)) = length (der_tag_bytes t @ l @ c)"
      using lt True by (subst szadd_small) (auto simp: l p)
    then have "cbs_get_any_asn1_element ?s True =
      (Some \<lparr>elem = der_tag_bytes t @ l @ c, elem_tag = t, header_len = length (der_tag_bytes t @ l), ber_found = False\<rparr>, r)"
      using hl out unfolding cbs_get_any_asn1_element_def tag
      by (simp only: prod.case option.case l append_Cons append_Nil p(1) CBS_get_u8_Cons Let_def hb refl if_True)
    then show thesis by (rule that)
  next
    case False
    let ?k = "length p"
    have k: "unat lb = 128 + ?k" "0 < ?k" "?k \<le> 4" "length c = unat (be_val p)"
      using assms False by (simp_all add: l ber_length_def)
    have hb: "(lb AND 0x80 = 0) = False" using k(1) by (simp add: high_bit_clear_iff)
    have nb: "unat (lb AND 0x7f) = ?k" using k by simp
    have kc: "(?k = 0 \<or> 4 < ?k) = False" "(True \<and> t AND CBS_ASN1_CONSTRUCTED \<noteq> 0 \<and> ?k = 0) = False"
      using k by auto
    have get: "cbs_get_u (p @ c @ r) ?k = (Some (be_val p), c @ r)" by (simp add: cbs_get_u_eq)
    have "unat (be_val p) < 2 ^ 32"
      using unat_be_val_bound [of p] k(3)
        order_less_le_trans [OF _ power_increasing [of "8 * ?k" 32 "2 :: nat"]] by auto
    then have n: "length c < 2 ^ 32" using k(4) by simp
    let ?h = "CBS_len ?s - CBS_len (p @ c @ r)"
    have h: "?h = length (der_tag_bytes t) + 1" by (simp add: CBS_len_def l)
    have sz: "szadd (szadd (length c) ?h) ?k = length c + ?h + ?k" "szadd ?h ?k = length (der_tag_bytes t @ l)"
      "szadd (length c) (length (der_tag_bytes t @ l)) = length (der_tag_bytes t @ l @ c)"
      using lt n k(3) unfolding h by (auto simp: l)
    have nof: "(length c + ?h + ?k < length c) = False" by simp
    have ok: "((a \<or> b) \<and> \<not> True) = False" for a b by simp
    have "cbs_get_any_asn1_element ?s True =
      (Some \<lparr>elem = der_tag_bytes t @ l @ c, elem_tag = t, header_len = length (der_tag_bytes t @ l),
         ber_found = (be_val p < 128 \<or> drop_bit ((?k - 1) * 8) (be_val p) = 0)\<rparr>, r)"
    proof -
      have tag': "parse_asn1_tag ?s = (Some t, lb # p @ c @ r)" using tag l by simp
      show ?thesis
        unfolding cbs_get_any_asn1_element_def tag'
        by (simp only: prod.case option.case CBS_get_u8_Cons Let_def hb nb kc get k(4) [symmetric] sz nof ok if_False out)
    qed
    then show thesis by (rule that)
  qed
qed

lemma ber_indefinite_complete:
  assumes "constructed t"
  shows "cbs_get_any_asn1_element (der_tag_bytes t @ [0x80] @ r) True =
    (Some \<lparr>elem = der_tag_bytes t @ [0x80], elem_tag = t, header_len = length (der_tag_bytes t @ [0x80]), ber_found = True\<rparr>, r)"
proof -
  let ?s = "der_tag_bytes t @ [0x80] @ r"
  have tag: "parse_asn1_tag ?s = (Some t, 0x80 # r)" by (simp add: parse_asn1_tag_complete)
  have hl: "CBS_len ?s - CBS_len r = length (der_tag_bytes t @ [0x80])" by (simp add: CBS_len_def)
  have out: "asn1_get_element ?s (length (der_tag_bytes t @ [0x80])) t h True =
      (Some \<lparr>elem = der_tag_bytes t @ [0x80], elem_tag = t, header_len = h, ber_found = True\<rparr>, r)" for h
    by (simp add: asn1_get_element_Some)
  have b: "((0x80 :: byte) AND 0x80 = 0) = False" "unat ((0x80 :: byte) AND 0x7f) = 0" by simp_all
  have i: "(True \<and> t AND CBS_ASN1_CONSTRUCTED \<noteq> 0 \<and> (0 :: nat) = 0) = True" using assms by (simp add: constructed_def)
  show ?thesis
    unfolding cbs_get_any_asn1_element_def tag
    by (simp only: prod.case option.case CBS_get_u8_Cons Let_def b i hl if_False if_True out)
qed

section \<open>End of contents, and definite elements that look indefinite\<close>

lemma der_tag_bytes_0: "der_tag_bytes 0 = [0]"
  by (simp add: der_tag_bytes_def)

lemma eoc_tag:
  assumes "is_eoc h (der_tag_bytes t @ x)"
  shows "t = 0 \<and> x = [0] \<and> h = 2"
proof -
  have "der_tag_bytes t @ x = [0, 0]" "h = 2"
    using assms by (auto simp: is_eoc_def CBS_len_def)
  then have "der_tag_bytes t @ x = der_tag_bytes 0 @ [0]" by (simp add: der_tag_bytes_0)
  then have "t = 0 \<and> x = [0]" by (intro tag_codec.enc_split) auto
  then show ?thesis using \<open>h = 2\<close> by simp
qed

lemma constructed_nonzero: "constructed t \<Longrightarrow> t \<noteq> 0"
  by (auto simp: constructed_def)

lemma not_eoc_prim: "\<not> (t = 0 \<and> l = [0]) \<Longrightarrow> ber_length l (length c) \<Longrightarrow>
  \<not> is_eoc (length (der_tag_bytes t @ l)) (der_tag_bytes t @ l @ c)"
  by (auto dest!: eoc_tag simp: der_tag_bytes_0 append_eq_Cons_conv ber_length_def)

lemma not_eoc_constructed: "constructed t \<Longrightarrow> \<not> is_eoc h (der_tag_bytes t @ x)"
  using constructed_nonzero eoc_tag by blast

lemma last_length_octet:
  assumes "ber_length l 0"
  shows "l \<noteq> [] \<and> last l = 0"
proof -
  obtain lb p where l: "l = lb # p" using assms by (cases l) (auto simp: ber_length_def)
  show ?thesis
  proof (cases "unat lb < 128")
    case True
    then show ?thesis using assms by (auto simp: l ber_length_def word_unat_eq_iff)
  next
    case False
    then have "p \<noteq> []" "unat (be_val p) = 0" using assms by (auto simp: l ber_length_def)
    then have p: "p \<noteq> []" "be_val p = 0" by (simp_all add: unat_eq_zero)
    then obtain q b where q: "p = q @ [b]" by (metis rev_exhaust)
    then have "ucast (push_bit 8 (be_val q) OR ucast b :: 64 word) = (0 :: byte)" using p(2) by simp
    then have "b = 0" by (simp only: ucast_join_byte)
    then show ?thesis by (simp add: l q)
  qed
qed

lemma not_indefinite:
  assumes "ber_length l (length c)"
  shows "\<not> (CBS_len (der_tag_bytes t @ l @ c) = length (der_tag_bytes t @ l) \<and> 0 < length (der_tag_bytes t @ l)
    \<and> (der_tag_bytes t @ l @ c) ! (length (der_tag_bytes t @ l) - 1) = 0x80)"
proof
  assume a: "CBS_len (der_tag_bytes t @ l @ c) = length (der_tag_bytes t @ l) \<and> 0 < length (der_tag_bytes t @ l)
    \<and> (der_tag_bytes t @ l @ c) ! (length (der_tag_bytes t @ l) - 1) = 0x80"
  then have c: "c = []" by (simp add: CBS_len_def)
  then have l: "l \<noteq> []" "last l = 0" using last_length_octet assms by auto
  then have "last (der_tag_bytes t @ l) = 0" by simp
  moreover have "last (der_tag_bytes t @ l) = (der_tag_bytes t @ l) ! (length (der_tag_bytes t @ l) - 1)"
    using l(1) by (intro last_conv_nth) simp
  ultimately show False using a c by simp
qed

section \<open>One element\<close>

definition converts :: "nat \<Rightarrow> tag \<Rightarrow> bytes \<Rightarrow> (platform_malloc \<Rightarrow> nat \<Rightarrow> cbb_state \<Rightarrow> bool \<times> cbb_state) \<Rightarrow> bool" where
  "converts depth s x w \<longleftrightarrow> (\<forall>mal d st look rest.
     (\<forall>st'. w mal d st = (True, st') \<longrightarrow>
        cbs_convert_ber mal (x @ rest) d st s look depth = cbs_convert_ber mal rest d st' s look depth) \<and>
     (\<forall>st'. w mal d st = (False, st') \<longrightarrow> (\<exists>inp'. cbs_convert_ber mal (x @ rest) d st s look depth = (False, inp', st'))))"

lemma converts_Nil: "converts depth s [] (\<lambda>mal d st. (True, st))"
  by (simp add: converts_def)

lemma converts_append:
  assumes "converts depth s x f" "converts depth s y g"
  shows "converts depth s (x @ y) (\<lambda>mal d st. and_then (f mal d st) (g mal d))"
  using assms by (fastforce simp: converts_def and_then_True and_then_False)

text \<open>The loop body after the header: definite length, then indefinite length.\<close>

definition convert_contents where
  "convert_contents mal c d st s t depth =
     (if constructed t then (case cbs_convert_ber mal c d st s False depth of (ok, _, st) \<Rightarrow> (ok, st))
      else CBB_add_bytes mal d c st)"

lemma convert_definite:
  assumes "ber_length l (length c)" "\<not> is_eoc (length (der_tag_bytes t @ l)) (der_tag_bytes t @ l @ c)" "depth \<le> kMaxDepth"
  shows "cbs_convert_ber mal ((der_tag_bytes t @ l @ c) @ rest) d st s look depth =
    (case convert_target mal d st s t of
       (None, st) \<Rightarrow> (False, rest, st)
     | (Some (dout, ct), st) \<Rightarrow>
         (case and_then (convert_contents mal c dout st ct t (depth + 1)) (CBB_flush mal d) of
            (False, st) \<Rightarrow> (False, rest, st)
          | (True, st) \<Rightarrow> cbs_convert_ber mal rest d st s look depth))"
proof -
  let ?s = "(der_tag_bytes t @ l @ c) @ rest"
  obtain f where "cbs_get_any_asn1_element (der_tag_bytes t @ l @ c @ rest) True =
    (Some \<lparr>elem = der_tag_bytes t @ l @ c, elem_tag = t, header_len = length (der_tag_bytes t @ l), ber_found = f\<rparr>, rest)"
    using ber_element_complete [OF assms(1)] .
  then have g: "CBS_get_any_ber_asn1_element ?s =
    (Some \<lparr>elem = der_tag_bytes t @ l @ c, elem_tag = t, header_len = length (der_tag_bytes t @ l), ber_found = f\<rparr>, rest)"
    by (simp add: CBS_get_any_ber_asn1_element_def)
  have len: "(CBS_len ?s = 0) = False" "(kMaxDepth < depth) = False"
    using length_der_tag_bytes [of t] assms(3) by (auto simp: CBS_len_def)
  have eoc: "is_eoc (length (der_tag_bytes t @ l)) (der_tag_bytes t @ l @ c) = False" using assms(2) by simp
  have ind: "(CBS_len (der_tag_bytes t @ l @ c) = length (der_tag_bytes t @ l) \<and> 0 < length (der_tag_bytes t @ l)
    \<and> (der_tag_bytes t @ l @ c) ! (length (der_tag_bytes t @ l) - 1) = 0x80) = False"
    using not_indefinite [OF assms(1)] by blast
  have sk: "CBS_skip (der_tag_bytes t @ l @ c) (length (der_tag_bytes t @ l)) = (Some (), c)"
    by (simp add: CBS_skip_eq)
  show ?thesis
    by (subst cbs_convert_ber.simps)
      (simp only: len g prod.case option.case asn1_element.simps eoc ind sk if_False convert_contents_def
        constructed_def and_then_def,
       auto split: prod.splits option.splits bool.splits if_splits)
qed

lemma convert_indefinite:
  assumes "constructed t" "depth \<le> kMaxDepth"
  shows "cbs_convert_ber mal ((der_tag_bytes t @ [0x80]) @ rest) d st s look depth =
    (case convert_target mal d st s t of
       (None, st) \<Rightarrow> (False, rest, st)
     | (Some (dout, ct), st) \<Rightarrow>
         (case cbs_convert_ber mal rest dout st ct True (depth + 1) of
            (False, rest, st) \<Rightarrow> (False, rest, st)
          | (True, rest, st) \<Rightarrow>
              (case CBB_flush mal d st of
                 (False, st) \<Rightarrow> (False, rest, st)
               | (True, st) \<Rightarrow> cbs_convert_ber mal rest d st s look depth)))"
proof -
  let ?s = "(der_tag_bytes t @ [0x80]) @ rest" and ?h = "der_tag_bytes t @ [0x80]"
  have g: "CBS_get_any_ber_asn1_element ?s =
    (Some \<lparr>elem = ?h, elem_tag = t, header_len = length ?h, ber_found = True\<rparr>, rest)"
    using ber_indefinite_complete [OF assms(1), of rest] by (simp add: CBS_get_any_ber_asn1_element_def)
  have len: "(CBS_len ?s = 0) = False" "(kMaxDepth < depth) = False"
    using assms(2) by (auto simp: CBS_len_def)
  have eoc: "is_eoc (length ?h) ?h = False" using not_eoc_constructed [OF assms(1)] by simp
  have ind: "(CBS_len ?h = length ?h \<and> 0 < length ?h \<and> ?h ! (length ?h - 1) = 0x80) = True"
    by (simp add: CBS_len_def)
  show ?thesis
    by (subst cbs_convert_ber.simps)
      (simp only: len g prod.case option.case asn1_element.simps eoc ind if_False if_True)
qed

lemma convert_eoc: "depth \<le> kMaxDepth \<Longrightarrow> cbs_convert_ber mal ([0, 0] @ rest) d st s look depth = (look, rest, st)"
proof -
  assume "depth \<le> kMaxDepth"
  have g: "CBS_get_any_ber_asn1_element ([0, 0] @ rest) =
    (Some \<lparr>elem = [0, 0], elem_tag = 0, header_len = 2, ber_found = False\<rparr>, rest)"
    using element_complete [of "[]" 0 rest True]
    by (simp add: CBS_get_any_ber_asn1_element_def der_element_def der_header_def der_tag_bytes_0 der_length_bytes_def)
  then show ?thesis using \<open>depth \<le> kMaxDepth\<close>
    by (subst cbs_convert_ber.simps) (simp add: CBS_len_def is_eoc_def)
qed

lemma convert_Nil: "depth \<le> kMaxDepth \<Longrightarrow> cbs_convert_ber mal [] d st s look depth = (\<not> look, [], st)"
  by (subst cbs_convert_ber.simps) (simp add: CBS_len_def)

section \<open>Conversion writes the DER form\<close>

definition target_depth :: "tag \<Rightarrow> nat \<Rightarrow> nat" where
  "target_depth s d = (if s = 0 then Suc d else d)"

definition child_tag :: "tag \<Rightarrow> tag \<Rightarrow> tag" where
  "child_tag s t = (if s = 0 \<and> constructed t \<and> is_string_type t then primitive_tag t else s)"

text \<open>The operation that an element amounts to, given the operation for its contents.\<close>

definition element_op where
  "element_op s t w =
     (if s = 0 then enclose (\<lambda>mal d. CBB_add_asn1 mal d (if constructed t \<and> is_string_type t then primitive_tag t else t)) w
      else (\<lambda>mal d st. and_then (w mal d st) (CBB_flush mal d)))"

definition element_out :: "tag \<Rightarrow> tag \<Rightarrow> bytes \<Rightarrow> bytes" where
  "element_out s t out =
     (if s = 0 then der_element (if constructed t \<and> is_string_type t then primitive_tag t else t, out) else out)"

lemma appender_element_op:
  assumes "appender w out" "length out \<le> der_limit"
  shows "appender (element_op s t w) (element_out s t out)"
proof (cases "s = 0")
  case True
  then show ?thesis
    using appender_writer [OF writer_element [OF assms(1)]] assms(2)
    by (simp add: element_op_def element_out_def der_limit_def)
next
  case False
  then show ?thesis
    using appender_then [OF assms(1) appender_writer [OF writer_flush]]
    by (simp add: element_op_def element_out_def)
qed

lemma convert_target_cases:
  assumes "s \<noteq> 0 \<Longrightarrow> primitive_tag t = s"
  shows "convert_target mal d st s t =
    (if s = 0
     then (case CBB_add_asn1 mal d (if constructed t \<and> is_string_type t then primitive_tag t else t) st of
             (False, st) \<Rightarrow> (None, st)
           | (True, st) \<Rightarrow> (Some (Suc d, child_tag s t), st))
     else (Some (d, child_tag s t), st))"
  using assms by (auto simp: convert_target_def child_tag_def constructed_def Let_def split: prod.splits bool.splits)

lemma converts_definite:
  assumes "ber_length l (length c)" "\<not> is_eoc (length (der_tag_bytes t @ l)) (der_tag_bytes t @ l @ c)" "depth \<le> kMaxDepth"
    and "s \<noteq> 0 \<Longrightarrow> primitive_tag t = s"
    and "\<And>mal d st. convert_contents mal c d st (child_tag s t) t (depth + 1) = w mal d st"
  shows "converts depth s (der_tag_bytes t @ l @ c) (element_op s t w)"
proof -
  let ?body = "\<lambda>mal rest d0 dout st look. case and_then (w mal dout st) (CBB_flush mal d0) of
      (False, st) \<Rightarrow> (False, rest, st)
    | (True, st) \<Rightarrow> cbs_convert_ber mal rest d0 st s look depth"
  have b: "(\<forall>st'. and_then (w mal dout st) (CBB_flush mal d0) = (True, st') \<longrightarrow>
        ?body mal rest d0 dout st look = cbs_convert_ber mal rest d0 st' s look depth) \<and>
      (\<forall>st'. and_then (w mal dout st) (CBB_flush mal d0) = (False, st') \<longrightarrow> (\<exists>inp'. ?body mal rest d0 dout st look = (False, inp', st')))"
    for mal rest d0 dout st look by simp
  have tg: "convert_target mal d st s t =
    (if s = 0
     then (case CBB_add_asn1 mal d (if constructed t \<and> is_string_type t then primitive_tag t else t) st of
             (False, st) \<Rightarrow> (None, st)
           | (True, st) \<Rightarrow> (Some (Suc d, child_tag s t), st))
     else (Some (d, child_tag s t), st))" for mal d st
    by (rule convert_target_cases) (rule assms(4))
  show ?thesis
    unfolding converts_def convert_definite [OF assms(1-3)] tg
    using b assms(5) by (auto simp: element_op_def enclose_def and_then_True [of "CBB_add_asn1 _ _ _ _"]
        and_then_False [of "CBB_add_asn1 _ _ _ _"] split: prod.splits bool.splits)
qed

lemma converts_indefinite:
  assumes "constructed t" "depth \<le> kMaxDepth" "s \<noteq> 0 \<Longrightarrow> primitive_tag t = s"
    and "\<And>mal d st rest st'. w mal d st = (True, st') \<Longrightarrow>
      cbs_convert_ber mal (c @ [0, 0] @ rest) d st (child_tag s t) True (depth + 1) = (True, rest, st')"
    and "\<And>mal d st rest st'. w mal d st = (False, st') \<Longrightarrow>
      \<exists>inp'. cbs_convert_ber mal (c @ [0, 0] @ rest) d st (child_tag s t) True (depth + 1) = (False, inp', st')"
  shows "converts depth s (der_tag_bytes t @ [0x80] @ c @ [0, 0]) (element_op s t w)"
proof -
  let ?body = "\<lambda>mal rest d0 dout st look. case cbs_convert_ber mal (c @ [0, 0] @ rest) dout st (child_tag s t) True (depth + 1) of
      (False, rest, st) \<Rightarrow> (False, rest, st)
    | (True, rest, st) \<Rightarrow>
        (case CBB_flush mal d0 st of
           (False, st) \<Rightarrow> (False, rest, st)
         | (True, st) \<Rightarrow> cbs_convert_ber mal rest d0 st s look depth)"
  have b: "(\<forall>st'. and_then (w mal dout st) (CBB_flush mal d0) = (True, st') \<longrightarrow>
        ?body mal rest d0 dout st look = cbs_convert_ber mal rest d0 st' s look depth) \<and>
      (\<forall>st'. and_then (w mal dout st) (CBB_flush mal d0) = (False, st') \<longrightarrow> (\<exists>inp'. ?body mal rest d0 dout st look = (False, inp', st')))"
    for mal rest d0 dout st look
  proof (cases "w mal dout st")
    case (Pair ok st1)
    then show ?thesis using assms(4) [of mal dout st st1 rest] assms(5) [of mal dout st st1 rest]
      by (cases ok) (auto simp: and_then_def split: prod.splits bool.splits)
  qed
  have e: "(der_tag_bytes t @ [0x80] @ c @ [0, 0]) @ rest = (der_tag_bytes t @ [0x80]) @ c @ [0, 0] @ rest" for rest by simp
  have tg: "convert_target mal d st s t =
    (if s = 0
     then (case CBB_add_asn1 mal d (if constructed t \<and> is_string_type t then primitive_tag t else t) st of
             (False, st) \<Rightarrow> (None, st)
           | (True, st) \<Rightarrow> (Some (Suc d, child_tag s t), st))
     else (Some (d, child_tag s t), st))" for mal d st
    by (rule convert_target_cases) (rule assms(3))
  show ?thesis
    unfolding converts_def e convert_indefinite [OF assms(1,2)] tg
  proof (intro allI)
    fix mal d st look rest
    let ?r = "\<lambda>st. case (if s = 0
        then (case CBB_add_asn1 mal d (if constructed t \<and> is_string_type t then primitive_tag t else t) st of
             (False, st) \<Rightarrow> (None, st)
           | (True, st) \<Rightarrow> (Some (Suc d, child_tag s t), st))
        else (Some (d, child_tag s t), st)) of
       (None, st) \<Rightarrow> (False, c @ [0, 0] @ rest, st)
     | (Some (dout, ct), st) \<Rightarrow>
         (case cbs_convert_ber mal (c @ [0, 0] @ rest) dout st ct True (depth + 1) of
            (False, rest, st) \<Rightarrow> (False, rest, st)
          | (True, rest, st) \<Rightarrow>
              (case CBB_flush mal d st of
                 (False, st) \<Rightarrow> (False, rest, st)
               | (True, st) \<Rightarrow> cbs_convert_ber mal rest d st s look depth))"
    show "(\<forall>st'. element_op s t w mal d st = (True, st') \<longrightarrow> ?r st = cbs_convert_ber mal rest d st' s look depth) \<and>
      (\<forall>st'. element_op s t w mal d st = (False, st') \<longrightarrow> (\<exists>inp'. ?r st = (False, inp', st')))"
    proof (cases "s = 0")
      case False
      then show ?thesis using b [where mal = mal and dout = d and st = st and rest = rest and ?d0.0 = d and look = look] by (simp only: element_op_def if_False prod.case option.case)
    next
      case True
      obtain ok st1 where a: "CBB_add_asn1 mal d (if constructed t \<and> is_string_type t then primitive_tag t else t) st = (ok, st1)"
        by fastforce
      show ?thesis
      proof (cases ok)
        case True
        then show ?thesis using b [where mal = mal and dout = "Suc d" and st = st1 and rest = rest and ?d0.0 = d and look = look] \<open>s = 0\<close>
          by (simp only: element_op_def enclose_def if_True a prod.case option.case bool.case and_then_simps simp_thms)
      next
        case False
        then show ?thesis using \<open>s = 0\<close> by (simp add: element_op_def enclose_def a)
      qed
    qed
  qed
qed

lemma converts_list:
  assumes "\<And>x. x \<in> set xs \<Longrightarrow> \<exists>w. appender w (out x) \<and> converts depth s (ber_encode x) w"
  shows "\<exists>w. appender w (concat (map out xs)) \<and> converts depth s (concat (map ber_encode xs)) w"
  using assms
proof (induction xs)
  case Nil
  then show ?case using appender_unit converts_Nil by auto
next
  case (Cons x xs)
  obtain f where f: "appender f (out x)" "converts depth s (ber_encode x) f" using Cons.prems [of x] by auto
  obtain g where g: "appender g (concat (map out xs))" "converts depth s (concat (map ber_encode xs)) g"
    using Cons.IH Cons.prems by auto
  show ?case using appender_then [OF f(1) g(1)] converts_append [OF f(2) g(2)] by auto
qed

lemma primitive_tag_string: "is_string_type t \<Longrightarrow> primitive_tag t \<noteq> 0"
  by (auto simp: is_string_type_def)

lemma height_children: "x \<in> set xs \<Longrightarrow> ber_height x \<le> foldr (\<lambda>x n. max (ber_height x) n) xs 0"
  by (induction xs) auto

lemma length_concat_le: "x \<in> set xs \<Longrightarrow> length (f x) \<le> length (concat (map f xs))"
  by (induction xs) auto

text \<open>Children of a constructed element are convertible under the tag that is passed down, and what
  they are converted to makes up what the element is converted to.\<close>

lemma convertible_children:
  assumes "constructed t" "convertible s (BDef t l xs)"
  shows "(s \<noteq> 0 \<longrightarrow> primitive_tag t = s) \<and> (\<forall>x\<in>set xs. convertible (child_tag s t) x)
    \<and> length (concat (map (converted (child_tag s t)) xs)) \<le> der_limit
    \<and> element_out s t (concat (map (converted (child_tag s t)) xs)) = converted s (BDef t l xs)"
proof (cases "s = 0")
  case s: True
  show ?thesis
  proof (cases "is_string_type t")
    case True
    have ct: "child_tag s t = primitive_tag t" "primitive_tag t \<noteq> 0"
      using s True assms(1) primitive_tag_string by (simp_all add: child_tag_def)
    have "length (string_contents x) \<le> der_limit" if "x \<in> set xs" for x
      using length_concat_le [OF that, of string_contents] assms(2) s True by (simp add: convertible_def)
    moreover have "converted (primitive_tag t) = string_contents" using ct(2) by (intro ext) (simp add: converted_def)
    ultimately show ?thesis
      using assms s True ct by (simp add: convertible_def converted_def element_out_def der_constructed_def)
  next
    case False
    have ct: "child_tag s t = 0" using s False by (simp add: child_tag_def)
    have "converted 0 = der_form" by (intro ext) (simp add: converted_def)
    then show ?thesis
      using assms s False ct by (simp add: convertible_def converted_def element_out_def der_constructed_def)
  qed
next
  case False
  then have ct: "child_tag s t = s" by (simp add: child_tag_def)
  have "length (string_contents x) \<le> der_limit" if "x \<in> set xs" for x
    using length_concat_le [OF that, of string_contents] assms(2) False by (simp add: convertible_def)
  moreover have "converted s = string_contents" using False by (intro ext) (simp add: converted_def)
  ultimately show ?thesis using assms False ct by (simp add: convertible_def converted_def element_out_def)
qed

lemma BIndef_as_BDef: "converted s (BIndef t xs) = converted s (BDef t [] xs)" "convertible s (BIndef t xs) = convertible s (BDef t [] xs)"
  by (simp_all add: converted_def convertible_def)

theorem convert_element:
  "ber_ok x \<Longrightarrow> convertible s x \<Longrightarrow> depth + ber_height x \<le> kMaxDepth \<Longrightarrow>
   \<exists>w. appender w (converted s x) \<and> converts depth s (ber_encode x) w"
proof (induction x arbitrary: s depth)
  case (BPrim t l c)
  have ok: "\<not> constructed t" "ber_length l (length c)" "\<not> (t = 0 \<and> l = [0])" using BPrim.prems(1) by auto
  have c: "length c \<le> der_limit" "s \<noteq> 0 \<Longrightarrow> primitive_tag t = s" using BPrim.prems(2) by (auto simp: convertible_def split: if_splits)
  then have "length c < SIZE_MOD" by (simp add: der_limit_def)
  from appender_element_op [OF appender_writer [OF writer_bytes [OF this]] c(1), of s t]
  have "appender (element_op s t (\<lambda>mal d. CBB_add_bytes mal d c)) (converted s (BPrim t l c))"
    using ok(1) by (simp add: element_out_def converted_def split: if_splits)
  moreover have "converts depth s (ber_encode (BPrim t l c)) (element_op s t (\<lambda>mal d. CBB_add_bytes mal d c))"
    unfolding ber_encode.simps
    by (rule converts_definite [OF ok(2) not_eoc_prim [OF ok(3,2)] _ c(2)])
      (use BPrim.prems(3) ok(1) in \<open>auto simp: convert_contents_def\<close>)
  ultimately show ?case by blast
next
  case (BDef t l xs)
  have ok: "constructed t" "ber_length l (length (concat (map ber_encode xs)))" "\<forall>x\<in>set xs. ber_ok x"
    using BDef.prems(1) by auto
  note ch = convertible_children [OF ok(1) BDef.prems(2)]
  have h: "Suc depth + ber_height x \<le> kMaxDepth" if "x \<in> set xs" for x
    using height_children [OF that] BDef.prems(3) by simp
  have d: "Suc depth \<le> kMaxDepth" "depth \<le> kMaxDepth" using BDef.prems(3) by auto
  obtain w where w: "appender w (concat (map (converted (child_tag s t)) xs))"
    "converts (Suc depth) (child_tag s t) (concat (map ber_encode xs)) w"
    using converts_list [of xs "converted (child_tag s t)" "Suc depth" "child_tag s t"] BDef.IH ok(3) ch h by blast
  have "convert_contents mal (concat (map ber_encode xs)) dd st (child_tag s t) t (depth + 1) = w mal dd st" for mal dd st
  proof (cases "w mal dd st")
    case (Pair b st')
    have "\<exists>inp'. cbs_convert_ber mal (concat (map ber_encode xs)) dd st (child_tag s t) False (Suc depth) = (b, inp', st')"
    proof (cases b)
      case True
      then have "w mal dd st = (True, st')" using Pair by simp
      then have "cbs_convert_ber mal (concat (map ber_encode xs) @ []) dd st (child_tag s t) False (Suc depth) =
          cbs_convert_ber mal [] dd st' (child_tag s t) False (Suc depth)"
        using w(2) unfolding converts_def by blast
      then show ?thesis using True by (simp add: convert_Nil [OF d(1)])
    next
      case False
      then have "w mal dd st = (False, st')" using Pair by simp
      then have "\<exists>inp'. cbs_convert_ber mal (concat (map ber_encode xs) @ []) dd st (child_tag s t) False (Suc depth) = (False, inp', st')"
        using w(2) unfolding converts_def by blast
      then show ?thesis using False by simp
    qed
    then show ?thesis using Pair ok(1) by (auto simp: convert_contents_def)
  qed
  from converts_definite [OF ok(2) not_eoc_constructed [OF ok(1)] d(2) _ this]
  have "converts depth s (ber_encode (BDef t l xs)) (element_op s t w)" using ch by simp
  then show ?case using appender_element_op [OF w(1), of s t] ch by auto
next
  case (BIndef t xs)
  have ok: "constructed t" "\<forall>x\<in>set xs. ber_ok x" using BIndef.prems(1) by auto
  note ch = convertible_children [OF ok(1) BIndef.prems(2) [unfolded BIndef_as_BDef]]
  have h: "Suc depth + ber_height x \<le> kMaxDepth" if "x \<in> set xs" for x
    using height_children [OF that] BIndef.prems(3) by simp
  have d: "Suc depth \<le> kMaxDepth" "depth \<le> kMaxDepth" using BIndef.prems(3) by auto
  obtain w where w: "appender w (concat (map (converted (child_tag s t)) xs))"
    "converts (Suc depth) (child_tag s t) (concat (map ber_encode xs)) w"
    using converts_list [of xs "converted (child_tag s t)" "Suc depth" "child_tag s t"] BIndef.IH ok(2) ch h by blast
  have "converts depth s (ber_encode (BIndef t xs)) (element_op s t w)"
    unfolding ber_encode.simps
  proof (rule converts_indefinite [OF ok(1) d(2)])
    show "cbs_convert_ber mal (concat (map ber_encode xs) @ [0, 0] @ rest) dd st (child_tag s t) True (depth + 1) = (True, rest, st')"
      if "w mal dd st = (True, st')" for mal dd st rest st'
      using w(2) that by (auto simp: converts_def convert_eoc [OF d(1), simplified])
    show "\<exists>inp'. cbs_convert_ber mal (concat (map ber_encode xs) @ [0, 0] @ rest) dd st (child_tag s t) True (depth + 1) = (False, inp', st')"
      if "w mal dd st = (False, st')" for mal dd st rest st'
      using w(2) that by (auto simp: converts_def)
  qed (use ch in simp)
  then show ?case using appender_element_op [OF w(1), of s t] ch by (auto simp: BIndef_as_BDef)
qed

section \<open>The whole conversion\<close>

lemma length_der_element: "length (der_element (t, c)) \<le> 11 + length c"
  using length_der_header(2) [of t "length c"] by (simp add: der_element_def)

lemma length_der_form: "der_able x \<Longrightarrow> length (der_form x) \<le> 11 + der_limit"
  using length_der_element
  by (cases x) (auto simp: der_constructed_def intro: order.trans [OF length_der_element] split: if_splits)

lemma ber_to_der_converts:
  assumes "malloc_total mal" "ber_ok x" "der_able x" "ber_height x \<le> kMaxDepth"
    and "cbs_find_ber (ber_encode x) False 0 = Some True" "length (ber_encode x) \<le> 2 ^ 62"
  shows "\<exists>buf. CBS_asn1_ber_to_der mal (ber_encode x) = (Some (der_form x, Some buf), [])"
proof -
  have cv: "convertible 0 x" "converted 0 x = der_form x" using assms(3) by (simp_all add: convertible_def converted_def)
  obtain w where w: "appender w (der_form x)" "converts 0 0 (ber_encode x) w"
    using convert_element [OF assms(2) cv(1), of 0] assms(4) by (auto simp: cv(2))
  obtain st where st: "CBB_init mal (length (ber_encode x)) = (True, st)" "builds st [(Root, [])]" "growable_state st"
    using init_builds [OF assms(1,6)] .
  have "length (body [(Root, [])]) + length (der_form x) \<le> 2 ^ 61"
    using length_der_form [OF assms(3)] by (simp add: frame_bytes_def der_limit_def)
  then obtain st1 where s1: "w mal 0 st = (True, st1)"
    using appender.append_total [OF w(1) assms(1) st(2,3)] by auto
  have "builds st1 (append_top [(Root, [])] (der_form x))"
    using appender.appends [OF w(1) malloc_total_sound [OF assms(1)] st(2) _ s1] by simp
  then have "builds st1 [(Root, der_form x)]" by (simp add: append_top_def)
  then obtain b :: cbb_buffer where b: "CBB_finish mal 0 True st1 = (Some (b_buf b, b_len b), CBB_cleanup 0 st1)"
    "take (b_len b) (b_buf b) = der_form x"
    by (rule finish_builds [where mal = mal])
  have "cbs_convert_ber mal (ber_encode x @ []) 0 st 0 False 0 = cbs_convert_ber mal [] 0 st1 0 False 0"
    using w(2) s1 unfolding converts_def by blast
  then have "cbs_convert_ber mal (ber_encode x) 0 st 0 False 0 = (True, [], st1)" by (simp add: convert_Nil)
  then show ?thesis using b st(1) assms(5) by (simp add: CBS_asn1_ber_to_der_def CBS_len_def CBS_init_def)
qed

section \<open>Input that is DER already\<close>

fun is_der :: "ber \<Rightarrow> bool" where
  "is_der (BPrim t l c) \<longleftrightarrow> \<not> constructed t \<and> l = der_length_bytes (length c) \<and> length c < 2 ^ 32"
| "is_der (BDef t l xs) \<longleftrightarrow> constructed t \<and> \<not> is_string_type t \<and> (\<forall>x\<in>set xs. is_der x) \<and>
     l = der_length_bytes (length (concat (map ber_encode xs))) \<and> length (concat (map ber_encode xs)) < 2 ^ 32"
| "is_der (BIndef t xs) \<longleftrightarrow> False"

lemma find_ber_prim:
  assumes "\<not> constructed t" "length c < 2 ^ 32" "depth \<le> kMaxDepth"
  shows "cbs_find_ber (der_element (t, c) @ r) f depth = cbs_find_ber r False depth"
  using assms element_complete [OF assms(2), of t r True]
  by (subst cbs_find_ber.simps) (simp add: CBS_get_any_ber_asn1_element_def CBS_len_def constructed_def)

lemma find_ber_constructed:
  assumes "constructed t" "\<not> is_string_type t" "length c < 2 ^ 32" "depth \<le> kMaxDepth"
  shows "cbs_find_ber (der_element (t, c) @ r) f depth =
    (case cbs_find_ber c False (depth + 1) of None \<Rightarrow> None | Some found \<Rightarrow> cbs_find_ber r found depth)"
  using assms element_complete [OF assms(3), of t r True]
  by (subst cbs_find_ber.simps)
    (simp add: CBS_get_any_ber_asn1_element_def CBS_len_def constructed_def CBS_skip_header)

lemma find_ber_der_list:
  assumes "\<And>x depth r f. x \<in> set xs \<Longrightarrow> is_der x \<Longrightarrow> depth + ber_height x \<le> kMaxDepth \<Longrightarrow>
      cbs_find_ber (ber_encode x @ r) f depth = cbs_find_ber r False depth"
    and "\<forall>x\<in>set xs. is_der x" "\<forall>x\<in>set xs. depth + ber_height x \<le> kMaxDepth" "depth \<le> kMaxDepth"
  shows "cbs_find_ber (concat (map ber_encode xs)) f depth = Some (xs = [] \<and> f)"
  using assms
proof (induction xs arbitrary: f)
  case Nil
  then show ?case by (subst cbs_find_ber.simps) (simp add: CBS_len_def)
next
  case (Cons x xs)
  have "cbs_find_ber (ber_encode x @ concat (map ber_encode xs)) f depth = cbs_find_ber (concat (map ber_encode xs)) False depth"
    using Cons.prems by simp
  also have "\<dots> = Some False" using Cons by simp
  finally show ?case by simp
qed

lemma find_ber_der:
  "is_der x \<Longrightarrow> depth + ber_height x \<le> kMaxDepth \<Longrightarrow> cbs_find_ber (ber_encode x @ r) f depth = cbs_find_ber r False depth"
proof (induction x arbitrary: depth r f)
  case (BPrim t l c)
  then show ?case using find_ber_prim [of t c depth r f] by (simp add: der_element_def der_header_def)
next
  case (BDef t l xs)
  let ?c = "concat (map ber_encode xs)"
  have h: "\<forall>x\<in>set xs. Suc depth + ber_height x \<le> kMaxDepth"
    using height_children BDef.prems(2) by fastforce
  have "cbs_find_ber ?c False (Suc depth) = Some (xs = [] \<and> False)"
    by (rule find_ber_der_list) (use BDef h in auto)
  then show ?case
    using find_ber_constructed [of t ?c depth r f] BDef.prems by (simp add: der_element_def der_header_def)
qed simp

lemma ber_to_der_der:
  assumes "is_der x" "ber_height x \<le> kMaxDepth"
  shows "CBS_asn1_ber_to_der mal (ber_encode x) = (Some (ber_encode x, None), [])"
proof -
  have f: "cbs_find_ber (ber_encode x) False 0 = Some False"
    using find_ber_der [OF assms(1), of 0 "[]" False] assms(2)
    by (simp add: cbs_find_ber.simps [of "[]"] CBS_len_def)
  obtain t c where e: "ber_encode x = der_element (t, c)" "length c < 2 ^ 32"
    using assms(1) by (cases x) (auto simp: der_element_def der_header_def)
  show ?thesis
    using element_complete [OF e(2), of t "[]" False] f
    by (simp add: CBS_asn1_ber_to_der_def CBS_get_any_asn1_element_def e(1))
qed

end
