(* ===== verification/ConstTime.thy ===== *)
theory ConstTime
  imports Prelude
begin

text \<open>
  The constant-time primitives of \<open>crypto/internal.h\<close> on \<open>crypto_word_t\<close>, 64 bits on the app's
  targets: masks that are all ones or all zeros instead of branches. They are shown to compute the
  comparisons and selections they are named after. \<open>value_barrier_w\<close> is the identity on values.
\<close>

type_synonym crypto_word = "64 word"

section \<open>The code\<close>

definition value_barrier_w :: "crypto_word \<Rightarrow> crypto_word" where
  "value_barrier_w a = a"

definition constant_time_msb_w :: "crypto_word \<Rightarrow> crypto_word" where
  "constant_time_msb_w a = 0 - drop_bit (64 - 1) a"

definition constant_time_lt_w :: "crypto_word \<Rightarrow> crypto_word \<Rightarrow> crypto_word" where
  "constant_time_lt_w a b = constant_time_msb_w (a XOR ((a XOR b) OR ((a - b) XOR a)))"

definition constant_time_lt_8 :: "crypto_word \<Rightarrow> crypto_word \<Rightarrow> byte" where
  "constant_time_lt_8 a b = ucast (constant_time_lt_w a b)"

definition constant_time_ge_w :: "crypto_word \<Rightarrow> crypto_word \<Rightarrow> crypto_word" where
  "constant_time_ge_w a b = NOT (constant_time_lt_w a b)"

definition constant_time_ge_8 :: "crypto_word \<Rightarrow> crypto_word \<Rightarrow> byte" where
  "constant_time_ge_8 a b = ucast (constant_time_ge_w a b)"

definition constant_time_is_zero_w :: "crypto_word \<Rightarrow> crypto_word" where
  "constant_time_is_zero_w a = constant_time_msb_w (NOT a AND (a - 1))"

definition constant_time_is_zero_8 :: "crypto_word \<Rightarrow> byte" where
  "constant_time_is_zero_8 a = ucast (constant_time_is_zero_w a)"

definition constant_time_eq_w :: "crypto_word \<Rightarrow> crypto_word \<Rightarrow> crypto_word" where
  "constant_time_eq_w a b = constant_time_is_zero_w (a XOR b)"

definition constant_time_eq_8 :: "crypto_word \<Rightarrow> crypto_word \<Rightarrow> byte" where
  "constant_time_eq_8 a b = ucast (constant_time_eq_w a b)"

text \<open>An \<open>int\<close> becomes a \<open>crypto_word_t\<close> with its sign extended.\<close>

definition constant_time_eq_int :: "32 word \<Rightarrow> 32 word \<Rightarrow> crypto_word" where
  "constant_time_eq_int a b = constant_time_eq_w (scast a) (scast b)"

definition constant_time_eq_int_8 :: "32 word \<Rightarrow> 32 word \<Rightarrow> byte" where
  "constant_time_eq_int_8 a b = constant_time_eq_8 (scast a) (scast b)"

definition constant_time_select_w :: "crypto_word \<Rightarrow> crypto_word \<Rightarrow> crypto_word \<Rightarrow> crypto_word" where
  "constant_time_select_w m a b = (value_barrier_w m AND a) OR (value_barrier_w (NOT m) AND b)"

definition constant_time_select_8 :: "byte \<Rightarrow> byte \<Rightarrow> byte \<Rightarrow> byte" where
  "constant_time_select_8 m a b = ucast (constant_time_select_w (ucast m) (ucast a) (ucast b))"

definition constant_time_select_int :: "crypto_word \<Rightarrow> 32 word \<Rightarrow> 32 word \<Rightarrow> 32 word" where
  "constant_time_select_int m a b = ucast (constant_time_select_w m (scast a) (scast b))"

section \<open>What they compute\<close>

definition mask_of :: "bool \<Rightarrow> 'a::len word" where
  "mask_of b = (if b then - 1 else 0)"

lemma mask_of_simps [simp]: "mask_of True = - 1" "mask_of False = 0"
  by (simp_all add: mask_of_def)

lemma bit63_shift: "bit (a :: 64 word) (63 + n) \<longleftrightarrow> n = 0 \<and> bit a 63"
  using bit_imp_le_length [of a "63 + n"] by auto

lemma bit_byte_lt: "bit (a :: byte) n \<Longrightarrow> n < 8"
  using bit_imp_le_length [of a n] by simp

lemma msb_w_eq: "constant_time_msb_w a = mask_of (bit a 63)"
proof -
  have "drop_bit 63 a = (if bit a 63 then 1 else 0)"
    by (rule bit_eqI) (auto simp: bit_simps bit_1_iff bit63_shift)
  then show ?thesis by (simp add: constant_time_msb_w_def mask_of_def)
qed

lemma bit63_iff: "bit (a :: 64 word) 63 \<longleftrightarrow> 2 ^ 63 \<le> unat a"
proof -
  have "bit a 63 \<longleftrightarrow> drop_bit 63 a \<noteq> 0"
    by (auto simp: bit_eq_iff [of "drop_bit 63 a"] bit_simps bit63_shift)
  then show ?thesis by (simp add: drop_bit_zero_iff not_less)
qed

text \<open>The comment on \<open>constant_time_lt_w\<close>: equal top bits leave the borrow in the top bit of the
  difference, different top bits decide.\<close>

lemma msb_less:
  fixes x y :: nat
  assumes "x < 2 ^ 64" "y < 2 ^ 64"
  shows "(if (2 ^ 63 \<le> x) = (2 ^ 63 \<le> y) then 2 ^ 63 \<le> (if y \<le> x then x - y else x + 2 ^ 64 - y) else 2 ^ 63 \<le> y) \<longleftrightarrow> x < y"
proof (cases "y \<le> x")
  case True
  then show ?thesis using assms by (cases "2 ^ 63 \<le> x"; cases "2 ^ 63 \<le> y") auto
next
  case False
  then show ?thesis using assms by (cases "2 ^ 63 \<le> x"; cases "2 ^ 63 \<le> y") auto
qed

lemma lt_w_eq: "constant_time_lt_w a b = mask_of (a < b)"
proof -
  let ?x = "a XOR ((a XOR b) OR ((a - b) XOR a))"
  have lt: "unat a < 2 ^ 64" "unat b < 2 ^ 64" using unsigned_less [of a] unsigned_less [of b] by simp_all
  have d: "unat (a - b) = (if unat b \<le> unat a then unat a - unat b else unat a + 2 ^ 64 - unat b)"
    using unat_sub_if' [of a b] by simp
  have "bit ?x 63 \<longleftrightarrow> (if bit a 63 = bit b 63 then bit (a - b) 63 else bit b 63)"
    by (auto simp: bit_simps)
  also have "\<dots> \<longleftrightarrow> unat a < unat b"
    unfolding bit63_iff d by (rule msb_less [OF lt])
  finally show ?thesis by (simp add: constant_time_lt_w_def msb_w_eq word_less_nat_alt)
qed

lemma is_zero_w_eq: "constant_time_is_zero_w a = mask_of (a = 0)"
proof -
  have "bit (NOT a AND (a - 1)) 63 \<longleftrightarrow> \<not> bit a 63 \<and> bit (a - 1) 63" by (auto simp: bit_simps)
  also have "\<dots> \<longleftrightarrow> a = 0"
    using unat_sub_if' [of a 1] by (auto simp: bit63_iff unat_eq_zero [symmetric] simp del: unat_eq_zero split: if_splits)
  finally show ?thesis by (simp add: constant_time_is_zero_w_def msb_w_eq)
qed

lemma eq_w_eq: "constant_time_eq_w a b = mask_of (a = b)"
proof -
  have "a XOR b = 0 \<longleftrightarrow> a = b" by (auto simp: bit_eq_iff bit_simps)
  then show ?thesis by (simp add: constant_time_eq_w_def is_zero_w_eq)
qed

lemma ge_w_eq: "constant_time_ge_w a b = mask_of (b \<le> a)"
  by (auto simp: constant_time_ge_w_def lt_w_eq mask_of_def not_le)

lemma ucast_mask_of: "ucast (mask_of b :: 64 word) = (mask_of b :: byte)"
  by (cases b) (simp, rule bit_eqI, auto simp: bit_simps)

lemma select_w_eq: "constant_time_select_w (mask_of c) a b = (if c then a else b)"
  by (simp add: constant_time_select_w_def value_barrier_w_def)

lemma select_8_eq: "constant_time_select_8 (mask_of c) a b = (if c then a else b)"
proof -
  have "ucast (ucast (a :: byte) :: 64 word) = a" for a by (rule bit_eqI) (auto simp: bit_simps dest: bit_byte_lt)
  moreover have "(ucast (- 1 :: byte) :: 64 word) AND ucast a = ucast a" for a :: byte
    by (rule bit_eqI) (auto simp: bit_simps dest: bit_byte_lt)
  moreover have "ucast ((NOT (ucast (- 1 :: byte)) :: 64 word) AND ucast b) = (0 :: byte)" for b :: byte
    by (rule bit_eqI) (auto simp: bit_simps dest: bit_byte_lt)
  moreover have "(NOT (ucast (- 1 :: byte)) :: 64 word) AND ucast b = 0" for b :: byte
    by (rule bit_eqI) (auto simp: bit_simps dest: bit_byte_lt)
  ultimately show ?thesis
    by (cases c) (simp_all add: constant_time_select_8_def constant_time_select_w_def value_barrier_w_def)
qed

end
