(* ===== verification/Base64.thy ===== *)
theory Base64
  imports Mem ConstTime
begin

text \<open>
  \<open>crypto/base64/base64.c\<close>: base64 in one call and as a stream. A function that writes to \<open>out\<close> returns
  the bytes it writes there, including the NUL that the encoder puts behind its text. The context keeps
  up to 48 bytes between calls when encoding and up to 4 characters when decoding.
\<close>

section \<open>The code: encoding\<close>

abbreviation INT_MAX :: nat where
  "INT_MAX \<equiv> 2147483647"

definition constant_time_lt_args_8 :: "byte \<Rightarrow> byte \<Rightarrow> byte" where
  "constant_time_lt_args_8 a b = ucast (constant_time_msb_w (ucast a - ucast b))"

definition constant_time_in_range_8 :: "byte \<Rightarrow> byte \<Rightarrow> byte \<Rightarrow> byte" where
  "constant_time_in_range_8 a mn mx = (let a = a - mn in constant_time_lt_args_8 a (mx - mn + 1))"

definition conv_bin2ascii :: "byte \<Rightarrow> byte" where
  "conv_bin2ascii a =
     (let a = a AND 0x3f;
          ret = constant_time_select_8 (constant_time_eq_8 (ucast a) 62) 43 47;
          ret = constant_time_select_8 (constant_time_lt_args_8 a 62) (a - 52 + 48) ret;
          ret = constant_time_select_8 (constant_time_lt_args_8 a 52) (a - 26 + 97) ret;
          ret = constant_time_select_8 (constant_time_lt_args_8 a 26) (a + 65) ret
      in ret)"

definition EVP_EncodedLength :: "nat \<Rightarrow> nat option" where
  "EVP_EncodedLength len =
     (if szadd len 2 < len then None
      else
        (let len = szadd len 2 div 3
         in if szmul len 4 div 4 \<noteq> len then None
            else (let len = szmul len 4 in if szadd len 1 < len then None else Some (szadd len 1))))"

record encode_ctx =
  ctx_data_used :: nat
  ctx_data :: bytes
  ctx_eof_seen :: bool
  ctx_error :: bool

definition EVP_EncodeInit :: encode_ctx where
  "EVP_EncodeInit = \<lparr>ctx_data_used = 0, ctx_data = replicate 48 0, ctx_eof_seen = False, ctx_error = False\<rparr>"

definition sextet :: "32 word \<Rightarrow> nat \<Rightarrow> byte" where
  "sextet l n = conv_bin2ascii (ucast (drop_bit n l))"

fun encode_block_loop :: "bytes \<Rightarrow> bytes" where
  "encode_block_loop [] = []"
| "encode_block_loop [s0] =
     (let l = push_bit 16 (ucast s0) in [sextet l 18, sextet l 12, 61, 61])"
| "encode_block_loop [s0, s1] =
     (let l = push_bit 16 (ucast s0) OR push_bit 8 (ucast s1) in [sextet l 18, sextet l 12, sextet l 6, 61])"
| "encode_block_loop (s0 # s1 # s2 # src) =
     (let l = push_bit 16 (ucast s0) OR push_bit 8 (ucast s1) OR ucast s2
      in sextet l 18 # sextet l 12 # sextet l 6 # sextet l 0 # encode_block_loop src)"

definition EVP_EncodeBlock :: "bytes \<Rightarrow> bytes \<times> nat" where
  "EVP_EncodeBlock src = (let dst = encode_block_loop src in (dst @ [0], length dst))"

text \<open>One full line: the NUL behind the block gives way to the newline.\<close>

definition encode_line :: "bytes \<Rightarrow> bytes" where
  "encode_line src = (let (out, encoded) = EVP_EncodeBlock src in take encoded out @ [10])"

text \<open>The loop over full lines; the total is \<open>None\<close> when it would overflow and the call returns early.\<close>

function encode_update_loop :: "bytes \<Rightarrow> nat \<Rightarrow> bytes \<Rightarrow> bytes \<times> nat option \<times> bytes" where
  "encode_update_loop out tot inp =
     (if 48 \<le> length inp
      then (let line = encode_line (take 48 inp); inp = drop 48 inp; out = out @ line
            in if szadd tot (length line) < tot then (out, None, inp)
               else encode_update_loop out (szadd tot (length line)) inp)
      else (out, Some tot, inp))"
  by pat_completeness auto
termination
  by (relation "measure (\<lambda>(out, tot, inp). length inp)") auto

declare encode_update_loop.simps [simp del]

definition terminated :: "bytes \<Rightarrow> bytes" where
  "terminated out = (if out = [] then [] else out @ [0])"

text \<open>The second half of \<open>EVP_EncodeUpdate\<close>: full lines straight from the input, the rest into the context.\<close>

definition encode_rest :: "encode_ctx \<Rightarrow> bytes \<Rightarrow> bytes \<Rightarrow> bytes \<times> nat \<times> encode_ctx" where
  "encode_rest ctx out inp =
     (case encode_update_loop out (length out) inp of
        (out, None, inp) \<Rightarrow> (terminated out, 0, ctx)
      | (out, Some tot, inp) \<Rightarrow>
          (let ctx = (if length inp \<noteq> 0 then ctx\<lparr>ctx_data := buf_write (ctx_data ctx) 0 inp\<rparr> else ctx);
               ctx = ctx\<lparr>ctx_data_used := length inp\<rparr>;
               tot = (if INT_MAX < tot then 0 else tot)
           in (terminated out, tot, ctx)))"

definition EVP_EncodeUpdate :: "encode_ctx \<Rightarrow> bytes \<Rightarrow> bytes \<times> nat \<times> encode_ctx" where
  "EVP_EncodeUpdate ctx inp =
     (if length inp = 0 then ([], 0, ctx)
      else if length inp < 48 - ctx_data_used ctx
      then ([], 0, ctx\<lparr>ctx_data := buf_write (ctx_data ctx) (ctx_data_used ctx) inp,
                        ctx_data_used := ctx_data_used ctx + length inp\<rparr>)
      else if ctx_data_used ctx \<noteq> 0
      then
        (let todo = 48 - ctx_data_used ctx;
             ctx = ctx\<lparr>ctx_data := buf_write (ctx_data ctx) (ctx_data_used ctx) (take todo inp)\<rparr>
         in encode_rest (ctx\<lparr>ctx_data_used := 0\<rparr>) (encode_line (ctx_data ctx)) (drop todo inp))
      else encode_rest ctx [] inp)"

definition EVP_EncodeFinal :: "encode_ctx \<Rightarrow> bytes \<times> nat \<times> encode_ctx" where
  "EVP_EncodeFinal ctx =
     (if ctx_data_used ctx = 0 then ([], 0, ctx)
      else (let out = encode_line (take (ctx_data_used ctx) (ctx_data ctx))
            in (out @ [0], length out, ctx\<lparr>ctx_data_used := 0\<rparr>)))"

section \<open>The code: decoding\<close>

definition EVP_DecodedLength :: "nat \<Rightarrow> nat option" where
  "EVP_DecodedLength len = (if len mod 4 \<noteq> 0 then None else Some (szmul (len div 4) 3))"

definition EVP_DecodeInit :: encode_ctx where
  "EVP_DecodeInit = \<lparr>ctx_data_used = 0, ctx_data = replicate 48 0, ctx_eof_seen = False, ctx_error = False\<rparr>"

definition base64_ascii_to_bin :: "byte \<Rightarrow> byte" where
  "base64_ascii_to_bin a =
     (let is_upper = constant_time_in_range_8 a 65 90;
          is_lower = constant_time_in_range_8 a 97 122;
          is_digit = constant_time_in_range_8 a 48 57;
          is_plus = constant_time_eq_8 (ucast a) 43;
          is_slash = constant_time_eq_8 (ucast a) 47;
          is_equals = constant_time_eq_8 (ucast a) 61;
          ret = 0 OR (is_upper AND (a - 65));
          ret = ret OR (is_lower AND (a - 97 + 26));
          ret = ret OR (is_digit AND (a - 48 + 52));
          ret = ret OR (is_plus AND 62);
          ret = ret OR (is_slash AND 63);
          is_valid = is_upper OR is_lower OR is_digit OR is_plus OR is_slash OR is_equals
      in ret OR NOT is_valid)"

text \<open>The bytes that a quad stands for; the padding pattern is read from the characters.\<close>

definition base64_decode_quad :: "byte \<Rightarrow> byte \<Rightarrow> byte \<Rightarrow> byte \<Rightarrow> bytes option" where
  "base64_decode_quad in0 in1 in2 in3 =
     (let a = base64_ascii_to_bin in0; b = base64_ascii_to_bin in1;
          c = base64_ascii_to_bin in2; d = base64_ascii_to_bin in3
      in if a = 0xff \<or> b = 0xff \<or> c = 0xff \<or> d = 0xff then None
         else
           (let v = push_bit 18 (ucast a) OR push_bit 12 (ucast b) OR push_bit 6 (ucast c) OR ucast d :: 32 word;
                padding_pattern = of_bool (in0 = 61) * 8 + of_bool (in1 = 61) * 4 + of_bool (in2 = 61) * 2
                  + of_bool (in3 = 61) :: nat
            in if padding_pattern = 0 then Some [ucast (drop_bit 16 v), ucast (drop_bit 8 v), ucast v]
               else if padding_pattern = 1 then Some [ucast (drop_bit 16 v), ucast (drop_bit 8 v)]
               else if padding_pattern = 3 then Some [ucast (drop_bit 16 v)]
               else None))"

definition is_base64_space :: "byte \<Rightarrow> bool" where
  "is_base64_space c = (c = 32 \<or> c = 9 \<or> c = 13 \<or> c = 10)"

text \<open>The loop of \<open>EVP_DecodeUpdate\<close>: whether it ran to the end, what it wrote, and the context.\<close>

fun decode_update_loop :: "encode_ctx \<Rightarrow> bytes \<Rightarrow> bool \<times> bytes \<times> encode_ctx" where
  "decode_update_loop ctx [] = (True, [], ctx)"
| "decode_update_loop ctx (c # inp) =
     (if is_base64_space c then decode_update_loop ctx inp
      else if ctx_eof_seen ctx then (False, [], ctx\<lparr>ctx_error := True\<rparr>)
      else
        (let ctx = ctx\<lparr>ctx_data := (ctx_data ctx)[ctx_data_used ctx := c], ctx_data_used := ctx_data_used ctx + 1\<rparr>
         in if ctx_data_used ctx = 4
            then (case base64_decode_quad (ctx_data ctx ! 0) (ctx_data ctx ! 1) (ctx_data ctx ! 2) (ctx_data ctx ! 3) of
                    None \<Rightarrow> (False, [], ctx\<lparr>ctx_error := True\<rparr>)
                  | Some bs \<Rightarrow>
                      (let ctx = ctx\<lparr>ctx_data_used := 0, ctx_eof_seen := (length bs < 3 \<or> ctx_eof_seen ctx)\<rparr>;
                           (ok, out, ctx) = decode_update_loop ctx inp
                       in (ok, bs @ out, ctx)))
            else decode_update_loop ctx inp))"

definition EVP_DecodeUpdate :: "encode_ctx \<Rightarrow> bytes \<Rightarrow> int \<times> bytes \<times> nat \<times> encode_ctx" where
  "EVP_DecodeUpdate ctx inp =
     (if ctx_error ctx then (- 1, [], 0, ctx)
      else (case decode_update_loop ctx inp of
              (False, out, ctx) \<Rightarrow> (- 1, out, 0, ctx)
            | (True, out, ctx) \<Rightarrow>
                (if INT_MAX < length out then (- 1, out, 0, ctx\<lparr>ctx_error := True\<rparr>)
                 else (if ctx_eof_seen ctx then 0 else 1, out, length out, ctx))))"

definition EVP_DecodeFinal :: "encode_ctx \<Rightarrow> int" where
  "EVP_DecodeFinal ctx = (if ctx_error ctx \<or> ctx_data_used ctx \<noteq> 0 then - 1 else 1)"

text \<open>The loop of \<open>EVP_DecodeBase64\<close>: success and what was written.\<close>

fun decode_base64_loop :: "bytes \<Rightarrow> bool \<times> bytes" where
  "decode_base64_loop (a # b # c # d # inp) =
     (case base64_decode_quad a b c d of
        None \<Rightarrow> (False, [])
      | Some bs \<Rightarrow>
          (if length bs \<noteq> 3 \<and> inp \<noteq> [] then (False, bs)
           else (let (ok, out) = decode_base64_loop inp in (ok, bs @ out))))"
| "decode_base64_loop inp = (True, [])"

definition EVP_DecodeBase64 :: "nat \<Rightarrow> bytes \<Rightarrow> bool \<times> bytes \<times> nat" where
  "EVP_DecodeBase64 max_out inp =
     (if length inp mod 4 \<noteq> 0 then (False, [], 0)
      else (case EVP_DecodedLength (length inp) of
              None \<Rightarrow> (False, [], 0)
            | Some max_len \<Rightarrow>
                (if max_out < max_len then (False, [], 0)
                 else (case decode_base64_loop inp of
                         (False, out) \<Rightarrow> (False, out, 0)
                       | (True, out) \<Rightarrow> (True, out, length out)))))"

text \<open>\<open>EVP_DecodeBlock\<close> trims and pads the result with NULs to a multiple of three.\<close>

definition trim_base64 :: "bytes \<Rightarrow> bytes" where
  "trim_base64 src =
     rev (dropWhile is_base64_space (rev (dropWhile (\<lambda>c. c = 32 \<or> c = 9) src)))"

definition EVP_DecodeBlock :: "bytes \<Rightarrow> int \<times> bytes" where
  "EVP_DecodeBlock src =
     (let src = trim_base64 src
      in case EVP_DecodedLength (length src) of
           None \<Rightarrow> (- 1, [])
         | Some dst_len \<Rightarrow>
             (if INT_MAX < dst_len then (- 1, [])
              else (case EVP_DecodeBase64 dst_len src of
                      (False, out, _) \<Rightarrow> (- 1, out)
                    | (True, out, len) \<Rightarrow>
                        (let pad = (3 - len mod 3) mod 3
                         in (int (len + pad), out @ replicate pad 0)))))"

section \<open>The character table\<close>

definition base64_char :: "nat \<Rightarrow> byte" where
  "base64_char n =
     (if n < 26 then of_nat (65 + n) else if n < 52 then of_nat (97 + (n - 26))
      else if n < 62 then of_nat (48 + (n - 52)) else if n = 62 then 43 else 47)"

lemma lt_args_eq: "constant_time_lt_args_8 a b = mask_of (a < b)"
proof -
  have u: "unat (ucast a :: 64 word) = unat a" "unat (ucast b :: 64 word) = unat b"
    by (rule unat_ucast_up; simp)+
  have "unat (ucast a - ucast b :: 64 word) = (if unat b \<le> unat a then unat a - unat b else unat a + 2 ^ 64 - unat b)"
    using unat_sub_if' [of "ucast a :: 64 word" "ucast b"] by (simp only: u) simp
  then have "bit (ucast a - ucast b :: 64 word) 63 \<longleftrightarrow> unat a < unat b"
    using byte_lt [of a] byte_lt [of b] by (auto simp: bit63_iff)
  then show ?thesis by (simp add: constant_time_lt_args_8_def msb_w_eq ucast_mask_of word_less_nat_alt)
qed

lemma eq_8_eq: "constant_time_eq_8 (ucast (a :: byte)) (ucast (b :: byte)) = mask_of (a = b)"
proof -
  have u: "unat (ucast c :: 64 word) = unat c" for c :: byte by (rule unat_ucast_up) simp
  have "(ucast a :: 64 word) = ucast b \<longleftrightarrow> a = b" by (simp only: word_unat_eq_iff u)
  then show ?thesis by (simp add: constant_time_eq_8_def eq_w_eq ucast_mask_of)
qed

lemma in_range_eq:
  assumes "mn \<le> mx" "unat mx < 255"
  shows "constant_time_in_range_8 a mn mx = mask_of (mn \<le> a \<and> a \<le> mx)"
proof -
  have m: "unat (mx - mn + 1) = unat mx - unat mn + 1"
  proof -
    have "unat (mx - mn) = unat mx - unat mn" using assms(1) by (rule unat_sub)
    then show ?thesis using assms by (simp add: unat_word_ariths word_le_nat_alt)
  qed
  have "a - mn < mx - mn + 1 \<longleftrightarrow> mn \<le> a \<and> a \<le> mx"
    using unat_sub_if' [of a mn] assms byte_lt [of a] byte_lt [of mx] byte_lt [of mn]
    by (auto simp: word_less_nat_alt word_le_nat_alt m)
  then show ?thesis by (simp add: constant_time_in_range_8_def Let_def lt_args_eq)
qed

lemma byte_64_iff [simp]: "(ucast (a :: byte) :: 64 word) = ucast (b :: byte) \<longleftrightarrow> a = b"
proof -
  have u: "unat (ucast c :: 64 word) = unat c" for c :: byte by (rule unat_ucast_up) simp
  show ?thesis by (simp only: word_unat_eq_iff u)
qed

lemma eq_8_numerals:
  "constant_time_eq_8 (ucast (a :: byte)) 62 = mask_of (a = 62)" "constant_time_eq_8 (ucast (a :: byte)) 43 = mask_of (a = 43)"
  "constant_time_eq_8 (ucast (a :: byte)) 47 = mask_of (a = 47)" "constant_time_eq_8 (ucast (a :: byte)) 61 = mask_of (a = 61)"
  using eq_8_eq [of a 62] eq_8_eq [of a 43] eq_8_eq [of a 47] eq_8_eq [of a 61] by simp_all

lemma and_3f: "unat (a AND 0x3f :: byte) = unat a mod 64"
  using nat_and_mask [of "unat a" 6] by (simp add: unsigned_and_eq)

lemma conv_bin2ascii_eq: "conv_bin2ascii a = base64_char (unat a mod 64)"
proof -
  let ?a = "a AND 0x3f"
  have n: "unat ?a = unat a mod 64" by (rule and_3f)
  have l: "?a < 62 \<longleftrightarrow> unat a mod 64 < 62" "?a < 52 \<longleftrightarrow> unat a mod 64 < 52" "?a < 26 \<longleftrightarrow> unat a mod 64 < 26"
    "?a = 62 \<longleftrightarrow> unat a mod 64 = 62"
    by (simp_all add: word_less_nat_alt word_unat_eq_iff n)
  have o: "?a = of_nat (unat a mod 64)" using n by (metis of_nat_unat ucast_id)
  show ?thesis
    unfolding conv_bin2ascii_def Let_def eq_8_numerals lt_args_eq select_8_eq l base64_char_def
    by (simp add: o of_nat_diff)
qed

lemma ascii_to_bin_eq:
  "base64_ascii_to_bin a =
     (if 65 \<le> a \<and> a \<le> 90 then a - 65 else if 97 \<le> a \<and> a \<le> 122 then a - 97 + 26
      else if 48 \<le> a \<and> a \<le> 57 then a - 48 + 52 else if a = 43 then 62 else if a = 47 then 63
      else if a = 61 then 0 else 0xff)"
proof -
  have r: "constant_time_in_range_8 a 65 90 = mask_of (65 \<le> a \<and> a \<le> 90)"
    "constant_time_in_range_8 a 97 122 = mask_of (97 \<le> a \<and> a \<le> 122)"
    "constant_time_in_range_8 a 48 57 = mask_of (48 \<le> a \<and> a \<le> 57)"
    by (rule in_range_eq; simp)+
  show ?thesis
    unfolding base64_ascii_to_bin_def Let_def eq_8_numerals r
    by (auto simp: mask_of_def word_le_nat_alt)
qed

lemma unat_base64_char:
  "n < 64 \<Longrightarrow> unat (base64_char n) =
     (if n < 26 then 65 + n else if n < 52 then 71 + n else if n < 62 then n - 4 else if n = 62 then 43 else 47)"
  using unat_of_nat_byte [of "65 + n"] unat_of_nat_byte [of "97 + (n - 26)"] unat_of_nat_byte [of "48 + (n - 52)"]
  unfolding base64_char_def by (auto simp del: of_nat_add of_nat_diff)

lemma ascii_to_bin_char:
  assumes "n < 64"
  shows "base64_ascii_to_bin (base64_char n) = of_nat n"
proof -
  let ?c = "base64_char n"
  have u: "unat ?c = (if n < 26 then 65 + n else if n < 52 then 71 + n else if n < 62 then n - 4 else if n = 62 then 43 else 47)"
    using unat_base64_char [OF assms] .
  have c: "?c = of_nat (unat ?c)" by simp
  consider "n < 26" | "26 \<le> n" "n < 52" | "52 \<le> n" "n < 62" | "n = 62" | "n = 63" using assms by linarith
  then show ?thesis
  proof cases
    case 1
    then have "65 \<le> ?c" "?c \<le> 90" "?c = of_nat (65 + n)" using u c by (simp_all add: word_le_nat_alt)
    then show ?thesis by (simp add: ascii_to_bin_eq)
  next
    case 2
    then have "\<not> ?c \<le> 90" "97 \<le> ?c" "?c \<le> 122" "?c = of_nat (71 + n)" using u c by (simp_all add: word_le_nat_alt)
    then show ?thesis by (simp add: ascii_to_bin_eq)
  next
    case 3
    then obtain m where m: "n = 52 + m" by (metis le_iff_add)
    then have "\<not> 65 \<le> ?c" "\<not> 97 \<le> ?c" "48 \<le> ?c" "?c \<le> 57" "?c = of_nat (48 + m)"
      using u c 3 by (simp_all add: word_le_nat_alt)
    then show ?thesis by (simp add: ascii_to_bin_eq m)
  next
    case 4
    then show ?thesis by (simp add: ascii_to_bin_eq base64_char_def)
  next
    case 5
    then show ?thesis by (simp add: ascii_to_bin_eq base64_char_def)
  qed
qed

lemma base64_char_not_special: "n < 64 \<Longrightarrow> base64_char n \<noteq> 61 \<and> \<not> is_base64_space (base64_char n)"
  using unat_base64_char [of n] by (auto simp: is_base64_space_def word_unat_eq_iff split: if_splits)

section \<open>Quads\<close>

lemma mask_3f: "(0x3f :: byte) = mask 6"
  by (simp add: mask_eq_exp_minus_1)

lemma sextet_bin: "base64_ascii_to_bin (sextet l n) = ucast (drop_bit n l) AND 0x3f"
proof -
  let ?b = "ucast (drop_bit n l) :: byte"
  have "unat ?b mod 64 < 64" by simp
  then have "base64_ascii_to_bin (sextet l n) = of_nat (unat ?b mod 64)"
    by (simp only: sextet_def conv_bin2ascii_eq ascii_to_bin_char)
  also have "\<dots> = ?b AND 0x3f" by (metis and_3f of_nat_unat ucast_id)
  finally show ?thesis .
qed

lemma sextet_not_special: "sextet l n \<noteq> 61" "\<not> is_base64_space (sextet l n)"
  using base64_char_not_special [of "unat (ucast (drop_bit n l) :: byte) mod 64"]
  by (simp_all add: sextet_def conv_bin2ascii_eq)

lemma sextet_valid: "ucast (drop_bit n l) AND 0x3f \<noteq> (0xff :: byte)"
proof
  assume "ucast (drop_bit n l) AND 0x3f = (0xff :: byte)"
  then have "unat (ucast (drop_bit n l) AND 0x3f :: byte) = 255" by simp
  then show False unfolding and_3f using mod_less_divisor [of 64] by simp
qed

lemma quad_join:
  "push_bit 18 (ucast (ucast (drop_bit 18 l) AND 0x3f :: byte)) OR push_bit 12 (ucast (ucast (drop_bit 12 l) AND 0x3f :: byte))
     OR push_bit 6 (ucast (ucast (drop_bit 6 l) AND 0x3f :: byte)) OR ucast (ucast l AND 0x3f :: byte)
   = take_bit 24 (l :: 32 word)"
proof (rule bit_eqI)
  fix n
  assume "possible_bit TYPE(32 word) n"
  consider "n < 6" | "6 \<le> n" "n < 12" | "12 \<le> n" "n < 18" | "18 \<le> n" "n < 24" | "24 \<le> n" by linarith
  then show "bit (push_bit 18 (ucast (ucast (drop_bit 18 l) AND 0x3f :: byte)) OR push_bit 12 (ucast (ucast (drop_bit 12 l) AND 0x3f :: byte))
     OR push_bit 6 (ucast (ucast (drop_bit 6 l) AND 0x3f :: byte)) OR ucast (ucast l AND 0x3f :: byte) :: 32 word) n
   = bit (take_bit 24 l) n"
    by cases (auto simp: mask_3f bit_simps)
qed

text \<open>The 24 bits of a triple, and its bytes back.\<close>

definition triple :: "byte \<Rightarrow> byte \<Rightarrow> byte \<Rightarrow> 32 word" where
  "triple a b c = push_bit 16 (ucast a) OR push_bit 8 (ucast b) OR ucast c"

lemma triple_24: "take_bit 24 (triple a b c) = triple a b c"
  by (rule bit_eqI) (auto simp: triple_def bit_simps dest: bit_byte_lt)

lemma triple_bytes:
  "ucast (drop_bit 16 (triple a b c)) = a" "ucast (drop_bit 8 (triple a b c)) = b" "ucast (triple a b c) = c"
  by (rule bit_eqI, auto simp: triple_def bit_simps dest: bit_byte_lt)+

lemma ascii_to_bin_equals: "base64_ascii_to_bin 61 = 0"
  by (simp add: ascii_to_bin_eq)

lemma quad_of_triple:
  "base64_decode_quad (sextet (triple a b c) 18) (sextet (triple a b c) 12) (sextet (triple a b c) 6) (sextet (triple a b c) 0)
   = Some [a, b, c]"
proof -
  let ?l = "triple a b c"
  have j: "push_bit 18 (ucast (ucast (drop_bit 18 ?l) AND 0x3f :: byte)) OR push_bit 12 (ucast (ucast (drop_bit 12 ?l) AND 0x3f :: byte))
     OR push_bit 6 (ucast (ucast (drop_bit 6 ?l) AND 0x3f :: byte)) OR ucast (ucast (drop_bit 0 ?l) AND 0x3f :: byte) = ?l"
    using quad_join [of ?l] unfolding triple_24 drop_bit_0 id_apply .
  show ?thesis
    unfolding base64_decode_quad_def Let_def sextet_bin j
    by (simp add: sextet_valid sextet_not_special(1) triple_bytes del: drop_bit_0)
qed

lemma quad_of_pair:
  "base64_decode_quad (sextet (triple a b 0) 18) (sextet (triple a b 0) 12) (sextet (triple a b 0) 6) 61 = Some [a, b]"
proof -
  let ?l = "triple a b 0"
  have z: "(0 :: byte) = ucast ?l AND 0x3f"
    by (rule bit_eqI) (auto simp: triple_def mask_3f bit_simps)
  have j: "push_bit 18 (ucast (ucast (drop_bit 18 ?l) AND 0x3f :: byte)) OR push_bit 12 (ucast (ucast (drop_bit 12 ?l) AND 0x3f :: byte))
     OR push_bit 6 (ucast (ucast (drop_bit 6 ?l) AND 0x3f :: byte)) OR ucast (0 :: byte) = ?l"
    using quad_join [of ?l] unfolding z [symmetric] triple_24 .
  show ?thesis
    unfolding base64_decode_quad_def Let_def sextet_bin ascii_to_bin_equals j
    using sextet_valid [of _ ?l] sextet_not_special(1) [of ?l] by (simp add: triple_bytes)
qed

lemma quad_of_single:
  "base64_decode_quad (sextet (triple a 0 0) 18) (sextet (triple a 0 0) 12) 61 61 = Some [a]"
proof -
  let ?l = "triple a 0 0"
  have z: "(0 :: byte) = ucast ?l AND 0x3f" "(0 :: byte) = ucast (drop_bit 6 ?l) AND 0x3f"
    by (rule bit_eqI, auto simp: triple_def mask_3f bit_simps dest: bit_byte_lt)+
  have j: "push_bit 18 (ucast (ucast (drop_bit 18 ?l) AND 0x3f :: byte)) OR push_bit 12 (ucast (ucast (drop_bit 12 ?l) AND 0x3f :: byte))
     OR push_bit 6 (ucast (0 :: byte)) OR ucast (0 :: byte) = ?l"
    using quad_join [of ?l] unfolding z [symmetric] triple_24 .
  show ?thesis
    unfolding base64_decode_quad_def Let_def sextet_bin ascii_to_bin_equals j
    using sextet_valid [of _ ?l] sextet_not_special(1) [of ?l] by (simp add: triple_bytes)
qed

lemma encode_block_triples:
  "encode_block_loop [a] = [sextet (triple a 0 0) 18, sextet (triple a 0 0) 12, 61, 61]"
  "encode_block_loop [a, b] = [sextet (triple a b 0) 18, sextet (triple a b 0) 12, sextet (triple a b 0) 6, 61]"
  "encode_block_loop (a # b # c # src) = sextet (triple a b c) 18 # sextet (triple a b c) 12 # sextet (triple a b c) 6
     # sextet (triple a b c) 0 # encode_block_loop src"
  by (simp_all add: triple_def Let_def)

section \<open>In one call\<close>

lemma encode_block_cases [case_names Nil Single Pair Triple]:
  fixes xs :: bytes
  obtains "xs = []" | a where "xs = [a]" | a b where "xs = [a, b]" | a b c ys where "xs = a # b # c # ys"
  by (cases xs rule: encode_block_loop.cases) auto

lemma length_encode_block: "length (encode_block_loop src) = (length src + 2) div 3 * 4"
proof (induction src rule: encode_block_loop.induct)
  case (4 a b c src)
  have "(5 + n) div 3 = Suc ((n + 2) div 3)" for n :: nat using div_add_self1 [of 3 "n + 2"] by (simp add: ac_simps)
  then show ?case using 4 by (simp add: Let_def)
qed (simp_all add: Let_def)

lemma decode_base64_encode: "decode_base64_loop (encode_block_loop src) = (True, src)"
proof (induction src rule: encode_block_loop.induct)
  case (2 a)
  then show ?case by (simp add: encode_block_triples quad_of_single del: encode_block_loop.simps)
next
  case (3 a b)
  then show ?case by (simp add: encode_block_triples quad_of_pair del: encode_block_loop.simps)
next
  case (4 a b c src)
  then show ?case by (simp add: encode_block_triples quad_of_triple del: encode_block_loop.simps)
qed simp

end
