(* ===== verification/Base64Stream.thy ===== *)
theory Base64Stream
  imports Base64
begin

text \<open>
  What \<open>crypto/base64/base64.c\<close> promises: the one-call decoders invert the encoder, the streaming
  encoder writes the lines of its whole input however that input is cut into chunks, and the
  streaming decoder returns the bytes behind those lines, again for every cut.
\<close>

section \<open>In one call\<close>

lemma equals_not_space: "\<not> is_base64_space 61"
  by (simp add: is_base64_space_def)

lemma sextet_chars: "c \<in> set (encode_block_loop src) \<Longrightarrow> \<not> is_base64_space c"
proof (induction src rule: encode_block_loop.induct)
  case (4 a b c src)
  then show ?case by (auto simp: encode_block_triples sextet_not_special(2) simp del: encode_block_loop.simps)
qed (auto simp: encode_block_triples sextet_not_special(2) equals_not_space simp del: encode_block_loop.simps(2-))

lemma EncodedLength_exact:
  assumes "length src < 2 ^ 62"
  shows "EVP_EncodedLength (length src) = Some (length (fst (EVP_EncodeBlock src)))"
proof -
  have "(length src + 2) div 3 * 4 + 1 < SIZE_MOD" using assms div_le_dividend [of "length src + 2" 3] by simp
  then show ?thesis using assms
    by (simp add: EVP_EncodedLength_def EVP_EncodeBlock_def length_encode_block Let_def)
qed

lemma DecodedLength_encode:
  "length src < 2 ^ 62 \<Longrightarrow>
     EVP_DecodedLength (length (encode_block_loop src)) = Some ((length src + 2) div 3 * 3)"
  using div_times_less_eq_dividend [of "length src + 2" 3]
  by (simp add: EVP_DecodedLength_def length_encode_block)

lemma DecodeBase64_encode:
  assumes "length src < 2 ^ 62" "(length src + 2) div 3 * 3 \<le> max_out"
  shows "EVP_DecodeBase64 max_out (encode_block_loop src) = (True, src, length src)"
  using assms DecodedLength_encode [OF assms(1)]
  by (simp add: EVP_DecodeBase64_def decode_base64_encode length_encode_block)

lemma dropWhile_none: "(\<And>x. x \<in> set xs \<Longrightarrow> \<not> P x) \<Longrightarrow> dropWhile P xs = xs"
  by (cases xs) auto

lemma trim_encode: "trim_base64 (encode_block_loop src) = encode_block_loop src"
proof -
  have "dropWhile (\<lambda>c. c = 32 \<or> c = 9) (encode_block_loop src) = encode_block_loop src"
    by (rule dropWhile_none) (use sextet_chars in \<open>auto simp: is_base64_space_def\<close>)
  moreover have "dropWhile is_base64_space (rev (encode_block_loop src)) = rev (encode_block_loop src)"
    by (rule dropWhile_none) (use sextet_chars in auto)
  ultimately show ?thesis by (simp add: trim_base64_def)
qed

lemma pad_to_three:
  "n + (3 - n mod 3) mod 3 = (n + 2) div 3 * 3" "(3 - n mod 3) mod 3 = (n + 2) div 3 * 3 - (n :: nat)"
proof -
  obtain q r where n: "n = r + 3 * q" "r < 3" by (metis mod_less_divisor mod_mult_div_eq zero_less_numeral)
  then have m: "n mod 3 = r" by simp
  consider "r = 0" | "r = 1" | "r = 2" using n(2) by linarith
  then show "n + (3 - n mod 3) mod 3 = (n + 2) div 3 * 3" unfolding m by cases (simp_all add: n(1))
  then show "(3 - n mod 3) mod 3 = (n + 2) div 3 * 3 - n" by simp
qed

lemma DecodeBlock_encode:
  assumes "length src \<le> 2147483000"
  shows "EVP_DecodeBlock (encode_block_loop src)
       = (int ((length src + 2) div 3 * 3), src @ replicate ((length src + 2) div 3 * 3 - length src) 0)"
proof -
  have l: "(length src + 2) div 3 * 3 \<le> INT_MAX" using assms div_times_less_eq_dividend [of "length src + 2" 3] by simp
  have p: "length src + (3 - length src mod 3) mod 3 = (length src + 2) div 3 * 3"
    "(3 - length src mod 3) mod 3 = (length src + 2) div 3 * 3 - length src" by (rule pad_to_three)+
  show ?thesis using assms l p
    by (simp add: EVP_DecodeBlock_def trim_encode DecodedLength_encode DecodeBase64_encode Let_def)
qed

section \<open>Streams\<close>

function full_lines :: "bytes \<Rightarrow> bytes" where
  "full_lines xs = (if 48 \<le> length xs then encode_line (take 48 xs) @ full_lines (drop 48 xs) else [])"
  by pat_completeness auto
termination by (relation "measure length") auto

function leftover :: "bytes \<Rightarrow> bytes" where
  "leftover xs = (if 48 \<le> length xs then leftover (drop 48 xs) else xs)"
  by pat_completeness auto
termination by (relation "measure length") auto

declare full_lines.simps [simp del] leftover.simps [simp del]

definition base64_lines :: "bytes \<Rightarrow> bytes" where
  "base64_lines xs = full_lines xs @ (if leftover xs = [] then [] else encode_line (leftover xs))"

lemma length_encode_line: "length (encode_line xs) = (length xs + 2) div 3 * 4 + 1"
  by (simp add: encode_line_def EVP_EncodeBlock_def Let_def length_encode_block)

lemma encode_line_eq: "encode_line xs = encode_block_loop xs @ [10]"
  by (simp add: encode_line_def EVP_EncodeBlock_def Let_def)

lemma full_lines_append: "full_lines (xs @ ys) = full_lines xs @ full_lines (leftover xs @ ys)"
proof (induction xs rule: full_lines.induct)
  case (1 xs)
  then show ?case
    by (cases "48 \<le> length xs") (simp_all add: full_lines.simps [of "xs @ ys"] full_lines.simps [of xs] leftover.simps [of xs])
qed

lemma leftover_append: "leftover (xs @ ys) = leftover (leftover xs @ ys)"
proof (induction xs rule: full_lines.induct)
  case (1 xs)
  then show ?case
    by (cases "48 \<le> length xs") (simp_all add: leftover.simps [of "xs @ ys"] leftover.simps [of xs])
qed

lemma leftover_less: "length (leftover xs) < 48"
  by (induction xs rule: leftover.induct) (subst leftover.simps, auto)

lemma short_line: "length xs < 48 \<Longrightarrow> full_lines xs = [] \<and> leftover xs = xs"
  by (simp add: full_lines.simps leftover.simps)

lemma length_full_lines: "length (full_lines xs) \<le> 2 * length xs"
proof (induction xs rule: full_lines.induct)
  case (1 xs)
  then show ?case by (subst full_lines.simps) (auto simp: length_encode_line)
qed

lemma encode_update_loop_eq:
  "length out + length (full_lines inp) < SIZE_MOD \<Longrightarrow>
     encode_update_loop out (length out) inp
     = (out @ full_lines inp, Some (length out + length (full_lines inp)), leftover inp)"
proof (induction inp arbitrary: out rule: full_lines.induct)
  case (1 inp)
  show ?case
  proof (cases "48 \<le> length inp")
    case True
    then have f: "full_lines inp = encode_line (take 48 inp) @ full_lines (drop 48 inp)" "leftover inp = leftover (drop 48 inp)"
      by (simp_all add: full_lines.simps [of inp] leftover.simps [of inp])
    have s: "szadd (length out) (length (encode_line (take 48 inp))) = length (out @ encode_line (take 48 inp))"
      using "1.prems" f by simp
    show ?thesis
      using "1.prems" True "1.IH" [OF True, of "out @ encode_line (take 48 inp)"]
      by (subst encode_update_loop.simps) (simp add: f s Let_def)
  next
    case False
    then show ?thesis by (subst encode_update_loop.simps) (simp add: short_line not_le)
  qed
qed

definition encode_ready :: "encode_ctx \<Rightarrow> bool" where
  "encode_ready ctx = (length (ctx_data ctx) = 48 \<and> ctx_data_used ctx < 48)"

definition pending :: "encode_ctx \<Rightarrow> bytes" where
  "pending ctx = take (ctx_data_used ctx) (ctx_data ctx)"

lemma leftover_eq_Nil_full: "leftover (p @ xs) = leftover xs" if "length p = 48"
  using that leftover.simps [of "p @ xs"] by simp

lemma full_line_first: "length p = 48 \<Longrightarrow> full_lines (p @ xs) = encode_line p @ full_lines xs"
  using full_lines.simps [of "p @ xs"] by simp

lemma encode_rest_lines:
  assumes "length out + 2 * length inp \<le> INT_MAX" "length (ctx_data ctx) = 48" "encode_rest ctx out inp = (res, n, ctx')"
  shows "take n res = out @ full_lines inp \<and> pending ctx' = leftover inp \<and> encode_ready ctx'"
proof -
  have small: "length out + length (full_lines inp) \<le> INT_MAX" using length_full_lines [of inp] assms(1) by simp
  then have loop: "encode_update_loop out (length out) inp
      = (out @ full_lines inp, Some (length out + length (full_lines inp)), leftover inp)"
    by (intro encode_update_loop_eq) simp
  show ?thesis
    using assms(2,3) small leftover_less [of inp] unfolding encode_rest_def loop
    by (auto simp: Let_def terminated_def pending_def encode_ready_def buf_write_def split: if_splits)
qed

lemma EncodeUpdate_lines:
  assumes "encode_ready ctx" "length inp \<le> 2 ^ 29" "EVP_EncodeUpdate ctx inp = (out, n, ctx')"
  shows "take n out = full_lines (pending ctx @ inp) \<and> pending ctx' = leftover (pending ctx @ inp) \<and> encode_ready ctx'"
proof -
  have r: "length (ctx_data ctx) = 48" "ctx_data_used ctx < 48" and p: "length (pending ctx) = ctx_data_used ctx"
    using assms(1) by (auto simp: encode_ready_def pending_def)
  let ?todo = "48 - ctx_data_used ctx"
  consider "inp = []" | "inp \<noteq> []" "length inp < ?todo" | "\<not> length inp < ?todo" "ctx_data_used ctx = 0"
    | "\<not> length inp < ?todo" "ctx_data_used ctx \<noteq> 0" by blast
  then show ?thesis
  proof cases
    case 1
    then show ?thesis using assms short_line [of "pending ctx"] p r by (simp add: EVP_EncodeUpdate_def)
  next
    case 2
    then have "length (pending ctx @ inp) < 48" using p by simp
    then show ?thesis using assms(3) 2 r short_line [of "pending ctx @ inp"]
      by (auto simp: EVP_EncodeUpdate_def pending_def encode_ready_def buf_write_def)
  next
    case 3
    then have ne: "inp \<noteq> []" by auto
    then have "pending ctx = []" "encode_rest ctx [] inp = (out, n, ctx')"
      using assms(3) 3 by (simp_all add: EVP_EncodeUpdate_def pending_def)
    then show ?thesis using encode_rest_lines [of "[]" inp ctx out n ctx'] assms(2) r by simp
  next
    case 4
    let ?line = "pending ctx @ take ?todo inp"
    let ?ctx = "ctx\<lparr>ctx_data := ?line, ctx_data_used := 0\<rparr>"
    have len: "length ?line = 48" using 4 p r by simp
    have data: "buf_write (ctx_data ctx) (ctx_data_used ctx) (take ?todo inp) = ?line"
      using 4 r by (simp add: buf_write_def pending_def)
    have "inp \<noteq> []" using 4 r by auto
    then have "encode_rest ?ctx (encode_line ?line) (drop ?todo inp) = (out, n, ctx')"
      using assms(3) 4 by (simp add: EVP_EncodeUpdate_def Let_def data)
    moreover have "length (encode_line ?line) + 2 * length (drop ?todo inp) \<le> INT_MAX"
      using assms(2) len by (simp add: length_encode_line)
    ultimately have "take n out = encode_line ?line @ full_lines (drop ?todo inp) \<and> pending ctx' = leftover (drop ?todo inp) \<and> encode_ready ctx'"
      using len by (intro encode_rest_lines [of "encode_line ?line" "drop ?todo inp" ?ctx]) (assumption | simp)+
    then show ?thesis
      using full_line_first [OF len, of "drop ?todo inp"] leftover_eq_Nil_full [OF len, of "drop ?todo inp"] by simp
  qed
qed

lemma EncodeFinal_lines:
  assumes "encode_ready ctx" "EVP_EncodeFinal ctx = (out, n, ctx')"
  shows "take n out = (if pending ctx = [] then [] else encode_line (pending ctx))"
  using assms by (auto simp: EVP_EncodeFinal_def encode_ready_def pending_def Let_def)

text \<open>A whole encoding run: the updates on a list of chunks, then the final call.\<close>

fun encode_updates :: "encode_ctx \<Rightarrow> bytes list \<Rightarrow> bytes \<times> encode_ctx" where
  "encode_updates ctx [] = ([], ctx)"
| "encode_updates ctx (inp # inps) =
     (let (out, n, ctx) = EVP_EncodeUpdate ctx inp; (rest, ctx) = encode_updates ctx inps in (take n out @ rest, ctx))"

definition encode_stream :: "bytes list \<Rightarrow> bytes" where
  "encode_stream inps =
     (let (out, ctx) = encode_updates EVP_EncodeInit inps; (fin, n, ctx) = EVP_EncodeFinal ctx in out @ take n fin)"

lemma encode_updates_lines:
  assumes "encode_ready ctx" "\<forall>inp\<in>set inps. length inp \<le> 2 ^ 29" "encode_updates ctx inps = (out, ctx')"
  shows "out = full_lines (pending ctx @ concat inps) \<and> pending ctx' = leftover (pending ctx @ concat inps) \<and> encode_ready ctx'"
  using assms
proof (induction inps arbitrary: ctx ctx' out)
  case Nil
  then have "length (pending ctx) < 48" by (simp add: encode_ready_def pending_def)
  then show ?case using Nil short_line [of "pending ctx"] by simp
next
  case (Cons inp inps)
  obtain o1 n c1 where u: "EVP_EncodeUpdate ctx inp = (o1, n, c1)" by (cases "EVP_EncodeUpdate ctx inp")
  obtain o2 c2 where r: "encode_updates c1 inps = (o2, c2)" by fastforce
  have out: "out = take n o1 @ o2" "ctx' = c2" using Cons.prems(3) by (simp_all add: u r)
  have s: "take n o1 = full_lines (pending ctx @ inp)" "pending c1 = leftover (pending ctx @ inp)" "encode_ready c1"
    using EncodeUpdate_lines [OF Cons.prems(1) _ u] Cons.prems(2) by simp_all
  show ?case
    using Cons.IH [OF s(3) _ r] Cons.prems(2) full_lines_append [of "pending ctx @ inp" "concat inps"]
      leftover_append [of "pending ctx @ inp" "concat inps"]
    by (simp add: out s)
qed

lemma encode_ready_init: "encode_ready EVP_EncodeInit" "pending EVP_EncodeInit = []"
  by (simp_all add: encode_ready_def pending_def EVP_EncodeInit_def)

lemma encode_stream_lines:
  assumes "\<forall>inp\<in>set inps. length inp \<le> 2 ^ 29"
  shows "encode_stream inps = base64_lines (concat inps)"
proof -
  obtain out ctx where u: "encode_updates EVP_EncodeInit inps = (out, ctx)" by fastforce
  obtain fin n ctx' where f: "EVP_EncodeFinal ctx = (fin, n, ctx')" by (cases "EVP_EncodeFinal ctx")
  show ?thesis
    using encode_updates_lines [OF encode_ready_init(1) assms u] EncodeFinal_lines [OF _ f]
    by (simp add: encode_stream_def u f encode_ready_init(2) base64_lines_def)
qed

section \<open>Decoding a stream\<close>

lemma decode_update_loop_append:
  "decode_update_loop ctx (xs @ ys) =
     (case decode_update_loop ctx xs of
        (False, out, ctx) \<Rightarrow> (False, out, ctx)
      | (True, out, ctx) \<Rightarrow> (let (ok, out', ctx) = decode_update_loop ctx ys in (ok, out @ out', ctx)))"
proof (induction ctx xs rule: decode_update_loop.induct)
  case (1 ctx)
  then show ?case by (simp split: prod.splits)
next
  case (2 ctx c inp)
  then show ?case by (auto simp: Let_def split: prod.splits bool.splits option.splits)
qed

text \<open>A decoding run: the updates on a list of chunks, each of them checked, then the final call.\<close>

fun decode_updates :: "encode_ctx \<Rightarrow> bytes list \<Rightarrow> bool \<times> bytes \<times> encode_ctx" where
  "decode_updates ctx [] = (True, [], ctx)"
| "decode_updates ctx (inp # inps) =
     (let (r, out, n, ctx) = EVP_DecodeUpdate ctx inp
      in if r < 0 then (False, [], ctx)
         else (let (ok, out', ctx) = decode_updates ctx inps in (ok, take n out @ out', ctx)))"

definition decode_stream :: "bytes list \<Rightarrow> bytes option" where
  "decode_stream inps =
     (case decode_updates EVP_DecodeInit inps of
        (False, out, ctx) \<Rightarrow> None
      | (True, out, ctx) \<Rightarrow> if EVP_DecodeFinal ctx = 1 then Some out else None)"

lemma decode_loop_error:
  "decode_update_loop ctx inp = (ok, out, ctx') \<Longrightarrow> ctx_error ctx' \<longleftrightarrow> \<not> ok \<or> ctx_error ctx"
  by (induction ctx inp arbitrary: out rule: decode_update_loop.induct)
    (auto simp: Let_def split: if_splits prod.splits option.splits)

lemma quad_length: "base64_decode_quad a b c d = Some bs \<Longrightarrow> length bs \<le> 3"
  by (auto simp: base64_decode_quad_def Let_def split: if_splits)

lemma decode_loop_length: "decode_update_loop ctx inp = (ok, out, ctx') \<Longrightarrow> length out \<le> 3 * length inp"
proof (induction inp arbitrary: ctx ok out ctx')
  case (Cons c inp)
  let ?ctx = "ctx\<lparr>ctx_data := (ctx_data ctx)[ctx_data_used ctx := c], ctx_data_used := ctx_data_used ctx + 1\<rparr>"
  let ?quad = "base64_decode_quad (ctx_data ?ctx ! 0) (ctx_data ?ctx ! 1) (ctx_data ?ctx ! 2) (ctx_data ?ctx ! 3)"
  consider "is_base64_space c" | "\<not> is_base64_space c" "ctx_eof_seen ctx"
    | "\<not> is_base64_space c" "\<not> ctx_eof_seen ctx" "ctx_data_used ?ctx \<noteq> 4"
    | "\<not> is_base64_space c" "\<not> ctx_eof_seen ctx" "ctx_data_used ?ctx = 4" "?quad = None"
    | bs where "\<not> is_base64_space c" "\<not> ctx_eof_seen ctx" "ctx_data_used ?ctx = 4" "?quad = Some bs"
    by fastforce
  then show ?case
  proof cases
    case 5
    let ?next = "?ctx\<lparr>ctx_data_used := 0, ctx_eof_seen := (length bs < 3 \<or> ctx_eof_seen ?ctx)\<rparr>"
    obtain ok' o' c' where l: "decode_update_loop ?next inp = (ok', o', c')" by (cases "decode_update_loop ?next inp")
    show ?thesis using Cons.IH [OF l] Cons.prems quad_length [OF 5(4)] 5 l by (auto simp: Let_def)
  qed (use Cons in \<open>fastforce simp: Let_def\<close>)+
qed simp

lemma DecodeUpdate_loop:
  assumes "\<not> ctx_error ctx" "length inp \<le> 2 ^ 29" "decode_update_loop ctx inp = (ok, out, ctx')"
  shows "EVP_DecodeUpdate ctx inp =
     (if ok then (if ctx_eof_seen ctx' then 0 else 1, out, length out, ctx') else (- 1, out, 0, ctx'))"
  using assms decode_loop_length [OF assms(3)] by (auto simp: EVP_DecodeUpdate_def)

lemma decode_updates_loop:
  assumes "\<not> ctx_error ctx" "\<forall>inp\<in>set inps. length inp \<le> 2 ^ 29"
  shows "(case decode_updates ctx inps of (ok, out, ctx) \<Rightarrow> if ok then Some (out, ctx) else None)
    = (case decode_update_loop ctx (concat inps) of (ok, out, ctx) \<Rightarrow> if ok then Some (out, ctx) else None)"
  using assms
proof (induction inps arbitrary: ctx)
  case (Cons inp inps)
  obtain ok o1 c1 where l: "decode_update_loop ctx inp = (ok, o1, c1)" by (cases "decode_update_loop ctx inp")
  note u = DecodeUpdate_loop [OF Cons.prems(1) _ l]
  show ?case
  proof (cases ok)
    case True
    then have "\<not> ctx_error c1" using decode_loop_error [OF l] Cons.prems(1) by simp
    from Cons.IH [OF this] Cons.prems(2) show ?thesis
      using True u l by (auto simp: decode_update_loop_append Let_def split: prod.splits if_splits)
  next
    case False
    then show ?thesis using u l Cons.prems(2) by (simp add: decode_update_loop_append)
  qed
qed simp
definition decode_ready :: "encode_ctx \<Rightarrow> bool" where
  "decode_ready ctx = (length (ctx_data ctx) = 48 \<and> ctx_data_used ctx = 0 \<and> \<not> ctx_error ctx)"

lemma decode_loop_quad:
  assumes "decode_ready ctx" "\<not> ctx_eof_seen ctx" "\<not> is_base64_space a" "\<not> is_base64_space b" "\<not> is_base64_space c"
    "\<not> is_base64_space d" "base64_decode_quad a b c d = Some bs"
  obtains ctx' where "decode_ready ctx'" "ctx_eof_seen ctx' = (length bs < 3)"
    "\<And>inp. decode_update_loop ctx (a # b # c # d # inp)
       = (let (ok, out, ctx) = decode_update_loop ctx' inp in (ok, bs @ out, ctx))"
proof -
  let ?ctx' = "ctx\<lparr>ctx_data := (ctx_data ctx)[0 := a, 1 := b, 2 := c, 3 := d], ctx_data_used := 0,
                 ctx_eof_seen := (length bs < 3)\<rparr>"
  have "decode_update_loop ctx (a # b # c # d # inp)
       = (let (ok, out, ctx) = decode_update_loop ?ctx' inp in (ok, bs @ out, ctx))" for inp
    using assms by (simp add: decode_ready_def Let_def numeral_2_eq_2 numeral_3_eq_3)
  moreover have "decode_ready ?ctx'" "ctx_eof_seen ?ctx' = (length bs < 3)" using assms(1) by (simp_all add: decode_ready_def)
  ultimately show ?thesis by (rule that [rotated 2])
qed

lemma decode_loop_block:
  assumes "decode_ready ctx" "\<not> ctx_eof_seen ctx"
  shows "\<exists>ctx'. decode_update_loop ctx (encode_block_loop xs) = (True, xs, ctx') \<and> decode_ready ctx'
    \<and> ctx_eof_seen ctx' = (length xs mod 3 \<noteq> 0)"
  using assms
proof (induction xs arbitrary: ctx rule: encode_block_loop.induct)
  case (2 a)
  obtain c1 where c1: "decode_ready c1" "ctx_eof_seen c1 = (length [a] < 3)"
    "\<And>inp. decode_update_loop ctx (sextet (triple a 0 0) 18 # sextet (triple a 0 0) 12 # 61 # 61 # inp)
       = (let (ok, out, ctx) = decode_update_loop c1 inp in (ok, [a] @ out, ctx))"
    by (rule decode_loop_quad [OF 2 sextet_not_special(2) sextet_not_special(2) equals_not_space equals_not_space quad_of_single [of a]]) blast
  show ?case using c1(1,2) c1(3) [of "[]"] unfolding encode_block_triples by simp
next
  case (3 a b)
  obtain c1 where c1: "decode_ready c1" "ctx_eof_seen c1 = (length [a, b] < 3)"
    "\<And>inp. decode_update_loop ctx (sextet (triple a b 0) 18 # sextet (triple a b 0) 12 # sextet (triple a b 0) 6 # 61 # inp)
       = (let (ok, out, ctx) = decode_update_loop c1 inp in (ok, [a, b] @ out, ctx))"
    by (rule decode_loop_quad [OF 3 sextet_not_special(2) sextet_not_special(2) sextet_not_special(2) equals_not_space quad_of_pair [of a b]]) blast
  show ?case using c1(1,2) c1(3) [of "[]"] unfolding encode_block_triples by simp
next
  case (4 a b c xs)
  obtain c1 where c1: "decode_ready c1" "ctx_eof_seen c1 = (length [a, b, c] < 3)"
    "\<And>inp. decode_update_loop ctx (sextet (triple a b c) 18 # sextet (triple a b c) 12 # sextet (triple a b c) 6 # sextet (triple a b c) 0 # inp)
       = (let (ok, out, ctx) = decode_update_loop c1 inp in (ok, [a, b, c] @ out, ctx))"
    by (rule decode_loop_quad [OF 4(2) 4(3) sextet_not_special(2) sextet_not_special(2) sextet_not_special(2)
          sextet_not_special(2) quad_of_triple [of a b c]]) blast
  obtain c2 where c2: "decode_update_loop c1 (encode_block_loop xs) = (True, xs, c2)" "decode_ready c2"
    "ctx_eof_seen c2 = (length xs mod 3 \<noteq> 0)"
    using 4(1) [OF refl c1(1)] c1(2) by auto
  show ?case using c1(3) [of "encode_block_loop xs"] c2 unfolding encode_block_triples by simp
qed (simp add: decode_ready_def)

lemma decode_loop_line:
  assumes "decode_ready ctx" "\<not> ctx_eof_seen ctx"
  shows "\<exists>ctx'. decode_update_loop ctx (encode_line xs) = (True, xs, ctx') \<and> decode_ready ctx'
    \<and> ctx_eof_seen ctx' = (length xs mod 3 \<noteq> 0)"
  using decode_loop_block [OF assms, of xs]
  by (auto simp: encode_line_eq decode_update_loop_append is_base64_space_def)

lemma decode_loop_full_lines:
  assumes "decode_ready ctx" "\<not> ctx_eof_seen ctx"
  shows "\<exists>ctx' ys. decode_update_loop ctx (full_lines xs) = (True, ys, ctx') \<and> xs = ys @ leftover xs
    \<and> decode_ready ctx' \<and> \<not> ctx_eof_seen ctx'"
  using assms
proof (induction xs arbitrary: ctx rule: full_lines.induct)
  case (1 xs)
  show ?case
  proof (cases "48 \<le> length xs")
    case True
    obtain c1 where c1: "decode_update_loop ctx (encode_line (take 48 xs)) = (True, take 48 xs, c1)" "decode_ready c1" "\<not> ctx_eof_seen c1"
      using decode_loop_line [OF "1.prems", of "take 48 xs"] True by auto
    obtain c2 ys where c2: "decode_update_loop c1 (full_lines (drop 48 xs)) = (True, ys, c2)" "drop 48 xs = ys @ leftover (drop 48 xs)"
      "decode_ready c2" "\<not> ctx_eof_seen c2"
      using "1.IH" [OF True c1(2,3)] by blast
    have "xs = take 48 xs @ ys @ leftover (drop 48 xs)" by (subst c2(2) [symmetric]) simp
    then show ?thesis
      using True c1 c2 by (subst full_lines.simps, subst leftover.simps) (simp add: decode_update_loop_append)
  next
    case False
    then show ?thesis using "1.prems" short_line [of xs] by simp
  qed
qed

lemma decode_loop_lines:
  assumes "decode_ready ctx" "\<not> ctx_eof_seen ctx"
  shows "\<exists>ctx'. decode_update_loop ctx (base64_lines xs) = (True, xs, ctx') \<and> decode_ready ctx'"
proof -
  obtain c1 ys where c1: "decode_update_loop ctx (full_lines xs) = (True, ys, c1)" "xs = ys @ leftover xs"
    "decode_ready c1" "\<not> ctx_eof_seen c1"
    using decode_loop_full_lines [OF assms, of xs] by blast
  show ?thesis
  proof (cases "leftover xs = []")
    case True
    then show ?thesis using c1 by (simp add: base64_lines_def)
  next
    case False
    then show ?thesis using decode_loop_line [OF c1(3,4), of "leftover xs"] c1
      by (auto simp: base64_lines_def decode_update_loop_append)
  qed
qed

lemma decode_ready_init: "decode_ready EVP_DecodeInit" "\<not> ctx_eof_seen EVP_DecodeInit" "\<not> ctx_error EVP_DecodeInit"
  by (simp_all add: decode_ready_def EVP_DecodeInit_def)

text \<open>Only the concatenation of the chunks matters to the decoder.\<close>

lemma decode_stream_concat:
  assumes "\<forall>inp\<in>set inps. length inp \<le> 2 ^ 29"
  shows "decode_stream inps
    = (case decode_update_loop EVP_DecodeInit (concat inps) of
         (ok, out, ctx) \<Rightarrow> if ok \<and> EVP_DecodeFinal ctx = 1 then Some out else None)"
  using decode_updates_loop [OF decode_ready_init(3) assms]
  by (auto simp: decode_stream_def split: prod.splits bool.splits if_splits)

lemma decode_stream_lines:
  assumes "concat inps = base64_lines xs" "\<forall>inp\<in>set inps. length inp \<le> 2 ^ 29"
  shows "decode_stream inps = Some xs"
  using decode_loop_lines [OF decode_ready_init(1,2), of xs]
  by (auto simp: decode_stream_concat [OF assms(2)] assms(1) EVP_DecodeFinal_def decode_ready_def)

end
