(* ===== verification/Oid.thy ===== *)
theory Oid
  imports CBBElements
begin

text \<open>
  OBJECT IDENTIFIERs and their dotted-decimal text: \<open>CBS_asn1_oid_to_text\<close> of
  \<open>crypto/bytestring/cbs.c\<close>, \<open>CBB_add_asn1_oid_from_text\<close> of \<open>crypto/bytestring/cbb.c\<close>. The
  specification is a list of arcs with its text and its contents octets; both functions are shown to
  translate between the two.
\<close>

section \<open>The code\<close>

text \<open>\<open>BIO_snprintf(\<dots>, "%" PRIu64, v)\<close> gives the decimal digits of \<open>v\<close>.\<close>

definition add_decimal :: "platform_malloc \<Rightarrow> nat \<Rightarrow> 64 word \<Rightarrow> cbb_state \<Rightarrow> bool \<times> cbb_state" where
  "add_decimal mal d v st = CBB_add_bytes mal d (decimal (unat v)) st"

function oid_text_loop :: "platform_malloc \<Rightarrow> nat \<Rightarrow> cbs \<Rightarrow> cbb_state \<Rightarrow> bool \<times> cbb_state" where
  "oid_text_loop mal d copy st =
     (if CBS_len copy \<noteq> 0
      then (case parse_base128_integer copy of
              (None, copy) \<Rightarrow> (False, st)
            | (Some v, copy) \<Rightarrow>
                and_then (CBB_add_u8 mal d dot st) (\<lambda>st.
                  and_then (add_decimal mal d v st) (\<lambda>st. oid_text_loop mal d copy st)))
      else (True, st))"
  by pat_completeness auto
termination
  by (relation "measure (\<lambda>(mal, d, copy, st). length copy)") (auto dest: base128.length_less [OF sym])

declare oid_text_loop.simps [simp del]

definition oid_text_first :: "platform_malloc \<Rightarrow> nat \<Rightarrow> 64 word \<Rightarrow> cbb_state \<Rightarrow> bool \<times> cbb_state" where
  "oid_text_first mal d v st =
     (if 80 \<le> v
      then and_then (CBB_add_bytes mal d [50, dot] st) (add_decimal mal d (v - 80))
      else and_then (add_decimal mal d (v div 40) st) (\<lambda>st.
             and_then (CBB_add_u8 mal d dot st) (add_decimal mal d (v mod 40))))"

text \<open>The result is the memory of the C string, \<open>None\<close> for NULL.\<close>

definition CBS_asn1_oid_to_text :: "platform_malloc \<Rightarrow> cbs \<Rightarrow> bytes option" where
  "CBS_asn1_oid_to_text mal cbs =
     (case CBB_init mal 32 of
        (False, st) \<Rightarrow> None
      | (True, st) \<Rightarrow>
          (case parse_base128_integer cbs of
             (None, copy) \<Rightarrow> None
           | (Some v, copy) \<Rightarrow>
               (case and_then (oid_text_first mal 0 v st) (\<lambda>st.
                       and_then (oid_text_loop mal 0 copy st) (CBB_add_u8 mal 0 0)) of
                  (False, st) \<Rightarrow> None
                | (True, st) \<Rightarrow>
                    (case CBB_finish mal 0 True st of
                       (None, st) \<Rightarrow> None
                     | (Some (txt, txt_len), st) \<Rightarrow> Some txt))))"

text \<open>One component and the dot behind it.\<close>

fun dotted_decimal_loop :: "64 word \<Rightarrow> bool \<Rightarrow> cbs \<Rightarrow> 64 word option \<times> cbs" where
  "dotted_decimal_loop out seen_digit [] = (if seen_digit then Some out else None, [])"
| "dotted_decimal_loop out seen_digit (u # cbs) =
     (if u = dot \<and> 0 < CBS_len cbs then (if seen_digit then Some out else None, cbs)
      else if u < 48 \<or> 57 < u \<or> seen_digit \<and> out = 0 \<or> (- 1) div 10 < out \<or> - 1 - (ucast u - 48) < out * 10
      then (None, cbs)
      else dotted_decimal_loop (out * 10 + (ucast u - 48)) True cbs)"

definition parse_dotted_decimal :: "cbs \<Rightarrow> 64 word option \<times> cbs" where
  "parse_dotted_decimal cbs = dotted_decimal_loop 0 False cbs"

lemma dotted_decimal_consumes: "dotted_decimal_loop out seen cbs = (r, cbs') \<Longrightarrow> \<exists>p. cbs = p @ cbs'"
proof (induction cbs arbitrary: out seen)
  case (Cons u cbs)
  show ?case
  proof (cases "cbs' = cbs")
    case False
    then have "\<exists>p. cbs = p @ cbs'" using Cons by (auto split: if_splits)
    then show ?thesis by (metis append_Cons)
  qed (rule exI [of _ "[u]"], simp)
qed simp

interpretation dotted: strict_reader parse_dotted_decimal
proof
  show "parse_dotted_decimal s = (r, s') \<Longrightarrow> \<exists>p. s = p @ s'" for s r s'
    unfolding parse_dotted_decimal_def by (rule dotted_decimal_consumes)
  show "parse_dotted_decimal s = (Some x, s') \<Longrightarrow> s' \<noteq> s" for s x s'
    using dotted_decimal_consumes by (cases s) (fastforce simp: parse_dotted_decimal_def split: if_splits)+
qed

function oid_from_text_loop :: "platform_malloc \<Rightarrow> nat \<Rightarrow> cbs \<Rightarrow> cbb_state \<Rightarrow> bool \<times> cbb_state" where
  "oid_from_text_loop mal d cbs st =
     (if 0 < CBS_len cbs
      then (case parse_dotted_decimal cbs of
              (None, cbs) \<Rightarrow> (False, st)
            | (Some a, cbs) \<Rightarrow> and_then (add_base128_integer mal d a st) (\<lambda>st. oid_from_text_loop mal d cbs st))
      else (True, st))"
  by pat_completeness auto
termination
  by (relation "measure (\<lambda>(mal, d, cbs, st). length cbs)") (auto dest: dotted.length_less [OF sym])

declare oid_from_text_loop.simps [simp del]

definition CBB_add_asn1_oid_from_text :: "platform_malloc \<Rightarrow> nat \<Rightarrow> bytes \<Rightarrow> cbb_state \<Rightarrow> bool \<times> cbb_state" where
  "CBB_add_asn1_oid_from_text mal d text st =
     and_then (CBB_flush mal d st) (\<lambda>st.
       case parse_dotted_decimal text of
         (None, cbs) \<Rightarrow> (False, st)
       | (Some a, cbs) \<Rightarrow>
           (case parse_dotted_decimal cbs of
              (None, cbs) \<Rightarrow> (False, st)
            | (Some b, cbs) \<Rightarrow>
                (if 2 < a \<or> a < 2 \<and> 39 < b \<or> - 1 - 80 < b then (False, st)
                 else and_then (add_base128_integer mal d (40 * a + b) st) (oid_from_text_loop mal d cbs))))"

section \<open>Decimal numbers\<close>

text \<open>The digits that the parser may still read after it has read the number \<open>m\<close>.\<close>

lemma digit_value: "n < 10 \<Longrightarrow> unat (of_nat (48 + n) :: byte) = 48 + n"
  by (rule unat_of_nat_byte) simp

lemma dotted_step:
  "dotted_decimal_loop out seen (u # cbs) =
     (if unat u = 46 \<and> cbs \<noteq> [] then (if seen then Some out else None, cbs)
      else if unat u < 48 \<or> 57 < unat u \<or> seen \<and> unat out = 0 \<or> 2 ^ 64 \<le> unat out * 10 + (unat u - 48)
      then (None, cbs)
      else dotted_decimal_loop (of_nat (unat out * 10 + (unat u - 48))) True cbs)"
proof -
  have d: "u = dot \<longleftrightarrow> unat u = 46" "u < 48 \<longleftrightarrow> unat u < 48" "57 < u \<longleftrightarrow> 57 < unat u" "out = 0 \<longleftrightarrow> unat out = 0"
    by (simp_all add: word_unat_eq_iff word_less_nat_alt)
  have l: "0 < CBS_len cbs \<longleftrightarrow> cbs \<noteq> []" by (simp add: CBS_len_def)
  show ?thesis
  proof (cases "unat u < 48 \<or> 57 < unat u")
    case True
    then have "(unat u < 48) = True \<or> (57 < unat u) = True" by blast
    then show ?thesis
      by (elim disjE) (simp_all only: dotted_decimal_loop.simps d l simp_thms if_True)
  next
    case False
    let ?x = "ucast u - 48 :: 64 word"
    have x: "unat ?x = unat u - 48" using False
      by (subst unat_sub) (simp_all add: word_le_nat_alt unat_ucast_up)
    have m1: "unat (- 1 :: 64 word) = 2 ^ 64 - 1" by (simp add: unsigned_minus_1_eq_mask mask_eq_exp_minus_1)
    have s: "unat (- 1 - ?x) = 2 ^ 64 - 1 - (unat u - 48)"
      using x m1 byte_lt [of u] by (subst unat_sub) (simp_all add: word_le_nat_alt)
    have lim: "((- 1) div 10 < out) = (2 ^ 64 \<le> unat out * 10 + 5)"
      by (simp add: word_less_nat_alt unat_div m1) linarith
    have c: "(- 1) div 10 < out \<or> - 1 - ?x < out * 10 \<longleftrightarrow> 2 ^ 64 \<le> unat out * 10 + (unat u - 48)"
    proof (cases "(- 1) div 10 < out")
      case True
      then have "2 ^ 64 \<le> unat out * 10 + 5" using lim by blast
      then have "1844674407370955162 \<le> unat out" by simp
      then have "2 ^ 64 \<le> unat out * 10 + (unat u - 48)" by simp
      then show ?thesis using True by blast
    next
      case lo: False
      then have o10: "unat (out * 10) = unat out * 10" using lim by (simp add: unat_word_ariths)
      have ar: "k \<le> 9 \<Longrightarrow> 2 ^ 64 - 1 - k < X \<longleftrightarrow> 2 ^ 64 \<le> X + k" for k X :: nat by (simp, arith)
      have "unat u - 48 \<le> 9" using False by arith
      from ar [OF this, of "unat out * 10"] show ?thesis using lo by (simp only: word_less_nat_alt s o10 simp_thms)
    qed
    have v: "out * 10 + ?x = of_nat (unat out * 10 + (unat u - 48))"
      by (simp add: x [symmetric] del: unat_sub)
    show ?thesis using False unfolding dotted_decimal_loop.simps c v d l by (simp only: simp_thms)
  qed
qed

lemma unat_lt_64: "unat (v :: 64 word) < 2 ^ 64"
  using unsigned_less [of v] by simp

lemma unat_of_nat_64: "n < 2 ^ 64 \<Longrightarrow> unat (of_nat n :: 64 word) = n"
  by (simp add: unsigned_of_nat take_bit_nat_eq_self)

declare dotted_decimal_loop.simps(2) [simp del]

lemma dotted_digit:
  assumes "m < 10" "\<not> (seen \<and> unat out = 0)" "unat out * 10 + m < 2 ^ 64"
  shows "dotted_decimal_loop out seen (of_nat (48 + m) # s) = dotted_decimal_loop (of_nat (unat out * 10 + m)) True s"
proof -
  have "unat (of_nat (48 + m) :: byte) = 48 + m" by (rule digit_value [OF assms(1)])
  then show ?thesis
    using assms unfolding dotted_step by (auto simp del: of_nat_add)
qed

lemma dotted_decimal_read:
  "n < 2 ^ 64 \<Longrightarrow> dotted_decimal_loop 0 False (decimal n @ s) = dotted_decimal_loop (of_nat n) True s"
proof (induction n arbitrary: s rule: decimal.induct)
  case (1 n)
  show ?case
  proof (cases "n < 10")
    case True
    then show ?thesis using dotted_digit [of n False 0 s] 1(2) by (simp add: decimal_small)
  next
    case False
    let ?v = "of_nat (n div 10) :: 64 word"
    have v: "unat ?v = n div 10" using 1(2) by (simp add: unsigned_of_nat take_bit_nat_eq_self)
    have n: "unat ?v * 10 + n mod 10 = n" by (simp add: v)
    have "decimal n = decimal (n div 10) @ [of_nat (48 + n mod 10)]"
      using False by (subst decimal.simps) simp
    then have "dotted_decimal_loop 0 False (decimal n @ s) = dotted_decimal_loop ?v True (of_nat (48 + n mod 10) # s)"
      using 1(1) [OF False] 1(2) by (simp del: of_nat_add)
    also have "\<dots> = dotted_decimal_loop (of_nat n) True s"
      using dotted_digit [of "n mod 10" True ?v s] 1(2) False unfolding n by (simp add: v del: of_nat_add)
    finally show ?thesis .
  qed
qed

lemma parse_dotted_end: "parse_dotted_decimal (decimal (unat v)) = (Some v, [])"
  using dotted_decimal_read [of "unat v" "[]"] unat_lt_64 [of v] by (simp add: parse_dotted_decimal_def)

lemma parse_dotted_dot: "r \<noteq> [] \<Longrightarrow> parse_dotted_decimal (decimal (unat v) @ dot # r) = (Some v, r)"
  using dotted_decimal_read [of "unat v" "dot # r"] unat_lt_64 [of v]
  by (simp add: parse_dotted_decimal_def dotted_step)

lemma dotted_loop_canonical:
  "dotted_decimal_loop v seen s = (Some w, r) \<Longrightarrow> (\<not> seen \<Longrightarrow> v = 0) \<Longrightarrow>
   \<exists>p. (s = p \<and> r = [] \<or> s = p @ dot # r \<and> r \<noteq> []) \<and> (if seen then decimal (unat v) else []) @ p = decimal (unat w)"
proof (induction s arbitrary: v seen)
  case Nil
  then show ?case by (auto split: if_splits)
next
  case (Cons u s)
  show ?case
  proof (cases "unat u = 46 \<and> s \<noteq> []")
    case True
    then have "seen" "w = v" "r = s" "u = dot"
      using Cons.prems(1) by (auto simp: dotted_step word_unat_eq_iff split: if_splits)
    then show ?thesis using True by (intro exI [of _ "[]"]) simp
  next
    case False
    let ?m = "unat u - 48" and ?n = "unat v * 10 + (unat u - 48)"
    let ?bad = "unat u < 48 \<or> 57 < unat u \<or> seen \<and> unat v = 0 \<or> 2 ^ 64 \<le> ?n"
    have eq: "dotted_decimal_loop v seen (u # s) = (if ?bad then (None, s) else dotted_decimal_loop (of_nat ?n) True s)"
      by (simp only: dotted_step False if_False)
    have nb: "\<not> ?bad"
    proof
      assume ?bad
      then have "dotted_decimal_loop v seen (u # s) = (None, s)" by (simp only: eq if_True)
      then show False using Cons.prems(1) by simp
    qed
    then have c: "48 \<le> unat u" "unat u \<le> 57" "\<not> (seen \<and> unat v = 0)" "?n < 2 ^ 64" by linarith+
    have l: "dotted_decimal_loop (of_nat ?n) True s = (Some w, r)"
      using Cons.prems(1) nb by (simp only: eq if_False)
    have n: "unat (of_nat ?n :: 64 word) = ?n"
      using c(4) by (simp add: unsigned_of_nat take_bit_nat_eq_self del: of_nat_add)
    from Cons.IH [OF l] obtain p where p: "s = p \<and> r = [] \<or> s = p @ dot # r \<and> r \<noteq> []" "decimal ?n @ p = decimal (unat w)"
      unfolding n by auto
    have u: "of_nat (48 + ?m) = u" using c(1) by (simp del: of_nat_add)
    have "decimal ?n = (if seen then decimal (unat v) else []) @ [u]"
    proof (cases seen)
      case True
      then show ?thesis using c decimal_step [of "unat v" ?m] u by simp
    next
      case False
      then have "?n = ?m" using Cons.prems(2) by simp
      then show ?thesis using c decimal_small [of ?m] u False by simp
    qed
    then show ?thesis using p by (intro exI [of _ "u # p"]) auto
  qed
qed

lemma parse_dotted_iff:
  "parse_dotted_decimal s = (Some v, r) \<longleftrightarrow>
     s = decimal (unat v) \<and> r = [] \<or> s = decimal (unat v) @ dot # r \<and> r \<noteq> []"
  using dotted_loop_canonical [of 0 False s v r] parse_dotted_end [of v] parse_dotted_dot [of r v]
  by (auto simp: parse_dotted_decimal_def)

section \<open>Specification\<close>

fun dotted_text :: "nat list \<Rightarrow> bytes" where
  "dotted_text [] = []"
| "dotted_text [a] = decimal a"
| "dotted_text (a # b # as) = decimal a @ dot # dotted_text (b # as)"

fun oid_valid :: "nat list \<Rightarrow> bool" where
  "oid_valid (a # b # as) \<longleftrightarrow>
     a \<le> 2 \<and> (a < 2 \<longrightarrow> b < 40) \<and> 40 * a + b < 2 ^ 64 \<and> (\<forall>c\<in>set as. c < 2 ^ 64)"
| "oid_valid _ = False"

fun oid_contents :: "nat list \<Rightarrow> bytes" where
  "oid_contents (a # b # as) = base128_bytes (40 * a + b) @ concat (map base128_bytes as)"
| "oid_contents _ = []"

lemma dotted_text_Cons: "as \<noteq> [] \<Longrightarrow> dotted_text (a # as) = decimal a @ dot # dotted_text as"
  by (cases as) simp_all

lemma dotted_text_nonempty [simp]: "dotted_text as = [] \<longleftrightarrow> as = []"
  by (cases as rule: dotted_text.cases) simp_all

lemma dotted_text_concat: "dotted_text (a # as) = decimal a @ concat (map (\<lambda>b. dot # decimal b) as)"
  by (induction as arbitrary: a) simp_all

lemma parse_dotted_text:
  "a < 2 ^ 64 \<Longrightarrow> parse_dotted_decimal (dotted_text (a # as)) = (Some (of_nat a), dotted_text as)"
  using parse_dotted_iff [of "dotted_text (a # as)" "of_nat a" "dotted_text as"]
  by (cases as) (simp_all add: unat_of_nat_64)

section \<open>From text\<close>

lemma from_text_loop_Nil: "oid_from_text_loop mal d [] = (\<lambda>st. (True, st))"
  by (rule ext, subst oid_from_text_loop.simps) (simp add: CBS_len_def)

lemma from_text_loop_writes:
  "as \<noteq> [] \<Longrightarrow> \<forall>c\<in>set as. c < 2 ^ 64 \<Longrightarrow>
   writer (\<lambda>mal d. oid_from_text_loop mal d (dotted_text as)) (concat (map base128_bytes as))"
proof (induction as)
  case (Cons a as)
  have a: "a < 2 ^ 64" using Cons.prems by simp
  have e: "oid_from_text_loop mal d (dotted_text (a # as)) st =
      and_then (add_base128_integer mal d (of_nat a) st) (\<lambda>st. oid_from_text_loop mal d (dotted_text as) st)" for mal d st
    by (subst oid_from_text_loop.simps) (simp add: parse_dotted_text [OF a] CBS_len_def)
  have w: "writer (\<lambda>mal d. add_base128_integer mal d (of_nat a)) (base128_bytes a)"
    using writer_base128 [of "of_nat a"] by (simp only: unat_of_nat_64 [OF a])
  show ?case
  proof (cases "as = []")
    case True
    have "add_base128_integer mal d (of_nat a) st = oid_from_text_loop mal d (dotted_text (a # as)) st" for mal d st
      unfolding e by (simp only: True dotted_text.simps(1) from_text_loop_Nil and_then_unit)
    from writer_cong [OF w this refl] show ?thesis using True by simp
  next
    case False
    with Cons have "writer (\<lambda>mal d. oid_from_text_loop mal d (dotted_text as)) (concat (map base128_bytes as))" by simp
    from writer_cong [OF writer_then [OF w this]] e show ?thesis by simp
  qed
qed simp

lemma oid_first_ok:
  assumes "a \<le> 2" "a < 2 \<longrightarrow> b < 40" "40 * a + b < 2 ^ 64"
  shows "\<not> (2 < (of_nat a :: 64 word) \<or> (of_nat a :: 64 word) < 2 \<and> 39 < (of_nat b :: 64 word) \<or> - 1 - 80 < (of_nat b :: 64 word))"
    "unat (40 * of_nat a + of_nat b :: 64 word) = 40 * a + b"
proof -
  have u: "unat (of_nat a :: 64 word) = a" "unat (of_nat b :: 64 word) = b" "b + 80 < 2 ^ 64"
    using assms by (auto simp: unat_of_nat_64)
  have m: "unat (- 1 - 80 :: 64 word) = 2 ^ 64 - 81" by simp
  show "\<not> (2 < (of_nat a :: 64 word) \<or> (of_nat a :: 64 word) < 2 \<and> 39 < (of_nat b :: 64 word) \<or> - 1 - 80 < (of_nat b :: 64 word))"
    using assms u by (simp only: word_less_nat_alt m) auto
  have "40 * of_nat a + of_nat b = (of_nat (40 * a + b) :: 64 word)" by simp
  then show "unat (40 * of_nat a + of_nat b :: 64 word) = 40 * a + b" by (simp only: unat_of_nat_64 [OF assms(3)])
qed

lemma writer_oid_from_text:
  assumes "oid_valid arcs"
  shows "writer (\<lambda>mal d. CBB_add_asn1_oid_from_text mal d (dotted_text arcs)) (oid_contents arcs)"
proof -
  obtain a b as where arcs: "arcs = a # b # as"
    and v: "a \<le> 2" "a < 2 \<longrightarrow> b < 40" "40 * a + b < 2 ^ 64" "\<forall>c\<in>set as. c < 2 ^ 64"
    using assms by (cases arcs rule: oid_valid.cases) auto
  have l: "a < 2 ^ 64" "b < 2 ^ 64" using v by auto
  note ok = oid_first_ok [OF v(1-3)]
  let ?w = "40 * of_nat a + of_nat b :: 64 word"
  have e: "CBB_add_asn1_oid_from_text mal d (dotted_text arcs) st = and_then (CBB_flush mal d st) (\<lambda>st.
      and_then (add_base128_integer mal d ?w st) (\<lambda>st. oid_from_text_loop mal d (dotted_text as) st))" for mal d st
    unfolding CBB_add_asn1_oid_from_text_def arcs parse_dotted_text [OF l(1)] parse_dotted_text [OF l(2)] prod.case option.case
    using ok(1) by (simp only: if_False)
  have w: "writer (\<lambda>mal d. add_base128_integer mal d ?w) (base128_bytes (40 * a + b))"
    using writer_base128 [of ?w] by (simp only: ok(2))
  show ?thesis
  proof (cases "as = []")
    case True
    have "and_then (CBB_flush mal d st) (add_base128_integer mal d ?w) = CBB_add_asn1_oid_from_text mal d (dotted_text arcs) st" for mal d st
      unfolding e by (simp only: True dotted_text.simps(1) from_text_loop_Nil and_then_unit)
    from writer_cong [OF writer_flush_first [OF w] this refl] show ?thesis using True arcs by simp
  next
    case False
    from writer_cong [OF writer_flush_first [OF writer_then [OF w from_text_loop_writes [OF False v(4)]]]] e show ?thesis
      by (simp add: arcs)
  qed
qed

lemma from_text_loop_sound:
  "oid_from_text_loop mal d cbs st = (True, st') \<Longrightarrow> \<exists>as. cbs = dotted_text as \<and> (\<forall>c\<in>set as. c < 2 ^ 64)"
proof (induction mal d cbs st arbitrary: st' rule: oid_from_text_loop.induct)
  case (1 mal d cbs st)
  show ?case
  proof (cases "cbs = []")
    case True
    then show ?thesis by (intro exI [of _ "[]"]) simp
  next
    case False
    then have l: "0 < CBS_len cbs" by (simp add: CBS_len_def)
    with "1.prems" obtain a cbs1 st1 where p: "parse_dotted_decimal cbs = (Some a, cbs1)"
      "oid_from_text_loop mal d cbs1 st1 = (True, st')"
      by (subst (asm) oid_from_text_loop.simps) (auto simp: and_then_True split: prod.splits option.splits)
    from "1.IH" [OF l p(1) [symmetric] refl p(2)] obtain as where "cbs1 = dotted_text as" "\<forall>c\<in>set as. c < 2 ^ 64" by blast
    moreover have "cbs = decimal (unat a) \<and> cbs1 = [] \<or> cbs = decimal (unat a) @ dot # cbs1 \<and> cbs1 \<noteq> []"
      using p(1) by (simp only: parse_dotted_iff)
    ultimately show ?thesis
      using unat_lt_64 [of a] by (intro exI [of _ "unat a # as"]) (auto simp: dotted_text_Cons)
  qed
qed

lemma from_text_sound:
  assumes "CBB_add_asn1_oid_from_text mal d text st = (True, st')"
  shows "\<exists>arcs. oid_valid arcs \<and> text = dotted_text arcs"
proof -
  obtain a b s1 s2 st1 where p: "parse_dotted_decimal text = (Some a, s1)" "parse_dotted_decimal s1 = (Some b, s2)"
    and ok: "\<not> (2 < a \<or> a < 2 \<and> 39 < b \<or> - 1 - 80 < b)"
    and l: "oid_from_text_loop mal d s2 st1 = (True, st')"
  proof -
    obtain x s1 where x: "parse_dotted_decimal text = (x, s1)" by fastforce
    obtain y s2 where y: "parse_dotted_decimal s1 = (y, s2)" by fastforce
    from assms obtain st0 where "(case x of None \<Rightarrow> (False, st0) | Some a \<Rightarrow> (case y of None \<Rightarrow> (False, st0) | Some b \<Rightarrow>
        (if 2 < a \<or> a < 2 \<and> 39 < b \<or> - 1 - 80 < b then (False, st0)
         else and_then (add_base128_integer mal d (40 * a + b) st0) (oid_from_text_loop mal d s2)))) = (True, st')"
      by (auto simp only: CBB_add_asn1_oid_from_text_def and_then_True x y prod.case)
    then show thesis
      using that x y by (simp only: and_then_True prod.inject simp_thms bool.distinct split: option.split_asm if_split_asm) blast
  qed
  from from_text_loop_sound [OF l] obtain as where as: "s2 = dotted_text as" "\<forall>c\<in>set as. c < 2 ^ 64" by blast
  have t: "text = decimal (unat a) \<and> s1 = [] \<or> text = decimal (unat a) @ dot # s1 \<and> s1 \<noteq> []"
    "s1 = decimal (unat b) \<and> s2 = [] \<or> s1 = decimal (unat b) @ dot # s2 \<and> s2 \<noteq> []"
    using p by (simp_all only: parse_dotted_iff)
  then have "s1 = dotted_text (unat b # as)" using as(1) by (auto simp: dotted_text_Cons)
  then have "text = dotted_text (unat a # unat b # as)" using t by auto
  moreover have "oid_valid (unat a # unat b # as)"
  proof -
    have m: "unat (- 1 - 80 :: 64 word) = 2 ^ 64 - 81" by simp
    have "unat a \<le> 2" "unat a < 2 \<longrightarrow> unat b < 40" "unat b \<le> 2 ^ 64 - 81"
      using ok by (simp_all only: word_less_nat_alt m de_Morgan_disj de_Morgan_conj not_less) auto
    then show ?thesis using as(2) by auto
  qed
  ultimately show ?thesis by blast
qed

section \<open>To text\<close>

lemma writer_decimal: "writer (\<lambda>mal d. add_decimal mal d v) (decimal (unat v))"
proof -
  have "length (decimal n) \<le> 20" if "n < 2 ^ 64" for n
  proof -
    have "n < 10 ^ Suc k \<Longrightarrow> length (decimal n) \<le> Suc k" for n k
    proof (induction k arbitrary: n)
      case (Suc k)
      then show ?case by (subst decimal.simps) (auto simp: less_mult_imp_div_less mult.commute)
    qed (simp add: decimal_small)
    from this [of n 19] that show ?thesis by simp
  qed
  from this [of "unat v"] have "length (decimal (unat v)) < SIZE_MOD" using unat_lt_64 [of v] by simp
  from writer_cong [OF writer_bytes [OF this]] show ?thesis by (simp add: add_decimal_def)
qed

definition dotted_tail :: "nat list \<Rightarrow> bytes" where
  "dotted_tail as = concat (map (\<lambda>a. dot # decimal a) as)"

lemma oid_text_loop_Nil: "oid_text_loop mal d [] = (\<lambda>st. (True, st))"
  by (rule ext, subst oid_text_loop.simps) (simp add: CBS_len_def)

lemma oid_text_loop_writes:
  "as \<noteq> [] \<Longrightarrow> \<forall>c\<in>set as. c < 2 ^ 64 \<Longrightarrow>
   writer (\<lambda>mal d. oid_text_loop mal d (concat (map base128_bytes as))) (dotted_tail as)"
proof (induction as)
  case (Cons a as)
  have a: "unat (of_nat a :: 64 word) = a" using Cons.prems by (simp add: unat_of_nat_64)
  let ?r = "concat (map base128_bytes as)"
  have p: "parse_base128_integer (base128_bytes a @ ?r) = (Some (of_nat a), ?r)"
    using base128_codec.dec_enc [of "of_nat a" ?r] a by simp
  have ne: "CBS_len (base128_bytes a @ ?r) \<noteq> 0" by (simp add: CBS_len_def base128_bytes_def)
  have e: "oid_text_loop mal d (concat (map base128_bytes (a # as))) st =
      and_then (and_then (CBB_add_u8 mal d dot st) (add_decimal mal d (of_nat a))) (oid_text_loop mal d ?r)" for mal d st
    by (subst oid_text_loop.simps) (simp only: list.map concat.simps p ne if_True prod.case option.case and_then_assoc not_False_eq_True)
  have w: "writer (\<lambda>mal d st. and_then (CBB_add_u8 mal d dot st) (add_decimal mal d (of_nat a))) (dot # decimal a)"
    using writer_then [OF writer_u8 [of dot] writer_decimal [of "of_nat a"]] by (simp only: a append_Cons append_Nil)
  show ?case
  proof (cases "as = []")
    case True
    have "and_then (CBB_add_u8 mal d dot st) (add_decimal mal d (of_nat a)) = oid_text_loop mal d (concat (map base128_bytes (a # as))) st" for mal d st
      unfolding e by (simp only: True list.map concat.simps oid_text_loop_Nil and_then_unit)
    from writer_cong [OF w this refl] show ?thesis using True by (simp add: dotted_tail_def)
  next
    case False
    with Cons have "writer (\<lambda>mal d. oid_text_loop mal d ?r) (dotted_tail as)" by simp
    from writer_cong [OF writer_then [OF w this]] e show ?thesis by (simp add: dotted_tail_def)
  qed
qed simp

lemma text_first_writes:
  assumes "a \<le> 2" "a < 2 \<longrightarrow> b < 40" "40 * a + b < 2 ^ 64"
  shows "writer (\<lambda>mal d. oid_text_first mal d (of_nat (40 * a + b))) (dotted_text [a, b])"
proof -
  let ?v = "of_nat (40 * a + b) :: 64 word"
  have v: "unat ?v = 40 * a + b" using assms(3) by (simp only: unat_of_nat_64)
  show ?thesis
  proof (cases "a = 2")
    case True
    have le: "80 \<le> ?v" using v True by (simp only: word_le_nat_alt) simp
    have b: "unat (?v - 80) = b" using v True le by (subst unat_sub) simp_all
    have w: "writer (\<lambda>mal d st. and_then (CBB_add_bytes mal d [50, dot] st) (add_decimal mal d (?v - 80)))
        ([50, dot] @ decimal (unat (?v - 80)))"
      by (rule writer_then [OF writer_bytes writer_decimal]) simp
    have "[50, dot] @ decimal (unat (?v - 80)) = dotted_text [a, b]"
      unfolding b by (simp add: True decimal_small)
    from writer_cong [OF w _ this] show ?thesis using le by (simp only: oid_text_first_def if_True)
  next
    case False
    then have ab: "b < 40" "a < 2" using assms by auto
    have n: "\<not> 80 \<le> ?v" using v ab by (simp only: word_le_nat_alt) simp
    have u: "unat (?v div 40) = a" "unat (?v mod 40) = b" using v ab by (simp_all only: unat_div unat_mod) simp_all
    have w: "writer (\<lambda>mal d st. and_then (add_decimal mal d (?v div 40) st) (\<lambda>st.
        and_then (CBB_add_u8 mal d dot st) (add_decimal mal d (?v mod 40)))) (decimal (unat (?v div 40)) @ [dot] @ decimal (unat (?v mod 40)))"
      by (intro writer_then writer_u8 writer_decimal)
    have "decimal (unat (?v div 40)) @ [dot] @ decimal (unat (?v mod 40)) = dotted_text [a, b]"
      unfolding u by simp
    from writer_cong [OF w _ this] show ?thesis using n by (simp only: oid_text_first_def if_False)
  qed
qed

text \<open>The text function is a session on a buffer of 32 bytes, with the NUL as its last write.\<close>

lemma to_text_of_build:
  assumes "parse_base128_integer cbs = (Some v, copy)"
    and "build (\<lambda>mal d st. and_then (oid_text_first mal d v st) (\<lambda>st. and_then (oid_text_loop mal d copy st) (CBB_add_u8 mal d 0))) mal 32 = Some out"
  shows "\<exists>txt. CBS_asn1_oid_to_text mal cbs = Some txt \<and> take (length out) txt = out"
  using assms
  by (auto simp: build_def CBS_asn1_oid_to_text_def min_def split: prod.splits bool.splits option.splits)

lemma decimal_no_NUL: "0 \<notin> set (decimal n)"
proof (induction n rule: decimal.induct)
  case (1 n)
  have "of_nat (48 + m) \<noteq> (0 :: byte)" if "m < 10" for m
    using digit_value [OF that] by (metis add_is_0 unat_0 zero_neq_numeral)
  from this [of n] this [of "n mod 10"] 1 show ?case by (subst decimal.simps) (auto simp del: of_nat_add)
qed

lemma dotted_text_no_NUL: "0 \<notin> set (dotted_text as)"
  by (induction as rule: dotted_text.induct) (auto simp: decimal_no_NUL)

lemma cstring_prefix: "take (length (s @ [0])) txt = s @ [0] \<Longrightarrow> 0 \<notin> set s \<Longrightarrow> cstring txt = s"
proof -
  assume t: "take (length (s @ [0])) txt = s @ [0]" "0 \<notin> set s"
  have "txt = s @ 0 # drop (length (s @ [0])) txt" using t(1) by (metis append_take_drop_id append_assoc append_Cons append_Nil)
  moreover have "takeWhile (\<lambda>b. b \<noteq> 0) (s @ 0 # r) = s" for r using t(2) by (subst takeWhile_append2) auto
  ultimately show ?thesis unfolding cstring_def by metis
qed

lemma oid_to_text_complete:
  assumes "malloc_total mal" "oid_valid arcs" "length (dotted_text arcs) < 2 ^ 61"
  shows "\<exists>txt. CBS_asn1_oid_to_text mal (oid_contents arcs) = Some txt \<and> cstring txt = dotted_text arcs"
proof -
  obtain a b as where arcs: "arcs = a # b # as"
    and v: "a \<le> 2" "a < 2 \<longrightarrow> b < 40" "40 * a + b < 2 ^ 64" "\<forall>c\<in>set as. c < 2 ^ 64"
    using assms(2) by (cases arcs rule: oid_valid.cases) auto
  let ?v = "of_nat (40 * a + b) :: 64 word" and ?r = "concat (map base128_bytes as)"
  have p: "parse_base128_integer (oid_contents arcs) = (Some ?v, ?r)"
    using base128_codec.dec_enc [of ?v ?r] arcs unat_of_nat_64 [OF v(3)] by (simp only: oid_contents.simps)
  have t: "dotted_text arcs = dotted_text [a, b] @ dotted_tail as"
    by (simp add: arcs dotted_text_concat dotted_tail_def del: dotted_text.simps)
  have "writer (\<lambda>mal d st. and_then (oid_text_loop mal d ?r st) (CBB_add_u8 mal d 0)) (dotted_tail as @ [0])"
  proof (cases "as = []")
    case True
    show ?thesis
      by (rule writer_cong [OF writer_u8 [of 0]]) (simp_all add: True oid_text_loop_Nil dotted_tail_def)
  next
    case False
    from writer_then [OF oid_text_loop_writes [OF False v(4)] writer_u8] show ?thesis .
  qed
  note w = writer_then [OF text_first_writes [OF v(1-3)] this]
  have "length (dotted_text [a, b] @ dotted_tail as @ [0]) \<le> 2 ^ 61" using assms(3) by (simp add: t)
  from to_text_of_build [OF p build_writer [OF w assms(1) _ this]]
  obtain out where "CBS_asn1_oid_to_text mal (oid_contents arcs) = Some out"
    "take (length (dotted_text arcs @ [0])) out = dotted_text arcs @ [0]"
    by (auto simp: t)
  then show ?thesis using cstring_prefix dotted_text_no_NUL by blast
qed

lemma oid_text_loop_sound:
  "oid_text_loop mal d copy st = (True, st') \<Longrightarrow> \<exists>as. copy = concat (map base128_bytes as) \<and> (\<forall>c\<in>set as. c < 2 ^ 64)"
proof (induction mal d copy st arbitrary: st' rule: oid_text_loop.induct)
  case (1 mal d copy st)
  show ?case
  proof (cases "copy = []")
    case True
    then show ?thesis by (intro exI [of _ "[]"]) simp
  next
    case False
    then have l: "CBS_len copy \<noteq> 0" by (simp add: CBS_len_def)
    with "1.prems" obtain a r st1 where p: "parse_base128_integer copy = (Some a, r)" "oid_text_loop mal d r st1 = (True, st')"
      by (subst (asm) oid_text_loop.simps) (auto simp: and_then_True split: prod.splits option.splits)
    from "1.IH" [OF l p(1) [symmetric] refl p(2)] obtain as where "r = concat (map base128_bytes as)" "\<forall>c\<in>set as. c < 2 ^ 64" by blast
    moreover have "copy = base128_bytes (unat a) @ r" using base128_codec.enc_dec [OF p(1)] by blast
    ultimately show ?thesis using unat_lt_64 [of a] by (intro exI [of _ "unat a # as"]) auto
  qed
qed

text \<open>The first contents number always splits into a valid pair.\<close>

lemma oid_first_split:
  fixes v :: nat
  assumes "v < 2 ^ 64"
  obtains a b where "a \<le> 2" "a < 2 \<longrightarrow> b < 40" "v = 40 * a + b"
proof (cases "80 \<le> v")
  case True
  then show thesis by (intro that [of 2 "v - 80"]) auto
next
  case False
  then show thesis by (intro that [of "v div 40" "v mod 40"]) auto
qed

lemma oid_to_text_sound:
  assumes "CBS_asn1_oid_to_text mal cbs = Some txt"
  shows "\<exists>arcs. oid_valid arcs \<and> cbs = oid_contents arcs"
proof -
  obtain v copy st st' where p: "parse_base128_integer cbs = (Some v, copy)" "oid_text_loop mal 0 copy st = (True, st')"
    using assms by (auto simp: CBS_asn1_oid_to_text_def and_then_True split: prod.splits bool.splits option.splits)
  from oid_text_loop_sound [OF p(2)] obtain as where as: "copy = concat (map base128_bytes as)" "\<forall>c\<in>set as. c < 2 ^ 64" by blast
  obtain a b where ab: "a \<le> 2" "a < 2 \<longrightarrow> b < 40" "unat v = 40 * a + b"
    using oid_first_split [of "unat v"] unat_lt_64 [of v] by auto
  have "cbs = base128_bytes (unat v) @ copy" using base128_codec.enc_dec [OF p(1)] by blast
  then show ?thesis using as ab unat_lt_64 [of v] by (intro exI [of _ "a # b # as"]) auto
qed

section \<open>Sizes\<close>

text \<open>The size of the contents octets and of the text are within constant factors of the number of arcs.\<close>

lemma length_oid_contents: "oid_valid arcs \<Longrightarrow> length (oid_contents arcs) \<le> 10 * length arcs"
proof (cases arcs rule: oid_contents.cases)
  case (1 a b as)
  have l: "c < 2 ^ 64 \<Longrightarrow> length (base128_bytes c) \<le> 10" for c using length_base128_bytes [of c 9] by simp
  have "\<forall>c\<in>set as. c < 2 ^ 64 \<Longrightarrow> length (concat (map base128_bytes as)) \<le> 10 * length as"
    by (induction as) (use l in \<open>auto simp: add_mono\<close>)
  moreover assume "oid_valid arcs"
  ultimately show ?thesis using l [of "40 * a + b"] 1 by simp
qed simp_all

lemma length_arcs_le: "length arcs \<le> length (dotted_text arcs)"
proof (induction arcs rule: dotted_text.induct)
  case (2 a)
  show ?case by (cases "decimal a") (simp_all del: decimal.simps)
qed (simp_all del: decimal.simps)

lemma length_decimal: "n < 10 ^ Suc k \<Longrightarrow> length (decimal n) \<le> Suc k"
proof (induction k arbitrary: n)
  case (Suc k)
  then have "n div 10 < 10 ^ Suc k" by (simp add: div_less_iff_less_mult ac_simps)
  then show ?case using Suc.IH [of "n div 10"] by (subst decimal.simps) simp
qed (simp add: decimal.simps)

lemma length_dotted_text:
  assumes "oid_valid arcs"
  shows "length (dotted_text arcs) \<le> 21 * length (oid_contents arcs) + 21"
proof (cases arcs rule: oid_contents.cases)
  case (1 a b as)
  have d: "c < 2 ^ 64 \<Longrightarrow> length (decimal c) \<le> 20" for c using length_decimal [of c 19] by simp
  have t: "\<forall>c\<in>set cs. c < 2 ^ 64 \<Longrightarrow> length (concat (map (\<lambda>b. dot # decimal b) cs)) \<le> 21 * length cs" for cs
    by (induction cs) (use d in \<open>auto simp del: decimal.simps intro: add_mono\<close>)
  have c: "length as \<le> length (concat (map base128_bytes as))"
    by (induction as) (auto simp: base128_bytes_def)
  have n: "21 \<le> 21 * length (base128_bytes (40 * a + b))" by (simp add: base128_bytes_def)
  have v: "\<forall>c\<in>set (b # as). c < 2 ^ 64" "a < 2 ^ 64" using assms 1 by auto
  show ?thesis
    using t [OF v(1)] d [OF v(2)] c n by (simp add: 1 dotted_text_concat del: decimal.simps)
qed (use assms in simp_all)

end
