(* ===== verification/PbStream.thy ===== *)
theory PbStream
  imports Prelude
begin

text \<open>
  \<open>nanopb/pb_decode.c\<close> and \<open>nanopb/pb_encode.c\<close>, the streams: bytes, varints, tags, lengths and fixed-width
  numbers. An input stream is one made by \<open>pb_istream_from_buffer\<close>; its \<open>state\<close> pointer is the bytes
  from it to the end of the buffer, which for a substream is more than \<open>bytes_left\<close>. An output stream
  has the bytes its callback has taken, or none when it only counts. A function returns the value it
  stores, or \<open>None\<close> where it returns false, and the stream.
\<close>

section \<open>Input\<close>

record istream =
  istate :: bytes
  bytes_left :: nat
  ierrmsg :: "string option"

definition PB_SET_ERROR :: "istream \<Rightarrow> string \<Rightarrow> istream" where
  "PB_SET_ERROR s msg = s\<lparr>ierrmsg := (case ierrmsg s of None \<Rightarrow> Some msg | Some m \<Rightarrow> Some m)\<rparr>"

definition buf_read :: "istream \<Rightarrow> nat \<Rightarrow> bytes \<times> istream" where
  "buf_read s count = (take count (istate s), s\<lparr>istate := drop count (istate s)\<rparr>)"

definition pb_read :: "istream \<Rightarrow> nat \<Rightarrow> bytes option \<times> istream" where
  "pb_read s count =
     (if count = 0 then (Some [], s)
      else if bytes_left s < count then (None, PB_SET_ERROR s ''end-of-stream'')
      else (let (buf, s) = buf_read s count in (Some buf, s\<lparr>bytes_left := bytes_left s - count\<rparr>)))"

definition pb_readbyte :: "istream \<Rightarrow> byte option \<times> istream" where
  "pb_readbyte s =
     (if bytes_left s = 0 then (None, PB_SET_ERROR s ''end-of-stream'')
      else (let (buf, s) = buf_read s 1 in (Some (buf ! 0), s\<lparr>bytes_left := bytes_left s - 1\<rparr>)))"

definition pb_istream_from_buffer :: "bytes \<Rightarrow> nat \<Rightarrow> istream" where
  "pb_istream_from_buffer buf bufsize = \<lparr>istate = buf, bytes_left = bufsize, ierrmsg = None\<rparr>"

lemma readbyte_shrinks [termination_simp]: "pb_readbyte s = (Some b, s') \<Longrightarrow> bytes_left s' < bytes_left s"
  by (auto simp: pb_readbyte_def buf_read_def split: if_splits)

text \<open>\<open>bitpos\<close> is a \<open>uint_fast8_t\<close>, a byte.\<close>

function varint32_loop :: "32 word \<Rightarrow> byte \<Rightarrow> istream \<Rightarrow> 32 word option \<times> istream" where
  "varint32_loop res bitpos s =
     (case pb_readbyte s of
        (None, s) \<Rightarrow> (None, s)
      | (Some b, s) \<Rightarrow>
          (if 32 \<le> bitpos \<and> b AND 0x7F \<noteq> 0 \<and> (drop_bit 31 res = 0 \<or> b \<noteq> (if bitpos < 63 then 0xFF else 0x01))
           then (None, PB_SET_ERROR s ''varint overflow'')
           else
             (let res = (if 32 \<le> bitpos then res else res OR push_bit (unat bitpos) (ucast (b AND 0x7F)));
                  bitpos = bitpos + 7
              in if b AND 0x80 \<noteq> 0 then varint32_loop res bitpos s
                 else if bitpos = 35 \<and> b AND 0x70 \<noteq> 0 then (None, PB_SET_ERROR s ''varint overflow'')
                 else (Some res, s))))"
  by pat_completeness auto
termination
  by (relation "measure (\<lambda>(res, bitpos, s). bytes_left s)") (auto dest: readbyte_shrinks [OF sym])

declare varint32_loop.simps [simp del]

text \<open>The second result is the flag \<open>*eof\<close>.\<close>

definition pb_decode_varint32_eof :: "istream \<Rightarrow> 32 word option \<times> bool \<times> istream" where
  "pb_decode_varint32_eof s =
     (case pb_readbyte s of
        (None, s) \<Rightarrow> (None, bytes_left s = 0, s)
      | (Some b, s) \<Rightarrow>
          (if b AND 0x80 = 0 then (Some (ucast b), False, s)
           else (case varint32_loop (ucast (b AND 0x7F)) 7 s of (r, s) \<Rightarrow> (r, False, s))))"

definition pb_decode_varint32 :: "istream \<Rightarrow> 32 word option \<times> istream" where
  "pb_decode_varint32 s = (case pb_decode_varint32_eof s of (r, eof, s) \<Rightarrow> (r, s))"

function decode_varint_loop :: "64 word \<Rightarrow> byte \<Rightarrow> istream \<Rightarrow> 64 word option \<times> istream" where
  "decode_varint_loop res bitpos s =
     (if 64 \<le> bitpos then (None, PB_SET_ERROR s ''varint overflow'')
      else (case pb_readbyte s of
              (None, s) \<Rightarrow> (None, s)
            | (Some b, s) \<Rightarrow>
                (let res = res OR push_bit (unat bitpos) (ucast (b AND 0x7F)); bitpos = bitpos + 7
                 in if b AND 0x80 \<noteq> 0 then decode_varint_loop res bitpos s else (Some res, s))))"
  by pat_completeness auto
termination
  by (relation "measure (\<lambda>(res, bitpos, s). bytes_left s)") (auto dest: readbyte_shrinks [OF sym])

declare decode_varint_loop.simps [simp del]

definition pb_decode_varint :: "istream \<Rightarrow> 64 word option \<times> istream" where
  "pb_decode_varint s = decode_varint_loop 0 0 s"

lemma read_shrinks: "pb_read s (Suc 0) = (Some b, s') \<Longrightarrow> bytes_left s' < bytes_left s"
  by (auto simp: pb_read_def buf_read_def split: if_splits)

function pb_skip_varint :: "istream \<Rightarrow> bool \<times> istream" where
  "pb_skip_varint s =
     (case pb_read s 1 of
        (None, s) \<Rightarrow> (False, s)
      | (Some b, s) \<Rightarrow> if b ! 0 AND 0x80 \<noteq> 0 then pb_skip_varint s else (True, s))"
  by pat_completeness auto
termination
  by (relation "measure bytes_left") (auto dest: read_shrinks [OF sym])

declare pb_skip_varint.simps [simp del]

definition pb_skip :: "istream \<Rightarrow> nat \<Rightarrow> bool \<times> istream" where
  "pb_skip s count = (case pb_read s count of (None, s) \<Rightarrow> (False, s) | (Some _, s) \<Rightarrow> (True, s))"

definition pb_skip_string :: "istream \<Rightarrow> bool \<times> istream" where
  "pb_skip_string s =
     (case pb_decode_varint32 s of (None, s) \<Rightarrow> (False, s) | (Some len, s) \<Rightarrow> pb_skip s (unat len))"

abbreviation (input) PB_WT_VARINT :: "32 word" where "PB_WT_VARINT \<equiv> 0"
abbreviation (input) PB_WT_64BIT :: "32 word" where "PB_WT_64BIT \<equiv> 1"
abbreviation (input) PB_WT_STRING :: "32 word" where "PB_WT_STRING \<equiv> 2"
abbreviation (input) PB_WT_32BIT :: "32 word" where "PB_WT_32BIT \<equiv> 5"

text \<open>Tag and wire type, and the flag \<open>*eof\<close>.\<close>

definition pb_decode_tag :: "istream \<Rightarrow> (32 word \<times> 32 word) option \<times> bool \<times> istream" where
  "pb_decode_tag s =
     (case pb_decode_varint32_eof s of
        (None, eof, s) \<Rightarrow> (None, eof, s)
      | (Some temp, eof, s) \<Rightarrow>
          (if temp = 0 then (None, True, s) else (Some (drop_bit 3 temp, temp AND 7), eof, s)))"

definition pb_skip_field :: "istream \<Rightarrow> 32 word \<Rightarrow> bool \<times> istream" where
  "pb_skip_field s wire_type =
     (if wire_type = PB_WT_VARINT then pb_skip_varint s
      else if wire_type = PB_WT_64BIT then pb_skip s 8
      else if wire_type = PB_WT_STRING then pb_skip_string s
      else if wire_type = PB_WT_32BIT then pb_skip s 4
      else (False, PB_SET_ERROR s ''invalid wire_type''))"

fun raw_varint_loop :: "nat \<Rightarrow> istream \<Rightarrow> bytes option \<times> istream" where
  "raw_varint_loop 0 s = (None, s)"
| "raw_varint_loop (Suc n) s =
     (case pb_read s 1 of
        (None, s) \<Rightarrow> (None, s)
      | (Some b, s) \<Rightarrow>
          (if b ! 0 AND 0x80 \<noteq> 0
           then (case raw_varint_loop n s of (None, s) \<Rightarrow> (None, s) | (Some bs, s) \<Rightarrow> (Some (b ! 0 # bs), s))
           else (Some [b ! 0], s)))"

definition read_raw_value :: "istream \<Rightarrow> 32 word \<Rightarrow> nat \<Rightarrow> bytes option \<times> istream" where
  "read_raw_value s wire_type max_size =
     (if wire_type = PB_WT_VARINT then raw_varint_loop max_size s
      else if wire_type = PB_WT_64BIT then pb_read s 8
      else if wire_type = PB_WT_32BIT then pb_read s 4
      else (None, PB_SET_ERROR s ''invalid wire_type''))"

text \<open>The substream and the parent, which share the position in the buffer; on failure there is no substream.\<close>

definition pb_make_string_substream :: "istream \<Rightarrow> istream option \<times> istream" where
  "pb_make_string_substream s =
     (case pb_decode_varint32 s of
        (None, s) \<Rightarrow> (None, s)
      | (Some len, s) \<Rightarrow>
          (if bytes_left s < unat len then (None, PB_SET_ERROR s ''parent stream too short'')
           else (Some (s\<lparr>bytes_left := unat len\<rparr>), s\<lparr>bytes_left := bytes_left s - unat len\<rparr>)))"

definition pb_close_string_substream :: "istream \<Rightarrow> istream \<Rightarrow> bool \<times> istream" where
  "pb_close_string_substream s sub =
     (case (if bytes_left sub \<noteq> 0 then pb_skip sub (bytes_left sub) else (True, sub)) of
        (False, sub) \<Rightarrow> (False, s)
      | (True, sub) \<Rightarrow> (True, s\<lparr>istate := istate sub, ierrmsg := ierrmsg sub\<rparr>))"

definition pb_decode_svarint :: "istream \<Rightarrow> 64 word option \<times> istream" where
  "pb_decode_svarint s =
     (case pb_decode_varint s of
        (None, s) \<Rightarrow> (None, s)
      | (Some value, s) \<Rightarrow> (Some (if value AND 1 \<noteq> 0 then NOT (drop_bit 1 value) else drop_bit 1 value), s))"

definition pb_decode_fixed32 :: "istream \<Rightarrow> 32 word option \<times> istream" where
  "pb_decode_fixed32 s =
     (case pb_read s 4 of
        (None, s) \<Rightarrow> (None, s)
      | (Some bs, s) \<Rightarrow>
          (Some (push_bit 0 (ucast (bs ! 0)) OR push_bit 8 (ucast (bs ! 1)) OR push_bit 16 (ucast (bs ! 2))
             OR push_bit 24 (ucast (bs ! 3))), s))"

definition pb_decode_fixed64 :: "istream \<Rightarrow> 64 word option \<times> istream" where
  "pb_decode_fixed64 s =
     (case pb_read s 8 of
        (None, s) \<Rightarrow> (None, s)
      | (Some bs, s) \<Rightarrow>
          (Some (push_bit 0 (ucast (bs ! 0)) OR push_bit 8 (ucast (bs ! 1)) OR push_bit 16 (ucast (bs ! 2))
             OR push_bit 24 (ucast (bs ! 3)) OR push_bit 32 (ucast (bs ! 4)) OR push_bit 40 (ucast (bs ! 5))
             OR push_bit 48 (ucast (bs ! 6)) OR push_bit 56 (ucast (bs ! 7))), s))"

section \<open>Output\<close>

record ostream =
  sink :: "bytes option"
  max_size :: nat
  bytes_written :: nat
  oerrmsg :: "string option"

definition pb_ostream_from_buffer :: "nat \<Rightarrow> ostream" where
  "pb_ostream_from_buffer bufsize = \<lparr>sink = Some [], max_size = bufsize, bytes_written = 0, oerrmsg = None\<rparr>"

definition PB_OSTREAM_SIZING :: ostream where
  "PB_OSTREAM_SIZING = \<lparr>sink = None, max_size = 0, bytes_written = 0, oerrmsg = None\<rparr>"

definition set_oerror :: "ostream \<Rightarrow> string \<Rightarrow> ostream" where
  "set_oerror s msg = s\<lparr>oerrmsg := (case oerrmsg s of None \<Rightarrow> Some msg | Some m \<Rightarrow> Some m)\<rparr>"

definition pb_write :: "ostream \<Rightarrow> bytes \<Rightarrow> bool \<times> ostream" where
  "pb_write s buf =
     (let count = length buf
      in if 0 < count \<and> sink s \<noteq> None
            \<and> (szadd (bytes_written s) count < bytes_written s \<or> max_size s < szadd (bytes_written s) count)
         then (False, set_oerror s ''stream full'')
         else (True, s\<lparr>sink := map_option (\<lambda>out. out @ buf) (sink s), bytes_written := szadd (bytes_written s) count\<rparr>))"

text \<open>The buffer that \<open>pb_encode_varint\<close> fills before it clears the top bit of the last byte.\<close>

function varint_buffer :: "64 word \<Rightarrow> bytes" where
  "varint_buffer v = (if v = 0 then [] else ucast ((v AND 0x7F) OR 0x80) # varint_buffer (drop_bit 7 v))"
  by pat_completeness auto
termination
proof (relation "measure unat")
  fix v :: "64 word"
  assume "v \<noteq> 0"
  then have "unat v div 2 ^ 7 < unat v" by (intro div_less_dividend) (simp_all add: unat_gt_0)
  then have "unat (drop_bit 7 v) < unat v" unfolding unat_drop_bit_eq drop_bit_eq_div [where 'a = nat] .
  then show "(drop_bit 7 v, v) \<in> measure unat" by (simp only: in_measure)
qed simp

declare varint_buffer.simps [simp del]

definition pb_encode_varint :: "ostream \<Rightarrow> 64 word \<Rightarrow> bool \<times> ostream" where
  "pb_encode_varint s v =
     (if v \<le> 0x7F then pb_write s [ucast v]
      else (let buf = varint_buffer v; i = length buf in pb_write s (buf[i - 1 := buf ! (i - 1) AND 0x7F])))"

definition pb_encode_svarint :: "ostream \<Rightarrow> 64 word \<Rightarrow> bool \<times> ostream" where
  "pb_encode_svarint s v = pb_encode_varint s (if sint v < 0 then NOT (push_bit 1 v) else push_bit 1 v)"

definition pb_encode_fixed32 :: "ostream \<Rightarrow> 32 word \<Rightarrow> bool \<times> ostream" where
  "pb_encode_fixed32 s v =
     pb_write s [ucast (v AND 0xFF), ucast (drop_bit 8 v AND 0xFF), ucast (drop_bit 16 v AND 0xFF), ucast (drop_bit 24 v AND 0xFF)]"

definition pb_encode_fixed64 :: "ostream \<Rightarrow> 64 word \<Rightarrow> bool \<times> ostream" where
  "pb_encode_fixed64 s v =
     pb_write s [ucast (v AND 0xFF), ucast (drop_bit 8 v AND 0xFF), ucast (drop_bit 16 v AND 0xFF), ucast (drop_bit 24 v AND 0xFF),
       ucast (drop_bit 32 v AND 0xFF), ucast (drop_bit 40 v AND 0xFF), ucast (drop_bit 48 v AND 0xFF), ucast (drop_bit 56 v AND 0xFF)]"

definition pb_encode_tag :: "ostream \<Rightarrow> 32 word \<Rightarrow> 32 word \<Rightarrow> bool \<times> ostream" where
  "pb_encode_tag s wiretype field_number = pb_encode_varint s (push_bit 3 (ucast field_number) OR ucast wiretype)"

definition pb_encode_string :: "ostream \<Rightarrow> bytes \<Rightarrow> bool \<times> ostream" where
  "pb_encode_string s buffer =
     (case pb_encode_varint s (of_nat (length buffer)) of (False, s) \<Rightarrow> (False, s) | (True, s) \<Rightarrow> pb_write s buffer)"

end
