(* ===== verification/PbWire.thy ===== *)
theory PbWire
  imports PbStream
begin

text \<open>
  The wire format of protocol buffers behind the streams of nanopb: base-128 varints, least significant
  group first. The decoders are shown to be exact on the bytes that a stream may still read, the
  encoders to write the shortest form, and a stream never to read or write beyond its limits.
\<close>

section \<open>What a stream may read\<close>

definition visible :: "istream \<Rightarrow> bytes" where
  "visible s = take (bytes_left s) (istate s)"

definition wf_istream :: "istream \<Rightarrow> bool" where
  "wf_istream s \<longleftrightarrow> bytes_left s \<le> length (istate s)"

definition advance :: "nat \<Rightarrow> istream \<Rightarrow> istream" where
  "advance n s = s\<lparr>istate := drop n (istate s), bytes_left := bytes_left s - n\<rparr>"

named_theorems stream_simps \<open>positions in streams\<close>

lemma length_visible [stream_simps]: "wf_istream s \<Longrightarrow> length (visible s) = bytes_left s"
  by (simp add: visible_def wf_istream_def)

lemma visible_advance [stream_simps]: "visible (advance n s) = drop n (visible s)"
  by (simp add: visible_def advance_def drop_take)

lemma wf_advance [stream_simps]: "wf_istream s \<Longrightarrow> wf_istream (advance n s)"
  by (auto simp: wf_istream_def advance_def)

lemma advance_advance [stream_simps]: "advance m (advance n s) = advance (n + m) s"
  by (simp add: advance_def add.commute)

lemma advance_0 [stream_simps]: "advance 0 s = s"
  by (simp add: advance_def)

lemma from_buffer: "wf_istream (pb_istream_from_buffer bs (length bs))" "visible (pb_istream_from_buffer bs (length bs)) = bs"
  by (simp_all add: wf_istream_def visible_def pb_istream_from_buffer_def)

lemma read_visible:
  assumes "wf_istream s"
  shows "pb_read s n =
    (if n \<le> length (visible s) then (Some (take n (visible s)), advance n s)
     else (None, PB_SET_ERROR s ''end-of-stream''))"
proof (cases "n \<le> bytes_left s")
  case True
  then show ?thesis using length_visible [OF assms]
    by (simp add: pb_read_def buf_read_def Let_def visible_def advance_def min_absorb2)
next
  case False
  then show ?thesis using length_visible [OF assms] by (simp add: pb_read_def)
qed

lemma readbyte_visible:
  assumes "wf_istream s"
  shows "visible s = b # bs \<Longrightarrow> pb_readbyte s = (Some b, advance 1 s)"
    and "visible s = [] \<Longrightarrow> pb_readbyte s = (None, PB_SET_ERROR s ''end-of-stream'')"
  using length_visible [OF assms]
  by (cases "istate s"; cases "bytes_left s"; auto simp: pb_readbyte_def buf_read_def Let_def visible_def advance_def)+

section \<open>Varints\<close>

fun varint_bytes :: "nat \<Rightarrow> bytes" where
  "varint_bytes n = (if n < 128 then [of_nat n] else of_nat (n mod 128 + 128) # varint_bytes (n div 128))"

fun varint_val :: "bytes \<Rightarrow> nat" where
  "varint_val [] = 0"
| "varint_val (b # bs) = unat b mod 128 + 128 * varint_val bs"

fun is_varint :: "bytes \<Rightarrow> bool" where
  "is_varint [] = False"
| "is_varint [b] = (unat b < 128)"
| "is_varint (b # c # bs) = (128 \<le> unat b \<and> is_varint (c # bs))"

declare varint_bytes.simps [simp del]

lemma is_varint_Cons: "is_varint (b # bs) \<longleftrightarrow> (if unat b < 128 then bs = [] else is_varint bs)"
  by (cases bs) auto

lemma varint_bytes_ok: "is_varint (varint_bytes n) \<and> varint_val (varint_bytes n) = n"
proof (induction n rule: varint_bytes.induct)
  case (1 n)
  have u: "unat (of_nat (n mod 128 + 128) :: byte) = n mod 128 + 128" by (rule unat_of_nat_mod_128)
  show ?case
  proof (cases "n < 128")
    case True
    then show ?thesis by (subst varint_bytes.simps, subst (2) varint_bytes.simps) (simp add: unat_of_nat_byte)
  next
    case False
    then have "varint_bytes n = of_nat (n mod 128 + 128) # varint_bytes (n div 128)" by (subst varint_bytes.simps) simp
    then show ?thesis using 1 [OF False] u by (simp add: is_varint_Cons del: of_nat_add)
  qed
qed

lemma length_varint_bytes: "n < 128 ^ Suc k \<Longrightarrow> length (varint_bytes n) \<le> Suc k"
proof (induction k arbitrary: n)
  case 0
  then show ?case by (simp add: varint_bytes.simps)
next
  case (Suc k)
  then have "n div 128 < 128 ^ Suc k" by (simp add: div_less_iff_less_mult ac_simps)
  then show ?case using Suc.IH [of "n div 128"] by (subst varint_bytes.simps) simp
qed

lemma varint_cases:
  obtains p r where "xs = p @ r" "is_varint p" | "\<forall>b\<in>set xs. 128 \<le> unat b"
proof (induction xs arbitrary: thesis)
  case (Cons b xs)
  show ?case
  proof (cases "unat b < 128")
    case True
    then show ?thesis using Cons.prems(1) [of "[b]" xs] by simp
  next
    case False
    show ?thesis
    proof (rule Cons.IH)
      fix p r
      assume "xs = p @ r" "is_varint p"
      then show ?thesis using False Cons.prems(1) [of "b # p" r] by (simp add: is_varint_Cons)
    next
      assume "\<forall>b\<in>set xs. 128 \<le> unat b"
      then show ?thesis using False Cons.prems(2) by simp
    qed
  qed
qed simp

lemma varint_prefix_unique: "is_varint p \<Longrightarrow> is_varint q \<Longrightarrow> p @ r = q @ s \<Longrightarrow> p = q \<and> r = s"
proof (induction p arbitrary: q)
  case (Cons b p)
  then show ?case by (cases q) (auto simp: is_varint_Cons split: if_splits)
qed simp

lemma join7:
  assumes "m < 128"
  shows "of_nat (m + 128 * n) = (of_nat m OR push_bit 7 (of_nat n) :: 'a :: len word)"
proof -
  have "m + 128 * n = push_bit 7 n OR m" using nat_push_or [of m 7 n] assms by simp
  then have "(of_nat (m + 128 * n) :: 'a word) = push_bit 7 (of_nat n) OR of_nat m"
    by (simp only: of_nat_or_eq of_nat_push_bit)
  then show ?thesis by (simp only: or.commute)
qed

lemma low7: "(ucast (b AND 0x7F) :: 'a :: len word) = of_nat (unat (b :: byte) mod 128)"
  using of_nat_unat [of "b AND 0x7F"] unfolding unat_and_7f by (rule sym)

lemma push_join7:
  "push_bit n (of_nat (unat (b :: byte) mod 128)) OR push_bit (n + 7) (of_nat v)
   = (push_bit n (of_nat (unat b mod 128 + 128 * v)) :: 'a :: len word)"
proof -
  have "(of_nat (unat b mod 128 + 128 * v) :: 'a word) = of_nat (unat b mod 128) OR push_bit 7 (of_nat v)"
    by (rule join7) simp
  then show ?thesis by (simp add: push_bit_push_bit add.commute)
qed

lemma high_bit_iff: "b AND 0x80 \<noteq> 0 \<longleftrightarrow> 128 \<le> unat (b :: byte)"
  using high_bit_clear_iff [of b] by auto

section \<open>The 64-bit decoder\<close>

lemma decode_loop_high:
  assumes "wf_istream s" "\<forall>b\<in>set (visible s). 128 \<le> unat b"
  shows "fst (decode_varint_loop res bitpos s) = None"
  using assms
proof (induction res bitpos s rule: decode_varint_loop.induct)
  case (1 res bitpos s)
  show ?case
  proof (cases "visible s")
    case Nil
    then show ?thesis using readbyte_visible(2) [OF 1(2)] by (subst decode_varint_loop.simps) simp
  next
    case (Cons b bs)
    note r = readbyte_visible(1) [OF 1(2) Cons]
    have b: "b AND 0x80 \<noteq> 0" using 1(3) Cons by (simp add: high_bit_iff)
    have v: "visible (advance 1 s) = bs" "wf_istream (advance 1 s)" using Cons 1(2) by (simp_all add: stream_simps)
    show ?thesis
    proof (cases "64 \<le> bitpos")
      case False
      have "fst (decode_varint_loop (res OR push_bit (unat bitpos) (ucast (b AND 0x7F))) (bitpos + 7) (advance 1 s)) = None"
        using 1(1) [OF False r [symmetric] refl refl refl b] v 1(3) Cons by simp
      then show ?thesis using False r b by (subst decode_varint_loop.simps) (simp add: Let_def)
    qed (subst decode_varint_loop.simps, simp)
  qed
qed

lemma decode_loop_varint:
  assumes "is_varint p" "wf_istream s" "visible s = p @ r" "k \<le> 10"
  shows "(if k + length p \<le> 10
     then decode_varint_loop res (of_nat (7 * k)) s = (Some (res OR push_bit (7 * k) (of_nat (varint_val p))), advance (length p) s)
     else fst (decode_varint_loop res (of_nat (7 * k)) s) = None)"
  using assms
proof (induction p arbitrary: k s res)
  case (Cons b p)
  have pos: "unat (of_nat (7 * k) :: byte) = 7 * k" using Cons.prems(4) by (intro unat_of_nat_byte) simp
  then have lim: "(64 :: byte) \<le> of_nat (7 * k) \<longleftrightarrow> k = 10" using Cons.prems(4) by (simp add: word_le_nat_alt) linarith
  have nx: "of_nat (7 * k) + 7 = (of_nat (7 * Suc k) :: byte)" by simp
  note rd = readbyte_visible(1) [OF Cons.prems(2), of b "p @ r"]
  have r: "pb_readbyte s = (Some b, advance 1 s)" using rd Cons.prems(3) by simp
  have v: "visible (advance 1 s) = p @ r" "wf_istream (advance 1 s)" using Cons.prems by (simp_all add: stream_simps)
  let ?res = "res OR push_bit (7 * k) (of_nat (unat b mod 128)) :: 64 word"
  have step: "decode_varint_loop res (of_nat (7 * k)) s =
    (if k = 10 then (None, PB_SET_ERROR s ''varint overflow'')
     else if 128 \<le> unat b then decode_varint_loop ?res (of_nat (7 * Suc k)) (advance 1 s) else (Some ?res, advance 1 s))"
    by (subst decode_varint_loop.simps) (auto simp only: lim r pos low7 high_bit_iff Let_def nx prod.case option.case)
  show ?case
  proof (cases "unat b < 128 \<or> k = 10")
    case True
    then show ?thesis using Cons.prems(1,4) unfolding step by (auto simp: is_varint_Cons split: if_splits)
  next
    case False
    then have p: "is_varint p" using Cons.prems(1) by (simp add: is_varint_Cons)
    have j: "?res OR push_bit (7 * Suc k) (of_nat (varint_val p)) = res OR push_bit (7 * k) (of_nat (varint_val (b # p)))"
      using push_join7 [of "7 * k" b "varint_val p", where 'a = 64] by (simp add: or.assoc add.commute)
    have a: "advance (length p) (advance 1 s) = advance (length (b # p)) s" by (simp add: stream_simps)
    have g: "k + length (b # p) = Suc k + length p" by simp
    have f: "k \<noteq> 10" "128 \<le> unat b" "Suc k \<le> 10" using False Cons.prems(4) by simp_all
    show ?thesis
      using Cons.IH [OF p v(2) v(1) f(3), of ?res] unfolding step g j a if_not_P [OF f(1)] if_P [OF f(2)] .
  qed
qed simp

lemma decode_varint_exact:
  assumes "wf_istream s"
  shows "pb_decode_varint s = (Some v, s') \<longleftrightarrow>
    (\<exists>p r. is_varint p \<and> length p \<le> 10 \<and> visible s = p @ r \<and> v = of_nat (varint_val p) \<and> s' = advance (length p) s)"
proof (cases "visible s" rule: varint_cases)
  case (1 p r)
  have "pb_decode_varint s = (if length p \<le> 10 then (Some (of_nat (varint_val p)), advance (length p) s)
      else (None, snd (pb_decode_varint s)))"
    using decode_loop_varint [OF 1(2) assms 1(1), of 0 0] by (auto simp: pb_decode_varint_def prod_eq_iff split: if_splits)
  then show ?thesis using 1 varint_prefix_unique [OF 1(2)] by (auto split: if_splits)
next
  case 2
  have "fst (pb_decode_varint s) = None" using decode_loop_high [OF assms 2] by (simp add: pb_decode_varint_def)
  moreover have "\<not> is_varint p" if "visible s = p @ r" for p r
  proof -
    have "\<forall>b\<in>set p. 128 \<le> unat b" using 2 that by auto
    then show ?thesis by (induction p) (auto simp: is_varint_Cons)
  qed
  ultimately show ?thesis by auto
qed

section \<open>The 32-bit decoder\<close>

lemma varint_val_bound: "varint_val p < 128 ^ length p"
proof (induction p)
  case (Cons b p)
  have "unat b mod 128 < 128" by simp
  then show ?case using Cons by simp
qed simp

lemma loop32_high:
  assumes "\<forall>b\<in>set q. 128 \<le> unat b" "wf_istream s" "visible s = q @ r" "k + length q \<le> 5"
  shows "varint32_loop res (of_nat (7 * k)) s
    = varint32_loop (res OR push_bit (7 * k) (of_nat (varint_val q))) (of_nat (7 * (k + length q))) (advance (length q) s)"
  using assms
proof (induction q arbitrary: k s res)
  case (Cons b q)
  have k: "k < 5" using Cons.prems(4) by simp
  then have pos: "unat (of_nat (7 * k) :: byte) = 7 * k" by (intro unat_of_nat_byte) simp
  have lim: "\<not> (32 :: byte) \<le> of_nat (7 * k)" unfolding word_le_nat_alt pos using k by simp
  have r: "pb_readbyte s = (Some b, advance 1 s)" using readbyte_visible(1) [OF Cons.prems(2)] Cons.prems(3) by simp
  have v: "visible (advance 1 s) = q @ r" "wf_istream (advance 1 s)" using Cons.prems by (simp_all add: stream_simps)
  have b: "b AND 0x80 \<noteq> 0" using Cons.prems(1) by (simp add: high_bit_iff)
  have nx: "of_nat (7 * k) + 7 = (of_nat (7 * Suc k) :: byte)" by simp
  let ?res = "res OR push_bit (7 * k) (of_nat (unat b mod 128)) :: 32 word"
  have step: "varint32_loop res (of_nat (7 * k)) s = varint32_loop ?res (of_nat (7 * Suc k)) (advance 1 s)"
    by (subst varint32_loop.simps) (simp only: lim r pos low7 Let_def nx prod.case option.case b if_False simp_thms if_True)
  have j: "?res OR push_bit (7 * Suc k) (of_nat (varint_val q)) = res OR push_bit (7 * k) (of_nat (varint_val (b # q)))"
    using push_join7 [of "7 * k" b "varint_val q", where 'a = 32] by (simp add: or.assoc add.commute)
  have a: "advance (length q) (advance 1 s) = advance (length (b # q)) s" by (simp add: stream_simps)
  have g: "Suc k + length q = k + length (b # q)" by simp
  have "\<forall>b\<in>set q. 128 \<le> unat b" "Suc k + length q \<le> 5" using Cons.prems by auto
  then show ?case using Cons.IH [OF _ v(2) v(1), of "Suc k" ?res] unfolding step j a g by blast
qed (simp add: stream_simps)

lemma and_70:
  assumes "unat (b :: byte) < 128"
  shows "b AND 0x70 = 0 \<longleftrightarrow> unat b < 16"
proof -
  have b7: "\<not> bit b 7" using assms high_bit_clear_iff [of b] and_exp_eq_0_iff_not_bit [of b 7] by simp
  have m: "(0x70 :: byte) = push_bit 4 (mask 3)" by (simp add: mask_eq_exp_minus_1)
  have "b AND 0x70 = 0 \<longleftrightarrow> drop_bit 4 b = 0"
  proof
    assume z: "b AND 0x70 = 0"
    show "drop_bit 4 b = 0"
    proof (rule bit_eqI)
      fix n
      have "bit (b AND 0x70) (4 + n) = False" using z by simp
      then show "bit (drop_bit 4 b) n = bit 0 n"
        using b7 unfolding m by (cases "n = 3") (auto simp: bit_simps not_less)
    qed
  next
    assume z: "drop_bit 4 b = 0"
    have "bit b n \<Longrightarrow> n < 4" for n
    proof (rule ccontr)
      assume "bit b n" "\<not> n < 4"
      then have "bit (drop_bit 4 b) (n - 4)" by (simp add: bit_simps)
      then show False using z by simp
    qed
    then show "b AND 0x70 = 0" unfolding m by (intro bit_eqI) (auto simp: bit_simps not_le [symmetric])
  qed
  then show ?thesis by (simp add: drop_bit_zero_iff)
qed
lemma loop32_last:
  assumes "unat b < 128" "wf_istream s" "visible s = b # r" "k < 5"
  shows "varint32_loop res (of_nat (7 * k)) s =
    (if k = 4 \<and> 16 \<le> unat b then (None, PB_SET_ERROR (advance 1 s) ''varint overflow'')
     else (Some (res OR push_bit (7 * k) (of_nat (unat b mod 128))), advance 1 s))"
proof -
  have pos: "unat (of_nat (7 * k) :: byte) = 7 * k" using assms(4) by (intro unat_of_nat_byte) simp
  have lim: "\<not> (32 :: byte) \<le> of_nat (7 * k)" unfolding word_le_nat_alt pos using assms(4) by simp
  have r: "pb_readbyte s = (Some b, advance 1 s)" using readbyte_visible(1) [OF assms(2,3)] .
  have b: "\<not> b AND 0x80 \<noteq> 0" using assms(1) by (simp add: high_bit_iff)
  have "unat (of_nat (7 * k) + 7 :: byte) = 7 * k + 7"
    using unat_of_nat_byte [of "7 * k + 7"] assms(4) by simp
  then have e: "(of_nat (7 * k) + 7 = (35 :: byte)) \<longleftrightarrow> k = 4" by (simp add: word_unat_eq_iff del: of_nat_mult)
  have n: "b AND 0x70 \<noteq> 0 \<longleftrightarrow> 16 \<le> unat b" using and_70 [OF assms(1)] by auto
  show ?thesis
    by (subst varint32_loop.simps) (auto simp only: lim r pos low7 Let_def e n b prod.case option.case if_False simp_thms)
qed

lemma varint_split_last:
  assumes "is_varint p"
  obtains q b where "p = q @ [b]" "\<forall>c\<in>set q. 128 \<le> unat c" "unat b < 128"
  using assms
proof (induction p arbitrary: thesis)
  case (Cons b p)
  show ?case
  proof (cases "unat b < 128")
    case True
    then show ?thesis using Cons.prems(1) [of "[]" b] Cons.prems(2) by (simp add: is_varint_Cons)
  next
    case False
    then have "is_varint p" using Cons.prems(2) by (simp add: is_varint_Cons)
    then obtain q c where "p = q @ [c]" "\<forall>c\<in>set q. 128 \<le> unat c" "unat c < 128" using Cons.IH by blast
    then show ?thesis using Cons.prems(1) [of "b # q" c] False by simp
  qed
qed simp

lemma varint_val_append: "varint_val (q @ p) = varint_val q + 128 ^ length q * varint_val p"
  by (induction q) (auto simp: algebra_simps)

lemma varint32_short:
  assumes "is_varint p" "wf_istream s" "visible s = p @ r" "length p \<le> 5"
  shows "(if varint_val p < 2 ^ 32 then pb_decode_varint32 s = (Some (of_nat (varint_val p)), advance (length p) s)
    else fst (pb_decode_varint32 s) = None)"
proof -
  obtain q b where p: "p = q @ [b]" and q: "\<forall>c\<in>set q. 128 \<le> unat c" and b: "unat b < 128" using varint_split_last [OF assms(1)] .
  show ?thesis
  proof (cases q)
    case Nil
    then have "pb_readbyte s = (Some b, advance 1 s)" using readbyte_visible(1) [OF assms(2)] assms(3) p by simp
    moreover have "b AND 0x80 = 0" using b by (simp add: high_bit_clear_iff)
    ultimately show ?thesis using b Nil p by (simp add: pb_decode_varint32_def pb_decode_varint32_eof_def)
  next
    case (Cons c q')
    have r: "pb_readbyte s = (Some c, advance 1 s)" using readbyte_visible(1) [OF assms(2)] assms(3) p Cons by simp
    have c: "c AND 0x80 \<noteq> 0" using q Cons by (simp add: high_bit_iff)
    let ?s = "advance (length q) s" and ?k = "length q"
    have k: "?k < 5" "0 < ?k" using assms(4) p Cons by simp_all
    have v1: "wf_istream (advance 1 s)" "visible (advance 1 s) = q' @ [b] @ r" using assms(2,3) p Cons by (simp_all add: stream_simps)
    have v2: "wf_istream ?s" "visible ?s = b # r" using assms(2,3) p by (simp_all add: stream_simps)
    have a: "advance (length q') (advance 1 s) = ?s" "1 + length q' = ?k" using Cons by (simp_all add: stream_simps)
    have "7 = (of_nat (7 * 1) :: byte)" by simp
    have q': "\<forall>c\<in>set q'. 128 \<le> unat c" "1 + length q' \<le> 5" using q Cons k by auto
    have j: "of_nat (unat c mod 128) OR push_bit (7 * 1) (of_nat (varint_val q')) = (of_nat (varint_val q) :: 32 word)"
      using push_join7 [of 0 c "varint_val q'", where 'a = 32] Cons by simp
    have l: "varint32_loop (ucast (c AND 0x7F)) 7 (advance 1 s) = varint32_loop (of_nat (varint_val q)) (of_nat (7 * ?k)) ?s"
      using loop32_high [OF q'(1) v1 q'(2), of "ucast (c AND 0x7F)"] unfolding a low7 j by simp
    have vp: "varint_val p = varint_val q + 128 ^ ?k * unat b" using b by (simp add: p varint_val_append)
    have kc: "?k = 1 \<or> ?k = 2 \<or> ?k = 3 \<or> ?k = 4" using k by linarith
    then have big: "varint_val p < 2 ^ 32 \<longleftrightarrow> \<not> (?k = 4 \<and> 16 \<le> unat b)"
      using varint_val_bound [of q] b unfolding vp by (elim disjE; simp; linarith?; arith?)
    have w: "of_nat (varint_val q) OR push_bit (7 * ?k) (of_nat (unat b mod 128)) = (of_nat (varint_val p) :: 32 word)"
    proof -
      have e: "(128 :: nat) ^ ?k = 2 ^ (7 * ?k)" by (simp add: power_mult)
      then have "varint_val p = push_bit (7 * ?k) (unat b) OR varint_val q"
        using nat_push_or [of "varint_val q" "7 * ?k" "unat b"] varint_val_bound [of q] by (simp add: vp)
      then have "(of_nat (varint_val p) :: 32 word) = push_bit (7 * ?k) (of_nat (unat b)) OR of_nat (varint_val q)"
        by (simp only: of_nat_or_eq of_nat_push_bit)
      then show ?thesis using b by (simp only: or.commute mod_less)
    qed
    have d: "pb_decode_varint32 s = varint32_loop (of_nat (varint_val q)) (of_nat (7 * ?k)) ?s"
      unfolding pb_decode_varint32_def pb_decode_varint32_eof_def r prod.case option.case if_not_P [OF c] l
      by (simp split: prod.splits)
    have e: "advance 1 ?s = advance (length p) s" using p by (simp add: stream_simps)
    show ?thesis unfolding d big loop32_last [OF b v2 k(1)] w e by simp
  qed
qed

end
