(* ===== verification/PbCodec.thy ===== *)
theory PbCodec
  imports PbWire
begin

text \<open>
  The encoders of \<open>nanopb/pb_encode.c\<close> against the wire format, and the decoders of \<open>nanopb/pb_decode.c\<close> as
  their inverses. An operation on an output stream is a \<open>pb_writer\<close> of a byte string: it appends exactly
  that string, or counts it on a sizing stream, or fails when the stream has no room for it.
\<close>

section \<open>Writers\<close>

definition room :: "ostream \<Rightarrow> nat \<Rightarrow> bool" where
  "room s n \<longleftrightarrow> sink s = None \<or> n = 0 \<or> bytes_written s + n \<le> max_size s"

definition written :: "bytes \<Rightarrow> ostream \<Rightarrow> ostream" where
  "written out s = s\<lparr>sink := map_option (\<lambda>xs. xs @ out) (sink s), bytes_written := bytes_written s + length out\<rparr>"

lemma written_written: "written y (written x s) = written (x @ y) s"
  by (cases "sink s") (simp_all add: written_def)

lemma written_simps [simp]:
  "sink (written x s) = map_option (\<lambda>xs. xs @ x) (sink s)" "bytes_written (written x s) = bytes_written s + length x"
  "max_size (written x s) = max_size s"
  by (simp_all add: written_def)

locale pb_writer =
  fixes wr :: "ostream \<Rightarrow> bool \<times> ostream" and out :: bytes
  assumes writes: "bytes_written s + length out < SIZE_MOD \<Longrightarrow> room s (length out) \<Longrightarrow> wr s = (True, written out s)"
    and refuses: "bytes_written s + length out < SIZE_MOD \<Longrightarrow> \<not> room s (length out) \<Longrightarrow> \<not> fst (wr s)"
begin

lemma sizing: "length out < SIZE_MOD \<Longrightarrow> wr PB_OSTREAM_SIZING = (True, written out PB_OSTREAM_SIZING)"
  by (rule writes) (simp_all add: PB_OSTREAM_SIZING_def room_def)

lemma to_buffer:
  "length out < SIZE_MOD \<Longrightarrow> fst (wr (pb_ostream_from_buffer n)) \<longleftrightarrow> length out \<le> n"
  using writes [of "pb_ostream_from_buffer n"] refuses [of "pb_ostream_from_buffer n"]
  by (cases "out = []"; cases "length out \<le> n") (auto simp: pb_ostream_from_buffer_def room_def)

lemma to_buffer_bytes:
  "length out < SIZE_MOD \<Longrightarrow> length out \<le> n \<Longrightarrow>
     wr (pb_ostream_from_buffer n) = (True, written out (pb_ostream_from_buffer n))"
  by (rule writes) (simp_all add: pb_ostream_from_buffer_def room_def)

end

text \<open>The bytes a writer leaves in a buffer that is large enough.\<close>

definition encoding_of :: "(ostream \<Rightarrow> bool \<times> ostream) \<Rightarrow> nat \<Rightarrow> bytes option" where
  "encoding_of wr n = (case wr (pb_ostream_from_buffer n) of (True, s) \<Rightarrow> sink s | (False, s) \<Rightarrow> None)"

lemma encoding_of_writer:
  "pb_writer wr out \<Longrightarrow> length out < SIZE_MOD \<Longrightarrow> encoding_of wr n = (if length out \<le> n then Some out else None)"
  using pb_writer.to_buffer_bytes [of wr out n] pb_writer.to_buffer [of wr out n]
  by (auto simp: encoding_of_def pb_ostream_from_buffer_def split: prod.splits bool.splits)

lemma writer_write: "pb_writer (\<lambda>s. pb_write s out) out"
  by unfold_locales (auto simp: pb_write_def room_def written_def Let_def split: option.splits)

lemma writer_seq:
  assumes "pb_writer f x" "pb_writer g y"
  shows "pb_writer (\<lambda>s. case f s of (False, s) \<Rightarrow> (False, s) | (True, s) \<Rightarrow> g s) (x @ y)"
proof
  fix s :: ostream
  assume l: "bytes_written s + length (x @ y) < SIZE_MOD"
  have lx: "bytes_written s + length x < SIZE_MOD" and ly: "bytes_written (written x s) + length y < SIZE_MOD"
    using l by simp_all
  show "(case f s of (False, s) \<Rightarrow> (False, s) | (True, s) \<Rightarrow> g s) = (True, written (x @ y) s)" if r: "room s (length (x @ y))"
  proof -
    have "room s (length x)" "room (written x s) (length y)" using r by (auto simp: room_def)
    then show ?thesis using pb_writer.writes [OF assms(1) lx] pb_writer.writes [OF assms(2) ly] by (simp add: written_written)
  qed
  show "\<not> fst (case f s of (False, s) \<Rightarrow> (False, s) | (True, s) \<Rightarrow> g s)" if r: "\<not> room s (length (x @ y))"
  proof (cases "room s (length x)")
    case True
    then have "\<not> room (written x s) (length y)" using r by (auto simp: room_def)
    then show ?thesis using pb_writer.writes [OF assms(1) lx True] pb_writer.refuses [OF assms(2) ly] by simp
  next
    case False
    then show ?thesis using pb_writer.refuses [OF assms(1) lx] by (cases "f s") auto
  qed
qed

section \<open>Varints\<close>

lemma unat_drop_bit_div: "unat (drop_bit n (v :: 'a :: len word)) = unat v div 2 ^ n"
  unfolding unat_drop_bit_eq drop_bit_eq_div [where 'a = nat] ..

lemma high_group: "ucast ((v AND 0x7F) OR 0x80 :: 64 word) = (of_nat (unat v mod 128 + 128) :: byte)"
proof -
  have "ucast ((v AND 0x7F) OR 0x80 :: 64 word) = (ucast (v AND 0x7F) OR 0x80 :: byte)"
    by (rule bit_eqI) (auto simp: bit_simps)
  moreover have "ucast (v AND 0x7F) = (of_nat (unat v mod 128) :: byte)"
  proof -
    have "unat (v AND 0x7F) = unat v mod 128" using nat_and_mask [of "unat v" 7] by (simp add: unsigned_and_eq)
    then show ?thesis by (metis of_nat_unat)
  qed
  moreover have "of_nat (unat v mod 128) OR 0x80 = (of_nat (unat v mod 128 + 128) :: byte)"
    by (rule or_high_bit) simp
  ultimately show ?thesis by simp
qed

lemma clear_high_bit: "m < 128 \<Longrightarrow> of_nat (m + 128) AND 0x7F = (of_nat m :: byte)"
  by (simp add: word_unat_eq_iff unat_of_nat_byte del: of_nat_add)

lemma varint_buffer_fixed:
  "v \<noteq> 0 \<Longrightarrow> varint_buffer v \<noteq> [] \<and>
     (varint_buffer v)[length (varint_buffer v) - 1 := varint_buffer v ! (length (varint_buffer v) - 1) AND 0x7F]
       = varint_bytes (unat v)"
proof (induction v rule: varint_buffer.induct)
  case (1 v)
  have u: "unat (drop_bit 7 v) = unat v div 128" using unat_drop_bit_div [of 7 v] by simp
  have b: "varint_buffer v = of_nat (unat v mod 128 + 128) # varint_buffer (drop_bit 7 v)"
    using 1(2) high_group [of v] by (subst varint_buffer.simps) simp
  show ?case
  proof (cases "drop_bit 7 v = 0")
    case True
    then have n: "unat v < 128" using drop_bit_zero_iff [of 7 v] by simp
    have "of_nat (unat v + 128) AND 0x7F = (of_nat (unat v) :: byte)" using n by (rule clear_high_bit)
    then show ?thesis using b True n by (simp add: varint_buffer.simps [of 0] varint_bytes.simps)
  next
    case False
    then have "varint_bytes (unat v) = of_nat (unat v mod 128 + 128) # varint_bytes (unat v div 128)"
      using drop_bit_zero_iff [of 7 v] by (subst varint_bytes.simps) simp
    then show ?thesis using 1(1) [OF 1(2) False] b u by (cases "varint_buffer (drop_bit 7 v)") auto
  qed
qed

lemma writer_varint: "pb_writer (\<lambda>s. pb_encode_varint s v) (varint_bytes (unat v))"
proof (cases "v \<le> 0x7F")
  case True
  then have "varint_bytes (unat v) = [ucast v]" by (subst varint_bytes.simps) (simp add: word_le_nat_alt)
  then show ?thesis using writer_write [of "[ucast v]"] True by (simp add: pb_encode_varint_def)
next
  case False
  then have "v \<noteq> 0" by auto
  then show ?thesis using False varint_buffer_fixed [of v] writer_write [of "varint_bytes (unat v)"]
    by (simp add: pb_encode_varint_def Let_def)
qed

end
