(* ===== verification/PbReaders.thy ===== *)
theory PbReaders
  imports PbCodec
begin

text \<open>
  The decoders of \<open>nanopb/pb_decode.c\<close> as inverses of the encoders of \<open>nanopb/pb_encode.c\<close>. A decoder is a
  \<open>stream_codec\<close> of an encoding when it reads the encoding wherever it stands in a stream and leaves
  the stream behind it; this makes it a \<open>codec\<close> on plain bytes, with the consequences proved there.
  Skipping a field moves the stream over exactly the payload of the field.
\<close>

section \<open>Readers on streams\<close>

definition pb_run :: "(istream \<Rightarrow> 'a option \<times> istream) \<Rightarrow> bytes \<Rightarrow> 'a option \<times> bytes" where
  "pb_run rd bs = (case rd (pb_istream_from_buffer bs (length bs)) of (r, s) \<Rightarrow> (r, visible s))"

locale stream_codec =
  fixes enc :: "'a \<Rightarrow> bytes"
    and dec :: "istream \<Rightarrow> 'a option \<times> istream"
    and valid :: "'a \<Rightarrow> bool"
  assumes reads: "valid x \<Longrightarrow> wf_istream s \<Longrightarrow> visible s = enc x @ r \<Longrightarrow> dec s = (Some x, advance (length (enc x)) s)"
begin

lemma reads_visible:
  "valid x \<Longrightarrow> wf_istream s \<Longrightarrow> visible s = enc x @ r \<Longrightarrow> visible (snd (dec s)) = r \<and> wf_istream (snd (dec s))"
  by (simp add: reads stream_simps)

end

sublocale stream_codec \<subseteq> codec enc "pb_run dec" valid
proof
  fix x rest
  assume "valid x"
  then show "pb_run dec (enc x @ rest) = (Some x, rest)"
    using reads [OF _ from_buffer, of x rest] from_buffer(2) [of "enc x @ rest"] by (simp add: pb_run_def stream_simps)
qed

lemma unat_width_64: "unat (v :: 64 word) < 2 ^ 64"
  using unsigned_less [of v] by simp

lemma unat_width_32: "unat (v :: 32 word) < 2 ^ 32"
  using unsigned_less [of v] by simp

interpretation pb_varint: stream_codec "\<lambda>v. varint_bytes (unat v)" pb_decode_varint "\<lambda>_. True"
proof
  fix v :: "64 word" and s r
  assume a: "wf_istream s" "visible s = varint_bytes (unat v) @ r"
  have "length (varint_bytes (unat v)) \<le> 10"
    using length_varint_bytes [of "unat v" 9] unat_width_64 [of v] by simp
  then show "pb_decode_varint s = (Some v, advance (length (varint_bytes (unat v))) s)"
    unfolding decode_varint_exact [OF a(1)] using a(2) varint_bytes_ok [of "unat v"]
    by (intro exI [of _ "varint_bytes (unat v)"] exI [of _ r]) simp
qed

interpretation pb_varint32: stream_codec "\<lambda>v. varint_bytes (unat v)" pb_decode_varint32 "\<lambda>_. True"
proof
  fix v :: "32 word" and s r
  assume a: "wf_istream s" "visible s = varint_bytes (unat v) @ r"
  have l: "unat v < 2 ^ 32" by (rule unat_width_32)
  then have "length (varint_bytes (unat v)) \<le> 5" using length_varint_bytes [of "unat v" 4] by simp
  then show "pb_decode_varint32 s = (Some v, advance (length (varint_bytes (unat v))) s)"
    using varint32_short [OF _ a] varint_bytes_ok [of "unat v"] l by simp
qed

definition zigzag :: "64 word \<Rightarrow> 64 word" where
  "zigzag v = (if sint v < 0 then NOT (push_bit 1 v) else push_bit 1 v)"

lemma unzigzag: "(if zigzag v AND 1 \<noteq> 0 then NOT (drop_bit 1 (zigzag v)) else drop_bit 1 (zigzag v)) = v"
proof -
  have s: "sint v < 0 \<longleftrightarrow> bit v 63" using bit_last_iff [of v] by simp
  obtain w where w: "w = push_bit 1 v" by blast
  have b: "bit w n \<longleftrightarrow> 0 < n \<and> n < 64 \<and> bit v (n - 1)" for n unfolding w bit_push_bit_iff by auto
  have z: "zigzag v = (if bit v 63 then NOT w else w)" by (simp add: zigzag_def s w)
  have o: "zigzag v AND 1 \<noteq> 0 \<longleftrightarrow> bit v 63"
    using and_exp_eq_0_iff_not_bit [of "zigzag v" 0] by (simp add: z b bit_not_iff)
  show ?thesis
    unfolding o
  proof (rule bit_eqI)
    fix n
    assume "possible_bit TYPE(64 word) n"
    then show "bit (if bit v 63 then NOT (drop_bit 1 (zigzag v)) else drop_bit 1 (zigzag v)) n = bit v n"
      by (cases "n = 63") (auto simp: z b bit_simps)
  qed
qed

lemma writer_svarint: "pb_writer (\<lambda>s. pb_encode_svarint s v) (varint_bytes (unat (zigzag v)))"
  using writer_varint [of "zigzag v"] by (simp add: pb_encode_svarint_def zigzag_def)

interpretation pb_svarint: stream_codec "\<lambda>v. varint_bytes (unat (zigzag v))" pb_decode_svarint "\<lambda>_. True"
proof
  fix v s r
  assume "wf_istream s" "visible s = varint_bytes (unat (zigzag v)) @ r"
  then show "pb_decode_svarint s = (Some v, advance (length (varint_bytes (unat (zigzag v)))) s)"
    using pb_varint.reads [where x = "zigzag v" and s = s and r = r] unzigzag [of v] by (simp add: pb_decode_svarint_def)
qed

definition fixed32_bytes :: "32 word \<Rightarrow> bytes" where
  "fixed32_bytes v = [ucast v, ucast (drop_bit 8 v), ucast (drop_bit 16 v), ucast (drop_bit 24 v)]"

definition fixed64_bytes :: "64 word \<Rightarrow> bytes" where
  "fixed64_bytes v = [ucast v, ucast (drop_bit 8 v), ucast (drop_bit 16 v), ucast (drop_bit 24 v),
     ucast (drop_bit 32 v), ucast (drop_bit 40 v), ucast (drop_bit 48 v), ucast (drop_bit 56 v)]"

lemma ucast_and_ff: "ucast (v AND 0xFF :: 'a :: len word) = (ucast v :: byte)"
proof -
  have "(0xFF :: 'a word) = mask 8" by (simp add: mask_eq_exp_minus_1)
  then have "ucast (v AND 0xFF) = (ucast (v AND mask 8) :: byte)" by simp
  also have "\<dots> = ucast v" by (rule bit_eqI) (auto simp: bit_simps bit_imp_le_length)
  finally show ?thesis .
qed

lemma writer_fixed: "pb_writer (\<lambda>s. pb_encode_fixed32 s v) (fixed32_bytes v)" "pb_writer (\<lambda>s. pb_encode_fixed64 s w) (fixed64_bytes w)"
  using writer_write [of "fixed32_bytes v"] writer_write [of "fixed64_bytes w"]
  by (simp_all only: pb_encode_fixed32_def pb_encode_fixed64_def fixed32_bytes_def fixed64_bytes_def ucast_and_ff)

lemma join_next_byte:
  "take_bit k v OR push_bit k (ucast (ucast (drop_bit k v) :: byte)) = (take_bit (k + 8) v :: 'a :: len word)"
proof (rule bit_eqI)
  fix n
  assume "possible_bit TYPE('a word) n"
  then show "bit (take_bit k v OR push_bit k (ucast (ucast (drop_bit k v) :: byte))) n = bit (take_bit (k + 8) v) n"
    by (cases "n < k"; cases "n < k + 8") (auto simp: bit_simps)
qed

lemma first_byte: "push_bit 0 (ucast (ucast v :: byte)) = (take_bit 8 v :: 'a :: len word)"
  using join_next_byte [of 0 v] by simp

lemma take_bit_32 [simp]: "take_bit 32 v = (v :: 32 word)"
  by (rule bit_eqI) (auto simp: bit_simps)

lemma join_bytes:
  "take_bit 8 v OR push_bit 8 (ucast (ucast (drop_bit 8 v) :: byte)) OR x = take_bit 16 v OR x"
  "take_bit 16 v OR push_bit 16 (ucast (ucast (drop_bit 16 v) :: byte)) OR x = take_bit 24 v OR x"
  "take_bit 32 v OR push_bit 32 (ucast (ucast (drop_bit 32 v) :: byte)) OR x = take_bit 40 v OR x"
  "take_bit 24 v OR push_bit 24 (ucast (ucast (drop_bit 24 v) :: byte)) OR x = take_bit 32 v OR x"
  "take_bit 40 v OR push_bit 40 (ucast (ucast (drop_bit 40 v) :: byte)) OR x = take_bit 48 v OR x"
  "take_bit 48 v OR push_bit 48 (ucast (ucast (drop_bit 48 v) :: byte)) OR x = take_bit 56 v OR (x :: 'a :: len word)"
  unfolding or.assoc [symmetric]
  using join_next_byte [of 8 v] join_next_byte [of 16 v] join_next_byte [of 24 v] join_next_byte [of 32 v] join_next_byte [of 40 v] join_next_byte [of 48 v]
  by simp_all

lemma join_fixed32:
  "push_bit 0 (ucast (ucast v :: byte)) OR push_bit 8 (ucast (ucast (drop_bit 8 v) :: byte)) OR push_bit 16 (ucast (ucast (drop_bit 16 v) :: byte))
     OR push_bit 24 (ucast (ucast (drop_bit 24 v) :: byte)) = (v :: 32 word)"
  unfolding first_byte join_bytes using join_next_byte [of 24 v] by simp

lemma join_fixed64:
  "push_bit 0 (ucast (ucast v :: byte)) OR push_bit 8 (ucast (ucast (drop_bit 8 v) :: byte)) OR push_bit 16 (ucast (ucast (drop_bit 16 v) :: byte))
     OR push_bit 24 (ucast (ucast (drop_bit 24 v) :: byte)) OR push_bit 32 (ucast (ucast (drop_bit 32 v) :: byte))
     OR push_bit 40 (ucast (ucast (drop_bit 40 v) :: byte)) OR push_bit 48 (ucast (ucast (drop_bit 48 v) :: byte))
     OR push_bit 56 (ucast (ucast (drop_bit 56 v) :: byte)) = (v :: 64 word)"
  unfolding first_byte join_bytes using join_next_byte [of 56 v] by simp

interpretation pb_fixed32: stream_codec fixed32_bytes pb_decode_fixed32 "\<lambda>_. True"
proof
  fix v s r
  assume "wf_istream s" "visible s = fixed32_bytes v @ r"
  then show "pb_decode_fixed32 s = (Some v, advance (length (fixed32_bytes v)) s)"
    using join_fixed32 [of v] by (simp add: pb_decode_fixed32_def read_visible fixed32_bytes_def eval_nat_numeral)
qed

interpretation pb_fixed64: stream_codec fixed64_bytes pb_decode_fixed64 "\<lambda>_. True"
proof
  fix v s r
  assume "wf_istream s" "visible s = fixed64_bytes v @ r"
  then show "pb_decode_fixed64 s = (Some v, advance (length (fixed64_bytes v)) s)"
    using join_fixed64 [of v] by (simp add: pb_decode_fixed64_def read_visible fixed64_bytes_def eval_nat_numeral)
qed

section \<open>Tags, strings and skipped fields\<close>

definition tag_word :: "32 word \<times> 32 word \<Rightarrow> 64 word" where
  "tag_word tw = push_bit 3 (ucast (fst tw)) OR ucast (snd tw)"

definition valid_tag :: "32 word \<times> 32 word \<Rightarrow> bool" where
  "valid_tag tw \<longleftrightarrow> 0 < fst tw \<and> unat (fst tw) < 2 ^ 29 \<and> unat (snd tw) < 8"

lemma writer_pb_tag: "pb_writer (\<lambda>s. pb_encode_tag s (snd tw) (fst tw)) (varint_bytes (unat (tag_word tw)))"
  using writer_varint [of "tag_word tw"] by (simp add: pb_encode_tag_def tag_word_def)

lemma unat_tag_word: "valid_tag tw \<Longrightarrow> unat (tag_word tw) = unat (fst tw) * 8 + unat (snd tw)"
  unfolding tag_word_def valid_tag_def by (subst unat_push_or) (simp_all add: unat_ucast_up)

lemma split_tag:
  assumes "valid_tag (t, w)"
  shows "drop_bit 3 (of_nat (unat t * 8 + unat w) :: 32 word) = t" "of_nat (unat t * 8 + unat w) AND 7 = w"
    "of_nat (unat t * 8 + unat w) \<noteq> (0 :: 32 word)"
proof -
  have "t \<noteq> 0" using assms by (simp add: valid_tag_def word_gt_0)
  then have b: "unat t < 2 ^ 29" "unat w < 8" "0 < unat t" using assms by (simp_all add: valid_tag_def unat_gt_0)
  let ?n = "of_nat (unat t * 8 + unat w) :: 32 word"
  have u: "unat ?n = unat t * 8 + unat w" using b by (simp add: unsigned_of_nat take_bit_nat_eq_self del: of_nat_add)
  have "unat (drop_bit 3 ?n) = unat t" using b unfolding unat_drop_bit_div u by simp
  then show "drop_bit 3 ?n = t" by (simp only: word_unat_eq_iff)
  have "unat (?n AND 7) = unat w" using b nat_and_mask [of "unat t * 8 + unat w" 3] unfolding unsigned_and_eq u by simp
  then show "?n AND 7 = w" by (simp only: word_unat_eq_iff)
  show "?n \<noteq> 0" using u b by auto
qed

interpretation pb_tag: stream_codec "\<lambda>tw. varint_bytes (unat (tag_word tw))"
  "\<lambda>s. case pb_decode_tag s of (r, eof, s) \<Rightarrow> (r, s)" valid_tag
proof
  fix tw s r
  assume a: "valid_tag tw" "wf_istream s" "visible s = varint_bytes (unat (tag_word tw)) @ r"
  obtain t w where tw: "tw = (t, w)" by (cases tw)
  let ?n = "of_nat (unat t * 8 + unat w) :: 32 word"
  have b: "unat t * 8 + unat w < 2 ^ 32" using a(1) tw by (simp add: valid_tag_def)
  then have e: "unat (tag_word tw) = unat ?n" using unat_tag_word [OF a(1)] tw
    by (simp add: unsigned_of_nat take_bit_nat_eq_self del: of_nat_add)
  have "pb_decode_varint32 s = (Some ?n, advance (length (varint_bytes (unat ?n))) s)"
    using pb_varint32.reads [where x = ?n and s = s and r = r] a(2,3) e by simp
  then obtain eof where d: "pb_decode_varint32_eof s = (Some ?n, eof, advance (length (varint_bytes (unat ?n))) s)"
    by (auto simp: pb_decode_varint32_def split: prod.splits)
  show "(case pb_decode_tag s of (r, eof, s) \<Rightarrow> (r, s)) = (Some tw, advance (length (varint_bytes (unat (tag_word tw)))) s)"
    using split_tag [OF a(1) [unfolded tw]] unfolding e by (simp add: pb_decode_tag_def d tw)
qed

definition string_bytes :: "bytes \<Rightarrow> bytes" where
  "string_bytes p = varint_bytes (length p) @ p"

lemma writer_string:
  assumes "length p < SIZE_MOD"
  shows "pb_writer (\<lambda>s. pb_encode_string s p) (string_bytes p)"
proof -
  have "unat (of_nat (length p) :: 64 word) = length p"
    using assms by (simp add: unsigned_of_nat take_bit_nat_eq_self)
  then show ?thesis
    using writer_seq [OF writer_varint [of "of_nat (length p)"] writer_write [of p]]
    by (simp add: pb_encode_string_def string_bytes_def)
qed

lemma read_length:
  assumes "wf_istream s" "visible s = varint_bytes n @ r" "n < 2 ^ 32"
  shows "pb_decode_varint32 s = (Some (of_nat n), advance (length (varint_bytes n)) s)" "unat (of_nat n :: 32 word) = n"
proof -
  show u: "unat (of_nat n :: 32 word) = n" using assms(3) by (simp add: unsigned_of_nat take_bit_nat_eq_self)
  show "pb_decode_varint32 s = (Some (of_nat n), advance (length (varint_bytes n)) s)"
    using pb_varint32.reads [where x = "of_nat n" and s = s and r = r] assms u by simp
qed

text \<open>The substream of a string sees exactly the string, and closing it moves the parent behind it, however
  much of it has been read.\<close>

lemma make_substream:
  assumes "wf_istream s" "visible s = string_bytes p @ r" "length p < 2 ^ 32"
  obtains sub s' where "pb_make_string_substream s = (Some sub, s')" "wf_istream sub" "visible sub = p"
    "\<And>k. k \<le> length p \<Longrightarrow> pb_close_string_substream s' (advance k sub) = (True, advance (length (string_bytes p)) s)"
proof -
  let ?n = "length (varint_bytes (length p))" and ?s1 = "advance (length (varint_bytes (length p))) s"
  have v: "wf_istream ?s1" "visible ?s1 = p @ r" using assms(1,2) by (simp_all add: stream_simps string_bytes_def)
  note d = read_length [OF assms(1) _ assms(3), of "p @ r"]
  have left: "length p \<le> bytes_left ?s1" using length_visible [OF v(1)] v(2) by simp
  let ?sub = "?s1\<lparr>bytes_left := length p\<rparr>" and ?s' = "?s1\<lparr>bytes_left := bytes_left ?s1 - length p\<rparr>"
  have "pb_make_string_substream s = (Some ?sub, ?s')"
    using d assms(2) left by (simp add: pb_make_string_substream_def string_bytes_def)
  moreover have wf: "wf_istream ?sub" using v(1) left by (simp add: wf_istream_def)
  moreover have vis: "visible ?sub = p" 
  proof -
    have "visible ?sub = take (length p) (visible ?s1)" using left by (simp add: visible_def min_absorb1)
    then show ?thesis unfolding v(2) by simp
  qed
  moreover have "pb_close_string_substream ?s' (advance k ?sub) = (True, advance (length (string_bytes p)) s)" if k: "k \<le> length p" for k
  proof -
    have w: "wf_istream (advance k ?sub)" "length (visible (advance k ?sub)) = length p - k" "bytes_left (advance k ?sub) = length p - k"
      using wf vis by (simp_all add: stream_simps) (simp add: advance_def)
    then show ?thesis
      using k read_visible [OF w(1), of "length p - k"]
      by (simp add: pb_close_string_substream_def pb_skip_def stream_simps)
        (cases s, simp add: advance_def string_bytes_def add.commute)
  qed
  ultimately show ?thesis by (rule that)
qed

definition field_payload :: "32 word \<Rightarrow> bytes \<Rightarrow> bool" where
  "field_payload w p \<longleftrightarrow>
     (if w = PB_WT_VARINT then is_varint p
      else if w = PB_WT_64BIT then length p = 8
      else if w = PB_WT_STRING then (\<exists>q. p = string_bytes q \<and> length q < 2 ^ 32)
      else w = PB_WT_32BIT \<and> length p = 4)"

lemma skip_visible: "wf_istream s \<Longrightarrow> n \<le> length (visible s) \<Longrightarrow> pb_skip s n = (True, advance n s)"
  by (simp add: pb_skip_def read_visible)

lemma skip_varint: "is_varint p \<Longrightarrow> wf_istream s \<Longrightarrow> visible s = p @ r \<Longrightarrow> pb_skip_varint s = (True, advance (length p) s)"
proof (induction p arbitrary: s)
  case (Cons b p)
  have r: "pb_read s 1 = (Some [b], advance 1 s)" using read_visible [OF Cons.prems(2), of 1] Cons.prems(3) by simp
  have v: "wf_istream (advance 1 s)" "visible (advance 1 s) = p @ r" using Cons.prems by (simp_all add: stream_simps)
  show ?case
    using Cons.prems(1) Cons.IH [OF _ v] r
    by (subst pb_skip_varint.simps) (auto simp: is_varint_Cons high_bit_iff stream_simps split: if_splits)
qed simp

lemma skip_field:
  assumes "field_payload w p" "wf_istream s" "visible s = p @ r"
  shows "pb_skip_field s w = (True, advance (length p) s)"
proof (cases "w = PB_WT_STRING")
  case True
  then obtain q where q: "p = string_bytes q" "length q < 2 ^ 32" using assms(1) by (auto simp: field_payload_def)
  have v: "wf_istream (advance (length (varint_bytes (length q))) s)" "visible (advance (length (varint_bytes (length q))) s) = q @ r"
    using assms q by (simp_all add: stream_simps string_bytes_def)
  show ?thesis
    using read_length [OF assms(2) _ q(2), of "q @ r"] skip_visible [OF v(1), of "length q"] v(2) assms(3) q True
    by (simp add: pb_skip_field_def pb_skip_string_def string_bytes_def stream_simps)
next
  case False
  then show ?thesis
    using assms skip_varint [OF _ assms(2,3)] skip_visible [OF assms(2), of "length p"]
    by (auto simp: field_payload_def pb_skip_field_def split: if_splits)
qed

section \<open>Every encoder is a writer\<close>

interpretation write_writer: pb_writer "\<lambda>s. pb_write s out" out
  by (rule writer_write)

interpretation varint_writer: pb_writer "\<lambda>s. pb_encode_varint s v" "varint_bytes (unat v)"
  by (rule writer_varint)

interpretation svarint_writer: pb_writer "\<lambda>s. pb_encode_svarint s v" "varint_bytes (unat (zigzag v))"
  by (rule writer_svarint)

interpretation tag_writer: pb_writer "\<lambda>s. pb_encode_tag s (snd tw) (fst tw)" "varint_bytes (unat (tag_word tw))"
  by (rule writer_pb_tag)

lemma length_varint_64: "length (varint_bytes (unat (v :: 64 word))) \<le> 10"
  using length_varint_bytes [of "unat v" 9] unat_width_64 [of v] by simp

lemma length_string_bytes: "length p < 2 ^ 32 \<Longrightarrow> length (string_bytes p) < SIZE_MOD"
  using length_varint_bytes [of "length p" 4] by (simp add: string_bytes_def)

end
