(* ===== verification/PbFields.thy ===== *)
theory PbFields
  imports PbReaders
begin

text \<open>
  The field decoders and encoders of nanopb (\<open>pb_dec_*\<close> of \<open>pb_decode.c\<close>, \<open>pb_enc_*\<close> of \<open>pb_encode.c\<close>) and the
  field descriptions of \<open>pb.h\<close>. The object a field is decoded into or encoded from is its bytes in memory,
  little-endian; for a field of the pointer kind, \<open>None\<close> is the NULL pointer and \<open>Some\<close> the block it points to.
  The build has \<open>PB_FIELD_32BIT\<close> and \<open>PB_ENABLE_MALLOC\<close>, so \<open>pb_size_t\<close> has 32 bits and the \<open>bytes\<close>
  member of \<open>pb_bytes_array_t\<close> is at offset 4. \<open>pb_realloc\<close> is a parameter.
\<close>

section \<open>Field descriptions\<close>

text \<open>\<open>ptr\<close> is the address of the fields of a submessage or of a default value, 0 for NULL.\<close>

record pb_field =
  tag :: "32 word"
  ftype :: byte
  data_offset :: nat
  size_offset :: int
  data_size :: nat
  array_size :: nat
  ptr :: int

abbreviation (input) PB_LTYPE_BOOL :: byte where "PB_LTYPE_BOOL \<equiv> 0x00"
abbreviation (input) PB_LTYPE_VARINT :: byte where "PB_LTYPE_VARINT \<equiv> 0x01"
abbreviation (input) PB_LTYPE_FIXED32 :: byte where "PB_LTYPE_FIXED32 \<equiv> 0x04"
abbreviation (input) PB_LTYPE_FIXED64 :: byte where "PB_LTYPE_FIXED64 \<equiv> 0x05"
abbreviation (input) PB_LTYPE_LAST_PACKABLE :: byte where "PB_LTYPE_LAST_PACKABLE \<equiv> 0x05"
abbreviation (input) PB_LTYPE_BYTES :: byte where "PB_LTYPE_BYTES \<equiv> 0x06"
abbreviation (input) PB_LTYPE_STRING :: byte where "PB_LTYPE_STRING \<equiv> 0x07"
abbreviation (input) PB_LTYPE_SUBMESSAGE :: byte where "PB_LTYPE_SUBMESSAGE \<equiv> 0x08"
abbreviation (input) PB_LTYPE_EXTENSION :: byte where "PB_LTYPE_EXTENSION \<equiv> 0x09"
abbreviation (input) PB_HTYPE_REQUIRED :: byte where "PB_HTYPE_REQUIRED \<equiv> 0x00"
abbreviation (input) PB_LTYPE_FIXED_LENGTH_BYTES :: byte where "PB_LTYPE_FIXED_LENGTH_BYTES \<equiv> 0x0A"
abbreviation (input) PB_HTYPE_OPTIONAL :: byte where "PB_HTYPE_OPTIONAL \<equiv> 0x10"
abbreviation (input) PB_HTYPE_REPEATED :: byte where "PB_HTYPE_REPEATED \<equiv> 0x20"
abbreviation (input) PB_HTYPE_ONEOF :: byte where "PB_HTYPE_ONEOF \<equiv> 0x30"
abbreviation (input) PB_ATYPE_STATIC :: byte where "PB_ATYPE_STATIC \<equiv> 0x00"
abbreviation (input) PB_ATYPE_POINTER :: byte where "PB_ATYPE_POINTER \<equiv> 0x80"
abbreviation (input) PB_ATYPE_CALLBACK :: byte where "PB_ATYPE_CALLBACK \<equiv> 0x40"
abbreviation (input) PB_SIZE_MAX :: nat where "PB_SIZE_MAX \<equiv> 4294967295"
abbreviation (input) bytes_offset :: nat where "bytes_offset \<equiv> 4"

definition PB_ATYPE :: "byte \<Rightarrow> byte" where
  "PB_ATYPE x = x AND 0xC0"

definition PB_HTYPE :: "byte \<Rightarrow> byte" where
  "PB_HTYPE x = x AND 0x30"

definition PB_LTYPE :: "byte \<Rightarrow> byte" where
  "PB_LTYPE x = x AND 0x0F"

definition PB_BYTES_ARRAY_T_ALLOCSIZE :: "nat \<Rightarrow> nat" where
  "PB_BYTES_ARRAY_T_ALLOCSIZE n = szadd n bytes_offset"

section \<open>Objects in memory\<close>

definition le_bytes :: "nat \<Rightarrow> 64 word \<Rightarrow> bytes" where
  "le_bytes n v = rev (be_bytes n v)"

definition le_val :: "bytes \<Rightarrow> 64 word" where
  "le_val bs = be_val (rev bs)"

text \<open>The \<open>n\<close>-byte integer stored at an object, read as unsigned and as signed, and stored.\<close>

definition sext :: "nat \<Rightarrow> 64 word \<Rightarrow> 64 word" where
  "sext n v = signed_take_bit (8 * n - 1) v"

definition load :: "nat \<Rightarrow> bytes \<Rightarrow> 64 word" where
  "load n mem = le_val (take n mem)"

definition store :: "nat \<Rightarrow> 64 word \<Rightarrow> bytes \<Rightarrow> bytes" where
  "store n v mem = le_bytes n v @ drop n mem"

definition overwrite :: "nat \<Rightarrow> bytes \<Rightarrow> bytes \<Rightarrow> bytes" where
  "overwrite k bs mem = take k mem @ bs @ drop (k + length bs) mem"

lemma length_le_bytes [simp]: "length (le_bytes n v) = n"
  by (simp add: le_bytes_def)

lemma le_bytes_load: "length mem = n \<Longrightarrow> n \<le> 8 \<Longrightarrow> le_bytes n (le_val mem) = mem"
  by (simp add: le_bytes_def le_val_def be_bytes_be_val')

lemma load_store: "load n (store n v mem) = take_bit (8 * n) v"
  by (simp add: load_def store_def le_val_def le_bytes_def be_val_be_bytes)

lemma store_load: "length mem = n \<Longrightarrow> n \<le> 8 \<Longrightarrow> store n (load n mem) mem = mem"
  by (simp add: store_def load_def le_bytes_load)

lemma le_bytes_sext: "0 < n \<Longrightarrow> n \<le> m \<Longrightarrow> le_bytes n (sext m v) = le_bytes n v"
proof -
  assume a: "0 < n" "n \<le> m"
  have "k = 8 * m - Suc 0" if "8 * m - Suc 0 \<le> k" "k < 8 * n" for k using that a by linarith
  then have "take_bit (8 * n) (sext m v) = take_bit (8 * n) v"
    by (intro bit_eqI) (auto simp: sext_def bit_simps min_def)
  then show ?thesis
    using be_bytes_take_bit [of n "8 * n" v] be_bytes_take_bit [of n "8 * n" "sext m v"] by (simp add: le_bytes_def)
qed

lemma sext_sext: "0 < n \<Longrightarrow> n \<le> m \<Longrightarrow> sext m (sext n v) = sext n v"
  by (cases "n = m"; rule bit_eqI) (auto simp: sext_def bit_simps min_def)

lemma sext_8: "sext 8 v = v"
proof (rule bit_eqI)
  fix k
  assume "possible_bit TYPE(64 word) k"
  then have "k < 64" by simp
  then have "min k 63 = k" by simp
  then show "bit (sext 8 v) k = bit v k" using \<open>k < 64\<close> by (simp add: sext_def bit_simps)
qed

section \<open>Decoders\<close>

definition pb_dec_bool :: "istream \<Rightarrow> pb_field \<Rightarrow> bytes \<Rightarrow> bool \<times> istream \<times> bytes" where
  "pb_dec_bool s field dest =
     (case pb_decode_varint32 s of
        (None, s) \<Rightarrow> (False, s, dest)
      | (Some value, s) \<Rightarrow> (True, s, store 1 (if value \<noteq> 0 then 1 else 0) dest))"

definition pb_dec_varint :: "istream \<Rightarrow> pb_field \<Rightarrow> bytes \<Rightarrow> bool \<times> istream \<times> bytes" where
  "pb_dec_varint s field dest =
     (case pb_decode_varint s of
        (None, s) \<Rightarrow> (False, s, dest)
      | (Some value, s) \<Rightarrow>
          (let svalue = (if data_size field = 8 then value else sext 4 value);
               n = data_size field
           in if n = 8 \<or> n = 4 \<or> n = 2 \<or> n = 1
              then (let dest = store n svalue dest
                    in if sext n svalue \<noteq> svalue then (False, PB_SET_ERROR s ''integer too large'', dest) else (True, s, dest))
              else (False, PB_SET_ERROR s ''invalid data_size'', dest)))"

definition pb_dec_uvarint :: "istream \<Rightarrow> pb_field \<Rightarrow> bytes \<Rightarrow> bool \<times> istream \<times> bytes" where
  "pb_dec_uvarint s field dest =
     (case pb_decode_varint s of
        (None, s) \<Rightarrow> (False, s, dest)
      | (Some value, s) \<Rightarrow>
          (let n = data_size field
           in if n = 8 \<or> n = 4 \<or> n = 2 \<or> n = 1
              then (let dest = store n value dest
                    in if take_bit (8 * n) value \<noteq> value then (False, PB_SET_ERROR s ''integer too large'', dest) else (True, s, dest))
              else (False, PB_SET_ERROR s ''invalid data_size'', dest)))"

definition pb_dec_svarint :: "istream \<Rightarrow> pb_field \<Rightarrow> bytes \<Rightarrow> bool \<times> istream \<times> bytes" where
  "pb_dec_svarint s field dest =
     (case pb_decode_svarint s of
        (None, s) \<Rightarrow> (False, s, dest)
      | (Some value, s) \<Rightarrow>
          (let n = data_size field
           in if n = 8 \<or> n = 4 \<or> n = 2 \<or> n = 1
              then (let dest = store n value dest
                    in if sext n value \<noteq> value then (False, PB_SET_ERROR s ''integer too large'', dest) else (True, s, dest))
              else (False, PB_SET_ERROR s ''invalid data_size'', dest)))"

definition pb_dec_fixed32 :: "istream \<Rightarrow> pb_field \<Rightarrow> bytes \<Rightarrow> bool \<times> istream \<times> bytes" where
  "pb_dec_fixed32 s field dest =
     (case pb_decode_fixed32 s of (None, s) \<Rightarrow> (False, s, dest) | (Some v, s) \<Rightarrow> (True, s, store 4 (ucast v) dest))"

definition pb_dec_fixed64 :: "istream \<Rightarrow> pb_field \<Rightarrow> bytes \<Rightarrow> bool \<times> istream \<times> bytes" where
  "pb_dec_fixed64 s field dest =
     (case pb_decode_fixed64 s of (None, s) \<Rightarrow> (False, s, dest) | (Some v, s) \<Rightarrow> (True, s, store 8 v dest))"

definition allocate_field :: "(bytes option \<Rightarrow> nat \<Rightarrow> bytes option) \<Rightarrow> istream \<Rightarrow> bytes option \<Rightarrow> nat \<Rightarrow> nat \<Rightarrow> bool \<times> istream \<times> bytes option" where
  "allocate_field pb_realloc s old n cnt =
     (if n = 0 \<or> cnt = 0 then (False, PB_SET_ERROR s ''invalid size'', old)
      else if (2 ^ 32 \<le> n \<or> 2 ^ 32 \<le> cnt) \<and> (SIZE_MOD - 1) div cnt < n then (False, PB_SET_ERROR s ''size too large'', old)
      else (case pb_realloc old (szmul cnt n) of
              None \<Rightarrow> (False, PB_SET_ERROR s ''realloc failed'', old)
            | Some block \<Rightarrow> (True, s, Some block)))"

definition pb_dec_bytes :: "(bytes option \<Rightarrow> nat \<Rightarrow> bytes option) \<Rightarrow> istream \<Rightarrow> pb_field \<Rightarrow> bytes option \<Rightarrow> bool \<times> istream \<times> bytes option" where
  "pb_dec_bytes pb_realloc s field dest =
     (case pb_decode_varint32 s of
        (None, s) \<Rightarrow> (False, s, dest)
      | (Some sz, s) \<Rightarrow>
          (let n = unat sz; alloc_size = PB_BYTES_ARRAY_T_ALLOCSIZE n
           in if PB_SIZE_MAX < n then (False, PB_SET_ERROR s ''bytes overflow'', dest)
              else if alloc_size < n then (False, PB_SET_ERROR s ''size too large'', dest)
              else (case (if PB_ATYPE (ftype field) = PB_ATYPE_POINTER
                          then (if bytes_left s < n then (False, PB_SET_ERROR s ''end-of-stream'', dest)
                                else allocate_field pb_realloc s dest alloc_size 1)
                          else if data_size field < alloc_size then (False, PB_SET_ERROR s ''bytes overflow'', dest)
                          else (True, s, dest)) of
                      (False, s, dest) \<Rightarrow> (False, s, dest)
                    | (True, s, dest) \<Rightarrow>
                        (let bdest = store 4 (ucast sz) (the dest)
                         in case pb_read s n of
                              (None, s) \<Rightarrow> (False, s, Some bdest)
                            | (Some bs, s) \<Rightarrow> (True, s, Some (overwrite bytes_offset bs bdest))))))"

definition pb_dec_string :: "(bytes option \<Rightarrow> nat \<Rightarrow> bytes option) \<Rightarrow> istream \<Rightarrow> pb_field \<Rightarrow> bytes option \<Rightarrow> bool \<times> istream \<times> bytes option" where
  "pb_dec_string pb_realloc s field dest =
     (case pb_decode_varint32 s of
        (None, s) \<Rightarrow> (False, s, dest)
      | (Some sz, s) \<Rightarrow>
          (let n = unat sz; alloc_size = unat (sz + 1)
           in if alloc_size < n then (False, PB_SET_ERROR s ''size too large'', dest)
              else (case (if PB_ATYPE (ftype field) = PB_ATYPE_POINTER
                          then (if bytes_left s < n then (False, PB_SET_ERROR s ''end-of-stream'', dest)
                                else allocate_field pb_realloc s dest alloc_size 1)
                          else if data_size field < alloc_size then (False, PB_SET_ERROR s ''string overflow'', dest)
                          else (True, s, dest)) of
                      (False, s, dest) \<Rightarrow> (False, s, dest)
                    | (True, s, dest) \<Rightarrow>
                        (case pb_read s n of
                           (None, s) \<Rightarrow> (False, s, Some (overwrite n [0] (the dest)))
                         | (Some bs, s) \<Rightarrow> (True, s, Some (overwrite n [0] (overwrite 0 bs (the dest))))))))"

definition pb_dec_fixed_length_bytes :: "istream \<Rightarrow> pb_field \<Rightarrow> bytes \<Rightarrow> bool \<times> istream \<times> bytes" where
  "pb_dec_fixed_length_bytes s field dest =
     (case pb_decode_varint32 s of
        (None, s) \<Rightarrow> (False, s, dest)
      | (Some sz, s) \<Rightarrow>
          (let n = unat sz
           in if PB_SIZE_MAX < n then (False, PB_SET_ERROR s ''bytes overflow'', dest)
              else if n = 0 then (True, s, overwrite 0 (replicate (data_size field) 0) dest)
              else if n \<noteq> data_size field then (False, PB_SET_ERROR s ''incorrect fixed length bytes size'', dest)
              else (case pb_read s (data_size field) of
                      (None, s) \<Rightarrow> (False, s, dest)
                    | (Some bs, s) \<Rightarrow> (True, s, overwrite 0 bs dest))))"

section \<open>Encoders\<close>

fun safe_read_loop :: "nat \<Rightarrow> bytes \<Rightarrow> bool" where
  "safe_read_loop 0 p = False"
| "safe_read_loop (Suc n) p = (if p ! 0 \<noteq> 0 then True else safe_read_loop n (drop 1 p))"

definition safe_read_bool :: "bytes \<Rightarrow> bool" where
  "safe_read_bool p = safe_read_loop 1 p"

definition pb_enc_bool :: "ostream \<Rightarrow> pb_field \<Rightarrow> bytes \<Rightarrow> bool \<times> ostream" where
  "pb_enc_bool s field src = pb_encode_varint s (if safe_read_bool src then 1 else 0)"

definition pb_enc_varint :: "ostream \<Rightarrow> pb_field \<Rightarrow> bytes \<Rightarrow> bool \<times> ostream" where
  "pb_enc_varint s field src =
     (let n = data_size field
      in if n = 1 \<or> n = 2 \<or> n = 4 \<or> n = 8 then pb_encode_varint s (sext n (load n src))
         else (False, set_oerror s ''invalid data_size''))"

definition pb_enc_uvarint :: "ostream \<Rightarrow> pb_field \<Rightarrow> bytes \<Rightarrow> bool \<times> ostream" where
  "pb_enc_uvarint s field src =
     (let n = data_size field
      in if n = 1 \<or> n = 2 \<or> n = 4 \<or> n = 8 then pb_encode_varint s (load n src)
         else (False, set_oerror s ''invalid data_size''))"

definition pb_enc_svarint :: "ostream \<Rightarrow> pb_field \<Rightarrow> bytes \<Rightarrow> bool \<times> ostream" where
  "pb_enc_svarint s field src =
     (let n = data_size field
      in if n = 1 \<or> n = 2 \<or> n = 4 \<or> n = 8 then pb_encode_svarint s (sext n (load n src))
         else (False, set_oerror s ''invalid data_size''))"

definition pb_enc_fixed64 :: "ostream \<Rightarrow> pb_field \<Rightarrow> bytes \<Rightarrow> bool \<times> ostream" where
  "pb_enc_fixed64 s field src = pb_encode_fixed64 s (load 8 src)"

definition pb_enc_fixed32 :: "ostream \<Rightarrow> pb_field \<Rightarrow> bytes \<Rightarrow> bool \<times> ostream" where
  "pb_enc_fixed32 s field src = pb_encode_fixed32 s (ucast (load 4 src))"

text \<open>\<open>data_size\<close> minus the offset is a \<open>size_t\<close>, and wraps.\<close>

definition pb_enc_bytes :: "ostream \<Rightarrow> pb_field \<Rightarrow> bytes option \<Rightarrow> bool \<times> ostream" where
  "pb_enc_bytes s field src =
     (case src of
        None \<Rightarrow> pb_encode_string s []
      | Some p \<Rightarrow>
          (let n = unat (load 4 p)
           in if PB_ATYPE (ftype field) = PB_ATYPE_STATIC \<and> (data_size field + SIZE_MOD - bytes_offset) mod SIZE_MOD < n
              then (False, set_oerror s ''bytes size exceeded'')
              else pb_encode_string s (take n (drop bytes_offset p))))"

fun enc_strlen :: "nat \<Rightarrow> bytes \<Rightarrow> nat" where
  "enc_strlen 0 p = 0"
| "enc_strlen (Suc n) [] = 0"
| "enc_strlen (Suc n) (c # p) = (if c \<noteq> 0 then Suc (enc_strlen n p) else 0)"

definition pb_enc_string :: "ostream \<Rightarrow> pb_field \<Rightarrow> bytes option \<Rightarrow> bool \<times> ostream" where
  "pb_enc_string s field src =
     (let max_size = (if PB_ATYPE (ftype field) = PB_ATYPE_POINTER then SIZE_MOD - 1 else data_size field)
      in case src of
           None \<Rightarrow> pb_encode_string s []
         | Some p \<Rightarrow> pb_encode_string s (take (enc_strlen (min max_size (length p)) p) p))"

definition pb_enc_fixed_length_bytes :: "ostream \<Rightarrow> pb_field \<Rightarrow> bytes \<Rightarrow> bool \<times> ostream" where
  "pb_enc_fixed_length_bytes s field src = pb_encode_string s (take (data_size field) src)"

end
