(* ===== verification/PbFieldCodec.thy ===== *)
theory PbFieldCodec
  imports PbFields
begin

text \<open>
  What the field encoders and decoders of nanopb promise each other. A \<open>field_codec\<close> writes the wire form of
  the content of an object, and its decoder reads the wire form, wherever it stands, into an object with
  the same content. The decoders never write outside the object they are given.
\<close>

section \<open>The contract\<close>

locale field_codec =
  fixes enc :: "ostream \<Rightarrow> 'm \<Rightarrow> bool \<times> ostream"
    and dec :: "istream \<Rightarrow> 'm \<Rightarrow> bool \<times> istream \<times> 'm"
    and content :: "'m \<Rightarrow> bytes"
    and wire :: "bytes \<Rightarrow> bytes"
    and valid :: "'m \<Rightarrow> bool"
    and fits :: "bytes \<Rightarrow> 'm \<Rightarrow> bool"
  assumes encodes: "valid x \<Longrightarrow> pb_writer (\<lambda>s. enc s x) (wire (content x))"
    and decodes: "valid x \<Longrightarrow> fits (content x) y \<Longrightarrow> wf_istream s \<Longrightarrow> visible s = wire (content x) @ r \<Longrightarrow>
      \<exists>y'. dec s y = (True, advance (length (wire (content x))) s, y') \<and> valid y' \<and> content y' = content x"
begin

lemma through_buffer:
  assumes "valid x" "fits (content x) y" "length (wire (content x)) < SIZE_MOD" "encoding_of (\<lambda>s. enc s x) n = Some bs"
  obtains s y' where "dec (pb_istream_from_buffer bs (length bs)) y = (True, s, y')" "visible s = []"
    "valid y'" "content y' = content x" "encoding_of (\<lambda>s. enc s y') n = Some bs"
proof -
  have bs: "bs = wire (content x)" "length bs \<le> n"
    using assms(4) encoding_of_writer [OF encodes [OF assms(1)] assms(3)] by (auto split: if_splits)
  have v: "visible (pb_istream_from_buffer bs (length bs)) = wire (content x) @ []" using from_buffer(2) [of bs] bs by simp
  from decodes [OF assms(1,2) from_buffer(1) v] obtain y' where
    y: "dec (pb_istream_from_buffer bs (length bs)) y = (True, advance (length (wire (content x))) (pb_istream_from_buffer bs (length bs)), y')"
    "valid y'" "content y' = content x" by blast
  show ?thesis
  proof (rule that [OF y(1) _ y(2,3)])
    show "visible (advance (length (wire (content x))) (pb_istream_from_buffer bs (length bs))) = []"
      using v by (simp add: stream_simps)
    show "encoding_of (\<lambda>s. enc s y') n = Some bs"
      using encoding_of_writer [OF encodes [OF y(2)], of n] y(3) bs assms(3) by simp
  qed
qed

end

section \<open>Numbers\<close>

definition num_field :: "pb_field \<Rightarrow> bytes \<Rightarrow> bool" where
  "num_field f m \<longleftrightarrow> (data_size f = 1 \<or> data_size f = 2 \<or> data_size f = 4 \<or> data_size f = 8) \<and> length m = data_size f"

lemma num_field_store: "num_field f x \<Longrightarrow> num_field f y \<Longrightarrow> le_bytes (data_size f) v = x \<Longrightarrow> store (data_size f) v y = x"
  by (simp add: num_field_def store_def)

lemma num_field_load: "num_field f x \<Longrightarrow> load (data_size f) x = le_val x \<and> le_bytes (data_size f) (le_val x) = x"
  by (auto simp: num_field_def load_def intro: le_bytes_load)

lemma le_val_small: "length x = n \<Longrightarrow> take_bit (8 * n) (le_val x) = le_val x"
  using be_val_bound [of "rev x"] by (simp add: le_val_def)

lemma num_field_sext:
  "num_field f x \<Longrightarrow> sext (data_size f) (sext (data_size f) v) = sext (data_size f) v \<and>
     (data_size f \<noteq> 8 \<longrightarrow> sext 4 (sext (data_size f) v) = sext (data_size f) v)
     \<and> le_bytes (data_size f) (sext (data_size f) v) = le_bytes (data_size f) v"
  by (auto simp: num_field_def sext_sext le_bytes_sext)

interpretation field_varint: field_codec "\<lambda>s. pb_enc_varint s f" "\<lambda>s. pb_dec_varint s f" "\<lambda>m. m"
  "\<lambda>m. varint_bytes (unat (sext (data_size f) (le_val m)))" "num_field f" "\<lambda>_. num_field f"
proof (rule field_codec.intro)
  fix x
  assume "num_field f x"
  then show "pb_writer (\<lambda>s. pb_enc_varint s f x) (varint_bytes (unat (sext (data_size f) (le_val x))))"
    using num_field_load [of f x] writer_varint [of "sext (data_size f) (le_val x)"]
    by (auto simp: pb_enc_varint_def num_field_def Let_def)
next
  fix x y s r
  assume a: "num_field f x" "num_field f y" "wf_istream s" "visible s = varint_bytes (unat (sext (data_size f) (le_val x))) @ r"
  let ?v = "sext (data_size f) (le_val x)"
  have d: "pb_decode_varint s = (Some ?v, advance (length (varint_bytes (unat ?v))) s)"
    using pb_varint.reads [where x = ?v and s = s and r = r] a(3,4) by simp
  have w: "(if data_size f = 8 then ?v else sext 4 ?v) = ?v" using num_field_sext [OF a(1)] by simp
  have st: "store (data_size f) ?v y = x" using num_field_store [OF a(1,2)] num_field_sext [OF a(1)] num_field_load [OF a(1)] by simp
  have "data_size f = 8 \<or> data_size f = 4 \<or> data_size f = 2 \<or> data_size f = 1" using a(1) by (auto simp: num_field_def)
  then have "pb_dec_varint s f y = (True, advance (length (varint_bytes (unat ?v))) s, x)"
    unfolding pb_dec_varint_def d prod.case option.case Let_def w st using num_field_sext [OF a(1)] by simp
  then show "\<exists>y'. pb_dec_varint s f y = (True, advance (length (varint_bytes (unat ?v))) s, y') \<and> num_field f y' \<and> y' = x"
    using a(1) by simp
qed

interpretation field_svarint: field_codec "\<lambda>s. pb_enc_svarint s f" "\<lambda>s. pb_dec_svarint s f" "\<lambda>m. m"
  "\<lambda>m. varint_bytes (unat (zigzag (sext (data_size f) (le_val m))))" "num_field f" "\<lambda>_. num_field f"
proof (rule field_codec.intro)
  fix x
  assume "num_field f x"
  then show "pb_writer (\<lambda>s. pb_enc_svarint s f x) (varint_bytes (unat (zigzag (sext (data_size f) (le_val x)))))"
    using num_field_load [of f x] writer_svarint [of "sext (data_size f) (le_val x)"]
    by (auto simp: pb_enc_svarint_def num_field_def Let_def)
next
  fix x y s r
  assume a: "num_field f x" "num_field f y" "wf_istream s" "visible s = varint_bytes (unat (zigzag (sext (data_size f) (le_val x)))) @ r"
  let ?v = "sext (data_size f) (le_val x)"
  have d: "pb_decode_svarint s = (Some ?v, advance (length (varint_bytes (unat (zigzag ?v)))) s)"
    using pb_svarint.reads [where x = ?v and s = s and r = r] a(3,4) by simp
  have st: "store (data_size f) ?v y = x" using num_field_store [OF a(1,2)] num_field_sext [OF a(1)] num_field_load [OF a(1)] by simp
  have "data_size f = 8 \<or> data_size f = 4 \<or> data_size f = 2 \<or> data_size f = 1" using a(1) by (auto simp: num_field_def)
  then have "pb_dec_svarint s f y = (True, advance (length (varint_bytes (unat (zigzag ?v)))) s, x)"
    unfolding pb_dec_svarint_def d prod.case option.case Let_def st using num_field_sext [OF a(1)] by simp
  then show "\<exists>y'. pb_dec_svarint s f y = (True, advance (length (varint_bytes (unat (zigzag ?v)))) s, y') \<and> num_field f y' \<and> y' = x"
    using a(1) by simp
qed

interpretation field_uvarint: field_codec "\<lambda>s. pb_enc_uvarint s f" "\<lambda>s. pb_dec_uvarint s f" "\<lambda>m. m"
  "\<lambda>m. varint_bytes (unat (le_val m))" "num_field f" "\<lambda>_. num_field f"
proof (rule field_codec.intro)
  fix x
  assume "num_field f x"
  then show "pb_writer (\<lambda>s. pb_enc_uvarint s f x) (varint_bytes (unat (le_val x)))"
    using num_field_load [of f x] writer_varint [of "le_val x"] by (auto simp: pb_enc_uvarint_def num_field_def Let_def)
next
  fix x y s r
  assume a: "num_field f x" "num_field f y" "wf_istream s" "visible s = varint_bytes (unat (le_val x)) @ r"
  have d: "pb_decode_varint s = (Some (le_val x), advance (length (varint_bytes (unat (le_val x)))) s)"
    using pb_varint.reads [where x = "le_val x" and s = s and r = r] a(3,4) by simp
  have st: "store (data_size f) (le_val x) y = x" using num_field_store [OF a(1,2)] num_field_load [OF a(1)] by simp
  have n: "take_bit (8 * data_size f) (le_val x) = le_val x" using a(1) by (intro le_val_small) (simp add: num_field_def)
  have "data_size f = 8 \<or> data_size f = 4 \<or> data_size f = 2 \<or> data_size f = 1" using a(1) by (auto simp: num_field_def)
  then have "pb_dec_uvarint s f y = (True, advance (length (varint_bytes (unat (le_val x)))) s, x)"
    unfolding pb_dec_uvarint_def d prod.case option.case Let_def st n by simp
  then show "\<exists>y'. pb_dec_uvarint s f y = (True, advance (length (varint_bytes (unat (le_val x)))) s, y') \<and> num_field f y' \<and> y' = x"
    using a(1) by simp
qed

lemma fixed_bytes_le: "fixed32_bytes v = le_bytes 4 (ucast v)" "fixed64_bytes w = le_bytes 8 w"
proof -
  have v: "bit v m \<Longrightarrow> m < 64" for m using bit_imp_le_length [of v m] by simp
  have "ucast (drop_bit k (ucast v :: 64 word)) = (ucast (drop_bit k v) :: byte)" for k
    by (rule bit_eqI) (auto simp: bit_simps intro: v)
  from this this [of 0] show "fixed32_bytes v = le_bytes 4 (ucast v)"
    by (simp add: fixed32_bytes_def le_bytes_def eval_nat_numeral)
  show "fixed64_bytes w = le_bytes 8 w" by (simp add: fixed64_bytes_def le_bytes_def eval_nat_numeral)
qed

lemma le_bytes_ucast: "le_bytes 4 (ucast (ucast v :: 32 word)) = le_bytes 4 v"
proof -
  have "ucast (ucast v :: 32 word) = take_bit 32 v" by (rule bit_eqI) (auto simp: bit_simps)
  then show ?thesis using be_bytes_take_bit [of 4 32 v] by (simp add: le_bytes_def)
qed

interpretation field_fixed32: field_codec "\<lambda>s. pb_enc_fixed32 s f" "\<lambda>s. pb_dec_fixed32 s f" "\<lambda>m. m"
  "\<lambda>m. m" "\<lambda>m. length m = 4" "\<lambda>_ m. length m = 4"
proof (rule field_codec.intro)
  fix x :: bytes
  assume l: "length x = 4"
  then show "pb_writer (\<lambda>s. pb_enc_fixed32 s f x) x"
    using writer_fixed(1) [of "ucast (load 4 x)"] le_bytes_load [of x 4]
    by (simp add: pb_enc_fixed32_def load_def fixed_bytes_le le_bytes_ucast)
next
  fix x y :: bytes and s r
  assume a: "length x = 4" "length y = 4" "wf_istream s" "visible s = x @ r"
  then have "pb_decode_fixed32 s = (Some (ucast (le_val x)), advance (length x) s)"
    using pb_fixed32.reads [where x = "ucast (le_val x)" and s = s and r = r] le_bytes_load [of x 4]
    by (simp add: fixed_bytes_le le_bytes_ucast)
  then show "\<exists>y'. pb_dec_fixed32 s f y = (True, advance (length x) s, y') \<and> length y' = 4 \<and> y' = x"
    using a(1,2) le_bytes_load [of x 4] by (simp add: pb_dec_fixed32_def store_def le_bytes_ucast)
qed

interpretation field_fixed64: field_codec "\<lambda>s. pb_enc_fixed64 s f" "\<lambda>s. pb_dec_fixed64 s f" "\<lambda>m. m"
  "\<lambda>m. m" "\<lambda>m. length m = 8" "\<lambda>_ m. length m = 8"
proof (rule field_codec.intro)
  fix x :: bytes
  assume l: "length x = 8"
  then show "pb_writer (\<lambda>s. pb_enc_fixed64 s f x) x"
    using writer_fixed(2) [of "load 8 x"] le_bytes_load [of x 8] by (simp add: pb_enc_fixed64_def load_def fixed_bytes_le)
next
  fix x y :: bytes and s r
  assume a: "length x = 8" "length y = 8" "wf_istream s" "visible s = x @ r"
  then have "pb_decode_fixed64 s = (Some (le_val x), advance (length x) s)"
    using pb_fixed64.reads [where x = "le_val x" and s = s and r = r] le_bytes_load [of x 8] by (simp add: fixed_bytes_le)
  then show "\<exists>y'. pb_dec_fixed64 s f y = (True, advance (length x) s, y') \<and> length y' = 8 \<and> y' = x"
    using a(1,2) le_bytes_load [of x 8] by (simp add: pb_dec_fixed64_def store_def)
qed

text \<open>A C \<open>bool\<close> object may hold any byte; it is written as 0 or 1.\<close>

definition bool_content :: "bytes \<Rightarrow> bytes" where
  "bool_content m = [if m ! 0 \<noteq> 0 then 1 else 0]"

lemma bool_bytes [simp]: "le_bytes (Suc 0) 0 = [0]" "le_bytes (Suc 0) 1 = [1]"
  by (simp_all add: le_bytes_def)

lemma length_Suc_0: "length m = Suc 0 \<longleftrightarrow> (\<exists>c. m = [c])"
  by (cases m) auto

interpretation field_bool: field_codec "\<lambda>s. pb_enc_bool s f" "\<lambda>s. pb_dec_bool s f" bool_content
  "\<lambda>m. m" "\<lambda>m. length m = 1" "\<lambda>_ m. length m = 1"
proof (rule field_codec.intro)
  fix x :: bytes
  assume "length x = 1"
  then show "pb_writer (\<lambda>s. pb_enc_bool s f x) (bool_content x)"
    using writer_varint [of 0] writer_varint [of 1]
    by (auto simp: pb_enc_bool_def safe_read_bool_def bool_content_def length_Suc_0 varint_bytes.simps)
next
  fix x y :: bytes and s r
  assume a: "length x = 1" "length y = 1" "wf_istream s" "visible s = bool_content x @ r"
  then have "pb_decode_varint32 s = (Some (if x ! 0 \<noteq> 0 then 1 else 0), advance 1 s)"
    using pb_varint32.reads [where x = "if x ! 0 \<noteq> 0 then 1 else 0" and s = s and r = r]
    by (auto simp: bool_content_def varint_bytes.simps)
  then show "\<exists>y'. pb_dec_bool s f y = (True, advance (length (bool_content x)) s, y') \<and> length y' = 1 \<and> bool_content y' = bool_content x"
    using a(2) by (auto simp: pb_dec_bool_def bool_content_def store_def length_Suc_0)
qed

section \<open>Strings and byte arrays\<close>

lemma unat_le4: "unat (le_val m) < 2 ^ 32" if "length m = 4"
proof -
  have "unat (take_bit 32 (le_val m)) < 2 ^ 32" by (simp only: unsigned_take_bit_eq take_bit_nat_less_exp)
  then show ?thesis using le_val_small [OF that] by simp
qed

text \<open>Memory for \<open>n\<close> bytes: the object of a static field, or a block that \<open>pb_realloc\<close> can give.\<close>

definition room_for :: "(bytes option \<Rightarrow> nat \<Rightarrow> bytes option) \<Rightarrow> pb_field \<Rightarrow> nat \<Rightarrow> bytes option \<Rightarrow> bool" where
  "room_for re f n y \<longleftrightarrow>
     (if PB_ATYPE (ftype f) = PB_ATYPE_POINTER then (\<exists>b. re y n = Some b \<and> length b = n)
      else n \<le> data_size f \<and> (\<exists>b. y = Some b \<and> length b = data_size f))"

lemma allocate_field_ok: "0 < n \<Longrightarrow> n < SIZE_MOD \<Longrightarrow> re y n = Some b \<Longrightarrow> allocate_field re s y n 1 = (True, s, Some b)"
  by (simp add: allocate_field_def)

text \<open>The memory a decoder that has read the length goes on with.\<close>

lemma room_for_cases:
  assumes "room_for re f n y" "0 < n" "n < SIZE_MOD" "k \<le> bytes_left s"
  obtains b where "length b = (if PB_ATYPE (ftype f) = PB_ATYPE_POINTER then n else data_size f)" "n \<le> length b"
    "(if PB_ATYPE (ftype f) = PB_ATYPE_POINTER
      then (if bytes_left s < k then (False, PB_SET_ERROR s ''end-of-stream'', y) else allocate_field re s y n 1)
      else if data_size f < n then (False, PB_SET_ERROR s e, y) else (True, s, y)) = (True, s, Some b)"
  using assms allocate_field_ok [of n re y] by (auto simp: room_for_def split: if_splits)

definition bytes_content :: "bytes option \<Rightarrow> bytes" where
  "bytes_content m = (case m of None \<Rightarrow> [] | Some p \<Rightarrow> take (unat (load 4 p)) (drop bytes_offset p))"

definition bytes_object :: "pb_field \<Rightarrow> bytes option \<Rightarrow> bool" where
  "bytes_object f m \<longleftrightarrow>
     (PB_ATYPE (ftype f) = PB_ATYPE_POINTER \<or> PB_ATYPE (ftype f) = PB_ATYPE_STATIC \<and> (\<exists>p. m = Some p \<and> length p = data_size f \<and> data_size f < SIZE_MOD))
     \<and> (\<forall>p. m = Some p \<longrightarrow> bytes_offset + unat (load 4 p) \<le> length p \<and> unat (load 4 p) < 2 ^ 32)"

lemma length_bytes_content:
  "bytes_object f m \<Longrightarrow> length (bytes_content m) < 2 ^ 32 \<and> (\<forall>p. m = Some p \<longrightarrow> unat (load 4 p) = length (bytes_content m))"
  by (auto simp: bytes_object_def bytes_content_def split: option.splits)

lemma read_string:
  assumes "wf_istream s" "visible s = string_bytes p @ r" "length p < 2 ^ 32"
  obtains s1 where "pb_decode_varint32 s = (Some (of_nat (length p)), s1)" "unat (of_nat (length p) :: 32 word) = length p"
    "length p \<le> bytes_left s1" "pb_read s1 (length p) = (Some p, advance (length (string_bytes p)) s)"
proof -
  let ?s1 = "advance (length (varint_bytes (length p))) s"
  have v: "wf_istream ?s1" "visible ?s1 = p @ r" using assms(1,2) by (simp_all add: stream_simps string_bytes_def)
  have "pb_decode_varint32 s = (Some (of_nat (length p)), ?s1)" "unat (of_nat (length p) :: 32 word) = length p"
    using read_length [OF assms(1) _ assms(3), of "p @ r"] assms(2) by (simp_all add: string_bytes_def)
  moreover have "length p \<le> bytes_left ?s1" using length_visible [OF v(1)] v(2) by simp
  moreover have "pb_read ?s1 (length p) = (Some p, advance (length (string_bytes p)) s)"
    using read_visible [OF v(1), of "length p"] unfolding v(2) by (simp add: stream_simps string_bytes_def)
  ultimately show ?thesis by (rule that)
qed

interpretation field_bytes: field_codec "\<lambda>s. pb_enc_bytes s f" "\<lambda>s. pb_dec_bytes re s f" bytes_content
  string_bytes "bytes_object f" "\<lambda>c. room_for re f (bytes_offset + length c)"
proof (rule field_codec.intro)
  fix x
  assume a: "bytes_object f x"
  have w: "(data_size f + SIZE_MOD - bytes_offset) mod SIZE_MOD = data_size f - bytes_offset"
    if "bytes_offset + n \<le> data_size f" "data_size f < SIZE_MOD" for n
    using that mod_add_self2 [of "data_size f - bytes_offset" SIZE_MOD] by simp
  have "pb_enc_bytes s f x = pb_encode_string s (bytes_content x)" for s
    using a w by (auto simp: pb_enc_bytes_def bytes_object_def bytes_content_def Let_def split: option.splits)
  then show "pb_writer (\<lambda>s. pb_enc_bytes s f x) (string_bytes (bytes_content x))"
    using writer_string [of "bytes_content x"] length_bytes_content [OF a] by simp
next
  fix x y s r
  let ?p = "bytes_content x" let ?n = "length (bytes_content x)"
  assume a: "bytes_object f x" "room_for re f (bytes_offset + ?n) y" "wf_istream s" "visible s = string_bytes ?p @ r"
  have l: "?n < 2 ^ 32" using length_bytes_content [OF a(1)] by simp
  from read_string [OF a(3,4) l] obtain s1 where s1:
    "pb_decode_varint32 s = (Some (of_nat ?n), s1)" "unat (of_nat ?n :: 32 word) = ?n" "?n \<le> bytes_left s1"
    "pb_read s1 ?n = (Some ?p, advance (length (string_bytes ?p)) s)" .
  have al: "PB_BYTES_ARRAY_T_ALLOCSIZE ?n = bytes_offset + ?n" using l by (simp add: PB_BYTES_ARRAY_T_ALLOCSIZE_def)
  from room_for_cases [OF a(2) _ _ s1(3), of "''bytes overflow''"] l obtain b where b:
    "length b = (if PB_ATYPE (ftype f) = PB_ATYPE_POINTER then bytes_offset + ?n else data_size f)" "bytes_offset + ?n \<le> length b"
    "(if PB_ATYPE (ftype f) = PB_ATYPE_POINTER
      then (if bytes_left s1 < ?n then (False, PB_SET_ERROR s1 ''end-of-stream'', y) else allocate_field re s1 y (bytes_offset + ?n) 1)
      else if data_size f < bytes_offset + ?n then (False, PB_SET_ERROR s1 ''bytes overflow'', y) else (True, s1, y)) = (True, s1, Some b)"
    by auto
  let ?y = "overwrite bytes_offset ?p (store 4 (ucast (of_nat ?n :: 32 word)) b)"
  have d: "pb_dec_bytes re s f y = (True, advance (length (string_bytes ?p)) s, Some ?y)"
  proof -
    have g: "\<not> PB_SIZE_MAX < ?n" "\<not> bytes_offset + ?n < ?n" using l by simp_all
    show ?thesis
      unfolding pb_dec_bytes_def s1(1) prod.case option.case Let_def s1(2) al if_not_P [OF g(1)] if_not_P [OF g(2)] b(3)
      by (simp add: s1(4))
  qed
  have u: "ucast (of_nat ?n :: 32 word) = (of_nat ?n :: 64 word)" using s1(2) by (metis of_nat_unat)
  have t: "take 4 ?y = le_bytes 4 (of_nat ?n)"
    using b(2) u by (simp add: overwrite_def store_def)
  then have "load 4 ?y = take_bit 32 (of_nat ?n)"
    by (simp add: load_def le_val_def le_bytes_def be_val_be_bytes)
  then have ld: "unat (load 4 ?y) = ?n" using s1(2) l by (simp add: unsigned_take_bit_eq take_bit_nat_eq_self unsigned_of_nat)
  have ly: "length ?y = length b" using b(2) by (simp add: overwrite_def store_def)
  have "bytes_content (Some ?y) = ?p" using ld b(2) by (simp add: bytes_content_def overwrite_def store_def)
  moreover have "bytes_object f (Some ?y)"
    using ld ly b(1,2) l a(1) by (auto simp: bytes_object_def split: if_splits)
  ultimately show "\<exists>y'. pb_dec_bytes re s f y = (True, advance (length (string_bytes ?p)) s, y') \<and> bytes_object f y' \<and> bytes_content y' = ?p"
    using d by blast
qed

definition string_content :: "bytes option \<Rightarrow> bytes" where
  "string_content m = (case m of None \<Rightarrow> [] | Some p \<Rightarrow> takeWhile (\<lambda>c. c \<noteq> 0) p)"

definition string_object :: "pb_field \<Rightarrow> bytes option \<Rightarrow> bool" where
  "string_object f m \<longleftrightarrow>
     (PB_ATYPE (ftype f) = PB_ATYPE_POINTER \<or> PB_ATYPE (ftype f) = PB_ATYPE_STATIC \<and> (\<exists>p. m = Some p \<and> length p = data_size f))
     \<and> (\<forall>p. m = Some p \<longrightarrow> 0 \<in> set p \<and> length p < SIZE_MOD) \<and> length (string_content m) < 2 ^ 32 - 1"

lemma enc_strlen_takeWhile: "length p \<le> n \<Longrightarrow> take (enc_strlen n p) p = takeWhile (\<lambda>c. c \<noteq> 0) p"
  by (induction n p rule: enc_strlen.induct) auto

lemma terminated: "n < length b \<Longrightarrow> overwrite n [0] (overwrite 0 p b) = p @ 0 # drop (Suc n) b" if "length p = n"
  using that by (simp add: overwrite_def)

lemma string_content_terminated: "0 \<notin> set p \<Longrightarrow> string_content (Some (p @ 0 # q)) = p"
  by (simp add: string_content_def takeWhile_tail) (metis takeWhile_eq_all_conv)

interpretation field_string: field_codec "\<lambda>s. pb_enc_string s f" "\<lambda>s. pb_dec_string re s f" string_content
  string_bytes "string_object f" "\<lambda>c. room_for re f (length c + 1)"
proof (rule field_codec.intro)
  fix x
  assume a: "string_object f x"
  have "pb_enc_string s f x = pb_encode_string s (string_content x)" for s
    using a enc_strlen_takeWhile
    by (auto simp: pb_enc_string_def string_object_def string_content_def Let_def min_def split: option.splits)
  then show "pb_writer (\<lambda>s. pb_enc_string s f x) (string_bytes (string_content x))"
    using writer_string [of "string_content x"] a by (simp add: string_object_def)
next
  fix x y s r
  let ?p = "string_content x" let ?n = "length (string_content x)"
  assume a: "string_object f x" "room_for re f (?n + 1) y" "wf_istream s" "visible s = string_bytes ?p @ r"
  have l: "?n < 2 ^ 32 - 1" using a(1) by (simp add: string_object_def)
  then have l': "?n < 2 ^ 32" by simp
  from read_string [OF a(3,4) l'] obtain s1 where s1:
    "pb_decode_varint32 s = (Some (of_nat ?n), s1)" "unat (of_nat ?n :: 32 word) = ?n" "?n \<le> bytes_left s1"
    "pb_read s1 ?n = (Some ?p, advance (length (string_bytes ?p)) s)" .
  have al: "unat (of_nat ?n + 1 :: 32 word) = ?n + 1"
  proof -
    have "unat (of_nat (?n + 1) :: 32 word) = ?n + 1" using l by (simp add: unsigned_of_nat take_bit_nat_eq_self del: of_nat_add of_nat_Suc)
    then show ?thesis by (simp add: add.commute)
  qed
  from room_for_cases [OF a(2) _ _ s1(3), of "''string overflow''"] l obtain b where b:
    "length b = (if PB_ATYPE (ftype f) = PB_ATYPE_POINTER then ?n + 1 else data_size f)" "?n + 1 \<le> length b"
    "(if PB_ATYPE (ftype f) = PB_ATYPE_POINTER
      then (if bytes_left s1 < ?n then (False, PB_SET_ERROR s1 ''end-of-stream'', y) else allocate_field re s1 y (?n + 1) 1)
      else if data_size f < ?n + 1 then (False, PB_SET_ERROR s1 ''string overflow'', y) else (True, s1, y)) = (True, s1, Some b)"
    by auto
  let ?y = "?p @ 0 # drop (Suc ?n) b"
  have g: "\<not> ?n + 1 < ?n" by simp
  have d: "pb_dec_string re s f y = (True, advance (length (string_bytes ?p)) s, Some ?y)"
    unfolding pb_dec_string_def s1(1) prod.case option.case Let_def s1(2) al if_not_P [OF g] b(3)
    using b(2) by (simp add: s1(4) terminated)
  have "0 \<notin> set ?p" by (auto simp: string_content_def dest: set_takeWhileD split: option.splits)
  then have c: "string_content (Some ?y) = ?p" by (rule string_content_terminated)
  have "string_object f (Some ?y)"
    using a(1) b(1,2) l c by (auto simp: string_object_def split: if_splits)
  then show "\<exists>y'. pb_dec_string re s f y = (True, advance (length (string_bytes ?p)) s, y') \<and> string_object f y' \<and> string_content y' = ?p"
    using d c by blast
qed

interpretation field_fixed_bytes: field_codec "\<lambda>s. pb_enc_fixed_length_bytes s f" "\<lambda>s. pb_dec_fixed_length_bytes s f" "\<lambda>m. m"
  string_bytes "\<lambda>m. length m = data_size f \<and> data_size f < 2 ^ 32" "\<lambda>_ m. length m = data_size f"
proof (rule field_codec.intro)
  fix x :: bytes
  assume "length x = data_size f \<and> data_size f < 2 ^ 32"
  then show "pb_writer (\<lambda>s. pb_enc_fixed_length_bytes s f x) (string_bytes x)"
    using writer_string [of x] by (simp add: pb_enc_fixed_length_bytes_def)
next
  fix x y :: bytes and s r
  assume a: "length x = data_size f \<and> data_size f < 2 ^ 32" "length y = data_size f" "wf_istream s" "visible s = string_bytes x @ r"
  then have l: "length x < 2 ^ 32" by simp
  from read_string [OF a(3,4) l] obtain s1 where s1:
    "pb_decode_varint32 s = (Some (of_nat (length x)), s1)" "unat (of_nat (length x) :: 32 word) = length x" "length x \<le> bytes_left s1"
    "pb_read s1 (length x) = (Some x, advance (length (string_bytes x)) s)" .
  have "pb_dec_fixed_length_bytes s f y = (True, advance (length (string_bytes x)) s, x)"
    using a(1,2) s1 by (auto simp: pb_dec_fixed_length_bytes_def Let_def overwrite_def pb_read_def)
  then show "\<exists>y'. pb_dec_fixed_length_bytes s f y = (True, advance (length (string_bytes x)) s, y')
      \<and> (length y' = data_size f \<and> data_size f < 2 ^ 32) \<and> y' = x"
    using a(1) by simp
qed

section \<open>No write outside the object\<close>

text \<open>\<open>store\<close> and \<open>overwrite\<close> make the memory longer when they write beyond its end.\<close>

lemma length_store [simp]: "n \<le> length m \<Longrightarrow> length (store n v m) = length m"
  by (simp add: store_def)

lemma length_overwrite [simp]: "k + length bs \<le> length m \<Longrightarrow> length (overwrite k bs m) = length m"
  by (simp add: overwrite_def)

lemma length_read: "pb_read s n = (Some bs, s') \<Longrightarrow> length bs \<le> n"
  by (auto simp: pb_read_def buf_read_def split: if_splits)

definition allocator :: "(bytes option \<Rightarrow> nat \<Rightarrow> bytes option) \<Rightarrow> bool" where
  "allocator re \<longleftrightarrow> (\<forall>p n b. re p n = Some b \<longrightarrow> length b = n)"

lemma drop_store: "n \<le> j \<Longrightarrow> n \<le> length m \<Longrightarrow> drop j (store n v m) = drop j m"
  by (simp add: store_def)

lemma drop_overwrite: "k + length bs \<le> j \<Longrightarrow> k \<le> length m \<Longrightarrow> drop j (overwrite k bs m) = drop j m"
  by (simp add: overwrite_def min_def)

text \<open>The object after a value of \<open>n\<close> bytes has been decoded from a stream with \<open>left\<close> bytes, if it needs \<open>extra\<close> bytes more in memory. A field
  of the pointer kind is as before, or a block that was allocated for exactly this size, and only if the stream can have the value;
  a static field is as before if it is too small, and else keeps its length and what comes after the value.\<close>

definition in_place :: "(bytes option \<Rightarrow> nat \<Rightarrow> bytes option) \<Rightarrow> pb_field \<Rightarrow> nat \<Rightarrow> nat \<Rightarrow> nat \<Rightarrow> bytes option \<Rightarrow> bytes option \<Rightarrow> bool" where
  "in_place re f n extra left y y' \<longleftrightarrow>
     (if PB_ATYPE (ftype f) = PB_ATYPE_POINTER
      then y' = y \<or> n \<le> left \<and> (\<exists>c b. re y (n + extra) = Some c \<and> y' = Some b \<and> length b = n + extra)
      else if data_size f < n + extra then y' = y
      else \<exists>b b'. y = Some b \<and> y' = Some b' \<and> length b' = data_size f \<and> drop (n + extra) b' = drop (n + extra) b)"

definition right_object :: "pb_field \<Rightarrow> bytes option \<Rightarrow> bool" where
  "right_object f y \<longleftrightarrow> PB_ATYPE (ftype f) = PB_ATYPE_POINTER \<or> (\<exists>m. y = Some m \<and> length m = data_size f)"

lemma in_place_same: "right_object f y \<Longrightarrow> in_place re f n extra left y y"
  by (auto simp: in_place_def right_object_def)

lemma in_place_static:
  assumes "in_place re f n extra left (Some m) y'" "PB_ATYPE (ftype f) \<noteq> PB_ATYPE_POINTER" "length m = data_size f"
  shows "\<exists>m'. y' = Some m' \<and> length m' = data_size f"
  using assms by (auto simp: in_place_def split: if_splits)

lemma allocate_field_block:
  "allocator re \<Longrightarrow> n < SIZE_MOD \<Longrightarrow> allocate_field re s y n 1 = (ok, s', y') \<Longrightarrow>
     (if ok then (\<exists>b. y' = Some b \<and> length b = n \<and> re y n = Some b) else y' = y) \<and> istate s' = istate s \<and> bytes_left s' = bytes_left s"
  by (auto simp: allocate_field_def allocator_def PB_SET_ERROR_def split: if_splits option.splits) (metis option.sel)+

lemma dec_memory:
  assumes "allocator re" "right_object f y" "n + extra < SIZE_MOD"
    and "(if PB_ATYPE (ftype f) = PB_ATYPE_POINTER
      then (if bytes_left s < n then (False, PB_SET_ERROR s ''end-of-stream'', y) else allocate_field re s y (n + extra) 1)
      else if data_size f < n + extra then (False, PB_SET_ERROR s e, y) else (True, s, y)) = (ok, s1, y1)"
  shows "if ok then (\<exists>b. y1 = Some b \<and> n + extra \<le> length b \<and>
      (\<forall>b'. length b' = length b \<longrightarrow> drop (n + extra) b' = drop (n + extra) b \<longrightarrow> in_place re f n extra (bytes_left s) y (Some b'))) else y1 = y"
proof (cases "PB_ATYPE (ftype f) = PB_ATYPE_POINTER")
  case True
  show ?thesis
  proof (cases "bytes_left s < n")
    case small: True
    then show ?thesis using True assms(4) by auto
  next
    case False
    then have "allocate_field re s y (n + extra) 1 = (ok, s1, y1)" using True assms(4) by simp
    from allocate_field_block [OF assms(1,3) this] show ?thesis using True False by (auto simp: in_place_def)
  qed
next
  case False
  then show ?thesis using assms(2,4) by (auto simp: in_place_def right_object_def split: if_splits)
qed

lemma wf_set_error [simp]: "wf_istream (PB_SET_ERROR s e) = wf_istream s"
  by (simp add: wf_istream_def PB_SET_ERROR_def)

lemma unat_plus_1: "unat (v + 1 :: 32 word) = (if unat v = 2 ^ 32 - 1 then 0 else unat v + 1)"
  using unat_width_32 [of v] by (simp add: unat_word_ariths)

text \<open>Without a length nothing is written.\<close>

lemma dec_no_length:
  "pb_decode_varint32 s = (None, s1) \<Longrightarrow> pb_dec_bytes re s f y = (False, s1, y) \<and> pb_dec_string re s f y = (False, s1, y)"
  by (simp add: pb_dec_bytes_def pb_dec_string_def)

lemma dec_bytes_in_place:
  assumes "allocator re" "right_object f y" "pb_decode_varint32 s = (Some sz, s1)" "pb_dec_bytes re s f y = (ok, s', y')"
  shows "in_place re f (unat sz) bytes_offset (bytes_left s1) y y'"
proof -
  let ?n = "unat sz"
  have l: "?n < 2 ^ 32" by (rule unat_width_32)
  then have al: "PB_BYTES_ARRAY_T_ALLOCSIZE ?n = ?n + bytes_offset" by (simp add: PB_BYTES_ARRAY_T_ALLOCSIZE_def)
  have g: "\<not> PB_SIZE_MAX < ?n" "\<not> ?n + bytes_offset < ?n" using l by simp_all
  obtain ok1 s2 y1 where b: "(if PB_ATYPE (ftype f) = PB_ATYPE_POINTER
    then (if bytes_left s1 < ?n then (False, PB_SET_ERROR s1 ''end-of-stream'', y) else allocate_field re s1 y (?n + bytes_offset) 1)
    else if data_size f < ?n + bytes_offset then (False, PB_SET_ERROR s1 ''bytes overflow'', y) else (True, s1, y)) = (ok1, s2, y1)"
    using prod_cases3 by blast
  have sz: "?n + bytes_offset < SIZE_MOD" using l by simp
  note m = dec_memory [OF assms(1,2) sz b]
  note d = assms(4) [unfolded pb_dec_bytes_def assms(3) prod.case option.case Let_def al if_not_P [OF g(1)] if_not_P [OF g(2)] b]
  show ?thesis
  proof (cases ok1)
    case True
    then obtain mem where mem: "y1 = Some mem" "?n + bytes_offset \<le> length mem"
      "\<And>b'. length b' = length mem \<Longrightarrow> drop (?n + bytes_offset) b' = drop (?n + bytes_offset) mem \<Longrightarrow> in_place re f ?n bytes_offset (bytes_left s1) y (Some b')"
      using m by auto
    let ?mem = "store 4 (ucast sz) mem"
    have st: "length ?mem = length mem" "drop (?n + bytes_offset) ?mem = drop (?n + bytes_offset) mem" using mem(2) by (simp_all add: drop_store)
    show ?thesis
    proof (cases "pb_read s2 ?n")
      case (Pair r s3)
      show ?thesis
      proof (cases r)
        case None
        then show ?thesis using d mem(1) Pair mem(3) [OF st] by (simp add: True)
      next
        case (Some bs)
        then have len: "length bs \<le> ?n" using length_read [of s2 ?n bs s3] Pair by simp
        have "length (overwrite bytes_offset bs ?mem) = length mem" using len mem(2) st(1) by simp
        moreover have "drop (?n + bytes_offset) (overwrite bytes_offset bs ?mem) = drop (?n + bytes_offset) mem"
          using len mem(2) st by (subst drop_overwrite) simp_all
        ultimately show ?thesis using d mem(1) Pair Some mem(3) by (auto simp: True)
      qed
    qed
  next
    case False
    then show ?thesis using d m in_place_same [OF assms(2)] by simp
  qed
qed

lemma dec_string_in_place:
  assumes "allocator re" "right_object f y" "pb_decode_varint32 s = (Some sz, s1)" "pb_dec_string re s f y = (ok, s', y')"
  shows "in_place re f (unat sz) 1 (bytes_left s1) y y'"
proof (cases "unat sz = 2 ^ 32 - 1")
  case True
  then show ?thesis using assms(3,4) in_place_same [OF assms(2)] by (simp add: pb_dec_string_def unat_plus_1)
next
  case False
  then have p: "unat (sz + 1) = unat sz + 1" by (simp add: unat_plus_1)
  let ?n = "unat sz"
  have l: "?n + 1 < SIZE_MOD" using unat_width_32 [of sz] by simp
  have g: "\<not> ?n + 1 < ?n" by simp
  obtain ok1 s2 y1 where b: "(if PB_ATYPE (ftype f) = PB_ATYPE_POINTER
    then (if bytes_left s1 < ?n then (False, PB_SET_ERROR s1 ''end-of-stream'', y) else allocate_field re s1 y (?n + 1) 1)
    else if data_size f < ?n + 1 then (False, PB_SET_ERROR s1 ''string overflow'', y) else (True, s1, y)) = (ok1, s2, y1)"
    using prod_cases3 by blast
  note m = dec_memory [OF assms(1,2) l b]
  note d = assms(4) [unfolded pb_dec_string_def assms(3) p prod.case option.case Let_def if_not_P [OF g] b]
  show ?thesis
  proof (cases ok1)
    case True
    then obtain mem where mem: "y1 = Some mem" "?n + 1 \<le> length mem"
      "\<And>b'. length b' = length mem \<Longrightarrow> drop (?n + 1) b' = drop (?n + 1) mem \<Longrightarrow> in_place re f ?n 1 (bytes_left s1) y (Some b')"
      using m by auto
    show ?thesis
    proof (cases "pb_read s2 ?n")
      case (Pair r s3)
      show ?thesis
      proof (cases r)
        case None
        have "length (overwrite ?n [0] mem) = length mem" "drop (?n + 1) (overwrite ?n [0] mem) = drop (?n + 1) mem"
          using mem(2) by (simp, subst drop_overwrite) simp_all
        then show ?thesis using d mem(1,3) Pair None by (auto simp: True)
      next
        case (Some bs)
        then have len: "length bs \<le> ?n" using length_read [of s2 ?n bs s3] Pair by simp
        let ?mem = "overwrite 0 bs mem"
        have o: "length ?mem = length mem" "drop (?n + 1) ?mem = drop (?n + 1) mem" using len mem(2) by (simp, subst drop_overwrite) simp_all
        have "length (overwrite ?n [0] ?mem) = length mem" "drop (?n + 1) (overwrite ?n [0] ?mem) = drop (?n + 1) mem"
          using mem(2) o by (simp, subst drop_overwrite) simp_all
        then show ?thesis using d mem(1,3) Pair Some by (auto simp: True)
      qed
    qed
  next
    case False
    then show ?thesis using d m in_place_same [OF assms(2)] by simp
  qed
qed

end
