(* ===== verification/PbIter.thy ===== *)
theory PbIter
  imports PbFields
begin

text \<open>
  \<open>nanopb/pb_common.c\<close>: walking over the fields of a message. A field array ends with a field whose tag is
  0; the iterator holds an index into it, and addresses as integers with 0 for NULL. The search loop is a
  partial function, shown to return.
\<close>

section \<open>The iterator\<close>

record pb_field_iter =
  start :: "pb_field list"
  pos :: nat
  required_field_index :: "32 word"
  dest_struct :: int
  pData :: int
  pSize :: int

abbreviation pos_field :: "pb_field_iter \<Rightarrow> pb_field" where
  "pos_field it \<equiv> start it ! pos it"

definition pb_field_iter_begin :: "pb_field list \<Rightarrow> int \<Rightarrow> bool \<times> pb_field_iter" where
  "pb_field_iter_begin fs dest =
     (let f = fs ! 0;
          (d, sz) = (if dest = 0 then (0, 0)
                     else (dest + int (data_offset f), dest + int (data_offset f) + size_offset f))
      in (tag f \<noteq> 0, \<lparr>start = fs, pos = 0, required_field_index = 0, dest_struct = dest, pData = d, pSize = sz\<rparr>))"

definition pb_field_iter_next :: "pb_field_iter \<Rightarrow> bool \<times> pb_field_iter" where
  "pb_field_iter_next it =
     (let prev_field = pos_field it
      in if tag prev_field = 0 then (False, it)
         else
           (let it = it\<lparr>pos := pos it + 1\<rparr>; cur = pos_field it
            in if tag cur = 0 then (False, snd (pb_field_iter_begin (start it) (dest_struct it)))
               else if PB_HTYPE (ftype prev_field) = PB_HTYPE_ONEOF \<and> PB_HTYPE (ftype cur) = PB_HTYPE_ONEOF
                       \<and> data_offset cur = PB_SIZE_MAX
                    then (True, it)
               else
                 (let prev_size =
                        (if PB_ATYPE (ftype prev_field) = PB_ATYPE_STATIC \<and> PB_HTYPE (ftype prev_field) = PB_HTYPE_REPEATED
                         then data_size prev_field * array_size prev_field
                         else if PB_ATYPE (ftype prev_field) = PB_ATYPE_POINTER then 8
                         else data_size prev_field);
                      req = (if PB_HTYPE (ftype prev_field) = PB_HTYPE_REQUIRED then required_field_index it + 1
                             else required_field_index it);
                      d = pData it + int prev_size + int (data_offset cur)
                  in (True, it\<lparr>required_field_index := req, pData := d, pSize := d + size_offset cur\<rparr>))))"

definition is_wanted :: "32 word \<Rightarrow> pb_field \<Rightarrow> bool" where
  "is_wanted t f \<longleftrightarrow> tag f = t \<and> PB_LTYPE (ftype f) \<noteq> PB_LTYPE_EXTENSION"

partial_function (option) iter_find_loop :: "nat \<Rightarrow> 32 word \<Rightarrow> pb_field_iter \<Rightarrow> (bool \<times> pb_field_iter) option" where
  "iter_find_loop st t it =
     (if is_wanted t (pos_field it) then Some (True, it)
      else (let it = snd (pb_field_iter_next it)
            in if pos it \<noteq> st then iter_find_loop st t it else Some (False, it)))"

definition pb_field_iter_find :: "pb_field_iter \<Rightarrow> 32 word \<Rightarrow> (bool \<times> pb_field_iter) option" where
  "pb_field_iter_find it t = iter_find_loop (pos it) t it"

section \<open>Walking\<close>

definition wf_fields :: "pb_field list \<Rightarrow> bool" where
  "wf_fields fs \<longleftrightarrow> fs \<noteq> [] \<and> tag (last fs) = 0 \<and> (\<forall>f\<in>set (butlast fs). tag f \<noteq> 0)"

abbreviation field_count :: "pb_field list \<Rightarrow> nat" where
  "field_count fs \<equiv> length fs - 1"

text \<open>The iterator after \<open>k\<close> steps from the beginning.\<close>

definition iter_at :: "pb_field list \<Rightarrow> int \<Rightarrow> nat \<Rightarrow> pb_field_iter" where
  "iter_at fs dest k = ((\<lambda>it. snd (pb_field_iter_next it)) ^^ k) (snd (pb_field_iter_begin fs dest))"

lemma iter_at_0: "iter_at fs dest 0 = snd (pb_field_iter_begin fs dest)"
  by (simp add: iter_at_def)

lemma iter_at_Suc: "iter_at fs dest (Suc k) = snd (pb_field_iter_next (iter_at fs dest k))"
  by (simp add: iter_at_def)

lemma begin_simps [simp]:
  "start (snd (pb_field_iter_begin fs dest)) = fs" "pos (snd (pb_field_iter_begin fs dest)) = 0"
  "dest_struct (snd (pb_field_iter_begin fs dest)) = dest"
  by (simp_all add: pb_field_iter_begin_def Let_def split: prod.splits)

lemma field_tag:
  assumes "wf_fields fs"
  shows "k < field_count fs \<Longrightarrow> tag (fs ! k) \<noteq> 0" and "tag (fs ! field_count fs) = 0"
proof -
  show "tag (fs ! k) \<noteq> 0" if "k < field_count fs"
  proof -
    have "butlast fs ! k \<in> set (butlast fs)" using that by (intro nth_mem) simp
    then show ?thesis using assms that by (auto simp: wf_fields_def nth_butlast)
  qed
  show "tag (fs ! field_count fs) = 0" using assms last_conv_nth [of fs] by (auto simp: wf_fields_def)
qed

lemma next_step:
  assumes "wf_fields fs" "start it = fs" "pos it < field_count fs"
  shows "if pos it + 1 < field_count fs
    then fst (pb_field_iter_next it) \<and> start (snd (pb_field_iter_next it)) = fs \<and> pos (snd (pb_field_iter_next it)) = pos it + 1
      \<and> dest_struct (snd (pb_field_iter_next it)) = dest_struct it
    else pb_field_iter_next it = (False, snd (pb_field_iter_begin fs (dest_struct it)))"
proof -
  have p: "tag (fs ! pos it) \<noteq> 0" using field_tag(1) [OF assms(1,3)] .
  show ?thesis
  proof (cases "pos it + 1 < field_count fs")
    case True
    then have "tag (fs ! Suc (pos it)) \<noteq> 0" using field_tag(1) [OF assms(1), of "Suc (pos it)"] by simp
    then show ?thesis using p True assms(2) by (simp add: pb_field_iter_next_def Let_def)
  next
    case False
    then have "Suc (pos it) = field_count fs" using assms(3) by simp
    then have "tag (fs ! Suc (pos it)) = 0" using field_tag(2) [OF assms(1)] by simp
    then show ?thesis using p False assms(2) by (simp add: pb_field_iter_next_def Let_def)
  qed
qed

lemma iter_at_fields:
  assumes "wf_fields fs" "k < field_count fs"
  shows "start (iter_at fs dest k) = fs \<and> pos (iter_at fs dest k) = k \<and> dest_struct (iter_at fs dest k) = dest"
  using assms(2)
proof (induction k)
  case (Suc k)
  then show ?case using next_step [OF assms(1), of "iter_at fs dest k"] by (simp add: iter_at_Suc)
qed (simp add: iter_at_0)

lemma next_iter_at:
  assumes "wf_fields fs" "k < field_count fs"
  shows "pb_field_iter_next (iter_at fs dest k)
    = (Suc k < field_count fs, iter_at fs dest (Suc k mod field_count fs))"
proof (cases "Suc k < field_count fs")
  case True
  then show ?thesis using next_step [OF assms(1), of "iter_at fs dest k"] iter_at_fields [OF assms, of dest] assms(2)
    by (simp add: prod_eq_iff iter_at_Suc)
next
  case False
  then have "Suc k mod field_count fs = 0" "\<not> k + 1 < field_count fs" using assms(2) by (simp_all add: mod_Suc)
  then show ?thesis using next_step [OF assms(1), of "iter_at fs dest k"] iter_at_fields [OF assms, of dest] assms(2) False
    by (simp add: iter_at_0)
qed

section \<open>Searching\<close>

lemma find_loop:
  assumes "wf_fields fs" "k < field_count fs" "j < field_count fs"
    and "\<forall>i<j. \<not> is_wanted t (fs ! ((k + i) mod field_count fs))"
  shows "\<exists>ok it. iter_find_loop k t (iter_at fs dest ((k + j) mod field_count fs)) = Some (ok, it) \<and>
    (if ok then \<exists>i<field_count fs. it = iter_at fs dest ((k + i) mod field_count fs) \<and> is_wanted t (fs ! ((k + i) mod field_count fs))
         \<and> (\<forall>i'<i. \<not> is_wanted t (fs ! ((k + i') mod field_count fs)))
     else it = iter_at fs dest k \<and> (\<forall>i<field_count fs. \<not> is_wanted t (fs ! ((k + i) mod field_count fs))))"
  using assms(3,4)
proof (induction "field_count fs - j" arbitrary: j)
  case (Suc m)
  let ?n = "field_count fs" and ?c = "(k + j) mod field_count fs"
  have c: "?c < ?n" using Suc.prems(1) by simp
  note at = iter_at_fields [OF assms(1) c, of dest]
  note nx = next_iter_at [OF assms(1) c, of dest]
  show ?case
  proof (cases "is_wanted t (fs ! ?c)")
    case True
    then have "iter_find_loop k t (iter_at fs dest ?c) = Some (True, iter_at fs dest ?c)"
      using at by (subst iter_find_loop.simps) simp
    then show ?thesis using True Suc.prems by auto
  next
    case False
    have s: "Suc ?c mod ?n = (k + Suc j) mod ?n" by (simp add: mod_Suc_eq)
    have n': "Suc ?c mod ?n < ?n" using c by simp
    have step: "iter_find_loop k t (iter_at fs dest ?c) =
      (if (k + Suc j) mod ?n \<noteq> k then iter_find_loop k t (iter_at fs dest ((k + Suc j) mod ?n)) else Some (False, iter_at fs dest ((k + Suc j) mod ?n)))"
    proof -
      have "snd (pb_field_iter_next (iter_at fs dest ?c)) = iter_at fs dest ((k + Suc j) mod ?n)"
        "pos (iter_at fs dest ((k + Suc j) mod ?n)) = (k + Suc j) mod ?n" "\<not> is_wanted t (pos_field (iter_at fs dest ?c))"
        using nx at False iter_at_fields [OF assms(1) n', of dest] unfolding s by simp_all
      then show ?thesis by (subst iter_find_loop.simps) (simp only: Let_def if_False)
    qed
    have none: "\<forall>i<Suc j. \<not> is_wanted t (fs ! ((k + i) mod ?n))" using False Suc.prems(2) by (auto simp: less_Suc_eq)
    show ?thesis
    proof (cases "Suc j < ?n")
      case True
      have "(k + Suc j) mod ?n \<noteq> k"
      proof
        assume "(k + Suc j) mod ?n = k"
        then show False using True assms(2) by (cases "k + Suc j < ?n") (auto simp: le_mod_geq not_less)
      qed
      then show ?thesis using Suc.hyps(1) [OF _ True none] Suc.hyps(2) unfolding step by simp
    next
      case False
      then have j: "Suc j = ?n" using Suc.prems(1) by simp
      have k: "(k + ?n) mod ?n = k" using assms(2) by (simp only: mod_add_self2 mod_less)
      show ?thesis using none unfolding step j k by auto
    qed
  qed
qed simp

lemma find_returns:
  assumes "wf_fields fs" "k < field_count fs"
  shows "\<exists>ok it. pb_field_iter_find (iter_at fs dest k) t = Some (ok, it) \<and>
    (if ok then \<exists>i<field_count fs. it = iter_at fs dest ((k + i) mod field_count fs) \<and> is_wanted t (fs ! ((k + i) mod field_count fs))
         \<and> (\<forall>i'<i. \<not> is_wanted t (fs ! ((k + i') mod field_count fs)))
     else it = iter_at fs dest k \<and> (\<forall>i<field_count fs. \<not> is_wanted t (fs ! ((k + i) mod field_count fs))))"
  using find_loop [OF assms, of 0 t dest] iter_at_fields [OF assms, of dest] assms(2) by (simp add: pb_field_iter_find_def)

section \<open>Where the fields are\<close>

text \<open>The bytes a field takes in the structure.\<close>

definition field_extent :: "pb_field \<Rightarrow> nat" where
  "field_extent f =
     (if PB_ATYPE (ftype f) = PB_ATYPE_STATIC \<and> PB_HTYPE (ftype f) = PB_HTYPE_REPEATED then data_size f * array_size f
      else if PB_ATYPE (ftype f) = PB_ATYPE_POINTER then 8 else data_size f)"

definition in_union :: "pb_field list \<Rightarrow> nat \<Rightarrow> bool" where
  "in_union fs k \<longleftrightarrow> PB_HTYPE (ftype (fs ! k)) = PB_HTYPE_ONEOF \<and> PB_HTYPE (ftype (fs ! Suc k)) = PB_HTYPE_ONEOF
     \<and> data_offset (fs ! Suc k) = PB_SIZE_MAX"

lemma pData_Suc:
  assumes "wf_fields fs" "Suc k < field_count fs"
  shows "pData (iter_at fs dest (Suc k)) =
    (if in_union fs k then pData (iter_at fs dest k)
     else pData (iter_at fs dest k) + int (field_extent (fs ! k)) + int (data_offset (fs ! Suc k)))"
proof -
  have k: "k < field_count fs" using assms(2) by simp
  show ?thesis
    using iter_at_fields [OF assms(1) k, of dest] field_tag(1) [OF assms(1) k] field_tag(1) [OF assms]
    unfolding iter_at_Suc pb_field_iter_next_def Let_def in_union_def field_extent_def by simp
qed

lemma fields_disjoint:
  assumes "wf_fields fs" "i < j" "j < field_count fs" "\<forall>k<j. \<not> in_union fs k"
  shows "pData (iter_at fs dest i) + int (field_extent (fs ! i)) \<le> pData (iter_at fs dest j)"
  using assms(2-)
proof (induction j)
  case (Suc j)
  have s: "pData (iter_at fs dest (Suc j)) = pData (iter_at fs dest j) + int (field_extent (fs ! j)) + int (data_offset (fs ! Suc j))"
    using pData_Suc [OF assms(1) Suc.prems(2)] Suc.prems(3) by simp
  then show ?case using Suc by (cases "i = j") (auto simp: less_Suc_eq)
qed simp

end
