(* ===== verification/PbProps.thy ===== *)
theory PbProps
  imports PbFieldCodec PbIter
begin

text \<open>
  The properties of nanopb: the wire format, the fields and the iterator over the fields of a message.
\<close>

section \<open>The wire format\<close>

text \<open>C25. The 64-bit varint decoder is exact: on a stream it returns a value if and only if the stream begins with a
  varint of at most ten bytes, the value is the one the varint denotes modulo \<open>2 ^ 64\<close>, and the stream has moved
  over the varint and no further.\<close>

theorem varint_reader_exact:
  assumes "wf_istream s"
  shows "pb_decode_varint s = (Some v, s') \<longleftrightarrow>
    (\<exists>p r. is_varint p \<and> length p \<le> 10 \<and> visible s = p @ r \<and> v = of_nat (varint_val p) \<and> s' = advance (length p) s)"
  using assms by (rule decode_varint_exact)

lemma varint_reader_exact_witness:
  "pb_decode_varint (pb_istream_from_buffer [0xAC, 0x02, 0x07] 3) = (Some 300, advance 2 (pb_istream_from_buffer [0xAC, 0x02, 0x07] 3))"
proof -
  have w: "wf_istream (pb_istream_from_buffer [0xAC, 0x02, 0x07] 3)" by (simp add: wf_istream_def pb_istream_from_buffer_def)
  have v: "is_varint [0xAC, 0x02]" "of_nat (varint_val [0xAC, 0x02]) = (300 :: 64 word)" "length [0xAC, 0x02 :: byte] = 2" by simp_all
  have vis: "visible (pb_istream_from_buffer [0xAC, 0x02, 0x07] 3) = [0xAC, 0x02] @ [0x07]" by (simp add: visible_def pb_istream_from_buffer_def)
  show ?thesis
    unfolding varint_reader_exact [OF w]
    by (rule exI [of _ "[0xAC, 0x02]"], rule exI [of _ "[0x07]"]) (simp only: v vis simp_thms)
qed

text \<open>The 32-bit varint decoder, which reads tags and lengths, is exact on varints of up to five bytes: it returns
  the value if it fits 32 bits, and fails if it does not.\<close>

theorem varint32_exact_to_five_bytes:
  assumes "is_varint p" "wf_istream s" "visible s = p @ r" "length p \<le> 5"
  shows "if varint_val p < 2 ^ 32 then pb_decode_varint32 s = (Some (of_nat (varint_val p)), advance (length p) s)
    else fst (pb_decode_varint32 s) = None"
  using assms by (rule varint32_short)

lemma varint32_exact_to_five_bytes_witness:
  "fst (pb_decode_varint32 (pb_istream_from_buffer [0xFF, 0xFF, 0xFF, 0xFF, 0x1F] 5)) = None"
  using varint32_exact_to_five_bytes [of "[0xFF, 0xFF, 0xFF, 0xFF, 0x1F]" "pb_istream_from_buffer [0xFF, 0xFF, 0xFF, 0xFF, 0x1F] 5" "[]"]
  by (simp add: wf_istream_def visible_def pb_istream_from_buffer_def)

lemma low_bits_zero: "(b :: byte) AND 0x7F = 0 \<longleftrightarrow> unat b mod 128 = 0"
proof -
  have "b AND 0x7F = of_nat (unat b mod 128)" using low7 [of b, where 'a = 8] by simp
  then show ?thesis using unat_of_nat_byte [of "unat b mod 128"] by (auto simp: word_unat_eq_iff)
qed

lemma loop32_padding:
  assumes "is_varint t" "varint_val t = 0" "wf_istream s" "visible s = t @ r" "5 \<le> k" "k + length t \<le> 10"
  shows "varint32_loop res (of_nat (7 * k)) s = (Some res, advance (length t) s)"
  using assms
proof (induction t arbitrary: k s)
  case (Cons b t)
  have k: "k < 10" using Cons.prems(6) by simp
  have pos: "unat (of_nat (7 * k) :: byte) = 7 * k" "unat (of_nat (7 * k) + 7 :: byte) = 7 * k + 7"
    using unat_of_nat_byte [of "7 * k"] unat_of_nat_byte [of "7 * k + 7"] k by simp_all
  have lim: "(32 :: byte) \<le> of_nat (7 * k)" unfolding word_le_nat_alt pos using Cons.prems(5) by simp
  have r: "pb_readbyte s = (Some b, advance 1 s)" using readbyte_visible(1) [OF Cons.prems(3)] Cons.prems(4) by simp
  have z: "b AND 0x7F = 0" using Cons.prems(2) low_bits_zero [of b] by simp
  have e: "\<not> of_nat (7 * k) + 7 = (35 :: byte)" using pos(2) Cons.prems(5) by (auto simp: word_unat_eq_iff)
  have step: "varint32_loop res (of_nat (7 * k)) s
      = (if b AND 0x80 \<noteq> 0 then varint32_loop res (of_nat (7 * k) + 7) (advance 1 s) else (Some res, advance 1 s))"
    by (subst varint32_loop.simps) (simp only: lim r z e Let_def prod.case option.case if_True if_False simp_thms)
  show ?case
  proof (cases "unat b < 128")
    case True
    then show ?thesis using Cons.prems(1) high_bit_iff [of b] unfolding step by (auto simp: is_varint_Cons)
  next
    case False
    have nx: "of_nat (7 * k) + 7 = (of_nat (7 * Suc k) :: byte)" by simp
    have t: "is_varint t" "varint_val t = 0" "wf_istream (advance 1 s)" "visible (advance 1 s) = t @ r" "5 \<le> Suc k" "Suc k + length t \<le> 10"
      using Cons.prems False by (simp_all add: is_varint_Cons stream_simps)
    have h: "b AND 0x80 \<noteq> 0" using False by (simp add: high_bit_iff)
    have a: "advance (length t) (advance 1 s) = advance (length (b # t)) s" by (simp add: stream_simps)
    show ?thesis unfolding step if_P [OF h] nx Cons.IH [OF t] a ..
  qed
qed simp

text \<open>C38. On longer varints the 32-bit decoder is wrong. It checks the bits of the fifth byte that do not fit only when that byte is
  the last: for any five bytes with more to follow, padded by up to five bytes without a value, it accepts the varint and returns its value
  modulo \<open>2 ^ 32\<close>, where the 64-bit decoder returns the value, and the two are different exactly if the value does not fit 32 bits.\<close>

theorem varint32_drops_bits:
  assumes "wf_istream s" "visible s = q @ t @ r" "length q = 5" "\<forall>b\<in>set q. 128 \<le> unat b" "is_varint t" "length t \<le> 5" "varint_val t = 0"
  shows "\<exists>v32 v64. pb_decode_varint32 s = (Some v32, advance (5 + length t) s) \<and> pb_decode_varint s = (Some v64, advance (5 + length t) s) \<and>
    unat v32 = varint_val q mod 2 ^ 32 \<and> unat v64 = varint_val q \<and> (v32 = ucast v64 \<and> (unat v32 \<noteq> unat v64 \<longleftrightarrow> 2 ^ 32 \<le> varint_val q))"
proof -
  obtain c q' where q: "q = c # q'" "length q' = 4" using assms(3) by (cases q) auto
  have r: "pb_readbyte s = (Some c, advance 1 s)" using readbyte_visible(1) [OF assms(1)] assms(2) q(1) by simp
  have c: "c AND 0x80 \<noteq> 0" using assms(4) q(1) by (simp add: high_bit_iff)
  have v1: "wf_istream (advance 1 s)" "visible (advance 1 s) = q' @ t @ r" using assms(1,2) q(1) by (simp_all add: stream_simps)
  have v2: "wf_istream (advance 5 s)" "visible (advance 5 s) = t @ r" using assms(1-3) by (simp_all add: stream_simps)
  have a: "advance (length q') (advance 1 s) = advance 5 s" "1 + length q' = 5" using q(2) by (simp_all add: stream_simps)
  have q': "\<forall>c\<in>set q'. 128 \<le> unat c" "1 + length q' \<le> 5" using assms(4) q by auto
  have j: "of_nat (unat c mod 128) OR push_bit (7 * 1) (of_nat (varint_val q')) = (of_nat (varint_val q) :: 32 word)"
    using push_join7 [of 0 c "varint_val q'", where 'a = 32] q(1) by simp
  have "varint32_loop (ucast (c AND 0x7F)) 7 (advance 1 s) = varint32_loop (of_nat (varint_val q)) (of_nat (7 * 5)) (advance 5 s)"
    using loop32_high [OF q'(1) v1 q'(2), of "ucast (c AND 0x7F)"] unfolding a low7 j by simp
  also have "\<dots> = (Some (of_nat (varint_val q)), advance (length t) (advance 5 s))"
    by (rule loop32_padding [OF assms(5,7) v2]) (use assms(6) in simp_all)
  finally have 32: "pb_decode_varint32 s = (Some (of_nat (varint_val q)), advance (5 + length t) s)"
    using r c by (simp add: pb_decode_varint32_def pb_decode_varint32_eof_def stream_simps)
  have p: "is_varint (q @ t)" using assms(4,5) by (induction q) (auto simp: is_varint_Cons)
  have "varint_val (q @ t) = varint_val q" using assms(7) by (simp add: varint_val_append)
  then have 64: "pb_decode_varint s = (Some (of_nat (varint_val q)), advance (5 + length t) s)"
    unfolding decode_varint_exact [OF assms(1)] using p assms(2,3,6) by (intro exI [of _ "q @ t"] exI [of _ r]) simp
  have "varint_val q < 2 ^ 35" using varint_val_bound [of q] unfolding assms(3) by simp
  then have u: "unat (of_nat (varint_val q) :: 64 word) = varint_val q" "unat (of_nat (varint_val q) :: 32 word) = varint_val q mod 2 ^ 32"
    by (simp_all add: unsigned_of_nat take_bit_eq_mod)
  have w: "(of_nat (varint_val q) :: 32 word) = ucast (of_nat (varint_val q) :: 64 word)" using u(1) by (metis of_nat_unat)
  have d: "varint_val q mod 2 ^ 32 \<noteq> varint_val q \<longleftrightarrow> 2 ^ 32 \<le> varint_val q"
    using mod_less_divisor [of "2 ^ 32" "varint_val q"] by (cases "varint_val q < 2 ^ 32") auto
  show ?thesis by (intro exI conjI) (rule 32, rule 64, rule u(2), rule u(1), rule w, unfold u, rule d)
qed

text \<open>The bytes \<open>80 80 80 80 F0 00\<close> are read as 0, not as \<open>7 * 2 ^ 32\<close>.\<close>

lemma varint32_drops_bits_witness:
  "\<exists>v32 v64. fst (pb_decode_varint32 (pb_istream_from_buffer [0x80, 0x80, 0x80, 0x80, 0xF0, 0x00] 6)) = Some v32 \<and> unat v32 = 0 \<and>
    fst (pb_decode_varint (pb_istream_from_buffer [0x80, 0x80, 0x80, 0x80, 0xF0, 0x00] 6)) = Some v64 \<and> unat v64 = 0x700000000"
proof -
  let ?s = "pb_istream_from_buffer [0x80, 0x80, 0x80, 0x80, 0xF0, 0x00] 6"
  have w: "wf_istream ?s" "visible ?s = [0x80, 0x80, 0x80, 0x80, 0xF0] @ [0x00] @ []"
    by (simp_all add: wf_istream_def visible_def pb_istream_from_buffer_def)
  have v: "varint_val [0x80, 0x80, 0x80, 0x80, 0xF0] = 0x700000000" by simp
  show ?thesis using varint32_drops_bits [OF w] unfolding v by fastforce
qed

text \<open>The bit position wraps around, so that a varint of 38 bytes is accepted, which the 64-bit decoder rejects.\<close>

lemma varint32_wraps:
  "fst (pb_decode_varint32 (pb_istream_from_buffer (replicate 37 0x80 @ [0x01]) 38)) = Some 8"
  "fst (pb_decode_varint (pb_istream_from_buffer (replicate 37 0x80 @ [0x01]) 38)) = None"
  by code_simp+

text \<open>What the encoders write, the decoders read, wherever it stands and whatever follows: varints, zigzag
  varints, fixed-width numbers and tags.\<close>

theorem scalars_round_trip:
  assumes "encoding_of (\<lambda>s. pb_encode_varint s v) n = Some b1" "encoding_of (\<lambda>s. pb_encode_svarint s v) n = Some b2"
    "encoding_of (\<lambda>s. pb_encode_fixed32 s w) n = Some b3" "encoding_of (\<lambda>s. pb_encode_fixed64 s v) n = Some b4"
    "encoding_of (\<lambda>s. pb_encode_tag s wt t) n = Some b5" "valid_tag (t, wt)"
  shows "pb_run pb_decode_varint (b1 @ r) = (Some v, r) \<and> pb_run pb_decode_svarint (b2 @ r) = (Some v, r) \<and>
    pb_run pb_decode_fixed32 (b3 @ r) = (Some w, r) \<and> pb_run pb_decode_fixed64 (b4 @ r) = (Some v, r) \<and>
    pb_run (\<lambda>s. case pb_decode_tag s of (x, eof, s) \<Rightarrow> (x, s)) (b5 @ r) = (Some (t, wt), r)"
proof -
  have l: "length (varint_bytes (unat (u :: 64 word))) < SIZE_MOD" for u using length_varint_64 [of u] by simp
  have "b1 = varint_bytes (unat v)" "b2 = varint_bytes (unat (zigzag v))" "b3 = fixed32_bytes w" "b4 = fixed64_bytes v"
    "b5 = varint_bytes (unat (tag_word (t, wt)))"
    using assms encoding_of_writer [OF writer_varint l, of v n] encoding_of_writer [OF writer_svarint l, of v n]
      encoding_of_writer [OF writer_fixed(1), of w n] encoding_of_writer [OF writer_fixed(2), of v n]
      encoding_of_writer [OF writer_pb_tag l, of "(t, wt)" n]
    by (auto simp: fixed32_bytes_def fixed64_bytes_def split: if_splits)
  then show ?thesis
    using pb_varint.dec_enc [of v r] pb_svarint.dec_enc [of v r] pb_fixed32.dec_enc [of w r] pb_fixed64.dec_enc [of v r]
      pb_tag.dec_enc [OF assms(6), of r] by simp
qed

lemma scalars_round_trip_witness:
  "pb_run pb_decode_varint ([0xAC, 0x02] @ [9]) = (Some 300, [9]) \<and> pb_run pb_decode_svarint ([0xD8, 0x04] @ [9]) = (Some 300, [9])"
proof -
  have z: "zigzag 300 = 600" by code_simp
  have tw: "tag_word (1, 2) = 10" by code_simp
  have e: "encoding_of (\<lambda>s. pb_encode_varint s 300) 10 = Some [0xAC, 0x02]"
    using encoding_of_writer [OF writer_varint, of 300 10] by (simp add: varint_bytes.simps)
  have f: "encoding_of (\<lambda>s. pb_encode_svarint s 300) 10 = Some [0xD8, 0x04]"
    using encoding_of_writer [OF writer_svarint, of 300 10] by (simp add: z varint_bytes.simps)
  have g: "encoding_of (\<lambda>s. pb_encode_fixed32 s 1) 10 = Some [1, 0, 0, 0]"
    using encoding_of_writer [OF writer_fixed(1), of 1 10] by (simp add: fixed32_bytes_def)
  have h: "encoding_of (\<lambda>s. pb_encode_fixed64 s 300) 10 = Some [0x2C, 1, 0, 0, 0, 0, 0, 0]"
    using encoding_of_writer [OF writer_fixed(2), of 300 10] by (simp add: fixed64_bytes_def)
  have i: "encoding_of (\<lambda>s. pb_encode_tag s 2 1) 10 = Some [10]"
    using encoding_of_writer [OF writer_pb_tag, of "(1, 2)" 10] by (simp add: tw varint_bytes.simps)
  have j: "valid_tag (1, 2)" by (simp add: valid_tag_def)
  show ?thesis using scalars_round_trip [OF e f g h i j, of "[9]"] by blast
qed

text \<open>The sizing pass is exact: on a stream that only counts, an encoder succeeds and counts at most ten bytes,
  and on a buffer of \<open>n\<close> bytes it succeeds if and only if that count is at most \<open>n\<close>.\<close>

theorem sizing_pass_exact:
  "fst (pb_encode_varint PB_OSTREAM_SIZING v) \<and> bytes_written (snd (pb_encode_varint PB_OSTREAM_SIZING v)) \<le> 10 \<and>
   (fst (pb_encode_varint (pb_ostream_from_buffer n) v) \<longleftrightarrow> bytes_written (snd (pb_encode_varint PB_OSTREAM_SIZING v)) \<le> n) \<and>
   fst (pb_encode_svarint PB_OSTREAM_SIZING v) \<and> bytes_written (snd (pb_encode_svarint PB_OSTREAM_SIZING v)) \<le> 10 \<and>
   (fst (pb_encode_svarint (pb_ostream_from_buffer n) v) \<longleftrightarrow> bytes_written (snd (pb_encode_svarint PB_OSTREAM_SIZING v)) \<le> n)"
proof -
  have b: "bytes_written PB_OSTREAM_SIZING = 0" by (simp add: PB_OSTREAM_SIZING_def)
  have l: "length (varint_bytes (unat (u :: 64 word))) < SIZE_MOD" for u using length_varint_64 [of u] by simp
  show ?thesis
    using varint_writer.sizing [OF l] varint_writer.to_buffer [OF l] svarint_writer.sizing [OF l] svarint_writer.to_buffer [OF l] length_varint_64
    by (simp add: b)
qed

text \<open>Skipping a field of unknown type moves the stream over its payload, the varint, the four or eight bytes or
  the string with its length, and no further.\<close>

theorem skip_field_exact:
  assumes "field_payload w p" "wf_istream s" "visible s = p @ r"
  shows "pb_skip_field s w = (True, advance (length p) s)"
  using assms by (rule skip_field)

lemma skip_field_exact_witness:
  "pb_skip_field (pb_istream_from_buffer [2, 7, 7, 1] 4) PB_WT_STRING = (True, advance 3 (pb_istream_from_buffer [2, 7, 7, 1] 4))"
proof -
  have "string_bytes [7, 7] = [2, 7, 7]" by (simp add: string_bytes_def varint_bytes.simps)
  then have p: "field_payload PB_WT_STRING [2, 7, 7]" by (auto simp: field_payload_def intro!: exI [of _ "[7, 7]"])
  show ?thesis
    using skip_field_exact [OF p, of "pb_istream_from_buffer [2, 7, 7, 1] 4" "[1]"]
    by (simp add: wf_istream_def visible_def pb_istream_from_buffer_def eval_nat_numeral)
qed

section \<open>Fields\<close>

text \<open>C26. A number field that is encoded and decoded again, over whatever was in its place, is the same in memory, byte for byte: an
  integer field of any size, signed, unsigned and zigzag, and a fixed-width field of four or eight bytes; a bool is true again
  if and only if it was. The whole input is read.\<close>

theorem number_fields_round_trip:
  assumes "num_field f x" "num_field f y"
    and "encoding_of (\<lambda>s. pb_enc_varint s f x) n = Some b1" "encoding_of (\<lambda>s. pb_enc_uvarint s f x) n = Some b2"
      "encoding_of (\<lambda>s. pb_enc_svarint s f x) n = Some b3" "encoding_of (\<lambda>s. pb_enc_fixed32 s f x) n = Some b4"
      "encoding_of (\<lambda>s. pb_enc_fixed64 s f x) n = Some b5" "encoding_of (\<lambda>s. pb_enc_bool s f x) n = Some b6"
  shows "(\<exists>s. pb_dec_varint (pb_istream_from_buffer b1 (length b1)) f y = (True, s, x) \<and> visible s = []) \<and>
    (\<exists>s. pb_dec_uvarint (pb_istream_from_buffer b2 (length b2)) f y = (True, s, x) \<and> visible s = []) \<and>
    (\<exists>s. pb_dec_svarint (pb_istream_from_buffer b3 (length b3)) f y = (True, s, x) \<and> visible s = []) \<and>
    (data_size f = 4 \<longrightarrow> (\<exists>s. pb_dec_fixed32 (pb_istream_from_buffer b4 (length b4)) f y = (True, s, x) \<and> visible s = [])) \<and>
    (data_size f = 8 \<longrightarrow> (\<exists>s. pb_dec_fixed64 (pb_istream_from_buffer b5 (length b5)) f y = (True, s, x) \<and> visible s = [])) \<and>
    (data_size f = 1 \<longrightarrow> (\<exists>s b. pb_dec_bool (pb_istream_from_buffer b6 (length b6)) f y = (True, s, [b]) \<and> (b = 0 \<longleftrightarrow> x = [0]) \<and> visible s = []))"
proof -
  have l: "length (varint_bytes (unat (u :: 64 word))) < SIZE_MOD" for u using length_varint_64 [of u] by simp
  have len: "length x = data_size f" "length y = data_size f" using assms(1,2) by (simp_all add: num_field_def)
  have 4: "\<exists>s. pb_dec_fixed32 (pb_istream_from_buffer b4 (length b4)) f y = (True, s, x) \<and> visible s = []" if "data_size f = 4"
  proof -
    have "length x = 4" "length y = 4" "length x < SIZE_MOD" using len that by simp_all
    from field_fixed32.through_buffer [OF this assms(6)] show ?thesis by metis
  qed
  have 8: "\<exists>s. pb_dec_fixed64 (pb_istream_from_buffer b5 (length b5)) f y = (True, s, x) \<and> visible s = []" if "data_size f = 8"
  proof -
    have "length x = 8" "length y = 8" "length x < SIZE_MOD" using len that by simp_all
    from field_fixed64.through_buffer [OF this assms(7)] show ?thesis by metis
  qed
  have 1: "\<exists>s b. pb_dec_bool (pb_istream_from_buffer b6 (length b6)) f y = (True, s, [b]) \<and> (b = 0 \<longleftrightarrow> x = [0]) \<and> visible s = []" if "data_size f = 1"
  proof -
    have x: "length x = 1" "length y = 1" "length (bool_content x) < SIZE_MOD" using len that by (simp_all add: bool_content_def)
    obtain s y' where y': "pb_dec_bool (pb_istream_from_buffer b6 (length b6)) f y = (True, s, y')" "visible s = []"
      "length y' = 1" "bool_content y' = bool_content x"
      by (rule field_bool.through_buffer [OF x assms(8)])
    obtain b c where "y' = [b]" "x = [c]" using y'(3) x(1) by (auto simp: length_Suc_0)
    then show ?thesis using y' by (intro exI [of _ s] exI [of _ b]) (auto simp: bool_content_def split: if_splits)
  qed
  have "\<exists>s. pb_dec_varint (pb_istream_from_buffer b1 (length b1)) f y = (True, s, x) \<and> visible s = []"
    using field_varint.through_buffer [OF assms(1,2) l assms(3)] by metis
  moreover have "\<exists>s. pb_dec_uvarint (pb_istream_from_buffer b2 (length b2)) f y = (True, s, x) \<and> visible s = []"
    using field_uvarint.through_buffer [OF assms(1,2) l assms(4)] by metis
  moreover have "\<exists>s. pb_dec_svarint (pb_istream_from_buffer b3 (length b3)) f y = (True, s, x) \<and> visible s = []"
    using field_svarint.through_buffer [OF assms(1,2) l assms(5)] by metis
  ultimately show ?thesis using 4 8 1 by (intro conjI impI)
qed

text \<open>Two bytes over two others as a zigzag varint, and four bytes as a number of fixed width.\<close>

lemma number_fields_round_trip_witness:
  "(\<exists>s. pb_dec_svarint (pb_istream_from_buffer [0x0A] 1)
     \<lparr>tag = 1, ftype = 1, data_offset = 0, size_offset = 0, data_size = 4, array_size = 0, ptr = 0\<rparr> [7, 7, 7, 7] = (True, s, [5, 0, 0, 0]) \<and> visible s = []) \<and>
   (\<exists>s. pb_dec_fixed32 (pb_istream_from_buffer [5, 0, 0, 0] 4)
     \<lparr>tag = 1, ftype = 1, data_offset = 0, size_offset = 0, data_size = 4, array_size = 0, ptr = 0\<rparr> [7, 7, 7, 7] = (True, s, [5, 0, 0, 0]) \<and> visible s = [])"
proof -
  let ?f = "\<lparr>tag = 1, ftype = 1, data_offset = 0, size_offset = 0, data_size = 4, array_size = 0, ptr = 0\<rparr>" and ?x = "[5, 0, 0, 0] :: bytes"
  have f: "num_field ?f ?x" "num_field ?f [7, 7, 7, 7]" by (simp_all add: num_field_def)
  have v: "sext 4 (le_val ?x) = 5" "le_val ?x = 5" "zigzag 5 = 10" "load 4 ?x = 5" "load 8 ?x = 5" by code_simp+
  have e: "encoding_of (\<lambda>s. pb_enc_varint s ?f ?x) 10 = Some [5]"
    using encoding_of_writer [OF field_varint.encodes [OF f(1)], of 10] v by (simp add: varint_bytes.simps)
  have g: "encoding_of (\<lambda>s. pb_enc_uvarint s ?f ?x) 10 = Some [5]"
    using encoding_of_writer [OF field_uvarint.encodes [OF f(1)], of 10] v by (simp add: varint_bytes.simps)
  have h: "encoding_of (\<lambda>s. pb_enc_svarint s ?f ?x) 10 = Some [10]"
    using encoding_of_writer [OF field_svarint.encodes [OF f(1)], of 10] v by (simp add: varint_bytes.simps)
  have i: "encoding_of (\<lambda>s. pb_enc_fixed32 s ?f ?x) 10 = Some [5, 0, 0, 0]"
    using encoding_of_writer [OF writer_fixed(1), of 5 10] v(4) by (simp add: pb_enc_fixed32_def fixed32_bytes_def)
  have j: "encoding_of (\<lambda>s. pb_enc_fixed64 s ?f ?x) 10 = Some [5, 0, 0, 0, 0, 0, 0, 0]"
    using encoding_of_writer [OF writer_fixed(2), of 5 10] v(5) by (simp add: pb_enc_fixed64_def fixed64_bytes_def)
  have k: "encoding_of (\<lambda>s. pb_enc_bool s ?f ?x) 10 = Some [1]"
    using encoding_of_writer [OF writer_varint, of 1 10] by (simp add: pb_enc_bool_def safe_read_bool_def varint_bytes.simps)
  have len: "length [0x0A :: byte] = 1" "length ?x = 4" by simp_all
  show ?thesis using number_fields_round_trip [OF f e g h i j k] unfolding len by simp
qed

text \<open>C27. A string field and a bytes field that are encoded and decoded again have the same content, in place or in a
  block allocated for it, and encode to the same bytes again.\<close>

theorem string_fields_round_trip:
  assumes "string_object f x" "room_for re f (length (string_content x) + 1) y" "encoding_of (\<lambda>s. pb_enc_string s f x) n = Some b1"
    and "bytes_object f u" "room_for re f (bytes_offset + length (bytes_content u)) v" "encoding_of (\<lambda>s. pb_enc_bytes s f u) n = Some b2"
  shows "(\<exists>s y'. pb_dec_string re (pb_istream_from_buffer b1 (length b1)) f y = (True, s, y') \<and> visible s = [] \<and>
      string_content y' = string_content x \<and> encoding_of (\<lambda>s. pb_enc_string s f y') n = Some b1) \<and>
    (\<exists>s v'. pb_dec_bytes re (pb_istream_from_buffer b2 (length b2)) f v = (True, s, v') \<and> visible s = [] \<and>
      bytes_content v' = bytes_content u \<and> encoding_of (\<lambda>s. pb_enc_bytes s f v') n = Some b2)"
proof -
  have l: "length (string_bytes (string_content x)) < SIZE_MOD" "length (string_bytes (bytes_content u)) < SIZE_MOD"
    using assms(1) length_bytes_content [OF assms(4)] by (auto intro!: length_string_bytes simp: string_object_def)
  show ?thesis
    using field_string.through_buffer [OF assms(1,2) l(1) assms(3)] field_bytes.through_buffer [OF assms(4,5) l(2) assms(6)] by metis
qed

lemma string_fields_round_trip_witness:
  "\<exists>s y'. pb_dec_string (\<lambda>p n. Some (replicate n 0)) (pb_istream_from_buffer [2, 65, 66] 3)
     \<lparr>tag = 1, ftype = 0x87, data_offset = 0, size_offset = 0, data_size = 8, array_size = 0, ptr = 0\<rparr> None = (True, s, y') \<and> visible s = [] \<and>
     string_content y' = [65, 66]"
proof -
  let ?f = "\<lparr>tag = 1, ftype = 0x87, data_offset = 0, size_offset = 0, data_size = 8, array_size = 0, ptr = 0\<rparr>"
  have c: "string_content (Some [65, 66, 0]) = [65, 66]" by (simp add: string_content_def)
  have f: "string_object ?f (Some [65, 66, 0])" "room_for (\<lambda>p n. Some (replicate n 0)) ?f (length (string_content (Some [65, 66, 0])) + 1) None"
    by (simp_all add: string_object_def room_for_def PB_ATYPE_def c)
  have e: "encoding_of (\<lambda>s. pb_enc_string s ?f (Some [65, 66, 0])) 10 = Some [2, 65, 66]"
    using encoding_of_writer [OF field_string.encodes [OF f(1)], of 10] by (simp add: c string_bytes_def varint_bytes.simps)
  have g: "bytes_object ?f None" "room_for (\<lambda>p n. Some (replicate n 0)) ?f (bytes_offset + length (bytes_content None)) None"
    by (simp_all add: bytes_object_def room_for_def PB_ATYPE_def bytes_content_def)
  have h: "encoding_of (\<lambda>s. pb_enc_bytes s ?f None) 10 = Some [0]"
    using encoding_of_writer [OF field_bytes.encodes [OF g(1)], of 10] by (simp add: bytes_content_def string_bytes_def varint_bytes.simps)
  show ?thesis using string_fields_round_trip [OF f e g h] c by (auto simp: numeral_3_eq_3)
qed

text \<open>C36. Whatever the input, decoding a string or a bytes field writes only in its place, whether or not it succeeds. Without a length on
  the stream nothing is written. For a length \<open>n\<close> a static field that is too small for the value and its count or its terminator is
  not touched, and another keeps its size and what comes after them; a pointer field is as before, or, if the stream
  has \<open>n\<close> bytes, has a new block of exactly this size.\<close>

theorem decoders_write_in_place:
  assumes "allocator re" "right_object f y"
  shows "case pb_decode_varint32 s of
      (None, s1) \<Rightarrow> pb_dec_bytes re s f y = (False, s1, y) \<and> pb_dec_string re s f y = (False, s1, y)
    | (Some n, s1) \<Rightarrow> in_place re f (unat n) bytes_offset (bytes_left s1) y (snd (snd (pb_dec_bytes re s f y))) \<and>
        in_place re f (unat n) 1 (bytes_left s1) y (snd (snd (pb_dec_string re s f y)))"
proof (cases "pb_decode_varint32 s")
  case (Pair r s1)
  show ?thesis
  proof (cases r)
    case None
    then show ?thesis using Pair dec_no_length by simp
  next
    case (Some n)
    then have v: "pb_decode_varint32 s = (Some n, s1)" using Pair by simp
    have "in_place re f (unat n) bytes_offset (bytes_left s1) y (snd (snd (pb_dec_bytes re s f y)))"
      by (cases "pb_dec_bytes re s f y") (use dec_bytes_in_place [OF assms v] in auto)
    moreover have "in_place re f (unat n) 1 (bytes_left s1) y (snd (snd (pb_dec_string re s f y)))"
      by (cases "pb_dec_string re s f y") (use dec_string_in_place [OF assms v] in auto)
    ultimately show ?thesis using v by simp
  qed
qed

text \<open>A string of two bytes in a field of six; one of six bytes does not fit, and the field is not touched.\<close>

lemma decoders_write_in_place_witness:
  "\<exists>ok s' b. pb_dec_string (\<lambda>p n. Some (replicate n 0)) (pb_istream_from_buffer [2, 65, 66] 3)
      \<lparr>tag = 1, ftype = 0x07, data_offset = 0, size_offset = 0, data_size = 6, array_size = 0, ptr = 0\<rparr> (Some [9, 9, 9, 9, 9, 9]) = (ok, s', Some b)
    \<and> length b = 6 \<and> drop 3 b = [9, 9, 9]"
proof -
  let ?f = "\<lparr>tag = 1, ftype = 0x07, data_offset = 0, size_offset = 0, data_size = 6, array_size = 0, ptr = 0\<rparr>"
  let ?re = "\<lambda>p n. Some (replicate n 0)" and ?s = "pb_istream_from_buffer [2, 65, 66] 3" and ?y = "Some [9, 9, 9, 9, 9, 9]"
  have a: "allocator ?re" "right_object ?f ?y" by (simp_all add: allocator_def right_object_def)
  have v: "pb_decode_varint32 ?s = (Some 2, \<lparr>istate = [65, 66], bytes_left = 2, ierrmsg = None\<rparr>)" by code_simp
  have "in_place ?re ?f 2 1 2 ?y (snd (snd (pb_dec_string ?re ?s ?f ?y)))"
    using decoders_write_in_place [OF a, of ?s] unfolding v by simp
  then obtain b where "snd (snd (pb_dec_string ?re ?s ?f ?y)) = Some b" "length b = 6" "drop 3 b = [9, 9, 9]"
    by (auto simp: in_place_def PB_ATYPE_def)
  then show ?thesis by (metis prod.collapse)
qed

section \<open>The iterator\<close>

text \<open>The search for a field returns from every position: it stops at the first field, in cyclic order from the
  current one, that has the tag and is not an extension, and the iterator is then as after so many steps; if
  there is none it returns false with the iterator where it was.\<close>

theorem iter_find_exact:
  assumes "wf_fields fs" "k < field_count fs"
  shows "\<exists>ok it. pb_field_iter_find (iter_at fs dest k) t = Some (ok, it) \<and>
    (if ok then \<exists>i<field_count fs. it = iter_at fs dest ((k + i) mod field_count fs) \<and> is_wanted t (fs ! ((k + i) mod field_count fs))
         \<and> (\<forall>i'<i. \<not> is_wanted t (fs ! ((k + i') mod field_count fs)))
     else it = iter_at fs dest k \<and> (\<forall>i<field_count fs. \<not> is_wanted t (fs ! ((k + i) mod field_count fs))))"
  using assms by (rule find_returns)

abbreviation sample_fields :: "pb_field list" where
  "sample_fields \<equiv>
    [\<lparr>tag = 1, ftype = 1, data_offset = 0, size_offset = 0, data_size = 4, array_size = 0, ptr = 0\<rparr>,
     \<lparr>tag = 5, ftype = 1, data_offset = 4, size_offset = 0, data_size = 8, array_size = 0, ptr = 0\<rparr>,
     \<lparr>tag = 0, ftype = 0, data_offset = 0, size_offset = 0, data_size = 0, array_size = 0, ptr = 0\<rparr>]"

lemma iter_find_exact_witness:
  "\<exists>ok it. pb_field_iter_find (iter_at sample_fields 100 1) 7 = Some (ok, it)"
proof -
  have w: "wf_fields sample_fields" by (simp add: wf_fields_def)
  have k: "1 < field_count sample_fields" by simp
  show ?thesis using iter_find_exact [OF w k, of 100 7] by blast
qed

text \<open>Fields that are not members of the same union do not overlap: the bytes of a field end before the next
  fields begin.\<close>

theorem iter_fields_disjoint:
  assumes "wf_fields fs" "i < j" "j < field_count fs" "\<forall>k<j. \<not> in_union fs k"
  shows "pData (iter_at fs dest i) + int (field_extent (fs ! i)) \<le> pData (iter_at fs dest j)"
  using assms by (rule fields_disjoint)

lemma iter_fields_disjoint_witness: "pData (iter_at sample_fields 100 0) + 4 \<le> pData (iter_at sample_fields 100 1)"
proof -
  have w: "wf_fields sample_fields" by (simp add: wf_fields_def)
  have u: "\<forall>k<1. \<not> in_union sample_fields k" by (simp add: in_union_def PB_HTYPE_def)
  show ?thesis using iter_fields_disjoint [OF w _ _ u, of 0 100] by (simp add: field_extent_def PB_ATYPE_def PB_HTYPE_def)
qed

end
