(* ===== verification/PbMem.thy ===== *)
theory PbMem
  imports PbIter
begin

text \<open>
  The memory that the messages of nanopb are in. An address is an integer, 0 is NULL, and a memory gives every address
  its byte; pointers have eight bytes and \<open>pb_size_t\<close> four, little-endian. What the code takes from outside is a
  record: \<open>realloc\<close> and \<open>free\<close>, the functions that function pointers stand for, and the constant arrays of field
  descriptions by their address.
\<close>

section \<open>Memory\<close>

type_synonym mem = "int \<Rightarrow> byte"

definition mload :: "mem \<Rightarrow> int \<Rightarrow> nat \<Rightarrow> bytes" where
  "mload m a n = map (\<lambda>i. m (a + int i)) [0..<n]"

definition mstore :: "mem \<Rightarrow> int \<Rightarrow> bytes \<Rightarrow> mem" where
  "mstore m a bs = (\<lambda>x. if a \<le> x \<and> x < a + int (length bs) then bs ! nat (x - a) else m x)"

definition load_size :: "mem \<Rightarrow> int \<Rightarrow> 32 word" where
  "load_size m a = ucast (le_val (mload m a 4))"

definition store_size :: "mem \<Rightarrow> int \<Rightarrow> 32 word \<Rightarrow> mem" where
  "store_size m a v = mstore m a (le_bytes 4 (ucast v))"

definition load_ptr :: "mem \<Rightarrow> int \<Rightarrow> int" where
  "load_ptr m a = int (unat (le_val (mload m a 8)))"

definition store_ptr :: "mem \<Rightarrow> int \<Rightarrow> int \<Rightarrow> mem" where
  "store_ptr m a p = mstore m a (le_bytes 8 (word_of_int p))"

definition store_bool :: "mem \<Rightarrow> int \<Rightarrow> bool \<Rightarrow> mem" where
  "store_bool m a b = mstore m a [if b then 1 else 0]"

text \<open>The functions behind the pointers of callbacks and extensions take the stream, what describes the field, the
  address of the argument or of the extension, and the memory.\<close>

record pb_env =
  plat_realloc :: "mem \<Rightarrow> int \<Rightarrow> nat \<Rightarrow> int \<times> mem"
  plat_free :: "mem \<Rightarrow> int \<Rightarrow> mem"
  fields_at :: "int \<Rightarrow> pb_field list"
  decode_fn :: "int \<Rightarrow> istream \<Rightarrow> pb_field \<Rightarrow> int \<Rightarrow> mem \<Rightarrow> bool \<times> istream \<times> mem"
  encode_fn :: "int \<Rightarrow> ostream \<Rightarrow> pb_field \<Rightarrow> int \<Rightarrow> mem \<Rightarrow> bool \<times> ostream"
  ext_decode_fn :: "int \<Rightarrow> istream \<Rightarrow> int \<Rightarrow> 32 word \<Rightarrow> 32 word \<Rightarrow> mem \<Rightarrow> bool \<times> istream \<times> mem"
  ext_encode_fn :: "int \<Rightarrow> ostream \<Rightarrow> int \<Rightarrow> mem \<Rightarrow> bool \<times> ostream"

section \<open>Facts about memory\<close>

text \<open>Two memories agree outside \<open>n\<close> bytes from \<open>a\<close> on.\<close>

definition same_outside :: "int \<Rightarrow> nat \<Rightarrow> mem \<Rightarrow> mem \<Rightarrow> bool" where
  "same_outside a n m m' \<longleftrightarrow> (\<forall>x. x < a \<or> a + int n \<le> x \<longrightarrow> m' x = m x)"

named_theorems outside

lemma length_mload [simp]: "length (mload m a n) = n"
  by (simp add: mload_def)

lemma nth_mload [simp]: "i < n \<Longrightarrow> mload m a n ! i = m (a + int i)"
  by (simp add: mload_def)

lemma same_outside_refl [simp, outside]: "same_outside a n m m"
  by (simp add: same_outside_def)

lemma same_outside_trans [trans]: "same_outside a n m m' \<Longrightarrow> same_outside a n m' m'' \<Longrightarrow> same_outside a n m m''"
  by (simp add: same_outside_def)

lemma same_outside_mono: "same_outside b k m m' \<Longrightarrow> a \<le> b \<Longrightarrow> b + int k \<le> a + int n \<Longrightarrow> same_outside a n m m'"
  by (auto simp: same_outside_def)

lemma mstore_outside [outside]: "a \<le> b \<Longrightarrow> b + int (length bs) \<le> a + int n \<Longrightarrow> same_outside a n m (mstore m b bs)"
  by (auto simp: same_outside_def mstore_def)

lemma store_size_outside [outside]: "a \<le> b \<Longrightarrow> b + 4 \<le> a + int n \<Longrightarrow> same_outside a n m (store_size m b v)"
  by (simp add: store_size_def mstore_outside)

lemma store_bool_outside [outside]: "a \<le> b \<Longrightarrow> b + 1 \<le> a + int n \<Longrightarrow> same_outside a n m (store_bool m b v)"
  by (simp add: store_bool_def mstore_outside)

lemma mload_mstore [simp]: "mload (mstore m a bs) a (length bs) = bs"
  by (rule nth_equalityI) (simp_all add: mstore_def)

lemma mload_outside:
  assumes "same_outside a n m m'" "b + int k \<le> a \<or> a + int n \<le> b"
  shows "mload m' b k = mload m b k"
  using assms by (intro nth_equalityI) (auto simp: same_outside_def)

lemma mload_other: "b + int k \<le> a \<or> a + int (length bs) \<le> b \<Longrightarrow> mload (mstore m a bs) b k = mload m b k"
  by (rule mload_outside [of a "length bs"]) (auto intro: mstore_outside)

section \<open>Field decoders in memory\<close>

text \<open>A decoder of \<open>PbFields\<close> on the bytes of the field where they are.\<close>

definition on_object :: "(istream \<Rightarrow> pb_field \<Rightarrow> bytes \<Rightarrow> bool \<times> istream \<times> bytes) \<Rightarrow> istream \<Rightarrow> pb_field \<Rightarrow> int \<Rightarrow> mem \<Rightarrow> bool \<times> istream \<times> mem" where
  "on_object dec s f a m = (case dec s f (mload m a (data_size f)) of (ok, s, obj) \<Rightarrow> (ok, s, mstore m a obj))"

definition scalar_decoder :: "byte \<Rightarrow> istream \<Rightarrow> pb_field \<Rightarrow> bytes \<Rightarrow> bool \<times> istream \<times> bytes" where
  "scalar_decoder ltype =
     (if ltype = PB_LTYPE_BOOL then pb_dec_bool
      else if ltype = PB_LTYPE_VARINT then pb_dec_varint
      else if ltype = 0x02 then pb_dec_uvarint
      else if ltype = 0x03 then pb_dec_svarint
      else if ltype = PB_LTYPE_FIXED32 then pb_dec_fixed32
      else pb_dec_fixed64)"

text \<open>\<open>allocate_field\<close> on the pointer at \<open>a\<close>.\<close>

definition allocate_field_at :: "pb_env \<Rightarrow> istream \<Rightarrow> int \<Rightarrow> nat \<Rightarrow> nat \<Rightarrow> mem \<Rightarrow> bool \<times> istream \<times> mem" where
  "allocate_field_at env s a n cnt m =
     (if n = 0 \<or> cnt = 0 then (False, PB_SET_ERROR s ''invalid size'', m)
      else if (2 ^ 32 \<le> n \<or> 2 ^ 32 \<le> cnt) \<and> (SIZE_MOD - 1) div cnt < n then (False, PB_SET_ERROR s ''size too large'', m)
      else (case plat_realloc env m (load_ptr m a) (szmul cnt n) of
              (p, m) \<Rightarrow> if p = 0 then (False, PB_SET_ERROR s ''realloc failed'', m) else (True, s, store_ptr m a p)))"

text \<open>\<open>pb_dec_bytes\<close> and \<open>pb_dec_string\<close>: on the object of a static field, or on the block that the pointer at \<open>dest\<close> gets.\<close>

definition static_dec :: "((bytes option \<Rightarrow> nat \<Rightarrow> bytes option) \<Rightarrow> istream \<Rightarrow> pb_field \<Rightarrow> bytes option \<Rightarrow> bool \<times> istream \<times> bytes option)
    \<Rightarrow> istream \<Rightarrow> pb_field \<Rightarrow> bytes \<Rightarrow> bool \<times> istream \<times> bytes" where
  "static_dec dec s f obj = (case dec (\<lambda>_ _. None) s f (Some obj) of (ok, s, obj') \<Rightarrow> (ok, s, the obj'))"

definition dec_bytes_at :: "pb_env \<Rightarrow> istream \<Rightarrow> pb_field \<Rightarrow> int \<Rightarrow> mem \<Rightarrow> bool \<times> istream \<times> mem" where
  "dec_bytes_at env s f dest m =
     (if PB_ATYPE (ftype f) \<noteq> PB_ATYPE_POINTER then on_object (static_dec pb_dec_bytes) s f dest m
      else
        (case pb_decode_varint32 s of
           (None, s) \<Rightarrow> (False, s, m)
         | (Some sz, s) \<Rightarrow>
             (let n = unat sz; alloc_size = PB_BYTES_ARRAY_T_ALLOCSIZE n
              in if PB_SIZE_MAX < n then (False, PB_SET_ERROR s ''bytes overflow'', m)
                 else if alloc_size < n then (False, PB_SET_ERROR s ''size too large'', m)
                 else if bytes_left s < n then (False, PB_SET_ERROR s ''end-of-stream'', m)
                 else (case allocate_field_at env s dest alloc_size 1 m of
                         (False, s, m) \<Rightarrow> (False, s, m)
                       | (True, s, m) \<Rightarrow>
                           (let bdest = load_ptr m dest; m = store_size m bdest sz
                            in case pb_read s n of
                                 (None, s) \<Rightarrow> (False, s, m)
                               | (Some bs, s) \<Rightarrow> (True, s, mstore m (bdest + int bytes_offset) bs))))))"

definition dec_string_at :: "pb_env \<Rightarrow> istream \<Rightarrow> pb_field \<Rightarrow> int \<Rightarrow> mem \<Rightarrow> bool \<times> istream \<times> mem" where
  "dec_string_at env s f dest m =
     (if PB_ATYPE (ftype f) \<noteq> PB_ATYPE_POINTER then on_object (static_dec pb_dec_string) s f dest m
      else
        (case pb_decode_varint32 s of
           (None, s) \<Rightarrow> (False, s, m)
         | (Some sz, s) \<Rightarrow>
             (let n = unat sz; alloc_size = unat (sz + 1)
              in if alloc_size < n then (False, PB_SET_ERROR s ''size too large'', m)
                 else if bytes_left s < n then (False, PB_SET_ERROR s ''end-of-stream'', m)
                 else (case allocate_field_at env s dest alloc_size 1 m of
                         (False, s, m) \<Rightarrow> (False, s, m)
                       | (True, s, m) \<Rightarrow>
                           (let p = load_ptr m dest
                            in case pb_read s n of
                                 (None, s) \<Rightarrow> (False, s, mstore m (p + int n) [0])
                               | (Some bs, s) \<Rightarrow> (True, s, mstore (mstore m p bs) (p + int n) [0]))))))"

text \<open>What a message needs of the messages in it: \<open>pb_decode_noinit\<close>, \<open>pb_decode\<close>, \<open>pb_message_set_to_defaults\<close> and
  \<open>pb_release_single_field\<close>. \<open>None\<close> stands for a call that does not return.\<close>

record pb_nested =
  n_noinit :: "istream \<Rightarrow> pb_field list \<Rightarrow> int \<Rightarrow> mem \<Rightarrow> (bool \<times> istream \<times> mem) option"
  n_decode :: "istream \<Rightarrow> pb_field list \<Rightarrow> int \<Rightarrow> mem \<Rightarrow> (bool \<times> istream \<times> mem) option"
  n_defaults :: "pb_field list \<Rightarrow> int \<Rightarrow> mem \<Rightarrow> mem option"
  n_release :: "pb_field_iter \<Rightarrow> mem \<Rightarrow> mem option"

definition pb_dec_submessage :: "pb_env \<Rightarrow> pb_nested \<Rightarrow> istream \<Rightarrow> pb_field \<Rightarrow> int \<Rightarrow> mem \<Rightarrow> (bool \<times> istream \<times> mem) option" where
  "pb_dec_submessage env nested s f dest m =
     (case pb_make_string_substream s of
        (None, s) \<Rightarrow> Some (False, s, m)
      | (Some substream, s) \<Rightarrow>
          (if ptr f = 0 then Some (False, PB_SET_ERROR s ''invalid field descriptor'', m)
           else
             Option.bind ((if PB_HTYPE (ftype f) = PB_HTYPE_REPEATED then n_decode nested else n_noinit nested) substream (fields_at env (ptr f)) dest m)
               (\<lambda>(status, substream, m).
                  case pb_close_string_substream s substream of
                    (False, s) \<Rightarrow> Some (False, s, m)
                  | (True, s) \<Rightarrow> Some (status, s, m))))"

text \<open>The table \<open>PB_DECODERS\<close>. The entry of extensions is a NULL pointer, and there is none past the last type: calling
  it does not return.\<close>

definition PB_DECODERS :: "pb_env \<Rightarrow> pb_nested \<Rightarrow> istream \<Rightarrow> pb_field \<Rightarrow> int \<Rightarrow> mem \<Rightarrow> (bool \<times> istream \<times> mem) option" where
  "PB_DECODERS env nested s f a m =
     (let ltype = PB_LTYPE (ftype f)
      in if ltype \<le> PB_LTYPE_LAST_PACKABLE then Some (on_object (scalar_decoder ltype) s f a m)
         else if ltype = PB_LTYPE_BYTES then Some (dec_bytes_at env s f a m)
         else if ltype = PB_LTYPE_STRING then Some (dec_string_at env s f a m)
         else if ltype = PB_LTYPE_SUBMESSAGE then pb_dec_submessage env nested s f a m
         else if ltype = PB_LTYPE_FIXED_LENGTH_BYTES then Some (on_object pb_dec_fixed_length_bytes s f a m)
         else None)"

end
