(* ===== verification/PbDecode.thy ===== *)
theory PbDecode
  imports PbMem
begin

text \<open>
  \<open>nanopb/pb_decode.c\<close>, decoding a message into its structure in memory: default values, releasing, the fields by kind
  of allocation, extensions, and the loop over the fields of a stream. Loops are partial functions and
  nested messages go by a depth; \<open>None\<close> is a call that does not return, or not within the depth.
\<close>

section \<open>Walking over the fields and the extensions\<close>

text \<open>\<open>do f(&iter); while (pb_field_iter_next(&iter))\<close>, left early where \<open>f\<close> returns false.\<close>

partial_function (option) each_field :: "(pb_field_iter \<Rightarrow> 's \<Rightarrow> (bool \<times> 's) option) \<Rightarrow> pb_field_iter \<Rightarrow> 's \<Rightarrow> (bool \<times> 's) option" where
  "each_field f it st =
     Option.bind (f it st) (\<lambda>(go, st).
       if \<not> go then Some (False, st)
       else (let (more, it) = pb_field_iter_next it in if more then each_field f it st else Some (True, st)))"

text \<open>The walk over a list of extensions, whose \<open>next\<close> is at offset 16.\<close>

partial_function (option) each_extension :: "(int \<Rightarrow> mem \<Rightarrow> mem option) \<Rightarrow> int \<Rightarrow> mem \<Rightarrow> mem option" where
  "each_extension f ext m =
     (if ext = 0 then Some m else Option.bind (f ext m) (\<lambda>m. each_extension f (load_ptr m (ext + 16)) m))"

text \<open>The members of \<open>pb_extension_t\<close> are at 0 (\<open>type\<close>), 8 (\<open>dest\<close>), 16 and 24 (\<open>found\<close>), those of \<open>pb_extension_type_t\<close> at 0
  (\<open>decode\<close>), 8 (\<open>encode\<close>) and 16 (\<open>arg\<close>).\<close>

definition ext_fields :: "pb_env \<Rightarrow> int \<Rightarrow> mem \<Rightarrow> pb_field list" where
  "ext_fields env ext m = fields_at env (load_ptr m (load_ptr m ext + 16))"

definition iter_from_extension :: "pb_env \<Rightarrow> int \<Rightarrow> mem \<Rightarrow> pb_field_iter" where
  "iter_from_extension env ext m =
     (let fs = ext_fields env ext m; dest = load_ptr m (ext + 8);
          it = (snd (pb_field_iter_begin fs dest))\<lparr>pData := dest, pSize := ext + 24\<rparr>
      in if PB_ATYPE (ftype (fs ! 0)) = PB_ATYPE_POINTER then it\<lparr>pData := ext + 8\<rparr> else it)"

section \<open>Default values\<close>

definition message_defaults :: "(pb_field_iter \<Rightarrow> mem \<Rightarrow> mem option) \<Rightarrow> pb_field list \<Rightarrow> int \<Rightarrow> mem \<Rightarrow> mem option" where
  "message_defaults set_default fs dest m =
     (case pb_field_iter_begin fs dest of
        (False, it) \<Rightarrow> Some m
      | (True, it) \<Rightarrow> map_option snd (each_field (\<lambda>it m. map_option (Pair True) (set_default it m)) it m))"

fun pb_field_set_to_default :: "pb_env \<Rightarrow> nat \<Rightarrow> pb_field_iter \<Rightarrow> mem \<Rightarrow> mem option" where
  "pb_field_set_to_default env 0 it m = None"
| "pb_field_set_to_default env (Suc d) it m =
     (let f = pos_field it; type = ftype f
      in if PB_LTYPE type = PB_LTYPE_EXTENSION then
           each_extension (\<lambda>ext m. (let m = store_bool m (ext + 24) False
              in pb_field_set_to_default env d (iter_from_extension env ext m) m)) (load_ptr m (pData it)) m
         else if PB_ATYPE type = PB_ATYPE_STATIC then
           (let (init_data, m) =
                  (if PB_HTYPE type = PB_HTYPE_OPTIONAL \<and> pSize it \<noteq> pData it then (True, store_bool m (pSize it) False)
                   else if PB_HTYPE type = PB_HTYPE_REPEATED \<or> PB_HTYPE type = PB_HTYPE_ONEOF then (False, store_size m (pSize it) 0)
                   else (True, m))
            in if \<not> init_data then Some m
               else if PB_LTYPE type = PB_LTYPE_SUBMESSAGE
                    then message_defaults (pb_field_set_to_default env d) (fields_at env (ptr f)) (pData it) m
               else if ptr f \<noteq> 0 then Some (mstore m (pData it) (mload m (ptr f) (data_size f)))
               else Some (mstore m (pData it) (replicate (data_size f) 0)))
         else if PB_ATYPE type = PB_ATYPE_POINTER then
           (let m = store_ptr m (pData it) 0
            in Some (if PB_HTYPE type = PB_HTYPE_REPEATED \<or> PB_HTYPE type = PB_HTYPE_ONEOF then store_size m (pSize it) 0 else m))
         else Some m)"

definition pb_message_set_to_defaults :: "pb_env \<Rightarrow> nat \<Rightarrow> pb_field list \<Rightarrow> int \<Rightarrow> mem \<Rightarrow> mem option" where
  "pb_message_set_to_defaults env d = message_defaults (pb_field_set_to_default env d)"

section \<open>Releasing\<close>

definition message_release :: "(pb_field_iter \<Rightarrow> mem \<Rightarrow> mem option) \<Rightarrow> pb_field list \<Rightarrow> int \<Rightarrow> mem \<Rightarrow> mem option" where
  "message_release release_field fs dest m =
     (if dest = 0 then Some m
      else (case pb_field_iter_begin fs dest of
              (False, it) \<Rightarrow> Some m
            | (True, it) \<Rightarrow> map_option snd (each_field (\<lambda>it m. map_option (Pair True) (release_field it m)) it m)))"

text \<open>The loops over the items of an array: nested messages of the given size, and the blocks of strings.\<close>

fun release_items :: "(int \<Rightarrow> mem \<Rightarrow> mem option) \<Rightarrow> nat \<Rightarrow> nat \<Rightarrow> int \<Rightarrow> mem \<Rightarrow> mem option" where
  "release_items release 0 item_size p m = Some m"
| "release_items release (Suc count) item_size p m =
     Option.bind (release p m) (release_items release count item_size (p + int item_size))"

fun free_items :: "pb_env \<Rightarrow> nat \<Rightarrow> int \<Rightarrow> mem \<Rightarrow> mem" where
  "free_items env 0 p m = m"
| "free_items env (Suc count) p m = free_items env count (p + 8) (store_ptr (plat_free env m (load_ptr m p)) p 0)"

definition release_count :: "pb_field_iter \<Rightarrow> mem \<Rightarrow> nat" where
  "release_count it m =
     (let f = pos_field it
      in if PB_HTYPE (ftype f) \<noteq> PB_HTYPE_REPEATED then 1
         else
           (let count = (if PB_ATYPE (ftype f) = PB_ATYPE_STATIC \<and> pSize it = pData it then array_size f
                         else unat (load_size m (pSize it)))
            in if PB_ATYPE (ftype f) = PB_ATYPE_STATIC \<and> array_size f < count then array_size f else count))"

definition release_pointer :: "pb_env \<Rightarrow> pb_field_iter \<Rightarrow> mem \<Rightarrow> mem" where
  "release_pointer env it m =
     (let type = ftype (pos_field it);
          m = (if PB_HTYPE type = PB_HTYPE_REPEATED \<and> (PB_LTYPE type = PB_LTYPE_STRING \<or> PB_LTYPE type = PB_LTYPE_BYTES)
               then free_items env (unat (load_size m (pSize it))) (load_ptr m (pData it)) m else m);
          m = (if PB_HTYPE type = PB_HTYPE_REPEATED then store_size m (pSize it) 0 else m);
          m = plat_free env m (load_ptr m (pData it))
      in store_ptr m (pData it) 0)"

fun pb_release_single_field :: "pb_env \<Rightarrow> nat \<Rightarrow> pb_field_iter \<Rightarrow> mem \<Rightarrow> mem option" where
  "pb_release_single_field env 0 it m = None"
| "pb_release_single_field env (Suc d) it m =
     (let f = pos_field it; type = ftype f
      in if PB_HTYPE type = PB_HTYPE_ONEOF \<and> load_size m (pSize it) \<noteq> tag f then Some m
         else
           Option.bind
             (if PB_LTYPE type = PB_LTYPE_EXTENSION then
                each_extension (\<lambda>ext m. pb_release_single_field env d (iter_from_extension env ext m) m) (load_ptr m (pData it)) m
              else if PB_LTYPE type = PB_LTYPE_SUBMESSAGE \<and> PB_ATYPE type \<noteq> PB_ATYPE_CALLBACK then
                (let pItem = (if PB_ATYPE type = PB_ATYPE_POINTER then load_ptr m (pData it) else pData it)
                 in if pItem = 0 then Some m
                    else release_items (message_release (pb_release_single_field env d) (fields_at env (ptr f)))
                           (release_count it m) (data_size f) pItem m)
              else Some m)
             (\<lambda>m. Some (if PB_ATYPE type = PB_ATYPE_POINTER then release_pointer env it m else m)))"

definition pb_release :: "pb_env \<Rightarrow> nat \<Rightarrow> pb_field list \<Rightarrow> int \<Rightarrow> mem \<Rightarrow> mem option" where
  "pb_release env d = message_release (pb_release_single_field env d)"

text \<open>The iterator is moved to the old member of the union and back.\<close>

definition pb_release_union_field :: "pb_nested \<Rightarrow> istream \<Rightarrow> pb_field_iter \<Rightarrow> mem \<Rightarrow> (bool \<times> istream \<times> pb_field_iter \<times> mem) option" where
  "pb_release_union_field nested s it m =
     (let old_tag = load_size m (pSize it); new_tag = tag (pos_field it)
      in if old_tag = 0 then Some (True, s, it, m)
         else if old_tag = new_tag then Some (True, s, it, m)
         else
           Option.bind (pb_field_iter_find it old_tag) (\<lambda>(found, it).
             if \<not> found then Some (False, PB_SET_ERROR s ''invalid union tag'', it, m)
             else
               Option.bind (n_release nested it m) (\<lambda>m.
                 Option.bind (pb_field_iter_find it new_tag) (\<lambda>(found, it).
                   if \<not> found then Some (False, PB_SET_ERROR s ''iterator error'', it, m)
                   else Some (True, s, it, if PB_ATYPE (ftype (pos_field it)) = PB_ATYPE_POINTER then store_ptr m (pData it) 0 else m)))))"

section \<open>A field\<close>

text \<open>\<open>pSize\<close> may point to the local counter of \<open>pb_decode_noinit\<close> for arrays of a fixed size: \<open>Some\<close> is its value, \<open>None\<close>
  says that \<open>pSize\<close> points into the structure.\<close>

definition get_count :: "32 word option \<Rightarrow> pb_field_iter \<Rightarrow> mem \<Rightarrow> 32 word" where
  "get_count fixed it m = (case fixed of Some n \<Rightarrow> n | None \<Rightarrow> load_size m (pSize it))"

definition put_count :: "32 word \<Rightarrow> 32 word option \<Rightarrow> pb_field_iter \<Rightarrow> mem \<Rightarrow> 32 word option \<times> mem" where
  "put_count n fixed it m = (case fixed of Some _ \<Rightarrow> (Some n, m) | None \<Rightarrow> (None, store_size m (pSize it) n))"

type_synonym field_result = "bool \<times> istream \<times> 32 word option \<times> mem"

definition with_count :: "32 word option \<Rightarrow> (bool \<times> istream \<times> mem) option \<Rightarrow> field_result option" where
  "with_count fixed r = map_option (\<lambda>(ok, s, m). (ok, s, fixed, m)) r"

text \<open>The product of two \<open>pb_size_t\<close> wraps.\<close>

definition item_at :: "pb_field_iter \<Rightarrow> int \<Rightarrow> 32 word \<Rightarrow> int" where
  "item_at it base n = base + int ((data_size (pos_field it) * unat n) mod 2 ^ 32)"

text \<open>The items of a packed array, while there is input and space.\<close>

partial_function (option) static_packed_loop :: "pb_field_iter \<Rightarrow> istream \<Rightarrow> 32 word option \<Rightarrow> mem \<Rightarrow> field_result option" where
  "static_packed_loop it sub fixed m =
     (let f = pos_field it; n = get_count fixed it m
      in if 0 < bytes_left sub \<and> unat n < array_size f then
           (case on_object (scalar_decoder (PB_LTYPE (ftype f))) sub f (item_at it (pData it) n) m of
              (ok, sub, m) \<Rightarrow>
                if \<not> ok then Some (False, sub, fixed, m)
                else (case put_count (get_count fixed it m + 1) fixed it m of (fixed, m) \<Rightarrow> static_packed_loop it sub fixed m))
         else Some (True, sub, fixed, m))"

definition decode_static_field :: "pb_env \<Rightarrow> pb_nested \<Rightarrow> istream \<Rightarrow> 32 word \<Rightarrow> pb_field_iter \<Rightarrow> 32 word option \<Rightarrow> mem \<Rightarrow> field_result option" where
  "decode_static_field env nested s wire_type it fixed m =
     (let f = pos_field it; type = ftype f; func = PB_DECODERS env nested
      in if PB_HTYPE type = PB_HTYPE_REQUIRED then with_count fixed (func s f (pData it) m)
         else if PB_HTYPE type = PB_HTYPE_OPTIONAL then
           with_count fixed (func s f (pData it) (if pSize it \<noteq> pData it then store_bool m (pSize it) True else m))
         else if PB_HTYPE type = PB_HTYPE_REPEATED then
           (if wire_type = PB_WT_STRING \<and> PB_LTYPE type \<le> PB_LTYPE_LAST_PACKABLE then
              (case pb_make_string_substream s of
                 (None, s) \<Rightarrow> Some (False, s, fixed, m)
               | (Some substream, s) \<Rightarrow>
                   Option.bind (static_packed_loop it substream fixed m) (\<lambda>(status, substream, fixed, m).
                     if bytes_left substream \<noteq> 0 then Some (False, PB_SET_ERROR s ''array overflow'', fixed, m)
                     else (case pb_close_string_substream s substream of
                             (False, s) \<Rightarrow> Some (False, s, fixed, m)
                           | (True, s) \<Rightarrow> Some (status, s, fixed, m))))
            else
              (let n = get_count fixed it m; pItem = item_at it (pData it) n; (fixed, m) = put_count (n + 1) fixed it m
               in if array_size f \<le> unat n then Some (False, PB_SET_ERROR s ''array overflow'', fixed, m)
                  else with_count fixed (func s f pItem m)))
         else if PB_HTYPE type = PB_HTYPE_ONEOF then
           Option.bind
             (if PB_LTYPE type = PB_LTYPE_SUBMESSAGE \<and> load_size m (pSize it) \<noteq> tag f
              then n_defaults nested (fields_at env (ptr f)) (pData it) (mstore m (pData it) (replicate (data_size f) 0))
              else Some m)
             (\<lambda>m. with_count fixed (func s f (pData it) (store_size m (pSize it) (tag f))))
         else Some (False, PB_SET_ERROR s ''invalid field type'', fixed, m))"

definition initialize_pointer_field :: "pb_env \<Rightarrow> pb_nested \<Rightarrow> int \<Rightarrow> pb_field \<Rightarrow> mem \<Rightarrow> mem option" where
  "initialize_pointer_field env nested pItem f m =
     (if PB_LTYPE (ftype f) = PB_LTYPE_STRING \<or> PB_LTYPE (ftype f) = PB_LTYPE_BYTES then Some (store_ptr m pItem 0)
      else if PB_LTYPE (ftype f) = PB_LTYPE_SUBMESSAGE
           then n_defaults nested (fields_at env (ptr f)) pItem (mstore m pItem (replicate (data_size f) 0))
      else Some m)"

text \<open>The items of a packed array in an allocated block, of which \<open>allocated_size\<close> items are there.\<close>

partial_function (option) pointer_packed_loop ::
  "pb_env \<Rightarrow> pb_nested \<Rightarrow> pb_field_iter \<Rightarrow> nat \<Rightarrow> istream \<Rightarrow> istream \<Rightarrow> 32 word option \<Rightarrow> mem \<Rightarrow> (bool \<times> istream \<times> istream \<times> 32 word option \<times> mem) option" where
  "pointer_packed_loop env nested it allocated_size s sub fixed m =
     (let f = pos_field it; n = get_count fixed it m
      in if bytes_left sub = 0 then Some (True, s, sub, fixed, m)
         else if unat n = PB_SIZE_MAX then Some (False, s\<lparr>ierrmsg := Some ''too many array entries''\<rparr>, sub, fixed, m)
         else
           (let remain = (bytes_left sub - 1) div data_size f + 1;
                grow = (allocated_size < unat n + 1);
                allocated_size =
                  (if \<not> grow then allocated_size
                   else if int remain < int PB_SIZE_MAX - int allocated_size then allocated_size + remain
                   else allocated_size + 1)
            in case (if grow then allocate_field_at env sub (pData it) (data_size f) allocated_size m else (True, sub, m)) of
                 (ok, sub, m) \<Rightarrow>
                   (let pItem = item_at it (load_ptr m (pData it)) (get_count fixed it m)
                    in if \<not> ok then Some (False, s, sub, fixed, m)
                       else if pItem = 0 then Some (False, s, sub, fixed, m)
                       else
                         Option.bind (initialize_pointer_field env nested pItem f m) (\<lambda>m.
                           case on_object (scalar_decoder (PB_LTYPE (ftype f))) sub f pItem m of
                             (ok, sub, m) \<Rightarrow>
                               if \<not> ok then Some (False, s, sub, fixed, m)
                               else (case put_count (get_count fixed it m + 1) fixed it m of
                                       (fixed, m) \<Rightarrow> pointer_packed_loop env nested it allocated_size s sub fixed m)))))"

definition decode_pointer_field :: "pb_env \<Rightarrow> pb_nested \<Rightarrow> istream \<Rightarrow> 32 word \<Rightarrow> pb_field_iter \<Rightarrow> 32 word option \<Rightarrow> mem \<Rightarrow> field_result option" where
  "decode_pointer_field env nested s wire_type it fixed m =
     (let f = pos_field it; type = ftype f; func = PB_DECODERS env nested
      in if PB_HTYPE type = PB_HTYPE_REQUIRED \<or> PB_HTYPE type = PB_HTYPE_OPTIONAL \<or> PB_HTYPE type = PB_HTYPE_ONEOF then
           Option.bind
             (if PB_LTYPE type = PB_LTYPE_SUBMESSAGE \<and> load_ptr m (pData it) \<noteq> 0 then n_release nested it m else Some m)
             (\<lambda>m.
               (let m = (if PB_HTYPE type = PB_HTYPE_ONEOF then store_size m (pSize it) (tag f) else m)
                in if PB_LTYPE type = PB_LTYPE_STRING \<or> PB_LTYPE type = PB_LTYPE_BYTES then with_count fixed (func s f (pData it) m)
                   else (case allocate_field_at env s (pData it) (data_size f) 1 m of
                           (False, s, m) \<Rightarrow> Some (False, s, fixed, m)
                         | (True, s, m) \<Rightarrow>
                             Option.bind (initialize_pointer_field env nested (load_ptr m (pData it)) f m)
                               (\<lambda>m. with_count fixed (func s f (load_ptr m (pData it)) m)))))
         else if PB_HTYPE type = PB_HTYPE_REPEATED then
           (if wire_type = PB_WT_STRING \<and> PB_LTYPE type \<le> PB_LTYPE_LAST_PACKABLE then
              (case pb_make_string_substream s of
                 (None, s) \<Rightarrow> Some (False, s, fixed, m)
               | (Some substream, s) \<Rightarrow>
                   Option.bind (pointer_packed_loop env nested it (unat (get_count fixed it m)) s substream fixed m)
                     (\<lambda>(status, s, substream, fixed, m).
                       case pb_close_string_substream s substream of
                         (False, s) \<Rightarrow> Some (False, s, fixed, m)
                       | (True, s) \<Rightarrow> Some (status, s, fixed, m)))
            else
              (let n = get_count fixed it m
               in if unat n = PB_SIZE_MAX then Some (False, PB_SET_ERROR s ''too many array entries'', fixed, m)
                  else (case allocate_field_at env s (pData it) (data_size f) (unat (n + 1)) m of
                          (False, s, m) \<Rightarrow> Some (False, s, fixed, m)
                        | (True, s, m) \<Rightarrow>
                            (let pItem = item_at it (load_ptr m (pData it)) n; (fixed, m) = put_count (n + 1) fixed it m
                             in Option.bind (initialize_pointer_field env nested pItem f m)
                                  (\<lambda>m. with_count fixed (func s f pItem m))))))
         else Some (False, PB_SET_ERROR s ''invalid field type'', fixed, m))"

text \<open>\<open>pb_callback_t\<close> has the function at 0 and the argument at 8. The loop calls until the string is used up.\<close>

partial_function (option) callback_loop :: "pb_env \<Rightarrow> int \<Rightarrow> pb_field_iter \<Rightarrow> istream \<Rightarrow> mem \<Rightarrow> (bool \<times> istream \<times> mem) option" where
  "callback_loop env fn it sub m =
     (case decode_fn env fn sub (pos_field it) (pData it + 8) m of
        (ok, sub, m) \<Rightarrow>
          (if \<not> ok then Some (False, sub, m)
           else if bytes_left sub \<noteq> 0 then callback_loop env (load_ptr m (pData it)) it sub m else Some (True, sub, m)))"

definition decode_callback_field :: "pb_env \<Rightarrow> istream \<Rightarrow> 32 word \<Rightarrow> pb_field_iter \<Rightarrow> mem \<Rightarrow> (bool \<times> istream \<times> mem) option" where
  "decode_callback_field env s wire_type it m =
     (if pData it = 0 \<or> load_ptr m (pData it) = 0 then (case pb_skip_field s wire_type of (ok, s) \<Rightarrow> Some (ok, s, m))
      else if wire_type = PB_WT_STRING then
        (case pb_make_string_substream s of
           (None, s) \<Rightarrow> Some (False, s, m)
         | (Some substream, s) \<Rightarrow>
             Option.bind (callback_loop env (load_ptr m (pData it)) it substream m) (\<lambda>(ok, substream, m).
               if \<not> ok then Some (False, PB_SET_ERROR s ''callback failed'', m)
               else (case pb_close_string_substream s substream of (ok, s) \<Rightarrow> Some (ok, s, m))))
      else
        (case read_raw_value s wire_type 10 of
           (None, s) \<Rightarrow> Some (False, s, m)
         | (Some buffer, s) \<Rightarrow>
             (case decode_fn env (load_ptr m (pData it)) (pb_istream_from_buffer buffer (length buffer)) (pos_field it) (pData it + 8) m of
                (ok, substream, m) \<Rightarrow> Some (ok, s, m))))"

definition decode_field :: "pb_env \<Rightarrow> pb_nested \<Rightarrow> istream \<Rightarrow> 32 word \<Rightarrow> pb_field_iter \<Rightarrow> 32 word option \<Rightarrow> mem
    \<Rightarrow> (bool \<times> istream \<times> pb_field_iter \<times> 32 word option \<times> mem) option" where
  "decode_field env nested s wire_type it fixed m =
     Option.bind (if PB_HTYPE (ftype (pos_field it)) = PB_HTYPE_ONEOF then pb_release_union_field nested s it m else Some (True, s, it, m))
       (\<lambda>(ok, s, it, m).
         if \<not> ok then Some (False, s, it, fixed, m)
         else
           map_option (\<lambda>(ok, s, fixed, m). (ok, s, it, fixed, m))
             (let atype = PB_ATYPE (ftype (pos_field it))
              in if atype = PB_ATYPE_STATIC then decode_static_field env nested s wire_type it fixed m
                 else if atype = PB_ATYPE_POINTER then decode_pointer_field env nested s wire_type it fixed m
                 else if atype = PB_ATYPE_CALLBACK then with_count fixed (decode_callback_field env s wire_type it m)
                 else Some (False, PB_SET_ERROR s ''invalid field type'', fixed, m)))"

section \<open>Extensions\<close>

definition default_extension_decoder :: "pb_env \<Rightarrow> pb_nested \<Rightarrow> istream \<Rightarrow> int \<Rightarrow> 32 word \<Rightarrow> 32 word \<Rightarrow> mem \<Rightarrow> (bool \<times> istream \<times> mem) option" where
  "default_extension_decoder env nested s ext t wire_type m =
     (if tag (ext_fields env ext m ! 0) \<noteq> t then Some (True, s, m)
      else map_option (\<lambda>(ok, s, it, fixed, m). (ok, s, m))
             (decode_field env nested s wire_type (iter_from_extension env ext m) None (store_bool m (ext + 24) True)))"

partial_function (option) decode_extension_loop ::
  "pb_env \<Rightarrow> pb_nested \<Rightarrow> nat \<Rightarrow> 32 word \<Rightarrow> 32 word \<Rightarrow> int \<Rightarrow> istream \<Rightarrow> mem \<Rightarrow> (bool \<times> istream \<times> mem) option" where
  "decode_extension_loop env nested left t wire_type ext s m =
     (if ext = 0 \<or> bytes_left s \<noteq> left then Some (True, s, m)
      else
        (let fn = load_ptr m (load_ptr m ext)
         in Option.bind
              (if fn \<noteq> 0 then Some (ext_decode_fn env fn s ext t wire_type m) else default_extension_decoder env nested s ext t wire_type m)
              (\<lambda>(status, s, m).
                if \<not> status then Some (False, s, m)
                else decode_extension_loop env nested left t wire_type (load_ptr m (ext + 16)) s m)))"

definition decode_extension :: "pb_env \<Rightarrow> pb_nested \<Rightarrow> istream \<Rightarrow> 32 word \<Rightarrow> 32 word \<Rightarrow> pb_field_iter \<Rightarrow> mem \<Rightarrow> (bool \<times> istream \<times> mem) option" where
  "decode_extension env nested s t wire_type it m =
     decode_extension_loop env nested (bytes_left s) t wire_type (load_ptr m (pData it)) s m"

partial_function (option) find_extension_loop :: "nat \<Rightarrow> pb_field_iter \<Rightarrow> (bool \<times> pb_field_iter) option" where
  "find_extension_loop st it =
     (if PB_LTYPE (ftype (pos_field it)) = PB_LTYPE_EXTENSION then Some (True, it)
      else (let it = snd (pb_field_iter_next it) in if pos it \<noteq> st then find_extension_loop st it else Some (False, it)))"

definition find_extension_field :: "pb_field_iter \<Rightarrow> (bool \<times> pb_field_iter) option" where
  "find_extension_field it = find_extension_loop (pos it) it"

section \<open>A message\<close>

text \<open>The variables of \<open>pb_decode_noinit\<close>. \<open>fixed_count_field\<close> points into the array of fields: it is an index, \<open>None\<close> for
  NULL; \<open>fields_seen\<close> has two words.\<close>

abbreviation (input) PB_MAX_REQUIRED_FIELDS :: "32 word" where "PB_MAX_REQUIRED_FIELDS \<equiv> 64"

record noinit =
  ns_stream :: istream
  ns_iter :: pb_field_iter
  ns_mem :: mem
  fields_seen :: "32 word list"
  extension_range_start :: "32 word"
  fixed_count_field :: "nat option"
  fixed_count_size :: "32 word"

text \<open>A field whose tag is not one of the message.\<close>

definition noinit_unknown :: "pb_env \<Rightarrow> pb_nested \<Rightarrow> 32 word \<Rightarrow> 32 word \<Rightarrow> noinit \<Rightarrow> (bool \<times> noinit) option" where
  "noinit_unknown env nested t wire_type st =
     Option.bind
       (if extension_range_start st \<le> t
        then Option.bind (find_extension_field (ns_iter st)) (\<lambda>(found, it).
               (let st = st\<lparr>ns_iter := it, extension_range_start := (if found then tag (pos_field it) else - 1)\<rparr>
                in if extension_range_start st \<le> t
                   then map_option (\<lambda>(ok, s, m). (ok, bytes_left s \<noteq> bytes_left (ns_stream st), st\<lparr>ns_stream := s, ns_mem := m\<rparr>))
                          (decode_extension env nested (ns_stream st) t wire_type it (ns_mem st))
                   else Some (True, False, st)))
        else Some (True, False, st))
       (\<lambda>(ok, handled, st).
         if \<not> ok then Some (False, st)
         else if handled then Some (True, st)
         else (case pb_skip_field (ns_stream st) wire_type of (ok, s) \<Rightarrow> Some (ok, st\<lparr>ns_stream := s\<rparr>)))"

text \<open>The counter of arrays of a fixed size: \<open>None\<close> where the function returns false.\<close>

definition fixed_field :: "pb_field_iter \<Rightarrow> bool" where
  "fixed_field it \<longleftrightarrow> PB_HTYPE (ftype (pos_field it)) = PB_HTYPE_REPEATED \<and> pSize it = pData it"

definition fixed_incomplete :: "noinit \<Rightarrow> bool" where
  "fixed_incomplete st \<longleftrightarrow>
     (case fixed_count_field st of
        None \<Rightarrow> False
      | Some k \<Rightarrow> unat (fixed_count_size st) \<noteq> array_size (start (ns_iter st) ! k))"

definition fixed_count_start :: "noinit \<Rightarrow> noinit option" where
  "fixed_count_start st =
     (if fixed_field (ns_iter st) \<and> fixed_count_field st \<noteq> Some (pos (ns_iter st))
      then (if fixed_incomplete st then None
            else Some (st\<lparr>fixed_count_field := Some (pos (ns_iter st)), fixed_count_size := 0\<rparr>))
      else Some st)"

definition mark_seen :: "pb_field_iter \<Rightarrow> 32 word list \<Rightarrow> 32 word list" where
  "mark_seen it seen =
     (let i = required_field_index it
      in if PB_HTYPE (ftype (pos_field it)) = PB_HTYPE_REQUIRED \<and> i < PB_MAX_REQUIRED_FIELDS
         then seen[unat (drop_bit 5 i) := seen ! unat (drop_bit 5 i) OR push_bit (unat (i AND 31)) 1]
         else seen)"

definition noinit_known :: "pb_env \<Rightarrow> pb_nested \<Rightarrow> 32 word \<Rightarrow> noinit \<Rightarrow> (bool \<times> noinit) option" where
  "noinit_known env nested wire_type st =
     (case fixed_count_start st of
        None \<Rightarrow> Some (False, st\<lparr>ns_stream := PB_SET_ERROR (ns_stream st) ''wrong size for fixed count field''\<rparr>)
      | Some st \<Rightarrow>
          (let st = st\<lparr>fields_seen := mark_seen (ns_iter st) (fields_seen st)\<rparr>;
               fixed = (if fixed_field (ns_iter st) then Some (fixed_count_size st) else None)
           in map_option
                (\<lambda>(ok, s, it, fixed, m).
                  (ok, st\<lparr>ns_stream := s, ns_iter := it, ns_mem := m,
                          fixed_count_size := (case fixed of None \<Rightarrow> fixed_count_size st | Some n \<Rightarrow> n)\<rparr>))
                (decode_field env nested (ns_stream st) wire_type (ns_iter st) fixed (ns_mem st))))"

definition noinit_field :: "pb_env \<Rightarrow> pb_nested \<Rightarrow> 32 word \<Rightarrow> 32 word \<Rightarrow> noinit \<Rightarrow> (bool \<times> noinit) option" where
  "noinit_field env nested t wire_type st =
     Option.bind (pb_field_iter_find (ns_iter st) t) (\<lambda>(found, it).
       if found then noinit_known env nested wire_type (st\<lparr>ns_iter := it\<rparr>)
       else noinit_unknown env nested t wire_type (st\<lparr>ns_iter := it\<rparr>))"

partial_function (option) noinit_loop :: "pb_env \<Rightarrow> pb_nested \<Rightarrow> noinit \<Rightarrow> (bool \<times> noinit) option" where
  "noinit_loop env nested st =
     (if bytes_left (ns_stream st) = 0 then Some (True, st)
      else
        (case pb_decode_tag (ns_stream st) of
           (r, eof, s) \<Rightarrow>
             (case r of
                None \<Rightarrow> Some (eof, st\<lparr>ns_stream := s\<rparr>)
              | Some (t, wire_type) \<Rightarrow>
                  Option.bind (noinit_field env nested t wire_type (st\<lparr>ns_stream := s\<rparr>))
                    (\<lambda>(ok, st). if \<not> ok then Some (False, st) else noinit_loop env nested st))))"

text \<open>The number of required fields, from the iterator on to the end, and whether all of them were seen.\<close>

partial_function (option) required_loop :: "pb_field_iter \<Rightarrow> (32 word \<times> byte \<times> pb_field_iter) option" where
  "required_loop it =
     (let req_field_count = required_field_index it; last_type = ftype (pos_field it); (more, it) = pb_field_iter_next it
      in if more then required_loop it else Some (req_field_count, last_type, it))"

definition required_count :: "pb_field_iter \<Rightarrow> 32 word option" where
  "required_count it =
     map_option (\<lambda>(n, last_type, it).
       (let n = (if PB_HTYPE last_type = PB_HTYPE_REQUIRED \<and> tag (pos_field it) \<noteq> 0 then n + 1 else n)
        in if PB_MAX_REQUIRED_FIELDS < n then PB_MAX_REQUIRED_FIELDS else n)) (required_loop it)"

definition all_seen :: "32 word \<Rightarrow> 32 word list \<Rightarrow> bool" where
  "all_seen n seen \<longleftrightarrow>
     (if 0 < n then
        (\<forall>i<unat (drop_bit 5 n). seen ! i = - 1) \<and>
        (n AND 31 \<noteq> 0 \<longrightarrow> seen ! unat (drop_bit 5 n) = drop_bit (32 - unat (n AND 31)) (- 1))
      else True)"

definition noinit_finish :: "noinit \<Rightarrow> (bool \<times> istream \<times> mem) option" where
  "noinit_finish st =
     (if fixed_incomplete st then Some (False, PB_SET_ERROR (ns_stream st) ''wrong size for fixed count field'', ns_mem st)
      else
        map_option (\<lambda>n.
          if all_seen n (fields_seen st) then (True, ns_stream st, ns_mem st)
          else (False, PB_SET_ERROR (ns_stream st) ''missing required field'', ns_mem st)) (required_count (ns_iter st)))"

definition decode_noinit_with :: "pb_env \<Rightarrow> pb_nested \<Rightarrow> istream \<Rightarrow> pb_field list \<Rightarrow> int \<Rightarrow> mem \<Rightarrow> (bool \<times> istream \<times> mem) option" where
  "decode_noinit_with env nested s fs dest m =
     Option.bind
       (noinit_loop env nested
         \<lparr>ns_stream = s, ns_iter = snd (pb_field_iter_begin fs dest), ns_mem = m, fields_seen = [0, 0],
          extension_range_start = 0, fixed_count_field = None, fixed_count_size = 0\<rparr>)
       (\<lambda>(ok, st). if ok then noinit_finish st else Some (False, ns_stream st, ns_mem st))"

text \<open>\<open>pb_decode\<close> over a given \<open>pb_decode_noinit\<close>, and the two by the depth of nested messages.\<close>

definition decode_with ::
  "pb_env \<Rightarrow> nat \<Rightarrow> (istream \<Rightarrow> pb_field list \<Rightarrow> int \<Rightarrow> mem \<Rightarrow> (bool \<times> istream \<times> mem) option)
     \<Rightarrow> istream \<Rightarrow> pb_field list \<Rightarrow> int \<Rightarrow> mem \<Rightarrow> (bool \<times> istream \<times> mem) option" where
  "decode_with env d noinit s fs dest m =
     Option.bind (pb_message_set_to_defaults env d fs dest m) (\<lambda>m.
       Option.bind (noinit s fs dest m) (\<lambda>(status, s, m).
         if status then Some (True, s, m) else map_option (\<lambda>m. (False, s, m)) (pb_release env d fs dest m)))"

fun pb_decode_noinit :: "pb_env \<Rightarrow> nat \<Rightarrow> istream \<Rightarrow> pb_field list \<Rightarrow> int \<Rightarrow> mem \<Rightarrow> (bool \<times> istream \<times> mem) option" where
  "pb_decode_noinit env 0 s fs dest m = None"
| "pb_decode_noinit env (Suc d) s fs dest m =
     decode_noinit_with env
       \<lparr>n_noinit = pb_decode_noinit env d, n_decode = decode_with env d (pb_decode_noinit env d),
        n_defaults = pb_message_set_to_defaults env d, n_release = pb_release_single_field env (Suc d)\<rparr> s fs dest m"

definition pb_decode :: "pb_env \<Rightarrow> nat \<Rightarrow> istream \<Rightarrow> pb_field list \<Rightarrow> int \<Rightarrow> mem \<Rightarrow> (bool \<times> istream \<times> mem) option" where
  "pb_decode env d = decode_with env d (pb_decode_noinit env d)"

definition pb_decode_delimited_noinit :: "pb_env \<Rightarrow> nat \<Rightarrow> istream \<Rightarrow> pb_field list \<Rightarrow> int \<Rightarrow> mem \<Rightarrow> (bool \<times> istream \<times> mem) option" where
  "pb_decode_delimited_noinit env d s fs dest m =
     (case pb_make_string_substream s of
        (None, s) \<Rightarrow> Some (False, s, m)
      | (Some substream, s) \<Rightarrow>
          Option.bind (pb_decode_noinit env d substream fs dest m) (\<lambda>(status, substream, m).
            case pb_close_string_substream s substream of (ok, s) \<Rightarrow> Some (ok \<and> status, s, m)))"

definition pb_decode_delimited :: "pb_env \<Rightarrow> nat \<Rightarrow> istream \<Rightarrow> pb_field list \<Rightarrow> int \<Rightarrow> mem \<Rightarrow> (bool \<times> istream \<times> mem) option" where
  "pb_decode_delimited env d s fs dest m =
     (case pb_make_string_substream s of
        (None, s) \<Rightarrow> Some (False, s, m)
      | (Some substream, s) \<Rightarrow>
          Option.bind (pb_decode env d substream fs dest m) (\<lambda>(status, substream, m).
            case pb_close_string_substream s substream of (ok, s) \<Rightarrow> Some (ok \<and> status, s, m)))"

definition pb_decode_nullterminated :: "pb_env \<Rightarrow> nat \<Rightarrow> istream \<Rightarrow> pb_field list \<Rightarrow> int \<Rightarrow> mem \<Rightarrow> (bool \<times> istream \<times> mem) option" where
  "pb_decode_nullterminated = pb_decode"

end
