(* ===== verification/PbSafe.thy ===== *)
theory PbSafe
  imports PbDecode PbFieldCodec
begin

text \<open>
  Decoding into a structure that has no pointers: whatever the bytes are, every read takes the stream forward, the
  decoder returns, and it writes inside the structure only.
\<close>

section \<open>Streams only get shorter\<close>

lemma left_set_error [simp]: "bytes_left (PB_SET_ERROR s e) = bytes_left s"
  by (simp add: PB_SET_ERROR_def)

lemma left_read: "pb_read s n = (r, s') \<Longrightarrow> bytes_left s' \<le> bytes_left s \<and> (r \<noteq> None \<and> 0 < n \<longrightarrow> bytes_left s' < bytes_left s)"
  by (auto simp: pb_read_def buf_read_def Let_def split: if_splits)

lemma left_readbyte: "pb_readbyte s = (r, s') \<Longrightarrow> bytes_left s' \<le> bytes_left s \<and> (r \<noteq> None \<longrightarrow> bytes_left s' < bytes_left s)"
  by (auto simp: pb_readbyte_def buf_read_def Let_def split: if_splits)

lemma left_varint32_loop: "varint32_loop res bitpos s = (r, s') \<Longrightarrow> bytes_left s' \<le> bytes_left s"
proof (induction res bitpos s arbitrary: r s' rule: varint32_loop.induct)
  case (1 res bitpos s)
  show ?case using 1(2) left_readbyte [of s] 1(1)
    by (subst (asm) varint32_loop.simps)
      (fastforce simp: Let_def split: prod.splits option.splits if_splits)
qed

lemma left_varint32_eof: "pb_decode_varint32_eof s = (r, eof, s') \<Longrightarrow> bytes_left s' \<le> bytes_left s \<and> (r \<noteq> None \<longrightarrow> bytes_left s' < bytes_left s)"
  using left_readbyte [of s] left_varint32_loop
  by (fastforce simp: pb_decode_varint32_eof_def split: prod.splits option.splits if_splits)

lemma left_varint32: "pb_decode_varint32 s = (r, s') \<Longrightarrow> bytes_left s' \<le> bytes_left s \<and> (r \<noteq> None \<longrightarrow> bytes_left s' < bytes_left s)"
  using left_varint32_eof [of s] by (auto simp: pb_decode_varint32_def split: prod.splits)

lemma left_varint_loop: "decode_varint_loop res bitpos s = (r, s') \<Longrightarrow> bytes_left s' \<le> bytes_left s \<and> (r \<noteq> None \<longrightarrow> bytes_left s' < bytes_left s)"
proof (induction res bitpos s arbitrary: r s' rule: decode_varint_loop.induct)
  case (1 res bitpos s)
  show ?case using 1(2) left_readbyte [of s] 1(1)
    by (subst (asm) decode_varint_loop.simps)
      (fastforce simp: Let_def split: prod.splits option.splits if_splits)
qed

lemma left_varint: "pb_decode_varint s = (r, s') \<Longrightarrow> bytes_left s' \<le> bytes_left s \<and> (r \<noteq> None \<longrightarrow> bytes_left s' < bytes_left s)"
  by (simp add: pb_decode_varint_def left_varint_loop)

lemma left_tag: "pb_decode_tag s = (r, eof, s') \<Longrightarrow> bytes_left s' \<le> bytes_left s \<and> (r \<noteq> None \<longrightarrow> bytes_left s' < bytes_left s)"
  using left_varint32_eof [of s] by (auto simp: pb_decode_tag_def split: prod.splits option.splits if_splits)

lemma left_skip: "pb_skip s n = (ok, s') \<Longrightarrow> bytes_left s' \<le> bytes_left s"
  using left_read [of s n] by (auto simp: pb_skip_def split: prod.splits option.splits)

lemma left_skip_varint: "pb_skip_varint s = (ok, s') \<Longrightarrow> bytes_left s' \<le> bytes_left s"
proof (induction s arbitrary: ok s' rule: pb_skip_varint.induct)
  case (1 s)
  show ?case using 1(2) left_read [of s 1] 1(1)
    by (subst (asm) pb_skip_varint.simps) (fastforce split: prod.splits option.splits if_splits)
qed

lemma left_skip_field: "pb_skip_field s w = (ok, s') \<Longrightarrow> bytes_left s' \<le> bytes_left s"
  using left_skip left_skip_varint left_varint32 [of s]
  by (fastforce simp: pb_skip_field_def pb_skip_string_def split: prod.splits option.splits if_splits)

lemma left_substream: "pb_make_string_substream s = (r, s') \<Longrightarrow> bytes_left s' \<le> bytes_left s \<and> (r = Some sub \<longrightarrow> bytes_left sub < bytes_left s)"
  using left_varint32 [of s] by (auto simp: pb_make_string_substream_def split: prod.splits option.splits if_splits)

lemma left_close: "pb_close_string_substream s sub = (ok, s') \<Longrightarrow> bytes_left s' = bytes_left s"
  by (auto simp: pb_close_string_substream_def split: prod.splits bool.splits)

section \<open>The decoders of scalars stay in their object\<close>

definition stays :: "(istream \<Rightarrow> pb_field \<Rightarrow> bytes \<Rightarrow> bool \<times> istream \<times> bytes) \<Rightarrow> pb_field \<Rightarrow> bool" where
  "stays dec f \<longleftrightarrow> (\<forall>s obj ok s' obj'. length obj = data_size f \<longrightarrow> dec s f obj = (ok, s', obj') \<longrightarrow>
     length obj' = data_size f \<and> bytes_left s' \<le> bytes_left s \<and> (ok \<longrightarrow> bytes_left s' < bytes_left s))"

text \<open>The numbers of a fixed width are written whatever the size of the field, so the field must have room for them.\<close>

definition scalar_room :: "pb_field \<Rightarrow> bool" where
  "scalar_room f \<longleftrightarrow>
     (let l = PB_LTYPE (ftype f)
      in (if l = PB_LTYPE_BOOL then 1 else if l = PB_LTYPE_FIXED32 then 4 else if l = PB_LTYPE_FIXED64 then 8 else 0) \<le> data_size f)"

lemma left_svarint: "pb_decode_svarint s = (r, s') \<Longrightarrow> bytes_left s' \<le> bytes_left s \<and> (r \<noteq> None \<longrightarrow> bytes_left s' < bytes_left s)"
  using left_varint [of s] by (auto simp: pb_decode_svarint_def split: prod.splits option.splits)

lemma left_fixed: "pb_decode_fixed32 s = (r, s') \<Longrightarrow> bytes_left s' \<le> bytes_left s \<and> (r \<noteq> None \<longrightarrow> bytes_left s' < bytes_left s)"
  "pb_decode_fixed64 s = (q, s') \<Longrightarrow> bytes_left s' \<le> bytes_left s \<and> (q \<noteq> None \<longrightarrow> bytes_left s' < bytes_left s)"
  using left_read [of s 4] left_read [of s 8]
  by (auto simp: pb_decode_fixed32_def pb_decode_fixed64_def split: prod.splits option.splits)

lemma byte_le_5: "(l :: byte) \<le> 5 \<longleftrightarrow> l = 0 \<or> l = 1 \<or> l = 2 \<or> l = 3 \<or> l = 4 \<or> l = 5"
proof
  assume "l \<le> 5"
  then have "unat l \<le> 5" by (simp add: word_le_nat_alt)
  then have "unat l \<in> {0, 1, 2, 3, 4, 5}" by auto
  then show "l = 0 \<or> l = 1 \<or> l = 2 \<or> l = 3 \<or> l = 4 \<or> l = 5" by (auto simp: word_unat_eq_iff)
qed auto

lemma number_stays: "stays pb_dec_varint f" "stays pb_dec_uvarint f" "stays pb_dec_svarint f"
  using left_varint left_svarint
  by (fastforce simp: stays_def pb_dec_varint_def pb_dec_uvarint_def pb_dec_svarint_def Let_def length_store
      split: prod.splits option.splits if_splits)+

lemma width_stays:
  "1 \<le> data_size f \<Longrightarrow> stays pb_dec_bool f" "4 \<le> data_size f \<Longrightarrow> stays pb_dec_fixed32 f" "8 \<le> data_size f \<Longrightarrow> stays pb_dec_fixed64 f"
  using left_varint32 left_fixed
  by (fastforce simp: stays_def pb_dec_bool_def pb_dec_fixed32_def pb_dec_fixed64_def length_store split: prod.splits option.splits if_splits)+

lemma scalar_stays: "scalar_room f \<Longrightarrow> PB_LTYPE (ftype f) \<le> 5 \<Longrightarrow> stays (scalar_decoder (PB_LTYPE (ftype f))) f"
  using number_stays [of f] width_stays [of f] unfolding byte_le_5 scalar_decoder_def
  by (auto simp: scalar_room_def Let_def)

lemma length_pb_read: "pb_read s n = (Some bs, s') \<Longrightarrow> length bs \<le> n"
  by (auto simp: pb_read_def buf_read_def split: if_splits)

lemma length_overwrite_le: "k + length bs \<le> length m \<Longrightarrow> length (overwrite k bs m) = length m"
  by (simp add: overwrite_def)

lemma fixed_bytes_stays: "stays pb_dec_fixed_length_bytes f"
  using left_varint32 left_read length_pb_read
  by (fastforce simp: stays_def pb_dec_fixed_length_bytes_def Let_def length_overwrite_le split: prod.splits option.splits if_splits)

lemma string_left:
  assumes "PB_ATYPE (ftype f) \<noteq> PB_ATYPE_POINTER"
  shows "pb_dec_string re s f y = (ok, s', y') \<Longrightarrow> bytes_left s' \<le> bytes_left s \<and> (ok \<longrightarrow> bytes_left s' < bytes_left s)"
    and "pb_dec_bytes re s f y = (ok, s', y') \<Longrightarrow> bytes_left s' \<le> bytes_left s \<and> (ok \<longrightarrow> bytes_left s' < bytes_left s)"
  using assms left_varint32 left_read
  by (fastforce simp: pb_dec_string_def pb_dec_bytes_def Let_def split: prod.splits option.splits bool.splits if_splits)+

lemma static_length:
  assumes "PB_ATYPE (ftype f) \<noteq> PB_ATYPE_POINTER" "length m = data_size f"
  shows "pb_dec_string (\<lambda>_ _. None) s f (Some m) = (ok, s', y') \<Longrightarrow> \<exists>m'. y' = Some m' \<and> length m' = data_size f"
    and "pb_dec_bytes (\<lambda>_ _. None) s f (Some m) = (ok, s', y') \<Longrightarrow> \<exists>m'. y' = Some m' \<and> length m' = data_size f"
proof -
  have a: "allocator (\<lambda>_ _. None)" "right_object f (Some m)" using assms(2) by (simp_all add: allocator_def right_object_def)
  obtain r s1 where v: "pb_decode_varint32 s = (r, s1)" by fastforce
  { assume d: "pb_dec_string (\<lambda>_ _. None) s f (Some m) = (ok, s', y')"
    show "\<exists>m'. y' = Some m' \<and> length m' = data_size f"
      using d v dec_no_length [of s s1 "\<lambda>_ _. None" f "Some m"] dec_string_in_place [OF a _ d] in_place_static [OF _ assms] assms(2)
      by (cases r) auto
  next
    assume d: "pb_dec_bytes (\<lambda>_ _. None) s f (Some m) = (ok, s', y')"
    show "\<exists>m'. y' = Some m' \<and> length m' = data_size f"
      using d v dec_no_length [of s s1 "\<lambda>_ _. None" f "Some m"] dec_bytes_in_place [OF a _ d] in_place_static [OF _ assms] assms(2)
      by (cases r) auto }
qed

lemma string_stays:
  assumes "PB_ATYPE (ftype f) \<noteq> PB_ATYPE_POINTER"
  shows "stays (static_dec pb_dec_string) f" "stays (static_dec pb_dec_bytes) f"
  using string_left [OF assms] static_length [OF assms]
  by (fastforce simp: stays_def static_dec_def split: prod.splits)+

lemma on_object_stays:
  assumes "stays dec f" "on_object dec s f a m = (ok, s', m')"
  shows "same_outside a (data_size f) m m' \<and> bytes_left s' \<le> bytes_left s \<and> (ok \<longrightarrow> bytes_left s' < bytes_left s)"
proof -
  obtain obj where o: "dec s f (mload m a (data_size f)) = (ok, s', obj)" "m' = mstore m a obj"
    using assms(2) by (auto simp: on_object_def split: prod.splits)
  then show ?thesis using assms(1) unfolding stays_def
    by (metis length_mload mstore_outside order_refl)
qed

end
