(* ===== verification/PbLayout.thy ===== *)
theory PbLayout
  imports PbSafe
begin

text \<open>
  Where the fields of a message are in its structure, and messages whose structure has no pointers: every field and
  every counter lies inside the structure, and so does every nested message.
\<close>

section \<open>Offsets\<close>

fun field_off :: "pb_field list \<Rightarrow> nat \<Rightarrow> int" where
  "field_off fs 0 = int (data_offset (fs ! 0))"
| "field_off fs (Suc k) =
     (if in_union fs k then field_off fs k
      else field_off fs k + int (field_extent (fs ! k)) + int (data_offset (fs ! Suc k)))"

fun size_off :: "pb_field list \<Rightarrow> nat \<Rightarrow> int" where
  "size_off fs 0 = field_off fs 0 + size_offset (fs ! 0)"
| "size_off fs (Suc k) = (if in_union fs k then size_off fs k else field_off fs (Suc k) + size_offset (fs ! Suc k))"

lemma iter_at_offsets:
  assumes "wf_fields fs" "k < field_count fs" "dest \<noteq> 0"
  shows "pData (iter_at fs dest k) = dest + field_off fs k \<and> pSize (iter_at fs dest k) = dest + size_off fs k"
  using assms(2)
proof (induction k)
  case 0
  then show ?case using assms(3) by (simp add: iter_at_0 pb_field_iter_begin_def Let_def)
next
  case (Suc k)
  then have k: "k < field_count fs" by simp
  show ?case
    using Suc.IH [OF k] iter_at_fields [OF assms(1) k, of dest] field_tag(1) [OF assms(1) k] field_tag(1) [OF assms(1) Suc.prems]
    unfolding iter_at_Suc pb_field_iter_next_def Let_def in_union_def field_extent_def
    by (auto simp: in_union_def field_extent_def)
qed

text \<open>The iterators that walking and searching produce.\<close>

definition on_fields :: "pb_field list \<Rightarrow> int \<Rightarrow> pb_field_iter \<Rightarrow> bool" where
  "on_fields fs dest it \<longleftrightarrow> (\<exists>k<field_count fs. it = iter_at fs dest k)"

lemma on_fieldsI [intro]: "k < field_count fs \<Longrightarrow> on_fields fs dest (iter_at fs dest k)"
  by (auto simp: on_fields_def)

lemma find_on_fields:
  assumes "wf_fields fs" "on_fields fs dest it"
  shows "\<exists>found it'. pb_field_iter_find it t = Some (found, it') \<and> on_fields fs dest it' \<and> (found \<longrightarrow> is_wanted t (pos_field it'))"
proof -
  obtain k where k: "k < field_count fs" "it = iter_at fs dest k" using assms(2) by (auto simp: on_fields_def)
  then have l: "(k + i) mod field_count fs < field_count fs" for i by simp
  obtain found it' where f: "pb_field_iter_find it t = Some (found, it')"
    and c: "if found then \<exists>i<field_count fs. it' = iter_at fs dest ((k + i) mod field_count fs) \<and> is_wanted t (fs ! ((k + i) mod field_count fs))
         \<and> (\<forall>i'<i. \<not> is_wanted t (fs ! ((k + i') mod field_count fs)))
       else it' = iter_at fs dest k \<and> (\<forall>i<field_count fs. \<not> is_wanted t (fs ! ((k + i) mod field_count fs)))"
    using find_returns [OF assms(1) k(1), of dest t] unfolding k(2) by blast
  note f
  moreover have "on_fields fs dest it'" using c k(1) l by (auto split: if_splits)
  moreover have "is_wanted t (pos_field it')" if found
    using c that iter_at_fields [OF assms(1) l] by auto
  ultimately show ?thesis by blast
qed

section \<open>Walking\<close>

text \<open>What a walk over all fields shows, from the fact that each step keeps an invariant.\<close>

lemma each_field_invariant:
  assumes "wf_fields fs" "k < field_count fs" "P k st"
    and step: "\<And>j st. k \<le> j \<Longrightarrow> j < field_count fs \<Longrightarrow> P j st \<Longrightarrow> \<exists>st'. f (iter_at fs dest j) st = Some (True, st') \<and> P (Suc j) st'"
  shows "\<exists>st'. each_field f (iter_at fs dest k) st = Some (True, st') \<and> P (field_count fs) st'"
  using assms(2,3) step
proof (induction "field_count fs - k" arbitrary: k st)
  case (Suc n)
  obtain st1 where st1: "f (iter_at fs dest k) st = Some (True, st1)" "P (Suc k) st1" using Suc.prems(3) [OF order_refl Suc.prems(1,2)] by blast
  note nx = next_iter_at [OF assms(1) Suc.prems(1), of dest]
  show ?case
  proof (cases "Suc k < field_count fs")
    case True
    obtain st' where "each_field f (iter_at fs dest (Suc k)) st1 = Some (True, st')" "P (field_count fs) st'"
      using Suc.hyps(1) [OF _ True st1(2)] Suc.hyps(2) Suc.prems(3) Suc_leD by fastforce
    then show ?thesis using st1(1) nx True by (subst each_field.simps) simp
  next
    case False
    then have "Suc k = field_count fs" using Suc.prems(1) by simp
    then show ?thesis using st1 nx by (subst each_field.simps) auto
  qed
qed simp

lemma begin_nonempty: "wf_fields fs \<Longrightarrow> 0 < field_count fs \<Longrightarrow> pb_field_iter_begin fs dest = (True, iter_at fs dest 0)"
  using field_tag(1) [of fs 0] by (simp add: iter_at_0 prod_eq_iff) (simp add: pb_field_iter_begin_def Let_def split: prod.splits)

section \<open>Structures without pointers\<close>

definition static_field :: "(pb_field list \<Rightarrow> nat \<Rightarrow> bool) \<Rightarrow> pb_env \<Rightarrow> pb_field list \<Rightarrow> nat \<Rightarrow> nat \<Rightarrow> bool" where
  "static_field sub env fs n k \<longleftrightarrow>
     (let f = fs ! k; t = ftype f; off = field_off fs k; soff = size_off fs k
      in PB_ATYPE t = PB_ATYPE_STATIC
         \<and> (PB_LTYPE t \<le> PB_LTYPE_LAST_PACKABLE \<or> PB_LTYPE t \<in> {PB_LTYPE_BYTES, PB_LTYPE_STRING, PB_LTYPE_SUBMESSAGE, PB_LTYPE_FIXED_LENGTH_BYTES})
         \<and> scalar_room f
         \<and> 0 \<le> off \<and> off + int (field_extent f) \<le> int n \<and> field_extent f < 2 ^ 32
         \<and> (PB_HTYPE t = PB_HTYPE_OPTIONAL \<and> soff \<noteq> off \<longrightarrow> 0 \<le> soff \<and> soff + 1 \<le> int n)
         \<and> (PB_HTYPE t = PB_HTYPE_REPEATED \<or> PB_HTYPE t = PB_HTYPE_ONEOF \<longrightarrow> 0 \<le> soff \<and> soff + 4 \<le> int n)
         \<and> (PB_LTYPE t = PB_LTYPE_SUBMESSAGE \<longrightarrow> ptr f \<noteq> 0 \<and> sub (fields_at env (ptr f)) (data_size f)))"

lemma static_field_kind:
  assumes "static_field sub env fs n k"
  shows "PB_ATYPE (ftype (fs ! k)) = PB_ATYPE_STATIC" "PB_LTYPE (ftype (fs ! k)) \<noteq> PB_LTYPE_EXTENSION"
proof -
  have "PB_LTYPE (ftype (fs ! k)) \<le> 5 \<or> PB_LTYPE (ftype (fs ! k)) \<in> {6, 7, 8, 10}" using assms by (simp add: static_field_def Let_def)
  then show "PB_LTYPE (ftype (fs ! k)) \<noteq> PB_LTYPE_EXTENSION" by auto
  show "PB_ATYPE (ftype (fs ! k)) = PB_ATYPE_STATIC" using assms by (simp add: static_field_def Let_def)
qed

fun static_message :: "pb_env \<Rightarrow> nat \<Rightarrow> pb_field list \<Rightarrow> nat \<Rightarrow> bool" where
  "static_message env 0 fs n = False"
| "static_message env (Suc d) fs n \<longleftrightarrow>
     wf_fields fs \<and> 0 < field_count fs \<and> (\<forall>k<field_count fs. static_field (static_message env d) env fs n k)"

text \<open>A call that returns, takes the stream forward and writes only the \<open>n\<close> bytes at \<open>a\<close>.\<close>

definition confined :: "int \<Rightarrow> nat \<Rightarrow> istream \<Rightarrow> mem \<Rightarrow> (bool \<times> istream \<times> mem) option \<Rightarrow> bool" where
  "confined a n s m r \<longleftrightarrow> (\<exists>ok s' m'. r = Some (ok, s', m') \<and> bytes_left s' \<le> bytes_left s \<and> same_outside a n m m')"

definition confined_mem :: "int \<Rightarrow> nat \<Rightarrow> mem \<Rightarrow> mem option \<Rightarrow> bool" where
  "confined_mem a n m r \<longleftrightarrow> (\<exists>m'. r = Some m' \<and> same_outside a n m m')"

section \<open>Releasing and default values\<close>

text \<open>The iterator of a walk stands on a field of the structure.\<close>

lemma static_iter:
  assumes "static_message env (Suc d) fs n" "k < field_count fs" "0 < a"
  shows "static_field (static_message env d) env fs n k" "pos_field (iter_at fs a k) = fs ! k"
    "pData (iter_at fs a k) = a + field_off fs k" "pSize (iter_at fs a k) = a + size_off fs k" "wf_fields fs" "0 < pData (iter_at fs a k)"
proof -
  show w: "wf_fields fs" and sf: "static_field (static_message env d) env fs n k" using assms(1,2) by auto
  show "pos_field (iter_at fs a k) = fs ! k" using iter_at_fields [OF w assms(2), of a] by simp
  show p: "pData (iter_at fs a k) = a + field_off fs k" and "pSize (iter_at fs a k) = a + size_off fs k"
    using iter_at_offsets [OF w assms(2), of a] assms(3) by auto
  show "0 < pData (iter_at fs a k)" using p sf assms(3) by (auto simp: static_field_def Let_def)
qed

lemma extent_item:
  "static_field sub env fs n k \<Longrightarrow> j < (if PB_HTYPE (ftype (fs ! k)) = PB_HTYPE_REPEATED then array_size (fs ! k) else 1)
     \<Longrightarrow> data_size (fs ! k) * j + data_size (fs ! k) \<le> field_extent (fs ! k)"
proof -
  assume a: "static_field sub env fs n k" "j < (if PB_HTYPE (ftype (fs ! k)) = PB_HTYPE_REPEATED then array_size (fs ! k) else 1)"
  let ?f = "fs ! k"
  have "field_extent ?f = data_size ?f * (if PB_HTYPE (ftype ?f) = PB_HTYPE_REPEATED then array_size ?f else 1)"
    using a(1) by (auto simp: static_field_def field_extent_def Let_def)
  moreover have "data_size ?f * Suc j \<le> data_size ?f * (if PB_HTYPE (ftype ?f) = PB_HTYPE_REPEATED then array_size ?f else 1)"
    using a(2) by (intro mult_le_mono2) simp
  ultimately show ?thesis by simp
qed

lemma release_items_same:
  "(\<And>p. p \<in> P \<Longrightarrow> release p m = Some m) \<Longrightarrow> (\<And>j. j < c \<Longrightarrow> p + int (z * j) \<in> P) \<Longrightarrow> release_items release c z p m = Some m"
proof (induction c arbitrary: p)
  case (Suc c)
  have "p \<in> P" using Suc.prems(2) [of 0] by simp
  moreover have "p + int z + int (z * j) \<in> P" if "j < c" for j using Suc.prems(2) [of "Suc j"] that by (simp add: algebra_simps)
  ultimately show ?case using Suc.IH [OF Suc.prems(1)] Suc.prems(1) by simp
qed simp

lemma release_static:
  "static_message env d fs n \<Longrightarrow> 0 < a \<Longrightarrow> k < field_count fs \<Longrightarrow> pb_release_single_field env d (iter_at fs a k) m = Some m"
proof (induction d arbitrary: fs n a k)
  case (Suc d)
  note it = static_iter [OF Suc.prems(1,3,2)]
  let ?it = "iter_at fs a k" and ?f = "fs ! k"
  note st = static_field_kind [OF it(1)]
  have sub: "release_items (message_release (pb_release_single_field env d) (fields_at env (ptr ?f))) c (data_size ?f) (pData ?it) m = Some m"
    if l: "PB_LTYPE (ftype ?f) = PB_LTYPE_SUBMESSAGE" for c
  proof (rule release_items_same [where P = "{p. 0 < p}"])
    fix p :: int
    assume p: "p \<in> {p. 0 < p}"
    let ?g = "fields_at env (ptr ?f)"
    have g: "static_message env d ?g (data_size ?f)" using it(1) l by (auto simp: static_field_def Let_def)
    then obtain d' where d': "d = Suc d'" by (cases d) auto
    have w: "wf_fields ?g" "0 < field_count ?g" using g d' by auto
    have "\<exists>m'. each_field (\<lambda>it m. map_option (Pair True) (pb_release_single_field env d it m)) (iter_at ?g p 0) m = Some (True, m') \<and> m' = m"
      using Suc.IH [OF g] p by (intro each_field_invariant [OF w(1,2), where P = "\<lambda>_ st. st = m"]) auto
    then show "message_release (pb_release_single_field env d) ?g p m = Some m"
      using p begin_nonempty [OF w, of p] by (simp add: message_release_def)
  next
    fix j
    assume "j < c"
    then show "pData ?it + int (data_size ?f * j) \<in> {p. 0 < p}" using it(6) by (simp add: add_pos_nonneg)
  qed
  show ?case using sub st it(2,6) by (simp add: Let_def)
qed simp

text \<open>Walking over the fields, each of which writes the structure only.\<close>

lemma each_field_confined:
  assumes "wf_fields fs" "0 < field_count fs"
    and "\<And>k m. k < field_count fs \<Longrightarrow> confined_mem a n m (f (iter_at fs dest k) m)"
  shows "\<exists>m'. each_field (\<lambda>it m. map_option (Pair True) (f it m)) (iter_at fs dest 0) m = Some (True, m') \<and> same_outside a n m m'"
  using assms(3) by (intro each_field_invariant [OF assms(1,2), where P = "\<lambda>_. same_outside a n m"])
    (fastforce simp: confined_mem_def intro: same_outside_trans)+

lemma defaults_confined:
  "static_message env d fs n \<Longrightarrow> 0 < a \<Longrightarrow> confined_mem a n m (pb_message_set_to_defaults env d fs a m)"
proof (induction d arbitrary: fs n a m)
  case (Suc d)
  have w: "wf_fields fs" "0 < field_count fs" using Suc.prems(1) by auto
  have "confined_mem a n m (pb_field_set_to_default env (Suc d) (iter_at fs a k) m)" if k: "k < field_count fs" for k m
  proof -
    note it = static_iter [OF Suc.prems(1) k Suc.prems(2)]
    let ?it = "iter_at fs a k" and ?f = "fs ! k"
    note sf = it(1) [unfolded static_field_def Let_def]
    let ?m1 = "if PB_HTYPE (ftype ?f) = PB_HTYPE_OPTIONAL \<and> pSize ?it \<noteq> pData ?it then store_bool m (pSize ?it) False else m"
    have m1: "same_outside a n m ?m1" using sf it(3,4) by (auto intro!: store_bool_outside)
    have data: "same_outside a n m2 m3" if "PB_HTYPE (ftype ?f) \<noteq> PB_HTYPE_REPEATED" "same_outside (pData ?it) (data_size ?f) m2 m3" for m2 m3
      using that(2) by (rule same_outside_mono) (use sf it(3) that(1) in \<open>auto simp: field_extent_def\<close>)
    have sub: "confined_mem (pData ?it) (data_size ?f) ?m1 (message_defaults (pb_field_set_to_default env d) (fields_at env (ptr ?f)) (pData ?it) ?m1)"
      if "PB_LTYPE (ftype ?f) = PB_LTYPE_SUBMESSAGE"
      using Suc.IH [OF _ it(6), of "fields_at env (ptr ?f)" "data_size ?f" ?m1] sf that by (simp add: pb_message_set_to_defaults_def)
    show ?thesis
    proof (cases "PB_HTYPE (ftype ?f) = PB_HTYPE_REPEATED \<or> PB_HTYPE (ftype ?f) = PB_HTYPE_ONEOF")
      case True
      then have "pb_field_set_to_default env (Suc d) ?it m = Some (store_size m (pSize ?it) 0)"
        using sf by (auto simp: it(2) Let_def)
      moreover have "same_outside a n m (store_size m (pSize ?it) 0)" using sf it(4) True by (auto intro!: store_size_outside)
      ultimately show ?thesis by (simp add: confined_mem_def)
    next
      case False
      let ?bs = "if ptr ?f \<noteq> 0 then mload ?m1 (ptr ?f) (data_size ?f) else replicate (data_size ?f) 0"
      have e: "pb_field_set_to_default env (Suc d) ?it m =
        (if PB_LTYPE (ftype ?f) = PB_LTYPE_SUBMESSAGE
         then message_defaults (pb_field_set_to_default env d) (fields_at env (ptr ?f)) (pData ?it) ?m1
         else Some (mstore ?m1 (pData ?it) ?bs))"
        using sf False by (auto simp: it(2) Let_def)
      have t: "same_outside a n m m3" if "same_outside (pData ?it) (data_size ?f) ?m1 m3" for m3
        using data [OF _ that] False by (intro same_outside_trans [OF m1]) simp
      show ?thesis
      proof (cases "PB_LTYPE (ftype ?f) = PB_LTYPE_SUBMESSAGE")
        case True
        then show ?thesis using sub t unfolding e confined_mem_def if_P [OF True] by blast
      next
        case False
        have "same_outside (pData ?it) (data_size ?f) ?m1 (mstore ?m1 (pData ?it) ?bs)" by (rule mstore_outside) simp_all
        then show ?thesis using t unfolding e confined_mem_def if_not_P [OF False] by blast
      qed
    qed
  qed
  then obtain m' where "each_field (\<lambda>it m. map_option (Pair True) (pb_field_set_to_default env (Suc d) it m)) (iter_at fs a 0) m = Some (True, m')"
    "same_outside a n m m'"
    using each_field_confined [OF w, of a n "pb_field_set_to_default env (Suc d)" a m] by blast
  then show ?case
    using begin_nonempty [OF w, of a] by (simp add: pb_message_set_to_defaults_def message_defaults_def confined_mem_def del: pb_field_set_to_default.simps)
qed simp

end
