(* ===== verification/PbConfine.thy ===== *)
theory PbConfine
  imports PbLayout
begin

text \<open>
  Decoding any stream into a structure without pointers returns, and writes inside the structure only. The proof goes
  from the decoder of a field to the loop over the fields and then by the depth of nested messages.
\<close>

section \<open>One field\<close>

definition nested_ok :: "pb_env \<Rightarrow> pb_nested \<Rightarrow> nat \<Rightarrow> bool" where
  "nested_ok env nested d \<longleftrightarrow>
     (\<forall>fs n a. static_message env d fs n \<longrightarrow> 0 < a \<longrightarrow>
        (\<forall>s m. confined a n s m (n_noinit nested s fs a m)) \<and> (\<forall>s m. confined a n s m (n_decode nested s fs a m))
        \<and> (\<forall>m. confined_mem a n m (n_defaults nested fs a m)))
     \<and> (\<forall>fs n a k m. static_message env (Suc d) fs n \<longrightarrow> 0 < a \<longrightarrow> k < field_count fs \<longrightarrow> n_release nested (iter_at fs a k) m = Some m)"

lemma confined_mono:
  "confined b k s m r \<Longrightarrow> a \<le> b \<Longrightarrow> b + int k \<le> a + int n \<Longrightarrow> confined a n s m r"
  unfolding confined_def by (elim exE conjE, intro exI conjI, assumption+, erule same_outside_mono)

lemma submessage_confined:
  assumes "nested_ok env nested d" "0 < p" "ptr f \<noteq> 0" "static_message env d (fields_at env (ptr f)) (data_size f)"
  shows "confined p (data_size f) s m (pb_dec_submessage env nested s f p m)"
proof -
  let ?run = "if PB_HTYPE (ftype f) = PB_HTYPE_REPEATED then n_decode nested else n_noinit nested"
  have r: "confined p (data_size f) sub m (?run sub (fields_at env (ptr f)) p m)" for sub
    using assms unfolding nested_ok_def by auto
  obtain q s1 where q: "pb_make_string_substream s = (q, s1)" by fastforce
  have l: "bytes_left s1 \<le> bytes_left s" using left_substream [OF q] by simp
  show ?thesis
  proof (cases q)
    case None
    then show ?thesis using q l by (auto simp: pb_dec_submessage_def confined_def)
  next
    case (Some sub)
    obtain ok sub' m' where run: "?run sub (fields_at env (ptr f)) p m = Some (ok, sub', m')" "same_outside p (data_size f) m m'"
      using r [of sub] by (auto simp: confined_def)
    obtain c s2 where c: "pb_close_string_substream s1 sub' = (c, s2)" by fastforce
    have "pb_dec_submessage env nested s f p m = Some (c \<and> ok, s2, m')"
      using q Some assms(3) run(1) c by (cases c) (simp_all add: pb_dec_submessage_def)
    then show ?thesis using left_close [OF c] l run(2) by (auto simp: confined_def)
  qed
qed

lemma decoder_confined:
  assumes "nested_ok env nested d" "static_field (static_message env d) env fs n k" "0 < p"
  shows "confined p (data_size (fs ! k)) s m (PB_DECODERS env nested s (fs ! k) p m)"
proof -
  let ?f = "fs ! k"
  note sf = assms(2) [unfolded static_field_def Let_def]
  have obj: "confined p (data_size ?f) s m (Some (on_object dec s ?f p m))" if "stays dec ?f" for dec
    using on_object_stays [OF that, of s p m] by (cases "on_object dec s ?f p m") (auto simp: confined_def)
  have nt: "PB_ATYPE (ftype ?f) \<noteq> PB_ATYPE_POINTER" using sf by simp
  show ?thesis
  proof (cases "PB_LTYPE (ftype ?f) \<le> 5")
    case True
    then show ?thesis using obj [OF scalar_stays [OF _ True]] sf by (simp add: PB_DECODERS_def)
  next
    case False
    show ?thesis
      using False obj [OF fixed_bytes_stays] obj [OF string_stays(1) [OF nt]] obj [OF string_stays(2) [OF nt]]
        submessage_confined [OF assms(1,3), of ?f s m] sf nt
      by (auto simp: PB_DECODERS_def dec_bytes_at_def dec_string_at_def)
  qed
qed

section \<open>Arrays\<close>

definition confined_field :: "int \<Rightarrow> nat \<Rightarrow> istream \<Rightarrow> mem \<Rightarrow> field_result option \<Rightarrow> bool" where
  "confined_field a n s m r \<longleftrightarrow> (\<exists>ok s' fixed' m'. r = Some (ok, s', fixed', m') \<and> bytes_left s' \<le> bytes_left s \<and> same_outside a n m m')"

lemma with_count_confined: "confined_field a n s m (with_count fixed r) \<longleftrightarrow> confined a n s m r"
  by (auto simp: confined_field_def confined_def with_count_def)

text \<open>The counter is in the structure, unless it is the local one.\<close>

lemma put_count_outside:
  "put_count c fixed it m = (fixed', m') \<Longrightarrow> a \<le> pSize it \<and> pSize it + 4 \<le> a + int n \<Longrightarrow> same_outside a n m m'"
  by (auto simp: put_count_def intro: store_size_outside split: option.splits)

lemma put_count_kind: "put_count c fixed it m = (fixed', m') \<Longrightarrow> fixed' = None \<longleftrightarrow> fixed = None"
  by (auto simp: put_count_def split: option.splits)

lemma item_in:
  assumes "static_field sub env fs n k" "pos_field it = fs ! k"
    and "unat c < (if PB_HTYPE (ftype (fs ! k)) = PB_HTYPE_REPEATED then array_size (fs ! k) else 1)"
  shows "base \<le> item_at it base c \<and> item_at it base c + int (data_size (fs ! k)) \<le> base + int (field_extent (fs ! k))"
proof -
  have e: "data_size (fs ! k) * unat c + data_size (fs ! k) \<le> field_extent (fs ! k)" using extent_item [OF assms(1,3)] .
  moreover have "field_extent (fs ! k) < 2 ^ 32" using assms(1) by (simp add: static_field_def Let_def)
  ultimately show ?thesis
  proof (cases "data_size (fs ! k) = 0")
    case False
    have "data_size (fs ! k) * unat c < 2 ^ 32" using e False \<open>field_extent (fs ! k) < 2 ^ 32\<close> by linarith
    then have "(data_size (fs ! k) * unat c) mod 2 ^ 32 = data_size (fs ! k) * unat c" by (rule mod_less)
    then have i: "item_at it base c = base + int (data_size (fs ! k) * unat c)" by (simp only: item_at_def assms(2))
    have "int (data_size (fs ! k) * unat c) + int (data_size (fs ! k)) \<le> int (field_extent (fs ! k))" using e by linarith
    then show ?thesis unfolding i by linarith
  qed (simp add: item_at_def assms(2))
qed

lemma packed_loop_confined:
  assumes "static_field sub env fs n k" "pos_field it = fs ! k" "PB_HTYPE (ftype (fs ! k)) = PB_HTYPE_REPEATED" "PB_LTYPE (ftype (fs ! k)) \<le> 5"
    and "a \<le> pData it" "pData it + int (field_extent (fs ! k)) \<le> a + int n" "a \<le> pSize it \<and> pSize it + 4 \<le> a + int n"
  shows "confined_field a n s m (static_packed_loop it s fixed m)"
proof (induction "bytes_left s" arbitrary: s fixed m rule: less_induct)
  case less
  let ?f = "fs ! k" and ?c = "get_count fixed it m"
  have st: "stays (scalar_decoder (PB_LTYPE (ftype ?f))) ?f"
    using assms(1,4) by (intro scalar_stays) (auto simp: static_field_def Let_def)
  show ?case
  proof (cases "0 < bytes_left s \<and> unat ?c < array_size ?f")
    case False
    then show ?thesis by (subst static_packed_loop.simps) (auto simp: Let_def assms(2) confined_field_def)
  next
    case True
    obtain ok s1 m1 where o: "on_object (scalar_decoder (PB_LTYPE (ftype ?f))) s ?f (item_at it (pData it) ?c) m = (ok, s1, m1)"
      by (metis prod_cases3)
    note os = on_object_stays [OF st o]
    have m1: "same_outside a n m m1"
      using os item_in [OF assms(1,2), of ?c "pData it"] True assms(3,5,6) by (elim conjE same_outside_mono) simp_all
    show ?thesis
    proof (cases ok)
      case False
      then show ?thesis using True o os m1 by (subst static_packed_loop.simps) (auto simp: Let_def assms(2) confined_field_def)
    next
      case ok: True
      obtain fixed' m2 where p: "put_count (get_count fixed it m1 + 1) fixed it m1 = (fixed', m2)" by fastforce
      have m2: "same_outside a n m1 m2" by (rule put_count_outside [OF p assms(7)])
      have e: "static_packed_loop it s fixed m = static_packed_loop it s1 fixed' m2"
        using True o ok p by (subst static_packed_loop.simps) (simp add: Let_def assms(2))
      have l: "bytes_left s1 < bytes_left s" using os ok by simp
      obtain ok' s' fx m' where r: "static_packed_loop it s1 fixed' m2 = Some (ok', s', fx, m')" "bytes_left s' \<le> bytes_left s1" "same_outside a n m2 m'"
        using less(1) [OF l, of m2 fixed'] by (auto simp: confined_field_def)
      show ?thesis
        using r(1,2) l same_outside_trans [OF same_outside_trans [OF m1 m2] r(3)] unfolding e confined_field_def by simp
    qed
  qed
qed

section \<open>A field by its kind\<close>

lemma confined_after:
  "same_outside a n m m' \<Longrightarrow> confined a n s m' r \<Longrightarrow> confined a n s m r"
  by (auto simp: confined_def intro: same_outside_trans)

lemma static_field_confined:
  assumes "nested_ok env nested d" "static_message env (Suc d) fs n" "k < field_count fs" "0 < a"
  shows "confined_field a n s m (decode_static_field env nested s w (iter_at fs a k) fixed m)"
proof -
  let ?it = "iter_at fs a k" and ?f = "fs ! k"
  note it = static_iter [OF assms(2,3,4)]
  note sf = it(1) [unfolded static_field_def Let_def]
  have ext: "pData ?it + int (field_extent ?f) \<le> a + int n" "a \<le> pData ?it" using sf it(3) by auto
  have st: "PB_ATYPE (ftype ?f) = PB_ATYPE_STATIC" using sf by simp
  have item: "confined a n s' m' (PB_DECODERS env nested s' ?f p m')"
    if "pData ?it \<le> p" "p + int (data_size ?f) \<le> pData ?it + int (field_extent ?f)" for p s' m'
  proof (rule confined_mono)
    show "confined p (data_size ?f) s' m' (PB_DECODERS env nested s' ?f p m')"
      using decoder_confined [OF assms(1) it(1)] that(1) it(6) by simp
    show "a \<le> p" "p + int (data_size ?f) \<le> a + int n" using that ext by linarith+
  qed
  have whole: "confined a n s' m' (PB_DECODERS env nested s' ?f (pData ?it) m')" if "PB_HTYPE (ftype ?f) \<noteq> PB_HTYPE_REPEATED" for s' m'
    using item [of "pData ?it"] that by (simp add: field_extent_def st)
  consider "PB_HTYPE (ftype ?f) = PB_HTYPE_REQUIRED" | "PB_HTYPE (ftype ?f) = PB_HTYPE_OPTIONAL"
    | (rep) "PB_HTYPE (ftype ?f) = PB_HTYPE_REPEATED" | (one) "PB_HTYPE (ftype ?f) = PB_HTYPE_ONEOF"
    | "PB_HTYPE (ftype ?f) \<notin> {PB_HTYPE_REQUIRED, PB_HTYPE_OPTIONAL, PB_HTYPE_REPEATED, PB_HTYPE_ONEOF}" by auto
  then show ?thesis
  proof cases
    case 1
    then show ?thesis using whole by (simp add: decode_static_field_def it(2) with_count_confined)
  next
    case 2
    let ?m1 = "if pSize ?it \<noteq> pData ?it then store_bool m (pSize ?it) True else m"
    have m1: "same_outside a n m ?m1" using sf it(3,4) 2 by (auto intro!: store_bool_outside)
    have "decode_static_field env nested s w ?it fixed m = with_count fixed (PB_DECODERS env nested s ?f (pData ?it) ?m1)"
      using 2 by (simp add: decode_static_field_def it(2))
    then show ?thesis using confined_after [OF m1 whole] 2 by (simp add: with_count_confined del: if_split)
  next
    case rep
    have cnt: "a \<le> pSize ?it \<and> pSize ?it + 4 \<le> a + int n" using sf it(4) rep by auto
    show ?thesis
    proof (cases "w = PB_WT_STRING \<and> PB_LTYPE (ftype ?f) \<le> PB_LTYPE_LAST_PACKABLE")
      case True
      obtain q s1 where q: "pb_make_string_substream s = (q, s1)" by fastforce
      have l: "bytes_left s1 \<le> bytes_left s" using left_substream [OF q] by simp
      show ?thesis
      proof (cases q)
        case None
        then show ?thesis using True rep q l by (auto simp: decode_static_field_def it(2) confined_field_def)
      next
        case (Some sub)
        obtain ok sub' fixed' m' where lp: "static_packed_loop ?it sub fixed m = Some (ok, sub', fixed', m')" "same_outside a n m m'"
          using packed_loop_confined [OF it(1,2) rep _ ext(2,1) cnt, of sub m fixed] True by (auto simp: confined_field_def)
        obtain c s2 where c: "pb_close_string_substream s1 sub' = (c, s2)" by fastforce
        show ?thesis
          using True rep q Some lp c left_close [OF c] l by (cases c) (auto simp: decode_static_field_def it(2) confined_field_def Let_def)
      qed
    next
      case False
      let ?c = "get_count fixed ?it m"
      obtain fixed' m1 where p: "put_count (?c + 1) fixed ?it m = (fixed', m1)" by fastforce
      have m1: "same_outside a n m m1" by (rule put_count_outside [OF p cnt])
      have e: "decode_static_field env nested s w ?it fixed m =
        (if array_size ?f \<le> unat ?c then Some (False, PB_SET_ERROR s ''array overflow'', fixed', m1)
         else with_count fixed' (PB_DECODERS env nested s ?f (item_at ?it (pData ?it) ?c) m1))"
        using False rep p by (auto simp: decode_static_field_def it(2) Let_def)
      show ?thesis
      proof (cases "array_size ?f \<le> unat ?c")
        case True
        then show ?thesis using m1 unfolding e by (auto simp: confined_field_def)
      next
        case in_array: False
        have "confined a n s m1 (PB_DECODERS env nested s ?f (item_at ?it (pData ?it) ?c) m1)"
          using item_in [OF it(1,2), of ?c "pData ?it"] rep in_array by (intro item) simp_all
        then show ?thesis using confined_after [OF m1] in_array unfolding e by (simp add: with_count_confined)
      qed
    qed
  next
    case one
    have cnt: "a \<le> pSize ?it \<and> pSize ?it + 4 \<le> a + int n" using sf it(4) one by auto
    let ?fresh = "PB_LTYPE (ftype ?f) = PB_LTYPE_SUBMESSAGE \<and> load_size m (pSize ?it) \<noteq> tag ?f"
    let ?m0 = "mstore m (pData ?it) (replicate (data_size ?f) 0)"
    have inside: "same_outside a n m1 m2" if "same_outside (pData ?it) (data_size ?f) m1 m2" for m1 m2
      using that by (rule same_outside_mono) (use ext one in \<open>simp_all add: field_extent_def st\<close>)
    obtain m1 where m1: "(if ?fresh then n_defaults nested (fields_at env (ptr ?f)) (pData ?it) ?m0 else Some m) = Some m1" "same_outside a n m m1"
    proof (cases ?fresh)
      case True
      then have sub: "static_message env d (fields_at env (ptr ?f)) (data_size ?f)" using sf by simp
      then obtain m1 where "n_defaults nested (fields_at env (ptr ?f)) (pData ?it) ?m0 = Some m1" "same_outside (pData ?it) (data_size ?f) ?m0 m1"
        using assms(1) it(6) unfolding nested_ok_def confined_mem_def by blast
      moreover have "same_outside (pData ?it) (data_size ?f) m ?m0" by (rule mstore_outside) simp_all
      ultimately show ?thesis using that True inside same_outside_trans by (metis (no_types, lifting))
    next
      case False
      then show ?thesis using that [of m] unfolding if_not_P [OF False] by simp
    qed
    let ?m2 = "store_size m1 (pSize ?it) (tag ?f)"
    have "same_outside a n m1 ?m2" using cnt by (intro store_size_outside) simp_all
    then have m2: "same_outside a n m ?m2" using same_outside_trans [OF m1(2)] by blast
    have "decode_static_field env nested s w ?it fixed m = with_count fixed (PB_DECODERS env nested s ?f (pData ?it) ?m2)"
      using one m1(1) by (simp add: decode_static_field_def it(2) Let_def)
    then show ?thesis using confined_after [OF m2 whole] one by (simp add: with_count_confined)
  next
    case 5
    then show ?thesis by (auto simp: decode_static_field_def it(2) confined_field_def Let_def)
  qed
qed

section \<open>The loop over a stream\<close>

definition field_done :: "pb_field list \<Rightarrow> int \<Rightarrow> nat \<Rightarrow> istream \<Rightarrow> mem \<Rightarrow> (bool \<times> istream \<times> pb_field_iter \<times> 32 word option \<times> mem) option \<Rightarrow> bool" where
  "field_done fs a n s m r \<longleftrightarrow>
     (\<exists>ok s' it' fixed' m'. r = Some (ok, s', it', fixed', m') \<and> bytes_left s' \<le> bytes_left s \<and> on_fields fs a it' \<and> same_outside a n m m')"

lemma union_release_done:
  assumes "nested_ok env nested d" "static_message env (Suc d) fs n" "0 < a" "on_fields fs a it"
  shows "\<exists>ok s' it'. pb_release_union_field nested s it m = Some (ok, s', it', m) \<and> bytes_left s' = bytes_left s \<and> on_fields fs a it'"
proof -
  have w: "wf_fields fs" using assms(2) by simp
  let ?old = "load_size m (pSize it)" and ?new = "tag (pos_field it)"
  show ?thesis
  proof (cases "?old = 0 \<or> ?old = ?new")
    case True
    then show ?thesis using assms(4) by (auto simp: pb_release_union_field_def Let_def)
  next
    case False
    obtain f1 it1 where f1: "pb_field_iter_find it ?old = Some (f1, it1)" "on_fields fs a it1"
      using find_on_fields [OF w assms(4)] by blast
    obtain f2 it2 where f2: "pb_field_iter_find it1 ?new = Some (f2, it2)" "on_fields fs a it2"
      using find_on_fields [OF w f1(2)] by blast
    obtain j where j: "j < field_count fs" "it1 = iter_at fs a j" using f1(2) by (auto simp: on_fields_def)
    have rel: "n_release nested it1 m = Some m" using assms(1) unfolding nested_ok_def j(2) using assms(2,3) j(1) by blast
    have "PB_ATYPE (ftype (pos_field it2)) \<noteq> PB_ATYPE_POINTER"
    proof -
      obtain k where k: "k < field_count fs" "it2 = iter_at fs a k" using f2(2) by (auto simp: on_fields_def)
      then show ?thesis using static_iter [OF assms(2) k(1) assms(3)] by (simp add: static_field_def Let_def)
    qed
    then show ?thesis using False f1 f2 rel by (cases f1; cases f2) (auto simp: pb_release_union_field_def Let_def)
  qed
qed

lemma decode_field_done:
  assumes "nested_ok env nested d" "static_message env (Suc d) fs n" "0 < a" "on_fields fs a it"
  shows "field_done fs a n s m (decode_field env nested s w it fixed m)"
proof -
  have static: "field_done fs a n s m (map_option (\<lambda>(ok, s, fixed, m). (ok, s, it', fixed, m)) (decode_static_field env nested s' w it' fixed m))"
    "PB_ATYPE (ftype (pos_field it')) = PB_ATYPE_STATIC"
    if i: "on_fields fs a it'" "bytes_left s' = bytes_left s" for s' it'
  proof -
    obtain k where k: "k < field_count fs" "it' = iter_at fs a k" using i(1) by (auto simp: on_fields_def)
    obtain ok s2 fixed' m' where "decode_static_field env nested s' w it' fixed m = Some (ok, s2, fixed', m')" "bytes_left s2 \<le> bytes_left s'" "same_outside a n m m'"
      using static_field_confined [OF assms(1,2) k(1) assms(3), of s' m w fixed] k(2) by (auto simp: confined_field_def)
    then show "field_done fs a n s m (map_option (\<lambda>(ok, s, fixed, m). (ok, s, it', fixed, m)) (decode_static_field env nested s' w it' fixed m))"
      using i by (auto simp: field_done_def)
    show "PB_ATYPE (ftype (pos_field it')) = PB_ATYPE_STATIC"
      using static_iter [OF assms(2) k(1) assms(3)] k(2) by (simp add: static_field_def Let_def)
  qed
  show ?thesis
  proof (cases "PB_HTYPE (ftype (pos_field it)) = PB_HTYPE_ONEOF")
    case True
    obtain ok s' it' where r: "pb_release_union_field nested s it m = Some (ok, s', it', m)" "bytes_left s' = bytes_left s" "on_fields fs a it'"
      using union_release_done [OF assms] by blast
    then show ?thesis using True static [OF r(3,2)] by (cases ok) (auto simp: decode_field_def Let_def field_done_def)
  next
    case False
    then show ?thesis using static [OF assms(4) refl] by (simp add: decode_field_def Let_def)
  qed
qed

lemma find_extension_static:
  assumes "static_message env (Suc d) fs n" "0 < a" "k < field_count fs" "j < field_count fs"
  shows "\<exists>it'. find_extension_loop k (iter_at fs a ((k + j) mod field_count fs)) = Some (False, it') \<and> on_fields fs a it'"
  using assms(4)
proof (induction "field_count fs - j" arbitrary: j)
  case (Suc m)
  let ?n = "field_count fs" and ?c = "(k + j) mod field_count fs"
  have w: "wf_fields fs" using assms(1) by simp
  have c: "?c < ?n" using Suc.prems by simp
  note it = static_iter [OF assms(1) c assms(2)]
  have nx: "snd (pb_field_iter_next (iter_at fs a ?c)) = iter_at fs a ((k + Suc j) mod ?n)"
    using next_iter_at [OF w c, of a] by (simp add: mod_Suc_eq)
  have c': "(k + Suc j) mod ?n < ?n" using Suc.prems by simp
  have p: "pos (iter_at fs a ((k + Suc j) mod ?n)) = (k + Suc j) mod ?n" using iter_at_fields [OF w c', of a] by simp
  have ne: "PB_LTYPE (ftype (pos_field (iter_at fs a ?c))) \<noteq> PB_LTYPE_EXTENSION" unfolding it(2) by (rule static_field_kind [OF it(1)])
  have step: "find_extension_loop k (iter_at fs a ?c) =
    (if (k + Suc j) mod ?n \<noteq> k then find_extension_loop k (iter_at fs a ((k + Suc j) mod ?n)) else Some (False, iter_at fs a ((k + Suc j) mod ?n)))"
    by (subst find_extension_loop.simps) (unfold if_not_P [OF ne] Let_def nx p, rule refl)
  show ?case
  proof (cases "Suc j < ?n")
    case True
    then show ?thesis using Suc.hyps(1) [OF _ True] Suc.hyps(2) c' assms(3) unfolding step by auto
  next
    case False
    then have "Suc j = ?n" using Suc.prems by simp
    then have "(k + Suc j) mod ?n = k" using assms(3) by (simp only: mod_add_self2 mod_less)
    then show ?thesis using assms(3) unfolding step by auto
  qed
qed simp

definition loop_done :: "pb_field list \<Rightarrow> int \<Rightarrow> nat \<Rightarrow> noinit \<Rightarrow> (bool \<times> noinit) option \<Rightarrow> bool" where
  "loop_done fs a n st r \<longleftrightarrow>
     (\<exists>ok st'. r = Some (ok, st') \<and> bytes_left (ns_stream st') \<le> bytes_left (ns_stream st) \<and> on_fields fs a (ns_iter st')
        \<and> same_outside a n (ns_mem st) (ns_mem st'))"

lemma noinit_field_done:
  assumes "nested_ok env nested d" "static_message env (Suc d) fs n" "0 < a" "on_fields fs a (ns_iter st)" "t \<noteq> - 1"
  shows "loop_done fs a n st (noinit_field env nested t w st)"
proof -
  have w: "wf_fields fs" using assms(2) by simp
  obtain found it where f: "pb_field_iter_find (ns_iter st) t = Some (found, it)" "on_fields fs a it"
    using find_on_fields [OF w assms(4)] by blast
  show ?thesis
  proof (cases found)
    case True
    let ?st = "st\<lparr>ns_iter := it\<rparr>"
    show ?thesis
    proof (cases "fixed_count_start ?st")
      case None
      then show ?thesis using f True by (auto simp: noinit_field_def noinit_known_def loop_done_def)
    next
      case (Some st1)
      have st1: "ns_iter st1 = it" "ns_stream st1 = ns_stream st" "ns_mem st1 = ns_mem st"
        using Some by (auto simp: fixed_count_start_def split: if_splits)
      let ?fixed = "if fixed_field it then Some (fixed_count_size st1) else None"
      obtain ok s' it' fixed' m' where d: "decode_field env nested (ns_stream st) w it ?fixed (ns_mem st) = Some (ok, s', it', fixed', m')"
        "bytes_left s' \<le> bytes_left (ns_stream st)" "on_fields fs a it'" "same_outside a n (ns_mem st) m'"
        using decode_field_done [OF assms(1-3) f(2), of "ns_stream st" "ns_mem st" w ?fixed] unfolding field_done_def by blast
      have "noinit_field env nested t w st = Some (ok, st1\<lparr>fields_seen := mark_seen it (fields_seen st1), ns_stream := s', ns_iter := it', ns_mem := m',
          fixed_count_size := (case fixed' of None \<Rightarrow> fixed_count_size st1 | Some c \<Rightarrow> c)\<rparr>)"
        using f(1) True Some st1 d(1) by (cases "fixed_field it"; cases fixed') (simp_all add: noinit_field_def noinit_known_def Let_def)
      then show ?thesis using d(2-4) by (simp add: loop_done_def)
    qed
  next
    case False
    have "t < - 1" using assms(5) by (metis word_n1_ge order_neq_le_trans)
    then have nr: "\<not> - 1 \<le> t" by simp
    obtain k where k: "k < field_count fs" "it = iter_at fs a k" using f(2) by (auto simp: on_fields_def)
    obtain it' where it': "find_extension_field it = Some (False, it')" "on_fields fs a it'"
      using find_extension_static [OF assms(2,3) k(1) le_less_trans [OF le0 k(1)]] k iter_at_fields [OF w k(1), of a]
      by (auto simp: find_extension_field_def)
    obtain ok s' where sk: "pb_skip_field (ns_stream st) w = (ok, s')" by fastforce
    show ?thesis
      using f False it' sk nr left_skip_field [OF sk]
      by (cases "extension_range_start st \<le> t") (auto simp: noinit_field_def noinit_unknown_def loop_done_def Let_def)
  qed
qed

lemma tag_small: "pb_decode_tag s = (Some (t, w), eof, s') \<Longrightarrow> t \<noteq> - 1"
proof -
  assume "pb_decode_tag s = (Some (t, w), eof, s')"
  then obtain temp where t: "t = drop_bit 3 temp" by (auto simp: pb_decode_tag_def split: prod.splits option.splits if_splits)
  have "\<not> bit t 31" unfolding t bit_drop_bit_eq by (auto dest: bit_imp_le_length)
  moreover have "bit (- 1 :: 32 word) 31" by simp
  ultimately show ?thesis by metis
qed

lemma noinit_loop_done:
  assumes "nested_ok env nested d" "static_message env (Suc d) fs n" "0 < a"
  shows "on_fields fs a (ns_iter st) \<Longrightarrow> loop_done fs a n st (noinit_loop env nested st)"
proof (induction "bytes_left (ns_stream st)" arbitrary: st rule: less_induct)
  case less
  show ?case
  proof (cases "bytes_left (ns_stream st) = 0")
    case True
    then show ?thesis using less.prems by (subst noinit_loop.simps) (auto simp: loop_done_def)
  next
    case False
    obtain r eof s where tg: "pb_decode_tag (ns_stream st) = (r, eof, s)" by (metis prod_cases3)
    note l = left_tag [OF tg]
    show ?thesis
    proof (cases r)
      case None
      then show ?thesis using False tg l less.prems by (subst noinit_loop.simps) (auto simp: loop_done_def)
    next
      case (Some tw)
      obtain t w where tw: "tw = (t, w)" by (cases tw)
      let ?st = "st\<lparr>ns_stream := s\<rparr>"
      obtain ok st1 where f: "noinit_field env nested t w ?st = Some (ok, st1)" "bytes_left (ns_stream st1) \<le> bytes_left s"
        "on_fields fs a (ns_iter st1)" "same_outside a n (ns_mem st) (ns_mem st1)"
        using noinit_field_done [OF assms, of ?st t w] tag_small [OF tg [unfolded Some tw]] less.prems by (auto simp: loop_done_def)
      have lt: "bytes_left (ns_stream st1) < bytes_left (ns_stream st)" using l Some f(2) by simp
      have e: "noinit_loop env nested st = (if \<not> ok then Some (False, st1) else noinit_loop env nested st1)"
        using False tg Some tw f(1) by (subst noinit_loop.simps) simp
      show ?thesis
      proof (cases ok)
        case True
        obtain ok' st' where r: "noinit_loop env nested st1 = Some (ok', st')" "bytes_left (ns_stream st') \<le> bytes_left (ns_stream st1)"
          "on_fields fs a (ns_iter st')" "same_outside a n (ns_mem st1) (ns_mem st')"
          using less(1) [OF lt f(3)] by (auto simp: loop_done_def)
        show ?thesis using True r(1-3) lt same_outside_trans [OF f(4) r(4)] unfolding e by (simp add: loop_done_def)
      next
        case False
        then show ?thesis using f(3,4) lt unfolding e by (auto simp: loop_done_def)
      qed
    qed
  qed
qed

section \<open>Messages\<close>

lemma required_loop_returns:
  assumes "wf_fields fs" "k < field_count fs"
  shows "\<exists>r. required_loop (iter_at fs a k) = Some r"
  using assms(2)
proof (induction "field_count fs - k" arbitrary: k)
  case (Suc n)
  note nx = next_iter_at [OF assms(1) Suc.prems, of a]
  show ?case
  proof (cases "Suc k < field_count fs")
    case True
    then show ?thesis using nx Suc.hyps(1) [of "Suc k"] Suc.hyps(2) by (subst required_loop.simps) simp
  next
    case False
    then show ?thesis using nx by (subst required_loop.simps) simp
  qed
qed simp

lemma finish_returns:
  assumes "wf_fields fs" "on_fields fs a (ns_iter st)"
  shows "\<exists>ok s. noinit_finish st = Some (ok, s, ns_mem st) \<and> bytes_left s = bytes_left (ns_stream st)"
proof -
  obtain k where k: "k < field_count fs" "ns_iter st = iter_at fs a k" using assms(2) by (auto simp: on_fields_def)
  obtain r where "required_loop (ns_iter st) = Some r" using required_loop_returns [OF assms(1) k(1), of a] k(2) by auto
  then show ?thesis by (cases r) (auto simp: noinit_finish_def required_count_def)
qed

lemma noinit_with_confined:
  assumes "nested_ok env nested d" "static_message env (Suc d) fs n" "0 < a"
  shows "confined a n s m (decode_noinit_with env nested s fs a m)"
proof -
  let ?st = "\<lparr>ns_stream = s, ns_iter = snd (pb_field_iter_begin fs a), ns_mem = m, fields_seen = [0, 0],
          extension_range_start = 0, fixed_count_field = None, fixed_count_size = 0\<rparr>"
  have w: "wf_fields fs" "0 < field_count fs" using assms(2) by auto
  have "on_fields fs a (ns_iter ?st)" using on_fieldsI [OF w(2), of a] by (simp add: iter_at_0)
  then obtain ok st' where l: "noinit_loop env nested ?st = Some (ok, st')" "bytes_left (ns_stream st') \<le> bytes_left s"
    "on_fields fs a (ns_iter st')" "same_outside a n m (ns_mem st')"
    using noinit_loop_done [OF assms, of ?st] by (auto simp: loop_done_def)
  obtain ok' s' where f: "noinit_finish st' = Some (ok', s', ns_mem st')" "bytes_left s' = bytes_left (ns_stream st')"
    using finish_returns [OF w(1) l(3)] by blast
  have "decode_noinit_with env nested s fs a m = (if ok then noinit_finish st' else Some (False, ns_stream st', ns_mem st'))"
    using l(1) by (simp add: decode_noinit_with_def)
  then show ?thesis using l(2,4) f by (auto simp: confined_def)
qed

lemma release_message_static:
  assumes "static_message env d fs n" "0 < a"
  shows "pb_release env d fs a m = Some m"
proof -
  obtain d' where d: "d = Suc d'" using assms(1) by (cases d) auto
  then have w: "wf_fields fs" "0 < field_count fs" using assms(1) by auto
  have "\<exists>m'. each_field (\<lambda>it m. map_option (Pair True) (pb_release_single_field env d it m)) (iter_at fs a 0) m = Some (True, m') \<and> m' = m"
    using release_static [OF assms] by (intro each_field_invariant [OF w, where P = "\<lambda>_ st. st = m"]) simp_all
  then show ?thesis using assms(2) begin_nonempty [OF w, of a] by (auto simp: pb_release_def message_release_def)
qed

lemma decode_with_confined:
  assumes "static_message env d fs n" "0 < a" "\<And>s m. confined a n s m (noinit s fs a m)"
  shows "confined a n s m (decode_with env d noinit s fs a m)"
proof -
  obtain m1 where m1: "pb_message_set_to_defaults env d fs a m = Some m1" "same_outside a n m m1"
    using defaults_confined [OF assms(1,2), of m] by (auto simp: confined_mem_def)
  obtain ok s' m2 where r: "noinit s fs a m1 = Some (ok, s', m2)" "bytes_left s' \<le> bytes_left s" "same_outside a n m1 m2"
    using assms(3) [of s m1] by (auto simp: confined_def)
  show ?thesis
    using m1(1) r(1,2) release_message_static [OF assms(1,2)] same_outside_trans [OF m1(2) r(3)] by (auto simp: decode_with_def confined_def)
qed

lemma noinit_confined: "static_message env d fs n \<Longrightarrow> 0 < a \<Longrightarrow> confined a n s m (pb_decode_noinit env d s fs a m)"
proof (induction d arbitrary: fs n a s m)
  case (Suc d)
  let ?nested = "\<lparr>n_noinit = pb_decode_noinit env d, n_decode = decode_with env d (pb_decode_noinit env d),
        n_defaults = pb_message_set_to_defaults env d, n_release = pb_release_single_field env (Suc d)\<rparr>"
  have "nested_ok env ?nested d"
    unfolding nested_ok_def pb_nested.simps
    by (intro conjI allI impI Suc.IH decode_with_confined defaults_confined release_static; assumption)
  from noinit_with_confined [OF this Suc.prems] show ?case by simp
qed simp

lemma decode_confined: "static_message env d fs n \<Longrightarrow> 0 < a \<Longrightarrow> confined a n s m (pb_decode env d s fs a m)"
  unfolding pb_decode_def by (intro decode_with_confined noinit_confined)

end
