(* ===== verification/PbEncode.thy ===== *)
theory PbEncode
  imports PbDecode
begin

text \<open>
  \<open>nanopb/pb_encode.c\<close>, encoding a message from its structure in memory: arrays, the zero values that proto3 leaves out,
  the fields by kind of allocation, extensions, and submessages, which are measured on a stream that only counts
  before they are written. \<open>None\<close> is a call that does not return, or not within the depth of nested messages.
\<close>

section \<open>Field encoders in memory\<close>

text \<open>The length of the string at an address, up to a limit.\<close>

function mem_strlen :: "mem \<Rightarrow> int \<Rightarrow> nat \<Rightarrow> nat" where
  "mem_strlen m p limit = (if limit = 0 \<or> m p = 0 then 0 else Suc (mem_strlen m (p + 1) (limit - 1)))"
  by pat_completeness auto
termination by (relation "measure (\<lambda>(m, p, n). n)") auto

declare mem_strlen.simps [simp del]

definition enc_bytes_at :: "ostream \<Rightarrow> pb_field \<Rightarrow> int \<Rightarrow> mem \<Rightarrow> bool \<times> ostream" where
  "enc_bytes_at s f src m = pb_enc_bytes s f (if src = 0 then None else Some (mload m src (bytes_offset + unat (load_size m src))))"

definition enc_string_at :: "ostream \<Rightarrow> pb_field \<Rightarrow> int \<Rightarrow> mem \<Rightarrow> bool \<times> ostream" where
  "enc_string_at s f src m =
     (if PB_ATYPE (ftype f) \<noteq> PB_ATYPE_POINTER then pb_enc_string s f (if src = 0 then None else Some (mload m src (data_size f)))
      else pb_encode_string s (if src = 0 then [] else mload m src (mem_strlen m src (SIZE_MOD - 1))))"

definition scalar_encoder :: "byte \<Rightarrow> ostream \<Rightarrow> pb_field \<Rightarrow> bytes \<Rightarrow> bool \<times> ostream" where
  "scalar_encoder ltype =
     (if ltype = PB_LTYPE_BOOL then pb_enc_bool
      else if ltype = PB_LTYPE_VARINT then pb_enc_varint
      else if ltype = 0x02 then pb_enc_uvarint
      else if ltype = 0x03 then pb_enc_svarint
      else if ltype = PB_LTYPE_FIXED32 then pb_enc_fixed32
      else pb_enc_fixed64)"

type_synonym encode_message = "ostream \<Rightarrow> pb_field list \<Rightarrow> int \<Rightarrow> (bool \<times> ostream) option"

text \<open>\<open>pb_encode_submessage\<close> over a given \<open>pb_encode\<close>.\<close>

definition encode_submessage_with :: "encode_message \<Rightarrow> ostream \<Rightarrow> pb_field list \<Rightarrow> int \<Rightarrow> (bool \<times> ostream) option" where
  "encode_submessage_with encode s fs src =
     Option.bind (encode PB_OSTREAM_SIZING fs src) (\<lambda>(ok, substream).
       if \<not> ok then Some (False, s\<lparr>oerrmsg := oerrmsg substream\<rparr>)
       else
         (let len = bytes_written substream
          in case pb_encode_varint s (of_nat len) of
               (False, s) \<Rightarrow> Some (False, s)
             | (True, s) \<Rightarrow>
                 (if sink s = None then Some (pb_write s (replicate len 0))
                  else if max_size s < szadd (bytes_written s) len then Some (False, set_oerror s ''stream full'')
                  else
                    Option.bind (encode \<lparr>sink = sink s, max_size = len, bytes_written = 0, oerrmsg = None\<rparr> fs src) (\<lambda>(status, substream).
                      (let s = s\<lparr>bytes_written := szadd (bytes_written s) (bytes_written substream), sink := sink substream, oerrmsg := oerrmsg substream\<rparr>
                       in if bytes_written substream \<noteq> len then Some (False, set_oerror s ''submsg size changed'')
                          else Some (status, s))))))"

definition pb_enc_submessage :: "pb_env \<Rightarrow> encode_message \<Rightarrow> ostream \<Rightarrow> pb_field \<Rightarrow> int \<Rightarrow> (bool \<times> ostream) option" where
  "pb_enc_submessage env encode s f src =
     (if ptr f = 0 then Some (False, set_oerror s ''invalid field descriptor'')
      else encode_submessage_with encode s (fields_at env (ptr f)) src)"

text \<open>The table \<open>PB_ENCODERS\<close>; as in \<open>PB_DECODERS\<close>, a NULL entry does not return.\<close>

definition PB_ENCODERS :: "pb_env \<Rightarrow> encode_message \<Rightarrow> ostream \<Rightarrow> pb_field \<Rightarrow> int \<Rightarrow> mem \<Rightarrow> (bool \<times> ostream) option" where
  "PB_ENCODERS env encode s f src m =
     (let ltype = PB_LTYPE (ftype f); obj = mload m src (data_size f)
      in if ltype \<le> PB_LTYPE_LAST_PACKABLE then Some (scalar_encoder ltype s f obj)
         else if ltype = PB_LTYPE_BYTES then Some (enc_bytes_at s f src m)
         else if ltype = PB_LTYPE_STRING then Some (enc_string_at s f src m)
         else if ltype = PB_LTYPE_SUBMESSAGE then pb_enc_submessage env encode s f src
         else if ltype = PB_LTYPE_FIXED_LENGTH_BYTES then Some (pb_enc_fixed_length_bytes s f obj)
         else None)"

definition pb_encode_tag_for_field :: "ostream \<Rightarrow> pb_field \<Rightarrow> bool \<times> ostream" where
  "pb_encode_tag_for_field s f =
     (let ltype = PB_LTYPE (ftype f)
      in if ltype \<le> 0x03 then pb_encode_tag s PB_WT_VARINT (tag f)
         else if ltype = PB_LTYPE_FIXED32 then pb_encode_tag s PB_WT_32BIT (tag f)
         else if ltype = PB_LTYPE_FIXED64 then pb_encode_tag s PB_WT_64BIT (tag f)
         else if ltype = PB_LTYPE_BYTES \<or> ltype = PB_LTYPE_STRING \<or> ltype = PB_LTYPE_SUBMESSAGE \<or> ltype = PB_LTYPE_FIXED_LENGTH_BYTES
              then pb_encode_tag s PB_WT_STRING (tag f)
         else (False, set_oerror s ''invalid field type''))"

section \<open>Arrays\<close>

fun encode_items :: "(ostream \<Rightarrow> int \<Rightarrow> (bool \<times> ostream) option) \<Rightarrow> nat \<Rightarrow> nat \<Rightarrow> int \<Rightarrow> ostream \<Rightarrow> (bool \<times> ostream) option" where
  "encode_items enc 0 item_size p s = Some (True, s)"
| "encode_items enc (Suc count) item_size p s =
     Option.bind (enc s p) (\<lambda>(ok, s). if \<not> ok then Some (False, s) else encode_items enc count item_size (p + int item_size) s)"

definition tag_then :: "ostream \<Rightarrow> pb_field \<Rightarrow> (ostream \<Rightarrow> (bool \<times> ostream) option) \<Rightarrow> (bool \<times> ostream) option" where
  "tag_then s f enc = (case pb_encode_tag_for_field s f of (False, s) \<Rightarrow> Some (False, s) | (True, s) \<Rightarrow> enc s)"

text \<open>The size of a packed array: \<open>None\<close> inside \<open>Some\<close> where an item cannot be encoded.\<close>

definition packed_size :: "(ostream \<Rightarrow> int \<Rightarrow> (bool \<times> ostream) option) \<Rightarrow> pb_field \<Rightarrow> nat \<Rightarrow> int \<Rightarrow> nat option option" where
  "packed_size enc f count p =
     (if PB_LTYPE (ftype f) = PB_LTYPE_FIXED32 then Some (Some (szmul 4 count))
      else if PB_LTYPE (ftype f) = PB_LTYPE_FIXED64 then Some (Some (szmul 8 count))
      else map_option (\<lambda>(ok, sizestream). if ok then Some (bytes_written sizestream) else None)
             (encode_items enc count (data_size f) p PB_OSTREAM_SIZING))"

definition encode_array :: "pb_env \<Rightarrow> encode_message \<Rightarrow> ostream \<Rightarrow> pb_field \<Rightarrow> int \<Rightarrow> nat \<Rightarrow> mem \<Rightarrow> (bool \<times> ostream) option" where
  "encode_array env encode s f p count m =
     (let enc = (\<lambda>s p. PB_ENCODERS env encode s f p m)
      in if count = 0 then Some (True, s)
         else if PB_ATYPE (ftype f) \<noteq> PB_ATYPE_POINTER \<and> array_size f < count then Some (False, set_oerror s ''array max size exceeded'')
         else if PB_LTYPE (ftype f) \<le> PB_LTYPE_LAST_PACKABLE then
           (case pb_encode_tag s PB_WT_STRING (tag f) of
              (False, s) \<Rightarrow> Some (False, s)
            | (True, s) \<Rightarrow>
                Option.bind (packed_size enc f count p) (\<lambda>total.
                  case total of
                    None \<Rightarrow> Some (False, s)
                  | Some len \<Rightarrow>
                      (case pb_encode_varint s (of_nat len) of
                         (False, s) \<Rightarrow> Some (False, s)
                       | (True, s) \<Rightarrow>
                           (if sink s = None then Some (pb_write s (replicate len 0))
                            else encode_items enc count (data_size f) p s))))
         else
           encode_items (\<lambda>s p. tag_then s f (\<lambda>s. enc s
               (if PB_ATYPE (ftype f) = PB_ATYPE_POINTER \<and> (PB_LTYPE (ftype f) = PB_LTYPE_STRING \<or> PB_LTYPE (ftype f) = PB_LTYPE_BYTES)
                then load_ptr m p else p))) count (data_size f) p s)"

section \<open>Zero values\<close>

fun pb_check_proto3_default_value :: "pb_env \<Rightarrow> nat \<Rightarrow> pb_field \<Rightarrow> int \<Rightarrow> mem \<Rightarrow> bool option" where
  "pb_check_proto3_default_value env 0 f p m = None"
| "pb_check_proto3_default_value env (Suc d) f p m =
     (let type = ftype f; pSize = p + size_offset f;
          rest =
            (if PB_ATYPE type = PB_ATYPE_STATIC \<and> PB_LTYPE type = PB_LTYPE_BYTES then Some (load_size m p = 0)
             else if PB_ATYPE type = PB_ATYPE_STATIC \<and> PB_LTYPE type = PB_LTYPE_STRING then Some (m p = 0)
             else if PB_ATYPE type = PB_ATYPE_STATIC \<and> PB_LTYPE type = PB_LTYPE_FIXED_LENGTH_BYTES then Some (data_size f = 0)
             else if PB_ATYPE type = PB_ATYPE_STATIC \<and> PB_LTYPE type = PB_LTYPE_SUBMESSAGE then
               (case pb_field_iter_begin (fields_at env (ptr f)) p of
                  (False, it) \<Rightarrow> Some True
                | (True, it) \<Rightarrow>
                    map_option fst
                      (each_field (\<lambda>it u. map_option (\<lambda>zero. (zero, u)) (pb_check_proto3_default_value env d (pos_field it) (pData it) m)) it ()))
             else if PB_ATYPE type = PB_ATYPE_POINTER \<and> PB_LTYPE_LAST_PACKABLE < PB_LTYPE type then Some (load_ptr m p = 0)
             else Some (\<forall>b\<in>set (mload m p (data_size f)). b = 0))
      in if PB_HTYPE type = PB_HTYPE_REQUIRED then Some False
         else if PB_HTYPE type = PB_HTYPE_REPEATED then
           (if size_offset f \<noteq> 0 then Some (load_size m pSize = 0)
            else if PB_ATYPE type = PB_ATYPE_STATIC then Some False
            else rest)
         else if PB_HTYPE type = PB_HTYPE_ONEOF then Some (load_size m pSize = 0)
         else if PB_HTYPE type = PB_HTYPE_OPTIONAL \<and> size_offset f \<noteq> 0 then Some (\<not> safe_read_bool (mload m pSize 1))
         else rest)"

section \<open>A field\<close>

text \<open>Where the field has no \<open>size_offset\<close>, \<open>pSize\<close> points to the local \<open>implicit_has\<close>. The counter of a union cannot be
  read there: such a description does not return.\<close>

definition encode_basic_field :: "pb_env \<Rightarrow> nat \<Rightarrow> encode_message \<Rightarrow> ostream \<Rightarrow> pb_field \<Rightarrow> int \<Rightarrow> mem \<Rightarrow> (bool \<times> ostream) option" where
  "encode_basic_field env d encode s f a m =
     (let type = ftype f; pSize = a + size_offset f
      in Option.bind
           (if size_offset f = 0 \<and> PB_HTYPE type = PB_HTYPE_OPTIONAL then map_option Not (pb_check_proto3_default_value env d f a m) else Some True)
           (\<lambda>implicit_has.
             (let pData = (if PB_ATYPE type = PB_ATYPE_POINTER then load_ptr m a else a);
                  implicit_has = (if PB_ATYPE type = PB_ATYPE_POINTER then pData \<noteq> 0 else implicit_has);
                  has = (if size_offset f \<noteq> 0 then safe_read_bool (mload m pSize 1) else implicit_has);
                  write = (\<lambda>s. tag_then s f (\<lambda>s. PB_ENCODERS env encode s f pData m))
              in if PB_HTYPE type = PB_HTYPE_REQUIRED then
                   (if pData = 0 then Some (False, set_oerror s ''missing required field'') else write s)
                 else if PB_HTYPE type = PB_HTYPE_OPTIONAL then (if has then write s else Some (True, s))
                 else if PB_HTYPE type = PB_HTYPE_REPEATED then
                   encode_array env encode s f pData (if size_offset f \<noteq> 0 then unat (load_size m pSize) else array_size f) m
                 else if PB_HTYPE type = PB_HTYPE_ONEOF then
                   (if size_offset f = 0 then None else if load_size m pSize = tag f then write s else Some (True, s))
                 else Some (False, set_oerror s ''invalid field type''))))"

definition encode_callback_field :: "pb_env \<Rightarrow> ostream \<Rightarrow> pb_field \<Rightarrow> int \<Rightarrow> mem \<Rightarrow> bool \<times> ostream" where
  "encode_callback_field env s f a m =
     (let fn = load_ptr m a
      in if fn = 0 then (True, s)
         else (case encode_fn env fn s f (a + 8) m of (ok, s) \<Rightarrow> if ok then (True, s) else (False, set_oerror s ''callback error'')))"

definition encode_field :: "pb_env \<Rightarrow> nat \<Rightarrow> encode_message \<Rightarrow> ostream \<Rightarrow> pb_field \<Rightarrow> int \<Rightarrow> mem \<Rightarrow> (bool \<times> ostream) option" where
  "encode_field env d encode s f a m =
     (let atype = PB_ATYPE (ftype f)
      in if atype = PB_ATYPE_STATIC \<or> atype = PB_ATYPE_POINTER then encode_basic_field env d encode s f a m
         else if atype = PB_ATYPE_CALLBACK then Some (encode_callback_field env s f a m)
         else Some (False, set_oerror s ''invalid field type''))"

definition default_extension_encoder :: "pb_env \<Rightarrow> nat \<Rightarrow> encode_message \<Rightarrow> ostream \<Rightarrow> int \<Rightarrow> mem \<Rightarrow> (bool \<times> ostream) option" where
  "default_extension_encoder env d encode s ext m =
     (let f = ext_fields env ext m ! 0
      in encode_field env d encode s f (if PB_ATYPE (ftype f) = PB_ATYPE_POINTER then ext + 8 else load_ptr m (ext + 8)) m)"

partial_function (option) encode_extension_loop :: "pb_env \<Rightarrow> nat \<Rightarrow> encode_message \<Rightarrow> ostream \<Rightarrow> int \<Rightarrow> mem \<Rightarrow> (bool \<times> ostream) option" where
  "encode_extension_loop env d encode s ext m =
     (if ext = 0 then Some (True, s)
      else
        (let fn = load_ptr m (load_ptr m ext + 8)
         in Option.bind (if fn \<noteq> 0 then Some (ext_encode_fn env fn s ext m) else default_extension_encoder env d encode s ext m)
              (\<lambda>(status, s). if \<not> status then Some (False, s) else encode_extension_loop env d encode s (load_ptr m (ext + 16)) m)))"

definition encode_extension_field :: "pb_env \<Rightarrow> nat \<Rightarrow> encode_message \<Rightarrow> ostream \<Rightarrow> int \<Rightarrow> mem \<Rightarrow> (bool \<times> ostream) option" where
  "encode_extension_field env d encode s a m = encode_extension_loop env d encode s (load_ptr m a) m"

section \<open>A message\<close>

definition encode_one :: "pb_env \<Rightarrow> nat \<Rightarrow> encode_message \<Rightarrow> mem \<Rightarrow> pb_field_iter \<Rightarrow> ostream \<Rightarrow> (bool \<times> ostream) option" where
  "encode_one env d encode m it s =
     (if PB_LTYPE (ftype (pos_field it)) = PB_LTYPE_EXTENSION then encode_extension_field env d encode s (pData it) m
      else encode_field env d encode s (pos_field it) (pData it) m)"

fun pb_encode :: "pb_env \<Rightarrow> nat \<Rightarrow> mem \<Rightarrow> ostream \<Rightarrow> pb_field list \<Rightarrow> int \<Rightarrow> (bool \<times> ostream) option" where
  "pb_encode env 0 m s fs src = None"
| "pb_encode env (Suc d) m s fs src =
     (case pb_field_iter_begin fs src of
        (False, it) \<Rightarrow> Some (True, s)
      | (True, it) \<Rightarrow> each_field (encode_one env (Suc d) (pb_encode env d m) m) it s)"

definition pb_encode_submessage :: "pb_env \<Rightarrow> nat \<Rightarrow> mem \<Rightarrow> ostream \<Rightarrow> pb_field list \<Rightarrow> int \<Rightarrow> (bool \<times> ostream) option" where
  "pb_encode_submessage env d m = encode_submessage_with (pb_encode env d m)"

definition pb_encode_delimited :: "pb_env \<Rightarrow> nat \<Rightarrow> mem \<Rightarrow> ostream \<Rightarrow> pb_field list \<Rightarrow> int \<Rightarrow> (bool \<times> ostream) option" where
  "pb_encode_delimited = pb_encode_submessage"

definition pb_encode_nullterminated :: "pb_env \<Rightarrow> nat \<Rightarrow> mem \<Rightarrow> ostream \<Rightarrow> pb_field list \<Rightarrow> int \<Rightarrow> (bool \<times> ostream) option" where
  "pb_encode_nullterminated env d m s fs src =
     Option.bind (pb_encode env d m s fs src) (\<lambda>(ok, s). if \<not> ok then Some (False, s) else Some (pb_write s [0]))"

definition pb_get_encoded_size :: "pb_env \<Rightarrow> nat \<Rightarrow> mem \<Rightarrow> pb_field list \<Rightarrow> int \<Rightarrow> nat option option" where
  "pb_get_encoded_size env d m fs src =
     map_option (\<lambda>(ok, s). if ok then Some (bytes_written s) else None) (pb_encode env d m PB_OSTREAM_SIZING fs src)"

end
