(* ===== verification/PbLeaf.thy ===== *)
theory PbLeaf
  imports PbConfine PbEncode
begin

text \<open>
  The fields of a structure without pointers that are no messages, as one codec: what the object at an address says,
  how it is written, and that reading what was written gives an object that says the same.
\<close>

section \<open>The codecs of the scalar types as one\<close>

definition leaf_enc :: "pb_field \<Rightarrow> ostream \<Rightarrow> bytes \<Rightarrow> bool \<times> ostream" where
  "leaf_enc f s obj =
     (let l = PB_LTYPE (ftype f)
      in if l \<le> PB_LTYPE_LAST_PACKABLE then scalar_encoder l s f obj
         else if l = PB_LTYPE_BYTES then pb_enc_bytes s f (Some obj)
         else if l = PB_LTYPE_STRING then pb_enc_string s f (Some obj)
         else pb_enc_fixed_length_bytes s f obj)"

definition leaf_dec :: "pb_field \<Rightarrow> istream \<Rightarrow> bytes \<Rightarrow> bool \<times> istream \<times> bytes" where
  "leaf_dec f s obj =
     (let l = PB_LTYPE (ftype f)
      in if l \<le> PB_LTYPE_LAST_PACKABLE then scalar_decoder l s f obj
         else if l = PB_LTYPE_BYTES then static_dec pb_dec_bytes s f obj
         else if l = PB_LTYPE_STRING then static_dec pb_dec_string s f obj
         else pb_dec_fixed_length_bytes s f obj)"

definition leaf_content :: "pb_field \<Rightarrow> bytes \<Rightarrow> bytes" where
  "leaf_content f obj =
     (let l = PB_LTYPE (ftype f)
      in if l = PB_LTYPE_BOOL then bool_content obj
         else if l = PB_LTYPE_BYTES then bytes_content (Some obj)
         else if l = PB_LTYPE_STRING then string_content (Some obj)
         else obj)"

definition leaf_wire :: "pb_field \<Rightarrow> bytes \<Rightarrow> bytes" where
  "leaf_wire f c =
     (let l = PB_LTYPE (ftype f)
      in if l = PB_LTYPE_VARINT then varint_bytes (unat (sext (data_size f) (le_val c)))
         else if l = 0x02 then varint_bytes (unat (le_val c))
         else if l = 0x03 then varint_bytes (unat (zigzag (sext (data_size f) (le_val c))))
         else if l \<le> PB_LTYPE_LAST_PACKABLE then c
         else string_bytes c)"

text \<open>The size of the object fits its type.\<close>

definition leaf_field :: "pb_field \<Rightarrow> bool" where
  "leaf_field f \<longleftrightarrow>
     (let l = PB_LTYPE (ftype f); n = data_size f
      in PB_ATYPE (ftype f) = PB_ATYPE_STATIC \<and>
         (if l = PB_LTYPE_BOOL then n = 1
          else if l = PB_LTYPE_VARINT \<or> l = 0x02 \<or> l = 0x03 then n = 1 \<or> n = 2 \<or> n = 4 \<or> n = 8
          else if l = PB_LTYPE_FIXED32 then n = 4
          else if l = PB_LTYPE_FIXED64 then n = 8
          else (l = PB_LTYPE_BYTES \<or> l = PB_LTYPE_STRING \<or> l = PB_LTYPE_FIXED_LENGTH_BYTES) \<and> n < 2 ^ 32))"

definition leaf_valid :: "pb_field \<Rightarrow> bytes \<Rightarrow> bool" where
  "leaf_valid f obj \<longleftrightarrow>
     leaf_field f \<and> length obj = data_size f \<and>
     (PB_LTYPE (ftype f) = PB_LTYPE_BYTES \<longrightarrow> bytes_object f (Some obj)) \<and>
     (PB_LTYPE (ftype f) = PB_LTYPE_STRING \<longrightarrow> string_object f (Some obj))"

lemma leaf_cases:
  assumes "leaf_field f"
  obtains "PB_LTYPE (ftype f) = 0" "data_size f = 1" | "PB_LTYPE (ftype f) = 1" "data_size f \<in> {1, 2, 4, 8}"
    | "PB_LTYPE (ftype f) = 2" "data_size f \<in> {1, 2, 4, 8}" | "PB_LTYPE (ftype f) = 3" "data_size f \<in> {1, 2, 4, 8}"
    | "PB_LTYPE (ftype f) = 4" "data_size f = 4" | "PB_LTYPE (ftype f) = 5" "data_size f = 8"
    | "PB_LTYPE (ftype f) = 6" "data_size f < 2 ^ 32" | "PB_LTYPE (ftype f) = 7" "data_size f < 2 ^ 32"
    | "PB_LTYPE (ftype f) = 10" "data_size f < 2 ^ 32"
  using assms by (simp add: leaf_field_def Let_def split: if_splits) blast+

lemmas leaf_defs = leaf_enc_def leaf_dec_def leaf_content_def leaf_wire_def leaf_valid_def scalar_encoder_def scalar_decoder_def Let_def

text \<open>\<open>static_dec\<close> is the decoder on an object that is there.\<close>

lemma static_dec_eq: "dec (\<lambda>_ _. None) s f (Some obj) = (ok, s', Some obj') \<Longrightarrow> static_dec dec s f obj = (ok, s', obj')"
  by (simp add: static_dec_def)

lemma leaf_encodes: "leaf_valid f x \<Longrightarrow> pb_writer (\<lambda>s. leaf_enc f s x) (leaf_wire f (leaf_content f x))"
proof -
  assume v: "leaf_valid f x"
  then have "leaf_field f" and l: "length x = data_size f" by (simp_all add: leaf_valid_def)
  from this(1) show ?thesis
  proof (cases rule: leaf_cases)
    case 1
    then show ?thesis using field_bool.encodes [of x f] l by (simp add: leaf_defs)
  next
    case 2
    then show ?thesis using field_varint.encodes [of f x] l by (simp add: leaf_defs num_field_def)
  next
    case 3
    then show ?thesis using field_uvarint.encodes [of f x] l by (simp add: leaf_defs num_field_def)
  next
    case 4
    then show ?thesis using field_svarint.encodes [of f x] l by (simp add: leaf_defs num_field_def)
  next
    case 5
    then show ?thesis using field_fixed32.encodes [of x f] l by (simp add: leaf_defs)
  next
    case 6
    then show ?thesis using field_fixed64.encodes [of x f] l by (simp add: leaf_defs)
  next
    case 7
    then show ?thesis using field_bytes.encodes [of f "Some x"] v by (simp add: leaf_defs)
  next
    case 8
    then show ?thesis using field_string.encodes [of f "Some x"] v by (simp add: leaf_defs)
  next
    case 9
    then show ?thesis using field_fixed_bytes.encodes [of x f] l by (simp add: leaf_defs)
  qed
qed

lemma leaf_decodes:
  assumes "leaf_valid f x" "length y = data_size f" "wf_istream s" "visible s = leaf_wire f (leaf_content f x) @ r"
  shows "\<exists>y'. leaf_dec f s y = (True, advance (length (leaf_wire f (leaf_content f x))) s, y') \<and> leaf_valid f y' \<and> leaf_content f y' = leaf_content f x"
proof -
  have lf: "leaf_field f" and l: "length x = data_size f" using assms(1) by (simp_all add: leaf_valid_def)
  have at: "PB_ATYPE (ftype f) = PB_ATYPE_STATIC" using lf by (simp add: leaf_field_def Let_def)
  from lf show ?thesis
  proof (cases rule: leaf_cases)
    case 1
    then show ?thesis using field_bool.decodes [of x y s r f] l assms by (auto simp: leaf_defs)
  next
    case 2
    then show ?thesis using field_varint.decodes [of f x y s r] l assms by (auto simp: leaf_defs num_field_def)
  next
    case 3
    then show ?thesis using field_uvarint.decodes [of f x y s r] l assms by (auto simp: leaf_defs num_field_def)
  next
    case 4
    then show ?thesis using field_svarint.decodes [of f x y s r] l assms by (auto simp: leaf_defs num_field_def)
  next
    case 5
    then show ?thesis using field_fixed32.decodes [of x y s r f] l assms by (auto simp: leaf_defs)
  next
    case 6
    then show ?thesis using field_fixed64.decodes [of x y s r f] l assms by (auto simp: leaf_defs)
  next
    case 7
    have o: "bytes_object f (Some x)" using assms(1) 7 by (simp add: leaf_valid_def)
    have rm: "room_for (\<lambda>_ _. None) f (bytes_offset + length (bytes_content (Some x))) (Some y)"
    proof -
      have "bytes_offset + unat (load 4 x) \<le> length x" using o unfolding bytes_object_def by blast
      then show ?thesis using length_bytes_content [OF o] assms(2) l at by (simp add: room_for_def)
    qed
    have vis: "visible s = string_bytes (bytes_content (Some x)) @ r" using assms(4) 7 by (simp add: leaf_defs)
    obtain y' where y: "pb_dec_bytes (\<lambda>_ _. None) s f (Some y) = (True, advance (length (string_bytes (bytes_content (Some x)))) s, y')"
      "bytes_object f y'" "bytes_content y' = bytes_content (Some x)"
      using field_bytes.decodes [OF o rm assms(3) vis] by blast
    obtain z where "y' = Some z" "length z = data_size f" using y(2) at by (auto simp: bytes_object_def)
    then show ?thesis using y static_dec_eq [of pb_dec_bytes] 7 lf by (simp add: leaf_defs)
  next
    case 8
    have o: "string_object f (Some x)" using assms(1) 8 by (simp add: leaf_valid_def)
    have "length (string_content (Some x)) < length x"
    proof -
      have "0 \<in> set x" using o by (simp add: string_object_def)
      then have "takeWhile (\<lambda>c. c \<noteq> 0) x \<noteq> x" by (simp add: takeWhile_eq_all_conv)
      then have "length (takeWhile (\<lambda>c. c \<noteq> 0) x) \<noteq> length x" using takeWhile_eq_take [of "\<lambda>c. c \<noteq> 0" x] by fastforce
      then show ?thesis using length_takeWhile_le [of "\<lambda>c. c \<noteq> 0" x] by (simp add: string_content_def)
    qed
    then have rm: "room_for (\<lambda>_ _. None) f (length (string_content (Some x)) + 1) (Some y)" using assms(2) l at by (simp add: room_for_def)
    have vis: "visible s = string_bytes (string_content (Some x)) @ r" using assms(4) 8 by (simp add: leaf_defs)
    obtain y' where y: "pb_dec_string (\<lambda>_ _. None) s f (Some y) = (True, advance (length (string_bytes (string_content (Some x)))) s, y')"
      "string_object f y'" "string_content y' = string_content (Some x)"
      using field_string.decodes [OF o rm assms(3) vis] by blast
    obtain z where "y' = Some z" "length z = data_size f" using y(2) at by (auto simp: string_object_def)
    then show ?thesis using y static_dec_eq [of pb_dec_string] 8 lf by (simp add: leaf_defs)
  next
    case 9
    then show ?thesis using field_fixed_bytes.decodes [of x f y s r] l assms by (auto simp: leaf_defs)
  qed
qed

end
