(* ===== verification/PbValue.thy ===== *)
theory PbValue
  imports PbLeaf
begin

text \<open>
  What a message in memory says, as a value: for each field its items, none for an optional field that is absent.
  The wire format of a value is given without streams or memory. The messages here have no pointers and no
  unions, and every optional or repeated field has its own flag or counter.
\<close>

section \<open>Values and their wire format\<close>

text \<open>A counter counts no more items than the array has.\<close>

datatype pb_item = Obj bytes | Msg "pb_item list list"

definition item_count :: "pb_field list \<Rightarrow> int \<Rightarrow> mem \<Rightarrow> nat \<Rightarrow> nat" where
  "item_count fs a m k =
     (let h = PB_HTYPE (ftype (fs ! k)); c = a + size_off fs k
      in if h = PB_HTYPE_OPTIONAL then (if m c = 0 then 0 else 1)
         else if h = PB_HTYPE_REPEATED then min (unat (load_size m c)) (array_size (fs ! k)) else 1)"

definition item_addr :: "pb_field list \<Rightarrow> int \<Rightarrow> nat \<Rightarrow> nat \<Rightarrow> int" where
  "item_addr fs a k i = a + field_off fs k + int (data_size (fs ! k) * i)"

definition item_value :: "(pb_field list \<Rightarrow> int \<Rightarrow> pb_item list list) \<Rightarrow> pb_env \<Rightarrow> pb_field \<Rightarrow> mem \<Rightarrow> int \<Rightarrow> pb_item" where
  "item_value sub env f m p =
     (if PB_LTYPE (ftype f) = PB_LTYPE_SUBMESSAGE then Msg (sub (fields_at env (ptr f)) p)
      else Obj (leaf_content f (mload m p (data_size f))))"

definition field_value :: "(pb_field list \<Rightarrow> int \<Rightarrow> pb_item list list) \<Rightarrow> pb_env \<Rightarrow> mem \<Rightarrow> pb_field list \<Rightarrow> int \<Rightarrow> nat \<Rightarrow> pb_item list" where
  "field_value sub env m fs a k = map (\<lambda>i. item_value sub env (fs ! k) m (item_addr fs a k i)) [0..<item_count fs a m k]"

fun message_value :: "pb_env \<Rightarrow> nat \<Rightarrow> mem \<Rightarrow> pb_field list \<Rightarrow> int \<Rightarrow> pb_item list list" where
  "message_value env 0 m fs a = []"
| "message_value env (Suc d) m fs a = map (field_value (message_value env d m) env m fs a) [0..<field_count fs]"

definition wire_type_of :: "pb_field \<Rightarrow> 32 word" where
  "wire_type_of f =
     (let l = PB_LTYPE (ftype f)
      in if l \<le> 0x03 then PB_WT_VARINT else if l = PB_LTYPE_FIXED32 then PB_WT_32BIT else if l = PB_LTYPE_FIXED64 then PB_WT_64BIT
         else PB_WT_STRING)"

abbreviation tag_bytes :: "pb_field \<Rightarrow> 32 word \<Rightarrow> bytes" where
  "tag_bytes f w \<equiv> varint_bytes (unat (tag_word (tag f, w)))"

fun item_wire :: "(pb_field list \<Rightarrow> pb_item list list \<Rightarrow> bytes) \<Rightarrow> pb_env \<Rightarrow> pb_field \<Rightarrow> pb_item \<Rightarrow> bytes" where
  "item_wire sub env f (Obj c) = leaf_wire f c"
| "item_wire sub env f (Msg v) = string_bytes (sub (fields_at env (ptr f)) v)"

definition packed_field :: "pb_field \<Rightarrow> bool" where
  "packed_field f \<longleftrightarrow> PB_HTYPE (ftype f) = PB_HTYPE_REPEATED \<and> PB_LTYPE (ftype f) \<le> PB_LTYPE_LAST_PACKABLE"

definition field_wire :: "(pb_field list \<Rightarrow> pb_item list list \<Rightarrow> bytes) \<Rightarrow> pb_env \<Rightarrow> pb_field \<Rightarrow> pb_item list \<Rightarrow> bytes" where
  "field_wire sub env f xs =
     (if packed_field f
      then (if xs = [] then [] else tag_bytes f PB_WT_STRING @ string_bytes (concat (map (item_wire sub env f) xs)))
      else concat (map (\<lambda>x. tag_bytes f (wire_type_of f) @ item_wire sub env f x) xs))"

fun message_wire :: "pb_env \<Rightarrow> nat \<Rightarrow> pb_field list \<Rightarrow> pb_item list list \<Rightarrow> bytes" where
  "message_wire env 0 fs v = []"
| "message_wire env (Suc d) fs v = concat (map (\<lambda>k. field_wire (message_wire env d) env (fs ! k) (v ! k)) [0..<field_count fs])"

section \<open>Messages without pointers or unions\<close>

text \<open>The bytes of a structure that belong to a field, from its beginning: the data, and the flag or counter.\<close>

definition cells :: "pb_field list \<Rightarrow> nat \<Rightarrow> (int \<times> nat) list" where
  "cells fs k =
     (let h = PB_HTYPE (ftype (fs ! k))
      in (field_off fs k, field_extent (fs ! k)) #
         (if h = PB_HTYPE_OPTIONAL then [(size_off fs k, 1)] else if h = PB_HTYPE_REPEATED then [(size_off fs k, 4)] else []))"

definition apart :: "int \<times> nat \<Rightarrow> int \<times> nat \<Rightarrow> bool" where
  "apart c c' \<longleftrightarrow> fst c + int (snd c) \<le> fst c' \<or> fst c' + int (snd c') \<le> fst c"

definition plain_field :: "(pb_field list \<Rightarrow> nat \<Rightarrow> bool) \<Rightarrow> pb_env \<Rightarrow> pb_field list \<Rightarrow> nat \<Rightarrow> bool" where
  "plain_field sub env fs k \<longleftrightarrow>
     (let f = fs ! k; h = PB_HTYPE (ftype f)
      in (h = PB_HTYPE_REQUIRED \<or> (h = PB_HTYPE_OPTIONAL \<or> h = PB_HTYPE_REPEATED) \<and> size_offset f \<noteq> 0)
         \<and> unat (tag f) < 2 ^ 29
         \<and> (if PB_LTYPE (ftype f) = PB_LTYPE_SUBMESSAGE then sub (fields_at env (ptr f)) (data_size f) else leaf_field f)
         \<and> (\<forall>c\<in>set (tl (cells fs k)). apart (hd (cells fs k)) c)
         \<and> (\<forall>j<k. \<forall>c\<in>set (cells fs j). \<forall>c'\<in>set (cells fs k). apart c c'))"

fun plain_message :: "pb_env \<Rightarrow> nat \<Rightarrow> pb_field list \<Rightarrow> nat \<Rightarrow> bool" where
  "plain_message env 0 fs n = False"
| "plain_message env (Suc d) fs n \<longleftrightarrow>
     static_message env (Suc d) fs n \<and> distinct (map tag (butlast fs)) \<and> field_count fs < 2 ^ 32
     \<and> (\<forall>k<field_count fs. plain_field (plain_message env d) env fs k)"

text \<open>A structure whose objects are encodable and whose counters are within their arrays.\<close>

fun object_ok :: "pb_env \<Rightarrow> nat \<Rightarrow> mem \<Rightarrow> pb_field list \<Rightarrow> int \<Rightarrow> bool" where
  "object_ok env 0 m fs a = False"
| "object_ok env (Suc d) m fs a \<longleftrightarrow>
     (\<forall>k<field_count fs.
        (PB_HTYPE (ftype (fs ! k)) = PB_HTYPE_REPEATED \<longrightarrow> unat (load_size m (a + size_off fs k)) \<le> array_size (fs ! k)) \<and>
        (\<forall>i<item_count fs a m k.
           if PB_LTYPE (ftype (fs ! k)) = PB_LTYPE_SUBMESSAGE then object_ok env d m (fields_at env (ptr (fs ! k))) (item_addr fs a k i)
           else leaf_valid (fs ! k) (mload m (item_addr fs a k i) (data_size (fs ! k)))))"

section \<open>Facts about plain messages\<close>

definition field_kind :: "pb_field \<Rightarrow> bool" where
  "field_kind f \<longleftrightarrow> PB_LTYPE (ftype f) = PB_LTYPE_SUBMESSAGE \<or> leaf_field f"

lemma plain_static: "plain_message env d fs n \<Longrightarrow> static_message env d fs n"
  by (cases d) (simp_all del: static_message.simps)

lemma plain_field_kind:
  "plain_field sub env fs k \<Longrightarrow> field_kind (fs ! k)"
  "plain_field sub env fs k \<Longrightarrow> PB_HTYPE (ftype (fs ! k)) \<noteq> PB_HTYPE_ONEOF"
  "plain_field sub env fs k \<Longrightarrow> \<not> in_union fs k"
  by (auto simp: plain_field_def field_kind_def in_union_def Let_def split: if_splits)

lemma plain_htype [consumes 1, case_names required optional repeated]:
  assumes "plain_field sub env fs k"
  obtains "PB_HTYPE (ftype (fs ! k)) = PB_HTYPE_REQUIRED"
    | "PB_HTYPE (ftype (fs ! k)) = PB_HTYPE_OPTIONAL" "size_offset (fs ! k) \<noteq> 0"
    | "PB_HTYPE (ftype (fs ! k)) = PB_HTYPE_REPEATED" "size_offset (fs ! k) \<noteq> 0"
  using assms by (auto simp: plain_field_def Let_def)

lemma plain_size_off:
  assumes "plain_message env (Suc d) fs n" "k < field_count fs"
  shows "size_off fs k = field_off fs k + size_offset (fs ! k)"
proof (cases k)
  case (Suc j)
  then have "\<not> in_union fs j" using plain_field_kind(3) [of "plain_message env d" env fs j] assms by simp
  then show ?thesis using Suc by simp
qed simp

text \<open>Where the walk stands on the field \<open>k\<close>.\<close>

lemma plain_iter:
  assumes "plain_message env (Suc d) fs n" "k < field_count fs" "0 < a"
  shows "plain_field (plain_message env d) env fs k" "static_field (static_message env d) env fs n k" "pos_field (iter_at fs a k) = fs ! k"
    "pData (iter_at fs a k) = a + field_off fs k" "pSize (iter_at fs a k) = a + size_off fs k" "wf_fields fs" "0 < pData (iter_at fs a k)"
    "size_off fs k = field_off fs k + size_offset (fs ! k)" "PB_ATYPE (ftype (fs ! k)) = PB_ATYPE_STATIC" "item_addr fs a k 0 = pData (iter_at fs a k)"
    "item_addr fs a k i = pData (iter_at fs a k) + int (data_size (fs ! k) * i)"
proof -
  have st: "static_message env (Suc d) fs n" using plain_static [OF assms(1)] .
  show "plain_field (plain_message env d) env fs k" using assms(1,2) by simp
  note it = static_iter [OF st assms(2,3)]
  show "static_field (static_message env d) env fs n k" "pos_field (iter_at fs a k) = fs ! k"
    "pData (iter_at fs a k) = a + field_off fs k" "pSize (iter_at fs a k) = a + size_off fs k" "wf_fields fs" "0 < pData (iter_at fs a k)"
    using it by auto
  then show "PB_ATYPE (ftype (fs ! k)) = PB_ATYPE_STATIC" "item_addr fs a k 0 = pData (iter_at fs a k)"
    "item_addr fs a k i = pData (iter_at fs a k) + int (data_size (fs ! k) * i)"
    using static_field_kind(1) by (simp_all add: item_addr_def)
  show "size_off fs k = field_off fs k + size_offset (fs ! k)" by (rule plain_size_off [OF assms(1,2)])
qed

lemma plain_submessage:
  assumes "plain_message env (Suc d) fs n" "k < field_count fs" "PB_LTYPE (ftype (fs ! k)) = PB_LTYPE_SUBMESSAGE"
  shows "plain_message env d (fields_at env (ptr (fs ! k))) (data_size (fs ! k))" "ptr (fs ! k) \<noteq> 0"
proof -
  have "plain_field (plain_message env d) env fs k" using assms(1,2) by simp
  then show "plain_message env d (fields_at env (ptr (fs ! k))) (data_size (fs ! k))" using assms(3) by (simp add: plain_field_def Let_def)
  have "static_field (static_message env d) env fs n k" using plain_static [OF assms(1)] assms(2) by simp
  then show "ptr (fs ! k) \<noteq> 0" using assms(3) by (simp add: static_field_def Let_def)
qed

end
