(* ===== verification/PbFrame.thy ===== *)
theory PbFrame
  imports PbValue
begin

text \<open>
  Which bytes the value of a field depends on: the cells of the field only. So decoding one field keeps the values of all
  others. The default values of a message make it fresh: no optional field is there and all arrays are empty.
\<close>

section \<open>Cells\<close>

definition agree :: "int \<Rightarrow> nat \<Rightarrow> mem \<Rightarrow> mem \<Rightarrow> bool" where
  "agree a n m m' \<longleftrightarrow> (\<forall>x. a \<le> x \<and> x < a + int n \<longrightarrow> m' x = m x)"

lemma agree_refl [simp]: "agree a n m m"
  by (simp add: agree_def)

lemma agree_trans: "agree a n m m1 \<Longrightarrow> agree a n m1 m2 \<Longrightarrow> agree a n m m2"
  by (simp add: agree_def)

lemma agree_part: "agree a n m m' \<Longrightarrow> a \<le> b \<Longrightarrow> b + int k \<le> a + int n \<Longrightarrow> agree b k m m'"
  by (simp add: agree_def)

lemma agree_outside: "same_outside b k m m' \<Longrightarrow> a + int n \<le> b \<or> b + int k \<le> a \<Longrightarrow> agree a n m m'"
  by (auto simp: agree_def same_outside_def)

lemma agree_mload: "agree a n m m' \<Longrightarrow> mload m' a n = mload m a n"
  by (rule nth_equalityI) (simp_all add: agree_def)

lemma agree_load_size: "agree a 4 m m' \<Longrightarrow> load_size m' a = load_size m a"
  by (simp add: load_size_def agree_mload)

lemma load_store_size [simp]: "load_size (store_size m a v) a = v"
proof -
  have "mload (store_size m a v) a 4 = le_bytes 4 (ucast v)"
    using mload_mstore [of m a "le_bytes 4 (ucast v)"] by (simp add: store_size_def)
  moreover have "le_val (le_bytes 4 (ucast v)) = take_bit 32 (ucast v :: 64 word)" by (simp add: le_val_def le_bytes_def be_val_be_bytes)
  moreover have "ucast (take_bit 32 (ucast v :: 64 word)) = v" by (rule bit_eqI) (auto simp: bit_simps dest: bit_imp_le_length)
  ultimately show ?thesis by (simp add: load_size_def)
qed

lemma cells_within:
  assumes "plain_message env (Suc d) fs n" "k < field_count fs" "c \<in> set (cells fs k)"
  shows "0 \<le> fst c \<and> fst c + int (snd c) \<le> int n"
proof -
  have "static_field (static_message env d) env fs n k" using plain_static [OF assms(1)] assms(2) by simp
  moreover have "PB_HTYPE (ftype (fs ! k)) = PB_HTYPE_OPTIONAL \<Longrightarrow> size_off fs k \<noteq> field_off fs k"
    using plain_size_off [OF assms(1,2)] assms(1,2) by (auto simp: plain_field_def Let_def)
  ultimately show ?thesis using assms(3) by (auto simp: cells_def static_field_def Let_def split: if_splits)
qed

text \<open>A memory where the fields other than \<open>k\<close> are as before.\<close>

definition others_same :: "pb_field list \<Rightarrow> int \<Rightarrow> nat \<Rightarrow> mem \<Rightarrow> mem \<Rightarrow> bool" where
  "others_same fs a k m m' \<longleftrightarrow> (\<forall>j<field_count fs. j \<noteq> k \<longrightarrow> (\<forall>c\<in>set (cells fs j). agree (a + fst c) (snd c) m m'))"

lemma others_refl [simp]: "others_same fs a k m m"
  by (simp add: others_same_def)

lemma others_trans: "others_same fs a k m m1 \<Longrightarrow> others_same fs a k m1 m2 \<Longrightarrow> others_same fs a k m m2"
  unfolding others_same_def using agree_trans by blast

lemma cells_apart:
  assumes "plain_message env (Suc d) fs n" "k < field_count fs" "j < field_count fs" "j \<noteq> k" "c \<in> set (cells fs k)" "c' \<in> set (cells fs j)"
  shows "apart c c'"
proof -
  have p: "\<forall>j<i. \<forall>c\<in>set (cells fs j). \<forall>c'\<in>set (cells fs i). apart c c'" if "i < field_count fs" for i
    using assms(1) that by (auto simp: plain_field_def Let_def)
  have "j < k \<or> k < j" using assms(4) by auto
  then have "apart c c' \<or> apart c' c" using p [OF assms(2)] p [OF assms(3)] assms(5,6) by blast
  then show ?thesis unfolding apart_def by blast
qed

lemma others_write:
  assumes "plain_message env (Suc d) fs n" "k < field_count fs" "c \<in> set (cells fs k)" "same_outside (a + fst c) (snd c) m m'"
  shows "others_same fs a k m m'"
  unfolding others_same_def
proof (intro allI impI ballI)
  fix j c'
  assume "j < field_count fs" "j \<noteq> k" "c' \<in> set (cells fs j)"
  from cells_apart [OF assms(1,2) this(1,2) assms(3) this(3)]
  show "agree (a + fst c') (snd c') m m'" by (intro agree_outside [OF assms(4)]) (auto simp: apart_def)
qed

section \<open>Values depend on the cells only\<close>

definition fresh_field :: "(pb_field list \<Rightarrow> int \<Rightarrow> bool) \<Rightarrow> pb_env \<Rightarrow> mem \<Rightarrow> pb_field list \<Rightarrow> int \<Rightarrow> nat \<Rightarrow> bool" where
  "fresh_field sub env m fs a k \<longleftrightarrow>
     (let f = fs ! k; h = PB_HTYPE (ftype f)
      in (h = PB_HTYPE_OPTIONAL \<longrightarrow> m (a + size_off fs k) = 0)
         \<and> (h = PB_HTYPE_REPEATED \<longrightarrow> load_size m (a + size_off fs k) = 0)
         \<and> (h \<noteq> PB_HTYPE_REPEATED \<and> PB_LTYPE (ftype f) = PB_LTYPE_SUBMESSAGE \<longrightarrow> sub (fields_at env (ptr f)) (a + field_off fs k)))"

fun fresh_object :: "pb_env \<Rightarrow> nat \<Rightarrow> mem \<Rightarrow> pb_field list \<Rightarrow> int \<Rightarrow> bool" where
  "fresh_object env 0 m fs a = False"
| "fresh_object env (Suc d) m fs a \<longleftrightarrow> (\<forall>k<field_count fs. fresh_field (fresh_object env d m) env m fs a k)"

lemma item_within:
  assumes "plain_message env (Suc d) fs n" "k < field_count fs" "0 < a" "i < (if PB_HTYPE (ftype (fs ! k)) = PB_HTYPE_REPEATED then array_size (fs ! k) else 1)"
  shows "a + field_off fs k \<le> item_addr fs a k i" "item_addr fs a k i + int (data_size (fs ! k)) \<le> a + field_off fs k + int (field_extent (fs ! k))"
proof -
  note it = plain_iter [OF assms(1-3)]
  have "data_size (fs ! k) * i + data_size (fs ! k) \<le> field_extent (fs ! k)" by (rule extent_item [OF it(2) assms(4)])
  then have "int (data_size (fs ! k) * i) + int (data_size (fs ! k)) \<le> int (field_extent (fs ! k))" by linarith
  then show "a + field_off fs k \<le> item_addr fs a k i"
    "item_addr fs a k i + int (data_size (fs ! k)) \<le> a + field_off fs k + int (field_extent (fs ! k))" by (simp_all only: item_addr_def)
qed

lemma item_count_bound: "item_count fs a m k \<le> (if PB_HTYPE (ftype (fs ! k)) = PB_HTYPE_REPEATED then array_size (fs ! k) else 1)"
  by (simp add: item_count_def Let_def)

lemma count_local:
  assumes "\<forall>c\<in>set (cells fs k). agree (a + fst c) (snd c) m m'"
  shows "item_count fs a m' k = item_count fs a m k"
proof (cases "PB_HTYPE (ftype (fs ! k)) = PB_HTYPE_REPEATED")
  case True
  then have "agree (a + size_off fs k) 4 m m'" using assms by (simp add: cells_def Let_def)
  then show ?thesis using True by (simp add: item_count_def Let_def agree_load_size)
next
  case False
  then have "PB_HTYPE (ftype (fs ! k)) = PB_HTYPE_OPTIONAL \<Longrightarrow> m' (a + size_off fs k) = m (a + size_off fs k)"
    using assms by (auto simp: cells_def Let_def agree_def)
  then show ?thesis using False by (simp add: item_count_def Let_def)
qed

text \<open>What is true of nested messages is true of the fields of a message.\<close>

lemma item_pos: "plain_message env (Suc d) fs n \<Longrightarrow> k < field_count fs \<Longrightarrow> 0 < a \<Longrightarrow> 0 < item_addr fs a k i"
  using plain_iter(4,7) [of env d fs n k a] by (simp add: item_addr_def add_pos_nonneg)

lemma item_local:
  assumes p: "plain_message env (Suc d) fs n" "k < field_count fs" "0 < q"
    and sub: "\<And>gs z q. plain_message env d gs z \<Longrightarrow> 0 < q \<Longrightarrow> agree q z m m' \<Longrightarrow> val' gs q = val gs q"
    and same: "agree q (data_size (fs ! k)) m m'"
  shows "item_value val' env (fs ! k) m' q = item_value val env (fs ! k) m q"
  using sub [OF plain_submessage(1) [OF p(1,2)] p(3) same] agree_mload [OF same] by (simp add: item_value_def)

lemma field_value_local:
  assumes p: "plain_message env (Suc d) fs n" "k < field_count fs" "0 < a"
    and sub: "\<And>gs z q. plain_message env d gs z \<Longrightarrow> 0 < q \<Longrightarrow> agree q z m m' \<Longrightarrow> val' gs q = val gs q"
    and same: "\<forall>c\<in>set (cells fs k). agree (a + fst c) (snd c) m m'"
  shows "field_value val' env m' fs a k = field_value val env m fs a k"
proof -
  have "item_value val' env (fs ! k) m' (item_addr fs a k i) = item_value val env (fs ! k) m (item_addr fs a k i)" if "i < item_count fs a m k" for i
  proof -
    have i: "i < (if PB_HTYPE (ftype (fs ! k)) = PB_HTYPE_REPEATED then array_size (fs ! k) else 1)"
      using that item_count_bound [of fs a m k] by (auto split: if_splits)
    have "agree (a + field_off fs k) (field_extent (fs ! k)) m m'" using same by (simp add: cells_def Let_def)
    then have g: "agree (item_addr fs a k i) (data_size (fs ! k)) m m'" using item_within [OF p i] by (rule agree_part)
    show ?thesis by (rule item_local [OF p(1,2) item_pos [OF p] sub g])
  qed
  then show ?thesis using count_local [OF same] by (simp add: field_value_def)
qed

lemma fresh_local:
  assumes p: "plain_message env (Suc d) fs n" "k < field_count fs" "0 < a"
    and sub: "\<And>gs z q. plain_message env d gs z \<Longrightarrow> 0 < q \<Longrightarrow> agree q z m m' \<Longrightarrow> fr gs q \<Longrightarrow> fr' gs q"
    and same: "\<forall>c\<in>set (cells fs k). agree (a + fst c) (snd c) m m'" and fr: "fresh_field fr env m fs a k"
  shows "fresh_field fr' env m' fs a k"
proof -
  let ?h = "PB_HTYPE (ftype (fs ! k))"
  have d: "agree (a + field_off fs k) (field_extent (fs ! k)) m m'" using same by (simp add: cells_def Let_def)
  have "fr' (fields_at env (ptr (fs ! k))) (a + field_off fs k)" if "?h \<noteq> PB_HTYPE_REPEATED" "PB_LTYPE (ftype (fs ! k)) = PB_LTYPE_SUBMESSAGE"
  proof (rule sub [OF plain_submessage(1) [OF p(1,2) that(2)]])
    show "0 < a + field_off fs k" using plain_iter(4,7) [OF p] by simp
    show "agree (a + field_off fs k) (data_size (fs ! k)) m m'" using d that(1) plain_iter(9) [OF p] by (simp add: field_extent_def)
    show "fr (fields_at env (ptr (fs ! k))) (a + field_off fs k)" using fr that by (simp add: fresh_field_def Let_def)
  qed
  moreover have "?h = PB_HTYPE_OPTIONAL \<Longrightarrow> m' (a + size_off fs k) = m (a + size_off fs k)"
    using same by (auto simp: cells_def Let_def agree_def)
  moreover have "?h = PB_HTYPE_REPEATED \<Longrightarrow> load_size m' (a + size_off fs k) = load_size m (a + size_off fs k)"
    using same by (auto simp: cells_def Let_def intro: agree_load_size)
  ultimately show ?thesis using fr by (auto simp: fresh_field_def Let_def)
qed

lemma message_local:
  "plain_message env d fs n \<Longrightarrow> 0 < a \<Longrightarrow> agree a n m m' \<Longrightarrow> message_value env d m' fs a = message_value env d m fs a"
  "plain_message env d fs n \<Longrightarrow> 0 < a \<Longrightarrow> agree a n m m' \<Longrightarrow> fresh_object env d m fs a \<Longrightarrow> fresh_object env d m' fs a"
proof (induction d arbitrary: fs n a)
  case (Suc d)
  have c: "\<forall>c\<in>set (cells fs k). agree (a + fst c) (snd c) m m'"
    if "plain_message env (Suc d) fs n" "agree a n m m'" "k < field_count fs" for k fs n a
    using cells_within [OF that(1,3)] by (intro ballI agree_part [OF that(2)]) auto
  { case 1
    then show ?case using field_value_local [OF 1(1) _ 1(2) Suc.IH(1) c [OF 1(1,3)]] by (auto simp del: plain_message.simps) }
  { case 2
    then show ?case using fresh_local [OF 2(1) _ 2(2) Suc.IH(2) c [OF 2(1,3)]] by (auto simp del: plain_message.simps) }
qed simp_all

text \<open>A step that writes one field leaves the others.\<close>

lemma others_value:
  assumes "plain_message env (Suc d) fs n" "j < field_count fs" "0 < a" "others_same fs a k m m'" "j \<noteq> k"
  shows "field_value (message_value env d m') env m' fs a j = field_value (message_value env d m) env m fs a j"
  by (rule field_value_local [OF assms(1-3) message_local(1)]) (use assms(2,4,5) in \<open>auto simp: others_same_def\<close>)

lemma others_fresh:
  assumes "plain_message env (Suc d) fs n" "j < field_count fs" "0 < a" "others_same fs a k m m'" "j \<noteq> k"
    and "fresh_field (fresh_object env d m) env m fs a j"
  shows "fresh_field (fresh_object env d m') env m' fs a j"
  by (rule fresh_local [OF assms(1-3) message_local(2) _ assms(6)]) (use assms(2,4,5) in \<open>auto simp: others_same_def\<close>)

section \<open>Default values are fresh\<close>

text \<open>The data and the counter of one field.\<close>

lemma write_data:
  assumes "plain_message env (Suc d) fs n" "k < field_count fs" "0 < a" "same_outside (a + field_off fs k) (field_extent (fs ! k)) m m'"
  shows "others_same fs a k m m'" "PB_HTYPE (ftype (fs ! k)) = PB_HTYPE_OPTIONAL \<Longrightarrow> m' (a + size_off fs k) = m (a + size_off fs k)"
    "PB_HTYPE (ftype (fs ! k)) = PB_HTYPE_REPEATED \<Longrightarrow> load_size m' (a + size_off fs k) = load_size m (a + size_off fs k)"
proof -
  show "others_same fs a k m m'" using assms(4) by (intro others_write [OF assms(1,2)]) (auto simp: cells_def Let_def)
  have "plain_field (plain_message env d) env fs k" using assms(1,2) by simp
  then have c: "\<forall>c\<in>set (tl (cells fs k)). apart (hd (cells fs k)) c" by (simp add: plain_field_def Let_def)
  have g: "agree (a + fst c) (snd c) m m'" if "c \<in> set (tl (cells fs k))" for c
    using c that by (intro agree_outside [OF assms(4)]) (auto simp: apart_def cells_def Let_def)
  show "m' (a + size_off fs k) = m (a + size_off fs k)" if "PB_HTYPE (ftype (fs ! k)) = PB_HTYPE_OPTIONAL"
    using g [of "(size_off fs k, 1)"] that by (simp add: cells_def Let_def agree_def)
  show "load_size m' (a + size_off fs k) = load_size m (a + size_off fs k)" if "PB_HTYPE (ftype (fs ! k)) = PB_HTYPE_REPEATED"
    using g [of "(size_off fs k, 4)"] that by (intro agree_load_size) (simp add: cells_def Let_def)
qed

lemma write_counter:
  assumes "plain_message env (Suc d) fs n" "k < field_count fs" "c \<in> set (tl (cells fs k))" "same_outside (a + fst c) (snd c) m m'"
  shows "others_same fs a k m m'" "agree (a + field_off fs k) (field_extent (fs ! k)) m m'"
proof -
  have "c \<in> set (cells fs k)" using assms(3) by (simp add: cells_def Let_def)
  then show "others_same fs a k m m'" by (rule others_write [OF assms(1,2) _ assms(4)])
  have "plain_field (plain_message env d) env fs k" using assms(1,2) by simp
  then have "apart (hd (cells fs k)) c" using assms(3) by (simp add: plain_field_def Let_def)
  then show "agree (a + field_off fs k) (field_extent (fs ! k)) m m'"
    by (intro agree_outside [OF assms(4)]) (auto simp: apart_def cells_def Let_def)
qed

lemma default_fresh:
  assumes p: "plain_message env (Suc d) fs n" "k < field_count fs" "0 < a"
    and sub: "\<And>gs z q m. plain_message env d gs z \<Longrightarrow> 0 < q \<Longrightarrow>
      \<exists>m'. pb_message_set_to_defaults env d gs q m = Some m' \<and> same_outside q z m m' \<and> fresh_object env d m' gs q"
  shows "\<exists>m'. pb_field_set_to_default env (Suc d) (iter_at fs a k) m = Some m' \<and> others_same fs a k m m'
    \<and> fresh_field (fresh_object env d m') env m' fs a k"
proof -
  let ?f = "fs ! k" and ?it = "iter_at fs a k"
  let ?h = "PB_HTYPE (ftype ?f)"
  note it = plain_iter [OF p]
  have ext: "PB_LTYPE (ftype ?f) \<noteq> PB_LTYPE_EXTENSION" by (rule static_field_kind [OF it(2)])
  show ?thesis
  proof (cases "?h = PB_HTYPE_REPEATED")
    case True
    have "pb_field_set_to_default env (Suc d) ?it m = Some (store_size m (a + size_off fs k) 0)"
      using True ext it(9) by (simp add: it(3,5) Let_def)
    moreover have "others_same fs a k m (store_size m (a + size_off fs k) 0)"
      using True by (intro others_write [OF p(1,2), of "(size_off fs k, 4)"]) (auto simp: cells_def Let_def intro: store_size_outside)
    ultimately show ?thesis using True by (simp add: fresh_field_def Let_def)
  next
    case False
    let ?m1 = "if ?h = PB_HTYPE_OPTIONAL then store_bool m (a + size_off fs k) False else m"
    let ?bs = "if ptr ?f \<noteq> 0 then mload ?m1 (ptr ?f) (data_size ?f) else replicate (data_size ?f) 0"
    have m1: "others_same fs a k m ?m1"
      by (cases "?h = PB_HTYPE_OPTIONAL")
        (auto simp: cells_def Let_def intro!: others_write [OF p(1,2), of "(size_off fs k, 1)"] store_bool_outside)
    have opt: "?m1 (a + size_off fs k) = 0" if "?h = PB_HTYPE_OPTIONAL" using that by (simp add: store_bool_def mstore_def)
    have ne: "?h = PB_HTYPE_OPTIONAL \<Longrightarrow> pSize ?it \<noteq> pData ?it"
      using it(1,4,5,8) by (auto simp: plain_field_def Let_def)
    have "?h \<noteq> PB_HTYPE_ONEOF" by (rule plain_field_kind [OF it(1)])
    then have e: "pb_field_set_to_default env (Suc d) ?it m =
      (if PB_LTYPE (ftype ?f) = PB_LTYPE_SUBMESSAGE then pb_message_set_to_defaults env d (fields_at env (ptr ?f)) (pData ?it) ?m1
       else Some (mstore ?m1 (pData ?it) ?bs))"
      using False ext it(5,9) ne by (auto simp: it(3) Let_def pb_message_set_to_defaults_def)
    have x: "field_extent ?f = data_size ?f" using False it(9) by (simp add: field_extent_def)
    obtain m' where m': "pb_field_set_to_default env (Suc d) ?it m = Some m'" "same_outside (pData ?it) (data_size ?f) ?m1 m'"
      "PB_LTYPE (ftype ?f) = PB_LTYPE_SUBMESSAGE \<Longrightarrow> fresh_object env d m' (fields_at env (ptr ?f)) (pData ?it)"
    proof (cases "PB_LTYPE (ftype ?f) = PB_LTYPE_SUBMESSAGE")
      case True
      then show ?thesis using sub [OF plain_submessage(1) [OF p(1,2) True] it(7), of ?m1] that unfolding e if_P [OF True] by blast
    next
      case nsub: False
      have "same_outside (pData ?it) (data_size ?f) ?m1 (mstore ?m1 (pData ?it) ?bs)" by (rule mstore_outside) simp_all
      then show ?thesis using that nsub unfolding e if_not_P [OF nsub] by blast
    qed
    note w = write_data [OF p, of ?m1 m', folded it(4), unfolded x, OF m'(2)]
    have "fresh_field (fresh_object env d m') env m' fs a k"
      using False opt w(2) m'(3) it(4) by (simp add: fresh_field_def Let_def)
    then show ?thesis using m'(1) others_trans [OF m1 w(1)] by blast
  qed
qed

lemma defaults_fresh:
  "plain_message env d fs n \<Longrightarrow> 0 < a \<Longrightarrow>
     \<exists>m'. pb_message_set_to_defaults env d fs a m = Some m' \<and> same_outside a n m m' \<and> fresh_object env d m' fs a"
proof (induction d arbitrary: fs n a m)
  case (Suc d)
  have w: "wf_fields fs" "0 < field_count fs" using plain_static [OF Suc.prems(1)] by simp_all
  let ?set = "\<lambda>it m. map_option (Pair True) (pb_field_set_to_default env (Suc d) it m)"
  have "\<exists>m'. each_field ?set (iter_at fs a 0) m = Some (True, m') \<and> (\<forall>j<field_count fs. fresh_field (fresh_object env d m') env m' fs a j)"
  proof (rule each_field_invariant [OF w, where P = "\<lambda>k m. \<forall>j<k. fresh_field (fresh_object env d m) env m fs a j"])
    fix k m
    assume k: "k < field_count fs" and inv: "\<forall>j<k. fresh_field (fresh_object env d m) env m fs a j"
    obtain m' where m': "pb_field_set_to_default env (Suc d) (iter_at fs a k) m = Some m'" "others_same fs a k m m'"
      "fresh_field (fresh_object env d m') env m' fs a k"
      using default_fresh [OF Suc.prems(1) k Suc.prems(2) Suc.IH] by blast
    have "fresh_field (fresh_object env d m') env m' fs a j" if "j < Suc k" for j
    proof (cases "j = k")
      case False
      then show ?thesis using others_fresh [OF Suc.prems(1) _ Suc.prems(2) m'(2) False] inv that k by simp
    qed (use m'(3) in simp)
    then show "\<exists>st'. ?set (iter_at fs a k) m = Some (True, st') \<and> (\<forall>j<Suc k. fresh_field (fresh_object env d st') env st' fs a j)"
      using m'(1) by (simp del: pb_field_set_to_default.simps)
  qed simp
  then obtain m' where m': "pb_message_set_to_defaults env (Suc d) fs a m = Some m'" "fresh_object env (Suc d) m' fs a"
    using begin_nonempty [OF w, of a]
    by (auto simp: pb_message_set_to_defaults_def message_defaults_def simp del: pb_field_set_to_default.simps)
  then show ?case using defaults_confined [OF plain_static [OF Suc.prems(1)] Suc.prems(2), of m] by (auto simp: confined_mem_def)
qed simp

end
