(* ===== verification/PbReadMsg.thy ===== *)
theory PbReadMsg
  imports PbFrame
begin

text \<open>
  \<open>pb_decode\<close> reads the wire format of a value into a fresh structure and the structure has that value then: one step of the
  loop for each tag, and the check that all required fields were seen.
\<close>

section \<open>One step of the loop\<close>

lemma find_field:
  assumes "plain_message env (Suc d) fs n" "k < field_count fs" "0 < a" "on_fields fs a it"
  shows "pb_field_iter_find it (tag (fs ! k)) = Some (True, iter_at fs a k)"
proof -
  let ?n = "field_count fs" and ?t = "tag (fs ! k)"
  note pk = plain_iter [OF assms(1-3)]
  have ext: "PB_LTYPE (ftype (fs ! k)) \<noteq> PB_LTYPE_EXTENSION" by (rule static_field_kind [OF pk(2)])
  obtain j where j: "j < ?n" "it = iter_at fs a j" using assms(4) by (auto simp: on_fields_def)
  obtain ok it' where f: "pb_field_iter_find it ?t = Some (ok, it')"
    and c: "if ok then \<exists>i<?n. it' = iter_at fs a ((j + i) mod ?n) \<and> is_wanted ?t (fs ! ((j + i) mod ?n)) \<and> (\<forall>i'<i. \<not> is_wanted ?t (fs ! ((j + i') mod ?n)))
       else it' = iter_at fs a j \<and> (\<forall>i<?n. \<not> is_wanted ?t (fs ! ((j + i) mod ?n)))"
    using find_returns [OF pk(6) j(1), of a ?t] unfolding j(2) by blast
  have wanted: "is_wanted ?t (fs ! k)" using ext by (simp add: is_wanted_def)
  have ok: "ok"
  proof (rule ccontr)
    assume "\<not> ok"
    moreover obtain i where "i < ?n" "(j + i) mod ?n = k"
    proof (cases "j \<le> k")
      case True
      then show ?thesis using that [of "k - j"] assms(2) by simp
    next
      case False
      then have "j + (?n + k - j) = ?n + k" "?n + k - j < ?n" using j(1) by linarith+
      moreover have "(?n + k) mod ?n = k" using assms(2) by (simp only: mod_add_self1 mod_less)
      ultimately show ?thesis using that [of "?n + k - j"] by simp
    qed
    ultimately show False using c wanted by auto
  qed
  then obtain i where i: "i < ?n" "it' = iter_at fs a ((j + i) mod ?n)" "is_wanted ?t (fs ! ((j + i) mod ?n))" using c by auto
  have "(j + i) mod ?n < ?n" using i(1) by simp
  moreover have "distinct (map tag (butlast fs))" using assms(1) by simp
  then have "tag (fs ! l) \<noteq> tag (fs ! k)" if "l < ?n" "l \<noteq> k" for l
    using that assms(2) by (simp add: distinct_conv_nth nth_butlast)
  ultimately have "(j + i) mod ?n = k" using i(3) unfolding is_wanted_def by blast
  then show ?thesis using f i(2) ok by simp
qed

lemma known_step:
  assumes p: "plain_message env (Suc d) fs n" "k < field_count fs" "0 < a"
    and st: "on_fields fs a (ns_iter st)" "fixed_count_field st = None" "wf_istream (ns_stream st)"
    and vis: "visible (ns_stream st) = tag_bytes (fs ! k) w @ r" "unat w < 8"
    and dec: "decode_static_field env nested (advance (length (tag_bytes (fs ! k) w)) (ns_stream st)) w (iter_at fs a k) None (ns_mem st)
      = Some (True, s', None, m')"
  shows "noinit_loop env nested st
    = noinit_loop env nested (st\<lparr>fields_seen := mark_seen (iter_at fs a k) (fields_seen st), ns_stream := s', ns_iter := iter_at fs a k, ns_mem := m'\<rparr>)"
proof -
  let ?f = "fs ! k" and ?it = "iter_at fs a k"
  note it = plain_iter [OF p]
  have t: "valid_tag (tag ?f, w)" using field_tag(1) [OF it(6) p(2)] it(1) vis(2) by (simp add: valid_tag_def plain_field_def Let_def word_gt_0)
  have "0 < length (tag_bytes ?f w)" by (subst varint_bytes.simps) simp
  then have left: "bytes_left (ns_stream st) \<noteq> 0" using length_visible [OF st(3), symmetric] unfolding vis(1) by simp
  obtain eof where tg: "pb_decode_tag (ns_stream st) = (Some (tag ?f, w), eof, advance (length (tag_bytes ?f w)) (ns_stream st))"
    using pb_tag.reads [OF t st(3) vis(1)] by (auto split: prod.splits)
  have fixed: "\<not> fixed_field ?it"
    using it(1,4,5,8) by (auto simp: fixed_field_def it(3) plain_field_def Let_def)
  have one: "PB_HTYPE (ftype ?f) \<noteq> PB_HTYPE_ONEOF" by (rule plain_field_kind [OF it(1)])
  have df: "decode_field env nested (advance (length (tag_bytes ?f w)) (ns_stream st)) w ?it None (ns_mem st) = Some (True, s', ?it, None, m')"
    using dec one it(9) by (simp add: decode_field_def it(3) Let_def)
  show ?thesis
    using left tg fixed df st(2) find_field [OF p st(1)]
    by (subst noinit_loop.simps) (simp add: noinit_field_def noinit_known_def fixed_count_start_def Let_def)
qed

section \<open>One item\<close>

abbreviation nested_at :: "pb_env \<Rightarrow> nat \<Rightarrow> pb_nested" where
  "nested_at env d \<equiv>
     \<lparr>n_noinit = pb_decode_noinit env d, n_decode = decode_with env d (pb_decode_noinit env d),
      n_defaults = pb_message_set_to_defaults env d, n_release = pb_release_single_field env (Suc d)\<rparr>"

lemma nested_at_ok: "nested_ok env (nested_at env d) d"
  unfolding nested_ok_def pb_nested.simps
  by (intro conjI allI impI noinit_confined decode_with_confined defaults_confined release_static; assumption)

text \<open>What is shown by induction on the depth of nested messages.\<close>

definition reads_messages :: "pb_env \<Rightarrow> nat \<Rightarrow> mem \<Rightarrow> bool" where
  "reads_messages env d m0 \<longleftrightarrow>
     (\<forall>gs z q p0 s m. plain_message env d gs z \<longrightarrow> 0 < q \<longrightarrow> 0 < p0 \<longrightarrow> object_ok env d m0 gs p0 \<longrightarrow> wf_istream s
        \<longrightarrow> visible s = message_wire env d gs (message_value env d m0 gs p0) \<longrightarrow> length (visible s) < 2 ^ 32 \<longrightarrow> fresh_object env d m gs q
        \<longrightarrow> (\<exists>m'. pb_decode_noinit env d s gs q m = Some (True, advance (length (visible s)) s, m')
               \<and> message_value env d m' gs q = message_value env d m0 gs p0))"

lemma reads_with_defaults:
  assumes "reads_messages env d m0" "plain_message env d gs z" "0 < q" "0 < p0" "object_ok env d m0 gs p0" "wf_istream s"
    and "visible s = message_wire env d gs (message_value env d m0 gs p0)" "length (visible s) < 2 ^ 32"
  shows "\<exists>m'. decode_with env d (pb_decode_noinit env d) s gs q m = Some (True, advance (length (visible s)) s, m')
    \<and> message_value env d m' gs q = message_value env d m0 gs p0"
proof -
  obtain m1 where m1: "pb_message_set_to_defaults env d gs q m = Some m1" "fresh_object env d m1 gs q"
    using defaults_fresh [OF assms(2,3)] by blast
  then obtain m' where "pb_decode_noinit env d s gs q m1 = Some (True, advance (length (visible s)) s, m')"
    "message_value env d m' gs q = message_value env d m0 gs p0"
    using assms unfolding reads_messages_def by blast
  then show ?thesis using m1(1) by (simp add: decode_with_def)
qed

lemma decoder_leaf:
  assumes "leaf_field f"
  shows "PB_DECODERS env nested s f q m = Some (on_object (\<lambda>s f. leaf_dec f s) s f q m)"
  by (rule leaf_cases [OF assms])
    (use leaf_field_def assms in \<open>simp_all add: PB_DECODERS_def leaf_dec_def on_object_def dec_bytes_at_def dec_string_at_def Let_def\<close>)

definition source_item :: "pb_env \<Rightarrow> nat \<Rightarrow> mem \<Rightarrow> pb_field \<Rightarrow> int \<Rightarrow> bool" where
  "source_item env d m f p \<longleftrightarrow>
     0 < p \<and> (if PB_LTYPE (ftype f) = PB_LTYPE_SUBMESSAGE then object_ok env d m (fields_at env (ptr f)) p else leaf_valid f (mload m p (data_size f)))"

abbreviation item_of :: "pb_env \<Rightarrow> nat \<Rightarrow> mem \<Rightarrow> pb_field \<Rightarrow> int \<Rightarrow> pb_item" where
  "item_of env d m f p \<equiv> item_value (message_value env d m) env f m p"

abbreviation wire_of :: "pb_env \<Rightarrow> nat \<Rightarrow> mem \<Rightarrow> pb_field \<Rightarrow> int \<Rightarrow> bytes" where
  "wire_of env d m f p \<equiv> item_wire (message_wire env d) env f (item_of env d m f p)"

lemma item_reads:
  assumes sub: "reads_messages env d m0"
    and p: "plain_message env (Suc d) fs n" "k < field_count fs" "0 < q"
    and src: "source_item env d m0 (fs ! k) p0"
    and vis: "wf_istream s" "visible s = wire_of env d m0 (fs ! k) p0 @ r" "length (wire_of env d m0 (fs ! k) p0) < 2 ^ 32"
    and fresh: "PB_HTYPE (ftype (fs ! k)) \<noteq> PB_HTYPE_REPEATED \<Longrightarrow> PB_LTYPE (ftype (fs ! k)) = PB_LTYPE_SUBMESSAGE
      \<Longrightarrow> fresh_object env d m (fields_at env (ptr (fs ! k))) q"
  shows "\<exists>m'. PB_DECODERS env (nested_at env d) s (fs ! k) q m = Some (True, advance (length (wire_of env d m0 (fs ! k) p0)) s, m')
    \<and> same_outside q (data_size (fs ! k)) m m' \<and> item_of env d m' (fs ! k) q = item_of env d m0 (fs ! k) p0"
proof -
  let ?f = "fs ! k"
  have sf: "static_field (static_message env d) env fs n k" using plain_static [OF p(1)] p(2) by simp
  note conf = decoder_confined [OF nested_at_ok sf p(3), of s m]
  have "\<exists>m'. PB_DECODERS env (nested_at env d) s ?f q m = Some (True, advance (length (wire_of env d m0 ?f p0)) s, m')
    \<and> item_of env d m' ?f q = item_of env d m0 ?f p0"
  proof (cases "PB_LTYPE (ftype ?f) = PB_LTYPE_SUBMESSAGE")
    case True
    let ?gs = "fields_at env (ptr ?f)"
    let ?w = "message_wire env d ?gs (message_value env d m0 ?gs p0)"
    note ps = plain_submessage [OF p(1,2) True]
    have ok: "0 < p0" "object_ok env d m0 ?gs p0" using src True by (simp_all add: source_item_def)
    have w: "wire_of env d m0 ?f p0 = string_bytes ?w" using True by (simp add: item_value_def)
    then have l: "length ?w < 2 ^ 32" using vis(3) by (simp add: string_bytes_def)
    obtain sb s1 where sb: "pb_make_string_substream s = (Some sb, s1)" "wf_istream sb" "visible sb = ?w"
      "\<And>j. j \<le> length ?w \<Longrightarrow> pb_close_string_substream s1 (advance j sb) = (True, advance (length (string_bytes ?w)) s)"
      using make_substream [OF vis(1) vis(2) [unfolded w] l] by metis
    have "\<exists>m'. (if PB_HTYPE (ftype ?f) = PB_HTYPE_REPEATED then n_decode (nested_at env d) else n_noinit (nested_at env d)) sb ?gs q m
        = Some (True, advance (length ?w) sb, m') \<and> message_value env d m' ?gs q = message_value env d m0 ?gs p0"
    proof (cases "PB_HTYPE (ftype ?f) = PB_HTYPE_REPEATED")
      case True
      then show ?thesis using reads_with_defaults [OF sub ps(1) p(3) ok sb(2,3), of m] l sb(3) by simp
    next
      case False
      then show ?thesis using sub [unfolded reads_messages_def, rule_format, OF ps(1) p(3) ok sb(2,3) _ fresh [OF False True]] l sb(3) by simp
    qed
    then show ?thesis using True sb(1,4) ps(2) w
      by (auto simp: PB_DECODERS_def pb_dec_submessage_def item_value_def Let_def)
  next
    case False
    then have v: "leaf_valid ?f (mload m0 p0 (data_size ?f))" using src by (simp add: source_item_def)
    then have lf: "leaf_field ?f" by (simp add: leaf_valid_def)
    have w: "wire_of env d m0 ?f p0 = leaf_wire ?f (leaf_content ?f (mload m0 p0 (data_size ?f)))" using False by (simp add: item_value_def)
    obtain y where y: "leaf_dec ?f s (mload m q (data_size ?f)) = (True, advance (length (wire_of env d m0 ?f p0)) s, y)" "leaf_valid ?f y"
      "leaf_content ?f y = leaf_content ?f (mload m0 p0 (data_size ?f))"
      using leaf_decodes [OF v _ vis(1) vis(2) [unfolded w], of "mload m q (data_size ?f)"] unfolding w by auto
    have "mload (mstore m q y) q (data_size ?f) = y" using y(2) mload_mstore [of m q y] by (simp add: leaf_valid_def)
    then show ?thesis using False y by (simp add: decoder_leaf [OF lf] on_object_def item_value_def)
  qed
  then show ?thesis using conf by (auto simp: confined_def)
qed

section \<open>One field\<close>

definition field_read :: "pb_env \<Rightarrow> nat \<Rightarrow> pb_field list \<Rightarrow> int \<Rightarrow> nat \<Rightarrow> bytes \<Rightarrow> noinit \<Rightarrow> noinit \<Rightarrow> bool" where
  "field_read env d fs a k out st st' \<longleftrightarrow>
     noinit_loop env (nested_at env d) st = noinit_loop env (nested_at env d) st' \<and> ns_stream st' = advance (length out) (ns_stream st)
     \<and> on_fields fs a (ns_iter st') \<and> fixed_count_field st' = None \<and> others_same fs a k (ns_mem st) (ns_mem st')"

lemma field_read_refl: "on_fields fs a (ns_iter st) \<Longrightarrow> fixed_count_field st = None \<Longrightarrow> field_read env d fs a k [] st st"
  by (simp add: field_read_def stream_simps)

lemma field_read_trans: "field_read env d fs a k x st st1 \<Longrightarrow> field_read env d fs a k y st1 st2 \<Longrightarrow> field_read env d fs a k (x @ y) st st2"
  unfolding field_read_def using others_trans by (auto simp: stream_simps)

lemma wire_type_small: "unat (wire_type_of f) < 8"
  by (simp add: wire_type_of_def Let_def)

text \<open>A state of the loop at a tag.\<close>

definition at_tag :: "pb_field list \<Rightarrow> int \<Rightarrow> noinit \<Rightarrow> bytes \<Rightarrow> bool" where
  "at_tag fs a st bs \<longleftrightarrow> on_fields fs a (ns_iter st) \<and> fixed_count_field st = None \<and> wf_istream (ns_stream st) \<and> visible (ns_stream st) = bs"

lemma field_read_at: "field_read env d fs a k x st st' \<Longrightarrow> at_tag fs a st (x @ r) \<Longrightarrow> at_tag fs a st' r"
  by (simp add: field_read_def at_tag_def stream_simps)

lemma tag_read:
  assumes p: "plain_message env (Suc d) fs n" "k < field_count fs" "0 < a"
    and st: "at_tag fs a st (tag_bytes (fs ! k) w @ x @ r)" "unat w < 8"
    and dec: "decode_static_field env (nested_at env d) (advance (length (tag_bytes (fs ! k) w)) (ns_stream st)) w (iter_at fs a k) None (ns_mem st)
      = Some (True, advance (length x) (advance (length (tag_bytes (fs ! k) w)) (ns_stream st)), None, m')"
    and m': "others_same fs a k (ns_mem st) m'"
  shows "\<exists>st'. field_read env d fs a k (tag_bytes (fs ! k) w @ x) st st' \<and> ns_mem st' = m' \<and> fields_seen st' = mark_seen (iter_at fs a k) (fields_seen st)"
  using known_step [OF p _ _ _ _ st(2) dec, of "x @ r"] st(1) m' p(2)
  by (intro exI [of _ "st\<lparr>fields_seen := mark_seen (iter_at fs a k) (fields_seen st),
      ns_stream := advance (length x) (advance (length (tag_bytes (fs ! k) w)) (ns_stream st)), ns_iter := iter_at fs a k, ns_mem := m'\<rparr>"])
    (simp add: field_read_def at_tag_def advance_advance on_fieldsI)

lemma single_reads:
  assumes sub: "reads_messages env d m0" and p: "plain_message env (Suc d) fs n" "k < field_count fs" "0 < a"
    and h: "PB_HTYPE (ftype (fs ! k)) = PB_HTYPE_REQUIRED \<or> PB_HTYPE (ftype (fs ! k)) = PB_HTYPE_OPTIONAL"
    and src: "source_item env d m0 (fs ! k) p0" "length (wire_of env d m0 (fs ! k) p0) < 2 ^ 32"
    and fresh: "fresh_field (fresh_object env d (ns_mem st)) env (ns_mem st) fs a k"
    and st: "at_tag fs a st ((tag_bytes (fs ! k) (wire_type_of (fs ! k)) @ wire_of env d m0 (fs ! k) p0) @ r)"
  shows "\<exists>st'. field_read env d fs a k (tag_bytes (fs ! k) (wire_type_of (fs ! k)) @ wire_of env d m0 (fs ! k) p0) st st'
    \<and> field_value (message_value env d (ns_mem st')) env (ns_mem st') fs a k = [item_of env d m0 (fs ! k) p0]
    \<and> fields_seen st' = mark_seen (iter_at fs a k) (fields_seen st)"
proof -
  let ?f = "fs ! k" and ?it = "iter_at fs a k" and ?m = "ns_mem st" and ?w = "wire_of env d m0 (fs ! k) p0"
  let ?s = "advance (length (tag_bytes ?f (wire_type_of ?f))) (ns_stream st)"
  let ?h = "PB_HTYPE (ftype ?f)"
  let ?m1 = "if ?h = PB_HTYPE_OPTIONAL then store_bool ?m (a + size_off fs k) True else ?m"
  note it = plain_iter [OF p]
  have m1: "others_same fs a k ?m ?m1" "agree (a + field_off fs k) (field_extent ?f) ?m ?m1"
    using write_counter [OF p(1,2), of "(size_off fs k, 1)" a ?m ?m1] by (auto simp: cells_def Let_def store_bool_outside)
  have x: "field_extent ?f = data_size ?f" using h it(9) by (auto simp: field_extent_def)
  have fr: "fresh_object env d ?m1 (fields_at env (ptr ?f)) (pData ?it)" if "PB_LTYPE (ftype ?f) = PB_LTYPE_SUBMESSAGE"
  proof (rule message_local(2) [OF plain_submessage(1) [OF p(1,2) that] it(7)])
    show "agree (pData ?it) (data_size ?f) ?m ?m1" using m1(2) by (simp add: it(4) x)
    show "fresh_object env d ?m (fields_at env (ptr ?f)) (pData ?it)" using fresh h that by (auto simp: fresh_field_def Let_def it(4))
  qed
  have vis: "wf_istream ?s" "visible ?s = ?w @ r" using st by (simp_all add: at_tag_def stream_simps)
  obtain m' where m': "PB_DECODERS env (nested_at env d) ?s ?f (pData ?it) ?m1 = Some (True, advance (length ?w) ?s, m')"
    "same_outside (pData ?it) (data_size ?f) ?m1 m'" "item_of env d m' ?f (pData ?it) = item_of env d m0 ?f p0"
    using item_reads [OF sub p(1,2) it(7) src(1) vis src(2) fr] by blast
  note w = write_data [OF p, folded it(4), unfolded x, OF m'(2)]
  have ne: "?h = PB_HTYPE_OPTIONAL \<Longrightarrow> pSize ?it \<noteq> pData ?it" using it(1,4,5,8) by (auto simp: plain_field_def Let_def)
  have dec: "decode_static_field env (nested_at env d) ?s (wire_type_of ?f) ?it None ?m = Some (True, advance (length ?w) ?s, None, m')"
    using h ne m'(1) it(5) by (auto simp: decode_static_field_def it(3) with_count_def Let_def)
  obtain st' where st': "field_read env d fs a k (tag_bytes ?f (wire_type_of ?f) @ ?w) st st'" "ns_mem st' = m'"
    "fields_seen st' = mark_seen ?it (fields_seen st)"
    using tag_read [OF p _ wire_type_small dec others_trans [OF m1(1) w(1)], of r] st by auto
  have "item_count fs a m' k = 1" using h w(2) by (auto simp: item_count_def Let_def store_bool_def mstore_def)
  then show ?thesis using st' m'(3) it(10) by (intro exI [of _ st']) (simp add: field_value_def)
qed

section \<open>Arrays\<close>

text \<open>The first \<open>i\<close> items of an array in memory say what the items \<open>x\<close> say.\<close>

definition filled :: "pb_env \<Rightarrow> nat \<Rightarrow> pb_field list \<Rightarrow> int \<Rightarrow> nat \<Rightarrow> (nat \<Rightarrow> pb_item) \<Rightarrow> nat \<Rightarrow> mem \<Rightarrow> bool" where
  "filled env d fs a k x i m \<longleftrightarrow> (\<forall>j<i. item_of env d m (fs ! k) (item_addr fs a k j) = x j)"

lemma filled_count:
  assumes p: "plain_message env (Suc d) fs n" "k < field_count fs" "0 < a" "PB_HTYPE (ftype (fs ! k)) = PB_HTYPE_REPEATED"
    and i: "i \<le> array_size (fs ! k)" "filled env d fs a k x i m"
  shows "others_same fs a k m (store_size m (a + size_off fs k) v) \<and> filled env d fs a k x i (store_size m (a + size_off fs k) v)"
proof -
  let ?m = "store_size m (a + size_off fs k) v"
  have o: "same_outside (a + fst (size_off fs k, 4 :: nat)) (snd (size_off fs k, 4 :: nat)) m ?m" by (simp add: store_size_outside)
  have c: "(size_off fs k, 4) \<in> set (tl (cells fs k))" using p(4) by (simp add: cells_def Let_def)
  note w = write_counter [OF p(1,2) c o]
  have "item_of env d ?m (fs ! k) (item_addr fs a k j) = item_of env d m (fs ! k) (item_addr fs a k j)" if "j < i" for j
  proof -
    have j: "j < (if PB_HTYPE (ftype (fs ! k)) = PB_HTYPE_REPEATED then array_size (fs ! k) else 1)" using that i(1) p(4) by simp
    show ?thesis
      by (rule item_local [OF p(1,2) item_pos [OF p(1-3)] message_local(1) agree_part [OF w(2) item_within [OF p(1-3) j]]])
  qed
  then show ?thesis using w(1) i(2) by (simp add: filled_def)
qed

lemma filled_item:
  assumes p: "plain_message env (Suc d) fs n" "k < field_count fs" "0 < a" "PB_HTYPE (ftype (fs ! k)) = PB_HTYPE_REPEATED"
    and i: "i < array_size (fs ! k)" "filled env d fs a k x i m"
    and w: "same_outside (item_addr fs a k i) (data_size (fs ! k)) m m'" "item_of env d m' (fs ! k) (item_addr fs a k i) = x i"
  shows "others_same fs a k m m' \<and> filled env d fs a k x (Suc i) m' \<and> load_size m' (a + size_off fs k) = load_size m (a + size_off fs k)"
proof -
  have i': "i < (if PB_HTYPE (ftype (fs ! k)) = PB_HTYPE_REPEATED then array_size (fs ! k) else 1)" using i(1) p(4) by simp
  have o: "same_outside (a + field_off fs k) (field_extent (fs ! k)) m m'"
    using w(1) item_within [OF p(1-3) i'] by (rule same_outside_mono)
  note d = write_data [OF p(1-3) o]
  have "item_of env d m' (fs ! k) (item_addr fs a k j) = item_of env d m (fs ! k) (item_addr fs a k j)" if "j < i" for j
  proof (rule item_local [OF p(1,2) item_pos [OF p(1-3)] message_local(1) agree_outside [OF w(1)]])
    have "data_size (fs ! k) * Suc j \<le> data_size (fs ! k) * i" using that by (intro mult_le_mono2) simp
    then have "int (data_size (fs ! k) * j) + int (data_size (fs ! k)) \<le> int (data_size (fs ! k) * i)" by (simp only: of_nat_add [symmetric] of_nat_le_iff) simp
    then show "item_addr fs a k j + int (data_size (fs ! k)) \<le> item_addr fs a k i
      \<or> item_addr fs a k i + int (data_size (fs ! k)) \<le> item_addr fs a k j" by (simp only: item_addr_def) simp
  qed
  then show ?thesis using d(1) d(3) [OF p(4)] i(2) w(2) by (auto simp: filled_def less_Suc_eq)
qed

lemma item_at_addr:
  assumes "plain_message env (Suc d) fs n" "k < field_count fs" "0 < a" "PB_HTYPE (ftype (fs ! k)) = PB_HTYPE_REPEATED" "unat c < array_size (fs ! k)"
  shows "item_at (iter_at fs a k) (pData (iter_at fs a k)) c = item_addr fs a k (unat c)"
proof -
  note it = plain_iter [OF assms(1-3)]
  have "unat c < (if PB_HTYPE (ftype (fs ! k)) = PB_HTYPE_REPEATED then array_size (fs ! k) else 1)" using assms(4,5) by simp
  then have "data_size (fs ! k) * unat c + data_size (fs ! k) \<le> field_extent (fs ! k)" by (rule extent_item [OF it(2)])
  moreover have "field_extent (fs ! k) < 2 ^ 32" using it(2) by (simp add: static_field_def Let_def)
  ultimately have "data_size (fs ! k) * unat c < 2 ^ 32" by (cases "data_size (fs ! k) = 0") simp_all
  then have "(data_size (fs ! k) * unat c) mod 2 ^ 32 = data_size (fs ! k) * unat c" by (rule mod_less)
  then show ?thesis by (simp only: item_at_def it(3,4) item_addr_def)
qed

text \<open>The items that are read, and where they come from.\<close>

definition source_items :: "pb_env \<Rightarrow> nat \<Rightarrow> mem \<Rightarrow> pb_field \<Rightarrow> (nat \<Rightarrow> int) \<Rightarrow> nat \<Rightarrow> bool" where
  "source_items env d m0 f p0 c \<longleftrightarrow>
     c \<le> array_size f \<and> c < 2 ^ 32 \<and> (\<forall>i<c. source_item env d m0 f (p0 i) \<and> length (wire_of env d m0 f (p0 i)) < 2 ^ 32)"

lemma of_nat_32: "i < 2 ^ 32 \<Longrightarrow> unat (of_nat i :: 32 word) = i"
  by (simp add: unsigned_of_nat take_bit_nat_eq_self)

lemma unpacked_reads:
  assumes sub: "reads_messages env d m0"
    and p: "plain_message env (Suc d) fs n" "k < field_count fs" "0 < a" "PB_HTYPE (ftype (fs ! k)) = PB_HTYPE_REPEATED"
    and np: "\<not> PB_LTYPE (ftype (fs ! k)) \<le> PB_LTYPE_LAST_PACKABLE"
    and src: "source_items env d m0 (fs ! k) p0 c"
  defines "x \<equiv> \<lambda>i. item_of env d m0 (fs ! k) (p0 i)"
    and "out \<equiv> \<lambda>i. tag_bytes (fs ! k) (wire_type_of (fs ! k)) @ wire_of env d m0 (fs ! k) (p0 i)"
  shows "i \<le> c \<Longrightarrow> at_tag fs a st (concat (map out [i..<c]) @ r) \<Longrightarrow> load_size (ns_mem st) (a + size_off fs k) = of_nat i
    \<Longrightarrow> filled env d fs a k x i (ns_mem st)
    \<Longrightarrow> \<exists>st'. field_read env d fs a k (concat (map out [i..<c])) st st' \<and> filled env d fs a k x c (ns_mem st')
          \<and> load_size (ns_mem st') (a + size_off fs k) = of_nat c \<and> fields_seen st' = fields_seen st"
proof (induction "c - i" arbitrary: i st)
  case 0
  then show ?case using field_read_refl [of fs a st] by (auto simp: at_tag_def)
next
  case (Suc l)
  let ?f = "fs ! k" and ?it = "iter_at fs a k" and ?m = "ns_mem st" and ?w = "wire_of env d m0 (fs ! k) (p0 i)"
  let ?s = "advance (length (tag_bytes ?f (wire_type_of ?f))) (ns_stream st)"
  let ?m1 = "store_size ?m (a + size_off fs k) (of_nat i + 1)"
  note it = plain_iter [OF p(1-3)]
  have i: "i < c" "i < array_size ?f" "source_item env d m0 ?f (p0 i)" "length ?w < 2 ^ 32" "i < 2 ^ 32"
    using Suc.hyps(2) src by (auto simp: source_items_def)
  have u: "unat (of_nat i :: 32 word) = i" by (rule of_nat_32 [OF i(5)])
  have split: "concat (map out [i..<c]) = out i @ concat (map out [Suc i..<c])" using i(1) by (simp add: upt_conv_Cons)
  have "at_tag fs a st (tag_bytes ?f (wire_type_of ?f) @ ?w @ concat (map out [Suc i..<c]) @ r)"
    using Suc.prems(2) unfolding split by (simp add: out_def)
  note at = this
  have vis: "wf_istream ?s" "visible ?s = ?w @ concat (map out [Suc i..<c]) @ r" using at by (simp_all add: at_tag_def stream_simps)
  have m1: "others_same fs a k ?m ?m1" "filled env d fs a k x i ?m1"
    using filled_count [OF p _ Suc.prems(4)] i(2) by simp_all
  obtain m' where m': "PB_DECODERS env (nested_at env d) ?s ?f (item_addr fs a k i) ?m1 = Some (True, advance (length ?w) ?s, m')"
    "same_outside (item_addr fs a k i) (data_size ?f) ?m1 m'" "item_of env d m' ?f (item_addr fs a k i) = x i"
    using item_reads [OF sub p(1,2) item_pos [OF p(1-3)] i(3) vis i(4)] p(4) unfolding x_def by blast
  note w = filled_item [OF p i(2) m1(2) m'(2,3)]
  have "wire_type_of ?f = PB_WT_STRING \<longrightarrow> \<not> PB_LTYPE (ftype ?f) \<le> PB_LTYPE_LAST_PACKABLE" using np by simp
  then have dec: "decode_static_field env (nested_at env d) ?s (wire_type_of ?f) ?it None ?m = Some (True, advance (length ?w) ?s, None, m')"
    using m'(1) i(2) u p(4) np Suc.prems(3) item_at_addr [OF p, of "of_nat i"] it(5)
    by (simp add: decode_static_field_def it(3) with_count_def get_count_def put_count_def Let_def)
  obtain st1 where st1: "field_read env d fs a k (out i) st st1" "ns_mem st1 = m'" "fields_seen st1 = mark_seen ?it (fields_seen st)"
    using tag_read [OF p(1-3) at wire_type_small dec] others_trans [OF m1(1)] w unfolding out_def by blast
  have seen: "fields_seen st1 = fields_seen st" using st1(3) p(4) by (simp add: mark_seen_def it(3) Let_def)
  have l: "l = c - Suc i" using Suc.hyps(2) by linarith
  have "load_size (ns_mem st1) (a + size_off fs k) = of_nat (Suc i)" using w by (simp add: st1(2))
  then obtain st' where "field_read env d fs a k (concat (map out [Suc i..<c])) st1 st'" "filled env d fs a k x c (ns_mem st')"
    "load_size (ns_mem st') (a + size_off fs k) = of_nat c" "fields_seen st' = fields_seen st1"
    using Suc.hyps(1) [of "Suc i" st1] l w field_read_at [OF st1(1), of "concat (map out [Suc i..<c]) @ r"] Suc.prems(2) i(1)
    unfolding split by (auto simp: st1(2))
  then show ?case using field_read_trans [OF st1(1)] seen unfolding split by metis
qed

text \<open>A packed array is one string, whose substream the loop uses up.\<close>

lemma packed_wire_nonempty: "leaf_valid f obj \<Longrightarrow> PB_LTYPE (ftype f) \<le> PB_LTYPE_LAST_PACKABLE \<Longrightarrow> leaf_wire f (leaf_content f obj) \<noteq> []"
proof -
  assume v: "leaf_valid f obj" and l: "PB_LTYPE (ftype f) \<le> PB_LTYPE_LAST_PACKABLE"
  have vb: "varint_bytes n \<noteq> []" for n by (subst varint_bytes.simps) simp
  from v have lf: "leaf_field f" and len: "length obj = data_size f" by (simp_all add: leaf_valid_def)
  show ?thesis
    by (rule leaf_cases [OF lf]) (use l len vb in \<open>auto simp: leaf_wire_def leaf_content_def bool_content_def Let_def\<close>)
qed

lemma packed_loop_reads:
  assumes sub: "reads_messages env d m0"
    and p: "plain_message env (Suc d) fs n" "k < field_count fs" "0 < a" "PB_HTYPE (ftype (fs ! k)) = PB_HTYPE_REPEATED"
    and pk: "PB_LTYPE (ftype (fs ! k)) \<le> PB_LTYPE_LAST_PACKABLE"
    and src: "source_items env d m0 (fs ! k) p0 c"
  defines "x \<equiv> \<lambda>i. item_of env d m0 (fs ! k) (p0 i)"
    and "out \<equiv> \<lambda>i. wire_of env d m0 (fs ! k) (p0 i)"
  shows "i \<le> c \<Longrightarrow> wf_istream s \<Longrightarrow> visible s = concat (map out [i..<c]) \<Longrightarrow> load_size m (a + size_off fs k) = of_nat i
    \<Longrightarrow> filled env d fs a k x i m
    \<Longrightarrow> \<exists>m'. static_packed_loop (iter_at fs a k) s None m = Some (True, advance (length (visible s)) s, None, m')
          \<and> filled env d fs a k x c m' \<and> load_size m' (a + size_off fs k) = of_nat c \<and> others_same fs a k m m'"
proof (induction "c - i" arbitrary: i s m)
  case 0
  then have "bytes_left s = 0" using length_visible [of s] by simp
  then show ?case using 0 by (subst static_packed_loop.simps) (simp add: stream_simps)
next
  case (Suc l)
  let ?f = "fs ! k" and ?it = "iter_at fs a k" and ?w = "out i"
  note it = plain_iter [OF p(1-3)]
  have i: "i < c" "i < array_size ?f" "source_item env d m0 ?f (p0 i)" "length ?w < 2 ^ 32" "i < 2 ^ 32"
    using Suc.hyps(2) src by (auto simp: source_items_def out_def)
  have u: "unat (of_nat i :: 32 word) = i" by (rule of_nat_32 [OF i(5)])
  have ns: "PB_LTYPE (ftype ?f) \<noteq> PB_LTYPE_SUBMESSAGE" using pk by auto
  have vis: "visible s = ?w @ concat (map out [Suc i..<c])" using Suc.prems(3) i(1) by (simp add: upt_conv_Cons)
  obtain m1 where m1: "PB_DECODERS env (nested_at env d) s ?f (item_addr fs a k i) m = Some (True, advance (length ?w) s, m1)"
    "same_outside (item_addr fs a k i) (data_size ?f) m m1" "item_of env d m1 ?f (item_addr fs a k i) = x i"
    using item_reads [OF sub p(1,2) item_pos [OF p(1-3)] i(3) Suc.prems(2) vis [unfolded out_def] i(4) [unfolded out_def]] p(4)
    unfolding x_def out_def by blast
  have dec: "on_object (scalar_decoder (PB_LTYPE (ftype ?f))) s ?f (item_addr fs a k i) m = (True, advance (length ?w) s, m1)"
    using m1(1) pk by (simp add: PB_DECODERS_def)
  note w = filled_item [OF p i(2) Suc.prems(5) m1(2,3)]
  let ?m2 = "store_size m1 (a + size_off fs k) (of_nat (Suc i))"
  have m2: "others_same fs a k m1 ?m2" "filled env d fs a k x (Suc i) ?m2"
    using filled_count [OF p, of "Suc i" x m1 "of_nat (Suc i)"] w i(2) by simp_all
  have "?w \<noteq> []" using i(3) ns packed_wire_nonempty [OF _ pk] by (simp add: source_item_def out_def item_value_def)
  then have "0 < bytes_left s" using length_visible [OF Suc.prems(2)] vis by (cases "bytes_left s") simp_all
  then have step: "static_packed_loop ?it s None m = static_packed_loop ?it (advance (length ?w) s) None ?m2"
    using dec w u i(2) Suc.prems(4) item_at_addr [OF p, of "of_nat i"] it(3,5)
    by (subst static_packed_loop.simps) (simp add: get_count_def put_count_def Let_def add.commute)
  have l: "l = c - Suc i" using Suc.hyps(2) by linarith
  have v: "wf_istream (advance (length ?w) s)" "visible (advance (length ?w) s) = concat (map out [Suc i..<c])"
    using Suc.prems(2) vis by (simp_all add: stream_simps)
  obtain m' where "static_packed_loop ?it (advance (length ?w) s) None ?m2
      = Some (True, advance (length (visible (advance (length ?w) s))) (advance (length ?w) s), None, m')"
    "filled env d fs a k x c m'" "load_size m' (a + size_off fs k) = of_nat c" "others_same fs a k ?m2 m'"
    using Suc.hyps(1) [OF l _ v _ m2(2)] i(1) by (metis Suc_leI load_store_size)
  then show ?case using step w m2(1) vis v(2) by (auto simp: advance_advance intro: others_trans)
qed

lemma packed_reads:
  assumes sub: "reads_messages env d m0"
    and p: "plain_message env (Suc d) fs n" "k < field_count fs" "0 < a" "PB_HTYPE (ftype (fs ! k)) = PB_HTYPE_REPEATED"
    and pk: "PB_LTYPE (ftype (fs ! k)) \<le> PB_LTYPE_LAST_PACKABLE"
    and src: "source_items env d m0 (fs ! k) p0 c"
  defines "x \<equiv> \<lambda>i. item_of env d m0 (fs ! k) (p0 i)"
    and "out \<equiv> concat (map (\<lambda>i. wire_of env d m0 (fs ! k) (p0 i)) [0..<c])"
  assumes out: "length out < 2 ^ 32"
    and st: "at_tag fs a st ((tag_bytes (fs ! k) PB_WT_STRING @ string_bytes out) @ r)" "load_size (ns_mem st) (a + size_off fs k) = 0"
  shows "\<exists>st'. field_read env d fs a k (tag_bytes (fs ! k) PB_WT_STRING @ string_bytes out) st st' \<and> filled env d fs a k x c (ns_mem st')
          \<and> load_size (ns_mem st') (a + size_off fs k) = of_nat c \<and> fields_seen st' = fields_seen st"
proof -
  let ?f = "fs ! k" and ?it = "iter_at fs a k" and ?m = "ns_mem st"
  let ?s = "advance (length (tag_bytes ?f PB_WT_STRING)) (ns_stream st)"
  note it = plain_iter [OF p(1-3)]
  have at: "at_tag fs a st (tag_bytes ?f PB_WT_STRING @ string_bytes out @ r)" using st(1) by simp
  have vis: "wf_istream ?s" "visible ?s = string_bytes out @ r" using at by (simp_all add: at_tag_def stream_simps)
  obtain sb s1 where sb: "pb_make_string_substream ?s = (Some sb, s1)" "wf_istream sb" "visible sb = out"
    "\<And>j. j \<le> length out \<Longrightarrow> pb_close_string_substream s1 (advance j sb) = (True, advance (length (string_bytes out)) ?s)"
    using make_substream [OF vis out] by metis
  obtain m' where m': "static_packed_loop ?it sb None ?m = Some (True, advance (length (visible sb)) sb, None, m')"
    "filled env d fs a k x c m'" "load_size m' (a + size_off fs k) = of_nat c" "others_same fs a k ?m m'"
    using packed_loop_reads [OF sub p pk src, of 0 sb ?m] sb(2,3) st(2) unfolding x_def out_def filled_def by auto
  have "bytes_left (advance (length out) sb) = 0" using length_visible [OF sb(2)] sb(3) by (simp add: advance_def)
  then have dec: "decode_static_field env (nested_at env d) ?s PB_WT_STRING ?it None ?m = Some (True, advance (length (string_bytes out)) ?s, None, m')"
    using p(4) pk sb(1,4) m'(1) sb(3) by (simp add: decode_static_field_def it(3) Let_def)
  obtain st' where st': "field_read env d fs a k (tag_bytes ?f PB_WT_STRING @ string_bytes out) st st'" "ns_mem st' = m'"
    "fields_seen st' = mark_seen ?it (fields_seen st)"
    using tag_read [OF p(1-3) at _ dec m'(4)] by auto
  moreover have "mark_seen ?it (fields_seen st) = fields_seen st" using p(4) by (simp add: mark_seen_def it(3) Let_def)
  ultimately show ?thesis using m'(2,3) by auto
qed

end
