(* ===== verification/PbRequired.thy ===== *)
theory PbRequired
  imports PbValue
begin

text \<open>
  The bits of \<open>fields_seen\<close>: after the first \<open>r\<close> required fields exactly their bits are set, of the 64 that there are, and then
  the check at the end of \<open>pb_decode_noinit\<close> accepts.
\<close>

definition required_upto :: "pb_field list \<Rightarrow> nat \<Rightarrow> nat" where
  "required_upto fs k = length (filter (\<lambda>j. PB_HTYPE (ftype (fs ! j)) = PB_HTYPE_REQUIRED) [0..<k])"

lemma required_upto_simps [simp]:
  "required_upto fs 0 = 0"
  "required_upto fs (Suc k) = required_upto fs k + (if PB_HTYPE (ftype (fs ! k)) = PB_HTYPE_REQUIRED then 1 else 0)"
  by (simp_all add: required_upto_def)

lemma required_upto_le: "required_upto fs k \<le> k"
  by (induction k) simp_all

lemma required_index:
  assumes "plain_message env (Suc d) fs n" "k < field_count fs"
  shows "required_field_index (iter_at fs a k) = of_nat (required_upto fs k)"
  using assms(2)
proof (induction k)
  case 0
  then show ?case by (simp add: iter_at_0 pb_field_iter_begin_def Let_def split: prod.splits)
next
  case (Suc k)
  then have k: "k < field_count fs" by simp
  have w: "wf_fields fs" using plain_static [OF assms(1)] by simp
  have "plain_field (plain_message env d) env fs k" using assms(1) k by simp
  then have "\<not> in_union fs k" by (rule plain_field_kind)
  then show ?case
    using Suc.IH [OF k] iter_at_fields [OF w k, of a] field_tag(1) [OF w k] field_tag(1) [OF w Suc.prems]
    by (auto simp: iter_at_Suc pb_field_iter_next_def in_union_def Let_def)
qed

definition seen_words :: "nat \<Rightarrow> 32 word list" where
  "seen_words r = [mask (min r 32), mask (min r 64 - 32)]"

lemma small_word: "r < 2 ^ 32 \<Longrightarrow> unat (of_nat r :: 32 word) = r"
  by (simp add: unsigned_of_nat take_bit_nat_eq_self)

lemma word_index:
  assumes "r < 2 ^ 32"
  shows "unat (drop_bit 5 (of_nat r :: 32 word)) = r div 32" "unat (of_nat r AND 31 :: 32 word) = r mod 32"
proof -
  show "unat (drop_bit 5 (of_nat r :: 32 word)) = r div 32" unfolding unat_drop_bit_div small_word [OF assms] by simp
  show "unat (of_nat r AND 31 :: 32 word) = r mod 32"
    using nat_and_mask [of r 5] unfolding unsigned_and_eq small_word [OF assms] by simp
qed

lemma upper_half: "32 \<le> r \<Longrightarrow> r < 64 \<Longrightarrow> r div 32 = 1 \<and> r mod 32 = r - (32 :: nat)"
  using div_mult_mod_eq [of r 32] by (simp add: le_div_geq le_mod_geq)

lemma mask_next: "mask r OR push_bit r 1 = (mask (Suc r) :: 32 word)"
  by (simp add: mask_Suc_exp push_bit_eq_mult or.commute)

lemma mark_required:
  assumes "PB_HTYPE (ftype (pos_field it)) = PB_HTYPE_REQUIRED" "required_field_index it = of_nat r" "r < 2 ^ 32"
  shows "mark_seen it (seen_words r) = seen_words (Suc r)"
proof -
  have lt: "(of_nat r :: 32 word) < 64 \<longleftrightarrow> r < 64" using small_word [OF assms(3)] by (simp add: word_less_nat_alt)
  note w = word_index [OF assms(3)]
  consider "r < 32" | "32 \<le> r" "r < 64" | "64 \<le> r" by linarith
  then show ?thesis
  proof cases
    case 1
    then have "r div 32 = 0" "r mod 32 = r" by simp_all
    then show ?thesis using 1 assms(1,2) lt w mask_next [of r] by (simp add: mark_seen_def seen_words_def Let_def)
  next
    case 2
    then have "r div 32 = 1" "r mod 32 = r - 32" "Suc (r - 32) = r - 31" using upper_half by auto
    then show ?thesis using 2 assms(1,2) lt w mask_next [of "r - 32"] by (simp add: mark_seen_def seen_words_def Let_def Suc_diff_le)
  next
    case 3
    then show ?thesis using assms(1,2) lt by (simp add: mark_seen_def seen_words_def Let_def)
  qed
qed

lemma mark_field:
  assumes "plain_message env (Suc d) fs n" "k < field_count fs" "0 < a"
  shows "mark_seen (iter_at fs a k) (seen_words (required_upto fs k)) = seen_words (required_upto fs (Suc k))"
proof (cases "PB_HTYPE (ftype (fs ! k)) = PB_HTYPE_REQUIRED")
  case True
  have "required_upto fs k < 2 ^ 32" using required_upto_le [of fs k] assms(1,2) by simp
  then show ?thesis
    using mark_required [of "iter_at fs a k" "required_upto fs k"] True required_index [OF assms(1,2), of a] plain_iter(3) [OF assms] by simp
next
  case False
  then show ?thesis using plain_iter(3) [OF assms] by (simp add: mark_seen_def Let_def)
qed

lemma required_loop_at:
  assumes p: "plain_message env (Suc d) fs n" "0 < a"
  shows "k < field_count fs \<Longrightarrow> required_loop (iter_at fs a k)
    = Some (of_nat (required_upto fs (field_count fs - 1)), ftype (fs ! (field_count fs - 1)), iter_at fs a 0)"
proof (induction "field_count fs - k" arbitrary: k)
  case (Suc l)
  note it = plain_iter [OF p(1) Suc.prems p(2)]
  note nx = next_iter_at [OF it(6) Suc.prems, of a]
  show ?case
  proof (cases "Suc k < field_count fs")
    case True
    then show ?thesis using Suc.hyps(1) [OF _ True] Suc.hyps(2) nx by (subst required_loop.simps) (simp add: Let_def)
  next
    case False
    then have "Suc k = field_count fs" "k = field_count fs - 1" using Suc.prems by linarith+
    then show ?thesis using nx it(3) required_index [OF p(1) Suc.prems, of a] by (subst required_loop.simps) (simp add: Let_def)
  qed
qed simp

lemma required_count_at:
  assumes p: "plain_message env (Suc d) fs n" "0 < a" "k < field_count fs"
  shows "required_count (iter_at fs a k) = Some (of_nat (min (required_upto fs (field_count fs)) 64))"
proof -
  let ?l = "field_count fs - 1"
  have c: "field_count fs = Suc ?l" "0 < field_count fs" using p(3) by linarith+
  have R: "required_upto fs (field_count fs) < 2 ^ 32" using required_upto_le [of fs "field_count fs"] p(1) by simp
  note it = plain_iter [OF p(1) c(2) p(2)]
  have t: "tag (pos_field (iter_at fs a 0)) \<noteq> 0" unfolding it(3) by (rule field_tag(1) [OF it(6) c(2)])
  have n: "(if PB_HTYPE (ftype (fs ! ?l)) = PB_HTYPE_REQUIRED \<and> tag (pos_field (iter_at fs a 0)) \<noteq> 0
      then of_nat (required_upto fs ?l) + 1 else of_nat (required_upto fs ?l)) = (of_nat (required_upto fs (field_count fs)) :: 32 word)"
    using t by (subst (3) c(1)) simp
  have "(if 64 < (of_nat (required_upto fs (field_count fs)) :: 32 word) then 64 else of_nat (required_upto fs (field_count fs)))
      = (of_nat (min (required_upto fs (field_count fs)) 64) :: 32 word)"
    using small_word [OF R] by (simp add: word_less_nat_alt min_def)
  then show ?thesis unfolding required_count_def required_loop_at [OF p] option.map prod.case n Let_def by simp
qed

lemma all_required_seen: "all_seen (of_nat (min r 64)) (seen_words r)"
proof -
  let ?q = "min r 64"
  have q: "?q < 2 ^ 32" by simp
  note w = word_index [OF q]
  have full: "mask 32 = (- 1 :: 32 word)" by (rule bit_eqI) (auto simp: bit_simps)
  have part: "drop_bit (32 - i) (- 1) = (mask i :: 32 word)" if "i < 32" for i
    by (rule bit_eqI) (use that in \<open>auto simp: bit_simps\<close>)
  have z: "of_nat ?q AND 31 \<noteq> (0 :: 32 word) \<longleftrightarrow> ?q mod 32 \<noteq> 0" using w(2) by (metis unsigned_eq_0_iff)
  have words: "\<forall>i<?q div 32. seen_words r ! i = - 1"
  proof (intro allI impI)
    fix i
    assume i: "i < ?q div 32"
    then have "(i = 0 \<and> 32 \<le> r) \<or> (i = 1 \<and> 64 \<le> r)" by linarith
    then show "seen_words r ! i = - 1" using full by (auto simp: seen_words_def min_absorb2)
  qed
  have "seen_words r ! (?q div 32) = mask (?q mod 32)" if "?q mod 32 \<noteq> 0"
  proof -
    have "r < 32 \<or> 32 \<le> r \<and> r < 64" using that by (cases "64 \<le> r") auto
    then show ?thesis
    proof
      assume "32 \<le> r \<and> r < 64"
      then have "?q = r" "r div 32 = 1" "r mod 32 = r - 32" using upper_half by auto
      then show ?thesis by (simp add: seen_words_def)
    qed (simp add: seen_words_def)
  qed
  then show ?thesis using words part [of "?q mod 32"] unfolding all_seen_def w z by simp
qed

end
