(* ===== verification/PbWriteMsg.thy ===== *)
theory PbWriteMsg
  imports PbValue
begin

text \<open>
  \<open>pb_encode\<close> writes exactly the wire format of the value of its structure, on a stream that has room for it, or counts
  it on a stream that only sizes.
\<close>

section \<open>Encoders that write a byte string\<close>

definition encodes_to :: "(ostream \<Rightarrow> (bool \<times> ostream) option) \<Rightarrow> bytes \<Rightarrow> bool" where
  "encodes_to g out \<longleftrightarrow>
     (\<forall>s. oerrmsg s = None \<longrightarrow> bytes_written s + length out < SIZE_MOD \<longrightarrow> room s (length out) \<longrightarrow> g s = Some (True, written out s))"

lemma encodes_toD:
  "encodes_to g out \<Longrightarrow> oerrmsg s = None \<Longrightarrow> bytes_written s + length out < SIZE_MOD \<Longrightarrow> room s (length out) \<Longrightarrow> g s = Some (True, written out s)"
  by (simp add: encodes_to_def)

lemma err_written [simp]: "oerrmsg (written x s) = oerrmsg s"
  by (simp add: written_def)

lemma room_append: "room s (length (x @ y)) \<Longrightarrow> room s (length x) \<and> room (written x s) (length y)"
  by (auto simp: room_def)

lemma encodes_nil: "encodes_to (\<lambda>s. Some (True, s)) []"
  by (simp add: encodes_to_def written_def map_option.identity)

lemma encodes_writer: "pb_writer wr out \<Longrightarrow> encodes_to (\<lambda>s. Some (wr s)) out"
  by (simp add: encodes_to_def pb_writer.writes)

lemma encodes_then:
  assumes "pb_writer wr x" "encodes_to g y"
  shows "encodes_to (\<lambda>s. case wr s of (False, s) \<Rightarrow> Some (False, s) | (True, s) \<Rightarrow> g s) (x @ y)"
  unfolding encodes_to_def
proof (intro allI impI)
  fix s
  assume s: "oerrmsg s = None" "bytes_written s + length (x @ y) < SIZE_MOD" "room s (length (x @ y))"
  note r = room_append [OF s(3)]
  have "wr s = (True, written x s)" using s(2) r by (intro pb_writer.writes [OF assms(1)]) simp_all
  moreover have "g (written x s) = Some (True, written y (written x s))" using s r by (intro encodes_toD [OF assms(2)]) simp_all
  ultimately show "(case wr s of (False, s) \<Rightarrow> Some (False, s) | (True, s) \<Rightarrow> g s) = Some (True, written (x @ y) s)"
    by (simp add: written_written)
qed

lemma encodes_bind:
  assumes "encodes_to f x" "encodes_to g y"
  shows "encodes_to (\<lambda>s. Option.bind (f s) (\<lambda>(ok, s). if \<not> ok then Some (False, s) else g s)) (x @ y)"
  unfolding encodes_to_def
proof (intro allI impI)
  fix s
  assume s: "oerrmsg s = None" "bytes_written s + length (x @ y) < SIZE_MOD" "room s (length (x @ y))"
  note r = room_append [OF s(3)]
  have "f s = Some (True, written x s)" using s r by (intro encodes_toD [OF assms(1)]) simp_all
  moreover have "g (written x s) = Some (True, written y (written x s))" using s r by (intro encodes_toD [OF assms(2)]) simp_all
  ultimately show "Option.bind (f s) (\<lambda>(ok, s). if \<not> ok then Some (False, s) else g s) = Some (True, written (x @ y) s)"
    by (simp add: written_written)
qed

lemma encodes_items:
  "(\<And>i. i < c \<Longrightarrow> encodes_to (\<lambda>s. enc s (p + int (z * i))) (w i)) \<Longrightarrow> encodes_to (encode_items enc c z p) (concat (map w [0..<c]))"
proof (induction c arbitrary: p w)
  case 0
  then show ?case using encodes_nil by (simp add: encodes_to_def)
next
  case (Suc c)
  have "encodes_to (\<lambda>s. enc s p) (w 0)" using Suc.prems [of 0] by simp
  moreover have "encodes_to (encode_items enc c z (p + int z)) (concat (map (\<lambda>i. w (Suc i)) [0..<c]))"
    using Suc.prems [of "Suc _"] by (intro Suc.IH) (simp add: algebra_simps)
  moreover have "map w [0..<Suc c] = w 0 # map (\<lambda>i. w (Suc i)) [0..<c]" by (simp add: upt_conv_Cons map_Suc_upt [symmetric] comp_def del: upt_Suc)
  ultimately show ?case using encodes_bind [of "\<lambda>s. enc s p" "w 0" "encode_items enc c z (p + int z)"] by simp
qed

text \<open>On a stream that sizes, only the number of bytes counts.\<close>

lemma written_sizing: "sink s = None \<Longrightarrow> length x = length y \<Longrightarrow> written x s = written y s"
  by (simp add: written_def)

lemma write_zeros:
  assumes "sink s = None" "bytes_written s + length x < SIZE_MOD"
  shows "pb_write s (replicate (length x) 0) = (True, written x s)"
  using pb_writer.writes [OF writer_write, of s "replicate (length x) 0"] written_sizing [OF assms(1), of "replicate (length x) 0" x] assms
  by (simp add: room_def)

lemma sizing_zero [simp]: "bytes_written PB_OSTREAM_SIZING = 0"
  by (simp add: PB_OSTREAM_SIZING_def)

lemma sizing_stream: "encodes_to g out \<Longrightarrow> length out < SIZE_MOD \<Longrightarrow> g PB_OSTREAM_SIZING = Some (True, written out PB_OSTREAM_SIZING)"
  by (rule encodes_toD) (simp_all add: PB_OSTREAM_SIZING_def room_def)

lemma unat_of_length: "n < SIZE_MOD \<Longrightarrow> unat (of_nat n :: 64 word) = n"
  by (simp add: unsigned_of_nat take_bit_nat_eq_self)

lemma encodes_submessage:
  assumes e: "encodes_to (\<lambda>s. encode s fs src) out"
  shows "encodes_to (\<lambda>s. encode_submessage_with encode s fs src) (string_bytes out)"
  unfolding encodes_to_def
proof (intro allI impI)
  fix s
  let ?n = "varint_bytes (length out)"
  assume s: "oerrmsg s = None" "bytes_written s + length (string_bytes out) < SIZE_MOD" "room s (length (string_bytes out))"
  then have l: "length out < SIZE_MOD" and b: "bytes_written s + length ?n + length out < SIZE_MOD" by (simp_all add: string_bytes_def)
  note r = room_append [of s ?n out, folded string_bytes_def, OF s(3)]
  have sz: "encode PB_OSTREAM_SIZING fs src = Some (True, written out PB_OSTREAM_SIZING)" using sizing_stream [OF e l] .
  have v: "pb_encode_varint s (of_nat (length out)) = (True, written ?n s)"
    using pb_writer.writes [OF writer_varint, of s "of_nat (length out)"] b r unat_of_length [OF l] by simp
  show "encode_submessage_with encode s fs src = Some (True, written (string_bytes out) s)"
  proof (cases "sink s")
    case None
    then show ?thesis using write_zeros [of "written ?n s" out] b
      by (simp add: encode_submessage_with_def sz v written_written string_bytes_def Let_def)
  next
    case (Some xs)
    let ?sub = "\<lparr>sink = Some (xs @ ?n), max_size = length out, bytes_written = 0, oerrmsg = None\<rparr>"
    have "encode ?sub fs src = Some (True, written out ?sub)" using l by (intro encodes_toD [OF e]) (simp_all add: room_def)
    moreover have "\<not> max_size s < szadd (bytes_written s + length ?n) (length out)"
    proof -
      have "?n \<noteq> []" by (subst varint_bytes.simps) simp
      then have "bytes_written s + length ?n + length out \<le> max_size s" using s(3) Some by (auto simp: room_def string_bytes_def)
      then show ?thesis using b by (simp add: szadd_def)
    qed
    ultimately show ?thesis using Some b s(1)
      by (simp add: encode_submessage_with_def sz v string_bytes_def Let_def szadd_def written_def)
  qed
qed

section \<open>One item\<close>

lemma mload_take: "k \<le> n \<Longrightarrow> mload m a k = take k (mload m a n)"
  by (rule nth_equalityI) simp_all

lemma unat_load_size: "unat (load_size m a) = unat (le_val (mload m a 4))"
proof -
  have "unat (le_val (mload m a 4)) < 2 ^ 32" by (rule unat_le4) simp
  then show ?thesis by (simp add: load_size_def unsigned_ucast_eq take_bit_nat_eq_self)
qed

lemma bytes_in_memory:
  assumes "bytes_object f (Some (mload m p (data_size f)))" "p \<noteq> 0"
  shows "enc_bytes_at s f p m = pb_enc_bytes s f (Some (mload m p (data_size f)))"
proof -
  let ?x = "mload m p (data_size f)" and ?n = "unat (load_size m p)"
  have b: "bytes_offset + unat (load 4 ?x) \<le> data_size f" using assms(1) unfolding bytes_object_def by auto
  then have l: "load 4 ?x = le_val (mload m p 4)" by (simp add: load_def mload_take [of 4 "data_size f"])
  then have n: "unat (load 4 ?x) = ?n" by (simp add: unat_load_size)
  have t: "mload m p (4 + ?n) = take (4 + ?n) ?x" using b n by (intro mload_take) simp
  have "load 4 (mload m p (4 + ?n)) = load 4 ?x" unfolding t by (simp add: load_def min_absorb1)
  moreover have "take ?n (drop 4 (mload m p (4 + ?n))) = take ?n (drop 4 ?x)" unfolding t by (simp add: drop_take)
  ultimately show ?thesis using assms(2) n by (simp add: enc_bytes_at_def pb_enc_bytes_def Let_def)
qed

lemma leaf_kind: "leaf_field f \<Longrightarrow> PB_ATYPE (ftype f) = PB_ATYPE_STATIC \<and> PB_LTYPE (ftype f) \<noteq> PB_LTYPE_SUBMESSAGE"
proof -
  assume l: "leaf_field f"
  have "PB_LTYPE (ftype f) \<noteq> PB_LTYPE_SUBMESSAGE" by (rule leaf_cases [OF l]) simp_all
  then show ?thesis using l by (simp add: leaf_field_def Let_def)
qed

lemma encodes_leaf:
  assumes "leaf_valid f (mload m p (data_size f))" "p \<noteq> 0"
  shows "encodes_to (\<lambda>s. PB_ENCODERS env encode s f p m) (leaf_wire f (leaf_content f (mload m p (data_size f))))"
proof -
  let ?x = "mload m p (data_size f)"
  have lf: "leaf_field f" using assms(1) by (simp add: leaf_valid_def)
  have "PB_ENCODERS env encode s f p m = Some (leaf_enc f s ?x)" for s
    by (rule leaf_cases [OF lf])
      (use assms leaf_kind [OF lf] in \<open>simp_all add: PB_ENCODERS_def leaf_enc_def enc_string_at_def bytes_in_memory leaf_valid_def Let_def\<close>)
  then show ?thesis using encodes_writer [OF leaf_encodes [OF assms(1)]] by simp
qed

lemma encodes_item:
  assumes "p \<noteq> 0"
    and "PB_LTYPE (ftype f) = PB_LTYPE_SUBMESSAGE \<Longrightarrow> ptr f \<noteq> 0 \<and>
      encodes_to (\<lambda>s. encode s (fields_at env (ptr f)) p) (wr (fields_at env (ptr f)) (val (fields_at env (ptr f)) p))"
    and "PB_LTYPE (ftype f) \<noteq> PB_LTYPE_SUBMESSAGE \<Longrightarrow> leaf_valid f (mload m p (data_size f))"
  shows "encodes_to (\<lambda>s. PB_ENCODERS env encode s f p m) (item_wire wr env f (item_value val env f m p))"
proof (cases "PB_LTYPE (ftype f) = PB_LTYPE_SUBMESSAGE")
  case True
  then show ?thesis using encodes_submessage [of encode "fields_at env (ptr f)" p] assms(2)
    by (simp add: PB_ENCODERS_def item_value_def pb_enc_submessage_def Let_def)
next
  case False
  then show ?thesis using encodes_leaf [OF assms(3) assms(1)] by (simp add: item_value_def)
qed

lemma tag_for_field: "field_kind f \<Longrightarrow> pb_encode_tag_for_field s f = pb_encode_tag s (wire_type_of f) (tag f)"
  unfolding field_kind_def
  by (elim disjE leaf_cases) (simp_all add: pb_encode_tag_for_field_def wire_type_of_def Let_def)

lemma encodes_tagged: "field_kind f \<Longrightarrow> encodes_to g y \<Longrightarrow> encodes_to (\<lambda>s. tag_then s f g) (tag_bytes f (wire_type_of f) @ y)"
  unfolding tag_then_def tag_for_field
  by (rule encodes_then) (use writer_pb_tag [of "(tag f, wire_type_of f)"] in simp)

section \<open>Arrays\<close>

lemma length_concat_same: "(\<And>x. x \<in> set xs \<Longrightarrow> length (w x) = c) \<Longrightarrow> length (concat (map w xs)) = c * length xs"
  by (induction xs) simp_all

lemma length_leaf_fixed:
  "leaf_valid f x \<Longrightarrow> PB_LTYPE (ftype f) = PB_LTYPE_FIXED32 \<Longrightarrow> length (leaf_wire f (leaf_content f x)) = 4"
  "leaf_valid f x \<Longrightarrow> PB_LTYPE (ftype f) = PB_LTYPE_FIXED64 \<Longrightarrow> length (leaf_wire f (leaf_content f x)) = 8"
  by (auto simp: leaf_valid_def leaf_field_def leaf_wire_def leaf_content_def Let_def)

lemma encodes_array:
  assumes "field_kind f" "p \<noteq> 0" "count \<le> array_size f" "PB_HTYPE (ftype f) = PB_HTYPE_REPEATED" "PB_ATYPE (ftype f) = PB_ATYPE_STATIC"
    and item: "\<And>i. i < count \<Longrightarrow> encodes_to (\<lambda>s. PB_ENCODERS env encode s f (p + int (data_size f * i)) m) (item_wire wr env f (x i))"
    and leaf: "\<And>i. i < count \<Longrightarrow> PB_LTYPE (ftype f) \<noteq> PB_LTYPE_SUBMESSAGE \<Longrightarrow> \<exists>o'. leaf_valid f o' \<and> x i = Obj (leaf_content f o')"
  shows "encodes_to (\<lambda>s. encode_array env encode s f p count m) (field_wire wr env f (map x [0..<count]))"
proof (cases "count = 0")
  case True
  then show ?thesis using encodes_nil by (simp add: encode_array_def field_wire_def)
next
  case False
  let ?enc = "\<lambda>s p. PB_ENCODERS env encode s f p m"
  show ?thesis
  proof (cases "PB_LTYPE (ftype f) \<le> PB_LTYPE_LAST_PACKABLE")
    case packable: True
    let ?out = "concat (map (\<lambda>i. item_wire wr env f (x i)) [0..<count])"
    have items: "encodes_to (\<lambda>s. encode_items ?enc count (data_size f) p s) ?out" using item by (intro encodes_items) simp
    have ns: "PB_LTYPE (ftype f) \<noteq> PB_LTYPE_SUBMESSAGE" using packable by auto
    have total: "packed_size ?enc f count p = Some (Some (length ?out))" if l: "length ?out < SIZE_MOD"
    proof -
      have len: "length (item_wire wr env f (x i)) = (if PB_LTYPE (ftype f) = PB_LTYPE_FIXED32 then 4 else 8)"
        if "i < count" "PB_LTYPE (ftype f) = PB_LTYPE_FIXED32 \<or> PB_LTYPE (ftype f) = PB_LTYPE_FIXED64" for i
        using leaf [OF that(1) ns] that(2) length_leaf_fixed [of f] by auto
      have "length ?out = (if PB_LTYPE (ftype f) = PB_LTYPE_FIXED32 then 4 else 8) * count"
        if "PB_LTYPE (ftype f) = PB_LTYPE_FIXED32 \<or> PB_LTYPE (ftype f) = PB_LTYPE_FIXED64"
        using len [OF _ that] length_concat_same [of "[0..<count]" "\<lambda>i. item_wire wr env f (x i)"] by simp
      moreover have "encode_items ?enc count (data_size f) p PB_OSTREAM_SIZING = Some (True, written ?out PB_OSTREAM_SIZING)"
        by (rule sizing_stream [OF items l])
      ultimately show ?thesis using l by (auto simp: packed_size_def szmul_def)
    qed
    have body: "encodes_to (\<lambda>s. case pb_encode_varint s (of_nat (length ?out)) of (False, s) \<Rightarrow> Some (False, s)
        | (True, s) \<Rightarrow> if sink s = None then Some (pb_write s (replicate (length ?out) 0)) else encode_items ?enc count (data_size f) p s)
      (varint_bytes (unat (of_nat (length ?out) :: 64 word)) @ ?out)"
    proof (rule encodes_then [OF writer_varint])
      show "encodes_to (\<lambda>s. if sink s = None then Some (pb_write s (replicate (length ?out) 0)) else encode_items ?enc count (data_size f) p s) ?out"
        using items write_zeros [of _ ?out] by (simp add: encodes_to_def)
    qed
    let ?step = "\<lambda>s. case pb_encode_tag s PB_WT_STRING (tag f) of (False, s) \<Rightarrow> Some (False, s)
      | (True, s) \<Rightarrow> (case pb_encode_varint s (of_nat (length ?out)) of (False, s) \<Rightarrow> Some (False, s)
        | (True, s) \<Rightarrow> if sink s = None then Some (pb_write s (replicate (length ?out) 0)) else encode_items ?enc count (data_size f) p s)"
    have step: "encodes_to ?step (tag_bytes f PB_WT_STRING @ varint_bytes (unat (of_nat (length ?out) :: 64 word)) @ ?out)"
      using writer_pb_tag [of "(tag f, PB_WT_STRING)"] by (intro encodes_then [OF _ body]) simp
    show ?thesis
      unfolding encodes_to_def
    proof (intro allI impI)
      fix s
      have w: "field_wire wr env f (map x [0..<count]) = tag_bytes f PB_WT_STRING @ string_bytes ?out"
        using False packable assms(4) by (simp add: field_wire_def packed_field_def comp_def)
      assume s: "oerrmsg s = None" "bytes_written s + length (field_wire wr env f (map x [0..<count])) < SIZE_MOD"
        "room s (length (field_wire wr env f (map x [0..<count])))"
      then have l: "length ?out < SIZE_MOD" unfolding w by (simp add: string_bytes_def)
      obtain ok s1 where t: "pb_encode_tag s PB_WT_STRING (tag f) = (ok, s1)" by fastforce
      have "encode_array env encode s f p count m = ?step s"
        using False packable assms(3) total [OF l] t by (cases ok) (simp_all add: encode_array_def Let_def)
      also have "\<dots> = Some (True, written (field_wire wr env f (map x [0..<count])) s)"
        using s unat_of_length [OF l] unfolding w string_bytes_def by (intro encodes_toD [OF step, THEN trans]) simp_all
      finally show "encode_array env encode s f p count m = Some (True, written (field_wire wr env f (map x [0..<count])) s)" .
    qed
  next
    case packable: False
    have "encodes_to (\<lambda>s. tag_then s f (\<lambda>s. ?enc s (p + int (data_size f * i)))) (tag_bytes f (wire_type_of f) @ item_wire wr env f (x i))"
      if "i < count" for i by (rule encodes_tagged [OF assms(1) item [OF that]])
    then have "encodes_to (\<lambda>s. encode_items (\<lambda>s p. tag_then s f (\<lambda>s. ?enc s p)) count (data_size f) p s)
      (concat (map (\<lambda>i. tag_bytes f (wire_type_of f) @ item_wire wr env f (x i)) [0..<count]))"
      by (intro encodes_items) simp
    then show ?thesis using False packable assms(3-5)
      by (simp add: encode_array_def field_wire_def packed_field_def comp_def)
  qed
qed

section \<open>Messages\<close>

lemma encodes_field:
  assumes p: "plain_message env (Suc d) fs n" "k < field_count fs" "0 < a"
    and ok: "object_ok env (Suc d) m fs a"
    and sub: "\<And>gs z q. plain_message env d gs z \<Longrightarrow> object_ok env d m gs q \<Longrightarrow> 0 < q
      \<Longrightarrow> encodes_to (\<lambda>s. encode s gs q) (message_wire env d gs (message_value env d m gs q))"
  shows "encodes_to (encode_one env e encode m (iter_at fs a k)) (field_wire (message_wire env d) env (fs ! k) (field_value (message_value env d m) env m fs a k))"
proof -
  let ?f = "fs ! k" and ?it = "iter_at fs a k"
  let ?wire = "item_wire (message_wire env d) env ?f" and ?x = "\<lambda>i. item_value (message_value env d m) env ?f m (item_addr fs a k i)"
  let ?enc = "\<lambda>s p. PB_ENCODERS env encode s ?f p m"
  note it = plain_iter [OF p]
  have kind: "field_kind ?f" by (rule plain_field_kind [OF it(1)])
  have pos: "0 < item_addr fs a k i" for i using it(7) it(11) [of i] by (simp add: add_pos_nonneg)
  have item: "encodes_to (\<lambda>s. ?enc s (item_addr fs a k i)) (?wire (?x i))" if i: "i < item_count fs a m k" for i
  proof (rule encodes_item)
    show "item_addr fs a k i \<noteq> 0" using pos [of i] by simp
    assume "PB_LTYPE (ftype ?f) = PB_LTYPE_SUBMESSAGE"
    then show "ptr ?f \<noteq> 0 \<and> encodes_to (\<lambda>s. encode s (fields_at env (ptr ?f)) (item_addr fs a k i))
        (message_wire env d (fields_at env (ptr ?f)) (message_value env d m (fields_at env (ptr ?f)) (item_addr fs a k i)))"
      using sub [OF plain_submessage(1) [OF p(1,2)] _ pos] plain_submessage(2) [OF p(1,2)] ok p(2) i by auto
  next
    assume "PB_LTYPE (ftype ?f) \<noteq> PB_LTYPE_SUBMESSAGE"
    then show "leaf_valid ?f (mload m (item_addr fs a k i) (data_size ?f))" using ok p(2) i by auto
  qed
  have one: "encodes_to (\<lambda>s. tag_then s ?f (\<lambda>s. ?enc s (pData ?it))) (tag_bytes ?f (wire_type_of ?f) @ ?wire (?x 0))" if "0 < item_count fs a m k"
    using encodes_tagged [OF kind item [OF that]] it(10) by simp
  have e: "encode_one env e encode m ?it s = encode_basic_field env e encode s ?f (pData ?it) m" for s
    using static_field_kind [OF it(2)] it(3) by (simp add: encode_one_def encode_field_def)
  from it(1) show ?thesis
  proof (cases rule: plain_htype)
    case required
    then have "item_count fs a m k = 1" by (simp add: item_count_def)
    then show ?thesis using one required it(7,9) unfolding e
      by (simp add: encode_basic_field_def field_wire_def packed_field_def field_value_def Let_def)
  next
    case optional
    have has: "safe_read_bool (mload m (pData ?it + size_offset ?f) 1) \<longleftrightarrow> item_count fs a m k = 1" "item_count fs a m k \<le> 1"
      using optional(1) it(4,5,8) by (auto simp: safe_read_bool_def item_count_def mload_def Let_def add.assoc)
    have "encodes_to (\<lambda>s. if item_count fs a m k = 1 then tag_then s ?f (\<lambda>s. ?enc s (pData ?it)) else Some (True, s))
      (field_wire (message_wire env d) env ?f (field_value (message_value env d m) env m fs a k))"
      using one has(2) optional(1) encodes_nil by (cases "item_count fs a m k = 1") (simp_all add: field_wire_def packed_field_def field_value_def)
    then show ?thesis using optional it(9) has(1) unfolding e by (simp add: encode_basic_field_def Let_def)
  next
    case repeated
    have cnt: "unat (load_size m (pData ?it + size_offset ?f)) = item_count fs a m k"
      using repeated(1) it(4,5,8) ok p(2) by (auto simp: item_count_def Let_def add.assoc)
    have "encodes_to (\<lambda>s. encode_array env encode s ?f (pData ?it) (item_count fs a m k) m)
        (field_wire (message_wire env d) env ?f (map ?x [0..<item_count fs a m k]))"
    proof (rule encodes_array [OF kind _ _ repeated(1) it(9)])
      show "pData ?it \<noteq> 0" using it(7) by simp
      show "item_count fs a m k \<le> array_size ?f" using repeated(1) by (simp add: item_count_def Let_def)
      show "encodes_to (\<lambda>s. ?enc s (pData ?it + int (data_size ?f * i))) (?wire (?x i))" if "i < item_count fs a m k" for i
        using item [OF that] it(11) [of i] by simp
      show "\<exists>o'. leaf_valid ?f o' \<and> ?x i = Obj (leaf_content ?f o')" if "i < item_count fs a m k" "PB_LTYPE (ftype ?f) \<noteq> PB_LTYPE_SUBMESSAGE" for i
        using ok p(2) that by (intro exI [of _ "mload m (item_addr fs a k i) (data_size ?f)"]) (auto simp: item_value_def)
    qed
    then show ?thesis using repeated it(9) cnt unfolding e by (simp add: encode_basic_field_def field_value_def Let_def)
  qed
qed

lemma encodes_message:
  "plain_message env d fs n \<Longrightarrow> object_ok env d m fs a \<Longrightarrow> 0 < a
     \<Longrightarrow> encodes_to (\<lambda>s. pb_encode env d m s fs a) (message_wire env d fs (message_value env d m fs a))"
proof (induction d arbitrary: fs n a)
  case (Suc d)
  have w: "wf_fields fs" "0 < field_count fs" using plain_static [OF Suc.prems(1)] by simp_all
  let ?w = "\<lambda>k. field_wire (message_wire env d) env (fs ! k) (field_value (message_value env d m) env m fs a k)"
  let ?pre = "\<lambda>k. concat (map ?w [0..<k])"
  have out: "message_wire env (Suc d) fs (message_value env (Suc d) m fs a) = ?pre (field_count fs)"
    by (auto intro!: arg_cong [where f = concat])
  have field: "encodes_to (encode_one env (Suc d) (pb_encode env d m) m (iter_at fs a k)) (?w k)" if "k < field_count fs" for k
    by (rule encodes_field [OF Suc.prems(1) that Suc.prems(3,2) Suc.IH])
  show ?case
    unfolding encodes_to_def out
  proof (intro allI impI)
    fix s
    assume s: "oerrmsg s = None" "bytes_written s + length (?pre (field_count fs)) < SIZE_MOD" "room s (length (?pre (field_count fs)))"
    have "\<exists>s'. each_field (encode_one env (Suc d) (pb_encode env d m) m) (iter_at fs a 0) s = Some (True, s') \<and> s' = written (?pre (field_count fs)) s"
    proof (rule each_field_invariant [OF w, where P = "\<lambda>k s'. s' = written (?pre k) s"])
      show "s = written (?pre 0) s" by (simp add: written_def map_option.identity)
    next
      fix k s'
      assume k: "k < field_count fs" and s': "s' = written (?pre k) s"
      have "[0..<field_count fs] = [0..<k] @ k # [Suc k..<field_count fs]"
        using k by (metis less_imp_add_positive upt_add_eq_append upt_conv_Cons zero_le le_add1 less_imp_le)
      then have all: "?pre (field_count fs) = (?pre k @ ?w k) @ concat (map ?w [Suc k..<field_count fs])" by simp
      have r: "room s (length (?pre k @ ?w k))" using room_append [of s "?pre k @ ?w k"] s(3) unfolding all by blast
      have "encode_one env (Suc d) (pb_encode env d m) m (iter_at fs a k) s' = Some (True, written (?w k) s')"
        using s room_append [OF r] unfolding s' all by (intro encodes_toD [OF field [OF k]]) simp_all
      then show "\<exists>st'. encode_one env (Suc d) (pb_encode env d m) m (iter_at fs a k) s' = Some (True, st') \<and> st' = written (?pre (Suc k)) s"
        unfolding s' by (simp add: written_written)
    qed
    then show "pb_encode env (Suc d) m s fs a = Some (True, written (?pre (field_count fs)) s)"
      using begin_nonempty [OF w, of a] by simp
  qed
qed simp

end
