(* ===== verification/PbTrip.thy ===== *)
theory PbTrip
  imports PbReadMsg PbRequired PbWriteMsg
begin

text \<open>
  Reading all fields of a message, one after another, and the nested messages by induction on their depth: \<open>pb_decode\<close>
  of what \<open>pb_encode\<close> wrote.
\<close>

declare pb_release_single_field.simps [simp del]

section \<open>A field of any kind\<close>

abbreviation value_of :: "pb_env \<Rightarrow> nat \<Rightarrow> mem \<Rightarrow> pb_field list \<Rightarrow> int \<Rightarrow> nat \<Rightarrow> pb_item list" where
  "value_of env d m fs a k \<equiv> field_value (message_value env d m) env m fs a k"

abbreviation wire_at :: "pb_env \<Rightarrow> nat \<Rightarrow> mem \<Rightarrow> pb_field list \<Rightarrow> int \<Rightarrow> nat \<Rightarrow> bytes" where
  "wire_at env d m fs a k \<equiv> field_wire (message_wire env d) env (fs ! k) (value_of env d m fs a k)"

lemma source_item_at:
  assumes "plain_message env (Suc d) fs n" "k < field_count fs" "0 < p0" "object_ok env (Suc d) m0 fs p0" "i < item_count fs p0 m0 k"
  shows "source_item env d m0 (fs ! k) (item_addr fs p0 k i)"
proof -
  have "if PB_LTYPE (ftype (fs ! k)) = PB_LTYPE_SUBMESSAGE then object_ok env d m0 (fields_at env (ptr (fs ! k))) (item_addr fs p0 k i)
    else leaf_valid (fs ! k) (mload m0 (item_addr fs p0 k i) (data_size (fs ! k)))"
    using assms(2,4,5) unfolding object_ok.simps by blast
  then show ?thesis using item_pos [OF assms(1-3), of i] by (simp add: source_item_def)
qed

lemma length_concat_part: "i < c \<Longrightarrow> length (f i) \<le> length (concat (map f [0..<c]))"
  by (induction c) (auto simp: less_Suc_eq)

lemma array_reads:
  assumes sub: "reads_messages env d m0"
    and p: "plain_message env (Suc d) fs n" "k < field_count fs" "0 < a" "PB_HTYPE (ftype (fs ! k)) = PB_HTYPE_REPEATED"
    and src: "0 < p0" "object_ok env (Suc d) m0 fs p0" "length (wire_at env d m0 fs p0 k) < 2 ^ 32"
    and st: "load_size (ns_mem st) (a + size_off fs k) = 0" "at_tag fs a st (wire_at env d m0 fs p0 k @ r)"
  shows "\<exists>st'. field_read env d fs a k (wire_at env d m0 fs p0 k) st st' \<and> value_of env d (ns_mem st') fs a k = value_of env d m0 fs p0 k
    \<and> fields_seen st' = fields_seen st"
proof -
  let ?f = "fs ! k" and ?c = "item_count fs p0 m0 k" and ?p = "item_addr fs p0 k"
  let ?wire = "\<lambda>i. wire_of env d m0 ?f (?p i)" and ?x = "\<lambda>i. item_of env d m0 ?f (?p i)"
  have cb: "?c \<le> array_size ?f" "?c < 2 ^ 32"
    using p(4) unat_width_32 [of "load_size m0 (p0 + size_off fs k)"] by (auto simp: item_count_def Let_def min_less_iff_disj)
  have items: "source_items env d m0 ?f ?p ?c" if "\<And>i. i < ?c \<Longrightarrow> length (?wire i) < 2 ^ 32"
    using cb that source_item_at [OF p(1,2) src(1,2)] by (simp add: source_items_def)
  have "\<exists>st'. field_read env d fs a k (wire_at env d m0 fs p0 k) st st' \<and> filled env d fs a k ?x ?c (ns_mem st')
    \<and> load_size (ns_mem st') (a + size_off fs k) = of_nat ?c \<and> fields_seen st' = fields_seen st"
  proof (cases "PB_LTYPE (ftype ?f) \<le> PB_LTYPE_LAST_PACKABLE")
    case pk: True
    let ?out = "concat (map ?wire [0..<?c])"
    show ?thesis
    proof (cases "?c = 0")
      case True
      then have "wire_at env d m0 fs p0 k = []" by (simp add: field_wire_def field_value_def)
      then show ?thesis using True st field_read_refl [of fs a st env d k] by (intro exI [of _ st]) (simp add: at_tag_def filled_def)
    next
      case False
      then have w: "wire_at env d m0 fs p0 k = tag_bytes ?f PB_WT_STRING @ string_bytes ?out"
        using pk p(4) by (simp add: field_wire_def packed_field_def field_value_def comp_def)
      have l: "length ?out < 2 ^ 32" using src(3) unfolding w by (simp add: string_bytes_def)
      have "source_items env d m0 ?f ?p ?c" using l length_concat_part [of _ ?c ?wire] by (intro items) (meson le_less_trans)
      from packed_reads [OF sub p pk this l st(2) [unfolded w] st(1)] show ?thesis unfolding w .
    qed
  next
    case pk: False
    let ?out = "\<lambda>i. tag_bytes ?f (wire_type_of ?f) @ ?wire i"
    have w: "wire_at env d m0 fs p0 k = concat (map ?out [0..<?c])"
      using pk by (simp add: field_wire_def packed_field_def field_value_def comp_def)
    have "length (?wire i) < 2 ^ 32" if "i < ?c" for i
      using length_concat_part [OF that, of ?out] src(3) unfolding w by simp
    then have "source_items env d m0 ?f ?p ?c" by (rule items)
    from unpacked_reads [OF sub p pk this, of 0 st r] st show ?thesis unfolding w by (simp add: filled_def)
  qed
  then obtain st' where st': "field_read env d fs a k (wire_at env d m0 fs p0 k) st st'" "filled env d fs a k ?x ?c (ns_mem st')"
    "load_size (ns_mem st') (a + size_off fs k) = of_nat ?c" "fields_seen st' = fields_seen st" by blast
  have "item_count fs a (ns_mem st') k = ?c" using p(4) st'(3) cb of_nat_32 [OF cb(2)] by (simp add: item_count_def [of fs a] Let_def min_absorb1)
  then have "value_of env d (ns_mem st') fs a k = value_of env d m0 fs p0 k" using st'(2) by (simp add: field_value_def filled_def)
  then show ?thesis using st' by blast
qed

lemma field_reads:
  assumes sub: "reads_messages env d m0"
    and p: "plain_message env (Suc d) fs n" "k < field_count fs" "0 < a"
    and src: "0 < p0" "object_ok env (Suc d) m0 fs p0" "length (wire_at env d m0 fs p0 k) < 2 ^ 32"
    and st: "fresh_field (fresh_object env d (ns_mem st)) env (ns_mem st) fs a k" "at_tag fs a st (wire_at env d m0 fs p0 k @ r)"
  shows "\<exists>st'. field_read env d fs a k (wire_at env d m0 fs p0 k) st st' \<and> value_of env d (ns_mem st') fs a k = value_of env d m0 fs p0 k
    \<and> fields_seen st' = mark_seen (iter_at fs a k) (fields_seen st)"
proof -
  let ?f = "fs ! k"
  note it = plain_iter [OF p]
  have seen: "mark_seen (iter_at fs a k) s = s" if "PB_HTYPE (ftype ?f) \<noteq> PB_HTYPE_REQUIRED" for s
    using that by (simp add: mark_seen_def it(3) Let_def)
  have single: ?thesis if h: "PB_HTYPE (ftype ?f) = PB_HTYPE_REQUIRED \<or> PB_HTYPE (ftype ?f) = PB_HTYPE_OPTIONAL" and c: "item_count fs p0 m0 k = 1"
  proof -
    have w: "wire_at env d m0 fs p0 k = tag_bytes ?f (wire_type_of ?f) @ wire_of env d m0 ?f (item_addr fs p0 k 0)"
      using h c by (auto simp: field_wire_def packed_field_def field_value_def)
    have l: "length (wire_of env d m0 ?f (item_addr fs p0 k 0)) < 2 ^ 32" using src(3) unfolding w by simp
    have s: "source_item env d m0 ?f (item_addr fs p0 k 0)" using source_item_at [OF p(1,2) src(1,2)] c by simp
    have "value_of env d m0 fs p0 k = [item_of env d m0 ?f (item_addr fs p0 k 0)]" using c by (simp add: field_value_def)
    then show ?thesis using single_reads [OF sub p h s l st(1) st(2) [unfolded w]] unfolding w by simp
  qed
  from it(1) show ?thesis
  proof (cases rule: plain_htype)
    case required
    then show ?thesis by (intro single) (simp_all add: item_count_def)
  next
    case optional
    show ?thesis
    proof (cases "item_count fs p0 m0 k = 1")
      case True
      then show ?thesis using optional by (intro single) simp_all
    next
      case False
      then have c: "item_count fs p0 m0 k = 0" using optional(1) by (simp add: item_count_def Let_def split: if_splits)
      then have w: "wire_at env d m0 fs p0 k = []" using optional by (simp add: field_wire_def packed_field_def field_value_def)
      have "item_count fs a (ns_mem st) k = 0" using st(1) optional(1) by (simp add: fresh_field_def item_count_def Let_def)
      then have "value_of env d (ns_mem st) fs a k = value_of env d m0 fs p0 k" using c by (simp add: field_value_def)
      then show ?thesis using field_read_refl [of fs a st env d k] st(2) optional(1) unfolding w
        by (intro exI [of _ st]) (simp add: at_tag_def seen)
    qed
  next
    case repeated
    have "load_size (ns_mem st) (a + size_off fs k) = 0" using st(1) repeated(1) by (simp add: fresh_field_def Let_def)
    from array_reads [OF sub p repeated(1) src this st(2)] show ?thesis using repeated(1) by (simp add: seen)
  qed
qed

section \<open>The loop over all fields\<close>

definition fields_read :: "pb_env \<Rightarrow> nat \<Rightarrow> mem \<Rightarrow> pb_field list \<Rightarrow> int \<Rightarrow> int \<Rightarrow> nat \<Rightarrow> mem \<Rightarrow> bool" where
  "fields_read env d m0 fs p0 a k m \<longleftrightarrow>
     (\<forall>j<k. value_of env d m fs a j = value_of env d m0 fs p0 j) \<and>
     (\<forall>j<field_count fs. k \<le> j \<longrightarrow> fresh_field (fresh_object env d m) env m fs a j)"

lemma fields_read_step:
  assumes "plain_message env (Suc d) fs n" "k < field_count fs" "0 < a" "fields_read env d m0 fs p0 a k m"
    and "others_same fs a k m m'" "value_of env d m' fs a k = value_of env d m0 fs p0 k"
  shows "fields_read env d m0 fs p0 a (Suc k) m'"
proof -
  have "value_of env d m' fs a j = value_of env d m0 fs p0 j" if "j < Suc k" for j
  proof (cases "j = k")
    case False
    then have "j < k" using that by simp
    then show ?thesis using others_value [OF assms(1) _ assms(3,5) False] assms(2,4) by (simp add: fields_read_def)
  qed (use assms(6) in simp)
  moreover have "fresh_field (fresh_object env d m') env m' fs a j" if "j < field_count fs" "Suc k \<le> j" for j
    using others_fresh [OF assms(1) that(1) assms(3,5)] assms(4) that by (simp add: fields_read_def)
  ultimately show ?thesis by (simp add: fields_read_def)
qed

lemma loop_reads:
  assumes sub: "reads_messages env d m0"
    and p: "plain_message env (Suc d) fs n" "0 < a"
    and src: "0 < p0" "object_ok env (Suc d) m0 fs p0" "length (concat (map (wire_at env d m0 fs p0) [0..<field_count fs])) < 2 ^ 32"
  shows "k \<le> field_count fs \<Longrightarrow> at_tag fs a st (concat (map (wire_at env d m0 fs p0) [k..<field_count fs]))
    \<Longrightarrow> fields_read env d m0 fs p0 a k (ns_mem st) \<Longrightarrow> fields_seen st = seen_words (required_upto fs k)
    \<Longrightarrow> \<exists>st'. noinit_loop env (nested_at env d) st = Some (True, st')
      \<and> ns_stream st' = advance (length (concat (map (wire_at env d m0 fs p0) [k..<field_count fs]))) (ns_stream st)
      \<and> on_fields fs a (ns_iter st') \<and> fixed_count_field st' = None \<and> fields_read env d m0 fs p0 a (field_count fs) (ns_mem st')
      \<and> fields_seen st' = seen_words (required_upto fs (field_count fs))"
proof (induction "field_count fs - k" arbitrary: k st)
  case 0
  then have k: "k = field_count fs" by simp
  have "bytes_left (ns_stream st) = 0" using 0(3) length_visible [of "ns_stream st"] by (simp add: at_tag_def k)
  then have "noinit_loop env (nested_at env d) st = Some (True, st)" by (subst noinit_loop.simps) simp
  then show ?case using 0 by (simp add: k at_tag_def stream_simps)
next
  case (Suc l)
  have k: "k < field_count fs" and l: "l = field_count fs - Suc k" using Suc.hyps(2) by linarith+
  let ?w = "wire_at env d m0 fs p0" and ?rest = "concat (map (wire_at env d m0 fs p0) [Suc k..<field_count fs])"
  have split: "concat (map ?w [k..<field_count fs]) = ?w k @ ?rest" using k by (simp add: upt_conv_Cons)
  have len: "length (?w k) < 2 ^ 32" using length_concat_part [OF k, of ?w] src(3) by linarith
  have "fresh_field (fresh_object env d (ns_mem st)) env (ns_mem st) fs a k" using Suc.prems(3) k by (simp add: fields_read_def)
  then obtain st1 where st1: "field_read env d fs a k (?w k) st st1" "value_of env d (ns_mem st1) fs a k = value_of env d m0 fs p0 k"
    "fields_seen st1 = mark_seen (iter_at fs a k) (fields_seen st)"
    using field_reads [OF sub p(1) k p(2) src(1,2) len _ Suc.prems(2) [unfolded split]] by blast
  have o: "others_same fs a k (ns_mem st) (ns_mem st1)" using st1(1) by (simp add: field_read_def)
  have "fields_seen st1 = seen_words (required_upto fs (Suc k))" unfolding st1(3) Suc.prems(4) by (rule mark_field [OF p(1) k p(2)])
  then obtain st' where st': "noinit_loop env (nested_at env d) st1 = Some (True, st')" "ns_stream st' = advance (length ?rest) (ns_stream st1)"
    "on_fields fs a (ns_iter st')" "fixed_count_field st' = None" "fields_read env d m0 fs p0 a (field_count fs) (ns_mem st')"
    "fields_seen st' = seen_words (required_upto fs (field_count fs))"
    using Suc.hyps(1) [OF l _ field_read_at [OF st1(1) Suc.prems(2) [unfolded split]] fields_read_step [OF p(1) k p(2) Suc.prems(3) o st1(2)]] k
    by auto
  then show ?case using st1(1) unfolding split by (auto simp: field_read_def advance_advance)
qed

lemma reads_all: "reads_messages env d m0"
proof (induction d)
  case 0
  show ?case by (simp add: reads_messages_def)
next
  case (Suc d)
  show ?case
    unfolding reads_messages_def
  proof (intro allI impI)
    fix fs n a p0 s m
    assume p: "plain_message env (Suc d) fs n" "0 < a" and src: "0 < p0" "object_ok env (Suc d) m0 fs p0"
      and s: "wf_istream s" "visible s = message_wire env (Suc d) fs (message_value env (Suc d) m0 fs p0)" "length (visible s) < 2 ^ 32"
      and fresh: "fresh_object env (Suc d) m fs a"
    let ?out = "concat (map (wire_at env d m0 fs p0) [0..<field_count fs])"
    have c: "0 < field_count fs" using plain_static [OF p(1)] by simp
    have out: "visible s = ?out" unfolding s(2) by (auto intro!: arg_cong [where f = concat])
    let ?st = "\<lparr>ns_stream = s, ns_iter = snd (pb_field_iter_begin fs a), ns_mem = m, fields_seen = [0, 0],
          extension_range_start = 0, fixed_count_field = None, fixed_count_size = 0\<rparr>"
    have at: "at_tag fs a ?st ?out" using s(1) out on_fieldsI [OF c, of a] by (simp add: at_tag_def iter_at_0)
    have fr: "fields_read env d m0 fs p0 a 0 (ns_mem ?st)" using fresh by (simp add: fields_read_def)
    have seen: "fields_seen ?st = seen_words (required_upto fs 0)" by (simp add: seen_words_def)
    obtain st' where st': "noinit_loop env (nested_at env d) ?st = Some (True, st')" "ns_stream st' = advance (length ?out) s"
      "on_fields fs a (ns_iter st')" "fixed_count_field st' = None" "fields_read env d m0 fs p0 a (field_count fs) (ns_mem st')"
      "fields_seen st' = seen_words (required_upto fs (field_count fs))"
      using loop_reads [OF Suc.IH p src s(3) [unfolded out] _ at fr seen] by auto
    obtain k where k: "k < field_count fs" "ns_iter st' = iter_at fs a k" using st'(3) by (auto simp: on_fields_def)
    have "noinit_finish st' = Some (True, ns_stream st', ns_mem st')"
      using st'(4,6) required_count_at [OF p k(1)] all_required_seen by (simp add: noinit_finish_def fixed_incomplete_def k(2))
    then have "pb_decode_noinit env (Suc d) s fs a m = Some (True, advance (length (visible s)) s, ns_mem st')"
      using st'(1,2) out by (simp add: decode_noinit_with_def)
    moreover have "message_value env (Suc d) (ns_mem st') fs a = message_value env (Suc d) m0 fs p0"
      using st'(5) by (simp add: fields_read_def)
    ultimately show "\<exists>m'. pb_decode_noinit env (Suc d) s fs a m = Some (True, advance (length (visible s)) s, m')
      \<and> message_value env (Suc d) m' fs a = message_value env (Suc d) m0 fs p0" by blast
  qed
qed

end
