(* ===== verification/PbMsgProps.thy ===== *)
theory PbMsgProps
  imports PbTrip
begin

text \<open>The properties of messages of nanopb, and what a fixed-size array of small items does to its neighbours.\<close>

definition no_platform :: pb_env where
  "no_platform =
     \<lparr>plat_realloc = \<lambda>m p n. (0, m), plat_free = \<lambda>m p. m, fields_at = \<lambda>p. [], decode_fn = \<lambda>fn s f a m. (False, s, m),
      encode_fn = \<lambda>fn s f a m. (False, s), ext_decode_fn = \<lambda>fn s ext t w m. (False, s, m), ext_encode_fn = \<lambda>fn s ext m. (False, s)\<rparr>"

text \<open>C6. Memory safety of decoding: whatever bytes come in, \<open>pb_decode\<close> of a message without pointers returns, and writes no byte
  outside the structure. The description of the structure has to be right: it has fields, and those of every nested message, of static kind only; every
  field lies inside the structure, with room for its type; so does the flag of every optional field; and for every repeated field and member of a
  union there are four bytes inside the structure at \<open>pSize\<close>, which is the counter, or, for an array of a fixed size, the array itself.
  The last condition is needed: a fixed array of less than four bytes at the end is overrun (\<open>fixed_array_overrun\<close>).\<close>

theorem decode_stays_inside:
  assumes "static_message env d fs n" "0 < a"
  shows "\<exists>ok s' m'. pb_decode env d s fs a m = Some (ok, s', m') \<and> (\<forall>x. x < a \<or> a + int n \<le> x \<longrightarrow> m' x = m x)"
  using decode_confined [OF assms, of s m] by (auto simp: confined_def same_outside_def)

text \<open>A required \<open>int32\<close> and up to two \<open>bool\<close>s with their counter, in ten bytes.\<close>

definition two_fields :: "pb_field list" where
  "two_fields =
     [\<lparr>tag = 1, ftype = 1, data_offset = 0, size_offset = 0, data_size = 4, array_size = 0, ptr = 0\<rparr>,
      \<lparr>tag = 2, ftype = 0x20, data_offset = 4, size_offset = - 4, data_size = 1, array_size = 2, ptr = 0\<rparr>,
      \<lparr>tag = 0, ftype = 0, data_offset = 0, size_offset = 0, data_size = 0, array_size = 0, ptr = 0\<rparr>]"

lemma two_fields_static: "static_message no_platform (Suc 0) two_fields 10"
proof -
  have "static_field (static_message no_platform 0) no_platform two_fields 10 k" if "k < 2" for k
  proof -
    have "k = 0 \<or> k = 1" using that by auto
    then show ?thesis
      by (auto simp: static_field_def Let_def two_fields_def PB_ATYPE_def PB_LTYPE_def PB_HTYPE_def scalar_room_def field_extent_def in_union_def)
  qed
  then show ?thesis by (simp add: wf_fields_def two_fields_def numeral_2_eq_2)
qed

lemma decode_stays_inside_witness:
  "\<exists>m'. map_option (\<lambda>(ok, s, m). m) (pb_decode no_platform (Suc 0) (pb_istream_from_buffer [18, 3, 1, 1, 1] 5) two_fields 100 (\<lambda>_. 7)) = Some m'
     \<and> m' 110 = 7 \<and> m' 99 = 7"
proof -
  obtain ok s' m' where "pb_decode no_platform (Suc 0) (pb_istream_from_buffer [18, 3, 1, 1, 1] 5) two_fields 100 (\<lambda>_. 7) = Some (ok, s', m')"
    "\<forall>x. x < 100 \<or> 100 + int 10 \<le> x \<longrightarrow> m' x = 7"
    using decode_stays_inside [OF two_fields_static, of 100 "pb_istream_from_buffer [18, 3, 1, 1, 1] 5" "\<lambda>_. 7"] by auto
  then show ?thesis by (intro exI [of _ m']) simp
qed

section \<open>Encoding and decoding\<close>

declare message_value.simps [simp del] message_wire.simps [simp del] pb_encode.simps [simp del] pb_decode_noinit.simps [simp del]

lemma encodes_to_buffer:
  "encodes_to g out \<Longrightarrow> length out \<le> cap \<Longrightarrow> cap < SIZE_MOD \<Longrightarrow>
     \<exists>s. g (pb_ostream_from_buffer cap) = Some (True, s) \<and> sink s = Some out"
  using encodes_toD [of g out "pb_ostream_from_buffer cap"] by (simp add: pb_ostream_from_buffer_def room_def)

text \<open>C17. What a message is on the wire: for a structure of fields that are required, optional with a flag or repeated with a
  counter, with nested messages of the same kind, \<open>pb_encode\<close> writes exactly the wire format of the value of the
  structure if the buffer can hold it, and \<open>pb_get_encoded_size\<close> gives its length.\<close>

theorem encode_writes_value:
  assumes "plain_message env d fs n" "object_ok env d m fs a" "0 < a" "cap < SIZE_MOD"
    and "length (message_wire env d fs (message_value env d m fs a)) \<le> cap"
  shows "\<exists>s. pb_encode env d m (pb_ostream_from_buffer cap) fs a = Some (True, s)
    \<and> sink s = Some (message_wire env d fs (message_value env d m fs a))
    \<and> pb_get_encoded_size env d m fs a = Some (Some (length (message_wire env d fs (message_value env d m fs a))))"
  using sizing_stream [OF encodes_message [OF assms(1-3)]] encodes_to_buffer [OF encodes_message [OF assms(1-3)]] assms(4,5)
  by (simp add: pb_get_encoded_size_def)

lemma two_fields_cells: "cells two_fields 0 = [(0, 4)]" "cells two_fields 1 = [(8, 2), (4, 4)]"
  by code_simp+

lemma two_fields_at: "two_fields ! 0 = \<lparr>tag = 1, ftype = 1, data_offset = 0, size_offset = 0, data_size = 4, array_size = 0, ptr = 0\<rparr>"
  "two_fields ! 1 = \<lparr>tag = 2, ftype = 0x20, data_offset = 4, size_offset = - 4, data_size = 1, array_size = 2, ptr = 0\<rparr>"
  by (simp_all add: two_fields_def)

lemma two_fields_plain: "plain_message no_platform (Suc 0) two_fields 10"
proof -
  have p: "plain_field (plain_message no_platform 0) no_platform two_fields 0" "plain_field (plain_message no_platform 0) no_platform two_fields 1"
    unfolding plain_field_def Let_def two_fields_cells two_fields_at
    by (simp_all add: leaf_field_def PB_ATYPE_def PB_LTYPE_def PB_HTYPE_def Let_def two_fields_cells [unfolded One_nat_def] apart_def)
  have "\<forall>k<2. plain_field (plain_message no_platform 0) no_platform two_fields k"
    unfolding less_2_cases_iff using p [unfolded One_nat_def] by blast
  moreover have "field_count two_fields = 2" "distinct (map tag (butlast two_fields))" by (simp_all add: two_fields_def)
  ultimately show ?thesis using two_fields_static by (simp del: static_message.simps)
qed

text \<open>The number 5 and two \<open>bool\<close>s.\<close>

definition some_fields :: mem where
  "some_fields = mstore (\<lambda>_. 0) 100 [5, 0, 0, 0, 2, 0, 0, 0, 1, 1]"

lemma some_fields_value:
  "message_value no_platform (Suc 0) some_fields two_fields 100 = [[Obj [5, 0, 0, 0]], [Obj [1], Obj [1]]]"
  "message_wire no_platform (Suc 0) two_fields (message_value no_platform (Suc 0) some_fields two_fields 100) = [8, 5, 18, 2, 1, 1]"
  by code_simp+

lemmas some_fields_wire = some_fields_value(2)

lemma some_fields_ok: "object_ok no_platform (Suc 0) some_fields two_fields 100"
proof -
  have c: "item_count two_fields 100 some_fields 0 = 1" "item_count two_fields 100 some_fields 1 = 2"
    "unat (load_size some_fields (100 + size_off two_fields 1)) = 2" by code_simp+
  have "leaf_valid (two_fields ! 0) (mload some_fields (item_addr two_fields 100 0 i) (data_size (two_fields ! 0)))"
    "leaf_valid (two_fields ! 1) (mload some_fields (item_addr two_fields 100 1 i) (data_size (two_fields ! 1)))" for i
    unfolding two_fields_at by (simp_all add: leaf_valid_def leaf_field_def PB_ATYPE_def PB_LTYPE_def Let_def)
  note leaf = this
  have "(PB_HTYPE (ftype (two_fields ! k)) = PB_HTYPE_REPEATED \<longrightarrow> unat (load_size some_fields (100 + size_off two_fields k)) \<le> array_size (two_fields ! k)) \<and>
      PB_LTYPE (ftype (two_fields ! k)) \<noteq> PB_LTYPE_SUBMESSAGE \<and>
      (\<forall>i. leaf_valid (two_fields ! k) (mload some_fields (item_addr two_fields 100 k i) (data_size (two_fields ! k))))" if "k < 2" for k
  proof -
    have "k = 0 \<or> k = 1" using that by auto
    then show ?thesis
    proof
      assume "k = 0"
      then show ?thesis using leaf(1) by (simp add: two_fields_at PB_HTYPE_def PB_LTYPE_def)
    next
      assume k: "k = 1"
      show ?thesis unfolding k using leaf(2) c(3) by (simp add: two_fields_at(2) [unfolded One_nat_def] PB_HTYPE_def PB_LTYPE_def del: size_off.simps)
    qed
  qed
  moreover have "field_count two_fields = 2" by (simp add: two_fields_def)
  ultimately show ?thesis by simp
qed

lemma encode_writes_value_witness:
  "\<exists>s. pb_encode no_platform (Suc 0) some_fields (pb_ostream_from_buffer 6) two_fields 100 = Some (True, s) \<and> sink s = Some [8, 5, 18, 2, 1, 1]"
  using encode_writes_value [OF two_fields_plain some_fields_ok, of 6, unfolded some_fields_wire] by auto

text \<open>C2. Messages come back: what \<open>pb_encode\<close> wrote for such a structure, \<open>pb_decode\<close> accepts, and the structure it fills
  has the same value, wherever it is and whatever was in its memory.\<close>

theorem message_round_trip:
  assumes "plain_message env d fs n" "object_ok env d m fs a" "0 < a" "0 < b" "cap < 2 ^ 32"
    and "length (message_wire env d fs (message_value env d m fs a)) \<le> cap"
  shows "\<exists>s bs s' m'. pb_encode env d m (pb_ostream_from_buffer cap) fs a = Some (True, s) \<and> sink s = Some bs
    \<and> pb_decode env d (pb_istream_from_buffer bs (length bs)) fs b m0 = Some (True, s', m')
    \<and> message_value env d m' fs b = message_value env d m fs a"
proof -
  let ?w = "message_wire env d fs (message_value env d m fs a)"
  obtain s where s: "pb_encode env d m (pb_ostream_from_buffer cap) fs a = Some (True, s)" "sink s = Some ?w"
    using encodes_to_buffer [OF encodes_message [OF assms(1-3)] assms(6)] assms(5) by auto
  have "length (visible (pb_istream_from_buffer ?w (length ?w))) < 2 ^ 32" using assms(5,6) unfolding from_buffer by linarith
  from reads_with_defaults [OF reads_all assms(1,4,3,2) from_buffer this, of m0] s show ?thesis by (auto simp: pb_decode_def)
qed

lemma message_round_trip_witness:
  "\<exists>s' m'. pb_decode no_platform (Suc 0) (pb_istream_from_buffer [8, 5, 18, 2, 1, 1] 6) two_fields 500 (\<lambda>_. 7) = Some (True, s', m')
     \<and> message_value no_platform (Suc 0) m' two_fields 500 = [[Obj [5, 0, 0, 0]], [Obj [1], Obj [1]]]"
proof -
  obtain s bs s' m' where s: "pb_encode no_platform (Suc 0) some_fields (pb_ostream_from_buffer 6) two_fields 100 = Some (True, s)" "sink s = Some bs"
    and d: "pb_decode no_platform (Suc 0) (pb_istream_from_buffer bs (length bs)) two_fields 500 (\<lambda>_. 7) = Some (True, s', m')"
      "message_value no_platform (Suc 0) m' two_fields 500 = message_value no_platform (Suc 0) some_fields two_fields 100"
    using message_round_trip [OF two_fields_plain some_fields_ok, of 500 6 "\<lambda>_. 7", unfolded some_fields_wire] by auto
  have "bs = [8, 5, 18, 2, 1, 1]"
    using encodes_to_buffer [OF encodes_message [OF two_fields_plain some_fields_ok], of 6, unfolded some_fields_wire] s by auto
  then show ?thesis using d by (intro exI [of _ s'] exI [of _ m']) (simp add: some_fields_value eval_nat_numeral)
qed

text \<open>C18. Messages in a row: \<open>pb_encode_delimited\<close> puts the length first, and \<open>pb_decode_delimited\<close> reads one such message off a
  stream that goes on behind it and leaves the rest.\<close>

theorem delimited_round_trip:
  assumes "plain_message env d fs n" "object_ok env d m fs a" "0 < a" "0 < b" "cap < 2 ^ 32"
    and "length (string_bytes (message_wire env d fs (message_value env d m fs a))) \<le> cap"
  shows "\<exists>s bs. pb_encode_delimited env d m (pb_ostream_from_buffer cap) fs a = Some (True, s) \<and> sink s = Some bs
    \<and> (\<forall>r m0. \<exists>s' m'. pb_decode_delimited env d (pb_istream_from_buffer (bs @ r) (length (bs @ r))) fs b m0 = Some (True, s', m')
         \<and> visible s' = r \<and> message_value env d m' fs b = message_value env d m fs a)"
proof -
  let ?w = "message_wire env d fs (message_value env d m fs a)"
  obtain s where s: "pb_encode_delimited env d m (pb_ostream_from_buffer cap) fs a = Some (True, s)" "sink s = Some (string_bytes ?w)"
    using encodes_to_buffer [OF encodes_submessage [of "pb_encode env d m" fs a, OF encodes_message [OF assms(1-3)]] assms(6)] assms(5)
    by (auto simp: pb_encode_delimited_def pb_encode_submessage_def)
  have l: "length ?w < 2 ^ 32" using assms(5,6) by (simp add: string_bytes_def)
  have "\<exists>s' m'. pb_decode_delimited env d (pb_istream_from_buffer (string_bytes ?w @ r) (length (string_bytes ?w @ r))) fs b m0 = Some (True, s', m')
         \<and> visible s' = r \<and> message_value env d m' fs b = message_value env d m fs a" for r m0
  proof -
    let ?s = "pb_istream_from_buffer (string_bytes ?w @ r) (length (string_bytes ?w @ r))"
    obtain sb s1 where sb: "pb_make_string_substream ?s = (Some sb, s1)" "wf_istream sb" "visible sb = ?w"
      "\<And>j. j \<le> length ?w \<Longrightarrow> pb_close_string_substream s1 (advance j sb) = (True, advance (length (string_bytes ?w)) ?s)"
      using make_substream [OF from_buffer l] by metis
    obtain m' where "pb_decode env d sb fs b m0 = Some (True, advance (length ?w) sb, m')" "message_value env d m' fs b = message_value env d m fs a"
      using reads_with_defaults [OF reads_all assms(1,4,3,2) sb(2,3), of m0] l sb(3) by (auto simp: pb_decode_def)
    moreover have "visible (advance (length (string_bytes ?w)) ?s) = r" by (simp only: visible_advance from_buffer) simp
    ultimately show ?thesis using sb(1) sb(4) [of "length ?w"] by (simp add: pb_decode_delimited_def)
  qed
  then show ?thesis using s by blast
qed

lemma delimited_round_trip_witness:
  "\<exists>s' m'. pb_decode_delimited no_platform (Suc 0) (pb_istream_from_buffer [6, 8, 5, 18, 2, 1, 1, 77] 8) two_fields 500 (\<lambda>_. 7) = Some (True, s', m')
     \<and> visible s' = [77] \<and> message_value no_platform (Suc 0) m' two_fields 500 = [[Obj [5, 0, 0, 0]], [Obj [1], Obj [1]]]"
proof -
  have w: "string_bytes (message_wire no_platform (Suc 0) two_fields (message_value no_platform (Suc 0) some_fields two_fields 100)) = [6, 8, 5, 18, 2, 1, 1]"
    unfolding some_fields_wire by (simp add: string_bytes_def varint_bytes.simps)
  obtain s bs where "pb_encode_delimited no_platform (Suc 0) some_fields (pb_ostream_from_buffer 7) two_fields 100 = Some (True, s)" "sink s = Some bs"
    and d: "\<forall>r m0. \<exists>s' m'. pb_decode_delimited no_platform (Suc 0) (pb_istream_from_buffer (bs @ r) (length (bs @ r))) two_fields 500 m0 = Some (True, s', m')
         \<and> visible s' = r \<and> message_value no_platform (Suc 0) m' two_fields 500 = message_value no_platform (Suc 0) some_fields two_fields 100"
    using delimited_round_trip [OF two_fields_plain some_fields_ok, of 500 7] by (auto simp: w)
  moreover have "\<exists>s. pb_encode_delimited no_platform (Suc 0) some_fields (pb_ostream_from_buffer 7) two_fields 100 = Some (True, s)
      \<and> sink s = Some [6, 8, 5, 18, 2, 1, 1]"
    using encodes_to_buffer [OF encodes_submessage [of "pb_encode no_platform (Suc 0) some_fields" two_fields 100, OF encodes_message [OF two_fields_plain some_fields_ok]], of 7]
    by (simp add: w pb_encode_delimited_def pb_encode_submessage_def)
  ultimately have "bs = [6, 8, 5, 18, 2, 1, 1]" by auto
  then show ?thesis using spec [OF spec [OF d, of "[77]"], of "\<lambda>_. 7"] by (simp add: some_fields_value eval_nat_numeral)
qed

text \<open>For an array of a fixed size \<open>pSize\<close> is \<open>pData\<close>, and the default of an array is a zero counter: four bytes are written
  to the array, past its end if it is shorter.\<close>

lemma fixed_array_overrun:
  fixes env :: pb_env
  defines "f \<equiv> \<lparr>tag = 1, ftype = 0x20, data_offset = 0, size_offset = 0, data_size = 1, array_size = 1, ptr = 0\<rparr>"
    and "last_field \<equiv> \<lparr>tag = 0, ftype = 0, data_offset = 0, size_offset = 0, data_size = 0, array_size = 0, ptr = 0\<rparr>"
  shows "field_extent f = 1 \<and> pb_message_set_to_defaults env (Suc 0) [f, last_field] 100 m = Some (mstore m 100 [0, 0, 0, 0])"
proof -
  have "le_bytes 4 0 = [0, 0, 0, 0]" by (simp add: le_bytes_def eval_nat_numeral)
  then show ?thesis
    by (simp add: pb_message_set_to_defaults_def message_defaults_def pb_field_iter_begin_def Let_def f_def last_field_def
        each_field.simps [where it = "\<lparr>start = _, pos = _, required_field_index = _, dest_struct = _, pData = _, pSize = _\<rparr>"]
        pb_field_iter_next_def PB_ATYPE_def PB_LTYPE_def PB_HTYPE_def field_extent_def store_size_def)
qed

end
