(* ===== verification/UvHeap.thy ===== *)
theory UvHeap
  imports Prelude
begin

text \<open>
  \<open>libuv/src/heap-inl.h\<close>: a binary min heap of linked nodes, the queue of the timers. Nodes are named by
  their addresses, a NULL pointer is \<open>None\<close>, and \<open>nodes\<close> is the part of the memory that holds them. A pointer
  to a pointer, which the code uses to find where to link a node, is a \<open>slot\<close>. An operation whose loops follow
  the links returns \<open>None\<close> if it dereferences NULL or does not return.
\<close>

section \<open>Nodes and slots\<close>

record heap_node =
  left :: "nat option"
  right :: "nat option"
  parent :: "nat option"

record heap =
  hmin :: "nat option"
  nelts :: nat
  nodes :: "nat \<Rightarrow> heap_node"

definition set_left :: "nat \<Rightarrow> nat option \<Rightarrow> heap \<Rightarrow> heap" where
  "set_left a x h = h\<lparr>nodes := (nodes h)(a := (nodes h a)\<lparr>left := x\<rparr>)\<rparr>"

definition set_right :: "nat \<Rightarrow> nat option \<Rightarrow> heap \<Rightarrow> heap" where
  "set_right a x h = h\<lparr>nodes := (nodes h)(a := (nodes h a)\<lparr>right := x\<rparr>)\<rparr>"

definition set_parent :: "nat \<Rightarrow> nat option \<Rightarrow> heap \<Rightarrow> heap" where
  "set_parent a x h = h\<lparr>nodes := (nodes h)(a := (nodes h a)\<lparr>parent := x\<rparr>)\<rparr>"

text \<open>The writes guarded by a test for NULL.\<close>

definition adopt :: "nat option \<Rightarrow> nat \<Rightarrow> heap \<Rightarrow> heap" where
  "adopt x p h = (case x of None \<Rightarrow> h | Some a \<Rightarrow> set_parent a (Some p) h)"

text \<open>Linking a node where its parent \<open>g\<close>, or the heap itself, links \<open>old\<close>.\<close>

definition relink :: "nat option \<Rightarrow> nat \<Rightarrow> nat \<Rightarrow> heap \<Rightarrow> heap" where
  "relink g old new h =
     (case g of
        None \<Rightarrow> h\<lparr>hmin := Some new\<rparr>
      | Some g \<Rightarrow> if left (nodes h g) = Some old then set_left g (Some new) h else set_right g (Some new) h)"

datatype slot = MinOf | LeftOf nat | RightOf nat

fun deref :: "heap \<Rightarrow> slot \<Rightarrow> nat option" where
  "deref h MinOf = hmin h"
| "deref h (LeftOf a) = left (nodes h a)"
| "deref h (RightOf a) = right (nodes h a)"

fun assign :: "slot \<Rightarrow> nat option \<Rightarrow> heap \<Rightarrow> heap" where
  "assign MinOf x h = h\<lparr>hmin := x\<rparr>"
| "assign (LeftOf a) x h = set_left a x h"
| "assign (RightOf a) x h = set_right a x h"

section \<open>Operations\<close>

definition heap_init :: "heap \<Rightarrow> heap" where
  "heap_init h = h\<lparr>hmin := None, nelts := 0\<rparr>"

definition heap_min :: "heap \<Rightarrow> nat option" where
  "heap_min h = hmin h"

definition heap_node_swap :: "heap \<Rightarrow> nat \<Rightarrow> nat \<Rightarrow> heap" where
  "heap_node_swap h par child =
     (let t = nodes h par;
          h = h\<lparr>nodes := (nodes h)(par := nodes h child)\<rparr>;
          h = h\<lparr>nodes := (nodes h)(child := t)\<rparr>;
          h = set_parent par (Some child) h;
          at_left = (left (nodes h child) = Some child);
          h = (if at_left then set_left child (Some par) h else set_right child (Some par) h);
          sibling = (if at_left then right (nodes h child) else left (nodes h child));
          h = adopt sibling child h;
          h = adopt (left (nodes h par)) par h;
          h = adopt (right (nodes h par)) par h
      in relink (parent (nodes h child)) par child h)"

text \<open>The loop that computes the path to the \<open>n\<close>th node, and the loop that follows it.\<close>

fun path_loop :: "nat \<Rightarrow> nat \<Rightarrow> nat \<Rightarrow> nat \<times> nat" where
  "path_loop n path k = (if 2 \<le> n then path_loop (n div 2) (push_bit 1 path OR (n AND 1)) (k + 1) else (path, k))"

declare path_loop.simps [simp del]

fun walk_loop :: "heap \<Rightarrow> slot \<Rightarrow> slot \<Rightarrow> nat \<Rightarrow> nat \<Rightarrow> (slot \<times> slot) option" where
  "walk_loop h par child path 0 = Some (par, child)"
| "walk_loop h par child path (Suc k) =
     (case deref h child of
        None \<Rightarrow> None
      | Some a \<Rightarrow> walk_loop h child (if path AND 1 \<noteq> 0 then RightOf a else LeftOf a) (drop_bit 1 path) k)"

partial_function (option) sift_up :: "(nat \<Rightarrow> nat \<Rightarrow> bool) \<Rightarrow> nat \<Rightarrow> heap \<Rightarrow> heap option" where
  "sift_up lt node h =
     (case parent (nodes h node) of
        None \<Rightarrow> Some h
      | Some p \<Rightarrow> if lt node p then sift_up lt node (heap_node_swap h p node) else Some h)"

definition smaller :: "(nat \<Rightarrow> nat \<Rightarrow> bool) \<Rightarrow> nat option \<Rightarrow> nat \<Rightarrow> nat" where
  "smaller lt x smallest = (case x of None \<Rightarrow> smallest | Some a \<Rightarrow> if lt a smallest then a else smallest)"

definition smallest_of :: "(nat \<Rightarrow> nat \<Rightarrow> bool) \<Rightarrow> heap \<Rightarrow> nat \<Rightarrow> nat" where
  "smallest_of lt h child =
     (let smallest = child;
          smallest = smaller lt (left (nodes h child)) smallest
      in smaller lt (right (nodes h child)) smallest)"

partial_function (option) sift_down :: "(nat \<Rightarrow> nat \<Rightarrow> bool) \<Rightarrow> nat \<Rightarrow> heap \<Rightarrow> heap option" where
  "sift_down lt child h =
     (let smallest = smallest_of lt h child
      in if smallest = child then Some h else sift_down lt child (heap_node_swap h child smallest))"

text \<open>\<open>nelts\<close> and \<open>n\<close> are unsigned ints.\<close>

definition heap_insert :: "(nat \<Rightarrow> nat \<Rightarrow> bool) \<Rightarrow> heap \<Rightarrow> nat \<Rightarrow> heap option" where
  "heap_insert lt h newnode =
     (let h = set_parent newnode None (set_right newnode None (set_left newnode None h));
          (path, k) = path_loop ((1 + nelts h) mod 2 ^ 32) 0 0
      in case walk_loop h MinOf MinOf path k of
           None \<Rightarrow> None
         | Some (par, child) \<Rightarrow>
             (let h = set_parent newnode (deref h par) h;
                  h = assign child (Some newnode) h;
                  h = h\<lparr>nelts := (nelts h + 1) mod 2 ^ 32\<rparr>
              in sift_up lt newnode h))"

text \<open>The part of \<open>heap_remove\<close> that puts a node in the place of another.\<close>

definition replace_node :: "heap \<Rightarrow> nat \<Rightarrow> nat \<Rightarrow> heap" where
  "replace_node h node child =
     (let h = set_left child (left (nodes h node)) h;
          h = set_right child (right (nodes h node)) h;
          h = set_parent child (parent (nodes h node)) h;
          h = adopt (left (nodes h child)) child h;
          h = adopt (right (nodes h child)) child h
      in relink (parent (nodes h node)) node child h)"

definition heap_remove :: "(nat \<Rightarrow> nat \<Rightarrow> bool) \<Rightarrow> heap \<Rightarrow> nat \<Rightarrow> heap option" where
  "heap_remove lt h node =
     (if nelts h = 0 then Some h
      else
        (let (path, k) = path_loop (nelts h) 0 0
         in case walk_loop h MinOf MinOf path k of
              None \<Rightarrow> None
            | Some (_, mx) \<Rightarrow>
                (let h = h\<lparr>nelts := nelts h - 1\<rparr>
                 in case deref h mx of
                      None \<Rightarrow> None
                    | Some child \<Rightarrow>
                        (let h = assign mx None h
                         in if child = node then Some (if Some child = hmin h then h\<lparr>hmin := None\<rparr> else h)
                            else (case sift_down lt child (replace_node h node child) of
                                    None \<Rightarrow> None
                                  | Some h \<Rightarrow> sift_up lt child h)))))"

definition heap_dequeue :: "(nat \<Rightarrow> nat \<Rightarrow> bool) \<Rightarrow> heap \<Rightarrow> heap option" where
  "heap_dequeue lt h = heap_remove lt h (the (hmin h))"

end
