(* ===== verification/UvHeapSpec.thy ===== *)
theory UvHeapSpec
  imports UvHeap
begin

text \<open>
  The linked nodes of \<open>UvHeap\<close> as a complete binary tree: a node at each of the positions 1 to \<open>n\<close>, the
  children of \<open>i\<close> at \<open>2 * i\<close> and \<open>2 * i + 1\<close>. Swapping a node with its child, and putting a node in the place
  of another, rename the nodes and nothing else; insertion and removal keep the tree complete and the heap
  ordered.
\<close>

section \<open>The tree in memory\<close>

definition node_at :: "nat \<Rightarrow> (nat \<Rightarrow> nat) \<Rightarrow> nat \<Rightarrow> nat option" where
  "node_at n P i = (if 1 \<le> i \<and> i \<le> n then Some (P i) else None)"

definition links :: "nat \<Rightarrow> (nat \<Rightarrow> nat) \<Rightarrow> nat \<Rightarrow> heap_node" where
  "links n P i = \<lparr>left = node_at n P (2 * i), right = node_at n P (2 * i + 1), parent = node_at n P (i div 2)\<rparr>"

definition tree_of :: "heap \<Rightarrow> nat \<Rightarrow> (nat \<Rightarrow> nat) \<Rightarrow> bool" where
  "tree_of h n P \<longleftrightarrow> nelts h = n \<and> inj_on P {1..n} \<and> hmin h = node_at n P 1 \<and> (\<forall>i\<in>{1..n}. nodes h (P i) = links n P i)"

lemma node_at_simps [simp]: "1 \<le> i \<Longrightarrow> i \<le> n \<Longrightarrow> node_at n P i = Some (P i)" "node_at n P 0 = None" "n < i \<Longrightarrow> node_at n P i = None"
  by (simp_all add: node_at_def)

lemma node_at_Some: "node_at n P i = Some x \<longleftrightarrow> 1 \<le> i \<and> i \<le> n \<and> P i = x"
  by (auto simp: node_at_def)

lemma node_at_None: "node_at n P i = None \<longleftrightarrow> i = 0 \<or> n < i"
  by (auto simp: node_at_def)

lemma tree_links: "tree_of h n P \<Longrightarrow> 1 \<le> i \<Longrightarrow> i \<le> n \<Longrightarrow>
  left (nodes h (P i)) = node_at n P (2 * i) \<and> right (nodes h (P i)) = node_at n P (2 * i + 1) \<and> parent (nodes h (P i)) = node_at n P (i div 2)"
  by (simp add: tree_of_def links_def)

lemma tree_inj: "tree_of h n P \<Longrightarrow> 1 \<le> i \<Longrightarrow> i \<le> n \<Longrightarrow> 1 \<le> j \<Longrightarrow> j \<le> n \<Longrightarrow> P i = P j \<longleftrightarrow> i = j"
  using inj_on_eq_iff [of P "{1..n}" i j] unfolding tree_of_def by simp

section \<open>Renaming nodes\<close>

definition rename :: "(nat \<Rightarrow> nat) \<Rightarrow> heap_node \<Rightarrow> heap_node" where
  "rename f x = \<lparr>left = map_option f (left x), right = map_option f (right x), parent = map_option f (parent x)\<rparr>"

lemma rename_simps [simp]: "left (rename f x) = map_option f (left x)" "right (rename f x) = map_option f (right x)"
  "parent (rename f x) = map_option f (parent x)"
  by (simp_all add: rename_def)

lemma node_at_rename: "map_option f (node_at n P i) = node_at n (f \<circ> P) i"
  by (simp add: node_at_def)

lemma tree_rename:
  assumes "tree_of h n P" "inj_on f (P ` {1..n})" "nelts h' = n" "hmin h' = map_option f (hmin h)"
    and "\<And>i. 1 \<le> i \<Longrightarrow> i \<le> n \<Longrightarrow> nodes h' (f (P i)) = rename f (nodes h (P i))"
  shows "tree_of h' n (f \<circ> P)"
  using assms by (auto simp: tree_of_def node_at_rename links_def rename_def comp_inj_on)

definition swapped :: "nat \<Rightarrow> nat \<Rightarrow> nat \<Rightarrow> nat" where
  "swapped p c x = (if x = p then c else if x = c then p else x)"

lemma inj_swapped: "inj_on (swapped p c) A"
  by (auto simp: inj_on_def swapped_def)

section \<open>Swapping a node with its child\<close>

lemma set_simps [simp]:
  "left (nodes (set_left a x h) y) = (if y = a then x else left (nodes h y))"
  "right (nodes (set_left a x h) y) = right (nodes h y)" "parent (nodes (set_left a x h) y) = parent (nodes h y)"
  "left (nodes (set_right a x h) y) = left (nodes h y)"
  "right (nodes (set_right a x h) y) = (if y = a then x else right (nodes h y))" "parent (nodes (set_right a x h) y) = parent (nodes h y)"
  "left (nodes (set_parent a x h) y) = left (nodes h y)" "right (nodes (set_parent a x h) y) = right (nodes h y)"
  "parent (nodes (set_parent a x h) y) = (if y = a then x else parent (nodes h y))"
  by (simp_all add: set_left_def set_right_def set_parent_def)

lemma set_frame [simp]:
  "hmin (set_left a x h) = hmin h" "nelts (set_left a x h) = nelts h" "hmin (set_right a x h) = hmin h" "nelts (set_right a x h) = nelts h"
  "hmin (set_parent a x h) = hmin h" "nelts (set_parent a x h) = nelts h"
  by (simp_all add: set_left_def set_right_def set_parent_def)

lemma adopt_simps [simp]:
  "left (nodes (adopt x p h) y) = left (nodes h y)" "right (nodes (adopt x p h) y) = right (nodes h y)"
  "parent (nodes (adopt x p h) y) = (if x = Some y then Some p else parent (nodes h y))"
  "hmin (adopt x p h) = hmin h" "nelts (adopt x p h) = nelts h"
  by (auto simp: adopt_def split: option.splits)

lemma relink_simps [simp]:
  "left (nodes (relink g x z h) y) = (if g = Some y \<and> left (nodes h y) = Some x then Some z else left (nodes h y))"
  "right (nodes (relink g x z h) y) = (if g = Some y \<and> left (nodes h y) \<noteq> Some x then Some z else right (nodes h y))"
  "parent (nodes (relink g x z h) y) = parent (nodes h y)"
  "hmin (relink g x z h) = (if g = None then Some z else hmin h)" "nelts (relink g x z h) = nelts h"
  by (auto simp: relink_def split: option.splits)

lemma set_child_simps [simp]:
  "left (nodes (if b then set_left a x h else set_right a x h) y) = (if b \<and> y = a then x else left (nodes h y))"
  "right (nodes (if b then set_left a x h else set_right a x h) y) = (if \<not> b \<and> y = a then x else right (nodes h y))"
  "parent (nodes (if b then set_left a x h else set_right a x h) y) = parent (nodes h y)"
  "hmin (if b then set_left a x h else set_right a x h) = hmin h" "nelts (if b then set_left a x h else set_right a x h) = nelts h"
  by simp_all

lemma exchange_simps:
  assumes "p \<noteq> c"
  shows "left (nodes (h\<lparr>nodes := ((nodes h)(p := nodes h c))(c := nodes h p)\<rparr>) y) = left (nodes h (swapped p c y))"
    and "right (nodes (h\<lparr>nodes := ((nodes h)(p := nodes h c))(c := nodes h p)\<rparr>) y) = right (nodes h (swapped p c y))"
    and "parent (nodes (h\<lparr>nodes := ((nodes h)(p := nodes h c))(c := nodes h p)\<rparr>) y) = parent (nodes h (swapped p c y))"
  using assms by (auto simp: swapped_def)

lemma node_at_eq: "tree_of h n P \<Longrightarrow> 1 \<le> k \<Longrightarrow> k \<le> n \<Longrightarrow> node_at n P m = Some (P k) \<longleftrightarrow> m = k"
  using tree_inj [of h n P m k] by (auto simp: node_at_Some)

text \<open>The links after the swap, as positions in the tree before it.\<close>

lemma swap_fields:
  assumes t: "tree_of h n P" and j: "2 \<le> j" "j \<le> n" and i: "i = j div 2"
  shows "nelts (heap_node_swap h (P i) (P j)) = n \<and> hmin (heap_node_swap h (P i) (P j)) = node_at n P (if i = 1 then j else 1) \<and>
    (\<forall>k\<in>{1..n}.
      left (nodes (heap_node_swap h (P i) (P j)) (P k)) = node_at n P
        (if k = i then 2 * j else if k = j then (if 2 * i = j then i else 2 * i) else if k = i div 2 \<and> 2 * k = i then j else 2 * k) \<and>
      right (nodes (heap_node_swap h (P i) (P j)) (P k)) = node_at n P
        (if k = i then 2 * j + 1 else if k = j then (if 2 * i = j then 2 * i + 1 else i) else if k = i div 2 \<and> 2 * k \<noteq> i then j else 2 * k + 1) \<and>
      parent (nodes (heap_node_swap h (P i) (P j)) (P k)) = node_at n P
        (if k = 2 * j + 1 \<or> k = 2 * j then i else if k = (if 2 * i = j then 2 * i + 1 else 2 * i) \<or> k = i then j
         else if k = j then i div 2 else k div 2))"
proof -
  have ij: "1 \<le> i" "i \<le> n" "i \<noteq> j" "1 \<le> j" using i j by simp_all
  have d: "j div 2 = i" using i by simp
  have ji: "2 * i = j \<or> 2 * i + 1 = j" using i by presburger
  note E = node_at_eq [OF t] and I = tree_inj [OF t] and L = tree_links [OF t]
  have pc: "P i \<noteq> P j" using I [OF ij(1,2) ij(4) j(2)] ij(3) by simp
  have r: "node_at n P i = Some (P i)" "node_at n P j = Some (P j)" using ij j by simp_all
  let ?h1 = "h\<lparr>nodes := ((nodes h)(P i := nodes h (P j)))(P j := nodes h (P i))\<rparr>"
  obtain h1 where h1: "h1 = set_parent (P i) (Some (P j)) ?h1" by blast
  have f1: "left (nodes h1 (P k)) = node_at n P (if k = i then 2 * j else if k = j then 2 * i else 2 * k)
      \<and> right (nodes h1 (P k)) = node_at n P (if k = i then 2 * j + 1 else if k = j then 2 * i + 1 else 2 * k + 1)
      \<and> parent (nodes h1 (P k)) = node_at n P (if k = i then j else if k = j then i div 2 else k div 2)"
    if k: "1 \<le> k" "k \<le> n" for k
    using I [OF k ij(1,2)] I [OF k ij(4) j(2)] L [OF k] L [OF ij(1,2)] L [OF ij(4) j(2)] r(2) ij(3)
    unfolding h1 set_simps exchange_simps [OF pc] by (auto simp: swapped_def)
  have al: "left (nodes h1 (P j)) = Some (P j) \<longleftrightarrow> 2 * i = j" using f1 [OF ij(4) j(2)] E [OF ij(4) j(2)] ij(3) by simp
  obtain h2 where h2: "h2 = (if 2 * i = j then set_left (P j) (Some (P i)) h1 else set_right (P j) (Some (P i)) h1)" by blast
  have f2: "left (nodes h2 (P k)) = node_at n P (if k = i then 2 * j else if k = j then (if 2 * i = j then i else 2 * i) else 2 * k)
      \<and> right (nodes h2 (P k)) = node_at n P (if k = i then 2 * j + 1 else if k = j then (if 2 * i = j then 2 * i + 1 else i) else 2 * k + 1)
      \<and> parent (nodes h2 (P k)) = node_at n P (if k = i then j else if k = j then i div 2 else k div 2)"
    if k: "1 \<le> k" "k \<le> n" for k
    using I [OF k ij(4) j(2)] f1 [OF k] ij(3) r(1) unfolding h2 set_child_simps by auto
  obtain h3 where h3: "h3 = adopt (node_at n P (if 2 * i = j then 2 * i + 1 else 2 * i)) (P j) h2" by blast
  have sib: "(if 2 * i = j then right (nodes h2 (P j)) else left (nodes h2 (P j))) = node_at n P (if 2 * i = j then 2 * i + 1 else 2 * i)"
    using f2 [OF ij(4) j(2)] ij(3) by simp
  obtain h5 where h5: "h5 = adopt (node_at n P (2 * j + 1)) (P i) (adopt (node_at n P (2 * j)) (P i) h3)" by blast
  have lr: "left (nodes h3 (P i)) = node_at n P (2 * j)" "right (nodes (adopt x y h3) (P i)) = node_at n P (2 * j + 1)" for x y
    using f2 [OF ij(1,2)] unfolding h3 by simp_all
  have f5: "left (nodes h5 (P k)) = left (nodes h2 (P k)) \<and> right (nodes h5 (P k)) = right (nodes h2 (P k))
      \<and> parent (nodes h5 (P k)) = node_at n P (if k = 2 * j + 1 \<or> k = 2 * j then i
          else if k = (if 2 * i = j then 2 * i + 1 else 2 * i) \<or> k = i then j else if k = j then i div 2 else k div 2)"
    if k: "1 \<le> k" "k \<le> n" for k
    using E [OF k] f2 [OF k] r unfolding h5 h3 adopt_simps by auto
  have g: "parent (nodes h5 (P j)) = node_at n P (i div 2)" using f5 [OF ij(4) j(2)] ij ji by auto
  have e1: "set_parent (P i) (Some (P j)) (h\<lparr>nodes := (nodes h)(P i := nodes h (P j)),
      nodes := (nodes (h\<lparr>nodes := (nodes h)(P i := nodes h (P j))\<rparr>))(P j := nodes h (P i))\<rparr>) = h1"
    unfolding h1 by simp
  have sw: "heap_node_swap h (P i) (P j) = relink (node_at n P (i div 2)) (P i) (P j) h5"
    unfolding heap_node_swap_def Let_def e1 al h2 [symmetric] sib h3 [symmetric] lr h5 [symmetric] g ..
  have fr: "nelts h5 = n" "hmin h5 = node_at n P 1"
    using t unfolding h5 h3 h2 h1 tree_of_def by simp_all
  have "left (nodes (heap_node_swap h (P i) (P j)) (P k)) = node_at n P
        (if k = i then 2 * j else if k = j then (if 2 * i = j then i else 2 * i) else if k = i div 2 \<and> 2 * k = i then j else 2 * k) \<and>
      right (nodes (heap_node_swap h (P i) (P j)) (P k)) = node_at n P
        (if k = i then 2 * j + 1 else if k = j then (if 2 * i = j then 2 * i + 1 else i) else if k = i div 2 \<and> 2 * k \<noteq> i then j else 2 * k + 1) \<and>
      parent (nodes (heap_node_swap h (P i) (P j)) (P k)) = node_at n P
        (if k = 2 * j + 1 \<or> k = 2 * j then i else if k = (if 2 * i = j then 2 * i + 1 else 2 * i) \<or> k = i then j
         else if k = j then i div 2 else k div 2)" if k: "1 \<le> k" "k \<le> n" for k
  proof -
    have kk: "\<not> (k = i div 2 \<and> k = i)" "\<not> (k = i div 2 \<and> k = j)" using k ij ji by auto
    have lk: "k = i div 2 \<Longrightarrow> left (nodes h5 (P k)) = Some (P i) \<longleftrightarrow> 2 * k = i"
      using f5 [OF k] f2 [OF k] E [OF ij(1,2)] kk by auto
    show ?thesis
    proof (cases "k = i div 2")
      case True
      then have n: "k \<noteq> i" "k \<noteq> j" using kk by blast+
      show ?thesis
        unfolding sw relink_simps E [OF k] lk [OF True] True [symmetric]
        using f5 [OF k] f2 [OF k] r(2) n by simp
    next
      case False
      then show ?thesis
        unfolding sw relink_simps E [OF k] using f5 [OF k] f2 [OF k] by simp
    qed
  qed
  then show ?thesis unfolding sw relink_simps node_at_None using fr ij r(2) by auto
qed

lemma swap_right_index:
  fixes i j k :: nat
  assumes d: "2 * i = j \<or> 2 * i + 1 = j" and i: "1 \<le> i" and s: "s = (\<lambda>m. if m = i then j else if m = j then i else m)"
  shows "(if s k = i then 2 * j + 1 else if s k = j then (if 2 * i = j then 2 * i + 1 else i)
        else if s k = i div 2 \<and> 2 * s k \<noteq> i then j else 2 * s k + 1) = s (2 * k + 1)"
proof -
  have ij: "i \<noteq> j" using d i by arith
  consider "k = i" | "k = j" | "k \<noteq> i" "k \<noteq> j" by blast
  then show ?thesis
  proof cases
    case 1
    have "2 * i + 1 \<noteq> i" "2 * i = j \<Longrightarrow> 2 * i + 1 \<noteq> j" "2 * i \<noteq> j \<Longrightarrow> 2 * i + 1 = j" using d by arith+
    then show ?thesis using 1 ij unfolding s by presburger
  next
    case 2
    have "2 * j + 1 \<noteq> i" "2 * j + 1 \<noteq> j" using d by arith+
    then show ?thesis using 2 ij unfolding s by presburger
  next
    case 3
    then have k: "s k = k" unfolding s by simp
    have e: "k = i div 2 \<and> 2 * k \<noteq> i \<longleftrightarrow> 2 * k + 1 = i" by presburger
    have n: "2 * k + 1 \<noteq> j" using d 3 by arith
    show ?thesis unfolding k e if_not_P [OF 3(1)] if_not_P [OF 3(2)] using n unfolding s by (simp only: if_False)
  qed
qed
lemma swap_parent_index:
  fixes i j k :: nat
  assumes d: "2 * i = j \<or> 2 * i + 1 = j" and i: "1 \<le> i" and s: "s = (\<lambda>m. if m = i then j else if m = j then i else m)"
  shows "(if s k = 2 * j + 1 \<or> s k = 2 * j then i else if s k = (if 2 * i = j then 2 * i + 1 else 2 * i) \<or> s k = i then j
         else if s k = j then i div 2 else s k div 2) = s (k div 2)"
proof -
  have ij: "i \<noteq> j" using d i by arith
  consider "k = i" | "k = j" | "k \<noteq> i" "k \<noteq> j" by blast
  then show ?thesis
  proof cases
    case 1
    have "j \<noteq> 2 * j" "j \<noteq> 2 * j + 1" "j \<noteq> (if 2 * i = j then 2 * i + 1 else 2 * i)" "i div 2 \<noteq> i" "i div 2 \<noteq> j" using d i by arith+
    then show ?thesis using 1 ij unfolding s by presburger
  next
    case 2
    have "i \<noteq> 2 * j" "i \<noteq> 2 * j + 1" "j div 2 = i" using d i by arith+
    then show ?thesis using 2 ij unfolding s by presburger
  next
    case 3
    then have k: "s k = k" unfolding s by simp
    have c: "k = 2 * j + 1 \<or> k = 2 * j \<longleftrightarrow> k div 2 = j" by presburger
    have e: "k = (if 2 * i = j then 2 * i + 1 else 2 * i) \<longleftrightarrow> k div 2 = i"
    proof -
      have "k div 2 = i \<longleftrightarrow> k = 2 * i \<or> k = 2 * i + 1" by presburger
      then show ?thesis using d 3(2) by argo
    qed
    have "(if m = j then i else if m = i \<or> k = i then j else if k = j then i div 2 else m)
        = (if m = i then j else if m = j then i else m)" for m using 3 ij by argo
    then show ?thesis unfolding k c e unfolding s by (simp only:)
  qed
qed
lemma swap_tree:
  assumes "tree_of h n P" "2 \<le> j" "j \<le> n" "i = j div 2"
  shows "tree_of (heap_node_swap h (P i) (P j)) n (P(i := P j, j := P i))"
proof -
  have ij: "1 \<le> i" "i \<le> n" "i \<noteq> j" "1 \<le> j" using assms by simp_all
  note f = swap_fields [OF assms]
  let ?Q = "P(i := P j, j := P i)"
  have na: "node_at n ?Q m = node_at n P (if m = i then j else if m = j then i else m)" for m
    using ij assms(3) by (auto simp: node_at_def)
  let ?s = "\<lambda>m. if m = i then j else if m = j then i else m"
  have Q: "?Q m = P (?s m)" for m using ij by simp
  have s: "1 \<le> ?s m" "?s m \<le> n" if "1 \<le> m" "m \<le> n" for m using that ij assms(3) by simp_all
  have inj: "inj_on ?Q {1..n}"
  proof (rule inj_onI)
    fix k l
    assume "k \<in> {1..n}" "l \<in> {1..n}" "?Q k = ?Q l"
    then have "?s k = ?s l" using tree_inj [OF assms(1) s s, of k l] unfolding Q by simp
    then show "k = l" by (auto split: if_splits)
  qed
  have "nodes (heap_node_swap h (P i) (P j)) (?Q k) = links n ?Q k" if k: "1 \<le> k" "k \<le> n" for k
  proof -
    have "?s k \<in> {1..n}" using s [OF k] by simp
    note fk = bspec [OF f [THEN conjunct2, THEN conjunct2] this]
    have d: "2 * i = j \<or> 2 * i + 1 = j" using assms(4) by presburger
    have "(if ?s k = i then 2 * j else if ?s k = j then (if 2 * i = j then i else 2 * i) else if ?s k = i div 2 \<and> 2 * ?s k = i then j else 2 * ?s k)
        = ?s (2 * k)"
      using ij d by auto
    then have "left (nodes (heap_node_swap h (P i) (P j)) (?Q k)) = left (links n ?Q k)"
      using fk unfolding Q links_def heap_node.simps na by (simp only:)
    moreover have "(if ?s k = i then 2 * j + 1 else if ?s k = j then (if 2 * i = j then 2 * i + 1 else i)
        else if ?s k = i div 2 \<and> 2 * ?s k \<noteq> i then j else 2 * ?s k + 1) = ?s (2 * k + 1)"
      by (rule swap_right_index [OF d ij(1) refl])
    then have "right (nodes (heap_node_swap h (P i) (P j)) (?Q k)) = right (links n ?Q k)"
      using fk unfolding Q links_def heap_node.simps na by (simp only:)
    moreover have "parent (nodes (heap_node_swap h (P i) (P j)) (?Q k)) = parent (links n ?Q k)"
      using fk swap_parent_index [OF d ij(1) refl, of k] unfolding Q links_def heap_node.simps na by (simp only:)
    ultimately show ?thesis by simp
  qed
  moreover have "hmin (heap_node_swap h (P i) (P j)) = node_at n ?Q 1"
    using f assms(2) unfolding na by (cases "i = 1") (simp_all del: One_nat_def)
  moreover have "nelts (heap_node_swap h (P i) (P j)) = n" using f by blast
  ultimately show ?thesis using inj unfolding tree_of_def Ball_def atLeastAtMost_iff by blast
qed

section \<open>Putting a node in the place of another\<close>

lemma replace_tree:
  assumes t: "tree_of h n P" and i: "1 \<le> i" "i \<le> n" and c: "c \<notin> P ` {1..n}"
  shows "tree_of (replace_node h (P i) c) n (P(i := c))"
proof -
  let ?Q = "P(i := c)" and ?h = "replace_node h (P i) c"
  note E = node_at_eq [OF t] and I = tree_inj [OF t] and L = tree_links [OF t]
  have cn: "c \<noteq> P k" if "1 \<le> k" "k \<le> n" for k using c that by auto
  have nc: "node_at n P m \<noteq> Some c" for m using cn by (auto simp: node_at_Some)
  have na: "node_at n ?Q m = (if m = i then Some c else node_at n P m)" for m using i by (auto simp: node_at_def)
  have ne: "i \<noteq> 2 * i" "i \<noteq> 2 * i + 1" "i \<noteq> i div 2" using i by arith+
  let ?h3 = "set_parent c (parent (nodes (set_right c (right (nodes (set_left c (left (nodes h (P i))) h) (P i))) (set_left c (left (nodes h (P i))) h)) (P i)))
    (set_right c (right (nodes (set_left c (left (nodes h (P i))) h) (P i))) (set_left c (left (nodes h (P i))) h))"
  obtain h5 where h5: "h5 = adopt (right (nodes (adopt (left (nodes ?h3 c)) c ?h3) c)) c (adopt (left (nodes ?h3 c)) c ?h3)" by blast
  have f5: "left (nodes h5 (P k)) = node_at n P (2 * k)" "right (nodes h5 (P k)) = node_at n P (2 * k + 1)"
    "parent (nodes h5 (P k)) = (if k = 2 * i \<or> k = 2 * i + 1 then Some c else node_at n P (k div 2))"
    if k: "1 \<le> k" "k \<le> n" for k
    using L [OF k] L [OF i] E [OF k] cn [OF k] cn [OF i] unfolding h5 by auto
  have fc: "left (nodes h5 c) = node_at n P (2 * i)" "right (nodes h5 c) = node_at n P (2 * i + 1)" "parent (nodes h5 c) = node_at n P (i div 2)"
    using L [OF i] cn [OF i] nc unfolding h5 by simp_all
  have rl: "?h = relink (node_at n P (i div 2)) (P i) c h5"
    using f5(3) [OF i] ne unfolding replace_node_def Let_def h5 [symmetric] by simp
  have fr: "nelts h5 = n" "hmin h5 = node_at n P 1" using t unfolding h5 tree_of_def by simp_all
  have "nodes ?h (?Q k) = links n ?Q k" if k: "1 \<le> k" "k \<le> n" for k
  proof (cases "k = i")
    case True
    then show ?thesis using ne fc nc unfolding rl links_def na by (intro heap_node.equality) auto
  next
    case False
    have e: "2 * k = i \<longleftrightarrow> i div 2 = k \<and> even i" "2 * k + 1 = i \<longleftrightarrow> i div 2 = k \<and> odd i" by presburger+
    have "k div 2 = i \<longleftrightarrow> k = 2 * i \<or> k = 2 * i + 1" by presburger
    moreover have "left (nodes h5 (P k)) = Some (P i) \<longleftrightarrow> 2 * k = i" using f5 [OF k] E [OF i] by simp
    ultimately show ?thesis using False f5 [OF k] E [OF k] e
      unfolding rl links_def na by (intro heap_node.equality) auto
  qed
  moreover have "inj_on ?Q {1..n}" using t c unfolding tree_of_def by (blast intro: inj_on_fun_updI)
  moreover have "hmin ?h = node_at n ?Q 1" using fr i unfolding rl na by (auto simp: node_at_None)
  moreover have "nelts ?h = n" using fr unfolding rl by simp
  ultimately show ?thesis unfolding tree_of_def Ball_def atLeastAtMost_iff by blast
qed

end
