(* ===== verification/UvHeapOps.thy ===== *)
theory UvHeapOps
  imports UvHeapSpec
begin

text \<open>
  Insertion into and removal from the heap of \<open>libuv/src/heap-inl.h\<close>: the path arithmetic finds the last position of
  the tree, the loops that restore the order return, and the heap is a priority queue of its nodes for any
  comparison that is a strict weak order.
\<close>

section \<open>Finding the last position\<close>

definition slot_of :: "(nat \<Rightarrow> nat) \<Rightarrow> nat \<Rightarrow> slot" where
  "slot_of P i = (if i = 1 then MinOf else if even i then LeftOf (P (i div 2)) else RightOf (P (i div 2)))"

definition parent_slot :: "(nat \<Rightarrow> nat) \<Rightarrow> nat \<Rightarrow> slot" where
  "parent_slot P i = (if i = 1 then MinOf else slot_of P (i div 2))"

lemma deref_slot: "tree_of h n P \<Longrightarrow> 1 \<le> i \<Longrightarrow> i \<le> n + 1 \<Longrightarrow> deref h (slot_of P i) = node_at n P i"
proof -
  assume t: "tree_of h n P" and i: "1 \<le> i" "i \<le> n + 1"
  show ?thesis
  proof (cases "i = 1")
    case True
    then show ?thesis using t by (simp add: slot_of_def tree_of_def)
  next
    case False
    then have "1 \<le> i div 2" "i div 2 \<le> n" using i by simp_all
    moreover have "even i \<Longrightarrow> 2 * (i div 2) = i" "odd i \<Longrightarrow> Suc (2 * (i div 2)) = i" by simp_all
    ultimately show ?thesis using False tree_links [OF t, of "i div 2"] by (simp add: slot_of_def)
  qed
qed

lemma path_bits: "push_bit 1 q OR (m AND 1) = 2 * q + (m mod 2 :: nat)"
  using nat_push_or [of "m mod 2" 1 q] by (simp add: and_one_eq)

lemma walk_path:
  assumes "tree_of h n P"
  shows "1 \<le> m \<Longrightarrow> m \<le> n + 1 \<Longrightarrow> path_loop m path k = (q, k') \<Longrightarrow>
    walk_loop h MinOf MinOf q k' = walk_loop h (parent_slot P m) (slot_of P m) path k"
proof (induction m path k rule: path_loop.induct)
  case (1 m path k)
  show ?case
  proof (cases "2 \<le> m")
    case False
    then have m: "m = 1" using 1(2) by simp
    have "path_loop 1 path k = (path, k)" by (subst path_loop.simps) simp
    then show ?thesis using 1(4) unfolding m by (simp add: parent_slot_def slot_of_def)
  next
    case True
    let ?m = "m div 2" and ?path = "push_bit 1 path OR (m AND 1)"
    have m: "1 \<le> ?m" "?m \<le> n" "?m \<le> n + 1" using True 1(3) by simp_all
    have "path_loop ?m ?path (k + 1) = (q, k')" using 1(4) True by (subst (asm) path_loop.simps) simp
    then have "walk_loop h MinOf MinOf q k' = walk_loop h (parent_slot P ?m) (slot_of P ?m) ?path (Suc k)"
      using 1(1) [OF True m(1,3)] by simp
    also have "\<dots> = walk_loop h (slot_of P ?m) (if ?path AND 1 \<noteq> 0 then RightOf (P ?m) else LeftOf (P ?m)) (drop_bit 1 ?path) k"
      using deref_slot [OF assms m(1,3)] m by simp
    also have "(if ?path AND 1 \<noteq> 0 then RightOf (P ?m) else LeftOf (P ?m)) = slot_of P m"
      using True unfolding path_bits slot_of_def by (simp add: and_one_eq even_iff_mod_2_eq_zero)
    also have "drop_bit 1 ?path = path" unfolding path_bits by (simp add: drop_bit_eq_div)
    also have "slot_of P ?m = parent_slot P m" using True by (simp add: parent_slot_def)
    finally show ?thesis .
  qed
qed

lemma walk_to:
  assumes "tree_of h n P" "1 \<le> m" "m \<le> n + 1"
  shows "(case path_loop m 0 0 of (path, k) \<Rightarrow> walk_loop h MinOf MinOf path k) = Some (parent_slot P m, slot_of P m)"
  using walk_path [OF assms] by (auto split: prod.splits)

section \<open>The order\<close>

locale weak_order =
  fixes lt :: "nat \<Rightarrow> nat \<Rightarrow> bool"
  assumes asym: "lt a b \<Longrightarrow> \<not> lt b a"
    and negtrans: "\<not> lt a b \<Longrightarrow> \<not> lt b c \<Longrightarrow> \<not> lt a c"

definition in_order :: "(nat \<Rightarrow> nat \<Rightarrow> bool) \<Rightarrow> (nat \<Rightarrow> nat) \<Rightarrow> nat \<Rightarrow> bool" where
  "in_order lt P i \<longleftrightarrow> i < 2 \<or> \<not> lt (P i) (P (i div 2))"

definition heap_ordered :: "(nat \<Rightarrow> nat \<Rightarrow> bool) \<Rightarrow> nat \<Rightarrow> (nat \<Rightarrow> nat) \<Rightarrow> bool" where
  "heap_ordered lt n P \<longleftrightarrow> (\<forall>i\<le>n. in_order lt P i)"

text \<open>The order but for the node at \<open>i\<close>, which may be too small for its place, or too large.\<close>

definition skips :: "(nat \<Rightarrow> nat \<Rightarrow> bool) \<Rightarrow> nat \<Rightarrow> (nat \<Rightarrow> nat) \<Rightarrow> nat \<Rightarrow> bool" where
  "skips lt n P i \<longleftrightarrow> (2 \<le> i \<longrightarrow> (\<forall>j\<le>n. j div 2 = i \<longrightarrow> \<not> lt (P j) (P (i div 2))))"

definition too_small :: "(nat \<Rightarrow> nat \<Rightarrow> bool) \<Rightarrow> nat \<Rightarrow> (nat \<Rightarrow> nat) \<Rightarrow> nat \<Rightarrow> bool" where
  "too_small lt n P i \<longleftrightarrow> (\<forall>j\<le>n. j \<noteq> i \<longrightarrow> in_order lt P j) \<and> skips lt n P i"

definition too_large :: "(nat \<Rightarrow> nat \<Rightarrow> bool) \<Rightarrow> nat \<Rightarrow> (nat \<Rightarrow> nat) \<Rightarrow> nat \<Rightarrow> bool" where
  "too_large lt n P i \<longleftrightarrow> (\<forall>j\<le>n. j \<noteq> i \<longrightarrow> j div 2 \<noteq> i \<longrightarrow> in_order lt P j) \<and> skips lt n P i"

context weak_order
begin

lemma irrefl [simp]: "\<not> lt a a"
  using asym by blast

lemma transp: "lt a b \<Longrightarrow> lt b c \<Longrightarrow> lt a c"
  using negtrans asym by blast

lemma too_small_swap:
  assumes "too_small lt n P i" "2 \<le> i" "i \<le> n" "lt (P i) (P (i div 2))"
  shows "too_small lt n (P(i div 2 := P i, i := P (i div 2))) (i div 2)"
proof -
  let ?p = "i div 2"
  let ?Q = "P(?p := P i, i := P ?p)"
  have o: "in_order lt P j" if "j \<le> n" "j \<noteq> i" for j using assms(1) that unfolding too_small_def by blast
  have sk: "\<not> lt (P j) (P ?p)" if "j \<le> n" "j div 2 = i" for j
    using assms(1,2) that unfolding too_small_def skips_def by blast
  have p: "?p \<noteq> i" "?p \<le> n" "?p div 2 \<noteq> i" "1 \<le> ?p" "?p div 2 \<noteq> ?p" using assms(2,3) by simp_all
  have pp: "\<not> lt (P ?p) (P (?p div 2))" if "2 \<le> ?p" using o [OF p(2,1)] that by (simp add: in_order_def)
  have "in_order lt ?Q j" if j: "j \<le> n" "j \<noteq> ?p" for j
  proof (cases "j < 2 \<or> j = i")
    case True
    then show ?thesis using p asym [OF assms(4)] by (auto simp: in_order_def)
  next
    case False
    then have oj: "\<not> lt (P j) (P (j div 2))" using o [OF j(1)] by (simp add: in_order_def)
    consider "j div 2 = i" | "j div 2 = ?p" | "j div 2 \<noteq> i" "j div 2 \<noteq> ?p" by blast
    then show ?thesis
    proof cases
      case 1
      then show ?thesis using sk [OF j(1) 1] False j p by (simp add: in_order_def)
    next
      case 2
      then have "\<not> lt (P j) (P i)" using oj transp [OF _ assms(4)] by auto
      then show ?thesis using 2 False j p by (simp add: in_order_def)
    next
      case 3
      then show ?thesis using oj False j by (simp add: in_order_def)
    qed
  qed
  moreover have "skips lt n ?Q ?p"
    unfolding skips_def
  proof (intro impI allI)
    fix j
    assume j: "2 \<le> ?p" "j \<le> n" "j div 2 = ?p"
    have q: "?Q (?p div 2) = P (?p div 2)" using p j(1) by simp
    show "\<not> lt (?Q j) (?Q (?p div 2))"
    proof (cases "j = i")
      case True
      then show ?thesis unfolding q using pp [OF j(1)] by simp
    next
      case False
      have "j \<noteq> ?p" using j by auto
      moreover have "\<not> lt (P j) (P ?p)" using o [OF j(2) False] j by (auto simp: in_order_def)
      ultimately show ?thesis unfolding q using False negtrans [OF _ pp [OF j(1)]] by simp
    qed
  qed
  ultimately show ?thesis unfolding too_small_def by blast
qed

lemma too_small_done:
  assumes "too_small lt n P i" "i < 2 \<or> \<not> lt (P i) (P (i div 2))"
  shows "heap_ordered lt n P"
  using assms unfolding heap_ordered_def too_small_def in_order_def by blast

text \<open>The child that takes the place of a node which is too large.\<close>

lemma too_large_swap:
  assumes "too_large lt n P i" "1 \<le> i" "j \<le> n" "j div 2 = i" "lt (P j) (P i)"
    and min: "\<And>k. k \<le> n \<Longrightarrow> k div 2 = i \<Longrightarrow> \<not> lt (P k) (P j)"
  shows "too_large lt n (P(i := P j, j := P i)) j"
proof -
  let ?Q = "P(i := P j, j := P i)"
  have o: "in_order lt P k" if "k \<le> n" "k \<noteq> i" "k div 2 \<noteq> i" for k using assms(1) that unfolding too_large_def by blast
  have ij: "i \<noteq> j" "2 \<le> j" "i div 2 \<noteq> i" "i div 2 \<noteq> j" "i \<le> n" using assms(2-4) by auto
  have sk: "\<not> lt (P j) (P (i div 2))" if "2 \<le> i" using assms(1,3,4) that unfolding too_large_def skips_def by blast
  have "in_order lt ?Q k" if k: "k \<le> n" "k \<noteq> j" "k div 2 \<noteq> j" for k
  proof (cases "k < 2 \<or> k = i")
    case True
    then show ?thesis using sk ij by (auto simp: in_order_def)
  next
    case False
    then show ?thesis using k o [OF k(1)] min [OF k(1)] by (cases "k div 2 = i") (auto simp: in_order_def)
  qed
  moreover have "skips lt n ?Q j"
    unfolding skips_def
  proof (intro impI allI)
    fix k
    assume k: "2 \<le> j" "k \<le> n" "k div 2 = j"
    have n: "k \<noteq> i" "k \<noteq> j" "k div 2 \<noteq> i" "\<not> k < 2" using k ij assms(4) by auto
    then have "\<not> lt (P k) (P j)" using o [OF k(2) n(1,3)] k(3) by (simp add: in_order_def)
    then show "\<not> lt (?Q k) (?Q (j div 2))" using n assms(4) by simp
  qed
  ultimately show ?thesis unfolding too_large_def by blast
qed

lemma too_large_done:
  assumes "too_large lt n P i" "\<And>j. j \<le> n \<Longrightarrow> 2 \<le> j \<Longrightarrow> j div 2 = i \<Longrightarrow> \<not> lt (P j) (P i)"
  shows "too_small lt n P i"
  using assms unfolding too_large_def too_small_def in_order_def by (metis not_less)

section \<open>The loops\<close>

lemma image_swap: "i \<in> A \<Longrightarrow> j \<in> A \<Longrightarrow> (P(i := P j, j := P i)) ` A = P ` A"
proof
  assume a: "i \<in> A" "j \<in> A"
  then show "(P(i := P j, j := P i)) ` A \<subseteq> P ` A" by auto
  show "P ` A \<subseteq> (P(i := P j, j := P i)) ` A"
  proof
    fix x
    assume "x \<in> P ` A"
    then obtain k where k: "k \<in> A" "x = P k" by blast
    let ?k = "if k = i then j else if k = j then i else k"
    have "x = (P(i := P j, j := P i)) ?k" "?k \<in> A" using a k by simp_all
    then show "x \<in> (P(i := P j, j := P i)) ` A" by (rule image_eqI)
  qed
qed

lemma sift_up_ok:
  assumes "tree_of h n P" "1 \<le> i" "i \<le> n" "too_small lt n P i"
  shows "\<exists>h' Q. sift_up lt (P i) h = Some h' \<and> tree_of h' n Q \<and> Q ` {1..n} = P ` {1..n} \<and> heap_ordered lt n Q"
  using assms
proof (induction i arbitrary: h P rule: less_induct)
  case (less i)
  have par: "parent (nodes h (P i)) = node_at n P (i div 2)" using tree_links [OF less.prems(1-3)] by simp
  show ?case
  proof (cases "2 \<le> i \<and> lt (P i) (P (i div 2))")
    case False
    then have "sift_up lt (P i) h = Some h"
      using par less.prems(2,3) by (subst sift_up.simps) (auto simp: node_at_def)
    moreover have "heap_ordered lt n P" using too_small_done [OF less.prems(4)] False by auto
    ultimately show ?thesis using less.prems(1) by blast
  next
    case True
    let ?p = "i div 2"
    let ?Q = "P(?p := P i, i := P ?p)"
    have p: "?p < i" "1 \<le> ?p" "?p \<le> n" using True less.prems(3) by linarith+
    have t: "tree_of (heap_node_swap h (P ?p) (P i)) n ?Q" using swap_tree [OF less.prems(1) _ less.prems(3) refl] True by blast
    have "?Q ` {1..n} = P ` {1..n}" using p less.prems(3) by (intro image_swap) simp_all
    moreover have "sift_up lt (P i) h = sift_up lt (?Q ?p) (heap_node_swap h (P ?p) (P i))"
      using par True p by (subst sift_up.simps) simp
    ultimately show ?thesis
      using less.IH [OF p(1) t p(2,3) too_small_swap [OF less.prems(4) _ less.prems(3)]] True by auto
  qed
qed

lemma smallest_child:
  assumes "tree_of h n P" "1 \<le> i" "i \<le> n"
  shows "smallest_of lt h (P i) = P i \<and> (\<forall>k\<le>n. k div 2 = i \<longrightarrow> \<not> lt (P k) (P i)) \<or>
    (\<exists>j\<le>n. j div 2 = i \<and> smallest_of lt h (P i) = P j \<and> lt (P j) (P i) \<and> (\<forall>k\<le>n. k div 2 = i \<longrightarrow> \<not> lt (P k) (P j)))"
proof -
  have k: "k div 2 = i \<longleftrightarrow> k = 2 * i \<or> k = Suc (2 * i)" for k by presburger
  let ?m = "smaller lt (node_at n P (2 * i)) (P i)"
  have s: "smallest_of lt h (P i) = smaller lt (node_at n P (Suc (2 * i))) ?m"
    using tree_links [OF assms] by (simp add: smallest_of_def Let_def)
  have m: "?m = P i \<and> (2 * i \<le> n \<longrightarrow> \<not> lt (P (2 * i)) (P i)) \<or> 2 * i \<le> n \<and> ?m = P (2 * i) \<and> lt (P (2 * i)) (P i)"
    using assms(2) by (auto simp: smaller_def node_at_def)
  have c: "smallest_of lt h (P i) = (if Suc (2 * i) \<le> n \<and> lt (P (Suc (2 * i))) ?m then P (Suc (2 * i)) else ?m)"
    unfolding s by (auto simp: smaller_def node_at_def)
  show ?thesis
  proof (cases "Suc (2 * i) \<le> n \<and> lt (P (Suc (2 * i))) ?m")
    case True
    then have "lt (P (Suc (2 * i))) (P i)" "2 * i \<le> n \<longrightarrow> \<not> lt (P (2 * i)) (P (Suc (2 * i)))"
      using m asym [of "P (Suc (2 * i))" "P (2 * i)"] transp [of "P (Suc (2 * i))" "P (2 * i)" "P i"] transp [of "P (2 * i)" "P (Suc (2 * i))" "P i"]
      by auto
    then show ?thesis using True c unfolding k by (intro disjI2 exI [of _ "Suc (2 * i)"]) auto
  next
    case False
    then have c: "smallest_of lt h (P i) = ?m" using c by auto
    from m show ?thesis
    proof
      assume "?m = P i \<and> (2 * i \<le> n \<longrightarrow> \<not> lt (P (2 * i)) (P i))"
      then show ?thesis using False c unfolding k by (intro disjI1) auto
    next
      assume "2 * i \<le> n \<and> ?m = P (2 * i) \<and> lt (P (2 * i)) (P i)"
      then show ?thesis using False c unfolding k by (intro disjI2 exI [of _ "2 * i"]) auto
    qed
  qed
qed

lemma sift_down_ok:
  assumes "tree_of h n P" "1 \<le> i" "i \<le> n" "too_large lt n P i"
  shows "\<exists>h' Q j. sift_down lt (P i) h = Some h' \<and> tree_of h' n Q \<and> Q ` {1..n} = P ` {1..n} \<and> 1 \<le> j \<and> j \<le> n \<and> Q j = P i
    \<and> too_small lt n Q j"
  using assms
proof (induction "n - i" arbitrary: h P i rule: less_induct)
  case less
  consider "smallest_of lt h (P i) = P i" "\<forall>k\<le>n. k div 2 = i \<longrightarrow> \<not> lt (P k) (P i)"
    | j where "j \<le> n" "j div 2 = i" "smallest_of lt h (P i) = P j" "lt (P j) (P i)" "\<forall>k\<le>n. k div 2 = i \<longrightarrow> \<not> lt (P k) (P j)"
    using smallest_child [OF less.prems(1-3)] by blast
  then show ?case
  proof cases
    case 1
    have "sift_down lt (P i) h = Some h" by (subst sift_down.simps) (simp add: 1 Let_def)
    moreover have "too_small lt n P i" using too_large_done [OF less.prems(4)] 1(2) by blast
    ultimately show ?thesis using less.prems by blast
  next
    case (2 j)
    let ?Q = "P(i := P j, j := P i)"
    have j: "2 \<le> j" "1 \<le> j" "i < j" "i \<noteq> j" using 2(2) less.prems(2) by auto
    then have "P j \<noteq> P i" using 2(4) by auto
    then have sd: "sift_down lt (P i) h = sift_down lt (?Q j) (heap_node_swap h (P i) (P j))"
      by (subst sift_down.simps) (simp add: 2(3) Let_def)
    have t: "tree_of (heap_node_swap h (P i) (P j)) n ?Q" using swap_tree [OF less.prems(1) j(1) 2(1) 2(2) [symmetric]] .
    have im: "?Q ` {1..n} = P ` {1..n}" using j 2(1) less.prems(2,3) by (intro image_swap) simp_all
    have tl: "too_large lt n ?Q j" using too_large_swap [OF less.prems(4,2) 2(1,2,4)] 2(5) by blast
    have "n - j < n - i" using j 2(1) by simp
    from less.hyps [OF this t j(2) 2(1) tl] show ?thesis unfolding sd im by simp
  qed
qed

end

lemma tree_inj_on: "tree_of h n P \<Longrightarrow> inj_on P {1..n}"
  by (simp add: tree_of_def)

section \<open>Linking and unlinking the last node\<close>

lemma tree_frame:
  "tree_of h n P \<Longrightarrow> hmin h' = hmin h \<Longrightarrow> nelts h' = nelts h \<Longrightarrow> (\<And>k. 1 \<le> k \<Longrightarrow> k \<le> n \<Longrightarrow> nodes h' (P k) = nodes h (P k)) \<Longrightarrow> tree_of h' n P"
  unfolding tree_of_def by simp

lemma assign_simps [simp]:
  "left (nodes (assign s x h) y) = (if s = LeftOf y then x else left (nodes h y))"
  "right (nodes (assign s x h) y) = (if s = RightOf y then x else right (nodes h y))"
  "parent (nodes (assign s x h) y) = parent (nodes h y)"
  "hmin (assign s x h) = (if s = MinOf then x else hmin h)" "nelts (assign s x h) = nelts h"
  by (cases s; auto)+

lemma slot_of_iff:
  assumes "tree_of h n P" "1 \<le> m" "m \<le> n + 1" "1 \<le> k" "k \<le> n"
  shows "slot_of P m = LeftOf (P k) \<longleftrightarrow> 2 * k = m" "slot_of P m = RightOf (P k) \<longleftrightarrow> 2 * k + 1 = m" "slot_of P m = MinOf \<longleftrightarrow> m = 1"
proof -
  have i: "P (m div 2) = P k \<longleftrightarrow> m div 2 = k" if "m \<noteq> 1"
    using tree_inj [OF assms(1) _ _ assms(4,5), of "m div 2"] assms(2,3) that by auto
  have e: "even m \<and> m div 2 = k \<longleftrightarrow> 2 * k = m" "odd m \<and> m div 2 = k \<longleftrightarrow> 2 * k + 1 = m" by presburger+
  show "slot_of P m = LeftOf (P k) \<longleftrightarrow> 2 * k = m" using i assms(4) unfolding slot_of_def e(1) [symmetric] by auto
  show "slot_of P m = RightOf (P k) \<longleftrightarrow> 2 * k + 1 = m" using i assms(4) unfolding slot_of_def e(2) [symmetric] by auto
  show "slot_of P m = MinOf \<longleftrightarrow> m = 1" by (simp add: slot_of_def)
qed

lemma extend_tree:
  assumes t: "tree_of h n P" and c: "c \<notin> P ` {1..n}" and h: "left (nodes h c) = None" "right (nodes h c) = None" "parent (nodes h c) = node_at n P ((n + 1) div 2)"
  shows "tree_of ((assign (slot_of P (n + 1)) (Some c) h)\<lparr>nelts := n + 1\<rparr>) (n + 1) (P(n + 1 := c))" (is "tree_of ?h _ ?Q")
proof -
  have na: "node_at (n + 1) ?Q m = (if m = n + 1 then Some c else node_at n P m)" for m by (auto simp: node_at_def)
  have sl: "slot_of P (n + 1) \<noteq> LeftOf c" "slot_of P (n + 1) \<noteq> RightOf c"
    using c by (auto simp: slot_of_def split: if_splits)
  have "nodes ?h (?Q k) = links (n + 1) ?Q k" if k: "1 \<le> k" "k \<le> n + 1" for k
  proof (cases "k = n + 1")
    case True
    then show ?thesis using sl h unfolding links_def na by (intro heap_node.equality) auto
  next
    case False
    then have k': "k \<le> n" using k by simp
    note sk = slot_of_iff [OF t _ _ k(1) k', of "n + 1"]
    show ?thesis
      using False k k' sk tree_links [OF t k(1) k'] unfolding links_def na by (intro heap_node.equality) auto
  qed
  moreover have "inj_on ?Q {1..n + 1}"
  proof -
    have a: "inj_on ?Q {1..n}" using inj_on_fun_updI [OF tree_inj_on [OF t] c] .
    have e: "{1..n + 1} = insert (n + 1) {1..n}" by auto
    have "?Q (n + 1) \<notin> ?Q ` ({1..n} - {n + 1})" using c by auto
    with a show ?thesis unfolding e inj_on_insert by (rule conjI)
  qed
  moreover have "hmin ?h = node_at (n + 1) ?Q 1" using t unfolding na tree_of_def by (auto simp: slot_of_def node_at_def)
  moreover have "nelts ?h = n + 1" by simp
  ultimately show ?thesis unfolding tree_of_def Ball_def atLeastAtMost_iff by blast
qed

lemma shrink_tree:
  assumes t: "tree_of h n P" and n: "1 \<le> n"
  shows "tree_of (assign (slot_of P n) None (h\<lparr>nelts := n - 1\<rparr>)) (n - 1) P" (is "tree_of ?h _ _")
proof -
  have na: "node_at (n - 1) P m = (if m = n then None else node_at n P m)" for m by (auto simp: node_at_def)
  have "nodes ?h (P k) = links (n - 1) P k" if k: "1 \<le> k" "k \<le> n - 1" for k
  proof -
    have k': "k \<le> n" "k div 2 \<noteq> n" using k by simp_all
    note sk = slot_of_iff [OF t n _ k(1) k'(1)]
    show ?thesis
      using k' sk tree_links [OF t k(1) k'(1)] unfolding links_def na by (intro heap_node.equality) auto
  qed
  moreover have "inj_on P {1..n - 1}"
    by (rule inj_on_subset [OF tree_inj_on [OF t]]) simp
  moreover have "hmin ?h = node_at (n - 1) P 1" using t n unfolding na tree_of_def by (auto simp: slot_of_def)
  moreover have "nelts ?h = n - 1" by simp
  ultimately show ?thesis unfolding tree_of_def Ball_def atLeastAtMost_iff by blast
qed

section \<open>Insertion and removal\<close>

definition heap_of :: "(nat \<Rightarrow> nat \<Rightarrow> bool) \<Rightarrow> heap \<Rightarrow> nat set \<Rightarrow> bool" where
  "heap_of lt h S \<longleftrightarrow> (\<exists>n P. tree_of h n P \<and> P ` {1..n} = S \<and> heap_ordered lt n P)"

lemma heap_of_card: "tree_of h n P \<Longrightarrow> card (P ` {1..n}) = n"
  by (simp add: tree_of_def card_image)

lemma heap_of_finite: "heap_of lt h S \<Longrightarrow> finite S"
  by (auto simp: heap_of_def)

context weak_order
begin

lemma insert_ok:
  assumes "heap_of lt h S" "c \<notin> S" "card S + 1 < 2 ^ 32"
  shows "\<exists>h'. heap_insert lt h c = Some h' \<and> heap_of lt h' (insert c S)"
proof -
  obtain n P where t: "tree_of h n P" and S: "P ` {1..n} = S" and o: "heap_ordered lt n P" using assms(1) by (auto simp: heap_of_def)
  have n: "n + 1 < 2 ^ 32" using heap_of_card [OF t] S assms(3) by simp
  let ?h0 = "set_parent c None (set_right c None (set_left c None h))"
  have c: "P k \<noteq> c" "c \<noteq> P k" if "1 \<le> k" "k \<le> n" for k using assms(2) S that by auto
  have t0: "tree_of ?h0 n P" by (rule tree_frame [OF t]) (auto intro!: heap_node.equality simp: c)
  have n0: "nelts ?h0 = n" using t0 unfolding tree_of_def by simp
  let ?m = "n + 1"
  have w: "(case path_loop ?m 0 0 of (path, k) \<Rightarrow> walk_loop ?h0 MinOf MinOf path k) = Some (parent_slot P ?m, slot_of P ?m)"
    by (rule walk_to [OF t0]) simp_all
  have dp: "deref ?h0 (parent_slot P ?m) = node_at n P (?m div 2)"
  proof (cases "n = 0")
    case True
    then show ?thesis using t0 unfolding tree_of_def by (simp add: parent_slot_def)
  next
    case False
    then show ?thesis using deref_slot [OF t0, of "?m div 2"] by (simp add: parent_slot_def)
  qed
  let ?h1 = "set_parent c (node_at n P (?m div 2)) ?h0"
  have t1: "tree_of ?h1 n P" by (rule tree_frame [OF t0]) (auto intro!: heap_node.equality simp: c)
  let ?h2 = "(assign (slot_of P ?m) (Some c) ?h1)\<lparr>nelts := ?m\<rparr>"
  have t2: "tree_of ?h2 ?m (P(?m := c))" by (rule extend_tree [OF t1]) (use assms(2) S in auto)
  have e: "heap_insert lt h c = sift_up lt c ?h2"
    using w dp n n0 unfolding heap_insert_def Let_def by (simp split: prod.splits)
  have ts: "too_small lt ?m (P(?m := c)) ?m"
    unfolding too_small_def skips_def
    using o by (auto simp: heap_ordered_def in_order_def)
  have "\<exists>h' Q. sift_up lt ((P(?m := c)) ?m) ?h2 = Some h' \<and> tree_of h' ?m Q \<and> Q ` {1..?m} = P(?m := c) ` {1..?m} \<and> heap_ordered lt ?m Q"
    by (rule sift_up_ok [OF t2 _ _ ts]) simp_all
  moreover have "P(?m := c) ` {1..?m} = insert c S" using S by (auto simp: atLeastAtMostSuc_conv)
  ultimately show ?thesis unfolding e heap_of_def by auto
qed

lemma remove_ok:
  assumes "heap_of lt h S" "x \<in> S" 
  shows "\<exists>h'. heap_remove lt h x = Some h' \<and> heap_of lt h' (S - {x})"
proof -
  obtain n P where t: "tree_of h n P" and S: "P ` {1..n} = S" and o: "heap_ordered lt n P" using assms(1) by (auto simp: heap_of_def)
  obtain i where i: "1 \<le> i" "i \<le> n" "x = P i" using S assms(2) by auto
  have n: "1 \<le> n" "nelts h = n" using i t by (simp_all add: tree_of_def)
  have w: "(case path_loop n 0 0 of (path, k) \<Rightarrow> walk_loop h MinOf MinOf path k) = Some (parent_slot P n, slot_of P n)"
    using walk_to [OF t n(1)] by simp
  let ?h0 = "h\<lparr>nelts := n - 1\<rparr>"
  have "deref ?h0 (slot_of P n) = deref h (slot_of P n)" by (cases "slot_of P n") simp_all
  then have d: "deref ?h0 (slot_of P n) = Some (P n)" using deref_slot [OF t n(1)] n by simp
  let ?h1 = "assign (slot_of P n) None ?h0"
  have t1: "tree_of ?h1 (n - 1) P" by (rule shrink_tree [OF t n(1)])
  have e: "heap_remove lt h x = (if P n = x then Some (if Some (P n) = hmin ?h1 then ?h1\<lparr>hmin := None\<rparr> else ?h1)
      else (case sift_down lt (P n) (replace_node ?h1 x (P n)) of None \<Rightarrow> None | Some h \<Rightarrow> sift_up lt (P n) h))"
  proof -
    obtain path k where pk: "path_loop n 0 0 = (path, k)" by (cases "path_loop n 0 0")
    have w': "walk_loop h MinOf MinOf path k = Some (parent_slot P n, slot_of P n)" using w pk by simp
    have "n \<noteq> 0" using n(1) by simp
    then show ?thesis unfolding heap_remove_def n(2) Let_def pk prod.case w' option.case d by simp
  qed
  have S': "{1..n} = insert n {1..n - 1}" using n by auto
  note inj = tree_inj_on [OF t]
  have Pn: "P n \<notin> P ` {1..n - 1}" using inj_on_image_mem_iff [OF inj, of n "{1..n - 1}"] n by auto
  have S2: "S = insert (P n) (P ` {1..n - 1})" using S unfolding S' by blast
  show ?thesis
  proof (cases "P n = x")
    case True
    have "hmin ?h1 = node_at (n - 1) P 1" using t1 by (simp only: tree_of_def)
    moreover have "node_at (n - 1) P 1 \<noteq> Some (P n)"
    proof
      assume "node_at (n - 1) P 1 = Some (P n)"
      then have "1 \<le> n - 1" "P n = P 1" unfolding node_at_Some by simp_all
      then show False using Pn by simp
    qed
    ultimately have "hmin ?h1 \<noteq> Some (P n)" by simp
    moreover have "S - {x} = P ` {1..n - 1}" using S2 Pn True by blast
    moreover have "heap_ordered lt (n - 1) P" using o by (simp add: heap_ordered_def)
    ultimately show ?thesis using t1 True unfolding e heap_of_def by auto
  next
    case False
    then have i': "i \<le> n - 1" "i \<noteq> n" using i by (auto simp: le_less)
    let ?Q = "P(i := P n)"
    have t2: "tree_of (replace_node ?h1 x (P n)) (n - 1) ?Q" unfolding i(3) by (rule replace_tree [OF t1 i(1) i'(1) Pn])
    have od: "j < 2 \<or> \<not> lt (P j) (P (j div 2))" if "j \<le> n" for j using o that by (auto simp: heap_ordered_def in_order_def)
    have tl: "too_large lt (n - 1) ?Q i"
      unfolding too_large_def skips_def in_order_def
    proof (intro conjI allI impI)
      fix j
      assume "j \<le> n - 1" "j \<noteq> i" "j div 2 \<noteq> i"
      then show "j < 2 \<or> \<not> lt (?Q j) (?Q (j div 2))" using od [of j] by auto
    next
      fix j
      assume j: "2 \<le> i" "j \<le> n - 1" "j div 2 = i"
      then have "\<not> lt (P j) (P i)" using od [of j] by auto
      moreover have "\<not> lt (P i) (P (i div 2))" using od [OF i(2)] j(1) by simp
      ultimately have "\<not> lt (P j) (P (i div 2))" by (rule negtrans)
      then show "\<not> lt (?Q j) (?Q (i div 2))" using j i(1) by auto
    qed
    obtain h' Q j where s: "sift_down lt (?Q i) (replace_node ?h1 x (P n)) = Some h'" "tree_of h' (n - 1) Q" "Q ` {1..n - 1} = ?Q ` {1..n - 1}"
      "1 \<le> j" "j \<le> n - 1" "Q j = ?Q i" "too_small lt (n - 1) Q j"
      using sift_down_ok [OF t2 i(1) i'(1) tl] by blast
    obtain h'' R where u: "sift_up lt (Q j) h' = Some h''" "tree_of h'' (n - 1) R" "R ` {1..n - 1} = Q ` {1..n - 1}" "heap_ordered lt (n - 1) R"
      using sift_up_ok [OF s(2,4,5,7)] by blast
    have "?Q ` {1..n - 1} = S - {x}"
    proof -
      have "{1..n - 1} - {i} \<subseteq> {1..n}" "{i} \<subseteq> {1..n}" using i by auto
      from inj_on_image_set_diff [OF inj this] have "P ` ({1..n - 1} - {i}) = P ` {1..n - 1} - {x}" by (simp add: i(3))
      moreover have "i \<in> {1..n - 1}" using i i' by simp
      ultimately show ?thesis using False unfolding S2 fun_upd_image by auto
    qed
    moreover have "heap_remove lt h x = Some h''" unfolding e using False s(1,6) u(1) by simp
    ultimately show ?thesis using u s(3) unfolding heap_of_def by metis
  qed
qed

lemma root_least:
  assumes "heap_ordered lt n P" "1 \<le> i" "i \<le> n"
  shows "\<not> lt (P i) (P 1)"
  using assms(2,3)
proof (induction i rule: less_induct)
  case (less i)
  show ?case
  proof (cases "i = 1")
    case False
    then have "\<not> lt (P i) (P (i div 2))" using assms(1) less.prems by (auto simp: heap_ordered_def in_order_def)
    moreover have "\<not> lt (P (i div 2)) (P 1)" using less.IH [of "i div 2"] less.prems False by auto
    ultimately show ?thesis by (rule negtrans)
  qed simp
qed

lemma min_ok:
  assumes "heap_of lt h S"
  shows "heap_min h = None \<longleftrightarrow> S = {}" "heap_min h = Some m \<Longrightarrow> m \<in> S \<and> (\<forall>x\<in>S. \<not> lt x m)"
proof -
  obtain n P where t: "tree_of h n P" and S: "P ` {1..n} = S" and o: "heap_ordered lt n P" using assms by (auto simp: heap_of_def)
  have m: "heap_min h = node_at n P 1" using t by (simp add: heap_min_def tree_of_def)
  show "heap_min h = None \<longleftrightarrow> S = {}" using m S by (auto simp: node_at_None)
  show "m \<in> S \<and> (\<forall>x\<in>S. \<not> lt x m)" if "heap_min h = Some m"
    using that m S root_least [OF o] by (auto simp: node_at_Some)
qed

end

text \<open>Only the comparisons among the nodes in the heap matter.\<close>

lemma heap_of_cong:
  assumes "heap_of lt h S" "\<And>a b. a \<in> S \<Longrightarrow> b \<in> S \<Longrightarrow> lt' a b = lt a b"
  shows "heap_of lt' h S"
proof -
  obtain n P where t: "tree_of h n P" "P ` {1..n} = S" "heap_ordered lt n P" using assms(1) by (auto simp: heap_of_def)
  have "i < 2 \<or> lt' (P i) (P (i div 2)) = lt (P i) (P (i div 2))" if "i \<le> n" for i
  proof (cases "i < 2")
    case False
    then have "i \<in> {1..n}" "i div 2 \<in> {1..n}" using that by auto
    then have "P i \<in> S" "P (i div 2) \<in> S" unfolding t(2) [symmetric] by blast+
    then show ?thesis using assms(2) by blast
  qed simp
  then have "heap_ordered lt' n P" using t(3) unfolding heap_ordered_def in_order_def by blast
  then show ?thesis using t(1,2) unfolding heap_of_def by blast
qed

lemma heap_of_init: "heap_of lt (heap_init h) {}"
proof -
  have "tree_of (heap_init h) 0 P" for P by (simp add: tree_of_def heap_init_def)
  then show ?thesis unfolding heap_of_def by (intro exI [of _ 0]) (auto simp: heap_ordered_def in_order_def)
qed

section \<open>Priority queues\<close>

text \<open>What the timers rely on: a queue that \<open>holds\<close> a set of nodes, at most \<open>2 ^ 32 - 1\<close> of them.\<close>

locale node_queue = weak_order +
  fixes holds :: "'q \<Rightarrow> nat set \<Rightarrow> bool"
    and ins :: "'q \<Rightarrow> nat \<Rightarrow> 'q option"
    and del :: "'q \<Rightarrow> nat \<Rightarrow> 'q option"
    and least :: "'q \<Rightarrow> nat option"
  assumes fin: "holds q S \<Longrightarrow> finite S"
    and ins_ok: "holds q S \<Longrightarrow> c \<notin> S \<Longrightarrow> card S + 1 < 2 ^ 32 \<Longrightarrow> \<exists>q'. ins q c = Some q' \<and> holds q' (insert c S)"
    and del_ok: "holds q S \<Longrightarrow> c \<in> S \<Longrightarrow> \<exists>q'. del q c = Some q' \<and> holds q' (S - {c})"
    and least_None: "holds q S \<Longrightarrow> least q = None \<longleftrightarrow> S = {}"
    and least_Some: "holds q S \<Longrightarrow> least q = Some m \<Longrightarrow> m \<in> S \<and> (\<forall>x\<in>S. \<not> lt x m)"

fun drain :: "('q \<Rightarrow> nat option) \<Rightarrow> ('q \<Rightarrow> nat \<Rightarrow> 'q option) \<Rightarrow> nat \<Rightarrow> 'q \<Rightarrow> nat list option" where
  "drain least del 0 q = Some []"
| "drain least del (Suc n) q =
     (case least q of
        None \<Rightarrow> Some []
      | Some m \<Rightarrow> (case del q m of None \<Rightarrow> None | Some q \<Rightarrow> map_option (\<lambda>xs. m # xs) (drain least del n q)))"

context node_queue
begin

lemma drain_sorted:
  "holds q S \<Longrightarrow> card S \<le> n \<Longrightarrow>
    \<exists>xs. drain least del n q = Some xs \<and> set xs = S \<and> distinct xs \<and> sorted_wrt (\<lambda>a b. \<not> lt b a) xs"
proof (induction n arbitrary: q S)
  case 0
  then show ?case using fin [of q S] by simp
next
  case (Suc n)
  show ?case
  proof (cases "least q")
    case None
    then show ?thesis using least_None [OF Suc.prems(1)] by simp
  next
    case (Some m)
    note m = least_Some [OF Suc.prems(1) Some]
    then obtain q' where q': "del q m = Some q'" "holds q' (S - {m})" using del_ok [OF Suc.prems(1)] by blast
    have "card (S - {m}) \<le> n" using m fin [OF Suc.prems(1)] Suc.prems(2) by simp
    then obtain xs where "drain least del n q' = Some xs" "set xs = S - {m}" "distinct xs" "sorted_wrt (\<lambda>a b. \<not> lt b a) xs"
      using Suc.IH [OF q'(2)] by blast
    then show ?thesis using Some q'(1) m by auto
  qed
qed

end

sublocale weak_order \<subseteq> heap: node_queue lt "heap_of lt" "heap_insert lt" "heap_remove lt" heap_min
proof
  show "\<exists>q'. heap_insert lt q c = Some q' \<and> heap_of lt q' (insert c S)" if "heap_of lt q S" "c \<notin> S" "card S + 1 < 2 ^ 32" for q S c
    using insert_ok [OF that] .
  show "\<exists>q'. heap_remove lt q c = Some q' \<and> heap_of lt q' (S - {c})" if "heap_of lt q S" "c \<in> S" for q S c
    using remove_ok [OF that] .
qed (auto dest: heap_of_finite min_ok)

end
