(* ===== verification/UvTimer.thy ===== *)
theory UvTimer
  imports UvHeapOps
begin

text \<open>
  \<open>libuv/src/timer.c\<close>: the timers of an event loop, with the handle macros of \<open>uv-common.h\<close> that they use. A
  timer handle is named by the address of its heap node, a callback by its code address. What a callback
  does is a parameter of \<open>uv__run_timers\<close>, which returns \<open>None\<close> if it does not return. The queue of all
  handles of a loop, which the timers do not read, is left out.
\<close>

section \<open>Handles and loops\<close>

record uv_timer =
  flags :: "32 word"
  timer_cb :: "nat option"
  timeout :: "64 word"
  repeat :: "64 word"
  start_id :: "64 word"

record uv_loop =
  time :: "64 word"
  timer_counter :: "64 word"
  active_handles :: "32 word"
  timer_heap :: heap
  timers :: "nat \<Rightarrow> uv_timer"

abbreviation UV_EINVAL :: int where "UV_EINVAL \<equiv> - 22"
abbreviation INT_MAX64 :: "64 word" where "INT_MAX64 \<equiv> 2147483647"
abbreviation UV_HANDLE_CLOSING :: "32 word" where "UV_HANDLE_CLOSING \<equiv> 1"
abbreviation UV_HANDLE_CLOSED :: "32 word" where "UV_HANDLE_CLOSED \<equiv> 2"
abbreviation UV_HANDLE_ACTIVE :: "32 word" where "UV_HANDLE_ACTIVE \<equiv> 4"
abbreviation UV_HANDLE_REF :: "32 word" where "UV_HANDLE_REF \<equiv> 8"

definition upd_timer :: "nat \<Rightarrow> (uv_timer \<Rightarrow> uv_timer) \<Rightarrow> uv_loop \<Rightarrow> uv_loop" where
  "upd_timer h f L = L\<lparr>timers := (timers L)(h := f (timers L h))\<rparr>"

definition uv__is_active :: "uv_timer \<Rightarrow> bool" where
  "uv__is_active t \<longleftrightarrow> flags t AND UV_HANDLE_ACTIVE \<noteq> 0"

definition uv__is_closing :: "uv_timer \<Rightarrow> bool" where
  "uv__is_closing t \<longleftrightarrow> flags t AND (UV_HANDLE_CLOSING OR UV_HANDLE_CLOSED) \<noteq> 0"

definition uv__has_ref :: "uv_timer \<Rightarrow> bool" where
  "uv__has_ref t \<longleftrightarrow> flags t AND UV_HANDLE_REF \<noteq> 0"

definition uv__active_handle_add :: "uv_loop \<Rightarrow> uv_loop" where
  "uv__active_handle_add L = L\<lparr>active_handles := active_handles L + 1\<rparr>"

definition uv__active_handle_rm :: "uv_loop \<Rightarrow> uv_loop" where
  "uv__active_handle_rm L = L\<lparr>active_handles := active_handles L - 1\<rparr>"

definition uv__handle_start :: "nat \<Rightarrow> uv_loop \<Rightarrow> uv_loop" where
  "uv__handle_start h L =
     (if flags (timers L h) AND UV_HANDLE_ACTIVE \<noteq> 0 then L
      else (let L = upd_timer h (\<lambda>t. t\<lparr>flags := flags t OR UV_HANDLE_ACTIVE\<rparr>) L
            in if flags (timers L h) AND UV_HANDLE_REF \<noteq> 0 then uv__active_handle_add L else L))"

definition uv__handle_stop :: "nat \<Rightarrow> uv_loop \<Rightarrow> uv_loop" where
  "uv__handle_stop h L =
     (if flags (timers L h) AND UV_HANDLE_ACTIVE = 0 then L
      else (let L = upd_timer h (\<lambda>t. t\<lparr>flags := flags t AND NOT UV_HANDLE_ACTIVE\<rparr>) L
            in if flags (timers L h) AND UV_HANDLE_REF \<noteq> 0 then uv__active_handle_rm L else L))"

definition uv__handle_ref :: "nat \<Rightarrow> uv_loop \<Rightarrow> uv_loop" where
  "uv__handle_ref h L =
     (if flags (timers L h) AND UV_HANDLE_REF \<noteq> 0 then L
      else (let L = upd_timer h (\<lambda>t. t\<lparr>flags := flags t OR UV_HANDLE_REF\<rparr>) L
            in if flags (timers L h) AND UV_HANDLE_CLOSING \<noteq> 0 then L
               else if flags (timers L h) AND UV_HANDLE_ACTIVE \<noteq> 0 then uv__active_handle_add L else L))"

definition uv__handle_unref :: "nat \<Rightarrow> uv_loop \<Rightarrow> uv_loop" where
  "uv__handle_unref h L =
     (if flags (timers L h) AND UV_HANDLE_REF = 0 then L
      else (let L = upd_timer h (\<lambda>t. t\<lparr>flags := flags t AND NOT UV_HANDLE_REF\<rparr>) L
            in if flags (timers L h) AND UV_HANDLE_CLOSING \<noteq> 0 then L
               else if flags (timers L h) AND UV_HANDLE_ACTIVE \<noteq> 0 then uv__active_handle_rm L else L))"

section \<open>Timers\<close>

definition timer_less_than :: "uv_loop \<Rightarrow> nat \<Rightarrow> nat \<Rightarrow> bool" where
  "timer_less_than L ha hb =
     (let a = timers L ha; b = timers L hb
      in if timeout a < timeout b then True
         else if timeout b < timeout a then False
         else start_id a < start_id b)"

definition uv_timer_init :: "nat \<Rightarrow> uv_loop \<Rightarrow> int \<times> uv_loop" where
  "uv_timer_init h L = (0, upd_timer h (\<lambda>t. t\<lparr>flags := UV_HANDLE_REF, timer_cb := None, repeat := 0\<rparr>) L)"

definition uv_timer_stop :: "nat \<Rightarrow> uv_loop \<Rightarrow> (int \<times> uv_loop) option" where
  "uv_timer_stop h L =
     (if \<not> uv__is_active (timers L h) then Some (0, L)
      else (case heap_remove (timer_less_than L) (timer_heap L) h of
              None \<Rightarrow> None
            | Some q \<Rightarrow> Some (0, uv__handle_stop h (L\<lparr>timer_heap := q\<rparr>))))"

definition uv_timer_start :: "nat \<Rightarrow> nat option \<Rightarrow> 64 word \<Rightarrow> 64 word \<Rightarrow> uv_loop \<Rightarrow> (int \<times> uv_loop) option" where
  "uv_timer_start h cb timeout_ms repeat_ms L =
     (if uv__is_closing (timers L h) \<or> cb = None then Some (UV_EINVAL, L)
      else (case (if uv__is_active (timers L h) then uv_timer_stop h L else Some (0, L)) of
              None \<Rightarrow> None
            | Some (_, L) \<Rightarrow>
                (let clamped_timeout = time L + timeout_ms;
                     clamped_timeout = (if clamped_timeout < timeout_ms then - 1 else clamped_timeout);
                     L = upd_timer h (\<lambda>t. t\<lparr>timer_cb := cb, timeout := clamped_timeout, repeat := repeat_ms,
                       start_id := timer_counter L\<rparr>) L;
                     L = L\<lparr>timer_counter := timer_counter L + 1\<rparr>
                 in case heap_insert (timer_less_than L) (timer_heap L) h of
                      None \<Rightarrow> None
                    | Some q \<Rightarrow> Some (0, uv__handle_start h (L\<lparr>timer_heap := q\<rparr>)))))"

definition uv_timer_again :: "nat \<Rightarrow> uv_loop \<Rightarrow> (int \<times> uv_loop) option" where
  "uv_timer_again h L =
     (if timer_cb (timers L h) = None then Some (UV_EINVAL, L)
      else if repeat (timers L h) \<noteq> 0
      then (case uv_timer_stop h L of
              None \<Rightarrow> None
            | Some (_, L) \<Rightarrow>
                (case uv_timer_start h (timer_cb (timers L h)) (repeat (timers L h)) (repeat (timers L h)) L of
                   None \<Rightarrow> None
                 | Some (_, L) \<Rightarrow> Some (0, L)))
      else Some (0, L))"

definition uv_timer_set_repeat :: "nat \<Rightarrow> 64 word \<Rightarrow> uv_loop \<Rightarrow> uv_loop" where
  "uv_timer_set_repeat h r L = upd_timer h (\<lambda>t. t\<lparr>repeat := r\<rparr>) L"

definition uv_timer_get_repeat :: "nat \<Rightarrow> uv_loop \<Rightarrow> 64 word" where
  "uv_timer_get_repeat h L = repeat (timers L h)"

definition uv__next_timeout :: "uv_loop \<Rightarrow> int" where
  "uv__next_timeout L =
     (case heap_min (timer_heap L) of
        None \<Rightarrow> - 1
      | Some h \<Rightarrow>
          (if timeout (timers L h) \<le> time L then 0
           else (let diff = timeout (timers L h) - time L;
                     diff = (if INT_MAX64 < diff then INT_MAX64 else diff)
                 in sint (ucast diff :: 32 word))))"

text \<open>\<open>run\<close> is what a callback does to the loop, and to the state \<open>'s\<close> of the program.\<close>

partial_function (option) uv__run_timers ::
  "(nat \<Rightarrow> nat \<Rightarrow> uv_loop \<times> 's \<Rightarrow> uv_loop \<times> 's) \<Rightarrow> uv_loop \<times> 's \<Rightarrow> (uv_loop \<times> 's) option" where
  "uv__run_timers run Ls =
     (case heap_min (timer_heap (fst Ls)) of
        None \<Rightarrow> Some Ls
      | Some h \<Rightarrow>
          (if time (fst Ls) < timeout (timers (fst Ls) h) then Some Ls
           else (case uv_timer_stop h (fst Ls) of
                   None \<Rightarrow> None
                 | Some (_, L) \<Rightarrow>
                     (case uv_timer_again h L of
                        None \<Rightarrow> None
                      | Some (_, L) \<Rightarrow>
                          (case timer_cb (timers L h) of
                             None \<Rightarrow> None
                           | Some cb \<Rightarrow> uv__run_timers run (run cb h (L, snd Ls)))))))"

definition uv__timer_close :: "nat \<Rightarrow> uv_loop \<Rightarrow> uv_loop option" where
  "uv__timer_close h L = map_option snd (uv_timer_stop h L)"

end
