(* ===== verification/UvTimerSpec.thy ===== *)
theory UvTimerSpec
  imports UvTimer
begin

text \<open>
  The timers of a loop as a state machine: in every state that the operations reach, the heap holds exactly
  the active timers, ordered by deadline, and the count of active handles is right. From this follow the
  timeout of the poll and the order in which callbacks run.
\<close>

section \<open>Deadlines\<close>

datatype deadline = Deadline (due_at: "64 word") (serial: "64 word")

instantiation deadline :: linorder
begin

definition less_eq_deadline :: "deadline \<Rightarrow> deadline \<Rightarrow> bool" where
  "less_eq_deadline a b \<longleftrightarrow> due_at a < due_at b \<or> due_at a = due_at b \<and> serial a \<le> serial b"

definition less_deadline :: "deadline \<Rightarrow> deadline \<Rightarrow> bool" where
  "less_deadline a b \<longleftrightarrow> due_at a < due_at b \<or> due_at a = due_at b \<and> serial a < serial b"

instance
  by standard (auto simp: less_eq_deadline_def less_deadline_def intro: deadline.expand)

end

definition deadline_of :: "uv_timer \<Rightarrow> deadline" where
  "deadline_of t = Deadline (timeout t) (start_id t)"

abbreviation deadline_in :: "uv_loop \<Rightarrow> nat \<Rightarrow> deadline" where
  "deadline_in L h \<equiv> deadline_of (timers L h)"

lemma timer_less_deadline: "timer_less_than L a b \<longleftrightarrow> deadline_in L a < deadline_in L b"
  by (auto simp: timer_less_than_def Let_def deadline_of_def less_deadline_def)

interpretation timer_order: weak_order "timer_less_than L"
  by unfold_locales (auto simp: timer_less_deadline)

section \<open>Flags\<close>

lemma flag_bits:
  "uv__is_active t \<longleftrightarrow> bit (flags t) 2" "uv__has_ref t \<longleftrightarrow> bit (flags t) 3" "uv__is_closing t \<longleftrightarrow> bit (flags t) 0 \<or> bit (flags t) 1"
proof -
  have m: "v AND 2 ^ n = 0 \<longleftrightarrow> \<not> bit v n" for v :: "32 word" and n by (rule and_exp_eq_0_iff_not_bit)
  show "uv__is_active t \<longleftrightarrow> bit (flags t) 2" "uv__has_ref t \<longleftrightarrow> bit (flags t) 3"
    using m [of "flags t" 2] m [of "flags t" 3] by (simp_all add: uv__is_active_def uv__has_ref_def)
  have "flags t AND (UV_HANDLE_CLOSING OR UV_HANDLE_CLOSED) = 0 \<longleftrightarrow> flags t AND 2 ^ 0 = 0 \<and> flags t AND 2 ^ 1 = 0"
    unfolding bit.conj_disj_distrib or_eq_0_iff by simp
  then show "uv__is_closing t \<longleftrightarrow> bit (flags t) 0 \<or> bit (flags t) 1" unfolding m by (simp add: uv__is_closing_def)
qed

lemma flag_simps:
  "uv__is_active (t\<lparr>flags := flags t OR UV_HANDLE_ACTIVE\<rparr>)" "\<not> uv__is_active (t\<lparr>flags := flags t AND NOT UV_HANDLE_ACTIVE\<rparr>)"
  "uv__has_ref (t\<lparr>flags := flags t OR UV_HANDLE_ACTIVE\<rparr>) = uv__has_ref t"
  "uv__has_ref (t\<lparr>flags := flags t AND NOT UV_HANDLE_ACTIVE\<rparr>) = uv__has_ref t"
  "uv__is_closing (t\<lparr>flags := flags t AND NOT UV_HANDLE_ACTIVE\<rparr>) = uv__is_closing t"
  "uv__is_active (t\<lparr>flags := flags t OR UV_HANDLE_REF\<rparr>) = uv__is_active t" "uv__has_ref (t\<lparr>flags := flags t OR UV_HANDLE_REF\<rparr>)"
  "uv__is_active (t\<lparr>flags := flags t AND NOT UV_HANDLE_REF\<rparr>) = uv__is_active t" "\<not> uv__has_ref (t\<lparr>flags := flags t AND NOT UV_HANDLE_REF\<rparr>)"
  "uv__is_active (t\<lparr>flags := flags t OR UV_HANDLE_CLOSING\<rparr>) = uv__is_active t"
  "uv__has_ref (t\<lparr>flags := flags t OR UV_HANDLE_CLOSING\<rparr>) = uv__has_ref t"
  "\<not> uv__is_active (t\<lparr>flags := UV_HANDLE_REF, timer_cb := cb, repeat := r\<rparr>)"
proof -
  have b: "bit (2 ^ m :: 32 word) k \<longleftrightarrow> k = m \<and> m < 32" for m k by (auto simp: bit_exp_iff)
  have c: "bit (1 :: 32 word) k \<longleftrightarrow> k = 0" "bit (4 :: 32 word) k \<longleftrightarrow> k = 2" "bit (8 :: 32 word) k \<longleftrightarrow> k = 3" for k
    using b [of 0 k] b [of 2 k] b [of 3 k] by simp_all
  have d: "(2 :: nat) \<noteq> 3" "(2 :: nat) \<noteq> 0" "(3 :: nat) \<noteq> 2" "(3 :: nat) \<noteq> 0" "(0 :: nat) \<noteq> 2" "(1 :: nat) \<noteq> 2" "(0 :: nat) \<noteq> 3" "(1 :: nat) \<noteq> 3"
    "(1 :: nat) \<noteq> 0"
    by simp_all
  have f: "flags (t\<lparr>flags := x\<rparr>) = x" "flags (t\<lparr>flags := x, timer_cb := cb, repeat := r\<rparr>) = x" for x by simp_all
  have p: "possible_bit TYPE(32 word) 0" "possible_bit TYPE(32 word) 1" "possible_bit TYPE(32 word) 2" "possible_bit TYPE(32 word) 3"
    by simp_all
  show "uv__is_active (t\<lparr>flags := flags t OR UV_HANDLE_ACTIVE\<rparr>)" "\<not> uv__is_active (t\<lparr>flags := flags t AND NOT UV_HANDLE_ACTIVE\<rparr>)"
    "uv__has_ref (t\<lparr>flags := flags t OR UV_HANDLE_ACTIVE\<rparr>) = uv__has_ref t"
    "uv__has_ref (t\<lparr>flags := flags t AND NOT UV_HANDLE_ACTIVE\<rparr>) = uv__has_ref t"
    "uv__is_closing (t\<lparr>flags := flags t AND NOT UV_HANDLE_ACTIVE\<rparr>) = uv__is_closing t"
    "uv__is_active (t\<lparr>flags := flags t OR UV_HANDLE_REF\<rparr>) = uv__is_active t" "uv__has_ref (t\<lparr>flags := flags t OR UV_HANDLE_REF\<rparr>)"
    "uv__is_active (t\<lparr>flags := flags t AND NOT UV_HANDLE_REF\<rparr>) = uv__is_active t" "\<not> uv__has_ref (t\<lparr>flags := flags t AND NOT UV_HANDLE_REF\<rparr>)"
    "uv__is_active (t\<lparr>flags := flags t OR UV_HANDLE_CLOSING\<rparr>) = uv__is_active t"
    "uv__has_ref (t\<lparr>flags := flags t OR UV_HANDLE_CLOSING\<rparr>) = uv__has_ref t"
    "\<not> uv__is_active (t\<lparr>flags := UV_HANDLE_REF, timer_cb := cb, repeat := r\<rparr>)"
    unfolding flag_bits f by (simp_all only: bit_or_iff bit_and_iff bit_not_iff c d p simp_thms)
qed

lemmas flag_normal [simp] = flag_simps flag_simps [simplified]

section \<open>The invariant\<close>

definition active_timers :: "uv_loop \<Rightarrow> nat set" where
  "active_timers L = {h. uv__is_active (timers L h)}"

definition counted_timers :: "uv_loop \<Rightarrow> nat set" where
  "counted_timers L = {h. uv__is_active (timers L h) \<and> uv__has_ref (timers L h)}"

definition timer_inv :: "uv_loop \<Rightarrow> bool" where
  "timer_inv L \<longleftrightarrow>
     heap_of (timer_less_than L) (timer_heap L) (active_timers L) \<and> card (active_timers L) < 2 ^ 32 \<and>
     (\<forall>h\<in>active_timers L. timer_cb (timers L h) \<noteq> None) \<and> active_handles L = of_nat (card (counted_timers L))"

lemma active_iff: "h \<in> active_timers L \<longleftrightarrow> uv__is_active (timers L h)"
  by (simp add: active_timers_def)

lemma finite_timers: "timer_inv L \<Longrightarrow> finite (active_timers L) \<and> finite (counted_timers L)"
proof -
  assume "timer_inv L"
  then have "finite (active_timers L)" using heap_of_finite by (auto simp: timer_inv_def)
  moreover have "counted_timers L \<subseteq> active_timers L" by (auto simp: counted_timers_def active_timers_def)
  ultimately show ?thesis using finite_subset by blast
qed

lemma heap_of_timers:
  assumes "heap_of (timer_less_than L) q S" "\<And>h. h \<in> S \<Longrightarrow> deadline_in L' h = deadline_in L h"
  shows "heap_of (timer_less_than L') q S"
  by (rule heap_of_cong [OF assms(1)]) (simp add: timer_less_deadline assms(2))

lemma upd_simps [simp]:
  "timers (upd_timer h f L) = (timers L)(h := f (timers L h))" "timer_heap (upd_timer h f L) = timer_heap L"
  "time (upd_timer h f L) = time L" "timer_counter (upd_timer h f L) = timer_counter L" "active_handles (upd_timer h f L) = active_handles L"
  by (simp_all add: upd_timer_def)

text \<open>The effect of the macros on a timer that is not yet active, or is active.\<close>

lemma handle_start:
  assumes "\<not> uv__is_active (timers L h)"
  shows "uv__handle_start h L = (upd_timer h (\<lambda>t. t\<lparr>flags := flags t OR UV_HANDLE_ACTIVE\<rparr>) L)
    \<lparr>active_handles := active_handles L + (if uv__has_ref (timers L h) then 1 else 0)\<rparr>"
  using assms flag_simps(3) [of "timers L h"]
  by (simp add: uv__handle_start_def uv__is_active_def uv__has_ref_def Let_def uv__active_handle_add_def upd_timer_def)

lemma handle_stop:
  assumes "uv__is_active (timers L h)"
  shows "uv__handle_stop h L = (upd_timer h (\<lambda>t. t\<lparr>flags := flags t AND NOT UV_HANDLE_ACTIVE\<rparr>) L)
    \<lparr>active_handles := active_handles L - (if uv__has_ref (timers L h) then 1 else 0)\<rparr>"
  using assms flag_simps(4) [of "timers L h"]
  by (simp add: uv__handle_stop_def uv__is_active_def uv__has_ref_def Let_def uv__active_handle_rm_def upd_timer_def)

section \<open>Operations keep the invariant\<close>

lemma invI:
  assumes "heap_of (timer_less_than L0) q S" "\<And>h. h \<in> S \<Longrightarrow> deadline_in L h = deadline_in L0 h" "timer_heap L = q" "active_timers L = S"
    and "card S < 2 ^ 32" "\<And>h. h \<in> S \<Longrightarrow> timer_cb (timers L h) \<noteq> None" "active_handles L = of_nat (card (counted_timers L))"
  shows "timer_inv L"
  using heap_of_timers [OF assms(1,2)] assms(3-7) by (simp add: timer_inv_def)

definition stopped :: "nat \<Rightarrow> uv_loop \<Rightarrow> uv_loop \<Rightarrow> bool" where
  "stopped h L L' \<longleftrightarrow> time L' = time L \<and> timer_counter L' = timer_counter L \<and>
     timers L' = (timers L)(h := (timers L h)\<lparr>flags := flags (timers L' h)\<rparr>) \<and>
     uv__is_closing (timers L' h) = uv__is_closing (timers L h) \<and> uv__has_ref (timers L' h) = uv__has_ref (timers L h)"

lemma stopped_other: "stopped h L L' \<Longrightarrow> k \<noteq> h \<Longrightarrow> timers L' k = timers L k"
  unfolding stopped_def by (metis fun_upd_other)

lemma stop_ok:
  assumes "timer_inv L"
  shows "\<exists>L'. uv_timer_stop h L = Some (0, L') \<and> timer_inv L' \<and> active_timers L' = active_timers L - {h} \<and> stopped h L L'"
proof (cases "uv__is_active (timers L h)")
  case False
  then show ?thesis using assms by (simp add: uv_timer_stop_def stopped_def active_iff)
next
  case True
  note i = assms [unfolded timer_inv_def]
  have h: "h \<in> active_timers L" using True by (simp add: active_iff)
  obtain q where q: "heap_remove (timer_less_than L) (timer_heap L) h = Some q" "heap_of (timer_less_than L) q (active_timers L - {h})"
    using timer_order.heap.del_ok [of L "timer_heap L" "active_timers L" h] i h by blast
  let ?L = "uv__handle_stop h (L\<lparr>timer_heap := q\<rparr>)"
  have L: "?L = (upd_timer h (\<lambda>t. t\<lparr>flags := flags t AND NOT UV_HANDLE_ACTIVE\<rparr>) (L\<lparr>timer_heap := q\<rparr>))
    \<lparr>active_handles := active_handles L - (if uv__has_ref (timers L h) then 1 else 0)\<rparr>"
    using handle_stop [of "L\<lparr>timer_heap := q\<rparr>" h] True by simp
  have ts: "timers ?L = (timers L)(h := (timers L h)\<lparr>flags := flags (timers L h) AND NOT UV_HANDLE_ACTIVE\<rparr>)"
    unfolding L by simp
  have a: "active_timers ?L = active_timers L - {h}" unfolding active_timers_def ts by auto
  have c: "counted_timers ?L = counted_timers L - {h}" unfolding counted_timers_def ts by auto
  have hc: "h \<in> counted_timers L \<longleftrightarrow> uv__has_ref (timers L h)" using True by (simp add: counted_timers_def)
  have ah: "active_handles ?L = of_nat (card (counted_timers ?L))"
  proof (cases "uv__has_ref (timers L h)")
    case True
    then have "card (counted_timers L) = Suc (card (counted_timers L - {h}))"
      using hc finite_timers [OF assms] by (metis card_Suc_Diff1)
    then show ?thesis unfolding c using True i by (simp add: L)
  next
    case False
    then show ?thesis unfolding c using hc i by (simp add: L)
  qed
  have "timer_inv ?L"
  proof (rule invI [OF q(2)])
    show "deadline_in ?L k = deadline_in L k" if "k \<in> active_timers L - {h}" for k using that unfolding ts by simp
    show "timer_cb (timers ?L k) \<noteq> None" if "k \<in> active_timers L - {h}" for k using that i unfolding ts by simp
    show "card (active_timers L - {h}) < 2 ^ 32" using i finite_timers [OF assms] by (meson card_Diff1_le le_less_trans)
    show "timer_heap ?L = q" unfolding L by simp
  qed (rule a ah)+
  moreover have "stopped h L ?L" unfolding stopped_def ts by (simp add: L)
  ultimately show ?thesis using a q(1) True by (simp add: uv_timer_stop_def)
qed

definition clamp :: "64 word \<Rightarrow> 64 word \<Rightarrow> 64 word" where
  "clamp now t = (if unat now + unat t < 2 ^ 64 then now + t else - 1)"

lemma clamp_code: "(let c = now + t in if c < t then - 1 else c) = clamp now t"
proof -
  have "now + t < t \<longleftrightarrow> 2 ^ 64 \<le> unat now + unat t"
  proof (cases "unat now + unat t < 2 ^ 64")
    case True
    then show ?thesis by (simp add: word_less_nat_alt unat_word_ariths)
  next
    case False
    then have "(unat now + unat t) mod 2 ^ 64 = unat now + unat t - 2 ^ 64"
      using unsigned_less [of now, where 'a = nat] unsigned_less [of t, where 'a = nat] by (simp add: le_mod_geq)
    then show ?thesis using False unsigned_less [of now, where 'a = nat] by (simp add: word_less_nat_alt unat_word_ariths)
  qed
  then show ?thesis by (auto simp: clamp_def Let_def)
qed

lemma start_ok:
  assumes "timer_inv L" "\<not> uv__is_closing (timers L h)" "card (active_timers L - {h}) + 1 < 2 ^ 32"
  shows "\<exists>L'. uv_timer_start h (Some cb) t r L = Some (0, L') \<and> timer_inv L' \<and> active_timers L' = insert h (active_timers L) \<and>
    time L' = time L \<and> timer_counter L' = timer_counter L + 1 \<and>
    timers L' = (timers L)(h := \<lparr>flags = flags (timers L' h), timer_cb = Some cb, timeout = clamp (time L) t, repeat = r, start_id = timer_counter L\<rparr>)"
proof -
  obtain L1 where L1: "uv_timer_stop h L = Some (0, L1)" "timer_inv L1" "active_timers L1 = active_timers L - {h}" "stopped h L L1"
    using stop_ok [OF assms(1)] by blast
  have st: "(if uv__is_active (timers L h) then uv_timer_stop h L else Some (0, L)) = Some (0, L1)"
    using L1(1) by (auto simp: uv_timer_stop_def)
  note i = L1(2) [unfolded timer_inv_def]
  have h: "h \<notin> active_timers L1" using L1(3) by simp
  have na: "\<not> uv__is_active (timers L1 h)" using h by (simp add: active_iff)
  let ?f = "\<lambda>u. u\<lparr>timer_cb := Some cb, timeout := clamp (time L1) t, repeat := r, start_id := timer_counter L1\<rparr>"
  let ?L2 = "(upd_timer h ?f L1)\<lparr>timer_counter := timer_counter L1 + 1\<rparr>"
  have h2: "heap_of (timer_less_than ?L2) (timer_heap L1) (active_timers L1)"
    by (rule heap_of_timers [of L1]) (use i h in auto)
  then obtain q where q: "heap_insert (timer_less_than ?L2) (timer_heap L1) h = Some q" "heap_of (timer_less_than ?L2) q (insert h (active_timers L1))"
    using timer_order.heap.ins_ok [of ?L2 "timer_heap L1" "active_timers L1" h] h L1(3) assms(3) by auto
  let ?L = "uv__handle_start h (?L2\<lparr>timer_heap := q\<rparr>)"
  have na2: "\<not> uv__is_active (timers (?L2\<lparr>timer_heap := q\<rparr>) h)" "uv__has_ref (timers (?L2\<lparr>timer_heap := q\<rparr>) h) = uv__has_ref (timers L1 h)"
    using na by (simp_all add: uv__is_active_def uv__has_ref_def)
  have L: "?L = (upd_timer h (\<lambda>t. t\<lparr>flags := flags t OR UV_HANDLE_ACTIVE\<rparr>) (?L2\<lparr>timer_heap := q\<rparr>))
    \<lparr>active_handles := active_handles L1 + (if uv__has_ref (timers L1 h) then 1 else 0)\<rparr>"
    using handle_start [OF na2(1)] na2(2) by simp
  have e: "uv_timer_start h (Some cb) t r L = Some (0, ?L)"
    using assms(2) clamp_code [of "time L1" t] q(1) by (simp add: uv_timer_start_def st Let_def)
  have ts: "timers ?L = (timers L1)(h := \<lparr>flags = flags (timers L1 h) OR UV_HANDLE_ACTIVE, timer_cb = Some cb,
      timeout = clamp (time L1) t, repeat = r, start_id = timer_counter L1\<rparr>)"
    unfolding L by (cases "timers L1 h") simp
  let ?t = "timers ?L h"
  have fl: "uv__is_active ?t" "uv__has_ref ?t = uv__has_ref (timers L1 h)"
    using flag_simps(1,3) [of "timers L1 h"] unfolding ts by (simp_all add: uv__is_active_def uv__has_ref_def)
  have o: "timers ?L k = timers L1 k" if "k \<noteq> h" for k using that unfolding ts by simp
  have a: "active_timers ?L = insert h (active_timers L1)"
    using fl(1) o by (auto simp: active_timers_def) (metis o)+
  have c: "counted_timers ?L = (if uv__has_ref (timers L1 h) then insert h (counted_timers L1) else counted_timers L1)"
    using fl na by (auto simp: counted_timers_def) (metis o)+
  have "h \<notin> counted_timers L1" using na by (simp add: counted_timers_def)
  then have ah: "active_handles ?L = of_nat (card (counted_timers ?L))"
    unfolding c using i finite_timers [OF L1(2)] by (simp add: L)
  have "timer_inv ?L"
  proof (rule invI [OF q(2)])
    show "deadline_in ?L k = deadline_in ?L2 k" if "k \<in> insert h (active_timers L1)" for k
      unfolding ts by (simp add: deadline_of_def)
    show "timer_cb (timers ?L k) \<noteq> None" if "k \<in> insert h (active_timers L1)" for k using that i unfolding ts by auto
    show "card (insert h (active_timers L1)) < 2 ^ 32" using assms(3) [folded L1(3)] h finite_timers [OF L1(2)] by simp
    show "timer_heap ?L = q" unfolding L by simp
  qed (rule a ah)+
  moreover have "time ?L = time L" "timer_counter ?L = timer_counter L + 1" using L1(4) unfolding L stopped_def by simp_all
  moreover have "timers ?L = (timers L)(h := \<lparr>flags = flags ?t, timer_cb = Some cb, timeout = clamp (time L) t, repeat = r,
      start_id = timer_counter L\<rparr>)"
  proof (rule ext)
    fix k
    have "time L1 = time L" "timer_counter L1 = timer_counter L" using L1(4) unfolding stopped_def by blast+
    then show "timers ?L k = ((timers L)(h := \<lparr>flags = flags ?t, timer_cb = Some cb, timeout = clamp (time L) t, repeat = r,
      start_id = timer_counter L\<rparr>)) k"
      using stopped_other [OF L1(4), of k] unfolding ts by simp
  qed
  ultimately show ?thesis using e a L1(3) by blast
qed

lemma again_ok:
  assumes "timer_inv L" "card (active_timers L - {h}) + 1 < 2 ^ 32"
  shows "\<exists>r L'. uv_timer_again h L = Some (r, L') \<and> timer_inv L' \<and> time L' = time L \<and>
    (\<forall>k. k \<noteq> h \<longrightarrow> timers L' k = timers L k) \<and> timer_cb (timers L' h) = timer_cb (timers L h) \<and>
    (if timer_cb (timers L h) = None \<or> repeat (timers L h) = 0 then r = (if timer_cb (timers L h) = None then UV_EINVAL else 0) \<and> L' = L
     else if uv__is_closing (timers L h) then active_timers L' = active_timers L - {h}
     else active_timers L' = insert h (active_timers L) \<and> timeout (timers L' h) = clamp (time L) (repeat (timers L h)))"
proof (cases "timer_cb (timers L h) = None \<or> repeat (timers L h) = 0")
  case True
  then show ?thesis using assms(1) by (auto simp: uv_timer_again_def)
next
  case False
  then obtain cb where cb: "timer_cb (timers L h) = Some cb" "repeat (timers L h) \<noteq> 0" by auto
  obtain L1 where L1: "uv_timer_stop h L = Some (0, L1)" "timer_inv L1" "active_timers L1 = active_timers L - {h}" "stopped h L L1"
    using stop_ok [OF assms(1)] by blast
  have t1: "timer_cb (timers L1 h) = Some cb" "repeat (timers L1 h) = repeat (timers L h)" "time L1 = time L"
    "uv__is_closing (timers L1 h) = uv__is_closing (timers L h)"
    and o: "k \<noteq> h \<Longrightarrow> timers L1 k = timers L k" for k
  proof -
    have e: "timers L1 = (timers L)(h := (timers L h)\<lparr>flags := flags (timers L1 h)\<rparr>)" using L1(4) unfolding stopped_def by blast
    show "timer_cb (timers L1 h) = Some cb" "repeat (timers L1 h) = repeat (timers L h)" by (subst e, simp add: cb)+
    show "time L1 = time L" "uv__is_closing (timers L1 h) = uv__is_closing (timers L h)" using L1(4) unfolding stopped_def by blast+
    show "k \<noteq> h \<Longrightarrow> timers L1 k = timers L k" by (subst e) simp
  qed
  show ?thesis
  proof (cases "uv__is_closing (timers L h)")
    case True
    then have "uv_timer_again h L = Some (0, L1)" using cb t1 L1(1) by (simp add: uv_timer_again_def uv_timer_start_def)
    then show ?thesis using True cb L1 t1 o by auto
  next
    case False
    then have ncl: "\<not> uv__is_closing (timers L1 h)" using t1 by simp
    have card: "card (active_timers L1 - {h}) + 1 < 2 ^ 32" using assms(2) L1(3) by simp
    obtain L2 where L2: "uv_timer_start h (Some cb) (repeat (timers L h)) (repeat (timers L h)) L1 = Some (0, L2)" "timer_inv L2"
      "active_timers L2 = insert h (active_timers L1)" "time L2 = time L1"
      "timers L2 = (timers L1)(h := \<lparr>flags = flags (timers L2 h), timer_cb = Some cb, timeout = clamp (time L1) (repeat (timers L h)),
        repeat = repeat (timers L h), start_id = timer_counter L1\<rparr>)"
      using start_ok [OF L1(2) ncl card] by blast
    have t2: "timer_cb (timers L2 h) = Some cb" "timeout (timers L2 h) = clamp (time L1) (repeat (timers L h))"
      "k \<noteq> h \<Longrightarrow> timers L2 k = timers L1 k" for k
      by (subst L2(5), simp)+
    have "uv_timer_again h L = Some (0, L2)" using cb t1 L1(1) L2(1) by (simp add: uv_timer_again_def)
    then show ?thesis using False cb L1(3) L2 t1 t2 o by auto
  qed
qed

section \<open>Reachable states\<close>

text \<open>A loop before its first timer, and what the program can do to its timers: the operations of \<open>timer.c\<close>, a
  reference taken or dropped, closing a handle as \<open>uv_close\<close> does, and the passing of time. A program has fewer
  than \<open>2 ^ 32\<close> timers.\<close>

definition fresh_loop :: "uv_loop \<Rightarrow> bool" where
  "fresh_loop L \<longleftrightarrow> (\<exists>q. timer_heap L = heap_init q) \<and> active_handles L = 0 \<and> (\<forall>h. \<not> uv__is_active (timers L h))"

inductive timer_step :: "uv_loop \<Rightarrow> uv_loop \<Rightarrow> bool" where
  init: "\<not> uv__is_active (timers L h) \<Longrightarrow> timer_step L (snd (uv_timer_init h L))"
| start: "card (active_timers L) + 1 < 2 ^ 32 \<Longrightarrow> uv_timer_start h cb t r L = Some (e, L') \<Longrightarrow> timer_step L L'"
| stop: "uv_timer_stop h L = Some (e, L') \<Longrightarrow> timer_step L L'"
| again: "card (active_timers L) + 1 < 2 ^ 32 \<Longrightarrow> uv_timer_again h L = Some (e, L') \<Longrightarrow> timer_step L L'"
| set_repeat: "timer_step L (uv_timer_set_repeat h r L)"
| ref: "\<not> uv__is_closing (timers L h) \<Longrightarrow> timer_step L (uv__handle_ref h L)"
| unref: "\<not> uv__is_closing (timers L h) \<Longrightarrow> timer_step L (uv__handle_unref h L)"
| close: "uv__timer_close h (upd_timer h (\<lambda>t. t\<lparr>flags := flags t OR UV_HANDLE_CLOSING\<rparr>) L) = Some L' \<Longrightarrow> timer_step L L'"
| pass_time: "timer_step L (L\<lparr>time := now\<rparr>)"

inductive_cases timer_stepE: "timer_step L L'"

inductive reachable :: "uv_loop \<Rightarrow> bool" where
  fresh: "fresh_loop L \<Longrightarrow> reachable L"
| step: "reachable L \<Longrightarrow> timer_step L L' \<Longrightarrow> reachable L'"

lemma inv_fresh: "fresh_loop L \<Longrightarrow> timer_inv L"
  using heap_of_init by (auto simp: fresh_loop_def timer_inv_def active_timers_def counted_timers_def)

text \<open>Updates of a handle that touch neither the deadline of an active timer nor who is active.\<close>

lemma inv_upd:
  assumes "timer_inv L" "timer_heap L' = timer_heap L" "active_timers L' = active_timers L"
    and "\<And>k. k \<in> active_timers L \<Longrightarrow> deadline_in L' k = deadline_in L k \<and> timer_cb (timers L' k) = timer_cb (timers L k)"
    and "active_handles L' = of_nat (card (counted_timers L'))"
  shows "timer_inv L'"
  using assms(1) assms(2-5) by (intro invI [of L "timer_heap L" "active_timers L"]) (auto simp: timer_inv_def)

lemma inv_same:
  assumes "timer_inv L" "timer_heap L' = timer_heap L" "active_timers L' = active_timers L" "counted_timers L' = counted_timers L"
    and "\<And>k. k \<in> active_timers L \<Longrightarrow> deadline_in L' k = deadline_in L k \<and> timer_cb (timers L' k) = timer_cb (timers L k)"
    and "active_handles L' = active_handles L"
  shows "timer_inv L'"
  using assms(1) by (intro inv_upd [OF assms(1-3,5)]) (simp_all add: assms(4,6) timer_inv_def)

lemma inv_ref:
  assumes "timer_inv L" "\<not> uv__is_closing (timers L h)"
  shows "timer_inv (uv__handle_ref h L)" and "timer_inv (uv__handle_unref h L)"
proof -
  have nc: "flags (timers L h) AND UV_HANDLE_CLOSING = 0"
    using assms(2) and_exp_eq_0_iff_not_bit [of "flags (timers L h)" 0] by (simp add: flag_bits)
  note i = assms(1) [unfolded timer_inv_def] and f = finite_timers [OF assms(1)]
  show "timer_inv (uv__handle_ref h L)"
  proof (cases "uv__has_ref (timers L h)")
    case True
    then show ?thesis using assms(1) by (simp add: uv__handle_ref_def uv__has_ref_def)
  next
    case False
    let ?L = "upd_timer h (\<lambda>t. t\<lparr>flags := flags t OR UV_HANDLE_REF\<rparr>) L"
    let ?a = "uv__is_active (timers L h)"
    have fl: "flags (timers L h) AND UV_HANDLE_REF = 0" "(flags (timers L h) OR UV_HANDLE_REF) AND UV_HANDLE_CLOSING = 0"
      "(flags (timers L h) OR UV_HANDLE_REF) AND UV_HANDLE_ACTIVE = 0 \<longleftrightarrow> \<not> ?a"
      using False nc flag_simps(6) [of "timers L h"]
      by (simp_all add: uv__has_ref_def uv__is_active_def bit.conj_disj_distrib2)
    have e: "uv__handle_ref h L = (if ?a then uv__active_handle_add ?L else ?L)"
      using fl by (simp add: uv__handle_ref_def Let_def)
    have c: "counted_timers (uv__handle_ref h L) = (if ?a then insert h (counted_timers L) else counted_timers L)"
      using False unfolding e by (auto simp: counted_timers_def uv__active_handle_add_def split: if_splits)
    have "h \<notin> counted_timers L" using False by (simp add: counted_timers_def)
    then have ah: "active_handles (uv__handle_ref h L) = of_nat (card (counted_timers (uv__handle_ref h L)))"
      unfolding c using i f by (simp add: e uv__active_handle_add_def)
    show ?thesis
      by (rule inv_upd [OF assms(1) _ _ _ ah])
        (auto simp: e uv__active_handle_add_def active_timers_def deadline_of_def split: if_splits)
  qed
  show "timer_inv (uv__handle_unref h L)"
  proof (cases "uv__has_ref (timers L h)")
    case False
    then show ?thesis using assms(1) by (simp add: uv__handle_unref_def uv__has_ref_def)
  next
    case True
    let ?L = "upd_timer h (\<lambda>t. t\<lparr>flags := flags t AND NOT UV_HANDLE_REF\<rparr>) L"
    let ?a = "uv__is_active (timers L h)"
    have "(flags (timers L h) AND NOT UV_HANDLE_REF) AND UV_HANDLE_CLOSING = (flags (timers L h) AND UV_HANDLE_CLOSING) AND NOT UV_HANDLE_REF"
      by (simp only: ac_simps)
    then have fl: "flags (timers L h) AND UV_HANDLE_REF \<noteq> 0" "(flags (timers L h) AND NOT UV_HANDLE_REF) AND UV_HANDLE_CLOSING = 0"
      "(flags (timers L h) AND NOT UV_HANDLE_REF) AND UV_HANDLE_ACTIVE = 0 \<longleftrightarrow> \<not> ?a"
      using True nc flag_simps(8) [of "timers L h"] by (simp_all add: uv__has_ref_def uv__is_active_def)
    have e: "uv__handle_unref h L = (if ?a then uv__active_handle_rm ?L else ?L)"
      using fl by (simp add: uv__handle_unref_def Let_def)
    have c: "counted_timers (uv__handle_unref h L) = counted_timers L - {h}"
      using True unfolding e by (auto simp: counted_timers_def uv__active_handle_rm_def split: if_splits)
    have hc: "h \<in> counted_timers L \<longleftrightarrow> ?a" using True by (simp add: counted_timers_def)
    have ah: "active_handles (uv__handle_unref h L) = of_nat (card (counted_timers (uv__handle_unref h L)))"
    proof (cases ?a)
      case True
      then have "card (counted_timers L) = Suc (card (counted_timers L - {h}))" using hc f by (metis card_Suc_Diff1)
      then show ?thesis unfolding c using True i by (simp add: e uv__active_handle_rm_def)
    next
      case False
      then show ?thesis unfolding c using hc i by (simp add: e)
    qed
    show ?thesis
      by (rule inv_upd [OF assms(1) _ _ _ ah])
        (auto simp: e uv__active_handle_rm_def active_timers_def deadline_of_def split: if_splits)
  qed
qed

lemma card_without: "timer_inv L \<Longrightarrow> card (active_timers L) + 1 < 2 ^ 32 \<Longrightarrow> card (active_timers L - {h}) + 1 < 2 ^ 32"
  using finite_timers [of L] card_Diff1_le [of "active_timers L" h] by linarith

lemma inv_step:
  assumes "timer_inv L" "timer_step L L'"
  shows "timer_inv L'"
  using assms(2)
proof cases
  case (init h)
  note i = assms(1)
  show ?thesis
    using init by (intro inv_same [OF i]) (auto simp: uv_timer_init_def active_timers_def deadline_of_def counted_timers_def)
next
  case (start h cb t r e)
  show ?thesis
  proof (cases "uv__is_closing (timers L h) \<or> cb = None")
    case True
    then show ?thesis using start(2) assms(1) by (auto simp: uv_timer_start_def)
  next
    case False
    then obtain c where c: "cb = Some c" "\<not> uv__is_closing (timers L h)" by auto
    obtain L2 where "uv_timer_start h (Some c) t r L = Some (0, L2)" "timer_inv L2"
      using start_ok [OF assms(1) c(2) card_without [OF assms(1) start(1)]] by blast
    then show ?thesis using start(2) c(1) by simp
  qed
next
  case (stop h e)
  then show ?thesis using stop_ok [OF assms(1), of h] by auto
next
  case (again h e)
  then show ?thesis using again_ok [OF assms(1) card_without [OF assms(1)], of h] by auto
next
  case (set_repeat h r)
  note i = assms(1)
  show ?thesis
    unfolding set_repeat
    by (intro inv_same [OF i])
      (auto simp: uv_timer_set_repeat_def active_timers_def deadline_of_def counted_timers_def uv__is_active_def uv__has_ref_def split: if_splits)
next
  case (ref h)
  then show ?thesis using inv_ref(1) [OF assms(1)] by simp
next
  case (unref h)
  then show ?thesis using inv_ref(2) [OF assms(1)] by simp
next
  case (close h)
  let ?L = "upd_timer h (\<lambda>t. t\<lparr>flags := flags t OR UV_HANDLE_CLOSING\<rparr>) L"
  have i: "timer_inv ?L"
    by (intro inv_same [OF assms(1)]) (auto simp: active_timers_def deadline_of_def counted_timers_def split: if_splits)
  obtain L2 where L2: "uv_timer_stop h ?L = Some (0, L2)" "timer_inv L2" using stop_ok [OF i] by blast
  have "uv__timer_close h ?L = Some L2" unfolding uv__timer_close_def L2(1) by simp
  then have "L' = L2" using close by (simp only: option.inject)
  then show ?thesis using L2(2) by simp
next
  case (pass_time now)
  then show ?thesis
    by (intro inv_same [OF assms(1)]) (auto simp: active_timers_def counted_timers_def)
qed

lemma inv_reachable: "reachable L \<Longrightarrow> timer_inv L"
  by (induction rule: reachable.induct) (auto intro: inv_fresh inv_step)

section \<open>Running the timers\<close>

lemma next_timer:
  assumes "timer_inv L"
  shows "heap_min (timer_heap L) = None \<longleftrightarrow> active_timers L = {}"
    and "heap_min (timer_heap L) = Some h \<Longrightarrow> h \<in> active_timers L \<and> (\<forall>k\<in>active_timers L. deadline_in L h \<le> deadline_in L k)"
  using timer_order.heap.least_None [of L] timer_order.heap.least_Some [of L "timer_heap L" "active_timers L" h] assms
  by (auto simp: timer_inv_def timer_less_deadline not_less)

definition due :: "uv_loop \<Rightarrow> nat set" where
  "due L = {h \<in> active_timers L. timeout (timers L h) \<le> time L}"

text \<open>A callback that only records that it has run.\<close>

definition recording :: "nat \<Rightarrow> nat \<Rightarrow> uv_loop \<times> nat list \<Rightarrow> uv_loop \<times> nat list" where
  "recording cb h Ls = (fst Ls, snd Ls @ [h])"

lemma clamp_later: "now \<noteq> - 1 \<Longrightarrow> t \<noteq> 0 \<Longrightarrow> now < clamp now t"
proof (cases "unat now + unat t < 2 ^ 64")
  case True
  assume "t \<noteq> 0"
  then have "0 < unat t" by (simp add: unat_gt_0)
  then show ?thesis using True by (simp add: clamp_def word_less_nat_alt unat_word_ariths)
next
  case False
  assume "now \<noteq> - 1"
  then show ?thesis using False by (simp add: clamp_def word_order.not_eq_extremum)
qed

lemma fire_one:
  assumes i: "timer_inv L" and t: "time L \<noteq> - 1" and h: "heap_min (timer_heap L) = Some h" and d: "timeout (timers L h) \<le> time L"
  obtains L' where "uv__run_timers recording (L, xs) = uv__run_timers recording (L', xs @ [h])" "timer_inv L'" "time L' = time L"
    "due L' = due L - {h}" "\<And>k. k \<noteq> h \<Longrightarrow> timers L' k = timers L k"
    "active_timers L' = (if repeat (timers L h) \<noteq> 0 \<and> \<not> uv__is_closing (timers L h) then active_timers L else active_timers L - {h})"
proof -
  have ha: "h \<in> active_timers L" using next_timer(2) [OF i h] by blast
  obtain cb where cb: "timer_cb (timers L h) = Some cb" using i ha by (auto simp: timer_inv_def)
  obtain L1 where L1: "uv_timer_stop h L = Some (0, L1)" "timer_inv L1" "active_timers L1 = active_timers L - {h}" "stopped h L L1"
    using stop_ok [OF i] by blast
  have e1: "timers L1 = (timers L)(h := (timers L h)\<lparr>flags := flags (timers L1 h)\<rparr>)" "time L1 = time L"
    "uv__is_closing (timers L1 h) = uv__is_closing (timers L h)"
    using L1(4) unfolding stopped_def by blast+
  have t1: "timer_cb (timers L1 h) = Some cb" "repeat (timers L1 h) = repeat (timers L h)" by (subst e1(1), simp add: cb)+
  have "card (active_timers L) = card (active_timers L1) + 1"
    using ha finite_timers [OF i] card_Suc_Diff1 [of "active_timers L" h] unfolding L1(3) by simp
  then have c1: "card (active_timers L1 - {h}) + 1 < 2 ^ 32" using i L1(3) by (simp add: timer_inv_def)
  obtain r L2 where L2: "uv_timer_again h L1 = Some (r, L2)" "timer_inv L2" "time L2 = time L1" "\<And>k. k \<noteq> h \<Longrightarrow> timers L2 k = timers L1 k"
    "timer_cb (timers L2 h) = timer_cb (timers L1 h)"
    and alt: "if timer_cb (timers L1 h) = None \<or> repeat (timers L1 h) = 0 then r = (if timer_cb (timers L1 h) = None then UV_EINVAL else 0) \<and> L2 = L1
     else if uv__is_closing (timers L1 h) then active_timers L2 = active_timers L1 - {h}
     else active_timers L2 = insert h (active_timers L1) \<and> timeout (timers L2 h) = clamp (time L1) (repeat (timers L1 h))"
    using again_ok [OF L1(2) c1] by blast
  have o: "timers L2 k = timers L k" if "k \<noteq> h" for k using L2(4) stopped_other [OF L1(4)] that by simp
  have a: "active_timers L2 = (if repeat (timers L h) \<noteq> 0 \<and> \<not> uv__is_closing (timers L h) then active_timers L else active_timers L - {h})"
    using alt t1 e1(3) L1(3) ha by (auto split: if_splits)
  have run: "uv__run_timers recording (L, xs) = uv__run_timers recording (L2, xs @ [h])"
    using h d [unfolded not_less [symmetric]] L1(1) L2(1,5) t1(1) by (subst uv__run_timers.simps) (simp add: recording_def)
  have "h \<notin> due L2"
  proof
    assume hd: "h \<in> due L2"
    then have "repeat (timers L h) \<noteq> 0 \<and> \<not> uv__is_closing (timers L h)" using a by (auto simp: due_def split: if_splits)
    then have "timeout (timers L2 h) = clamp (time L) (repeat (timers L h))" using alt t1 e1 by auto
    then have "time L < timeout (timers L2 h)" using clamp_later [OF t] \<open>repeat (timers L h) \<noteq> 0 \<and> _\<close> by simp
    then show False using hd L2(3) e1(2) by (auto simp: due_def)
  qed
  then have "due L2 = due L - {h}"
    using a o L2(3) e1(2) by (auto simp: due_def split: if_splits) (metis o)+
  then show ?thesis using that [OF run L2(2) _ _ o a] L2(3) e1(2) by simp
qed

lemma run_timers:
  assumes "timer_inv L" "time L \<noteq> - 1"
  shows "\<exists>L' xs. uv__run_timers recording (L, ys) = Some (L', ys @ xs) \<and> timer_inv L' \<and> time L' = time L \<and> due L' = {} \<and>
    set xs = due L \<and> distinct xs \<and> sorted_wrt (\<lambda>a b. deadline_in L a \<le> deadline_in L b) xs \<and>
    active_timers L' = active_timers L - {h \<in> due L. repeat (timers L h) = 0 \<or> uv__is_closing (timers L h)}"
  using assms
proof (induction "card (due L)" arbitrary: L ys rule: less_induct)
  case less
  note i = less.prems(1)
  have fin: "finite (due L)" using finite_timers [OF i] by (simp add: due_def)
  show ?case
  proof (cases "due L = {}")
    case True
    have "uv__run_timers recording (L, ys) = Some (L, ys)"
    proof (cases "heap_min (timer_heap L)")
      case (Some h)
      then have "time L < timeout (timers L h)" using next_timer(2) [OF i Some] True by (auto simp: due_def not_le)
      then show ?thesis using Some by (subst uv__run_timers.simps) simp
    qed (subst uv__run_timers.simps, simp)
    then show ?thesis using True i by (intro exI [of _ L] exI [of _ "[]"]) simp
  next
    case False
    then obtain k where k: "k \<in> active_timers L" "timeout (timers L k) \<le> time L" by (auto simp: due_def)
    then obtain h where h: "heap_min (timer_heap L) = Some h" using next_timer(1) [OF i] by blast
    have least: "h \<in> active_timers L" "\<And>k. k \<in> active_timers L \<Longrightarrow> deadline_in L h \<le> deadline_in L k" using next_timer(2) [OF i h] by blast+
    then have d: "timeout (timers L h) \<le> time L"
      using least(2) [OF k(1)] k(2) by (auto simp: less_eq_deadline_def deadline_of_def)
    then have hd: "h \<in> due L" using least(1) by (simp add: due_def)
    obtain L' where L': "uv__run_timers recording (L, ys) = uv__run_timers recording (L', ys @ [h])" "timer_inv L'" "time L' = time L"
      "due L' = due L - {h}" "\<And>k. k \<noteq> h \<Longrightarrow> timers L' k = timers L k"
      "active_timers L' = (if repeat (timers L h) \<noteq> 0 \<and> \<not> uv__is_closing (timers L h) then active_timers L else active_timers L - {h})"
      using fire_one [where xs = ys, OF i less.prems(2) h d] by blast
    have "card (due L') < card (due L)" unfolding L'(4) by (rule card_Diff1_less [OF fin hd])
    moreover have "time L' \<noteq> - 1" using less.prems(2) L'(3) by simp
    ultimately obtain L'' xs where IH: "uv__run_timers recording (L', ys @ [h]) = Some (L'', (ys @ [h]) @ xs)" "timer_inv L''" "time L'' = time L'"
      "due L'' = {}" "set xs = due L'" "distinct xs" "sorted_wrt (\<lambda>a b. deadline_in L' a \<le> deadline_in L' b) xs"
      "active_timers L'' = active_timers L' - {k \<in> due L'. repeat (timers L' k) = 0 \<or> uv__is_closing (timers L' k)}"
      using less.hyps [OF _ L'(2)] by blast
    have ne: "k \<in> due L' \<Longrightarrow> k \<noteq> h" for k using L'(4) by blast
    have "sorted_wrt (\<lambda>a b. deadline_in L a \<le> deadline_in L b) xs"
      using IH(7) by (rule sorted_wrt_mono_rel [rotated]) (use IH(5) ne L'(5) in auto)
    then have sorted: "sorted_wrt (\<lambda>a b. deadline_in L a \<le> deadline_in L b) (h # xs)"
      using IH(5) L'(4) least(2) by (auto simp: due_def)
    have "{k \<in> due L'. repeat (timers L' k) = 0 \<or> uv__is_closing (timers L' k)} = {k \<in> due L. repeat (timers L k) = 0 \<or> uv__is_closing (timers L k)} - {h}"
      using L'(4,5) by auto
    then have act: "active_timers L'' = active_timers L - {k \<in> due L. repeat (timers L k) = 0 \<or> uv__is_closing (timers L k)}"
      unfolding IH(8) L'(6) using hd by auto
    show ?thesis
      using IH(1-4) L'(1,3) sorted act IH(5,6) L'(4) hd
      by (intro exI [of _ L''] exI [of _ "h # xs"]) auto
  qed
qed

section \<open>The timeout of the poll\<close>

lemma sint_small: "unat (d :: 64 word) \<le> 2147483647 \<Longrightarrow> sint (ucast d :: 32 word) = int (unat d)"
proof -
  assume d: "unat d \<le> 2147483647"
  then have "sint (ucast d :: 32 word) = signed_take_bit 31 (int (unat d))"
    by (simp add: signed_ucast_eq)
  also have "\<dots> = int (unat d)"
  proof (rule signed_take_bit_int_eq_self)
    have "int (unat d) \<le> int 2147483647" using d by (simp only: of_nat_le_iff)
    then show "int (unat d) < 2 ^ 31" by simp
    have "- (2 ^ 31) \<le> (0 :: int)" "0 \<le> int (unat d)" by simp_all
    then show "- (2 ^ 31) \<le> int (unat d)" by (rule order_trans)
  qed
  finally show ?thesis .
qed

lemma next_timeout:
  assumes "timer_inv L"
  shows "uv__next_timeout L =
    (if active_timers L = {} then - 1
     else int (min 2147483647 (Min ((\<lambda>h. unat (timeout (timers L h))) ` active_timers L) - unat (time L))))"
proof (cases "heap_min (timer_heap L)")
  case None
  then show ?thesis using next_timer(1) [OF assms] by (simp add: uv__next_timeout_def)
next
  case (Some h)
  note h = next_timer(2) [OF assms Some]
  let ?f = "\<lambda>h. unat (timeout (timers L h))"
  have "Min (?f ` active_timers L) = ?f h"
  proof (rule Min_eqI)
    show "finite (?f ` active_timers L)" using finite_timers [OF assms] by simp
    show "?f h \<in> ?f ` active_timers L" using h by blast
    fix n
    assume "n \<in> ?f ` active_timers L"
    then obtain k where "k \<in> active_timers L" "n = ?f k" by blast
    then show "?f h \<le> n" using h by (auto simp: less_eq_deadline_def deadline_of_def word_le_nat_alt word_less_nat_alt)
  qed
  moreover have "uv__next_timeout L = int (min 2147483647 (?f h - unat (time L)))"
  proof (cases "timeout (timers L h) \<le> time L")
    case True
    then show ?thesis using Some by (simp add: uv__next_timeout_def word_le_nat_alt)
  next
    case False
    then have "unat (timeout (timers L h) - time L) = ?f h - unat (time L)" by (simp add: unat_sub_if' word_le_nat_alt)
    then show ?thesis using Some False sint_small [of "timeout (timers L h) - time L"]
      by (auto simp: uv__next_timeout_def Let_def word_less_nat_alt not_less min_def)
  qed
  ultimately show ?thesis using h by auto
qed

end
