(* ===== verification/UvInet.thy ===== *)
theory UvInet
  imports Prelude
begin

text \<open>
  \<open>libuv/src/strscpy.c\<close> and \<open>libuv/src/inet.c\<close>: bounded copies, and the text of IPv4 and IPv6 addresses. A C string
  that is read is the list of its bytes before the NUL; a buffer that is written is the bytes of its
  memory. The error codes and address families are those of Darwin.
\<close>

abbreviation UV_EINVAL :: int where "UV_EINVAL \<equiv> - 22"
abbreviation UV_E2BIG :: int where "UV_E2BIG \<equiv> - 7"
abbreviation UV_ENOSPC :: int where "UV_ENOSPC \<equiv> - 28"
abbreviation UV_EAFNOSUPPORT :: int where "UV_EAFNOSUPPORT \<equiv> - 47"
abbreviation AF_INET :: int where "AF_INET \<equiv> 2"
abbreviation AF_INET6 :: int where "AF_INET6 \<equiv> 30"
abbreviation SSIZE_MAX :: nat where "SSIZE_MAX \<equiv> 9223372036854775807"
abbreviation UV__INET6_ADDRSTRLEN :: nat where "UV__INET6_ADDRSTRLEN \<equiv> 46"
abbreviation colon :: byte where "colon \<equiv> 58"
abbreviation percent :: byte where "percent \<equiv> 37"

section \<open>Bounded copy\<close>

text \<open>\<open>s\<close> is memory here, and has a NUL.\<close>

function strscpy_loop :: "bytes \<Rightarrow> bytes \<Rightarrow> nat \<Rightarrow> nat \<Rightarrow> nat option \<times> bytes" where
  "strscpy_loop d s i n =
     (if i < n
      then (let d = d[i := s ! i] in if d ! i = 0 then (Some i, d) else strscpy_loop d s (i + 1) n)
      else (None, d))"
  by pat_completeness auto
termination
  by (relation "measure (\<lambda>(d, s, i, n). n - i)") auto

declare strscpy_loop.simps [simp del]

definition uv__strscpy :: "bytes \<Rightarrow> bytes \<Rightarrow> nat \<Rightarrow> int \<times> bytes" where
  "uv__strscpy d s n =
     (case strscpy_loop d s 0 n of
        (Some i, d) \<Rightarrow> (if SSIZE_MAX < i then UV_E2BIG else int i, d)
      | (None, d) \<Rightarrow> if n = 0 then (0, d) else (UV_E2BIG, d[n - 1 := 0]))"

section \<open>Writing addresses\<close>

text \<open>What \<open>sprintf\<close> writes for \<open>%x\<close>.\<close>

fun hex :: "nat \<Rightarrow> bytes" where
  "hex n = (if n < 16 then [of_nat (if n < 10 then 48 + n else 87 + n)]
     else hex (n div 16) @ [of_nat (if n mod 16 < 10 then 48 + n mod 16 else 87 + n mod 16)])"

declare hex.simps [simp del]

definition ipv4_text :: "bytes \<Rightarrow> bytes" where
  "ipv4_text src = decimal (unat (src ! 0)) @ [dot] @ decimal (unat (src ! 1)) @ [dot] @ decimal (unat (src ! 2))
     @ [dot] @ decimal (unat (src ! 3))"

definition inet_ntop4 :: "bytes \<Rightarrow> bytes \<Rightarrow> nat \<Rightarrow> int \<times> bytes" where
  "inet_ntop4 src dst sz =
     (let tmp = ipv4_text src; l = length tmp
      in if l \<le> 0 \<or> sz \<le> l then (UV_ENOSPC, dst) else (0, snd (uv__strscpy dst (tmp @ [0]) sz)))"

record zero_run =
  run_base :: int
  run_len :: int

definition address_words :: "bytes \<Rightarrow> 32 word list" where
  "address_words src =
     foldl (\<lambda>ws i. ws[i div 2 := ws ! (i div 2) OR push_bit ((1 - i mod 2) * 8) (ucast (src ! i))]) (replicate 8 0) [0..<16]"

definition better_run :: "zero_run \<Rightarrow> zero_run \<Rightarrow> zero_run" where
  "better_run best cur = (if run_base cur \<noteq> - 1 \<and> (run_base best = - 1 \<or> run_len best < run_len cur) then cur else best)"

fun run_loop :: "32 word list \<Rightarrow> int \<Rightarrow> zero_run \<Rightarrow> zero_run \<Rightarrow> zero_run" where
  "run_loop [] i best cur = better_run best cur"
| "run_loop (w # ws) i best cur =
     (if w = 0
      then run_loop ws (i + 1) best (if run_base cur = - 1 then \<lparr>run_base = i, run_len = 1\<rparr> else cur\<lparr>run_len := run_len cur + 1\<rparr>)
      else run_loop ws (i + 1) (better_run best cur) (cur\<lparr>run_base := - 1\<rparr>))"

definition best_run :: "32 word list \<Rightarrow> zero_run" where
  "best_run ws =
     (let best = run_loop ws 0 \<lparr>run_base = - 1, run_len = 0\<rparr> \<lparr>run_base = - 1, run_len = 0\<rparr>
      in if run_base best \<noteq> - 1 \<and> run_len best < 2 then best\<lparr>run_base := - 1\<rparr> else best)"

text \<open>\<open>tmp\<close> is what has been written before \<open>tp\<close>; an IPv4 tail ends the loop, and may fail.\<close>

fun ntop6_loop :: "nat \<Rightarrow> bytes \<Rightarrow> 32 word list \<Rightarrow> zero_run \<Rightarrow> int \<Rightarrow> bytes \<Rightarrow> int + bytes" where
  "ntop6_loop 0 src ws best i tmp = Inr tmp"
| "ntop6_loop (Suc n) src ws best i tmp =
     (if run_base best \<noteq> - 1 \<and> run_base best \<le> i \<and> i < run_base best + run_len best
      then ntop6_loop n src ws best (i + 1) (if i = run_base best then tmp @ [colon] else tmp)
      else
        (let tmp = (if i \<noteq> 0 then tmp @ [colon] else tmp)
         in if i = 6 \<and> run_base best = 0 \<and>
               (run_len best = 6 \<or> run_len best = 7 \<and> ws ! 7 \<noteq> 1 \<or> run_len best = 5 \<and> ws ! 5 = 0xFFFF)
            then (let (err, buf) = inet_ntop4 (drop 12 src) (replicate (UV__INET6_ADDRSTRLEN - length tmp) 0) (UV__INET6_ADDRSTRLEN - length tmp)
                  in if err \<noteq> 0 then Inl err else Inr (tmp @ takeWhile (\<lambda>c. c \<noteq> 0) buf))
            else ntop6_loop n src ws best (i + 1) (tmp @ hex (unat (ws ! nat i)))))"

definition inet_ntop6 :: "bytes \<Rightarrow> bytes \<Rightarrow> nat \<Rightarrow> int \<times> bytes" where
  "inet_ntop6 src dst sz =
     (let ws = address_words src; best = best_run ws
      in case ntop6_loop 8 src ws best 0 [] of
           Inl err \<Rightarrow> (err, dst)
         | Inr tmp \<Rightarrow>
             (let tmp = (if run_base best \<noteq> - 1 \<and> run_base best + run_len best = 8 then tmp @ [colon] else tmp);
                  (n, dst) = uv__strscpy dst (tmp @ [0]) sz
              in if n = UV_E2BIG then (UV_ENOSPC, dst) else (0, dst)))"

definition uv_inet_ntop :: "int \<Rightarrow> bytes \<Rightarrow> bytes \<Rightarrow> nat \<Rightarrow> int \<times> bytes" where
  "uv_inet_ntop af src dst sz =
     (if af = AF_INET then inet_ntop4 src dst sz
      else if af = AF_INET6 then inet_ntop6 src dst sz
      else (UV_EAFNOSUPPORT, dst))"

section \<open>Reading addresses\<close>

text \<open>\<open>strchr\<close> on the digits: the value of a digit.\<close>

definition digit :: "byte \<Rightarrow> nat option" where
  "digit ch = (if 48 \<le> ch \<and> ch \<le> 57 then Some (unat ch - 48) else None)"

definition xdigit :: "byte \<Rightarrow> nat option" where
  "xdigit ch =
     (if 48 \<le> ch \<and> ch \<le> 57 then Some (unat ch - 48)
      else if 97 \<le> ch \<and> ch \<le> 102 then Some (unat ch - 87)
      else if 65 \<le> ch \<and> ch \<le> 70 then Some (unat ch - 55)
      else None)"

text \<open>\<open>tp\<close> is an index into \<open>tmp\<close>.\<close>

fun pton4_loop :: "bytes \<Rightarrow> bool \<Rightarrow> nat \<Rightarrow> nat \<Rightarrow> bytes \<Rightarrow> int + bytes" where
  "pton4_loop [] saw_digit octets tp tmp = (if octets < 4 then Inl UV_EINVAL else Inr tmp)"
| "pton4_loop (ch # src) saw_digit octets tp tmp =
     (case digit ch of
        Some d \<Rightarrow>
          (let nw = unat (tmp ! tp) * 10 + d
           in if saw_digit \<and> tmp ! tp = 0 then Inl UV_EINVAL
              else if 255 < nw then Inl UV_EINVAL
              else
                (let tmp = tmp[tp := of_nat nw]
                 in if \<not> saw_digit
                    then (if 4 < octets + 1 then Inl UV_EINVAL else pton4_loop src True (octets + 1) tp tmp)
                    else pton4_loop src saw_digit octets tp tmp))
      | None \<Rightarrow>
          (if ch = dot \<and> saw_digit
           then (if octets = 4 then Inl UV_EINVAL else pton4_loop src False octets (tp + 1) (tmp[tp + 1 := 0]))
           else Inl UV_EINVAL))"

definition inet_pton4 :: "bytes \<Rightarrow> int + bytes" where
  "inet_pton4 src = pton4_loop src False 0 0 (replicate 4 0)"

text \<open>The loop of \<open>inet_pton6\<close>: what was written before \<open>tp\<close>, \<open>colonp\<close> as an index, and \<open>seen_xdigits\<close> and \<open>val\<close>.\<close>

fun pton6_loop :: "bytes \<Rightarrow> bytes \<Rightarrow> nat option \<Rightarrow> bytes \<Rightarrow> nat \<Rightarrow> 32 word \<Rightarrow> int + (bytes \<times> nat option \<times> nat \<times> 32 word)" where
  "pton6_loop [] curtok colonp tmp seen val = Inr (tmp, colonp, seen, val)"
| "pton6_loop (ch # src) curtok colonp tmp seen val =
     (case xdigit ch of
        Some d \<Rightarrow>
          (if 4 < seen + 1 then Inl UV_EINVAL
           else pton6_loop src curtok colonp tmp (seen + 1) (push_bit 4 val OR of_nat d))
      | None \<Rightarrow>
          (if ch = colon
           then (if seen = 0
                 then (if colonp \<noteq> None then Inl UV_EINVAL else pton6_loop src src (Some (length tmp)) tmp seen val)
                 else if src = [] then Inl UV_EINVAL
                 else if 16 < length tmp + 2 then Inl UV_EINVAL
                 else pton6_loop src src colonp (tmp @ [ucast (drop_bit 8 val), ucast val]) 0 0)
           else if ch = dot \<and> length tmp + 4 \<le> 16
           then (case inet_pton4 curtok of
                   Inr v4 \<Rightarrow> Inr (tmp @ v4, colonp, 0, val)
                 | Inl _ \<Rightarrow> Inl UV_EINVAL)
           else Inl UV_EINVAL))"

text \<open>The shift by hand, on the sixteen bytes of memory; \<open>n\<close> bytes from \<open>colonp\<close> on go to the end.\<close>

definition shift_tail :: "bytes \<Rightarrow> nat \<Rightarrow> bytes" where
  "shift_tail tmp colonp =
     (let n = length tmp - colonp; mem = tmp @ replicate (16 - length tmp) 0
      in foldl (\<lambda>mem i. (mem[16 - i := mem ! (colonp + n - i)])[colonp + n - i := 0]) mem [1..<n + 1])"

definition inet_pton6 :: "bytes \<Rightarrow> int + bytes" where
  "inet_pton6 src =
     (case (if src \<noteq> [] \<and> src ! 0 = colon
            then (if drop 1 src \<noteq> [] \<and> src ! 1 = colon then Inr (drop 1 src) else Inl UV_EINVAL)
            else Inr src) of
        Inl err \<Rightarrow> Inl err
      | Inr src \<Rightarrow>
          (case pton6_loop src src None [] 0 0 of
             Inl err \<Rightarrow> Inl err
           | Inr (tmp, colonp, seen, val) \<Rightarrow>
               (if seen \<noteq> 0 \<and> 16 < length tmp + 2 then Inl UV_EINVAL
                else
                  (let tmp = (if seen \<noteq> 0 then tmp @ [ucast (drop_bit 8 val), ucast val] else tmp)
                   in case colonp of
                        None \<Rightarrow> if length tmp \<noteq> 16 then Inl UV_EINVAL else Inr tmp
                      | Some p \<Rightarrow> if length tmp = 16 then Inl UV_EINVAL else Inr (shift_tail tmp p)))))"

text \<open>\<open>src\<close> and \<open>dst\<close> are \<open>None\<close> for NULL; the result has the bytes written to \<open>dst\<close>.\<close>

definition uv_inet_pton :: "int \<Rightarrow> bytes option \<Rightarrow> bool \<Rightarrow> int + bytes" where
  "uv_inet_pton af src dst_null =
     (case src of
        None \<Rightarrow> Inl UV_EINVAL
      | Some src \<Rightarrow>
          (if dst_null then Inl UV_EINVAL
           else if af = AF_INET then inet_pton4 src
           else if af = AF_INET6
           then (if percent \<in> set src
                 then (let l = length (takeWhile (\<lambda>c. c \<noteq> percent) src)
                       in if UV__INET6_ADDRSTRLEN - 1 < l then Inl UV_EINVAL else inet_pton6 (take l src))
                 else inet_pton6 src)
           else Inl UV_EAFNOSUPPORT))"

end
