(* ===== verification/UvInetSpec.thy ===== *)
theory UvInetSpec
  imports UvInet
begin

text \<open>
  Bounded copies stay in bounds, and the text of an IPv4 address is read back, and is the only text that is
  read as it.
\<close>

section \<open>Bounded copy\<close>

lemma strscpy_loop_copies:
  assumes "0 \<notin> set p"
  shows "n \<le> length d \<Longrightarrow> i \<le> length p \<Longrightarrow> i \<le> n \<Longrightarrow> take i d = take i p \<Longrightarrow> strscpy_loop d (p @ 0 # r) i n =
    (if length p < n then (Some (length p), p @ 0 # drop (length p + 1) d) else (None, take n p @ drop n d))"
proof (induction "n - i" arbitrary: i d)
  case 0
  then have "strscpy_loop d (p @ 0 # r) i n = (None, d)" by (subst strscpy_loop.simps) simp
  then show ?case using 0 append_take_drop_id [of n d] by auto
next
  case (Suc m)
  let ?d = "d[i := (p @ 0 # r) ! i]"
  have i: "i < n" "i < length d" using Suc.hyps(2) Suc.prems(1) by simp_all
  have step: "strscpy_loop d (p @ 0 # r) i n = (if (p @ 0 # r) ! i = 0 then (Some i, ?d) else strscpy_loop ?d (p @ 0 # r) (i + 1) n)"
    using i by (subst strscpy_loop.simps) (simp add: Let_def)
  have d: "?d = take i p @ (p @ 0 # r) ! i # drop (Suc i) d" using upd_conv_take_nth_drop [OF i(2)] Suc.prems(4) by simp
  show ?case
  proof (cases "i = length p")
    case True
    then show ?thesis using i unfolding step d by simp
  next
    case False
    then have l: "i < length p" using Suc.prems(2) by simp
    then have nz: "p ! i \<noteq> 0" "(p @ 0 # r) ! i = p ! i" using assms nth_mem [OF l] by (metis, simp add: nth_append)
    have "take (i + 1) ?d = take (i + 1) p" using l nz(2) unfolding d by (simp add: take_Suc_conv_app_nth)
    moreover have "drop n ?d = drop n d" "drop (length p + 1) ?d = drop (length p + 1) d" using i l by simp_all
    ultimately show ?thesis
      using Suc.hyps(1) [of "i + 1" ?d] Suc.hyps(2) Suc.prems(1) i l nz unfolding step by simp
  qed
qed

lemma strscpy_copies:
  assumes "0 \<notin> set p" "n \<le> length d" "length p \<le> SSIZE_MAX"
  shows "uv__strscpy d (p @ 0 # r) n =
    (if length p < n then (int (length p), p @ 0 # drop (length p + 1) d)
     else if n = 0 then (0, d) else (UV_E2BIG, take (n - 1) p @ 0 # drop n d))"
proof -
  have l: "strscpy_loop d (p @ 0 # r) 0 n =
    (if length p < n then (Some (length p), p @ 0 # drop (length p + 1) d) else (None, take n p @ drop n d))"
    using strscpy_loop_copies [OF assms(1,2)] by simp
  have "(take n p @ drop n d)[n - 1 := 0] = take (n - 1) p @ 0 # drop n d" if "n \<le> length p" "n \<noteq> 0"
    using that upd_conv_take_nth_drop [of "n - 1" "take n p @ drop n d" 0] by simp
  then show ?thesis using l assms(3) by (simp add: uv__strscpy_def)
qed

section \<open>IPv4\<close>

lemma digit_char: "m < 10 \<Longrightarrow> digit (of_nat (48 + m)) = Some m"
proof -
  assume m: "m < 10"
  then have "unat (of_nat (48 + m) :: byte) = 48 + m" by (intro unat_of_nat_byte) simp
  then show ?thesis using m unfolding digit_def word_le_nat_alt by (simp del: of_nat_add)
qed

lemma digit_Some: "digit ch = Some m \<Longrightarrow> m < 10 \<and> ch = of_nat (48 + m)"
  by (auto simp: digit_def word_le_nat_alt word_unat_eq_iff unat_of_nat_byte split: if_splits simp del: of_nat_add)

lemma digit_dot: "digit dot = None"
  by (simp add: digit_def word_le_nat_alt)

text \<open>The text that the loop has read when it is in a state.\<close>

definition read_text :: "bool \<Rightarrow> nat \<Rightarrow> bytes \<Rightarrow> bytes" where
  "read_text saw tp tmp = concat (map (\<lambda>i. decimal (unat (tmp ! i)) @ [dot]) [0..<tp]) @ (if saw then decimal (unat (tmp ! tp)) else [])"

lemma map_update_beyond: "tp \<le> k \<Longrightarrow> map (\<lambda>i. f (xs[k := v] ! i)) [0..<tp] = map (\<lambda>i. f (xs ! i)) [0..<tp]"
  by (rule map_cong) auto

lemma read_text_upd: "tp < length tmp \<Longrightarrow> read_text True tp (tmp[tp := v]) = read_text False tp tmp @ decimal (unat v)"
  by (simp add: read_text_def map_update_beyond [where f = "\<lambda>b. decimal (unat b) @ [dot]"])

lemma read_text_dot: "tp + 1 < length tmp \<Longrightarrow> read_text False (tp + 1) (tmp[tp + 1 := v]) = read_text True tp tmp @ [dot]"
  by (simp add: read_text_def map_update_beyond [where f = "\<lambda>b. decimal (unat b) @ [dot]"])

lemma read_text_4: "length tmp = 4 \<Longrightarrow> read_text True 3 tmp = ipv4_text tmp"
  by (simp add: read_text_def ipv4_text_def upt_conv_Cons eval_nat_numeral)

definition pton4_state :: "bool \<Rightarrow> nat \<Rightarrow> nat \<Rightarrow> bytes \<Rightarrow> bool" where
  "pton4_state saw octets tp tmp \<longleftrightarrow> length tmp = 4 \<and> tp < 4 \<and> octets = tp + (if saw then 1 else 0) \<and> (\<not> saw \<longrightarrow> tmp ! tp = 0)"

lemma decimal_grows:
  assumes "m < 10" "unat (v :: byte) * 10 + m < 256" "saw \<Longrightarrow> v \<noteq> 0" "\<not> saw \<Longrightarrow> v = 0"
  shows "decimal (unat (of_nat (unat v * 10 + m) :: byte)) = (if saw then decimal (unat v) else []) @ [of_nat (48 + m)]"
proof -
  have "unat (of_nat (unat v * 10 + m) :: byte) = unat v * 10 + m" using assms(2) by (rule unat_of_nat_byte)
  then show ?thesis
    using assms decimal_small [of m] decimal_step [of "unat v" m] by (cases saw) (auto simp: unat_gt_0)
qed

lemma pton4_reads:
  "pton4_state saw octets tp tmp \<Longrightarrow> pton4_loop src saw octets tp tmp = Inr bs \<Longrightarrow>
     length bs = 4 \<and> read_text saw tp tmp @ src = ipv4_text bs"
proof (induction src arbitrary: saw octets tp tmp)
  case Nil
  then have "saw" "tp = 3" "bs = tmp" by (auto simp: pton4_state_def split: if_splits)
  then show ?case using Nil read_text_4 by (simp add: pton4_state_def)
next
  case (Cons ch src)
  note st = Cons.prems(1) [unfolded pton4_state_def]
  show ?case
  proof (cases "digit ch")
    case (Some m)
    let ?nw = "unat (tmp ! tp) * 10 + m" and ?oc = "if saw then octets else octets + 1"
    have m: "m < 10" "ch = of_nat (48 + m)" using digit_Some [OF Some] by simp_all
    have nw: "\<not> (saw \<and> tmp ! tp = 0)" "?nw < 256" "pton4_loop src True ?oc tp (tmp[tp := of_nat ?nw]) = Inr bs"
      using Cons.prems(2) Some st by (auto simp: Let_def split: if_splits)
    have "pton4_state True ?oc tp (tmp[tp := of_nat ?nw])" using st by (auto simp: pton4_state_def)
    from Cons.IH [OF this nw(3)]
    have IH: "length bs = 4" "read_text True tp (tmp[tp := of_nat ?nw]) @ src = ipv4_text bs" by simp_all
    have "read_text True tp (tmp[tp := of_nat ?nw]) = read_text saw tp tmp @ [ch]"
      using decimal_grows [OF m(1) nw(2), of saw] nw(1) st m(2) read_text_upd [of tp tmp "of_nat ?nw"]
      by (auto simp: read_text_def)
    then show ?thesis using IH by simp
  next
    case None
    then have d: "ch = dot" "saw" "octets \<noteq> 4" "pton4_loop src False octets (tp + 1) (tmp[tp + 1 := 0]) = Inr bs"
      using Cons.prems(2) by (auto split: if_splits)
    have l: "tp + 1 < length tmp" using st d(2,3) by auto
    then have "pton4_state False octets (tp + 1) (tmp[tp + 1 := 0])" using st d(2) by (auto simp: pton4_state_def)
    from Cons.IH [OF this d(4)] show ?thesis using read_text_dot [OF l, of 0] d(1,2) by simp
  qed
qed

lemma pton4_octet:
  "n < 256 \<Longrightarrow> pton4_state False octets tp tmp \<Longrightarrow>
     pton4_loop (decimal n @ src) False octets tp tmp = pton4_loop src True (octets + 1) tp (tmp[tp := of_nat n])"
proof (induction n arbitrary: src rule: decimal.induct)
  case (1 n)
  note st = 1(3) [unfolded pton4_state_def]
  show ?case
  proof (cases "n < 10")
    case True
    then show ?thesis using decimal_small [OF True] digit_char [OF True] st by (simp add: Let_def)
  next
    case False
    let ?v = "of_nat (n div 10) :: byte"
    have v: "unat ?v = n div 10" using 1(2) by (intro unat_of_nat_byte) simp
    have dn: "decimal n = decimal (n div 10) @ [of_nat (48 + n mod 10)]" using False by (subst decimal.simps) simp
    have "?v \<noteq> 0" using v False by (metis div_eq_0_iff unat_0 zero_neq_numeral)
    then have "pton4_loop (of_nat (48 + n mod 10) # src) True (octets + 1) tp (tmp[tp := ?v]) = pton4_loop src True (octets + 1) tp (tmp[tp := of_nat n])"
      using digit_char [of "n mod 10"] st v 1(2) by (simp add: Let_def)
    then show ?thesis using 1(1) [OF False _ 1(3)] 1(2) unfolding dn by simp
  qed
qed

lemma list_4: "length bs = 4 \<Longrightarrow> bs = [bs ! 0, bs ! 1, bs ! 2, bs ! 3]"
  by (auto simp: length_Suc_conv eval_nat_numeral)

lemma pton4_text:
  assumes "length bs = 4"
  shows "inet_pton4 (ipv4_text bs) = Inr bs"
proof -
  obtain a b c d where bs: "bs = [a, b, c, d]" using list_4 [OF assms] by blast
  have dn: "pton4_loop (dot # src) True oc tp tmp = pton4_loop src False oc (tp + 1) (tmp[tp + 1 := 0])" if "oc \<noteq> 4" for src oc tp tmp
    using that by (simp add: digit_dot)
  have oct: "pton4_loop (decimal (unat x) @ src) False tp tp tmp = pton4_loop src True (tp + 1) tp (tmp[tp := x])"
    if "length tmp = 4" "tp < 4" "tmp ! tp = 0" for x src tp tmp
    using pton4_octet [OF byte_lt, of tp tp tmp x src] that by (simp add: pton4_state_def)
  let ?d = "decimal (unat d)" let ?c = "decimal (unat c) @ dot # ?d" let ?b = "decimal (unat b) @ dot # ?c"
  have "inet_pton4 (ipv4_text bs) = pton4_loop (decimal (unat a) @ dot # ?b) False 0 0 [0, 0, 0, 0]"
    by (simp add: inet_pton4_def ipv4_text_def bs eval_nat_numeral)
  also have "\<dots> = pton4_loop ?b False 1 1 [a, 0, 0, 0]" by (subst oct) (simp_all add: dn del: pton4_loop.simps)
  also have "\<dots> = pton4_loop ?c False 2 2 [a, b, 0, 0]" by (subst oct) (simp_all add: dn eval_nat_numeral del: pton4_loop.simps)
  also have "\<dots> = pton4_loop ?d False 3 3 [a, b, c, 0]" by (subst oct) (simp_all add: dn eval_nat_numeral del: pton4_loop.simps)
  also have "\<dots> = Inr [a, b, c, d]"
    using oct [of "[a, b, c, 0]" 3 d "[]"] by (simp add: eval_nat_numeral)
  finally show ?thesis unfolding bs .
qed

lemma pton4_exact: "inet_pton4 s = Inr bs \<longleftrightarrow> length bs = 4 \<and> s = ipv4_text bs"
proof
  assume "inet_pton4 s = Inr bs"
  moreover have "pton4_state False 0 0 (replicate 4 0)" by (simp add: pton4_state_def)
  ultimately show "length bs = 4 \<and> s = ipv4_text bs"
    using pton4_reads [of False 0 0 "replicate 4 0" s bs] by (simp add: inet_pton4_def read_text_def)
qed (use pton4_text in auto)

lemma decimal_chars: "c \<in> set (decimal n) \<Longrightarrow> 48 \<le> unat c \<and> unat c < 58"
proof (induction n rule: decimal.induct)
  case (1 n)
  have u: "unat (of_nat (48 + m) :: byte) = 48 + m" if "m < 10" for m using that by (intro unat_of_nat_byte) simp
  show ?case
  proof (cases "n < 10")
    case True
    then show ?thesis using 1(2) u [OF True] by (simp add: decimal_small del: of_nat_add)
  next
    case False
    have "n mod 10 < 10" by simp
    note um = u [OF this]
    have "decimal n = decimal (n div 10) @ [of_nat (48 + n mod 10)]" using False by (subst decimal.simps) simp
    then show ?thesis using 1(1) [OF False] 1(2) um by (auto simp del: of_nat_add)
  qed
qed

lemma length_decimal_byte: "length (decimal (unat (b :: byte))) \<le> 3"
proof -
  have l: "length (decimal n) \<le> Suc k" if "n < 10 ^ Suc k" for n k
    using that
  proof (induction k arbitrary: n)
    case 0
    then show ?case by (simp add: decimal_small)
  next
    case (Suc k)
    then have "n div 10 < 10 ^ Suc k" by (simp add: div_less_iff_less_mult ac_simps)
    then show ?case using Suc.IH [of "n div 10"] by (subst decimal.simps) simp
  qed
  show ?thesis using l [of "unat b" 2] byte_lt [of b] by simp
qed

lemma ipv4_text_chars: "c \<in> set (ipv4_text bs) \<Longrightarrow> c \<noteq> 0 \<and> c \<noteq> colon \<and> c \<noteq> percent"
  using decimal_chars [of c] by (fastforce simp: ipv4_text_def)

lemma length_ipv4_text: "length (ipv4_text bs) \<le> 15"
  using length_decimal_byte [of "bs ! 0"] length_decimal_byte [of "bs ! 1"] length_decimal_byte [of "bs ! 2"] length_decimal_byte [of "bs ! 3"]
  by (simp add: ipv4_text_def)

lemma ntop4:
  assumes "n \<le> length dst"
  shows "inet_ntop4 bs dst n =
    (if length (ipv4_text bs) < n then (0, ipv4_text bs @ 0 # drop (length (ipv4_text bs) + 1) dst) else (UV_ENOSPC, dst))"
proof -
  have "0 \<notin> set (ipv4_text bs)" using ipv4_text_chars [of 0 bs] by blast
  then show ?thesis
    using strscpy_copies [of "ipv4_text bs" n dst "[]"] assms length_ipv4_text [of bs]
    by (auto simp: inet_ntop4_def Let_def ipv4_text_def)
qed

end
