(* ===== verification/UvInet6.thy ===== *)
theory UvInet6
  imports UvInetSpec
begin

text \<open>
  The text of an IPv6 address: which text \<open>inet_ntop6\<close> writes, and that \<open>inet_pton6\<close> reads it back. An address is a
  list of eight numbers below \<open>2 ^ 16\<close>.
\<close>

section \<open>Hexadecimal numbers\<close>

definition word_bytes :: "nat \<Rightarrow> bytes" where
  "word_bytes n = [of_nat (n div 256), of_nat n]"

text \<open>Numbers with a colon between them.\<close>

fun hexes :: "nat list \<Rightarrow> bytes" where
  "hexes [] = []"
| "hexes (n # ns) = hex n @ concat (map (\<lambda>m. colon # hex m) ns)"

definition hex_char :: "nat \<Rightarrow> byte" where
  "hex_char d = of_nat (if d < 10 then 48 + d else 87 + d)"

lemma hex_step: "hex n = (if n < 16 then [hex_char n] else hex (n div 16) @ [hex_char (n mod 16)])"
  by (subst hex.simps) (simp add: hex_char_def)

lemma hex_char_value: "d < 16 \<Longrightarrow> unat (hex_char d) = (if d < 10 then 48 + d else 87 + d)"
  unfolding hex_char_def by (rule unat_of_nat_byte) auto

lemma xdigit_char: "d < 16 \<Longrightarrow> xdigit (hex_char d) = Some d"
  using hex_char_value [of d] by (auto simp: xdigit_def word_le_nat_alt)

lemma hex_nonempty: "hex n \<noteq> []"
  by (subst hex_step) simp

lemma length_hex: "n < 16 ^ Suc k \<Longrightarrow> length (hex n) \<le> Suc k"
proof (induction k arbitrary: n)
  case 0
  then show ?case by (simp add: hex_step [of n])
next
  case (Suc k)
  then have "n div 16 < 16 ^ Suc k" by (simp add: div_less_iff_less_mult ac_simps)
  then show ?case using Suc.IH [of "n div 16"] by (subst hex_step) simp
qed

lemma hex_chars: "c \<in> set (hex n) \<Longrightarrow> \<exists>d<16. c = hex_char d"
proof (induction n rule: hex.induct)
  case (1 n)
  show ?case
  proof (cases "n < 16")
    case True
    then show ?thesis using 1(2) by (auto simp: hex_step [of n])
  next
    case False
    then show ?thesis using 1(1) [OF False] 1(2) by (subst (asm) hex_step) (auto intro: exI [of _ "n mod 16"])
  qed
qed

lemma hex_char_special: "d < 16 \<Longrightarrow> hex_char d \<noteq> colon \<and> hex_char d \<noteq> percent \<and> hex_char d \<noteq> 0 \<and> hex_char d \<noteq> dot"
  using hex_char_value [of d] by (auto split: if_splits)

lemma hex_special: "c \<in> set (hex n) \<Longrightarrow> c \<noteq> colon \<and> c \<noteq> percent \<and> c \<noteq> 0 \<and> c \<noteq> dot"
  using hex_chars [of c n] hex_char_special by metis

lemma hexes_chars: "c \<in> set (hexes ns) \<Longrightarrow> c \<noteq> percent \<and> c \<noteq> 0"
proof (cases ns)
  case (Cons n ms)
  assume "c \<in> set (hexes ns)"
  then consider "c \<in> set (hex n)" | "c = colon" | m where "c \<in> set (hex m)" using Cons by (auto split: if_splits)
  then show ?thesis using hex_special [of c] by cases auto
qed simp

section \<open>Reading\<close>

lemma read_hex:
  "length (hex n) \<le> 4 \<Longrightarrow> pton6_loop (hex n @ rest) cur cp tmp 0 0 = pton6_loop rest cur cp tmp (length (hex n)) (of_nat n)"
proof (induction n arbitrary: rest rule: hex.induct)
  case (1 n)
  show ?case
  proof (cases "n < 16")
    case True
    then show ?thesis using xdigit_char [OF True] by (simp add: hex_step [of n])
  next
    case False
    have h: "hex n = hex (n div 16) @ [hex_char (n mod 16)]" using False by (subst hex_step) simp
    have "push_bit 4 (of_nat (n div 16)) OR of_nat (n mod 16) = (of_nat n :: 32 word)"
    proof -
      have "n = push_bit 4 (n div 16) OR n mod 16" using nat_push_or [of "n mod 16" 4 "n div 16"] by simp
      then have "bit n k \<longleftrightarrow> bit (push_bit 4 (n div 16) OR n mod 16) k" for k by simp
      then show ?thesis by (intro bit_word_eqI) (auto simp: bit_simps)
    qed
    then show ?thesis
      using 1(1) [OF False, of "hex_char (n mod 16) # rest"] 1(2) xdigit_char [of "n mod 16"] by (simp add: h)
  qed
qed

lemma colon_no_digit: "xdigit colon = None" "xdigit dot = None"
  by (simp_all add: xdigit_def word_le_nat_alt)

lemma stored_word: "n < 65536 \<Longrightarrow> [ucast (drop_bit 8 (of_nat n :: 32 word)), ucast (of_nat n :: 32 word)] = word_bytes n"
proof -
  assume n: "n < 65536"
  have "unat (of_nat n :: 32 word) = n" using n by (simp add: unsigned_of_nat take_bit_nat_eq_self)
  moreover have "unat (ucast (drop_bit 8 w) :: byte) = unat w div 256 mod 256" "unat (ucast w :: byte) = unat w mod 256" for w :: "32 word"
    by (simp_all only: unat_ucast_down unat_drop_bit_eq drop_bit_eq_div [where 'a = nat]) simp_all
  ultimately have "unat (ucast (drop_bit 8 (of_nat n :: 32 word)) :: byte) = n div 256 mod 256" "unat (ucast (of_nat n :: 32 word) :: byte) = n mod 256"
    by simp_all
  then have "ucast (drop_bit 8 (of_nat n :: 32 word)) = (of_nat (n div 256) :: byte)" "ucast (of_nat n :: 32 word) = (of_nat n :: byte)"
    by (simp_all add: word_unat_eq_iff unat_of_nat)
  then show ?thesis by (simp add: word_bytes_def)
qed

lemma length_hex_word: "n < 65536 \<Longrightarrow> length (hex n) \<le> 4"
  using length_hex [of n 3] by simp

lemma read_word:
  assumes "n < 65536" "rest \<noteq> []" "length tmp + 2 \<le> 16"
  shows "pton6_loop (hex n @ colon # rest) cur cp tmp 0 0 = pton6_loop rest rest cp (tmp @ word_bytes n) 0 0"
  using read_hex [OF length_hex_word [OF assms(1)], of "colon # rest" cur cp tmp] stored_word [OF assms(1)] assms(2,3) hex_nonempty [of n]
  by (simp add: colon_no_digit)

lemma read_gap: "pton6_loop (colon # rest) cur None tmp 0 0 = pton6_loop rest rest (Some (length tmp)) tmp 0 0"
  by (simp add: colon_no_digit)

text \<open>Words that are all followed by a colon.\<close>

lemma read_words:
  assumes "\<forall>n\<in>set ns. n < 65536" "rest \<noteq> []" "length tmp + 2 * length ns \<le> 16" "ns \<noteq> []"
  shows "pton6_loop (concat (map (\<lambda>m. hex m @ [colon]) ns) @ rest) cur cp tmp 0 0 = pton6_loop rest rest cp (tmp @ concat (map word_bytes ns)) 0 0"
  using assms
proof (induction ns arbitrary: cur tmp)
  case (Cons n ns)
  let ?rest = "concat (map (\<lambda>m. hex m @ [colon]) ns) @ rest"
  have "pton6_loop (hex n @ colon # ?rest) cur cp tmp 0 0 = pton6_loop ?rest ?rest cp (tmp @ word_bytes n) 0 0"
    using Cons.prems by (intro read_word) auto
  then show ?case
    using Cons.IH [of "tmp @ word_bytes n" ?rest] Cons.prems by (cases "ns = []") (auto simp: word_bytes_def)
qed simp

lemma hexes_snoc: "hexes (ns @ [n]) = concat (map (\<lambda>m. hex m @ [colon]) ns) @ hex n"
proof (cases ns)
  case (Cons a as)
  have "hex a @ concat (map (\<lambda>m. colon # hex m) as) @ colon # hex n = concat (map (\<lambda>m. hex m @ [colon]) (a # as)) @ hex n"
    by (induction as arbitrary: a) auto
  then show ?thesis using Cons by simp
qed simp

lemma hexes_colon: "ns \<noteq> [] \<Longrightarrow> hexes ns @ [colon] = concat (map (\<lambda>m. hex m @ [colon]) ns)"
proof (cases ns)
  case (Cons a as)
  have "hex a @ concat (map (\<lambda>m. colon # hex m) as) @ [colon] = concat (map (\<lambda>m. hex m @ [colon]) (a # as))"
    by (induction as arbitrary: a) auto
  then show ?thesis using Cons by simp
qed simp

text \<open>The words up to the end of the text; the last is still in \<open>val\<close>.\<close>

lemma read_last_words:
  assumes "\<forall>n\<in>set ns. n < 65536" "length tmp + 2 * length ns \<le> 16"
  shows "\<exists>t seen v. pton6_loop (hexes ns) (hexes ns) cp tmp 0 0 = Inr (t, cp, seen, v) \<and>
    (if seen = 0 then t else t @ [ucast (drop_bit 8 v), ucast v]) = tmp @ concat (map word_bytes ns) \<and> (seen \<noteq> 0 \<longrightarrow> length t + 2 \<le> 16)"
proof (cases ns rule: rev_cases)
  case Nil
  then show ?thesis by simp
next
  case (snoc ms n)
  have n: "n < 65536" "\<forall>m\<in>set ms. m < 65536" using assms(1) snoc by simp_all
  have l: "length (concat (map word_bytes ms)) = 2 * length ms" by (induction ms) (auto simp: word_bytes_def)
  have e: "pton6_loop (hex n) cur cp t 0 0 = Inr (t, cp, length (hex n), of_nat n)" for cur t
    using read_hex [OF length_hex_word [OF n(1)], of "[]" cur cp t] by simp
  let ?t = "tmp @ concat (map word_bytes ms)"
  have h1: "hexes [n] = hex n" by simp
  have "pton6_loop (hexes ns) (hexes ns) cp tmp 0 0 = Inr (?t, cp, length (hex n), of_nat n)"
    using read_words [OF n(2) hex_nonempty [of n], of tmp "hexes ns" cp] assms(2) e snoc
    by (cases "ms = []") (simp_all add: hexes_snoc h1 del: hexes.simps)
  moreover have "?t @ [ucast (drop_bit 8 (of_nat n :: 32 word)), ucast (of_nat n :: 32 word)] = tmp @ concat (map word_bytes ns)"
    using stored_word [OF n(1)] snoc by simp
  ultimately show ?thesis using hex_nonempty [of n] assms(2) snoc l by (intro exI conjI) (assumption, simp_all)
qed

lemma hexes_Nil: "hexes [] = []"
  by simp

declare pton6_loop.simps [simp del] hexes.simps [simp del]

lemma shift_gap:
  assumes "length A + length B < 16"
  shows "shift_tail (A @ B) (length A) = A @ replicate (16 - length A - length B) 0 @ B"
proof -
  let ?p = "length A" and ?n = "length B" and ?g = "16 - length A - length B"
  let ?f = "\<lambda>mem i. (mem[16 - i := mem ! (?p + ?n - i)])[?p + ?n - i := 0]"
  have inv: "foldl ?f (A @ B @ replicate ?g 0) [1..<k + 1] = A @ take (?n - k) B @ replicate ?g 0 @ drop (?n - k) B" if "k \<le> ?n" for k
    using that
  proof (induction k)
    case (Suc k)
    let ?j = "?n - Suc k"
    have j: "?n - k = Suc ?j" "?j < ?n" using Suc.prems by simp_all
    obtain g where g: "?g = Suc g" using assms by (cases ?g) auto
    let ?mem = "A @ take (?n - k) B @ replicate ?g 0 @ drop (?n - k) B"
    obtain P where P: "P = A @ take ?j B" by simp
    have m: "?mem = P @ B ! ?j # replicate g 0 @ 0 # drop (Suc ?j) B"
      using take_Suc_conv_app_nth [OF j(2)] j(1) g P by (simp add: replicate_append_same [symmetric])
    have l: "?p + ?n - Suc k = length P" "16 - Suc k = length P + Suc g" using j g Suc.prems assms P by simp_all
    have "?f ?mem (Suc k) = P @ 0 # replicate g 0 @ B ! ?j # drop (Suc ?j) B"
      unfolding m l by (simp add: nth_append list_update_append)
    also have "\<dots> = A @ take ?j B @ replicate ?g 0 @ drop ?j B"
      using Cons_nth_drop_Suc [OF j(2)] g P by simp
    finally show ?case using Suc by simp
  qed simp
  have "(A @ B) @ replicate (16 - length (A @ B)) 0 = A @ B @ replicate ?g 0" by simp
  moreover have "length (A @ B) - ?p = ?n" by simp
  ultimately show ?thesis using inv [of ?n] unfolding shift_tail_def Let_def by simp
qed

definition word_list :: "nat list \<Rightarrow> bool" where
  "word_list ns \<longleftrightarrow> (\<forall>n\<in>set ns. n < 65536)"

lemma length_words: "length (concat (map word_bytes ns)) = 2 * length ns"
  by (induction ns) (auto simp: word_bytes_def)

lemma hexes_not_colon: "hexes (n # ns) \<noteq> [] \<and> hexes (n # ns) ! 0 \<noteq> colon"
  unfolding hexes.simps
proof -
  have "hex n ! 0 \<in> set (hex n)" using hex_nonempty [of n] by simp
  then show "hex n @ concat (map (\<lambda>m. colon # hex m) ns) \<noteq> [] \<and> (hex n @ concat (map (\<lambda>m. colon # hex m) ns)) ! 0 \<noteq> colon"
    using hex_special [of "hex n ! 0" n] hex_nonempty [of n] by (auto simp: nth_append)
qed

text \<open>The text in which \<open>inet_pton6\<close> has skipped the first colon if it starts with a gap, and what comes after the loop.\<close>

definition pton6_start :: "bytes \<Rightarrow> int + bytes" where
  "pton6_start src = (if src \<noteq> [] \<and> src ! 0 = colon
     then (if drop 1 src \<noteq> [] \<and> src ! 1 = colon then Inr (drop 1 src) else Inl UV_EINVAL) else Inr src)"

lemma pton6_finish:
  assumes "pton6_start src = Inr src'" "pton6_loop src' src' None [] 0 0 = Inr (t, cp, seen, v)"
    and "(if seen = 0 then t else t @ [ucast (drop_bit 8 v), ucast v]) = T" "seen \<noteq> 0 \<longrightarrow> length t + 2 \<le> 16"
  shows "inet_pton6 src = (case cp of
      None \<Rightarrow> if length T \<noteq> 16 then Inl UV_EINVAL else Inr T
    | Some p \<Rightarrow> if length T = 16 then Inl UV_EINVAL else Inr (shift_tail T p))"
proof -
  let ?T = "if seen \<noteq> 0 then t @ [ucast (drop_bit 8 v), ucast v] else t"
  have T: "?T = T" using assms(3) by (cases "seen = 0") simp_all
  have "\<not> (seen \<noteq> 0 \<and> 16 < length t + 2)" using assms(4) by auto
  then have "inet_pton6 src = (case cp of
      None \<Rightarrow> if length ?T \<noteq> 16 then Inl UV_EINVAL else Inr ?T
    | Some p \<Rightarrow> if length ?T = 16 then Inl UV_EINVAL else Inr (shift_tail ?T p))"
    unfolding inet_pton6_def pton6_start_def [symmetric] assms(1) sum.case assms(2) prod.case Let_def by (rule if_not_P)
  then show ?thesis unfolding T .
qed

lemma read_all_words:
  assumes "word_list ns" "length ns = 8"
  shows "inet_pton6 (hexes ns) = Inr (concat (map word_bytes ns))"
proof -
  obtain a as where ns: "ns = a # as" using assms(2) by (cases ns) auto
  obtain t seen v where t: "pton6_loop (hexes ns) (hexes ns) None [] 0 0 = Inr (t, None, seen, v)"
    "(if seen = 0 then t else t @ [ucast (drop_bit 8 v), ucast v]) = concat (map word_bytes ns)" "seen \<noteq> 0 \<longrightarrow> length t + 2 \<le> 16"
    using read_last_words [of ns "[]" None] assms by (auto simp: word_list_def)
  have "pton6_start (hexes ns) = Inr (hexes ns)" using hexes_not_colon [of a as] unfolding ns pton6_start_def by simp
  from pton6_finish [OF this t] show ?thesis using length_words [of ns] assms(2) by simp
qed

lemma read_to_gap:
  assumes "word_list pre" "length pre \<le> 7"
  shows "\<exists>src. pton6_start (hexes pre @ colon # colon # rest) = Inr src \<and>
    pton6_loop src src None [] 0 0 = pton6_loop rest rest (Some (2 * length pre)) (concat (map word_bytes pre)) 0 0"
proof (cases pre)
  case Nil
  then show ?thesis using read_gap [of rest "colon # rest" "[]"] by (simp add: pton6_start_def hexes_Nil)
next
  case (Cons a as)
  let ?src = "hexes pre @ colon # colon # rest"
  have src: "?src = concat (map (\<lambda>m. hex m @ [colon]) pre) @ colon # rest"
  proof -
    have "?src = (hexes pre @ [colon]) @ colon # rest" by simp
    then show ?thesis using hexes_colon [of pre] Cons by (metis list.distinct(1))
  qed
  have w: "\<forall>n\<in>set pre. n < 65536" "length ([] :: bytes) + 2 * length pre \<le> 16" "pre \<noteq> []"
    using assms Cons by (auto simp: word_list_def)
  have "pton6_loop ?src ?src None [] 0 0 = pton6_loop (colon # rest) (colon # rest) None ([] @ concat (map word_bytes pre)) 0 0"
    using read_words [OF w(1) list.distinct(2) w(2,3), of colon rest ?src None] unfolding src .
  moreover have "pton6_loop (colon # rest) (colon # rest) None ([] @ concat (map word_bytes pre)) 0 0
      = pton6_loop rest rest (Some (2 * length pre)) (concat (map word_bytes pre)) 0 0"
    unfolding read_gap append_Nil length_words ..
  moreover have "pton6_start ?src = Inr ?src"
    using hexes_not_colon [of a as] unfolding Cons pton6_start_def by (simp add: nth_append)
  ultimately show ?thesis by (intro exI [of _ ?src]) simp
qed

lemma read_with_gap:
  assumes "word_list pre" "word_list suf" "length pre + length suf \<le> 7"
  shows "inet_pton6 (hexes pre @ colon # colon # hexes suf)
    = Inr (concat (map word_bytes pre) @ replicate (16 - 2 * length pre - 2 * length suf) 0 @ concat (map word_bytes suf))"
proof -
  let ?A = "concat (map word_bytes pre)" and ?B = "concat (map word_bytes suf)"
  obtain src where src: "pton6_start (hexes pre @ colon # colon # hexes suf) = Inr src"
    "pton6_loop src src None [] 0 0 = pton6_loop (hexes suf) (hexes suf) (Some (2 * length pre)) ?A 0 0"
    using read_to_gap [OF assms(1), of "hexes suf"] assms(3) by auto
  have "\<forall>n\<in>set suf. n < 65536" "length ?A + 2 * length suf \<le> 16" using assms length_words [of pre] by (auto simp: word_list_def)
  from read_last_words [OF this, of "Some (2 * length pre)"] obtain t seen v where
    t: "pton6_loop (hexes suf) (hexes suf) (Some (2 * length pre)) ?A 0 0 = Inr (t, Some (2 * length pre), seen, v)"
      "(if seen = 0 then t else t @ [ucast (drop_bit 8 v), ucast v]) = ?A @ ?B" "seen \<noteq> 0 \<longrightarrow> length t + 2 \<le> 16"
    by blast
  have "length (?A @ ?B) \<noteq> 16" using length_words [of pre] length_words [of suf] assms(3) by simp
  then have "inet_pton6 (hexes pre @ colon # colon # hexes suf) = Inr (shift_tail (?A @ ?B) (2 * length pre))"
    using pton6_finish [OF src(1) src(2) [unfolded t(1)] t(2,3)] by simp
  moreover have "shift_tail (?A @ ?B) (length ?A) = ?A @ replicate (16 - length ?A - length ?B) 0 @ ?B"
    by (rule shift_gap) (use length_words [of pre] length_words [of suf] assms(3) in simp)
  ultimately show ?thesis by (simp add: length_words)
qed

text \<open>An IPv4 address at the end.\<close>

lemma read_digits:
  "\<forall>c\<in>set ds. xdigit c \<noteq> None \<Longrightarrow> seen + length ds \<le> 4 \<Longrightarrow>
     \<exists>v. pton6_loop (ds @ rest) cur cp tmp seen val = pton6_loop rest cur cp tmp (seen + length ds) v"
proof (induction ds arbitrary: seen val)
  case (Cons c ds)
  then obtain d where "xdigit c = Some d" by auto
  then show ?case
    using Cons.IH [of "seen + 1" "push_bit 4 val OR of_nat d"] Cons.prems by (simp add: pton6_loop.simps)
qed auto

lemma xdigit_decimal: "c \<in> set (decimal n) \<Longrightarrow> xdigit c \<noteq> None"
  using decimal_chars [of c n] by (auto simp: xdigit_def word_le_nat_alt)

lemma read_v4:
  assumes "length bs = 4" "length tmp + 4 \<le> 16"
  shows "\<exists>v. pton6_loop (ipv4_text bs) (ipv4_text bs) cp tmp 0 0 = Inr (tmp @ bs, cp, 0, v)"
proof -
  obtain rest where t: "ipv4_text bs = decimal (unat (bs ! 0)) @ dot # rest" by (simp add: ipv4_text_def)
  obtain v where "pton6_loop (decimal (unat (bs ! 0)) @ dot # rest) (ipv4_text bs) cp tmp 0 0
      = pton6_loop (dot # rest) (ipv4_text bs) cp tmp (length (decimal (unat (bs ! 0)))) v"
    using read_digits [of "decimal (unat (bs ! 0))" 0 "dot # rest" "ipv4_text bs" cp tmp 0] xdigit_decimal length_decimal_byte [of "bs ! 0"] by auto
  moreover have "pton6_loop (dot # rest) (ipv4_text bs) cp tmp l v = Inr (tmp @ bs, cp, 0, v)" for l
    using assms pton4_text [OF assms(1)] by (simp add: pton6_loop.simps colon_no_digit)
  ultimately show ?thesis unfolding t by auto
qed

lemma read_gap_v4:
  assumes "word_list ms" "length ms \<le> 5" "length bs = 4"
  shows "inet_pton6 (colon # colon # concat (map (\<lambda>m. hex m @ [colon]) ms) @ ipv4_text bs)
    = Inr (replicate (12 - 2 * length ms) 0 @ concat (map word_bytes ms) @ bs)"
proof -
  let ?v4 = "ipv4_text bs" and ?M = "concat (map word_bytes ms)"
  let ?r = "concat (map (\<lambda>m. hex m @ [colon]) ms) @ ?v4"
  have ne: "?v4 \<noteq> []" by (simp add: ipv4_text_def)
  have s: "pton6_start (colon # colon # ?r) = Inr (colon # ?r)" by (simp add: pton6_start_def)
  have l: "length ?M = 2 * length ms" by (rule length_words)
  have w: "\<forall>n\<in>set ms. n < 65536" "length ([] :: bytes) + 2 * length ms \<le> 16" using assms(1,2) by (simp_all add: word_list_def)
  have "pton6_loop (colon # ?r) (colon # ?r) None [] 0 0 = pton6_loop ?r ?r (Some 0) [] 0 0" unfolding read_gap by simp
  also have "\<dots> = pton6_loop ?v4 ?v4 (Some 0) ?M 0 0"
    using read_words [OF w(1) ne w(2), of ?r "Some 0"] by (cases "ms = []") simp_all
  finally obtain v where "pton6_loop (colon # ?r) (colon # ?r) None [] 0 0 = Inr (?M @ bs, Some 0, 0, v)"
    using read_v4 [OF assms(3), of ?M "Some 0"] l assms(2) by auto
  from pton6_finish [OF s this, of "?M @ bs"] have "inet_pton6 (colon # colon # ?r) = Inr (shift_tail (?M @ bs) 0)"
    using l assms(2,3) by simp
  then show ?thesis using shift_gap [of "[]" "?M @ bs"] l assms(2,3) by simp
qed

section \<open>Writing\<close>

definition words_of :: "bytes \<Rightarrow> nat list" where
  "words_of src = map (\<lambda>k. unat (src ! (2 * k)) * 256 + unat (src ! (2 * k + 1))) [0..<8]"

lemma word_lt: "unat (a :: byte) * 256 + unat (b :: byte) < 65536"
  using byte_lt [of a] byte_lt [of b] by simp

lemma word_pair: "push_bit 8 (ucast (a :: byte)) OR ucast (b :: byte) = (of_nat (unat a * 256 + unat b) :: 32 word)"
proof -
  have u: "unat (ucast x :: 32 word) = unat x" for x :: byte by (rule unat_ucast_up) simp
  have "unat (push_bit 8 (ucast a) OR ucast b :: 32 word) = unat a * 256 + unat b"
    using unat_push_or [of "ucast b :: 32 word" 8 "ucast a"] byte_lt [of a] byte_lt [of b] by (simp add: u)
  then show ?thesis using word_lt [of a b] by (simp only: word_unat_eq_iff unat_of_nat) simp
qed

lemma address_words_eq: "address_words src = map of_nat (words_of src)"
proof -
  let ?f = "\<lambda>ws i. ws[i div 2 := ws ! (i div 2) OR push_bit ((1 - i mod 2) * 8) (ucast (src ! i))] :: 32 word list"
  let ?g = "\<lambda>k. of_nat (unat (src ! (2 * k)) * 256 + unat (src ! (2 * k + 1))) :: 32 word"
  have "foldl ?f (replicate 8 0) [0..<2 * k] = map ?g [0..<k] @ replicate (8 - k) 0" if "k \<le> 8" for k
    using that
  proof (induction k)
    case (Suc k)
    have d: "2 * k div 2 = k" "(2 * k + 1) div 2 = k" "2 * k mod 2 = 0" "(2 * k + 1) mod 2 = 1" by simp_all
    have r: "replicate (8 - k) (0 :: 32 word) = 0 # replicate (8 - Suc k) 0" using Suc.prems by (metis Suc_diff_le diff_Suc_Suc replicate_Suc)
    have u: "[0..<2 * Suc k] = [0..<2 * k] @ [2 * k, 2 * k + 1]" by simp
    have at: "(map ?g [0..<k] @ x # r)[k := y] = map ?g [0..<k] @ y # r" "(map ?g [0..<k] @ x # r) ! k = x" for x y r
      using list_update_length [of "map ?g [0..<k]" x r y] nth_append_length [of "map ?g [0..<k]" x r] by simp_all
    have "foldl ?f (replicate 8 0) [0..<2 * Suc k] = ?f (?f (map ?g [0..<k] @ 0 # replicate (8 - Suc k) 0) (2 * k)) (2 * k + 1)"
      using Suc unfolding u r [symmetric] by simp
    also have "?f (map ?g [0..<k] @ 0 # replicate (8 - Suc k) 0) (2 * k) = map ?g [0..<k] @ push_bit 8 (ucast (src ! (2 * k))) # replicate (8 - Suc k) 0"
      unfolding d at by simp
    also have "?f \<dots> (2 * k + 1) = map ?g [0..<k] @ (push_bit 8 (ucast (src ! (2 * k))) OR ucast (src ! (2 * k + 1))) # replicate (8 - Suc k) 0"
      unfolding d at by simp
    also have "\<dots> = map ?g [0..<Suc k] @ replicate (8 - Suc k) 0" unfolding word_pair by simp
    finally show ?case .
  qed simp
  from this [of 8] show ?thesis unfolding address_words_def words_of_def by simp
qed

lemma word_bytes_pair: "word_bytes (unat (a :: byte) * 256 + unat (b :: byte)) = [a, b]"
proof -
  have "(unat a * 256 + unat b) div 256 = unat a" "(unat a * 256 + unat b) mod 256 = unat b" using byte_lt [of b] by simp_all
  then show ?thesis by (simp add: word_bytes_def word_unat_eq_iff unat_of_nat del: of_nat_add of_nat_mult)
qed

lemma words_of_props: "length (words_of src) = 8" "word_list (words_of src)" "k < 8 \<Longrightarrow> unat (of_nat (words_of src ! k) :: 32 word) = words_of src ! k"
proof -
  have "words_of src ! k < 65536" if "k < 8" using that word_lt by (simp add: words_of_def)
  then show "k < 8 \<Longrightarrow> unat (of_nat (words_of src ! k) :: 32 word) = words_of src ! k"
    by (simp add: unsigned_of_nat take_bit_nat_eq_self)
qed (use word_lt in \<open>auto simp: words_of_def word_list_def\<close>)

lemma words_of_bytes:
  assumes "length src = 16"
  shows "concat (map word_bytes (words_of src)) = src"
proof -
  have "concat (map (\<lambda>k. [src ! (2 * k), src ! (2 * k + 1)]) [0..<k]) = take (2 * k) src" if "k \<le> 8" for k
    using that
  proof (induction k)
    case (Suc k)
    then have l: "2 * k < length src" "Suc (2 * k) < length src" using assms by simp_all
    have "take (2 * Suc k) src = take (2 * k) src @ [src ! (2 * k), src ! (2 * k + 1)]"
      using take_Suc_conv_app_nth [OF l(1)] take_Suc_conv_app_nth [OF l(2)] by simp
    then show ?case using Suc by simp
  qed simp
  from this [of 8] show ?thesis using assms by (simp add: words_of_def word_bytes_pair o_def)
qed

text \<open>The run of zeros that is left out.\<close>

definition zero_at :: "32 word list \<Rightarrow> int \<Rightarrow> int \<Rightarrow> bool" where
  "zero_at ws b e \<longleftrightarrow> 0 \<le> b \<and> (\<forall>k. b \<le> int k \<and> int k < e \<longrightarrow> ws ! k = 0)"

lemma zero_at_Suc:
  assumes "zero_at ws b (int i)" "ws ! i = 0"
  shows "zero_at ws b (int i + 1)"
  unfolding zero_at_def
proof (intro conjI allI impI)
  fix k
  assume "b \<le> int k \<and> int k < int i + 1"
  then show "ws ! k = 0" using assms by (cases "k = i") (auto simp: zero_at_def)
qed (use assms(1) in \<open>simp add: zero_at_def\<close>)

definition run_ok :: "32 word list \<Rightarrow> nat \<Rightarrow> zero_run \<Rightarrow> bool" where
  "run_ok ws i r \<longleftrightarrow> run_base r = - 1 \<or> 0 < run_len r \<and> run_base r + run_len r \<le> int i \<and> zero_at ws (run_base r) (run_base r + run_len r)"

lemma run_loop_finds:
  assumes "i \<le> length ws" "run_ok ws i best" "run_ok ws i cur" "run_base cur = - 1 \<or> run_base cur + run_len cur = int i"
  shows "run_ok ws (length ws) (run_loop (drop i ws) (int i) best cur)"
  using assms
proof (induction "length ws - i" arbitrary: i best cur)
  case 0
  then show ?case by (simp add: better_run_def)
next
  case (Suc n)
  then have i: "i < length ws" by simp
  have d: "drop i ws = ws ! i # drop (Suc i) ws" using Cons_nth_drop_Suc [OF i] by simp
  have mono: "run_ok ws (Suc i) r" if "run_ok ws i r" for r using that by (auto simp: run_ok_def)
  have n: "n = length ws - Suc i" "Suc i \<le> length ws" using Suc.hyps(2) by simp_all
  have e: "int i + 1 = int (Suc i)" by simp
  show ?case
  proof (cases "ws ! i = 0")
    case True
    let ?cur = "if run_base cur = - 1 then \<lparr>run_base = int i, run_len = 1\<rparr> else cur\<lparr>run_len := run_len cur + 1\<rparr>"
    have "run_ok ws (Suc i) ?cur"
    proof (cases "run_base cur = - 1")
      case new: True
      have "zero_at ws (int i) (int i + 1)" using True by (auto simp: zero_at_def less_Suc_eq_le dest: le_antisym)
      then show ?thesis using new by (simp add: run_ok_def)
    next
      case False
      then have c: "0 < run_len cur" "run_base cur + run_len cur = int i" "zero_at ws (run_base cur) (int i)"
        using Suc.prems(3,4) by (auto simp: run_ok_def)
      then show ?thesis using False zero_at_Suc [OF c(3) True] by (auto simp: run_ok_def algebra_simps)
    qed
    moreover have "run_base ?cur = - 1 \<or> run_base ?cur + run_len ?cur = int (Suc i)" using Suc.prems(4) by auto
    ultimately show ?thesis
      using Suc.hyps(1) [OF n mono [OF Suc.prems(2)]] True unfolding d run_loop.simps e by simp
  next
    case False
    have "run_ok ws (Suc i) (better_run best cur)" "run_ok ws (Suc i) (cur\<lparr>run_base := - 1\<rparr>)"
      using mono Suc.prems(2,3) by (simp_all add: better_run_def, simp add: run_ok_def)
    then show ?thesis using Suc.hyps(1) [OF n] False unfolding d run_loop.simps e by simp
  qed
qed

lemma best_run_ok:
  assumes "best = best_run ws" "run_base best \<noteq> - 1"
  shows "2 \<le> run_len best \<and> run_base best + run_len best \<le> int (length ws) \<and> zero_at ws (run_base best) (run_base best + run_len best)"
proof -
  have "run_ok ws (length ws) (run_loop ws 0 \<lparr>run_base = - 1, run_len = 0\<rparr> \<lparr>run_base = - 1, run_len = 0\<rparr>)"
    using run_loop_finds [of 0 ws "\<lparr>run_base = - 1, run_len = 0\<rparr>" "\<lparr>run_base = - 1, run_len = 0\<rparr>"] by (simp add: run_ok_def)
  then show ?thesis using assms by (auto simp: best_run_def Let_def run_ok_def split: if_splits)
qed

text \<open>It finds the first of the longest runs.\<close>

definition zero_words :: "'a :: zero list \<Rightarrow> nat \<Rightarrow> nat \<Rightarrow> bool" where
  "zero_words ws b l \<longleftrightarrow> b + l \<le> length ws \<and> (\<forall>k<l. ws ! (b + k) = 0)"

definition covers :: "zero_run \<Rightarrow> nat \<Rightarrow> nat \<Rightarrow> bool" where
  "covers r b l \<longleftrightarrow> run_base r \<noteq> - 1 \<and> (int l < run_len r \<or> int l = run_len r \<and> run_base r \<le> int b)"

definition cur_run :: "32 word list \<Rightarrow> nat \<Rightarrow> zero_run \<Rightarrow> bool" where
  "cur_run ws i cur \<longleftrightarrow>
     (if run_base cur = - 1 then i = 0 \<or> ws ! (i - 1) \<noteq> 0
      else \<exists>c<i. run_base cur = int c \<and> run_len cur = int (i - c) \<and> (c = 0 \<or> ws ! (c - 1) \<noteq> 0))"

definition runs_seen :: "32 word list \<Rightarrow> nat \<Rightarrow> zero_run \<Rightarrow> zero_run \<Rightarrow> bool" where
  "runs_seen ws i best cur \<longleftrightarrow> cur_run ws i cur \<and>
     (run_base best \<noteq> - 1 \<longrightarrow> run_base best \<le> int i \<and> (run_base cur \<noteq> - 1 \<longrightarrow> run_base best \<le> run_base cur)) \<and>
     (\<forall>b l. 0 < l \<and> b + l \<le> i \<and> zero_words ws b l \<longrightarrow> covers best b l \<or> run_base cur \<noteq> - 1 \<and> run_base cur \<le> int b)"

lemma better_covers:
  assumes "runs_seen ws i best cur" "0 < l" "b + l \<le> i" "zero_words ws b l"
  shows "covers (better_run best cur) b l"
proof (cases "run_base cur = - 1")
  case True
  then show ?thesis using assms unfolding runs_seen_def better_run_def by auto
next
  case False
  then obtain c where c: "c < i" "run_base cur = int c" "run_len cur = int (i - c)" using assms(1) by (auto simp: runs_seen_def cur_run_def)
  have d: "covers best b l \<or> c \<le> b" "run_base best \<noteq> - 1 \<longrightarrow> run_base best \<le> int c" using assms c(2) by (auto simp: runs_seen_def)
  show ?thesis
  proof (cases "covers best b l")
    case True
    then show ?thesis by (auto simp: covers_def better_run_def)
  next
    case no: False
    then have "c \<le> b" using d(1) by simp
    then have "int l < run_len cur \<or> int l = run_len cur \<and> run_base cur \<le> int b" using assms(3) c by auto
    then show ?thesis using False c d(2) by (auto simp: covers_def better_run_def)
  qed
qed

lemma runs_step_zero:
  assumes "runs_seen ws i best cur" "i < length ws" "ws ! i = 0"
  shows "runs_seen ws (Suc i) best (if run_base cur = - 1 then \<lparr>run_base = int i, run_len = 1\<rparr> else cur\<lparr>run_len := run_len cur + 1\<rparr>)"
    (is "runs_seen ws (Suc i) best ?cur")
proof -
  obtain c where c: "c \<le> i" "run_base ?cur = int c" "run_len ?cur = int (Suc i - c)" "c = 0 \<or> ws ! (c - 1) \<noteq> 0"
    "if run_base cur = - 1 then c = i else run_base cur = int c"
  proof (cases "run_base cur = - 1")
    case True
    then show ?thesis using assms(1) that [of i] unfolding runs_seen_def cur_run_def by simp
  next
    case False
    then obtain c where c: "c < i" "run_base cur = int c" "run_len cur = int (i - c)" "c = 0 \<or> ws ! (c - 1) \<noteq> 0"
      using assms(1) unfolding runs_seen_def cur_run_def by auto
    have "int (i - c) + 1 = int (Suc i - c)" using c(1) by linarith
    moreover have "?cur = cur\<lparr>run_len := run_len cur + 1\<rparr>" using False by simp
    ultimately show ?thesis by (intro that [of c]) (use c False in simp_all)
  qed
  have seen: "covers best b l \<or> run_base cur \<noteq> - 1 \<and> c \<le> b" if "0 < l" "b + l \<le> i" "zero_words ws b l" for b l
    using assms(1) that c(5) unfolding runs_seen_def by (cases "run_base cur = - 1") auto
  have "covers best b l \<or> c \<le> b" if r: "0 < l" "b + l \<le> Suc i" "zero_words ws b l" for b l
  proof (cases "b + l \<le> i")
    case True
    then show ?thesis using seen [OF r(1) _ r(3)] by blast
  next
    case False
    have "c \<le> b"
    proof (rule ccontr)
      assume "\<not> c \<le> b"
      then have "c - 1 - b < l" "b + (c - 1 - b) = c - 1" "c \<noteq> 0" using False c(1) by simp_all
      then show False using r(3) c(4) unfolding zero_words_def by metis
    qed
    then show ?thesis by simp
  qed
  moreover have "run_base best \<noteq> - 1 \<longrightarrow> run_base best \<le> int c"
    using assms(1) c(5) unfolding runs_seen_def by (cases "run_base cur = - 1") auto
  moreover have "cur_run ws (Suc i) ?cur" unfolding cur_run_def using c(1-4) by (auto intro!: exI [of _ c])
  ultimately show ?thesis unfolding runs_seen_def using c(1,2) by auto
qed

lemma runs_step_other:
  assumes "runs_seen ws i best cur" "ws ! i \<noteq> 0"
  shows "runs_seen ws (Suc i) (better_run best cur) (cur\<lparr>run_base := - 1\<rparr>)"
proof -
  have "covers (better_run best cur) b l" if "0 < l" "b + l \<le> Suc i" "zero_words ws b l" for b l
  proof -
    have "b + l \<noteq> Suc i"
    proof
      assume "b + l = Suc i"
      then have "b + (l - 1) = i" "l - 1 < l" using that(1) by simp_all
      then show False using that(3) assms(2) unfolding zero_words_def by metis
    qed
    then show ?thesis using better_covers [OF assms(1) that(1) _ that(3)] that(2) by simp
  qed
  moreover have "run_base (better_run best cur) \<noteq> - 1 \<longrightarrow> run_base (better_run best cur) \<le> int (Suc i)"
    using assms(1) unfolding runs_seen_def cur_run_def better_run_def by auto
  ultimately show ?thesis using assms(2) unfolding runs_seen_def by (simp add: cur_run_def)
qed

lemma run_loop_longest:
  assumes "i \<le> length ws" "runs_seen ws i best cur" "0 < l" "zero_words ws b l"
  shows "covers (run_loop (drop i ws) (int i) best cur) b l"
  using assms
proof (induction "length ws - i" arbitrary: i best cur)
  case 0
  then show ?case using better_covers [of ws i best cur l b] by (simp add: zero_words_def)
next
  case (Suc n)
  then have i: "i < length ws" by simp
  have d: "drop i ws = ws ! i # drop (Suc i) ws" using Cons_nth_drop_Suc [OF i] by simp
  have n: "n = length ws - Suc i" "Suc i \<le> length ws" using Suc.hyps(2) by simp_all
  have e: "int i + 1 = int (Suc i)" by simp
  show ?case
  proof (cases "ws ! i = 0")
    case True
    then show ?thesis using Suc.hyps(1) [OF n runs_step_zero [OF Suc.prems(2) i True] Suc.prems(3,4)] unfolding d run_loop.simps e by simp
  next
    case False
    then show ?thesis using Suc.hyps(1) [OF n runs_step_other [OF Suc.prems(2) False] Suc.prems(3,4)] unfolding d run_loop.simps e by simp
  qed
qed

lemma best_run_longest:
  assumes "best = best_run ws" "0 < l" "zero_words ws b l"
  shows "if run_base best = - 1 then l < 2 else covers best b l"
proof -
  let ?none = "\<lparr>run_base = - 1, run_len = 0\<rparr>"
  have "runs_seen ws 0 ?none ?none" by (simp add: runs_seen_def cur_run_def)
  from run_loop_longest [OF _ this assms(2,3)] have "covers (run_loop ws 0 ?none ?none) b l" by simp
  then show ?thesis using assms(1,2) by (auto simp: best_run_def Let_def covers_def)
qed

section \<open>The text\<close>

definition in_run :: "zero_run \<Rightarrow> nat \<Rightarrow> bool" where
  "in_run best j \<longleftrightarrow> run_base best \<noteq> - 1 \<and> run_base best \<le> int j \<and> int j < run_base best + run_len best"

definition v4_tail :: "32 word list \<Rightarrow> zero_run \<Rightarrow> bool" where
  "v4_tail ws best \<longleftrightarrow> run_base best = 0 \<and> (run_len best = 6 \<or> run_len best = 7 \<and> ws ! 7 \<noteq> 1 \<or> run_len best = 5 \<and> ws ! 5 = 0xFFFF)"

lemma ntop6_step:
  "ntop6_loop (Suc n) src ws best (int i) tmp =
     (if in_run best i then ntop6_loop n src ws best (int (Suc i)) (if int i = run_base best then tmp @ [colon] else tmp)
      else
        (let tmp = (if i \<noteq> 0 then tmp @ [colon] else tmp)
         in if i = 6 \<and> v4_tail ws best
            then (let (err, buf) = inet_ntop4 (drop 12 src) (replicate (UV__INET6_ADDRSTRLEN - length tmp) 0) (UV__INET6_ADDRSTRLEN - length tmp)
                  in if err \<noteq> 0 then Inl err else Inr (tmp @ takeWhile (\<lambda>c. c \<noteq> 0) buf))
            else ntop6_loop n src ws best (int (Suc i)) (tmp @ hex (unat (ws ! i)))))"
proof -
  have e: "int (Suc i) = int i + 1" "int i = 6 \<longleftrightarrow> i = 6" "int i = 0 \<longleftrightarrow> i = 0" by auto
  show ?thesis by (simp only: ntop6_loop.simps in_run_def v4_tail_def e nat_int conj_assoc)
qed

declare ntop6_loop.simps [simp del]

abbreviation colon_hex :: "nat \<Rightarrow> bytes" where "colon_hex m \<equiv> colon # hex m"

lemma loop_words:
  assumes "length W = 8" "word_list W"
  shows "i + n \<le> 8 \<Longrightarrow> 0 < i \<Longrightarrow> \<forall>j. i \<le> j \<and> j < i + n \<longrightarrow> \<not> in_run best j \<and> \<not> (j = 6 \<and> v4_tail (map of_nat W) best) \<Longrightarrow>
    ntop6_loop (n + k) src (map of_nat W) best (int i) tmp
      = ntop6_loop k src (map of_nat W) best (int (i + n)) (tmp @ concat (map colon_hex (take n (drop i W))))"
proof (induction n arbitrary: i tmp)
  case (Suc n)
  have i: "i < length W" using Suc.prems(1) assms(1) by simp
  have "W ! i < 65536" using assms(2) i by (simp add: word_list_def)
  then have u: "unat (map of_nat W ! i :: 32 word) = W ! i" using i by (simp add: unsigned_of_nat take_bit_nat_eq_self)
  have h: "in_run best i = False" "(i = 6 \<and> v4_tail (map of_nat W) best) = False" using spec [OF Suc.prems(3), of i] by auto
  have "ntop6_loop (Suc n + k) src (map of_nat W) best (int i) tmp
      = ntop6_loop (n + k) src (map of_nat W) best (int (Suc i)) (tmp @ colon_hex (W ! i))"
    using Suc.prems(2) u unfolding add_Suc ntop6_step h by (simp add: Let_def del: nth_map)
  also have "\<dots> = ntop6_loop k src (map of_nat W) best (int (Suc i + n)) ((tmp @ colon_hex (W ! i)) @ concat (map colon_hex (take n (drop (Suc i) W))))"
  proof (rule Suc.IH)
    show "\<forall>j. Suc i \<le> j \<and> j < Suc i + n \<longrightarrow> \<not> in_run best j \<and> \<not> (j = 6 \<and> v4_tail (map of_nat W) best)"
      using Suc.prems(3) Suc_leD add_Suc_shift by metis
  qed (use Suc.prems(1) in simp_all)
  finally show ?case using Cons_nth_drop_Suc [OF i, symmetric] by simp
qed simp

lemma loop_gap:
  "\<forall>j. i \<le> j \<and> j < i + n \<longrightarrow> in_run best j \<and> int j \<noteq> run_base best \<Longrightarrow>
    ntop6_loop (n + k) src ws best (int i) tmp = ntop6_loop k src ws best (int (i + n)) tmp"
proof (induction n arbitrary: i)
  case (Suc n)
  have "in_run best i" "int i \<noteq> run_base best" using spec [OF Suc.prems, of i] by simp_all
  then have "ntop6_loop (Suc n + k) src ws best (int i) tmp = ntop6_loop (n + k) src ws best (int (Suc i)) tmp"
    unfolding add_Suc ntop6_step by simp
  also have "\<dots> = ntop6_loop k src ws best (int (Suc i + n)) tmp" by (rule Suc.IH) (use Suc.prems in auto)
  finally show ?case by simp
qed simp

lemma loop_prefix:
  assumes "length W = 8" "word_list W" "n \<le> 8" "\<forall>j<n. \<not> in_run best j \<and> \<not> (j = 6 \<and> v4_tail (map of_nat W) best)"
  shows "ntop6_loop (n + k) src (map of_nat W) best 0 [] = ntop6_loop k src (map of_nat W) best (int n) (hexes (take n W))"
proof (cases n)
  case 0
  then show ?thesis by (simp add: hexes_Nil)
next
  case (Suc m)
  obtain a as where W: "W = a # as" using assms(1) by (cases W) auto
  have "a < 65536" using assms(2) W by (simp add: word_list_def)
  then have u: "unat (map of_nat W ! 0 :: 32 word) = a" using W by (simp add: unsigned_of_nat take_bit_nat_eq_self)
  have "\<not> in_run best 0" using spec [OF assms(4), of 0] Suc by simp
  then have "ntop6_loop (n + k) src (map of_nat W) best (int 0) [] = ntop6_loop (m + k) src (map of_nat W) best (int 1) (hex a)"
    using u unfolding Suc add_Suc ntop6_step by (simp add: Let_def del: nth_map)
  also have "\<dots> = ntop6_loop k src (map of_nat W) best (int (1 + m)) (hex a @ concat (map colon_hex (take m (drop 1 W))))"
    by (rule loop_words [OF assms(1,2)]) (use assms(3,4) Suc in auto)
  finally show ?thesis using Suc W by (simp add: hexes.simps)
qed

lemma takeWhile_string: "0 \<notin> set t \<Longrightarrow> takeWhile (\<lambda>c. c \<noteq> 0) (t @ 0 # r) = (t :: bytes)"
  by (induction t) auto

lemma loop_v4:
  assumes "\<not> in_run best 6" "v4_tail ws best" "length tmp \<le> 20"
  shows "ntop6_loop (Suc n) src ws best (int 6) tmp = Inr (tmp @ colon # ipv4_text (drop 12 src))"
proof -
  let ?t = "ipv4_text (drop 12 src)" and ?sz = "UV__INET6_ADDRSTRLEN - length (tmp @ [colon])"
  have sz: "length ?t < ?sz" using assms(3) length_ipv4_text [of "drop 12 src"] by simp
  have "0 \<notin> set ?t" using ipv4_text_chars [of 0] by blast
  then have "takeWhile (\<lambda>c. c \<noteq> 0) (?t @ 0 # r) = ?t" for r by (rule takeWhile_string)
  moreover have "inet_ntop4 (drop 12 src) (replicate ?sz 0) ?sz = (0, ?t @ 0 # drop (length ?t + 1) (replicate ?sz 0))"
    using ntop4 [of ?sz "replicate ?sz 0" "drop 12 src"] sz by simp
  moreover have "in_run best 6 = False" "(6 = (6 :: nat) \<and> v4_tail ws best) = True" "(6 \<noteq> (0 :: nat)) = True" using assms by simp_all
  ultimately show ?thesis unfolding ntop6_step by (simp only: if_True if_False Let_def prod.case) simp
qed

text \<open>The text of an address. The run is of at least two zeros.\<close>

definition v4_form :: "nat list \<Rightarrow> zero_run \<Rightarrow> bool" where
  "v4_form W best \<longleftrightarrow> run_base best = 0 \<and> (run_len best = 6 \<or> run_len best = 5 \<and> W ! 5 = 65535)"

definition ipv6_text :: "bytes \<Rightarrow> bytes" where
  "ipv6_text src =
     (let W = words_of src; best = best_run (address_words src); b = nat (run_base best); l = nat (run_len best)
      in if run_base best = - 1 then hexes W
         else if v4_form W best
         then colon # colon # (if l = 6 then [] else hex 65535 @ [colon]) @ ipv4_text (drop 12 src)
         else hexes (take b W) @ colon # colon # hexes (drop (b + l) W))"

text \<open>What is known of the words and the run.\<close>

definition run_of :: "nat list \<Rightarrow> zero_run \<Rightarrow> nat \<Rightarrow> nat \<Rightarrow> bool" where
  "run_of W best b l \<longleftrightarrow> run_base best = int b \<and> run_len best = int l \<and> 2 \<le> l \<and> b + l \<le> 8 \<and> W = take b W @ replicate l 0 @ drop (b + l) W"

lemma word_eqs: "k < 8 \<Longrightarrow> address_words src ! k = of_nat (words_of src ! k)"
    "k < 8 \<Longrightarrow> address_words src ! k = 0 \<longleftrightarrow> words_of src ! k = 0"
    "k < 8 \<Longrightarrow> address_words src ! k = 0xFFFF \<longleftrightarrow> words_of src ! k = 65535"
proof -
  assume k: "k < 8"
  show w: "address_words src ! k = of_nat (words_of src ! k)" using k by (simp add: address_words_eq words_of_props(1))
  show "address_words src ! k = 0 \<longleftrightarrow> words_of src ! k = 0" "address_words src ! k = 0xFFFF \<longleftrightarrow> words_of src ! k = 65535"
    using words_of_props(3) [OF k, of src] unfolding w word_unat_eq_iff by simp_all
qed

lemma best_run_cases:
  assumes "best = best_run (address_words src)"
  obtains "run_base best = - 1" | b l where "run_of (words_of src) best b l"
proof (cases "run_base best = - 1")
  case False
  let ?W = "words_of src"
  have l8: "length (address_words src) = 8" "length ?W = 8" by (simp_all add: address_words_eq words_of_props(1))
  have r: "2 \<le> run_len best" "run_base best + run_len best \<le> 8" "zero_at (address_words src) (run_base best) (run_base best + run_len best)"
    using best_run_ok [OF assms False] l8 by simp_all
  obtain b l where bl: "run_base best = int b" "run_len best = int l"
    using r(1,3) zero_le_imp_eq_int [of "run_base best"] zero_le_imp_eq_int [of "run_len best"] by (force simp: zero_at_def)
  have b: "2 \<le> l" "b + l \<le> 8" using r(1,2) bl by simp_all
  have "take l (drop b ?W) = replicate l 0"
  proof (rule nth_equalityI)
    fix k
    assume "k < length (take l (drop b ?W))"
    then have k: "k < l" "b + k < 8" using b l8 by simp_all
    have "address_words src ! (b + k) = 0" using r(3) k bl by (auto simp: zero_at_def)
    then have "?W ! (b + k) = 0" using word_eqs(2) [OF k(2)] by blast
    then show "take l (drop b ?W) ! k = replicate l 0 ! k" using k l8 by simp
  qed (use b l8 in simp)
  then have "?W = take b ?W @ replicate l 0 @ drop (b + l) ?W" by (metis append_take_drop_id drop_drop add.commute)
  then show ?thesis using that(2) bl b by (auto simp: run_of_def)
qed (use that in blast)

text \<open>The short form of an address, by its words: the first of the longest runs of zeros is left out if there are two zeros side by side;
  six zeros at the front, or five and \<open>ffff\<close>, are followed by an IPv4 address.\<close>

definition longest_zeros :: "nat list \<Rightarrow> nat \<Rightarrow> nat \<Rightarrow> bool" where
  "longest_zeros W b l \<longleftrightarrow> zero_words W b l \<and> (\<forall>b' l'. 0 < l' \<and> zero_words W b' l' \<longrightarrow> l' < l \<or> l' = l \<and> b \<le> b')"

definition short_form :: "bytes \<Rightarrow> bytes \<Rightarrow> bool" where
  "short_form src t \<longleftrightarrow>
     (let W = words_of src
      in if \<forall>b. \<not> zero_words W b 2 then t = hexes W
         else \<exists>b l. longest_zeros W b l \<and>
           t = (if b = 0 \<and> l = 6 then [colon, colon] @ ipv4_text (drop 12 src)
                else if b = 0 \<and> l = 5 \<and> W ! 5 = 65535 then [colon, colon] @ hex 65535 @ [colon] @ ipv4_text (drop 12 src)
                else hexes (take b W) @ [colon, colon] @ hexes (drop (b + l) W)))"

lemma zero_words_eq: "zero_words (address_words src) b l \<longleftrightarrow> zero_words (words_of src) b l"
proof -
  have l8: "length (address_words src) = 8" "length (words_of src) = 8" by (simp_all add: address_words_eq words_of_props(1))
  have "address_words src ! (b + k) = 0 \<longleftrightarrow> words_of src ! (b + k) = 0" if "b + l \<le> 8" "k < l" for k
    using word_eqs(2) [of "b + k" src] that by simp
  then show ?thesis unfolding zero_words_def l8 by auto
qed

lemma text_is_short: "short_form src (ipv6_text src)"
proof -
  let ?W = "words_of src"
  obtain best where best: "best = best_run (address_words src)" by simp
  have lng: "if run_base best = - 1 then l < 2 else covers best b l" if "0 < l" "zero_words ?W b l" for b l
    by (rule best_run_longest [OF best that(1)]) (use that(2) zero_words_eq in blast)
  show ?thesis using best
  proof (cases rule: best_run_cases)
    case 1
    then have "\<forall>b. \<not> zero_words ?W b 2" using lng [of 2] by auto
    then show ?thesis using 1 best by (simp add: short_form_def ipv6_text_def Let_def)
  next
    case (2 b l)
    then have r: "run_base best = int b" "run_len best = int l" "2 \<le> l" "b + l \<le> 8" "?W = take b ?W @ replicate l 0 @ drop (b + l) ?W"
      by (auto simp: run_of_def)
    have "?W ! (b + k) = 0" if "k < l" for k
    proof -
      have "?W ! (b + k) = (take b ?W @ replicate l 0 @ drop (b + l) ?W) ! (b + k)" using r(5) by metis
      then show ?thesis using that r(4) words_of_props(1) [of src] by (simp add: nth_append)
    qed
    then have z: "zero_words ?W b l" using r(4) words_of_props(1) [of src] by (simp add: zero_words_def)
    have "l' < l \<or> l' = l \<and> b \<le> b'" if "0 < l'" "zero_words ?W b' l'" for b' l'
      using lng [OF that] r(1,2) by (auto simp: covers_def)
    then have lz: "longest_zeros ?W b l" using z by (simp add: longest_zeros_def)
    have "zero_words ?W b 2" using z r(3) by (auto simp: zero_words_def)
    then have two: "\<not> (\<forall>b. \<not> zero_words ?W b 2)" by blast
    have "ipv6_text src = (if b = 0 \<and> l = 6 then [colon, colon] @ ipv4_text (drop 12 src)
                else if b = 0 \<and> l = 5 \<and> ?W ! 5 = 65535 then [colon, colon] @ hex 65535 @ [colon] @ ipv4_text (drop 12 src)
                else hexes (take b ?W) @ [colon, colon] @ hexes (drop (b + l) ?W))"
      using r(1,2) unfolding ipv6_text_def Let_def best [symmetric] v4_form_def by auto
    then show ?thesis unfolding short_form_def Let_def if_not_P [OF two] using lz by blast
  qed
qed

lemma run_of_in_run: "run_of W best b l \<Longrightarrow> in_run best j \<longleftrightarrow> b \<le> j \<and> j < b + l"
  by (auto simp: run_of_def in_run_def)

lemma v4_form_cases:
  assumes "run_of W best b l" "v4_form W best"
  shows "b = 0" "l = 6 \<or> l = 5 \<and> W ! 5 = 65535"
  using assms by (auto simp: run_of_def v4_form_def)

lemma v4_form_iff:
  assumes "run_of (words_of src) best b l"
  shows "\<not> in_run best 6 \<and> v4_tail (address_words src) best \<longleftrightarrow> v4_form (words_of src) best"
  using assms word_eqs(3) [of 5 src] by (auto simp: run_of_def in_run_def v4_tail_def v4_form_def)

text \<open>The loop, and the colon after it, write the text.\<close>

lemma loop_text:
  assumes "best = best_run (address_words src)"
  shows "\<exists>tmp. ntop6_loop 8 src (address_words src) best 0 [] = Inr tmp \<and>
    (if run_base best \<noteq> - 1 \<and> run_base best + run_len best = 8 then tmp @ [colon] else tmp) = ipv6_text src"
proof -
  let ?W = "words_of src"
  note W = words_of_props(1,2) [of src]
  have aw: "address_words src = map of_nat ?W" by (rule address_words_eq)
  have step_b: "ntop6_loop (Suc n) src ws best (int b) tmp = ntop6_loop n src ws best (int (Suc b)) (tmp @ [colon])"
    if "run_of ?W best b l" for n ws b l tmp
    using run_of_in_run [OF that, of b] that unfolding ntop6_step by (simp add: run_of_def)
  from assms show ?thesis
  proof (cases rule: best_run_cases)
    case 1
    have "ntop6_loop (8 + 0) src (map of_nat ?W) best 0 [] = ntop6_loop 0 src (map of_nat ?W) best (int 8) (hexes (take 8 ?W))"
      by (rule loop_prefix [OF W]) (use 1 in \<open>auto simp: in_run_def v4_tail_def\<close>)
    then show ?thesis using 1 W assms by (simp add: aw ntop6_loop.simps ipv6_text_def Let_def)
  next
    case (2 b l)
    note inr = run_of_in_run [OF 2]
    have gap: "ntop6_loop (l - 1 + k) src ws best (int (Suc b)) tmp = ntop6_loop k src ws best (int (b + l)) tmp" for k ws tmp
      using loop_gap [of "Suc b" "l - 1" best k src ws tmp] inr 2 by (simp add: run_of_def)
    have base: "run_base best = int b" "run_len best = int l" "2 \<le> l" "b + l \<le> 8" using 2 by (simp_all add: run_of_def)
    show ?thesis
    proof (cases "v4_form ?W best")
      case True
      note v4 = v4_form_cases [OF 2 True]
      have nr: "\<not> in_run best 6" "v4_tail (address_words src) best" using v4_form_iff [OF 2] True by simp_all
      have start: "ntop6_loop (Suc (l - 1 + k)) src ws best 0 [] = ntop6_loop k src ws best (int l) [colon]" for k ws
        using step_b [OF 2, of "l - 1 + k" ws "[]"] gap [of k ws] v4(1) by simp
      have "ntop6_loop 8 src (address_words src) best 0 [] = Inr (ipv6_text src)"
        using v4(2)
      proof
        assume l: "l = 6"
        have "ntop6_loop (Suc (l - 1 + 2)) src (address_words src) best 0 [] = ntop6_loop (Suc 1) src (address_words src) best (int 6) [colon]"
          using start [of "Suc 1" "address_words src"] l by (simp only: Suc_1)
        also have "\<dots> = Inr ([colon] @ colon # ipv4_text (drop 12 src))" by (rule loop_v4 [OF nr]) simp
        also have "Suc (l - 1 + 2) = 8" using l by simp
        finally show ?thesis using l True base assms by (simp add: ipv6_text_def Let_def)
      next
        assume l: "l = 5 \<and> ?W ! 5 = 65535"
        have d: "take 1 (drop 5 ?W) = [65535]" using l W(1) by (simp add: take_Suc_conv_app_nth hd_drop_conv_nth take_Suc)
        have "ntop6_loop (1 + 2) src (map of_nat ?W) best (int 5) [colon] = ntop6_loop 2 src (map of_nat ?W) best (int (5 + 1)) ([colon] @ concat (map colon_hex (take 1 (drop 5 ?W))))"
          by (rule loop_words [OF W]) (use inr l v4(1) in auto)
        then have "ntop6_loop 3 src (address_words src) best (int l) [colon] = ntop6_loop (Suc 1) src (address_words src) best (int 6) ([colon] @ colon_hex 65535)"
          using l unfolding aw d by (simp add: numeral_2_eq_2 numeral_3_eq_3)
        also have "\<dots> = Inr (([colon] @ colon_hex 65535) @ colon # ipv4_text (drop 12 src))"
          by (rule loop_v4 [OF nr]) (use length_hex_word [of 65535] in simp)
        finally have "ntop6_loop (Suc (l - 1 + 3)) src (address_words src) best 0 [] = \<dots>" unfolding start .
        moreover have "Suc (l - 1 + 3) = 8" using l by simp
        ultimately show ?thesis using l True base assms by (simp add: ipv6_text_def Let_def)
      qed
      then show ?thesis using base v4 by auto
    next
      case False
      let ?pre = "hexes (take b ?W)" and ?suf = "concat (map colon_hex (drop (b + l) ?W))"
      have no4: "\<not> in_run best j \<and> \<not> (j = 6 \<and> v4_tail (map of_nat ?W) best)" if "j < b \<or> b + l \<le> j" for j
        using v4_form_iff [OF 2] False inr [of j] that aw by auto
      have split: "8 = b + Suc (l - 1 + (8 - b - l + 0))" using base by simp
      have "ntop6_loop 8 src (address_words src) best 0 [] = ntop6_loop (Suc (l - 1 + (8 - b - l + 0))) src (map of_nat ?W) best (int b) ?pre"
        unfolding aw by (subst split, rule loop_prefix [OF W]) (insert no4 base, simp, blast)
      also have "\<dots> = ntop6_loop (8 - b - l + 0) src (map of_nat ?W) best (int (b + l)) (?pre @ [colon])"
        unfolding step_b [OF 2] gap ..
      also have "\<dots> = ntop6_loop 0 src (map of_nat ?W) best (int (b + l + (8 - b - l))) ((?pre @ [colon]) @ concat (map colon_hex (take (8 - b - l) (drop (b + l) ?W))))"
        by (rule loop_words [OF W]) (insert no4 base, simp, simp, blast)
      also have "\<dots> = Inr (?pre @ colon # ?suf)" using W(1) by (simp add: ntop6_loop.simps)
      finally have l: "ntop6_loop 8 src (address_words src) best 0 [] = Inr (?pre @ colon # ?suf)" .
      have "(if b + l = 8 then ?suf @ [colon] else ?suf) = colon # hexes (drop (b + l) ?W)"
        using W(1) base by (cases "drop (b + l) ?W") (auto simp: hexes.simps)
      then show ?thesis using l base False assms by (auto simp: ipv6_text_def Let_def)
    qed
  qed
qed

section \<open>Round trip\<close>

lemma zero_words: "concat (map word_bytes (replicate n 0)) = replicate (2 * n) 0"
  by (induction n) (simp_all add: word_bytes_def)

lemma word_list_parts: "word_list W \<Longrightarrow> word_list (take n W) \<and> word_list (drop n W)"
  by (auto simp: word_list_def dest: in_set_takeD in_set_dropD)

lemma text_is_read:
  assumes "length src = 16"
  shows "inet_pton6 (ipv6_text src) = Inr src"
proof -
  let ?W = "words_of src" and ?cb = "\<lambda>ns. concat (map word_bytes ns)"
  obtain best where best: "best = best_run (address_words src)" by simp
  note W = words_of_props(1,2) [of src] and src = words_of_bytes [OF assms]
  from best show ?thesis
  proof (cases rule: best_run_cases)
    case 1
    then show ?thesis using read_all_words [OF W(2,1)] best src by (simp add: ipv6_text_def Let_def)
  next
    case (2 b l)
    have base: "run_base best = int b" "run_len best = int l" "2 \<le> l" "b + l \<le> 8" "?W = take b ?W @ replicate l 0 @ drop (b + l) ?W"
      using 2 by (simp_all add: run_of_def)
    have parts: "src = ?cb (take b ?W) @ replicate (2 * l) 0 @ ?cb (drop (b + l) ?W)"
      using src by (subst (asm) base(5)) (simp add: zero_words del: map_replicate)
    show ?thesis
    proof (cases "v4_form ?W best")
      case True
      note v4 = v4_form_cases [OF 2 True]
      have t: "ipv6_text src = colon # colon # concat (map (\<lambda>m. hex m @ [colon]) ms) @ ipv4_text (drop 12 src)"
        if "ms = (if l = 6 then [] else [65535])" for ms
        using that True base v4 best by (simp add: ipv6_text_def Let_def)
      have d: "length (drop 12 src) = 4" using assms by simp
      from v4(2) show ?thesis
      proof
        assume l: "l = 6"
        have "take 12 src = replicate 12 0" using arg_cong [OF parts, of "take 12"] l v4(1) by simp
        then have "src = replicate 12 0 @ drop 12 src" by (metis append_take_drop_id)
        then show ?thesis using read_gap_v4 [of "[]", OF _ _ d] t [of "[]"] l by (simp add: word_list_def)
      next
        assume l: "l = 5 \<and> ?W ! 5 = 65535"
        have "drop 5 ?W = 65535 # drop 6 ?W" using l W(1) Cons_nth_drop_Suc [of 5 ?W] by simp
        then have "src = replicate 10 0 @ word_bytes 65535 @ ?cb (drop 6 ?W)" using parts l v4(1) by simp
        from arg_cong [OF this, of "take 12"] have "take 12 src = replicate 10 0 @ word_bytes 65535" by (simp add: word_bytes_def)
        then have "src = replicate 10 0 @ word_bytes 65535 @ drop 12 src" by (metis append_take_drop_id append_assoc)
        then show ?thesis using read_gap_v4 [of "[65535]", OF _ _ d] t [of "[65535]"] l by (simp add: word_list_def)
      qed
    next
      case False
      have "ipv6_text src = hexes (take b ?W) @ colon # colon # hexes (drop (b + l) ?W)"
        using False base best by (simp add: ipv6_text_def Let_def)
      moreover have "inet_pton6 (hexes (take b ?W) @ colon # colon # hexes (drop (b + l) ?W))
          = Inr (?cb (take b ?W) @ replicate (16 - 2 * length (take b ?W) - 2 * length (drop (b + l) ?W)) 0 @ ?cb (drop (b + l) ?W))"
        by (rule read_with_gap) (use word_list_parts [OF W(2)] W(1) base in simp_all)
      moreover have "16 - 2 * length (take b ?W) - 2 * length (drop (b + l) ?W) = 2 * l" using W(1) base by simp
      ultimately show ?thesis using parts by simp
    qed
  qed
qed

lemma hexes_length: "word_list ns \<Longrightarrow> length (hexes ns) \<le> 5 * length ns"
proof -
  have "length (concat (map colon_hex ns)) \<le> 5 * length ns" if "word_list ns" for ns
    using that length_hex_word by (induction ns) (fastforce simp: word_list_def)+
  then show "word_list ns \<Longrightarrow> ?thesis"
    using length_hex_word by (cases ns) (fastforce simp: word_list_def hexes.simps)+
qed

lemma ipv6_text_bounds: "length (ipv6_text src) \<le> 45 \<and> (\<forall>c\<in>set (ipv6_text src). c \<noteq> 0 \<and> c \<noteq> percent)"
proof -
  let ?W = "words_of src"
  note W = words_of_props(1,2) [of src]
  obtain best where best: "best = best_run (address_words src)" by simp
  have v4: "length (colon # colon # (if x then [] else hex 65535 @ [colon]) @ ipv4_text (drop 12 src)) \<le> 45" for x
    using length_hex_word [of 65535] length_ipv4_text [of "drop 12 src"] by simp
  from best show ?thesis
  proof (cases rule: best_run_cases)
    case 1
    then show ?thesis using hexes_length [OF W(2)] W(1) hexes_chars best by (auto simp: ipv6_text_def Let_def)
  next
    case (2 b l)
    then have base: "run_base best = int b" "run_len best = int l" "2 \<le> l" "b + l \<le> 8" by (simp_all add: run_of_def)
    have "length (hexes (take b ?W)) \<le> 5 * b" "length (hexes (drop (b + l) ?W)) \<le> 5 * (8 - (b + l))"
      using hexes_length [of "take b ?W"] hexes_length [of "drop (b + l) ?W"] word_list_parts [OF W(2)] W(1) base by simp_all
    then have "length (hexes (take b ?W) @ colon # colon # hexes (drop (b + l) ?W)) \<le> 45" using base by simp
    moreover have "\<forall>c\<in>set (hexes (take b ?W) @ colon # colon # hexes (drop (b + l) ?W)). c \<noteq> 0 \<and> c \<noteq> percent" using hexes_chars by auto
    moreover have "\<forall>c\<in>set (colon # colon # (if x then [] else hex 65535 @ [colon]) @ ipv4_text (drop 12 src)). c \<noteq> 0 \<and> c \<noteq> percent" for x
      using hex_special ipv4_text_chars by auto
    ultimately show ?thesis using v4 base best unfolding ipv6_text_def Let_def by (cases "v4_form ?W best") simp_all
  qed
qed

lemma ntop6:
  assumes "n \<le> length dst"
  shows "inet_ntop6 src dst n =
    (let t = ipv6_text src
     in if length t < n then (0, t @ 0 # drop (length t + 1) dst) else if n = 0 then (0, dst) else (UV_ENOSPC, take (n - 1) t @ 0 # drop n dst))"
proof -
  obtain tmp where tmp: "ntop6_loop 8 src (address_words src) (best_run (address_words src)) 0 [] = Inr tmp"
    "(if run_base (best_run (address_words src)) \<noteq> - 1 \<and> run_base (best_run (address_words src)) + run_len (best_run (address_words src)) = 8
      then tmp @ [colon] else tmp) = ipv6_text src"
    using loop_text [OF refl] by blast
  have "0 \<notin> set (ipv6_text src)" "length (ipv6_text src) \<le> SSIZE_MAX" using ipv6_text_bounds [of src] by auto
  then show ?thesis
    using strscpy_copies [of "ipv6_text src" n dst "[]"] assms
    unfolding inet_ntop6_def Let_def tmp(1) sum.case tmp(2) by auto
qed

end
