(* ===== verification/UvProps.thy ===== *)
theory UvProps
  imports UvTimerSpec UvInet6
begin

text \<open>
  The properties of libuv: the heap of the timers, the timers of a loop, and the text of addresses.
\<close>

section \<open>The heap\<close>

text \<open>C4. The heap of linked nodes is a priority queue for every strict weak order: insertion returns, and the heap
  then holds the node beside the others; removal of any node of it returns, and the heap holds the others; the
  node at the root is one that no node is less than.\<close>

theorem heap_is_priority_queue:
  assumes "weak_order lt" "heap_of lt h S" "c \<notin> S" "card S + 1 < 2 ^ 32" "x \<in> S"
  shows "(\<exists>h'. heap_insert lt h c = Some h' \<and> heap_of lt h' (insert c S)) \<and>
    (\<exists>h'. heap_remove lt h x = Some h' \<and> heap_of lt h' (S - {x})) \<and>
    (\<exists>m\<in>S. heap_min h = Some m \<and> (\<forall>y\<in>S. \<not> lt y m))"
proof -
  have "heap_min h \<noteq> None" using weak_order.min_ok(1) [OF assms(1,2)] assms(5) by auto
  then show ?thesis
    using weak_order.insert_ok [OF assms(1-4)] weak_order.remove_ok [OF assms(1,2,5)] weak_order.min_ok(2) [OF assms(1,2)] by auto
qed

lemma nat_order: "weak_order (<)"
  by unfold_locales auto

lemma heap_with_5: "\<exists>h. heap_of (<) h {5 :: nat}"
  using weak_order.insert_ok [OF nat_order heap_of_init, of 5] by auto

lemma heap_is_priority_queue_witness:
  "\<exists>h. heap_of (<) h {5 :: nat} \<and> (\<exists>h'. heap_insert (<) h 3 = Some h' \<and> heap_of (<) h' {3, 5}) \<and>
    (\<exists>h'. heap_remove (<) h 5 = Some h' \<and> heap_of (<) h' {})"
proof -
  obtain h where h: "heap_of (<) h {5 :: nat}" using heap_with_5 by blast
  show ?thesis using heap_is_priority_queue [OF nat_order h, of 3 5] h by auto
qed

section \<open>Timers\<close>

text \<open>C5. In every reachable state of a loop the heap is ordered by timeout and start order and holds exactly the
  active timers, every active timer has a callback, and the number of active handles is the number of active
  timers that are referenced.\<close>

theorem timers_invariant:
  assumes "reachable L"
  shows "heap_of (timer_less_than L) (timer_heap L) (active_timers L) \<and> (\<forall>h\<in>active_timers L. timer_cb (timers L h) \<noteq> None) \<and>
    active_handles L = of_nat (card {h \<in> active_timers L. uv__has_ref (timers L h)})"
proof -
  have "counted_timers L = {h \<in> active_timers L. uv__has_ref (timers L h)}" by (auto simp: counted_timers_def active_timers_def)
  then show ?thesis using inv_reachable [OF assms] by (simp add: timer_inv_def)
qed

definition empty_loop :: uv_loop where
  "empty_loop = \<lparr>time = 1000, timer_counter = 0, active_handles = 0,
     timer_heap = heap_init \<lparr>hmin = None, nelts = 0, nodes = \<lambda>_. \<lparr>left = None, right = None, parent = None\<rparr>\<rparr>,
     timers = \<lambda>_. \<lparr>flags = UV_HANDLE_REF, timer_cb = None, timeout = 0, repeat = 0, start_id = 0\<rparr>\<rparr>"

lemma fresh_empty_loop: "fresh_loop empty_loop"
  by (auto simp: fresh_loop_def empty_loop_def uv__is_active_def)

text \<open>A loop in which timer 3 has been started.\<close>

lemma loop_with_timer:
  "\<exists>L. reachable L \<and> active_timers L = {3} \<and> time L = 1000 \<and> timeout (timers L 3) = 1000 \<and> repeat (timers L 3) = 0"
proof -
  have i: "timer_inv empty_loop" by (rule inv_fresh [OF fresh_empty_loop])
  have a: "active_timers empty_loop = {}" by (simp add: active_timers_def empty_loop_def uv__is_active_def)
  have nc: "\<not> uv__is_closing (timers empty_loop 3)" by (simp add: empty_loop_def uv__is_closing_def)
  have cl: "clamp 1000 0 = 1000" by (simp add: clamp_def)
  obtain L where L: "uv_timer_start 3 (Some 7) 0 0 empty_loop = Some (0, L)" "active_timers L = {3}" "time L = 1000"
    "timers L = (timers empty_loop)(3 := \<lparr>flags = flags (timers L 3), timer_cb = Some 7, timeout = 1000, repeat = 0, start_id = 0\<rparr>)"
    using start_ok [OF i nc, of 7 0 0] a cl by (auto simp: empty_loop_def)
  have "timer_step empty_loop L" using timer_step.start [OF _ L(1)] a by simp
  then have "reachable L" using reachable.step [OF reachable.fresh [OF fresh_empty_loop]] by blast
  moreover have "timeout (timers L 3) = 1000" "repeat (timers L 3) = 0" by (subst L(4), simp)+
  ultimately show ?thesis using L(2,3) by blast
qed

lemma timers_invariant_witness:
  "\<exists>L. active_timers L = {3} \<and> heap_of (timer_less_than L) (timer_heap L) {3}"
proof -
  obtain L where L: "reachable L" "active_timers L = {3}" using loop_with_timer by blast
  then show ?thesis using timers_invariant [OF L(1)] by auto
qed

text \<open>The timeout for the poll is exact in every reachable state: -1 without active timers, else the time until the
  earliest of them is due, at least 0 and at most \<open>INT_MAX\<close>.\<close>

theorem next_timeout_exact:
  assumes "reachable L"
  shows "uv__next_timeout L =
    (if active_timers L = {} then - 1
     else int (min 2147483647 (Min ((\<lambda>h. unat (timeout (timers L h))) ` active_timers L) - unat (time L))))"
  using inv_reachable [OF assms] by (rule next_timeout)

lemma next_timeout_exact_witness: "\<exists>L. active_timers L = {3} \<and> uv__next_timeout L = 0"
proof -
  obtain L where L: "reachable L" "active_timers L = {3}" "time L = 1000" "timeout (timers L 3) = 1000" using loop_with_timer by blast
  then show ?thesis using next_timeout_exact [OF L(1)] by auto
qed

text \<open>C7. Running the timers ends, for callbacks that leave the timers alone and before the end of time: it runs each
  timer that is due exactly once, in the order of timeout and start, and afterwards no timer is due; those that do
  not repeat are no longer active, and all others are.\<close>

theorem run_timers_exact:
  assumes "reachable L" "time L \<noteq> - 1"
  shows "\<exists>L' xs. uv__run_timers recording (L, ys) = Some (L', ys @ xs) \<and> timer_inv L' \<and> time L' = time L \<and> due L' = {} \<and>
    set xs = due L \<and> distinct xs \<and> sorted_wrt (\<lambda>a b. deadline_in L a \<le> deadline_in L b) xs \<and>
    active_timers L' = active_timers L - {h \<in> due L. repeat (timers L h) = 0 \<or> uv__is_closing (timers L h)}"
  using inv_reachable [OF assms(1)] assms(2) by (rule run_timers)

lemma run_timers_exact_witness:
  "\<exists>L L' xs. due L = {3} \<and> uv__run_timers recording (L, []) = Some (L', xs) \<and> set xs = {3} \<and> active_timers L' = {}"
proof -
  obtain L where L: "reachable L" "active_timers L = {3}" "time L = 1000" "timeout (timers L 3) = 1000" "repeat (timers L 3) = 0"
    using loop_with_timer by blast
  have d: "due L = {3}" unfolding due_def L(2) using L(3,4) by auto
  have t: "time L \<noteq> - 1" using L(3) by simp
  obtain L' xs where "uv__run_timers recording (L, []) = Some (L', xs)" "set xs = due L"
    "active_timers L' = active_timers L - {h \<in> due L. repeat (timers L h) = 0 \<or> uv__is_closing (timers L h)}"
    using run_timers_exact [OF L(1) t, of "[]"] by auto
  then show ?thesis using d L(2,5) by (intro exI [of _ L] exI [of _ L'] exI [of _ xs]) auto
qed

section \<open>Addresses\<close>

text \<open>C29. The reader of IPv4 addresses accepts exactly the text that is written for four bytes: four decimal numbers
  without leading zeros, with a dot between them.\<close>

theorem ipv4_reader_exact: "inet_pton4 s = Inr bs \<longleftrightarrow> length bs = 4 \<and> s = ipv4_text bs"
  by (rule pton4_exact)

text \<open>An IPv4 address that is written into a buffer is a terminated string inside the buffer, and is read back.\<close>

theorem address_round_trip:
  assumes "length bs = 4" "n \<le> length dst" "uv_inet_ntop AF_INET bs dst n = (0, dst')"
  shows "\<exists>t r. dst' = t @ 0 # r \<and> 0 \<notin> set t \<and> length t < n \<and> length dst' = length dst \<and> uv_inet_pton AF_INET (Some t) False = Inr bs"
proof -
  let ?t = "ipv4_text bs"
  have "length ?t < n" "dst' = ?t @ 0 # drop (length ?t + 1) dst"
    using assms(3) ntop4 [OF assms(2), of bs] by (auto simp: uv_inet_ntop_def split: if_splits)
  moreover have "uv_inet_pton AF_INET (Some ?t) False = Inr bs" using pton4_exact [of ?t bs] assms(1) by (simp add: uv_inet_pton_def)
  ultimately show ?thesis
    using ipv4_text_chars [of 0 bs] assms(2) by (intro exI [of _ ?t] exI [of _ "drop (length ?t + 1) dst"]) auto
qed

lemma address_round_trip_witness:
  "\<exists>t r. snd (uv_inet_ntop AF_INET [127, 0, 0, 1] (replicate 16 1) 16) = t @ 0 # r \<and> uv_inet_pton AF_INET (Some t) False = Inr [127, 0, 0, 1]"
proof -
  have "length (ipv4_text [127, 0, 0, 1]) < 16" using length_ipv4_text [of "[127, 0, 0, 1]"] by simp
  then have "uv_inet_ntop AF_INET [127, 0, 0, 1] (replicate 16 1) 16 = (0, snd (uv_inet_ntop AF_INET [127, 0, 0, 1] (replicate 16 1) 16))"
    using ntop4 [of 16 "replicate 16 1" "[127, 0, 0, 1]"] by (simp add: uv_inet_ntop_def)
  from address_round_trip [OF _ _ this] show ?thesis by (simp, blast)
qed

text \<open>C22. An IPv6 address is written into any buffer of at least 46 bytes; what is written is a terminated string inside the
  buffer, is the short form of the address and is read back as the address. The short form leaves out the first of the longest
  runs of zero words, if it has at least two, and ends with an IPv4 address after six zero words or after five and \<open>ffff\<close>.\<close>

theorem ipv6_round_trip:
  assumes "length src = 16" "n \<le> length dst" "0 < n" "uv_inet_ntop AF_INET6 src dst n = (err, dst')"
  shows "(46 \<le> n \<longrightarrow> err = 0) \<and> length dst' = length dst \<and>
    (err = 0 \<longrightarrow> (\<exists>t r. dst' = t @ 0 # r \<and> 0 \<notin> set t \<and> length t < n \<and> short_form src t \<and> uv_inet_pton AF_INET6 (Some t) False = Inr src))"
proof -
  let ?t = "ipv6_text src"
  have c: "length ?t \<le> 45" "0 \<notin> set ?t" "percent \<notin> set ?t" using ipv6_text_bounds [of src] by auto
  have w: "uv_inet_ntop AF_INET6 src dst n = (if length ?t < n then (0, ?t @ 0 # drop (length ?t + 1) dst) else (UV_ENOSPC, take (n - 1) ?t @ 0 # drop n dst))"
    using ntop6 [OF assms(2), of src] assms(3) by (simp add: uv_inet_ntop_def Let_def)
  have "uv_inet_pton AF_INET6 (Some ?t) False = Inr src" using text_is_read [OF assms(1)] c(3) by (simp add: uv_inet_pton_def)
  then show ?thesis using w assms(2-4) c text_is_short [of src] by (auto split: if_splits)
qed

lemma ipv6_round_trip_witness:
  "\<exists>t r. snd (uv_inet_ntop AF_INET6 (replicate 15 0 @ [1]) (replicate 46 7) 46) = t @ 0 # r \<and>
    short_form (replicate 15 0 @ [1]) t \<and> uv_inet_pton AF_INET6 (Some t) False = Inr (replicate 15 0 @ [1])"
proof -
  let ?r = "uv_inet_ntop AF_INET6 (replicate 15 0 @ [1]) (replicate 46 7) 46"
  have "?r = (fst ?r, snd ?r)" by simp
  from ipv6_round_trip [OF _ _ _ this] show ?thesis by (simp, blast)
qed

text \<open>A buffer of no bytes is too small for every address, but only the writer of IPv4 addresses says so.\<close>

lemma empty_buffer: "uv_inet_ntop AF_INET src dst 0 = (UV_ENOSPC, dst)" "uv_inet_ntop AF_INET6 src dst 0 = (0, dst)"
  using ntop4 [of 0 dst src] ntop6 [of 0 dst src] by (simp_all add: uv_inet_ntop_def Let_def)

end
