(* ===== verification/UvQueue.thy ===== *)
theory UvQueue
  imports Prelude
begin

text \<open>
  \<open>libuv/src/queue.h\<close>: circular doubly linked queues, with which libuv keeps its handles and its work. A queue and an
  entry of a queue are both a pair of links at an address; \<open>queue_mem\<close> is the memory of the links. Each macro is a
  function on that memory. Several disjoint queues share a memory: \<open>queues m Q\<close> says that \<open>Q\<close> gives the
  entries of the queue at each head, and the laws of the operations on it are the interface \<open>queue_laws\<close>.
\<close>

section \<open>The macros\<close>

record queue_mem =
  qnext :: "nat \<Rightarrow> nat"
  qprev :: "nat \<Rightarrow> nat"

definition set_next :: "nat \<Rightarrow> nat \<Rightarrow> queue_mem \<Rightarrow> queue_mem" where
  "set_next q x m = m\<lparr>qnext := (qnext m)(q := x)\<rparr>"

definition set_prev :: "nat \<Rightarrow> nat \<Rightarrow> queue_mem \<Rightarrow> queue_mem" where
  "set_prev q x m = m\<lparr>qprev := (qprev m)(q := x)\<rparr>"

definition QUEUE_NEXT :: "nat \<Rightarrow> queue_mem \<Rightarrow> nat" where
  "QUEUE_NEXT q m = qnext m q"

definition QUEUE_PREV :: "nat \<Rightarrow> queue_mem \<Rightarrow> nat" where
  "QUEUE_PREV q m = qprev m q"

definition QUEUE_EMPTY :: "nat \<Rightarrow> queue_mem \<Rightarrow> bool" where
  "QUEUE_EMPTY q m \<longleftrightarrow> q = QUEUE_NEXT q m"

definition QUEUE_HEAD :: "nat \<Rightarrow> queue_mem \<Rightarrow> nat" where
  "QUEUE_HEAD q m = QUEUE_NEXT q m"

definition QUEUE_INIT :: "nat \<Rightarrow> queue_mem \<Rightarrow> queue_mem" where
  "QUEUE_INIT q m = set_prev q q (set_next q q m)"

definition QUEUE_ADD :: "nat \<Rightarrow> nat \<Rightarrow> queue_mem \<Rightarrow> queue_mem" where
  "QUEUE_ADD h n m =
     (let m = set_next (QUEUE_PREV h m) (QUEUE_NEXT n m) m;
          m = set_prev (QUEUE_NEXT n m) (QUEUE_PREV h m) m;
          m = set_prev h (QUEUE_PREV n m) m
      in set_next (QUEUE_PREV h m) h m)"

definition QUEUE_SPLIT :: "nat \<Rightarrow> nat \<Rightarrow> nat \<Rightarrow> queue_mem \<Rightarrow> queue_mem" where
  "QUEUE_SPLIT h q n m =
     (let m = set_prev n (QUEUE_PREV h m) m;
          m = set_next (QUEUE_PREV n m) n m;
          m = set_next n q m;
          m = set_prev h (QUEUE_PREV q m) m;
          m = set_next (QUEUE_PREV h m) h m
      in set_prev q n m)"

definition QUEUE_MOVE :: "nat \<Rightarrow> nat \<Rightarrow> queue_mem \<Rightarrow> queue_mem" where
  "QUEUE_MOVE h n m = (if QUEUE_EMPTY h m then QUEUE_INIT n m else QUEUE_SPLIT h (QUEUE_HEAD h m) n m)"

definition QUEUE_INSERT_HEAD :: "nat \<Rightarrow> nat \<Rightarrow> queue_mem \<Rightarrow> queue_mem" where
  "QUEUE_INSERT_HEAD h q m =
     (let m = set_next q (QUEUE_NEXT h m) m;
          m = set_prev q h m;
          m = set_prev (QUEUE_NEXT q m) q m
      in set_next h q m)"

definition QUEUE_INSERT_TAIL :: "nat \<Rightarrow> nat \<Rightarrow> queue_mem \<Rightarrow> queue_mem" where
  "QUEUE_INSERT_TAIL h q m =
     (let m = set_next q h m;
          m = set_prev q (QUEUE_PREV h m) m;
          m = set_next (QUEUE_PREV q m) q m
      in set_prev h q m)"

definition QUEUE_REMOVE :: "nat \<Rightarrow> queue_mem \<Rightarrow> queue_mem" where
  "QUEUE_REMOVE q m =
     (let m = set_next (QUEUE_PREV q m) (QUEUE_NEXT q m) m
      in set_prev (QUEUE_NEXT q m) (QUEUE_PREV q m) m)"

section \<open>One queue\<close>

text \<open>The links from \<open>a\<close> over \<open>xs\<close> to \<open>b\<close>, both ways.\<close>

fun seg :: "queue_mem \<Rightarrow> nat \<Rightarrow> nat list \<Rightarrow> nat \<Rightarrow> bool" where
  "seg m a [] b \<longleftrightarrow> qnext m a = b \<and> qprev m b = a"
| "seg m a (x # xs) b \<longleftrightarrow> qnext m a = x \<and> qprev m x = a \<and> seg m x xs b"

definition is_queue :: "queue_mem \<Rightarrow> nat \<Rightarrow> nat list \<Rightarrow> bool" where
  "is_queue m h xs \<longleftrightarrow> distinct (h # xs) \<and> seg m h xs h"

lemma set_link_simps [simp]:
  "qnext (set_next q x m) = (qnext m)(q := x)" "qprev (set_next q x m) = qprev m"
  "qprev (set_prev q x m) = (qprev m)(q := x)" "qnext (set_prev q x m) = qnext m"
  by (simp_all add: set_next_def set_prev_def)

lemma seg_append [simp]: "seg m a (xs @ x # ys) b \<longleftrightarrow> seg m a xs x \<and> seg m x ys b"
  by (induction xs arbitrary: a) auto

lemma seg_frame:
  assumes "\<forall>z\<in>insert a (set xs). qnext m' z = qnext m z" "\<forall>z\<in>insert b (set xs). qprev m' z = qprev m z"
  shows "seg m' a xs b \<longleftrightarrow> seg m a xs b"
  using assms by (induction xs arbitrary: a) auto

lemma seg_ends: "seg m a xs b \<Longrightarrow> qnext m a = (if xs = [] then b else hd xs) \<and> qprev m b = (if xs = [] then a else last xs)"
  by (induction xs arbitrary: a) auto

text \<open>A link out of \<open>a\<close> and a link into \<open>b\<close> can be redirected where the ends of a segment are elsewhere.\<close>

lemma seg_next_upd: "u \<notin> insert a (set xs) \<Longrightarrow> seg (set_next u x m) a xs b \<longleftrightarrow> seg m a xs b"
  by (rule seg_frame) auto

lemma seg_prev_upd: "u \<notin> insert b (set xs) \<Longrightarrow> seg (set_prev u x m) a xs b \<longleftrightarrow> seg m a xs b"
  by (rule seg_frame) auto

lemmas queue_ops = QUEUE_NEXT_def QUEUE_PREV_def QUEUE_EMPTY_def QUEUE_HEAD_def QUEUE_INIT_def QUEUE_MOVE_def
  QUEUE_SPLIT_def QUEUE_ADD_def QUEUE_INSERT_HEAD_def QUEUE_INSERT_TAIL_def QUEUE_REMOVE_def Let_def

lemma is_queue_frame:
  assumes "\<forall>z\<in>set (h # xs). qnext m' z = qnext m z \<and> qprev m' z = qprev m z"
  shows "is_queue m' h xs \<longleftrightarrow> is_queue m h xs"
  using assms seg_frame [of h xs m' m h] by (auto simp: is_queue_def)

lemma empty_ok: "is_queue m h xs \<Longrightarrow> QUEUE_EMPTY h m \<longleftrightarrow> xs = []"
  by (cases xs) (auto simp: is_queue_def queue_ops)

lemma head_ok: "is_queue m h xs \<Longrightarrow> xs \<noteq> [] \<Longrightarrow> QUEUE_HEAD h m = hd xs"
  by (cases xs) (auto simp: is_queue_def queue_ops)

lemma init_ok: "is_queue (QUEUE_INIT q m) q []"
  by (simp add: is_queue_def queue_ops)

lemma insert_tail_ok:
  assumes "is_queue m h xs" "q \<notin> set (h # xs)"
  shows "is_queue (QUEUE_INSERT_TAIL h q m) h (xs @ [q])"
proof (cases xs rule: rev_cases)
  case Nil
  then show ?thesis using assms by (auto simp: is_queue_def queue_ops)
next
  case (snoc ys y)
  then show ?thesis using assms by (auto simp: is_queue_def queue_ops intro: seg_frame [THEN iffD1, rotated 2])
qed

lemma insert_head_ok:
  assumes "is_queue m h xs" "q \<notin> set (h # xs)"
  shows "is_queue (QUEUE_INSERT_HEAD h q m) h (q # xs)"
proof (cases xs)
  case Nil
  then show ?thesis using assms by (auto simp: is_queue_def queue_ops)
next
  case (Cons y ys)
  then show ?thesis using assms by (auto simp: is_queue_def queue_ops intro: seg_frame [THEN iffD1, rotated 2])
qed

lemma queue_remove_ok:
  assumes "is_queue m h (xs @ q # ys)"
  shows "is_queue (QUEUE_REMOVE q m) h (xs @ ys)"
proof (cases xs rule: rev_cases)
  case Nil
  show ?thesis
  proof (cases ys)
    case Nil
    then show ?thesis using assms \<open>xs = []\<close> by (auto simp: is_queue_def queue_ops)
  next
    case (Cons b bs)
    then show ?thesis using assms \<open>xs = []\<close>
      by (auto simp: is_queue_def queue_ops intro: seg_frame [THEN iffD1, rotated 2])
  qed
next
  case (snoc as a)
  show ?thesis
  proof (cases ys)
    case Nil
    then show ?thesis using assms snoc by (auto simp: is_queue_def queue_ops intro: seg_frame [THEN iffD1, rotated 2])
  next
    case (Cons b bs)
    then show ?thesis using assms snoc
      by (auto simp: is_queue_def queue_ops intro: seg_frame [THEN iffD1, rotated 2])
  qed
qed

lemma split_ok:
  assumes "is_queue m h (xs @ q # ys)" "n \<notin> set (h # xs @ q # ys)"
  shows "is_queue (QUEUE_SPLIT h q n m) h xs \<and> is_queue (QUEUE_SPLIT h q n m) n (q # ys)"
proof (cases xs rule: rev_cases)
  case Nil
  show ?thesis
    using assms Nil by (cases ys rule: rev_cases) (auto simp: is_queue_def queue_ops intro: seg_frame [THEN iffD1, rotated 2])
next
  case (snoc as a)
  show ?thesis
    using assms snoc by (cases ys rule: rev_cases) (auto simp: is_queue_def queue_ops intro: seg_frame [THEN iffD1, rotated 2])
qed

lemma move_ok:
  assumes "is_queue m h xs" "n \<notin> set (h # xs)"
  shows "is_queue (QUEUE_MOVE h n m) h [] \<and> is_queue (QUEUE_MOVE h n m) n xs"
proof (cases xs)
  case Nil
  then show ?thesis using assms by (auto simp: is_queue_def queue_ops)
next
  case (Cons y ys)
  then have "QUEUE_MOVE h n m = QUEUE_SPLIT h y n m"
    using empty_ok [OF assms(1)] head_ok [OF assms(1)] by (simp add: QUEUE_MOVE_def)
  then show ?thesis using split_ok [of m h "[]" y ys n] assms Cons by simp
qed

lemma queue_add_ok:
  assumes "is_queue m h xs" "is_queue m n ys" "set (h # xs) \<inter> set (n # ys) = {}"
  shows "is_queue (QUEUE_ADD h n m) h (xs @ ys)"
proof -
  consider "ys = []" | y where "ys = [y]" | y zs z where "ys = y # zs @ [z]"
    by (cases ys; cases "tl ys" rule: rev_cases) auto
  then show ?thesis
    using assms by cases (cases xs rule: rev_cases,
        auto simp: is_queue_def queue_ops intro: seg_frame [THEN iffD1, rotated 2])+
qed

section \<open>Several queues in one memory\<close>

definition in_queues :: "(nat \<Rightarrow> nat list option) \<Rightarrow> nat \<Rightarrow> bool" where
  "in_queues Q a \<longleftrightarrow> (\<exists>h xs. Q h = Some xs \<and> a \<in> set (h # xs))"

definition queues :: "queue_mem \<Rightarrow> (nat \<Rightarrow> nat list option) \<Rightarrow> bool" where
  "queues m Q \<longleftrightarrow> (\<forall>h xs. Q h = Some xs \<longrightarrow> is_queue m h xs) \<and>
     (\<forall>h xs g ys. Q h = Some xs \<longrightarrow> Q g = Some ys \<longrightarrow> h \<noteq> g \<longrightarrow> set (h # xs) \<inter> set (g # ys) = {})"

text \<open>What a client needs to know of the operations; the memory and its abstraction are parameters.\<close>

locale queue_laws =
  fixes holds :: "'m \<Rightarrow> (nat \<Rightarrow> nat list option) \<Rightarrow> bool"
    and init remove :: "nat \<Rightarrow> 'm \<Rightarrow> 'm"
    and insert_tail move :: "nat \<Rightarrow> nat \<Rightarrow> 'm \<Rightarrow> 'm"
    and empty :: "nat \<Rightarrow> 'm \<Rightarrow> bool"
    and succ :: "nat \<Rightarrow> 'm \<Rightarrow> nat"
  assumes init_law: "holds m Q \<Longrightarrow> \<not> in_queues Q q \<Longrightarrow> holds (init q m) (Q(q \<mapsto> []))"
    and remove_law: "holds m Q \<Longrightarrow> Q h = Some xs \<Longrightarrow> q \<in> set xs \<Longrightarrow> holds (remove q m) (Q(h \<mapsto> remove1 q xs))"
    and insert_law: "holds m Q \<Longrightarrow> Q h = Some xs \<Longrightarrow> \<not> in_queues Q q \<Longrightarrow> holds (insert_tail h q m) (Q(h \<mapsto> xs @ [q]))"
    and move_law: "holds m Q \<Longrightarrow> Q h = Some xs \<Longrightarrow> \<not> in_queues Q n \<Longrightarrow> holds (move h n m) (Q(h \<mapsto> [], n \<mapsto> xs))"
    and drop_law: "holds m Q \<Longrightarrow> holds m (Q(h := None))"
    and empty_law: "holds m Q \<Longrightarrow> Q h = Some xs \<Longrightarrow> empty h m \<longleftrightarrow> xs = []"
    and member_law: "holds m Q \<Longrightarrow> Q h = Some xs \<Longrightarrow> q \<in> set xs \<Longrightarrow> \<not> empty q m"
    and succ_law: "holds m Q \<Longrightarrow> Q h = Some (ys @ q # zs) \<Longrightarrow> succ q m = (if zs = [] then h else hd zs)"
    and head_law: "holds m Q \<Longrightarrow> Q h = Some (x # xs) \<Longrightarrow> succ h m = x"
    and distinct_law: "holds m Q \<Longrightarrow> Q h = Some xs \<Longrightarrow> distinct (h # xs)"
    and disjoint_law: "holds m Q \<Longrightarrow> Q h = Some xs \<Longrightarrow> Q g = Some ys \<Longrightarrow> h \<noteq> g \<Longrightarrow> set (h # xs) \<inter> set (g # ys) = {}"
begin

text \<open>Taking the head of a queue and making it a queue of its own, as the workers do.\<close>

lemma take_head:
  assumes "holds m Q" "Q h = Some (x # xs)"
  shows "holds (init x (remove x m)) (Q(h \<mapsto> xs, x \<mapsto> []))"
proof -
  have d: "distinct (h # x # xs)" using distinct_law [OF assms] .
  have "holds (remove x m) (Q(h \<mapsto> remove1 x (x # xs)))" using remove_law [OF assms, of x] by simp
  then have r: "holds (remove x m) (Q(h \<mapsto> xs))" by simp
  have "\<not> in_queues (Q(h \<mapsto> xs)) x"
    using d disjoint_law [OF assms(1) assms(2)] by (fastforce simp: in_queues_def split: if_splits)
  then show ?thesis using init_law [OF r] by simp
qed

text \<open>Putting an entry that is a queue of its own at the end of another queue.\<close>

lemma put_back:
  assumes "holds m Q" "Q q = Some []" "Q h = Some xs" "h \<noteq> q"
  shows "holds (insert_tail h q m) (Q(q := None, h \<mapsto> xs @ [q]))"
proof -
  have d: "holds m (Q(q := None))" using drop_law [OF assms(1)] .
  have "\<not> in_queues (Q(q := None)) q"
    using disjoint_law [OF assms(1,2)] by (fastforce simp: in_queues_def split: if_splits)
  then show ?thesis using insert_law [OF d, of h xs q] assms(3,4) by simp
qed

end

lemma queuesD: "queues m Q \<Longrightarrow> Q h = Some xs \<Longrightarrow> is_queue m h xs"
  by (simp add: queues_def)

lemma queues_upd:
  assumes "queues m Q" "\<forall>g ys. g \<noteq> h \<longrightarrow> Q g = Some ys \<longrightarrow> is_queue m' g ys \<and> set (g # ys) \<inter> set (h # xs) = {}" "is_queue m' h xs"
  shows "queues m' (Q(h \<mapsto> xs))"
  unfolding queues_def
proof (intro conjI allI impI)
  fix g ys
  assume "(Q(h \<mapsto> xs)) g = Some ys"
  then show "is_queue m' g ys" using assms(2,3) by (cases "g = h") auto
next
  fix g ys k zs
  assume a: "(Q(h \<mapsto> xs)) g = Some ys" "(Q(h \<mapsto> xs)) k = Some zs" "g \<noteq> k"
  show "set (g # ys) \<inter> set (k # zs) = {}"
  proof (cases "g = h \<or> k = h")
    case True
    then show ?thesis using a assms(2) by (metis Int_commute fun_upd_other fun_upd_same option.inject)
  next
    case False
    then have "Q g = Some ys" "Q k = Some zs" using a by simp_all
    then show ?thesis using assms(1) a(3) unfolding queues_def by blast
  qed
qed

text \<open>An operation on the entries of one queue and on one free entry leaves the other queues.\<close>

lemma insert_tail_frame: "z \<noteq> q \<Longrightarrow> z \<noteq> h \<Longrightarrow> z \<noteq> qprev m h \<Longrightarrow>
    qnext (QUEUE_INSERT_TAIL h q m) z = qnext m z \<and> qprev (QUEUE_INSERT_TAIL h q m) z = qprev m z"
  by (auto simp: queue_ops)

lemma remove_frame: "z \<noteq> qnext m q \<Longrightarrow> z \<noteq> qprev m q \<Longrightarrow>
    qnext (QUEUE_REMOVE q m) z = qnext m z \<and> qprev (QUEUE_REMOVE q m) z = qprev m z"
  by (auto simp: queue_ops)

lemma init_frame: "z \<noteq> q \<Longrightarrow> qnext (QUEUE_INIT q m) z = qnext m z \<and> qprev (QUEUE_INIT q m) z = qprev m z"
  by (auto simp: queue_ops)

lemma neighbours:
  assumes "is_queue m h xs"
  shows "a \<in> set (h # xs) \<Longrightarrow> qnext m a \<in> set (h # xs)" "a \<in> set (h # xs) \<Longrightarrow> qprev m a \<in> set (h # xs)"
proof -
  have h: "qnext m h \<in> set (h # xs)" "qprev m h \<in> set (h # xs)"
    using seg_ends [of m h xs h] assms by (auto simp: is_queue_def)
  have x: "qnext m x \<in> set (h # xs) \<and> qprev m x \<in> set (h # xs)" if "x \<in> set xs" for x
  proof -
    obtain ys zs where xs: "xs = ys @ x # zs" using split_list [OF \<open>x \<in> set xs\<close>] by blast
    then have "seg m h ys x" "seg m x zs h" using assms by (auto simp: is_queue_def)
    then show ?thesis using seg_ends [of m h ys x] seg_ends [of m x zs h] xs by auto
  qed
  show "a \<in> set (h # xs) \<Longrightarrow> qnext m a \<in> set (h # xs)" "a \<in> set (h # xs) \<Longrightarrow> qprev m a \<in> set (h # xs)"
    using h x by auto
qed

lemma move_frame:
  assumes "is_queue m h xs" "z \<noteq> n" "z \<notin> set (h # xs)"
  shows "qnext (QUEUE_MOVE h n m) z = qnext m z \<and> qprev (QUEUE_MOVE h n m) z = qprev m z"
  using assms neighbours [OF assms(1), of h] neighbours [OF assms(1), of "qnext m h"] by (auto simp: queue_ops)

lemma other_queue:
  assumes "queues m Q" "Q h = Some xs" "Q g = Some ys" "g \<noteq> h"
    and "\<And>z. z \<notin> set (h # xs) \<Longrightarrow> z \<noteq> q \<Longrightarrow> qnext m' z = qnext m z \<and> qprev m' z = qprev m z" "q \<notin> set (g # ys)"
  shows "is_queue m' g ys"
proof -
  have d: "set (h # xs) \<inter> set (g # ys) = {}" and q: "is_queue m g ys" using assms(1-4) unfolding queues_def by blast+
  have "qnext m' z = qnext m z \<and> qprev m' z = qprev m z" if "z \<in> set (g # ys)" for z
    using d assms(5)[of z] assms(6) that by blast
  then show ?thesis using q is_queue_frame [of g ys m' m] by simp
qed

lemma free_entry: "queues m Q \<Longrightarrow> Q h = Some xs \<Longrightarrow> \<not> in_queues Q q \<Longrightarrow> q \<notin> set (h # xs)"
  by (auto simp: in_queues_def)

lemma queues_insert:
  assumes "queues m Q" "Q h = Some xs" "\<not> in_queues Q q"
  shows "queues (QUEUE_INSERT_TAIL h q m) (Q(h \<mapsto> xs @ [q]))"
proof (rule queues_upd [OF assms(1)])
  have q: "is_queue m h xs" using assms(1,2) by (auto simp: queues_def)
  have fr: "qnext (QUEUE_INSERT_TAIL h q m) z = qnext m z \<and> qprev (QUEUE_INSERT_TAIL h q m) z = qprev m z"
    if "z \<notin> set (h # xs)" "z \<noteq> q" for z
    by (rule insert_tail_frame) (use that neighbours(2) [OF q, of h] in auto)
  show "is_queue (QUEUE_INSERT_TAIL h q m) h (xs @ [q])" using insert_tail_ok [OF q] free_entry [OF assms] by simp
  show "\<forall>g ys. g \<noteq> h \<longrightarrow> Q g = Some ys \<longrightarrow> is_queue (QUEUE_INSERT_TAIL h q m) g ys \<and> set (g # ys) \<inter> set (h # xs @ [q]) = {}"
  proof (intro allI impI conjI)
    fix g ys
    assume g: "g \<noteq> h" "Q g = Some ys"
    have f: "q \<notin> set (g # ys)" using free_entry [OF assms(1) g(2) assms(3)] .
    show "is_queue (QUEUE_INSERT_TAIL h q m) g ys"
      by (rule other_queue [OF assms(1,2) g(2,1) fr f])
    show "set (g # ys) \<inter> set (h # xs @ [q]) = {}"
      using f assms(1,2) g by (fastforce simp: queues_def)
  qed
qed

lemma queues_remove:
  assumes "queues m Q" "Q h = Some xs" "q \<in> set xs"
  shows "queues (QUEUE_REMOVE q m) (Q(h \<mapsto> remove1 q xs))"
proof (rule queues_upd [OF assms(1)])
  have iq: "is_queue m h xs" using assms(1,2) by (auto simp: queues_def)
  obtain ys zs where xs: "xs = ys @ q # zs" "q \<notin> set ys" using split_list_first [OF assms(3)] by blast
  then show "is_queue (QUEUE_REMOVE q m) h (remove1 q xs)" using queue_remove_ok [of m h ys q zs] iq by (simp add: remove1_append)
  have nb: "qnext m q \<in> set (h # xs)" "qprev m q \<in> set (h # xs)" using neighbours [OF iq, of q] assms(3) by simp_all
  have fr: "qnext (QUEUE_REMOVE q m) z = qnext m z \<and> qprev (QUEUE_REMOVE q m) z = qprev m z" if "z \<notin> set (h # xs)" "z \<noteq> q" for z
    by (rule remove_frame) (use that nb in blast)+
  show "\<forall>g ys. g \<noteq> h \<longrightarrow> Q g = Some ys \<longrightarrow> is_queue (QUEUE_REMOVE q m) g ys \<and> set (g # ys) \<inter> set (h # remove1 q xs) = {}"
  proof (intro allI impI conjI)
    fix g us
    assume g: "g \<noteq> h" "Q g = Some us"
    have d: "set (h # xs) \<inter> set (g # us) = {}" using assms(1,2) g unfolding queues_def by blast
    then have "q \<notin> set (g # us)" using assms(3) by auto
    then show "is_queue (QUEUE_REMOVE q m) g us"
      by (intro other_queue [OF assms(1,2) g(2,1) fr])
    show "set (g # us) \<inter> set (h # remove1 q xs) = {}" using d set_remove1_subset [of q xs] by auto
  qed
qed

lemma queues_init:
  assumes "queues m Q" "\<not> in_queues Q q"
  shows "queues (QUEUE_INIT q m) (Q(q \<mapsto> []))"
proof (rule queues_upd [OF assms(1) _ init_ok], intro allI impI conjI)
  fix g ys
  assume g: "Q g = Some ys"
  have f: "q \<notin> set (g # ys)" using free_entry [OF assms(1) g assms(2)] .
  then show "set (g # ys) \<inter> set [q] = {}" by auto
  have "is_queue m g ys" using assms(1) g by (simp add: queues_def)
  moreover have "\<forall>z\<in>set (g # ys). qnext (QUEUE_INIT q m) z = qnext m z \<and> qprev (QUEUE_INIT q m) z = qprev m z"
    using f by (metis init_frame)
  ultimately show "is_queue (QUEUE_INIT q m) g ys" using is_queue_frame by blast
qed

lemma queues_drop: "queues m Q \<Longrightarrow> queues m (Q(h := None))"
  by (auto simp: queues_def)

lemma queues_move:
  assumes "queues m Q" "Q h = Some xs" "\<not> in_queues Q n"
  shows "queues (QUEUE_MOVE h n m) (Q(h \<mapsto> [], n \<mapsto> xs))"
proof -
  let ?m = "QUEUE_MOVE h n m"
  have q: "is_queue m h xs" using assms(1,2) by (auto simp: queues_def)
  have n: "n \<notin> set (h # xs)" using free_entry [OF assms] .
  have h: "is_queue ?m h []" "is_queue ?m n xs" using move_ok [OF q n] by simp_all
  have o: "is_queue ?m g ys" "set (g # ys) \<inter> set (h # xs) = {}" "n \<notin> set (g # ys)" if "g \<noteq> h" "Q g = Some ys" for g ys
  proof -
    show f: "n \<notin> set (g # ys)" using free_entry [OF assms(1) that(2) assms(3)] .
    show "is_queue ?m g ys"
      using move_frame [OF q] by (intro other_queue [OF assms(1,2) that(2,1) _ f]) auto
    show "set (g # ys) \<inter> set (h # xs) = {}" using assms(1,2) that unfolding queues_def by blast
  qed
  have 1: "queues ?m (Q(h \<mapsto> []))"
  proof (rule queues_upd [OF assms(1) _ h(1)], intro allI impI conjI)
    fix g ys
    assume g: "g \<noteq> h" "Q g = Some ys"
    show "is_queue ?m g ys" using o(1) [OF g] .
    show "set (g # ys) \<inter> set [h] = {}" using o(2) [OF g] by auto
  qed
  show ?thesis
  proof (rule queues_upd [OF 1 _ h(2)], intro allI impI conjI)
    fix g ys
    assume g: "g \<noteq> n" "(Q(h \<mapsto> [])) g = Some ys"
    show "is_queue ?m g ys" using g o(1) h(1) by (cases "g = h") auto
    show "set (g # ys) \<inter> set (n # xs) = {}"
    proof (cases "g = h")
      case True
      then have "distinct (h # xs)" "ys = []" using g q by (auto simp: is_queue_def)
      then show ?thesis using n True by auto
    next
      case False
      then have "Q g = Some ys" using g by simp
      then show ?thesis using o(2,3) [OF False] by auto
    qed
  qed
qed

interpretation uvq: queue_laws queues QUEUE_INIT QUEUE_REMOVE QUEUE_INSERT_TAIL QUEUE_MOVE QUEUE_EMPTY QUEUE_NEXT
proof
  fix m Q h xs q ys zs x g n
  show "queues m Q \<Longrightarrow> \<not> in_queues Q q \<Longrightarrow> queues (QUEUE_INIT q m) (Q(q \<mapsto> []))" by (rule queues_init)
  show "queues m Q \<Longrightarrow> Q h = Some xs \<Longrightarrow> q \<in> set xs \<Longrightarrow> queues (QUEUE_REMOVE q m) (Q(h \<mapsto> remove1 q xs))" by (rule queues_remove)
  show "queues m Q \<Longrightarrow> Q h = Some xs \<Longrightarrow> \<not> in_queues Q q \<Longrightarrow> queues (QUEUE_INSERT_TAIL h q m) (Q(h \<mapsto> xs @ [q]))" by (rule queues_insert)
  show "queues m Q \<Longrightarrow> Q h = Some xs \<Longrightarrow> \<not> in_queues Q n \<Longrightarrow> queues (QUEUE_MOVE h n m) (Q(h \<mapsto> [], n \<mapsto> xs))" by (rule queues_move)
  show "queues m Q \<Longrightarrow> queues m (Q(h := None))" by (rule queues_drop)
  show "queues m Q \<Longrightarrow> Q h = Some xs \<Longrightarrow> QUEUE_EMPTY h m \<longleftrightarrow> xs = []" using empty_ok by (auto simp: queues_def)
  show "queues m Q \<Longrightarrow> Q h = Some xs \<Longrightarrow> distinct (h # xs)" by (auto simp: queues_def is_queue_def)
  show "queues m Q \<Longrightarrow> Q h = Some xs \<Longrightarrow> Q g = Some ys \<Longrightarrow> h \<noteq> g \<Longrightarrow> set (h # xs) \<inter> set (g # ys) = {}"
    unfolding queues_def by blast
  show "queues m Q \<Longrightarrow> Q h = Some (x # xs) \<Longrightarrow> QUEUE_NEXT h m = x" using head_ok [OF queuesD, of m Q h "x # xs"] by (simp add: QUEUE_HEAD_def)
  show s: "QUEUE_NEXT q m = (if zs = [] then h else hd zs)" if "queues m Q" "Q h = Some (ys @ q # zs)" for q ys zs
  proof -
    have "seg m q zs h" using queuesD [OF that] by (simp add: is_queue_def)
    then show ?thesis using seg_ends [of m q zs h] by (simp add: queue_ops)
  qed
  show "\<not> QUEUE_EMPTY q m" if a: "queues m Q" "Q h = Some xs" "q \<in> set xs"
  proof -
    obtain ys zs where xs: "xs = ys @ q # zs" using split_list [OF a(3)] by blast
    have "distinct (h # xs)" using a by (auto simp: queues_def is_queue_def)
    then show ?thesis using s [OF a(1), of ys q zs] a(2) xs by (cases zs) (auto simp: QUEUE_EMPTY_def)
  qed
qed

end
