(* ===== verification/UvPool.thy ===== *)
theory UvPool
  imports UvQueue
begin

text \<open>
  \<open>libuv/src/threadpool.c\<close>: the worker threads, the queues of work and the results that go back to the loop. The
  functions on the state \<open>pool\<close> are the stretches of code that run under a mutex, or on the loop's thread
  alone; \<open>worker_step\<close> and \<open>client_step\<close> interleave them, one step of one thread at a time. The model has one loop.
  A signal wakes some waiting thread, if there is one, and a thread may wake up without a signal.
\<close>

section \<open>State\<close>

text \<open>The addresses of the static queues, and of the two queues of the loop: \<open>loop->wq\<close> and the local \<open>wq\<close> of
  \<open>uv__work_done\<close>. Every other address is that of the \<open>wq\<close> entry of a work request.\<close>

abbreviation (input) exit_message :: nat where "exit_message \<equiv> 0"
abbreviation (input) wq :: nat where "wq \<equiv> 1"
abbreviation (input) run_slow_work_message :: nat where "run_slow_work_message \<equiv> 2"
abbreviation (input) slow_io_pending_wq :: nat where "slow_io_pending_wq \<equiv> 3"
abbreviation (input) loop_wq :: nat where "loop_wq \<equiv> 4"
abbreviation (input) local_wq :: nat where "local_wq \<equiv> 5"

definition is_request :: "nat \<Rightarrow> bool" where
  "is_request w \<longleftrightarrow> 6 \<le> w"

abbreviation UV_EBUSY :: int where "UV_EBUSY \<equiv> - 16"
abbreviation UV_ECANCELED :: int where "UV_ECANCELED \<equiv> - 89"
abbreviation UV_EINVAL :: int where "UV_EINVAL \<equiv> - 22"

datatype uv__work_kind = UV__WORK_CPU | UV__WORK_FAST_IO | UV__WORK_SLOW_IO

text \<open>The \<open>work\<close> pointer of a request: NULL, \<open>uv__cancelled\<close> or a function.\<close>

datatype work_fn = NoWork | Cancelled | Work nat

text \<open>The \<open>done\<close> pointer of a request: \<open>uv__queue_done\<close> or a function of another part of the library.\<close>

datatype done_fn = QueueDone | OtherDone

text \<open>Where a worker is: it has yet to take the mutex for the first time, is at the top of its loop with the mutex, waits
  for the condition, has been woken, runs a request, has run it, has posted the result, or has returned. The flag
  is \<open>is_slow_work\<close>.\<close>

datatype pc = Starting | AtTop | Waiting | Woken | Running nat bool | Ran nat bool | Posted bool | Gone

datatype event = Submitted nat | Executed nat | Delivered nat int

record pool =
  links :: queue_mem
  idle_threads :: nat
  slow_io_work_running :: nat
  nthreads :: nat
  owner :: "nat option"
  pcs :: "nat \<Rightarrow> pc"
  work :: "nat \<Rightarrow> work_fn"
  done_with :: "nat \<Rightarrow> done_fn"
  active_reqs :: nat
  async_sent :: bool
  cancelling :: "nat option"
  draining :: bool
  cleaning :: bool
  events :: "event list"

definition upd_links :: "(queue_mem \<Rightarrow> queue_mem) \<Rightarrow> pool \<Rightarrow> pool" where
  "upd_links f s = s\<lparr>links := f (links s)\<rparr>"

definition set_pc :: "nat \<Rightarrow> pc \<Rightarrow> pool \<Rightarrow> pool" where
  "set_pc t p s = s\<lparr>pcs := (pcs s)(t := p)\<rparr>"

definition record_event :: "event \<Rightarrow> pool \<Rightarrow> pool" where
  "record_event e s = s\<lparr>events := events s @ [e]\<rparr>"

section \<open>The workers\<close>

definition slow_work_thread_threshold :: "pool \<Rightarrow> nat" where
  "slow_work_thread_threshold s = (nthreads s + 1) div 2"

definition must_wait :: "pool \<Rightarrow> bool" where
  "must_wait s \<longleftrightarrow> QUEUE_EMPTY wq (links s) \<or>
     (QUEUE_HEAD wq (links s) = run_slow_work_message \<and> QUEUE_NEXT run_slow_work_message (links s) = wq
      \<and> slow_work_thread_threshold s \<le> slow_io_work_running s)"

text \<open>From the end of the inner loop to the call of the work function, or to \<open>continue\<close>, where the thread keeps the
  mutex. The first result says whether it signals the condition.\<close>

definition worker_take :: "nat \<Rightarrow> pool \<Rightarrow> bool \<times> pool" where
  "worker_take t s =
     (let q = QUEUE_HEAD wq (links s)
      in if q = exit_message then (True, set_pc t Gone (s\<lparr>owner := None\<rparr>))
         else
           (let s = upd_links (QUEUE_REMOVE q) s;
                s = upd_links (QUEUE_INIT q) s
            in if q = run_slow_work_message
               then
                 (if slow_work_thread_threshold s \<le> slow_io_work_running s then (False, upd_links (QUEUE_INSERT_TAIL wq q) s)
                  else if QUEUE_EMPTY slow_io_pending_wq (links s) then (False, s)
                  else
                    (let s = s\<lparr>slow_io_work_running := slow_io_work_running s + 1\<rparr>;
                         q = QUEUE_HEAD slow_io_pending_wq (links s);
                         s = upd_links (QUEUE_REMOVE q) s;
                         s = upd_links (QUEUE_INIT q) s;
                         (sig, s) = (if \<not> QUEUE_EMPTY slow_io_pending_wq (links s)
                                     then (0 < idle_threads s, upd_links (QUEUE_INSERT_TAIL wq run_slow_work_message) s)
                                     else (False, s))
                     in (sig, set_pc t (Running q True) (s\<lparr>owner := None\<rparr>))))
               else (False, set_pc t (Running q False) (s\<lparr>owner := None\<rparr>))))"

text \<open>Back from the work function: the result goes to the loop.\<close>

definition worker_post :: "nat \<Rightarrow> nat \<Rightarrow> bool \<Rightarrow> pool \<Rightarrow> pool" where
  "worker_post t w slow s =
     (let s = s\<lparr>work := (work s)(w := NoWork)\<rparr>;
          s = upd_links (QUEUE_INSERT_TAIL loop_wq w) s;
          s = s\<lparr>async_sent := True\<rparr>
      in set_pc t (Posted slow) s)"

definition worker_wait :: "nat \<Rightarrow> pool \<Rightarrow> pool" where
  "worker_wait t s = set_pc t Waiting (s\<lparr>idle_threads := idle_threads s + 1, owner := None\<rparr>)"

text \<open>What a thread does when it gets the mutex.\<close>

definition worker_lock :: "nat \<Rightarrow> pool \<Rightarrow> pool" where
  "worker_lock t s =
     (let s' = set_pc t AtTop (s\<lparr>owner := Some t\<rparr>)
      in case pcs s t of
           Woken \<Rightarrow> s'\<lparr>idle_threads := idle_threads s - 1\<rparr>
         | Posted slow \<Rightarrow> if slow then s'\<lparr>slow_io_work_running := slow_io_work_running s - 1\<rparr> else s'
         | _ \<Rightarrow> s')"

section \<open>The clients\<close>

definition post :: "nat \<Rightarrow> uv__work_kind \<Rightarrow> pool \<Rightarrow> bool \<times> pool" where
  "post q kind s =
     (if kind = UV__WORK_SLOW_IO
      then
        (let s = upd_links (QUEUE_INSERT_TAIL slow_io_pending_wq q) s
         in if \<not> QUEUE_EMPTY run_slow_work_message (links s) then (False, s)
            else (0 < idle_threads s, upd_links (QUEUE_INSERT_TAIL wq run_slow_work_message) s))
      else (0 < idle_threads s, upd_links (QUEUE_INSERT_TAIL wq q) s))"

definition uv__work_submit :: "nat \<Rightarrow> uv__work_kind \<Rightarrow> nat \<Rightarrow> done_fn \<Rightarrow> pool \<Rightarrow> bool \<times> pool" where
  "uv__work_submit w kind f d s = post w kind (s\<lparr>work := (work s)(w := Work f), done_with := (done_with s)(w := d)\<rparr>)"

definition uv__req_register :: "pool \<Rightarrow> pool" where
  "uv__req_register s = s\<lparr>active_reqs := active_reqs s + 1\<rparr>"

definition uv__req_unregister :: "pool \<Rightarrow> pool" where
  "uv__req_unregister s = s\<lparr>active_reqs := active_reqs s - 1\<rparr>"

text \<open>The callback is \<open>None\<close> for NULL; on success the signal comes with the state.\<close>

definition uv_queue_work :: "nat \<Rightarrow> nat option \<Rightarrow> pool \<Rightarrow> int + bool \<times> pool" where
  "uv_queue_work w work_cb s =
     (case work_cb of
        None \<Rightarrow> Inl UV_EINVAL
      | Some f \<Rightarrow> Inr (uv__work_submit w UV__WORK_CPU f QueueDone (uv__req_register s)))"

definition uv__queue_done :: "nat \<Rightarrow> pool \<Rightarrow> pool" where
  "uv__queue_done w s = uv__req_unregister s"

text \<open>\<open>uv__work_cancel\<close> up to the release of the mutexes, and the rest of it.\<close>

definition uv__work_cancel :: "nat \<Rightarrow> pool \<Rightarrow> int \<times> pool" where
  "uv__work_cancel w s =
     (let cancelled = (\<not> QUEUE_EMPTY w (links s) \<and> work s w \<noteq> NoWork)
      in if cancelled then (0, (upd_links (QUEUE_REMOVE w) s)\<lparr>cancelling := Some w\<rparr>) else (UV_EBUSY, s))"

text \<open>The types of requests, and which of them have work that can be cancelled.\<close>

datatype uv_req_type = UV_UNKNOWN_REQ | UV_REQ | UV_CONNECT | UV_WRITE | UV_SHUTDOWN | UV_UDP_SEND | UV_FS | UV_WORK
  | UV_GETADDRINFO | UV_GETNAMEINFO | UV_RANDOM

definition uv_cancel :: "uv_req_type \<Rightarrow> nat \<Rightarrow> pool \<Rightarrow> int \<times> pool" where
  "uv_cancel type w s =
     (case type of
        UV_FS \<Rightarrow> uv__work_cancel w s
      | UV_GETADDRINFO \<Rightarrow> uv__work_cancel w s
      | UV_GETNAMEINFO \<Rightarrow> uv__work_cancel w s
      | UV_RANDOM \<Rightarrow> uv__work_cancel w s
      | UV_WORK \<Rightarrow> uv__work_cancel w s
      | _ \<Rightarrow> (UV_EINVAL, s))"

definition cancel_post :: "nat \<Rightarrow> pool \<Rightarrow> pool" where
  "cancel_post w s =
     (let s = s\<lparr>work := (work s)(w := Cancelled)\<rparr>;
          s = upd_links (QUEUE_INSERT_TAIL loop_wq w) s
      in s\<lparr>async_sent := True, cancelling := None\<rparr>)"

text \<open>\<open>uv__work_done\<close>: the move of the results to the local queue, and one round of its loop.\<close>

definition work_done_collect :: "pool \<Rightarrow> pool" where
  "work_done_collect s = (upd_links (QUEUE_MOVE loop_wq local_wq) s)\<lparr>draining := True, async_sent := False\<rparr>"

definition work_done_next :: "pool \<Rightarrow> pool" where
  "work_done_next s =
     (if QUEUE_EMPTY local_wq (links s) then s\<lparr>draining := False\<rparr>
      else
        (let w = QUEUE_HEAD local_wq (links s);
             s = upd_links (QUEUE_REMOVE w) s;
             err = (if work s w = Cancelled then UV_ECANCELED else 0);
             s = record_event (Delivered w err) s
         in if done_with s w = QueueDone then uv__queue_done w s else s))"

text \<open>\<open>cleanup\<close>, the destructor of the library, before it waits for the threads.\<close>

definition cleanup :: "pool \<Rightarrow> bool \<times> pool" where
  "cleanup s = (if nthreads s = 0 then (False, s) else post exit_message UV__WORK_CPU (s\<lparr>cleaning := True\<rparr>))"

text \<open>The number of threads from the value of \<open>UV_THREADPOOL_SIZE\<close>, as \<open>atoi\<close> reads it, and from whether the array of
  threads could be allocated.\<close>

definition pool_size :: "int option \<Rightarrow> bool \<Rightarrow> nat" where
  "pool_size val allocated =
     (let n = (case val of None \<Rightarrow> 4 | Some v \<Rightarrow> unat (of_int v :: 32 word));
          n = (if n = 0 then 1 else n);
          n = (if 1024 < n then 1024 else n)
      in if 4 < n then (if allocated then n else 4) else n)"

definition init_threads :: "int option \<Rightarrow> bool \<Rightarrow> queue_mem \<Rightarrow> pool" where
  "init_threads val allocated m =
     \<lparr>links = QUEUE_INIT run_slow_work_message (QUEUE_INIT slow_io_pending_wq (QUEUE_INIT wq (QUEUE_INIT loop_wq m))),
      idle_threads = 0, slow_io_work_running = 0, nthreads = pool_size val allocated, owner = None,
      pcs = (\<lambda>t. if t < pool_size val allocated then Starting else Gone), work = (\<lambda>w. NoWork), done_with = (\<lambda>w. OtherDone),
      active_reqs = 0, async_sent = False, cancelling = None, draining = False, cleaning = False, events = []\<rparr>"

section \<open>Interleaving\<close>

inductive wake :: "bool \<Rightarrow> pool \<Rightarrow> pool \<Rightarrow> bool" where
  quiet: "wake False s s"
| nobody: "\<forall>t. pcs s t \<noteq> Waiting \<Longrightarrow> wake True s s"
| somebody: "pcs s t = Waiting \<Longrightarrow> wake True s (set_pc t Woken s)"

inductive worker_step :: "nat \<Rightarrow> pool \<Rightarrow> pool \<Rightarrow> bool" where
  lock: "owner s = None \<Longrightarrow> pcs s t = Starting \<or> pcs s t = Woken \<or> pcs s t = Posted slow \<Longrightarrow> worker_step t s (worker_lock t s)"
| wait: "pcs s t = AtTop \<Longrightarrow> must_wait s \<Longrightarrow> worker_step t s (worker_wait t s)"
| take: "pcs s t = AtTop \<Longrightarrow> \<not> must_wait s \<Longrightarrow> worker_take t s = (sig, s') \<Longrightarrow> wake sig s' s'' \<Longrightarrow> worker_step t s s''"
| run: "pcs s t = Running w slow \<Longrightarrow> worker_step t s (record_event (Executed w) (set_pc t (Ran w slow) s))"
| post: "pcs s t = Ran w slow \<Longrightarrow> worker_step t s (worker_post t w slow s)"

text \<open>What has become of a request, from the events.\<close>

datatype phase = Free | Pending | HasRun

fun phase_after :: "nat \<Rightarrow> event \<Rightarrow> phase \<Rightarrow> phase" where
  "phase_after w (Submitted v) p = (if v = w then Pending else p)"
| "phase_after w (Executed v) p = (if v = w then HasRun else p)"
| "phase_after w (Delivered v err) p = (if v = w then Free else p)"

definition phase_of :: "event list \<Rightarrow> nat \<Rightarrow> phase" where
  "phase_of es w = foldl (\<lambda>p e. phase_after w e p) Free es"

text \<open>The loop's thread submits requests that are not in use and cancels requests that are; it does one thing at a time. The
  last rule is the destructor of the library, which runs once.\<close>

inductive client_step :: "pool \<Rightarrow> pool \<Rightarrow> bool" where
  submit: "owner s = None \<Longrightarrow> cancelling s = None \<Longrightarrow> is_request w \<Longrightarrow> phase_of (events s) w = Free \<Longrightarrow>
    uv__work_submit w kind f OtherDone s = (sig, s') \<Longrightarrow> wake sig s' s'' \<Longrightarrow>
    client_step s (record_event (Submitted w) s'')"
| queue_work: "owner s = None \<Longrightarrow> cancelling s = None \<Longrightarrow> is_request w \<Longrightarrow> phase_of (events s) w = Free \<Longrightarrow>
    uv_queue_work w cb s = Inr (sig, s') \<Longrightarrow> wake sig s' s'' \<Longrightarrow> client_step s (record_event (Submitted w) s'')"
| cancel: "owner s = None \<Longrightarrow> cancelling s = None \<Longrightarrow> is_request w \<Longrightarrow> phase_of (events s) w \<noteq> Free \<Longrightarrow>
    client_step s (snd (uv_cancel type w s))"
| cancelled: "cancelling s = Some w \<Longrightarrow> client_step s (cancel_post w s)"
| collect: "cancelling s = None \<Longrightarrow> \<not> draining s \<Longrightarrow> client_step s (work_done_collect s)"
| deliver: "cancelling s = None \<Longrightarrow> draining s \<Longrightarrow> client_step s (work_done_next s)"
| cleanup: "owner s = None \<Longrightarrow> \<not> cleaning s \<Longrightarrow> cleanup s = (sig, s') \<Longrightarrow> wake sig s' s'' \<Longrightarrow> client_step s s''"

inductive pool_step :: "pool \<Rightarrow> pool \<Rightarrow> bool" where
  worker: "worker_step t s s' \<Longrightarrow> pool_step s s'"
| client: "client_step s s' \<Longrightarrow> pool_step s s'"
| spurious: "pcs s t = Waiting \<Longrightarrow> pool_step s (set_pc t Woken s)"

inductive pool_reachable :: "pool \<Rightarrow> bool" where
  init: "pool_reachable (init_threads val allocated m)"
| step: "pool_reachable s \<Longrightarrow> pool_step s s' \<Longrightarrow> pool_reachable s'"

end
