(* ===== verification/UvPoolSpec.thy ===== *)
theory UvPoolSpec
  imports UvPool
begin

text \<open>
  The invariant of the thread pool: where every request is, that its place agrees with its history, how many threads do
  slow work and how many are idle, and that no wakeup is lost. Each part is shown for each step.
\<close>

section \<open>Places\<close>

datatype place = Nowhere | InWq | InSlow | InLoop | InLocal | AtThread nat | InCancel

text \<open>The queues there are: the static ones, those of the loop, and the entries that are queues of their own, the message
  for slow work while it is not scheduled and the requests that workers have taken.\<close>

definition layout :: "(nat \<Rightarrow> place) \<Rightarrow> nat list \<Rightarrow> nat list \<Rightarrow> nat list \<Rightarrow> nat list option \<Rightarrow> nat \<Rightarrow> nat list option" where
  "layout loc xs ys zs us h =
     (if h = wq then Some xs
      else if h = slow_io_pending_wq then Some ys
      else if h = loop_wq then Some zs
      else if h = local_wq then us
      else if h = run_slow_work_message then (if run_slow_work_message \<in> set xs then None else Some [])
      else if \<exists>t. loc h = AtThread t then Some []
      else None)"

definition drained :: "pool \<Rightarrow> nat list \<Rightarrow> nat list option" where
  "drained s us = (if draining s then Some us else None)"

definition busy :: "pool \<Rightarrow> nat \<Rightarrow> nat \<Rightarrow> bool" where
  "busy s t w \<longleftrightarrow> (\<exists>slow. pcs s t = Running w slow \<or> pcs s t = Ran w slow)"

definition at_place :: "pool \<Rightarrow> (nat \<Rightarrow> place) \<Rightarrow> nat list \<Rightarrow> nat list \<Rightarrow> nat list \<Rightarrow> nat list \<Rightarrow> nat \<Rightarrow> bool" where
  "at_place s loc xs ys zs us w \<longleftrightarrow>
     (if is_request w
      then (w \<in> set xs \<longleftrightarrow> loc w = InWq) \<and> (w \<in> set ys \<longleftrightarrow> loc w = InSlow) \<and> (w \<in> set zs \<longleftrightarrow> loc w = InLoop) \<and>
        (w \<in> set us \<longleftrightarrow> loc w = InLocal) \<and> (\<forall>t. busy s t w \<longleftrightarrow> loc w = AtThread t) \<and> (cancelling s = Some w \<longleftrightarrow> loc w = InCancel)
      else loc w = Nowhere \<and> w \<notin> set ys \<and> w \<notin> set zs \<and> w \<notin> set us \<and> (\<forall>t. \<not> busy s t w) \<and> cancelling s \<noteq> Some w \<and>
        (w \<in> set xs \<longrightarrow> w = run_slow_work_message \<or> w = exit_message))"

definition located :: "pool \<Rightarrow> (nat \<Rightarrow> place) \<Rightarrow> nat list \<Rightarrow> nat list \<Rightarrow> nat list \<Rightarrow> nat list \<Rightarrow> bool" where
  "located s loc xs ys zs us \<longleftrightarrow>
     (\<forall>w. at_place s loc xs ys zs us w) \<and> (draining s \<or> us = []) \<and> (exit_message \<in> set xs \<longrightarrow> cleaning s)"

definition placed :: "pool \<Rightarrow> (nat \<Rightarrow> place) \<Rightarrow> nat list \<Rightarrow> nat list \<Rightarrow> nat list \<Rightarrow> nat list \<Rightarrow> bool" where
  "placed s loc xs ys zs us \<longleftrightarrow> queues (links s) (layout loc xs ys zs (drained s us)) \<and> located s loc xs ys zs us"

lemma layout_simps [simp]:
  "layout loc xs ys zs us wq = Some xs" "layout loc xs ys zs us (Suc 0) = Some xs" "layout loc xs ys zs us slow_io_pending_wq = Some ys"
  "layout loc xs ys zs us loop_wq = Some zs" "layout loc xs ys zs us local_wq = us"
  "layout loc xs ys zs us run_slow_work_message = (if run_slow_work_message \<in> set xs then None else Some [])"
  by (simp_all add: layout_def)

lemma layout_request: "is_request w \<Longrightarrow> layout loc xs ys zs us w = (if \<exists>t. loc w = AtThread t then Some [] else None)"
  by (auto simp: layout_def is_request_def)

lemma not_request [simp]: "\<not> is_request 0" "\<not> is_request 1" "\<not> is_request (Suc 0)" "\<not> is_request 2" "\<not> is_request 3"
    "\<not> is_request 4" "\<not> is_request 5"
  by (simp_all add: is_request_def)

lemma in_queuesI: "Q h = Some xs \<Longrightarrow> a \<in> set xs \<Longrightarrow> in_queues Q a"
  by (auto simp: in_queues_def)

lemma located_request:
  assumes "located s loc xs ys zs us" "is_request w"
  shows "w \<in> set xs \<longleftrightarrow> loc w = InWq" "w \<in> set ys \<longleftrightarrow> loc w = InSlow" "w \<in> set zs \<longleftrightarrow> loc w = InLoop"
    "w \<in> set us \<longleftrightarrow> loc w = InLocal" "busy s t w \<longleftrightarrow> loc w = AtThread t" "cancelling s = Some w \<longleftrightarrow> loc w = InCancel"
  using assms by (simp_all add: located_def at_place_def)

lemma located_other:
  assumes "located s loc xs ys zs us" "\<not> is_request w"
  shows "loc w = Nowhere" "w \<notin> set ys" "w \<notin> set zs" "w \<notin> set us" "\<not> busy s t w" "cancelling s \<noteq> Some w"
    "w \<in> set xs \<longrightarrow> w = run_slow_work_message \<or> w = exit_message"
  using assms by (simp_all add: located_def at_place_def)

lemma in_layout:
  assumes "located s loc xs ys zs us" "is_request w"
  shows "in_queues (layout loc xs ys zs (drained s us)) w \<longleftrightarrow> loc w \<noteq> Nowhere \<and> loc w \<noteq> InCancel"
proof -
  have r: "w \<noteq> wq" "w \<noteq> slow_io_pending_wq" "w \<noteq> loop_wq" "w \<noteq> local_wq" "w \<noteq> run_slow_work_message" "w \<noteq> exit_message"
    using assms(2) by (auto simp: is_request_def)
  have "in_queues (layout loc xs ys zs (drained s us)) w
      \<longleftrightarrow> w \<in> set xs \<or> w \<in> set ys \<or> w \<in> set zs \<or> w \<in> set us \<and> draining s \<or> (\<exists>t. loc w = AtThread t)"
    (is "?l \<longleftrightarrow> ?r")
  proof
    assume ?l
    then show ?r using r by (auto simp: in_queues_def layout_def drained_def split: if_splits)
  next
    assume ?r
    then consider "w \<in> set xs" | "w \<in> set ys" | "w \<in> set zs" | "w \<in> set us" "draining s" | t where "loc w = AtThread t" by blast
    then show ?l
    proof cases
      case 5
      then show ?thesis using layout_request [OF assms(2)] unfolding in_queues_def by (intro exI [of _ w] exI [of _ "[]"]) auto
    qed (auto intro: in_queuesI [of _ wq xs] in_queuesI [of _ slow_io_pending_wq ys] in_queuesI [of _ loop_wq zs] in_queuesI [of _ local_wq us] simp: drained_def)
  qed
  moreover have "w \<in> set us \<and> draining s \<longleftrightarrow> loc w = InLocal"
    using assms located_request(4) [OF assms] by (auto simp: located_def)
  ultimately show ?thesis using located_request(1-3) [OF assms] by (cases "loc w") simp_all
qed

text \<open>Only part of the state matters.\<close>

lemma placed_cong:
  assumes "links s' = links s" "cancelling s' = cancelling s" "draining s' = draining s" "cleaning s' = cleaning s"
    and "\<And>t w. busy s' t w \<longleftrightarrow> busy s t w"
  shows "placed s' loc xs ys zs us \<longleftrightarrow> placed s loc xs ys zs us"
  using assms by (simp add: placed_def located_def at_place_def drained_def)

lemma busy_set_pc:
  "busy (set_pc t p s) u w \<longleftrightarrow> (if u = t then \<exists>slow. p = Running w slow \<or> p = Ran w slow else busy s u w)"
  by (auto simp: busy_def set_pc_def)

lemma upd_links_simps [simp]:
  "links (upd_links f s) = f (links s)" "cancelling (upd_links f s) = cancelling s" "draining (upd_links f s) = draining s"
  "cleaning (upd_links f s) = cleaning s" "pcs (upd_links f s) = pcs s" "work (upd_links f s) = work s"
  "events (upd_links f s) = events s" "owner (upd_links f s) = owner s" "nthreads (upd_links f s) = nthreads s"
  "idle_threads (upd_links f s) = idle_threads s" "slow_io_work_running (upd_links f s) = slow_io_work_running s"
  "active_reqs (upd_links f s) = active_reqs s" "done_with (upd_links f s) = done_with s"
  by (simp_all add: upd_links_def)

lemma set_pc_simps [simp]:
  "links (set_pc t p s) = links s" "cancelling (set_pc t p s) = cancelling s" "draining (set_pc t p s) = draining s"
  "cleaning (set_pc t p s) = cleaning s" "pcs (set_pc t p s) = (pcs s)(t := p)" "work (set_pc t p s) = work s"
  "events (set_pc t p s) = events s" "owner (set_pc t p s) = owner s" "nthreads (set_pc t p s) = nthreads s"
  "idle_threads (set_pc t p s) = idle_threads s" "slow_io_work_running (set_pc t p s) = slow_io_work_running s"
  "active_reqs (set_pc t p s) = active_reqs s" "done_with (set_pc t p s) = done_with s"
  by (simp_all add: set_pc_def)

lemma record_event_simps [simp]:
  "links (record_event e s) = links s" "cancelling (record_event e s) = cancelling s" "draining (record_event e s) = draining s"
  "cleaning (record_event e s) = cleaning s" "pcs (record_event e s) = pcs s" "work (record_event e s) = work s"
  "events (record_event e s) = events s @ [e]" "owner (record_event e s) = owner s" "nthreads (record_event e s) = nthreads s"
  "idle_threads (record_event e s) = idle_threads s" "slow_io_work_running (record_event e s) = slow_io_work_running s"
  "active_reqs (record_event e s) = active_reqs s" "done_with (record_event e s) = done_with s"
  by (simp_all add: record_event_def)

lemma must_wait_iff:
  assumes "placed s loc xs ys zs us"
  shows "must_wait s \<longleftrightarrow> xs = [] \<or> xs = [run_slow_work_message] \<and> slow_work_thread_threshold s \<le> slow_io_work_running s"
proof -
  let ?Q = "layout loc xs ys zs (drained s us)"
  have q: "queues (links s) ?Q" using assms by (simp add: placed_def)
  have e: "QUEUE_EMPTY wq (links s) \<longleftrightarrow> xs = []" by (rule uvq.empty_law [OF q]) simp
  show ?thesis
  proof (cases xs)
    case (Cons x as)
    have h: "QUEUE_HEAD wq (links s) = x" using uvq.head_law [OF q, of wq x as] Cons by (simp add: QUEUE_HEAD_def QUEUE_NEXT_def)
    have n: "QUEUE_NEXT x (links s) = (if as = [] then wq else hd as)" using uvq.succ_law [OF q, of wq "[]" x as] Cons by simp
    have "wq \<notin> set as" using uvq.distinct_law [OF q, of wq xs] Cons by auto
    then show ?thesis using e h n Cons by (cases as) (auto simp: must_wait_def)
  qed (use e in \<open>simp add: must_wait_def\<close>)
qed

section \<open>Moving a request\<close>

text \<open>Each operation on the queues moves one entry to another place. \<open>same s' s\<close> says that nothing else changes but the links
  and the place of the threads.\<close>

definition same :: "pool \<Rightarrow> pool \<Rightarrow> bool" where
  "same s' s \<longleftrightarrow> cancelling s' = cancelling s \<and> draining s' = draining s \<and> cleaning s' = cleaning s"

lemma placedD:
  assumes "placed s loc xs ys zs us"
  shows "queues (links s) (layout loc xs ys zs (drained s us))" "located s loc xs ys zs us"
    "distinct (wq # xs)" "distinct (slow_io_pending_wq # ys)" "distinct (loop_wq # zs)"
    "draining s \<or> us = []" "exit_message \<in> set xs \<longrightarrow> cleaning s"
proof -
  show q: "queues (links s) (layout loc xs ys zs (drained s us))" "located s loc xs ys zs us" using assms by (simp_all add: placed_def)
  show "distinct (wq # xs)" "distinct (slow_io_pending_wq # ys)" "distinct (loop_wq # zs)"
    using uvq.distinct_law [OF q(1), of wq xs] uvq.distinct_law [OF q(1), of slow_io_pending_wq ys]
      uvq.distinct_law [OF q(1), of loop_wq zs] by simp_all
  show "draining s \<or> us = []" "exit_message \<in> set xs \<longrightarrow> cleaning s" using q(2) by (simp_all add: located_def)
qed

lemma relocate:
  assumes "located s loc xs ys zs us" "draining s' \<or> us' = []" "exit_message \<in> set xs' \<longrightarrow> cleaning s'"
    and "\<And>w. at_place s loc xs ys zs us w \<Longrightarrow> at_place s' loc' xs' ys' zs' us' w"
  shows "located s' loc' xs' ys' zs' us'"
  using assms by (simp add: located_def)

lemma take_wq:
  assumes "placed s loc (q # xs) ys zs us" "is_request q" "same s' s" "links s' = QUEUE_INIT q (QUEUE_REMOVE q (links s))"
    and "\<And>u w. busy s' u w \<longleftrightarrow> busy s u w \<or> u = t \<and> w = q"
  shows "placed s' (loc(q := AtThread t)) xs ys zs us"
proof -
  note p = placedD [OF assms(1)]
  have l: "loc q = InWq" using located_request(1) [OF p(2) assms(2)] by simp
  have "layout (loc(q := AtThread t)) xs ys zs (drained s us) = (layout loc (q # xs) ys zs (drained s us))(wq \<mapsto> xs, q \<mapsto> [])"
    using assms(2) by (auto simp: layout_def is_request_def fun_eq_iff)
  then have "queues (links s') (layout (loc(q := AtThread t)) xs ys zs (drained s us))"
    using uvq.take_head [OF p(1), of wq q xs] assms(4) by simp
  moreover have "located s' (loc(q := AtThread t)) xs ys zs us"
    by (rule relocate [OF p(2)]) (use p(3,6,7) l assms(2,3,5) in \<open>auto simp: at_place_def same_def\<close>)
  ultimately show ?thesis using assms(3) by (simp add: placed_def drained_def same_def)
qed

lemma take_slow:
  assumes "placed s loc xs (q # ys) zs us" "same s' s" "links s' = QUEUE_INIT q (QUEUE_REMOVE q (links s))"
    and "\<And>u w. busy s' u w \<longleftrightarrow> busy s u w \<or> u = t \<and> w = q"
  shows "is_request q" "placed s' (loc(q := AtThread t)) xs ys zs us"
proof -
  note p = placedD [OF assms(1)]
  show r: "is_request q" using located_other(2) [OF p(2), of q] by auto
  then have l: "loc q = InSlow" using located_request(2) [OF p(2), of q] by simp
  have "layout (loc(q := AtThread t)) xs ys zs (drained s us) = (layout loc xs (q # ys) zs (drained s us))(slow_io_pending_wq \<mapsto> ys, q \<mapsto> [])"
    using r by (auto simp: layout_def is_request_def fun_eq_iff)
  then have "queues (links s') (layout (loc(q := AtThread t)) xs ys zs (drained s us))"
    using uvq.take_head [OF p(1), of slow_io_pending_wq q ys] assms(3) by simp
  moreover have "located s' (loc(q := AtThread t)) xs ys zs us"
    by (rule relocate [OF p(2)]) (use p(4,6,7) l r assms(2,4) in \<open>auto simp: at_place_def same_def\<close>)
  ultimately show "placed s' (loc(q := AtThread t)) xs ys zs us" using assms(2) by (simp add: placed_def drained_def same_def)
qed

lemma message_out:
  assumes "placed s loc (run_slow_work_message # xs) ys zs us" "same s' s"
    and "links s' = QUEUE_INIT run_slow_work_message (QUEUE_REMOVE run_slow_work_message (links s))" "\<And>u w. busy s' u w \<longleftrightarrow> busy s u w"
  shows "placed s' loc xs ys zs us"
proof -
  note p = placedD [OF assms(1)]
  have "layout loc xs ys zs (drained s us)
      = (layout loc (run_slow_work_message # xs) ys zs (drained s us))(wq \<mapsto> xs, run_slow_work_message \<mapsto> [])"
    using p(3) by (auto simp: layout_def fun_eq_iff)
  then have "queues (links s') (layout loc xs ys zs (drained s us))"
    using uvq.take_head [OF p(1), of wq run_slow_work_message xs] assms(3) by simp
  moreover have "located s' loc xs ys zs us"
    by (rule relocate [OF p(2)]) (use p(3,6,7) assms(2,4) in \<open>auto simp: at_place_def same_def\<close>)
  ultimately show ?thesis using assms(2) by (simp add: placed_def drained_def same_def)
qed

lemma message_in:
  assumes "placed s loc xs ys zs us" "run_slow_work_message \<notin> set xs" "same s' s"
    and "links s' = QUEUE_INSERT_TAIL wq run_slow_work_message (links s)" "\<And>u w. busy s' u w \<longleftrightarrow> busy s u w"
  shows "placed s' loc (xs @ [run_slow_work_message]) ys zs us"
proof -
  note p = placedD [OF assms(1)]
  have "layout loc (xs @ [run_slow_work_message]) ys zs (drained s us)
      = (layout loc xs ys zs (drained s us))(run_slow_work_message := None, wq \<mapsto> xs @ [run_slow_work_message])"
    by (auto simp: layout_def fun_eq_iff)
  then have "queues (links s') (layout loc (xs @ [run_slow_work_message]) ys zs (drained s us))"
    using uvq.put_back [OF p(1), of run_slow_work_message wq xs] assms(2,4) by simp
  moreover have "located s' loc (xs @ [run_slow_work_message]) ys zs us"
    by (rule relocate [OF p(2)]) (use p(3,6,7) assms(3,5) in \<open>auto simp: at_place_def same_def\<close>)
  ultimately show ?thesis using assms(3) by (simp add: placed_def drained_def same_def)
qed

lemma exit_in:
  assumes "placed s loc xs ys zs us" "\<not> cleaning s" "cancelling s' = cancelling s" "draining s' = draining s" "cleaning s'"
    and "links s' = QUEUE_INSERT_TAIL wq exit_message (links s)" "\<And>u w. busy s' u w \<longleftrightarrow> busy s u w"
  shows "placed s' loc (xs @ [exit_message]) ys zs us"
proof -
  note p = placedD [OF assms(1)]
  have n: "exit_message \<notin> set xs" using p(2) assms(2) unfolding located_def by auto
  have nt: "0 < h" if "loc h = AtThread t" for h t
    by (rule gr0I) (use located_other(1) [OF p(2) not_request(1)] that in simp)
  have "\<not> in_queues (layout loc xs ys zs (drained s us)) exit_message"
    using n nt located_other [OF p(2) not_request(1)] by (auto simp: in_queues_def layout_def drained_def split: if_splits)
  moreover have "layout loc (xs @ [exit_message]) ys zs (drained s us) = (layout loc xs ys zs (drained s us))(wq \<mapsto> xs @ [exit_message])"
    by (auto simp: layout_def fun_eq_iff)
  ultimately have "queues (links s') (layout loc (xs @ [exit_message]) ys zs (drained s us))"
    using uvq.insert_law [OF p(1), of wq xs exit_message] assms(6) by simp
  moreover have "located s' loc (xs @ [exit_message]) ys zs us"
    by (rule relocate [OF p(2)]) (use p(6,7) assms(3-5,7) in \<open>auto simp: at_place_def split: if_splits\<close>)
  ultimately show ?thesis using assms(4) by (simp add: placed_def drained_def)
qed

text \<open>A request that is nowhere is queued.\<close>

lemma free_request:
  assumes "placed s loc xs ys zs us" "is_request w" "loc w = Nowhere \<or> loc w = InCancel"
  shows "\<not> in_queues (layout loc xs ys zs (drained s us)) w"
  using in_layout [OF placedD(2) [OF assms(1)] assms(2)] assms(3) by auto

lemma request_in:
  assumes "placed s loc xs ys zs us" "is_request w" "loc w = Nowhere" "same s' s" "\<And>u v. busy s' u v \<longleftrightarrow> busy s u v"
  shows "links s' = QUEUE_INSERT_TAIL wq w (links s) \<Longrightarrow> placed s' (loc(w := InWq)) (xs @ [w]) ys zs us"
    and "links s' = QUEUE_INSERT_TAIL slow_io_pending_wq w (links s) \<Longrightarrow> placed s' (loc(w := InSlow)) xs (ys @ [w]) zs us"
proof -
  note p = placedD [OF assms(1)]
  have f: "\<not> in_queues (layout loc xs ys zs (drained s us)) w" using free_request [OF assms(1,2)] assms(3) by blast
  have r: "w \<noteq> run_slow_work_message" "w \<noteq> exit_message" using assms(2) by (auto simp: is_request_def)
  have "located s' (loc(w := InWq)) (xs @ [w]) ys zs us"
    by (rule relocate [OF p(2)]) (use p(6,7) assms(2-5) r in \<open>auto simp: at_place_def same_def\<close>)
  moreover have "located s' (loc(w := InSlow)) xs (ys @ [w]) zs us"
    by (rule relocate [OF p(2)]) (use p(6,7) assms(2-5) r in \<open>auto simp: at_place_def same_def\<close>)
  moreover have "layout (loc(w := InWq)) (xs @ [w]) ys zs (drained s us) = (layout loc xs ys zs (drained s us))(wq \<mapsto> xs @ [w])"
    "layout (loc(w := InSlow)) xs (ys @ [w]) zs (drained s us) = (layout loc xs ys zs (drained s us))(slow_io_pending_wq \<mapsto> ys @ [w])"
    using r assms(3) by (auto simp: layout_def fun_eq_iff)
  moreover have "queues (QUEUE_INSERT_TAIL wq w (links s)) ((layout loc xs ys zs (drained s us))(wq \<mapsto> xs @ [w]))"
    "queues (QUEUE_INSERT_TAIL slow_io_pending_wq w (links s)) ((layout loc xs ys zs (drained s us))(slow_io_pending_wq \<mapsto> ys @ [w]))"
    using uvq.insert_law [OF p(1) _ f] by simp_all
  ultimately show "links s' = QUEUE_INSERT_TAIL wq w (links s) \<Longrightarrow> placed s' (loc(w := InWq)) (xs @ [w]) ys zs us"
    "links s' = QUEUE_INSERT_TAIL slow_io_pending_wq w (links s) \<Longrightarrow> placed s' (loc(w := InSlow)) xs (ys @ [w]) zs us"
    using assms(4) by (simp_all add: placed_def drained_def same_def)
qed

lemma request_to_loop:
  assumes "placed s loc xs ys zs us" "links s' = QUEUE_INSERT_TAIL loop_wq w (links s)" "draining s' = draining s" "cleaning s' = cleaning s"
  shows "loc w = AtThread t \<Longrightarrow> cancelling s' = cancelling s \<Longrightarrow> (\<And>u v. busy s' u v \<longleftrightarrow> busy s u v \<and> v \<noteq> w) \<Longrightarrow>
      placed s' (loc(w := InLoop)) xs ys (zs @ [w]) us"
    and "loc w = InCancel \<Longrightarrow> cancelling s' = None \<Longrightarrow> (\<And>u v. busy s' u v \<longleftrightarrow> busy s u v) \<Longrightarrow>
      placed s' (loc(w := InLoop)) xs ys (zs @ [w]) us"
proof -
  note p = placedD [OF assms(1)]
  have r: "is_request w" if "loc w \<noteq> Nowhere" using located_other(1) [OF p(2), of w] that by blast
  show "placed s' (loc(w := InLoop)) xs ys (zs @ [w]) us"
    if a: "loc w = AtThread t" "cancelling s' = cancelling s" "\<And>u v. busy s' u v \<longleftrightarrow> busy s u v \<and> v \<noteq> w"
  proof -
    have w: "is_request w" using r a(1) by simp
    have "located s' (loc(w := InLoop)) xs ys (zs @ [w]) us"
      by (rule relocate [OF p(2)]) (use p(6,7) assms(3,4) w a in \<open>auto simp: at_place_def split: if_splits\<close>)
    moreover have "layout (loc(w := InLoop)) xs ys (zs @ [w]) (drained s us)
        = (layout loc xs ys zs (drained s us))(w := None, loop_wq \<mapsto> zs @ [w])"
      using w by (auto simp: layout_def is_request_def fun_eq_iff)
    moreover have "layout loc xs ys zs (drained s us) w = Some []" using layout_request [OF w] a(1) by auto
    ultimately show ?thesis
      using uvq.put_back [OF p(1), of w loop_wq zs] assms(2,3) w by (auto simp: placed_def drained_def is_request_def)
  qed
  show "placed s' (loc(w := InLoop)) xs ys (zs @ [w]) us"
    if a: "loc w = InCancel" "cancelling s' = None" "\<And>u v. busy s' u v \<longleftrightarrow> busy s u v"
  proof -
    have w: "is_request w" using r a(1) by simp
    have f: "\<not> in_queues (layout loc xs ys zs (drained s us)) w" using free_request [OF assms(1) w] a(1) by blast
    have c: "cancelling s = Some w" using located_request(6) [OF p(2) w] a(1) by simp
    have "located s' (loc(w := InLoop)) xs ys (zs @ [w]) us"
      by (rule relocate [OF p(2)]) (use p(6,7) assms(3,4) w a c in \<open>auto simp: at_place_def split: if_splits\<close>)
    moreover have "layout (loc(w := InLoop)) xs ys (zs @ [w]) (drained s us)
        = (layout loc xs ys zs (drained s us))(loop_wq \<mapsto> zs @ [w])"
      using w a(1) by (auto simp: layout_def is_request_def fun_eq_iff)
    ultimately show ?thesis
      using uvq.insert_law [OF p(1) _ f, of loop_wq zs] assms(2,3) by (simp add: placed_def drained_def)
  qed
qed

text \<open>Cancelling takes a request out of whatever queue it is in.\<close>

lemma request_out:
  assumes "placed s loc xs ys zs us" "is_request w" "loc w \<in> {InWq, InSlow, InLoop, InLocal}" "cancelling s = None"
    and "links s' = QUEUE_REMOVE w (links s)" "cancelling s' = Some w" "draining s' = draining s" "cleaning s' = cleaning s"
    and "\<And>u v. busy s' u v \<longleftrightarrow> busy s u v"
  shows "placed s' (loc(w := InCancel)) (remove1 w xs) (remove1 w ys) (remove1 w zs) (remove1 w us)"
proof -
  note p = placedD [OF assms(1)]
  note lw = located_request [OF p(2) assms(2)]
  let ?Q = "layout loc xs ys zs (drained s us)"
  have r: "w \<noteq> run_slow_work_message" "w \<noteq> exit_message" using assms(2) by (auto simp: is_request_def)
  have du: "distinct us" using uvq.distinct_law [OF p(1), of local_wq us] p(2) by (cases "draining s") (auto simp: drained_def located_def)
  have n: "w \<notin> set (remove1 w xs)" "w \<notin> set (remove1 w ys)" "w \<notin> set (remove1 w zs)" "w \<notin> set (remove1 w us)"
    using p(3-5) du by (simp_all add: set_remove1_eq)
  have m: "v \<in> set (remove1 w as) \<longleftrightarrow> v \<in> set as" if "v \<noteq> w" for v as using that by (simp add: in_set_remove1)
  have nc: "loc v \<noteq> InCancel" for v
    using located_request(6) [OF p(2), of v] located_other(1) [OF p(2), of v] assms(4) by (cases "is_request v") auto
  have "located s' (loc(w := InCancel)) (remove1 w xs) (remove1 w ys) (remove1 w zs) (remove1 w us)"
  proof (rule relocate [OF p(2)])
    fix v
    assume "at_place s loc xs ys zs us v"
    then show "at_place s' (loc(w := InCancel)) (remove1 w xs) (remove1 w ys) (remove1 w zs) (remove1 w us) v"
      using n m [of v] assms(2,3,4,6,9) nc lw by (cases "v = w") (auto simp: at_place_def)
  qed (use p(6,7) assms(7,8) r m in \<open>auto\<close>)
  moreover have "queues (QUEUE_REMOVE w (links s)) (layout (loc(w := InCancel)) (remove1 w xs) (remove1 w ys) (remove1 w zs) (drained s (remove1 w us)))"
  proof -
    have a: "\<not> (\<exists>t. loc w = AtThread t)" using assms(3) by auto
    have eq: "layout (loc(w := InCancel)) as bs cs ds v = layout loc as bs cs ds v" for as bs cs ds v
      using a by (auto simp: layout_def)
    consider "w \<in> set xs" "w \<notin> set ys" "w \<notin> set zs" "w \<notin> set us" | "w \<in> set ys" "w \<notin> set xs" "w \<notin> set zs" "w \<notin> set us"
      | "w \<in> set zs" "w \<notin> set xs" "w \<notin> set ys" "w \<notin> set us" | "w \<in> set us" "w \<notin> set xs" "w \<notin> set ys" "w \<notin> set zs" "draining s"
      using assms(3) lw p(6) by auto
    then show ?thesis
    proof cases
      case 1
      have "layout loc (remove1 w xs) ys zs (drained s us) = ?Q(wq \<mapsto> remove1 w xs)"
        using m [of run_slow_work_message xs] r by (auto simp: layout_def fun_eq_iff)
      then show ?thesis using uvq.remove_law [OF p(1), of wq xs w] 1 by (simp add: remove1_idem eq [abs_def])
    next
      case 2
      have "layout loc xs (remove1 w ys) zs (drained s us) = ?Q(slow_io_pending_wq \<mapsto> remove1 w ys)"
        by (auto simp: layout_def fun_eq_iff)
      then show ?thesis using uvq.remove_law [OF p(1), of slow_io_pending_wq ys w] 2 by (simp add: remove1_idem eq [abs_def])
    next
      case 3
      have "layout loc xs ys (remove1 w zs) (drained s us) = ?Q(loop_wq \<mapsto> remove1 w zs)"
        by (auto simp: layout_def fun_eq_iff)
      then show ?thesis using uvq.remove_law [OF p(1), of loop_wq zs w] 3 by (simp add: remove1_idem eq [abs_def])
    next
      case 4
      have "layout loc xs ys zs (drained s (remove1 w us)) = ?Q(local_wq \<mapsto> remove1 w us)"
        using 4(5) by (auto simp: layout_def drained_def fun_eq_iff)
      moreover have "?Q local_wq = Some us" using 4(5) by (simp add: drained_def)
      ultimately show ?thesis using uvq.remove_law [OF p(1), of local_wq us w] 4 by (simp add: remove1_idem eq [abs_def])
    qed
  qed
  ultimately show ?thesis using assms(5,7) by (simp add: placed_def drained_def)
qed

text \<open>The results go to the local queue, and leave it one by one.\<close>

lemma results_collected:
  assumes "placed s loc xs ys zs us" "\<not> draining s"
    and "links s' = QUEUE_MOVE loop_wq local_wq (links s)" "cancelling s' = cancelling s" "draining s'" "cleaning s' = cleaning s"
    and "\<And>u v. busy s' u v \<longleftrightarrow> busy s u v"
  shows "placed s' (\<lambda>w. if loc w = InLoop then InLocal else loc w) xs ys [] zs"
proof -
  note p = placedD [OF assms(1)]
  let ?Q = "layout loc xs ys zs (drained s us)" and ?loc = "\<lambda>w. if loc w = InLoop then InLocal else loc w"
  have u: "us = []" using p(6) assms(2) by simp
  have nl: "loc h \<noteq> AtThread t" if "\<not> is_request h" for h t using located_other(1) [OF p(2) that] by simp
  have "located s' ?loc xs ys [] zs"
    by (rule relocate [OF p(2)]) (use p(7) u assms(4-7) in \<open>auto simp: at_place_def split: if_splits\<close>)
  moreover have "layout ?loc xs ys [] (Some zs) = ?Q(loop_wq \<mapsto> [], local_wq \<mapsto> zs)"
    by (auto simp: layout_def fun_eq_iff)
  moreover have "\<not> in_queues ?Q local_wq"
    using located_other [OF p(2) not_request(7)] assms(2) nl [OF not_request(7)]
    by (auto simp: in_queues_def layout_def drained_def split: if_splits)
  ultimately show ?thesis
    using uvq.move_law [OF p(1), of loop_wq zs local_wq] assms(3,5) by (simp add: placed_def drained_def)
qed

lemma drained_ends:
  assumes "placed s loc xs ys zs []" "links s' = links s" "cancelling s' = cancelling s" "\<not> draining s'" "cleaning s' = cleaning s"
    and "\<And>u v. busy s' u v \<longleftrightarrow> busy s u v"
  shows "placed s' loc xs ys zs []"
proof -
  note p = placedD [OF assms(1)]
  have "located s' loc xs ys zs []"
    by (rule relocate [OF p(2)]) (use p(7) assms(3-6) in \<open>auto simp: at_place_def\<close>)
  moreover have "(layout loc xs ys zs (drained s []))(local_wq := None) = layout loc xs ys zs None"
    by (rule ext) (simp add: layout_def)
  then have "queues (links s) (layout loc xs ys zs None)" using uvq.drop_law [OF p(1), of local_wq] by metis
  ultimately show ?thesis using assms(2,4) by (simp add: placed_def drained_def)
qed

lemma result_out:
  assumes "placed s loc xs ys zs (w # us)" "links s' = QUEUE_REMOVE w (links s)" "same s' s" "\<And>u v. busy s' u v \<longleftrightarrow> busy s u v"
  shows "is_request w" "placed s' (loc(w := Nowhere)) xs ys zs us"
proof -
  note p = placedD [OF assms(1)]
  show w: "is_request w" using located_other(4) [OF p(2), of w] by auto
  have l: "loc w = InLocal" using located_request(4) [OF p(2) w] by simp
  have d: "draining s" using p(6) by simp
  have ds: "w \<notin> set us" using uvq.distinct_law [OF p(1), of local_wq "w # us"] d by (simp add: drained_def)
  have "located s' (loc(w := Nowhere)) xs ys zs us"
    by (rule relocate [OF p(2)]) (use p(6,7) l w ds assms(3,4) in \<open>auto simp: at_place_def same_def\<close>)
  moreover have "layout (loc(w := Nowhere)) xs ys zs (Some us) = (layout loc xs ys zs (Some (w # us)))(local_wq \<mapsto> us)"
    using l by (auto simp: layout_def fun_eq_iff)
  ultimately show "placed s' (loc(w := Nowhere)) xs ys zs us"
    using uvq.remove_law [OF p(1), of local_wq "w # us" w] assms(2,3) d by (simp add: placed_def drained_def same_def)
qed

section \<open>Histories\<close>

lemma phase_of_simps [simp]: "phase_of [] w = Free" "phase_of (es @ [e]) w = phase_after w e (phase_of es w)"
  by (simp_all add: phase_of_def)

text \<open>A request is submitted when it is not in use, executed once and only when it is pending, and delivered once: as done
  if it has been executed, as cancelled if it has not.\<close>

fun allowed :: "event \<Rightarrow> (nat \<Rightarrow> phase) \<Rightarrow> bool" where
  "allowed (Submitted w) ph \<longleftrightarrow> ph w = Free"
| "allowed (Executed w) ph \<longleftrightarrow> ph w = Pending"
| "allowed (Delivered w err) ph \<longleftrightarrow> ph w = HasRun \<and> err = 0 \<or> ph w = Pending \<and> err = UV_ECANCELED"

definition orderly :: "event list \<Rightarrow> bool" where
  "orderly es \<longleftrightarrow> (\<forall>i<length es. allowed (es ! i) (phase_of (take i es)))"

lemma orderly_simps [simp]: "orderly []" "orderly (es @ [e]) \<longleftrightarrow> orderly es \<and> allowed e (phase_of es)"
  by (auto simp: orderly_def nth_append less_Suc_eq)

text \<open>What the place of a request says of its history, its work pointer and the thread that has it.\<close>

fun consistent :: "place \<Rightarrow> phase \<Rightarrow> work_fn \<Rightarrow> (nat \<Rightarrow> pc) \<Rightarrow> nat \<Rightarrow> bool" where
  "consistent Nowhere ph wk ps w \<longleftrightarrow> ph = Free"
| "consistent InWq ph wk ps w \<longleftrightarrow> ph = Pending \<and> (\<exists>f. wk = Work f)"
| "consistent InSlow ph wk ps w \<longleftrightarrow> ph = Pending \<and> (\<exists>f. wk = Work f)"
| "consistent (AtThread t) ph wk ps w \<longleftrightarrow> (\<exists>f. wk = Work f) \<and> (if \<exists>slow. ps t = Ran w slow then ph = HasRun else ph = Pending)"
| "consistent InLoop ph wk ps w \<longleftrightarrow> ph = HasRun \<and> wk = NoWork \<or> ph = Pending \<and> wk = Cancelled"
| "consistent InLocal ph wk ps w \<longleftrightarrow> ph = HasRun \<and> wk = NoWork \<or> ph = Pending \<and> wk = Cancelled"
| "consistent InCancel ph wk ps w \<longleftrightarrow> ph = Pending"

definition counted_reqs :: "pool \<Rightarrow> (nat \<Rightarrow> place) \<Rightarrow> nat set" where
  "counted_reqs s loc = {w. loc w \<noteq> Nowhere \<and> done_with s w = QueueDone}"

definition requests_inv :: "pool \<Rightarrow> (nat \<Rightarrow> place) \<Rightarrow> bool" where
  "requests_inv s loc \<longleftrightarrow> orderly (events s) \<and> (\<forall>w. consistent (loc w) (phase_of (events s) w) (work s w) (pcs s) w) \<and>
     finite (counted_reqs s loc) \<and> active_reqs s = card (counted_reqs s loc)"

text \<open>Changes of threads that have no request do not matter here either.\<close>

lemma consistent_cong: "(\<And>t slow. ps' t = Ran w slow \<longleftrightarrow> ps t = Ran w slow) \<Longrightarrow> consistent pl ph wk ps' w \<longleftrightarrow> consistent pl ph wk ps w"
  by (cases pl) auto

section \<open>Threads\<close>

fun slow_pc :: "pc \<Rightarrow> bool" where
  "slow_pc (Running w slow) = slow"
| "slow_pc (Ran w slow) = slow"
| "slow_pc (Posted slow) = slow"
| "slow_pc _ = False"

definition idle_pc :: "pc \<Rightarrow> bool" where
  "idle_pc p \<longleftrightarrow> p = Waiting \<or> p = Woken"

definition threads_inv :: "pool \<Rightarrow> bool" where
  "threads_inv s \<longleftrightarrow> (\<forall>t. owner s = Some t \<longleftrightarrow> pcs s t = AtTop) \<and> (\<forall>t\<ge>nthreads s. pcs s t = Gone) \<and>
     slow_io_work_running s = card {t. slow_pc (pcs s t)} \<and> slow_io_work_running s \<le> slow_work_thread_threshold s \<and>
     idle_threads s = card {t. idle_pc (pcs s t)}"

lemma finite_pcs:
  fixes ps :: "nat \<Rightarrow> pc"
  assumes "\<forall>t\<ge>n. ps t = Gone" "\<not> P Gone"
  shows "finite {t. P (ps t)}"
proof (rule finite_subset)
  show "{t. P (ps t)} \<subseteq> {..<n}" using assms by (auto simp: not_less [symmetric])
qed simp

lemma card_pc:
  fixes ps :: "nat \<Rightarrow> pc"
  assumes "\<forall>t\<ge>n. ps t = Gone" "\<not> P Gone"
  shows "card {u. P ((ps(t := p)) u)} = card {u. P (ps u)} - (if P (ps t) then 1 else 0) + (if P p then 1 else 0)"
    and "P (ps t) \<Longrightarrow> 0 < card {u. P (ps u)}"
proof -
  have f: "finite {u. P (ps u)}" by (rule finite_pcs [where n = n]) (use assms in auto)
  have e: "{u. P ((ps(t := p)) u)} = (if P p then insert t ({u. P (ps u)} - {t}) else {u. P (ps u)} - {t})" by auto
  show g: "P (ps t) \<Longrightarrow> 0 < card {u. P (ps u)}" using f by (auto simp: card_gt_0_iff)
  have "card (insert t A) = Suc (card A - 1)" if "t \<in> A" "0 < card A" for A :: "nat set"
    using that by (simp add: insert_absorb)
  then show "card {u. P ((ps(t := p)) u)} = card {u. P (ps u)} - (if P (ps t) then 1 else 0) + (if P p then 1 else 0)"
    unfolding e using f g by (auto simp: card_Diff_singleton_if)
qed

text \<open>If all threads that are left wait, there is nothing to do.\<close>

definition wakeful :: "pool \<Rightarrow> bool" where
  "wakeful s \<longleftrightarrow> (\<exists>t. pcs s t = Waiting) \<longrightarrow> (\<forall>t. pcs s t = Waiting \<or> pcs s t = Gone) \<longrightarrow> must_wait s"

definition pool_inv :: "pool \<Rightarrow> bool" where
  "pool_inv s \<longleftrightarrow> threads_inv s \<and> wakeful s \<and>
     (\<exists>loc xs ys zs us. placed s loc xs ys zs us \<and> requests_inv s loc \<and> (ys \<noteq> [] \<longrightarrow> run_slow_work_message \<in> set xs))"

lemma pool_invI:
  "threads_inv s \<Longrightarrow> wakeful s \<Longrightarrow> placed s loc xs ys zs us \<Longrightarrow> requests_inv s loc \<Longrightarrow> (ys \<noteq> [] \<Longrightarrow> run_slow_work_message \<in> set xs) \<Longrightarrow> pool_inv s"
  unfolding pool_inv_def by blast

end
