(* ===== verification/UvPoolInv.thy ===== *)
theory UvPoolInv
  imports UvPoolSpec
begin

text \<open>
  The invariant of the thread pool holds when it starts and is kept by every step of a worker and of a client.
\<close>

section \<open>Start\<close>

lemma phase_of_Nil: "phase_of [] = (\<lambda>w. Free)"
  by (rule ext) simp

lemma queues_none: "queues m (\<lambda>h. None)"
  by (simp add: queues_def)

lemma pool_size_pos: "0 < pool_size val allocated"
  by (auto simp: pool_size_def Let_def split: option.splits)

lemma inv_init: "pool_inv (init_threads val allocated m)"
proof (rule pool_invI [where loc = "\<lambda>w. Nowhere" and xs = "[]" and ys = "[]" and zs = "[]" and us = "[]"])
  let ?s = "init_threads val allocated m"
  show "threads_inv ?s"
    by (auto simp: threads_inv_def init_threads_def idle_pc_def slow_work_thread_threshold_def)
  show "wakeful ?s" by (auto simp: wakeful_def init_threads_def)
  show "requests_inv ?s (\<lambda>w. Nowhere)"
    by (simp add: requests_inv_def counted_reqs_def init_threads_def)
  have "(\<lambda>h. None)(loop_wq \<mapsto> [], wq \<mapsto> [], slow_io_pending_wq \<mapsto> [], run_slow_work_message \<mapsto> [])
      = layout (\<lambda>w. Nowhere) [] [] [] None"
    by (auto simp: layout_def fun_eq_iff)
  moreover have "queues (links ?s) ((\<lambda>h. None)(loop_wq \<mapsto> [], wq \<mapsto> [], slow_io_pending_wq \<mapsto> [], run_slow_work_message \<mapsto> []))"
    unfolding init_threads_def pool.simps
    by (intro uvq.init_law queues_none) (auto simp: in_queues_def split: if_splits)
  moreover have "located ?s (\<lambda>w. Nowhere) [] [] [] []"
    by (auto simp: located_def at_place_def busy_def init_threads_def)
  ultimately show "placed ?s (\<lambda>w. Nowhere) [] [] [] []"
    by (simp add: placed_def drained_def init_threads_def)
qed simp

section \<open>Threads\<close>

text \<open>One thread goes to another place of its code.\<close>

lemma thread_moves:
  assumes "threads_inv s" "pcs s t \<noteq> Gone" "pcs s' = (pcs s)(t := p)" "nthreads s' = nthreads s"
    and "owner s' = (if p = AtTop then Some t else if pcs s t = AtTop then None else owner s)"
    and "p = AtTop \<longrightarrow> owner s = None \<or> owner s = Some t"
    and "slow_io_work_running s' + of_bool (slow_pc (pcs s t)) = slow_io_work_running s + of_bool (slow_pc p)"
    and "idle_threads s' + of_bool (idle_pc (pcs s t)) = idle_threads s + of_bool (idle_pc p)"
    and "slow_pc p \<and> \<not> slow_pc (pcs s t) \<longrightarrow> slow_io_work_running s < slow_work_thread_threshold s"
  shows "threads_inv s'"
proof -
  have g: "\<forall>u\<ge>nthreads s. pcs s u = Gone" and n: "\<not> slow_pc Gone" "\<not> idle_pc Gone"
    using assms(1) by (simp_all add: threads_inv_def idle_pc_def)
  have o: "pcs s u = AtTop \<longleftrightarrow> owner s = Some u" for u using assms(1) by (simp add: threads_inv_def)
  have t: "t < nthreads s" using g assms(2) by (meson not_less)
  have "slow_io_work_running s' = card {u. slow_pc (pcs s' u)}"
    using card_pc(1) [where P = slow_pc and ps = "pcs s" and t = t, OF g n(1)] card_pc(2) [where P = slow_pc and ps = "pcs s" and t = t, OF g n(1)] assms(1,3,7) by (auto simp: threads_inv_def)
  moreover have "idle_threads s' = card {u. idle_pc (pcs s' u)}"
    using card_pc(1) [where P = idle_pc and ps = "pcs s" and t = t, OF g n(2)] card_pc(2) [where P = idle_pc and ps = "pcs s" and t = t, OF g n(2)] assms(1,3,8) by (auto simp: threads_inv_def)
  moreover have "slow_io_work_running s' \<le> slow_work_thread_threshold s'"
    using assms(1,4,7,9)
    by (cases "slow_pc p"; cases "slow_pc (pcs s t)") (auto simp: threads_inv_def slow_work_thread_threshold_def)
  moreover have "\<forall>u. owner s' = Some u \<longleftrightarrow> pcs s' u = AtTop"
  proof
    show "owner s' = Some u \<longleftrightarrow> pcs s' u = AtTop" for u
      using assms(3,5,6) o [of u] o [of t] by (cases "u = t"; cases "p = AtTop"; cases "pcs s t = AtTop") auto
  qed
  moreover have "\<forall>u\<ge>nthreads s'. pcs s' u = Gone" using g t assms(3,4) by auto
  ultimately show ?thesis by (simp add: threads_inv_def)
qed

section \<open>Waking\<close>

lemma wake_keeps:
  assumes "wake sig s s'" "threads_inv s"
  shows "threads_inv s'" "placed s loc xs ys zs us \<Longrightarrow> placed s' loc xs ys zs us" "requests_inv s loc \<Longrightarrow> requests_inv s' loc"
    "sig \<Longrightarrow> wakeful s'" "\<not> sig \<Longrightarrow> s' = s"
proof -
  have k: "threads_inv (set_pc t Woken s) \<and> (placed s loc xs ys zs us \<longrightarrow> placed (set_pc t Woken s) loc xs ys zs us)
      \<and> (requests_inv s loc \<longrightarrow> requests_inv (set_pc t Woken s) loc)" if w: "pcs s t = Waiting" for t
  proof (intro conjI impI)
    show "threads_inv (set_pc t Woken s)"
      using w by (intro thread_moves [OF assms(2), of t _ Woken]) (simp_all add: idle_pc_def)
    show "placed (set_pc t Woken s) loc xs ys zs us" if "placed s loc xs ys zs us"
      using that w placed_cong [of "set_pc t Woken s" s] by (auto simp: busy_def)
    show "requests_inv (set_pc t Woken s) loc" if "requests_inv s loc"
      using that w consistent_cong [of "(pcs s)(t := Woken)" _ "pcs s"] by (auto simp: requests_inv_def counted_reqs_def)
  qed
  show "threads_inv s'" "placed s loc xs ys zs us \<Longrightarrow> placed s' loc xs ys zs us" "requests_inv s loc \<Longrightarrow> requests_inv s' loc"
    using assms k by (auto elim!: wake.cases)
  show "sig \<Longrightarrow> wakeful s'" using assms(1) by cases (auto simp: wakeful_def)
  show "\<not> sig \<Longrightarrow> s' = s" using assms(1) by cases auto
qed

section \<open>Workers\<close>

lemma requests_cong:
  assumes "requests_inv s loc" "events s' = events s" "work s' = work s" "done_with s' = done_with s" "active_reqs s' = active_reqs s"
    and "\<And>t w slow. pcs s' t = Ran w slow \<longleftrightarrow> pcs s t = Ran w slow"
  shows "requests_inv s' loc"
  using assms consistent_cong [of "pcs s'" _ "pcs s"] by (simp add: requests_inv_def counted_reqs_def)

lemma not_all_waiting: "pcs s t \<noteq> Waiting \<Longrightarrow> pcs s t \<noteq> Gone \<Longrightarrow> wakeful s"
  unfolding wakeful_def by blast

lemma inv_lock:
  assumes "pool_inv s" "owner s = None" "pcs s t = Starting \<or> pcs s t = Woken \<or> pcs s t = Posted slow"
  shows "pool_inv (worker_lock t s)"
proof -
  obtain loc xs ys zs us where p: "threads_inv s" "placed s loc xs ys zs us" "requests_inv s loc" "ys \<noteq> [] \<longrightarrow> run_slow_work_message \<in> set xs"
    using assms(1) unfolding pool_inv_def by blast
  let ?s = "worker_lock t s"
  have f: "pcs ?s = (pcs s)(t := AtTop)" "nthreads ?s = nthreads s" "owner ?s = Some t" "links ?s = links s"
      "cancelling ?s = cancelling s" "draining ?s = draining s" "cleaning ?s = cleaning s" "events ?s = events s" "work ?s = work s"
      "done_with ?s = done_with s" "active_reqs ?s = active_reqs s"
    using assms(3) by (auto simp: worker_lock_def Let_def set_pc_def split: if_splits)
  have "slow_io_work_running s = card {u. slow_pc (pcs s u)}" "idle_threads s = card {u. idle_pc (pcs s u)}" "\<forall>u\<ge>nthreads s. pcs s u = Gone"
    using p(1) by (simp_all add: threads_inv_def)
  then have "slow_pc (pcs s t) \<Longrightarrow> 0 < slow_io_work_running s" "idle_pc (pcs s t) \<Longrightarrow> 0 < idle_threads s"
    using card_pc(2) [where P = slow_pc and ps = "pcs s" and t = t] card_pc(2) [where P = idle_pc and ps = "pcs s" and t = t]
    by (auto simp: idle_pc_def)
  then have c: "slow_io_work_running ?s + of_bool (slow_pc (pcs s t)) = slow_io_work_running s"
      "idle_threads ?s + of_bool (idle_pc (pcs s t)) = idle_threads s"
    using assms(3) by (auto simp: worker_lock_def Let_def idle_pc_def set_pc_def)
  show ?thesis
  proof (rule pool_invI [of _ loc xs ys zs us])
    show "threads_inv ?s"
      by (rule thread_moves [OF p(1) _ f(1,2)]) (use assms(2,3) c f in \<open>auto simp: idle_pc_def\<close>)
    show "wakeful ?s" by (rule not_all_waiting [of _ t]) (simp_all add: f)
    show "placed ?s loc xs ys zs us"
      using p(2) placed_cong [of ?s s loc xs ys zs us] f assms(3) by (auto simp: busy_def)
    show "requests_inv ?s loc" by (rule requests_cong [OF p(3)]) (use f assms(3) in auto)
  qed (use p(4) in blast)
qed

lemma inv_wait:
  assumes "pool_inv s" "pcs s t = AtTop" "must_wait s"
  shows "pool_inv (worker_wait t s)"
proof -
  obtain loc xs ys zs us where p: "threads_inv s" "placed s loc xs ys zs us" "requests_inv s loc" "ys \<noteq> [] \<longrightarrow> run_slow_work_message \<in> set xs"
    using assms(1) unfolding pool_inv_def by blast
  let ?s = "worker_wait t s"
  show ?thesis
  proof (rule pool_invI [of _ loc xs ys zs us])
    show "threads_inv ?s"
      by (rule thread_moves [OF p(1), of t _ Waiting]) (use assms(2) in \<open>auto simp: idle_pc_def worker_wait_def set_pc_def\<close>)
    show pl: "placed ?s loc xs ys zs us"
      using p(2) placed_cong [of ?s s loc xs ys zs us] assms(2) by (auto simp: busy_def worker_wait_def)
    show "wakeful ?s"
      using assms(3) must_wait_iff [OF p(2)] must_wait_iff [OF pl]
      by (simp add: wakeful_def worker_wait_def slow_work_thread_threshold_def)
    show "requests_inv ?s loc" by (rule requests_cong [OF p(3)]) (use assms(2) in \<open>auto simp: worker_wait_def\<close>)
  qed (use p(4) in blast)
qed

lemma phase_after_other: "e \<in> {Submitted w, Executed w, Delivered w err} \<Longrightarrow> v \<noteq> w \<Longrightarrow> phase_after v e p = p"
  by auto

lemma inv_run:
  assumes "pool_inv s" "pcs s t = Running w slow"
  shows "pool_inv (record_event (Executed w) (set_pc t (Ran w slow) s))"
proof -
  obtain loc xs ys zs us where p: "threads_inv s" "placed s loc xs ys zs us" "requests_inv s loc" "ys \<noteq> [] \<longrightarrow> run_slow_work_message \<in> set xs"
    using assms(1) unfolding pool_inv_def by blast
  let ?s = "record_event (Executed w) (set_pc t (Ran w slow) s)"
  have w: "is_request w" "loc w = AtThread t"
  proof -
    have b: "busy s t w" using assms(2) by (auto simp: busy_def)
    then show "is_request w" using located_other(5) [OF placedD(2) [OF p(2)]] by blast
    then show "loc w = AtThread t" using located_request(5) [OF placedD(2) [OF p(2)]] b by blast
  qed
  have only: "u = t" if "pcs s u = Ran w sl" for u sl
    using located_request(5) [OF placedD(2) [OF p(2)] w(1), of u] w(2) that by (auto simp: busy_def)
  have c: "consistent (loc v) (phase_of (events s) v) (work s v) (pcs s) v" for v using p(3) by (simp add: requests_inv_def)
  have ph: "phase_of (events s) w = Pending" using c [of w] w(2) assms(2) by simp
  show ?thesis
  proof (rule pool_invI [of _ loc xs ys zs us])
    show "threads_inv ?s" by (rule thread_moves [OF p(1), of t _ "Ran w slow"]) (use assms(2) in \<open>auto simp: idle_pc_def\<close>)
    show "wakeful ?s" by (rule not_all_waiting [of _ t]) simp_all
    show "placed ?s loc xs ys zs us"
      using p(2) placed_cong [of ?s s loc xs ys zs us] assms(2) by (auto simp: busy_def)
    have "consistent (loc v) (phase_of (events ?s) v) (work ?s v) (pcs ?s) v" for v
    proof (cases "v = w")
      case True
      then show ?thesis using c [of w] w(2) by (auto simp: w)
    next
      case False
      then have "consistent (loc v) (phase_of (events s) v) (work s v) ((pcs s)(t := Ran w slow)) v"
        using c [of v] assms(2) by (cases "loc v") auto
      then show ?thesis using False by simp
    qed
    then show "requests_inv ?s loc" using p(3) ph by (simp add: requests_inv_def counted_reqs_def)
  qed (use p(4) in blast)
qed

lemma inv_post:
  assumes "pool_inv s" "pcs s t = Ran w slow"
  shows "pool_inv (worker_post t w slow s)"
proof -
  obtain loc xs ys zs us where p: "threads_inv s" "placed s loc xs ys zs us" "requests_inv s loc" "ys \<noteq> [] \<longrightarrow> run_slow_work_message \<in> set xs"
    using assms(1) unfolding pool_inv_def by blast
  let ?s = "worker_post t w slow s"
  note lo = placedD(2) [OF p(2)]
  have b: "busy s t w" using assms(2) by (auto simp: busy_def)
  have w: "is_request w" using located_other(5) [OF lo] b by blast
  have l: "loc w = AtThread t" using located_request(5) [OF lo w] b by blast
  have only: "u = t" if "busy s u w" for u using located_request(5) [OF lo w, of u] l that by simp
  have bs: "busy ?s u v \<longleftrightarrow> busy s u v \<and> v \<noteq> w" for u v
    using only [of u] assms(2) by (cases "u = t") (auto simp: busy_def worker_post_def Let_def)
  have c: "consistent (loc v) (phase_of (events s) v) (work s v) (pcs s) v" for v using p(3) by (simp add: requests_inv_def)
  have ph: "phase_of (events s) w = HasRun" using c [of w] l assms(2) by auto
  show ?thesis
  proof (rule pool_invI [of _ "loc(w := InLoop)" xs ys "zs @ [w]" us])
    show "threads_inv ?s"
      by (rule thread_moves [OF p(1), of t _ "Posted slow"]) (use assms(2) in \<open>auto simp: idle_pc_def worker_post_def Let_def\<close>)
    show "wakeful ?s" by (rule not_all_waiting [of _ t]) (simp_all add: worker_post_def Let_def)
    show "placed ?s (loc(w := InLoop)) xs ys (zs @ [w]) us"
      by (rule request_to_loop(1) [OF p(2) _ _ _ l]) (use bs in \<open>auto simp: worker_post_def Let_def\<close>)
    have "consistent ((loc(w := InLoop)) v) (phase_of (events ?s) v) (work ?s v) (pcs ?s) v" for v
    proof (cases "v = w")
      case True
      then show ?thesis using ph by (simp add: worker_post_def Let_def)
    next
      case False
      then have "consistent (loc v) (phase_of (events s) v) (work s v) ((pcs s)(t := Posted slow)) v"
        using c [of v] assms(2) by (cases "loc v") auto
      then show ?thesis using False by (simp add: worker_post_def Let_def)
    qed
    moreover have "counted_reqs ?s (loc(w := InLoop)) = counted_reqs s loc"
      using l by (auto simp: counted_reqs_def worker_post_def Let_def)
    ultimately show "requests_inv ?s (loc(w := InLoop))"
      using p(3) by (simp add: requests_inv_def) (simp add: worker_post_def Let_def)
  qed (use p(4) in blast)
qed

lemma requests_taken:
  assumes "requests_inv s loc" "loc q = InWq \<or> loc q = InSlow" "pcs s t = AtTop" "pcs s' = (pcs s)(t := Running q slow)"
    and "events s' = events s" "work s' = work s" "done_with s' = done_with s" "active_reqs s' = active_reqs s"
  shows "requests_inv s' (loc(q := AtThread t))"
proof -
  have c: "consistent (loc v) (phase_of (events s) v) (work s v) (pcs s) v" for v using assms(1) by (simp add: requests_inv_def)
  have "consistent ((loc(q := AtThread t)) v) (phase_of (events s') v) (work s' v) (pcs s') v" for v
  proof (cases "v = q")
    case True
    then show ?thesis using c [of q] assms(2,4-6) by auto
  next
    case False
    have "consistent (loc v) (phase_of (events s) v) (work s v) ((pcs s)(t := Running q slow)) v"
      using c [of v] consistent_cong [of "(pcs s)(t := Running q slow)" v "pcs s"] assms(3) by simp
    then show ?thesis using False assms(4-6) by simp
  qed
  moreover have "counted_reqs s' (loc(q := AtThread t)) = counted_reqs s loc"
    using assms(2,7) by (auto simp: counted_reqs_def)
  ultimately show ?thesis using assms(1,5,8) by (simp add: requests_inv_def)
qed

text \<open>A worker that takes the message for slow work while slow work may be run.\<close>

lemma inv_take_slow:
  assumes "threads_inv s" "placed s loc (run_slow_work_message # xs) (q # ys) zs us" "requests_inv s loc" "pcs s t = AtTop"
    and "slow_io_work_running s < slow_work_thread_threshold s" "worker_take t s = (sig, s')"
  shows "threads_inv s' \<and> (\<exists>loc' xs'. placed s' loc' xs' ys zs us \<and> requests_inv s' loc' \<and> (ys \<noteq> [] \<longrightarrow> run_slow_work_message \<in> set xs'))
    \<and> pcs s' t = Running q True"
proof -
  note p = placedD [OF assms(2)]
  let ?m = "QUEUE_INIT run_slow_work_message (QUEUE_REMOVE run_slow_work_message (links s))"
  let ?s1 = "s\<lparr>links := ?m\<rparr>"
  have h: "QUEUE_HEAD wq (links s) = run_slow_work_message"
    using uvq.head_law [OF p(1), of wq] by (simp add: QUEUE_HEAD_def QUEUE_NEXT_def)
  have 1: "placed ?s1 loc xs (q # ys) zs us"
    by (rule message_out [OF assms(2)]) (simp_all add: same_def busy_def)
  note q1 = placedD(1) [OF 1]
  have e: "\<not> QUEUE_EMPTY slow_io_pending_wq ?m" using uvq.empty_law [OF q1, of slow_io_pending_wq "q # ys"] by simp
  have hq: "QUEUE_HEAD slow_io_pending_wq ?m = q"
    using uvq.head_law [OF q1, of slow_io_pending_wq q ys] by (simp add: QUEUE_HEAD_def QUEUE_NEXT_def)
  let ?m2 = "QUEUE_INIT q (QUEUE_REMOVE q ?m)"
  let ?s2 = "set_pc t (Running q True) (s\<lparr>slow_io_work_running := slow_io_work_running s + 1, links := ?m2, owner := None\<rparr>)"
  have b: "busy ?s2 u w \<longleftrightarrow> busy s u w \<or> u = t \<and> w = q" for u w using assms(4) by (auto simp: busy_def)
  have 2: "placed ?s2 (loc(q := AtThread t)) xs ys zs us"
    by (rule take_slow(2) [OF 1]) (use b in \<open>auto simp: same_def busy_def\<close>)
  have rq: "is_request q" by (rule take_slow(1) [OF 1, of ?s2 t]) (use b in \<open>auto simp: same_def busy_def\<close>)
  have l: "loc q = InSlow" using located_request(2) [OF p(2) rq] by simp
  have t2: "threads_inv ?s2"
    by (rule thread_moves [OF assms(1), of t _ "Running q True"]) (use assms(4,5) in \<open>auto simp: idle_pc_def\<close>)
  have r2: "requests_inv ?s2 (loc(q := AtThread t))"
    by (rule requests_taken [OF assms(3) _ assms(4)]) (use l in auto)
  note q2 = placedD(1) [OF 2]
  have e2: "QUEUE_EMPTY slow_io_pending_wq ?m2 \<longleftrightarrow> ys = []" using uvq.empty_law [OF q2, of slow_io_pending_wq ys] by simp
  have nr: "run_slow_work_message \<notin> set xs" using p(3) by simp
  show ?thesis
  proof (cases "ys = []")
    case True
    then have "s' = ?s2" using assms(5,6) h e hq e2
      by (simp add: worker_take_def Let_def upd_links_def slow_work_thread_threshold_def set_pc_def)
    then show ?thesis using t2 2 r2 True by auto
  next
    case False
    let ?s3 = "set_pc t (Running q True) (s\<lparr>slow_io_work_running := slow_io_work_running s + 1,
      links := QUEUE_INSERT_TAIL wq run_slow_work_message ?m2, owner := None\<rparr>)"
    have s': "s' = ?s3" using assms(5,6) h e hq e2 False
      by (simp add: worker_take_def Let_def upd_links_def slow_work_thread_threshold_def set_pc_def)
    have "placed ?s3 (loc(q := AtThread t)) (xs @ [run_slow_work_message]) ys zs us"
      by (rule message_in [OF 2 nr]) (simp_all add: same_def busy_def)
    moreover have "threads_inv ?s3" using t2 by (simp add: threads_inv_def slow_work_thread_threshold_def)
    moreover have "requests_inv ?s3 (loc(q := AtThread t))" by (rule requests_cong [OF r2]) simp_all
    moreover have "run_slow_work_message \<in> set (xs @ [run_slow_work_message])" by simp
    moreover have "pcs ?s3 t = Running q True" by simp
    ultimately show ?thesis unfolding s' by blast
  qed
qed

lemma no_idle: "threads_inv s \<Longrightarrow> idle_threads s = 0 \<Longrightarrow> pcs s t \<noteq> Waiting"
proof -
  assume a: "threads_inv s" "idle_threads s = 0"
  then have g: "\<forall>u\<ge>nthreads s. pcs s u = Gone" and c: "card {u. idle_pc (pcs s u)} = 0" by (simp_all add: threads_inv_def)
  have n: "\<not> idle_pc Gone" by (simp add: idle_pc_def)
  show "pcs s t \<noteq> Waiting"
    using card_pc(2) [where P = idle_pc and ps = "pcs s" and t = t, OF g n] c by (auto simp: idle_pc_def)
qed

text \<open>A signal, or an idle count of zero, makes up for work that is added.\<close>

lemma wake_inv:
  assumes "wake sig s s'" "threads_inv s" "placed s loc xs ys zs us" "requests_inv s loc" "ys \<noteq> [] \<Longrightarrow> run_slow_work_message \<in> set xs"
    and "sig \<or> wakeful s"
  shows "pool_inv s'"
proof -
  have "wakeful s'" using wake_keeps(4,5) [OF assms(1,2)] assms(6) by metis
  then show ?thesis
    using wake_keeps(1-3) [OF assms(1,2)] assms(3-5) by (intro pool_invI [of _ loc xs ys zs us]) auto
qed

lemma inv_take:
  assumes "pool_inv s" "pcs s t = AtTop" "\<not> must_wait s" "worker_take t s = (sig, s')" "wake sig s' s''"
  shows "pool_inv s''"
proof -
  obtain loc xs ys zs us where p: "threads_inv s" "placed s loc xs ys zs us" "requests_inv s loc" "ys \<noteq> [] \<longrightarrow> run_slow_work_message \<in> set xs"
    using assms(1) unfolding pool_inv_def by blast
  note pl = placedD [OF p(2)]
  obtain q as where xs: "xs = q # as" using must_wait_iff [OF p(2)] assms(3) by (cases xs) auto
  have hd: "QUEUE_HEAD wq (links s) = q"
    using uvq.head_law [OF pl(1), of wq] xs by (simp add: QUEUE_HEAD_def QUEUE_NEXT_def)
  have q: "q = exit_message \<or> q = run_slow_work_message \<or> is_request q"
    using located_other(7) [OF pl(2), of q] xs by auto
  let ?m = "QUEUE_INIT q (QUEUE_REMOVE q (links s))"
  consider (exit) "q = exit_message" | (message) "q = run_slow_work_message" | (request) "is_request q" using q by blast
  then show ?thesis
  proof cases
    case exit
    let ?s = "set_pc t Gone (s\<lparr>owner := None\<rparr>)"
    have s': "s' = ?s" "sig" using assms(4) hd exit by (simp_all add: worker_take_def)
    have t: "threads_inv ?s" by (rule thread_moves [OF p(1), of t _ Gone]) (use assms(2) in \<open>auto simp: idle_pc_def\<close>)
    have "placed ?s loc xs ys zs us" using p(2) placed_cong [of ?s s loc xs ys zs us] assms(2) by (auto simp: busy_def)
    moreover have "requests_inv ?s loc" by (rule requests_cong [OF p(3)]) (use assms(2) in auto)
    ultimately show ?thesis using wake_inv [OF assms(5)] t p(4) s' by blast
  next
    case request
    then have nq: "q \<noteq> exit_message" "q \<noteq> run_slow_work_message" by (auto simp: is_request_def)
    let ?s = "set_pc t (Running q False) (s\<lparr>links := ?m, owner := None\<rparr>)"
    have s': "s' = ?s" using assms(4) hd nq by (simp add: worker_take_def Let_def upd_links_def)
    have t: "threads_inv ?s" by (rule thread_moves [OF p(1), of t _ "Running q False"]) (use assms(2) in \<open>auto simp: idle_pc_def\<close>)
    have "placed ?s (loc(q := AtThread t)) as ys zs us"
      by (rule take_wq [OF p(2) [unfolded xs] request]) (use assms(2) in \<open>auto simp: same_def busy_def\<close>)
    moreover have "requests_inv ?s (loc(q := AtThread t))"
      by (rule requests_taken [OF p(3) _ assms(2)]) (use located_request(1) [OF pl(2) request] xs in auto)
    moreover have "wakeful ?s" by (rule not_all_waiting [of _ t]) simp_all
    moreover have "ys \<noteq> [] \<Longrightarrow> run_slow_work_message \<in> set as" using p(4) xs nq by auto
    ultimately show ?thesis using wake_inv [OF assms(5)] t s' by blast
  next
    case message
    have placed_1: "placed (s\<lparr>links := ?m\<rparr>) loc as ys zs us"
      by (rule message_out [of s]) (use p(2) xs message in \<open>simp_all add: same_def busy_def\<close>)
    have awake: "wakeful r" if "pcs r t = AtTop" for r using not_all_waiting [of r t] that by simp
    consider (full) "slow_work_thread_threshold s \<le> slow_io_work_running s"
      | (none) "slow_io_work_running s < slow_work_thread_threshold s" "ys = []"
      | (some) y bs where "slow_io_work_running s < slow_work_thread_threshold s" "ys = y # bs"
      by (cases ys) (auto simp: not_le [symmetric])
    then show ?thesis
    proof cases
      case full
      let ?s = "s\<lparr>links := QUEUE_INSERT_TAIL wq run_slow_work_message ?m\<rparr>"
      have s': "s' = ?s" using assms(4) hd message full
        by (simp add: worker_take_def Let_def upd_links_def slow_work_thread_threshold_def)
      have "placed ?s loc (as @ [run_slow_work_message]) ys zs us"
        by (rule message_in [OF placed_1]) (use pl(3) xs message in \<open>simp_all add: same_def busy_def\<close>)
      moreover have "threads_inv ?s" using p(1) by (simp add: threads_inv_def slow_work_thread_threshold_def)
      moreover have "requests_inv ?s loc" by (rule requests_cong [OF p(3)]) simp_all
      moreover have "wakeful ?s" using awake assms(2) by simp
      ultimately show ?thesis using wake_inv [OF assms(5), of loc "as @ [run_slow_work_message]"] s' by simp
    next
      case none
      let ?s = "s\<lparr>links := ?m\<rparr>"
      have "QUEUE_EMPTY slow_io_pending_wq ?m" using uvq.empty_law [OF placedD(1) [OF placed_1], of slow_io_pending_wq ys] none by simp
      then have s': "s' = ?s" using assms(4) hd message none
        by (simp add: worker_take_def Let_def upd_links_def slow_work_thread_threshold_def)
      have "threads_inv ?s" using p(1) by (simp add: threads_inv_def slow_work_thread_threshold_def)
      moreover have "requests_inv ?s loc" by (rule requests_cong [OF p(3)]) simp_all
      moreover have "wakeful ?s" using awake assms(2) by simp
      ultimately show ?thesis using wake_inv [OF assms(5), of loc as ys] s' placed_1 none by simp
    next
      case some
      have "placed s loc (run_slow_work_message # as) (y # bs) zs us" using p(2) xs message some by simp
      from inv_take_slow [OF p(1) this p(3) assms(2) some(1) assms(4)] obtain loc' xs' where
        "threads_inv s'" "placed s' loc' xs' bs zs us" "requests_inv s' loc'" "bs \<noteq> [] \<longrightarrow> run_slow_work_message \<in> set xs'" "pcs s' t = Running y True"
        by blast
      moreover from this have "wakeful s'" using not_all_waiting [of s' t] by simp
      ultimately show ?thesis using wake_inv [OF assms(5)] by blast
    qed
  qed
qed

section \<open>Clients\<close>

lemma wake_event: "wake sig s s' \<Longrightarrow> wake sig (record_event e s) (record_event e s')"
proof (induction rule: wake.induct)
  case (somebody s t)
  have "record_event e (set_pc t Woken s) = set_pc t Woken (record_event e s)" by (simp add: record_event_def set_pc_def)
  then show ?case using wake.somebody [of "record_event e s" t] somebody by simp
qed (auto intro: wake.intros)

lemma requests_submitted:
  assumes "requests_inv s loc" "loc w = Nowhere" "pl = InWq \<or> pl = InSlow" "pcs s' = pcs s"
    and "events s' = events s @ [Submitted w]" "work s' = (work s)(w := Work f)" "done_with s' = (done_with s)(w := d)"
    and "active_reqs s' = active_reqs s + (if d = QueueDone then 1 else 0)"
  shows "requests_inv s' (loc(w := pl))"
proof -
  have c: "consistent (loc v) (phase_of (events s) v) (work s v) (pcs s) v" for v using assms(1) by (simp add: requests_inv_def)
  have ph: "phase_of (events s) w = Free" using c [of w] assms(2) by simp
  have "consistent ((loc(w := pl)) v) (phase_of (events s') v) (work s' v) (pcs s') v" for v
    using c [of v] assms(3-6) by (cases "v = w") auto
  moreover have "counted_reqs s' (loc(w := pl)) = (if d = QueueDone then insert w (counted_reqs s loc) else counted_reqs s loc)"
    using assms(2,3,7) by (auto simp: counted_reqs_def)
  moreover have "w \<notin> counted_reqs s loc" using assms(2) by (simp add: counted_reqs_def)
  ultimately show ?thesis using assms(1,5,8) ph by (auto simp: requests_inv_def)
qed

lemma inv_submit:
  assumes "pool_inv s" "cancelling s = None" "is_request w" "phase_of (events s) w = Free"
    and "s1 = s\<lparr>active_reqs := active_reqs s + (if d = QueueDone then 1 else 0)\<rparr>"
    and "uv__work_submit w kind f d s1 = (sig, s')" "wake sig s' s''"
  shows "pool_inv (record_event (Submitted w) s'')"
proof -
  obtain loc xs ys zs us where p: "threads_inv s" "placed s loc xs ys zs us" "requests_inv s loc" "ys \<noteq> [] \<longrightarrow> run_slow_work_message \<in> set xs"
    using assms(1) unfolding pool_inv_def by blast
  note pl = placedD [OF p(2)]
  have wk: "wakeful s" using assms(1) by (simp add: pool_inv_def)
  have wake: "wake sig (record_event (Submitted w) s') (record_event (Submitted w) s'')" using wake_event [OF assms(7)] .
  have l: "loc w = Nowhere"
  proof -
    have "consistent (loc w) (phase_of (events s) w) (work s w) (pcs s) w" using p(3) by (simp add: requests_inv_def)
    then show ?thesis using assms(4) by (cases "loc w") (auto split: if_splits)
  qed
  let ?base = "s\<lparr>active_reqs := active_reqs s + (if d = QueueDone then 1 else 0), work := (work s)(w := Work f), done_with := (done_with s)(w := d)\<rparr>"
  let ?with = "\<lambda>m. record_event (Submitted w) (?base\<lparr>links := m\<rparr>)"
  have th: "threads_inv (?with m)" for m using p(1) by (simp add: threads_inv_def slow_work_thread_threshold_def)
  have idle: "wakeful (?with m)" if "idle_threads s = 0" for m
    using no_idle [OF p(1) that] by (simp add: wakeful_def)
  have rq: "requests_inv (?with m) (loc(w := P))" if "P = InWq \<or> P = InSlow" for m P
    by (rule requests_submitted [OF p(3) l that]) simp_all
  show ?thesis
  proof (cases "kind = UV__WORK_SLOW_IO")
    case False
    let ?m = "QUEUE_INSERT_TAIL wq w (links s)"
    have s': "sig \<longleftrightarrow> 0 < idle_threads s" "record_event (Submitted w) s' = ?with ?m"
      using assms(5,6) False by (simp_all add: uv__work_submit_def post_def upd_links_def)
    have "placed (?with ?m) (loc(w := InWq)) (xs @ [w]) ys zs us"
      by (rule request_in(1) [OF p(2) assms(3) l]) (simp_all add: same_def busy_def)
    moreover have "sig \<or> wakeful (?with ?m)" using s'(1) idle [of ?m] by auto
    ultimately show ?thesis using wake_inv [OF wake] th [of ?m] rq [of InWq ?m] p(4) s'(2) by auto
  next
    case True
    let ?m = "QUEUE_INSERT_TAIL slow_io_pending_wq w (links s)"
    have pm: "placed (?with ?m) (loc(w := InSlow)) xs (ys @ [w]) zs us"
      by (rule request_in(2) [OF p(2) assms(3) l]) (simp_all add: same_def busy_def)
    note q1 = placedD(1) [OF pm]
    show ?thesis
    proof (cases "run_slow_work_message \<in> set xs")
      case scheduled: True
      have "\<not> QUEUE_EMPTY run_slow_work_message ?m" using uvq.member_law [OF q1, of wq xs] scheduled by simp
      then have s': "\<not> sig" "record_event (Submitted w) s' = ?with ?m"
        using assms(5,6) True by (simp_all add: uv__work_submit_def post_def upd_links_def)
      have "wakeful (?with ?m)"
        using wk must_wait_iff [OF p(2)] must_wait_iff [OF pm] by (simp add: wakeful_def slow_work_thread_threshold_def)
      then show ?thesis using wake_inv [OF wake] th [of ?m] rq [of InSlow ?m] scheduled pm s'(2) by auto
    next
      case unscheduled: False
      have e: "QUEUE_EMPTY run_slow_work_message ?m" using uvq.empty_law [OF q1, of run_slow_work_message "[]"] unscheduled by simp
      let ?n = "QUEUE_INSERT_TAIL wq run_slow_work_message ?m"
      have s': "sig \<longleftrightarrow> 0 < idle_threads s" "record_event (Submitted w) s' = ?with ?n"
        using assms(5,6) True e by (simp_all add: uv__work_submit_def post_def upd_links_def)
      have "placed (?with ?n) (loc(w := InSlow)) (xs @ [run_slow_work_message]) (ys @ [w]) zs us"
        by (rule message_in [OF pm unscheduled]) (simp_all add: same_def busy_def)
      moreover have "sig \<or> wakeful (?with ?n)" using s'(1) idle [of ?n] by auto
      ultimately show ?thesis using wake_inv [OF wake] th [of ?n] rq [of InSlow ?n] s'(2) by auto
    qed
  qed
qed

lemma requests_moved:
  assumes "requests_inv s loc" "pcs s' = pcs s" "events s' = events s" "done_with s' = done_with s" "active_reqs s' = active_reqs s"
    and "\<And>v. loc' v = Nowhere \<longleftrightarrow> loc v = Nowhere"
    and "\<And>v. consistent (loc v) (phase_of (events s) v) (work s v) (pcs s) v \<Longrightarrow> consistent (loc' v) (phase_of (events s) v) (work s' v) (pcs s) v"
  shows "requests_inv s' loc'"
proof -
  have "counted_reqs s' loc' = counted_reqs s loc" using assms(4,6) by (simp add: counted_reqs_def)
  then show ?thesis using assms by (simp add: requests_inv_def)
qed

lemma inv_cancel:
  assumes "pool_inv s" "cancelling s = None" "is_request w" "phase_of (events s) w \<noteq> Free"
  shows "pool_inv (snd (uv__work_cancel w s))"
proof -
  obtain loc xs ys zs us where p: "threads_inv s" "placed s loc xs ys zs us" "requests_inv s loc" "ys \<noteq> [] \<longrightarrow> run_slow_work_message \<in> set xs"
    using assms(1) unfolding pool_inv_def by blast
  note pl = placedD [OF p(2)]
  have wk: "wakeful s" using assms(1) by (simp add: pool_inv_def)
  have c: "consistent (loc w) (phase_of (events s) w) (work s w) (pcs s) w" using p(3) by (simp add: requests_inv_def)
  have nc: "loc w \<noteq> InCancel" using located_request(6) [OF pl(2) assms(3)] assms(2) by simp
  have nn: "loc w \<noteq> Nowhere" using c assms(4) by auto
  show ?thesis
  proof (cases "\<exists>t. loc w = AtThread t")
    case True
    then have "layout loc xs ys zs (drained s us) w = Some []" using layout_request [OF assms(3)] by simp
    then have "QUEUE_EMPTY w (links s)" using uvq.empty_law [OF pl(1)] by blast
    then show ?thesis using assms(1) by (simp add: uv__work_cancel_def)
  next
    case False
    then have m: "loc w \<in> {InWq, InSlow, InLoop, InLocal}" using nc nn by (cases "loc w") auto
    show ?thesis
    proof (cases "\<not> QUEUE_EMPTY w (links s) \<and> work s w \<noteq> NoWork")
      case nothing: False
      then show ?thesis using assms(1) by (auto simp: uv__work_cancel_def)
    next
      case cancelled: True
      let ?s = "s\<lparr>links := QUEUE_REMOVE w (links s), cancelling := Some w\<rparr>"
      have s: "snd (uv__work_cancel w s) = ?s" using cancelled by (simp add: uv__work_cancel_def upd_links_def)
      have P: "placed ?s (loc(w := InCancel)) (remove1 w xs) (remove1 w ys) (remove1 w zs) (remove1 w us)"
        by (rule request_out [OF p(2) assms(3) m assms(2)]) (simp_all add: busy_def)
      have r: "run_slow_work_message \<in> set (remove1 w xs) \<longleftrightarrow> run_slow_work_message \<in> set xs"
        using assms(3) by (auto simp: in_set_remove1 is_request_def)
      have w: "must_wait ?s" if "must_wait s"
      proof -
        have "w \<notin> set xs" using must_wait_iff [OF p(2)] that assms(3) by (auto simp: is_request_def)
        then show ?thesis
          using that must_wait_iff [OF p(2)] must_wait_iff [OF P] by (simp add: remove1_idem slow_work_thread_threshold_def)
      qed
      show ?thesis unfolding s
      proof (rule pool_invI [OF _ _ P])
        show "threads_inv ?s" using p(1) by (simp add: threads_inv_def slow_work_thread_threshold_def)
        show "wakeful ?s" using wk w by (auto simp: wakeful_def)
        show "requests_inv ?s (loc(w := InCancel))"
        proof (rule requests_moved [OF p(3)])
          fix v
          assume "consistent (loc v) (phase_of (events s) v) (work s v) (pcs s) v"
          then show "consistent ((loc(w := InCancel)) v) (phase_of (events s) v) (work ?s v) (pcs s) v"
            using m cancelled by (cases "v = w") auto
        qed (use m in auto)
        assume "remove1 w ys \<noteq> []"
        then show "run_slow_work_message \<in> set (remove1 w xs)" using p(4) r by auto
      qed
    qed
  qed
qed

lemma inv_uv_cancel:
  assumes "pool_inv s" "cancelling s = None" "is_request w" "phase_of (events s) w \<noteq> Free"
  shows "pool_inv (snd (uv_cancel type w s))"
  using inv_cancel [OF assms] assms(1) by (cases type) (simp_all add: uv_cancel_def)

lemma inv_cancelled:
  assumes "pool_inv s" "cancelling s = Some w"
  shows "pool_inv (cancel_post w s)"
proof -
  obtain loc xs ys zs us where p: "threads_inv s" "placed s loc xs ys zs us" "requests_inv s loc" "ys \<noteq> [] \<longrightarrow> run_slow_work_message \<in> set xs"
    using assms(1) unfolding pool_inv_def by blast
  note pl = placedD [OF p(2)]
  have wk: "wakeful s" using assms(1) by (simp add: pool_inv_def)
  have w: "is_request w" using located_other(6) [OF pl(2), of w] assms(2) by blast
  have l: "loc w = InCancel" using located_request(6) [OF pl(2) w] assms(2) by simp
  let ?s = "cancel_post w s"
  have P: "placed ?s (loc(w := InLoop)) xs ys (zs @ [w]) us"
    by (rule request_to_loop(2) [OF p(2) _ _ _ l]) (simp_all add: cancel_post_def Let_def busy_def)
  show ?thesis
  proof (rule pool_invI [OF _ _ P])
    show "threads_inv ?s" using p(1) by (simp add: threads_inv_def cancel_post_def Let_def slow_work_thread_threshold_def)
    show "wakeful ?s"
      using wk must_wait_iff [OF p(2)] must_wait_iff [OF P]
      by (simp add: wakeful_def cancel_post_def Let_def slow_work_thread_threshold_def)
    show "requests_inv ?s (loc(w := InLoop))"
      by (rule requests_moved [OF p(3)]) (use l in \<open>auto simp: cancel_post_def Let_def\<close>)
  qed (use p(4) in blast)
qed

lemma inv_collect:
  assumes "pool_inv s" "\<not> draining s"
  shows "pool_inv (work_done_collect s)"
proof -
  obtain loc xs ys zs us where p: "threads_inv s" "placed s loc xs ys zs us" "requests_inv s loc" "ys \<noteq> [] \<longrightarrow> run_slow_work_message \<in> set xs"
    using assms(1) unfolding pool_inv_def by blast
  have wk: "wakeful s" using assms(1) by (simp add: pool_inv_def)
  let ?s = "work_done_collect s" and ?loc = "\<lambda>w. if loc w = InLoop then InLocal else loc w"
  have P: "placed ?s ?loc xs ys [] zs"
    by (rule results_collected [OF p(2) assms(2)]) (simp_all add: work_done_collect_def busy_def)
  show ?thesis
  proof (rule pool_invI [OF _ _ P])
    show "threads_inv ?s" using p(1) by (simp add: threads_inv_def work_done_collect_def slow_work_thread_threshold_def)
    show "wakeful ?s"
      using wk must_wait_iff [OF p(2)] must_wait_iff [OF P]
      by (simp add: wakeful_def work_done_collect_def slow_work_thread_threshold_def)
    show "requests_inv ?s ?loc"
      by (rule requests_moved [OF p(3)]) (auto simp: work_done_collect_def)
  qed (use p(4) in blast)
qed

lemma requests_delivered:
  assumes "requests_inv s loc" "loc w = InLocal" "pcs s' = pcs s" "work s' = work s" "done_with s' = done_with s"
    and "events s' = events s @ [Delivered w (if work s w = Cancelled then UV_ECANCELED else 0)]"
    and "active_reqs s' = (if done_with s w = QueueDone then active_reqs s - 1 else active_reqs s)"
  shows "requests_inv s' (loc(w := Nowhere))" "done_with s w = QueueDone \<Longrightarrow> 0 < active_reqs s"
proof -
  have c: "consistent (loc v) (phase_of (events s) v) (work s v) (pcs s) v" for v using assms(1) by (simp add: requests_inv_def)
  have a: "allowed (Delivered w (if work s w = Cancelled then UV_ECANCELED else 0)) (phase_of (events s))"
    using c [of w] assms(2) by auto
  have "consistent ((loc(w := Nowhere)) v) (phase_of (events s') v) (work s' v) (pcs s') v" for v
    using c [of v] assms(3,4,6) by (cases "v = w") auto
  moreover have "counted_reqs s' (loc(w := Nowhere)) = counted_reqs s loc - {w}"
    using assms(5) by (auto simp: counted_reqs_def)
  moreover have "w \<in> counted_reqs s loc \<longleftrightarrow> done_with s w = QueueDone" using assms(2) by (simp add: counted_reqs_def)
  ultimately show "requests_inv s' (loc(w := Nowhere))"
    using assms(1,6,7) a by (auto simp: requests_inv_def card_Diff_singleton_if)
  show "0 < active_reqs s" if "done_with s w = QueueDone"
  proof -
    have "w \<in> counted_reqs s loc" using assms(2) that by (simp add: counted_reqs_def)
    then show ?thesis using assms(1) by (auto simp: requests_inv_def card_gt_0_iff)
  qed
qed

lemma inv_deliver:
  assumes "pool_inv s" "draining s"
  shows "pool_inv (work_done_next s)"
proof -
  obtain loc xs ys zs us where p: "threads_inv s" "placed s loc xs ys zs us" "requests_inv s loc" "ys \<noteq> [] \<longrightarrow> run_slow_work_message \<in> set xs"
    using assms(1) unfolding pool_inv_def by blast
  note pl = placedD [OF p(2)]
  have wk: "wakeful s" using assms(1) by (simp add: pool_inv_def)
  let ?s = "work_done_next s"
  have Q: "layout loc xs ys zs (drained s us) local_wq = Some us" using assms(2) by (simp add: drained_def)
  have e: "QUEUE_EMPTY local_wq (links s) \<longleftrightarrow> us = []" using uvq.empty_law [OF pl(1) Q] .
  show ?thesis
  proof (cases us)
    case Nil
    then have s: "?s = s\<lparr>draining := False\<rparr>" using e by (simp add: work_done_next_def)
    have P: "placed ?s loc xs ys zs []"
      by (rule drained_ends [of s]) (use p(2) Nil s in \<open>simp_all add: busy_def\<close>)
    show ?thesis
    proof (rule pool_invI [OF _ _ P])
      show "threads_inv ?s" using p(1) by (simp add: s threads_inv_def slow_work_thread_threshold_def)
      show "wakeful ?s"
        using wk must_wait_iff [OF p(2)] must_wait_iff [OF P] by (simp add: s wakeful_def slow_work_thread_threshold_def)
      show "requests_inv ?s loc" by (rule requests_cong [OF p(3)]) (simp_all add: s)
    qed (use p(4) in blast)
  next
    case (Cons w as)
    have h: "QUEUE_HEAD local_wq (links s) = w" using uvq.head_law [OF pl(1)] Q Cons by (simp add: QUEUE_HEAD_def QUEUE_NEXT_def)
    let ?err = "if work s w = Cancelled then UV_ECANCELED else 0"
    have f: "links ?s = QUEUE_REMOVE w (links s)" "same ?s s" "pcs ?s = pcs s" "work ?s = work s" "done_with ?s = done_with s"
        "events ?s = events s @ [Delivered w ?err]" "owner ?s = owner s" "nthreads ?s = nthreads s" "idle_threads ?s = idle_threads s"
        "slow_io_work_running ?s = slow_io_work_running s"
        "active_reqs ?s = (if done_with s w = QueueDone then active_reqs s - 1 else active_reqs s)"
      using e h Cons by (simp_all add: work_done_next_def Let_def uv__queue_done_def uv__req_unregister_def same_def)
    have pc: "placed s loc xs ys zs (w # as)" using p(2) Cons by simp
    have w: "is_request w" by (rule result_out(1) [OF pc f(1,2)]) (simp add: busy_def f)
    have P: "placed ?s (loc(w := Nowhere)) xs ys zs as" by (rule result_out(2) [OF pc f(1,2)]) (simp add: busy_def f)
    show ?thesis
    proof (rule pool_invI [OF _ _ P])
      show "threads_inv ?s" using p(1) f by (simp add: threads_inv_def slow_work_thread_threshold_def)
      show "wakeful ?s"
        using wk must_wait_iff [OF p(2)] must_wait_iff [OF P] by (simp add: wakeful_def slow_work_thread_threshold_def f)
      show "requests_inv ?s (loc(w := Nowhere))"
        by (rule requests_delivered(1) [OF p(3)]) (use located_request(4) [OF pl(2) w] Cons f in simp_all)
    qed (use p(4) in blast)
  qed
qed

lemma inv_cleanup:
  assumes "pool_inv s" "\<not> cleaning s" "cleanup s = (sig, s')" "wake sig s' s''"
  shows "pool_inv s''"
proof -
  obtain loc xs ys zs us where p: "threads_inv s" "placed s loc xs ys zs us" "requests_inv s loc" "ys \<noteq> [] \<longrightarrow> run_slow_work_message \<in> set xs"
    using assms(1) unfolding pool_inv_def by blast
  show ?thesis
  proof (cases "nthreads s = 0")
    case True
    then have "sig = False" "s' = s" using assms(3) by (simp_all add: cleanup_def)
    then have "s'' = s" using assms(4) by (auto elim: wake.cases)
    then show ?thesis using assms(1) by simp
  next
    case False
    let ?s = "s\<lparr>cleaning := True, links := QUEUE_INSERT_TAIL wq exit_message (links s)\<rparr>"
    have s': "sig \<longleftrightarrow> 0 < idle_threads s" "s' = ?s" using assms(3) False by (auto simp: cleanup_def post_def upd_links_def)
    have P: "placed ?s loc (xs @ [exit_message]) ys zs us"
      by (rule exit_in [OF p(2) assms(2)]) (simp_all add: busy_def)
    have "threads_inv ?s" using p(1) by (simp add: threads_inv_def slow_work_thread_threshold_def)
    moreover have "requests_inv ?s loc" by (rule requests_cong [OF p(3)]) simp_all
    moreover have "sig \<or> wakeful ?s" using s'(1) no_idle [OF p(1)] by (auto simp: wakeful_def)
    ultimately show ?thesis using wake_inv [OF assms(4)] P p(4) s'(2) by auto
  qed
qed

section \<open>Every step\<close>

lemma inv_pool_step:
  assumes "pool_step s s'" "pool_inv s"
  shows "pool_inv s'"
  using assms(1)
proof cases
  case (worker t)
  then show ?thesis
    using assms(2) inv_lock inv_wait inv_take inv_run inv_post by (cases rule: worker_step.cases) blast+
next
  case client
  then show ?thesis
  proof (cases rule: client_step.cases)
    case (submit w kind f sig s1 s2)
    then show ?thesis using inv_submit [OF assms(2) submit(3-5) _ submit(6,7)] by simp
  next
    case (queue_work w cb sig s1 s2)
    then obtain f where f: "uv__work_submit w UV__WORK_CPU f QueueDone (s\<lparr>active_reqs := active_reqs s + 1\<rparr>) = (sig, s1)"
      by (auto simp: uv_queue_work_def uv__req_register_def split: option.splits)
    then show ?thesis
      using inv_submit [OF assms(2) queue_work(3-5), where d = QueueDone, OF _ f queue_work(7)] queue_work(1) by simp
  next
    case cancelled
    then show ?thesis using inv_cancelled assms(2) by blast
  next
    case cleanup
    then show ?thesis using inv_cleanup assms(2) by blast
  qed (use inv_uv_cancel inv_collect inv_deliver assms(2) in blast)+
next
  case (spurious t)
  have "wake True s s'" using spurious wake.somebody by simp
  then show ?thesis using assms(2) wake_inv unfolding pool_inv_def by blast
qed

lemma inv_pool: "pool_reachable s \<Longrightarrow> pool_inv s"
  by (induction rule: pool_reachable.induct) (auto intro: inv_init inv_pool_step)

end
