(* ===== verification/UvPoolProps.thy ===== *)
theory UvPoolProps
  imports UvPoolInv
begin

text \<open>
  The properties of the thread pool.
\<close>

section \<open>Work is neither lost nor run twice\<close>

lemma phase_place:
  assumes "placed s loc xs ys zs us" "requests_inv s loc"
  shows "{w. phase_of (events s) w \<noteq> Free}
    = {w \<in> set xs. is_request w} \<union> set ys \<union> set zs \<union> set us \<union> {w. \<exists>t. busy s t w} \<union> {w. cancelling s = Some w}"
proof -
  note lo = placedD(2) [OF assms(1)]
  have "phase_of (events s) w \<noteq> Free \<longleftrightarrow> loc w \<noteq> Nowhere" for w
  proof -
    have "consistent (loc w) (phase_of (events s) w) (work s w) (pcs s) w" using assms(2) by (simp add: requests_inv_def)
    then show ?thesis by (cases "loc w") (auto split: if_splits)
  qed
  moreover have "loc w \<noteq> Nowhere \<longleftrightarrow> w \<in> set xs \<and> is_request w \<or> w \<in> set ys \<or> w \<in> set zs \<or> w \<in> set us \<or> (\<exists>t. busy s t w) \<or> cancelling s = Some w" for w
    using located_request [OF lo, of w] located_other [OF lo, of w] by (cases "is_request w"; cases "loc w") auto
  ultimately show ?thesis by blast
qed

lemma places_distinct:
  assumes "placed s loc xs ys zs us"
  shows "distinct (xs @ ys @ zs @ us)"
proof -
  note p = placedD [OF assms]
  have du: "distinct us" using p(6) uvq.distinct_law [OF p(1), of local_wq us] by (auto simp: drained_def)
  have dj: "set as \<inter> set bs = {}"
    if "layout loc xs ys zs (drained s us) g = Some as" "layout loc xs ys zs (drained s us) h = Some bs" "g \<noteq> h" for g h as bs
    using uvq.disjoint_law [OF p(1) that] by auto
  have "set xs \<inter> set ys = {}" "set xs \<inter> set zs = {}" "set ys \<inter> set zs = {}"
    using dj [of wq xs slow_io_pending_wq ys] dj [of wq xs loop_wq zs] dj [of slow_io_pending_wq ys loop_wq zs] by simp_all
  moreover have "set xs \<inter> set us = {}" "set ys \<inter> set us = {}" "set zs \<inter> set us = {}"
    using p(6) dj [of wq xs local_wq us] dj [of slow_io_pending_wq ys local_wq us] dj [of loop_wq zs local_wq us]
    by (cases "us = []"; simp add: drained_def)+
  ultimately show ?thesis using p(3-5) du by auto
qed

text \<open>C8. In every reachable state of the thread pool the events are orderly: a request is submitted only when it is not in use,
  executed at most once and only before it is cancelled, and delivered exactly once, as done if it was executed
  and as cancelled if it was not. No request that is in use is lost: it is in one of the queues, which are well
  linked and share no entry, with a worker, or about to be posted as cancelled. And the loop counts the requests
  of \<open>uv_queue_work\<close> that are in use.\<close>

theorem pool_conserves_work:
  assumes "pool_reachable s"
  shows "orderly (events s) \<and>
    active_reqs s = card {w. phase_of (events s) w \<noteq> Free \<and> done_with s w = QueueDone} \<and>
    (\<exists>xs ys zs us. is_queue (links s) wq xs \<and> is_queue (links s) slow_io_pending_wq ys \<and> is_queue (links s) loop_wq zs \<and>
      (if draining s then is_queue (links s) local_wq us else us = []) \<and> distinct (xs @ ys @ zs @ us) \<and>
      {w. phase_of (events s) w \<noteq> Free}
        = {w \<in> set xs. is_request w} \<union> set ys \<union> set zs \<union> set us \<union> {w. \<exists>t. busy s t w} \<union> {w. cancelling s = Some w})"
proof -
  obtain loc xs ys zs us where p: "placed s loc xs ys zs us" "requests_inv s loc"
    using inv_pool [OF assms] by (auto simp: pool_inv_def)
  note q = placedD(1) [OF p(1)]
  have "phase_of (events s) w \<noteq> Free \<longleftrightarrow> loc w \<noteq> Nowhere" for w
  proof -
    have "consistent (loc w) (phase_of (events s) w) (work s w) (pcs s) w" using p(2) by (simp add: requests_inv_def)
    then show ?thesis by (cases "loc w") (auto split: if_splits)
  qed
  then have "active_reqs s = card {w. phase_of (events s) w \<noteq> Free \<and> done_with s w = QueueDone}"
    using p(2) by (simp add: requests_inv_def counted_reqs_def)
  moreover have "is_queue (links s) wq xs \<and> is_queue (links s) slow_io_pending_wq ys \<and> is_queue (links s) loop_wq zs \<and>
      (if draining s then is_queue (links s) local_wq us else us = [])"
    using queuesD [OF q, of wq xs] queuesD [OF q, of slow_io_pending_wq ys] queuesD [OF q, of loop_wq zs] queuesD [OF q, of local_wq us]
      placedD(6) [OF p(1)] by (auto simp: drained_def)
  moreover have "orderly (events s)" using p(2) by (simp add: requests_inv_def)
  ultimately show ?thesis using phase_place [OF p] places_distinct [OF p(1)] by blast
qed

text \<open>A pool of four threads to which one request has been submitted.\<close>

definition started_pool :: pool where
  "started_pool = init_threads None True \<lparr>qnext = (\<lambda>q. 0), qprev = (\<lambda>q. 0)\<rparr>"

definition pool_with_work :: pool where
  "pool_with_work = record_event (Submitted 6) (snd (uv__work_submit 6 UV__WORK_FAST_IO 99 OtherDone started_pool))"

lemma started_simps: "pcs started_pool t \<noteq> Waiting" "owner started_pool = None" "cancelling started_pool = None" "events started_pool = []"
    "idle_threads started_pool = 0"
  by (simp_all add: started_pool_def init_threads_def)

lemma reach_pool_with_work: "pool_reachable pool_with_work"
proof -
  let ?r = "uv__work_submit 6 UV__WORK_FAST_IO 99 OtherDone started_pool"
  have sig: "fst ?r = False" using started_simps(5) by (simp add: uv__work_submit_def post_def upd_links_def)
  have "client_step started_pool pool_with_work"
    unfolding pool_with_work_def
    by (rule client_step.submit [where kind = UV__WORK_FAST_IO and f = 99 and sig = False and s' = "snd ?r"])
      (use started_simps sig in \<open>auto simp: is_request_def prod_eq_iff intro: wake.quiet\<close>)
  moreover have "pool_reachable started_pool" unfolding started_pool_def by (rule pool_reachable.init)
  ultimately show ?thesis using pool_reachable.step pool_step.client by blast
qed

lemma pool_with_work_simps:
  "events pool_with_work = [Submitted 6]" "owner pool_with_work = None" "cancelling pool_with_work = None" "draining pool_with_work = False"
  "pcs pool_with_work t = (if t < 4 then Starting else Gone)" "nthreads pool_with_work = 4" "slow_io_work_running pool_with_work = 0"
  "\<not> must_wait pool_with_work"
proof -
  have l: "links pool_with_work = QUEUE_INSERT_TAIL wq 6 (links started_pool)"
    by (simp add: pool_with_work_def uv__work_submit_def post_def)
  show "events pool_with_work = [Submitted 6]" "owner pool_with_work = None" "cancelling pool_with_work = None" "draining pool_with_work = False"
    "pcs pool_with_work t = (if t < 4 then Starting else Gone)" "nthreads pool_with_work = 4" "slow_io_work_running pool_with_work = 0"
    by (simp_all add: pool_with_work_def uv__work_submit_def post_def started_pool_def init_threads_def pool_size_def)
  show "\<not> must_wait pool_with_work"
    by (simp add: must_wait_def l started_pool_def init_threads_def queue_ops)
qed

lemma pool_conserves_work_witness:
  "\<exists>xs. is_queue (links pool_with_work) wq xs \<and> 6 \<in> set xs"
proof -
  note s = pool_with_work_simps
  have e: "\<not> busy pool_with_work t 6" for t by (simp add: busy_def s(5))
  have f: "phase_of (events pool_with_work) 6 \<noteq> Free"
    using phase_of_simps(2) [of "[]" "Submitted 6" 6] s(1) by simp
  obtain xs ys zs us where q: "is_queue (links pool_with_work) wq xs" "is_queue (links pool_with_work) slow_io_pending_wq ys"
      "is_queue (links pool_with_work) loop_wq zs" "us = []"
    and eq: "{w. phase_of (events pool_with_work) w \<noteq> Free} = {w \<in> set xs. is_request w} \<union> set ys \<union> set zs \<union> set us
      \<union> {w. \<exists>t. busy pool_with_work t w} \<union> {w. cancelling pool_with_work = Some w}"
    using pool_conserves_work [OF reach_pool_with_work] s(4) by auto
  have "6 \<in> {w. phase_of (events pool_with_work) w \<noteq> Free}" using f by simp
  then have "6 \<in> set xs \<union> set ys \<union> set zs" using e q(4) s(3) unfolding eq by auto
  moreover have "QUEUE_EMPTY slow_io_pending_wq (links pool_with_work)" "QUEUE_EMPTY loop_wq (links pool_with_work)"
    by (simp_all add: pool_with_work_def uv__work_submit_def post_def started_pool_def init_threads_def queue_ops)
  then have "ys = []" "zs = []" using empty_ok [OF q(2)] empty_ok [OF q(3)] by simp_all
  ultimately show ?thesis using q(1) by auto
qed

section \<open>Slow work\<close>

text \<open>C10. The number of slow requests that run is what the counter says, never more than half of the threads, rounded up; a worker
  only ever calls the work function of a request, never \<open>uv__cancelled\<close>, which would abort; and the count of active
  requests is positive when a result of \<open>uv_queue_work\<close> is delivered, as the loop asserts.\<close>

theorem pool_assertions:
  assumes "pool_reachable s"
  shows "slow_io_work_running s = card {t. slow_pc (pcs s t)} \<and> slow_io_work_running s \<le> slow_work_thread_threshold s \<and>
    idle_threads s \<le> nthreads s \<and>
    (\<forall>t w slow. pcs s t = Running w slow \<longrightarrow> (\<exists>f. work s w = Work f)) \<and>
    (draining s \<and> \<not> QUEUE_EMPTY local_wq (links s) \<and> done_with s (QUEUE_HEAD local_wq (links s)) = QueueDone \<longrightarrow> 0 < active_reqs s)"
proof -
  obtain loc xs ys zs us where t: "threads_inv s" and p: "placed s loc xs ys zs us" "requests_inv s loc"
    using inv_pool [OF assms] by (auto simp: pool_inv_def)
  note pl = placedD [OF p(1)]
  have g: "\<forall>u\<ge>nthreads s. pcs s u = Gone" using t by (simp add: threads_inv_def)
  have "{t. idle_pc (pcs s t)} \<subseteq> {..<nthreads s}" using g by (auto simp: idle_pc_def not_less [symmetric])
  then have i: "idle_threads s \<le> nthreads s" using t card_mono [of "{..<nthreads s}"] by (fastforce simp: threads_inv_def)
  have r: "\<exists>f. work s w = Work f" if "pcs s t = Running w slow" for t w slow
  proof -
    have b: "busy s t w" using that by (auto simp: busy_def)
    have "loc w = AtThread t" using located_request(5) [OF pl(2)] located_other(5) [OF pl(2)] b by blast
    then show ?thesis using p(2) consistent.simps(4) unfolding requests_inv_def by metis
  qed
  have a: "0 < active_reqs s" if d: "draining s" "\<not> QUEUE_EMPTY local_wq (links s)" "done_with s (QUEUE_HEAD local_wq (links s)) = QueueDone"
  proof -
    have Q: "layout loc xs ys zs (drained s us) local_wq = Some us" using d(1) by (simp add: drained_def)
    obtain w as where us: "us = w # as" using uvq.empty_law [OF pl(1) Q] d(2) by (cases us) auto
    have h: "QUEUE_HEAD local_wq (links s) = w" using uvq.head_law [OF pl(1)] Q us by (simp add: QUEUE_HEAD_def QUEUE_NEXT_def)
    have "is_request w" using located_other(4) [OF pl(2), of w] us by auto
    then have "loc w = InLocal" using located_request(4) [OF pl(2), of w] us by simp
    then have "w \<in> counted_reqs s loc" using d(3) h by (simp add: counted_reqs_def)
    then show ?thesis using p(2) by (auto simp: requests_inv_def card_gt_0_iff)
  qed
  show ?thesis using t i r a by (auto simp: threads_inv_def)
qed

lemma pool_assertions_witness: "slow_io_work_running pool_with_work \<le> 2"
  using pool_assertions [OF reach_pool_with_work] pool_with_work_simps(6) by (simp add: slow_work_thread_threshold_def)

section \<open>Cancelling\<close>

lemma queued_not_empty:
  assumes "is_queue m h xs" "w \<in> set xs"
  shows "\<not> QUEUE_EMPTY w m"
proof -
  obtain as bs where xs: "xs = as @ w # bs" using split_list [OF assms(2)] by blast
  have "qnext m w = (if bs = [] then h else hd bs)" using assms(1) xs seg_ends [of m w bs h] by (simp add: is_queue_def)
  moreover have "h \<noteq> w" "bs = [] \<or> hd bs \<noteq> w" using assms(1) xs by (cases bs; auto simp: is_queue_def)+
  ultimately show ?thesis by (auto simp: QUEUE_EMPTY_def QUEUE_NEXT_def)
qed

text \<open>C11. A request that is in use can be cancelled exactly as long as no worker has taken it: for a file system, name, address,
  random or work request \<open>uv_cancel\<close> returns 0 if it has not been executed and no worker has it, and
  \<open>UV_EBUSY\<close> otherwise; for a request of any other type it returns \<open>UV_EINVAL\<close> and changes nothing.\<close>

theorem cancel_exact:
  assumes "pool_reachable s" "cancelling s = None" "is_request w" "phase_of (events s) w \<noteq> Free"
  shows "if type \<in> {UV_FS, UV_GETADDRINFO, UV_GETNAMEINFO, UV_RANDOM, UV_WORK}
    then fst (uv_cancel type w s) = (if phase_of (events s) w = Pending \<and> (\<forall>t. \<not> busy s t w) then 0 else UV_EBUSY)
    else uv_cancel type w s = (UV_EINVAL, s)"
proof -
  obtain loc xs ys zs us where p: "placed s loc xs ys zs us" "requests_inv s loc"
    using inv_pool [OF assms(1)] by (auto simp: pool_inv_def)
  note pl = placedD [OF p(1)]
  note at = located_request [OF pl(2) assms(3)]
  have c: "consistent (loc w) (phase_of (events s) w) (work s w) (pcs s) w" using p(2) by (simp add: requests_inv_def)
  have q: "is_queue (links s) wq xs" "is_queue (links s) slow_io_pending_wq ys" "is_queue (links s) loop_wq zs"
    "us \<noteq> [] \<Longrightarrow> is_queue (links s) local_wq us"
    using queuesD [OF pl(1), of wq xs] queuesD [OF pl(1), of slow_io_pending_wq ys] queuesD [OF pl(1), of loop_wq zs]
      queuesD [OF pl(1), of local_wq us] pl(6) by (auto simp: drained_def)
  have "fst (uv__work_cancel w s) = (if phase_of (events s) w = Pending \<and> (\<forall>t. \<not> busy s t w) then 0 else UV_EBUSY)"
  proof (cases "loc w")
    case (AtThread t)
    then have "layout loc xs ys zs (drained s us) w = Some []" using layout_request [OF assms(3)] by simp
    then have "QUEUE_EMPTY w (links s)" using uvq.empty_law [OF pl(1)] by blast
    then show ?thesis using at(5) [of t] AtThread by (auto simp: uv__work_cancel_def)
  next
    case Nowhere
    then show ?thesis using c assms(4) by simp
  next
    case InCancel
    then show ?thesis using at(6) assms(2) by simp
  next
    case InLocal
    then have "\<not> QUEUE_EMPTY w (links s)" using at(4) queued_not_empty [OF q(4)] by fastforce
    then show ?thesis using c InLocal at(5) by (auto simp: uv__work_cancel_def)
  qed (use c at queued_not_empty [OF q(1)] queued_not_empty [OF q(2)] queued_not_empty [OF q(3)] in \<open>auto simp: uv__work_cancel_def\<close>)
  then show ?thesis by (cases type) (simp_all add: uv_cancel_def)
qed

lemma cancel_exact_witness: "fst (uv_cancel UV_WORK 6 pool_with_work) = 0 \<and> uv_cancel UV_WRITE 6 pool_with_work = (UV_EINVAL, pool_with_work)"
proof -
  have "phase_of (events pool_with_work) 6 = Pending" using phase_of_simps(2) [of "[]" "Submitted 6" 6] pool_with_work_simps(1) by simp
  then show ?thesis
    using cancel_exact [OF reach_pool_with_work pool_with_work_simps(3), of 6 UV_WORK] pool_with_work_simps(5)
      cancel_exact [OF reach_pool_with_work pool_with_work_simps(3), of 6 UV_WRITE]
    by (simp add: is_request_def busy_def)
qed

section \<open>Progress\<close>

text \<open>C9. No wakeup is lost and the mutex is never left locked: as long as a thread is left and there is something to do, some worker
  that is not waiting for the condition can take a step.\<close>

theorem pool_progress:
  assumes "pool_reachable s" "\<not> must_wait s" "pcs s u \<noteq> Gone"
  shows "\<exists>t s'. pcs s t \<noteq> Waiting \<and> worker_step t s s'"
proof -
  have t: "threads_inv s" "wakeful s" using inv_pool [OF assms(1)] by (simp_all add: pool_inv_def)
  have o: "owner s = Some v \<longleftrightarrow> pcs s v = AtTop" for v using t(1) by (simp add: threads_inv_def)
  have top: "\<exists>s'. worker_step v s s'" if "pcs s v = AtTop" for v
  proof -
    obtain sig s' where "worker_take v s = (sig, s')" by fastforce
    moreover have "\<exists>s''. wake sig s' s''"
      by (cases sig; cases "\<exists>v. pcs s' v = Waiting") (auto intro: wake.intros)
    ultimately show ?thesis using worker_step.take [OF that assms(2)] by blast
  qed
  obtain v where v: "pcs s v \<noteq> Waiting" "pcs s v \<noteq> Gone" using t(2) assms(2,3) unfolding wakeful_def by blast
  show ?thesis
  proof (cases "owner s")
    case (Some w)
    then show ?thesis using top [of w] o [of w] by (intro exI [of _ w]) auto
  next
    case None
    have "\<exists>s'. worker_step v s s'"
    proof (cases "pcs s v")
      case AtTop
      then show ?thesis using o [of v] None by simp
    qed (use v None worker_step.lock [OF None, of v] worker_step.run [of s v] worker_step.post [of s v] in \<open>auto\<close>)
    then show ?thesis using v(1) by blast
  qed
qed

lemma pool_progress_witness: "\<exists>t s'. worker_step t pool_with_work s'"
  using pool_progress [OF reach_pool_with_work pool_with_work_simps(8), of 0] pool_with_work_simps(5) by auto

end
