(* ===== verification/X509Host.thy ===== *)
theory X509Host
  imports Mem
begin

text \<open>
  The names of a certificate against the name of a host, \<open>crypto/x509v3/v3_utl.c\<close>: the comparisons of a pattern
  from the certificate with a subject, wildcards included, and the test that tells a host name from a decorative
  common name. A string with its length is the list of its bytes; the flags keep their width.
\<close>

abbreviation (input) X509_CHECK_FLAG_NO_WILDCARDS :: "32 word" where "X509_CHECK_FLAG_NO_WILDCARDS \<equiv> 0x2"
abbreviation (input) X509_CHECK_FLAG_NO_PARTIAL_WILDCARDS :: "32 word" where "X509_CHECK_FLAG_NO_PARTIAL_WILDCARDS \<equiv> 0x4"
abbreviation (input) X509_CHECK_FLAG_MULTI_LABEL_WILDCARDS :: "32 word" where "X509_CHECK_FLAG_MULTI_LABEL_WILDCARDS \<equiv> 0x8"
abbreviation (input) X509_CHECK_FLAG_SINGLE_LABEL_SUBDOMAINS :: "32 word" where "X509_CHECK_FLAG_SINGLE_LABEL_SUBDOMAINS \<equiv> 0x10"
abbreviation (input) X509_CHECK_FLAG_NEVER_CHECK_SUBJECT :: "32 word" where "X509_CHECK_FLAG_NEVER_CHECK_SUBJECT \<equiv> 0x20"
abbreviation (input) X509_CHECK_FLAG_DOT_SUBDOMAINS :: "32 word" where "X509_CHECK_FLAG_DOT_SUBDOMAINS \<equiv> 0x8000"

abbreviation (input) hyphen :: byte where "hyphen \<equiv> 45"
abbreviation (input) asterisk :: byte where "asterisk \<equiv> 42"
abbreviation (input) at_sign :: byte where "at_sign \<equiv> 64"

text \<open>The literal \<open>"xn--"\<close>, with its NUL.\<close>

definition xn_prefix :: bytes where
  "xn_prefix = [120, 110, 45, 45, 0]"

section \<open>Comparing names\<close>

text \<open>The loop moves on in the pattern until it is as long as the subject.\<close>

fun skip_loop :: "bytes \<Rightarrow> nat \<Rightarrow> 32 word \<Rightarrow> bytes" where
  "skip_loop [] subject_len flags = []"
| "skip_loop (c # cs) subject_len flags =
     (if subject_len < length (c # cs) \<and> c \<noteq> 0 then
        (if flags AND X509_CHECK_FLAG_SINGLE_LABEL_SUBDOMAINS \<noteq> 0 \<and> c = dot then c # cs
         else skip_loop cs subject_len flags)
      else c # cs)"

definition skip_prefix :: "bytes \<Rightarrow> bytes \<Rightarrow> 32 word \<Rightarrow> bytes" where
  "skip_prefix p subject flags =
     (if flags AND X509_CHECK_FLAG_DOT_SUBDOMAINS = 0 then p
      else (let pattern = skip_loop p (length subject) flags
            in if length pattern = length subject then pattern else p))"

fun nocase_loop :: "bytes \<Rightarrow> bytes \<Rightarrow> bool" where
  "nocase_loop (l # ls) (r # rs) =
     (if l = 0 then False
      else if l \<noteq> r then
        (let l = (if 65 \<le> l \<and> l \<le> 90 then (l - 65) + 97 else l);
             r = (if 65 \<le> r \<and> r \<le> 90 then (r - 65) + 97 else r)
         in if l \<noteq> r then False else nocase_loop ls rs)
      else nocase_loop ls rs)"
| "nocase_loop ls rs = True"

definition equal_nocase :: "bytes \<Rightarrow> bytes \<Rightarrow> 32 word \<Rightarrow> bool" where
  "equal_nocase pattern subject flags =
     (let pattern = skip_prefix pattern subject flags
      in if length pattern \<noteq> length subject then False else nocase_loop pattern subject)"

definition equal_case :: "bytes \<Rightarrow> bytes \<Rightarrow> 32 word \<Rightarrow> bool" where
  "equal_case pattern subject flags =
     (let pattern = skip_prefix pattern subject flags
      in if length pattern \<noteq> length subject then False else pattern = subject)"

text \<open>The loop that looks for the last \<open>@\<close>: \<open>None\<close> where the function returns 0, else the index it stops at.\<close>

fun email_loop :: "bytes \<Rightarrow> bytes \<Rightarrow> nat \<Rightarrow> nat option" where
  "email_loop a b 0 = Some 0"
| "email_loop a b (Suc i) =
     (if a ! i = at_sign \<or> b ! i = at_sign then
        (if \<not> equal_nocase (drop i a) (drop i b) 0 then None else Some i)
      else email_loop a b i)"

definition equal_email :: "bytes \<Rightarrow> bytes \<Rightarrow> 32 word \<Rightarrow> bool" where
  "equal_email a b unused_flags =
     (if length a \<noteq> length b then False
      else (case email_loop a b (length a) of
              None \<Rightarrow> False
            | Some i \<Rightarrow> (let i = (if i = 0 then length a else i) in equal_case (take i a) (take i b) 0)))"

section \<open>Wildcards\<close>

definition wildcard_char :: "bool \<Rightarrow> byte \<Rightarrow> bool" where
  "wildcard_char allow_multi c \<longleftrightarrow>
     48 \<le> c \<and> c \<le> 57 \<or> 65 \<le> c \<and> c \<le> 90 \<or> 97 \<le> c \<and> c \<le> 122 \<or> c = hyphen \<or> allow_multi \<and> c = dot"

text \<open>The suffix is read at its first byte, which the only caller has: a pattern with a star has two dots after it.\<close>

definition wildcard_match :: "bytes \<Rightarrow> bytes \<Rightarrow> bytes \<Rightarrow> 32 word \<Rightarrow> bool" where
  "wildcard_match prefix suffix subject flags =
     (if length subject < length prefix + length suffix then False
      else if \<not> equal_nocase prefix (take (length prefix) subject) flags then False
      else
        (let wildcard_start = length prefix;
             wildcard_end = length subject - length suffix
         in if \<not> equal_nocase (drop wildcard_end subject) suffix flags then False
            else
              (let full_label = (length prefix = 0 \<and> suffix ! 0 = dot);
                   allow_idna = full_label;
                   allow_multi = (full_label \<and> flags AND X509_CHECK_FLAG_MULTI_LABEL_WILDCARDS \<noteq> 0);
                   wild = take (wildcard_end - wildcard_start) (drop wildcard_start subject)
               in if full_label \<and> wildcard_start = wildcard_end then False
                  else if \<not> allow_idna \<and> 4 \<le> length subject \<and> OPENSSL_strncasecmp subject xn_prefix 4 = 0 then False
                  else if wild = [asterisk] then True
                  else list_all (wildcard_char allow_multi) wild)))"

text \<open>The bits of the state of \<open>valid_star\<close>, and its variables.\<close>

abbreviation (input) LABEL_START :: "32 word" where "LABEL_START \<equiv> 1"
abbreviation (input) LABEL_HYPHEN :: "32 word" where "LABEL_HYPHEN \<equiv> 4"
abbreviation (input) LABEL_IDNA :: "32 word" where "LABEL_IDNA \<equiv> 8"

record star_scan =
  star_at :: "nat option"
  label_state :: "32 word"
  dot_count :: nat

definition label_char :: "byte \<Rightarrow> bool" where
  "label_char c \<longleftrightarrow> 97 \<le> c \<and> c \<le> 122 \<or> 65 \<le> c \<and> c \<le> 90 \<or> 48 \<le> c \<and> c \<le> 57"

text \<open>One iteration, on the byte \<open>c\<close> at index \<open>i\<close> with the bytes \<open>cs\<close> after it; \<open>None\<close> where NULL is returned.\<close>

definition star_step :: "32 word \<Rightarrow> nat \<Rightarrow> byte \<Rightarrow> bytes \<Rightarrow> star_scan \<Rightarrow> star_scan option" where
  "star_step flags i c cs st =
     (if c = asterisk then
        (let atstart = (label_state st AND LABEL_START \<noteq> 0);
             atend = (cs = [] \<or> hd cs = dot)
         in if star_at st \<noteq> None \<or> label_state st AND LABEL_IDNA \<noteq> 0 \<or> dot_count st \<noteq> 0 then None
            else if flags AND X509_CHECK_FLAG_NO_PARTIAL_WILDCARDS \<noteq> 0 \<and> (\<not> atstart \<or> \<not> atend) then None
            else if \<not> atstart \<and> \<not> atend then None
            else Some (st\<lparr>star_at := Some i, label_state := label_state st AND NOT LABEL_START\<rparr>))
      else if label_char c then
        (let state0 = (if label_state st AND LABEL_START \<noteq> 0 \<and> 4 \<le> length (c # cs) \<and> OPENSSL_strncasecmp (c # cs) xn_prefix 4 = 0
                       then label_state st OR LABEL_IDNA else label_state st)
         in Some (st\<lparr>label_state := state0 AND NOT (LABEL_HYPHEN OR LABEL_START)\<rparr>))
      else if c = dot then
        (if label_state st AND (LABEL_HYPHEN OR LABEL_START) \<noteq> 0 then None
         else Some (st\<lparr>label_state := LABEL_START, dot_count := dot_count st + 1\<rparr>))
      else if c = hyphen then
        (if label_state st AND LABEL_START \<noteq> 0 then None
         else Some (st\<lparr>label_state := label_state st OR LABEL_HYPHEN\<rparr>))
      else None)"

fun star_loop :: "32 word \<Rightarrow> nat \<Rightarrow> bytes \<Rightarrow> star_scan \<Rightarrow> star_scan option" where
  "star_loop flags i [] st = Some st"
| "star_loop flags i (c # cs) st =
     (case star_step flags i c cs st of None \<Rightarrow> None | Some st \<Rightarrow> star_loop flags (i + 1) cs st)"

definition valid_star :: "bytes \<Rightarrow> 32 word \<Rightarrow> nat option" where
  "valid_star p flags =
     (case star_loop flags 0 p \<lparr>star_at = None, label_state = LABEL_START, dot_count = 0\<rparr> of
        None \<Rightarrow> None
      | Some st \<Rightarrow> (if label_state st AND (LABEL_START OR LABEL_HYPHEN) \<noteq> 0 \<or> dot_count st < 2 then None else star_at st))"

definition equal_wildcard :: "bytes \<Rightarrow> bytes \<Rightarrow> 32 word \<Rightarrow> bool" where
  "equal_wildcard pattern subject flags =
     (case (if \<not> (1 < length subject \<and> subject ! 0 = dot) then valid_star pattern flags else None) of
        None \<Rightarrow> equal_nocase pattern subject flags
      | Some star \<Rightarrow> wildcard_match (take star pattern) (drop (star + 1) pattern) subject flags)"

section \<open>Host names and decorative names\<close>

fun dns_loop :: "bytes \<Rightarrow> nat \<Rightarrow> nat \<Rightarrow> nat \<Rightarrow> bool" where
  "dns_loop [] len i label_start = True"
| "dns_loop (c # cs) len i label_start =
     (if 97 \<le> c \<and> c \<le> 122 \<or> 48 \<le> c \<and> c \<le> 57 \<or> 65 \<le> c \<and> c \<le> 90 \<or> c = hyphen \<and> label_start < i \<or> c = 95 \<or> c = 58
      then dns_loop cs len (i + 1) label_start
      else if c = dot \<and> label_start < i \<and> i < len - 1 then dns_loop cs len (i + 1) (i + 1)
      else False)"

definition x509v3_looks_like_dns_name :: "bytes \<Rightarrow> bool" where
  "x509v3_looks_like_dns_name in0 =
     (let in1 = (if 0 < length in0 \<and> in0 ! (length in0 - 1) = dot then take (length in0 - 1) in0 else in0);
          in2 = (if 2 \<le> length in1 \<and> in1 ! 0 = asterisk \<and> in1 ! 1 = dot then drop 2 in1 else in1)
      in if length in2 = 0 then False else dns_loop in2 (length in2) 0 0)"

end
