(* ===== verification/X509HostSpec.thy ===== *)
theory X509HostSpec
  imports X509Host
begin

text \<open>
  What the comparisons of host names compute: equality up to the case of ASCII letters, the labels of a name, the
  patterns with a star that \<open>valid_star\<close> accepts, and the names that such a pattern matches.
\<close>

section \<open>Letters without their case\<close>

definition lower :: "byte \<Rightarrow> byte" where
  "lower c = (if 65 \<le> c \<and> c \<le> 90 then c + 32 else c)"

lemma unat_lower: "unat (lower c) = (if 65 \<le> unat c \<and> unat c \<le> 90 then unat c + 32 else unat c)"
  by (auto simp: lower_def word_le_nat_alt unat_word_ariths)

lemma lower_eq_iff:
  "unat x < 97 \<or> 122 < unat x \<Longrightarrow> \<not> (65 \<le> unat x \<and> unat x \<le> 90) \<Longrightarrow> lower c = x \<longleftrightarrow> c = x"
  by (auto simp: word_unat_eq_iff unat_lower split: if_splits)

lemma lower_specials [simp]:
  "lower c = 0 \<longleftrightarrow> c = 0" "lower c = 46 \<longleftrightarrow> c = 46" "lower c = 42 \<longleftrightarrow> c = 42" "lower c = 45 \<longleftrightarrow> c = 45"
  by (rule lower_eq_iff; simp)+

lemma lower_specials_sym [simp]: "0 = lower c \<longleftrightarrow> c = 0" "46 = lower c \<longleftrightarrow> c = 46"
  using lower_specials(1,2) [of c] by auto

lemma special_mem:
  assumes "map lower b = map lower c"
  shows "0 \<in> set b \<longleftrightarrow> 0 \<in> set c" "46 \<in> set b \<longleftrightarrow> 46 \<in> set c"
proof -
  have s: "0 \<in> set (map lower l) \<longleftrightarrow> 0 \<in> set l" "46 \<in> set (map lower l) \<longleftrightarrow> 46 \<in> set l" for l
    by (induction l) auto
  show "0 \<in> set b \<longleftrightarrow> 0 \<in> set c" "46 \<in> set b \<longleftrightarrow> 46 \<in> set c"
    using s [of b] s [of c] unfolding assms by simp_all
qed

lemma nocase_loop_iff:
  "length p = length s \<Longrightarrow> nocase_loop p s \<longleftrightarrow> 0 \<notin> set p \<and> map lower p = map lower s"
  by (induction p s rule: nocase_loop.induct) (auto simp: lower_def Let_def)

text \<open>The prefix of an internationalised label, in any case.\<close>

definition idna :: "bytes \<Rightarrow> bool" where
  "idna l \<longleftrightarrow> map lower (take 4 l) = [120, 110, 45, 45]"

lemma sint_byte_eq: "sint (a :: byte) = sint b \<longleftrightarrow> a = b"
  by (metis signed_word_eqI)

lemma tolower_letters:
  "OPENSSL_tolower (sint a) = 120 \<longleftrightarrow> lower a = 120" "OPENSSL_tolower (sint a) = 110 \<longleftrightarrow> lower a = 110"
  "OPENSSL_tolower (sint a) = 45 \<longleftrightarrow> a = 45"
proof -
  have s: "sint a = 120 \<longleftrightarrow> a = 120" "sint a = 88 \<longleftrightarrow> a = 88" "sint a = 110 \<longleftrightarrow> a = 110" "sint a = 78 \<longleftrightarrow> a = 78" "sint a = 45 \<longleftrightarrow> a = 45"
    using sint_byte_eq [of a 120] sint_byte_eq [of a 88] sint_byte_eq [of a 110] sint_byte_eq [of a 78] sint_byte_eq [of a 45] by simp_all
  have l: "lower a = 120 \<longleftrightarrow> a = 120 \<or> a = 88" "lower a = 110 \<longleftrightarrow> a = 110 \<or> a = 78"
    by (auto simp: word_unat_eq_iff unat_lower split: if_splits)
  show "OPENSSL_tolower (sint a) = 120 \<longleftrightarrow> lower a = 120" "OPENSSL_tolower (sint a) = 110 \<longleftrightarrow> lower a = 110"
    "OPENSSL_tolower (sint a) = 45 \<longleftrightarrow> a = 45"
    unfolding l s [symmetric] by (auto simp: OPENSSL_tolower_def)
qed

lemma strncasecmp_step:
  "OPENSSL_strncasecmp (a # as) (b # bs) (Suc n) = 0 \<longleftrightarrow>
     OPENSSL_tolower (sint a) = OPENSSL_tolower (sint b) \<and> (b = 0 \<or> OPENSSL_strncasecmp as bs n = 0)"
  by (auto simp: Let_def OPENSSL_tolower_zero sint_byte_eq_0)

lemma strncasecmp_xn:
  "4 \<le> length l \<and> OPENSSL_strncasecmp l xn_prefix 4 = 0 \<longleftrightarrow> idna l"
proof (cases "4 \<le> length l")
  case True
  then obtain a b c d r where l: "l = a # b # c # d # r"
    by (auto simp: numeral_eq_Suc Suc_le_length_iff)
  have n: "(4 :: nat) = Suc (Suc (Suc (Suc 0)))" by simp
  have t: "OPENSSL_tolower (sint (120 :: byte)) = 120" "OPENSSL_tolower (sint (110 :: byte)) = 110" "OPENSSL_tolower (sint (45 :: byte)) = 45"
    by (simp_all add: OPENSSL_tolower_def)
  show ?thesis
    unfolding l n xn_prefix_def idna_def strncasecmp_step t tolower_letters by simp
next
  case False
  then have "length (map lower (take 4 l)) \<noteq> length [120, 110, 45, 45 :: byte]" by simp
  then show ?thesis using False unfolding idna_def by metis
qed

lemma idna_append_other:
  assumes "lower x \<notin> {120, 110, 45}"
  shows "idna (l @ x # r) \<longleftrightarrow> idna l"
proof -
  have "4 \<le> length l \<or> x \<in> set (take 4 (l @ x # r))"
    by (cases "4 - length l") auto
  moreover have "x \<notin> set (take 4 (l @ x # r))" if "idna (l @ x # r)"
  proof
    assume "x \<in> set (take 4 (l @ x # r))"
    then have "lower x \<in> set (map lower (take 4 (l @ x # r)))" unfolding set_map by (rule imageI)
    then have "lower x \<in> set [120, 110, 45, 45]" using that unfolding idna_def by (simp only:)
    then show False using assms by simp
  qed
  moreover have "4 \<le> length l" if "idna l"
    using arg_cong [OF that [unfolded idna_def], of length] by simp
  ultimately show ?thesis by (auto simp: idna_def)
qed

lemma idna_append_star [simp]: "idna (l @ 42 # r) \<longleftrightarrow> idna l"
  by (rule idna_append_other) (simp add: lower_def)

lemma idna_append_dot [simp]: "idna (l @ 46 # r) \<longleftrightarrow> idna l"
  by (rule idna_append_other) (simp add: lower_def)

lemma idna_Nil [simp]: "\<not> idna []"
  by (simp add: idna_def)

section \<open>Subdomains\<close>

text \<open>With a subject that starts with a dot a longer pattern may be cut, to the length of the subject.\<close>

definition skippable :: "bytes \<Rightarrow> 32 word \<Rightarrow> bool" where
  "skippable pre flags \<longleftrightarrow> 0 \<notin> set pre \<and> (flags AND X509_CHECK_FLAG_SINGLE_LABEL_SUBDOMAINS \<noteq> 0 \<longrightarrow> dot \<notin> set pre)"

lemma skip_loop_short: "length p \<le> n \<Longrightarrow> skip_loop p n flags = p"
  by (cases p) auto

lemma skip_loop_eq:
  "length (skip_loop (pre @ p) (length p) flags) = length p \<longleftrightarrow> skippable pre flags"
  "skippable pre flags \<Longrightarrow> skip_loop (pre @ p) (length p) flags = p"
proof (induction pre)
  case Nil
  { case 1 then show ?case by (simp add: skip_loop_short skippable_def) next
    case 2 then show ?case by (simp add: skip_loop_short) }
next
  case (Cons c cs)
  { case 1 then show ?case using Cons by (auto simp: skippable_def) next
    case 2 then show ?case using Cons by (auto simp: skippable_def) }
qed

lemma equal_nocase_same_length:
  assumes "length p = length s"
  shows "equal_nocase p s flags \<longleftrightarrow> 0 \<notin> set p \<and> map lower p = map lower s"
  using assms by (simp add: equal_nocase_def skip_prefix_def skip_loop_short Let_def nocase_loop_iff)

lemma equal_nocase_iff:
  "equal_nocase p s flags \<longleftrightarrow>
     0 \<notin> set p \<and> (map lower p = map lower s \<or>
       (\<exists>pre suf. p = pre @ suf \<and> flags AND X509_CHECK_FLAG_DOT_SUBDOMAINS \<noteq> 0 \<and> skippable pre flags \<and> map lower suf = map lower s))"
proof (cases "length p \<le> length s")
  case True
  then have "skip_prefix p s flags = p" by (simp add: skip_prefix_def skip_loop_short Let_def)
  moreover have "pre = []" if "p = pre @ suf" "map lower suf = map lower s" for pre suf
    using True arg_cong [OF that(2), of length] that(1) by simp
  ultimately show ?thesis using True equal_nocase_same_length [of p s flags] map_eq_imp_length_eq [of lower p lower s]
    by (auto simp: equal_nocase_def nocase_loop_iff)
next
  case False
  obtain pre suf where p: "p = pre @ suf" "length suf = length s"
    using False by (intro that [of "take (length p - length s) p" "drop (length p - length s) p"]) auto
  have u: "(\<exists>pre suf. p = pre @ suf \<and> D \<and> skippable pre flags \<and> map lower suf = map lower s)
      \<longleftrightarrow> D \<and> skippable pre flags \<and> map lower suf = map lower s" for D
    using p map_eq_imp_length_eq [of lower _ lower s] by (metis append_eq_append_conv)
  have n: "map lower p \<noteq> map lower s" "length p \<noteq> length s" using False by (metis length_map order_refl, simp)
  show ?thesis
  proof (cases "flags AND X509_CHECK_FLAG_DOT_SUBDOMAINS \<noteq> 0 \<and> skippable pre flags")
    case True
    then have "skip_prefix p s flags = suf" using skip_loop_eq(2) [of pre flags suf] p by (simp add: skip_prefix_def Let_def)
    then have "equal_nocase p s flags \<longleftrightarrow> 0 \<notin> set suf \<and> map lower suf = map lower s"
      using p(2) by (simp add: equal_nocase_def nocase_loop_iff)
    moreover have "0 \<notin> set p \<longleftrightarrow> 0 \<notin> set suf" using True p(1) by (simp add: skippable_def)
    ultimately show ?thesis unfolding u using True n by simp
  next
    case no: False
    then have "skip_prefix p s flags = p" using skip_loop_eq(1) [of pre suf flags] p by (auto simp: skip_prefix_def Let_def)
    then show ?thesis unfolding u using no n by (simp add: equal_nocase_def) blast
  qed
qed

section \<open>The labels of a name\<close>

fun labels :: "bytes \<Rightarrow> bytes list" where
  "labels [] = [[]]"
| "labels (c # cs) = (if c = dot then [] # labels cs else (c # hd (labels cs)) # tl (labels cs))"

lemma labels_nonempty [simp]: "labels s \<noteq> []"
  by (cases s) auto

lemma labels_dotfree: "dot \<notin> set s \<Longrightarrow> labels s = [s]"
  by (induction s) auto

lemma labels_append_dot: "labels (a @ 46 # b) = labels a @ labels b"
  by (induction a) auto

lemma labels_append_dotfree: "dot \<notin> set a \<Longrightarrow> labels (a @ b) = (a @ hd (labels b)) # tl (labels b)"
  by (induction a) auto

lemma labels_lower: "labels (map lower s) = map (map lower) (labels s)"
  by (induction s) (auto simp: hd_map map_tl)

lemma hd_labels_dotfree: "dot \<notin> set (hd (labels s))"
  by (induction s) auto

lemma labels_first: "s = hd (labels s) @ concat (map (Cons dot) (tl (labels s)))"
proof (induction s)
  case (Cons c s)
  have "dot # s = concat (map (Cons dot) (labels s))"
    using Cons.IH by (cases "labels s") auto
  then show ?case using Cons.IH by auto
qed simp

lemma labels_inject: "labels s = labels t \<longleftrightarrow> s = t"
  using labels_first [of s] labels_first [of t] by metis

lemma count_dots: "length (labels s) = Suc (count_list s dot)"
  by (induction s) auto

section \<open>The patterns with a star\<close>

definition ldh :: "byte \<Rightarrow> bool" where
  "ldh c \<longleftrightarrow> label_char c \<or> c = hyphen"

lemma ldh_nonzero: "list_all ldh l \<Longrightarrow> 0 \<notin> set l"
  by (induction l) (auto simp: ldh_def label_char_def)

text \<open>What is left of a label, given whether its start is still to come and whether a hyphen comes just before.\<close>

definition label_rest :: "bool \<Rightarrow> bool \<Rightarrow> bytes \<Rightarrow> bool" where
  "label_rest start hyph l \<longleftrightarrow> list_all ldh l \<and> (start \<longrightarrow> l \<noteq> [] \<and> hd l \<noteq> hyphen) \<and> (if l = [] then \<not> hyph else last l \<noteq> hyphen)"

text \<open>A label of a host name: letters, digits and hyphens, with no hyphen at either end.\<close>

definition host_label :: "bytes \<Rightarrow> bool" where
  "host_label l \<longleftrightarrow> l \<noteq> [] \<and> list_all ldh l \<and> hd l \<noteq> hyphen \<and> last l \<noteq> hyphen"

lemma label_rest_start: "label_rest True hyph l \<longleftrightarrow> host_label l"
  by (auto simp: label_rest_def host_label_def)

text \<open>A pattern with its star between \<open>pre\<close> and \<open>rest\<close>: the star is in the first label, at its start or its end,
  no hyphen ends that label, the label is not an internationalised one, and two labels follow at least.\<close>

definition star_pattern :: "32 word \<Rightarrow> bytes \<Rightarrow> bytes \<Rightarrow> bool" where
  "star_pattern flags pre rest \<longleftrightarrow>
     (pre = [] \<or> list_all ldh pre \<and> hd pre \<noteq> hyphen) \<and> \<not> idna pre \<and>
     (pre = [] \<or> hd (labels rest) = []) \<and>
     (flags AND X509_CHECK_FLAG_NO_PARTIAL_WILDCARDS \<noteq> 0 \<longrightarrow> pre = [] \<and> hd (labels rest) = []) \<and>
     label_rest False (pre \<noteq> [] \<and> last pre = hyphen) (hd (labels rest)) \<and>
     list_all host_label (tl (labels rest)) \<and> 3 \<le> length (labels rest)"

text \<open>The bits of the state.\<close>

definition bits :: "bool \<Rightarrow> bool \<Rightarrow> bool \<Rightarrow> 32 word" where
  "bits s h d = (if s then LABEL_START else 0) OR (if h then LABEL_HYPHEN else 0) OR (if d then LABEL_IDNA else 0)"

lemma bits_simps [simp]:
  "bits s h d AND 1 = 0 \<longleftrightarrow> \<not> s" "bits s h d AND 8 = 0 \<longleftrightarrow> \<not> d" "bits s h d AND 5 = 0 \<longleftrightarrow> \<not> s \<and> \<not> h"
  "bits s h d AND NOT 1 = bits False h d" "bits s h d AND NOT 5 = bits False False d"
  "bits s h d AND - 6 = bits False False d" "bits s h d AND - 2 = bits False h d"
  "bits s h d OR 4 = bits s True d" "bits s h d OR 8 = bits s h True"
  by (cases s; cases h; cases d; simp add: bits_def)+

lemma bits_start: "1 = bits True False False"
  by (simp add: bits_def)

lemma char_kinds [simp]: "\<not> label_char 42" "\<not> label_char 46" "\<not> label_char 45" "\<not> ldh 42" "\<not> ldh 46" "ldh 45"
  by (simp_all add: ldh_def label_char_def)

lemma label_char_ldh: "label_char c \<Longrightarrow> ldh c \<and> c \<noteq> 45 \<and> c \<noteq> 46 \<and> c \<noteq> 42"
  by (auto simp: ldh_def)

lemma star_step_eqs:
  assumes "label_state st = bits s h d"
  shows "label_char c \<Longrightarrow> star_step flags i c cs st = Some (st\<lparr>label_state := bits False False (d \<or> s \<and> idna (c # cs))\<rparr>)"
    "star_step flags i 46 cs st = (if s \<or> h then None else Some (st\<lparr>label_state := bits True False False, dot_count := dot_count st + 1\<rparr>))"
    "star_step flags i 45 cs st = (if s then None else Some (st\<lparr>label_state := bits s True d\<rparr>))"
    "star_step flags i 42 cs st =
      (if star_at st \<noteq> None \<or> d \<or> dot_count st \<noteq> 0 \<or> flags AND X509_CHECK_FLAG_NO_PARTIAL_WILDCARDS \<noteq> 0 \<and> (\<not> s \<or> cs \<noteq> [] \<and> hd cs \<noteq> dot)
          \<or> \<not> s \<and> cs \<noteq> [] \<and> hd cs \<noteq> dot then None
       else Some (st\<lparr>star_at := Some i, label_state := bits False h d\<rparr>))"
    "\<not> ldh c \<Longrightarrow> c \<noteq> 42 \<Longrightarrow> c \<noteq> 46 \<Longrightarrow> star_step flags i c cs st = None"
proof -
  assume c: "label_char c"
  have x: "4 \<le> length (c # cs) \<and> OPENSSL_strncasecmp (c # cs) xn_prefix 4 = 0 \<longleftrightarrow> idna (c # cs)" by (rule strncasecmp_xn)
  show "star_step flags i c cs st = Some (st\<lparr>label_state := bits False False (d \<or> s \<and> idna (c # cs))\<rparr>)"
    using c label_char_ldh [OF c] unfolding star_step_def x assms by (auto simp: Let_def)
qed (auto simp: star_step_def Let_def assms ldh_def bits_start [symmetric])

lemma label_rest_Nil: "label_rest s h [] \<longleftrightarrow> \<not> s \<and> \<not> h"
  by (simp add: label_rest_def)

lemma label_rest_Cons: "label_rest s h (c # l) \<longleftrightarrow> ldh c \<and> (s \<longrightarrow> c \<noteq> 45) \<and> label_rest False (c = 45) l"
  by (auto simp: label_rest_def)

lemma list_all_labels: "list_all P (labels s) \<longleftrightarrow> P (hd (labels s)) \<and> list_all P (tl (labels s))"
  by (cases "labels s") auto

text \<open>Once no star may follow, the loop accepts exactly the host labels.\<close>

lemma star_loop_rest:
  assumes "star_at st \<noteq> None \<or> dot_count st \<noteq> 0" "label_state st = bits s h d"
  shows "case star_loop flags i p st of
      None \<Rightarrow> \<not> (label_rest s h (hd (labels p)) \<and> list_all host_label (tl (labels p)))
    | Some st' \<Rightarrow> (label_state st' AND 5 = 0 \<longleftrightarrow> label_rest s h (hd (labels p)) \<and> list_all host_label (tl (labels p)))
        \<and> star_at st' = star_at st \<and> Suc (dot_count st') = dot_count st + length (labels p)"
  using assms
proof (induction p arbitrary: i st s h d)
  case Nil
  then show ?case by (auto simp: label_rest_Nil)
next
  case (Cons c cs)
  note step = star_step_eqs [OF Cons.prems(2)]
  have no_star: "star_step flags i 42 cs st = None" using Cons.prems(1) step(4) by auto
  consider "label_char c" | "c = 46" | "c = 45" | "c = 42" | "\<not> ldh c" "c \<noteq> 42" "c \<noteq> 46" by (auto simp: ldh_def)
  then show ?case
  proof cases
    case 1
    let ?st = "st\<lparr>label_state := bits False False (d \<or> s \<and> idna (c # cs))\<rparr>"
    show ?thesis
      using Cons.IH [of ?st False False "d \<or> s \<and> idna (c # cs)" "i + 1"] Cons.prems 1 label_char_ldh [OF 1] step(1) [OF 1]
      by (auto simp: label_rest_Cons split: option.splits)
  next
    case 2
    let ?st = "st\<lparr>label_state := bits True False False, dot_count := dot_count st + 1\<rparr>"
    show ?thesis
      using Cons.IH [of ?st True False False "i + 1"] 2 step(2)
      by (auto simp: label_rest_Nil label_rest_start list_all_labels [of host_label cs] split: option.splits)
  next
    case 3
    let ?st = "st\<lparr>label_state := bits s True d\<rparr>"
    show ?thesis
      using Cons.IH [of ?st s True d "i + 1"] Cons.prems 3 step(3)
      by (auto simp: label_rest_Cons split: option.splits)
  next
    case 4
    then show ?thesis using no_star by (auto simp: label_rest_Cons)
  next
    case 5
    then show ?thesis using step(5) [OF 5] by (auto simp: label_rest_Cons)
  qed
qed

text \<open>Up to the star.\<close>

lemma star_loop_pre:
  assumes "asterisk \<notin> set pre" "dot \<notin> set pre" "label_state st = bits False h d"
  shows "star_loop flags i (pre @ rest) st =
    (if list_all ldh pre then
       star_loop flags (i + length pre) rest (st\<lparr>label_state := bits False (if pre = [] then h else last pre = hyphen) d\<rparr>)
     else None)"
  using assms
proof (induction pre arbitrary: i st h)
  case Nil
  then show ?case by (simp flip: Nil(3))
next
  case (Cons c cs)
  note step = star_step_eqs [OF Cons.prems(3)]
  consider "label_char c" | "c = 45" | "\<not> ldh c" "c \<noteq> 42" "c \<noteq> 46" using Cons.prems by (auto simp: ldh_def)
  then show ?case
  proof cases
    case 1
    then show ?thesis using Cons.IH [of "st\<lparr>label_state := bits False False d\<rparr>" False "i + 1"] Cons.prems step(1) [OF 1] label_char_ldh [OF 1] by simp
  next
    case 2
    then show ?thesis using Cons.IH [of "st\<lparr>label_state := bits False True d\<rparr>" True "i + 1"] Cons.prems step(3) by simp
  next
    case 3
    then show ?thesis using step(5) [OF 3] by simp
  qed
qed

lemma star_loop_start:
  assumes "asterisk \<notin> set pre" "dot \<notin> set pre" "label_state st = bits True False False" "pre \<noteq> []"
  shows "star_loop flags i (pre @ rest) st =
    (if list_all ldh pre \<and> hd pre \<noteq> hyphen then
       star_loop flags (i + length pre) rest (st\<lparr>label_state := bits False (last pre = hyphen) (idna (pre @ rest))\<rparr>)
     else None)"
proof -
  obtain c cs where p: "pre = c # cs" using assms(4) by (cases pre) auto
  note step = star_step_eqs [OF assms(3)]
  consider "label_char c" | "c = 45" | "\<not> ldh c" "c \<noteq> 42" "c \<noteq> 46" using assms p by (auto simp: ldh_def)
  then show ?thesis
  proof cases
    case 1
    then show ?thesis
      using star_loop_pre [of cs "st\<lparr>label_state := bits False False (idna (c # cs @ rest))\<rparr>" False "idna (c # cs @ rest)" flags "i + 1" rest]
        assms p step(1) [OF 1] label_char_ldh [OF 1] by simp
  next
    case 2
    then show ?thesis using p step(3) by simp
  next
    case 3
    then show ?thesis using p step(5) [OF 3] by simp
  qed
qed

lemma hd_labels_empty: "hd (labels s) = [] \<longleftrightarrow> s = [] \<or> hd s = dot"
  by (cases s) auto

lemma or_1_4: "1 OR 4 = (5 :: 32 word)"
  by simp

lemma star_rest:
  assumes "star_at st = Some k" "label_state st = bits False h d" "dot_count st = 0"
  shows "(case star_loop flags i rest st of
      None \<Rightarrow> None
    | Some st \<Rightarrow> if label_state st AND (1 OR 4) \<noteq> 0 \<or> dot_count st < 2 then None else star_at st)
   = (if label_rest False h (hd (labels rest)) \<and> list_all host_label (tl (labels rest)) \<and> 3 \<le> length (labels rest) then Some k else None)"
  using star_loop_rest [where st = st and s = False and h = h and d = d and flags = flags and i = i and p = rest] assms by (auto simp: or_1_4 split: option.splits)

lemma valid_star_pattern:
  assumes "asterisk \<notin> set pre" "dot \<notin> set pre"
  shows "valid_star (pre @ 42 # rest) flags = (if star_pattern flags pre rest then Some (length pre) else None)"
proof -
  let ?init = "\<lparr>star_at = None, label_state = 1, dot_count = 0\<rparr>"
  have init: "label_state ?init = bits True False False" by (simp add: bits_start)
  show ?thesis
  proof (cases "pre = []")
    case True
    let ?st = "\<lparr>star_at = Some 0, label_state = bits False False False, dot_count = 0\<rparr>"
    show ?thesis
      using True star_step_eqs(4) [OF init, where flags = flags and i = 0 and cs = rest] star_rest [where st = ?st and k = 0 and h = False and d = False and flags = flags and i = 1 and rest = rest]
      by (auto simp: valid_star_def star_pattern_def hd_labels_empty)
  next
    case False
    let ?st = "\<lparr>star_at = None, label_state = bits False (last pre = hyphen) (idna pre), dot_count = 0\<rparr>"
    let ?st' = "\<lparr>star_at = Some (length pre), label_state = bits False (last pre = hyphen) (idna pre), dot_count = 0\<rparr>"
    have s: "label_state ?st = bits False (last pre = hyphen) (idna pre)" by simp
    show ?thesis
      using False star_loop_start [OF assms init False, where flags = flags and i = 0 and rest = "42 # rest"] star_step_eqs(4) [OF s, where flags = flags and i = "length pre" and cs = rest]
        star_rest [where st = ?st' and k = "length pre" and h = "last pre = hyphen" and d = "idna pre" and flags = flags and i = "Suc (length pre)" and rest = rest]
      by (auto simp: valid_star_def star_pattern_def hd_labels_empty)
  qed
qed

lemma valid_star_plain:
  assumes "asterisk \<notin> set pre" "dot \<notin> set pre" "rest = [] \<or> hd rest = dot"
  shows "valid_star (pre @ rest) flags = None"
proof (cases "rest = []")
  let ?init = "\<lparr>star_at = None, label_state = 1, dot_count = 0\<rparr>"
  have init: "label_state ?init = bits True False False" by (simp add: bits_start)
  case True
  then show ?thesis
    using star_loop_start [OF assms(1,2) init, where flags = flags and i = 0 and rest = "[]"] by (cases "pre = []") (auto simp: valid_star_def)
next
  let ?init = "\<lparr>star_at = None, label_state = 1, dot_count = 0\<rparr>"
  have init: "label_state ?init = bits True False False" by (simp add: bits_start)
  case False
  then obtain cs where r: "rest = 46 # cs" using assms(3) by (cases rest) auto
  let ?st = "\<lparr>star_at = None, label_state = bits False (last pre = hyphen) (idna (pre @ rest)), dot_count = 0\<rparr>"
  let ?st' = "\<lparr>star_at = None, label_state = bits True False False, dot_count = 1\<rparr>"
  have s: "label_state ?st = bits False (last pre = hyphen) (idna (pre @ rest))" by simp
  have n: "case star_loop flags i cs ?st' of None \<Rightarrow> True | Some st \<Rightarrow> star_at st = None" for i
    using star_loop_rest [where st = ?st' and s = True and h = False and d = False and flags = flags and i = i and p = cs] by (auto split: option.splits)
  show ?thesis
    using star_loop_start [OF assms(1,2) init, where flags = flags and i = 0 and rest = rest] star_step_eqs(2) [OF s, where flags = flags and i = "length pre" and cs = cs]
      star_step_eqs(2) [OF init, where flags = flags and i = 0 and cs = cs] n [of "Suc (length pre)"] r
    by (cases "pre = []") (auto simp: valid_star_def split: option.splits)
qed

text \<open>Every list is of one of the two shapes, so \<open>valid_star\<close> is characterised.\<close>

lemma star_or_plain:
  obtains (star) pre rest where "p = pre @ 42 # rest" "asterisk \<notin> set pre" "dot \<notin> set pre"
  | (plain) pre rest where "p = pre @ rest" "asterisk \<notin> set pre" "dot \<notin> set pre" "rest = [] \<or> hd rest = dot"
proof -
  let ?q = "\<lambda>c. c \<noteq> 42 \<and> c \<noteq> (46 :: byte)"
  have p: "p = takeWhile ?q p @ dropWhile ?q p" by simp
  have t: "asterisk \<notin> set (takeWhile ?q p)" "dot \<notin> set (takeWhile ?q p)" by (auto dest: set_takeWhileD)
  show thesis
  proof (cases "dropWhile ?q p")
    case Nil
    then have "\<forall>c\<in>set p. ?q c" by (simp add: dropWhile_eq_Nil_conv)
    then show ?thesis using plain [of p "[]"] by auto
  next
    case (Cons c cs)
    then have "c = 42 \<or> c = 46" using hd_dropWhile [of ?q p] by auto
    then show ?thesis using star [of "takeWhile ?q p" cs] plain [of "takeWhile ?q p" "dropWhile ?q p"] p t Cons by auto
  qed
qed

lemma valid_star_iff:
  "valid_star p flags = Some k \<longleftrightarrow>
     (\<exists>pre rest. p = pre @ 42 # rest \<and> k = length pre \<and> asterisk \<notin> set pre \<and> dot \<notin> set pre \<and> star_pattern flags pre rest)"
proof (cases rule: star_or_plain [of p])
  case (star pre rest)
  have "pre' = pre \<and> rest' = rest" if "p = pre' @ 42 # rest'" "asterisk \<notin> set pre'" for pre' rest'
    using that star by (auto simp: append_eq_append_conv2 append_eq_Cons_conv Cons_eq_append_conv)
  then show ?thesis using star valid_star_pattern [OF star(2,3), of rest flags] by auto
next
  case (plain pre rest)
  have "False" if e: "p = pre' @ 42 # rest'" "dot \<notin> set pre'" for pre' rest'
  proof -
    have "42 \<in> set (hd (labels p))" using e labels_append_dotfree [of pre' "42 # rest'"] by simp
    moreover have "hd (labels p) = pre" using plain labels_append_dotfree [OF plain(3), of rest] hd_labels_empty [of rest] by simp
    ultimately show False using plain(2) by simp
  qed
  then show ?thesis using plain valid_star_plain [OF plain(2-4)] by auto
qed

section \<open>The names that a pattern matches\<close>

text \<open>A label is covered by a label with a star between \<open>pre\<close> and \<open>post\<close>: what is left of it between the two, up to
  case, is letters, digits and hyphens, or itself a star; a star alone covers one character at least; and a star
  that is not alone covers no internationalised label.\<close>

definition label_covers :: "bytes \<Rightarrow> bytes \<Rightarrow> bytes \<Rightarrow> bool" where
  "label_covers pre post m \<longleftrightarrow>
     (\<exists>a mid b. m = a @ mid @ b \<and> map lower a = map lower pre \<and> map lower b = map lower post \<and>
        (mid = [asterisk] \<or> list_all ldh mid) \<and> (if pre = [] \<and> post = [] then mid \<noteq> [] else \<not> idna m))"

lemma wildcard_char_single: "wildcard_char False c \<longleftrightarrow> ldh c"
  by (auto simp: wildcard_char_def ldh_def label_char_def)

lemma lower_length: "map lower a = map lower b \<Longrightarrow> length a = length b"
  by (rule map_eq_imp_length_eq)

lemma ex3_only:
  assumes "\<And>a b c. P a b c \<Longrightarrow> a = x \<and> b = y \<and> c = z"
  shows "(\<exists>a b c. P a b c) \<longleftrightarrow> P x y z"
  using assms by blast

lemma guards_as_conjunction:
  "(if \<not> (z \<and> la) then False else if \<not> (zb \<and> lb) then False else if full \<and> nil then False else if \<not> full \<and> x then False
    else if star then True else al)
   \<longleftrightarrow> True \<and> la \<and> lb \<and> z \<and> zb \<and> (if full then \<not> nil else \<not> x) \<and> (star \<or> al)"
  by auto

lemma wildcard_match_iff:
  "wildcard_match prefix suffix s flags \<longleftrightarrow>
     (\<exists>a mid b. s = a @ mid @ b \<and> map lower a = map lower prefix \<and> map lower b = map lower suffix \<and> 0 \<notin> set prefix \<and> 0 \<notin> set b \<and>
       (let full = (prefix = [] \<and> suffix ! 0 = dot)
        in (if full then mid \<noteq> [] else \<not> idna s) \<and>
           (mid = [asterisk] \<or> list_all (wildcard_char (full \<and> flags AND X509_CHECK_FLAG_MULTI_LABEL_WILDCARDS \<noteq> 0)) mid)))"
    (is "_ \<longleftrightarrow> (\<exists>a mid b. ?P a mid b)")
proof (cases "length s < length prefix + length suffix")
  case True
  then have "\<not> ?P a mid b" for a mid b
    using lower_length [of a prefix] lower_length [of b suffix] by auto
  then show ?thesis using True by (simp add: wildcard_match_def)
next
  case False
  let ?e = "length s - length suffix"
  let ?a = "take (length prefix) s" and ?mid = "take (?e - length prefix) (drop (length prefix) s)" and ?b = "drop ?e s"
  have "drop (length prefix) s = ?mid @ ?b"
    using append_take_drop_id [of "?e - length prefix" "drop (length prefix) s"] False by simp
  then have cut: "s = ?a @ ?mid @ ?b" by (metis append_take_drop_id)
  then have c: "(s = ?a @ ?mid @ ?b) = True" by (rule eq_True [THEN iffD2])
  have u: "a = ?a \<and> mid = ?mid \<and> b = ?b" if "?P a mid b" for a mid b
    using that lower_length [of a prefix] lower_length [of b suffix] by auto
  have ex: "(\<exists>a mid b. ?P a mid b) \<longleftrightarrow> ?P ?a ?mid ?b" by (rule ex3_only) (rule u)
  have e: "equal_nocase prefix ?a flags \<longleftrightarrow> 0 \<notin> set prefix \<and> map lower ?a = map lower prefix"
    "equal_nocase ?b suffix flags \<longleftrightarrow> 0 \<notin> set ?b \<and> map lower ?b = map lower suffix"
    using equal_nocase_same_length [of prefix ?a flags] equal_nocase_same_length [of ?b suffix flags] False by auto
  have m: "length prefix = ?e \<longleftrightarrow> ?mid = []" using False by auto
  have x: "4 \<le> length s \<and> OPENSSL_strncasecmp s xn_prefix 4 = 0 \<longleftrightarrow> idna s" by (rule strncasecmp_xn)
  show ?thesis
    unfolding ex unfolding c wildcard_match_def Let_def e x m length_0_conv if_not_P [OF False] by (rule guards_as_conjunction)
qed

lemma labels_cut:
  assumes "tl (labels s) \<noteq> []"
  obtains t where "s = hd (labels s) @ 46 # t" "labels t = tl (labels s)"
proof -
  obtain l ls where ls: "tl (labels s) = l # ls" using assms by (cases "tl (labels s)") auto
  let ?t = "l @ concat (map (Cons dot) ls)"
  have s: "s = hd (labels s) @ 46 # ?t" using labels_first [of s] ls by simp
  have "labels s = labels (hd (labels s)) @ labels ?t" by (subst s) (rule labels_append_dot)
  then have "labels ?t = tl (labels s)" using labels_dotfree [OF hd_labels_dotfree, of s] by (metis append_Cons append_Nil list.sel(3))
  then show thesis using that s by blast
qed

lemma set_labels: "x \<in> set s \<longleftrightarrow> x = dot \<and> tl (labels s) \<noteq> [] \<or> (\<exists>l\<in>set (labels s). x \<in> set l)"
  by (induction s) (auto simp: neq_Nil_conv, (metis labels_nonempty list.collapse list.set_intros set_ConsD)+)

lemma lower_append_dot:
  "map lower b = map lower (p @ 46 # t) \<longleftrightarrow> (\<exists>b0 b1. b = b0 @ 46 # b1 \<and> map lower b0 = map lower p \<and> map lower b1 = map lower t)"
proof
  assume "map lower b = map lower (p @ 46 # t)"
  then obtain b0 c b1 where "b = b0 @ c # b1" "map lower b0 = map lower p" "lower c = lower 46" "map lower b1 = map lower t"
    by (auto simp: map_eq_append_conv map_eq_Cons_conv)
  moreover have "lower 46 = 46" by simp
  ultimately show "\<exists>b0 b1. b = b0 @ 46 # b1 \<and> map lower b0 = map lower p \<and> map lower b1 = map lower t" by auto
qed auto

text \<open>The main fact on wildcards: without the flag for several labels, a pattern with a star matches the names with
  as many labels whose first label the starred label covers and whose other labels are equal up to case.\<close>

lemma star_pattern_rest:
  assumes "star_pattern flags pre rest"
  obtains post tail where "rest = post @ 46 # tail" "dot \<notin> set post" "hd (labels rest) = post" "tl (labels rest) = labels tail" "0 \<notin> set rest"
proof -
  have "tl (labels rest) \<noteq> []" using assms unfolding star_pattern_def by (cases "labels rest") auto
  from labels_cut [OF this] obtain tail where t: "rest = hd (labels rest) @ 46 # tail" "labels tail = tl (labels rest)" .
  have "list_all ldh (hd (labels rest))" "list_all (list_all ldh) (labels tail)"
    using assms t(2) by (auto simp: star_pattern_def label_rest_def host_label_def list_all_iff)
  then have "0 \<notin> set (hd (labels rest))" "\<forall>x\<in>set (labels tail). 0 \<notin> set x"
    by (auto simp: list_all_iff [of "list_all ldh"] dest: ldh_nonzero)
  then have "0 \<notin> set rest" by (subst t(1)) (simp add: set_labels [of 0 tail])
  then show thesis using that [of "hd (labels rest)" tail] t hd_labels_dotfree [of rest] by simp
qed

lemma wildcard_match_labels:
  assumes "star_pattern flags pre rest" "dot \<notin> set pre" "flags AND X509_CHECK_FLAG_MULTI_LABEL_WILDCARDS = 0"
  shows "wildcard_match pre rest s flags \<longleftrightarrow>
    label_covers pre (hd (labels rest)) (hd (labels s)) \<and> map (map lower) (tl (labels s)) = map (map lower) (tl (labels rest))"
proof -
  obtain post tail where r: "rest = post @ 46 # tail" "dot \<notin> set post" "hd (labels rest) = post" "tl (labels rest) = labels tail" "0 \<notin> set rest"
    using star_pattern_rest [OF assms(1)] .
  have nz: "0 \<notin> set pre" using assms(1) by (auto simp: star_pattern_def dest: ldh_nonzero)
  have full: "pre = [] \<and> rest ! 0 = dot \<longleftrightarrow> pre = [] \<and> post = []"
    using r(1,2) by (cases post) auto
  have nz_b: "0 \<notin> set b" if "map lower b = map lower rest" for b using special_mem(1) [OF that] r(5) by simp
  note dots = special_mem(2)
  have "wildcard_match pre rest s flags \<longleftrightarrow>
     (\<exists>a mid b. s = a @ mid @ b \<and> map lower a = map lower pre \<and> map lower b = map lower rest \<and>
        (if pre = [] \<and> post = [] then mid \<noteq> [] else \<not> idna s) \<and> (mid = [asterisk] \<or> list_all ldh mid))"
    unfolding wildcard_match_iff Let_def full using nz nz_b assms(3)
    by (simp add: wildcard_char_single [abs_def] cong: conj_cong)
  also have "\<dots> \<longleftrightarrow> (\<exists>a mid b0 b1. s = a @ mid @ b0 @ 46 # b1 \<and> map lower a = map lower pre \<and> map lower b0 = map lower post \<and>
        map lower b1 = map lower tail \<and> (if pre = [] \<and> post = [] then mid \<noteq> [] else \<not> idna s) \<and> (mid = [asterisk] \<or> list_all ldh mid))"
    unfolding r(1) lower_append_dot by blast
  also have "\<dots> \<longleftrightarrow> label_covers pre post (hd (labels s)) \<and> map (map lower) (tl (labels s)) = map (map lower) (labels tail)"
    (is "?L \<longleftrightarrow> ?R")
  proof
    assume ?L
    then obtain a mid b0 b1 where s: "s = a @ mid @ b0 @ 46 # b1" "map lower a = map lower pre" "map lower b0 = map lower post"
      "map lower b1 = map lower tail" "if pre = [] \<and> post = [] then mid \<noteq> [] else \<not> idna s" "mid = [asterisk] \<or> list_all ldh mid" by blast
    have "dot \<notin> set mid" using s(6) by (auto simp: list_all_iff)
    then have "dot \<notin> set (a @ mid @ b0)" using dots [OF s(2)] dots [OF s(3)] assms(2) r(2) by simp
    then have l: "labels s = (a @ mid @ b0) # labels b1"
      using labels_append_dot [of "a @ mid @ b0" b1] labels_dotfree [of "a @ mid @ b0"] s(1) by simp
    have "idna s \<longleftrightarrow> idna (a @ mid @ b0)" using idna_append_dot [of "a @ mid @ b0" b1] s(1) by simp
    then have "if pre = [] \<and> post = [] then mid \<noteq> [] else \<not> idna (a @ mid @ b0)" using s(5) by argo
    then have "label_covers pre post (a @ mid @ b0)" unfolding label_covers_def using s(2,3,6) by blast
    then have "label_covers pre post (hd (labels s))" using l by simp
    moreover have "map (map lower) (tl (labels s)) = map (map lower) (labels tail)"
      using s(4) by (simp add: l flip: labels_lower)
    ultimately show ?R ..
  next
    assume ?R
    then obtain a mid b0 where c: "hd (labels s) = a @ mid @ b0" "map lower a = map lower pre" "map lower b0 = map lower post"
      "mid = [asterisk] \<or> list_all ldh mid" "if pre = [] \<and> post = [] then mid \<noteq> [] else \<not> idna (a @ mid @ b0)"
      unfolding label_covers_def by metis
    have t: "map (map lower) (tl (labels s)) = map (map lower) (labels tail)" using \<open>?R\<close> ..
    then have "tl (labels s) \<noteq> []" by (metis labels_nonempty map_is_Nil_conv)
    from labels_cut [OF this] obtain b1 where b1: "s = hd (labels s) @ 46 # b1" "labels b1 = tl (labels s)" .
    have low: "map lower b1 = map lower tail" using t b1(2) by (metis labels_inject labels_lower)
    have "idna s \<longleftrightarrow> idna (a @ mid @ b0)" using idna_append_dot [of "a @ mid @ b0" b1] b1(1) unfolding c(1) by simp
    then have n: "if pre = [] \<and> post = [] then mid \<noteq> [] else \<not> idna s" using c(5) by argo
    have s: "s = a @ mid @ b0 @ 46 # b1" using b1(1) unfolding c(1) by simp
    show ?L by (rule exI [of _ a], rule exI [of _ mid], rule exI [of _ b0], rule exI [of _ b1]) (intro conjI s c(2-4) low n)
  qed
  finally show ?thesis using r by simp
qed

lemma equal_wildcard_labels:
  assumes "valid_star p flags = Some k" "flags AND X509_CHECK_FLAG_MULTI_LABEL_WILDCARDS = 0" "\<not> (1 < length s \<and> s ! 0 = dot)"
  shows "equal_wildcard p s flags \<longleftrightarrow>
    label_covers (take k (hd (labels p))) (drop (k + 1) (hd (labels p))) (hd (labels s))
      \<and> map (map lower) (tl (labels s)) = map (map lower) (tl (labels p))"
proof -
  obtain pre rest where p: "p = pre @ 42 # rest" "k = length pre" "dot \<notin> set pre" "star_pattern flags pre rest"
    using assms(1) unfolding valid_star_iff by blast
  have "labels p = (pre @ 42 # hd (labels rest)) # tl (labels rest)"
    using labels_append_dotfree [OF p(3), of "42 # rest"] p(1) by simp
  then show ?thesis
    using assms wildcard_match_labels [OF p(4,3) assms(2), of s] p(1,2) by (simp add: equal_wildcard_def)
qed

end
