(* ===== verification/Asn1Str.thy ===== *)
theory Asn1Str
  imports Unicode
begin

text \<open>
  ASN.1 strings: \<open>ASN1_STRING\<close> of \<open>crypto/asn1/asn1_lib.c\<close>, the copy into the smallest type that can hold the
  text, \<open>crypto/asn1/a_mbstr.c\<close>, and \<open>ASN1_STRING_to_UTF8\<close> of \<open>crypto/asn1/a_strex.c\<close>. A pointer to a buffer is its
  bytes, NULL is \<open>None\<close>; the error queue is left out, an error is the value that is returned.
\<close>

section \<open>Strings\<close>

record asn1_string =
  as_length :: int
  as_type :: int
  as_data :: "bytes option"
  as_flags :: "64 word"

abbreviation (input) V_ASN1_OCTET_STRING :: int where "V_ASN1_OCTET_STRING \<equiv> 4"
abbreviation (input) V_ASN1_UTF8STRING :: int where "V_ASN1_UTF8STRING \<equiv> 12"
abbreviation (input) V_ASN1_PRINTABLESTRING :: int where "V_ASN1_PRINTABLESTRING \<equiv> 19"
abbreviation (input) V_ASN1_T61STRING :: int where "V_ASN1_T61STRING \<equiv> 20"
abbreviation (input) V_ASN1_IA5STRING :: int where "V_ASN1_IA5STRING \<equiv> 22"
abbreviation (input) V_ASN1_UNIVERSALSTRING :: int where "V_ASN1_UNIVERSALSTRING \<equiv> 28"
abbreviation (input) V_ASN1_BMPSTRING :: int where "V_ASN1_BMPSTRING \<equiv> 30"

definition ASN1_STRING_type_new :: "platform_malloc \<Rightarrow> int \<Rightarrow> asn1_string option" where
  "ASN1_STRING_type_new mal type =
     (case OPENSSL_malloc mal 24 of
        None \<Rightarrow> None
      | Some _ \<Rightarrow> Some \<lparr>as_length = 0, as_type = type, as_data = None, as_flags = 0\<rparr>)"

definition ASN1_STRING_new :: "platform_malloc \<Rightarrow> asn1_string option" where
  "ASN1_STRING_new mal = ASN1_STRING_type_new mal V_ASN1_OCTET_STRING"

text \<open>The buffer grows when it is too small for the bytes and a NUL; what is copied comes from \<open>data\<close>.\<close>

definition ASN1_STRING_set :: "platform_malloc \<Rightarrow> asn1_string \<Rightarrow> bytes option \<Rightarrow> int \<Rightarrow> bool \<times> asn1_string" where
  "ASN1_STRING_set mal str data len0 =
     (if len0 < 0 \<and> data = None then (False, str)
      else
        (let len = (if len0 < 0 then int (strlen (the data)) else len0);
             room = (if as_length str \<le> len \<or> as_data str = None then
                       OPENSSL_realloc mal (as_data str) (nat (len + 1))
                     else as_data str)
         in case room of
              None \<Rightarrow> (False, str)
            | Some buf \<Rightarrow>
                (case data of
                   None \<Rightarrow> (True, str\<lparr>as_data := Some buf, as_length := len\<rparr>)
                 | Some d \<Rightarrow> (True, str\<lparr>as_data := Some ((buf_write buf 0 (take (nat len) d))[nat len := 0]), as_length := len\<rparr>))))"

definition ASN1_STRING_set0 :: "asn1_string \<Rightarrow> bytes option \<Rightarrow> int \<Rightarrow> asn1_string" where
  "ASN1_STRING_set0 str data len = str\<lparr>as_data := data, as_length := len\<rparr>"

definition ASN1_STRING_copy :: "platform_malloc \<Rightarrow> asn1_string \<Rightarrow> asn1_string option \<Rightarrow> bool \<times> asn1_string" where
  "ASN1_STRING_copy mal dst str =
     (case str of
        None \<Rightarrow> (False, dst)
      | Some s \<Rightarrow>
          (case ASN1_STRING_set mal dst (as_data s) (as_length s) of
             (False, dst) \<Rightarrow> (False, dst)
           | (True, dst) \<Rightarrow> (True, dst\<lparr>as_type := as_type s, as_flags := as_flags s\<rparr>)))"

definition ASN1_STRING_dup :: "platform_malloc \<Rightarrow> asn1_string option \<Rightarrow> asn1_string option" where
  "ASN1_STRING_dup mal str =
     (case str of
        None \<Rightarrow> None
      | Some s \<Rightarrow>
          (case ASN1_STRING_new mal of
             None \<Rightarrow> None
           | Some ret \<Rightarrow> (case ASN1_STRING_copy mal ret (Some s) of (False, ret) \<Rightarrow> None | (True, ret) \<Rightarrow> Some ret)))"

section \<open>Text in several forms\<close>

abbreviation (input) MBSTRING_UTF8 :: int where "MBSTRING_UTF8 \<equiv> 0x1000"
abbreviation (input) MBSTRING_ASC :: int where "MBSTRING_ASC \<equiv> 0x1001"
abbreviation (input) MBSTRING_BMP :: int where "MBSTRING_BMP \<equiv> 0x1002"
abbreviation (input) MBSTRING_UNIV :: int where "MBSTRING_UNIV \<equiv> 0x1004"

abbreviation (input) B_ASN1_PRINTABLESTRING :: "64 word" where "B_ASN1_PRINTABLESTRING \<equiv> 0x0002"
abbreviation (input) B_ASN1_T61STRING :: "64 word" where "B_ASN1_T61STRING \<equiv> 0x0004"
abbreviation (input) B_ASN1_IA5STRING :: "64 word" where "B_ASN1_IA5STRING \<equiv> 0x0010"
abbreviation (input) B_ASN1_UNIVERSALSTRING :: "64 word" where "B_ASN1_UNIVERSALSTRING \<equiv> 0x0100"
abbreviation (input) B_ASN1_BMPSTRING :: "64 word" where "B_ASN1_BMPSTRING \<equiv> 0x0800"
abbreviation (input) B_ASN1_UTF8STRING :: "64 word" where "B_ASN1_UTF8STRING \<equiv> 0x2000"

text \<open>\<open>DIRSTRING_TYPE\<close>, the types of a directory string.\<close>

definition DIRSTRING_TYPE :: "64 word" where
  "DIRSTRING_TYPE = B_ASN1_PRINTABLESTRING OR B_ASN1_T61STRING OR B_ASN1_BMPSTRING OR B_ASN1_UTF8STRING"

definition asn1_is_printable :: "32 word \<Rightarrow> bool" where
  "asn1_is_printable v =
     (if 0x7f < v then False
      else 97 \<le> v \<and> v \<le> 122 \<or> 65 \<le> v \<and> v \<le> 90 \<or> 48 \<le> v \<and> v \<le> 57 \<or>
        v = 32 \<or> v = 39 \<or> v = 40 \<or> v = 41 \<or> v = 43 \<or> v = 44 \<or> v = 45 \<or> v = 46 \<or> v = 47 \<or> v = 58 \<or> v = 61 \<or> v = 63)"

text \<open>The function that \<open>decode_func\<close> points to, for the formats that the switch knows, and \<open>encode_func\<close>.\<close>

definition mb_format :: "int \<Rightarrow> bool" where
  "mb_format inform \<longleftrightarrow> inform \<in> {MBSTRING_BMP, MBSTRING_UNIV, MBSTRING_UTF8, MBSTRING_ASC}"

definition decode_func :: "int \<Rightarrow> cbs \<Rightarrow> 32 word option \<times> cbs" where
  "decode_func inform =
     (if inform = MBSTRING_BMP then cbs_get_ucs2_be
      else if inform = MBSTRING_UNIV then cbs_get_utf32_be
      else if inform = MBSTRING_UTF8 then cbs_get_utf8
      else cbs_get_latin1)"

definition encode_func :: "int \<Rightarrow> platform_malloc \<Rightarrow> nat \<Rightarrow> 32 word \<Rightarrow> cbb_state \<Rightarrow> bool \<times> cbb_state" where
  "encode_func outform =
     (if outform = MBSTRING_BMP then cbb_add_ucs2_be
      else if outform = MBSTRING_UNIV then cbb_add_utf32_be
      else if outform = MBSTRING_UTF8 then cbb_add_utf8
      else cbb_add_latin1)"

text \<open>The types that are still possible after a character.\<close>

definition narrow :: "32 word \<Rightarrow> 64 word \<Rightarrow> 64 word" where
  "narrow c mask0 =
     (let mask1 = (if mask0 AND B_ASN1_PRINTABLESTRING \<noteq> 0 \<and> \<not> asn1_is_printable c then mask0 AND NOT B_ASN1_PRINTABLESTRING else mask0);
          mask2 = (if mask1 AND B_ASN1_IA5STRING \<noteq> 0 \<and> 127 < c then mask1 AND NOT B_ASN1_IA5STRING else mask1);
          mask3 = (if mask2 AND B_ASN1_T61STRING \<noteq> 0 \<and> 0xff < c then mask2 AND NOT B_ASN1_T61STRING else mask2);
          mask4 = (if mask3 AND B_ASN1_BMPSTRING \<noteq> 0 \<and> 0xffff < c then mask3 AND NOT B_ASN1_BMPSTRING else mask3)
      in mask4)"

section \<open>The readers and writers of the forms\<close>

text \<open>The form of a code point, and the code points that have one.\<close>

definition mb_enc :: "int \<Rightarrow> 32 word \<Rightarrow> bytes" where
  "mb_enc form v =
     (if form = MBSTRING_BMP then be_bytes 2 (ucast v)
      else if form = MBSTRING_UNIV then be_bytes 4 (ucast v)
      else if form = MBSTRING_UTF8 then utf8_bytes (unat v)
      else [ucast v])"

definition mb_ok :: "int \<Rightarrow> 32 word \<Rightarrow> bool" where
  "mb_ok form v \<longleftrightarrow>
     (if form = MBSTRING_BMP then is_valid_code_point v \<and> v \<le> 0xffff
      else if form = MBSTRING_UNIV \<or> form = MBSTRING_UTF8 then is_valid_code_point v
      else v \<le> 0xff)"

lemma small_take_bit: "v \<le> (0xffff :: 32 word) \<longleftrightarrow> take_bit 16 v = v"
  by (simp add: word_unat_eq_iff unsigned_take_bit_eq take_bit_nat_eq_self_iff word_le_nat_alt less_Suc_eq_le [symmetric])

lemma casts_16:
  "take_bit 16 v = v \<Longrightarrow> ucast (ucast (ucast (v :: 32 word) :: 64 word) :: 16 word) = v"
  "ucast (ucast (ucast (w :: 64 word) :: 16 word) :: 32 word) = take_bit 16 w"
  "take_bit 16 (ucast (ucast w :: 16 word) :: 32 word) = ucast (ucast w :: 16 word)"
  "take_bit 16 v = v \<Longrightarrow> take_bit 16 (ucast v :: 64 word) = ucast v"
proof -
  show "ucast (ucast (ucast v :: 64 word) :: 16 word) = v" if "take_bit 16 v = v"
    by (subst that [symmetric]) (rule bit_eqI, auto simp: bit_simps)
  show "take_bit 16 (ucast v :: 64 word) = ucast v" if "take_bit 16 v = v"
    by (subst (2) that [symmetric]) (rule bit_eqI, auto simp: bit_simps)
qed (rule bit_eqI, auto simp: bit_simps)+

lemma get_u_append: "length p = n \<Longrightarrow> cbs_get_u (p @ r) n = (Some (be_val p), r)"
  by (simp add: cbs_get_u_eq)

lemma get_ucs2_iff: "cbs_get_ucs2_be s = (Some v, r) \<longleftrightarrow> is_valid_code_point v \<and> v \<le> 0xffff \<and> s = be_bytes 2 (ucast v) @ r"
proof -
  have g: "cbs_get_ucs2_be s = (Some v, r) \<longleftrightarrow> (\<exists>p. length p = 2 \<and> s = p @ r \<and> v = ucast (ucast (be_val p) :: 16 word) \<and> is_valid_code_point v)"
    by (auto simp: cbs_get_ucs2_be_def CBS_get_u16_def cbs_get_u_Some get_u_append split: prod.splits option.splits if_splits)
  show ?thesis
  proof
    assume "cbs_get_ucs2_be s = (Some v, r)"
    then obtain p where p: "length p = 2" "s = p @ r" "v = ucast (ucast (be_val p) :: 16 word)" "is_valid_code_point v" unfolding g by blast
    have "ucast v = take_bit 16 (be_val p)" unfolding p(3) by (rule casts_16(2))
    also have "\<dots> = be_val p" using be_val_bound [of p] p(1) by simp
    finally have "be_bytes 2 (ucast v) = p" using be_bytes_be_val' [of p 2] p(1) by simp
    moreover have "v \<le> 0xffff" unfolding small_take_bit p(3) by (rule casts_16(3))
    ultimately show "is_valid_code_point v \<and> v \<le> 0xffff \<and> s = be_bytes 2 (ucast v) @ r" using p by simp
  next
    assume v: "is_valid_code_point v \<and> v \<le> 0xffff \<and> s = be_bytes 2 (ucast v) @ r"
    then have t: "take_bit 16 v = v" by (simp add: small_take_bit)
    have "be_val (be_bytes 2 (ucast v)) = take_bit (8 * 2) (ucast v)" by (rule be_val_be_bytes)
    then have "ucast (ucast (be_val (be_bytes 2 (ucast v))) :: 16 word) = v" using casts_16(1,4) [OF t] by simp
    then show "cbs_get_ucs2_be s = (Some v, r)" unfolding g using v by (intro exI [of _ "be_bytes 2 (ucast v)"]) simp
  qed
qed

lemma casts_32: "ucast (ucast (v :: 32 word) :: 64 word) = v" "ucast (ucast (w :: 64 word) :: 32 word) = take_bit 32 w"
  "take_bit 32 (ucast v :: 64 word) = ucast v"
  by (rule bit_eqI, auto simp: bit_simps dest: bit_imp_le_length)+

lemma get_utf32_iff: "cbs_get_utf32_be s = (Some v, r) \<longleftrightarrow> is_valid_code_point v \<and> s = be_bytes 4 (ucast v) @ r"
proof -
  have "ucast (be_val p) = v \<longleftrightarrow> p = be_bytes 4 (ucast v)" if "length p = 4" for p
  proof
    assume v: "ucast (be_val p) = v"
    have "ucast v = be_val p" using be_val_bound [of p] that casts_32(2) [of "be_val p"] by (simp add: v)
    then show "p = be_bytes 4 (ucast v)" using be_bytes_be_val' [of p 4] that by simp
  next
    assume "p = be_bytes 4 (ucast v)"
    then show "ucast (be_val p) = v" using be_val_be_bytes [of 4 "ucast v"] casts_32(1,3) [of v] by simp
  qed
  moreover have "cbs_get_utf32_be s = (Some v, r) \<longleftrightarrow> (\<exists>p. length p = 4 \<and> s = p @ r \<and> ucast (be_val p) = v \<and> is_valid_code_point v)"
    by (auto simp: cbs_get_utf32_be_def CBS_get_u32_def cbs_get_u_Some get_u_append split: prod.splits option.splits if_splits)
  ultimately show ?thesis by (metis length_be_bytes)
qed

lemma decode_iff: "decode_func form s = (Some v, r) \<longleftrightarrow> mb_ok form v \<and> s = mb_enc form v @ r"
  by (auto simp: decode_func_def mb_ok_def mb_enc_def get_ucs2_iff get_utf32_iff get_utf8_iff get_latin1_iff)

interpretation mb_codec: canonical_codec "mb_enc form" "decode_func form" "mb_ok form" for form
  by unfold_locales (auto simp: decode_iff)

lemma mb_enc_length: "length (mb_enc form v) \<in> {1..4}"
  by (auto simp: mb_enc_def utf8_len cbb_get_utf8_len_def)

lemma decode_shortens: "decode_func form s = (Some v, r) \<Longrightarrow> length r < length s"
  using mb_enc_length [of form v] by (auto simp: decode_iff)

section \<open>Copying text\<close>

text \<open>The bytes of \<open>in\<close>, which may be NULL when there are none.\<close>

definition region :: "bytes option \<Rightarrow> int \<Rightarrow> bytes" where
  "region inp len = (case inp of None \<Rightarrow> [] | Some p \<Rightarrow> take (nat len) p)"

text \<open>The first loop: \<open>None\<close> where the function returns an error, else the mask, the number of characters and the
  length of their UTF-8 form.\<close>

function mb_scan :: "int \<Rightarrow> cbs \<Rightarrow> 64 word \<Rightarrow> nat \<Rightarrow> nat \<Rightarrow> (64 word \<times> nat \<times> nat) option" where
  "mb_scan inform cbs msk nchar utf8_len =
     (if length cbs = 0 then Some (msk, nchar, utf8_len)
      else
        (case decode_func inform cbs of
           (None, cbs) \<Rightarrow> None
         | (Some c, cbs) \<Rightarrow>
             (if nchar = 0 \<and> (inform = MBSTRING_BMP \<or> inform = MBSTRING_UNIV) \<and> c = 0xfeff then None
              else if narrow c msk = 0 then None
              else mb_scan inform cbs (narrow c msk) (nchar + 1) (utf8_len + cbb_get_utf8_len c))))"
  by pat_completeness auto
termination
  by (relation "measure (\<lambda>(inform, cbs, msk, nchar, utf8_len). length cbs)") (auto dest!: decode_shortens [OF sym])

declare mb_scan.simps [simp del]

text \<open>The type of the copy, its form and the size the buffer starts with.\<close>

definition mb_choose :: "64 word \<Rightarrow> nat \<Rightarrow> nat \<Rightarrow> (int \<times> int \<times> nat) option" where
  "mb_choose msk nchar utf8_len =
     (if msk AND B_ASN1_PRINTABLESTRING \<noteq> 0 then Some (V_ASN1_PRINTABLESTRING, MBSTRING_ASC, nchar)
      else if msk AND B_ASN1_IA5STRING \<noteq> 0 then Some (V_ASN1_IA5STRING, MBSTRING_ASC, nchar)
      else if msk AND B_ASN1_T61STRING \<noteq> 0 then Some (V_ASN1_T61STRING, MBSTRING_ASC, nchar)
      else if msk AND B_ASN1_BMPSTRING \<noteq> 0 then Some (V_ASN1_BMPSTRING, MBSTRING_BMP, 2 * nchar)
      else if msk AND B_ASN1_UNIVERSALSTRING \<noteq> 0 then Some (V_ASN1_UNIVERSALSTRING, MBSTRING_UNIV, 4 * nchar)
      else if msk AND B_ASN1_UTF8STRING \<noteq> 0 then Some (V_ASN1_UTF8STRING, MBSTRING_UTF8, utf8_len)
      else None)"

function mb_convert :: "platform_malloc \<Rightarrow> int \<Rightarrow> int \<Rightarrow> cbs \<Rightarrow> cbb_state \<Rightarrow> bool \<times> cbb_state" where
  "mb_convert mal inform outform cbs st =
     (if length cbs = 0 then (True, st)
      else
        (case decode_func inform cbs of
           (None, cbs) \<Rightarrow> (False, st)
         | (Some c, cbs) \<Rightarrow> and_then (encode_func outform mal 0 c st) (mb_convert mal inform outform cbs)))"
  by pat_completeness auto
termination
  by (relation "measure (\<lambda>(mal, inform, outform, cbs, st). length cbs)") (auto dest!: decode_shortens [OF sym])

declare mb_convert.simps [simp del]

text \<open>The pointer \<open>out\<close>: NULL, a pointer to NULL, to a string, or to a string that was freed.\<close>

datatype asn1_out = NoOut | NullOut | Out asn1_string | FreedOut

definition mb_fail :: "bool \<Rightarrow> asn1_string \<Rightarrow> int \<times> asn1_out" where
  "mb_fail free_out dest = (- 1, if free_out then FreedOut else Out dest)"

text \<open>From the destination on: the bytes are copied as they are when the form stays, else converted.\<close>

definition mb_fill :: "platform_malloc \<Rightarrow> asn1_string \<Rightarrow> bool \<Rightarrow> bytes option \<Rightarrow> int \<Rightarrow> int \<Rightarrow> int \<times> int \<times> nat \<Rightarrow> int \<times> asn1_out" where
  "mb_fill mal dest free_out inp len inform = (\<lambda>(str_type, outform, size_estimate).
     if inform = outform then
       (case ASN1_STRING_set mal dest inp len of
          (False, dest) \<Rightarrow> (- 1, Out dest)
        | (True, dest) \<Rightarrow> (str_type, Out dest))
     else
       (case CBB_init mal (size_estimate + 1) of
          (False, cbb) \<Rightarrow> mb_fail free_out dest
        | (True, cbb) \<Rightarrow>
            (case mb_convert mal inform outform (region inp len) cbb of
               (False, cbb) \<Rightarrow> mb_fail free_out dest
             | (True, cbb) \<Rightarrow>
                 (case CBB_add_u8 mal 0 0 cbb of
                    (False, cbb) \<Rightarrow> mb_fail free_out dest
                  | (True, cbb) \<Rightarrow>
                      (case CBB_finish mal 0 True cbb of
                         (None, cbb) \<Rightarrow> mb_fail free_out dest
                       | (Some (data, data_len), cbb) \<Rightarrow>
                           (if data_len < 1 \<or> 2147483647 < data_len then mb_fail free_out dest
                            else (str_type, Out (dest\<lparr>as_length := int (data_len - 1), as_data := Some data\<rparr>))))))))"

definition ASN1_mbstring_ncopy ::
  "platform_malloc \<Rightarrow> asn1_out \<Rightarrow> bytes option \<Rightarrow> int \<Rightarrow> int \<Rightarrow> 64 word \<Rightarrow> int \<Rightarrow> int \<Rightarrow> int \<times> asn1_out" where
  "ASN1_mbstring_ncopy mal out inp len0 inform mask0 minsize maxsize =
     (let len = (if len0 = - 1 then int (strlen (the inp)) else len0);
          mask1 = (if mask0 = 0 then DIRSTRING_TYPE else mask0)
      in if \<not> mb_format inform then (- 1, out)
         else
           (case mb_scan inform (region inp len) mask1 0 0 of
              None \<Rightarrow> (- 1, out)
            | Some (msk, nchar, utf8_len) \<Rightarrow>
                (if 0 < minsize \<and> int nchar < minsize then (- 1, out)
                 else if 0 < maxsize \<and> maxsize < int nchar then (- 1, out)
                 else
                   (case mb_choose msk nchar utf8_len of
                      None \<Rightarrow> (- 1, out)
                    | Some choice \<Rightarrow>
                        (case out of
                           Out dest \<Rightarrow>
                             mb_fill mal
                               ((if as_data dest \<noteq> None then dest\<lparr>as_length := 0, as_data := None\<rparr> else dest)\<lparr>as_type := fst choice\<rparr>)
                               False inp len inform choice
                         | NullOut \<Rightarrow>
                             (case ASN1_STRING_type_new mal (fst choice) of
                                None \<Rightarrow> (- 1, out)
                              | Some dest \<Rightarrow> mb_fill mal dest True inp len inform choice)
                         | _ \<Rightarrow> (fst choice, out))))))"

definition ASN1_mbstring_copy :: "platform_malloc \<Rightarrow> asn1_out \<Rightarrow> bytes option \<Rightarrow> int \<Rightarrow> int \<Rightarrow> 64 word \<Rightarrow> int \<times> asn1_out" where
  "ASN1_mbstring_copy mal out inp len inform msk = ASN1_mbstring_ncopy mal out inp len inform msk 0 0"

definition tag2nbyte :: "int list" where
  "tag2nbyte =
     [- 1, - 1, - 1, - 1, - 1,
      - 1, - 1, - 1, - 1, - 1,
      - 1, - 1, 0, - 1,
      - 1, - 1, - 1, - 1,
      1, 1, 1,
      - 1, 1, 1, 1,
      - 1, 1, - 1,
      4, - 1, 2]"

text \<open>The length of the UTF-8 form and the buffer that holds it. The type of
  the string on the stack is set before it is read.\<close>

definition ASN1_STRING_to_UTF8 :: "platform_malloc \<Rightarrow> asn1_string \<Rightarrow> int \<times> bytes option" where
  "ASN1_STRING_to_UTF8 mal str =
     (if as_type str < 0 \<or> 30 < as_type str then (- 1, None)
      else
        (let mbflag = tag2nbyte ! nat (as_type str)
         in if mbflag = - 1 then (- 1, None)
            else
              (let stmp = \<lparr>as_length = 0, as_type = 0, as_data = None, as_flags = 0\<rparr>
               in case ASN1_mbstring_copy mal (Out stmp) (as_data str) (as_length str) (0x1000 OR mbflag) B_ASN1_UTF8STRING of
                    (ret, Out stmp) \<Rightarrow> (if ret < 0 then (ret, None) else (as_length stmp, as_data stmp))
                  | (ret, _) \<Rightarrow> (ret, None))))"

end
