(* ===== verification/Asn1StrSpec.thy ===== *)
theory Asn1StrSpec
  imports Asn1Str
begin

text \<open>
  What the functions on ASN.1 strings compute: setting and copying keep a well-formed string with the bytes that
  were given; the copy into another form spells the same text, in the first allowed type that can hold it.
\<close>

section \<open>Strings and their bytes\<close>

definition astr_bytes :: "asn1_string \<Rightarrow> bytes" where
  "astr_bytes str = region (as_data str) (as_length str)"

text \<open>The buffer holds the bytes that the length announces.\<close>

definition astr_ok :: "asn1_string \<Rightarrow> bool" where
  "astr_ok str \<longleftrightarrow> 0 \<le> as_length str \<and> (case as_data str of None \<Rightarrow> as_length str = 0 | Some buf \<Rightarrow> as_length str \<le> int (length buf))"

lemma type_new_ok: "ASN1_STRING_type_new mal t = Some s \<Longrightarrow> astr_ok s \<and> astr_bytes s = [] \<and> as_type s = t \<and> as_data s = None"
  by (auto simp: ASN1_STRING_type_new_def astr_ok_def astr_bytes_def region_def split: option.splits)

lemma set_some:
  assumes "malloc_sound mal" "astr_ok str" "0 \<le> len" "len \<le> 2147483647" "len \<le> int (length d)"
    and "ASN1_STRING_set mal str (Some d) len = (True, str')"
  shows "astr_ok str' \<and> astr_bytes str' = take (nat len) d \<and> as_type str' = as_type str \<and> as_flags str' = as_flags str"
proof -
  let ?room = "if as_length str \<le> len \<or> as_data str = None then OPENSSL_realloc mal (as_data str) (nat (len + 1)) else as_data str"
  obtain buf where b: "?room = Some buf"
    "str' = str\<lparr>as_data := Some ((buf_write buf 0 (take (nat len) d))[nat len := 0]), as_length := len\<rparr>"
    using assms(3,6) by (auto simp: ASN1_STRING_set_def Let_def split: option.splits)
  have "nat len < length buf"
  proof (cases "as_length str \<le> len \<or> as_data str = None")
    case True
    then have "length buf = nat (len + 1)" using OPENSSL_realloc_length [OF assms(1)] b(1) assms(3,4) by simp
    then show ?thesis using assms(3) by simp
  next
    case False
    then show ?thesis using b(1) assms(2,3) by (auto simp: astr_ok_def)
  qed
  then have "take (nat len) ((buf_write buf 0 (take (nat len) d))[nat len := 0]) = take (nat len) d"
    "nat len < length ((buf_write buf 0 (take (nat len) d))[nat len := 0])"
    using assms(3,5) by (simp_all add: buf_write_def)
  then show ?thesis using assms(3) by (auto simp: b(2) astr_ok_def astr_bytes_def region_def)
qed

lemma realloc_total:
  assumes "malloc_total mal" "n \<le> 2 ^ 62"
  shows "\<exists>p. OPENSSL_realloc mal orig n = Some p"
  using OPENSSL_malloc_total [OF assms] by (auto simp: OPENSSL_realloc_def Let_def split: option.splits)

lemma set_total:
  assumes "malloc_total mal" "0 \<le> len" "len \<le> 2147483647"
  shows "\<exists>str'. ASN1_STRING_set mal str (Some d) len = (True, str')"
proof -
  have "nat (len + 1) \<le> 2 ^ 62" using assms(3) by simp
  then obtain p where "OPENSSL_realloc mal (as_data str) (nat (len + 1)) = Some p" using realloc_total [OF assms(1)] by blast
  then show ?thesis using assms(2) by (cases "as_data str") (auto simp: ASN1_STRING_set_def Let_def)
qed

section \<open>Spelling a text\<close>

definition spells :: "int \<Rightarrow> 32 word list \<Rightarrow> bytes \<Rightarrow> bool" where
  "spells form cps s \<longleftrightarrow> s = concat (map (mb_enc form) cps) \<and> (\<forall>c\<in>set cps. mb_ok form c)"

lemma spells_Nil [simp]: "spells form [] s \<longleftrightarrow> s = []"
  by (simp add: spells_def)

lemma spells_Cons: "spells form (c # cps) s \<longleftrightarrow> (\<exists>r. decode_func form s = (Some c, r) \<and> spells form cps r)"
  by (auto simp: spells_def decode_iff)

lemma mb_enc_nonempty [simp]: "mb_enc form c \<noteq> []"
  using mb_enc_length [of form c] by auto

lemma decode_Nil [simp]: "decode_func form [] \<noteq> (Some c, r)"
  by (auto simp: decode_iff)

lemma spells_empty: "spells form cps [] \<longleftrightarrow> cps = []"
  by (cases cps) (auto simp: spells_def)

lemma spells_unique: "spells form cps s \<Longrightarrow> spells form cps' s \<Longrightarrow> cps = cps'"
proof (induction cps arbitrary: s cps')
  case Nil
  then show ?case by (simp add: spells_empty)
next
  case (Cons c cps)
  then show ?case by (cases cps') (auto simp: spells_Cons spells_empty)
qed

lemma spells_length: "spells form cps s \<Longrightarrow> length cps \<le> length s \<and> length s \<le> 4 * length cps"
proof (induction cps arbitrary: s)
  case (Cons c cps)
  then obtain r where r: "s = mb_enc form c @ r" "spells form cps r" by (auto simp: spells_Cons decode_iff)
  then show ?case using Cons.IH [OF r(2)] mb_enc_length [of form c] by auto
qed simp

text \<open>Each form spells valid code points, and the smaller forms spell the small ones.\<close>

lemma latin1_valid: "v \<le> 0xff \<Longrightarrow> is_valid_code_point v"
proof -
  assume v: "v \<le> 0xff"
  then have "unat v < 2 ^ 8" by (simp add: word_le_nat_alt)
  then have t: "take_bit 8 v = v" by (simp add: word_unat_eq_iff unsigned_take_bit_eq take_bit_nat_eq_self)
  have "take_bit 8 v AND m = take_bit 8 (v AND m)" for m by (rule bit_eqI) (auto simp: bit_simps)
  then have "v AND 0xfffe = take_bit 8 (v AND 0xfffe)" by (metis t)
  moreover have "take_bit 8 0xfffe \<noteq> (0xfffe :: 32 word)" by simp
  ultimately have "v AND 0xfffe \<noteq> 0xfffe" by metis
  then show ?thesis using v by (auto simp: is_valid_code_point_def word_less_nat_alt word_le_nat_alt)
qed

lemma mb_ok_valid: "mb_ok form v \<Longrightarrow> is_valid_code_point v"
  by (auto simp: mb_ok_def latin1_valid split: if_splits)

section \<open>The types that can hold a text\<close>

definition type_holds :: "nat \<Rightarrow> 32 word \<Rightarrow> bool" where
  "type_holds k c \<longleftrightarrow> (k = 1 \<longrightarrow> asn1_is_printable c) \<and> (k = 4 \<longrightarrow> c \<le> 127) \<and> (k = 2 \<longrightarrow> c \<le> 0xff) \<and> (k = 11 \<longrightarrow> c \<le> 0xffff)"

lemma and_type_bit: "(m :: 64 word) AND 2 = 0 \<longleftrightarrow> \<not> bit m 1" "m AND 4 = 0 \<longleftrightarrow> \<not> bit m 2" "m AND 16 = 0 \<longleftrightarrow> \<not> bit m 4"
  "m AND 256 = 0 \<longleftrightarrow> \<not> bit m 8" "m AND 2048 = 0 \<longleftrightarrow> \<not> bit m 11" "m AND 8192 = 0 \<longleftrightarrow> \<not> bit m 13"
  using and_exp_eq_0_iff_not_bit [of m 1] and_exp_eq_0_iff_not_bit [of m 2] and_exp_eq_0_iff_not_bit [of m 4]
    and_exp_eq_0_iff_not_bit [of m 8] and_exp_eq_0_iff_not_bit [of m 11] and_exp_eq_0_iff_not_bit [of m 13] by simp_all

lemma clear_type_bit: "bit ((m :: 64 word) AND NOT (2 ^ j)) k \<longleftrightarrow> bit m k \<and> k \<noteq> j"
  by (auto simp: bit_simps dest: bit_imp_le_length)

lemma narrow_step:
  "bit (if (m :: 64 word) AND 2 ^ j \<noteq> 0 \<and> P then m AND NOT (2 ^ j) else m) k \<longleftrightarrow> bit m k \<and> (k = j \<longrightarrow> \<not> P)"
  unfolding and_exp_eq_0_iff_not_bit by (auto simp: clear_type_bit)

lemma narrow_steps:
  "bit (if (m :: 64 word) AND 2 \<noteq> 0 \<and> P then m AND NOT 2 else m) k \<longleftrightarrow> bit m k \<and> (k = 1 \<longrightarrow> \<not> P)"
  "bit (if (m :: 64 word) AND 16 \<noteq> 0 \<and> P then m AND NOT 16 else m) k \<longleftrightarrow> bit m k \<and> (k = 4 \<longrightarrow> \<not> P)"
  "bit (if (m :: 64 word) AND 4 \<noteq> 0 \<and> P then m AND NOT 4 else m) k \<longleftrightarrow> bit m k \<and> (k = 2 \<longrightarrow> \<not> P)"
  "bit (if (m :: 64 word) AND 2048 \<noteq> 0 \<and> P then m AND NOT 2048 else m) k \<longleftrightarrow> bit m k \<and> (k = 11 \<longrightarrow> \<not> P)"
proof -
  have pw: "(2 :: 64 word) ^ 1 = 2" "(2 :: 64 word) ^ 4 = 16" "(2 :: 64 word) ^ 2 = 4" "(2 :: 64 word) ^ 11 = 2048" by simp_all
  show "bit (if (m :: 64 word) AND 2 \<noteq> 0 \<and> P then m AND NOT 2 else m) k \<longleftrightarrow> bit m k \<and> (k = 1 \<longrightarrow> \<not> P)"
    by (rule narrow_step [of m 1 P k, unfolded pw])
  show "bit (if (m :: 64 word) AND 16 \<noteq> 0 \<and> P then m AND NOT 16 else m) k \<longleftrightarrow> bit m k \<and> (k = 4 \<longrightarrow> \<not> P)"
    by (rule narrow_step [of m 4 P k, unfolded pw])
  show "bit (if (m :: 64 word) AND 4 \<noteq> 0 \<and> P then m AND NOT 4 else m) k \<longleftrightarrow> bit m k \<and> (k = 2 \<longrightarrow> \<not> P)"
    by (rule narrow_step [of m 2 P k, unfolded pw])
  show "bit (if (m :: 64 word) AND 2048 \<noteq> 0 \<and> P then m AND NOT 2048 else m) k \<longleftrightarrow> bit m k \<and> (k = 11 \<longrightarrow> \<not> P)"
    by (rule narrow_step [of m 11 P k, unfolded pw])
qed

lemma bit_narrow: "bit (narrow c m) k \<longleftrightarrow> bit m k \<and> type_holds k c"
  unfolding narrow_def Let_def narrow_steps type_holds_def by (auto simp: not_less)

lemma narrow_zero [simp]: "narrow c 0 = 0"
  by (rule bit_eqI) (simp add: bit_narrow)

lemma bit_fold_narrow: "bit (fold narrow cps m) k \<longleftrightarrow> bit m k \<and> (\<forall>c\<in>set cps. type_holds k c)"
  by (induction cps arbitrary: m) (auto simp: bit_narrow)

lemma fold_narrow_zero [simp]: "fold narrow cps 0 = 0"
  by (induction cps) auto

text \<open>The types in the order in which they are preferred, each with its bit, its number and its form.\<close>

definition preference :: "(nat \<times> int \<times> int) list" where
  "preference = [(1, V_ASN1_PRINTABLESTRING, MBSTRING_ASC), (4, V_ASN1_IA5STRING, MBSTRING_ASC), (2, V_ASN1_T61STRING, MBSTRING_ASC),
     (11, V_ASN1_BMPSTRING, MBSTRING_BMP), (8, V_ASN1_UNIVERSALSTRING, MBSTRING_UNIV), (13, V_ASN1_UTF8STRING, MBSTRING_UTF8)]"

text \<open>The first allowed type that can hold the text.\<close>

definition best_type :: "64 word \<Rightarrow> 32 word list \<Rightarrow> (int \<times> int) option" where
  "best_type m cps = map_option snd (find (\<lambda>(k, t, form). bit m k \<and> list_all (type_holds k) cps) preference)"

lemma choose_best: "map_option (\<lambda>(t, form, est). (t, form)) (mb_choose (fold narrow cps m) n u) = best_type m cps"
  unfolding mb_choose_def best_type_def preference_def and_type_bit bit_fold_narrow by (simp add: list_all_iff)

lemma choose_size:
  "mb_choose m n u = Some (t, form, est) \<Longrightarrow> 0 \<le> t \<and> est \<le> 4 * n + u"
  by (auto simp: mb_choose_def split: if_splits)

lemma find_some_in: "find P xs = Some x \<Longrightarrow> x \<in> set xs \<and> P x"
  by (induction xs) (auto split: if_splits)

lemma best_type_form:
  assumes "best_type m cps = Some (t, form)" "\<forall>c\<in>set cps. is_valid_code_point c"
  shows "\<forall>c\<in>set cps. mb_ok form c"
proof -
  have p: "asn1_is_printable c \<Longrightarrow> c \<le> 0xff" "c \<le> 127 \<Longrightarrow> c \<le> 0xff" for c
    by (auto simp: asn1_is_printable_def word_le_nat_alt word_less_nat_alt split: if_splits)
  obtain k where k: "(k, t, form) \<in> set preference" "list_all (type_holds k) cps"
    using assms(1) by (auto simp: best_type_def dest: find_some_in)
  then show ?thesis using assms(2) p
    by (auto simp: preference_def list_all_iff type_holds_def mb_ok_def)
qed

section \<open>The loops\<close>

definition starts_with_bom :: "int \<Rightarrow> 32 word list \<Rightarrow> bool" where
  "starts_with_bom form cps \<longleftrightarrow> (form = MBSTRING_BMP \<or> form = MBSTRING_UNIV) \<and> cps \<noteq> [] \<and> hd cps = 0xfeff"

lemma mb_scan_sound: "mb_scan form s m n u = Some x \<Longrightarrow> \<exists>cps. spells form cps s"
proof (induction form s m n u rule: mb_scan.induct)
  case (1 form s m n u)
  show ?case
  proof (cases "s = []")
    case True
    then show ?thesis by (intro exI [of _ "[]"]) simp
  next
    case False
    then obtain c r where c: "decode_func form s = (Some c, r)" and x: "mb_scan form r (narrow c m) (n + 1) (u + cbb_get_utf8_len c) = Some x"
      and g: "\<not> (n = 0 \<and> (form = MBSTRING_BMP \<or> form = MBSTRING_UNIV) \<and> c = 0xfeff)" "narrow c m \<noteq> 0"
      using "1.prems" by (subst (asm) mb_scan.simps) (auto split: prod.splits option.splits if_splits)
    have "\<exists>cps. spells form cps r" using "1.IH" [OF _ c [symmetric] refl g x] False by simp
    then obtain cps where "spells form cps r" ..
    then show ?thesis using c by (intro exI [of _ "c # cps"]) (simp add: spells_Cons)
  qed
qed

lemma mb_scan_eq:
  assumes "spells form cps s"
  shows "mb_scan form s m n u =
    (if n = 0 \<and> starts_with_bom form cps \<or> cps \<noteq> [] \<and> fold narrow cps m = 0 then None
     else Some (fold narrow cps m, n + length cps, u + sum_list (map cbb_get_utf8_len cps)))"
  using assms
proof (induction cps arbitrary: s m n u)
  case Nil
  then show ?case by (subst mb_scan.simps) (simp add: starts_with_bom_def)
next
  case (Cons c cps)
  then obtain r where r: "decode_func form s = (Some c, r)" "spells form cps r" by (auto simp: spells_Cons)
  then have "s \<noteq> []" by auto
  then show ?case
    using r(1) Cons.IH [OF r(2), of "narrow c m" "n + 1" "u + cbb_get_utf8_len c"]
    by (subst mb_scan.simps) (auto simp: starts_with_bom_def)
qed

fun put_all :: "int \<Rightarrow> 32 word list \<Rightarrow> platform_malloc \<Rightarrow> nat \<Rightarrow> cbb_state \<Rightarrow> bool \<times> cbb_state" where
  "put_all form [] mal d st = (True, st)"
| "put_all form (c # cps) mal d st = and_then (encode_func form mal d c st) (put_all form cps mal d)"

lemma mb_convert_eq: "spells inform cps s \<Longrightarrow> mb_convert mal inform outform s st = put_all outform cps mal 0 st"
proof (induction cps arbitrary: s st)
  case Nil
  then show ?case by (subst mb_convert.simps) simp
next
  case (Cons c cps)
  then obtain r where r: "decode_func inform s = (Some c, r)" "spells inform cps r" by (auto simp: spells_Cons)
  then have "s \<noteq> []" by auto
  then show ?case using r(1) Cons.IH [OF r(2)] by (subst mb_convert.simps) (simp cong: and_then_cong)
qed

lemma writer_encode:
  assumes "mb_ok form v"
  shows "writer (\<lambda>mal d. encode_func form mal d v) (mb_enc form v)"
proof -
  consider "form = MBSTRING_BMP" | "form = MBSTRING_UNIV" | "form = MBSTRING_UTF8"
    | "form \<noteq> MBSTRING_BMP" "form \<noteq> MBSTRING_UNIV" "form \<noteq> MBSTRING_UTF8" by blast
  then show ?thesis
  proof cases
    case 1
    then have t: "take_bit 16 v = v" using assms by (simp add: mb_ok_def small_take_bit)
    have "ucast (ucast v :: 16 word) = take_bit 16 (ucast v :: 64 word)"
      by (rule bit_eqI) (auto simp: bit_simps dest: bit_imp_le_length)
    then have "ucast (ucast v :: 16 word) = (ucast v :: 64 word)" using casts_16(4) [OF t] by simp
    then show ?thesis using 1 assms by (intro writer_cong [OF writer_u16 [of "ucast v"]]) (simp_all add: encode_func_def mb_enc_def mb_ok_def cbb_add_ucs2_be_def)
  next
    case 2
    then show ?thesis using assms by (intro writer_cong [OF writer_u32 [of v]]) (simp_all add: encode_func_def mb_enc_def mb_ok_def cbb_add_utf32_be_def)
  next
    case 3
    then show ?thesis using assms by (intro writer_cong [OF writer_utf8 [of v]]) (simp_all add: encode_func_def mb_enc_def mb_ok_def)
  next
    case 4
    then show ?thesis using assms by (intro writer_cong [OF writer_u8 [of "ucast v"]]) (simp_all add: encode_func_def mb_enc_def mb_ok_def cbb_add_latin1_def)
  qed
qed

lemma appender_put_all: "\<forall>c\<in>set cps. mb_ok form c \<Longrightarrow> appender (put_all form cps) (concat (map (mb_enc form) cps))"
proof (induction cps)
  case Nil
  have "put_all form [] = (\<lambda>mal d st. (True, st))" by (intro ext) simp
  then show ?case using appender_unit by simp
next
  case (Cons c cps)
  have "put_all form (c # cps) = (\<lambda>mal d st. and_then (encode_func form mal d c st) (put_all form cps mal d))" by (intro ext) simp
  then show ?case using appender_then [OF appender_writer [OF writer_encode] Cons.IH] Cons.prems by simp
qed

lemma fill_converts:
  assumes "malloc_total mal" "spells inform cps (region inp len)" "\<forall>c\<in>set cps. mb_ok outform c" "inform \<noteq> outform"
    and "est \<le> 2 ^ 61" "length cps \<le> 2 ^ 28"
  shows "\<exists>buf. mb_fill mal dest fo inp len inform (t, outform, est)
      = (t, Out (dest\<lparr>as_length := int (length (concat (map (mb_enc outform) cps))), as_data := Some buf\<rparr>))
    \<and> take (length (concat (map (mb_enc outform) cps))) buf = concat (map (mb_enc outform) cps)"
proof -
  let ?x = "concat (map (mb_enc outform) cps)"
  have sp: "spells outform cps ?x" using assms(3) by (simp add: spells_def)
  have l: "length ?x \<le> 2 ^ 30" using spells_length [OF sp] assms(6) by simp
  have ms: "malloc_sound mal" using assms(1) ..
  obtain st where st: "CBB_init mal (est + 1) = (True, st)" "builds st [(Root, [])]" "growable_state st"
    using init_builds [OF assms(1), of "est + 1"] assms(5) by auto
  note ap = appender_put_all [OF assms(3)]
  obtain st1 where st1: "put_all outform cps mal 0 st = (True, st1)" "growable_state st1"
    using appender.append_total [OF ap assms(1) st(2,3), of 0] l by (auto simp: frame_bytes_def)
  have b1: "builds st1 [(Root, ?x)]" using appender.appends [OF ap ms st(2) _ st1(1)] by (simp add: append_top_def)
  obtain st2 where st2: "CBB_add_u8 mal 0 0 st1 = (True, st2)"
    using appender.append_total [OF appender_writer [OF writer_u8] assms(1) b1 st1(2), of 0 0] l by (auto simp: frame_bytes_def)
  have b2: "builds st2 [(Root, ?x @ [0])]" using appender.appends [OF appender_writer [OF writer_u8] ms b1 _ st2] by (simp add: append_top_def)
  obtain b where b: "base st2 = Some b" "ok_buf b" "content b = ?x @ [0]" "\<not> b_error b"
    using builds_base [OF b2] by (auto simp: frame_bytes_def)
  have ch: "chain st2 = [zero_cbb]" using buildsD(3) [OF b2] by (simp add: zero_cbb_def)
  then have "CBB_flush mal 0 st2 = (True, st2)" using b by (subst CBB_flush.simps) simp
  then have f: "CBB_finish mal 0 True st2 = (Some (b_buf b, b_len b), CBB_cleanup 0 st2)"
    using b(1) ch by (simp add: CBB_finish_def zero_cbb_def)
  have n: "b_len b = length ?x + 1" using length_content [OF b(2)] b(3) by simp
  have "take (length ?x) (b_buf b) = take (length ?x) (content b)" by (simp add: content_def n min_def)
  then have "take (length ?x) (b_buf b) = ?x" using b(3) by simp
  then show ?thesis
    using assms(4) st(1) st1(1) st2 f n l mb_convert_eq [OF assms(2), of mal outform st]
    by (intro exI [of _ "b_buf b"]) (simp add: mb_fill_def)
qed

section \<open>The copy\<close>

text \<open>The text \<open>cps\<close> that a copy is to spell, its type and its form.\<close>

definition copies_to :: "int \<Rightarrow> bytes \<Rightarrow> 64 word \<Rightarrow> int \<Rightarrow> int \<Rightarrow> 32 word list \<Rightarrow> int \<Rightarrow> int \<Rightarrow> bool" where
  "copies_to inform s m minsize maxsize cps t form \<longleftrightarrow>
     mb_format inform \<and> spells inform cps s \<and> \<not> starts_with_bom inform cps \<and>
     (0 < minsize \<longrightarrow> minsize \<le> int (length cps)) \<and> (0 < maxsize \<longrightarrow> int (length cps) \<le> maxsize) \<and>
     best_type (if m = 0 then DIRSTRING_TYPE else m) cps = Some (t, form)"

definition valid_region :: "bytes option \<Rightarrow> int \<Rightarrow> bool" where
  "valid_region inp len \<longleftrightarrow> 0 \<le> len \<and> len \<le> 2 ^ 28 \<and> (case inp of None \<Rightarrow> len = 0 | Some p \<Rightarrow> len \<le> int (length p))"

lemma length_region: "valid_region inp len \<Longrightarrow> length (region inp len) = nat len"
  by (auto simp: valid_region_def region_def split: option.splits)

lemma text_length: "valid_region inp len \<Longrightarrow> spells form cps (region inp len) \<Longrightarrow> length cps \<le> 2 ^ 28"
  using spells_length [of form cps "region inp len"] length_region [of inp len] by (auto simp: valid_region_def)

lemma fill_ok:
  assumes "malloc_total mal" "valid_region inp len" "spells inform cps (region inp len)" "\<forall>c\<in>set cps. mb_ok form c" "est \<le> 2 ^ 61"
    and "as_data dest = None" "as_length dest = 0"
  shows "\<exists>d. mb_fill mal dest fo inp len inform (t, form, est) = (t, Out d) \<and> as_type d = as_type dest \<and> astr_ok d \<and> spells form cps (astr_bytes d)"
proof (cases "inform = form")
  case True
  have len: "0 \<le> len" "len \<le> 2147483647" using assms(2) by (simp_all add: valid_region_def)
  show ?thesis
  proof (cases inp)
    case None
    then have "len = 0" "cps = []" using assms(2,3) by (auto simp: valid_region_def region_def spells_empty)
    moreover obtain buf where "OPENSSL_realloc mal None 1 = Some buf" using realloc_total [OF assms(1), of 1 None] by auto
    ultimately show ?thesis using True None assms(6)
      by (intro exI [of _ "dest\<lparr>as_data := Some buf, as_length := 0\<rparr>"])
        (simp add: mb_fill_def ASN1_STRING_set_def astr_ok_def astr_bytes_def region_def)
  next
    case (Some p)
    obtain d where d: "ASN1_STRING_set mal dest (Some p) len = (True, d)" using set_total [OF assms(1) len] by blast
    have "astr_ok dest" "len \<le> int (length p)" using assms(2,6,7) Some by (simp_all add: astr_ok_def valid_region_def)
    then have "astr_ok d \<and> astr_bytes d = take (nat len) p \<and> as_type d = as_type dest"
      using set_some [OF malloc_total_sound [OF assms(1)] _ len _ d] by blast
    then show ?thesis using True Some d assms(3) by (intro exI [of _ d]) (simp add: mb_fill_def region_def)
  qed
next
  case False
  have n: "length cps \<le> 2 ^ 28" by (rule text_length [OF assms(2,3)])
  let ?x = "concat (map (mb_enc form) cps)"
  obtain buf where b: "mb_fill mal dest fo inp len inform (t, form, est) = (t, Out (dest\<lparr>as_length := int (length ?x), as_data := Some buf\<rparr>))"
    "take (length ?x) buf = ?x"
    using fill_converts [OF assms(1,3,4) False assms(5) n] by metis
  have "length ?x \<le> length buf" using arg_cong [OF b(2), of length] by simp
  then show ?thesis using b assms(4) by (auto simp: astr_ok_def astr_bytes_def region_def spells_def)
qed

lemma utf8_len_sum: "sum_list (map cbb_get_utf8_len cps) \<le> 4 * length cps"
proof (induction cps)
  case (Cons c cps)
  moreover have "cbb_get_utf8_len c \<le> 4" by (simp add: cbb_get_utf8_len_def)
  ultimately show ?case by simp
qed simp

lemma ncopy_ok:
  assumes "malloc_total mal" "valid_region inp len" "copies_to inform (region inp len) m lo hi cps t form"
    and "out = NullOut \<or> out = Out dest \<and> as_length dest = 0"
  shows "\<exists>d. ASN1_mbstring_ncopy mal out inp len inform m lo hi = (t, Out d) \<and> as_type d = t \<and> astr_ok d \<and> spells form cps (astr_bytes d)"
proof -
  let ?s = "region inp len" and ?m = "if m = 0 then DIRSTRING_TYPE else m"
  note c = assms(3) [unfolded copies_to_def]
  have len: "0 \<le> len" "len \<noteq> - 1" using assms(2) by (auto simp: valid_region_def)
  have n: "length cps \<le> 2 ^ 28" using text_length [OF assms(2)] c by blast
  let ?u = "sum_list (map cbb_get_utf8_len cps)"
  obtain est where ch: "mb_choose (fold narrow cps ?m) (length cps) ?u = Some (t, form, est)"
    using choose_best [of cps ?m "length cps" ?u] c by auto
  have est: "0 \<le> t" "est \<le> 2 ^ 61" using choose_size [OF ch] utf8_len_sum [of cps] n by simp_all
  have "fold narrow cps ?m \<noteq> 0" using ch by (auto simp: mb_choose_def)
  then have scan: "mb_scan inform ?s ?m 0 0 = Some (fold narrow cps ?m, length cps, ?u)"
    using mb_scan_eq [of inform cps ?s ?m 0 0] c by simp
  have v: "\<forall>x\<in>set cps. mb_ok form x"
    using best_type_form [of ?m cps t form] c mb_ok_valid by (auto simp: spells_def)
  note f = fill_ok [OF assms(1,2) _ v est(2), of inform _ _ t]
  have g: "\<not> (0 < lo \<and> int (length cps) < lo)" "\<not> (0 < hi \<and> hi < int (length cps))" using c by auto
  show ?thesis using assms(4)
  proof
    assume o: "out = NullOut"
    obtain dest where d: "ASN1_STRING_type_new mal t = Some dest"
      using OPENSSL_malloc_total [OF assms(1), of 24] by (auto simp: ASN1_STRING_type_new_def)
    then have "as_data dest = None" "as_length dest = 0" "as_type dest = t" by (auto simp: ASN1_STRING_type_new_def split: option.splits)
    then show ?thesis using f [of dest True] c o d len scan ch g by (auto simp: ASN1_mbstring_ncopy_def)
  next
    assume o: "out = Out dest \<and> as_length dest = 0"
    let ?d = "(if as_data dest \<noteq> None then dest\<lparr>as_length := 0, as_data := None\<rparr> else dest)\<lparr>as_type := t\<rparr>"
    have "as_data ?d = None" "as_length ?d = 0" "as_type ?d = t" using o by auto
    then show ?thesis using f [of ?d False] c o len scan ch g by (auto simp: ASN1_mbstring_ncopy_def)
  qed
qed

lemma ncopy_fails:
  assumes "0 \<le> len" "\<nexists>cps t form. copies_to inform (region inp len) m lo hi cps t form"
  shows "ASN1_mbstring_ncopy mal out inp len inform m lo hi = (- 1, out)"
proof (cases "\<exists>cps. mb_format inform \<and> spells inform cps (region inp len)")
  case True
  then obtain cps where c: "mb_format inform" "spells inform cps (region inp len)" by blast
  let ?m = "if m = 0 then DIRSTRING_TYPE else m" and ?u = "sum_list (map cbb_get_utf8_len cps)"
  have "best_type ?m cps = None" if "\<not> starts_with_bom inform cps" "0 < lo \<longrightarrow> lo \<le> int (length cps)" "0 < hi \<longrightarrow> int (length cps) \<le> hi"
    using assms(2) c that by (cases "best_type ?m cps") (auto simp: copies_to_def)
  then have "mb_choose (fold narrow cps ?m) (length cps) ?u = None"
    if "\<not> starts_with_bom inform cps" "0 < lo \<longrightarrow> lo \<le> int (length cps)" "0 < hi \<longrightarrow> int (length cps) \<le> hi"
    using that choose_best [of cps ?m "length cps" ?u] by auto
  then show ?thesis using assms(1) mb_scan_eq [OF c(2), of ?m 0 0]
    by (auto simp: ASN1_mbstring_ncopy_def Let_def not_le split: if_splits)
next
  case False
  have "mb_format inform \<Longrightarrow> mb_scan inform (region inp len) (if m = 0 then DIRSTRING_TYPE else m) 0 0 = None"
    using False mb_scan_sound [of inform "region inp len" "if m = 0 then DIRSTRING_TYPE else m" 0 0]
    by (cases "mb_scan inform (region inp len) (if m = 0 then DIRSTRING_TYPE else m) 0 0") auto
  then show ?thesis using assms(1) by (auto simp: ASN1_mbstring_ncopy_def Let_def)
qed

section \<open>The UTF-8 form of a string\<close>

text \<open>The text of a string of a character type.\<close>

definition string_text :: "asn1_string \<Rightarrow> 32 word list \<Rightarrow> bool" where
  "string_text str cps \<longleftrightarrow>
     0 \<le> as_type str \<and> as_type str \<le> 30 \<and> tag2nbyte ! nat (as_type str) \<noteq> - 1 \<and>
     spells (0x1000 OR tag2nbyte ! nat (as_type str)) cps (astr_bytes str) \<and>
     \<not> starts_with_bom (0x1000 OR tag2nbyte ! nat (as_type str)) cps"

definition utf8_text :: "32 word list \<Rightarrow> bytes" where
  "utf8_text cps = concat (map (\<lambda>c. utf8_bytes (unat c)) cps)"

lemma mb_format_tag: "t \<le> 30 \<Longrightarrow> tag2nbyte ! t \<noteq> - 1 \<Longrightarrow> mb_format (0x1000 OR tag2nbyte ! t)"
proof -
  assume "t \<le> 30"
  then have "tag2nbyte ! t \<in> set tag2nbyte" by (intro nth_mem) (simp add: tag2nbyte_def)
  moreover assume "tag2nbyte ! t \<noteq> - 1"
  ultimately have "tag2nbyte ! t \<in> {0, 1, 2, 4}" by (auto simp: tag2nbyte_def)
  then show ?thesis by (auto simp: mb_format_def)
qed

lemma best_type_utf8: "best_type 0x2000 cps = Some (V_ASN1_UTF8STRING, MBSTRING_UTF8)"
proof -
  have "type_holds 13 = (\<lambda>c. True)" by (simp add: type_holds_def fun_eq_iff)
  then show ?thesis by (simp add: best_type_def preference_def bit_iff_odd list_all_iff)
qed

lemma copies_to_utf8:
  assumes "0 \<le> as_type str" "as_type str \<le> 30" "tag2nbyte ! nat (as_type str) \<noteq> - 1"
  shows "copies_to (0x1000 OR tag2nbyte ! nat (as_type str)) (astr_bytes str) 0x2000 0 0 cps t form
    \<longleftrightarrow> string_text str cps \<and> t = V_ASN1_UTF8STRING \<and> form = MBSTRING_UTF8"
  using assms mb_format_tag [of "nat (as_type str)"] by (auto simp: copies_to_def string_text_def best_type_utf8)

lemma spells_utf8: "spells MBSTRING_UTF8 cps s \<Longrightarrow> s = utf8_text cps"
  by (simp add: spells_def utf8_text_def mb_enc_def [abs_def])

lemma to_utf8_ok:
  assumes "malloc_total mal" "astr_ok str" "as_length str \<le> 2 ^ 28" "string_text str cps"
  shows "\<exists>p. ASN1_STRING_to_UTF8 mal str = (int (length (utf8_text cps)), p) \<and> region p (int (length (utf8_text cps))) = utf8_text cps"
proof -
  let ?form = "0x1000 OR tag2nbyte ! nat (as_type str)" and ?tmp = "\<lparr>as_length = 0, as_type = 0, as_data = None, as_flags = 0\<rparr>"
  have t: "0 \<le> as_type str" "as_type str \<le> 30" "tag2nbyte ! nat (as_type str) \<noteq> - 1" using assms(4) by (simp_all add: string_text_def)
  have v: "valid_region (as_data str) (as_length str)" using assms(2,3) by (auto simp: valid_region_def astr_ok_def split: option.splits)
  have "copies_to ?form (region (as_data str) (as_length str)) 0x2000 0 0 cps V_ASN1_UTF8STRING MBSTRING_UTF8"
    using copies_to_utf8 [OF t] assms(4) by (simp add: astr_bytes_def)
  then obtain d where d: "ASN1_mbstring_ncopy mal (Out ?tmp) (as_data str) (as_length str) ?form 0x2000 0 0 = (V_ASN1_UTF8STRING, Out d)"
    "astr_ok d" "spells MBSTRING_UTF8 cps (astr_bytes d)"
    using ncopy_ok [OF assms(1) v, where out = "Out ?tmp" and dest = ?tmp] by fastforce
  have s: "astr_bytes d = utf8_text cps" by (rule spells_utf8 [OF d(3)])
  have "int (length (astr_bytes d)) = as_length d"
    using d(2) by (auto simp: astr_ok_def astr_bytes_def region_def split: option.splits)
  then have "as_length d = int (length (utf8_text cps))" unfolding s ..
  then show ?thesis using t d(1) s by (simp add: ASN1_STRING_to_UTF8_def ASN1_mbstring_copy_def astr_bytes_def)
qed

lemma to_utf8_fails:
  assumes "astr_ok str" "\<nexists>cps. string_text str cps"
  shows "ASN1_STRING_to_UTF8 mal str = (- 1, None)"
proof (cases "0 \<le> as_type str \<and> as_type str \<le> 30 \<and> tag2nbyte ! nat (as_type str) \<noteq> - 1")
  case True
  then have t: "0 \<le> as_type str" "as_type str \<le> 30" "tag2nbyte ! nat (as_type str) \<noteq> - 1" by simp_all
  have "0 \<le> as_length str" using assms(1) by (simp add: astr_ok_def)
  then have "ASN1_mbstring_ncopy mal out (as_data str) (as_length str) (0x1000 OR tag2nbyte ! nat (as_type str)) 0x2000 0 0 = (- 1, out)" for out
    using copies_to_utf8 [OF t] assms(2) by (intro ncopy_fails) (simp_all add: astr_bytes_def [symmetric])
  then show ?thesis using t by (simp add: ASN1_STRING_to_UTF8_def ASN1_mbstring_copy_def)
next
  case False
  then show ?thesis by (auto simp: ASN1_STRING_to_UTF8_def Let_def)
qed

end
