(* ===== verification/X509Check.thy ===== *)
theory X509Check
  imports X509HostSpec Asn1StrSpec
begin

text \<open>
  The checks of a certificate against a host, a mailbox and an address, \<open>crypto/x509v3/v3_utl.c\<close>. A certificate is
  what the checks read of it: the decoded alternative names, if it has any, and the entries of the subject name,
  each with the number of its attribute type (\<open>crypto/x509/x509name.c\<close> finds the next entry of a type).
\<close>

abbreviation (input) NID_undef :: int where "NID_undef \<equiv> 0"
abbreviation (input) NID_commonName :: int where "NID_commonName \<equiv> 13"
abbreviation (input) NID_pkcs9_emailAddress :: int where "NID_pkcs9_emailAddress \<equiv> 48"
abbreviation (input) GEN_EMAIL :: int where "GEN_EMAIL \<equiv> 1"
abbreviation (input) GEN_DNS :: int where "GEN_DNS \<equiv> 2"
abbreviation (input) GEN_IPADD :: int where "GEN_IPADD \<equiv> 7"

record general_name =
  gen_type :: int
  gen_string :: asn1_string

type_synonym name_entry = "int \<times> asn1_string"

record certificate =
  cert_alt_names :: "general_name list option"
  cert_subject :: "name_entry list"

section \<open>Finding an entry of a name\<close>

function index_loop :: "name_entry list \<Rightarrow> int \<Rightarrow> nat \<Rightarrow> int" where
  "index_loop sk obj lastpos =
     (if lastpos < length sk then (if fst (sk ! lastpos) = obj then int lastpos else index_loop sk obj (lastpos + 1)) else - 1)"
  by pat_completeness auto
termination by (relation "measure (\<lambda>(sk, obj, lastpos). length sk - lastpos)") auto

declare index_loop.simps [simp del]

definition X509_NAME_get_index_by_OBJ :: "name_entry list \<Rightarrow> int \<Rightarrow> int \<Rightarrow> int" where
  "X509_NAME_get_index_by_OBJ name obj lastpos0 =
     (let lastpos = (if lastpos0 < 0 then - 1 else lastpos0) in index_loop name obj (nat (lastpos + 1)))"

lemma index_loop_bounds: "index_loop sk obj i = k \<Longrightarrow> 0 \<le> k \<Longrightarrow> int i \<le> k \<and> k < int (length sk)"
proof (induction sk obj i rule: index_loop.induct)
  case (1 sk obj i)
  have e: "(if i < length sk then if fst (sk ! i) = obj then int i else index_loop sk obj (i + 1) else - 1) = k"
    using "1.prems"(1) by (simp only: index_loop.simps [of sk obj i])
  show ?case using e "1.IH" "1.prems"(2) by (auto split: if_splits)
qed

lemma index_progress: "0 \<le> X509_NAME_get_index_by_OBJ name obj j \<Longrightarrow>
    j < X509_NAME_get_index_by_OBJ name obj j \<and> X509_NAME_get_index_by_OBJ name obj j < int (length name)"
  using index_loop_bounds [of name obj "nat ((if j < 0 then - 1 else j) + 1)"]
  by (force simp: X509_NAME_get_index_by_OBJ_def Let_def split: if_splits)

section \<open>Checking one string\<close>

text \<open>The result and \<open>*peername\<close>; the pointer itself may be NULL. The comparison of the lengths is one of \<open>int\<close>.\<close>

type_synonym peername = "bytes option option"

definition set_peername :: "platform_malloc \<Rightarrow> bool \<Rightarrow> bytes \<Rightarrow> peername \<Rightarrow> peername" where
  "set_peername mal matched str peer =
     (case peer of None \<Rightarrow> None | Some old \<Rightarrow> Some (if matched then OPENSSL_strndup mal str (length str) else old))"

definition do_check_string ::
  "platform_malloc \<Rightarrow> asn1_string \<Rightarrow> int \<Rightarrow> (bytes \<Rightarrow> bytes \<Rightarrow> 32 word \<Rightarrow> bool) \<Rightarrow> 32 word \<Rightarrow> int \<Rightarrow> bytes \<Rightarrow> peername \<Rightarrow> int \<times> peername" where
  "do_check_string mal a cmp_type equal flags check_type b peer =
     (if as_data a = None \<or> as_length a = 0 then (0, peer)
      else if 0 < cmp_type then
        (if cmp_type \<noteq> as_type a then (0, peer)
         else
           (let str = region (as_data a) (as_length a);
                rv = (if cmp_type = V_ASN1_IA5STRING then equal str b flags
                      else as_length a = sint (word_of_nat (length b) :: 32 word) \<and> str = b)
            in (if rv then 1 else 0, set_peername mal rv str peer)))
      else
        (case ASN1_STRING_to_UTF8 mal a of
           (astrlen, astr) \<Rightarrow>
             (if astrlen < 0 then (- 1, peer)
              else
                (let str = region astr astrlen;
                     rv = (if check_type = GEN_DNS \<and> \<not> x509v3_looks_like_dns_name str then False else equal str b flags)
                 in (if rv then 1 else 0, set_peername mal rv str peer)))))"

section \<open>Checking a certificate\<close>

fun check_gens ::
  "platform_malloc \<Rightarrow> general_name list \<Rightarrow> int \<Rightarrow> (bytes \<Rightarrow> bytes \<Rightarrow> 32 word \<Rightarrow> bool) \<Rightarrow> 32 word \<Rightarrow> int \<Rightarrow> bytes \<Rightarrow> peername \<Rightarrow> int \<times> peername" where
  "check_gens mal [] alt_type equal flags check_type chk peer = (0, peer)"
| "check_gens mal (gen # gens) alt_type equal flags check_type chk peer =
     (if gen_type gen \<noteq> check_type then check_gens mal gens alt_type equal flags check_type chk peer
      else (case do_check_string mal (gen_string gen) alt_type equal flags check_type chk peer of
              (rv, peer) \<Rightarrow> (if rv \<noteq> 0 then (rv, peer) else check_gens mal gens alt_type equal flags check_type chk peer)))"

function check_subject ::
  "platform_malloc \<Rightarrow> name_entry list \<Rightarrow> int \<Rightarrow> int \<Rightarrow> (bytes \<Rightarrow> bytes \<Rightarrow> 32 word \<Rightarrow> bool) \<Rightarrow> 32 word \<Rightarrow> int \<Rightarrow> bytes \<Rightarrow> peername \<Rightarrow> int \<times> peername" where
  "check_subject mal name cnid j equal flags check_type chk peer =
     (let j = X509_NAME_get_index_by_OBJ name cnid j
      in if j < 0 then (0, peer)
         else (case do_check_string mal (snd (name ! nat j)) (- 1) equal flags check_type chk peer of
                 (rv, peer) \<Rightarrow> (if rv \<noteq> 0 then (rv, peer) else check_subject mal name cnid j equal flags check_type chk peer)))"
  by pat_completeness auto
termination
proof (relation "measure (\<lambda>(mal, name, cnid, j, r). nat (int (length name) - j))", goal_cases)
  case (2 mal name cnid j)
  then show ?case using index_progress [of name cnid j] by auto
qed auto

declare check_subject.simps [simp del]

text \<open>The type of the alternative names, the attribute of the subject, and the comparison, by the kind of the check.\<close>

definition check_plan :: "int \<Rightarrow> 32 word \<Rightarrow> bytes \<Rightarrow> 32 word \<times> int \<times> int \<times> (bytes \<Rightarrow> bytes \<Rightarrow> 32 word \<Rightarrow> bool)" where
  "check_plan check_type flags0 chk =
     (let flags = flags0 AND NOT X509_CHECK_FLAG_DOT_SUBDOMAINS
      in if check_type = GEN_EMAIL then (flags, NID_pkcs9_emailAddress, V_ASN1_IA5STRING, equal_email)
         else if check_type = GEN_DNS then
           (let flags = (if 1 < length chk \<and> chk ! 0 = dot then flags OR X509_CHECK_FLAG_DOT_SUBDOMAINS else flags)
            in (flags, NID_commonName, V_ASN1_IA5STRING,
                if flags AND X509_CHECK_FLAG_NO_WILDCARDS \<noteq> 0 then equal_nocase else equal_wildcard))
         else (flags, NID_undef, V_ASN1_OCTET_STRING, equal_case))"

definition do_x509_check :: "platform_malloc \<Rightarrow> certificate \<Rightarrow> bytes \<Rightarrow> 32 word \<Rightarrow> int \<Rightarrow> peername \<Rightarrow> int \<times> peername" where
  "do_x509_check mal x chk flags check_type peer =
     (case check_plan check_type flags chk of
        (flags, cnid, alt_type, equal) \<Rightarrow>
          (case cert_alt_names x of
             Some gens \<Rightarrow> check_gens mal gens alt_type equal flags check_type chk peer
           | None \<Rightarrow>
               (if cnid = NID_undef \<or> flags AND X509_CHECK_FLAG_NEVER_CHECK_SUBJECT \<noteq> 0 then (0, peer)
                else check_subject mal (cert_subject x) cnid (- 1) equal flags check_type chk peer)))"

definition X509_check_host :: "platform_malloc \<Rightarrow> certificate \<Rightarrow> bytes option \<Rightarrow> 32 word \<Rightarrow> peername \<Rightarrow> int \<times> peername" where
  "X509_check_host mal x chk flags peer =
     (case chk of
        None \<Rightarrow> (- 2, peer)
      | Some c \<Rightarrow>
          (if OPENSSL_memchr c 0 (length c) \<noteq> None then (- 2, peer)
           else do_x509_check mal x c flags GEN_DNS peer))"

definition X509_check_email :: "platform_malloc \<Rightarrow> certificate \<Rightarrow> bytes option \<Rightarrow> 32 word \<Rightarrow> int" where
  "X509_check_email mal x chk flags =
     (case chk of
        None \<Rightarrow> - 2
      | Some c \<Rightarrow>
          (if OPENSSL_memchr c 0 (length c) \<noteq> None then - 2
           else fst (do_x509_check mal x c flags GEN_EMAIL None)))"

definition X509_check_ip :: "platform_malloc \<Rightarrow> certificate \<Rightarrow> bytes option \<Rightarrow> 32 word \<Rightarrow> int" where
  "X509_check_ip mal x chk flags =
     (case chk of None \<Rightarrow> - 2 | Some c \<Rightarrow> fst (do_x509_check mal x c flags GEN_IPADD None))"

end
