(* ===== verification/X509CheckSpec.thy ===== *)
theory X509CheckSpec
  imports X509Check
begin

text \<open>
  When the checks of a certificate succeed: the host names that a pattern matches, stated without the code's loops,
  the lists of names as a whole, and the name that is handed to the caller.
\<close>

section \<open>Hosts\<close>

text \<open>A name with a star matches label by label.\<close>

definition matches_star :: "32 word \<Rightarrow> bytes \<Rightarrow> bytes \<Rightarrow> bool" where
  "matches_star flags p s \<longleftrightarrow>
     (\<exists>pre rest. p = pre @ 42 # rest \<and> asterisk \<notin> set pre \<and> dot \<notin> set pre \<and> star_pattern flags pre rest \<and>
        label_covers pre (hd (labels rest)) (hd (labels s)) \<and> map (map lower) (tl (labels s)) = map (map lower) (tl (labels rest)))"

definition matches_plain :: "bytes \<Rightarrow> bytes \<Rightarrow> bool" where
  "matches_plain p s \<longleftrightarrow> 0 \<notin> set p \<and> map lower p = map lower s"

text \<open>With the flag for several labels a star that is a whole label stands for one label or more.\<close>

definition matches_several :: "32 word \<Rightarrow> bytes \<Rightarrow> bytes \<Rightarrow> bool" where
  "matches_several flags p s \<longleftrightarrow>
     (\<exists>rest mid b. p = asterisk # dot # rest \<and> star_pattern flags [] (dot # rest) \<and> s = mid @ b \<and> map lower b = map lower (dot # rest) \<and>
        mid \<noteq> [] \<and> (mid = [asterisk] \<or> list_all (\<lambda>c. ldh c \<or> c = dot) mid))"

text \<open>A name that starts with a dot asks for any subdomain, or for those with one label more.\<close>

definition relative :: "bytes \<Rightarrow> bool" where
  "relative s \<longleftrightarrow> 1 < length s \<and> s ! 0 = dot"

definition matches_subdomain :: "32 word \<Rightarrow> bytes \<Rightarrow> bytes \<Rightarrow> bool" where
  "matches_subdomain flags p s \<longleftrightarrow> 0 \<notin> set p \<and> (\<exists>pre suf. p = pre @ suf \<and> skippable pre flags \<and> map lower suf = map lower s)"

definition host_matches :: "32 word \<Rightarrow> bytes \<Rightarrow> bytes \<Rightarrow> bool" where
  "host_matches flags p s \<longleftrightarrow>
     (if relative s then matches_subdomain flags p s
      else matches_plain p s \<or> flags AND X509_CHECK_FLAG_NO_WILDCARDS = 0 \<and>
        (matches_star flags p s \<or> flags AND X509_CHECK_FLAG_MULTI_LABEL_WILDCARDS \<noteq> 0 \<and> matches_several flags p s))"

lemma idna_lower: "map lower a = map lower b \<Longrightarrow> idna a \<longleftrightarrow> idna b"
  unfolding idna_def take_map [symmetric] by (simp only:)

lemma star_pattern_nonzero: "star_pattern flags pre rest \<Longrightarrow> 0 \<notin> set (pre @ 42 # rest)"
proof -
  assume s: "star_pattern flags pre rest"
  then have "0 \<notin> set rest" by (elim star_pattern_rest)
  then show ?thesis using s ldh_nonzero [of pre] by (auto simp: star_pattern_def)
qed

text \<open>A name that is equal to the pattern is among the names that its star matches.\<close>

lemma plain_star:
  assumes "p = pre @ 42 # rest" "dot \<notin> set pre" "star_pattern flags pre rest" "map lower p = map lower s"
  shows "label_covers pre (hd (labels rest)) (hd (labels s)) \<and> map (map lower) (tl (labels s)) = map (map lower) (tl (labels rest))"
proof -
  have "map lower s = map lower pre @ lower 42 # map lower rest" using assms(1,4) by simp
  then obtain a c b where s: "s = a @ c # b" "map lower a = map lower pre" "lower c = lower 42" "map lower b = map lower rest"
    by (auto simp: map_eq_append_conv map_eq_Cons_conv)
  have c: "c = 42" using s(3) lower_specials(3) [of c] by (simp add: lower_def)
  have a: "dot \<notin> set a" using special_mem(2) [OF s(2)] assms(2) by simp
  have l: "labels s = (a @ 42 # hd (labels b)) # tl (labels b)"
    using labels_append_dotfree [OF a, of "42 # b"] by (simp add: s(1) c)
  have lb: "map (map lower) (labels b) = map (map lower) (labels rest)" using s(4) by (simp flip: labels_lower)
  then have t: "map (map lower) (tl (labels b)) = map (map lower) (tl (labels rest))"
    and h: "map lower (hd (labels b)) = map lower (hd (labels rest))" by (metis map_tl, metis hd_map labels_nonempty)
  have "\<not> idna (a @ 42 # hd (labels b))" using idna_lower [OF s(2)] assms(3) by (simp add: star_pattern_def)
  then have "label_covers pre (hd (labels rest)) (a @ 42 # hd (labels b))"
    unfolding label_covers_def using s(2) h by (intro exI [of _ a] exI [of _ "[42]"] exI [of _ "hd (labels b)"]) simp
  then show ?thesis using l t by simp
qed

lemma star_pattern_cong: "flags AND 4 = flags' AND (4 :: 32 word) \<Longrightarrow> star_pattern flags = star_pattern flags'"
  by (intro ext) (simp add: star_pattern_def)

lemma wildcard_char_several: "wildcard_char True c \<longleftrightarrow> ldh c \<or> c = dot"
  by (auto simp: wildcard_char_def ldh_def label_char_def)

text \<open>The flag for several labels adds the names that only a star that is a whole label matches.\<close>

lemma wildcard_match_several:
  assumes "0 \<notin> set rest"
  shows "wildcard_match pre rest s flags \<longleftrightarrow> wildcard_match pre rest s (flags AND NOT 8) \<or>
    (flags AND X509_CHECK_FLAG_MULTI_LABEL_WILDCARDS \<noteq> 0 \<and> pre = [] \<and> rest ! 0 = dot \<and>
      (\<exists>mid b. s = mid @ b \<and> map lower b = map lower rest \<and> mid \<noteq> [] \<and> (mid = [asterisk] \<or> list_all (\<lambda>c. ldh c \<or> c = dot) mid)))"
    (is "_ \<longleftrightarrow> _ \<or> ?M \<and> _ \<and> _ \<and> ?several")
proof -
  have off: "(flags AND NOT 8) AND 8 = (0 :: 32 word)" by (simp add: and.assoc)
  have nz: "0 \<notin> set b" if "map lower b = map lower rest" for b using special_mem(1) [OF that] assms by simp
  show ?thesis
  proof (cases "?M \<and> pre = [] \<and> rest ! 0 = dot")
    case False
    then have m: "((pre = [] \<and> rest ! 0 = dot) \<and> flags AND 8 \<noteq> 0) = ((pre = [] \<and> rest ! 0 = dot) \<and> (flags AND NOT 8) AND 8 \<noteq> 0)" using off by blast
    have "wildcard_match pre rest s flags \<longleftrightarrow> wildcard_match pre rest s (flags AND NOT 8)" unfolding wildcard_match_iff Let_def m ..
    then show ?thesis using False by blast
  next
    case True
    have "wildcard_match pre rest s flags \<longleftrightarrow> ?several"
      unfolding wildcard_match_iff Let_def using True nz by (auto simp: wildcard_char_several [abs_def])
    moreover have "?several" if one: "wildcard_match pre rest s (flags AND NOT 8)"
    proof -
      obtain mid b where m: "s = mid @ b" "map lower b = map lower rest" "mid \<noteq> []"
        "mid = [asterisk] \<or> list_all (wildcard_char False) mid"
        using one True off unfolding wildcard_match_iff Let_def by auto
      then have "mid = [asterisk] \<or> list_all (\<lambda>c. ldh c \<or> c = dot) mid" by (auto simp: wildcard_char_single list_all_iff)
      then show ?thesis using m by blast
    qed
    ultimately show ?thesis using True by blast
  qed
qed

lemma equal_wildcard_matches:
  assumes "flags AND X509_CHECK_FLAG_DOT_SUBDOMAINS = 0" "\<not> relative s"
  shows "equal_wildcard p s flags \<longleftrightarrow>
    matches_plain p s \<or> matches_star flags p s \<or> flags AND X509_CHECK_FLAG_MULTI_LABEL_WILDCARDS \<noteq> 0 \<and> matches_several flags p s"
proof (cases "valid_star p flags")
  case None
  have v: "\<not> (\<exists>pre rest. p = pre @ 42 # rest \<and> asterisk \<notin> set pre \<and> dot \<notin> set pre \<and> star_pattern flags pre rest)"
    using None valid_star_iff [of p flags] by auto
  have "\<not> matches_star flags p s" using v by (auto simp: matches_star_def)
  moreover have "\<not> matches_several flags p s" using v by (fastforce simp: matches_several_def)
  ultimately show ?thesis using None assms(1) by (simp add: equal_wildcard_def equal_nocase_iff matches_plain_def)
next
  case (Some k)
  then obtain pre rest where p: "p = pre @ 42 # rest" "k = length pre" "asterisk \<notin> set pre" "dot \<notin> set pre" "star_pattern flags pre rest"
    unfolding valid_star_iff by blast
  let ?one = "flags AND NOT 8"
  have one: "?one AND X509_CHECK_FLAG_MULTI_LABEL_WILDCARDS = 0" "star_pattern ?one pre rest"
    using p(5) star_pattern_cong [of ?one flags] by (simp_all add: and.assoc)
  have single: "wildcard_match pre rest s ?one \<longleftrightarrow>
    label_covers pre (hd (labels rest)) (hd (labels s)) \<and> map (map lower) (tl (labels s)) = map (map lower) (tl (labels rest))"
    by (rule wildcard_match_labels [OF one(2) p(4) one(1)])
  have only: "pre' = pre \<and> rest' = rest" if "p = pre' @ 42 # rest'" "asterisk \<notin> set pre'" for pre' rest'
    using that p(1,3) by (auto simp: append_eq_append_conv2 append_eq_Cons_conv Cons_eq_append_conv)
  then have star: "matches_star flags p s \<longleftrightarrow> wildcard_match pre rest s ?one" unfolding matches_star_def single using p by blast
  have nz: "0 \<notin> set rest" using star_pattern_nonzero [OF p(5)] by simp
  obtain post tail where post: "rest = post @ 46 # tail" using star_pattern_rest [OF p(5)] by metis
  have several: "matches_several flags p s \<longleftrightarrow> pre = [] \<and> rest ! 0 = dot \<and>
      (\<exists>mid b. s = mid @ b \<and> map lower b = map lower rest \<and> mid \<noteq> [] \<and> (mid = [asterisk] \<or> list_all (\<lambda>c. ldh c \<or> c = dot) mid))" (is "?L \<longleftrightarrow> ?R")
  proof
    assume ?L
    then obtain r mid b where r: "p = asterisk # dot # r" "s = mid @ b" "map lower b = map lower (dot # r)" "mid \<noteq> []"
      "mid = [asterisk] \<or> list_all (\<lambda>c. ldh c \<or> c = dot) mid" unfolding matches_several_def by blast
    then have "[] = pre \<and> dot # r = rest" using only [of "[]" "dot # r"] by simp
    then show ?R using r by auto
  next
    assume R: ?R
    then obtain r where "rest = dot # r" using post by (cases post) auto
    then show ?L unfolding matches_several_def using R p(1,5) by auto
  qed
  have e: "equal_wildcard p s flags \<longleftrightarrow> wildcard_match pre rest s flags"
    using assms(2) Some p(1,2) by (simp add: equal_wildcard_def relative_def)
  have "matches_star flags p s" if "matches_plain p s"
    using plain_star [OF p(1,4,5)] that unfolding star single matches_plain_def by blast
  then show ?thesis using wildcard_match_several [OF nz, of pre s flags] unfolding e star several by blast
qed

text \<open>A name that starts with a dot matches no wildcard.\<close>

lemma equal_relative:
  assumes "flags AND X509_CHECK_FLAG_DOT_SUBDOMAINS \<noteq> 0" "relative s"
  shows "equal_nocase p s flags \<longleftrightarrow> matches_subdomain flags p s" "equal_wildcard p s flags \<longleftrightarrow> matches_subdomain flags p s"
proof -
  have "skippable [] flags" by (simp add: skippable_def)
  then have "(\<exists>pre suf. p = pre @ suf \<and> skippable pre flags \<and> map lower suf = map lower s)" if "map lower p = map lower s"
    using that by (intro exI [of _ "[]"] exI [of _ p]) simp
  then show n: "equal_nocase p s flags \<longleftrightarrow> matches_subdomain flags p s"
    using assms(1) unfolding equal_nocase_iff matches_subdomain_def by blast
  then show "equal_wildcard p s flags \<longleftrightarrow> matches_subdomain flags p s" using assms(2) by (simp add: equal_wildcard_def relative_def)
qed

text \<open>Whatever the flags, only names without a NUL are accepted.\<close>

lemma equal_nocase_nonzero: "equal_nocase p s flags \<Longrightarrow> 0 \<notin> set p"
  by (simp add: equal_nocase_iff)

lemma equal_wildcard_nonzero:
  assumes "equal_wildcard p s flags"
  shows "0 \<notin> set p"
proof (cases "if \<not> (1 < length s \<and> s ! 0 = dot) then valid_star p flags else None")
  case None
  then show ?thesis using assms equal_nocase_nonzero by (simp add: equal_wildcard_def)
next
  case (Some k)
  then have "valid_star p flags = Some k" by (simp split: if_splits)
  then show ?thesis unfolding valid_star_iff using star_pattern_nonzero by blast
qed

section \<open>Mailboxes\<close>

definition last_at :: "bytes \<Rightarrow> bytes \<Rightarrow> nat \<Rightarrow> bool" where
  "last_at a b i \<longleftrightarrow> i < length a \<and> (a ! i = at_sign \<or> b ! i = at_sign) \<and> (\<forall>j. i < j \<and> j < length a \<longrightarrow> a ! j \<noteq> at_sign \<and> b ! j \<noteq> at_sign)"

lemma email_loop_at:
  assumes "i < n" "a ! i = at_sign \<or> b ! i = at_sign" "\<forall>j. i < j \<and> j < n \<longrightarrow> a ! j \<noteq> at_sign \<and> b ! j \<noteq> at_sign"
  shows "email_loop a b n = (if equal_nocase (drop i a) (drop i b) 0 then Some i else None)"
  using assms
proof (induction n)
  case (Suc n)
  then show ?case by (cases "i = n") auto
qed simp

lemma email_loop_none:
  "\<forall>j<n. a ! j \<noteq> at_sign \<and> b ! j \<noteq> at_sign \<Longrightarrow> email_loop a b n = Some 0"
  by (induction n) auto

lemma equal_case_plain: "flags AND X509_CHECK_FLAG_DOT_SUBDOMAINS = 0 \<Longrightarrow> equal_case p s flags \<longleftrightarrow> p = s"
  by (auto simp: equal_case_def skip_prefix_def Let_def)

lemma equal_email_at:
  assumes "last_at a b i" "length a = length b"
  shows "equal_email a b flags \<longleftrightarrow>
    0 \<notin> set (drop i a) \<and> map lower (drop i a) = map lower (drop i b) \<and> (if i = 0 then a = b else take i a = take i b)"
proof -
  have i: "i < length a" using assms(1) by (simp add: last_at_def)
  have "email_loop a b (length a) = (if equal_nocase (drop i a) (drop i b) 0 then Some i else None)"
    using assms(1) by (intro email_loop_at) (auto simp: last_at_def)
  moreover have "equal_nocase (drop i a) (drop i b) 0 \<longleftrightarrow> 0 \<notin> set (drop i a) \<and> map lower (drop i a) = map lower (drop i b)"
    using assms(2) by (intro equal_nocase_same_length) simp
  ultimately show ?thesis using assms(2) by (simp add: equal_email_def Let_def equal_case_plain)
qed

lemma equal_email_without_at:
  assumes "at_sign \<notin> set a" "at_sign \<notin> set b"
  shows "equal_email a b flags \<longleftrightarrow> a = b"
proof (cases "length a = length b")
  case True
  then have "\<forall>j<length a. a ! j \<noteq> at_sign \<and> b ! j \<noteq> at_sign" using assms by (metis nth_mem)
  then show ?thesis using True email_loop_none [of "length a" a b] by (simp add: equal_email_def equal_case_plain)
next
  case False
  then show ?thesis by (auto simp: equal_email_def)
qed

section \<open>One string\<close>

definition usable :: "asn1_string \<Rightarrow> bool" where
  "usable a \<longleftrightarrow> as_data a \<noteq> None \<and> as_length a \<noteq> 0"

lemma set_peername_simps [simp]:
  "set_peername mal False str peer = peer" "set_peername mal m str None = None"
  "set_peername mal True str (Some old) = Some (OPENSSL_strndup mal str (length str))"
  by (auto simp: set_peername_def split: option.splits)

lemma check_ia5:
  "do_check_string mal a V_ASN1_IA5STRING equal flags check_type b peer =
    (let m = (usable a \<and> as_type a = V_ASN1_IA5STRING \<and> equal (astr_bytes a) b flags)
     in (if m then 1 else 0, set_peername mal m (astr_bytes a) peer))"
  by (auto simp: do_check_string_def usable_def astr_bytes_def Let_def)

lemma check_octets:
  "fst (do_check_string mal a V_ASN1_OCTET_STRING equal flags check_type b peer) =
    (if usable a \<and> as_type a = V_ASN1_OCTET_STRING \<and> as_length a = sint (word_of_nat (length b) :: 32 word) \<and> astr_bytes a = b then 1 else 0)"
  by (auto simp: do_check_string_def usable_def astr_bytes_def Let_def)

text \<open>The text of a common name that may be a host name.\<close>

definition name_text :: "int \<Rightarrow> asn1_string \<Rightarrow> bytes \<Rightarrow> bool" where
  "name_text check_type a u \<longleftrightarrow>
     (\<exists>cps. string_text a cps \<and> u = utf8_text cps) \<and> (check_type = GEN_DNS \<longrightarrow> x509v3_looks_like_dns_name u)"

definition has_utf8 :: "asn1_string \<Rightarrow> bool" where
  "has_utf8 a \<longleftrightarrow> (\<exists>cps. string_text a cps)"

lemma string_text_unique: "string_text a cps \<Longrightarrow> string_text a cps' \<Longrightarrow> cps = cps'"
  using spells_unique by (auto simp: string_text_def)

lemma check_converted:
  assumes "malloc_total mal" "astr_ok a" "as_length a \<le> 2 ^ 28"
  shows "do_check_string mal a (- 1) equal flags check_type b peer =
    (if \<not> usable a then (0, peer)
     else if \<not> has_utf8 a then (- 1, peer)
     else if \<exists>u. name_text check_type a u \<and> equal u b flags then
       (1, set_peername mal True (THE u. \<exists>cps. string_text a cps \<and> u = utf8_text cps) peer)
     else (0, peer))"
proof (cases "has_utf8 a")
  case True
  then obtain cps where c: "string_text a cps" by (auto simp: has_utf8_def)
  obtain p where p: "ASN1_STRING_to_UTF8 mal a = (int (length (utf8_text cps)), p)" "region p (int (length (utf8_text cps))) = utf8_text cps"
    using to_utf8_ok [OF assms c] by blast
  have u: "(\<exists>cps'. string_text a cps' \<and> u = utf8_text cps') \<longleftrightarrow> u = utf8_text cps" for u
    using string_text_unique [OF c] c by blast
  show ?thesis using True p unfolding name_text_def u by (auto simp: do_check_string_def usable_def Let_def)
next
  case False
  then have "ASN1_STRING_to_UTF8 mal a = (- 1, None)" using to_utf8_fails [OF assms(2)] by (simp add: has_utf8_def)
  then show ?thesis using False by (simp add: do_check_string_def usable_def)
qed

section \<open>The alternative names\<close>

definition ia5_match :: "(bytes \<Rightarrow> bool) \<Rightarrow> int \<Rightarrow> general_name \<Rightarrow> bool" where
  "ia5_match match check_type gen \<longleftrightarrow>
     gen_type gen = check_type \<and> usable (gen_string gen) \<and> as_type (gen_string gen) = V_ASN1_IA5STRING \<and> match (astr_bytes (gen_string gen))"

lemma check_gens_ia5:
  "fst (check_gens mal gens V_ASN1_IA5STRING equal flags check_type chk peer)
    = (if \<exists>gen\<in>set gens. ia5_match (\<lambda>n. equal n chk flags) check_type gen then 1 else 0)"
proof (induction gens)
  case (Cons gen gens)
  then show ?case by (auto simp: check_ia5 ia5_match_def Let_def)
qed simp

lemma check_gens_peer:
  "check_gens mal gens V_ASN1_IA5STRING equal flags check_type chk (Some old) = (1, peer) \<Longrightarrow>
    \<exists>gen\<in>set gens. ia5_match (\<lambda>n. equal n chk flags) check_type gen \<and>
      peer = Some (OPENSSL_strndup mal (astr_bytes (gen_string gen)) (length (astr_bytes (gen_string gen))))"
proof (induction gens)
  case (Cons gen gens)
  then show ?case by (auto simp: check_ia5 ia5_match_def Let_def split: if_splits)
qed simp

section \<open>The subject\<close>

lemma index_loop_filter:
  "(if index_loop sk obj i < 0 then filter (\<lambda>e. fst e = obj) (drop i sk) = []
    else fst (sk ! nat (index_loop sk obj i)) = obj \<and> nat (index_loop sk obj i) < length sk \<and>
      filter (\<lambda>e. fst e = obj) (drop i sk)
        = sk ! nat (index_loop sk obj i) # filter (\<lambda>e. fst e = obj) (drop (nat (index_loop sk obj i) + 1) sk))"
proof (induction sk obj i rule: index_loop.induct)
  case (1 sk obj i)
  show ?case
  proof (cases "i < length sk")
    case True
    then have d: "drop i sk = sk ! i # drop (i + 1) sk" by (simp add: Cons_nth_drop_Suc)
    show ?thesis
    proof (cases "fst (sk ! i) = obj")
      case False
      then show ?thesis using 1 True unfolding d index_loop.simps [of sk obj i] by (auto split: if_splits)
    qed (simp add: index_loop.simps [of sk obj i] True d)
  next
    case False
    then show ?thesis by (simp add: index_loop.simps [of sk obj i])
  qed
qed

fun check_all ::
  "platform_malloc \<Rightarrow> asn1_string list \<Rightarrow> (bytes \<Rightarrow> bytes \<Rightarrow> 32 word \<Rightarrow> bool) \<Rightarrow> 32 word \<Rightarrow> int \<Rightarrow> bytes \<Rightarrow> peername \<Rightarrow> int \<times> peername" where
  "check_all mal [] equal flags check_type chk peer = (0, peer)"
| "check_all mal (a # as) equal flags check_type chk peer =
     (case do_check_string mal a (- 1) equal flags check_type chk peer of
        (rv, peer) \<Rightarrow> (if rv \<noteq> 0 then (rv, peer) else check_all mal as equal flags check_type chk peer))"

text \<open>The loop over the indices of the entries of a type is a loop over those entries.\<close>

lemma check_subject_eq:
  "- 1 \<le> j \<Longrightarrow> check_subject mal name cnid j equal flags check_type chk peer
    = check_all mal (map snd (filter (\<lambda>e. fst e = cnid) (drop (nat (j + 1)) name))) equal flags check_type chk peer"
proof (induction mal name cnid j equal flags check_type chk peer rule: check_subject.induct)
  case (1 mal name cnid j equal flags check_type chk peer)
  let ?k = "index_loop name cnid (nat (j + 1))"
  have k: "X509_NAME_get_index_by_OBJ name cnid j = ?k" using 1(2) by (simp add: X509_NAME_get_index_by_OBJ_def Let_def)
  note f = index_loop_filter [of name cnid "nat (j + 1)"]
  show ?case
  proof (cases "?k < 0")
    case True
    then show ?thesis using f k by (subst check_subject.simps) simp
  next
    case False
    then have n: "nat (?k + 1) = nat ?k + 1" by linarith
    obtain rv peer' where r: "do_check_string mal (snd (name ! nat ?k)) (- 1) equal flags check_type chk peer = (rv, peer')" by fastforce
    show ?thesis
      using 1(1) [OF k [symmetric] False r [symmetric]] False f k n r
      by (subst check_subject.simps) (auto simp: Let_def)
  qed
qed

end
