(* ===== verification/X509Props.thy ===== *)
theory X509Props
  imports X509CheckSpec
begin

text \<open>
  The properties of the checks of a certificate against a host, and of the conversion of its names to UTF-8.
\<close>

section \<open>The checks as a whole\<close>

lemma flags_masked [simp]:
  "(flags AND - 32769) AND 2 = flags AND (2 :: 32 word)" "(flags AND - 32769) AND 4 = flags AND (4 :: 32 word)"
  "(flags AND - 32769) AND 8 = flags AND (8 :: 32 word)" "(flags AND - 32769) AND 0x20 = flags AND (0x20 :: 32 word)"
  "(flags AND - 32769) AND 0x8000 = (0 :: 32 word)"
  by (simp_all add: and.assoc)

text \<open>The flags that the comparisons are given: the caller's, with the one for subdomains set exactly for a name with a dot at the front.\<close>

definition host_flags :: "32 word \<Rightarrow> bytes \<Rightarrow> 32 word" where
  "host_flags flags chk =
     (if relative chk then (flags AND NOT X509_CHECK_FLAG_DOT_SUBDOMAINS) OR X509_CHECK_FLAG_DOT_SUBDOMAINS
      else flags AND NOT X509_CHECK_FLAG_DOT_SUBDOMAINS)"

lemma host_flags_bits [simp]:
  "host_flags flags chk AND 2 = flags AND 2" "host_flags flags chk AND 4 = flags AND 4" "host_flags flags chk AND 8 = flags AND 8"
  "host_flags flags chk AND 0x10 = flags AND 0x10" "host_flags flags chk AND 0x20 = flags AND 0x20"
  "host_flags flags chk AND 0x8000 = (if relative chk then 0x8000 else 0)"
  by (simp_all add: host_flags_def and.assoc bit.conj_disj_distrib2)

lemma host_plan:
  "check_plan GEN_DNS flags chk =
    (host_flags flags chk, NID_commonName, V_ASN1_IA5STRING, if flags AND 2 \<noteq> 0 then equal_nocase else equal_wildcard)"
proof -
  have "host_flags flags chk AND 2 = flags AND 2" by simp
  then show ?thesis by (auto simp: check_plan_def host_flags_def relative_def Let_def simp del: flags_masked)
qed

lemma matches_cong:
  assumes "flags AND 4 = flags' AND (4 :: 32 word)" "flags AND 0x10 = flags' AND (0x10 :: 32 word)"
  shows "matches_star flags = matches_star flags'" "matches_several flags = matches_several flags'" "matches_subdomain flags = matches_subdomain flags'"
proof -
  note s = star_pattern_cong [OF assms(1)]
  have k: "skippable pre flags = skippable pre flags'" for pre using assms(2) by (simp add: skippable_def)
  show "matches_star flags = matches_star flags'" "matches_several flags = matches_several flags'" "matches_subdomain flags = matches_subdomain flags'"
    by (intro ext; simp only: matches_star_def matches_several_def matches_subdomain_def s k)+
qed

lemma host_equal:
  "(if flags AND 2 \<noteq> 0 then equal_nocase else equal_wildcard) n chk (host_flags flags chk) \<longleftrightarrow> host_matches flags n chk"
proof -
  let ?f = "host_flags flags chk"
  have c: "matches_star ?f = matches_star flags" "matches_several ?f = matches_several flags" "matches_subdomain ?f = matches_subdomain flags"
    by (rule matches_cong; simp)+
  show ?thesis
  proof (cases "relative chk")
    case True
    then show ?thesis using equal_relative [of ?f chk n] by (simp add: host_matches_def c)
  next
    case False
    then show ?thesis using equal_wildcard_matches [of ?f chk n]
      by (simp add: host_matches_def c equal_nocase_iff matches_plain_def)
  qed
qed

lemma memchr_none: "OPENSSL_memchr c x (length c) = None \<longleftrightarrow> x \<notin> set c"
proof -
  have "length (takeWhile (\<lambda>b. b \<noteq> x) c) < length c \<longleftrightarrow> x \<in> set c"
    by (induction c) auto
  then show ?thesis by (simp add: OPENSSL_memchr_def Let_def)
qed

fun subject_verdict :: "(asn1_string \<Rightarrow> bool) \<Rightarrow> asn1_string list \<Rightarrow> int" where
  "subject_verdict match [] = 0"
| "subject_verdict match (a # as) =
     (if \<not> usable a then subject_verdict match as
      else if \<not> has_utf8 a then - 1
      else if match a then 1
      else subject_verdict match as)"

lemma check_all_verdict:
  assumes "malloc_total mal" "\<forall>a\<in>set as. astr_ok a \<and> as_length a \<le> 2 ^ 28"
  shows "fst (check_all mal as equal flags check_type chk peer) = subject_verdict (\<lambda>a. \<exists>u. name_text check_type a u \<and> equal u chk flags) as"
  using assms(2)
proof (induction as)
  case (Cons a as)
  then show ?case using check_converted [OF assms(1), of a equal flags check_type chk peer] by auto
qed simp

lemma subject_verdict_cong:
  "(\<And>a. P a \<longleftrightarrow> Q a) \<Longrightarrow> subject_verdict P as = subject_verdict Q as"
  by (induction as) auto

section \<open>Wildcards\<close>

text \<open>C32. \<open>valid_star\<close> is exact: it accepts a pattern, and returns the index of its star, if and only if the pattern
  has its only star at the start or the end of its first label (as the flags allow), that label is no
  internationalised one, at least two host labels follow, and no label starts or ends with a hyphen.\<close>

theorem valid_star_exact:
  "valid_star p flags = Some k \<longleftrightarrow>
     (\<exists>pre rest. p = pre @ 42 # rest \<and> k = length pre \<and> asterisk \<notin> set pre \<and> dot \<notin> set pre \<and> star_pattern flags pre rest)"
  by (rule valid_star_iff)

text \<open>C15. A wildcard stands for one label or a part of it: a pattern with a star matches a name if and only if the
  name has as many labels, its first label is covered by the pattern's first label and its other labels are those of
  the pattern up to case, unless the flag for several labels is set or the name starts with a dot.\<close>

theorem wildcard_covers_one_label:
  assumes "valid_star p flags = Some k" "flags AND X509_CHECK_FLAG_MULTI_LABEL_WILDCARDS = 0" "\<not> (1 < length s \<and> s ! 0 = dot)"
  shows "equal_wildcard p s flags \<longleftrightarrow>
    label_covers (take k (hd (labels p))) (drop (k + 1) (hd (labels p))) (hd (labels s))
      \<and> map (map lower) (tl (labels s)) = map (map lower) (tl (labels p))"
  using assms by (rule equal_wildcard_labels)

text \<open>The pattern \<open>*.a.b\<close> does not match \<open>c.d.a.b\<close>.\<close>

lemma wildcard_covers_one_label_witness:
  "\<not> equal_wildcard [42, 46, 97, 46, 98] [99, 46, 100, 46, 97, 46, 98] 0"
proof -
  have v: "valid_star [42, 46, 97, 46, 98] 0 = Some 0"
    by (simp add: valid_star_def star_step_def label_char_def Let_def)
  show ?thesis using wildcard_covers_one_label [OF v, of "[99, 46, 100, 46, 97, 46, 98]"] by simp
qed

section \<open>Hosts\<close>

text \<open>C14. With alternative names the verdict on a host is decided by them alone: it is 1 if a name of type DNS, an
  IA5String, matches the host, and 0 otherwise, whatever the subject; a host that is NULL or has a NUL in it is an error, -2. A name matches if
  it is equal up to case, or by its wildcard, which stands for one label or a part of it, or with the flag for several labels for more if
  it is a whole label, or not at all with the flag against wildcards. A host that starts with a dot is matched by the names that end with it,
  with the flag for single labels by those with one label more.\<close>

theorem check_host_exact:
  assumes "cert_alt_names x = Some gens"
  shows "fst (X509_check_host mal x None flags peer) = - 2 \<and>
    fst (X509_check_host mal x (Some chk) flags peer)
    = (if 0 \<in> set chk then - 2 else if \<exists>gen\<in>set gens. ia5_match (\<lambda>n. host_matches flags n chk) GEN_DNS gen then 1 else 0)"
  using assms host_equal [of flags _ chk] memchr_none [of chk 0]
  by (simp add: X509_check_host_def do_x509_check_def host_plan check_gens_ia5 split: if_split)

lemma check_host_exact_witness:
  "fst (X509_check_host (\<lambda>n. None)
     \<lparr>cert_alt_names = Some [\<lparr>gen_type = 2, gen_string = \<lparr>as_length = 3, as_type = 22, as_data = Some [65, 46, 98], as_flags = 0\<rparr>\<rparr>],
      cert_subject = []\<rparr> (Some [97, 46, 98]) 0 None) = 1"
proof -
  let ?gen = "\<lparr>gen_type = 2, gen_string = \<lparr>as_length = 3, as_type = 22, as_data = Some [65, 46, 98], as_flags = 0\<rparr>\<rparr>"
  have "ia5_match (\<lambda>n. host_matches 0 n [97, 46, 98]) 2 ?gen"
    by (simp add: ia5_match_def usable_def astr_bytes_def region_def host_matches_def relative_def matches_plain_def lower_def)
  then show ?thesis
    using check_host_exact [of "\<lparr>cert_alt_names = Some [?gen], cert_subject = []\<rparr>" "[?gen]" "\<lambda>n. None" 0 None "[97, 46, 98]"] by simp
qed

text \<open>C33. Without alternative names the common names are consulted, unless the flag against it is set and the verdict is 0: in the order of
  the subject and converted to UTF-8, the first that looks like a host name and matches decides for the host, one that cannot be converted ends the
  search with an error, and the search finds every entry of the type; a host with a NUL in it is an error, -2. The conversions find
  memory, and the strings of the subject are well formed and of at most 2 ^ 28 bytes.\<close>

theorem check_host_common_names:
  assumes "malloc_total mal" "cert_alt_names x = None" "\<forall>e\<in>set (cert_subject x). astr_ok (snd e) \<and> as_length (snd e) \<le> 2 ^ 28"
  shows "fst (X509_check_host mal x (Some chk) flags peer)
    = (if 0 \<in> set chk then - 2
       else if flags AND X509_CHECK_FLAG_NEVER_CHECK_SUBJECT \<noteq> 0 then 0
       else subject_verdict (\<lambda>a. \<exists>u. name_text GEN_DNS a u \<and> host_matches flags u chk)
         (map snd (filter (\<lambda>e. fst e = NID_commonName) (cert_subject x))))"
proof (cases "0 \<in> set chk \<or> flags AND X509_CHECK_FLAG_NEVER_CHECK_SUBJECT \<noteq> 0")
  case True
  then show ?thesis using assms(2) memchr_none [of chk 0] by (auto simp: X509_check_host_def do_x509_check_def host_plan)
next
  case False
  let ?eq = "if flags AND 2 \<noteq> 0 then equal_nocase else equal_wildcard"
  let ?as = "map snd (filter (\<lambda>e. fst e = NID_commonName) (cert_subject x))"
  have "fst (X509_check_host mal x (Some chk) flags peer) = fst (check_all mal ?as ?eq (host_flags flags chk) GEN_DNS chk peer)"
    using False assms(2) memchr_none [of chk 0] check_subject_eq [of "- 1"]
    by (simp add: X509_check_host_def do_x509_check_def host_plan)
  also have "\<dots> = subject_verdict (\<lambda>a. \<exists>u. name_text GEN_DNS a u \<and> ?eq u chk (host_flags flags chk)) ?as"
    using assms(3) by (intro check_all_verdict [OF assms(1)]) auto
  also have "\<dots> = subject_verdict (\<lambda>a. \<exists>u. name_text GEN_DNS a u \<and> host_matches flags u chk) ?as"
    by (rule subject_verdict_cong) (simp only: host_equal)
  finally show ?thesis using False by simp
qed

lemma check_host_common_names_witness:
  "fst (X509_check_host (\<lambda>n. Some (replicate n 0)) \<lparr>cert_alt_names = None,
     cert_subject = [(13, \<lparr>as_length = 3, as_type = 4, as_data = Some [65, 46, 98], as_flags = 0\<rparr>)]\<rparr> (Some [97, 46, 98]) 0 None) = - 1"
proof -
  let ?a = "\<lparr>as_length = 3, as_type = 4, as_data = Some [65, 46, 98], as_flags = 0\<rparr>"
  have "\<not> has_utf8 ?a" by (simp add: has_utf8_def string_text_def tag2nbyte_def)
  then show ?thesis
    using check_host_common_names [OF malloc_total_zeros, of "\<lparr>cert_alt_names = None, cert_subject = [(13, ?a)]\<rparr>" "[97, 46, 98]" 0 None]
    by (simp add: usable_def astr_ok_def)
qed

text \<open>A NUL hides nothing: the name that the caller gets back after a match, read as a C string, is the whole
  alternative name that matched, because a name with a NUL matches no host, whatever the flags.\<close>

theorem host_peername_whole:
  assumes "malloc_sound mal" "cert_alt_names x = Some gens" "\<forall>gen\<in>set gens. as_length (gen_string gen) \<le> 2147483647"
    and "X509_check_host mal x (Some chk) flags (Some old) = (1, Some (Some p))"
  shows "\<exists>gen\<in>set gens. gen_type gen = GEN_DNS \<and> cstring p = astr_bytes (gen_string gen) \<and> 0 \<notin> set (astr_bytes (gen_string gen))"
proof -
  obtain flags' equal where plan: "check_plan GEN_DNS flags chk = (flags', NID_commonName, V_ASN1_IA5STRING, equal)"
    "equal = equal_nocase \<or> equal = equal_wildcard" by (simp add: check_plan_def Let_def)
  have "check_gens mal gens V_ASN1_IA5STRING equal flags' GEN_DNS chk (Some old) = (1, Some (Some p))"
    using assms(2,4) plan(1) by (simp add: X509_check_host_def do_x509_check_def split: if_splits)
  from check_gens_peer [OF this] obtain gen where gen: "gen \<in> set gens" "ia5_match (\<lambda>n. equal n chk flags') GEN_DNS gen"
    "OPENSSL_strndup mal (astr_bytes (gen_string gen)) (length (astr_bytes (gen_string gen))) = Some p" by auto
  let ?n = "astr_bytes (gen_string gen)"
  have nz: "0 \<notin> set ?n"
    using gen(2) plan(2) equal_nocase_nonzero equal_wildcard_nonzero by (auto simp: ia5_match_def)
  have "length ?n \<le> nat (as_length (gen_string gen))" by (auto simp: astr_bytes_def region_def split: option.splits)
  then have "length ?n < SIZE_MOD - 1" using assms(3) gen(1) by fastforce
  then have "cstring p = cstring ?n" using OPENSSL_strndup_cstring [OF assms(1) gen(3)] by simp
  moreover have "cstring ?n = ?n" using nz by (auto simp: cstring_def takeWhile_eq_all_conv)
  ultimately show ?thesis using gen(1,2) nz by (intro bexI [of _ gen]) (auto simp: ia5_match_def)
qed

lemma host_peername_whole_witness:
  "\<exists>p. snd (X509_check_host (\<lambda>n. Some (replicate n 0))
     \<lparr>cert_alt_names = Some [\<lparr>gen_type = 2, gen_string = \<lparr>as_length = 3, as_type = 22, as_data = Some [65, 46, 98], as_flags = 0\<rparr>\<rparr>],
      cert_subject = []\<rparr> (Some [97, 46, 98]) 2 (Some None)) = Some (Some p) \<and> cstring p = [65, 46, 98]"
proof -
  let ?gen = "\<lparr>gen_type = 2, gen_string = \<lparr>as_length = 3, as_type = 22, as_data = Some [65, 46, 98], as_flags = 0\<rparr>\<rparr>"
  let ?x = "\<lparr>cert_alt_names = Some [?gen], cert_subject = []\<rparr>"
  obtain p where "X509_check_host (\<lambda>n. Some (replicate n 0)) ?x (Some [97, 46, 98]) 2 (Some None) = (1, Some (Some p))"
    by (simp add: X509_check_host_def OPENSSL_memchr_def do_x509_check_def check_plan_def do_check_string_def region_def equal_nocase_def
        skip_prefix_def OPENSSL_strndup_def OPENSSL_strnlen_eq strlen_def OPENSSL_malloc_def Let_def set_peername_def)
  with host_peername_whole [OF malloc_total_sound [OF malloc_total_zeros], of ?x "[?gen]" "[97, 46, 98]" 2 None p]
  show ?thesis by (simp add: astr_bytes_def region_def)
qed

section \<open>Mailboxes\<close>

lemma last_at_exists:
  assumes "length a = length b" "at_sign \<in> set a \<or> at_sign \<in> set b"
  obtains i where "last_at a b i"
proof -
  let ?I = "{i. i < length a \<and> (a ! i = at_sign \<or> b ! i = at_sign)}"
  have "?I \<noteq> {}" "finite ?I" using assms by (auto simp: in_set_conv_nth)
  note m = Max_in [OF this(2,1)] Max_ge [OF this(2)]
  have "a ! j \<noteq> at_sign \<and> b ! j \<noteq> at_sign" if "Max ?I < j" "j < length a" for j
    using m(2) [of j] that by (metis (mono_tags, lifting) leD mem_Collect_eq)
  then have "last_at a b (Max ?I)" using m(1) unfolding last_at_def by blast
  then show thesis by (rule that)
qed

text \<open>C34. Mailboxes are equal if what stands before the last \<open>@\<close> is equal and the rest is equal up to case, without a
  NUL. An \<open>@\<close> at the very start is an exception: then the domain is compared with its case as well.\<close>

theorem email_exact:
  "equal_email a b flags \<longleftrightarrow>
     a = b \<and> at_sign \<notin> set a
     \<or> (\<exists>i. last_at a b i \<and> length a = length b \<and> 0 \<notin> set (drop i a) \<and> map lower (drop i a) = map lower (drop i b)
          \<and> (if i = 0 then a = b else take i a = take i b))"
proof (cases "length a = length b \<and> (at_sign \<in> set a \<or> at_sign \<in> set b)")
  case True
  then obtain i where i: "last_at a b i" using last_at_exists by blast
  have "j = i" if "last_at a b j" for j using that i unfolding last_at_def by (metis linorder_neqE_nat)
  then have u: "(\<exists>j. last_at a b j \<and> P j) \<longleftrightarrow> P i" for P using i by blast
  have "\<not> (a = b \<and> at_sign \<notin> set a)" using True by auto
  then show ?thesis unfolding u using True equal_email_at [OF i, of flags] by auto
next
  case False
  then have "\<not> (last_at a b i \<and> length a = length b)" for i unfolding last_at_def by (metis nth_mem)
  then show ?thesis
    using False equal_email_without_at [of a b flags] by (cases "length a = length b") (auto simp: equal_email_def)
qed

section \<open>Text\<close>

text \<open>C16. Copying a text into an ASN.1 string keeps it: the copy is made if and only if the input is text in the given
  form, with no byte order mark, within the size limits and in the repertoire of an allowed type; it then has the first
  such type in the order of preference and spells the same code points in that type's form.\<close>

theorem mbstring_copy_exact:
  assumes "malloc_total mal" "valid_region inp len"
  shows "case ASN1_mbstring_ncopy mal NullOut inp len inform m minsize maxsize of (r, out) \<Rightarrow>
    (case out of
       Out d \<Rightarrow> \<exists>cps form. copies_to inform (region inp len) m minsize maxsize cps r form \<and> as_type d = r \<and> spells form cps (astr_bytes d)
     | _ \<Rightarrow> r = - 1 \<and> \<not> (\<exists>cps t form. copies_to inform (region inp len) m minsize maxsize cps t form))"
proof (cases "\<exists>cps t form. copies_to inform (region inp len) m minsize maxsize cps t form")
  case True
  then obtain cps t form where c: "copies_to inform (region inp len) m minsize maxsize cps t form" by blast
  obtain d where "ASN1_mbstring_ncopy mal NullOut inp len inform m minsize maxsize = (t, Out d)" "as_type d = t" "spells form cps (astr_bytes d)"
    using ncopy_ok [OF assms c, of NullOut] by blast
  then show ?thesis using c by auto
next
  case False
  then show ?thesis using ncopy_fails [of len inform inp m minsize maxsize mal NullOut] assms(2) by (simp add: valid_region_def)
qed

lemma mbstring_copy_exact_witness:
  "case ASN1_mbstring_ncopy (\<lambda>n. Some (replicate n 0)) NullOut (Some [0xc3, 0xa9]) 2 0x1000 0 0 0 of (r, out) \<Rightarrow>
    (case out of
       Out d \<Rightarrow> \<exists>cps form. copies_to 0x1000 (region (Some [0xc3, 0xa9]) 2) 0 0 0 cps r form \<and> as_type d = r \<and> spells form cps (astr_bytes d)
     | _ \<Rightarrow> r = - 1 \<and> \<not> (\<exists>cps t form. copies_to 0x1000 (region (Some [0xc3, 0xa9]) 2) 0 0 0 cps t form))"
  by (rule mbstring_copy_exact [OF malloc_total_zeros]) (simp add: valid_region_def)

text \<open>\<open>ASN1_STRING_to_UTF8\<close> gives the UTF-8 form of the string's text, for the character types whose bytes are
  well-formed text, and fails for all other strings.\<close>

theorem to_utf8_exact:
  assumes "malloc_total mal" "astr_ok str" "as_length str \<le> 2 ^ 28"
  shows "case ASN1_STRING_to_UTF8 mal str of (n, p) \<Rightarrow>
    if 0 \<le> n then \<exists>cps. string_text str cps \<and> region p n = utf8_text cps else n = - 1 \<and> \<not> (\<exists>cps. string_text str cps)"
proof (cases "\<exists>cps. string_text str cps")
  case True
  then obtain cps where "string_text str cps" ..
  then show ?thesis using to_utf8_ok [OF assms, of cps] by auto
next
  case False
  then show ?thesis using to_utf8_fails [OF assms(2), of mal] by simp
qed

lemma to_utf8_exact_witness:
  "case ASN1_STRING_to_UTF8 (\<lambda>n. Some (replicate n 0)) \<lparr>as_length = 2, as_type = 30, as_data = Some [0x20, 0xac], as_flags = 0\<rparr> of (n, p) \<Rightarrow>
    if 0 \<le> n then \<exists>cps. string_text \<lparr>as_length = 2, as_type = 30, as_data = Some [0x20, 0xac], as_flags = 0\<rparr> cps \<and> region p n = utf8_text cps
    else n = - 1 \<and> \<not> (\<exists>cps. string_text \<lparr>as_length = 2, as_type = 30, as_data = Some [0x20, 0xac], as_flags = 0\<rparr> cps)"
  by (rule to_utf8_exact [OF malloc_total_zeros]) (simp_all add: astr_ok_def)

text \<open>When a conversion fails after the string was created, the string is freed and the caller's pointer still points to
  it: here the allocation of the output buffer fails, on the UTF-8 form of one letter outside the printable ones.\<close>

lemma mbstring_leaves_freed_string:
  "ASN1_mbstring_ncopy (\<lambda>n. if n = 32 then Some (replicate n 0) else None) NullOut (Some [0xc3, 0xa9]) 2 0x1000 0 0 0 = (- 1, FreedOut)"
proof -
  have s: "spells 0x1000 [0xe9] [0xc3, 0xa9]"
    by (simp add: spells_def mb_enc_def utf8_bytes_def mb_ok_def is_valid_code_point_def)
  have "mb_scan 0x1000 [0xc3, 0xa9] DIRSTRING_TYPE 0 0 = Some (narrow 0xe9 DIRSTRING_TYPE, 1, 2)"
    using mb_scan_eq [OF s, of DIRSTRING_TYPE 0 0]
    by (simp add: starts_with_bom_def cbb_get_utf8_len_def narrow_def DIRSTRING_TYPE_def asn1_is_printable_def Let_def)
  moreover have "mb_choose (narrow 0xe9 DIRSTRING_TYPE) 1 2 = Some (20, 0x1001, 1)"
    by (simp add: mb_choose_def narrow_def DIRSTRING_TYPE_def asn1_is_printable_def Let_def)
  ultimately show ?thesis
    by (simp add: ASN1_mbstring_ncopy_def region_def mb_format_def ASN1_STRING_type_new_def OPENSSL_malloc_def mb_fill_def CBB_init_def mb_fail_def)
qed

end
