(* ===== verification/X509Ip.thy ===== *)
theory X509Ip
  imports X509Check
begin

text \<open>
  Texts in certificates: addresses and hexadecimal strings of \<open>crypto/x509v3/v3_utl.c\<close>, and the splitting of a list,
  \<open>CONF_parse_list\<close> of \<open>crypto/conf/conf.c\<close>. A C string is its bytes from the pointer on, with a NUL among them.
  \<open>sscanf\<close> with \<open>%d\<close> is modelled as the C standard defines it; a number that does not fit an \<open>int\<close>, for which it defines
  nothing, is read as the number itself.
\<close>

text \<open>\<open>isspace\<close> in the C locale.\<close>

definition isspace :: "byte \<Rightarrow> bool" where
  "isspace c \<longleftrightarrow> c = 32 \<or> 9 \<le> c \<and> c \<le> 13"

section \<open>Strings\<close>

text \<open>The string is changed in place: the result is what stands at the pointer that is returned.\<close>

definition strip_spaces :: "bytes \<Rightarrow> bytes option" where
  "strip_spaces name =
     (let p = dropWhile isspace name
      in if cstring p = [] then None
         else
           (let q = length (dropWhile isspace (rev (tl (cstring p))))
            in Some (if q \<noteq> 0 then p[q + 1 := 0] else p)))"

definition x509v3_name_cmp :: "bytes \<Rightarrow> bytes \<Rightarrow> int" where
  "x509v3_name_cmp name cmp =
     (let len = strlen cmp; n = take len (cstring name)
      in if n \<noteq> cstring cmp then (if lexordp (<) n (cstring cmp) then - 1 else 1)
         else (let c = name ! len in if c = 0 \<or> c = dot then 0 else 1))"

section \<open>Hexadecimal text\<close>

definition hexdig :: bytes where
  "hexdig = [48, 49, 50, 51, 52, 53, 54, 55, 56, 57, 65, 66, 67, 68, 69, 70]"

fun bytes_hex_loop :: "bytes \<Rightarrow> bytes" where
  "bytes_hex_loop [] = []"
| "bytes_hex_loop (p # ps) =
     hexdig ! unat (drop_bit 4 p AND 0xf) # hexdig ! unat (p AND 0xf) # 58 # bytes_hex_loop ps"

text \<open>The loop fills the buffer from its start; the last separator is overwritten with the NUL.\<close>

definition x509v3_bytes_to_hex :: "platform_malloc \<Rightarrow> bytes option \<Rightarrow> bytes option" where
  "x509v3_bytes_to_hex mal buffer =
     (case buffer of
        None \<Rightarrow> None
      | Some buf \<Rightarrow>
          (if length buf = 0 then None
           else (case OPENSSL_malloc mal (length buf * 3 + 1) of
                   None \<Rightarrow> None
                 | Some tmp \<Rightarrow> Some ((buf_write tmp 0 (bytes_hex_loop buf))[length buf * 3 - 1 := 0]))))"

definition hex_value :: "byte \<Rightarrow> byte option" where
  "hex_value ch =
     (if 48 \<le> ch \<and> ch \<le> 57 then Some (ch - 48)
      else if 97 \<le> ch \<and> ch \<le> 102 then Some (ch - (97 - 10))
      else if 65 \<le> ch \<and> ch \<le> 70 then Some (ch - (65 - 10))
      else None)"

text \<open>What is written to \<open>hexbuf\<close>, or \<open>None\<close> where the function fails. A second digit is read even if it is a colon.\<close>

fun hex_bytes_loop :: "bytes \<Rightarrow> bytes option" where
  "hex_bytes_loop [] = Some []"
| "hex_bytes_loop (ch # p) =
     (if ch = 0 then Some []
      else if ch = 58 then hex_bytes_loop p
      else
        (case p of
           [] \<Rightarrow> None
         | cl # p' \<Rightarrow>
             (if cl = 0 then None
              else
                (case (hex_value ch, hex_value cl) of
                   (Some h, Some l) \<Rightarrow> map_option (Cons (push_bit 4 h OR l)) (hex_bytes_loop p')
                 | _ \<Rightarrow> None))))"

definition x509v3_hex_to_bytes :: "platform_malloc \<Rightarrow> bytes option \<Rightarrow> (bytes \<times> nat) option" where
  "x509v3_hex_to_bytes mal str =
     (case str of
        None \<Rightarrow> None
      | Some s \<Rightarrow>
          (case OPENSSL_malloc mal (strlen s div 2) of
             None \<Rightarrow> None
           | Some hexbuf \<Rightarrow> map_option (\<lambda>out. (buf_write hexbuf 0 out, length out)) (hex_bytes_loop s)))"

section \<open>Lists\<close>

text \<open>The callback gets the bytes from the start of the element on, or NULL, and its length.\<close>

function CONF_parse_list ::
  "bytes \<Rightarrow> byte \<Rightarrow> bool \<Rightarrow> (bytes option \<Rightarrow> nat \<Rightarrow> 's \<Rightarrow> int \<times> 's) \<Rightarrow> 's \<Rightarrow> int \<times> 's" where
  "CONF_parse_list lstart0 sep remove_whitespace list_cb arg =
     (let lstart = (if remove_whitespace then dropWhile isspace lstart0 else lstart0);
          str = cstring lstart;
          n = length (takeWhile (\<lambda>c. c \<noteq> sep) str);
          found = (n < length str);
          len = (if remove_whitespace then length (dropWhile isspace (rev (take n str))) else n)
      in case (if n = 0 then list_cb None 0 arg else list_cb (Some lstart) len arg) of
           (ret, arg) \<Rightarrow>
             (if ret \<le> 0 then (ret, arg)
              else if \<not> found then (1, arg)
              else CONF_parse_list (drop (n + 1) lstart) sep remove_whitespace list_cb arg))"
  by pat_completeness auto
termination
proof (relation "measure (\<lambda>(s, r). length s)", goal_cases)
  case (2 lstart0 sep rm cb arg lstart str n found)
  have "length (dropWhile isspace lstart0) \<le> length lstart0" by (rule length_dropWhile_le)
  moreover have "length str \<le> length lstart" unfolding 2(2) cstring_def by (rule length_takeWhile_le)
  ultimately show ?case using 2 by (auto split: if_splits)
qed simp

declare CONF_parse_list.simps [simp del]

section \<open>Addresses\<close>

definition isdigit :: "byte \<Rightarrow> bool" where
  "isdigit c \<longleftrightarrow> 48 \<le> c \<and> c \<le> 57"

text \<open>\<open>%d\<close>: white space, an optional sign, one digit at least.\<close>

definition scan_int :: "bytes \<Rightarrow> (int \<times> bytes) option" where
  "scan_int s0 =
     (let s1 = dropWhile isspace s0;
          negative = (s1 \<noteq> [] \<and> hd s1 = 45);
          s2 = (if s1 \<noteq> [] \<and> (hd s1 = 45 \<or> hd s1 = 43) then tl s1 else s1);
          ds = takeWhile isdigit s2;
          v = foldl (\<lambda>n d. n * 10 + int (unat d - 48)) 0 ds
      in if ds = [] then None else Some (if negative then - v else v, drop (length ds) s2))"

definition scan_char :: "byte \<Rightarrow> bytes \<Rightarrow> bytes option" where
  "scan_char c s = (if s \<noteq> [] \<and> hd s = c then Some (tl s) else None)"

text \<open>\<open>sscanf(in, "%d.%d.%d.%d", \<dots>)\<close> with the result 4: what follows the fourth number is not looked at.\<close>

definition sscanf_quad :: "bytes \<Rightarrow> (int \<times> int \<times> int \<times> int) option" where
  "sscanf_quad s =
     Option.bind (scan_int s) (\<lambda>(a0, s). Option.bind (scan_char 46 s) (\<lambda>s.
     Option.bind (scan_int s) (\<lambda>(a1, s). Option.bind (scan_char 46 s) (\<lambda>s.
     Option.bind (scan_int s) (\<lambda>(a2, s). Option.bind (scan_char 46 s) (\<lambda>s.
     Option.bind (scan_int s) (\<lambda>(a3, s). Some (a0, a1, a2, a3))))))))"

definition ipv4_from_asc :: "bytes \<Rightarrow> bytes option" where
  "ipv4_from_asc inp =
     (case sscanf_quad inp of
        None \<Rightarrow> None
      | Some (a0, a1, a2, a3) \<Rightarrow>
          (if a0 < 0 \<or> 255 < a0 \<or> a1 < 0 \<or> 255 < a1 \<or> a2 < 0 \<or> 255 < a2 \<or> a3 < 0 \<or> 255 < a3 then None
           else Some [word_of_int a0, word_of_int a1, word_of_int a2, word_of_int a3]))"

fun ipv6_hex_loop :: "bytes \<Rightarrow> 32 word \<Rightarrow> 32 word option" where
  "ipv6_hex_loop [] num = Some num"
| "ipv6_hex_loop (c # cs) num =
     (let num = push_bit 4 num
      in if 48 \<le> c \<and> c \<le> 57 then ipv6_hex_loop cs (num OR ucast (c - 48))
         else if 65 \<le> c \<and> c \<le> 70 then ipv6_hex_loop cs (num OR ucast (c - 65 + 10))
         else if 97 \<le> c \<and> c \<le> 102 then ipv6_hex_loop cs (num OR ucast (c - 97 + 10))
         else None)"

definition ipv6_hex :: "bytes \<Rightarrow> nat \<Rightarrow> bytes option" where
  "ipv6_hex inp inlen =
     (if 4 < inlen then None
      else (case ipv6_hex_loop (take inlen inp) 0 of
              None \<Rightarrow> None
            | Some num \<Rightarrow> Some [ucast (drop_bit 8 num), ucast (num AND 0xff)]))"

record ipv6_stat =
  v6_tmp :: bytes
  v6_total :: nat
  v6_zero_pos :: int
  v6_zero_cnt :: nat

definition ipv6_cb :: "bytes option \<Rightarrow> nat \<Rightarrow> ipv6_stat \<Rightarrow> int \<times> ipv6_stat" where
  "ipv6_cb el len s =
     (if v6_total s = 16 then (0, s)
      else if len = 0 then
        (if v6_zero_pos s = - 1 then (1, s\<lparr>v6_zero_pos := int (v6_total s), v6_zero_cnt := v6_zero_cnt s + 1\<rparr>)
         else if v6_zero_pos s \<noteq> int (v6_total s) then (0, s)
         else (1, s\<lparr>v6_zero_cnt := v6_zero_cnt s + 1\<rparr>))
      else if 4 < len then
        (if 12 < v6_total s then (0, s)
         else if the el ! len \<noteq> 0 then (0, s)
         else (case ipv4_from_asc (the el) of
                 None \<Rightarrow> (0, s)
               | Some v4 \<Rightarrow> (1, s\<lparr>v6_tmp := buf_write (v6_tmp s) (v6_total s) v4, v6_total := v6_total s + 4\<rparr>)))
      else
        (case ipv6_hex (the el) len of
           None \<Rightarrow> (0, s)
         | Some h \<Rightarrow> (1, s\<lparr>v6_tmp := buf_write (v6_tmp s) (v6_total s) h, v6_total := v6_total s + 2\<rparr>)))"

text \<open>The checks on what was read, and the result. The buffer on the stack has some contents to start with.\<close>

definition ipv6_sane :: "ipv6_stat \<Rightarrow> bool" where
  "ipv6_sane s =
     (if v6_zero_pos s = - 1 then v6_total s = 16
      else if v6_total s = 16 then False
      else if 3 < v6_zero_cnt s then False
      else if v6_zero_cnt s = 3 then \<not> 0 < v6_total s
      else if v6_zero_cnt s = 2 then \<not> (v6_zero_pos s \<noteq> 0 \<and> v6_zero_pos s \<noteq> int (v6_total s))
      else \<not> (v6_zero_pos s = 0 \<or> v6_zero_pos s = int (v6_total s)))"

definition ipv6_from_asc :: "bytes \<Rightarrow> bytes \<Rightarrow> bytes option" where
  "ipv6_from_asc stack_tmp inp =
     (case CONF_parse_list inp 58 False ipv6_cb \<lparr>v6_tmp = stack_tmp, v6_total = 0, v6_zero_pos = - 1, v6_zero_cnt = 0\<rparr> of
        (ret, s) \<Rightarrow>
          (if ret = 0 then None
           else if \<not> ipv6_sane s then None
           else if 0 \<le> v6_zero_pos s then
             (let z = nat (v6_zero_pos s)
              in Some (take z (v6_tmp s) @ replicate (16 - v6_total s) 0 @ take (v6_total s - z) (drop z (v6_tmp s))))
           else Some (take 16 (v6_tmp s))))"

definition x509v3_a2i_ipadd :: "bytes \<Rightarrow> bytes \<Rightarrow> bytes option" where
  "x509v3_a2i_ipadd stack_tmp ipasc = (if 58 \<in> set (cstring ipasc) then ipv6_from_asc stack_tmp ipasc else ipv4_from_asc ipasc)"

definition a2i_IPADDRESS :: "platform_malloc \<Rightarrow> bytes \<Rightarrow> bytes \<Rightarrow> asn1_string option" where
  "a2i_IPADDRESS mal stack_tmp ipasc =
     (case x509v3_a2i_ipadd stack_tmp ipasc of
        None \<Rightarrow> None
      | Some ipout \<Rightarrow>
          (case ASN1_STRING_new mal of
             None \<Rightarrow> None
           | Some ret \<Rightarrow>
               (case ASN1_STRING_set mal ret (Some ipout) (int (length ipout)) of
                  (False, ret) \<Rightarrow> None
                | (True, ret) \<Rightarrow> Some ret)))"

definition a2i_IPADDRESS_NC :: "platform_malloc \<Rightarrow> bytes \<Rightarrow> bytes \<Rightarrow> asn1_string option" where
  "a2i_IPADDRESS_NC mal stack_tmp ipasc =
     (let k = length (takeWhile (\<lambda>c. c \<noteq> 47) (cstring ipasc))
      in if length (cstring ipasc) \<le> k then None
         else
           (case OPENSSL_strdup mal (Some ipasc) of
              None \<Rightarrow> None
            | Some iptmp \<Rightarrow>
                (case (x509v3_a2i_ipadd stack_tmp (iptmp[k := 0]), x509v3_a2i_ipadd stack_tmp (drop (k + 1) iptmp)) of
                   (Some ip1, Some ip2) \<Rightarrow>
                     (if length ip1 \<noteq> length ip2 then None
                      else
                        (case ASN1_STRING_new mal of
                           None \<Rightarrow> None
                         | Some ret \<Rightarrow>
                             (case ASN1_STRING_set mal ret (Some (ip1 @ ip2)) (int (length ip1 + length ip2)) of
                                (False, ret) \<Rightarrow> None
                              | (True, ret) \<Rightarrow> Some ret)))
                 | _ \<Rightarrow> None)))"

definition X509_check_ip_asc :: "platform_malloc \<Rightarrow> bytes \<Rightarrow> certificate \<Rightarrow> bytes option \<Rightarrow> 32 word \<Rightarrow> int" where
  "X509_check_ip_asc mal stack_tmp x ipasc flags =
     (case ipasc of
        None \<Rightarrow> - 2
      | Some s \<Rightarrow>
          (case x509v3_a2i_ipadd stack_tmp s of
             None \<Rightarrow> - 2
           | Some ipout \<Rightarrow> fst (do_x509_check mal x ipout flags GEN_IPADD None)))"

end
