(* ===== verification/X509IpSpec.thy ===== *)
theory X509IpSpec
  imports X509Ip
begin

text \<open>
  What the readers of addresses and of hexadecimal text compute: they stay within their buffers, and they read the
  texts of addresses and of bytes back as what was written.
\<close>

section \<open>Hexadecimal text\<close>

lemma hexdig_props:
  assumes "k < 16"
  shows "hex_value (hexdig ! k) = Some (of_nat k)" "hexdig ! k \<noteq> 0" "hexdig ! k \<noteq> 58"
proof -
  have "k = 0 \<or> k = 1 \<or> k = 2 \<or> k = 3 \<or> k = 4 \<or> k = 5 \<or> k = 6 \<or> k = 7 \<or> k = 8 \<or> k = 9 \<or> k = 10 \<or> k = 11
      \<or> k = 12 \<or> k = 13 \<or> k = 14 \<or> k = 15" using assms by arith
  then show "hex_value (hexdig ! k) = Some (of_nat k)" "hexdig ! k \<noteq> 0" "hexdig ! k \<noteq> 58"
    by (elim disjE; simp add: hexdig_def hex_value_def)+
qed

lemma nibble_lt: "unat (p AND 0xf :: byte) < 16"
  using word_and_le1 [of p "0xf"] by (simp add: word_le_nat_alt less_Suc_eq_le [symmetric])

lemma nibbles: "push_bit 4 (drop_bit 4 p AND 0xf) OR (p AND 0xf) = (p :: byte)"
proof -
  have m: "(0xf :: byte) = mask 4" by (simp add: mask_eq_exp_minus_1)
  show ?thesis unfolding m by (rule bit_eqI) (auto simp: bit_simps)
qed

lemma hex_bytes_pair:
  "hex_bytes_loop (hexdig ! unat (drop_bit 4 p AND 0xf) # hexdig ! unat (p AND 0xf) # s) = map_option (Cons p) (hex_bytes_loop s)"
  using hexdig_props [OF nibble_lt [of "drop_bit 4 p"]] hexdig_props [OF nibble_lt [of p]] nibbles [of p] by simp

lemma hex_bytes_ends: "hex_bytes_loop (0 # s) = Some []" "hex_bytes_loop (58 # s) = hex_bytes_loop s"
  by simp_all

declare hex_bytes_loop.simps(2) [simp del]

lemma length_bytes_hex_loop [simp]: "length (bytes_hex_loop bs) = length bs * 3"
  by (induction bs) auto

lemma hex_bytes_inverse:
  "bs \<noteq> [] \<Longrightarrow> hex_bytes_loop ((bytes_hex_loop bs @ rest)[length bs * 3 - 1 := 0]) = Some bs"
proof (induction bs)
  case (Cons b bs)
  show ?case
  proof (cases bs)
    case Nil
    have n: "length [b] * 3 - 1 = Suc (Suc 0)" by simp
    show ?thesis unfolding Nil n by (simp add: hex_bytes_pair hex_bytes_ends)
  next
    case (Cons c cs)
    have n: "length (b # bs) * 3 - 1 = Suc (Suc (Suc (length bs * 3 - 1)))" using Cons by simp
    show ?thesis unfolding n using Cons.IH Cons by (simp add: hex_bytes_pair hex_bytes_ends)
  qed
qed simp

text \<open>Two digits for each byte: the output fits the buffer.\<close>

lemma hex_bytes_bound: "hex_bytes_loop s = Some out \<Longrightarrow> 2 * length out \<le> strlen s"
proof (induction s arbitrary: out rule: hex_bytes_loop.induct)
  case (2 ch p)
  then show ?case
    by (auto simp: strlen_def hex_bytes_loop.simps(2) [of ch p] split: if_splits list.splits option.splits)
qed (simp add: strlen_def)

section \<open>Lists\<close>

lemma conf_step:
  assumes "sep \<notin> set f" "0 \<notin> set f" "sep \<noteq> 0"
  shows "CONF_parse_list (f @ sep # r) sep False cb arg =
    (case (if f = [] then cb None 0 arg else cb (Some (f @ sep # r)) (length f) arg) of
       (ret, arg) \<Rightarrow> if ret \<le> 0 then (ret, arg) else CONF_parse_list r sep False cb arg)"
proof -
  have c: "cstring (f @ sep # r) = f @ sep # cstring r"
    using assms(2,3) by (induction f) (auto simp: cstring_Cons)
  have t: "takeWhile (\<lambda>c. c \<noteq> sep) (f @ sep # x) = f" for x
    using assms(1) by (induction f) auto
  have l: "length f = 0 \<longleftrightarrow> f = []" "(\<not> length f < length (f @ sep # cstring r)) = False" "drop (length f + 1) (f @ sep # r) = r" by simp_all
  show ?thesis unfolding CONF_parse_list.simps [of "f @ sep # r"] Let_def if_False c t l by (rule refl)
qed

lemma conf_last:
  assumes "sep \<notin> set f" "0 \<notin> set f"
  shows "CONF_parse_list (f @ 0 # r) sep False cb arg =
    (case (if f = [] then cb None 0 arg else cb (Some (f @ 0 # r)) (length f) arg) of
       (ret, arg) \<Rightarrow> if ret \<le> 0 then (ret, arg) else (1, arg))"
proof -
  have c: "cstring (f @ 0 # r) = f" using cstring_append_NUL [OF assms(2)] .
  have t: "takeWhile (\<lambda>c. c \<noteq> sep) f = f" using assms(1) by (auto simp: takeWhile_eq_all_conv)
  have l: "length f = 0 \<longleftrightarrow> f = []" "(\<not> length f < length f) = True" by simp_all
  show ?thesis unfolding CONF_parse_list.simps [of "f @ 0 # r"] Let_def if_False c t l if_True by (rule refl)
qed

text \<open>What every call of the callback keeps, the list keeps.\<close>

lemma conf_invariant:
  "I arg \<Longrightarrow> (\<And>el len arg ret arg'. I arg \<Longrightarrow> cb el len arg = (ret, arg') \<Longrightarrow> I arg') \<Longrightarrow>
    CONF_parse_list s sep rm cb arg = (ret, arg') \<Longrightarrow> I arg'"
proof (induction s sep rm cb arg rule: CONF_parse_list.induct)
  case (1 s sep rm cb arg)
  let ?l = "if rm then dropWhile isspace s else s"
  let ?str = "cstring ?l"
  let ?n = "length (takeWhile (\<lambda>c. c \<noteq> sep) ?str)"
  let ?len = "if rm then length (dropWhile isspace (rev (take ?n ?str))) else ?n"
  obtain r a where c: "(if ?n = 0 then cb None 0 arg else cb (Some ?l) ?len arg) = (r, a)" by fastforce
  have a: "I a" using c "1.prems"(2) [OF "1.prems"(1)] by (cases "?n = 0") auto
  have e: "(if r \<le> 0 then (r, a) else if \<not> ?n < length ?str then (1, a) else CONF_parse_list (drop (?n + 1) ?l) sep rm cb a) = (ret, arg')"
    using "1.prems"(3) unfolding CONF_parse_list.simps [of s] Let_def c by simp
  show ?case
    using e a "1.IH" [OF refl refl refl refl refl c [symmetric] _ _ a "1.prems"(2)] by (auto split: if_splits)
qed

section \<open>Staying in the buffer\<close>

definition v6_inv :: "ipv6_stat \<Rightarrow> bool" where
  "v6_inv s \<longleftrightarrow> length (v6_tmp s) = 16 \<and> v6_total s \<le> 16 \<and> even (v6_total s) \<and> - 1 \<le> v6_zero_pos s \<and> v6_zero_pos s \<le> int (v6_total s)"

lemma ipv4_length: "ipv4_from_asc s = Some v \<Longrightarrow> length v = 4"
  by (auto simp: ipv4_from_asc_def split: option.splits if_splits)

lemma ipv6_hex_length: "ipv6_hex s n = Some v \<Longrightarrow> length v = 2"
  by (auto simp: ipv6_hex_def split: option.splits if_splits)

lemma ipv6_cb_inv:
  assumes "v6_inv s" "ipv6_cb el len s = (ret, s')"
  shows "v6_inv s'"
proof -
  have two: "v6_total s + 2 \<le> 16" if "v6_total s \<noteq> 16" using that assms(1) by (auto simp: v6_inv_def elim!: evenE)
  show ?thesis using assms two
    by (auto simp: ipv6_cb_def v6_inv_def buf_write_def ipv4_length ipv6_hex_length split: if_splits option.splits)
qed

lemma ipv6_length:
  assumes "ipv6_from_asc tmp inp = Some v" "length tmp = 16"
  shows "length v = 16"
proof -
  let ?s0 = "\<lparr>v6_tmp = tmp, v6_total = 0, v6_zero_pos = - 1, v6_zero_cnt = 0\<rparr>"
  obtain ret s where c: "CONF_parse_list inp 58 False ipv6_cb ?s0 = (ret, s)" by fastforce
  have "v6_inv ?s0" using assms(2) by (simp add: v6_inv_def)
  then have "v6_inv s" using conf_invariant [of v6_inv ?s0 ipv6_cb, OF _ ipv6_cb_inv c] by simp
  then show ?thesis using assms(1) c
    by (auto simp: ipv6_from_asc_def v6_inv_def Let_def split: if_splits)
qed

section \<open>The texts of addresses\<close>

text \<open>A group of one to four hexadecimal digits, its number and the two bytes of it.\<close>

definition hex_digit :: "byte \<Rightarrow> nat option" where
  "hex_digit c =
     (if 48 \<le> c \<and> c \<le> 57 then Some (unat c - 48)
      else if 65 \<le> c \<and> c \<le> 70 then Some (unat c - 55)
      else if 97 \<le> c \<and> c \<le> 102 then Some (unat c - 87)
      else None)"

definition hex_number :: "nat \<Rightarrow> bytes \<Rightarrow> nat" where
  "hex_number n g = foldl (\<lambda>n c. n * 16 + the (hex_digit c)) n g"

definition hex_group :: "bytes \<Rightarrow> bool" where
  "hex_group g \<longleftrightarrow> g \<noteq> [] \<and> length g \<le> 4 \<and> list_all (\<lambda>c. hex_digit c \<noteq> None) g"

definition group_bytes :: "bytes \<Rightarrow> bytes" where
  "group_bytes g = [of_nat (hex_number 0 g div 256), of_nat (hex_number 0 g mod 256)]"

lemma length_group_bytes [simp]: "length (group_bytes g) = 2"
  by (simp add: group_bytes_def)

lemma length_groups [simp]: "length (concat (map group_bytes gs)) = 2 * length gs"
  by (induction gs) simp_all

lemma hex_digit_lt: "hex_digit c = Some d \<Longrightarrow> d < 16"
  by (auto simp: hex_digit_def word_le_nat_alt split: if_splits)

lemma hex_digit_no: "hex_digit 58 = None" "hex_digit 0 = None"
  by (simp_all add: hex_digit_def)

lemma hex_number_lt: "list_all (\<lambda>c. hex_digit c \<noteq> None) g \<Longrightarrow> n < 16 ^ k \<Longrightarrow> hex_number n g < 16 ^ (k + length g)"
proof (induction g arbitrary: n k)
  case (Cons c g)
  then obtain d where d: "hex_digit c = Some d" by auto
  have "n * 16 + d < 16 ^ Suc k" using Cons.prems(2) hex_digit_lt [OF d] by simp
  then show ?case using Cons.IH [of "n * 16 + d" "Suc k"] Cons.prems(1) d by (simp add: hex_number_def)
qed (simp add: hex_number_def)

lemma shift_digit:
  assumes "d < 16" "n < 2 ^ 28" "unat (x :: 32 word) = d"
  shows "push_bit 4 (of_nat n) OR x = of_nat (n * 16 + d)"
proof -
  have n: "unat (of_nat n :: 32 word) = n" using assms(2) by (simp add: unat_of_nat_32)
  have "unat (push_bit 4 (of_nat n) OR x) = n * 16 + d"
    using unat_push_or [of x 4 "of_nat n"] assms n by simp
  moreover have "unat (of_nat (n * 16 + d) :: 32 word) = n * 16 + d" using assms by (intro unat_of_nat_32) simp
  ultimately show ?thesis by (simp only: word_unat_eq_iff)
qed

lemma unat_sub_byte: "b \<le> c \<Longrightarrow> unat (ucast (c - b :: byte) :: 32 word) = unat c - unat b"
  by (simp add: unat_ucast_up unat_sub)

lemma hex_loop_step:
  assumes "hex_digit c = Some d" "n < 2 ^ 28"
  shows "ipv6_hex_loop (c # cs) (of_nat n) = ipv6_hex_loop cs (of_nat (n * 16 + d))"
proof -
  note s = shift_digit [OF hex_digit_lt [OF assms(1)] assms(2)]
  consider "48 \<le> c" "c \<le> 57" "d = unat c - 48" | "65 \<le> c" "c \<le> 70" "d = unat c - 55" | "97 \<le> c" "c \<le> 102" "d = unat c - 87"
    using assms(1) by (auto simp: hex_digit_def split: if_splits)
  then show ?thesis
  proof cases
    case 1
    then have "unat (ucast (c - 48) :: 32 word) = d" using unat_sub_byte [of 48 c] by simp
    from s [OF this] show ?thesis using 1 by (simp add: Let_def)
  next
    case 2
    have "unat (ucast (c - 65 + 10) :: 32 word) = d"
      using 2 by (simp add: unat_ucast_up unat_sub word_le_nat_alt unat_word_ariths)
    note e = s [OF this]
    have n: "(48 \<le> c \<and> c \<le> 57) = False" "(65 \<le> c \<and> c \<le> 70) = True" using 2(1,2) by (auto simp: word_le_nat_alt)
    show ?thesis unfolding ipv6_hex_loop.simps Let_def e n by simp
  next
    case 3
    have "unat (ucast (c - 97 + 10) :: 32 word) = d"
      using 3 by (simp add: unat_ucast_up unat_sub word_le_nat_alt unat_word_ariths)
    note e = s [OF this]
    have n: "(48 \<le> c \<and> c \<le> 57) = False" "(65 \<le> c \<and> c \<le> 70) = False" "(97 \<le> c \<and> c \<le> 102) = True"
      using 3(1,2) by (auto simp: word_le_nat_alt)
    show ?thesis unfolding ipv6_hex_loop.simps Let_def e n by simp
  qed
qed

lemma hex_loop_number:
  "list_all (\<lambda>c. hex_digit c \<noteq> None) g \<Longrightarrow> n < 16 ^ k \<Longrightarrow> k + length g \<le> 7 \<Longrightarrow> ipv6_hex_loop g (of_nat n) = Some (of_nat (hex_number n g))"
proof (induction g arbitrary: n k)
  case (Cons c g)
  then obtain d where d: "hex_digit c = Some d" by auto
  have "n * 16 + d < 16 ^ Suc k" using Cons.prems(2) hex_digit_lt [OF d] by simp
  then have IH: "ipv6_hex_loop g (of_nat (n * 16 + d)) = Some (of_nat (hex_number (n * 16 + d) g))"
    using Cons.IH [of "n * 16 + d" "Suc k"] Cons.prems by simp
  have "(16 :: nat) ^ k \<le> 16 ^ 7" using Cons.prems(3) by (intro power_increasing) simp_all
  then have "n < 2 ^ 28" using Cons.prems(2) by simp
  then show ?case using hex_loop_step [OF d] IH d by (simp add: hex_number_def)
qed (simp add: hex_number_def)

lemma ipv6_hex_group:
  assumes "hex_group g"
  shows "ipv6_hex (g @ r) (length g) = Some (group_bytes g)"
proof -
  let ?v = "hex_number 0 g"
  have g: "list_all (\<lambda>c. hex_digit c \<noteq> None) g" "length g \<le> 4" using assms by (simp_all add: hex_group_def)
  have "?v < 16 ^ (0 + length g)" using hex_number_lt [OF g(1), of 0 0] by simp
  also have "(16 :: nat) ^ (0 + length g) \<le> 16 ^ 4" using g(2) by (intro power_increasing) simp_all
  finally have v: "?v < 65536" by simp
  have l: "ipv6_hex_loop g 0 = Some (of_nat ?v)" using hex_loop_number [OF g(1), of 0 0] g(2) by simp
  have u: "unat (of_nat ?v :: 32 word) = ?v" using v by (intro unat_of_nat_32) simp
  have m: "(0xff :: 32 word) = mask 8" by (simp add: mask_eq_exp_minus_1)
  have "unat (ucast (drop_bit 8 (of_nat ?v :: 32 word)) :: byte) = ?v div 256"
    using v by (simp only: unat_ucast_down unat_drop_div u) simp
  then have hi: "ucast (drop_bit 8 (of_nat ?v :: 32 word)) = (of_nat (?v div 256) :: byte)" by (metis of_nat_unat ucast_id)
  have "unat (ucast (of_nat ?v AND 0xff :: 32 word) :: byte) = ?v mod 256"
    unfolding m by (simp only: unat_ucast_down unat_and_mask u) simp
  then have lo: "ucast (of_nat ?v AND 0xff :: 32 word) = (of_nat (?v mod 256) :: byte)" by (metis of_nat_unat ucast_id)
  show ?thesis using g(2) l by (simp add: ipv6_hex_def group_bytes_def hi lo)
qed

section \<open>Reading the groups\<close>

definition stat_is :: "bytes \<Rightarrow> int \<Rightarrow> nat \<Rightarrow> ipv6_stat \<Rightarrow> bool" where
  "stat_is out zero_pos zero_cnt s \<longleftrightarrow> length (v6_tmp s) = 16 \<and> length out \<le> 16 \<and> v6_total s = length out \<and> take (length out) (v6_tmp s) = out \<and>
     v6_zero_pos s = zero_pos \<and> v6_zero_cnt s = zero_cnt"

lemma cb_group:
  assumes "hex_group g" "stat_is out z k s" "length out \<le> 14"
  shows "\<exists>s'. ipv6_cb (Some (g @ r)) (length g) s = (1, s') \<and> stat_is (out @ group_bytes g) z k s'"
proof -
  have "g \<noteq> []" "length g \<le> 4" using assms(1) by (simp_all add: hex_group_def)
  then show ?thesis using assms(2,3) ipv6_hex_group [OF assms(1), of r]
    by (auto simp: ipv6_cb_def stat_is_def buf_write_def group_bytes_def)
qed

lemma cb_zero:
  assumes "stat_is out z k s" "length out < 16" "z = - 1 \<or> z = int (length out)"
  shows "\<exists>s'. ipv6_cb None 0 s = (1, s') \<and> stat_is out (int (length out)) (k + 1) s'"
  using assms by (auto simp: ipv6_cb_def stat_is_def)

definition each_colon :: "bytes list \<Rightarrow> bytes" where
  "each_colon gs = concat (map (\<lambda>g. g @ [58]) gs)"

definition join_colon :: "bytes list \<Rightarrow> bytes" where
  "join_colon gs = (if gs = [] then [] else each_colon (butlast gs) @ last gs)"

lemma hex_group_chars: "hex_group g \<Longrightarrow> 58 \<notin> set g \<and> 0 \<notin> set g \<and> g \<noteq> []"
  using hex_digit_no by (auto simp: hex_group_def list_all_iff)

lemma groups_run:
  assumes "list_all hex_group gs" "stat_is out z k s" "length out + 2 * length gs \<le> 16"
  shows "\<exists>s'. stat_is (out @ concat (map group_bytes gs)) z k s' \<and>
    CONF_parse_list (each_colon gs @ r) 58 False ipv6_cb s = CONF_parse_list r 58 False ipv6_cb s'"
  using assms
proof (induction gs arbitrary: out s)
  case (Cons g gs)
  have g: "hex_group g" "58 \<notin> set g" "0 \<notin> set g" "g \<noteq> []" using Cons.prems(1) hex_group_chars [of g] by auto
  obtain s1 where s1: "ipv6_cb (Some (g @ 58 # each_colon gs @ r)) (length g) s = (1, s1)" "stat_is (out @ group_bytes g) z k s1"
    using cb_group [OF g(1) Cons.prems(2)] Cons.prems(3) by fastforce
  obtain s' where s': "stat_is ((out @ group_bytes g) @ concat (map group_bytes gs)) z k s'"
    "CONF_parse_list (each_colon gs @ r) 58 False ipv6_cb s1 = CONF_parse_list r 58 False ipv6_cb s'"
    using Cons.IH [OF _ s1(2)] Cons.prems(1,3) by auto
  have "each_colon (g # gs) @ r = g @ 58 # each_colon gs @ r" by (simp add: each_colon_def)
  then have "CONF_parse_list (each_colon (g # gs) @ r) 58 False ipv6_cb s = CONF_parse_list (each_colon gs @ r) 58 False ipv6_cb s1"
    using conf_step [OF g(2,3), of "each_colon gs @ r" ipv6_cb s] g(4) s1(1) by simp
  then show ?case using s' by (intro exI [of _ s']) simp
qed (auto simp: each_colon_def)

lemma last_run:
  assumes "list_all hex_group gs" "gs \<noteq> []" "stat_is out z k s" "length out + 2 * length gs \<le> 16"
  shows "\<exists>s'. stat_is (out @ concat (map group_bytes gs)) z k s' \<and> CONF_parse_list (join_colon gs @ [0]) 58 False ipv6_cb s = (1, s')"
proof -
  obtain hs h where gs: "gs = hs @ [h]" using assms(2) by (metis append_butlast_last_id)
  have h: "hex_group h" "58 \<notin> set h" "0 \<notin> set h" "h \<noteq> []" using assms(1) gs hex_group_chars [of h] by auto
  obtain s1 where s1: "stat_is (out @ concat (map group_bytes hs)) z k s1"
    "CONF_parse_list (each_colon hs @ h @ [0]) 58 False ipv6_cb s = CONF_parse_list (h @ [0]) 58 False ipv6_cb s1"
    using groups_run [OF _ assms(3), of hs "h @ [0]"] assms(1,4) gs by auto
  obtain s' where s': "ipv6_cb (Some (h @ [0])) (length h) s1 = (1, s')" "stat_is ((out @ concat (map group_bytes hs)) @ group_bytes h) z k s'"
    using cb_group [OF h(1) s1(1), of "[0]"] assms(4) gs by auto
  show ?thesis using s1(2) s' conf_last [OF h(2,3), of "[]" ipv6_cb s1] h(4) gs by (intro exI [of _ s']) (simp add: join_colon_def)
qed

text \<open>The text of an address without and with a run of zeros that is left out.\<close>

definition compressed :: "bytes list \<Rightarrow> bytes list \<Rightarrow> bytes" where
  "compressed gs hs = (if gs = [] then [58] else each_colon gs) @ 58 # join_colon hs"

lemma full_address:
  assumes "list_all hex_group gs" "length gs = 8" "length tmp = 16"
  shows "ipv6_from_asc tmp (join_colon gs @ [0]) = Some (concat (map group_bytes gs))"
proof -
  let ?s0 = "\<lparr>v6_tmp = tmp, v6_total = 0, v6_zero_pos = - 1, v6_zero_cnt = 0\<rparr>"
  have "stat_is [] (- 1) 0 ?s0" using assms(3) by (simp add: stat_is_def)
  then obtain s where s: "stat_is (concat (map group_bytes gs)) (- 1) 0 s" "CONF_parse_list (join_colon gs @ [0]) 58 False ipv6_cb ?s0 = (1, s)"
    using last_run [OF assms(1), of "[]" "- 1" 0 ?s0] assms(2) by force
  then show ?thesis using assms(2) by (simp add: ipv6_from_asc_def stat_is_def ipv6_sane_def)
qed

lemma compressed_address:
  assumes "list_all hex_group gs" "list_all hex_group hs" "length gs + length hs \<le> 7" "length tmp = 16"
  shows "ipv6_from_asc tmp (compressed gs hs @ [0])
    = Some (concat (map group_bytes gs) @ replicate (16 - 2 * (length gs + length hs)) 0 @ concat (map group_bytes hs))"
proof -
  let ?s0 = "\<lparr>v6_tmp = tmp, v6_total = 0, v6_zero_pos = - 1, v6_zero_cnt = 0\<rparr>"
  let ?g = "concat (map group_bytes gs)" and ?h = "concat (map group_bytes hs)" and ?z = "int (2 * length gs)"
  let ?k = "if gs = [] then 2 else 1 :: nat"
  have s0: "stat_is [] (- 1) 0 ?s0" using assms(4) by (simp add: stat_is_def)
  have "\<exists>s. stat_is ?g ?z ?k s \<and>
    CONF_parse_list (compressed gs hs @ [0]) 58 False ipv6_cb ?s0 = CONF_parse_list (join_colon hs @ [0]) 58 False ipv6_cb s"
  proof (cases "gs = []")
    case True
    obtain s1 where s1: "ipv6_cb None 0 ?s0 = (1, s1)" "stat_is [] 0 1 s1" using cb_zero [OF s0] by auto
    obtain s2 where s2: "ipv6_cb None 0 s1 = (1, s2)" "stat_is [] 0 2 s2" using cb_zero [OF s1(2)] by (auto simp: numeral_2_eq_2)
    show ?thesis
      using True s1(1) s2 conf_step [of 58 "[]" "58 # join_colon hs @ [0]" ipv6_cb ?s0] conf_step [of 58 "[]" "join_colon hs @ [0]" ipv6_cb s1]
      by (intro exI [of _ s2]) (simp add: compressed_def)
  next
    case False
    obtain s1 where s1: "stat_is ?g (- 1) 0 s1"
      "CONF_parse_list (each_colon gs @ 58 # join_colon hs @ [0]) 58 False ipv6_cb ?s0 = CONF_parse_list (58 # join_colon hs @ [0]) 58 False ipv6_cb s1"
      using groups_run [OF assms(1) s0, of "58 # join_colon hs @ [0]"] assms(3) by auto
    obtain s2 where s2: "ipv6_cb None 0 s1 = (1, s2)" "stat_is ?g ?z 1 s2" using cb_zero [OF s1(1)] assms(3) by auto
    show ?thesis using False s1(2) s2 conf_step [of 58 "[]" "join_colon hs @ [0]" ipv6_cb s1]
      by (intro exI [of _ s2]) (simp add: compressed_def)
  qed
  then obtain s where s: "stat_is ?g ?z ?k s"
    "CONF_parse_list (compressed gs hs @ [0]) 58 False ipv6_cb ?s0 = CONF_parse_list (join_colon hs @ [0]) 58 False ipv6_cb s" by blast
  show ?thesis
  proof (cases "hs = []")
    case True
    obtain s' where "ipv6_cb None 0 s = (1, s')" "stat_is ?g ?z (?k + 1) s'" using cb_zero [OF s(1)] assms(3) by auto
    then show ?thesis
      using True s(2) assms(3) conf_last [of 58 "[]" "[]" ipv6_cb s]
      by (auto simp: ipv6_from_asc_def stat_is_def ipv6_sane_def join_colon_def nat_mult_distrib)
  next
    case False
    obtain s' where "stat_is (?g @ ?h) ?z ?k s'" "CONF_parse_list (join_colon hs @ [0]) 58 False ipv6_cb s = (1, s')"
      using last_run [OF assms(2) False s(1)] assms(3) by auto
    moreover have lg: "length ?g = 2 * length gs" "length ?h = 2 * length hs" by simp_all
    ultimately have t: "take (2 * length gs + 2 * length hs) (v6_tmp s') = ?g @ ?h" by (simp add: stat_is_def)
    have a: "take (2 * length gs) (v6_tmp s') = ?g" using arg_cong [OF t, of "take (2 * length gs)"] lg by simp
    have b: "take (2 * length hs) (drop (2 * length gs) (v6_tmp s')) = ?h"
      using arg_cong [OF t, of "drop (2 * length gs)"] lg by (simp add: drop_take)
    have n: "nat (2 * int (length gs)) = 2 * length gs" by simp
    show ?thesis
      using \<open>stat_is (?g @ ?h) ?z ?k s'\<close> \<open>CONF_parse_list (join_colon hs @ [0]) 58 False ipv6_cb s = (1, s')\<close>
        False s(2) assms(3) lg a b
      by (auto simp: ipv6_from_asc_def stat_is_def ipv6_sane_def Let_def n)
  qed
qed

section \<open>No address text has a NUL\<close>

lemma group_texts:
  assumes "list_all hex_group gs" "list_all hex_group hs"
  shows "0 \<notin> set (join_colon gs)" "0 \<notin> set (compressed gs hs)" "58 \<in> set (compressed gs hs)" "2 \<le> length gs \<Longrightarrow> 58 \<in> set (join_colon gs)"
proof -
  have e: "0 \<notin> set (each_colon gs)" if "list_all hex_group gs" for gs
    using that hex_group_chars by (induction gs) (auto simp: each_colon_def)
  have j: "0 \<notin> set (join_colon gs)" if "list_all hex_group gs" for gs
  proof (cases gs rule: rev_cases)
    case (snoc hs h)
    then show ?thesis using that e [of hs] hex_group_chars [of h] by (auto simp: join_colon_def)
  qed (simp add: join_colon_def)
  show "0 \<notin> set (join_colon gs)" by (rule j [OF assms(1)])
  show "0 \<notin> set (compressed gs hs)" "58 \<in> set (compressed gs hs)" using e [OF assms(1)] j [OF assms(2)] by (auto simp: compressed_def)
  show "58 \<in> set (join_colon gs)" if "2 \<le> length gs"
    using that by (cases gs; cases "tl gs") (auto simp: join_colon_def each_colon_def)
qed

end
