(* ===== verification/X509IpProps.thy ===== *)
theory X509IpProps
  imports X509IpSpec
begin

text \<open>The properties of the texts of addresses and of hexadecimal text.\<close>

text \<open>C35. \<open>x509v3_a2i_ipadd\<close> reads the text of every IPv6 address in hexadecimal groups, in full or with a run of zero
  groups left out at any place, as the sixteen bytes of the address.\<close>

theorem address_text_read:
  assumes "list_all hex_group gs" "list_all hex_group hs" "length gs + length hs \<le> 7" "list_all hex_group full" "length full = 8" "length tmp = 16"
  shows "x509v3_a2i_ipadd tmp (join_colon full @ [0]) = Some (concat (map group_bytes full))
    \<and> x509v3_a2i_ipadd tmp (compressed gs hs @ [0])
      = Some (concat (map group_bytes gs) @ replicate (16 - 2 * (length gs + length hs)) 0 @ concat (map group_bytes hs))"
  using full_address [OF assms(4,5,6)] compressed_address [OF assms(1,2,3,6)] group_texts [OF assms(1,2)] group_texts [OF assms(4,4)] assms(5)
  by (simp add: x509v3_a2i_ipadd_def cstring_append_NUL)

lemma address_text_read_witness:
  "x509v3_a2i_ipadd (replicate 16 7) [58, 58, 49, 0] = Some (replicate 15 0 @ [1])"
proof -
  let ?full = "replicate 8 [49 :: byte]"
  have l: "list_all hex_group ?full" "list_all hex_group [[49]]" by (simp_all add: hex_group_def hex_digit_def list_all_iff)
  have t: "compressed [] [[49]] @ [0] = [58, 58, 49, 0]" by (simp add: compressed_def join_colon_def each_colon_def)
  have g: "group_bytes [49] = [0, 1]" by (simp add: group_bytes_def hex_number_def hex_digit_def)
  have "replicate 14 (0 :: byte) @ [0, 1] = replicate 15 0 @ [1]" by (simp add: eval_nat_numeral)
  then show ?thesis
    using address_text_read [of "[]" "[[49]]" ?full "replicate 16 7", OF _ l(2) _ l(1)] by (simp add: t g)
qed

text \<open>Whatever the text, reading an address stays in the buffers: an IPv6 text gives sixteen bytes and never a write
  past the temporary buffer, whose length would change, any other text four; and what is read from hexadecimal text
  fits the buffer of half its length.\<close>

theorem text_readers_bounded:
  assumes "length tmp = 16" "x509v3_a2i_ipadd tmp s = Some v"
  shows "length v = (if 58 \<in> set (cstring s) then 16 else 4)
    \<and> (\<forall>el len st. v6_inv st \<longrightarrow> v6_inv (snd (ipv6_cb el len st)))
    \<and> (case hex_bytes_loop t of None \<Rightarrow> True | Some out \<Rightarrow> 2 * length out \<le> strlen t)"
proof -
  have "v6_inv (snd (ipv6_cb el len st))" if "v6_inv st" for el len st
    using ipv6_cb_inv [OF that surjective_pairing] .
  then show ?thesis using assms ipv6_length [OF _ assms(1)] ipv4_length hex_bytes_bound [of t]
    by (auto simp: x509v3_a2i_ipadd_def split: if_splits option.splits)
qed

lemma text_readers_bounded_witness:
  "length [1 :: byte, 2, 3, 4] = (if 58 \<in> set (cstring [49, 46, 50, 46, 51, 46, 52, 0]) then 16 else 4)"
proof -
  have "x509v3_a2i_ipadd (replicate 16 7) [49, 46, 50, 46, 51, 46, 52, 0] = Some [1, 2, 3, 4]"
    by (simp add: x509v3_a2i_ipadd_def cstring_def ipv4_from_asc_def sscanf_quad_def scan_int_def scan_char_def isspace_def isdigit_def Let_def)
  then show ?thesis using text_readers_bounded [of "replicate 16 7" _ "[1, 2, 3, 4]" "[0]"] by simp
qed

text \<open>Hexadecimal text round trip: \<open>x509v3_hex_to_bytes\<close> reads back what \<open>x509v3_bytes_to_hex\<close> writes.\<close>

theorem hex_round_trip:
  assumes "malloc_total mal" "buf \<noteq> []" "length buf \<le> 2 ^ 59"
  shows "\<exists>txt out. x509v3_bytes_to_hex mal (Some buf) = Some txt \<and> x509v3_hex_to_bytes mal (Some txt) = Some (out, length buf)
    \<and> take (length buf) out = buf"
proof -
  obtain tmp where tmp: "OPENSSL_malloc mal (length buf * 3 + 1) = Some tmp"
    using OPENSSL_malloc_total [OF assms(1), of "length buf * 3 + 1"] assms(3) by auto
  let ?txt = "(bytes_hex_loop buf @ drop (length buf * 3) tmp)[length buf * 3 - 1 := 0]"
  have lt: "length tmp = length buf * 3 + 1" using OPENSSL_malloc_length [OF malloc_total_sound [OF assms(1)] tmp] assms(3) by simp
  have t: "x509v3_bytes_to_hex mal (Some buf) = Some ?txt" using tmp assms(2) by (simp add: x509v3_bytes_to_hex_def buf_write_def)
  have h: "hex_bytes_loop ?txt = Some buf" by (rule hex_bytes_inverse [OF assms(2)])
  have "strlen ?txt \<le> length ?txt" unfolding strlen_def by (rule length_takeWhile_le)
  then have "strlen ?txt div 2 \<le> 2 ^ 62" using lt assms(3) by simp
  then obtain hexbuf where "OPENSSL_malloc mal (strlen ?txt div 2) = Some hexbuf" using OPENSSL_malloc_total [OF assms(1)] by blast
  then show ?thesis using t h by (simp add: x509v3_hex_to_bytes_def buf_write_def)
qed

lemma hex_round_trip_witness:
  "\<exists>txt out. x509v3_bytes_to_hex (\<lambda>n. Some (replicate n 0)) (Some [0xab, 1]) = Some txt
    \<and> x509v3_hex_to_bytes (\<lambda>n. Some (replicate n 0)) (Some txt) = Some (out, 2) \<and> take 2 out = [0xab, 1]"
proof -
  have "length [0xab :: byte, 1] = 2" by simp
  from hex_round_trip [OF malloc_total_zeros, of "[0xab, 1]", unfolded this] show ?thesis by simp
qed

text \<open>The reader of IPv4 texts stops after the fourth number, so a text that goes on is accepted; and blanks and signs
  are skipped as \<open>sscanf\<close> does.\<close>

lemma ipv4_ignores_rest:
  "ipv4_from_asc [49, 46, 50, 46, 51, 46, 52, 120, 121, 0] = Some [1, 2, 3, 4]" "ipv4_from_asc [32, 43, 49, 46, 50, 46, 51, 46, 52, 0] = Some [1, 2, 3, 4]"
  by (simp_all add: ipv4_from_asc_def sscanf_quad_def scan_int_def scan_char_def isspace_def isdigit_def Let_def)

end
