(* ===== verification/Spec2Isabelle.thy ===== *)
theory Spec2Isabelle
  imports StackProps LhashProps SetOf Unicode BERSpec Base64Stream Oid PbProps PbMsgProps UvProps UvPoolProps X509Props X509IpProps
begin

text \<open>
  A verification library for the C code that the re-Loved app carries in \<open>src/reLoved/Pods\<close>: the reading and
  writing of untrusted bytes in BoringSSL, the protocol buffers of nanopb, and the timers, addresses and
  threads of libuv. Firestore keeps its documents with nanopb, gRPC talks TLS through BoringSSL and waits on libuv.

  The theories, in the order of the code, with the source of each group of definitions.

  \<^item> \<open>Prelude\<close>: bytes, big-endian numbers, sizes modulo \<open>2 ^ 64\<close>, decimal text; lemmas that several components use.
  \<^item> \<open>Mem\<close>: \<open>crypto/mem.c\<close>, allocation over a parameter for the platform, comparison and C strings.
  \<^item> \<open>CBS\<close>, \<open>DER\<close>, \<open>Asn1Int\<close>: \<open>crypto/bytestring/cbs.c\<close>. A reader takes the bytes that are left and returns its
    results, or \<open>None\<close>, with the bytes that are left then. \<open>DER\<close> specifies the encoding of an element and shows that the
    reader accepts exactly the encodings; \<open>Asn1Int\<close> does the same for INTEGER and BOOLEAN.
  \<^item> \<open>CBB\<close>, \<open>CBBRefine\<close>, \<open>CBBOps\<close>, \<open>CBBWrite\<close>, \<open>CBBElements\<close>: \<open>crypto/bytestring/cbb.c\<close>. A \<open>cbb\<close> is the shared buffer and
    the chain of pending children. The abstract machine is a stack of open children with the bytes of each;
    flushing refines closing them, and every adder refines appending to the innermost child.
  \<^item> \<open>Oid\<close>, \<open>SetOf\<close>, \<open>Unicode\<close>, \<open>BER\<close>, \<open>BERSpec\<close>: object identifiers as text, SET OF, \<open>unicode.c\<close> and \<open>ber.c\<close>, clients of
    the reader and the builder.
  \<^item> \<open>ConstTime\<close>, \<open>Base64\<close>, \<open>Base64Stream\<close>: the comparisons of \<open>crypto/internal.h\<close> that do not branch, and
    \<open>crypto/base64/base64.c\<close>, which classifies characters with them.
  \<^item> \<open>Asn1Str\<close>, \<open>Asn1StrSpec\<close>: the strings of \<open>asn1_lib.c\<close>, the conversion of a text to the smallest permitted type in
    \<open>a_mbstr.c\<close> and to UTF-8 in \<open>a_strex.c\<close>, over the readers and writers of \<open>Unicode\<close>. The specification speaks of code
    points: which text the bytes spell in a form, and which types can hold it.
  \<^item> \<open>X509Host\<close>, \<open>X509HostSpec\<close>, \<open>X509Check\<close>, \<open>X509CheckSpec\<close>, \<open>X509Props\<close>: the checks of a certificate against a host, a
    mailbox or an address in \<open>crypto/x509v3/v3_utl.c\<close>, with wildcards. Names are specified as lists of labels.
  \<^item> \<open>X509Ip\<close>, \<open>X509IpSpec\<close>, \<open>X509IpProps\<close>: texts of addresses and hexadecimal texts of the same file, over \<open>CONF_parse_list\<close> of
    \<open>crypto/conf/conf.c\<close>.
  \<^item> \<open>Stack\<close>, \<open>StackSpec\<close>, \<open>StackProps\<close>: \<open>crypto/stack/stack.c\<close>, arrays of pointers as the lists of their elements, the
    binary search, and deep copies.
  \<^item> \<open>Lhash\<close>, \<open>LhashSpec\<close>, \<open>LhashInv\<close>, \<open>LhashProps\<close>: \<open>crypto/lhash/lhash.c\<close>, hash tables whose chains are linked items
    in a memory, as sets of pointers of which no two are equal.
  \<^item> \<open>PbStream\<close>, \<open>PbWire\<close>, \<open>PbCodec\<close>, \<open>PbReaders\<close>: the streams of \<open>pb_decode.c\<close> and \<open>pb_encode.c\<close>, what a varint denotes, and
    the interfaces of a writer and of a reader with its writer, which each scalar format interprets.
  \<^item> \<open>PbFields\<close>, \<open>PbFieldCodec\<close>, \<open>PbIter\<close>, \<open>PbProps\<close>: the decoder and encoder of every scalar type of field, on the
    bytes of the field in memory, and the iterator of \<open>pb_common.c\<close> over the fields of a message.
  \<^item> \<open>PbMem\<close>, \<open>PbDecode\<close>, \<open>PbEncode\<close>: the messages of \<open>pb_decode.c\<close> and \<open>pb_encode.c\<close>, on a memory of bytes in which the
    structures, their counters and pointers lie. The allocator, the functions of the caller and the tables of fields
    are the record \<open>pb_env\<close>. The decoders and encoders of \<open>PbFields\<close> work on the bytes of an object of that memory.
  \<^item> \<open>PbSafe\<close>, \<open>PbLayout\<close>, \<open>PbConfine\<close>, \<open>PbLeaf\<close>, \<open>PbMsgProps\<close>: which structures have no pointers (\<open>static_message\<close>), that decoding
    one returns and stays inside the structure, and one codec for all fields that are not messages.
  \<^item> \<open>PbValue\<close>, \<open>PbWriteMsg\<close>, \<open>PbFrame\<close>, \<open>PbReadMsg\<close>, \<open>PbRequired\<close>, \<open>PbTrip\<close>: the value of a message in memory and its wire format,
    for structures whose optional and repeated fields have a flag or counter of their own (\<open>plain_message\<close>). Encoding
    writes that format; a field depends on its own bytes only; decoding reads it back, field by field and message by message.
  \<^item> \<open>UvHeap\<close>, \<open>UvHeapSpec\<close>, \<open>UvHeapOps\<close>: \<open>heap-inl.h\<close>, a heap of linked nodes in a memory. \<open>tree_of\<close> says which tree the
    links form; the operations are shown to keep it, complete and ordered, for any weak order on the nodes.
  \<^item> \<open>UvTimer\<close>, \<open>UvTimerSpec\<close>: \<open>timer.c\<close> with the handle macros of \<open>uv-common.h\<close>, whose order of deadlines interprets the
    weak order. The states of a loop are those reachable by the operations.
  \<^item> \<open>UvInet\<close>, \<open>UvInetSpec\<close>, \<open>UvInet6\<close>, \<open>UvProps\<close>: \<open>strscpy.c\<close> and \<open>inet.c\<close>, and the properties of heaps, timers and addresses.
  \<^item> \<open>UvQueue\<close>: \<open>queue.h\<close>, circular lists of linked entries in a memory, as the lists of their entries.
  \<^item> \<open>UvPool\<close>, \<open>UvPoolSpec\<close>, \<open>UvPoolInv\<close>, \<open>UvPoolProps\<close>: \<open>threadpool.c\<close> for one loop. Each function is a stretch of code under one
    mutex; the step relations interleave the workers with the thread of the loop, and signals may wake any
    waiting thread. The invariant says where each request is, what its pointers are and which events it had.

  This theory has the properties of the byte strings of BoringSSL; they say of a reader that it accepts exactly the encodings of its
  values, of a writer that the reader gives back what it wrote, and of the \<open>CBB\<close> that errors stick and that a
  flush succeeds when memory lasts. Those of certificates say exactly which names match a host, that a star covers
  one label, and that a text keeps its code points when its type changes. Those of stacks and hash tables say which list or set a
  structure is, when adding to it fails, and that a table stays well formed while callbacks of an iteration change it. The properties of nanopb say the same of the wire format and of the fields,
  that decoders write only inside their object, that no input makes the decoder of a message write outside the structure, that
  encoding writes the wire format of the value of a message and decoding gives that value back; those of libuv say
  that the heap is a priority queue, that the timers of a loop are exactly the active ones, that due timers run
  once each, in order, and that the pool of threads loses no work, runs none twice and does not get stuck.

  Bounds and fuel. Sizes are naturals, and additions that can wrap are written with \<open>szadd\<close> and \<open>szmul\<close>. The recursion
  of the BER functions is on the depth bound of the code itself. Loops on links of nodes, the search
  of the iterator and the loops over the fields of a message are partial functions with \<open>None\<close> for not returning, and are shown
  to return; the other loops are recursive functions with a measure, so they return by construction. Messages of
  nanopb go by the depth of the messages nested in them, which \<open>static_message\<close> bounds.

  Not modelled: freeing memory and locale-dependent formatting, which have no result the code reads; the decoder of
  certificates and their chains, of which the alternative names and the subject are fields of a record; the
  ciphers, hashes and TLS of BoringSSL; streams of
  nanopb with callbacks of the caller; the rest of libuv, which calls the operating system; and the other
  pods, in C++, Objective-C and Swift.
\<close>

section \<open>Reading DER\<close>

text \<open>C1. The DER reader is exact: \<open>CBS_get_any_asn1\<close> succeeds with contents, tag and rest if and only if its
  input is the one canonical DER encoding of that tag and contents (shortest tag, shortest length, less
  than four gigabytes of contents), followed by that rest.\<close>

theorem der_reader_exact:
  "CBS_get_any_asn1 s = (Some (c, t), r) \<longleftrightarrow> length c < 2 ^ 32 \<and> s = der_element (t, c) @ r"
  by (rule get_any_asn1_iff)

text \<open>DER is prefix free, so a sequence of elements can be split in one way only: two lists of elements of
  the same number whose encodings agree up to trailing bytes are equal.\<close>

theorem der_sequence_unique:
  assumes "\<forall>x\<in>set xs. length (fst x) < 2 ^ 32" "\<forall>y\<in>set ys. length (fst y) < 2 ^ 32" "length xs = length ys"
    and "concat (map (\<lambda>ct. der_element (snd ct, fst ct)) xs) @ r = concat (map (\<lambda>ct. der_element (snd ct, fst ct)) ys) @ r'"
  shows "xs = ys \<and> r = r'"
  using assms by (rule any_asn1.concat_enc_inj)

lemma der_sequence_unique_witness:
  "[([1 :: byte], CBS_ASN1_INTEGER)] = [([1], CBS_ASN1_INTEGER)] \<and> [7 :: byte] = [7]"
  using der_sequence_unique [of "[([1], CBS_ASN1_INTEGER)]" "[([1], CBS_ASN1_INTEGER)]" "[7]" "[7]"] by simp

text \<open>The readers of INTEGER and BOOLEAN values accept exactly the minimal encoding of the value: a 64-bit
  two's complement number, a 64-bit unsigned number, the octets \<open>00\<close> and \<open>FF\<close>.\<close>

theorem integer_readers_exact:
  "(CBS_get_asn1_int64 s = (Some v, r) \<longleftrightarrow> s = der_element (CBS_ASN1_INTEGER, asn1_int64_bytes v) @ r)
   \<and> (CBS_get_asn1_uint64 s = (Some u, r) \<longleftrightarrow> s = der_element (CBS_ASN1_INTEGER, asn1_uint64_bytes u) @ r)
   \<and> (CBS_get_asn1_bool s = (Some b, r) \<longleftrightarrow> s = der_element (CBS_ASN1_BOOLEAN, asn1_bool_bytes b) @ r)"
  by (simp add: get_int64_iff get_uint64_iff get_bool_iff)

text \<open>On a failure the element reader leaves its input as it was, and on a success it has taken the
  element, of at least two bytes, off the front; so every loop over elements ends.\<close>

theorem element_reader_frame:
  "(cbs_get_any_asn1_element s b = (None, r) \<longrightarrow> r = s)
   \<and> (cbs_get_any_asn1_element s b = (Some e, r) \<longrightarrow> s = elem e @ r \<and> 2 \<le> header_len e \<and> header_len e \<le> length (elem e))"
  using element_failure_keeps [of s b r] element_consumes [of s b e r] element_header_bounds [of s b e r] by blast

lemma element_reader_frame_witness:
  "cbs_get_any_asn1_element [2] False = (None, [2]) \<and> [2 :: byte] = [2]"
  using element_reader_frame [of "[2]" False "[2]"]
  by (simp add: cbs_get_any_asn1_element_def parse_asn1_tag_def Let_def)

text \<open>The BER reader accepts what the DER reader accepts and reports no BER for it, and every element it
  reports to be free of BER is one the DER reader accepts, with the same result.\<close>

theorem ber_reader_extends_der:
  "cbs_get_any_asn1_element s True = (Some e, r) \<and> \<not> ber_found e
   \<longleftrightarrow> cbs_get_any_asn1_element s False = (Some e, r)"
  by (rule element_ber_der)

section \<open>Building byte strings\<close>

text \<open>C3. Refinement: a \<open>CBB\<close> is a stack of open children, each with its kind of length prefix and the bytes
  written to it so far. When \<open>CBB_flush\<close> succeeds at a depth, the buffer holds the frames in which every
  deeper child is closed: its length prefix filled in (for ASN.1 in its shortest form, with the contents
  moved up), its bytes appended to its parent. It succeeds only if each length fits its prefix.\<close>

theorem flush_closes_children:
  assumes "malloc_sound mal" "builds st fs" "CBB_flush mal d st = (True, st')"
  shows "builds st' (flush_frames d fs) \<and> collapsible (drop (Suc d) fs)"
  using assms by (rule flush_builds_collapsible)

lemma flush_closes_children_witness:
  "builds (snd (CBB_flush (\<lambda>n. Some (replicate n 0)) 0
     \<lparr>base = Some \<lparr>b_buf = [0x30, 0, 5, 0], b_len = 4, b_cap = 4, b_can_resize = True, b_error = False\<rparr>,
      chain = [zero_cbb, \<lparr>offset = 1, pending_len_len = 1, pending_is_asn1 = True, is_child = True\<rparr>]\<rparr>))
   [(Root, [0x30, 2, 5, 0])]"
proof -
  let ?st = "\<lparr>base = Some \<lparr>b_buf = [0x30, 0, 5, 0], b_len = 4, b_cap = 4, b_can_resize = True, b_error = False\<rparr>,
      chain = [zero_cbb, \<lparr>offset = 1, pending_len_len = 1, pending_is_asn1 = True, is_child = True\<rparr>]\<rparr>"
  have b: "builds ?st [(Root, [0x30]), (Asn1, [5, 0])]"
    by (simp add: builds_def wf_frames_def zero_cbb_def ok_buf_def content_def body_def frame_bytes_def)
  have f: "fst (CBB_flush (\<lambda>n. Some (replicate n 0)) 0 ?st)"
    by (simp add: CBB_flush.simps flush_child_def asn1_len_len_def zero_cbb_def Let_def)
  have e: "CBB_flush (\<lambda>n. Some (replicate n 0)) 0 ?st = (True, snd (CBB_flush (\<lambda>n. Some (replicate n 0)) 0 ?st))"
    using f by (simp add: prod_eq_iff)
  show ?thesis
    using flush_closes_children [OF malloc_total_sound [OF malloc_total_zeros] b e]
    by (simp add: flush_frames_def append_top_def der_length_bytes_def)
qed

text \<open>Progress: with an allocator that never fails and a growable buffer, a flush succeeds whenever the
  length of each open child fits its prefix and the result stays below \<open>2 ^ 61\<close> bytes.\<close>

theorem flush_succeeds:
  assumes "malloc_total mal" "builds st fs" "growable_state st" "d < length fs" "collapsible (drop (Suc d) fs)"
    and "length (body (flush_frames d fs)) \<le> 2 ^ 61"
  shows "\<exists>st'. CBB_flush mal d st = (True, st') \<and> growable_state st'"
  using assms by (rule flush_total)

lemma flush_succeeds_witness:
  "\<exists>st'. CBB_flush (\<lambda>n. Some (replicate n 0)) 0
     \<lparr>base = Some \<lparr>b_buf = [0, 7], b_len = 2, b_cap = 2, b_can_resize = True, b_error = False\<rparr>,
      chain = [zero_cbb, \<lparr>offset = 0, pending_len_len = 1, pending_is_asn1 = False, is_child = True\<rparr>]\<rparr>
     = (True, st') \<and> growable_state st'"
  by (rule flush_succeeds [OF malloc_total_zeros, where fs = "[(Root, []), (Fixed 1, [7])]"])
    (simp_all add: builds_def wf_frames_def zero_cbb_def ok_buf_def content_def body_def frame_bytes_def
      growable_state_def growable_def flush_frames_def append_top_def drop_bit_eq_div)

text \<open>C39. Errors stick: once the buffer is in error, or gone, flushing, adding and finishing all fail.\<close>

theorem cbb_error_sticky:
  assumes "failed st"
  shows "CBB_flush mal d st = (False, st) \<and> \<not> fst (CBB_add_u8 mal d v st) \<and> \<not> fst (CBB_add_asn1 mal d t st)
    \<and> \<not> fst (CBB_add_u16_length_prefixed mal d st) \<and> \<not> fst (CBB_add_asn1_int64 mal d w st)
    \<and> fst (CBB_finish mal 0 out st) = None"
proof -
  have "CBB_flush mal k st = (False, st)" for k using assms by (rule flush_sticky)
  moreover have "fst (CBB_finish mal 0 out st) = None" using assms by (simp add: CBB_finish_def flush_sticky)
  ultimately show ?thesis
    using put_u8.sticky [OF assms, of mal d v] open_asn1.opens_sticky [OF assms, of mal d t]
      open_u16.opens_sticky [OF assms, of mal d] put_int64.sticky [OF assms, of mal d w] by auto
qed

lemma cbb_error_sticky_witness: "\<not> fst (CBB_add_u8 (\<lambda>n. None) 0 7 CBB_zero)"
  using cbb_error_sticky [of CBB_zero "\<lambda>n. None" 0 7] by (simp add: CBB_zero_def failed_def)

text \<open>Failures poison: when adding to a valid \<open>CBB\<close> fails, the buffer is left in error, so a later
  \<open>CBB_finish\<close> cannot hand out an output with a piece missing.\<close>

theorem cbb_failure_poisons:
  assumes "d < length (chain st)"
    and "CBB_add_u8 mal d v st = (False, st') \<or> CBB_add_asn1 mal d t st = (False, st')
      \<or> CBB_add_u16_length_prefixed mal d st = (False, st') \<or> CBB_add_asn1_int64 mal d w st = (False, st')
      \<or> CBB_add_asn1_uint64 mal d w st = (False, st')"
  shows "failed st' \<and> fst (CBB_finish mal 0 out st') = None"
proof -
  have "failed st'"
    using assms put_u8.poisons [of mal d v st st'] open_asn1.opens_poisons [of mal d t st st']
      open_u16.opens_poisons [of mal d st st'] put_int64.poisons [of mal d w st st'] put_uint64.poisons [of mal d w st st']
    by blast
  then show ?thesis by (simp add: CBB_finish_def flush_sticky)
qed

lemma cbb_failure_poisons_witness:
  "fst (CBB_finish (\<lambda>n. None) 0 True (snd (CBB_add_u8 (\<lambda>n. None) 0 7
     \<lparr>base = Some \<lparr>b_buf = [], b_len = 0, b_cap = 0, b_can_resize = True, b_error = False\<rparr>, chain = [zero_cbb]\<rparr>))) = None"
proof -
  let ?st = "\<lparr>base = Some \<lparr>b_buf = [], b_len = 0, b_cap = 0, b_can_resize = True, b_error = False\<rparr>, chain = [zero_cbb]\<rparr>"
  have "CBB_add_u8 (\<lambda>n. None) 0 7 ?st = (False, snd (CBB_add_u8 (\<lambda>n. None) 0 7 ?st))"
    by (simp add: CBB_add_u8_def with_base_def CBB_flush.simps cbb_buffer_add_u_def cbb_buffer_add_def cbb_buffer_reserve_def
        OPENSSL_realloc_def OPENSSL_malloc_def Let_def)
  then show ?thesis using cbb_failure_poisons [of 0 ?st "\<lambda>n. None" 7] by simp
qed

text \<open>Round trip of integers: what \<open>CBB_add_asn1_int64\<close> and \<open>CBB_add_asn1_uint64\<close> build is read back by
  the matching reader, with whatever follows left over.\<close>

theorem integers_round_trip:
  assumes "malloc_total mal" "cap \<le> 2 ^ 62"
  shows "(\<exists>out. build (\<lambda>mal d. CBB_add_asn1_int64 mal d v) mal cap = Some out \<and> CBS_get_asn1_int64 (out @ r) = (Some v, r))
    \<and> (\<exists>out. build (\<lambda>mal d. CBB_add_asn1_uint64 mal d v) mal cap = Some out \<and> CBS_get_asn1_uint64 (out @ r) = (Some v, r))"
proof -
  have "length (der_element (CBS_ASN1_INTEGER, asn1_int64_bytes v)) \<le> 2 ^ 61"
    "length (der_element (CBS_ASN1_INTEGER, asn1_uint64_bytes v)) \<le> 2 ^ 61"
    using length_der_element [of CBS_ASN1_INTEGER "asn1_int64_bytes v"]
      length_der_element [of CBS_ASN1_INTEGER "asn1_uint64_bytes v"] length_asn1_int_bytes [of v] by simp_all
  then show ?thesis
    using build_writer [OF writer_int64 assms] build_writer [OF writer_uint64 assms] int64_codec.dec_enc uint64_codec.dec_enc by blast
qed

lemma integers_round_trip_witness:
  "\<exists>out. build (\<lambda>mal d. CBB_add_asn1_int64 mal d (- 129)) (\<lambda>n. Some (replicate n 0)) 16 = Some out
     \<and> CBS_get_asn1_int64 (out @ [1]) = (Some (- 129), [1])"
  using integers_round_trip [OF malloc_total_zeros, of 16 "- 129" "[1]"] by simp

text \<open>Round trip of strings and booleans, and of an element inside an element: the contents that one
  child writer builds come back from the reader of the enclosing tag.\<close>

theorem elements_round_trip:
  assumes "malloc_total mal" "cap \<le> 2 ^ 62" "length c < 2 ^ 31"
  shows "(\<exists>out. build (\<lambda>mal d. CBB_add_asn1_octet_string mal d c) mal cap = Some out
      \<and> CBS_get_asn1 (out @ r) CBS_ASN1_OCTETSTRING = (Some c, r))
    \<and> (\<exists>out. build (enclose (\<lambda>mal d. CBB_add_asn1 mal d t) (\<lambda>mal d. CBB_add_asn1_octet_string mal d c)) mal cap = Some out
      \<and> (\<exists>inner. CBS_get_asn1 (out @ r) t = (Some inner, r) \<and> CBS_get_asn1 inner CBS_ASN1_OCTETSTRING = (Some c, [])))
    \<and> (\<exists>out. build (\<lambda>mal d. CBB_add_asn1_bool mal d b) mal cap = Some out \<and> CBS_get_asn1_bool (out @ r) = (Some b, r))"
proof -
  let ?o = "der_element (CBS_ASN1_OCTETSTRING, c)"
  have l: "length ?o \<le> 11 + 2 ^ 31" "length (der_element (t, ?o)) \<le> 22 + 2 ^ 31"
    "length (der_element (CBS_ASN1_BOOLEAN, asn1_bool_bytes b)) \<le> 2 ^ 61"
    using length_der_element [of CBS_ASN1_OCTETSTRING c] length_der_element [of t ?o] assms(3)
      length_der_element [of CBS_ASN1_BOOLEAN "asn1_bool_bytes b"] by (simp_all add: asn1_bool_bytes_def)
  have w: "writer (\<lambda>mal d. CBB_add_asn1_octet_string mal d c) ?o" using assms(3) by (intro writer_octet_string) simp
  have w': "writer (enclose (\<lambda>mal d. CBB_add_asn1 mal d t) (\<lambda>mal d. CBB_add_asn1_octet_string mal d c)) (der_element (t, ?o))"
    using l by (intro writer_element [OF appender_writer [OF w]]) simp
  have v: "length c < 2 ^ 32" "length ?o < 2 ^ 32" using assms(3) l by simp_all
  show ?thesis
    using build_writer [OF w assms(1,2)] build_writer [OF w' assms(1,2)] build_writer [OF writer_bool assms(1,2)] l
      asn1.dec_enc [OF v(1)] asn1.dec_enc_exact [OF v(1)] asn1.dec_enc [OF v(2)] bool_codec.dec_enc [of b r] by auto
qed

lemma elements_round_trip_witness:
  "\<exists>out. build (\<lambda>mal d. CBB_add_asn1_octet_string mal d [1, 2]) (\<lambda>n. Some (replicate n 0)) 0 = Some out
     \<and> CBS_get_asn1 (out @ [9]) CBS_ASN1_OCTETSTRING = (Some [1, 2], [9])"
  using elements_round_trip [OF malloc_total_zeros, of 0 "[1, 2]" "[9]"] by simp

text \<open>\<open>CBB_flush_asn1_set_of\<close> sorts: on success the contents of the open child were a list of DER
  elements and are now the same elements, with the same multiplicities, in the order of their encodings.\<close>

theorem set_of_sorts:
  assumes "malloc_sound mal" "builds st (gs @ [(k, c)])" "d = length gs" "CBB_flush_asn1_set_of mal d st = (True, st')"
  shows "\<exists>tcs. (\<forall>tc\<in>set tcs. length (snd tc) < 2 ^ 32) \<and> c = concat (encodings tcs)
    \<and> builds st' (gs @ [(k, concat (sort (encodings tcs)))])"
proof -
  have "flush_frames d (gs @ [(k, c)]) = gs @ [(k, c)]" "d < length (gs @ [(k, c)])"
    using assms(3) by (simp_all add: flush_frames_def append_top_def)
  then show ?thesis using set_of_sound [OF assms(1,2) _ assms(4)] by metis
qed

lemma set_of_sorts_witness:
  "\<exists>tcs st'. [5, 0, 2, 1, 7 :: byte] = concat (encodings tcs) \<and> builds st' [(Root, concat (sort (encodings tcs)))]"
proof -
  let ?tcs = "[(5, []), (2, [7])] :: (tag \<times> bytes) list"
  let ?st = "\<lparr>base = Some \<lparr>b_buf = [5, 0, 2, 1, 7], b_len = 5, b_cap = 5, b_can_resize = True, b_error = False\<rparr>, chain = [zero_cbb]\<rparr>"
  have c: "concat (encodings ?tcs) = [5, 0, 2, 1, 7]"
    by (simp add: encodings_def der_element_def der_header_def der_tag_bytes_def der_length_bytes_def Let_def)
  have b: "builds ?st ([] @ [(Root, [5, 0, 2, 1, 7])])"
    by (simp add: builds_def wf_frames_def zero_cbb_def ok_buf_def content_def body_def frame_bytes_def)
  obtain st' where "CBB_flush_asn1_set_of (\<lambda>n. Some (replicate n 0)) 0 ?st = (True, st')"
    using set_of_total [OF malloc_total_zeros b, of 0 "[]" Root ?tcs]
    by (auto simp: growable_state_def growable_def flush_frames_def append_top_def c body_def frame_bytes_def)
  from set_of_sorts [OF malloc_total_sound [OF malloc_total_zeros] b _ this] show ?thesis by auto
qed

section \<open>Object identifiers and text\<close>

text \<open>C30. \<open>CBB_add_asn1_oid_from_text\<close> accepts exactly the dotted texts of object identifiers (at least two
  arcs, the first at most 2, the second below 40 under 0 and 1, each arc a 64-bit number without leading
  zeros) and writes the identifier's contents octets.\<close>

theorem oid_from_text_exact:
  assumes "malloc_total mal" "length text < 2 ^ 56"
  shows "build (\<lambda>mal d. CBB_add_asn1_oid_from_text mal d text) mal 64 = Some out
    \<longleftrightarrow> (\<exists>arcs. oid_valid arcs \<and> text = dotted_text arcs \<and> out = oid_contents arcs)"
    (is "?build = _ \<longleftrightarrow> ?rhs")
proof -
  have built: "?build = Some (oid_contents arcs)" if a: "oid_valid arcs" "text = dotted_text arcs" for arcs
  proof -
    have "length (oid_contents arcs) \<le> 2 ^ 61"
      using length_oid_contents [OF a(1)] length_arcs_le [of arcs] assms(2) a(2) by simp
    then show ?thesis using build_writer [OF writer_oid_from_text [OF a(1)] assms(1)] a(2) by simp
  qed
  show ?thesis
  proof
    assume b: "?build = Some out"
    obtain st st' where "CBB_add_asn1_oid_from_text mal 0 text st = (True, st')"
      using b by (auto simp: build_def split: prod.splits bool.splits option.splits)
    then obtain arcs where "oid_valid arcs" "text = dotted_text arcs" using from_text_sound by blast
    then show ?rhs using built b by auto
  next
    assume ?rhs
    then show "?build = Some out" using built by auto
  qed
qed

lemma oid_from_text_exact_witness:
  "build (\<lambda>mal d. CBB_add_asn1_oid_from_text mal d (dotted_text [1, 2, 840])) (\<lambda>n. Some (replicate n 0)) 64
   = Some [42, 0x86, 0x48]"
proof -
  have t: "dotted_text [1, 2, 840] = [49, 46, 50, 46, 56, 52, 48]" by (simp add: decimal.simps)
  have o: "oid_contents [1, 2, 840] = [42, 0x86, 0x48]"
    by (simp add: base128_bytes_def b128_hi.simps)
  have v: "oid_valid [1, 2, 840]" by simp
  have l: "length (dotted_text [1, 2, 840]) < 2 ^ 56" unfolding t by simp
  show ?thesis
    unfolding oid_from_text_exact [OF malloc_total_zeros l] using v o by (intro exI [of _ "[1, 2, 840]"]) simp
qed

text \<open>C37. \<open>CBS_asn1_oid_to_text\<close> prints exactly the valid identifiers: it returns a string if and only if the
  octets are the contents of an object identifier with 64-bit arcs, and the string is that identifier's
  dotted text; so printing what was parsed from a text gives the text back.\<close>

theorem oid_to_text_exact:
  assumes "malloc_total mal" "length cbs < 2 ^ 50"
  shows "case CBS_asn1_oid_to_text mal cbs of
      None \<Rightarrow> \<nexists>arcs. oid_valid arcs \<and> cbs = oid_contents arcs
    | Some txt \<Rightarrow> \<exists>arcs. oid_valid arcs \<and> cbs = oid_contents arcs \<and> cstring txt = dotted_text arcs"
proof -
  have complete: "\<exists>txt. CBS_asn1_oid_to_text mal cbs = Some txt \<and> cstring txt = dotted_text arcs"
    if a: "oid_valid arcs" "cbs = oid_contents arcs" for arcs
    using oid_to_text_complete [OF assms(1) a(1)] length_dotted_text [OF a(1)] assms(2) a(2) by simp
  show ?thesis
  proof (cases "CBS_asn1_oid_to_text mal cbs")
    case None
    then show ?thesis using complete by force
  next
    case (Some str)
    then show ?thesis using complete oid_to_text_sound [OF Some] by force
  qed
qed

lemma oid_to_text_exact_witness:
  "case CBS_asn1_oid_to_text (\<lambda>n. Some (replicate n 0)) [42, 0x86, 0x48] of
      None \<Rightarrow> \<nexists>arcs. oid_valid arcs \<and> [42, 0x86, 0x48] = oid_contents arcs
    | Some txt \<Rightarrow> \<exists>arcs. oid_valid arcs \<and> [42, 0x86, 0x48] = oid_contents arcs \<and> cstring txt = dotted_text arcs"
  by (rule oid_to_text_exact [OF malloc_total_zeros]) simp

text \<open>The UTF-8 reader is exact: it returns a code point if and only if the input starts with that code
  point's shortest UTF-8 form and the code point is one Unicode assigns meaning to (no surrogate, no
  non-character, at most \<open>10FFFF\<close>).\<close>

theorem utf8_reader_exact:
  "cbs_get_utf8 s = (Some v, r) \<longleftrightarrow> is_valid_code_point v \<and> s = utf8_bytes (unat v) @ r"
  by (rule get_utf8_iff)

text \<open>Writing a valid code point and reading it gives it back, and as many bytes are written as
  \<open>cbb_get_utf8_len\<close> announces; an invalid one is refused.\<close>

theorem utf8_round_trip:
  assumes "malloc_total mal" "cap \<le> 2 ^ 62"
  shows "case build (\<lambda>mal d. cbb_add_utf8 mal d v) mal cap of
      None \<Rightarrow> \<not> is_valid_code_point v
    | Some out \<Rightarrow> is_valid_code_point v \<and> cbs_get_utf8 (out @ r) = (Some v, r) \<and> length out = cbb_get_utf8_len v"
proof (cases "is_valid_code_point v")
  case True
  have "length (utf8_bytes (unat v)) \<le> 2 ^ 61" by (simp add: utf8_len cbb_get_utf8_len_def)
  then show ?thesis
    using build_writer [OF writer_utf8 [OF True] assms] utf8_codec.dec_enc [OF True, of r] True utf8_len [of v] by simp
next
  case False
  then have "build (\<lambda>mal d. cbb_add_utf8 mal d v) mal cap = None"
    by (auto simp: build_def cbb_add_utf8_def split: prod.splits bool.splits)
  then show ?thesis using False by simp
qed

lemma utf8_round_trip_witness:
  "case build (\<lambda>mal d. cbb_add_utf8 mal d 0x20ac) (\<lambda>n. Some (replicate n 0)) 8 of
      None \<Rightarrow> \<not> is_valid_code_point 0x20ac
    | Some out \<Rightarrow> is_valid_code_point 0x20ac \<and> cbs_get_utf8 (out @ [1]) = (Some 0x20ac, [1]) \<and> length out = cbb_get_utf8_len 0x20ac"
  by (rule utf8_round_trip [OF malloc_total_zeros]) simp

section \<open>BER and DER\<close>

text \<open>C28. \<open>CBS_asn1_ber_to_der\<close> converts: on the encoding of a BER value in which the scan finds BER, nested no
  deeper than the limit, it returns the DER form of the value: definite minimal lengths, and the
  fragments of each constructed string joined under the primitive tag.\<close>

theorem ber_converts_to_der:
  assumes "malloc_total mal" "ber_ok x" "der_able x" "ber_height x \<le> kMaxDepth"
    and "cbs_find_ber (ber_encode x) False 0 = Some True" "length (ber_encode x) \<le> 2 ^ 62"
  shows "\<exists>buf. CBS_asn1_ber_to_der mal (ber_encode x) = (Some (der_form x, Some buf), [])"
  using assms by (rule ber_to_der_converts)

lemma ber_converts_to_der_witness:
  "\<exists>buf. CBS_asn1_ber_to_der (\<lambda>n. Some (replicate n 0)) [0x30, 0x80, 2, 1, 7, 0, 0] = (Some ([0x30, 3, 2, 1, 7], Some buf), [])"
proof -
  let ?x = "BIndef 0x20000010 [BPrim 2 [1] [7]]"
  have e: "ber_encode ?x = [0x30, 0x80, 2, 1, 7, 0, 0]" by (simp add: der_tag_bytes_def Let_def)
  have f: "der_form ?x = [0x30, 3, 2, 1, 7]"
    by (simp add: der_constructed_def is_string_type_def primitive_tag_def der_element_def der_header_def der_tag_bytes_def der_length_bytes_def Let_def)
  have "cbs_find_ber [0x30, 0x80, 2, 1, 7, 0, 0] False 0 = Some True"
    by (simp add: cbs_find_ber.simps cbs_get_any_asn1_element_def CBS_get_any_ber_asn1_element_def parse_asn1_tag_def
        asn1_get_element_def CBS_get_u8_def cbs_get_def CBS_get_bytes_def CBS_init_def CBS_len_def Let_def)
  then show ?thesis
    using ber_converts_to_der [OF malloc_total_zeros, of ?x] e f
    by (simp add: constructed_def ber_length_def der_limit_def is_string_type_def primitive_tag_def der_element_def der_header_def der_tag_bytes_def
        der_length_bytes_def Let_def)
qed

text \<open>On DER without constructed strings nothing is converted: the input comes back as it is, whatever the
  allocator does.\<close>

theorem der_is_kept:
  assumes "is_der x" "ber_height x \<le> kMaxDepth"
  shows "CBS_asn1_ber_to_der mal (ber_encode x) = (Some (ber_encode x, None), [])"
  using assms by (rule ber_to_der_der)

lemma der_is_kept_witness:
  "CBS_asn1_ber_to_der (\<lambda>n. None) [2, 1, 7] = (Some ([2, 1, 7], None), [])"
  using der_is_kept [of "BPrim 2 [1] [7]" "\<lambda>n. None"]
  by (simp add: constructed_def der_length_bytes_def der_tag_bytes_def Let_def)

text \<open>C40. The scan for BER misses a nested constructed string followed by a sibling: on a sequence of a sequence
  that holds an empty constructed octet string, followed by a NULL, \<open>cbs_find_ber\<close> reports no BER, because
  the answer of the recursive call is overwritten by the next element, and \<open>CBS_asn1_ber_to_der\<close> hands
  the BER out unconverted, although the DER form of the value is different.\<close>

theorem find_ber_misses_nested:
  "let x = BDef 0x20000010 [6] [BDef 0x20000010 [2] [BDef 0x20000004 [0] []], BPrim 5 [0] []]
   in ber_encode x = [0x30, 6, 0x30, 2, 0x24, 0, 5, 0] \<and> ber_ok x \<and> der_able x \<and> der_form x \<noteq> ber_encode x
    \<and> cbs_find_ber (ber_encode x) False 0 = Some False
    \<and> CBS_asn1_ber_to_der mal (ber_encode x) = (Some (ber_encode x, None), [])"
proof -
  let ?s = "[0x30, 6, 0x30, 2, 0x24, 0, 5, 0] :: bytes"
  have t: "der_tag_bytes 0x20000010 = [0x30]" "der_tag_bytes 0x20000004 = [0x24]" "der_tag_bytes 5 = [5]" "der_tag_bytes 4 = [4]"
    by (simp_all add: der_tag_bytes_def)
  have st: "is_string_type 0x20000004" "\<not> is_string_type 0x20000010" "primitive_tag 0x20000004 = 4"
    by (simp_all add: is_string_type_def primitive_tag_def)
  have ct: "constructed 0x20000010" "constructed 0x20000004" "\<not> constructed 5" by (simp_all add: constructed_def)
  have e: "der_element (0x20000010, [0x30, 2, 0x24, 0, 5, 0]) = ?s" "der_element (0x20000010, [0x24, 0]) @ [5, 0] = [0x30, 2, 0x24, 0, 5, 0]"
    "der_element (0x20000004, []) = [0x24, 0]" "der_element (5, []) = [5, 0]" "der_element (4, []) = [4, 0]"
    by (simp_all add: der_element_def der_header_def t der_length_bytes_def)
  have "cbs_find_ber [0x24, 0] False (1 + 1) = Some True"
    using element_complete [of "[]" "0x20000004" "[]" True] st(1)
    by (subst cbs_find_ber.simps) (simp add: e CBS_get_any_ber_asn1_element_def CBS_len_def)
  moreover have "cbs_find_ber [5, 0] True 1 = Some False"
    using find_ber_prim [of 5 "[]" 1 "[]" True] ct(3)
    by (simp add: e cbs_find_ber.simps [of "[]"] CBS_len_def)
  ultimately have "cbs_find_ber [0x30, 2, 0x24, 0, 5, 0] False 1 = Some False"
    using find_ber_constructed [of "0x20000010" "[0x24, 0]" 1 "[5, 0]" False] ct st by (simp add: e one_add_one)
  then have f: "cbs_find_ber ?s False 0 = Some False"
    using find_ber_constructed [of "0x20000010" "[0x30, 2, 0x24, 0, 5, 0]" 0 "[]" False] ct st
    by (simp add: e cbs_find_ber.simps [of "[]"] CBS_len_def)
  have g: "CBS_get_any_asn1_element ?s = (Some \<lparr>elem = ?s, elem_tag = 0x20000010,
      header_len = 2, ber_found = False\<rparr>, [])"
    using element_complete [of "[0x30, 2, 0x24, 0, 5, 0]" "0x20000010" "[]" False]
    by (simp add: e CBS_get_any_asn1_element_def der_header_def t der_length_bytes_def)
  have d: "der_form (BDef 0x20000010 [6] [BDef 0x20000010 [2] [BDef 0x20000004 [0] []], BPrim 5 [0] []])
      = [0x30, 6, 0x30, 2, 4, 0, 5, 0]"
    using st by (simp add: der_constructed_def e) (simp add: der_element_def der_header_def t der_length_bytes_def)
  show ?thesis
    unfolding Let_def d
    using f g st ct by (simp add: t CBS_asn1_ber_to_der_def ber_length_def der_limit_def der_constructed_def e
        der_element_def der_header_def der_length_bytes_def)
qed

section \<open>Memory, strings and constant time\<close>

text \<open>\<open>CRYPTO_memcmp\<close>, which looks at every byte whatever it finds, returns zero exactly for equal bytes.\<close>

theorem memcmp_exact:
  assumes "len \<le> length a" "len \<le> length b"
  shows "CRYPTO_memcmp a b len = 0 \<longleftrightarrow> take len a = take len b"
  using assms by (rule CRYPTO_memcmp_zero_iff)

lemma memcmp_exact_witness: "CRYPTO_memcmp [1, 2, 3] [1, 2, 4] 2 = 0"
  using memcmp_exact [of 2 "[1, 2, 3]" "[1, 2, 4]"] by simp

text \<open>\<open>OPENSSL_strlcpy\<close> never writes past its buffer, always terminates it, copies as much of the source
  as fits and returns the length of the whole source, so that truncation can be detected.\<close>

theorem strlcpy_bounded:
  assumes "0 \<in> set src" "length dst = n" "0 < n"
  shows "cstring (fst (OPENSSL_strlcpy dst src n)) = take (n - 1) (cstring src)
    \<and> length (fst (OPENSSL_strlcpy dst src n)) = n \<and> snd (OPENSSL_strlcpy dst src n) = strlen src"
  using OPENSSL_strlcpy_eq [OF assms] by simp

lemma strlcpy_bounded_witness: "cstring (fst (OPENSSL_strlcpy [9, 9] [65, 66, 67, 0] 2)) = [65]"
  using strlcpy_bounded [of "[65, 66, 67, 0]" "[9, 9]" 2] by (simp add: cstring_def)

text \<open>\<open>OPENSSL_strcasecmp\<close> compares C strings up to the case of ASCII letters: it is antisymmetric and it
  is zero exactly when the two strings are equal after \<open>OPENSSL_tolower\<close>.\<close>

theorem strcasecmp_equality:
  assumes "0 \<in> set a" "0 \<in> set b"
  shows "OPENSSL_strcasecmp b a = - OPENSSL_strcasecmp a b \<and>
    (OPENSSL_strcasecmp a b = 0 \<longleftrightarrow> map (OPENSSL_tolower \<circ> sint) (cstring a) = map (OPENSSL_tolower \<circ> sint) (cstring b))"
  using OPENSSL_strcasecmp_antisym OPENSSL_strcasecmp_zero_iff [OF assms] by blast

lemma strcasecmp_equality_witness: "OPENSSL_strcasecmp [97, 66, 0] [65, 98, 0] = 0"
  using strcasecmp_equality [of "[97, 66, 0]" "[65, 98, 0]"] by (simp add: cstring_def OPENSSL_tolower_def)

text \<open>The constant-time comparisons, which use no branch, return the all-ones mask when the comparison
  holds and zero otherwise, on every pair of words, and a selection with such a mask picks a side.\<close>

theorem constant_time_correct:
  "constant_time_lt_w a b = mask_of (a < b) \<and> constant_time_ge_w a b = mask_of (b \<le> a)
   \<and> constant_time_eq_w a b = mask_of (a = b) \<and> constant_time_is_zero_w a = mask_of (a = 0)
   \<and> constant_time_select_w (mask_of c) a b = (if c then a else b)"
  by (simp add: lt_w_eq ge_w_eq eq_w_eq is_zero_w_eq select_w_eq)

section \<open>Base64\<close>

text \<open>Decoding in one call inverts encoding: \<open>EVP_DecodeBase64\<close> returns the bytes that \<open>EVP_EncodeBlock\<close>
  encoded when its buffer has the announced size, and \<open>EVP_DecodeBlock\<close> returns them followed by the
  NULs that fill the last triple; the announced length of the encoding is the one written.\<close>

theorem base64_round_trip:
  assumes "length src \<le> 2147483000"
  shows "case EVP_EncodeBlock src of (out, n) \<Rightarrow>
      EVP_EncodedLength (length src) = Some (length out) \<and> out = take n out @ [0]
      \<and> EVP_DecodeBase64 ((length src + 2) div 3 * 3) (take n out) = (True, src, length src)
      \<and> EVP_DecodeBlock (take n out)
        = (int ((length src + 2) div 3 * 3), src @ replicate ((length src + 2) div 3 * 3 - length src) 0)"
proof -
  have l: "length src < 2 ^ 62" using assms by simp
  show ?thesis
    using EncodedLength_exact [OF l] DecodeBase64_encode [OF l order.refl] DecodeBlock_encode [OF assms]
    by (simp add: EVP_EncodeBlock_def Let_def)
qed

lemma base64_round_trip_witness:
  "EVP_DecodeBlock (take 4 (fst (EVP_EncodeBlock [77, 78, 79]))) = (3, [77, 78, 79])"
  using base64_round_trip [of "[77, 78, 79]"] by (simp add: EVP_EncodeBlock_def Let_def)

text \<open>The streaming encoder does not depend on how its input is cut: the updates on any chunks and the
  final call write the lines of 48 bytes of the whole input, each with a newline, the last one shorter.\<close>

theorem base64_encode_chunks:
  assumes "\<forall>inp\<in>set inps. length inp \<le> 2 ^ 29"
  shows "encode_stream inps = base64_lines (concat inps)"
  using assms by (rule encode_stream_lines)

lemma base64_encode_chunks_witness: "encode_stream [[1], [], [2, 3]] = base64_lines [1, 2, 3]"
  using base64_encode_chunks [of "[[1], [], [2, 3]]"] by simp

text \<open>C31. The streaming decoder inverts it, whatever the chunks its input is cut into, and depends on
  the concatenation of its chunks only.\<close>

theorem base64_decode_chunks:
  assumes "\<forall>inp\<in>set inps. length inp \<le> 2 ^ 29" "\<forall>inp\<in>set inps'. length inp \<le> 2 ^ 29" "concat inps = concat inps'"
  shows "decode_stream inps = decode_stream inps'
    \<and> (concat inps = base64_lines xs \<longrightarrow> decode_stream inps = Some xs)"
  using decode_stream_concat [OF assms(1)] decode_stream_concat [OF assms(2)] assms(3)
    decode_stream_lines [OF _ assms(1)] by simp

lemma base64_decode_chunks_witness:
  "decode_stream [base64_lines [1, 2, 3], []] = Some [1, 2, 3]"
proof -
  have "length (base64_lines [1, 2, 3]) \<le> 2 ^ 29"
    by (simp add: base64_lines_def short_line length_encode_line)
  then show ?thesis
    using base64_decode_chunks [of "[base64_lines [1, 2, 3], []]" "[base64_lines [1, 2, 3], []]" "[1, 2, 3]"] by simp
qed

end
